(* ===== verification/Prelude.thy ===== *)
theory Prelude
  imports
    Main
    "HOL-Library.AList"
    "HOL-Library.List_Lexorder"
    "HOL-Library.Char_ord"
    "HOL-Library.Multiset"
begin

text \<open>
  The vocabulary every component shares: the result of a method that may throw
  (\<open>'e + 'a\<close>, \<open>Inl\<close> the error), the JavaScript array and \<open>Map\<close> primitives the code
  calls (\<open>find\<close>, \<open>findIndex\<close>, \<open>splice\<close>, \<open>Map.set\<close>, \<open>sort\<close> on strings), JSON values,
  and the generic lemmas on lists and association lists the component proofs use.
\<close>

named_theorems result_simps
named_theorems js_simps
named_theorems inv_intros

section \<open>Results of methods that may throw\<close>

definition bindR :: "'e + 'a \<Rightarrow> ('a \<Rightarrow> 'e + 'b) \<Rightarrow> 'e + 'b" where
  "bindR m f = (case m of Inl e \<Rightarrow> Inl e | Inr x \<Rightarrow> f x)"

text \<open>\<open>assert(condition, error)\<close> of the value-objects library: throws unless the condition holds.\<close>

definition ensure :: "bool \<Rightarrow> 'e \<Rightarrow> 'e + unit" where
  "ensure b e = (if b then Inr () else Inl e)"

definition isOK :: "'e + 'a \<Rightarrow> bool" where
  "isOK m = (case m of Inl _ \<Rightarrow> False | Inr _ \<Rightarrow> True)"

lemma bindR_simps [simp]:
  "bindR (Inl e) f = Inl e"
  "bindR (Inr x) f = f x"
  by (simp_all add: bindR_def)

lemma bindR_eq_Inr [simp]: "bindR m f = Inr y \<longleftrightarrow> (\<exists>x. m = Inr x \<and> f x = Inr y)"
  by (cases m) auto

lemma bindR_eq_Inl: "bindR m f = Inl e \<longleftrightarrow> m = Inl e \<or> (\<exists>x. m = Inr x \<and> f x = Inl e)"
  by (cases m) auto

lemma bindR_cong [fundef_cong]:
  assumes "m = m'" and "\<And>x. m' = Inr x \<Longrightarrow> f x = f' x"
  shows "bindR m f = bindR m' f'"
  using assms by (cases m') auto

lemma ensure_simps [simp]:
  "ensure True e = Inr ()"
  "ensure False e = Inl e"
  by (simp_all add: ensure_def)

lemma ensure_eq_Inr [simp]: "ensure b e = Inr u \<longleftrightarrow> b"
  by (simp add: ensure_def)

lemma ensure_eq_Inl [simp]: "ensure b e = Inl e' \<longleftrightarrow> \<not> b \<and> e' = e"
  by (auto simp: ensure_def)

lemma isOK_simps [simp]: "isOK (Inr x)" "\<not> isOK (Inl e)"
  by (simp_all add: isOK_def)

lemma isOK_iff: "isOK m \<longleftrightarrow> (\<exists>x. m = Inr x)"
  by (cases m) auto

text \<open>\<open>array.map\<close> with a callback that may throw: the first error is the result.\<close>

fun mapR :: "('a \<Rightarrow> 'e + 'b) \<Rightarrow> 'a list \<Rightarrow> 'e + 'b list" where
  "mapR f [] = Inr []"
| "mapR f (x # xs) = bindR (f x) (\<lambda>y. bindR (mapR f xs) (\<lambda>ys. Inr (y # ys)))"

lemma mapR_cong [fundef_cong]:
  assumes "xs = ys" and "\<And>x. x \<in> set ys \<Longrightarrow> f x = g x"
  shows "mapR f xs = mapR g ys"
  using assms(2) unfolding assms(1) by (induction ys) auto

lemma mapR_Inr_map:
  assumes "\<And>x. x \<in> set xs \<Longrightarrow> f x = Inr (g x)"
  shows "mapR f xs = Inr (map g xs)"
  using assms by (induction xs) auto

lemma mapR_Inr_iff:
  "mapR f xs = Inr ys \<longleftrightarrow> list_all2 (\<lambda>x y. f x = Inr y) xs ys"
proof (induction xs arbitrary: ys)
  case Nil
  then show ?case by auto
next
  case (Cons x xs)
  show ?case by (cases ys) (auto simp: Cons.IH)
qed

text \<open>\<open>array.forEach\<close> with a callback that may throw.\<close>

fun eachR :: "('a \<Rightarrow> 'e + unit) \<Rightarrow> 'a list \<Rightarrow> 'e + unit" where
  "eachR f [] = Inr ()"
| "eachR f (x # xs) = bindR (f x) (\<lambda>_. eachR f xs)"

lemma eachR_Inr [simp]: "eachR f xs = Inr u \<longleftrightarrow> (\<forall>x \<in> set xs. f x = Inr ())"
  by (induction xs) auto

section \<open>Arrays\<close>

fun findIndexFrom :: "nat \<Rightarrow> ('a \<Rightarrow> bool) \<Rightarrow> 'a list \<Rightarrow> int" where
  "findIndexFrom i p [] = -1"
| "findIndexFrom i p (x # xs) = (if p x then int i else findIndexFrom (Suc i) p xs)"

text \<open>\<open>array.findIndex\<close>: \<open>-1\<close> when nothing matches.\<close>

definition findIndex :: "('a \<Rightarrow> bool) \<Rightarrow> 'a list \<Rightarrow> int" where
  "findIndex p xs = findIndexFrom 0 p xs"

text \<open>\<open>array.splice(index, 1)\<close>: a negative index counts from the end.\<close>

definition splice1 :: "int \<Rightarrow> 'a list \<Rightarrow> 'a list" where
  "splice1 i xs =
     (let n = int (length xs); s = nat (if i < 0 then max 0 (n + i) else min i n)
      in take s xs @ drop (Suc s) xs)"

fun remove_first :: "('a \<Rightarrow> bool) \<Rightarrow> 'a list \<Rightarrow> 'a list" where
  "remove_first p [] = []"
| "remove_first p (x # xs) = (if p x then xs else x # remove_first p xs)"

text \<open>The array after the first element a predicate tells was changed in place.\<close>

fun update_first :: "('a \<Rightarrow> bool) \<Rightarrow> ('a \<Rightarrow> 'a) \<Rightarrow> 'a list \<Rightarrow> 'a list" where
  "update_first p f [] = []"
| "update_first p f (x # xs) = (if p x then f x # xs else x # update_first p f xs)"

lemma findIndexFrom_ge: "findIndexFrom i p xs = -1 \<or> int i \<le> findIndexFrom i p xs"
proof (induction i p xs rule: findIndexFrom.induct)
  case (2 i p x xs)
  then show ?case by force
qed simp

lemma findIndexFrom_eq_minus1 [simp]: "findIndexFrom i p xs = -1 \<longleftrightarrow> (\<forall>x \<in> set xs. \<not> p x)"
  by (induction i p xs rule: findIndexFrom.induct) auto

lemma findIndex_eq_minus1 [simp]: "findIndex p xs = -1 \<longleftrightarrow> (\<forall>x \<in> set xs. \<not> p x)"
  by (simp add: findIndex_def)

lemma findIndexFrom_split:
  assumes "\<exists>x \<in> set xs. p x"
  shows "\<exists>us x vs. xs = us @ x # vs \<and> p x \<and> (\<forall>u \<in> set us. \<not> p u)
           \<and> findIndexFrom i p xs = int (i + length us) \<and> remove_first p xs = us @ vs"
  using assms
proof (induction i p xs rule: findIndexFrom.induct)
  case (2 i p x xs)
  show ?case
  proof (cases "p x")
    case True
    then show ?thesis by (intro exI [of _ "[]"]) auto
  next
    case False
    with "2.prems" have "\<exists>x \<in> set xs. p x" by auto
    with "2.IH" False obtain us y vs where
      "xs = us @ y # vs" "p y" "\<forall>u \<in> set us. \<not> p u"
      "findIndexFrom (Suc i) p xs = int (Suc i + length us)" "remove_first p xs = us @ vs"
      by blast
    with False show ?thesis by (intro exI [of _ "x # us"] exI [of _ y] exI [of _ vs]) auto
  qed
qed simp

lemma splice1_append: "splice1 (int (length us)) (us @ x # vs) = us @ vs"
  by (simp add: splice1_def min_def)

lemma splice1_findIndex [js_simps]:
  assumes "\<exists>x \<in> set xs. p x"
  shows "splice1 (findIndex p xs) xs = remove_first p xs"
proof -
  from findIndexFrom_split [OF assms, of 0] obtain us x vs where
    "xs = us @ x # vs" "findIndexFrom 0 p xs = int (length us)" "remove_first p xs = us @ vs"
    by auto
  then show ?thesis by (simp add: findIndex_def splice1_append)
qed

lemma set_remove_first_subset: "set (remove_first p xs) \<subseteq> set xs"
  by (induction xs) auto

lemma remove_first_none [simp]: "\<forall>x \<in> set xs. \<not> p x \<Longrightarrow> remove_first p xs = xs"
  by (induction xs) auto

lemma distinct_remove_first: "distinct xs \<Longrightarrow> distinct (remove_first p xs)"
  using set_remove_first_subset by (induction xs) fastforce+

lemma remove_first_remove1: "remove_first (\<lambda>x. x = a) xs = remove1 a xs"
  by (induction xs) auto

lemma length_remove_first:
  "length (remove_first p xs) = (if \<exists>x \<in> set xs. p x then length xs - 1 else length xs)"
  by (induction xs) (auto simp: Suc_pred' dest: length_pos_if_in_set)

lemma map_update_first:
  assumes "\<And>x. p x \<Longrightarrow> g (f x) = g x"
  shows "map g (update_first p f xs) = map g xs"
  using assms by (induction xs) auto

lemma length_update_first [simp]: "length (update_first p f xs) = length xs"
  by (induction xs) auto

lemma set_update_first_subset: "set (update_first p f xs) \<subseteq> set xs \<union> f ` set xs"
  by (induction xs) auto

lemma find_Some_iff': "find p xs = Some x \<Longrightarrow> x \<in> set xs \<and> p x"
  by (induction xs) (auto split: if_splits)

lemma find_None_iff': "find p xs = None \<longleftrightarrow> (\<forall>x \<in> set xs. \<not> p x)"
  by (induction xs) auto

lemma find_remove_first_other:
  assumes "\<And>x. p x \<Longrightarrow> \<not> q x"
  shows "find q (remove_first p xs) = find q xs"
  using assms by (induction xs) auto

section \<open>Maps with insertion order\<close>

text \<open>
  A JavaScript \<open>Map\<close> is an association list: \<open>map.set\<close> is \<open>AList.update\<close> (in place when the
  key is there, at the end when it is not), \<open>map.get\<close> is \<open>map_of\<close>, \<open>map.values()\<close> is
  \<open>map snd\<close>. A \<open>Set\<close> with insertion order is a list without repetitions.
\<close>

type_synonym ('k, 'v) jsmap = "('k \<times> 'v) list"

definition jsmap_of :: "('k \<times> 'v) list \<Rightarrow> ('k, 'v) jsmap" where
  "jsmap_of kvs = fold (\<lambda>(k, v). AList.update k v) kvs []"

definition set_add :: "'a \<Rightarrow> 'a list \<Rightarrow> 'a list" where
  "set_add x xs = (if x \<in> set xs then xs else xs @ [x])"

definition set_delete :: "'a \<Rightarrow> 'a list \<Rightarrow> 'a list" where
  "set_delete x xs = filter (\<lambda>y. y \<noteq> x) xs"

lemma set_set_add [simp]: "set (set_add x xs) = insert x (set xs)"
  by (auto simp: set_add_def)

lemma distinct_set_add [simp]: "distinct (set_add x xs) = distinct xs"
  by (auto simp: set_add_def)

lemma set_set_delete [simp]: "set (set_delete x xs) = set xs - {x}"
  by (auto simp: set_delete_def)

lemma distinct_set_delete [simp]: "distinct xs \<Longrightarrow> distinct (set_delete x xs)"
  by (simp add: set_delete_def)

lemma distinct_keys_fold_update:
  "distinct (map fst m) \<Longrightarrow> distinct (map fst (fold (\<lambda>(k, v). AList.update k v) kvs m))"
  by (induction kvs arbitrary: m) (auto intro: distinct_update)

lemma distinct_keys_jsmap_of [simp]: "distinct (map fst (jsmap_of kvs))"
  by (simp add: jsmap_of_def distinct_keys_fold_update)

lemma keys_update [simp]: "fst ` set (AList.update k v m) = insert k (fst ` set m)"
  by (simp add: dom_update)

lemma dom_fold_update:
  "fst ` set (fold (\<lambda>(k, v). AList.update k v) kvs m) = fst ` set m \<union> fst ` set kvs"
proof (induction kvs arbitrary: m)
  case (Cons kv kvs)
  obtain k v where kv: "kv = (k, v)" by (cases kv)
  show ?case by (simp only: kv fold.simps o_apply prod.case Cons.IH keys_update) simp
qed simp

lemma keys_jsmap_of [simp]: "fst ` set (jsmap_of kvs) = fst ` set kvs"
  by (simp add: jsmap_of_def dom_fold_update)

lemma map_of_fold_update:
  "map_of (fold (\<lambda>(k, v). AList.update k v) kvs m) k =
     (case map_of (rev kvs) k of None \<Rightarrow> map_of m k | Some v \<Rightarrow> Some v)"
  by (induction kvs arbitrary: m)
    (auto simp: map_of_append update_conv' map_add_def split: option.splits)

lemma map_of_jsmap_of: "map_of (jsmap_of kvs) = map_of (rev kvs)"
  by (rule ext) (simp add: jsmap_of_def map_of_fold_update split: option.splits)

lemma set_jsmap_of_subset: "set (jsmap_of kvs) \<subseteq> set kvs"
proof
  fix kv assume kv: "kv \<in> set (jsmap_of kvs)"
  obtain k v where [simp]: "kv = (k, v)" by (cases kv)
  from kv have "map_of (jsmap_of kvs) k = Some v" by simp
  then have "map_of (rev kvs) k = Some v" by (simp add: map_of_jsmap_of)
  then show "kv \<in> set kvs" by (auto dest: map_of_SomeD)
qed

text \<open>A loop that marks a new element of a finite set leaves fewer to mark.\<close>

lemma card_Diff_insert_less:
  assumes "finite A" and "x \<in> A" and "x \<notin> B"
  shows "card (A - insert x B) < card (A - B)"
  using assms by (intro psubset_card_mono) auto

section \<open>Machines\<close>

text \<open>
  A component that keeps state: where it starts and how an operation changes it. What every
  start has and every step keeps holds in each state that is reached. A bounded machine has
  also a measure that every step of some kind lowers, so it cannot take such steps for ever.
\<close>

locale machine =
  fixes start :: "'s \<Rightarrow> bool"
    and step :: "'s \<Rightarrow> 's \<Rightarrow> bool"
    and good :: "'s \<Rightarrow> bool"
  assumes start_good: "start s \<Longrightarrow> good s"
    and step_good: "good s \<Longrightarrow> step s t \<Longrightarrow> good t"
begin

lemma steps_good:
  assumes "rtranclp step s t" and "good s"
  shows "good t"
  using assms by (induction rule: rtranclp_induct) (blast intro: step_good)+

lemma reachable_good: "start s \<Longrightarrow> rtranclp step s t \<Longrightarrow> good t"
  using steps_good start_good by blast

lemma steps_related:
  assumes "rtranclp step s t" and "good s"
    and "\<And>u. good u \<Longrightarrow> R u u"
    and "\<And>u v w. good v \<Longrightarrow> R u v \<Longrightarrow> step v w \<Longrightarrow> R u w"
  shows "R s t"
  using assms(1)
proof (induction rule: rtranclp_induct)
  case base
  show ?case using assms(2,3) by blast
next
  case (step v w)
  have "good v" using steps_good [OF step.hyps(1) assms(2)] .
  then show ?case using assms(4) step.IH step.hyps(2) by blast
qed

end

locale bounded_machine = machine +
  fixes work :: "'s \<Rightarrow> nat"
  assumes step_work: "good s \<Longrightarrow> step s t \<Longrightarrow> work t < work s"
begin

lemma steps_bounded: "(step ^^ n) s t \<Longrightarrow> good s \<Longrightarrow> n + work t \<le> work s"
proof (induction n arbitrary: t)
  case (Suc n)
  then obtain u where u: "(step ^^ n) s u" "step u t" by auto
  then have "rtranclp step s u" by (blast intro: relpowp_imp_rtranclp)
  then have "work t < work u" using steps_good step_work u(2) Suc.prems(2) by blast
  then show ?case using Suc.IH [OF u(1) Suc.prems(2)] by simp
qed simp

end

section \<open>JSON values\<close>

text \<open>
  The plain JSON an operation carries. A number is an integer or another finite number, kept
  as its canonical text; a string is its UTF-8 bytes. A record is its list of properties.
\<close>

datatype json =
    JNull
  | JBool bool
  | JInt int
  | JNumber string
  | JString string
  | JArray "json list"
  | JObject "(string \<times> json) list"

definition safe_integer :: "int \<Rightarrow> bool" where
  "safe_integer n \<longleftrightarrow> \<bar>n\<bar> \<le> 9007199254740991"

text \<open>\<open>PublicMutationProof.depthOf\<close>\<close>

fun depthOf :: "json \<Rightarrow> nat" where
  "depthOf (JArray xs) = fold (\<lambda>child deepest. max deepest (depthOf child + 1)) xs 0"
| "depthOf (JObject kvs) = fold (\<lambda>kv deepest. max deepest (depthOf (snd kv) + 1)) kvs 0"
| "depthOf _ = 0"

text \<open>\<open>/^[A-Za-z0-9_-]{43}$/\<close>\<close>

definition digest_char :: "char \<Rightarrow> bool" where
  "digest_char ch =
     (let n = (of_char ch :: nat) in
      (65 \<le> n \<and> n \<le> 90) \<or> (97 \<le> n \<and> n \<le> 122) \<or> (48 \<le> n \<and> n \<le> 57) \<or> n = 95 \<or> n = 45)"

definition isDigest :: "string \<Rightarrow> bool" where
  "isDigest s \<longleftrightarrow> length s = 43 \<and> list_all digest_char s"

text \<open>A strictly ascending array: each text is above the one before it, so none is named twice.\<close>

fun ascending :: "string list \<Rightarrow> bool" where
  "ascending [] = True"
| "ascending [x] = True"
| "ascending (x # y # zs) = (x < y \<and> ascending (y # zs))"

text \<open>
  \<open>s.length\<close>, the UTF-16 code units of a text that is kept as its UTF-8 bytes: one for each
  byte that starts a character, two when the character takes four bytes.
\<close>

definition js_length :: "string \<Rightarrow> nat" where
  "js_length s =
     sum_list (map (\<lambda>ch. let n = (of_char ch :: nat) in
        if 128 \<le> n \<and> n < 192 then 0 else if 240 \<le> n then 2 else 1) s)"

section \<open>JSON text\<close>

text \<open>\<open>JSON.stringify\<close> without indentation. An absent property is left out before.\<close>

definition digit_char :: "nat \<Rightarrow> char" where
  "digit_char n = char_of (48 + n)"

fun decimal :: "nat \<Rightarrow> string" where
  "decimal n = (if n < 10 then [digit_char n] else decimal (n div 10) @ [digit_char (n mod 10)])"

declare decimal.simps [simp del]

definition json_int :: "int \<Rightarrow> string" where
  "json_int n = (if n < 0 then ''-'' @ decimal (nat (- n)) else decimal (nat n))"

definition hex_char :: "nat \<Rightarrow> char" where
  "hex_char n = (if n < 10 then char_of (48 + n) else char_of (87 + n))"

definition json_escape :: "char \<Rightarrow> string" where
  "json_escape ch =
     (let n = of_char ch :: nat in
      if n = 34 then [CHR 0x5C, ch] else if n = 92 then [CHR 0x5C, ch]
      else if n = 8 then [CHR 0x5C, CHR ''b''] else if n = 9 then [CHR 0x5C, CHR ''t'']
      else if n = 10 then [CHR 0x5C, CHR ''n''] else if n = 12 then [CHR 0x5C, CHR ''f'']
      else if n = 13 then [CHR 0x5C, CHR ''r'']
      else if n < 32 then [CHR 0x5C, CHR ''u'', CHR ''0'', CHR ''0'', hex_char (n div 16), hex_char (n mod 16)]
      else [ch])"

definition json_quote :: "string \<Rightarrow> string" where
  "json_quote s = [CHR 0x22] @ concat (map json_escape s) @ [CHR 0x22]"

definition commas :: "string list \<Rightarrow> string" where
  "commas xs = concat (map (\<lambda>x. '','' @ x) xs)"

fun json_text :: "json \<Rightarrow> string" where
  "json_text JNull = ''null''"
| "json_text (JBool b) = (if b then ''true'' else ''false'')"
| "json_text (JInt n) = json_int n"
| "json_text (JNumber s) = s"
| "json_text (JString s) = json_quote s"
| "json_text (JArray xs) = ''['' @ tl (commas (map json_text xs)) @ '']''"
| "json_text (JObject kvs) =
     ''{'' @ tl (commas (map (\<lambda>kv. json_quote (fst kv) @ '':'' @ json_text (snd kv)) kvs)) @ ''}''"

lemma js_length_Nil [simp]: "js_length [] = 0"
  by (simp add: js_length_def)

lemma js_length_append [simp]: "js_length (xs @ ys) = js_length xs + js_length ys"
  by (simp add: js_length_def)

lemma js_length_concat: "js_length (concat xss) = sum_list (map js_length xss)"
  by (induction xss) simp_all

lemma js_length_escape: "js_length [ch] \<le> js_length (json_escape ch)"
  by (auto simp: json_escape_def js_length_def Let_def)

lemma js_length_quote: "js_length s + 2 \<le> js_length (json_quote s)"
proof -
  have "js_length s \<le> js_length (concat (map json_escape s))"
  proof (induction s)
    case (Cons ch s)
    have "js_length (ch # s) = js_length [ch] + js_length s" by (simp add: js_length_def)
    then show ?case using Cons js_length_escape [of ch] by simp
  qed simp
  then show ?thesis by (simp add: json_quote_def) (simp add: js_length_def)
qed

end
