(* ===== verification/Values.thy ===== *)
theory Values
  imports Prelude
begin

text \<open>
  The value objects the components exchange and the library they rest on. A value object is
  modelled by its \<open>valueOf()\<close>, so \<open>isEqual\<close> is equality. The constructors that live in the
  packages \<open>@haskou/value-objects\<close> and \<open>@haskou/pigeon-swarm-crypto\<close> are the fields of
  \<open>lib\<close>: each returns the value it builds, or \<open>None\<close> when it throws. The enumerations are
  under \<open>src/contexts/communities/domain/value-objects\<close>.
\<close>

section \<open>The packages\<close>

text \<open>
  \<open>lib_text m s\<close>: \<open>new StringValueObject(s, m)\<close> with the maximum length \<open>m\<close>;
  \<open>lib_identity s\<close>: \<open>new IdentityId(s)\<close> over the package's \<open>PublicKey\<close>, its value the key
  without PEM headers; \<open>lib_canonical s\<close>: \<open>toRaw()\<close> of that key does not throw;
  \<open>lib_network s\<close>: \<open>new NetworkId(s)\<close>, a UUID; \<open>lib_signature s\<close>: \<open>new Signature(s)\<close>;
  \<open>lib_timestamp n\<close>: \<open>new Timestamp(n)\<close> does not throw;
  \<open>lib_verify k t s\<close>: \<open>isValidSignature\<close> of the key \<open>k\<close>; \<open>lib_digest v\<close>: \<open>StateDigest.of\<close>;
  \<open>lib_commit_*\<close>: the \<open>CommitmentId\<close> functions; \<open>lib_invitation_key\<close>:
  \<open>CommunityInvitationKey.parsePublicKey\<close>; \<open>lib_possession f p k\<close> and \<open>lib_consent f c\<close>:
  the two proof verifiers do not throw; \<open>lib_uuid s\<close>: \<open>new UUID(s)\<close>; \<open>lib_canonicalize v\<close>: the
  package \<open>canonicalize\<close> on a JSON value; \<open>lib_public_key s\<close>: \<open>new PublicKey(s)\<close>; \<open>lib_pem i\<close>:
  \<open>toString\<close> of the \<open>IdentityId\<close> of value \<open>i\<close>; \<open>lib_commitment s\<close>: \<open>SHA256Hash.from(s)\<close>; \<open>lib_unique\<close>:
  \<open>UniqueObjectArray.fromArray\<close> on the values.
\<close>

record invitation_fields =
  fields_communityId :: string
  fields_identityId :: string
  fields_invitationId :: string
  fields_networkId :: string

record lib =
  lib_text :: "nat option \<Rightarrow> string \<Rightarrow> string option"
  lib_identity :: "string \<Rightarrow> string option"
  lib_canonical :: "string \<Rightarrow> bool"
  lib_network :: "string \<Rightarrow> string option"
  lib_signature :: "string \<Rightarrow> string option"
  lib_timestamp :: "int \<Rightarrow> bool"
  lib_verify :: "string \<Rightarrow> string \<Rightarrow> string \<Rightarrow> bool"
  lib_digest :: "json \<Rightarrow> string option"
  lib_commit_community :: "string \<Rightarrow> string \<Rightarrow> string \<Rightarrow> string"
  lib_commit_channel :: "string \<Rightarrow> string \<Rightarrow> int \<Rightarrow> string"
  lib_commit_role :: "string \<Rightarrow> string \<Rightarrow> int \<Rightarrow> string"
  lib_commit_request :: "string \<Rightarrow> string \<Rightarrow> string \<Rightarrow> string \<Rightarrow> int \<Rightarrow> string"
  lib_invitation_key :: "string \<Rightarrow> string option"
  lib_possession :: "invitation_fields \<Rightarrow> string \<Rightarrow> string \<Rightarrow> bool"
  lib_consent :: "invitation_fields \<Rightarrow> string \<Rightarrow> bool"
  lib_uuid :: "string \<Rightarrow> string option"
  lib_commit_call :: "string \<Rightarrow> string \<Rightarrow> string"
  lib_canonicalize :: "json \<Rightarrow> string option"
  lib_public_key :: "string \<Rightarrow> string option"
  lib_pem :: "string \<Rightarrow> string"
  lib_commitment :: "string \<Rightarrow> string"
  lib_unique :: "string list \<Rightarrow> string list"

text \<open>
  The value of a value object is a value its constructor accepts and keeps, and the texts of
  the built-in role are accepted. A UUID is a text, and a unique array holds every value once.
\<close>

definition lib_ok :: "lib \<Rightarrow> bool" where
  "lib_ok L \<longleftrightarrow>
     (\<forall>m s v. lib_text L m s = Some v \<longrightarrow> lib_text L m v = Some v) \<and>
     (\<forall>s v. lib_identity L s = Some v \<longrightarrow> lib_identity L v = Some v) \<and>
     (\<forall>s v. lib_network L s = Some v \<longrightarrow> lib_network L v = Some v) \<and>
     lib_text L None ''everyone'' = Some ''everyone'' \<and>
     lib_text L (Some 50) ''everyone'' = Some ''everyone'' \<and>
     (\<forall>s v. lib_uuid L s = Some v \<longrightarrow> lib_uuid L v = Some v) \<and>
     (\<forall>s v. lib_signature L s = Some v \<longrightarrow> lib_signature L v = Some v) \<and>
     (\<forall>s v. lib_uuid L s = Some v \<longrightarrow> lib_text L None v = Some v) \<and>
     (\<forall>s v. lib_public_key L s = Some v \<longrightarrow> lib_public_key L v = Some v) \<and>
     (\<forall>xs. distinct (lib_unique L xs) \<and> set (lib_unique L xs) = set xs) \<and>
     (\<forall>xs. distinct xs \<longrightarrow> lib_unique L xs = xs)"

type_synonym identity_id = string
type_synonym network_id = string
type_synonym community_id = string
type_synonym role_id = string
type_synonym channel_id = string
type_synonym timestamp = int

section \<open>Errors of the communities context\<close>

datatype community_error =
    ValueObjectError
  | TypeError
  | CommunityPermissionDeniedError string
  | CommunityMemberNotFoundError
  | CommunityMemberBannedError
  | CommunityChannelNotFoundError
  | CommunityRoleNotFoundError
  | CommunityRoleCannotBeDeletedError
  | CommunityOwnerMismatchError
  | CommunityOwnerCannotLeaveError
  | CommunityOwnerCannotBeKickedError
  | CommunityRequestActorMismatchError
  | CommunityRequestAlreadyResolvedError
  | CommunityInvitationNotFoundError
  | CommunityInvitationUnusableError
  | InvalidCommunityOperationError
  | CommunityOperationParentsMissingError
  | CommunityOperationLimitExceededError
  | CommunityMessageSearchUnavailableError
  | CommunityChannelMessagePayloadMismatchError
  | CommunityChannelMessageAuthorMismatchError

definition value_object :: "'a option \<Rightarrow> community_error + 'a" where
  "value_object r = (case r of None \<Rightarrow> Inl ValueObjectError | Some v \<Rightarrow> Inr v)"

lemma value_object_Inr [simp]: "value_object r = Inr v \<longleftrightarrow> r = Some v"
  by (simp add: value_object_def split: option.splits)

lemma value_object_simps [simp]:
  "value_object None = Inl ValueObjectError" "value_object (Some v) = Inr v"
  by (simp_all add: value_object_def)

definition new_IdentityId :: "lib \<Rightarrow> string \<Rightarrow> community_error + identity_id" where
  "new_IdentityId L s = value_object (lib_identity L s)"

definition new_Timestamp :: "lib \<Rightarrow> int \<Rightarrow> community_error + timestamp" where
  "new_Timestamp L n = (if lib_timestamp L n then Inr n else Inl ValueObjectError)"

definition new_NetworkId :: "lib \<Rightarrow> string \<Rightarrow> community_error + network_id" where
  "new_NetworkId L s = value_object (lib_network L s)"

definition new_CommunityId :: "lib \<Rightarrow> string \<Rightarrow> community_error + community_id" where
  "new_CommunityId L s = value_object (lib_text L None s)"

definition new_CommunityRoleId :: "lib \<Rightarrow> string \<Rightarrow> community_error + role_id" where
  "new_CommunityRoleId L s = value_object (lib_text L None s)"

definition new_CommunityChannelId :: "lib \<Rightarrow> string \<Rightarrow> community_error + channel_id" where
  "new_CommunityChannelId L s = value_object (lib_text L None s)"

definition new_CommunityRoleName :: "lib \<Rightarrow> string \<Rightarrow> community_error + string" where
  "new_CommunityRoleName L s = value_object (lib_text L (Some 50) s)"

definition new_CommunityName :: "lib \<Rightarrow> string \<Rightarrow> community_error + string" where
  "new_CommunityName L s = value_object (lib_text L (Some 80) s)"

definition new_CommunityDescription :: "lib \<Rightarrow> string \<Rightarrow> community_error + string" where
  "new_CommunityDescription L s = value_object (lib_text L (Some 500) s)"

definition new_CommunityChannelName :: "lib \<Rightarrow> string \<Rightarrow> community_error + string" where
  "new_CommunityChannelName L s = value_object (lib_text L (Some 80) s)"

definition new_CommunityAvatar :: "lib \<Rightarrow> string \<Rightarrow> community_error + string" where
  "new_CommunityAvatar L s = value_object (lib_text L None s)"

definition new_CommunityBanner :: "lib \<Rightarrow> string \<Rightarrow> community_error + string" where
  "new_CommunityBanner L s = value_object (lib_text L None s)"

lemmas value_defs =
  new_IdentityId_def new_NetworkId_def new_CommunityId_def new_CommunityRoleId_def
  new_CommunityChannelId_def new_CommunityRoleName_def new_CommunityName_def
  new_CommunityDescription_def new_CommunityChannelName_def new_CommunityAvatar_def
  new_CommunityBanner_def

lemma lib_ok_values:
  assumes "lib_ok L"
  shows "new_IdentityId L s = Inr i \<Longrightarrow> new_IdentityId L i = Inr i"
    and "new_NetworkId L s = Inr n \<Longrightarrow> new_NetworkId L n = Inr n"
    and "new_CommunityId L s = Inr c \<Longrightarrow> new_CommunityId L c = Inr c"
    and "new_CommunityRoleId L s = Inr r \<Longrightarrow> new_CommunityRoleId L r = Inr r"
    and "new_CommunityChannelId L s = Inr r \<Longrightarrow> new_CommunityChannelId L r = Inr r"
    and "new_CommunityRoleName L s = Inr t \<Longrightarrow> new_CommunityRoleName L t = Inr t"
    and "new_CommunityName L s = Inr t \<Longrightarrow> new_CommunityName L t = Inr t"
    and "new_CommunityDescription L s = Inr t \<Longrightarrow> new_CommunityDescription L t = Inr t"
    and "new_CommunityChannelName L s = Inr t \<Longrightarrow> new_CommunityChannelName L t = Inr t"
    and "new_CommunityAvatar L s = Inr t \<Longrightarrow> new_CommunityAvatar L t = Inr t"
    and "new_CommunityBanner L s = Inr t \<Longrightarrow> new_CommunityBanner L t = Inr t"
  using assms unfolding value_defs lib_ok_def value_object_Inr by blast+

text \<open>\<open>CommunityRoleId.everyone()\<close>\<close>

definition role_everyone :: role_id where
  "role_everyone = ''everyone''"

definition derive_role_id :: "lib \<Rightarrow> community_id \<Rightarrow> identity_id \<Rightarrow> int \<Rightarrow> community_error + role_id" where
  "derive_role_id L community creator createdAt =
     new_CommunityRoleId L (lib_commit_role L community creator createdAt)"

definition derive_channel_id :: "lib \<Rightarrow> community_id \<Rightarrow> identity_id \<Rightarrow> int \<Rightarrow> community_error + channel_id" where
  "derive_channel_id L community creator createdAt =
     new_CommunityChannelId L (lib_commit_channel L community creator createdAt)"

definition derive_community_id :: "lib \<Rightarrow> network_id \<Rightarrow> identity_id \<Rightarrow> string \<Rightarrow> community_error + community_id" where
  "derive_community_id L network owner nonce =
     new_CommunityId L (lib_commit_community L network owner nonce)"

section \<open>Enumerations\<close>

datatype permission =
    APPROVE_MEMBERS | ATTACH_FILES | BAN_MEMBERS | CONNECT_VOICE | CREATE_INVITES
  | CREATE_POLLS | EMBED_LINKS | MANAGE_CHANNELS | MANAGE_MEMBERS | MANAGE_MESSAGES
  | MANAGE_ROLES | MENTION_EVERYONE | MENTION_HERE | MENTION_ROLES | REJECT_MEMBERS
  | SEND_MESSAGES | SEND_STICKERS | VIEW_CHANNELS

fun permission_value :: "permission \<Rightarrow> string" where
  "permission_value APPROVE_MEMBERS = ''approve_members''"
| "permission_value ATTACH_FILES = ''attach_files''"
| "permission_value BAN_MEMBERS = ''ban_members''"
| "permission_value CONNECT_VOICE = ''connect_voice''"
| "permission_value CREATE_INVITES = ''create_invites''"
| "permission_value CREATE_POLLS = ''create_polls''"
| "permission_value EMBED_LINKS = ''embed_links''"
| "permission_value MANAGE_CHANNELS = ''manage_channels''"
| "permission_value MANAGE_MEMBERS = ''manage_members''"
| "permission_value MANAGE_MESSAGES = ''manage_messages''"
| "permission_value MANAGE_ROLES = ''manage_roles''"
| "permission_value MENTION_EVERYONE = ''mention_everyone''"
| "permission_value MENTION_HERE = ''mention_here''"
| "permission_value MENTION_ROLES = ''mention_roles''"
| "permission_value REJECT_MEMBERS = ''reject_members''"
| "permission_value SEND_MESSAGES = ''send_messages''"
| "permission_value SEND_STICKERS = ''send_stickers''"
| "permission_value VIEW_CHANNELS = ''view_channels''"

definition all_permissions :: "permission list" where
  "all_permissions =
     [APPROVE_MEMBERS, ATTACH_FILES, BAN_MEMBERS, CONNECT_VOICE, CREATE_INVITES,
      CREATE_POLLS, EMBED_LINKS, MANAGE_CHANNELS, MANAGE_MEMBERS, MANAGE_MESSAGES,
      MANAGE_ROLES, MENTION_EVERYONE, MENTION_HERE, MENTION_ROLES, REJECT_MEMBERS,
      SEND_MESSAGES, SEND_STICKERS, VIEW_CHANNELS]"

text \<open>\<open>new CommunityPermission(s)\<close>: an \<open>Enum\<close> accepts exactly its \<open>getValues()\<close>.\<close>

definition new_CommunityPermission :: "string \<Rightarrow> community_error + permission" where
  "new_CommunityPermission s =
     value_object (find (\<lambda>p. permission_value p = s) all_permissions)"

definition basicMemberPermissions :: "permission list" where
  "basicMemberPermissions =
     [ATTACH_FILES, CONNECT_VOICE, EMBED_LINKS, SEND_MESSAGES, SEND_STICKERS, VIEW_CHANNELS]"

lemma new_CommunityPermission_value [simp]:
  "new_CommunityPermission (permission_value p) = Inr p"
  by (cases p) (simp_all add: new_CommunityPermission_def all_permissions_def)

lemma permission_value_inject [simp]: "permission_value p = permission_value q \<longleftrightarrow> p = q"
  by (metis new_CommunityPermission_value sum.inject(2))

lemma mapR_permission_values [simp]:
  "mapR new_CommunityPermission (map permission_value ps) = Inr ps"
  by (induction ps) auto

datatype visibility = PRIVATE | PUBLIC

fun visibility_value :: "visibility \<Rightarrow> string" where
  "visibility_value PRIVATE = ''private''"
| "visibility_value PUBLIC = ''public''"

definition new_CommunityVisibility :: "string \<Rightarrow> community_error + visibility" where
  "new_CommunityVisibility s =
     value_object (find (\<lambda>v. visibility_value v = s) [PRIVATE, PUBLIC])"

lemma new_CommunityVisibility_value [simp]:
  "new_CommunityVisibility (visibility_value v) = Inr v"
  by (cases v) (simp_all add: new_CommunityVisibility_def)

datatype join_method = ADDED | APPROVAL | AUTOMATIC | INVITATION

fun join_method_value :: "join_method \<Rightarrow> string" where
  "join_method_value ADDED = ''added''"
| "join_method_value APPROVAL = ''approval''"
| "join_method_value AUTOMATIC = ''automatic''"
| "join_method_value INVITATION = ''invitation''"

definition new_CommunityJoinMethod :: "string \<Rightarrow> community_error + join_method" where
  "new_CommunityJoinMethod s =
     value_object (find (\<lambda>m. join_method_value m = s) [ADDED, APPROVAL, AUTOMATIC, INVITATION])"

definition isSelfJoin :: "join_method \<Rightarrow> bool" where
  "isSelfJoin m \<longleftrightarrow> m = AUTOMATIC"

definition requiresReference :: "join_method \<Rightarrow> bool" where
  "requiresReference m \<longleftrightarrow> m = APPROVAL"

datatype action =
    CHANNEL_CREATED | CHANNEL_DELETED | CHANNEL_PERMISSIONS_UPDATED | CHANNEL_RENAMED
  | COMMUNITY_CREATED | COMMUNITY_UPDATED | INVITATION_CREATED | INVITATION_REVOKED
  | MEMBER_BANNED | MEMBER_JOINED | MEMBER_KICKED | MEMBER_LEFT | MEMBER_ROLES_UPDATED
  | MEMBER_UNBANNED | ROLE_CREATED | ROLE_DELETED | ROLE_UPDATED

fun action_value :: "action \<Rightarrow> string" where
  "action_value CHANNEL_CREATED = ''channel_created''"
| "action_value CHANNEL_DELETED = ''channel_deleted''"
| "action_value CHANNEL_PERMISSIONS_UPDATED = ''channel_permissions_updated''"
| "action_value CHANNEL_RENAMED = ''channel_renamed''"
| "action_value COMMUNITY_CREATED = ''community_created''"
| "action_value COMMUNITY_UPDATED = ''community_updated''"
| "action_value INVITATION_CREATED = ''invitation_created''"
| "action_value INVITATION_REVOKED = ''invitation_revoked''"
| "action_value MEMBER_BANNED = ''member_banned''"
| "action_value MEMBER_JOINED = ''member_joined''"
| "action_value MEMBER_KICKED = ''member_kicked''"
| "action_value MEMBER_LEFT = ''member_left''"
| "action_value MEMBER_ROLES_UPDATED = ''member_roles_updated''"
| "action_value MEMBER_UNBANNED = ''member_unbanned''"
| "action_value ROLE_CREATED = ''role_created''"
| "action_value ROLE_DELETED = ''role_deleted''"
| "action_value ROLE_UPDATED = ''role_updated''"

definition all_actions :: "action list" where
  "all_actions =
     [CHANNEL_CREATED, CHANNEL_DELETED, CHANNEL_PERMISSIONS_UPDATED, CHANNEL_RENAMED,
      COMMUNITY_CREATED, COMMUNITY_UPDATED, INVITATION_CREATED, INVITATION_REVOKED,
      MEMBER_BANNED, MEMBER_JOINED, MEMBER_KICKED, MEMBER_LEFT, MEMBER_ROLES_UPDATED,
      MEMBER_UNBANNED, ROLE_CREATED, ROLE_DELETED, ROLE_UPDATED]"

definition new_CommunityOperationAction :: "string \<Rightarrow> community_error + action" where
  "new_CommunityOperationAction s =
     value_object (find (\<lambda>a. action_value a = s) all_actions)"

definition action_isGenesis :: "action \<Rightarrow> bool" where
  "action_isGenesis a \<longleftrightarrow> a = COMMUNITY_CREATED"

lemma new_CommunityOperationAction_value [simp]:
  "new_CommunityOperationAction (action_value a) = Inr a"
  by (cases a) (simp_all add: new_CommunityOperationAction_def all_actions_def)

end
