(* ===== verification/CommunityMembership.thy ===== *)
theory CommunityMembership
  imports Values
begin

text \<open>
  The members, roles and bans of a community:
  \<open>src/contexts/communities/domain/entities/membership/\<close> (\<open>CommunityRole\<close>, \<open>CommunityRoles\<close>,
  \<open>CommunityMembership\<close>) and the permission checks of \<open>domain/asserts/\<close>
  (\<open>CommunityOwnerValidator\<close>, \<open>CommunityPermissionValidator\<close>). The invariant
  \<open>membership_inv\<close> is kept by every operation; the built-in role can never be removed.
\<close>

section \<open>Roles\<close>

record role =
  role_getId :: role_id
  role_name :: string
  role_permissions :: "permission list"
  role_builtIn :: bool

definition role_of_everyone :: role where
  "role_of_everyone =
     \<lparr>role_getId = role_everyone, role_name = ''everyone'',
      role_permissions = basicMemberPermissions, role_builtIn = True\<rparr>"

definition role_create :: "string \<Rightarrow> permission list \<Rightarrow> role_id \<Rightarrow> role" where
  "role_create name ps rid =
     \<lparr>role_getId = rid, role_name = name, role_permissions = ps, role_builtIn = False\<rparr>"

definition role_allows :: "role \<Rightarrow> permission \<Rightarrow> bool" where
  "role_allows r p \<longleftrightarrow> (\<exists>candidate \<in> set (role_permissions r). candidate = p)"

lemma role_allows_code [code]: "role_allows r p = list_ex (\<lambda>c. c = p) (role_permissions r)"
  by (simp add: role_allows_def list_ex_iff)

record assignment =
  assigned_identity :: identity_id
  assigned_roles :: "role_id list"

record roles =
  roles_list :: "role list"
  roles_assignments :: "assignment list"

definition roles_default :: roles where
  "roles_default = \<lparr>roles_list = [role_of_everyone], roles_assignments = []\<rparr>"

definition findRole :: "roles \<Rightarrow> role_id \<Rightarrow> role option" where
  "findRole rs rid = find (\<lambda>r. role_getId r = rid) (roles_list rs)"

definition assertExistingRole :: "roles \<Rightarrow> role_id \<Rightarrow> community_error + unit" where
  "assertExistingRole rs rid = ensure (findRole rs rid \<noteq> None) CommunityRoleNotFoundError"

definition roleIdsFor :: "roles \<Rightarrow> identity_id \<Rightarrow> role_id list" where
  "roleIdsFor rs i =
     role_everyone #
     (case find (\<lambda>a. assigned_identity a = i) (roles_assignments rs) of
        None \<Rightarrow> [] | Some a \<Rightarrow> assigned_roles a)"

definition roles_add :: "roles \<Rightarrow> string \<Rightarrow> permission list \<Rightarrow> role_id \<Rightarrow> roles" where
  "roles_add rs name ps rid = rs\<lparr>roles_list := roles_list rs @ [role_create name ps rid]\<rparr>"

definition roles_get :: "roles \<Rightarrow> role_id \<Rightarrow> community_error + role" where
  "roles_get rs rid =
     (case findRole rs rid of None \<Rightarrow> Inl CommunityRoleNotFoundError | Some r \<Rightarrow> Inr r)"

definition roles_update :: "roles \<Rightarrow> role_id \<Rightarrow> string \<Rightarrow> permission list \<Rightarrow> community_error + roles" where
  "roles_update rs rid name ps =
     bindR (assertExistingRole rs rid) (\<lambda>_.
       Inr (rs\<lparr>roles_list := update_first (\<lambda>r. role_getId r = rid)
                 (\<lambda>r. r\<lparr>role_name := name, role_permissions := ps\<rparr>) (roles_list rs)\<rparr>))"

definition roles_remove :: "roles \<Rightarrow> role_id \<Rightarrow> community_error + roles" where
  "roles_remove rs rid =
     bindR (roles_get rs rid) (\<lambda>r.
     bindR (ensure (\<not> role_builtIn r) CommunityRoleCannotBeDeletedError) (\<lambda>_.
       Inr (rs\<lparr>roles_list :=
                 splice1 (findIndex (\<lambda>c. role_getId c = rid) (roles_list rs)) (roles_list rs),
               roles_assignments :=
                 map (\<lambda>a. a\<lparr>assigned_roles := filter (\<lambda>x. x \<noteq> rid) (assigned_roles a)\<rparr>)
                   (roles_assignments rs)\<rparr>)))"

definition roles_assign :: "roles \<Rightarrow> identity_id \<Rightarrow> role_id list \<Rightarrow> community_error + roles" where
  "roles_assign rs i rids =
     bindR (eachR (assertExistingRole rs) rids) (\<lambda>_.
       let assignable = filter (\<lambda>rid. rid \<noteq> role_everyone) rids in
       case find (\<lambda>a. assigned_identity a = i) (roles_assignments rs) of
         Some _ \<Rightarrow> Inr (rs\<lparr>roles_assignments :=
             update_first (\<lambda>a. assigned_identity a = i) (\<lambda>a. a\<lparr>assigned_roles := assignable\<rparr>)
               (roles_assignments rs)\<rparr>)
       | None \<Rightarrow> Inr (rs\<lparr>roles_assignments :=
             roles_assignments rs @ [\<lparr>assigned_identity = i, assigned_roles = assignable\<rparr>]\<rparr>))"

definition roles_removeMember :: "roles \<Rightarrow> identity_id \<Rightarrow> roles" where
  "roles_removeMember rs i =
     (let index = findIndex (\<lambda>a. assigned_identity a = i) (roles_assignments rs) in
      if index \<noteq> -1 then rs\<lparr>roles_assignments := splice1 index (roles_assignments rs)\<rparr> else rs)"

definition roles_memberHasPermission :: "roles \<Rightarrow> identity_id \<Rightarrow> permission \<Rightarrow> bool" where
  "roles_memberHasPermission rs i p =
     list_ex (\<lambda>rid. case findRole rs rid of None \<Rightarrow> False | Some r \<Rightarrow> role_allows r p)
       (roleIdsFor rs i)"

definition roles_memberHasAnyRole :: "roles \<Rightarrow> identity_id \<Rightarrow> role_id list \<Rightarrow> bool" where
  "roles_memberHasAnyRole rs i rids =
     list_ex (\<lambda>rid. list_ex (\<lambda>assigned. assigned = rid) (roleIdsFor rs i)) rids"

section \<open>Membership\<close>

record membership =
  members :: "identity_id list"
  member_roles :: roles
  bannedMembers :: "identity_id list"

definition isMember :: "membership \<Rightarrow> identity_id \<Rightarrow> bool" where
  "isMember m i = list_ex (\<lambda>member. member = i) (members m)"

definition isBanned :: "membership \<Rightarrow> identity_id \<Rightarrow> bool" where
  "isBanned m i = list_ex (\<lambda>member. member = i) (bannedMembers m)"

definition membership_add :: "membership \<Rightarrow> identity_id \<Rightarrow> membership" where
  "membership_add m i = m\<lparr>members := members m @ [i]\<rparr>"

definition membership_remove :: "membership \<Rightarrow> identity_id \<Rightarrow> membership" where
  "membership_remove m i =
     m\<lparr>members := splice1 (findIndex (\<lambda>c. c = i) (members m)) (members m),
       member_roles := roles_removeMember (member_roles m) i\<rparr>"

definition membership_ban :: "membership \<Rightarrow> identity_id \<Rightarrow> membership" where
  "membership_ban m i =
     (let m1 = (if \<not> isBanned m i then m\<lparr>bannedMembers := bannedMembers m @ [i]\<rparr> else m) in
      if isMember m1 i then membership_remove m1 i else m1)"

definition membership_unban :: "membership \<Rightarrow> identity_id \<Rightarrow> membership" where
  "membership_unban m i =
     (let index = findIndex (\<lambda>c. c = i) (bannedMembers m) in
      if index \<noteq> -1 then m\<lparr>bannedMembers := splice1 index (bannedMembers m)\<rparr> else m)"

definition membership_assignRoles :: "membership \<Rightarrow> identity_id \<Rightarrow> role_id list \<Rightarrow> community_error + membership" where
  "membership_assignRoles m i rids =
     bindR (roles_assign (member_roles m) i rids) (\<lambda>rs. Inr (m\<lparr>member_roles := rs\<rparr>))"

definition membership_addRole :: "membership \<Rightarrow> string \<Rightarrow> permission list \<Rightarrow> role_id \<Rightarrow> membership" where
  "membership_addRole m name ps rid = m\<lparr>member_roles := roles_add (member_roles m) name ps rid\<rparr>"

definition membership_updateRole :: "membership \<Rightarrow> role_id \<Rightarrow> string \<Rightarrow> permission list \<Rightarrow> community_error + membership" where
  "membership_updateRole m rid name ps =
     bindR (roles_update (member_roles m) rid name ps) (\<lambda>rs. Inr (m\<lparr>member_roles := rs\<rparr>))"

definition membership_deleteRole :: "membership \<Rightarrow> role_id \<Rightarrow> community_error + membership" where
  "membership_deleteRole m rid =
     bindR (roles_remove (member_roles m) rid) (\<lambda>rs. Inr (m\<lparr>member_roles := rs\<rparr>))"

definition hasMembers :: "membership \<Rightarrow> bool" where
  "hasMembers m \<longleftrightarrow> length (members m) > 0"

definition hasOnlyMember :: "membership \<Rightarrow> identity_id \<Rightarrow> bool" where
  "hasOnlyMember m i \<longleftrightarrow> length (members m) = 1 \<and> hd (members m) = i"

definition membersWithAnyRole :: "membership \<Rightarrow> role_id list \<Rightarrow> identity_id \<Rightarrow> identity_id list" where
  "membersWithAnyRole m rids owner =
     filter (\<lambda>i. i = owner \<or> roles_memberHasAnyRole (member_roles m) i rids) (members m)"

section \<open>Owner and permission checks\<close>

definition assertIsOwner :: "identity_id \<Rightarrow> identity_id \<Rightarrow> community_error + unit" where
  "assertIsOwner owner i = ensure (owner = i) CommunityOwnerMismatchError"

definition hasPermission :: "identity_id \<Rightarrow> membership \<Rightarrow> identity_id \<Rightarrow> permission \<Rightarrow> bool" where
  "hasPermission owner m i p \<longleftrightarrow>
     owner = i \<or> (isMember m i \<and> roles_memberHasPermission (member_roles m) i p)"

definition assertHasPermission :: "identity_id \<Rightarrow> membership \<Rightarrow> identity_id \<Rightarrow> permission \<Rightarrow> community_error + unit" where
  "assertHasPermission owner m i p =
     ensure (hasPermission owner m i p) (CommunityPermissionDeniedError (permission_value p))"

definition canAccessChannel :: "identity_id \<Rightarrow> membership \<Rightarrow> identity_id \<Rightarrow> role_id list \<Rightarrow> bool" where
  "canAccessChannel owner m i visibleRoleIds \<longleftrightarrow>
     owner = i \<or> roles_memberHasAnyRole (member_roles m) i visibleRoleIds"

definition assertCanAccessChannel :: "identity_id \<Rightarrow> membership \<Rightarrow> identity_id \<Rightarrow> role_id list \<Rightarrow> community_error + unit" where
  "assertCanAccessChannel owner m i visibleRoleIds =
     ensure (canAccessChannel owner m i visibleRoleIds)
       (CommunityPermissionDeniedError (permission_value VIEW_CHANNELS))"

section \<open>Lemmas on single operations\<close>

lemma isMember_iff [simp]: "isMember m i \<longleftrightarrow> i \<in> set (members m)"
  by (auto simp: isMember_def list_ex_iff)

lemma isBanned_iff [simp]: "isBanned m i \<longleftrightarrow> i \<in> set (bannedMembers m)"
  by (auto simp: isBanned_def list_ex_iff)

lemma assertHasPermission_Inr [simp]:
  "assertHasPermission owner m i p = Inr u \<longleftrightarrow> hasPermission owner m i p"
  by (simp add: assertHasPermission_def)

lemma members_remove [js_simps]:
  "i \<in> set (members m) \<Longrightarrow> members (membership_remove m i) = remove1 i (members m)"
  by (simp add: membership_remove_def splice1_findIndex remove_first_remove1)

lemma removeMember_conv:
  "roles_removeMember rs i =
     rs\<lparr>roles_assignments := remove_first (\<lambda>a. assigned_identity a = i) (roles_assignments rs)\<rparr>"
proof (cases "\<exists>a \<in> set (roles_assignments rs). assigned_identity a = i")
  case True
  then have "findIndex (\<lambda>a. assigned_identity a = i) (roles_assignments rs) \<noteq> -1" by simp
  then show ?thesis using True
    by (simp add: roles_removeMember_def splice1_findIndex Let_def)
next
  case False
  then have "findIndex (\<lambda>a. assigned_identity a = i) (roles_assignments rs) = -1" by simp
  then show ?thesis using False by (simp add: roles_removeMember_def)
qed

lemma unban_conv:
  "membership_unban m i = m\<lparr>bannedMembers := remove1 i (bannedMembers m)\<rparr>"
proof (cases "i \<in> set (bannedMembers m)")
  case True
  then have "findIndex (\<lambda>c. c = i) (bannedMembers m) \<noteq> -1" by auto
  then show ?thesis using True
    by (simp add: membership_unban_def splice1_findIndex remove_first_remove1 Let_def)
next
  case False
  then have "findIndex (\<lambda>c. c = i) (bannedMembers m) = -1" by auto
  then show ?thesis using False by (simp add: membership_unban_def remove1_idem)
qed

lemma members_ban: "members (membership_ban m i) = remove1 i (members m)"
  by (auto simp: membership_ban_def Let_def members_remove remove1_idem)

lemma bannedMembers_remove [simp]: "bannedMembers (membership_remove m i) = bannedMembers m"
  by (simp add: membership_remove_def)

lemma bannedMembers_ban:
  "bannedMembers (membership_ban m i) =
     (if i \<in> set (bannedMembers m) then bannedMembers m else bannedMembers m @ [i])"
  by (simp add: membership_ban_def Let_def)

lemma member_roles_remove [simp]:
  "member_roles (membership_remove m i) = roles_removeMember (member_roles m) i"
  by (simp add: membership_remove_def)

lemma member_roles_ban:
  "member_roles (membership_ban m i) =
     (if i \<in> set (members m) then roles_removeMember (member_roles m) i else member_roles m)"
  by (simp add: membership_ban_def Let_def)

section \<open>Well-formed roles and membership\<close>

text \<open>
  The first role is the built-in one and no other is; every assigned role exists and is not
  the built-in one; an identity has at most one assignment.
\<close>

definition roles_inv :: "roles \<Rightarrow> bool" where
  "roles_inv rs \<longleftrightarrow>
     (\<exists>r rest. roles_list rs = r # rest \<and> role_getId r = role_everyone \<and> role_builtIn r
        \<and> (\<forall>r' \<in> set rest. \<not> role_builtIn r')) \<and>
     distinct (map assigned_identity (roles_assignments rs)) \<and>
     (\<forall>a \<in> set (roles_assignments rs). \<forall>rid \<in> set (assigned_roles a).
        rid \<noteq> role_everyone \<and> rid \<in> role_getId ` set (roles_list rs))"

definition membership_inv :: "membership \<Rightarrow> bool" where
  "membership_inv m \<longleftrightarrow>
     roles_inv (member_roles m) \<and> distinct (members m) \<and> distinct (bannedMembers m) \<and>
     set (members m) \<inter> set (bannedMembers m) = {} \<and>
     (\<forall>a \<in> set (roles_assignments (member_roles m)). assigned_identity a \<in> set (members m))"

lemma roles_inv_default [inv_intros]: "roles_inv roles_default"
  by (simp add: roles_inv_def roles_default_def role_of_everyone_def)

lemma findRole_Some: "findRole rs rid = Some r \<Longrightarrow> r \<in> set (roles_list rs) \<and> role_getId r = rid"
  by (auto simp: findRole_def dest: find_Some_iff')

lemma findRole_everyone:
  "roles_inv rs \<Longrightarrow> \<exists>r. findRole rs role_everyone = Some r \<and> role_builtIn r"
  by (auto simp: roles_inv_def findRole_def)

lemma roles_inv_add [inv_intros]: "roles_inv rs \<Longrightarrow> roles_inv (roles_add rs name ps rid)"
  by (fastforce simp: roles_inv_def roles_add_def role_create_def)

lemma update_first_preserves:
  assumes "\<And>x. g (f x) = g x"
  shows "map g (update_first p f xs) = map g xs"
  using assms by (rule map_update_first)

lemma roles_inv_update [inv_intros]:
  assumes inv: "roles_inv rs" and up: "roles_update rs rid name ps = Inr rs'"
  shows "roles_inv rs'"
proof -
  let ?f = "\<lambda>r. r\<lparr>role_name := name, role_permissions := ps\<rparr>"
  let ?p = "\<lambda>r. role_getId r = rid"
  from up have rs': "rs' = rs\<lparr>roles_list := update_first ?p ?f (roles_list rs)\<rparr>"
    by (auto simp: roles_update_def)
  obtain r rest where l: "roles_list rs = r # rest" and r: "role_getId r = role_everyone" "role_builtIn r"
    and rest: "\<forall>r' \<in> set rest. \<not> role_builtIn r'"
    using inv by (auto simp: roles_inv_def)
  have ids: "role_getId ` set (update_first ?p ?f xs) = role_getId ` set xs" for xs
  proof -
    have "map role_getId (update_first ?p ?f xs) = map role_getId xs" by (rule map_update_first) simp
    then show ?thesis by (metis list.set_map)
  qed
  have bi: "\<forall>r' \<in> set (update_first ?p ?f rest). \<not> role_builtIn r'"
    using rest set_update_first_subset [of ?p ?f rest] by fastforce
  show ?thesis
    using inv r rest bi ids [of "roles_list rs"]
    by (auto simp: roles_inv_def rs' l)
qed

lemma remove_first_roles:
  assumes "roles_inv rs" and "findRole rs rid = Some r" and "\<not> role_builtIn r"
  shows "\<exists>r0 rest. roles_list rs = r0 # rest \<and> role_getId r0 = role_everyone \<and> role_builtIn r0
    \<and> rid \<noteq> role_everyone \<and> (\<forall>r' \<in> set rest. \<not> role_builtIn r')
    \<and> remove_first (\<lambda>c. role_getId c = rid) (roles_list rs)
        = r0 # remove_first (\<lambda>c. role_getId c = rid) rest"
  using assms by (auto simp: roles_inv_def findRole_def split: if_splits)

lemma in_remove_first:
  "x \<in> set xs \<Longrightarrow> \<not> p x \<Longrightarrow> x \<in> set (remove_first p xs)"
  by (induction xs) auto

lemma roles_remove_conv:
  assumes "roles_remove rs rid = Inr rs'"
  shows "\<exists>r. findRole rs rid = Some r \<and> \<not> role_builtIn r \<and>
    rs' = rs\<lparr>roles_list := remove_first (\<lambda>c. role_getId c = rid) (roles_list rs),
             roles_assignments := map (\<lambda>a. a\<lparr>assigned_roles := filter (\<lambda>x. x \<noteq> rid) (assigned_roles a)\<rparr>)
               (roles_assignments rs)\<rparr>"
proof -
  from assms obtain r where r: "findRole rs rid = Some r" "\<not> role_builtIn r"
    by (auto simp: roles_remove_def roles_get_def split: option.splits)
  then have "\<exists>c \<in> set (roles_list rs). role_getId c = rid" by (auto dest: findRole_Some)
  then show ?thesis
    using assms r by (auto simp: roles_remove_def roles_get_def splice1_findIndex)
qed

lemma roles_inv_remove [inv_intros]:
  assumes inv: "roles_inv rs" and rm: "roles_remove rs rid = Inr rs'"
  shows "roles_inv rs'"
proof -
  from roles_remove_conv [OF rm] obtain r where r: "findRole rs rid = Some r" "\<not> role_builtIn r"
    and rs': "rs' = rs\<lparr>roles_list := remove_first (\<lambda>c. role_getId c = rid) (roles_list rs),
       roles_assignments := map (\<lambda>a. a\<lparr>assigned_roles := filter (\<lambda>x. x \<noteq> rid) (assigned_roles a)\<rparr>)
         (roles_assignments rs)\<rparr>" by blast
  from remove_first_roles [OF inv r] obtain r0 rest where
    l: "roles_list rs = r0 # rest" and r0: "role_getId r0 = role_everyone" "role_builtIn r0"
    and ne: "rid \<noteq> role_everyone" and rest: "\<forall>r' \<in> set rest. \<not> role_builtIn r'"
    and l': "remove_first (\<lambda>c. role_getId c = rid) (roles_list rs)
      = r0 # remove_first (\<lambda>c. role_getId c = rid) rest" by blast
  have sub: "set (remove_first (\<lambda>c. role_getId c = rid) rest) \<subseteq> set rest"
    by (rule set_remove_first_subset)
  have ids: "x \<in> role_getId ` set (r0 # remove_first (\<lambda>c. role_getId c = rid) rest)"
    if "x \<in> role_getId ` set (roles_list rs)" "x \<noteq> rid" for x
    using that in_remove_first [of _ "roles_list rs" "\<lambda>c. role_getId c = rid"] by (auto simp: l')
  have m: "assigned_identity \<circ> (\<lambda>a. a\<lparr>assigned_roles := F a\<rparr>) = assigned_identity"
    for F :: "assignment \<Rightarrow> role_id list" by (rule ext) simp
  show ?thesis
    unfolding roles_inv_def
  proof (intro conjI)
    show "\<exists>r rest. roles_list rs' = r # rest \<and> role_getId r = role_everyone \<and> role_builtIn r
        \<and> (\<forall>r' \<in> set rest. \<not> role_builtIn r')"
      using r0 rest sub by (auto simp: rs' l')
    show "distinct (map assigned_identity (roles_assignments rs'))"
      using inv by (simp add: rs' roles_inv_def m)
    show "\<forall>a \<in> set (roles_assignments rs'). \<forall>rid \<in> set (assigned_roles a).
        rid \<noteq> role_everyone \<and> rid \<in> role_getId ` set (roles_list rs')"
      using inv ids by (auto simp: rs' l' roles_inv_def)
  qed
qed

lemma assertExistingRole_Inr [simp]:
  "assertExistingRole rs rid = Inr u \<longleftrightarrow> rid \<in> role_getId ` set (roles_list rs)"
  by (auto simp: assertExistingRole_def findRole_def find_None_iff')

lemma roles_assign_cases:
  assumes asg: "roles_assign rs i rids = Inr rs'"
  obtains (extended) "rs' = rs\<lparr>roles_assignments := roles_assignments rs @
        [\<lparr>assigned_identity = i, assigned_roles = filter (\<lambda>rid. rid \<noteq> role_everyone) rids\<rparr>]\<rparr>"
      "\<forall>a \<in> set (roles_assignments rs). assigned_identity a \<noteq> i"
      "\<forall>rid \<in> set rids. rid \<in> role_getId ` set (roles_list rs)"
    | (replaced) "rs' = rs\<lparr>roles_assignments := update_first (\<lambda>a. assigned_identity a = i)
        (\<lambda>a. a\<lparr>assigned_roles := filter (\<lambda>rid. rid \<noteq> role_everyone) rids\<rparr>) (roles_assignments rs)\<rparr>"
      "\<forall>rid \<in> set rids. rid \<in> role_getId ` set (roles_list rs)"
proof (cases "find (\<lambda>a. assigned_identity a = i) (roles_assignments rs)")
  case None
  then have "\<forall>a \<in> set (roles_assignments rs). assigned_identity a \<noteq> i"
    by (simp add: find_None_iff')
  with None show thesis using asg by (intro extended) (auto simp: roles_assign_def Let_def)
next
  case (Some a)
  then show thesis using asg replaced by (auto simp: roles_assign_def Let_def)
qed

lemma update_first_identities:
  "map assigned_identity (update_first p (\<lambda>a. a\<lparr>assigned_roles := r\<rparr>) xs) = map assigned_identity xs"
  by (rule map_update_first) simp

lemma update_first_assigned:
  "a \<in> set (update_first p (\<lambda>a. a\<lparr>assigned_roles := r\<rparr>) xs) \<Longrightarrow>
   a \<in> set xs \<or> assigned_roles a = r"
  using set_update_first_subset [of p "\<lambda>a. a\<lparr>assigned_roles := r\<rparr>" xs] by auto

lemma roles_inv_assign [inv_intros]:
  assumes inv: "roles_inv rs" and asg: "roles_assign rs i rids = Inr rs'"
  shows "roles_inv rs'"
  using asg
proof (cases rule: roles_assign_cases)
  case extended
  then show ?thesis using inv by (auto simp: roles_inv_def)
next
  case replaced
  let ?xs = "roles_assignments rs'"
  have "distinct (map assigned_identity ?xs)"
    using inv by (simp add: roles_inv_def replaced(1) update_first_identities)
  moreover have "\<forall>a \<in> set ?xs. \<forall>rid \<in> set (assigned_roles a).
      rid \<noteq> role_everyone \<and> rid \<in> role_getId ` set (roles_list rs)"
  proof
    fix a assume "a \<in> set ?xs"
    then have "a \<in> set (roles_assignments rs) \<or> assigned_roles a = filter (\<lambda>rid. rid \<noteq> role_everyone) rids"
      by (simp add: replaced(1) update_first_assigned)
    then show "\<forall>rid \<in> set (assigned_roles a). rid \<noteq> role_everyone \<and> rid \<in> role_getId ` set (roles_list rs)"
      using inv replaced(2) unfolding roles_inv_def by (elim disjE) simp_all
  qed
  moreover have "roles_list rs' = roles_list rs" by (simp add: replaced(1))
  ultimately show ?thesis using inv by (simp add: roles_inv_def)
qed

lemma assign_identities:
  assumes asg: "roles_assign rs i rids = Inr rs'" and a: "a \<in> set (roles_assignments rs')"
  shows "assigned_identity a = i \<or> assigned_identity a \<in> assigned_identity ` set (roles_assignments rs)"
  using asg
proof (cases rule: roles_assign_cases)
  case extended
  then show ?thesis using a by auto
next
  case replaced
  have "assigned_identity a \<in> set (map assigned_identity (roles_assignments rs'))" using a by simp
  then show ?thesis by (simp add: replaced(1) update_first_identities)
qed

lemma distinct_map_remove_first: "distinct (map f xs) \<Longrightarrow> distinct (map f (remove_first p xs))"
  using set_remove_first_subset by (induction xs) fastforce+

lemma roles_inv_removeMember [inv_intros]:
  assumes "roles_inv rs" shows "roles_inv (roles_removeMember rs i)"
  using assms set_remove_first_subset [of "\<lambda>a. assigned_identity a = i" "roles_assignments rs"]
  unfolding roles_inv_def removeMember_conv
  by (simp add: distinct_map_remove_first subset_iff) blast

lemma removeMember_identities:
  assumes "roles_inv rs" and a: "a \<in> set (roles_assignments (roles_removeMember rs i))"
  shows "a \<in> set (roles_assignments rs) \<and> assigned_identity a \<noteq> i"
proof -
  have "distinct (map assigned_identity xs) \<Longrightarrow>
    a \<in> set (remove_first (\<lambda>a. assigned_identity a = i) xs) \<Longrightarrow>
    a \<in> set xs \<and> assigned_identity a \<noteq> i" for xs
    by (induction xs) (auto split: if_splits simp: image_iff)
  from this [of "roles_assignments rs"] show ?thesis
    using assms by (simp add: roles_inv_def removeMember_conv)
qed

lemma membership_inv_remove [inv_intros]:
  assumes "membership_inv m" and "i \<in> set (members m)"
  shows "membership_inv (membership_remove m i)"
proof -
  have "set (remove1 i (members m)) = set (members m) - {i}"
    using assms by (simp add: membership_inv_def)
  then show ?thesis using assms
    by (auto simp: membership_inv_def members_remove roles_inv_removeMember
        dest: removeMember_identities)
qed

lemma membership_inv_add [inv_intros]:
  "membership_inv m \<Longrightarrow> \<not> isMember m i \<Longrightarrow> \<not> isBanned m i \<Longrightarrow> membership_inv (membership_add m i)"
  by (auto simp: membership_inv_def membership_add_def)

lemma membership_inv_ban [inv_intros]:
  assumes "membership_inv m"
  shows "membership_inv (membership_ban m i)"
proof -
  have s: "set (remove1 i (members m)) = set (members m) - {i}"
    using assms by (simp add: membership_inv_def)
  show ?thesis
  proof (cases "i \<in> set (members m)")
    case True
    then show ?thesis using assms s
      by (auto simp: membership_inv_def members_ban bannedMembers_ban member_roles_ban
          roles_inv_removeMember dest: removeMember_identities)
  next
    case False
    then show ?thesis using assms s
      by (auto simp: membership_inv_def members_ban bannedMembers_ban member_roles_ban)
  qed
qed

lemma membership_inv_unban [inv_intros]:
  "membership_inv m \<Longrightarrow> membership_inv (membership_unban m i)"
  by (auto simp: membership_inv_def unban_conv)

lemma membership_inv_assignRoles [inv_intros]:
  assumes inv: "membership_inv m" and i: "isMember m i" and asg: "membership_assignRoles m i rids = Inr m'"
  shows "membership_inv m'"
proof -
  from asg obtain rs where rs: "roles_assign (member_roles m) i rids = Inr rs" and m': "m' = m\<lparr>member_roles := rs\<rparr>"
    by (auto simp: membership_assignRoles_def)
  have "roles_inv rs" using inv rs by (auto simp: membership_inv_def intro: roles_inv_assign)
  moreover have "\<forall>a \<in> set (roles_assignments rs). assigned_identity a \<in> set (members m)"
    using assign_identities [OF rs] inv i by (fastforce simp: membership_inv_def)
  ultimately show ?thesis using inv by (simp add: membership_inv_def m')
qed

lemma update_assignments:
  "roles_update rs rid name ps = Inr rs' \<Longrightarrow> roles_assignments rs' = roles_assignments rs"
  by (auto simp: roles_update_def)

lemma remove_assignment_identities:
  assumes "roles_remove rs rid = Inr rs'" and "a \<in> set (roles_assignments rs')"
  shows "assigned_identity a \<in> assigned_identity ` set (roles_assignments rs)"
  using roles_remove_conv [OF assms(1)] assms(2) by auto

lemma membership_inv_roles:
  assumes "membership_inv m" and "roles_inv rs"
    and "\<And>a. a \<in> set (roles_assignments rs) \<Longrightarrow>
           assigned_identity a \<in> assigned_identity ` set (roles_assignments (member_roles m))"
  shows "membership_inv (m\<lparr>member_roles := rs\<rparr>)"
  using assms(1,2) assms(3) by (fastforce simp: membership_inv_def)

lemma membership_inv_addRole [inv_intros]:
  "membership_inv m \<Longrightarrow> membership_inv (membership_addRole m name ps rid)"
  unfolding membership_addRole_def
  by (rule membership_inv_roles) (simp_all add: membership_inv_def roles_inv_add, simp add: roles_add_def)

lemma membership_inv_updateRole [inv_intros]:
  assumes "membership_inv m" and "membership_updateRole m rid name ps = Inr m'"
  shows "membership_inv m'"
  using assms(2) membership_inv_roles [OF assms(1)] assms(1)
  by (auto simp: membership_updateRole_def membership_inv_def update_assignments intro: roles_inv_update)

lemma membership_inv_deleteRole [inv_intros]:
  assumes "membership_inv m" and "membership_deleteRole m rid = Inr m'"
  shows "membership_inv m'"
proof -
  from assms(2) obtain rs where rs: "roles_remove (member_roles m) rid = Inr rs" "m' = m\<lparr>member_roles := rs\<rparr>"
    by (auto simp: membership_deleteRole_def)
  have "roles_inv rs" using assms(1) rs(1) by (auto simp: membership_inv_def intro: roles_inv_remove)
  then show ?thesis unfolding rs(2)
    by (rule membership_inv_roles [OF assms(1)]) (rule remove_assignment_identities [OF rs(1)])
qed

text \<open>Permissions: a member always holds what the built-in role grants, an outsider nothing.\<close>

lemma hasPermission_owner [simp]: "hasPermission owner m owner p"
  by (simp add: hasPermission_def)

lemma hasPermission_member:
  "hasPermission owner m i p \<Longrightarrow> i \<noteq> owner \<Longrightarrow> i \<in> set (members m)"
  by (simp add: hasPermission_def)

end
