(* ===== verification/CommunityChannels.thy ===== *)
theory CommunityChannels
  imports CommunityMembership
begin

text \<open>
  The channels, settings and profile of a community and the messages they constrain:
  \<open>src/contexts/communities/domain/entities/channels/\<close>, \<open>entities/profile/\<close> and the
  payload and mention classes of \<open>entities/messages/\<close>. A text and a voice channel have the
  same fields; which list holds a channel tells its type.
\<close>

section \<open>Channels\<close>

record channel =
  channel_getId :: channel_id
  channel_name :: string
  channel_visibleRoleIds :: "role_id list"
  channel_createdAt :: timestamp

datatype channel_type = TEXT | VOICE

definition visibleForEveryone :: "role_id list" where
  "visibleForEveryone = [role_everyone]"

definition updateVisibleRoleIds :: "role_id list \<Rightarrow> role_id list" where
  "updateVisibleRoleIds rids = (if length rids > 0 then rids else [role_everyone])"

definition channel_create :: "string \<Rightarrow> channel_id \<Rightarrow> timestamp \<Rightarrow> channel" where
  "channel_create name cid createdAt =
     \<lparr>channel_getId = cid, channel_name = name, channel_visibleRoleIds = visibleForEveryone,
      channel_createdAt = createdAt\<rparr>"

definition channel_rename :: "string \<Rightarrow> channel \<Rightarrow> channel" where
  "channel_rename name c = c\<lparr>channel_name := name\<rparr>"

definition channel_updatePermissions :: "role_id list \<Rightarrow> channel \<Rightarrow> channel" where
  "channel_updatePermissions rids c = c\<lparr>channel_visibleRoleIds := updateVisibleRoleIds rids\<rparr>"

record channels =
  textChannels :: "channel list"
  voiceChannels :: "channel list"

definition findIn :: "channel list \<Rightarrow> channel_id \<Rightarrow> channel option" where
  "findIn cs cid = find (\<lambda>c. channel_getId c = cid) cs"

definition findExisting :: "channels \<Rightarrow> channel_id \<Rightarrow> community_error + channel" where
  "findExisting chs cid =
     (case findIn (textChannels chs @ voiceChannels chs) cid of
        None \<Rightarrow> Inl CommunityChannelNotFoundError | Some c \<Rightarrow> Inr c)"

definition findText :: "channels \<Rightarrow> channel_id \<Rightarrow> community_error + channel" where
  "findText chs cid =
     (case findIn (textChannels chs) cid of
        None \<Rightarrow> Inl CommunityChannelNotFoundError | Some c \<Rightarrow> Inr c)"

definition findVoice :: "channels \<Rightarrow> channel_id \<Rightarrow> community_error + channel" where
  "findVoice chs cid =
     (case findIn (voiceChannels chs) cid of
        None \<Rightarrow> Inl CommunityChannelNotFoundError | Some c \<Rightarrow> Inr c)"

definition hasText :: "channels \<Rightarrow> channel_id \<Rightarrow> bool" where
  "hasText chs cid = list_ex (\<lambda>c. channel_getId c = cid) (textChannels chs)"

definition hasVoice :: "channels \<Rightarrow> channel_id \<Rightarrow> bool" where
  "hasVoice chs cid = list_ex (\<lambda>c. channel_getId c = cid) (voiceChannels chs)"

definition addText :: "channels \<Rightarrow> string \<Rightarrow> channel_id \<Rightarrow> timestamp \<Rightarrow> channels" where
  "addText chs name cid createdAt =
     chs\<lparr>textChannels := textChannels chs @ [channel_create name cid createdAt]\<rparr>"

definition addVoice :: "channels \<Rightarrow> string \<Rightarrow> channel_id \<Rightarrow> timestamp \<Rightarrow> channels" where
  "addVoice chs name cid createdAt =
     chs\<lparr>voiceChannels := voiceChannels chs @ [channel_create name cid createdAt]\<rparr>"

text \<open>
  \<open>findExisting(id)\<close> returns the channel object, text channels first, and the caller
  changes it in place: the first text channel with the id, or else the first voice channel.
\<close>

definition changeExisting :: "channels \<Rightarrow> channel_id \<Rightarrow> (channel \<Rightarrow> channel) \<Rightarrow> community_error + channels" where
  "changeExisting chs cid f =
     bindR (findExisting chs cid) (\<lambda>_.
       Inr (if hasText chs cid
            then chs\<lparr>textChannels := update_first (\<lambda>c. channel_getId c = cid) f (textChannels chs)\<rparr>
            else chs\<lparr>voiceChannels := update_first (\<lambda>c. channel_getId c = cid) f (voiceChannels chs)\<rparr>))"

definition channels_rename :: "channels \<Rightarrow> channel_id \<Rightarrow> string \<Rightarrow> community_error + channels" where
  "channels_rename chs cid name = changeExisting chs cid (channel_rename name)"

definition channels_updatePermissions :: "channels \<Rightarrow> channel_id \<Rightarrow> role_id list \<Rightarrow> community_error + channels" where
  "channels_updatePermissions chs cid rids = changeExisting chs cid (channel_updatePermissions rids)"

definition channels_remove :: "channels \<Rightarrow> channel_id \<Rightarrow> community_error + (channels \<times> channel_type)" where
  "channels_remove chs cid =
     (let textChannelIndex = findIndex (\<lambda>c. channel_getId c = cid) (textChannels chs) in
      if textChannelIndex \<noteq> -1
      then Inr (chs\<lparr>textChannels := splice1 textChannelIndex (textChannels chs)\<rparr>, TEXT)
      else
        (let voiceChannelIndex = findIndex (\<lambda>c. channel_getId c = cid) (voiceChannels chs) in
         if voiceChannelIndex \<noteq> -1
         then Inr (chs\<lparr>voiceChannels := splice1 voiceChannelIndex (voiceChannels chs)\<rparr>, VOICE)
         else Inl CommunityChannelNotFoundError))"

definition channels_permissions :: "channels \<Rightarrow> channel_id \<Rightarrow> community_error + role_id list" where
  "channels_permissions chs cid =
     bindR (findExisting chs cid) (\<lambda>c. Inr (channel_visibleRoleIds c))"

definition textChannelPermissions :: "channels \<Rightarrow> channel_id \<Rightarrow> community_error + role_id list" where
  "textChannelPermissions chs cid =
     bindR (findText chs cid) (\<lambda>c. Inr (channel_visibleRoleIds c))"

definition voiceChannelPermissions :: "channels \<Rightarrow> channel_id \<Rightarrow> community_error + role_id list" where
  "voiceChannelPermissions chs cid =
     bindR (findVoice chs cid) (\<lambda>c. Inr (channel_visibleRoleIds c))"

definition visibleChannels :: "channels \<Rightarrow> (role_id list \<Rightarrow> bool) \<Rightarrow> channels" where
  "visibleChannels chs canView =
     \<lparr>textChannels = filter (\<lambda>c. canView (channel_visibleRoleIds c)) (textChannels chs),
      voiceChannels = filter (\<lambda>c. canView (channel_visibleRoleIds c)) (voiceChannels chs)\<rparr>"

definition visibleTextChannelIds :: "channels \<Rightarrow> (role_id list \<Rightarrow> bool) \<Rightarrow> channel_id list" where
  "visibleTextChannelIds chs canView =
     map channel_getId (filter (\<lambda>c. canView (channel_visibleRoleIds c)) (textChannels chs))"

section \<open>Message payloads and mentions\<close>

record payload =
  encryptedPayload :: "string option"
  plaintextPayload :: "string option"

definition new_payload :: "string option \<Rightarrow> string option \<Rightarrow> community_error + payload" where
  "new_payload enc plain =
     bindR (ensure ((enc \<noteq> None) \<noteq> (plain \<noteq> None)) CommunityChannelMessagePayloadMismatchError)
       (\<lambda>_. Inr \<lparr>encryptedPayload = enc, plaintextPayload = plain\<rparr>)"

definition isEncrypted :: "payload \<Rightarrow> bool" where
  "isEncrypted p \<longleftrightarrow> encryptedPayload p \<noteq> None"

definition isPlaintext :: "payload \<Rightarrow> bool" where
  "isPlaintext p \<longleftrightarrow> plaintextPayload p \<noteq> None"

definition ensureMatchesVisibility :: "payload \<Rightarrow> visibility \<Rightarrow> community_error + unit" where
  "ensureMatchesVisibility p v =
     ensure ((v = PRIVATE \<and> isEncrypted p) \<or> (v = PUBLIC \<and> isPlaintext p))
       CommunityChannelMessagePayloadMismatchError"

datatype mention_type = EVERYONE | HERE | IDENTITY | ROLE

record mention =
  mention_type :: mention_type
  mention_targetId :: "string option"

definition mention_isEveryone :: "mention \<Rightarrow> bool" where
  "mention_isEveryone m \<longleftrightarrow> mention_type m = EVERYONE"

definition mention_isHere :: "mention \<Rightarrow> bool" where
  "mention_isHere m \<longleftrightarrow> mention_type m = HERE"

definition mention_isRole :: "mention \<Rightarrow> bool" where
  "mention_isRole m \<longleftrightarrow> mention_type m = ROLE"

section \<open>Settings and profile\<close>

record settings =
  settings_createdAt :: timestamp
  discoverable :: bool
  visibility :: visibility
  autoJoinEnabled :: bool

definition settings_create :: "bool \<Rightarrow> visibility \<Rightarrow> bool \<Rightarrow> timestamp \<Rightarrow> settings" where
  "settings_create disc vis autoJoin createdAt =
     \<lparr>settings_createdAt = createdAt, discoverable = disc, visibility = vis, autoJoinEnabled = autoJoin\<rparr>"

definition updateDiscoverable :: "bool \<Rightarrow> settings \<Rightarrow> settings" where
  "updateDiscoverable b s = s\<lparr>discoverable := b\<rparr>"

definition updateAutoJoinEnabled :: "bool \<Rightarrow> settings \<Rightarrow> settings" where
  "updateAutoJoinEnabled b s = s\<lparr>autoJoinEnabled := b\<rparr>"

definition ensureMessagePayloadAllowed :: "settings \<Rightarrow> payload \<Rightarrow> community_error + unit" where
  "ensureMessagePayloadAllowed s p = ensureMatchesVisibility p (visibility s)"

definition ensureMessageSearchAvailable :: "settings \<Rightarrow> community_error + unit" where
  "ensureMessageSearchAvailable s =
     ensure (visibility s = PUBLIC) CommunityMessageSearchUnavailableError"

definition settings_isPublic :: "settings \<Rightarrow> bool" where
  "settings_isPublic s \<longleftrightarrow> visibility s = PUBLIC"

definition settings_isPrivate :: "settings \<Rightarrow> bool" where
  "settings_isPrivate s \<longleftrightarrow> visibility s = PRIVATE"

record profile =
  profile_name :: string
  profile_description :: string
  profile_avatar :: "string option"
  profile_banner :: "string option"

section \<open>Lemmas\<close>

lemma hasText_iff: "hasText chs cid \<longleftrightarrow> findIn (textChannels chs) cid \<noteq> None"
  by (simp add: hasText_def findIn_def list_ex_iff find_None_iff')

lemma hasVoice_iff: "hasVoice chs cid \<longleftrightarrow> findIn (voiceChannels chs) cid \<noteq> None"
  by (simp add: hasVoice_def findIn_def list_ex_iff find_None_iff')

lemma findIn_append:
  "findIn (xs @ ys) cid = (case findIn xs cid of None \<Rightarrow> findIn ys cid | Some c \<Rightarrow> Some c)"
  by (induction xs) (auto simp: findIn_def)

lemma textChannelPermissions_OK:
  "hasText chs cid \<Longrightarrow> \<exists>rids. textChannelPermissions chs cid = Inr rids"
  by (auto simp: hasText_iff textChannelPermissions_def findText_def)

lemma voiceChannelPermissions_OK:
  "hasVoice chs cid \<Longrightarrow> \<exists>rids. voiceChannelPermissions chs cid = Inr rids"
  by (auto simp: hasVoice_iff voiceChannelPermissions_def findVoice_def)

text \<open>A channel is never left without a visible role.\<close>

lemma updateVisibleRoleIds_nonempty [simp]: "updateVisibleRoleIds rids \<noteq> []"
  by (simp add: updateVisibleRoleIds_def)

definition channels_inv :: "channels \<Rightarrow> bool" where
  "channels_inv chs \<longleftrightarrow>
     (\<forall>c \<in> set (textChannels chs) \<union> set (voiceChannels chs). channel_visibleRoleIds c \<noteq> [])"

lemma channels_inv_addText [inv_intros]:
  "channels_inv chs \<Longrightarrow> channels_inv (addText chs name cid createdAt)"
  by (auto simp: channels_inv_def addText_def channel_create_def visibleForEveryone_def)

lemma channels_inv_addVoice [inv_intros]:
  "channels_inv chs \<Longrightarrow> channels_inv (addVoice chs name cid createdAt)"
  by (auto simp: channels_inv_def addVoice_def channel_create_def visibleForEveryone_def)

lemma channels_inv_change:
  assumes "channels_inv chs" and "changeExisting chs cid f = Inr chs'"
    and "\<And>c. channel_visibleRoleIds c \<noteq> [] \<Longrightarrow> channel_visibleRoleIds (f c) \<noteq> []"
  shows "channels_inv chs'"
  using assms set_update_first_subset [of "\<lambda>c. channel_getId c = cid" f "textChannels chs"]
    set_update_first_subset [of "\<lambda>c. channel_getId c = cid" f "voiceChannels chs"]
  by (auto simp: channels_inv_def changeExisting_def split: if_splits)

lemma channels_inv_rename [inv_intros]:
  "channels_inv chs \<Longrightarrow> channels_rename chs cid name = Inr chs' \<Longrightarrow> channels_inv chs'"
  unfolding channels_rename_def by (erule channels_inv_change, assumption) (auto simp: channel_rename_def)

lemma channels_inv_updatePermissions [inv_intros]:
  "channels_inv chs \<Longrightarrow> channels_updatePermissions chs cid rids = Inr chs' \<Longrightarrow> channels_inv chs'"
  unfolding channels_updatePermissions_def
  by (erule channels_inv_change, assumption) (auto simp: channel_updatePermissions_def)

lemma splice1_subset: "set (splice1 i xs) \<subseteq> set xs"
  by (auto simp: splice1_def Let_def dest: in_set_takeD in_set_dropD)

lemma channels_inv_remove [inv_intros]:
  "channels_inv chs \<Longrightarrow> channels_remove chs cid = Inr (chs', t) \<Longrightarrow> channels_inv chs'"
  using splice1_subset by (fastforce simp: channels_inv_def channels_remove_def Let_def split: if_splits)

end
