(* ===== verification/Community.thy ===== *)
theory Community
  imports CommunityChannels
begin

text \<open>
  The community aggregate: \<open>src/contexts/communities/domain/Community.ts\<close> with
  \<open>asserts/CommunityAccessValidator.ts\<close> and
  \<open>entities/membership/CommunityMembershipRequest.ts\<close>. A method that mutates the aggregate
  returns the new one or the error it throws; the domain events it records are kept in
  \<open>c_events\<close>. \<open>community_inv\<close> is the aggregate's invariant.
\<close>

section \<open>Primitives and domain events\<close>

record role_primitives =
  rp_builtIn :: bool
  rp_id :: string
  rp_name :: string
  rp_permissions :: "string list"

record assignment_primitives =
  ap_identityId :: string
  ap_roleIds :: "string list"

text \<open>\<open>permissions\<close> is absent in records older than channel permissions.\<close>

record channel_primitives =
  cp_createdAt :: timestamp
  cp_id :: string
  cp_name :: string
  cp_permissions :: "string list option"
  cp_type :: string

text \<open>Fields the reader defaults when a stored record lacks them are optional.\<close>

record community_primitives =
  p_autoJoinEnabled :: "bool option"
  p_avatar :: "string option"
  p_bannedMemberIds :: "string list option"
  p_banner :: "string option"
  p_createdAt :: timestamp
  p_description :: string
  p_discoverable :: "bool option"
  p_id :: string
  p_memberIds :: "string list"
  p_memberRoles :: "assignment_primitives list option"
  p_name :: string
  p_networkId :: string
  p_ownerIdentityId :: string
  p_roles :: "role_primitives list option"
  p_textChannels :: "channel_primitives list"
  p_visibility :: "string option"
  p_voiceChannels :: "channel_primitives list option"

record event_attributes =
  ev_communityId :: string
  ev_memberIds :: "string list"
  ev_networkId :: string

datatype community_event =
    CommunityWasCreated event_attributes community_primitives identity_id
  | CommunityWasUpdated event_attributes community_primitives
  | CommunityMemberWasAdded event_attributes community_primitives identity_id
  | CommunityMemberWasLeft event_attributes "identity_id option" community_primitives identity_id
  | CommunityChannelWasCreated event_attributes channel_primitives
  | CommunityChannelWasRenamed event_attributes channel_id string
  | CommunityChannelWasDeleted event_attributes channel_id
  | CommunityChannelMessageWasSent event_attributes identity_id channel_id string
  | CommunityChannelMessageWasEdited event_attributes identity_id channel_id string
  | CommunityChannelMessageWasDeleted event_attributes identity_id channel_id string

record community =
  c_id :: community_id
  c_network :: network_id
  c_owner :: identity_id
  c_profile :: profile
  c_membership :: membership
  c_channels :: channels
  c_settings :: settings
  c_events :: "community_event list"

definition role_toPrimitives :: "role \<Rightarrow> role_primitives" where
  "role_toPrimitives r =
     \<lparr>rp_builtIn = role_builtIn r, rp_id = role_getId r, rp_name = role_name r,
      rp_permissions = map permission_value (role_permissions r)\<rparr>"

definition assignment_toPrimitives :: "assignment \<Rightarrow> assignment_primitives" where
  "assignment_toPrimitives a =
     \<lparr>ap_identityId = assigned_identity a, ap_roleIds = assigned_roles a\<rparr>"

definition textChannel_toPrimitives :: "channel \<Rightarrow> channel_primitives" where
  "textChannel_toPrimitives c =
     \<lparr>cp_createdAt = channel_createdAt c, cp_id = channel_getId c, cp_name = channel_name c,
      cp_permissions = Some (channel_visibleRoleIds c), cp_type = ''text''\<rparr>"

definition voiceChannel_toPrimitives :: "channel \<Rightarrow> channel_primitives" where
  "voiceChannel_toPrimitives c =
     \<lparr>cp_createdAt = channel_createdAt c, cp_id = channel_getId c, cp_name = channel_name c,
      cp_permissions = Some (channel_visibleRoleIds c), cp_type = ''voice''\<rparr>"

definition toPrimitives :: "community \<Rightarrow> community_primitives" where
  "toPrimitives c =
     \<lparr>p_autoJoinEnabled = Some (autoJoinEnabled (c_settings c)),
      p_avatar = profile_avatar (c_profile c),
      p_bannedMemberIds = Some (bannedMembers (c_membership c)),
      p_banner = profile_banner (c_profile c),
      p_createdAt = settings_createdAt (c_settings c),
      p_description = profile_description (c_profile c),
      p_discoverable = Some (discoverable (c_settings c)),
      p_id = c_id c,
      p_memberIds = members (c_membership c),
      p_memberRoles = Some (map assignment_toPrimitives (roles_assignments (member_roles (c_membership c)))),
      p_name = profile_name (c_profile c),
      p_networkId = c_network c,
      p_ownerIdentityId = c_owner c,
      p_roles = Some (map role_toPrimitives (roles_list (member_roles (c_membership c)))),
      p_textChannels = map textChannel_toPrimitives (textChannels (c_channels c)),
      p_visibility = Some (visibility_value (visibility (c_settings c))),
      p_voiceChannels = Some (map voiceChannel_toPrimitives (voiceChannels (c_channels c)))\<rparr>"

definition role_fromPrimitives :: "lib \<Rightarrow> role_primitives \<Rightarrow> community_error + role" where
  "role_fromPrimitives L p =
     bindR (new_CommunityRoleId L (rp_id p)) (\<lambda>rid.
     bindR (new_CommunityRoleName L (rp_name p)) (\<lambda>name.
     bindR (mapR new_CommunityPermission (rp_permissions p)) (\<lambda>ps.
       Inr \<lparr>role_getId = rid, role_name = name, role_permissions = ps, role_builtIn = rp_builtIn p\<rparr>)))"

definition assignment_fromPrimitives :: "lib \<Rightarrow> assignment_primitives \<Rightarrow> community_error + assignment" where
  "assignment_fromPrimitives L p =
     bindR (new_IdentityId L (ap_identityId p)) (\<lambda>i.
     bindR (mapR (new_CommunityRoleId L) (ap_roleIds p)) (\<lambda>rids.
       Inr \<lparr>assigned_identity = i, assigned_roles = rids\<rparr>))"

definition roles_fromPrimitives :: "lib \<Rightarrow> role_primitives list option \<Rightarrow> assignment_primitives list option \<Rightarrow> community_error + roles" where
  "roles_fromPrimitives L rps aps =
     bindR (case rps of None \<Rightarrow> Inr [role_of_everyone] | Some ps \<Rightarrow> mapR (role_fromPrimitives L) ps) (\<lambda>rs.
     bindR (mapR (assignment_fromPrimitives L) (case aps of None \<Rightarrow> [] | Some ps \<Rightarrow> ps)) (\<lambda>as.
       Inr \<lparr>roles_list = rs, roles_assignments = as\<rparr>))"

definition channel_fromPrimitives :: "lib \<Rightarrow> channel_primitives \<Rightarrow> community_error + channel" where
  "channel_fromPrimitives L p =
     bindR (new_CommunityChannelId L (cp_id p)) (\<lambda>cid.
     bindR (new_CommunityChannelName L (cp_name p)) (\<lambda>name.
     bindR (mapR (new_CommunityRoleId L)
              (case cp_permissions p of None \<Rightarrow> [role_everyone] | Some rids \<Rightarrow> rids)) (\<lambda>rids.
     bindR (new_Timestamp L (cp_createdAt p)) (\<lambda>createdAt.
       Inr \<lparr>channel_getId = cid, channel_name = name, channel_visibleRoleIds = rids,
            channel_createdAt = createdAt\<rparr>))))"

text \<open>\<open>primitives.avatar ? new CommunityAvatar(...) : undefined\<close>: the empty string is falsy.\<close>

definition optional_text :: "(string \<Rightarrow> community_error + string) \<Rightarrow> string option \<Rightarrow> community_error + string option" where
  "optional_text build v =
     (case v of
        None \<Rightarrow> Inr None
      | Some s \<Rightarrow> if s = [] then Inr None else bindR (build s) (\<lambda>t. Inr (Some t)))"

definition settings_fromPrimitives :: "lib \<Rightarrow> community_primitives \<Rightarrow> community_error + settings" where
  "settings_fromPrimitives L p =
     bindR (new_Timestamp L (p_createdAt p)) (\<lambda>createdAt.
     bindR (new_CommunityVisibility (case p_visibility p of None \<Rightarrow> ''private'' | Some v \<Rightarrow> v)) (\<lambda>vis.
       Inr \<lparr>settings_createdAt = createdAt,
            discoverable = (case p_discoverable p of None \<Rightarrow> True | Some b \<Rightarrow> b),
            visibility = vis,
            autoJoinEnabled = (case p_autoJoinEnabled p of None \<Rightarrow> False | Some b \<Rightarrow> b)\<rparr>))"

definition fromPrimitives :: "lib \<Rightarrow> community_primitives \<Rightarrow> community_error + community" where
  "fromPrimitives L p =
     bindR (new_CommunityId L (p_id p)) (\<lambda>cid.
     bindR (new_NetworkId L (p_networkId p)) (\<lambda>network.
     bindR (new_IdentityId L (p_ownerIdentityId p)) (\<lambda>owner.
     bindR (new_CommunityName L (p_name p)) (\<lambda>name.
     bindR (new_CommunityDescription L (p_description p)) (\<lambda>description.
     bindR (optional_text (new_CommunityAvatar L) (p_avatar p)) (\<lambda>avatar.
     bindR (optional_text (new_CommunityBanner L) (p_banner p)) (\<lambda>banner.
     bindR (mapR (new_IdentityId L) (p_memberIds p)) (\<lambda>ms.
     bindR (roles_fromPrimitives L (p_roles p) (p_memberRoles p)) (\<lambda>rs.
     bindR (mapR (new_IdentityId L) (case p_bannedMemberIds p of None \<Rightarrow> [] | Some bs \<Rightarrow> bs)) (\<lambda>bs.
     bindR (mapR (channel_fromPrimitives L) (p_textChannels p)) (\<lambda>texts.
     bindR (mapR (channel_fromPrimitives L) (case p_voiceChannels p of None \<Rightarrow> [] | Some cs \<Rightarrow> cs)) (\<lambda>voices.
     bindR (settings_fromPrimitives L p) (\<lambda>sets.
       Inr \<lparr>c_id = cid, c_network = network, c_owner = owner,
            c_profile = \<lparr>profile_name = name, profile_description = description,
                         profile_avatar = avatar, profile_banner = banner\<rparr>,
            c_membership = \<lparr>members = ms, member_roles = rs, bannedMembers = bs\<rparr>,
            c_channels = \<lparr>textChannels = texts, voiceChannels = voices\<rparr>,
            c_settings = sets, c_events = []\<rparr>)))))))))))))"

definition eventAttributes :: "community \<Rightarrow> event_attributes" where
  "eventAttributes c =
     \<lparr>ev_communityId = c_id c, ev_memberIds = members (c_membership c), ev_networkId = c_network c\<rparr>"

definition recordEvent :: "community \<Rightarrow> community_event \<Rightarrow> community" where
  "recordEvent c e = c\<lparr>c_events := c_events c @ [e]\<rparr>"

definition recordUpdated :: "community \<Rightarrow> community" where
  "recordUpdated c = recordEvent c (CommunityWasUpdated (eventAttributes c) (toPrimitives c))"

definition community_create :: "identity_id \<Rightarrow> network_id \<Rightarrow> profile \<Rightarrow> settings \<Rightarrow> community_id \<Rightarrow> community" where
  "community_create owner network prof sets cid =
     (let c = \<lparr>c_id = cid, c_network = network, c_owner = owner, c_profile = prof,
               c_membership = \<lparr>members = [owner], member_roles = roles_default, bannedMembers = []\<rparr>,
               c_channels = \<lparr>textChannels = [], voiceChannels = []\<rparr>,
               c_settings = sets, c_events = []\<rparr>
      in recordEvent c (CommunityWasCreated (eventAttributes c) (toPrimitives c) owner))"

section \<open>Access checks\<close>

abbreviation community_permits :: "community \<Rightarrow> identity_id \<Rightarrow> permission \<Rightarrow> community_error + unit" where
  "community_permits c i p \<equiv> assertHasPermission (c_owner c) (c_membership c) i p"

definition holds :: "community \<Rightarrow> identity_id \<Rightarrow> permission \<Rightarrow> bool" where
  "holds c i p = hasPermission (c_owner c) (c_membership c) i p"

definition assertIsMember :: "community \<Rightarrow> identity_id \<Rightarrow> community_error + unit" where
  "assertIsMember c i = ensure (isMember (c_membership c) i) CommunityMemberNotFoundError"

definition assertIsNotBanned :: "community \<Rightarrow> identity_id \<Rightarrow> community_error + unit" where
  "assertIsNotBanned c i = ensure (\<not> isBanned (c_membership c) i) CommunityMemberBannedError"

definition assertCanCreateInvite :: "community \<Rightarrow> identity_id \<Rightarrow> community_error + unit" where
  "assertCanCreateInvite c i = community_permits c i CREATE_INVITES"

definition assertCanApproveMembers :: "community \<Rightarrow> identity_id \<Rightarrow> community_error + unit" where
  "assertCanApproveMembers c i = community_permits c i APPROVE_MEMBERS"

definition assertCanRejectMembers :: "community \<Rightarrow> identity_id \<Rightarrow> community_error + unit" where
  "assertCanRejectMembers c i = community_permits c i REJECT_MEMBERS"

definition assertCanManageMembers :: "community \<Rightarrow> identity_id \<Rightarrow> community_error + unit" where
  "assertCanManageMembers c i = community_permits c i MANAGE_MEMBERS"

definition assertCanManageChannels :: "community \<Rightarrow> identity_id \<Rightarrow> community_error + unit" where
  "assertCanManageChannels c i = community_permits c i MANAGE_CHANNELS"

definition assertCanManageRoles :: "community \<Rightarrow> identity_id \<Rightarrow> community_error + unit" where
  "assertCanManageRoles c i = community_permits c i MANAGE_ROLES"

definition assertCanBanMembers :: "community \<Rightarrow> identity_id \<Rightarrow> community_error + unit" where
  "assertCanBanMembers c i = community_permits c i BAN_MEMBERS"

definition assertCanRevokeInvitation :: "community \<Rightarrow> identity_id \<Rightarrow> community_error + unit" where
  "assertCanRevokeInvitation c i =
     (if hasPermission (c_owner c) (c_membership c) i MANAGE_MEMBERS then Inr ()
      else assertCanCreateInvite c i)"

definition assertCanViewTextChannel :: "community \<Rightarrow> identity_id \<Rightarrow> channel_id \<Rightarrow> community_error + unit" where
  "assertCanViewTextChannel c i cid =
     bindR (assertIsMember c i) (\<lambda>_.
     bindR (ensure (hasText (c_channels c) cid) CommunityChannelNotFoundError) (\<lambda>_.
     bindR (textChannelPermissions (c_channels c) cid) (\<lambda>rids.
       assertCanAccessChannel (c_owner c) (c_membership c) i rids)))"

definition assertCanViewChannel :: "community \<Rightarrow> identity_id \<Rightarrow> channel_id \<Rightarrow> community_error + unit" where
  "assertCanViewChannel c i cid =
     bindR (assertIsMember c i) (\<lambda>_.
     bindR (channels_permissions (c_channels c) cid) (\<lambda>rids.
       assertCanAccessChannel (c_owner c) (c_membership c) i rids))"

definition assertCanManageMessages :: "community \<Rightarrow> identity_id \<Rightarrow> channel_id \<Rightarrow> community_error + unit" where
  "assertCanManageMessages c i cid =
     bindR (assertCanViewTextChannel c i cid) (\<lambda>_. community_permits c i MANAGE_MESSAGES)"

definition assertCanSendMessage :: "community \<Rightarrow> identity_id \<Rightarrow> channel_id \<Rightarrow> community_error + unit" where
  "assertCanSendMessage c i cid =
     bindR (assertCanViewTextChannel c i cid) (\<lambda>_. community_permits c i SEND_MESSAGES)"

definition assertCanReactWithSticker :: "community \<Rightarrow> identity_id \<Rightarrow> channel_id \<Rightarrow> community_error + unit" where
  "assertCanReactWithSticker c i cid =
     bindR (assertCanSendMessage c i cid) (\<lambda>_. community_permits c i SEND_STICKERS)"

definition assertCanSearchMessages :: "community \<Rightarrow> community_error + unit" where
  "assertCanSearchMessages c = ensureMessageSearchAvailable (c_settings c)"

definition assertCanConnectVoice :: "community \<Rightarrow> identity_id \<Rightarrow> channel_id \<Rightarrow> community_error + unit" where
  "assertCanConnectVoice c i cid =
     bindR (assertIsMember c i) (\<lambda>_.
     bindR (ensure (hasVoice (c_channels c) cid) CommunityChannelNotFoundError) (\<lambda>_.
     bindR (voiceChannelPermissions (c_channels c) cid) (\<lambda>rids.
     bindR (assertCanAccessChannel (c_owner c) (c_membership c) i rids) (\<lambda>_.
       community_permits c i CONNECT_VOICE))))"

definition assertCanRecordMessageDeletion :: "community \<Rightarrow> identity_id \<Rightarrow> identity_id \<Rightarrow> community_error + unit" where
  "assertCanRecordMessageDeletion c actor author =
     bindR (assertIsMember c actor) (\<lambda>_.
       if actor = author then Inr () else community_permits c actor MANAGE_MESSAGES)"

definition assertCanUseMessagePayload :: "community \<Rightarrow> payload \<Rightarrow> community_error + unit" where
  "assertCanUseMessagePayload c p = ensureMessagePayloadAllowed (c_settings c) p"

definition assertCanUseMessageMentions :: "community \<Rightarrow> identity_id \<Rightarrow> mention list \<Rightarrow> community_error + unit" where
  "assertCanUseMessageMentions c i mentions =
     eachR (\<lambda>m.
       bindR (if mention_isEveryone m then community_permits c i MENTION_EVERYONE else Inr ()) (\<lambda>_.
       bindR (if mention_isHere m then community_permits c i MENTION_HERE else Inr ()) (\<lambda>_.
         if mention_isRole m then community_permits c i MENTION_ROLES else Inr ()))) mentions"

definition assertCanSendChannelMessage :: "community \<Rightarrow> identity_id \<Rightarrow> channel_id \<Rightarrow> payload \<Rightarrow> mention list \<Rightarrow> community_error + unit" where
  "assertCanSendChannelMessage c i cid p mentions =
     bindR (assertCanSendMessage c i cid) (\<lambda>_.
     bindR (assertCanUseMessagePayload c p) (\<lambda>_.
       assertCanUseMessageMentions c i mentions))"

definition visibleTextChannelIdsFor :: "community \<Rightarrow> identity_id \<Rightarrow> community_error + channel_id list" where
  "visibleTextChannelIdsFor c i =
     bindR (assertIsMember c i) (\<lambda>_.
       Inr (visibleTextChannelIds (c_channels c) (canAccessChannel (c_owner c) (c_membership c) i)))"

definition visibleChannelsFor :: "community \<Rightarrow> identity_id \<Rightarrow> channels" where
  "visibleChannelsFor c i =
     visibleChannels (c_channels c) (canAccessChannel (c_owner c) (c_membership c) i)"

definition visibleMembersForTextChannel :: "community \<Rightarrow> channel_id \<Rightarrow> community_error + identity_id list" where
  "visibleMembersForTextChannel c cid =
     bindR (ensure (hasText (c_channels c) cid) CommunityChannelNotFoundError) (\<lambda>_.
     bindR (textChannelPermissions (c_channels c) cid) (\<lambda>rids.
       Inr (membersWithAnyRole (c_membership c) rids (c_owner c))))"

definition assertCanCreateTextChannelPoll :: "community \<Rightarrow> identity_id \<Rightarrow> channel_id \<Rightarrow> community_error + unit" where
  "assertCanCreateTextChannelPoll c i cid =
     bindR (assertCanViewTextChannel c i cid) (\<lambda>_. community_permits c i CREATE_POLLS)"

definition assertCanVoteTextChannelPoll :: "community \<Rightarrow> identity_id \<Rightarrow> channel_id \<Rightarrow> community_error + unit" where
  "assertCanVoteTextChannelPoll c i cid = assertCanViewTextChannel c i cid"

end
