(* ===== verification/CommunityActions.thy ===== *)
theory CommunityActions
  imports Community
begin

text \<open>
  The methods of \<open>src/contexts/communities/domain/Community.ts\<close> that change the aggregate,
  its channel messages and the membership requests
  (\<open>entities/membership/CommunityMembershipRequest.ts\<close>). The lemmas show what each method
  needs of its actor (\<open>needs_*\<close>) and that each keeps \<open>community_inv\<close>.
\<close>

section \<open>Membership requests\<close>

datatype request_status = ACCEPTED | DECLINED | PENDING

text \<open>
  The events a request records: the owner they name, and the status and the update time of
  the primitives of the request at that moment.
\<close>

datatype request_event =
    RequestWasCreated "identity_id option" request_status timestamp
  | RequestWasAccepted "identity_id option" request_status timestamp
  | RequestWasDeclined "identity_id option" request_status timestamp

record membership_request =
  request_id :: string
  request_communityId :: community_id
  request_status :: request_status
  request_creatorIdentityId :: identity_id
  request_identityId :: identity_id
  request_createdAt :: timestamp
  request_updatedAt :: timestamp
  request_events :: "request_event list"

definition recordRequest :: "(identity_id option \<Rightarrow> request_status \<Rightarrow> timestamp \<Rightarrow> request_event) \<Rightarrow> identity_id option \<Rightarrow> membership_request \<Rightarrow> membership_request" where
  "recordRequest event owner r =
     r\<lparr>request_events := request_events r @ [event owner (request_status r) (request_updatedAt r)]\<rparr>"

definition request_create :: "lib \<Rightarrow> community_id \<Rightarrow> identity_id \<Rightarrow> timestamp \<Rightarrow> identity_id option \<Rightarrow> membership_request" where
  "request_create L cid requester createdAt owner = recordRequest RequestWasCreated owner
     \<lparr>request_id = lib_commit_request L cid ''request'' requester requester createdAt,
      request_communityId = cid, request_status = PENDING,
      request_creatorIdentityId = requester, request_identityId = requester,
      request_createdAt = createdAt, request_updatedAt = createdAt, request_events = []\<rparr>"

definition request_accept :: "membership_request \<Rightarrow> identity_id \<Rightarrow> identity_id \<Rightarrow> timestamp \<Rightarrow> community_error + membership_request" where
  "request_accept r actor owner updatedAt =
     bindR (ensure (request_status r = PENDING) CommunityRequestAlreadyResolvedError) (\<lambda>_.
     bindR (ensure (owner = actor) CommunityRequestActorMismatchError) (\<lambda>_.
       Inr (recordRequest RequestWasAccepted (Some owner)
              (r\<lparr>request_status := ACCEPTED, request_updatedAt := updatedAt\<rparr>))))"

definition request_acceptAutomatically :: "membership_request \<Rightarrow> identity_id \<Rightarrow> timestamp \<Rightarrow> community_error + membership_request" where
  "request_acceptAutomatically r owner updatedAt =
     bindR (ensure (request_status r = PENDING) CommunityRequestAlreadyResolvedError) (\<lambda>_.
       Inr (recordRequest RequestWasAccepted (Some owner)
              (r\<lparr>request_status := ACCEPTED, request_updatedAt := updatedAt\<rparr>)))"

definition request_decline :: "membership_request \<Rightarrow> identity_id \<Rightarrow> identity_id \<Rightarrow> timestamp \<Rightarrow> community_error + membership_request" where
  "request_decline r actor owner updatedAt =
     bindR (ensure (request_status r = PENDING) CommunityRequestAlreadyResolvedError) (\<lambda>_.
     bindR (ensure (request_identityId r = actor \<or> owner = actor) CommunityRequestActorMismatchError) (\<lambda>_.
       Inr (recordRequest RequestWasDeclined (Some owner)
              (r\<lparr>request_status := DECLINED, request_updatedAt := updatedAt\<rparr>))))"

section \<open>Members\<close>

definition join :: "community \<Rightarrow> identity_id \<Rightarrow> community_error + community" where
  "join c i =
     bindR (assertIsNotBanned c i) (\<lambda>_.
       if isMember (c_membership c) i then Inr c
       else (let c' = c\<lparr>c_membership := membership_add (c_membership c) i\<rparr> in
             Inr (recordEvent c' (CommunityMemberWasAdded (eventAttributes c') (toPrimitives c') i))))"

definition addMember :: "community \<Rightarrow> identity_id \<Rightarrow> identity_id \<Rightarrow> community_error + community" where
  "addMember c actor i = bindR (assertCanManageMembers c actor) (\<lambda>_. join c i)"

definition joinAs :: "community \<Rightarrow> identity_id \<Rightarrow> identity_id \<Rightarrow> join_method \<Rightarrow> community_error + community" where
  "joinAs c author i m =
     bindR (if isSelfJoin m then ensure (author = i) CommunityRequestActorMismatchError else Inr ()) (\<lambda>_.
     bindR (case m of
              ADDED \<Rightarrow> assertCanManageMembers c author
            | INVITATION \<Rightarrow>
                bindR (assertCanManageMembers c author) (\<lambda>_.
                  ensure (\<not> isMember (c_membership c) i) CommunityInvitationUnusableError)
            | APPROVAL \<Rightarrow> assertCanApproveMembers c author
            | AUTOMATIC \<Rightarrow>
                ensure (autoJoinEnabled (c_settings c)) (CommunityPermissionDeniedError ''auto_join'')) (\<lambda>_.
       join c i))"

definition acceptMembershipRequest :: "community \<Rightarrow> identity_id \<Rightarrow> membership_request \<Rightarrow> timestamp \<Rightarrow> community_error + (community \<times> membership_request)" where
  "acceptMembershipRequest c actor r updatedAt =
     bindR (assertCanApproveMembers c actor) (\<lambda>_.
     bindR (request_accept r actor actor updatedAt) (\<lambda>r'.
     bindR (join c (request_identityId r)) (\<lambda>c'. Inr (c', r'))))"

definition acceptMembershipRequestAutomatically :: "community \<Rightarrow> membership_request \<Rightarrow> timestamp \<Rightarrow> community_error + (community \<times> membership_request)" where
  "acceptMembershipRequestAutomatically c r updatedAt =
     bindR (request_acceptAutomatically r (c_owner c) updatedAt) (\<lambda>r'.
     bindR (join c (request_identityId r)) (\<lambda>c'. Inr (c', r')))"

definition declineMembershipRequest :: "community \<Rightarrow> identity_id \<Rightarrow> membership_request \<Rightarrow> timestamp \<Rightarrow> community_error + membership_request" where
  "declineMembershipRequest c actor r updatedAt =
     bindR (assertCanRejectMembers c actor) (\<lambda>_. request_decline r actor actor updatedAt)"

text \<open>\<open>requestMembership\<close> lets anyone who is not banned ask to join.\<close>

definition requestMembership :: "community \<Rightarrow> identity_id \<Rightarrow> community_error + unit" where
  "requestMembership c i = assertIsNotBanned c i"

definition createMembershipRequest :: "lib \<Rightarrow> community \<Rightarrow> identity_id \<Rightarrow> timestamp \<Rightarrow> community_error + membership_request" where
  "createMembershipRequest L c i createdAt =
     bindR (requestMembership c i) (\<lambda>_. Inr (request_create L (c_id c) i createdAt (Some (c_owner c))))"

definition assertRequestResolvedByAuthorized :: "community \<Rightarrow> identity_id \<Rightarrow> membership_request \<Rightarrow> community_error + unit" where
  "assertRequestResolvedByAuthorized c author r =
     (let isAutoJoinedRequester =
        request_status r = ACCEPTED \<and> autoJoinEnabled (c_settings c) \<and> request_identityId r = author in
      if isAutoJoinedRequester then requestMembership c author
      else if request_status r = ACCEPTED then assertCanApproveMembers c author
      else if request_identityId r \<noteq> author then assertCanRejectMembers c author
      else Inr ())"

definition assertMembershipRequestAuthoredBy :: "community \<Rightarrow> identity_id \<Rightarrow> membership_request \<Rightarrow> community_error + unit" where
  "assertMembershipRequestAuthoredBy c author r =
     (if request_status r = PENDING
      then (if request_creatorIdentityId r \<noteq> author then Inl CommunityRequestActorMismatchError
            else requestMembership c author)
      else assertRequestResolvedByAuthorized c author r)"

definition leave :: "community \<Rightarrow> identity_id \<Rightarrow> community_error + community" where
  "leave c i =
     bindR (assertIsMember c i) (\<lambda>_.
     bindR (ensure (c_owner c \<noteq> i \<or> length (members (c_membership c)) = 1) CommunityOwnerCannotLeaveError) (\<lambda>_.
       let c' = c\<lparr>c_membership := membership_remove (c_membership c) i\<rparr> in
       Inr (recordEvent c' (CommunityMemberWasLeft (eventAttributes c') None (toPrimitives c') i))))"

definition kickMember :: "community \<Rightarrow> identity_id \<Rightarrow> identity_id \<Rightarrow> community_error + community" where
  "kickMember c actor i =
     bindR (assertCanManageMembers c actor) (\<lambda>_.
     bindR (assertIsMember c i) (\<lambda>_.
     bindR (ensure (c_owner c \<noteq> i) CommunityOwnerCannotBeKickedError) (\<lambda>_.
       let c' = c\<lparr>c_membership := membership_remove (c_membership c) i\<rparr> in
       Inr (recordEvent c' (CommunityMemberWasLeft (eventAttributes c') (Some actor) (toPrimitives c') i)))))"

definition banMember :: "community \<Rightarrow> identity_id \<Rightarrow> identity_id \<Rightarrow> community_error + community" where
  "banMember c actor i =
     bindR (assertCanBanMembers c actor) (\<lambda>_.
     bindR (ensure (c_owner c \<noteq> i) CommunityOwnerMismatchError) (\<lambda>_.
       let wasMember = isMember (c_membership c) i;
           c' = recordUpdated (c\<lparr>c_membership := membership_ban (c_membership c) i\<rparr>) in
       Inr (if wasMember
            then recordEvent c' (CommunityMemberWasLeft (eventAttributes c') (Some actor) (toPrimitives c') i)
            else c')))"

definition unbanMember :: "community \<Rightarrow> identity_id \<Rightarrow> identity_id \<Rightarrow> community_error + community" where
  "unbanMember c actor i =
     bindR (assertCanBanMembers c actor) (\<lambda>_.
       Inr (recordUpdated (c\<lparr>c_membership := membership_unban (c_membership c) i\<rparr>)))"

section \<open>Channels\<close>

definition addTextChannel :: "community \<Rightarrow> identity_id \<Rightarrow> string \<Rightarrow> channel_id \<Rightarrow> timestamp \<Rightarrow> community_error + community" where
  "addTextChannel c actor name cid createdAt =
     bindR (assertCanManageChannels c actor) (\<lambda>_.
       let c' = c\<lparr>c_channels := addText (c_channels c) name cid createdAt\<rparr> in
       Inr (recordEvent c' (CommunityChannelWasCreated (eventAttributes c')
              (textChannel_toPrimitives (channel_create name cid createdAt)))))"

definition addVoiceChannel :: "community \<Rightarrow> identity_id \<Rightarrow> string \<Rightarrow> channel_id \<Rightarrow> timestamp \<Rightarrow> community_error + community" where
  "addVoiceChannel c actor name cid createdAt =
     bindR (assertCanManageChannels c actor) (\<lambda>_.
       let c' = c\<lparr>c_channels := addVoice (c_channels c) name cid createdAt\<rparr> in
       Inr (recordEvent c' (CommunityChannelWasCreated (eventAttributes c')
              (voiceChannel_toPrimitives (channel_create name cid createdAt)))))"

definition renameChannel :: "community \<Rightarrow> identity_id \<Rightarrow> channel_id \<Rightarrow> string \<Rightarrow> community_error + community" where
  "renameChannel c actor cid name =
     bindR (assertCanManageChannels c actor) (\<lambda>_.
     bindR (channels_rename (c_channels c) cid name) (\<lambda>chs.
       let c' = c\<lparr>c_channels := chs\<rparr> in
       Inr (recordEvent c' (CommunityChannelWasRenamed (eventAttributes c') cid name))))"

definition deleteChannel :: "community \<Rightarrow> identity_id \<Rightarrow> channel_id \<Rightarrow> community_error + (community \<times> channel_type)" where
  "deleteChannel c actor cid =
     bindR (assertCanManageChannels c actor) (\<lambda>_.
     bindR (channels_remove (c_channels c) cid) (\<lambda>(chs, channelType).
       let c' = c\<lparr>c_channels := chs\<rparr> in
       Inr (recordEvent c' (CommunityChannelWasDeleted (eventAttributes c') cid), channelType)))"

definition updateChannelPermissions :: "community \<Rightarrow> identity_id \<Rightarrow> channel_id \<Rightarrow> role_id list \<Rightarrow> community_error + community" where
  "updateChannelPermissions c actor cid rids =
     bindR (assertCanManageChannels c actor) (\<lambda>_.
     bindR (channels_updatePermissions (c_channels c) cid rids) (\<lambda>chs.
       Inr (recordUpdated (c\<lparr>c_channels := chs\<rparr>))))"

section \<open>Roles\<close>

definition addRole :: "community \<Rightarrow> identity_id \<Rightarrow> string \<Rightarrow> permission list \<Rightarrow> role_id \<Rightarrow> community_error + community" where
  "addRole c actor name ps rid =
     bindR (assertCanManageRoles c actor) (\<lambda>_.
       Inr (recordUpdated (c\<lparr>c_membership := membership_addRole (c_membership c) name ps rid\<rparr>)))"

definition updateRole :: "community \<Rightarrow> identity_id \<Rightarrow> role_id \<Rightarrow> string \<Rightarrow> permission list \<Rightarrow> community_error + community" where
  "updateRole c actor rid name ps =
     bindR (assertCanManageRoles c actor) (\<lambda>_.
     bindR (membership_updateRole (c_membership c) rid name ps) (\<lambda>m.
       Inr (recordUpdated (c\<lparr>c_membership := m\<rparr>))))"

definition deleteRole :: "community \<Rightarrow> identity_id \<Rightarrow> role_id \<Rightarrow> community_error + community" where
  "deleteRole c actor rid =
     bindR (assertCanManageRoles c actor) (\<lambda>_.
     bindR (membership_deleteRole (c_membership c) rid) (\<lambda>m.
       Inr (recordUpdated (c\<lparr>c_membership := m\<rparr>))))"

definition assignRoles :: "community \<Rightarrow> identity_id \<Rightarrow> identity_id \<Rightarrow> role_id list \<Rightarrow> community_error + community" where
  "assignRoles c actor i rids =
     bindR (assertCanManageRoles c actor) (\<lambda>_.
     bindR (assertIsMember c i) (\<lambda>_.
     bindR (membership_assignRoles (c_membership c) i rids) (\<lambda>m.
       Inr (recordUpdated (c\<lparr>c_membership := m\<rparr>)))))"

section \<open>Profile\<close>

definition updateProfile :: "community \<Rightarrow> identity_id \<Rightarrow> string \<Rightarrow> string \<Rightarrow> string option \<Rightarrow> string option
    \<Rightarrow> bool option \<Rightarrow> bool option \<Rightarrow> community_error + community" where
  "updateProfile c actor name description avatar banner disc autoJoin =
     bindR (assertIsOwner (c_owner c) actor) (\<lambda>_.
       let s0 = c_settings c;
           s1 = (case disc of None \<Rightarrow> s0 | Some b \<Rightarrow> updateDiscoverable b s0);
           s2 = (case autoJoin of None \<Rightarrow> s1 | Some b \<Rightarrow> updateAutoJoinEnabled b s1) in
       Inr (recordUpdated (c\<lparr>c_profile := \<lparr>profile_name = name, profile_description = description,
              profile_avatar = avatar, profile_banner = banner\<rparr>, c_settings := s2\<rparr>)))"

definition isPrivateGenesisFor :: "community \<Rightarrow> community_id \<Rightarrow> identity_id \<Rightarrow> bool" where
  "isPrivateGenesisFor c cid owner \<longleftrightarrow>
     c_id c = cid \<and> c_owner c = owner \<and> hasOnlyMember (c_membership c) owner \<and>
     length (bannedMembers (c_membership c)) = 0 \<and> settings_isPrivate (c_settings c) \<and>
     \<not> discoverable (c_settings c) \<and> \<not> autoJoinEnabled (c_settings c)"

definition findIdentityUpdateRecipientsFor :: "community \<Rightarrow> identity_id \<Rightarrow> identity_id list" where
  "findIdentityUpdateRecipientsFor c i = filter (\<lambda>m. m \<noteq> i) (members (c_membership c))"

section \<open>Channel messages\<close>

record message =
  message_id :: string
  message_communityId :: community_id
  message_channelId :: channel_id
  message_author :: identity_id
  message_createdAt :: timestamp
  message_replyTo :: "string option"
  message_payload :: "payload option"
  message_mentions :: "mention list"
  message_editedAt :: "timestamp option"
  message_pollId :: "string option"

definition wasAuthoredBy :: "message \<Rightarrow> identity_id \<Rightarrow> bool" where
  "wasAuthoredBy m i \<longleftrightarrow> message_author m = i"

definition message_edit :: "message \<Rightarrow> payload \<Rightarrow> timestamp \<Rightarrow> mention list \<Rightarrow> message" where
  "message_edit m p editedAt mentions =
     m\<lparr>message_payload := Some p, message_mentions := mentions,
       message_editedAt := Some editedAt, message_pollId := None\<rparr>"

text \<open>\<open>sendChannelMessage\<close>: the metadata of \<open>m\<close>, with the payload and the mentions.\<close>

definition sendChannelMessage :: "community \<Rightarrow> message \<Rightarrow> payload \<Rightarrow> mention list \<Rightarrow> community_error + (community \<times> message)" where
  "sendChannelMessage c metadata p mentions =
     bindR (assertCanSendChannelMessage c (message_author metadata) (message_channelId metadata) p mentions) (\<lambda>_.
       let m = metadata\<lparr>message_payload := Some p, message_mentions := mentions,
                 message_editedAt := None, message_pollId := None\<rparr> in
       Inr (recordEvent c (CommunityChannelMessageWasSent (eventAttributes c) (message_author m)
              (message_channelId m) (message_id m)), m))"

definition assertCanEditMessage :: "community \<Rightarrow> identity_id \<Rightarrow> message \<Rightarrow> channel_id \<Rightarrow> payload \<Rightarrow> mention list \<Rightarrow> community_error + unit" where
  "assertCanEditMessage c actor target cid p mentions =
     bindR (ensure (wasAuthoredBy target actor) CommunityChannelMessageAuthorMismatchError) (\<lambda>_.
     bindR (assertCanSendMessage c actor cid) (\<lambda>_.
     bindR (assertCanUseMessagePayload c p) (\<lambda>_.
       assertCanUseMessageMentions c actor mentions)))"

definition editChannelMessage :: "community \<Rightarrow> identity_id \<Rightarrow> message \<Rightarrow> channel_id \<Rightarrow> payload \<Rightarrow> timestamp \<Rightarrow> mention list
    \<Rightarrow> community_error + (community \<times> message)" where
  "editChannelMessage c actor target cid p editedAt mentions =
     bindR (assertCanEditMessage c actor target cid p mentions) (\<lambda>_.
       let m = message_edit target p editedAt mentions in
       Inr (recordEvent c (CommunityChannelMessageWasEdited (eventAttributes c) actor cid (message_id m)), m))"

definition assertCanDeleteMessage :: "community \<Rightarrow> identity_id \<Rightarrow> message \<Rightarrow> channel_id \<Rightarrow> community_error + unit" where
  "assertCanDeleteMessage c actor target cid =
     bindR (assertIsMember c actor) (\<lambda>_.
     bindR (ensure (hasText (c_channels c) cid) CommunityChannelNotFoundError) (\<lambda>_.
       if wasAuthoredBy target actor then Inr () else community_permits c actor MANAGE_MESSAGES))"

definition deleteChannelMessage :: "community \<Rightarrow> identity_id \<Rightarrow> message \<Rightarrow> channel_id \<Rightarrow> community_error + community" where
  "deleteChannelMessage c actor target cid =
     bindR (assertCanDeleteMessage c actor target cid) (\<lambda>_.
       Inr (recordEvent c (CommunityChannelMessageWasDeleted (eventAttributes c) actor cid (message_id target))))"

section \<open>Moderation log entries\<close>

datatype moderation_action =
    LOG_CHANNEL_CREATED | LOG_CHANNEL_DELETED | LOG_CHANNEL_PERMISSIONS_UPDATED
  | LOG_CHANNEL_RENAMED | LOG_COMMUNITY_UPDATED | LOG_INVITATION_CREATED
  | LOG_INVITATION_REVOKED | LOG_MEMBER_BANNED | LOG_MEMBER_KICKED
  | LOG_MEMBER_ROLES_UPDATED | LOG_MEMBER_UNBANNED | LOG_MEMBERSHIP_REQUEST_ACCEPTED
  | LOG_MEMBERSHIP_REQUEST_DECLINED | LOG_MESSAGE_DELETED | LOG_ROLE_CREATED
  | LOG_ROLE_DELETED | LOG_ROLE_UPDATED

fun assertCanRecordModerationAction :: "lib \<Rightarrow> community \<Rightarrow> identity_id \<Rightarrow> moderation_action \<Rightarrow> (string \<times> json) list \<Rightarrow> community_error + unit" where
  "assertCanRecordModerationAction L c actor LOG_CHANNEL_CREATED details = assertCanManageChannels c actor"
| "assertCanRecordModerationAction L c actor LOG_CHANNEL_DELETED details = assertCanManageChannels c actor"
| "assertCanRecordModerationAction L c actor LOG_CHANNEL_PERMISSIONS_UPDATED details = assertCanManageChannels c actor"
| "assertCanRecordModerationAction L c actor LOG_CHANNEL_RENAMED details = assertCanManageChannels c actor"
| "assertCanRecordModerationAction L c actor LOG_COMMUNITY_UPDATED details = assertIsOwner (c_owner c) actor"
| "assertCanRecordModerationAction L c actor LOG_INVITATION_CREATED details = assertCanCreateInvite c actor"
| "assertCanRecordModerationAction L c actor LOG_INVITATION_REVOKED details = assertCanRevokeInvitation c actor"
| "assertCanRecordModerationAction L c actor LOG_MEMBER_BANNED details = assertCanBanMembers c actor"
| "assertCanRecordModerationAction L c actor LOG_MEMBER_KICKED details = assertCanManageMembers c actor"
| "assertCanRecordModerationAction L c actor LOG_MEMBER_ROLES_UPDATED details = assertCanManageRoles c actor"
| "assertCanRecordModerationAction L c actor LOG_MEMBER_UNBANNED details = assertCanBanMembers c actor"
| "assertCanRecordModerationAction L c actor LOG_MEMBERSHIP_REQUEST_ACCEPTED details = assertCanApproveMembers c actor"
| "assertCanRecordModerationAction L c actor LOG_MEMBERSHIP_REQUEST_DECLINED details = assertCanRejectMembers c actor"
| "assertCanRecordModerationAction L c actor LOG_MESSAGE_DELETED details =
     (case map_of details ''targetMessageAuthorId'' of
        Some (JString s) \<Rightarrow> bindR (new_IdentityId L s) (\<lambda>author. assertCanRecordMessageDeletion c actor author)
      | _ \<Rightarrow> Inl TypeError)"
| "assertCanRecordModerationAction L c actor LOG_ROLE_CREATED details = assertCanManageRoles c actor"
| "assertCanRecordModerationAction L c actor LOG_ROLE_DELETED details = assertCanManageRoles c actor"
| "assertCanRecordModerationAction L c actor LOG_ROLE_UPDATED details = assertCanManageRoles c actor"

section \<open>The aggregate invariant\<close>

text \<open>
  Members, bans, roles and channels are well formed; the owner is a member and is never
  banned. Only the owner leaving as the last member ends it, and leaves nobody.
\<close>

definition community_inv :: "community \<Rightarrow> bool" where
  "community_inv c \<longleftrightarrow>
     membership_inv (c_membership c) \<and> channels_inv (c_channels c) \<and>
     c_owner c \<in> set (members (c_membership c)) \<and> c_owner c \<notin> set (bannedMembers (c_membership c))"

lemma recordEvent_simps [simp]:
  "c_id (recordEvent c e) = c_id c" "c_network (recordEvent c e) = c_network c"
  "c_owner (recordEvent c e) = c_owner c" "c_profile (recordEvent c e) = c_profile c"
  "c_membership (recordEvent c e) = c_membership c" "c_channels (recordEvent c e) = c_channels c"
  "c_settings (recordEvent c e) = c_settings c"
  by (simp_all add: recordEvent_def)

lemma recordUpdated_simps [simp]:
  "c_id (recordUpdated c) = c_id c" "c_network (recordUpdated c) = c_network c"
  "c_owner (recordUpdated c) = c_owner c" "c_profile (recordUpdated c) = c_profile c"
  "c_membership (recordUpdated c) = c_membership c" "c_channels (recordUpdated c) = c_channels c"
  "c_settings (recordUpdated c) = c_settings c"
  by (simp_all add: recordUpdated_def)

lemma community_inv_record [simp]:
  "community_inv (recordEvent c e) = community_inv c" "community_inv (recordUpdated c) = community_inv c"
  by (simp_all add: community_inv_def)

lemma community_inv_membership:
  assumes "community_inv c" and "membership_inv m" and "members m = members (c_membership c)"
    and "bannedMembers m = bannedMembers (c_membership c)"
  shows "community_inv (c\<lparr>c_membership := m\<rparr>)"
  using assms by (simp add: community_inv_def)

lemma community_inv_channels:
  "community_inv c \<Longrightarrow> channels_inv chs \<Longrightarrow> community_inv (c\<lparr>c_channels := chs\<rparr>)"
  by (simp add: community_inv_def)

lemma community_inv_create [inv_intros]: "community_inv (community_create owner network prof sets cid)"
  by (simp add: community_create_def community_inv_def Let_def membership_inv_def channels_inv_def
      roles_inv_default) (simp add: roles_default_def)

lemma assert_simps [simp]:
  "assertIsMember c i = Inr u \<longleftrightarrow> i \<in> set (members (c_membership c))"
  "assertIsNotBanned c i = Inr u \<longleftrightarrow> i \<notin> set (bannedMembers (c_membership c))"
  "assertCanManageMembers c i = Inr u \<longleftrightarrow> holds c i MANAGE_MEMBERS"
  "assertCanManageChannels c i = Inr u \<longleftrightarrow> holds c i MANAGE_CHANNELS"
  "assertCanManageRoles c i = Inr u \<longleftrightarrow> holds c i MANAGE_ROLES"
  "assertCanBanMembers c i = Inr u \<longleftrightarrow> holds c i BAN_MEMBERS"
  "assertCanApproveMembers c i = Inr u \<longleftrightarrow> holds c i APPROVE_MEMBERS"
  "assertCanRejectMembers c i = Inr u \<longleftrightarrow> holds c i REJECT_MEMBERS"
  "assertCanCreateInvite c i = Inr u \<longleftrightarrow> holds c i CREATE_INVITES"
  "assertIsOwner owner i = Inr u \<longleftrightarrow> owner = i"
  by (simp_all add: assertIsMember_def assertIsNotBanned_def assertCanManageMembers_def
      assertCanManageChannels_def assertCanManageRoles_def assertCanBanMembers_def
      assertCanApproveMembers_def assertCanRejectMembers_def assertCanCreateInvite_def holds_def
      assertIsOwner_def)

lemma join_inv [inv_intros]: "community_inv c \<Longrightarrow> join c i = Inr c' \<Longrightarrow> community_inv c'"
  by (auto simp: join_def Let_def community_inv_def membership_inv_add split: if_splits)
    (auto simp: membership_add_def)

lemma joinAs_join: "joinAs c author i m = Inr c' \<Longrightarrow> join c i = Inr c'"
  by (auto simp: joinAs_def)

lemma joinAs_inv [inv_intros]: "community_inv c \<Longrightarrow> joinAs c author i m = Inr c' \<Longrightarrow> community_inv c'"
  by (blast intro: join_inv dest: joinAs_join)

lemma leave_inv [inv_intros]:
  assumes inv: "community_inv c" and l: "leave c i = Inr c'"
  shows "community_inv c' \<or> \<not> hasMembers (c_membership c')"
proof -
  from l have i: "i \<in> set (members (c_membership c))"
    and own: "c_owner c \<noteq> i \<or> length (members (c_membership c)) = 1"
    and c': "c_membership c' = membership_remove (c_membership c) i" "c_owner c' = c_owner c" "c_channels c' = c_channels c"
    by (auto simp: leave_def Let_def)
  have ms: "members (c_membership c') = remove1 i (members (c_membership c))"
    using i by (simp add: c' members_remove)
  show ?thesis
  proof (cases "c_owner c = i")
    case True
    with own i have "members (c_membership c) = [i]"
      by (cases "members (c_membership c)") auto
    with ms show ?thesis by (simp add: hasMembers_def)
  next
    case False
    then have "c_owner c \<in> set (remove1 i (members (c_membership c)))"
      using inv by (simp add: community_inv_def)
    with inv i ms show ?thesis
      by (simp add: community_inv_def c' membership_inv_remove)
  qed
qed

lemma kickMember_inv [inv_intros]:
  assumes "community_inv c" and "kickMember c actor i = Inr c'"
  shows "community_inv c'"
  using assms
  by (auto simp: kickMember_def Let_def community_inv_def members_remove membership_inv_remove)

lemma banMember_inv [inv_intros]:
  assumes "community_inv c" and "banMember c actor i = Inr c'"
  shows "community_inv c'"
  using assms
  by (auto simp: banMember_def Let_def community_inv_def members_ban bannedMembers_ban membership_inv_ban
      split: if_splits)

lemma unbanMember_inv [inv_intros]:
  assumes "community_inv c" and "unbanMember c actor i = Inr c'"
  shows "community_inv c'"
proof -
  have "members (membership_unban m i) = members m" "set (bannedMembers (membership_unban m i)) \<subseteq> set (bannedMembers m)" for m
    by (auto simp: unban_conv dest: set_remove1_subset [THEN subsetD])
  from this [of "c_membership c"] show ?thesis using assms
    by (auto simp: unbanMember_def community_inv_def membership_inv_unban subset_iff)
qed

lemma channel_ops_inv [inv_intros]:
  "community_inv c \<Longrightarrow> addTextChannel c actor name cid t = Inr c' \<Longrightarrow> community_inv c'"
  "community_inv c \<Longrightarrow> addVoiceChannel c actor name cid t = Inr c' \<Longrightarrow> community_inv c'"
  "community_inv c \<Longrightarrow> renameChannel c actor cid name = Inr c' \<Longrightarrow> community_inv c'"
  "community_inv c \<Longrightarrow> deleteChannel c actor cid = Inr (c', ty) \<Longrightarrow> community_inv c'"
  "community_inv c \<Longrightarrow> updateChannelPermissions c actor cid rids = Inr c' \<Longrightarrow> community_inv c'"
  by (auto simp: addTextChannel_def addVoiceChannel_def renameChannel_def deleteChannel_def
      updateChannelPermissions_def community_inv_def Let_def intro: inv_intros)

lemma membership_addRole_frames [simp]:
  "members (membership_addRole m name ps rid) = members m"
  "bannedMembers (membership_addRole m name ps rid) = bannedMembers m"
  by (simp_all add: membership_addRole_def)

lemma membership_role_frames:
  "membership_updateRole m rid name ps = Inr m' \<Longrightarrow> members m' = members m \<and> bannedMembers m' = bannedMembers m"
  "membership_deleteRole m rid = Inr m' \<Longrightarrow> members m' = members m \<and> bannedMembers m' = bannedMembers m"
  "membership_assignRoles m i rids = Inr m' \<Longrightarrow> members m' = members m \<and> bannedMembers m' = bannedMembers m"
  by (auto simp: membership_updateRole_def membership_deleteRole_def membership_assignRoles_def)

lemma addRole_inv [inv_intros]:
  assumes inv: "community_inv c" and op: "addRole c actor name ps rid = Inr c'"
  shows "community_inv c'"
proof -
  have "community_inv (c\<lparr>c_membership := membership_addRole (c_membership c) name ps rid\<rparr>)"
    using inv by (intro community_inv_membership) (simp_all add: community_inv_def membership_inv_addRole)
  with op show ?thesis by (auto simp: addRole_def)
qed

lemma updateRole_inv [inv_intros]:
  assumes inv: "community_inv c" and op: "updateRole c actor rid name ps = Inr c'"
  shows "community_inv c'"
proof -
  from op obtain m where m: "membership_updateRole (c_membership c) rid name ps = Inr m"
    and c': "c' = recordUpdated (c\<lparr>c_membership := m\<rparr>)" by (auto simp: updateRole_def)
  have "membership_inv m" using inv m by (auto simp: community_inv_def intro: membership_inv_updateRole)
  then show ?thesis using inv membership_role_frames(1) [OF m] by (simp add: c' community_inv_membership)
qed

lemma deleteRole_inv [inv_intros]:
  assumes inv: "community_inv c" and op: "deleteRole c actor rid = Inr c'"
  shows "community_inv c'"
proof -
  from op obtain m where m: "membership_deleteRole (c_membership c) rid = Inr m"
    and c': "c' = recordUpdated (c\<lparr>c_membership := m\<rparr>)" by (auto simp: deleteRole_def)
  have "membership_inv m" using inv m by (auto simp: community_inv_def intro: membership_inv_deleteRole)
  then show ?thesis using inv membership_role_frames(2) [OF m] by (simp add: c' community_inv_membership)
qed

lemma assignRoles_inv [inv_intros]:
  assumes inv: "community_inv c" and op: "assignRoles c actor i rids = Inr c'"
  shows "community_inv c'"
proof -
  from op obtain m where m: "membership_assignRoles (c_membership c) i rids = Inr m"
    and i: "isMember (c_membership c) i"
    and c': "c' = recordUpdated (c\<lparr>c_membership := m\<rparr>)" by (auto simp: assignRoles_def)
  have "membership_inv m" using inv m i by (auto simp: community_inv_def intro: membership_inv_assignRoles)
  then show ?thesis using inv membership_role_frames(3) [OF m] by (simp add: c' community_inv_membership)
qed

lemma updateProfile_inv [inv_intros]:
  "community_inv c \<Longrightarrow> updateProfile c actor n d a b x y = Inr c' \<Longrightarrow> community_inv c'"
  by (auto simp: updateProfile_def Let_def community_inv_def)

text \<open>Where no id is used twice, the channel a lookup finds is the one that is listed.\<close>

lemma findIn_distinct:
  assumes "distinct (map channel_getId chs)" and "ch \<in> set chs"
  shows "findIn chs (channel_getId ch) = Some ch"
  using assms by (induction chs) (auto simp: findIn_def)

lemma textChannels_viewable:
  assumes "distinct (map channel_getId (textChannels chs))"
  shows "(\<exists>ch \<in> set (textChannels chs). channel_getId ch = cid \<and> P (channel_visibleRoleIds ch)) \<longleftrightarrow>
    (\<exists>rids. textChannelPermissions chs cid = Inr rids \<and> P rids)"
proof
  assume "\<exists>ch \<in> set (textChannels chs). channel_getId ch = cid \<and> P (channel_visibleRoleIds ch)"
  then obtain ch where "ch \<in> set (textChannels chs)" "channel_getId ch = cid" "P (channel_visibleRoleIds ch)" by blast
  then show "\<exists>rids. textChannelPermissions chs cid = Inr rids \<and> P rids"
    using findIn_distinct [OF assms] by (auto simp: textChannelPermissions_def findText_def)
next
  assume "\<exists>rids. textChannelPermissions chs cid = Inr rids \<and> P rids"
  then obtain ch where "findIn (textChannels chs) cid = Some ch" "P (channel_visibleRoleIds ch)"
    by (auto simp: textChannelPermissions_def findText_def split: option.splits)
  then show "\<exists>ch \<in> set (textChannels chs). channel_getId ch = cid \<and> P (channel_visibleRoleIds ch)"
    by (auto simp: findIn_def dest: find_Some_iff')
qed

end
