(* ===== verification/CommunityOperation.thy ===== *)
theory CommunityOperation
  imports CommunityActions
begin

text \<open>
  One immutable, content-addressed change of a community:
  \<open>src/contexts/communities/domain/operations/CommunityOperation.ts\<close>, its limits
  (\<open>CommunityOperationLimits.ts\<close>) and the strict reader of its arguments
  (\<open>CommunityOperationArgumentReader.ts\<close>). An operation exists only when its id commits to
  its content, so the builder refuses every record whose digest, parents or genesis
  binding is wrong.
\<close>

section \<open>Limits\<close>

definition MAX_ARGUMENT_BYTES :: nat where "MAX_ARGUMENT_BYTES = 4096"

definition MAX_PAYLOAD_DEPTH :: nat where "MAX_PAYLOAD_DEPTH = 64"

definition MAX_ARGUMENT_DEPTH :: nat where "MAX_ARGUMENT_DEPTH = MAX_PAYLOAD_DEPTH - 1"

definition MAX_OPERATIONS_PER_AUTHOR :: nat where "MAX_OPERATIONS_PER_AUTHOR = 1000"

definition MAX_PARENTS :: nat where "MAX_PARENTS = 64"

text \<open>
  \<open>Buffer.byteLength(JSON.stringify(value))\<close>: \<open>"\<close>, \<open>\\<close> and the control characters are escaped,
  every other byte of the UTF-8 text stands for itself.
\<close>

definition char_bytes :: "char \<Rightarrow> nat" where
  "char_bytes ch =
     (let n = (of_char ch :: nat) in
      if n = 34 \<or> n = 92 then 2
      else if n = 8 \<or> n = 9 \<or> n = 10 \<or> n = 12 \<or> n = 13 then 2
      else if n < 32 then 6 else 1)"

definition string_bytes :: "string \<Rightarrow> nat" where
  "string_bytes s = 2 + sum_list (map char_bytes s)"

fun digits10 :: "nat \<Rightarrow> nat" where
  "digits10 n = (if n < 10 then 1 else Suc (digits10 (n div 10)))"

declare digits10.simps [simp del]

definition separators :: "'a list \<Rightarrow> nat" where
  "separators xs = (if xs = [] then 0 else length xs - 1)"

fun json_bytes :: "json \<Rightarrow> nat" where
  "json_bytes JNull = 4"
| "json_bytes (JBool b) = (if b then 4 else 5)"
| "json_bytes (JInt n) = (if n < 0 then 1 else 0) + digits10 (nat \<bar>n\<bar>)"
| "json_bytes (JNumber t) = length t"
| "json_bytes (JString s) = string_bytes s"
| "json_bytes (JArray xs) = 2 + separators xs + sum_list (map json_bytes xs)"
| "json_bytes (JObject kvs) =
     2 + separators kvs + sum_list (map (\<lambda>kv. string_bytes (fst kv) + 1 + json_bytes (snd kv)) kvs)"

definition assertArguments :: "(string \<times> json) list \<Rightarrow> community_error + unit" where
  "assertArguments args =
     bindR (ensure (json_bytes (JObject args) \<le> MAX_ARGUMENT_BYTES) CommunityOperationLimitExceededError) (\<lambda>_.
       ensure (depthOf (JObject args) \<le> MAX_ARGUMENT_DEPTH) CommunityOperationLimitExceededError)"

definition isAuthorQuotaReached :: "nat \<Rightarrow> bool" where
  "isAuthorQuotaReached n \<longleftrightarrow> n \<ge> MAX_OPERATIONS_PER_AUTHOR"

section \<open>The operation\<close>

record operation_primitives =
  op_p_action :: string
  op_p_args :: "(string \<times> json) list"
  op_p_author :: string
  op_p_communityId :: string
  op_p_createdAt :: int
  op_p_id :: string
  op_p_signature :: string
  op_p_networkId :: string
  op_p_parents :: "string list"

record operation =
  op_primitives :: operation_primitives
  op_action :: action
  op_author :: identity_id
  op_communityId :: community_id
  op_networkId :: network_id
  op_signature :: string
  op_hash :: string

definition op_args :: "operation \<Rightarrow> (string \<times> json) list" where
  "op_args op = op_p_args (op_primitives op)"

definition op_createdAt :: "operation \<Rightarrow> int" where
  "op_createdAt op = op_p_createdAt (op_primitives op)"

definition op_id :: "operation \<Rightarrow> string" where
  "op_id op = op_p_id (op_primitives op)"

definition op_parents :: "operation \<Rightarrow> string list" where
  "op_parents op = op_p_parents (op_primitives op)"

definition isGenesis :: "operation \<Rightarrow> bool" where
  "isGenesis op = action_isGenesis (op_action op)"

definition assertExact :: "json \<Rightarrow> community_error + (string \<times> json) list" where
  "assertExact v =
     (let fields = [''action'', ''args'', ''authorIdentityId'', ''communityId'', ''createdAt'', ''id'',
                    ''identitySignature'', ''networkId'', ''parents'', ''scopeType''] in
      case v of
        JObject record \<Rightarrow>
          if length record \<noteq> length fields \<or> list_ex (\<lambda>f. map_of record f = None) fields
          then Inl InvalidCommunityOperationError else Inr record
      | _ \<Rightarrow> Inl InvalidCommunityOperationError)"

definition op_text :: "json option \<Rightarrow> community_error + string" where
  "op_text v =
     (case v of
        Some (JString s) \<Rightarrow> if length s = 0 then Inl InvalidCommunityOperationError else Inr s
      | _ \<Rightarrow> Inl InvalidCommunityOperationError)"

definition op_argsOf :: "json option \<Rightarrow> community_error + (string \<times> json) list" where
  "op_argsOf v =
     (case v of
        Some (JObject args) \<Rightarrow> bindR (assertArguments args) (\<lambda>_. Inr args)
      | _ \<Rightarrow> Inl InvalidCommunityOperationError)"

definition parent_of_json :: "json \<Rightarrow> community_error + string" where
  "parent_of_json v =
     (case v of
        JString s \<Rightarrow> if isDigest s then Inr s else Inl InvalidCommunityOperationError
      | _ \<Rightarrow> Inl InvalidCommunityOperationError)"

definition op_parentsOf :: "json option \<Rightarrow> community_error + string list" where
  "op_parentsOf v =
     (case v of
        Some (JArray xs) \<Rightarrow>
          if length xs > MAX_PARENTS then Inl InvalidCommunityOperationError
          else bindR (mapR parent_of_json xs) (\<lambda>parents.
                 if ascending parents then Inr parents else Inl InvalidCommunityOperationError)
      | _ \<Rightarrow> Inl InvalidCommunityOperationError)"

definition contentOf :: "operation_primitives \<Rightarrow> json" where
  "contentOf p = JObject
     [(''action'', JString (op_p_action p)), (''args'', JObject (op_p_args p)),
      (''authorIdentityId'', JString (op_p_author p)), (''communityId'', JString (op_p_communityId p)),
      (''createdAt'', JInt (op_p_createdAt p)), (''networkId'', JString (op_p_networkId p)),
      (''parents'', JArray (map JString (op_p_parents p))), (''scopeType'', JString ''community_operation'')]"

definition digestOf :: "lib \<Rightarrow> json \<Rightarrow> community_error + string" where
  "digestOf L v = (case lib_digest L v of None \<Rightarrow> Inl InvalidCommunityOperationError | Some d \<Rightarrow> Inr d)"

definition recordIdOf :: "string \<Rightarrow> string \<Rightarrow> string" where
  "recordIdOf cid hash = ''community:'' @ cid @ '':op:'' @ hash"

definition identitySigningContentOf :: "string \<Rightarrow> string" where
  "identitySigningContentOf i = ''pigeon:community-operation:v1'' @ [CHR 0x0A] @ i"

text \<open>The private constructor: the id, the genesis shape and the genesis binding.\<close>

definition new_operation :: "lib \<Rightarrow> operation_primitives \<Rightarrow> action \<Rightarrow> identity_id \<Rightarrow> community_id \<Rightarrow> network_id
    \<Rightarrow> string \<Rightarrow> community_error + operation" where
  "new_operation L p a author cid network signature =
     bindR (digestOf L (contentOf p)) (\<lambda>hash.
     bindR (if action_isGenesis a
            then (case map_of (op_p_args p) ''nonce'' of
                    Some (JString nonce) \<Rightarrow>
                      bindR (derive_community_id L (op_p_networkId p) author nonce)
                        (\<lambda>derived. Inr (op_p_communityId p \<noteq> derived))
                  | _ \<Rightarrow> Inr True)
            else Inr False) (\<lambda>unbound.
       if op_p_id p \<noteq> recordIdOf (op_p_communityId p) hash
          \<or> action_isGenesis a \<noteq> (length (op_p_parents p) = 0) \<or> unbound
       then Inl InvalidCommunityOperationError
       else Inr \<lparr>op_primitives = p, op_action = a, op_author = author, op_communityId = cid,
                 op_networkId = network, op_signature = signature, op_hash = hash\<rparr>))"

text \<open>\<open>try ... catch { throw new InvalidCommunityOperationError() }\<close>\<close>

definition asInvalid :: "community_error + 'a \<Rightarrow> community_error + 'a" where
  "asInvalid r = (case r of Inl _ \<Rightarrow> Inl InvalidCommunityOperationError | Inr x \<Rightarrow> Inr x)"

definition operation_fromPrimitives :: "lib \<Rightarrow> json \<Rightarrow> community_error + operation" where
  "operation_fromPrimitives L v =
     bindR (assertExact v) (\<lambda>record.
     bindR (op_text (map_of record ''action'')) (\<lambda>act.
     bindR (op_argsOf (map_of record ''args'')) (\<lambda>args.
     bindR (op_text (map_of record ''authorIdentityId'')) (\<lambda>author.
     bindR (op_text (map_of record ''communityId'')) (\<lambda>cid.
     bindR (op_text (map_of record ''id'')) (\<lambda>oid.
     bindR (op_text (map_of record ''identitySignature'')) (\<lambda>signature.
     bindR (op_text (map_of record ''networkId'')) (\<lambda>network.
     bindR (op_parentsOf (map_of record ''parents'')) (\<lambda>parents.
       case (map_of record ''scopeType'', map_of record ''createdAt'') of
         (Some (JString scope), Some (JInt createdAt)) \<Rightarrow>
           if scope \<noteq> ''community_operation'' \<or> \<not> safe_integer createdAt \<or> createdAt < 0
           then Inl InvalidCommunityOperationError
           else asInvalid
             (bindR (new_CommunityOperationAction act) (\<lambda>a.
              bindR (new_IdentityId L author) (\<lambda>i.
              bindR (new_CommunityId L cid) (\<lambda>c.
              bindR (new_NetworkId L network) (\<lambda>n.
              bindR (value_object (lib_signature L signature)) (\<lambda>s.
                new_operation L
                  \<lparr>op_p_action = act, op_p_args = args, op_p_author = author, op_p_communityId = cid,
                   op_p_createdAt = createdAt, op_p_id = oid, op_p_signature = signature,
                   op_p_networkId = network, op_p_parents = parents\<rparr> a i c n s))))))
       | _ \<Rightarrow> Inl InvalidCommunityOperationError)))))))))"

definition assertIdentitySigned :: "lib \<Rightarrow> operation \<Rightarrow> community_error + unit" where
  "assertIdentitySigned L op =
     ensure (lib_verify L (op_author op) (identitySigningContentOf (op_id op)) (op_signature op))
       InvalidCommunityOperationError"

definition assertAuthorQuota :: "operation list \<Rightarrow> operation \<Rightarrow> community_error + unit" where
  "assertAuthorQuota past candidate =
     (let exempt = (case find isGenesis past of None \<Rightarrow> False | Some g \<Rightarrow> op_author g = op_author candidate) in
      if exempt then Inr ()
      else ensure (\<not> isAuthorQuotaReached
             (length (filter (\<lambda>op. op_author op = op_author candidate) past)))
             CommunityOperationLimitExceededError)"

section \<open>Reading arguments\<close>

definition argument_reader :: "(string \<times> json) list \<Rightarrow> string list \<Rightarrow> string list \<Rightarrow> community_error + (string \<times> json) list" where
  "argument_reader args required optional =
     (if list_ex (\<lambda>k. map_of args k = None) required \<or>
         list_ex (\<lambda>k. k \<notin> set required \<and> k \<notin> set optional) (map fst args)
      then Inl InvalidCommunityOperationError else Inr args)"

definition read_boolean :: "(string \<times> json) list \<Rightarrow> string \<Rightarrow> community_error + bool" where
  "read_boolean args k =
     (case map_of args k of Some (JBool b) \<Rightarrow> Inr b | _ \<Rightarrow> Inl InvalidCommunityOperationError)"

definition read_integer :: "(string \<times> json) list \<Rightarrow> string \<Rightarrow> community_error + int" where
  "read_integer args k =
     (case map_of args k of
        Some (JInt n) \<Rightarrow> if safe_integer n then Inr n else Inl InvalidCommunityOperationError
      | _ \<Rightarrow> Inl InvalidCommunityOperationError)"

definition read_string :: "(string \<times> json) list \<Rightarrow> string \<Rightarrow> community_error + string" where
  "read_string args k =
     (case map_of args k of Some (JString s) \<Rightarrow> Inr s | _ \<Rightarrow> Inl InvalidCommunityOperationError)"

definition read_optionalBoolean :: "(string \<times> json) list \<Rightarrow> string \<Rightarrow> community_error + bool option" where
  "read_optionalBoolean args k =
     (case map_of args k of None \<Rightarrow> Inr None | Some _ \<Rightarrow> bindR (read_boolean args k) (\<lambda>b. Inr (Some b)))"

definition read_optionalString :: "(string \<times> json) list \<Rightarrow> string \<Rightarrow> community_error + string option" where
  "read_optionalString args k =
     (case map_of args k of None \<Rightarrow> Inr None | Some _ \<Rightarrow> bindR (read_string args k) (\<lambda>s. Inr (Some s)))"

definition json_string :: "json \<Rightarrow> community_error + string" where
  "json_string v = (case v of JString s \<Rightarrow> Inr s | _ \<Rightarrow> Inl InvalidCommunityOperationError)"

definition read_stringArray :: "(string \<times> json) list \<Rightarrow> string \<Rightarrow> community_error + string list" where
  "read_stringArray args k =
     (case map_of args k of Some (JArray xs) \<Rightarrow> mapR json_string xs
      | _ \<Rightarrow> Inl InvalidCommunityOperationError)"

end
