(* ===== verification/CommunityInvitations.thy ===== *)
theory CommunityInvitations
  imports CommunityOperation
begin

text \<open>
  The invitations of one set of operations:
  \<open>src/contexts/communities/domain/entities/invitations/CommunityInvitation.ts\<close> and
  \<open>CommunityInvitations.ts\<close>. An invitation is read from its \<open>invitation_created\<close>
  operation and carries its status in the set: revoked, cut, and who joined with it.
\<close>

section \<open>One invitation\<close>

definition MAX_USES :: int where "MAX_USES = 100"

definition MAX_LIFETIME :: int where "MAX_LIFETIME = 2592000000"

record invitation_attributes =
  inv_communityId :: string
  inv_createdAt :: int
  inv_expiresAt :: int
  inv_id :: string
  inv_key :: string
  inv_invitee :: "identity_id option"
  inv_issuer :: identity_id
  inv_maxUses :: int
  inv_networkId :: string

record invitation_status =
  status_cut :: bool
  status_joinerIds :: "string list"
  status_revoked :: bool

record invitation =
  inv_attributes :: invitation_attributes
  inv_status :: invitation_status

definition invitationKeyOf :: "lib \<Rightarrow> string \<Rightarrow> community_error + string" where
  "invitationKeyOf L s =
     (case lib_invitation_key L s of None \<Rightarrow> Inl InvalidCommunityOperationError | Some k \<Rightarrow> Inr k)"

definition inviteeOf :: "lib \<Rightarrow> string \<Rightarrow> community_error + identity_id" where
  "inviteeOf L s = asInvalid (new_IdentityId L s)"

definition isAdmission :: "operation \<Rightarrow> bool" where
  "isAdmission op \<longleftrightarrow>
     op_action op = MEMBER_JOINED \<and>
     map_of (op_args op) ''method'' = Some (JString (join_method_value INVITATION))"

definition isCanonicalKey :: "lib \<Rightarrow> identity_id \<Rightarrow> bool" where
  "isCanonicalKey L i = lib_canonical L i"

definition invitation_fromOperation :: "lib \<Rightarrow> operation \<Rightarrow> community_error + invitation" where
  "invitation_fromOperation L op =
     bindR (argument_reader (op_args op) [''expiresAt'', ''invitationKey'', ''maxUses''] [''invitee'']) (\<lambda>reader.
     bindR (read_integer reader ''maxUses'') (\<lambda>maxUses.
     bindR (read_integer reader ''expiresAt'') (\<lambda>expiresAt.
     bindR (read_optionalString reader ''invitee'') (\<lambda>invitee.
     bindR (case invitee of None \<Rightarrow> Inr None
                          | Some s \<Rightarrow> bindR (inviteeOf L s) (\<lambda>i. Inr (Some i))) (\<lambda>inviteeIdentityId.
     bindR (ensure (maxUses \<ge> 1 \<and> maxUses \<le> MAX_USES \<and>
              (case inviteeIdentityId of None \<Rightarrow> True
                 | Some i \<Rightarrow> maxUses = 1 \<and> isCanonicalKey L i) \<and>
              expiresAt > op_createdAt op \<and> expiresAt \<le> op_createdAt op + MAX_LIFETIME)
            InvalidCommunityOperationError) (\<lambda>_.
     bindR (read_string reader ''invitationKey'') (\<lambda>k.
     bindR (invitationKeyOf L k) (\<lambda>invitationKey.
       Inr \<lparr>inv_attributes =
              \<lparr>inv_communityId = op_communityId op, inv_createdAt = op_createdAt op,
               inv_expiresAt = expiresAt, inv_id = op_hash op, inv_key = invitationKey,
               inv_invitee = inviteeIdentityId, inv_issuer = op_author op,
               inv_maxUses = maxUses, inv_networkId = op_networkId op\<rparr>,
            inv_status = \<lparr>status_cut = False, status_joinerIds = [], status_revoked = False\<rparr>\<rparr>))))))))"

definition hasJoined :: "invitation \<Rightarrow> identity_id \<Rightarrow> bool" where
  "hasJoined iv joiner \<longleftrightarrow> joiner \<in> set (status_joinerIds (inv_status iv))"

definition isOpenAt :: "invitation \<Rightarrow> int \<Rightarrow> bool" where
  "isOpenAt iv at' \<longleftrightarrow>
     at' \<ge> inv_createdAt (inv_attributes iv) \<and> at' \<le> inv_expiresAt (inv_attributes iv)"

definition isLiveIn :: "invitation \<Rightarrow> community \<Rightarrow> bool" where
  "isLiveIn iv c \<longleftrightarrow>
     \<not> status_revoked (inv_status iv) \<and>
     \<not> status_cut (inv_status iv) \<and>
     int (length (status_joinerIds (inv_status iv))) < inv_maxUses (inv_attributes iv) \<and>
     holds c (inv_issuer (inv_attributes iv)) CREATE_INVITES"

definition fieldsFor :: "invitation \<Rightarrow> identity_id \<Rightarrow> invitation_fields" where
  "fieldsFor iv joiner =
     \<lparr>fields_communityId = inv_communityId (inv_attributes iv), fields_identityId = joiner,
      fields_invitationId = inv_id (inv_attributes iv),
      fields_networkId = inv_networkId (inv_attributes iv)\<rparr>"

definition assertAdmits :: "lib \<Rightarrow> invitation \<Rightarrow> community \<Rightarrow> identity_id \<Rightarrow> string \<Rightarrow> string \<Rightarrow> community_error + unit" where
  "assertAdmits L iv c joiner possession consent =
     bindR (ensure (isLiveIn iv c \<and> isCanonicalKey L joiner \<and>
              (case inv_invitee (inv_attributes iv) of None \<Rightarrow> True | Some i \<Rightarrow> i = joiner) \<and>
              \<not> hasJoined iv joiner) CommunityInvitationUnusableError) (\<lambda>_.
     bindR (ensure (lib_possession L (fieldsFor iv joiner) possession (inv_key (inv_attributes iv)))
              CommunityInvitationUnusableError) (\<lambda>_.
       ensure (lib_consent L (fieldsFor iv joiner) consent) CommunityInvitationUnusableError))"

definition withJoiner :: "invitation \<Rightarrow> string \<Rightarrow> invitation" where
  "withJoiner iv joinerId =
     (if joinerId \<in> set (status_joinerIds (inv_status iv)) then iv
      else iv\<lparr>inv_status := (inv_status iv)\<lparr>status_joinerIds :=
             status_joinerIds (inv_status iv) @ [joinerId]\<rparr>\<rparr>)"

definition inv_revoke :: "invitation \<Rightarrow> invitation" where
  "inv_revoke iv = iv\<lparr>inv_status := (inv_status iv)\<lparr>status_revoked := True\<rparr>\<rparr>"

definition inv_cut :: "invitation \<Rightarrow> invitation" where
  "inv_cut iv = iv\<lparr>inv_status := (inv_status iv)\<lparr>status_cut := True\<rparr>\<rparr>"

record invitation_primitives =
  ip_createdAt :: int
  ip_expiresAt :: int
  ip_id :: string
  ip_invitationKey :: string
  ip_invitee :: "string option"
  ip_issuerIdentityId :: string
  ip_live :: bool
  ip_maxUses :: int
  ip_revoked :: bool
  ip_uses :: nat

definition invitation_toPrimitives :: "invitation \<Rightarrow> community \<Rightarrow> invitation_primitives" where
  "invitation_toPrimitives iv c =
     \<lparr>ip_createdAt = inv_createdAt (inv_attributes iv), ip_expiresAt = inv_expiresAt (inv_attributes iv),
      ip_id = inv_id (inv_attributes iv), ip_invitationKey = inv_key (inv_attributes iv),
      ip_invitee = inv_invitee (inv_attributes iv), ip_issuerIdentityId = inv_issuer (inv_attributes iv),
      ip_live = isLiveIn iv c, ip_maxUses = inv_maxUses (inv_attributes iv),
      ip_revoked = status_revoked (inv_status iv), ip_uses = length (status_joinerIds (inv_status iv))\<rparr>"

section \<open>The invitations of a set of operations\<close>

record invitations =
  byId :: "(string, invitation) jsmap"
  idsByKey :: "(string, string) jsmap"

definition EMPTY :: invitations where "EMPTY = \<lparr>byId = [], idsByKey = []\<rparr>"

definition invitations_with :: "invitations \<Rightarrow> invitation \<Rightarrow> invitations" where
  "invitations_with invs iv =
     (let key = inv_key (inv_attributes iv); i = inv_id (inv_attributes iv) in
      \<lparr>byId = AList.update i iv (byId invs),
       idsByKey = (if map_of (idsByKey invs) key \<noteq> None then idsByKey invs
                   else AList.update key i (idsByKey invs))\<rparr>)"

definition invitationOf :: "invitations \<Rightarrow> operation \<Rightarrow> invitation option" where
  "invitationOf invs op =
     (case map_of (op_args op) ''invitationId'' of
        Some (JString s) \<Rightarrow> map_of (byId invs) s | _ \<Rightarrow> None)"

definition invitations_find :: "invitations \<Rightarrow> string \<Rightarrow> invitation option" where
  "invitations_find invs i = map_of (byId invs) i"

definition findByKey :: "invitations \<Rightarrow> string \<Rightarrow> invitation option" where
  "findByKey invs key =
     (case map_of (idsByKey invs) key of None \<Rightarrow> None | Some i \<Rightarrow> map_of (byId invs) i)"

definition invitations_list :: "invitations \<Rightarrow> invitation list" where
  "invitations_list invs = map snd (byId invs)"

definition invitations_after :: "lib \<Rightarrow> invitations \<Rightarrow> operation \<Rightarrow> bool \<Rightarrow> community_error + invitations" where
  "invitations_after L invs op applied =
     (if applied \<and> op_action op = INVITATION_CREATED
      then bindR (invitation_fromOperation L op) (\<lambda>iv. Inr (invitations_with invs iv))
      else (case invitationOf invs op of
              None \<Rightarrow> Inr invs
            | Some iv \<Rightarrow>
                if applied \<and> op_action op = INVITATION_REVOKED
                then Inr (invitations_with invs (inv_revoke iv))
                else (case map_of (op_args op) ''identityId'' of
                        Some (JString identityId) \<Rightarrow>
                          if isAdmission op then Inr (invitations_with invs (withJoiner iv identityId))
                          else Inr invs
                      | _ \<Rightarrow> Inr invs)))"

definition cutWhere :: "invitations \<Rightarrow> (invitation \<Rightarrow> bool) \<Rightarrow> invitations" where
  "cutWhere invs isCut =
     invs\<lparr>byId := map (\<lambda>(i, iv). (i, if isCut iv then inv_cut iv else iv)) (byId invs)\<rparr>"

section \<open>Lemmas\<close>

text \<open>
  Every invitation is filed under its id, no id twice, the key index names filed
  invitations, and nobody is counted twice as a joiner.
\<close>

definition invitation_inv :: "invitation \<Rightarrow> bool" where
  "invitation_inv iv \<longleftrightarrow>
     1 \<le> inv_maxUses (inv_attributes iv) \<and> inv_maxUses (inv_attributes iv) \<le> MAX_USES \<and>
     inv_createdAt (inv_attributes iv) < inv_expiresAt (inv_attributes iv) \<and>
     inv_expiresAt (inv_attributes iv) \<le> inv_createdAt (inv_attributes iv) + MAX_LIFETIME \<and>
     distinct (status_joinerIds (inv_status iv))"

definition invitations_inv :: "invitations \<Rightarrow> bool" where
  "invitations_inv invs \<longleftrightarrow>
     distinct (map fst (byId invs)) \<and>
     (\<forall>(i, iv) \<in> set (byId invs). inv_id (inv_attributes iv) = i \<and> invitation_inv iv) \<and>
     (\<forall>i \<in> ran (map_of (idsByKey invs)). i \<in> fst ` set (byId invs))"

lemma inv_status_ops [simp]:
  "inv_attributes (withJoiner iv j) = inv_attributes iv"
  "inv_attributes (inv_revoke iv) = inv_attributes iv"
  "inv_attributes (inv_cut iv) = inv_attributes iv"
  by (simp_all add: withJoiner_def inv_revoke_def inv_cut_def)

lemma invitation_inv_ops [inv_intros]:
  "invitation_inv iv \<Longrightarrow> invitation_inv (withJoiner iv j)"
  "invitation_inv iv \<Longrightarrow> invitation_inv (inv_revoke iv)"
  "invitation_inv iv \<Longrightarrow> invitation_inv (inv_cut iv)"
  by (auto simp: invitation_inv_def withJoiner_def inv_revoke_def inv_cut_def)

lemma invitation_inv_fromOperation [inv_intros]:
  "invitation_fromOperation L op = Inr iv \<Longrightarrow> invitation_inv iv"
  by (auto simp: invitation_fromOperation_def invitation_inv_def)

lemma invitation_fromOperation_attributes:
  "invitation_fromOperation L op = Inr iv \<Longrightarrow>
     inv_id (inv_attributes iv) = op_hash op \<and> inv_issuer (inv_attributes iv) = op_author op
     \<and> inv_createdAt (inv_attributes iv) = op_createdAt op"
  by (auto simp: invitation_fromOperation_def)

lemma set_update_cases: "(k, v) \<in> set (AList.update k' v' m) \<Longrightarrow> distinct (map fst m) \<Longrightarrow>
  (k = k' \<and> v = v') \<or> (k \<noteq> k' \<and> (k, v) \<in> set m)"
  by (metis distinct_update map_of_SomeD map_of_eq_Some_iff option.inject update_Some_unfold)

lemma ran_update_subset: "i \<in> ran (map_of (AList.update k v m)) \<Longrightarrow> i = v \<or> i \<in> ran (map_of m)"
  by (auto simp: update_conv' ran_def split: if_splits)

lemma invitations_inv_with [inv_intros]:
  assumes iv: "invitations_inv invs" and i: "invitation_inv i"
  shows "invitations_inv (invitations_with invs i)"
  unfolding invitations_inv_def
proof (intro conjI)
  let ?w = "invitations_with invs i"
  have d: "distinct (map fst (byId invs))" using iv by (simp add: invitations_inv_def)
  show "distinct (map fst (byId ?w))"
    using d by (simp add: invitations_with_def Let_def distinct_update)
  show "\<forall>(k, v) \<in> set (byId ?w). inv_id (inv_attributes v) = k \<and> invitation_inv v"
    using iv i by (auto simp: invitations_with_def Let_def invitations_inv_def dest!: set_update_cases [OF _ d])
  show "\<forall>k \<in> ran (map_of (idsByKey ?w)). k \<in> fst ` set (byId ?w)"
    using iv by (auto simp: invitations_with_def Let_def invitations_inv_def dest: ran_update_subset)
qed

lemma byId_lookup_inv: "invitations_inv invs \<Longrightarrow> map_of (byId invs) k = Some iv \<Longrightarrow> invitation_inv iv"
  by (auto simp: invitations_inv_def dest!: map_of_SomeD)

lemma invitations_inv_after [inv_intros]:
  assumes iv: "invitations_inv invs" and aft: "invitations_after L invs op applied = Inr invs'"
  shows "invitations_inv invs'"
proof -
  have "invs' = invs \<or> (\<exists>i. invs' = invitations_with invs i \<and> invitation_inv i)"
    using aft byId_lookup_inv [OF iv]
    by (auto simp: invitations_after_def invitationOf_def invitation_inv_ops
        split: if_splits option.splits json.splits dest: invitation_inv_fromOperation)
  then show ?thesis using iv by (auto intro: invitations_inv_with)
qed

lemma map_keyed: "map fst (map (\<lambda>(i, v). (i, g v)) xs) = map fst xs"
  by (induction xs) auto

lemma keys_keyed: "fst ` set (map (\<lambda>(i, v). (i, g v)) xs) = fst ` set xs"
  by (metis map_keyed list.set_map)

lemma invitations_inv_cutWhere [inv_intros]:
  assumes "invitations_inv invs"
  shows "invitations_inv (cutWhere invs p)"
proof -
  let ?g = "\<lambda>iv. if p iv then inv_cut iv else iv"
  have b: "byId (cutWhere invs p) = map (\<lambda>(i, iv). (i, ?g iv)) (byId invs)"
    and k: "idsByKey (cutWhere invs p) = idsByKey invs" by (simp_all add: cutWhere_def)
  have "distinct (map fst (byId (cutWhere invs p)))"
    using assms unfolding b map_keyed [where g = ?g] by (simp add: invitations_inv_def)
  moreover have "fst ` set (byId (cutWhere invs p)) = fst ` set (byId invs)"
    unfolding b by (rule keys_keyed)
  moreover have "\<forall>(i, iv) \<in> set (byId (cutWhere invs p)). inv_id (inv_attributes iv) = i \<and> invitation_inv iv"
    using assms unfolding b by (auto simp: invitations_inv_def intro!: invitation_inv_ops(3))
  ultimately show ?thesis using assms by (simp add: invitations_inv_def k)
qed

lemma invitations_inv_EMPTY [inv_intros]: "invitations_inv EMPTY"
  by (simp add: invitations_inv_def EMPTY_def)

text \<open>What a key finds is filed under the id the index names.\<close>

lemma findByKey_known:
  assumes "invitations_inv invs" and "map_of (idsByKey invs) key = Some i"
  shows "\<exists>iv. findByKey invs key = Some iv \<and> inv_id (inv_attributes iv) = i"
proof -
  from assms have "i \<in> fst ` set (byId invs)" by (auto simp: invitations_inv_def intro: ranI)
  then obtain iv where "map_of (byId invs) i = Some iv"
    by (metis domD dom_map_of_conv_image_fst)
  with assms show ?thesis
    by (auto simp: findByKey_def invitations_inv_def dest!: map_of_SomeD)
qed

text \<open>An invitation that is used up, revoked or cut admits nobody.\<close>

lemma assertAdmits_live:
  "assertAdmits L iv c joiner p q = Inr u \<Longrightarrow>
     isLiveIn iv c \<and> isCanonicalKey L joiner \<and> \<not> hasJoined iv joiner \<and>
     (\<forall>i. inv_invitee (inv_attributes iv) = Some i \<longrightarrow> i = joiner)"
  by (auto simp: assertAdmits_def split: option.splits)

lemma invitations_after_total:
  assumes "applied \<Longrightarrow> op_action op = INVITATION_CREATED \<Longrightarrow> isOK (invitation_fromOperation L op)"
  shows "\<exists>invs'. invitations_after L invs op applied = Inr invs'"
  using assms
  by (auto simp: invitations_after_def isOK_iff split: option.splits json.splits if_splits)

end
