(* ===== verification/CommunityRebase.thy ===== *)
theory CommunityRebase
  imports CommunityInvitations
begin

text \<open>
  Rebasing an operation that carries a whole value:
  \<open>src/contexts/communities/domain/operations/CommunityOperationRebase.ts\<close>. The lemmas say
  what the merge of sets keeps: everything its author added, nothing the author removed, and
  what the current state changed meanwhile.
\<close>

text \<open>A value of \<open>CommunityOperationSnapshot\<close>; \<open>SUndefined\<close> is JavaScript's \<open>undefined\<close>.\<close>

datatype snapshot_value =
    SBool bool
  | SString string
  | SArray "string list"
  | SUndefined

type_synonym snapshot = "(string \<times> snapshot_value) list"

record rebase_target =
  intended :: snapshot
  target_of :: "community \<Rightarrow> snapshot option"
  openWhenEmpty :: "string list"

definition snapshot_optional :: "('a \<Rightarrow> snapshot_value) \<Rightarrow> 'a option \<Rightarrow> snapshot_value" where
  "snapshot_optional f v = (case v of None \<Rightarrow> SUndefined | Some x \<Rightarrow> f x)"

definition rebase_profile :: "(string \<times> json) list \<Rightarrow> community_error + rebase_target" where
  "rebase_profile args =
     bindR (argument_reader args [''description'', ''name'']
              [''autoJoinEnabled'', ''avatar'', ''banner'', ''discoverable'']) (\<lambda>reader.
     bindR (read_optionalBoolean reader ''autoJoinEnabled'') (\<lambda>auto.
     bindR (read_optionalBoolean reader ''discoverable'') (\<lambda>disc.
     bindR (read_optionalString reader ''avatar'') (\<lambda>avatar.
     bindR (read_optionalString reader ''banner'') (\<lambda>banner.
     bindR (read_string reader ''description'') (\<lambda>description.
     bindR (read_string reader ''name'') (\<lambda>name.
       Inr \<lparr>intended =
              [(''autoJoinEnabled'', snapshot_optional SBool auto),
               (''avatar'', snapshot_optional SString avatar),
               (''banner'', snapshot_optional SString banner),
               (''description'', SString description),
               (''discoverable'', snapshot_optional SBool disc),
               (''name'', SString name)],
            target_of = (\<lambda>c. let p = toPrimitives c in Some
              [(''autoJoinEnabled'', if auto = None then SUndefined
                                     else snapshot_optional SBool (p_autoJoinEnabled p)),
               (''avatar'', snapshot_optional SString (p_avatar p)),
               (''banner'', snapshot_optional SString (p_banner p)),
               (''description'', SString (p_description p)),
               (''discoverable'', if disc = None then SUndefined
                                  else snapshot_optional SBool (p_discoverable p)),
               (''name'', SString (p_name p))]),
            openWhenEmpty = []\<rparr>)))))))"

definition rebase_memberRoles :: "lib \<Rightarrow> (string \<times> json) list \<Rightarrow> community_error + rebase_target" where
  "rebase_memberRoles L args =
     bindR (argument_reader args [''identityId'', ''roleIds''] []) (\<lambda>reader.
     bindR (read_string reader ''identityId'') (\<lambda>identityId.
     bindR (new_IdentityId L identityId) (\<lambda>member.
     bindR (read_stringArray reader ''roleIds'') (\<lambda>roleIds.
       Inr \<lparr>intended = [(''identityId'', SString identityId), (''roleIds'', SArray roleIds)],
            target_of = (\<lambda>c.
              if isMember (c_membership c) member
              then Some [(''identityId'', SString identityId),
                         (''roleIds'', SArray
                            (case p_memberRoles (toPrimitives c) of
                               None \<Rightarrow> []
                             | Some as \<Rightarrow> (case find (\<lambda>a. ap_identityId a = member) as of
                                            None \<Rightarrow> [] | Some a \<Rightarrow> ap_roleIds a)))]
              else None),
            openWhenEmpty = []\<rparr>))))"

definition rebase_channelPermissions :: "lib \<Rightarrow> (string \<times> json) list \<Rightarrow> community_error + rebase_target" where
  "rebase_channelPermissions L args =
     bindR (argument_reader args [''channelId'', ''visibleRoleIds''] []) (\<lambda>reader.
     bindR (read_string reader ''channelId'') (\<lambda>channelId.
     bindR (new_CommunityChannelId L channelId) (\<lambda>cid.
     bindR (read_stringArray reader ''visibleRoleIds'') (\<lambda>visible.
       Inr \<lparr>intended = [(''channelId'', SString channelId), (''visibleRoleIds'', SArray visible)],
            target_of = (\<lambda>c. let p = toPrimitives c in
              case find (\<lambda>ch. cp_id ch = cid)
                     (p_textChannels p @ (case p_voiceChannels p of None \<Rightarrow> [] | Some vs \<Rightarrow> vs)) of
                None \<Rightarrow> None
              | Some ch \<Rightarrow> Some [(''channelId'', SString channelId),
                                 (''visibleRoleIds'', snapshot_optional SArray (cp_permissions ch))]),
            openWhenEmpty = [''visibleRoleIds'']\<rparr>))))"

definition rebase_role :: "lib \<Rightarrow> (string \<times> json) list \<Rightarrow> community_error + rebase_target" where
  "rebase_role L args =
     bindR (argument_reader args [''name'', ''permissions'', ''roleId''] []) (\<lambda>reader.
     bindR (read_string reader ''roleId'') (\<lambda>roleId.
     bindR (new_CommunityRoleId L roleId) (\<lambda>rid.
     bindR (read_string reader ''name'') (\<lambda>name.
     bindR (read_stringArray reader ''permissions'') (\<lambda>ps.
       Inr \<lparr>intended = [(''name'', SString name), (''permissions'', SArray ps), (''roleId'', SString roleId)],
            target_of = (\<lambda>c.
              case p_roles (toPrimitives c) of
                None \<Rightarrow> None
              | Some rs \<Rightarrow>
                  (case find (\<lambda>r. rp_id r = rid) rs of
                     None \<Rightarrow> None
                   | Some r \<Rightarrow> Some [(''name'', SString (rp_name r)),
                                     (''permissions'', SArray (rp_permissions r)),
                                     (''roleId'', SString roleId)])),
            openWhenEmpty = []\<rparr>)))))"

fun rebase_targets :: "lib \<Rightarrow> action \<Rightarrow> ((string \<times> json) list \<Rightarrow> community_error + rebase_target) option" where
  "rebase_targets L CHANNEL_PERMISSIONS_UPDATED = Some (rebase_channelPermissions L)"
| "rebase_targets L COMMUNITY_UPDATED = Some rebase_profile"
| "rebase_targets L MEMBER_ROLES_UPDATED = Some (rebase_memberRoles L)"
| "rebase_targets L ROLE_UPDATED = Some (rebase_role L)"
| "rebase_targets L _ = None"

definition mergeSet :: "string list \<Rightarrow> string list \<Rightarrow> string list \<Rightarrow> string list" where
  "mergeSet want base cur =
     (let removed = filter (\<lambda>e. e \<notin> set want) base;
          kept = filter (\<lambda>e. e \<notin> set removed) cur
      in filter (\<lambda>e. e \<notin> set base \<or> e \<in> set kept) want @ filter (\<lambda>e. e \<notin> set want) kept)"

fun mergeValue :: "snapshot_value \<Rightarrow> snapshot_value \<Rightarrow> snapshot_value \<Rightarrow> snapshot_value" where
  "mergeValue (SArray want) (SArray base) (SArray cur) = SArray (mergeSet want base cur)"
| "mergeValue want base cur = (if want = base then cur else want)"

definition snapshot_get :: "snapshot \<Rightarrow> string \<Rightarrow> snapshot_value" where
  "snapshot_get s k = (case map_of s k of None \<Rightarrow> SUndefined | Some v \<Rightarrow> v)"

fun snapshot_json :: "snapshot_value \<Rightarrow> json" where
  "snapshot_json (SBool b) = JBool b"
| "snapshot_json (SString s) = JString s"
| "snapshot_json (SArray xs) = JArray (map JString xs)"
| "snapshot_json SUndefined = JNull"

definition rebases :: "lib \<Rightarrow> operation \<Rightarrow> bool" where
  "rebases L op \<longleftrightarrow> rebase_targets L (op_action op) \<noteq> None"

definition argumentsOf :: "lib \<Rightarrow> operation \<Rightarrow> community \<Rightarrow> community \<Rightarrow> community_error + (string \<times> json) list" where
  "argumentsOf L op base cur =
     (case rebase_targets L (op_action op) of
        None \<Rightarrow> Inr (op_args op)
      | Some target_for \<Rightarrow>
          bindR (target_for (op_args op)) (\<lambda>target.
            (case (target_of target base, target_of target cur) of
               (Some before, Some now) \<Rightarrow>
                 (let rebased = filter (\<lambda>kv. snd kv \<noteq> SUndefined)
                        (map (\<lambda>kv. (fst kv, mergeValue (snd kv) (snapshot_get before (fst kv))
                                                (snapshot_get now (fst kv)))) (intended target));
                      opens = list_ex (\<lambda>k. snapshot_get rebased k = SArray []) (openWhenEmpty target)
                  in Inr (if opens then op_args op
                          else map (\<lambda>kv. (fst kv, snapshot_json (snd kv))) rebased))
             | _ \<Rightarrow> Inr (op_args op))))"

section \<open>Lemmas\<close>

lemma set_mergeSet:
  "set (mergeSet want base cur) =
     {e. (e \<in> set want \<and> (e \<notin> set base \<or> e \<in> set cur)) \<or> (e \<in> set cur \<and> e \<notin> set base \<and> e \<notin> set want)}"
  by (auto simp: mergeSet_def Let_def)

lemma distinct_mergeSet: "distinct want \<Longrightarrow> distinct cur \<Longrightarrow> distinct (mergeSet want base cur)"
  by (auto simp: mergeSet_def Let_def)

text \<open>With no concurrent change an operation means what it says.\<close>

lemma mergeSet_same_base [simp]: "mergeSet want base base = want"
  by (auto simp: mergeSet_def Let_def filter_empty_conv intro!: filter_True)

lemma mergeValue_same_base [simp]: "mergeValue want base base = want"
  by (cases want; cases base) auto

lemma mergeSet_no_intent: "set (mergeSet base base cur) = set cur"
  by (auto simp: set_mergeSet)

text \<open>
  The state an operation of one author was built on and the state it is applied to
  differ by what others did; nobody's change to a set is lost unless both touched the entry.
\<close>

lemma mergeSet_keeps_addition: "e \<in> set want \<Longrightarrow> e \<notin> set base \<Longrightarrow> e \<in> set (mergeSet want base cur)"
  by (simp add: set_mergeSet)

lemma mergeSet_keeps_removal: "e \<in> set base \<Longrightarrow> e \<notin> set want \<Longrightarrow> e \<notin> set (mergeSet want base cur)"
  by (simp add: set_mergeSet)

lemma mergeSet_untouched: "(e \<in> set want \<longleftrightarrow> e \<in> set base) \<Longrightarrow> e \<in> set (mergeSet want base cur) \<longleftrightarrow> e \<in> set cur"
  by (auto simp: set_mergeSet)

end
