(* ===== verification/CommunityApplier.thy ===== *)
theory CommunityApplier
  imports CommunityRebase
begin

text \<open>
  Turning one operation into a change of the community:
  \<open>src/contexts/communities/domain/operations/CommunityOperationApplier.ts\<close>. One definition
  per handler; \<open>handler\<close> is the table \<open>HANDLERS\<close>. The lemmas show that whatever is applied
  keeps the invariant of the aggregate, that a signed operation carries no authority of its
  own, and that nobody but the owner changes what belongs to the owner.
\<close>

section \<open>Handlers\<close>

definition canonical_identity :: "lib \<Rightarrow> string \<Rightarrow> community_error + identity_id" where
  "canonical_identity L s =
     bindR (new_IdentityId L s) (\<lambda>i.
     bindR (ensure (isCanonicalKey L i) InvalidCommunityOperationError) (\<lambda>_. Inr i))"

definition op_member :: "lib \<Rightarrow> operation \<Rightarrow> community_error + identity_id" where
  "op_member L op =
     bindR (argument_reader (op_args op) [''identityId''] []) (\<lambda>reader.
     bindR (read_string reader ''identityId'') (canonical_identity L))"

definition invitationIdOf :: "operation \<Rightarrow> string list \<Rightarrow> community_error + string" where
  "invitationIdOf op keys =
     bindR (argument_reader (op_args op) keys []) (\<lambda>reader.
     bindR (read_string reader ''invitationId'') (\<lambda>invitationId.
     bindR (ensure (isDigest invitationId) InvalidCommunityOperationError) (\<lambda>_. Inr invitationId)))"

definition optional_value :: "(string \<Rightarrow> community_error + string) \<Rightarrow> string option \<Rightarrow> community_error + string option" where
  "optional_value build v =
     (case v of None \<Rightarrow> Inr None | Some s \<Rightarrow> bindR (build s) (\<lambda>t. Inr (Some t)))"

definition apply_updateProfile :: "lib \<Rightarrow> community \<Rightarrow> operation \<Rightarrow> (string \<times> json) list \<Rightarrow> community_error + community" where
  "apply_updateProfile L c op args =
     bindR (argument_reader args [''description'', ''name'']
              [''autoJoinEnabled'', ''avatar'', ''banner'', ''discoverable'']) (\<lambda>reader.
     bindR (read_optionalString reader ''avatar'') (\<lambda>avatar.
     bindR (read_optionalString reader ''banner'') (\<lambda>banner.
     bindR (bindR (read_string reader ''name'') (new_CommunityName L)) (\<lambda>name.
     bindR (bindR (read_string reader ''description'') (new_CommunityDescription L)) (\<lambda>description.
     bindR (optional_value (new_CommunityAvatar L) avatar) (\<lambda>a.
     bindR (optional_value (new_CommunityBanner L) banner) (\<lambda>b.
     bindR (read_optionalBoolean reader ''discoverable'') (\<lambda>disc.
     bindR (read_optionalBoolean reader ''autoJoinEnabled'') (\<lambda>auto.
       updateProfile c (op_author op) name description a b disc auto)))))))))"

definition apply_createChannel :: "lib \<Rightarrow> community \<Rightarrow> operation \<Rightarrow> community_error + community" where
  "apply_createChannel L c op =
     bindR (argument_reader (op_args op) [''channelId'', ''name'', ''type''] []) (\<lambda>reader.
     bindR (bindR (read_string reader ''channelId'') (new_CommunityChannelId L)) (\<lambda>channelId.
     bindR (bindR (read_string reader ''name'') (new_CommunityChannelName L)) (\<lambda>name.
     bindR (new_Timestamp L (op_createdAt op)) (\<lambda>createdAt.
     bindR (derive_channel_id L (c_id c) (op_author op) (op_createdAt op)) (\<lambda>derived.
     bindR (ensure (channelId = derived) InvalidCommunityOperationError) (\<lambda>_.
     bindR (read_string reader ''type'') (\<lambda>ty.
       if ty = ''text'' then addTextChannel c (op_author op) name channelId createdAt
       else if ty = ''voice'' then addVoiceChannel c (op_author op) name channelId createdAt
       else Inl InvalidCommunityOperationError)))))))"

definition apply_renameChannel :: "lib \<Rightarrow> community \<Rightarrow> operation \<Rightarrow> community_error + community" where
  "apply_renameChannel L c op =
     bindR (argument_reader (op_args op) [''channelId'', ''name''] []) (\<lambda>reader.
     bindR (bindR (read_string reader ''channelId'') (new_CommunityChannelId L)) (\<lambda>channelId.
     bindR (bindR (read_string reader ''name'') (new_CommunityChannelName L)) (\<lambda>name.
       renameChannel c (op_author op) channelId name)))"

definition apply_deleteChannel :: "lib \<Rightarrow> community \<Rightarrow> operation \<Rightarrow> community_error + community" where
  "apply_deleteChannel L c op =
     bindR (argument_reader (op_args op) [''channelId''] []) (\<lambda>reader.
     bindR (bindR (read_string reader ''channelId'') (new_CommunityChannelId L)) (\<lambda>channelId.
     bindR (deleteChannel c (op_author op) channelId) (\<lambda>(c', _). Inr c')))"

definition apply_updateChannelPermissions :: "lib \<Rightarrow> community \<Rightarrow> operation \<Rightarrow> (string \<times> json) list \<Rightarrow> community_error + community" where
  "apply_updateChannelPermissions L c op args =
     bindR (argument_reader args [''channelId'', ''visibleRoleIds''] []) (\<lambda>reader.
     bindR (bindR (read_string reader ''channelId'') (new_CommunityChannelId L)) (\<lambda>channelId.
     bindR (bindR (read_stringArray reader ''visibleRoleIds'') (mapR (new_CommunityRoleId L))) (\<lambda>rids.
       updateChannelPermissions c (op_author op) channelId rids)))"

definition apply_createRole :: "lib \<Rightarrow> community \<Rightarrow> operation \<Rightarrow> community_error + community" where
  "apply_createRole L c op =
     bindR (argument_reader (op_args op) [''name'', ''permissions'', ''roleId''] []) (\<lambda>reader.
     bindR (bindR (read_string reader ''roleId'') (new_CommunityRoleId L)) (\<lambda>roleId.
     bindR (derive_role_id L (c_id c) (op_author op) (op_createdAt op)) (\<lambda>derived.
     bindR (ensure (roleId = derived) InvalidCommunityOperationError) (\<lambda>_.
     bindR (bindR (read_string reader ''name'') (new_CommunityRoleName L)) (\<lambda>name.
     bindR (bindR (read_stringArray reader ''permissions'') (mapR new_CommunityPermission)) (\<lambda>ps.
       addRole c (op_author op) name ps roleId))))))"

definition apply_updateRole :: "lib \<Rightarrow> community \<Rightarrow> operation \<Rightarrow> (string \<times> json) list \<Rightarrow> community_error + community" where
  "apply_updateRole L c op args =
     bindR (argument_reader args [''name'', ''permissions'', ''roleId''] []) (\<lambda>reader.
     bindR (bindR (read_string reader ''roleId'') (new_CommunityRoleId L)) (\<lambda>roleId.
     bindR (bindR (read_string reader ''name'') (new_CommunityRoleName L)) (\<lambda>name.
     bindR (bindR (read_stringArray reader ''permissions'') (mapR new_CommunityPermission)) (\<lambda>ps.
       updateRole c (op_author op) roleId name ps))))"

definition apply_deleteRole :: "lib \<Rightarrow> community \<Rightarrow> operation \<Rightarrow> community_error + community" where
  "apply_deleteRole L c op =
     bindR (argument_reader (op_args op) [''roleId''] []) (\<lambda>reader.
     bindR (bindR (read_string reader ''roleId'') (new_CommunityRoleId L)) (\<lambda>roleId.
       deleteRole c (op_author op) roleId))"

definition apply_assignRoles :: "lib \<Rightarrow> community \<Rightarrow> operation \<Rightarrow> (string \<times> json) list \<Rightarrow> community_error + community" where
  "apply_assignRoles L c op args =
     bindR (argument_reader args [''identityId'', ''roleIds''] []) (\<lambda>reader.
     bindR (bindR (read_string reader ''identityId'') (canonical_identity L)) (\<lambda>i.
     bindR (bindR (read_stringArray reader ''roleIds'') (mapR (new_CommunityRoleId L))) (\<lambda>rids.
       assignRoles c (op_author op) i rids)))"

definition apply_leave :: "lib \<Rightarrow> community \<Rightarrow> operation \<Rightarrow> community_error + community" where
  "apply_leave L c op =
     bindR (op_member L op) (\<lambda>i.
     bindR (ensure (op_author op = i) InvalidCommunityOperationError) (\<lambda>_.
       leave c (op_author op)))"

fun join_arguments :: "join_method \<Rightarrow> string list" where
  "join_arguments ADDED = [''identityId'', ''method'']"
| "join_arguments APPROVAL = [''identityId'', ''method'', ''reference'']"
| "join_arguments AUTOMATIC = [''identityId'', ''method'']"
| "join_arguments INVITATION = [''consent'', ''identityId'', ''invitationId'', ''method'', ''possession'']"

definition apply_join :: "lib \<Rightarrow> community \<Rightarrow> operation \<Rightarrow> community_error + community" where
  "apply_join L c op =
     bindR (case map_of (op_args op) ''method'' of
              Some (JString s) \<Rightarrow> asInvalid (new_CommunityJoinMethod s)
            | _ \<Rightarrow> Inl InvalidCommunityOperationError) (\<lambda>m.
     bindR (argument_reader (op_args op) (join_arguments m) []) (\<lambda>reader.
     bindR (if m = INVITATION
            then bindR (invitationIdOf op (join_arguments m)) (\<lambda>_.
                 bindR (read_string reader ''possession'') (\<lambda>_.
                 bindR (read_string reader ''consent'') (\<lambda>_. Inr ())))
            else if requiresReference m
            then bindR (read_string reader ''reference'') (\<lambda>_. Inr ())
            else Inr ()) (\<lambda>_.
     bindR (bindR (read_string reader ''identityId'') (canonical_identity L)) (\<lambda>i.
       joinAs c (op_author op) i m))))"

text \<open>\<open>HANDLERS\<close>; the genesis action has none.\<close>

fun handler :: "lib \<Rightarrow> action \<Rightarrow> (community \<Rightarrow> operation \<Rightarrow> (string \<times> json) list \<Rightarrow> community_error + community) option" where
  "handler L CHANNEL_CREATED = Some (\<lambda>c op args. apply_createChannel L c op)"
| "handler L CHANNEL_DELETED = Some (\<lambda>c op args. apply_deleteChannel L c op)"
| "handler L CHANNEL_PERMISSIONS_UPDATED = Some (apply_updateChannelPermissions L)"
| "handler L CHANNEL_RENAMED = Some (\<lambda>c op args. apply_renameChannel L c op)"
| "handler L COMMUNITY_CREATED = None"
| "handler L COMMUNITY_UPDATED = Some (apply_updateProfile L)"
| "handler L INVITATION_CREATED = Some (\<lambda>c op args.
     bindR (invitation_fromOperation L op) (\<lambda>_.
     bindR (assertCanCreateInvite c (op_author op)) (\<lambda>_. Inr c)))"
| "handler L INVITATION_REVOKED = Some (\<lambda>c op args.
     bindR (invitationIdOf op [''invitationId'']) (\<lambda>_. Inr c))"
| "handler L MEMBER_BANNED = Some (\<lambda>c op args.
     bindR (op_member L op) (\<lambda>i. banMember c (op_author op) i))"
| "handler L MEMBER_JOINED = Some (\<lambda>c op args. apply_join L c op)"
| "handler L MEMBER_KICKED = Some (\<lambda>c op args.
     bindR (op_member L op) (\<lambda>i. kickMember c (op_author op) i))"
| "handler L MEMBER_LEFT = Some (\<lambda>c op args. apply_leave L c op)"
| "handler L MEMBER_ROLES_UPDATED = Some (apply_assignRoles L)"
| "handler L MEMBER_UNBANNED = Some (\<lambda>c op args.
     bindR (op_member L op) (\<lambda>i. unbanMember c (op_author op) i))"
| "handler L ROLE_CREATED = Some (\<lambda>c op args. apply_createRole L c op)"
| "handler L ROLE_DELETED = Some (\<lambda>c op args. apply_deleteRole L c op)"
| "handler L ROLE_UPDATED = Some (apply_updateRole L)"

section \<open>Creating and applying\<close>

definition apply_create :: "lib \<Rightarrow> operation \<Rightarrow> community_error + community" where
  "apply_create L op =
     bindR (ensure (isGenesis op \<and> isCanonicalKey L (op_author op)) InvalidCommunityOperationError) (\<lambda>_.
     bindR (argument_reader (op_args op)
              [''autoJoinEnabled'', ''description'', ''discoverable'', ''name'', ''nonce'', ''visibility'']
              [''avatar'', ''banner'']) (\<lambda>reader.
     bindR (read_optionalString reader ''avatar'') (\<lambda>avatar.
     bindR (read_optionalString reader ''banner'') (\<lambda>banner.
     bindR (bindR (read_string reader ''name'') (new_CommunityName L)) (\<lambda>name.
     bindR (bindR (read_string reader ''description'') (new_CommunityDescription L)) (\<lambda>description.
     bindR (optional_value (new_CommunityAvatar L) avatar) (\<lambda>a.
     bindR (optional_value (new_CommunityBanner L) banner) (\<lambda>b.
     bindR (read_boolean reader ''discoverable'') (\<lambda>disc.
     bindR (bindR (read_string reader ''visibility'') new_CommunityVisibility) (\<lambda>vis.
     bindR (read_boolean reader ''autoJoinEnabled'') (\<lambda>auto.
     bindR (new_Timestamp L (op_createdAt op)) (\<lambda>createdAt.
       Inr (community_create (op_author op) (op_networkId op)
              \<lparr>profile_name = name, profile_description = description, profile_avatar = a,
               profile_banner = b\<rparr>
              (settings_create disc vis auto createdAt) (op_communityId op))))))))))))))"

definition apply_operation :: "lib \<Rightarrow> community \<Rightarrow> operation \<Rightarrow> community option \<Rightarrow> community_error + community" where
  "apply_operation L c op base =
     (case handler L (op_action op) of
        None \<Rightarrow> Inl InvalidCommunityOperationError
      | Some h \<Rightarrow>
          bindR (ensure (\<not> isGenesis op \<and> isCanonicalKey L (op_author op) \<and>
                   op_communityId op = c_id c \<and> op_networkId op = c_network c)
                 InvalidCommunityOperationError) (\<lambda>_.
          bindR (case base of None \<Rightarrow> Inr (op_args op) | Some b \<Rightarrow> argumentsOf L op b c) (\<lambda>args.
            h c op args)))"

section \<open>What an operation may do\<close>

text \<open>
  The steps of the aggregate: \<open>acts L i a c c'\<close> when the identity \<open>i\<close> takes the community \<open>c\<close>
  to \<open>c'\<close> with the method an operation of the action \<open>a\<close> calls.
\<close>

inductive acts :: "identity_id \<Rightarrow> action \<Rightarrow> community \<Rightarrow> community \<Rightarrow> bool" where
  acts_text: "addTextChannel c i name cid t = Inr c' \<Longrightarrow> acts i CHANNEL_CREATED c c'"
| acts_voice: "addVoiceChannel c i name cid t = Inr c' \<Longrightarrow> acts i CHANNEL_CREATED c c'"
| acts_deleteChannel: "deleteChannel c i cid = Inr (c', ty) \<Longrightarrow> acts i CHANNEL_DELETED c c'"
| acts_permissions: "updateChannelPermissions c i cid rids = Inr c' \<Longrightarrow> acts i CHANNEL_PERMISSIONS_UPDATED c c'"
| acts_rename: "renameChannel c i cid name = Inr c' \<Longrightarrow> acts i CHANNEL_RENAMED c c'"
| acts_profile: "updateProfile c i name d av bn disc auto = Inr c' \<Longrightarrow> acts i COMMUNITY_UPDATED c c'"
| acts_invite: "holds c i CREATE_INVITES \<Longrightarrow> acts i INVITATION_CREATED c c"
| acts_revoke: "acts i INVITATION_REVOKED c c"
| acts_ban: "banMember c i m = Inr c' \<Longrightarrow> acts i MEMBER_BANNED c c'"
| acts_join: "joinAs c i m meth = Inr c' \<Longrightarrow> acts i MEMBER_JOINED c c'"
| acts_kick: "kickMember c i m = Inr c' \<Longrightarrow> acts i MEMBER_KICKED c c'"
| acts_leave: "leave c i = Inr c' \<Longrightarrow> acts i MEMBER_LEFT c c'"
| acts_assign: "assignRoles c i m rids = Inr c' \<Longrightarrow> acts i MEMBER_ROLES_UPDATED c c'"
| acts_unban: "unbanMember c i m = Inr c' \<Longrightarrow> acts i MEMBER_UNBANNED c c'"
| acts_addRole: "addRole c i name ps rid = Inr c' \<Longrightarrow> acts i ROLE_CREATED c c'"
| acts_deleteRole: "deleteRole c i rid = Inr c' \<Longrightarrow> acts i ROLE_DELETED c c'"
| acts_updateRole: "updateRole c i rid name ps = Inr c' \<Longrightarrow> acts i ROLE_UPDATED c c'"

inductive_cases acts_joined: "acts i MEMBER_JOINED c c'"
inductive_cases acts_left: "acts i MEMBER_LEFT c c'"
inductive_cases acts_kicked: "acts i MEMBER_KICKED c c'"
inductive_cases acts_banned: "acts i MEMBER_BANNED c c'"
inductive_cases acts_updated: "acts i COMMUNITY_UPDATED c c'"

lemma handler_acts:
  assumes "handler L a = Some h" and "op_action op = a" and "h c op args = Inr c'"
  shows "acts (op_author op) a c c'"
  using assms
  by (cases a)
    (auto simp: apply_createChannel_def apply_deleteChannel_def apply_updateChannelPermissions_def
      apply_renameChannel_def apply_updateProfile_def apply_join_def apply_leave_def
      apply_assignRoles_def apply_createRole_def apply_deleteRole_def apply_updateRole_def
      split: if_splits intro: acts.intros)

lemma apply_operation_acts:
  assumes "apply_operation L c op base = Inr c'"
  shows "acts (op_author op) (op_action op) c c'"
  using assms by (auto simp: apply_operation_def split: option.splits intro: handler_acts)

lemma apply_operation_scope:
  "apply_operation L c op base = Inr c' \<Longrightarrow>
     op_communityId op = c_id c \<and> op_networkId op = c_network c \<and> isCanonicalKey L (op_author op)
     \<and> \<not> isGenesis op"
  by (auto simp: apply_operation_def split: option.splits)

lemma acts_inv:
  assumes "acts i a c c'" and "community_inv c"
  shows "community_inv c' \<or> \<not> hasMembers (c_membership c')"
  using assms
proof (cases rule: acts.cases)
  case acts_leave
  then show ?thesis using leave_inv [OF assms(2)] by simp
qed (use assms(2) in \<open>auto intro: inv_intros\<close>)

lemma acts_frame:
  assumes "acts i a c c'"
  shows "c_id c' = c_id c \<and> c_network c' = c_network c \<and> c_owner c' = c_owner c"
  using assms
  by cases
    (auto simp: addTextChannel_def addVoiceChannel_def deleteChannel_def updateChannelPermissions_def
      renameChannel_def updateProfile_def banMember_def joinAs_def join_def kickMember_def leave_def
      assignRoles_def unbanMember_def addRole_def deleteRole_def updateRole_def Let_def split: if_splits)

text \<open>The permission each moderated action needs of its author.\<close>

fun required_permission :: "action \<Rightarrow> permission option" where
  "required_permission CHANNEL_CREATED = Some MANAGE_CHANNELS"
| "required_permission CHANNEL_DELETED = Some MANAGE_CHANNELS"
| "required_permission CHANNEL_PERMISSIONS_UPDATED = Some MANAGE_CHANNELS"
| "required_permission CHANNEL_RENAMED = Some MANAGE_CHANNELS"
| "required_permission INVITATION_CREATED = Some CREATE_INVITES"
| "required_permission MEMBER_BANNED = Some BAN_MEMBERS"
| "required_permission MEMBER_KICKED = Some MANAGE_MEMBERS"
| "required_permission MEMBER_ROLES_UPDATED = Some MANAGE_ROLES"
| "required_permission MEMBER_UNBANNED = Some BAN_MEMBERS"
| "required_permission ROLE_CREATED = Some MANAGE_ROLES"
| "required_permission ROLE_DELETED = Some MANAGE_ROLES"
| "required_permission ROLE_UPDATED = Some MANAGE_ROLES"
| "required_permission _ = None"

lemma acts_authority:
  assumes "acts i a c c'" and "required_permission a = Some p"
  shows "holds c i p"
  using assms
  by cases
    (auto simp: addTextChannel_def addVoiceChannel_def deleteChannel_def updateChannelPermissions_def
      renameChannel_def banMember_def kickMember_def assignRoles_def unbanMember_def addRole_def
      deleteRole_def updateRole_def)

lemma acts_profile_owner: "acts i COMMUNITY_UPDATED c c' \<Longrightarrow> i = c_owner c"
  by (erule acts_updated) (auto simp: updateProfile_def)

lemma acts_members_frame:
  assumes "acts i a c c'" and "a \<notin> {MEMBER_JOINED, MEMBER_LEFT, MEMBER_KICKED, MEMBER_BANNED}"
  shows "members (c_membership c') = members (c_membership c)"
  using assms
  by cases
    (auto simp: addTextChannel_def addVoiceChannel_def deleteChannel_def updateChannelPermissions_def
      renameChannel_def updateProfile_def assignRoles_def unbanMember_def unban_conv addRole_def
      deleteRole_def updateRole_def membership_role_frames Let_def)

lemma acts_bans_frame:
  assumes "acts i a c c'" and "a \<notin> {MEMBER_BANNED, MEMBER_UNBANNED}"
  shows "bannedMembers (c_membership c') = bannedMembers (c_membership c)"
  using assms
  by cases
    (auto simp: addTextChannel_def addVoiceChannel_def deleteChannel_def updateChannelPermissions_def
      renameChannel_def updateProfile_def assignRoles_def addRole_def joinAs_def join_def leave_def
      kickMember_def deleteRole_def updateRole_def membership_role_frames membership_add_def Let_def split: if_splits)

lemma members_after_join:
  "join c m = Inr c' \<Longrightarrow>
     set (members (c_membership c')) = insert m (set (members (c_membership c))) \<and>
     m \<notin> set (bannedMembers (c_membership c))"
  by (auto simp: join_def Let_def membership_add_def split: if_splits)

text \<open>Who enters: never a banned identity, and only by the ways the aggregate knows.\<close>

lemma acts_enters:
  assumes "acts i a c c'" and "m \<in> set (members (c_membership c'))" and "m \<notin> set (members (c_membership c))"
  shows "a = MEMBER_JOINED \<and> m \<notin> set (bannedMembers (c_membership c)) \<and>
    (holds c i MANAGE_MEMBERS \<or> holds c i APPROVE_MEMBERS \<or> (i = m \<and> autoJoinEnabled (c_settings c)))"
proof -
  consider (joined) "a = MEMBER_JOINED" | (left) "a = MEMBER_LEFT" | (kicked) "a = MEMBER_KICKED"
    | (banned) "a = MEMBER_BANNED" | (other) "a \<notin> {MEMBER_JOINED, MEMBER_LEFT, MEMBER_KICKED, MEMBER_BANNED}"
    by blast
  then show ?thesis
  proof cases
    case joined
    with assms(1) obtain m' meth where j: "joinAs c i m' meth = Inr c'"
      by (auto elim: acts_joined)
    from members_after_join [OF joinAs_join [OF j]] assms(2,3)
    have "m' = m" "m \<notin> set (bannedMembers (c_membership c))" by auto
    with joined j show ?thesis
      by (cases meth) (auto simp: joinAs_def isSelfJoin_def)
  next
    case other
    with assms acts_members_frame [OF assms(1)] show ?thesis by simp
  next
    case left
    with assms show ?thesis
      by (auto simp: leave_def Let_def members_remove elim!: acts_left dest: notin_set_remove1)
  next
    case kicked
    with assms show ?thesis
      by (auto simp: kickMember_def Let_def members_remove elim!: acts_kicked dest: notin_set_remove1)
  next
    case banned
    with assms show ?thesis
      by (auto simp: banMember_def Let_def members_ban elim!: acts_banned split: if_splits dest: notin_set_remove1)
  qed
qed

text \<open>Who goes out, and by whom: the owner only by leaving as the last member.\<close>

lemma acts_goes_out:
  assumes "acts i a c c'" and "m \<in> set (members (c_membership c))" and "m \<notin> set (members (c_membership c'))"
  shows "(a = MEMBER_LEFT \<and> i = m \<and> (m = c_owner c \<longrightarrow> length (members (c_membership c)) = 1)) \<or>
    (m \<noteq> c_owner c \<and> (a = MEMBER_KICKED \<and> holds c i MANAGE_MEMBERS \<or> a = MEMBER_BANNED \<and> holds c i BAN_MEMBERS))"
proof -
  have rm: "y = m" if "m \<notin> set (remove1 y (members (c_membership c)))" for y
    using that assms(2) by (metis in_set_remove1)
  consider (joined) "a = MEMBER_JOINED" | (left) "a = MEMBER_LEFT" | (kicked) "a = MEMBER_KICKED"
    | (banned) "a = MEMBER_BANNED" | (other) "a \<notin> {MEMBER_JOINED, MEMBER_LEFT, MEMBER_KICKED, MEMBER_BANNED}"
    by blast
  then show ?thesis
  proof cases
    case joined
    with assms(1) obtain m' meth where "joinAs c i m' meth = Inr c'" by (auto elim: acts_joined)
    from members_after_join [OF joinAs_join [OF this]] assms(2,3) show ?thesis by auto
  next
    case other
    with assms acts_members_frame [OF assms(1)] show ?thesis by simp
  next
    case left
    with assms(1) have l: "leave c i = Inr c'" by (auto elim: acts_left)
    then have "members (c_membership c') = remove1 i (members (c_membership c))"
      by (auto simp: leave_def Let_def members_remove)
    then have "i = m" using assms(3) rm by simp
    with left l show ?thesis by (auto simp: leave_def)
  next
    case kicked
    with assms show ?thesis
      by (auto simp: kickMember_def Let_def members_remove elim!: acts_kicked dest!: rm)
  next
    case banned
    with assms show ?thesis
      by (auto simp: banMember_def Let_def members_ban elim!: acts_banned split: if_splits dest!: rm)
  qed
qed

text \<open>An outsider changes nothing, except that it may join where joining is automatic.\<close>

lemma outsider_holds:
  "holds c i p \<Longrightarrow> i \<noteq> c_owner c \<Longrightarrow> i \<notin> set (members (c_membership c)) \<Longrightarrow> False"
  by (simp add: holds_def hasPermission_def)

lemma acts_outsider:
  assumes "acts i a c c'" and "i \<noteq> c_owner c" and "i \<notin> set (members (c_membership c))"
  shows "(a = INVITATION_REVOKED \<and> c' = c) \<or>
    (a = MEMBER_JOINED \<and> autoJoinEnabled (c_settings c) \<and> i \<notin> set (bannedMembers (c_membership c))
      \<and> members (c_membership c') = members (c_membership c) @ [i])"
proof -
  have no: "\<not> holds c i p" for p using assms(2,3) outsider_holds by blast
  have "required_permission a = None" using acts_authority [OF assms(1)] no
    by (cases "required_permission a") auto
  then consider (joined) "a = MEMBER_JOINED" | (left) "a = MEMBER_LEFT" | (updated) "a = COMMUNITY_UPDATED"
    | (revoked) "a = INVITATION_REVOKED" | (created) "a = COMMUNITY_CREATED"
    by (cases a) auto
  then show ?thesis
  proof cases
    case joined
    with assms(1) obtain m meth where "joinAs c i m meth = Inr c'" by (auto elim: acts_joined)
    with joined no assms(3) show ?thesis
      by (cases meth) (auto simp: joinAs_def join_def isSelfJoin_def membership_add_def Let_def)
  next
    case left
    with assms show ?thesis by (auto simp: leave_def elim!: acts_left)
  next
    case updated
    with assms show ?thesis using acts_profile_owner by blast
  next
    case revoked
    with assms(1) show ?thesis by (auto elim: acts.cases)
  next
    case created
    with assms(1) show ?thesis by (auto elim: acts.cases)
  qed
qed

section \<open>Reachable communities\<close>

inductive reachable :: "community \<Rightarrow> community \<Rightarrow> bool" where
  reachable_refl: "reachable c c"
| reachable_step: "reachable c c' \<Longrightarrow> hasMembers (c_membership c') \<Longrightarrow> acts i a c' c'' \<Longrightarrow> reachable c c''"

lemma reachable_inv:
  assumes "reachable c c'" and "community_inv c"
  shows "community_inv c' \<or> \<not> hasMembers (c_membership c')"
  using assms by induction (auto dest: acts_inv)

lemma reachable_owner: "reachable c c' \<Longrightarrow> c_owner c' = c_owner c \<and> c_id c' = c_id c \<and> c_network c' = c_network c"
  by (induction rule: reachable.induct) (auto dest: acts_frame)

lemma reachable_trans: "reachable b c \<Longrightarrow> reachable a b \<Longrightarrow> reachable a c"
  by (induction rule: reachable.induct) (auto intro: reachable.intros)

lemma apply_create_inv: "apply_create L op = Inr c \<Longrightarrow> community_inv c"
  by (auto simp: apply_create_def community_inv_create)

lemma apply_create_fields:
  "apply_create L op = Inr c \<Longrightarrow>
     c_id c = op_communityId op \<and> c_network c = op_networkId op \<and> c_owner c = op_author op \<and>
     members (c_membership c) = [op_author op] \<and> isGenesis op"
  by (auto simp: apply_create_def community_create_def Let_def)

end
