(* ===== verification/OperationGraph.thy ===== *)
theory OperationGraph
  imports CommunityApplier
begin

text \<open>
  The graph of the operations of one community: the order, the closure and the frontier of
  \<open>src/contexts/communities/domain/operations/CommunityStateFold.ts\<close> (\<open>resolvable\<close>, \<open>orderOf\<close>,
  \<open>closureOf\<close>, \<open>frontierOf\<close>). The abstract order (\<open>canonical\<close>) is a relation on the set of
  digests and their parents alone; the locale \<open>digest_dag\<close> holds what follows from it, and
  \<open>orderOf\<close> is shown to compute it, so the order never depends on how the operations arrive.
\<close>

section \<open>The code\<close>

definition knownOf :: "operation list \<Rightarrow> (string, operation) jsmap" where
  "knownOf ops = jsmap_of (map (\<lambda>op. (op_hash op, op)) ops)"

text \<open>One pass of the \<open>for\<close> loop of \<open>resolvable\<close>, with the flag \<open>progressed\<close>.\<close>

fun resolvable_pass :: "(string \<times> operation) list \<Rightarrow> (string, operation) jsmap \<Rightarrow> bool
    \<Rightarrow> (string, operation) jsmap \<times> bool" where
  "resolvable_pass [] acc progressed = (acc, progressed)"
| "resolvable_pass ((hash, op) # known) acc progressed =
     (if map_of acc hash = None \<and> list_all (\<lambda>p. map_of acc p \<noteq> None) (op_parents op)
      then resolvable_pass known (AList.update hash op acc) True
      else resolvable_pass known acc progressed)"

lemma resolvable_pass_keys:
  "resolvable_pass known acc b = (acc', b') \<Longrightarrow>
     fst ` set acc \<subseteq> fst ` set acc' \<and> fst ` set acc' \<subseteq> fst ` set acc \<union> fst ` set known \<and>
     (b' \<longrightarrow> b \<or> fst ` set acc' \<noteq> fst ` set acc)"
proof (induction known acc b rule: resolvable_pass.induct)
  case (2 hash op known acc b)
  have sets: "insert h A \<subseteq> A' \<and> A' \<subseteq> insert h A \<union> N \<Longrightarrow> h \<notin> A \<Longrightarrow>
      A \<subseteq> A' \<and> A' \<subseteq> A \<union> insert h N \<and> A' \<noteq> A" for h :: string and A A' N by blast
  show ?case
  proof (cases "map_of acc hash = None \<and> list_all (\<lambda>p. map_of acc p \<noteq> None) (op_parents op)")
    case True
    then have "resolvable_pass known (AList.update hash op acc) True = (acc', b')" using 2(3) by simp
    from 2(1) [OF True this]
    have "insert hash (fst ` set acc) \<subseteq> fst ` set acc' \<and> fst ` set acc' \<subseteq> insert hash (fst ` set acc) \<union> fst ` set known"
      by (simp only: keys_update)
    from sets [OF this] True show ?thesis by (simp add: map_of_eq_None_iff)
  next
    case False
    then have "resolvable_pass known acc b = (acc', b')" using 2(3) by (simp split: if_splits)
    from 2(2) [OF False this] show ?thesis by auto
  qed
qed simp

function resolvable_loop :: "(string, operation) jsmap \<Rightarrow> (string, operation) jsmap \<Rightarrow> (string, operation) jsmap" where
  "resolvable_loop known acc =
     (case resolvable_pass known acc False of
        (acc', progressed) \<Rightarrow> if progressed then resolvable_loop known acc' else acc')"
  by pat_completeness auto

termination
proof (relation "measure (\<lambda>(known, acc). card (fst ` set known - fst ` set acc))", goal_cases)
  case (2 known acc acc' progressed)
  then have "resolvable_pass known acc False = (acc', True)" by simp
  from resolvable_pass_keys [OF this]
  have sub: "fst ` set acc \<subseteq> fst ` set acc'" "fst ` set acc' \<subseteq> fst ` set acc \<union> fst ` set known"
    and ne: "fst ` set acc' \<noteq> fst ` set acc" by auto
  have "A \<subseteq> A' \<Longrightarrow> A' \<subseteq> A \<union> K \<Longrightarrow> A' \<noteq> A \<Longrightarrow> K - A' \<subset> K - A" for A A' K :: "string set" by blast
  from this [OF sub ne] have "card (fst ` set known - fst ` set acc') < card (fst ` set known - fst ` set acc)"
    by (intro psubset_card_mono) auto
  then show ?case by (simp only: in_measure prod.case)
qed simp

declare resolvable_loop.simps [simp del]

definition resolvable :: "operation list \<Rightarrow> (string, operation) jsmap" where
  "resolvable ops = resolvable_loop (knownOf ops) []"

text \<open>\<open>new Set(parents)\<close>\<close>

definition new_Set :: "'a list \<Rightarrow> 'a list" where
  "new_Set xs = fold set_add xs []"

definition childrenOf :: "(string, string list) jsmap \<Rightarrow> string \<Rightarrow> string list" where
  "childrenOf children h = (case map_of children h of None \<Rightarrow> [] | Some hs \<Rightarrow> hs)"

text \<open>The map \<open>children\<close>: every operation under each of its parents.\<close>

definition children_map :: "(string, operation) jsmap \<Rightarrow> (string, string list) jsmap" where
  "children_map pending =
     fold (\<lambda>(hash, op) children.
       fold (\<lambda>parent ch. AList.update parent (childrenOf ch parent @ [hash]) ch) (op_parents op) children)
       pending []"

text \<open>The inner \<open>for\<close> loop: one more parent of each child is ordered.\<close>

fun release :: "string \<Rightarrow> string list \<Rightarrow> (string, string list) jsmap \<Rightarrow> string list
    \<Rightarrow> (string, string list) jsmap \<times> string list" where
  "release hash [] waiting ready = (waiting, ready)"
| "release hash (child # cs) waiting ready =
     (let parents = set_delete hash (the (map_of waiting child)) in
      release hash cs (AList.update child parents waiting)
        (if parents = [] then ready @ [child] else ready))"

text \<open>The outer \<open>while\<close> loop; \<open>None\<close> would mean that it does not end.\<close>

partial_function (option) order_loop :: "(string, operation) jsmap \<Rightarrow> (string, string list) jsmap
    \<Rightarrow> (string, string list) jsmap \<Rightarrow> string list \<Rightarrow> operation list \<Rightarrow> operation list option" where
  "order_loop pending children waiting ready ordered =
     (if ready = [] then Some ordered
      else
        let r = release (hd ready) (childrenOf children (hd ready)) waiting (tl ready) in
        order_loop pending children (fst r) (sort (snd r))
          (ordered @ [the (map_of pending (hd ready))]))"

declare order_loop.simps [code]

definition orderOf :: "operation list \<Rightarrow> operation list option" where
  "orderOf ops =
     (let pending = resolvable ops;
          waiting = map (\<lambda>(hash, op). (hash, new_Set (op_parents op))) pending;
          ready = sort (map fst (filter (\<lambda>(hash, parents). parents = []) waiting))
      in order_loop pending (children_map pending) waiting ready [])"

text \<open>The stack is kept with its top first: pushing the parents puts them in front, reversed.\<close>

function closure_loop :: "(string, operation) jsmap \<Rightarrow> string list \<Rightarrow> (string, operation) jsmap
    \<Rightarrow> community_error + operation list" where
  "closure_loop known [] closure = Inr (map snd closure)"
| "closure_loop known (hash # stack) closure =
     (case map_of known hash of
        None \<Rightarrow> Inl InvalidCommunityOperationError
      | Some op \<Rightarrow>
          if map_of closure hash = None
          then closure_loop known (rev (op_parents op) @ stack) (AList.update hash op closure)
          else closure_loop known stack closure)"
  by pat_completeness auto

termination
proof (relation "measures [\<lambda>(known, stack, closure). card (fst ` set known - fst ` set closure),
                           \<lambda>(known, stack, closure). length stack]", goal_cases)
  case (2 known hash stack closure op)
  then have k: "hash \<in> fst ` set known" by (metis domI dom_map_of_conv_image_fst)
  have "hash \<notin> fst ` set closure" using 2 by (simp add: map_of_eq_None_iff)
  with k have "card (fst ` set known - insert hash (fst ` set closure)) < card (fst ` set known - fst ` set closure)"
    by (intro card_Diff_insert_less) simp_all
  then show ?case by simp
qed auto

definition closureOf :: "operation list \<Rightarrow> string list \<Rightarrow> community_error + operation list" where
  "closureOf ops parents = closure_loop (knownOf ops) (rev parents) []"

definition frontierOf :: "operation list \<Rightarrow> string list" where
  "frontierOf ops =
     (let referenced = concat (map op_parents ops) in
      sort (filter (\<lambda>hash. hash \<notin> set referenced) (map op_hash ops)))"

section \<open>The canonical order of a set of digests\<close>

text \<open>
  \<open>canonical K P E xs\<close>: after the digests \<open>E\<close>, \<open>xs\<close> takes again and again the lowest digest of
  \<open>K\<close> whose parents are all taken, until none is left to take.
\<close>

fun canonical :: "'h::linorder set \<Rightarrow> ('h \<Rightarrow> 'h set) \<Rightarrow> 'h set \<Rightarrow> 'h list \<Rightarrow> bool" where
  "canonical K P E [] \<longleftrightarrow> (\<forall>h \<in> K - E. \<not> P h \<subseteq> E)"
| "canonical K P E (x # xs) \<longleftrightarrow>
     x \<in> K - E \<and> P x \<subseteq> E \<and> (\<forall>h \<in> K - E. P h \<subseteq> E \<longrightarrow> x \<le> h) \<and> canonical K P (insert x E) xs"

lemma canonical_unique: "canonical K P E xs \<Longrightarrow> canonical K P E ys \<Longrightarrow> xs = ys"
proof (induction xs arbitrary: E ys)
  case Nil
  then show ?case by (cases ys) auto
next
  case (Cons x xs)
  then obtain y zs where ys: "ys = y # zs" by (cases ys) auto
  with Cons.prems have "x = y" by (intro antisym) auto
  with Cons ys show ?case by auto
qed

lemma canonical_subset: "canonical K P E xs \<Longrightarrow> set xs \<subseteq> K - E \<and> distinct xs"
  by (induction xs arbitrary: E) auto

lemma canonical_parents_first:
  "canonical K P E (us @ x # vs) \<Longrightarrow> P x \<subseteq> E \<union> set us"
  by (induction us arbitrary: E) auto

text \<open>
  The graph the code orders: finitely many digests, closed under parents, where any set of
  digests that is not all of them leaves one that can be taken.
\<close>

locale digest_dag =
  fixes K :: "'h::linorder set" and P :: "'h \<Rightarrow> 'h set"
  assumes finite_digests: "finite K"
    and parents_known: "h \<in> K \<Longrightarrow> P h \<subseteq> K"
    and can_progress: "E \<subseteq> K \<Longrightarrow> E \<noteq> K \<Longrightarrow> \<exists>h \<in> K - E. P h \<subseteq> E"
begin

lemma canonical_complete: "canonical K P E xs \<Longrightarrow> E \<subseteq> K \<Longrightarrow> set xs = K - E"
proof (induction xs arbitrary: E)
  case Nil
  then have "E = K" using can_progress [of E] by (metis canonical.simps(1))
  then show ?case by simp
next
  case (Cons x xs)
  then have "set xs = K - insert x E" by auto
  with Cons.prems show ?case by auto
qed

lemma canonical_exists: "E \<subseteq> K \<Longrightarrow> \<exists>xs. canonical K P E xs"
proof (induction "card (K - E)" arbitrary: E rule: less_induct)
  case less
  show ?case
  proof (cases "E = K")
    case True
    then have "canonical K P E []" by simp
    then show ?thesis by blast
  next
    case False
    let ?R = "{h \<in> K - E. P h \<subseteq> E}"
    have R: "finite ?R" "?R \<noteq> {}" using finite_digests can_progress [OF less.prems False] by auto
    have m: "Min ?R \<in> K - E" "P (Min ?R) \<subseteq> E" using Min_in [OF R] by auto
    have "K - insert (Min ?R) E \<subset> K - E" using m by blast
    then have "card (K - insert (Min ?R) E) < card (K - E)"
      using finite_digests by (intro psubset_card_mono) auto
    moreover have "insert (Min ?R) E \<subseteq> K" using m less.prems by auto
    ultimately obtain xs where "canonical K P (insert (Min ?R) E) xs" using less.hyps by blast
    then have "canonical K P E (Min ?R # xs)" using m R by auto
    then show ?thesis by blast
  qed
qed

text \<open>An order of all digests with every parent before its children exists, so no digest is its own ancestor.\<close>

definition ancestor :: "'h \<Rightarrow> 'h \<Rightarrow> bool" where
  "ancestor = (\<lambda>p h. h \<in> K \<and> p \<in> P h)\<^sup>+\<^sup>+"

lemma ancestor_before:
  assumes "canonical K P {} xs" and "ancestor a h" and "xs = us @ h # vs"
  shows "a \<in> set us"
  using assms(2,3) unfolding ancestor_def
proof (induction arbitrary: us vs rule: tranclp_induct)
  case (base h)
  then show ?case using canonical_parents_first [of K P "{}" us h vs] assms(1) by auto
next
  case (step p h)
  then have "p \<in> set us" using canonical_parents_first [of K P "{}" us h vs] assms(1) by auto
  then obtain us1 us2 where us: "us = us1 @ p # us2" by (meson split_list)
  have "a \<in> set us1" by (rule step.IH) (simp add: us step.prems)
  then show ?case by (simp add: us)
qed

lemma ancestor_irrefl: "h \<in> K \<Longrightarrow> \<not> ancestor h h"
proof
  assume h: "h \<in> K" and a: "ancestor h h"
  obtain xs where xs: "canonical K P {} xs" using canonical_exists [of "{}"] by auto
  then have "h \<in> set xs" using canonical_complete [OF xs] h by auto
  then obtain us vs where s: "xs = us @ h # vs" by (meson split_list)
  have "h \<in> set us" using ancestor_before [OF xs a s] .
  then show False using canonical_subset [OF xs] s by auto
qed

end

section \<open>The resolvable operations\<close>

lemma update_new: "k \<notin> fst ` set m \<Longrightarrow> AList.update k v m = m @ [(k, v)]"
  by (induction m) auto

lemma keys_known [simp]: "fst ` set (knownOf ops) = op_hash ` set ops"
  by (simp add: knownOf_def image_image)

lemma known_hash: "map_of (knownOf ops) h = Some op \<Longrightarrow> op_hash op = h \<and> op \<in> set ops"
  using set_jsmap_of_subset by (fastforce simp: knownOf_def dest!: map_of_SomeD)

lemma known_iff:
  assumes "inj_on op_hash (set ops)"
  shows "map_of (knownOf ops) h = Some op \<longleftrightarrow> op \<in> set ops \<and> op_hash op = h"
proof
  assume r: "op \<in> set ops \<and> op_hash op = h"
  then have "h \<in> fst ` set (knownOf ops)" by auto
  then obtain op' where op': "map_of (knownOf ops) h = Some op'"
    by (metis domD dom_map_of_conv_image_fst)
  with known_hash [OF op'] r assms show "map_of (knownOf ops) h = Some op"
    by (metis inj_on_contraD)
qed (auto dest: known_hash)

text \<open>The digests that can be reached from operations without parents.\<close>

inductive rooted :: "operation list \<Rightarrow> string \<Rightarrow> bool" for ops where
  rootedI: "map_of (knownOf ops) h = Some op \<Longrightarrow> (\<And>p. p \<in> set (op_parents op) \<Longrightarrow> rooted ops p)
    \<Longrightarrow> rooted ops h"

inductive_simps rooted_iff: "rooted ops h"

definition parents_in :: "operation list \<Rightarrow> string \<Rightarrow> string set" where
  "parents_in ops h = (case map_of (knownOf ops) h of None \<Rightarrow> {} | Some op \<Rightarrow> set (op_parents op))"

lemma rooted_known: "rooted ops h \<Longrightarrow> h \<in> op_hash ` set ops"
  by (erule rooted.cases) (auto dest: known_hash)

interpretation rooted_dag: digest_dag "{h. rooted ops h}" "parents_in ops" for ops
proof
  show "finite {h. rooted ops h}"
    by (rule finite_subset [of _ "op_hash ` set ops"]) (auto dest: rooted_known)
  show "h \<in> {h. rooted ops h} \<Longrightarrow> parents_in ops h \<subseteq> {h. rooted ops h}" for h
    by (simp add: rooted_iff [of ops h]) (auto simp: parents_in_def)
  fix E assume E: "E \<subseteq> {h. rooted ops h}" "E \<noteq> {h. rooted ops h}"
  show "\<exists>h \<in> {h. rooted ops h} - E. parents_in ops h \<subseteq> E"
  proof (rule ccontr)
    assume no: "\<not> ?thesis"
    have "h \<in> E" if "rooted ops h" for h
      using that
    proof induction
      case (rootedI h op)
      then have "parents_in ops h \<subseteq> E" by (auto simp: parents_in_def)
      moreover have "rooted ops h" using rootedI by (auto intro: rooted.intros)
      ultimately show ?case using no by blast
    qed
    with E show False by blast
  qed
qed

text \<open>\<open>resolvable\<close> keeps exactly the rooted operations, each after its parents.\<close>

inductive topo :: "(string \<times> operation) list \<Rightarrow> bool" where
  topo_Nil: "topo []"
| topo_snoc: "topo acc \<Longrightarrow> h \<notin> fst ` set acc \<Longrightarrow> set (op_parents op) \<subseteq> fst ` set acc \<Longrightarrow> topo (acc @ [(h, op)])"

lemma keys_iff: "(map_of m k = None) = (k \<notin> fst ` set m)" "(map_of m k \<noteq> None) = (k \<in> fst ` set m)"
  by (simp_all add: map_of_eq_None_iff)

lemma resolvable_pass_topo:
  "resolvable_pass known acc b = (acc', b') \<Longrightarrow> topo acc \<Longrightarrow> set known \<subseteq> S \<Longrightarrow> set acc \<subseteq> S \<Longrightarrow>
     topo acc' \<and> set acc' \<subseteq> S"
proof (induction known acc b rule: resolvable_pass.induct)
  case (2 hash op known acc b)
  show ?case
  proof (cases "map_of acc hash = None \<and> list_all (\<lambda>p. map_of acc p \<noteq> None) (op_parents op)")
    case True
    then have n: "hash \<notin> fst ` set acc" and p: "set (op_parents op) \<subseteq> fst ` set acc"
      by (auto simp: keys_iff list_all_iff simp del: not_None_eq)
    have "topo (acc @ [(hash, op)])" using 2(4) n p by (rule topo_snoc)
    then show ?thesis using 2(1) True 2(3-6) by (simp add: update_new [OF n])
  next
    case False
    then show ?thesis using 2(2-6) by (simp split: if_splits)
  qed
qed auto

lemma resolvable_pass_done:
  "resolvable_pass known acc b = (acc', False) \<Longrightarrow>
     acc' = acc \<and> \<not> b \<and> (\<forall>(h, op) \<in> set known. h \<in> fst ` set acc \<or> \<not> set (op_parents op) \<subseteq> fst ` set acc)"
proof (induction known acc b rule: resolvable_pass.induct)
  case (2 hash op known acc b)
  show ?case
  proof (cases "map_of acc hash = None \<and> list_all (\<lambda>p. map_of acc p \<noteq> None) (op_parents op)")
    case True
    then show ?thesis using 2(1) 2(3) by auto
  next
    case False
    then have "hash \<in> fst ` set acc \<or> \<not> set (op_parents op) \<subseteq> fst ` set acc"
      by (auto simp: keys_iff list_all_iff simp del: not_None_eq)
    moreover have "resolvable_pass known acc b = (acc', False)" using 2(3) False by (simp split: if_splits)
    ultimately show ?thesis using 2(2) [OF False] by auto
  qed
qed simp

lemma resolvable_loop_props:
  "topo acc \<Longrightarrow> set acc \<subseteq> set known \<Longrightarrow>
     topo (resolvable_loop known acc) \<and> set (resolvable_loop known acc) \<subseteq> set known \<and>
     (\<forall>(h, op) \<in> set known. set (op_parents op) \<subseteq> fst ` set (resolvable_loop known acc)
        \<longrightarrow> h \<in> fst ` set (resolvable_loop known acc))"
proof (induction known acc rule: resolvable_loop.induct)
  case (1 known acc)
  obtain acc' b where r: "resolvable_pass known acc False = (acc', b)" by fastforce
  from resolvable_pass_topo [OF r "1.prems"(1) subset_refl "1.prems"(2)]
  have t: "topo acc'" "set acc' \<subseteq> set known" by auto
  show ?case
  proof (cases b)
    case True
    then show ?thesis using "1.IH" r t by (simp add: resolvable_loop.simps [of known acc])
  next
    case False
    then show ?thesis using resolvable_pass_done [of known acc False acc'] r t
      by (auto simp: resolvable_loop.simps [of known acc])
  qed
qed

lemma topo_distinct: "topo acc \<Longrightarrow> distinct (map fst acc)"
  by (induction rule: topo.induct) auto

lemma resolvable_topo: "topo (resolvable ops)"
  and resolvable_subset: "set (resolvable ops) \<subseteq> set (knownOf ops)"
  and resolvable_closed: "(h, op) \<in> set (knownOf ops) \<Longrightarrow> set (op_parents op) \<subseteq> fst ` set (resolvable ops)
        \<Longrightarrow> h \<in> fst ` set (resolvable ops)"
  using resolvable_loop_props [of "[]" "knownOf ops"] by (auto simp: resolvable_def topo_Nil)

lemma resolvable_distinct [simp]: "distinct (map fst (resolvable ops))"
  using resolvable_topo by (rule topo_distinct)

lemma known_distinct [simp]: "distinct (map fst (knownOf ops))"
  by (simp add: knownOf_def)

lemma topo_rooted:
  "topo acc \<Longrightarrow> set acc \<subseteq> set (knownOf ops) \<Longrightarrow> h \<in> fst ` set acc \<Longrightarrow> rooted ops h"
proof (induction arbitrary: h rule: topo.induct)
  case (topo_snoc acc h' op)
  have ih: "rooted ops p" if "p \<in> fst ` set acc" for p
    using topo_snoc.IH [OF _ that] topo_snoc.prems(1) by simp
  show ?case
  proof (cases "h \<in> fst ` set acc")
    case True
    then show ?thesis by (rule ih)
  next
    case False
    then have "h = h'" using topo_snoc.prems(2) by simp
    moreover have "map_of (knownOf ops) h' = Some op" using topo_snoc.prems(1) by simp
    moreover have "rooted ops p" if "p \<in> set (op_parents op)" for p
      using topo_snoc.hyps(3) that by (intro ih) blast
    ultimately show ?thesis by (blast intro: rootedI)
  qed
qed simp

lemma keys_resolvable: "fst ` set (resolvable ops) = {h. rooted ops h}"
proof (intro equalityI subsetI)
  fix h assume "h \<in> fst ` set (resolvable ops)"
  then show "h \<in> {h. rooted ops h}"
    by (intro CollectI topo_rooted [OF resolvable_topo resolvable_subset])
next
  fix h assume "h \<in> {h. rooted ops h}"
  then have "rooted ops h" by simp
  then show "h \<in> fst ` set (resolvable ops)"
  proof induction
    case (rootedI h op)
    then show ?case by (intro resolvable_closed [of h op]) (auto dest: map_of_SomeD)
  qed
qed

lemma map_of_resolvable: "map_of (resolvable ops) h = (if rooted ops h then map_of (knownOf ops) h else None)"
proof (cases "rooted ops h")
  case True
  then have "h \<in> fst ` set (resolvable ops)" by (simp add: keys_resolvable)
  then obtain op where "(h, op) \<in> set (resolvable ops)" by force
  moreover then have "(h, op) \<in> set (knownOf ops)" using resolvable_subset by blast
  ultimately show ?thesis using True by simp
next
  case False
  then show ?thesis using keys_resolvable by (simp add: map_of_eq_None_iff)
qed

lemma rooted_some: "rooted ops h \<Longrightarrow> \<exists>op. map_of (knownOf ops) h = Some op"
  by (erule rooted.cases) auto

section \<open>The order is the canonical one\<close>

lemma childrenOf_update: "childrenOf (AList.update p v ch) q = (if q = p then v else childrenOf ch q)"
  by (simp add: childrenOf_def update_conv')

lemma children_inner:
  "distinct ps \<Longrightarrow>
     childrenOf (fold (\<lambda>parent ch. AList.update parent (childrenOf ch parent @ [hash]) ch) ps ch) q
       = childrenOf ch q @ (if q \<in> set ps then [hash] else [])"
  by (induction ps arbitrary: ch) (auto simp: childrenOf_update)

lemma children_outer:
  assumes "\<forall>(h, op) \<in> set pending. distinct (op_parents op)"
  shows "childrenOf (fold (\<lambda>(hash, op) children.
       fold (\<lambda>parent ch. AList.update parent (childrenOf ch parent @ [hash]) ch) (op_parents op) children)
       pending ch) q
    = childrenOf ch q @ map fst (filter (\<lambda>(h, op). q \<in> set (op_parents op)) pending)"
  using assms by (induction pending arbitrary: ch) (auto simp: children_inner)

lemma childrenOf_map:
  assumes "\<forall>(h, op) \<in> set pending. distinct (op_parents op)"
  shows "childrenOf (children_map pending) q = map fst (filter (\<lambda>(h, op). q \<in> set (op_parents op)) pending)"
  using children_outer [OF assms, of "[]" q] by (simp add: children_map_def childrenOf_def)

lemma set_new_Set [simp]: "set (new_Set xs) = set xs"
proof -
  have "set (fold set_add xs acc) = set xs \<union> set acc" for acc by (induction xs arbitrary: acc) auto
  then show ?thesis by (simp add: new_Set_def)
qed

lemma release_props:
  "distinct cs \<Longrightarrow> release hash cs w r = (w', r') \<Longrightarrow>
     r' = r @ filter (\<lambda>c. set_delete hash (the (map_of w c)) = []) cs \<and>
     (\<forall>h. map_of w' h = (if h \<in> set cs then Some (set_delete hash (the (map_of w h))) else map_of w h))"
proof (induction hash cs w r rule: release.induct)
  case (2 hash c cs w r)
  let ?ps = "set_delete hash (the (map_of w c))"
  have m: "map_of (AList.update c ?ps w) h = (if h = c then Some ?ps else map_of w h)" for h
    by (simp add: update_conv')
  have ne: "x \<noteq> c" if "x \<in> set cs" for x using 2 that by auto
  have f: "filter (\<lambda>x. set_delete hash (the (map_of (AList.update c ?ps w) x)) = []) cs
      = filter (\<lambda>x. set_delete hash (the (map_of w x)) = []) cs"
    using ne by (intro filter_cong) (auto simp: m)
  from 2 have "r' = (if ?ps = [] then r @ [c] else r) @
      filter (\<lambda>x. set_delete hash (the (map_of (AList.update c ?ps w) x)) = []) cs \<and>
     (\<forall>h. map_of w' h = (if h \<in> set cs then Some (set_delete hash (the (map_of (AList.update c ?ps w) h)))
        else map_of (AList.update c ?ps w) h))"
    by (simp add: Let_def)
  then show ?case using 2 ne unfolding f by (auto simp: m)
qed auto

text \<open>The state of the loop after the digests \<open>E\<close> were ordered.\<close>

definition order_state :: "(string, operation) jsmap \<Rightarrow> (string, string list) jsmap \<Rightarrow> string list \<Rightarrow> string set \<Rightarrow> string set \<Rightarrow> (string \<Rightarrow> string set) \<Rightarrow> bool" where
  "order_state pending waiting ready E K P \<longleftrightarrow>
     E \<subseteq> K \<and> (\<forall>h \<in> E. P h \<subseteq> E) \<and> sorted ready \<and> distinct ready \<and>
     set ready = {h \<in> K - E. P h \<subseteq> E} \<and>
     (\<forall>h \<in> K - E. \<exists>ws. map_of waiting h = Some ws \<and> set ws = P h - E)"

lemma order_state_step:
  assumes st: "order_state pending waiting (hash # rest) E K P"
    and cs: "distinct cs" "set cs = {h \<in> K. hash \<in> P h}"
    and rel: "release hash cs waiting rest = (waiting', ready')"
  shows "order_state pending waiting' (sort ready') (insert hash E) K P"
proof -
  let ?E = "insert hash E"
  from st have h: "hash \<in> K - E" "P hash \<subseteq> E" and E: "E \<subseteq> K" "\<forall>h \<in> E. P h \<subseteq> E"
    and d: "distinct rest" "hash \<notin> set rest"
    and ready: "insert hash (set rest) = {h \<in> K - E. P h \<subseteq> E}"
    and w: "\<forall>h \<in> K - E. \<exists>ws. map_of waiting h = Some ws \<and> set ws = P h - E"
    by (auto simp: order_state_def)
  from release_props [OF cs(1) rel]
  have r': "ready' = rest @ filter (\<lambda>c. set_delete hash (the (map_of waiting c)) = []) cs"
    and w': "\<And>h. map_of waiting' h = (if h \<in> set cs then Some (set_delete hash (the (map_of waiting h))) else map_of waiting h)"
    by auto
  have child: "c \<in> K - ?E" if "c \<in> set cs" for c using that cs h E by auto
  have emp: "set_delete hash (the (map_of waiting c)) = [] \<longleftrightarrow> P c \<subseteq> ?E" if "c \<in> set cs" for c
  proof -
    from child [OF that] w obtain ws where "map_of waiting c = Some ws" "set ws = P c - E" by auto
    moreover have "xs = [] \<longleftrightarrow> set xs = {}" for xs :: "string list" by simp
    ultimately show ?thesis by (auto simp flip: set_empty)
  qed
  have rest: "set rest = {h \<in> K - ?E. P h \<subseteq> E}" using ready d h by auto
  have set': "set ready' = {h \<in> K - ?E. P h \<subseteq> ?E}"
  proof (intro equalityI subsetI)
    fix x assume "x \<in> set ready'"
    then show "x \<in> {h \<in> K - ?E. P h \<subseteq> ?E}" using rest child emp by (auto simp: r')
  next
    fix x assume "x \<in> {h \<in> K - ?E. P h \<subseteq> ?E}"
    then show "x \<in> set ready'" using rest cs(2) emp by (cases "hash \<in> P x") (auto simp: r')
  qed
  have "distinct ready'" using d cs(1) rest cs(2) h by (auto simp: r')
  moreover have "\<exists>ws. map_of waiting' x = Some ws \<and> set ws = P x - ?E" if "x \<in> K - ?E" for x
  proof -
    from that w obtain ws where "map_of waiting x = Some ws" "set ws = P x - E" by auto
    with that cs(2) show ?thesis by (cases "x \<in> set cs") (auto simp: w')
  qed
  ultimately show ?thesis using h E set' by (auto simp: order_state_def)
qed

lemma order_state_minimum:
  assumes "order_state pending waiting (hash # rest) E K P"
  shows "hash \<in> K - E \<and> P hash \<subseteq> E \<and> (\<forall>h \<in> K - E. P h \<subseteq> E \<longrightarrow> hash \<le> h)"
proof -
  from assms have r: "insert hash (set rest) = {h \<in> K - E. P h \<subseteq> E}" and s: "\<forall>h \<in> set rest. hash \<le> h"
    by (auto simp: order_state_def)
  have "hash \<le> h" if "h \<in> K - E" "P h \<subseteq> E" for h
  proof -
    have "h \<in> insert hash (set rest)" using r that by blast
    then show ?thesis using s by auto
  qed
  then show ?thesis using r by blast
qed

lemma order_loop_Nil: "order_loop pending children waiting [] ordered = Some ordered"
  by (simp add: order_loop.simps)

lemma order_loop_Cons:
  "order_loop pending children waiting (hash # rs) ordered =
     order_loop pending children (fst (release hash (childrenOf children hash) waiting rs))
       (sort (snd (release hash (childrenOf children hash) waiting rs)))
       (ordered @ [the (map_of pending hash)])"
  by (subst order_loop.simps) (simp add: Let_def)

lemma order_loop_canonical:
  assumes "order_state pending waiting ready E K P" and fin: "finite K"
    and cs: "\<And>p. distinct (childrenOf children p) \<and> set (childrenOf children p) = {h \<in> K. p \<in> P h}"
    and ids: "\<And>h. h \<in> K \<Longrightarrow> op_hash (the (map_of pending h)) = h"
  shows "\<exists>rest. order_loop pending children waiting ready ordered = Some (ordered @ rest) \<and>
      canonical K P E (map op_hash rest) \<and> (\<forall>op \<in> set rest. op = the (map_of pending (op_hash op)))"
  using assms(1)
proof (induction "card (K - E)" arbitrary: waiting ready E ordered rule: less_induct)
  case less
  show ?case
  proof (cases ready)
    case Nil
    with less.prems have "{h \<in> K - E. P h \<subseteq> E} = {}" by (simp add: order_state_def)
    then have "canonical K P E (map op_hash [])" by auto
    then show ?thesis using Nil by (intro exI [of _ "[]"]) (simp add: order_loop_Nil)
  next
    case (Cons hash rs)
    let ?r = "release hash (childrenOf children hash) waiting rs"
    have st: "order_state pending (fst ?r) (sort (snd ?r)) (insert hash E) K P"
      by (rule order_state_step [where cs = "childrenOf children hash"])
        (use less.prems Cons cs [of hash] in auto)
    from order_state_minimum [of pending waiting hash rs E K P] less.prems Cons
    have m: "hash \<in> K - E" "P hash \<subseteq> E" "\<forall>h \<in> K - E. P h \<subseteq> E \<longrightarrow> hash \<le> h" by auto
    have "K - insert hash E \<subset> K - E" using m by blast
    then have "card (K - insert hash E) < card (K - E)"
      using fin by (intro psubset_card_mono) auto
    from less.hyps [OF this st] obtain rest where rest:
      "order_loop pending children (fst ?r) (sort (snd ?r)) (ordered @ [the (map_of pending hash)])
         = Some ((ordered @ [the (map_of pending hash)]) @ rest)"
      "canonical K P (insert hash E) (map op_hash rest)"
      "\<forall>op \<in> set rest. op = the (map_of pending (op_hash op))" by blast
    show ?thesis
      using rest m ids [of hash] Cons
      by (intro exI [of _ "the (map_of pending hash) # rest"])
        (simp add: order_loop_Cons)
  qed
qed

text \<open>Every operation names each parent once, which its builder guarantees.\<close>

definition distinct_parents :: "operation list \<Rightarrow> bool" where
  "distinct_parents ops \<longleftrightarrow> (\<forall>op \<in> set ops. distinct (op_parents op))"

lemma resolvable_in: "(h, op) \<in> set (resolvable ops) \<Longrightarrow> op \<in> set ops \<and> op_hash op = h \<and> rooted ops h"
proof -
  assume a: "(h, op) \<in> set (resolvable ops)"
  then have "map_of (knownOf ops) h = Some op" using resolvable_subset by auto
  moreover have "h \<in> fst ` set (resolvable ops)" using a by force
  ultimately show ?thesis using keys_resolvable known_hash by blast
qed

lemma orderOf_canonical:
  assumes d: "distinct_parents ops"
  shows "\<exists>xs. orderOf ops = Some xs \<and> canonical {h. rooted ops h} (parents_in ops) {} (map op_hash xs)
    \<and> (\<forall>op \<in> set xs. map_of (knownOf ops) (op_hash op) = Some op)"
proof -
  let ?p = "resolvable ops" and ?K = "{h. rooted ops h}" and ?P = "parents_in ops"
  let ?w = "map (\<lambda>(hash, op). (hash, new_Set (op_parents op))) ?p"
  let ?ready = "sort (map fst (filter (\<lambda>(hash, parents). parents = []) ?w))"
  have dp: "\<forall>(h, op) \<in> set ?p. distinct (op_parents op)"
    using d by (auto simp: distinct_parents_def dest: resolvable_in)
  have P: "?P h = set (op_parents op)" if "(h, op) \<in> set ?p" for h op
  proof -
    from that have "map_of (knownOf ops) h = Some op" using resolvable_subset by auto
    then show ?thesis by (simp add: parents_in_def)
  qed
  have in_p: "\<exists>op. (h, op) \<in> set ?p" if "h \<in> ?K" for h
  proof -
    from that have "h \<in> fst ` set ?p" by (simp add: keys_resolvable)
    then show ?thesis by force
  qed
  have ids: "op_hash (the (map_of ?p h)) = h" if "h \<in> ?K" for h
    using in_p [OF that] resolvable_in by fastforce
  have cs: "distinct (childrenOf (children_map ?p) q) \<and> set (childrenOf (children_map ?p) q) = {h \<in> ?K. q \<in> ?P h}" for q
  proof
    show "distinct (childrenOf (children_map ?p) q)"
      by (simp add: childrenOf_map [OF dp] distinct_map_filter)
    show "set (childrenOf (children_map ?p) q) = {h \<in> ?K. q \<in> ?P h}"
    proof (intro equalityI subsetI)
      fix h assume "h \<in> set (childrenOf (children_map ?p) q)"
      then obtain op where "(h, op) \<in> set ?p" "q \<in> set (op_parents op)"
        by (auto simp: childrenOf_map [OF dp])
      then show "h \<in> {h \<in> ?K. q \<in> ?P h}" using P resolvable_in by auto
    next
      fix h assume h: "h \<in> {h \<in> ?K. q \<in> ?P h}"
      then obtain op where "(h, op) \<in> set ?p" using in_p by auto
      then show "h \<in> set (childrenOf (children_map ?p) q)"
        using h P by (force simp: childrenOf_map [OF dp])
    qed
  qed
  have w: "map_of ?w h = map_option (\<lambda>op. new_Set (op_parents op)) (map_of ?p h)" for h
    by (induction ?p) (auto simp: map_of_map)
  have ready: "map fst (filter (\<lambda>(hash, parents). parents = []) ?w) = map fst (filter (\<lambda>(h, op). new_Set (op_parents op) = []) ?p)"
    by (simp add: filter_map o_def split_def)
  have empty: "new_Set xs = [] \<longleftrightarrow> xs = []" for xs :: "string list"
    by (metis set_empty set_new_Set)
  have set_ready: "set ?ready = {h \<in> ?K. ?P h \<subseteq> {}}"
  proof (intro equalityI subsetI)
    fix h assume "h \<in> set ?ready"
    then obtain op where "(h, op) \<in> set ?p" "op_parents op = []" unfolding ready by (auto simp: empty)
    then show "h \<in> {h \<in> ?K. ?P h \<subseteq> {}}" using P resolvable_in by auto
  next
    fix h assume h: "h \<in> {h \<in> ?K. ?P h \<subseteq> {}}"
    then obtain op where "(h, op) \<in> set ?p" using in_p by auto
    then show "h \<in> set ?ready" using h P unfolding ready by (force simp: empty)
  qed
  have "order_state ?p ?w ?ready {} ?K ?P"
    unfolding order_state_def
  proof (intro conjI)
    show "distinct ?ready" unfolding ready by (simp add: distinct_map_filter)
    show "\<forall>h \<in> ?K - {}. \<exists>ws. map_of ?w h = Some ws \<and> set ws = ?P h - {}"
    proof
      fix h assume "h \<in> ?K - {}"
      then obtain op where op: "(h, op) \<in> set ?p" using in_p by auto
      then show "\<exists>ws. map_of ?w h = Some ws \<and> set ws = ?P h - {}" using P [OF op] by (simp add: w)
    qed
  qed (use set_ready in auto)
  from order_loop_canonical [OF this rooted_dag.finite_digests cs ids, of "[]"]
  obtain xs where xs: "orderOf ops = Some xs" "canonical ?K ?P {} (map op_hash xs)"
    "\<forall>op \<in> set xs. op = the (map_of ?p (op_hash op))" by (auto simp: orderOf_def Let_def)
  have "map_of (knownOf ops) (op_hash op) = Some op" if "op \<in> set xs" for op
  proof -
    have "op_hash op \<in> ?K" using canonical_subset [OF xs(2)] that by auto
    then obtain op' where "(op_hash op, op') \<in> set ?p" using in_p by blast
    then have "map_of ?p (op_hash op) = Some op'" by simp
    then show ?thesis using xs(3) that map_of_resolvable [of ops "op_hash op"] by (auto split: if_splits)
  qed
  with xs show ?thesis by blast
qed

section \<open>What follows for the order\<close>

declare known_distinct [simp del] resolvable_distinct [simp del]

text \<open>
  The order is a function of the operations known under each digest alone, and only of those
  whose past is known.
\<close>

lemma canonical_cong:
  assumes "\<And>h. h \<in> K \<Longrightarrow> P h = P' h"
  shows "canonical K P E xs = canonical K P' E xs"
proof (induction xs arbitrary: E)
  case Nil
  show ?case using assms by auto
next
  case (Cons x xs)
  show ?case unfolding canonical.simps Cons using assms by auto
qed

lemma orderOf_cong_rooted:
  assumes r: "\<And>h. rooted ops h = rooted ops' h"
    and k: "\<And>h. rooted ops h \<Longrightarrow> map_of (knownOf ops) h = map_of (knownOf ops') h"
    and d: "distinct_parents ops" "distinct_parents ops'"
  shows "orderOf ops = orderOf ops'"
proof -
  have K: "{h. rooted ops h} = {h. rooted ops' h}" by (simp only: r)
  have P: "parents_in ops h = parents_in ops' h" if "h \<in> {h. rooted ops h}" for h
    using k [of h] that by (simp only: parents_in_def mem_Collect_eq)
  obtain xs where xs: "orderOf ops = Some xs \<and> canonical {h. rooted ops h} (parents_in ops) {} (map op_hash xs)
    \<and> (\<forall>op \<in> set xs. map_of (knownOf ops) (op_hash op) = Some op)" using orderOf_canonical [OF d(1)] ..
  obtain ys where ys: "orderOf ops' = Some ys \<and> canonical {h. rooted ops' h} (parents_in ops') {} (map op_hash ys)
    \<and> (\<forall>op \<in> set ys. map_of (knownOf ops') (op_hash op) = Some op)" using orderOf_canonical [OF d(2)] ..
  have "canonical {h. rooted ops h} (parents_in ops) {} (map op_hash ys)"
    using canonical_cong [of "{h. rooted ops h}" "parents_in ops" "parents_in ops'" "{}" "map op_hash ys", OF P] ys K
    by (simp only:)
  then have m: "map op_hash xs = map op_hash ys"
    by (rule canonical_unique [rotated]) (simp add: xs)
  have dig: "set (map op_hash xs) = {h. rooted ops h}"
    using rooted_dag.canonical_complete [of ops "{}" "map op_hash xs"] xs by simp
  have known: "map_of (knownOf ops) (op_hash z) = Some z" if z: "z \<in> set xs \<union> set ys" for z
  proof -
    have "op_hash z \<in> set (map op_hash xs)" using z m by (metis UnE image_eqI set_map)
    then have "map_of (knownOf ops) (op_hash z) = map_of (knownOf ops') (op_hash z)" using k dig by simp
    then show ?thesis using z bspec [OF conjunct2 [OF conjunct2 [OF xs]]] bspec [OF conjunct2 [OF conjunct2 [OF ys]]]
      by (elim UnE) (simp_all only:)
  qed
  have "xs = ys"
  proof (rule map_inj_on [OF m], rule inj_onI)
    fix x y assume x: "x \<in> set xs \<union> set ys" and y: "y \<in> set xs \<union> set ys" and h: "op_hash x = op_hash y"
    from known [OF x] known [OF y] show "x = y" unfolding h by (rule trans [OF sym, THEN option.inject [THEN iffD1]])
  qed
  then show ?thesis by (simp add: xs ys)
qed

lemma rooted_cong:
  assumes "map_of (knownOf ops) = map_of (knownOf ops')" and "rooted ops h"
  shows "rooted ops' h"
  using assms(2) by induction (use assms(1) in \<open>auto intro: rootedI\<close>)

lemma orderOf_cong:
  assumes k: "map_of (knownOf ops) = map_of (knownOf ops')"
    and d: "distinct_parents ops" "distinct_parents ops'"
  shows "orderOf ops = orderOf ops'"
proof (rule orderOf_cong_rooted [OF _ _ d])
  show "rooted ops h = rooted ops' h" for h
    by (rule iffI) (erule rooted_cong [OF k], erule rooted_cong [OF k [symmetric]])
  show "map_of (knownOf ops) h = map_of (knownOf ops') h" for h by (simp only: k)
qed

lemma known_cong:
  assumes "inj_on op_hash (set ops)" and "set ops = set ops'"
  shows "map_of (knownOf ops) = map_of (knownOf ops')"
proof
  fix h
  show "map_of (knownOf ops) h = map_of (knownOf ops') h"
  proof (cases "map_of (knownOf ops) h")
    case None
    then have "h \<notin> op_hash ` set ops'" using assms(2) by (simp add: map_of_eq_None_iff)
    then have "map_of (knownOf ops') h = None" by (simp add: map_of_eq_None_iff)
    with None show ?thesis by (simp only:)
  next
    case (Some op)
    then show ?thesis using assms known_iff [of ops h op] known_iff [of ops' h op] by simp
  qed
qed

text \<open>A list of operations in an order where parents come first, each digest once.\<close>

definition causal :: "operation list \<Rightarrow> bool" where
  "causal xs \<longleftrightarrow> distinct (map op_hash xs) \<and>
     (\<forall>us op vs. xs = us @ op # vs \<longrightarrow> set (op_parents op) \<subseteq> op_hash ` set us)"

lemma orderOf_causal:
  assumes d: "distinct_parents ops" and r: "orderOf ops = Some xs"
  shows "causal xs"
proof -
  from orderOf_canonical [OF d] r
  have c: "canonical {h. rooted ops h} (parents_in ops) {} (map op_hash xs)"
    and k: "\<forall>op \<in> set xs. map_of (knownOf ops) (op_hash op) = Some op" by auto
  show ?thesis unfolding causal_def
  proof (intro conjI allI impI)
    show "distinct (map op_hash xs)" using canonical_subset [OF c] by simp
    fix us op vs assume xs: "xs = us @ op # vs"
    have "parents_in ops (op_hash op) = set (op_parents op)"
      using k xs by (simp add: parents_in_def)
    then show "set (op_parents op) \<subseteq> op_hash ` set us"
      using canonical_parents_first [of "{h. rooted ops h}" "parents_in ops" "{}" "map op_hash us" "op_hash op" "map op_hash vs"] c xs by simp
  qed
qed

lemma orderOf_members:
  assumes d: "distinct_parents ops" and r: "orderOf ops = Some xs"
  shows "op \<in> set xs \<longleftrightarrow> rooted ops (op_hash op) \<and> map_of (knownOf ops) (op_hash op) = Some op"
proof -
  from orderOf_canonical [OF d] r
  have c: "canonical {h. rooted ops h} (parents_in ops) {} (map op_hash xs)"
    and k: "\<forall>op \<in> set xs. map_of (knownOf ops) (op_hash op) = Some op" by auto
  have e: "op_hash ` set xs = {h. rooted ops h}" using rooted_dag.canonical_complete [OF c] by auto
  show ?thesis
  proof
    assume "op \<in> set xs"
    then show "rooted ops (op_hash op) \<and> map_of (knownOf ops) (op_hash op) = Some op"
      using e k by blast
  next
    assume a: "rooted ops (op_hash op) \<and> map_of (knownOf ops) (op_hash op) = Some op"
    then have "op_hash op \<in> op_hash ` set xs" using e by simp
    then obtain x where x: "x \<in> set xs" "op_hash x = op_hash op" by auto
    then have "map_of (knownOf ops) (op_hash op) = Some x" using k by force
    then show "op \<in> set xs" using a x(1) by simp
  qed
qed

lemma orderOf_subset:
  "distinct_parents ops \<Longrightarrow> orderOf ops = Some xs \<Longrightarrow> set xs \<subseteq> set ops"
  using orderOf_members known_hash by blast

lemma causal_closed:
  assumes "causal xs" and "op \<in> set xs"
  shows "set (op_parents op) \<subseteq> op_hash ` set xs"
proof -
  from assms(2) obtain us vs where "xs = us @ op # vs" by (meson split_list)
  with assms(1) have "set (op_parents op) \<subseteq> op_hash ` set us" by (auto simp: causal_def)
  then show ?thesis by (auto simp: \<open>xs = us @ op # vs\<close>)
qed

lemma causal_prefix: "causal (us @ vs) \<Longrightarrow> causal us"
  by (auto simp: causal_def)

lemma causal_inj: "causal xs \<Longrightarrow> inj_on op_hash (set xs)"
  by (simp add: causal_def distinct_map)

lemma causal_known: "causal xs \<Longrightarrow> map_of (knownOf xs) h = Some op \<longleftrightarrow> op \<in> set xs \<and> op_hash op = h"
  by (rule known_iff) (rule causal_inj)

text \<open>Nothing is left out of a set of operations closed under parents and without cycles.\<close>

lemma causal_rooted:
  assumes "causal xs" and "h \<in> op_hash ` set xs"
  shows "rooted xs h"
proof -
  have "op \<in> set us \<Longrightarrow> xs = us @ vs \<Longrightarrow> rooted xs (op_hash op)" for us vs op
  proof (induction us arbitrary: vs op rule: rev_induct)
    case (snoc y us)
    have c: "causal (us @ y # vs)" using assms(1) snoc.prems(2) by simp
    have ih: "rooted xs (op_hash z)" if "z \<in> set us" for z
      using snoc.IH [of z "y # vs"] that snoc.prems(2) by simp
    show ?case
    proof (cases "op \<in> set us")
      case False
      then have [simp]: "op = y" using snoc.prems by simp
      have "set (op_parents y) \<subseteq> op_hash ` set us" using c by (simp add: causal_def)
      then have "rooted xs p" if "p \<in> set (op_parents y)" for p using that ih by auto
      moreover have "map_of (knownOf xs) (op_hash y) = Some y"
        using causal_known [OF assms(1)] snoc.prems by simp
      ultimately show ?thesis by (auto intro: rootedI)
    qed (use ih in auto)
  qed simp
  from this [of _ xs "[]"] show ?thesis using assms(2) by auto
qed

text \<open>Ordering what was ordered changes nothing, so what has an unknown past never matters.\<close>

lemma orderOf_idem:
  assumes d: "distinct_parents ops" and r: "orderOf ops = Some xs"
  shows "orderOf xs = Some xs"
proof -
  have c: "causal xs" by (rule orderOf_causal [OF d r])
  have mem: "op \<in> set xs \<longleftrightarrow> rooted ops (op_hash op) \<and> map_of (knownOf ops) (op_hash op) = Some op" for op
    by (rule orderOf_members [OF d r])
  have "orderOf xs = orderOf ops"
  proof (rule orderOf_cong_rooted)
    show rt: "rooted xs h = rooted ops h" for h
    proof
      assume "rooted xs h"
      then have "h \<in> op_hash ` set xs" by (rule rooted_known)
      then show "rooted ops h" using mem by auto
    next
      assume h: "rooted ops h"
      then obtain op where op: "map_of (knownOf ops) h = Some op" using rooted_some by blast
      then have "op \<in> set xs" using mem [of op] h known_hash [OF op] by simp
      then show "rooted xs h" using causal_rooted [OF c] known_hash [OF op] by blast
    qed
    show "map_of (knownOf xs) h = map_of (knownOf ops) h" if "rooted xs h" for h
    proof -
      from that rt have h: "rooted ops h" by simp
      then obtain op where op: "map_of (knownOf ops) h = Some op" using rooted_some by blast
      then have "op \<in> set xs \<and> op_hash op = h" using mem [of op] h known_hash [OF op] by simp
      then show ?thesis using causal_known [OF c] op by simp
    qed
    show "distinct_parents xs" using d orderOf_subset [OF d r] by (auto simp: distinct_parents_def)
  qed (rule d)
  then show ?thesis using r by simp
qed

section \<open>Closures\<close>

definition causes :: "operation list \<Rightarrow> string \<Rightarrow> string \<Rightarrow> bool" where
  "causes ops p h \<longleftrightarrow> p \<in> parents_in ops h"

text \<open>The digests in the causal past of \<open>parents\<close>, inclusive.\<close>

definition past :: "operation list \<Rightarrow> string list \<Rightarrow> string set" where
  "past ops parents = {h. \<exists>q \<in> set parents. (causes ops)\<^sup>*\<^sup>* h q}"

lemma past_subset:
  assumes "set parents \<subseteq> E" and "\<And>h. h \<in> E \<Longrightarrow> parents_in ops h \<subseteq> E"
  shows "past ops parents \<subseteq> E"
proof
  fix h assume "h \<in> past ops parents"
  then obtain q where "(causes ops)\<^sup>*\<^sup>* h q" "q \<in> set parents" by (auto simp: past_def)
  then show "h \<in> E"
    by (induction rule: converse_rtranclp_induct) (use assms in \<open>auto simp: causes_def\<close>)
qed

lemma past_parents: "set parents \<subseteq> past ops parents"
  by (auto simp: past_def)

lemma past_closed: "h \<in> past ops parents \<Longrightarrow> parents_in ops h \<subseteq> past ops parents"
  unfolding past_def by (auto simp: causes_def) (metis causes_def converse_rtranclp_into_rtranclp)

lemma closure_loop_Inr:
  assumes "closure_loop known stack closure = Inr cl"
    and "distinct (map fst closure)"
    and "\<forall>(h, op) \<in> set closure. map_of known h = Some op"
    and "\<forall>(h, op) \<in> set closure. set (op_parents op) \<subseteq> fst ` set closure \<union> set stack"
    and "E \<supseteq> fst ` set closure \<union> set stack"
    and "\<And>h op. h \<in> E \<Longrightarrow> map_of known h = Some op \<Longrightarrow> set (op_parents op) \<subseteq> E"
  shows "\<exists>m. cl = map snd m \<and> distinct (map fst m) \<and> (\<forall>(h, op) \<in> set m. map_of known h = Some op) \<and>
    (\<forall>(h, op) \<in> set m. set (op_parents op) \<subseteq> fst ` set m) \<and>
    fst ` set closure \<union> set stack \<subseteq> fst ` set m \<and> fst ` set m \<subseteq> E"
  using assms
proof (induction known stack closure rule: closure_loop.induct)
  case (1 known closure)
  then show ?case by (intro exI [of _ closure]) auto
next
  case (2 known hash stack closure)
  then obtain op where op: "map_of known hash = Some op" by (auto split: option.splits)
  show ?case
  proof (cases "map_of closure hash = None")
    case True
    then have n: "hash \<notin> fst ` set closure" by (simp add: map_of_eq_None_iff)
    have "\<exists>m. cl = map snd m \<and> distinct (map fst m) \<and> (\<forall>(h, op) \<in> set m. map_of known h = Some op) \<and>
      (\<forall>(h, op) \<in> set m. set (op_parents op) \<subseteq> fst ` set m) \<and>
      fst ` set (AList.update hash op closure) \<union> set (rev (op_parents op) @ stack) \<subseteq> fst ` set m \<and> fst ` set m \<subseteq> E"
    proof (rule "2.IH"(1) [OF op True])
      show "closure_loop known (rev (op_parents op) @ stack) (AList.update hash op closure) = Inr cl"
        using "2.prems"(1) op True by simp
      show "distinct (map fst (AList.update hash op closure))" using "2.prems"(2) n by (simp add: update_new)
      show "\<forall>(h, op) \<in> set (AList.update hash op closure). map_of known h = Some op"
        using "2.prems"(3) op n by (auto simp: update_new)
      show "\<forall>(h, op') \<in> set (AList.update hash op closure).
          set (op_parents op') \<subseteq> fst ` set (AList.update hash op closure) \<union> set (rev (op_parents op) @ stack)"
        using "2.prems"(4) n by (fastforce simp: update_new)
      show "fst ` set (AList.update hash op closure) \<union> set (rev (op_parents op) @ stack) \<subseteq> E"
        using "2.prems"(5) "2.prems"(6) [OF _ op] by (simp add: update_new [OF n])
    qed (rule "2.prems"(6))
    then show ?thesis by (simp add: update_new [OF n]) blast
  next
    case False
    then have i: "hash \<in> fst ` set closure" by (simp add: map_of_eq_None_iff)
    have "\<exists>m. cl = map snd m \<and> distinct (map fst m) \<and> (\<forall>(h, op) \<in> set m. map_of known h = Some op) \<and>
      (\<forall>(h, op) \<in> set m. set (op_parents op) \<subseteq> fst ` set m) \<and>
      fst ` set closure \<union> set stack \<subseteq> fst ` set m \<and> fst ` set m \<subseteq> E"
    proof (rule "2.IH"(2) [OF op False])
      show "closure_loop known stack closure = Inr cl" using "2.prems"(1) op False by simp
      show "\<forall>(h, op) \<in> set closure. set (op_parents op) \<subseteq> fst ` set closure \<union> set stack"
        using "2.prems"(4) i by (simp add: insert_absorb)
      show "fst ` set closure \<union> set stack \<subseteq> E" using "2.prems"(5) by simp
    qed (rule "2.prems")+
    moreover have "fst ` set closure \<union> set (hash # stack) = fst ` set closure \<union> set stack"
      using i by auto
    ultimately show ?thesis by (simp only:)
  qed
qed

lemma closure_loop_total:
  assumes "set stack \<subseteq> fst ` set known" and "\<forall>(h, op) \<in> set known. set (op_parents op) \<subseteq> fst ` set known"
  shows "\<exists>cl. closure_loop known stack closure = Inr cl"
  using assms
proof (induction known stack closure rule: closure_loop.induct)
  case (2 known hash stack closure)
  then have "hash \<in> fst ` set known" by simp
  then obtain op where op: "map_of known hash = Some op"
    by (metis domD dom_map_of_conv_image_fst)
  then have p: "set (op_parents op) \<subseteq> fst ` set known" using bspec [OF "2.prems"(2) map_of_SomeD [OF op]] by simp
  show ?case
  proof (cases "map_of closure hash = None")
    case True
    show ?thesis using "2.IH"(1) [OF op True] "2.prems" p op True by simp
  next
    case False
    then show ?thesis using "2.IH"(2) [OF op False] "2.prems" op by auto
  qed
qed simp

lemma closureOf_spec:
  assumes "closureOf ops parents = Inr cl"
  shows "distinct (map op_hash cl)"
    and "op \<in> set cl \<longleftrightarrow> map_of (knownOf ops) (op_hash op) = Some op \<and> op_hash op \<in> past ops parents"
    and "past ops parents = op_hash ` set cl"
proof -
  have "past ops parents \<supseteq> fst ` set ([] :: (string \<times> operation) list) \<union> set (rev parents)"
    using past_parents by simp
  from closure_loop_Inr [OF assms [unfolded closureOf_def] _ _ _ this]
  obtain m where m: "cl = map snd m" "distinct (map fst m)" "\<forall>(h, op) \<in> set m. map_of (knownOf ops) h = Some op"
    "\<forall>(h, op) \<in> set m. set (op_parents op) \<subseteq> fst ` set m" "set parents \<subseteq> fst ` set m"
    "fst ` set m \<subseteq> past ops parents"
    using past_closed by (fastforce simp: parents_in_def)
  have h: "op_hash op = h" if "(h, op) \<in> set m" for h op
    using m(3) that by (fastforce dest: known_hash)
  then have f: "map fst m = map op_hash cl" unfolding m(1) by (auto simp: o_def)
  have "parents_in ops h \<subseteq> fst ` set m" if "h \<in> fst ` set m" for h
    using that m(3,4) by (fastforce simp: parents_in_def)
  from past_subset [OF m(5) this] m(6) have e: "past ops parents = fst ` set m" by auto
  show "distinct (map op_hash cl)" using m(2) by (simp only: f)
  show "past ops parents = op_hash ` set cl" by (metis e f list.set_map)
  then show "op \<in> set cl \<longleftrightarrow> map_of (knownOf ops) (op_hash op) = Some op \<and> op_hash op \<in> past ops parents"
  proof (intro iffI conjI)
    assume "op \<in> set cl"
    then obtain h where "(h, op) \<in> set m" by (auto simp: m(1))
    then show "map_of (knownOf ops) (op_hash op) = Some op" using m(3) h by fastforce
  next
    assume a: "map_of (knownOf ops) (op_hash op) = Some op \<and> op_hash op \<in> past ops parents"
    then obtain op' where op': "(op_hash op, op') \<in> set m" using e by force
    then have "op' = op" using a m(3) by fastforce
    then show "op \<in> set cl" using op' by (force simp: m(1))
  qed auto
qed

lemma causal_parents_in:
  assumes "causal xs" and "op \<in> set xs"
  shows "parents_in xs (op_hash op) = set (op_parents op)"
proof -
  have "map_of (knownOf xs) (op_hash op) = Some op" using causal_known assms by blast
  then show ?thesis by (simp add: parents_in_def)
qed

lemma parents_in_causal: "causal xs \<Longrightarrow> parents_in xs h \<subseteq> op_hash ` set xs"
  unfolding parents_in_def using causal_closed causal_known by (auto split: option.splits)

lemma closureOf_total:
  assumes c: "causal xs" and p: "set parents \<subseteq> op_hash ` set xs"
  shows "\<exists>cl. closureOf xs parents = Inr cl"
  unfolding closureOf_def
proof (rule closure_loop_total)
  show "set (rev parents) \<subseteq> fst ` set (knownOf xs)" using p by simp
  show "\<forall>(h, op) \<in> set (knownOf xs). set (op_parents op) \<subseteq> fst ` set (knownOf xs)"
  proof clarify
    fix h op p assume "(h, op) \<in> set (knownOf xs)" and "p \<in> set (op_parents op)"
    moreover have "map_of (knownOf xs) h = Some op" using calculation(1) known_distinct by simp
    ultimately show "p \<in> fst ` set (knownOf xs)"
      using causal_known [OF c] causal_closed [OF c] by (simp only: keys_known) blast
  qed
qed

lemma causal_past_before:
  assumes c: "causal xs" and xs: "xs = us @ op # vs"
  shows "past xs (op_parents op) \<subseteq> op_hash ` set us"
proof (rule past_subset)
  show "set (op_parents op) \<subseteq> op_hash ` set us" using c xs by (auto simp: causal_def)
  fix h assume "h \<in> op_hash ` set us"
  then obtain x where x: "x \<in> set us" "h = op_hash x" by auto
  have "causal us" using c xs causal_prefix by blast
  from causal_closed [OF this x(1)] show "parents_in xs h \<subseteq> op_hash ` set us"
    using causal_parents_in [OF c, of x] x xs by simp
qed

lemma closure_of_parents:
  assumes c: "causal xs" and op: "op \<in> set xs"
  shows "\<exists>cl. closureOf xs (op_parents op) = Inr cl \<and> set cl \<subseteq> set xs - {op} \<and>
    op_hash ` set cl = past xs (op_parents op)"
proof -
  obtain cl where cl: "closureOf xs (op_parents op) = Inr cl"
    using closureOf_total [OF c causal_closed [OF c op]] by blast
  from op obtain us vs where xs: "xs = us @ op # vs" by (meson split_list)
  have "op_hash op \<notin> op_hash ` set us" using c by (auto simp: causal_def xs)
  then have "op \<notin> set cl" using causal_past_before [OF c xs] closureOf_spec(3) [OF cl] by auto
  moreover have "set cl \<subseteq> set xs" using closureOf_spec(2) [OF cl] causal_known [OF c] by blast
  ultimately show ?thesis using cl closureOf_spec(3) [OF cl] by blast
qed

text \<open>The closure is the same operations whatever list it is taken from.\<close>

lemma closure_known:
  assumes "closureOf ops parents = Inr cl" and "inj_on op_hash (set ops)"
  shows "map_of (knownOf cl) h = (if h \<in> past ops parents then map_of (knownOf ops) h else None)"
proof -
  have sub: "set cl \<subseteq> set ops" using closureOf_spec(2) [OF assms(1)] known_iff [OF assms(2)] by blast
  then have inj: "inj_on op_hash (set cl)" using assms(2) by (rule inj_on_subset [rotated])
  show ?thesis
  proof (cases "h \<in> past ops parents")
    case True
    then obtain op where op: "op \<in> set cl" "op_hash op = h" using closureOf_spec(3) [OF assms(1)] by auto
    then have "map_of (knownOf cl) h = Some op" "map_of (knownOf ops) h = Some op"
      using known_iff [OF inj] known_iff [OF assms(2)] sub by auto
    with True show ?thesis by simp
  next
    case False
    then have "h \<notin> op_hash ` set cl" using closureOf_spec(3) [OF assms(1)] by simp
    then have "map_of (knownOf cl) h = None" by (simp add: map_of_eq_None_iff)
    with False show ?thesis by (simp only: if_False)
  qed
qed

lemma frontierOf_spec:
  "set (frontierOf ops) = {h \<in> op_hash ` set ops. \<forall>op \<in> set ops. h \<notin> set (op_parents op)} \<and>
   sorted (frontierOf ops)"
  by (auto simp: frontierOf_def Let_def)

section \<open>Without assuming that parents are distinct\<close>

lemma release_ready: "set (snd (release hash cs w r)) \<subseteq> set r \<union> set cs"
proof (induction hash cs w r rule: release.induct)
  case (2 hash c cs w r)
  then show ?case by (auto simp: Let_def split: if_splits)
qed simp

lemma order_loop_values:
  assumes "order_loop pending children waiting ready ordered = Some xs"
    and "set ready \<subseteq> K" and "\<And>p. set (childrenOf children p) \<subseteq> K"
    and "set ordered \<subseteq> (\<lambda>h. the (map_of pending h)) ` K"
  shows "set xs \<subseteq> (\<lambda>h. the (map_of pending h)) ` K"
  using assms
proof (induction rule: order_loop.raw_induct [rotated, consumes 1])
  case (1 f pending children waiting ready ordered xs)
  show ?case
  proof (cases ready)
    case Nil
    then show ?thesis using 1 by simp
  next
    case (Cons hash rs)
    let ?r = "release hash (childrenOf children hash) waiting rs"
    have "f pending children (fst ?r) (sort (snd ?r)) (ordered @ [the (map_of pending hash)]) = Some xs"
      using 1(2) Cons by (simp add: Let_def)
    then show ?thesis
    proof (rule 1(1))
      show "set (sort (snd ?r)) \<subseteq> K"
        using release_ready [of hash "childrenOf children hash" waiting rs] 1(3,4) Cons by auto
    qed (use 1 Cons in auto)
  qed
qed

lemma children_map_subset:
  "set (childrenOf (children_map pending) q) \<subseteq> fst ` set pending"
proof -
  have inner: "set (childrenOf (fold (\<lambda>parent ch. AList.update parent (childrenOf ch parent @ [hash]) ch) ps ch) q)
      \<subseteq> insert hash (set (childrenOf ch q))" for hash ps ch
  proof (induction ps arbitrary: ch)
    case (Cons p ps)
    show ?case using Cons [of "AList.update p (childrenOf ch p @ [hash]) ch"]
      by (auto simp: childrenOf_update split: if_splits)
  qed auto
  have "set (childrenOf (fold (\<lambda>(hash, op) children.
       fold (\<lambda>parent ch. AList.update parent (childrenOf ch parent @ [hash]) ch) (op_parents op) children)
       xs ch) q) \<subseteq> fst ` set xs \<union> set (childrenOf ch q)" for xs ch
  proof (induction xs arbitrary: ch)
    case (Cons x xs)
    obtain h op where x: "x = (h, op)" by (cases x)
    show ?case using Cons [of "fold (\<lambda>parent ch. AList.update parent (childrenOf ch parent @ [h]) ch) (op_parents op) ch"]
        inner [of h "op_parents op" ch] by (auto simp: x)
  qed simp
  from this [of pending "[]"] show ?thesis by (simp add: children_map_def childrenOf_def)
qed

lemma orderOf_rooted:
  assumes r: "orderOf ops = Some xs" and x: "x \<in> set xs"
  shows "map_of (knownOf ops) (op_hash x) = Some x \<and> rooted ops (op_hash x)"
proof -
  let ?p = "resolvable ops"
  from r have "set xs \<subseteq> (\<lambda>h. the (map_of ?p h)) ` (fst ` set ?p)"
    unfolding orderOf_def Let_def
    by (rule order_loop_values) (auto simp: children_map_subset intro: rev_image_eqI)
  then have "x \<in> (\<lambda>h. the (map_of ?p h)) ` (fst ` set ?p)" using x by (rule subsetD)
  then obtain h where h: "x = the (map_of ?p h)" "h \<in> fst ` set ?p" by (rule imageE)
  then have k: "rooted ops h" by (simp add: keys_resolvable)
  then obtain op where op: "map_of (knownOf ops) h = Some op" using rooted_some by blast
  then have "map_of ?p h = Some op" using k by (simp add: map_of_resolvable)
  then have "x = op" using h(1) by simp
  then show ?thesis using op k known_hash [OF op] by simp
qed

text \<open>The closure of what an operation builds on never contains the operation: it is smaller.\<close>

lemma closure_smaller:
  assumes r: "orderOf ops = Some xs" and x: "x \<in> set xs" and cl: "closureOf xs (op_parents x) = Inr cl"
  shows "card (op_hash ` set cl) < card (op_hash ` set ops)"
proof -
  have k: "map_of (knownOf ops) (op_hash y) = Some y \<and> rooted ops (op_hash y)" if "y \<in> set xs" for y
    using orderOf_rooted [OF r that] .
  have c: "causes ops a b \<and> rooted ops b" if "causes xs a b" for a b
    using that k known_hash [of xs b]
    by (force simp: causes_def parents_in_def split: option.splits)
  have anc: "rooted_dag.ancestor ops a b" if "causes xs a b" for a b
    using c [OF that] by (auto simp: rooted_dag.ancestor_def causes_def)
  have "rooted_dag.ancestor ops a (op_hash x)" if "(causes xs)\<^sup>*\<^sup>* a q" and q: "q \<in> set (op_parents x)" for a q
    using that(1)
  proof (induction rule: converse_rtranclp_induct)
    case base
    have "q \<in> parents_in ops (op_hash x)" using k [OF x] q by (simp add: parents_in_def)
    then show ?case using k [OF x] by (auto simp: rooted_dag.ancestor_def)
  next
    case (step a b)
    then show ?case using anc [OF step.hyps(1)] by (auto simp: rooted_dag.ancestor_def)
  qed
  then have "op_hash x \<notin> past xs (op_parents x)"
    using rooted_dag.ancestor_irrefl [of "op_hash x" ops] k [OF x] by (auto simp: past_def)
  then have n: "op_hash x \<notin> op_hash ` set cl" using closureOf_spec(3) [OF cl] by simp
  have "set cl \<subseteq> set xs" using closureOf_spec(2) [OF cl] known_hash by blast
  moreover have "set xs \<subseteq> set ops" using k known_hash by blast
  ultimately have sub: "op_hash ` set cl \<subseteq> op_hash ` set ops" by (intro image_mono) blast
  moreover have "op_hash x \<in> op_hash ` set ops" using x \<open>set xs \<subseteq> set ops\<close> by blast
  ultimately have "op_hash ` set cl \<subset> op_hash ` set ops" using n by blast
  then show ?thesis by (intro psubset_card_mono) auto
qed

end
