(* ===== verification/OperationAncestry.thy ===== *)
theory OperationAncestry
  imports OperationGraph
begin

text \<open>
  Ancestry tests in one ordered set of operations:
  \<open>src/contexts/communities/domain/operations/CommunityOperationAncestry.ts\<close>. The two walks
  over an explicit stack terminate on every input; on an order where parents come first the
  test that never walks below the position of the earlier operation decides exactly the
  transitive parent relation.
\<close>

section \<open>The code\<close>

record ancestry =
  anc_positions :: "(string, nat) jsmap"
  anc_operations :: "(string, operation) jsmap"

definition new_Ancestry :: "operation list \<Rightarrow> ancestry" where
  "new_Ancestry ordered =
     \<lparr>anc_positions = jsmap_of (map (\<lambda>(position, op). (op_hash op, position)) (List.enumerate 0 ordered)),
      anc_operations = jsmap_of (map (\<lambda>op. (op_hash op, op)) ordered)\<rparr>"

definition anc_parentsOf :: "ancestry \<Rightarrow> string \<Rightarrow> string list" where
  "anc_parentsOf A hash = (case map_of (anc_operations A) hash of None \<Rightarrow> [] | Some op \<Rightarrow> op_parents op)"

definition above :: "ancestry \<Rightarrow> nat \<Rightarrow> string \<Rightarrow> bool" where
  "above A floor hash \<longleftrightarrow>
     (case map_of (anc_positions A) hash of None \<Rightarrow> -1 | Some position \<Rightarrow> int position) > int floor"

lemma above_known: "above A floor hash \<Longrightarrow> hash \<in> fst ` set (anc_positions A)"
  by (auto simp: above_def split: option.splits dest!: map_of_SomeD) force

text \<open>The \<open>while\<close> loop of \<open>walksTo\<close>; the stack is kept with its top first.\<close>

function walks_loop :: "ancestry \<Rightarrow> string \<Rightarrow> nat \<Rightarrow> string list \<Rightarrow> string list \<Rightarrow> bool" where
  "walks_loop A ancestor floor seen [] = False"
| "walks_loop A ancestor floor seen (hash # stack) =
     (if hash = ancestor then True
      else if hash \<notin> set seen \<and> above A floor hash
      then walks_loop A ancestor floor (set_add hash seen) (rev (anc_parentsOf A hash) @ stack)
      else walks_loop A ancestor floor seen stack)"
  by pat_completeness auto

termination
proof (relation "measures [\<lambda>(A, ancestor, floor, seen, stack). card (fst ` set (anc_positions A) - set seen),
    \<lambda>(A, ancestor, floor, seen, stack). length stack]", goal_cases)
  case (2 A ancestor floor seen hash stack)
  then have "card (fst ` set (anc_positions A) - insert hash (set seen)) < card (fst ` set (anc_positions A) - set seen)"
    using above_known [of A floor hash] by (intro card_Diff_insert_less) simp_all
  then show ?case by simp
qed auto

definition walksTo :: "ancestry \<Rightarrow> string \<Rightarrow> string \<Rightarrow> nat \<Rightarrow> bool" where
  "walksTo A ancestor op floor = walks_loop A ancestor floor [] (rev (anc_parentsOf A op))"

definition isAncestor :: "ancestry \<Rightarrow> string \<Rightarrow> string \<Rightarrow> bool" where
  "isAncestor A ancestor op =
     (case (map_of (anc_positions A) ancestor, map_of (anc_positions A) op) of
        (Some floor, Some position) \<Rightarrow> floor < position \<and> walksTo A ancestor op floor
      | _ \<Rightarrow> False)"

definition areConcurrent :: "ancestry \<Rightarrow> string \<Rightarrow> string \<Rightarrow> bool" where
  "areConcurrent A left right \<longleftrightarrow>
     left \<noteq> right \<and> \<not> isAncestor A left right \<and> \<not> isAncestor A right left"

definition mentioned :: "ancestry \<Rightarrow> string set" where
  "mentioned A = (\<Union>(h, op) \<in> set (anc_operations A). set (op_parents op))"

lemma parentsOf_mentioned: "set (anc_parentsOf A hash) \<subseteq> mentioned A"
proof (cases "map_of (anc_operations A) hash")
  case (Some op)
  then show ?thesis using map_of_SomeD [OF Some] by (force simp: anc_parentsOf_def mentioned_def)
qed (simp add: anc_parentsOf_def)

lemma finite_mentioned [simp]: "finite (mentioned A)"
  by (auto simp: mentioned_def)

function anc_closure_loop :: "ancestry \<Rightarrow> string list \<Rightarrow> string list \<Rightarrow> string list" where
  "anc_closure_loop A closure [] = closure"
| "anc_closure_loop A closure (hash # stack) =
     (if hash \<notin> set closure
      then anc_closure_loop A (set_add hash closure) (rev (anc_parentsOf A hash) @ stack)
      else anc_closure_loop A closure stack)"
  by pat_completeness auto

termination
proof (relation "measures [\<lambda>(A, closure, stack). card ((mentioned A \<union> set stack) - set closure),
    \<lambda>(A, closure, stack). length stack]", goal_cases)
  case (2 A closure hash stack)
  have "mentioned A \<union> set (rev (anc_parentsOf A hash) @ stack) - insert hash (set closure)
      \<subset> mentioned A \<union> set (hash # stack) - set closure"
    using 2 parentsOf_mentioned [of A hash] by auto
  then have "card (mentioned A \<union> set (rev (anc_parentsOf A hash) @ stack) - insert hash (set closure))
      < card (mentioned A \<union> set (hash # stack) - set closure)"
    by (intro psubset_card_mono) auto
  then show ?case by simp
next
  case (3 A closure hash stack)
  have "mentioned A \<union> set stack - set closure \<subseteq> mentioned A \<union> set (hash # stack) - set closure" by auto
  then have "card (mentioned A \<union> set stack - set closure) \<le> card (mentioned A \<union> set (hash # stack) - set closure)"
    by (intro card_mono) auto
  then show ?case by auto
qed simp

definition anc_closureOf :: "ancestry \<Rightarrow> string list \<Rightarrow> string list" where
  "anc_closureOf A hashes = anc_closure_loop A [] (rev (concat (map (anc_parentsOf A) hashes)))"

section \<open>The ancestry of a causal order\<close>

text \<open>\<open>a\<close> is in the closure of \<open>b\<close>: a parent of it, or a parent of one of its ancestors.\<close>

definition precedes :: "operation list \<Rightarrow> string \<Rightarrow> string \<Rightarrow> bool" where
  "precedes xs = (causes xs)\<^sup>+\<^sup>+"

lemma operations_known: "anc_operations (new_Ancestry xs) = knownOf xs"
  by (simp add: new_Ancestry_def knownOf_def)

lemma parentsOf_set: "set (anc_parentsOf (new_Ancestry xs) h) = parents_in xs h"
  by (simp add: anc_parentsOf_def parents_in_def operations_known split: option.split)

lemma map_of_distinct_rev: "distinct (map fst kvs) \<Longrightarrow> map_of (rev kvs) = map_of kvs"
  by (rule ext) (metis map_of_eq_Some_iff distinct_rev not_None_eq rev_map set_rev)

lemma enumerate_keys: "map fst (map (\<lambda>(position, op). (op_hash op, position)) (List.enumerate 0 xs)) = map op_hash xs"
proof -
  have "map fst (map (\<lambda>(position, op). (op_hash op, position)) (List.enumerate 0 xs))
      = map op_hash (map snd (List.enumerate 0 xs))"
    unfolding map_map by (rule map_cong) auto
  then show ?thesis by (simp only: map_snd_enumerate)
qed

lemma position_of:
  assumes c: "causal xs" and xs: "xs = us @ op # vs"
  shows "map_of (anc_positions (new_Ancestry xs)) (op_hash op) = Some (length us)"
proof -
  let ?ps = "map (\<lambda>(position, op). (op_hash op, position)) (List.enumerate 0 xs)"
  have d: "distinct (map fst ?ps)" using c by (simp only: enumerate_keys causal_def)
  have "(op_hash op, length us) \<in> set ?ps"
    by (auto simp: xs enumerate_append_eq)
  then show ?thesis using d by (simp add: new_Ancestry_def map_of_jsmap_of map_of_distinct_rev)
qed

lemma positions_keys: "fst ` set (anc_positions (new_Ancestry xs)) = op_hash ` set xs"
proof -
  have "fst ` set (anc_positions (new_Ancestry xs)) =
      set (map fst (map (\<lambda>(position, op). (op_hash op, position)) (List.enumerate 0 xs)))"
    by (simp only: new_Ancestry_def ancestry.simps keys_jsmap_of set_map)
  then show ?thesis by (simp only: enumerate_keys set_map)
qed

lemma walks_loop_sound:
  "walks_loop (new_Ancestry xs) a floor seen stack \<Longrightarrow> a \<in> past xs stack"
proof (induction "new_Ancestry xs" a floor seen stack rule: walks_loop.induct)
  case (2 ancestor floor seen hash stack)
  consider (found) "hash = ancestor"
    | (walk) "hash \<noteq> ancestor" "hash \<notin> set seen \<and> above (new_Ancestry xs) floor hash"
        "ancestor \<in> past xs (rev (anc_parentsOf (new_Ancestry xs) hash) @ stack)"
    | (skip) "ancestor \<in> past xs stack"
    using 2 by (auto split: if_splits)
  then show ?case
  proof cases
    case found
    then show ?thesis by (auto simp: past_def)
  next
    case walk
    have "past xs (rev (anc_parentsOf (new_Ancestry xs) hash) @ stack) \<subseteq> past xs (hash # stack)"
      by (rule past_subset)
        (use past_closed past_parents [of "hash # stack" xs] in \<open>auto simp: parentsOf_set\<close>)
    with walk show ?thesis by blast
  next
    case skip
    then show ?thesis by (auto simp: past_def)
  qed
qed simp

text \<open>When the walk fails, the visited digests contain everything above the floor.\<close>

lemma walks_loop_complete:
  assumes "\<not> walks_loop A a floor seen stack"
    and "\<forall>s \<in> set seen. s \<noteq> a \<and> set (anc_parentsOf A s) \<subseteq> set seen \<union> D \<union> set stack"
    and "\<forall>d \<in> D. d \<noteq> a \<and> \<not> above A floor d"
  shows "\<exists>M. set seen \<union> D \<union> set stack \<subseteq> M \<and> a \<notin> M \<and>
    (\<forall>x \<in> M. above A floor x \<longrightarrow> set (anc_parentsOf A x) \<subseteq> M)"
  using assms
proof (induction A a floor seen stack arbitrary: D rule: walks_loop.induct)
  case (1 A ancestor floor seen)
  then show ?case by (intro exI [of _ "set seen \<union> D"]) auto
next
  case (2 A ancestor floor seen hash stack)
  then have ne: "hash \<noteq> ancestor" by auto
  show ?case
  proof (cases "hash \<notin> set seen \<and> above A floor hash")
    case True
    have "\<exists>M. set (set_add hash seen) \<union> D \<union> set (rev (anc_parentsOf A hash) @ stack) \<subseteq> M \<and> ancestor \<notin> M \<and>
      (\<forall>x \<in> M. above A floor x \<longrightarrow> set (anc_parentsOf A x) \<subseteq> M)"
    proof (rule "2.IH"(1) [OF ne True])
      show "\<not> walks_loop A ancestor floor (set_add hash seen) (rev (anc_parentsOf A hash) @ stack)"
        using "2.prems"(1) ne True by simp
    qed (use "2.prems" ne in auto)
    then show ?thesis by auto
  next
    case False
    have walk: "\<not> walks_loop A ancestor floor seen stack" using "2.prems"(1) ne False by (simp split: if_splits)
    have "\<exists>D'. D \<subseteq> D' \<and> hash \<in> set seen \<union> D' \<and> (\<forall>d \<in> D'. d \<noteq> ancestor \<and> \<not> above A floor d)"
    proof (cases "hash \<in> set seen")
      case True
      then show ?thesis using "2.prems"(3) by (intro exI [of _ D]) simp
    next
      case unseen: False
      then have "\<not> above A floor hash" using False by simp
      then show ?thesis using "2.prems"(3) ne by (intro exI [of _ "insert hash D"]) auto
    qed
    then obtain D' where D': "D \<subseteq> D'" "hash \<in> set seen \<union> D'" "\<forall>d \<in> D'. d \<noteq> ancestor \<and> \<not> above A floor d"
      by blast
    have "\<forall>s \<in> set seen. s \<noteq> ancestor \<and> set (anc_parentsOf A s) \<subseteq> set seen \<union> D' \<union> set stack"
      using "2.prems"(2) D'(1,2) by fastforce
    from "2.IH"(2) [OF ne False walk this D'(3)] obtain M where M: "set seen \<union> D' \<union> set stack \<subseteq> M" "ancestor \<notin> M"
      "\<forall>x \<in> M. above A floor x \<longrightarrow> set (anc_parentsOf A x) \<subseteq> M" by blast
    have "set seen \<union> D \<union> set (hash # stack) \<subseteq> M" using M(1) D'(1,2) by auto
    with M(2,3) show ?thesis by blast
  qed
qed

lemma causal_split: "causal xs \<Longrightarrow> xs = us @ op # vs \<Longrightarrow> set (op_parents op) \<subseteq> op_hash ` set us"
  by (simp only: causal_def)

text \<open>In a causal order, what descends from a digest is above its position.\<close>

lemma causes_above:
  assumes c: "causal xs" and ab: "causes xs a b" and f: "map_of (anc_positions (new_Ancestry xs)) a = Some i"
  shows "above (new_Ancestry xs) i b"
proof -
  from ab obtain y where y: "y \<in> set xs" "op_hash y = b" "a \<in> set (op_parents y)"
    using causal_known [OF c] by (auto simp: causes_def parents_in_def split: option.splits)
  then obtain us vs where xs: "xs = us @ y # vs" by (meson split_list)
  then have "a \<in> op_hash ` set us" using causal_split [OF c] y(3) by blast
  then obtain x where x: "x \<in> set us" "op_hash x = a" by auto
  then obtain us1 us2 where us: "us = us1 @ x # us2" by (meson split_list)
  have "i = length us1" using position_of [OF c, of us1 x "us2 @ y # vs"] xs us x f by simp
  then show ?thesis using position_of [OF c xs] y by (simp add: above_def us)
qed

lemma above_trans: "above A i b \<Longrightarrow> map_of (anc_positions A) b = Some j \<Longrightarrow> above A j c \<Longrightarrow> above A i c"
  by (auto simp: above_def)

lemma rtrancl_above:
  assumes c: "causal xs" and f: "map_of (anc_positions (new_Ancestry xs)) a = Some i"
    and "(causes xs)\<^sup>+\<^sup>+ a b"
  shows "above (new_Ancestry xs) i b"
  using assms(3)
proof induction
  case (base b)
  then show ?case using causes_above [OF c _ f] by blast
next
  case (step b d)
  have "b \<in> fst ` set (anc_positions (new_Ancestry xs))" using step.IH by (rule above_known)
  then obtain j where j: "map_of (anc_positions (new_Ancestry xs)) b = Some j"
    by (metis domD dom_map_of_conv_image_fst)
  show ?case using above_trans [OF step.IH j causes_above [OF c step.hyps(2) j]] .
qed

lemma past_precedes:
  "a \<in> past xs (op_ps) \<Longrightarrow> set op_ps = parents_in xs b \<Longrightarrow> precedes xs a b"
  by (auto simp: past_def precedes_def causes_def intro: rtranclp_into_tranclp1)

lemma precedes_past:
  assumes "precedes xs a b" and ps: "set ps = parents_in xs b"
  shows "a \<in> past xs ps"
  using assms(1) unfolding precedes_def
proof (cases rule: tranclp.cases)
  case r_into_trancl
  then show ?thesis using past_parents [of ps xs] by (auto simp: causes_def ps)
next
  case (trancl_into_trancl c)
  then have "(causes xs)\<^sup>*\<^sup>* a c" "c \<in> set ps" by (auto simp: causes_def ps)
  then show ?thesis by (auto simp: past_def)
qed

text \<open>\<open>isAncestor\<close> decides the transitive parent relation.\<close>

lemma walksTo_iff:
  assumes c: "causal xs" and f: "map_of (anc_positions (new_Ancestry xs)) a = Some i"
  shows "walksTo (new_Ancestry xs) a b i \<longleftrightarrow> precedes xs a b"
proof
  assume "walksTo (new_Ancestry xs) a b i"
  then have "a \<in> past xs (rev (anc_parentsOf (new_Ancestry xs) b))"
    by (simp add: walksTo_def walks_loop_sound)
  then show "precedes xs a b" by (rule past_precedes) (simp add: parentsOf_set)
next
  assume p: "precedes xs a b"
  show "walksTo (new_Ancestry xs) a b i"
  proof (rule ccontr)
    assume "\<not> walksTo (new_Ancestry xs) a b i"
    then have "\<not> walks_loop (new_Ancestry xs) a i [] (rev (anc_parentsOf (new_Ancestry xs) b))"
      by (simp add: walksTo_def)
    from walks_loop_complete [OF this, of "{}"] obtain M where M:
      "parents_in xs b \<subseteq> M" "a \<notin> M" "\<forall>x \<in> M. above (new_Ancestry xs) i x \<longrightarrow> parents_in xs x \<subseteq> M"
      by (auto simp: parentsOf_set)
    have "(causes xs)\<^sup>*\<^sup>* a q \<Longrightarrow> q \<notin> M" for q
    proof (induction rule: rtranclp_induct)
      case (step q r)
      then have "(causes xs)\<^sup>+\<^sup>+ a r" by auto
      from rtrancl_above [OF c f this] step show ?case using M(3) by (auto simp: causes_def)
    qed (rule M(2))
    moreover have "\<exists>q \<in> parents_in xs b. (causes xs)\<^sup>*\<^sup>* a q"
      using precedes_past [OF p, of "anc_parentsOf (new_Ancestry xs) b"] by (auto simp: past_def parentsOf_set)
    ultimately show False using M(1) by blast
  qed
qed

lemma precedes_keys:
  assumes c: "causal xs" and "precedes xs a b"
  shows "a \<in> op_hash ` set xs \<and> b \<in> op_hash ` set xs"
proof -
  have *: "x \<in> op_hash ` set xs \<and> y \<in> op_hash ` set xs" if "causes xs x y" for x y
    using that parents_in_causal [OF c, of y] causal_known [OF c]
    by (auto simp: causes_def parents_in_def split: option.splits)
  from assms(2) show ?thesis unfolding precedes_def
    by induction (use * in blast)+
qed

lemma known_position:
  assumes c: "causal xs" and h: "h \<in> op_hash ` set xs"
  obtains i where "map_of (anc_positions (new_Ancestry xs)) h = Some i"
proof -
  from h obtain op where "op \<in> set xs" "h = op_hash op" by auto
  moreover then obtain us vs where "xs = us @ op # vs" by (meson split_list)
  ultimately show thesis using position_of [OF c] that by blast
qed

lemma isAncestor_iff:
  assumes c: "causal xs"
  shows "isAncestor (new_Ancestry xs) a b \<longleftrightarrow> precedes xs a b"
proof
  assume "isAncestor (new_Ancestry xs) a b"
  then show "precedes xs a b" using walksTo_iff [OF c] by (auto simp: isAncestor_def split: option.splits)
next
  assume p: "precedes xs a b"
  from precedes_keys [OF c p] obtain i j where i: "map_of (anc_positions (new_Ancestry xs)) a = Some i"
    and j: "map_of (anc_positions (new_Ancestry xs)) b = Some j"
    using known_position [OF c] by metis
  have "above (new_Ancestry xs) i b" using rtrancl_above [OF c i] p by (simp add: precedes_def)
  then have "i < j" by (simp add: above_def j)
  then show "isAncestor (new_Ancestry xs) a b" using walksTo_iff [OF c i] p by (simp add: isAncestor_def i j)
qed

lemma precedes_irrefl: "causal xs \<Longrightarrow> \<not> precedes xs a a"
  by (simp flip: isAncestor_iff) (simp add: isAncestor_def split: option.split)

lemma precedes_trans: "precedes xs a b \<Longrightarrow> precedes xs b c \<Longrightarrow> precedes xs a c"
  by (simp add: precedes_def)

lemma areConcurrent_iff:
  "causal xs \<Longrightarrow> areConcurrent (new_Ancestry xs) a b \<longleftrightarrow> a \<noteq> b \<and> \<not> precedes xs a b \<and> \<not> precedes xs b a"
  by (simp add: areConcurrent_def isAncestor_iff)

lemma areConcurrent_sym: "areConcurrent A a b = areConcurrent A b a"
  by (auto simp: areConcurrent_def)

text \<open>The closure of some digests: everything before one of them.\<close>

lemma anc_closure_loop_set:
  assumes "set closure \<union> set stack \<subseteq> E" and "\<And>h. h \<in> E \<Longrightarrow> set (anc_parentsOf A h) \<subseteq> E"
    and "\<forall>s \<in> set closure. set (anc_parentsOf A s) \<subseteq> set closure \<union> set stack"
  shows "set closure \<union> set stack \<subseteq> set (anc_closure_loop A closure stack) \<and>
    set (anc_closure_loop A closure stack) \<subseteq> E \<and>
    (\<forall>s \<in> set (anc_closure_loop A closure stack). set (anc_parentsOf A s) \<subseteq> set (anc_closure_loop A closure stack))"
  using assms
proof (induction A closure stack rule: anc_closure_loop.induct)
  case (2 A closure hash stack)
  show ?case
  proof (cases "hash \<in> set closure")
    case True
    then show ?thesis using 2 by (simp add: insert_absorb)
  next
    case False
    let ?C = "set (anc_closure_loop A (set_add hash closure) (rev (anc_parentsOf A hash) @ stack))"
    have h: "set (anc_parentsOf A hash) \<subseteq> E" using "2.prems"(1) "2.prems"(2) [of hash] by simp
    have "set (set_add hash closure) \<union> set (rev (anc_parentsOf A hash) @ stack) \<subseteq> ?C \<and> ?C \<subseteq> E \<and>
        (\<forall>s \<in> ?C. set (anc_parentsOf A s) \<subseteq> ?C)"
    proof (rule "2.IH"(1) [OF False _ "2.prems"(2)])
      show "set (set_add hash closure) \<union> set (rev (anc_parentsOf A hash) @ stack) \<subseteq> E"
        using "2.prems"(1) h by auto
      show "\<forall>s \<in> set (set_add hash closure). set (anc_parentsOf A s) \<subseteq>
          set (set_add hash closure) \<union> set (rev (anc_parentsOf A hash) @ stack)"
        using "2.prems"(3) by auto
    qed
    then show ?thesis using False by simp
  qed
qed auto

lemma anc_closureOf_set:
  "set (anc_closureOf (new_Ancestry xs) hs) = {h. \<exists>b \<in> set hs. precedes xs h b}"
proof -
  let ?A = "new_Ancestry xs"
  let ?stack = "rev (concat (map (anc_parentsOf ?A) hs))"
  let ?E = "{h. \<exists>b \<in> set hs. precedes xs h b}"
  let ?C = "set (anc_closureOf ?A hs)"
  have st: "set ?stack = (\<Union>b \<in> set hs. parents_in xs b)" by (simp add: parentsOf_set)
  have "set [] \<union> set ?stack \<subseteq> ?E" unfolding st by (auto simp: precedes_def intro!: bexI tranclp.r_into_trancl) (simp add: causes_def)
  moreover have "set (anc_parentsOf ?A h) \<subseteq> ?E" if "h \<in> ?E" for h
  proof
    fix p assume "p \<in> set (anc_parentsOf ?A h)"
    then have "causes xs p h" by (simp add: parentsOf_set causes_def)
    then show "p \<in> ?E" using that tranclp_into_tranclp2 [of "causes xs" p h] by (auto simp: precedes_def)
  qed
  ultimately have C: "set ?stack \<subseteq> ?C" "?C \<subseteq> ?E" "\<forall>s \<in> ?C. parents_in xs s \<subseteq> ?C"
    using anc_closure_loop_set [of "[]" ?stack ?E ?A] by (simp_all add: anc_closureOf_def parentsOf_set)
  have "h \<in> ?C" if "precedes xs h b" "b \<in> set hs" for h b
    using that(1) unfolding precedes_def
  proof (induction rule: converse_tranclp_induct)
    case (base h)
    then have "h \<in> set ?stack" using that(2) unfolding st by (auto simp: causes_def)
    then show ?case using C(1) by blast
  next
    case (step h k)
    then show ?case using C(3) by (auto simp: causes_def)
  qed
  then show ?thesis using C(2) by blast
qed

end
