(* ===== verification/CutComponents.thy ===== *)
theory CutComponents
  imports Prelude
begin

text \<open>
  The strongly connected components of a graph, by the iterative algorithm of Tarjan:
  \<open>src/contexts/communities/domain/operations/CommunityCutComponents.ts\<close>. The object of the
  class is the record \<open>tarjan\<close>; the arrays it uses as stacks are kept with their top first.
\<close>

section \<open>The code\<close>

record tarjan =
  t_index :: "(string, nat) jsmap"
  t_low :: "(string, nat) jsmap"
  t_stack :: "string list"
  t_onStack :: "string list"
  t_work :: "(string \<times> nat) list"
  t_components :: "string list list"

type_synonym graph = "(string, string list) jsmap"

definition new_CutComponents :: tarjan where
  "new_CutComponents =
     \<lparr>t_index = [], t_low = [], t_stack = [], t_onStack = [], t_work = [], t_components = []\<rparr>"

definition edgesOf :: "graph \<Rightarrow> string \<Rightarrow> string list" where
  "edgesOf successors node = (case map_of successors node of None \<Rightarrow> [] | Some es \<Rightarrow> es)"

definition visit :: "string \<Rightarrow> tarjan \<Rightarrow> tarjan" where
  "visit node t =
     (let index = AList.update node (length (t_index t)) (t_index t) in
      t\<lparr>t_index := index, t_low := AList.update node (length index - 1) (t_low t),
        t_stack := node # t_stack t, t_onStack := set_add node (t_onStack t),
        t_work := (node, 0) # t_work t\<rparr>)"

definition lower :: "string \<Rightarrow> nat \<Rightarrow> tarjan \<Rightarrow> tarjan" where
  "lower node value t =
     t\<lparr>t_low := AList.update node (min (the (map_of (t_low t) node)) value) (t_low t)\<rparr>"

text \<open>\<open>follow\<close> for the top frame: \<open>None\<close> once it has no edge left.\<close>

definition follow :: "graph \<Rightarrow> string \<Rightarrow> nat \<Rightarrow> tarjan \<Rightarrow> tarjan option" where
  "follow successors node n t =
     (let edges = edgesOf successors node in
      if n \<ge> length edges then None
      else
        let to = edges ! n;
            t1 = t\<lparr>t_work := (node, n + 1) # tl (t_work t)\<rparr>
        in Some (if map_of (t_index t) to = None then visit to t1
                 else if to \<in> set (t_onStack t) then lower node (the (map_of (t_index t) to)) t1
                 else t1))"

text \<open>The \<open>do ... while\<close> loop of \<open>finish\<close>; the frame's node is on the stack.\<close>

fun pop_component :: "string \<Rightarrow> string list \<Rightarrow> string list \<Rightarrow> string list \<Rightarrow> string list \<times> string list \<times> string list" where
  "pop_component node [] onStack component = ([], onStack, component)"
| "pop_component node (member # stack) onStack component =
     (let onStack' = set_delete member onStack; component' = component @ [member] in
      if member \<noteq> node then pop_component node stack onStack' component'
      else (stack, onStack', component'))"

definition finish :: "string \<Rightarrow> tarjan \<Rightarrow> tarjan" where
  "finish node t =
     (let t1 = t\<lparr>t_work := tl (t_work t)\<rparr>;
          t2 = (case t_work t1 of
                  [] \<Rightarrow> t1
                | parent # _ \<Rightarrow> lower (fst parent) (the (map_of (t_low t1) node)) t1)
      in if map_of (t_low t2) node \<noteq> map_of (t_index t2) node then t2
         else (case pop_component node (t_stack t2) (t_onStack t2) [] of
                 (stack, onStack, component) \<Rightarrow>
                   t2\<lparr>t_stack := stack, t_onStack := onStack,
                      t_components := t_components t2 @ [component]\<rparr>))"

definition walk_step :: "graph \<Rightarrow> tarjan \<Rightarrow> tarjan" where
  "walk_step successors t =
     (case t_work t of
        [] \<Rightarrow> t
      | (node, n) # _ \<Rightarrow>
          (case follow successors node n t of Some t' \<Rightarrow> t' | None \<Rightarrow> finish node t))"

lemma t_work_lower [simp]: "t_work (lower node v t) = t_work t" "t_index (lower node v t) = t_index t"
  "t_stack (lower node v t) = t_stack t" "t_onStack (lower node v t) = t_onStack t"
  "t_components (lower node v t) = t_components t"
  by (simp_all add: lower_def)

lemma t_work_finish [simp]: "t_work (finish node t) = tl (t_work t)" "t_index (finish node t) = t_index t"
  by (auto simp: finish_def Let_def split: prod.split list.split)

text \<open>Every step visits a node, follows an edge or leaves a frame.\<close>

definition targets :: "graph \<Rightarrow> string set" where
  "targets successors = (\<Union>(n, es) \<in> set successors. set es)"

definition edges_left :: "graph \<Rightarrow> tarjan \<Rightarrow> nat" where
  "edges_left successors t =
     sum_list (map (\<lambda>(node, n). length (edgesOf successors node) - n) (t_work t)) + length (t_work t)"

lemma edge_target: "n < length (edgesOf successors node) \<Longrightarrow> edgesOf successors node ! n \<in> targets successors"
proof (cases "map_of successors node")
  case (Some es)
  assume "n < length (edgesOf successors node)"
  then have "edgesOf successors node ! n \<in> set es" by (simp add: edgesOf_def Some)
  then show ?thesis using map_of_SomeD [OF Some] by (force simp: targets_def)
qed (simp add: edgesOf_def)

lemma finite_targets [simp]: "finite (targets successors)"
  by (auto simp: targets_def)

function walk :: "graph \<Rightarrow> tarjan \<Rightarrow> tarjan" where
  "walk successors t = (if t_work t = [] then t else walk successors (walk_step successors t))"
  by pat_completeness auto

termination
proof (relation "measures [\<lambda>(g, t). card (targets g - fst ` set (t_index t)), \<lambda>(g, t). edges_left g t]", goal_cases)
  case (2 g t)
  then obtain node n rest where w: "t_work t = (node, n) # rest" by (cases "t_work t") auto
  show ?case
  proof (cases "n < length (edgesOf g node)")
    case True
    let ?to = "edgesOf g node ! n"
    show ?thesis
    proof (cases "map_of (t_index t) ?to = None")
      case new: True
      then have "?to \<notin> fst ` set (t_index t)" by (simp add: map_of_eq_None_iff)
      then have "card (targets g - insert ?to (fst ` set (t_index t))) < card (targets g - fst ` set (t_index t))"
        using edge_target [OF True] by (intro card_Diff_insert_less) simp_all
      then show ?thesis using True new by (simp add: walk_step_def w follow_def visit_def Let_def)
    next
      case False
      then obtain i where "map_of (t_index t) ?to = Some i" by auto
      then show ?thesis using True by (simp add: walk_step_def w follow_def edges_left_def Let_def)
    qed
  next
    case False
    then show ?thesis by (simp add: walk_step_def w follow_def edges_left_def Let_def)
  qed
qed simp

declare walk.simps [simp del]

definition walkFrom :: "graph \<Rightarrow> string \<Rightarrow> tarjan \<Rightarrow> tarjan" where
  "walkFrom successors root t = walk successors (visit root t)"

definition componentsOf :: "string list \<Rightarrow> graph \<Rightarrow> string list list" where
  "componentsOf nodes successors =
     (let t = fold (\<lambda>root t. if map_of (t_index t) root = None then walkFrom successors root t else t)
                nodes new_CutComponents
      in rev (t_components t))"

end
