(* ===== verification/AuthorityCuts.thy ===== *)
theory AuthorityCuts
  imports OperationAncestry CutComponents
begin

text \<open>
  The authority cuts of one set of operations:
  \<open>src/contexts/communities/domain/operations/CommunityAuthorityCuts.ts\<close>. A cutter is an
  operation that takes an authority from a member; cuts void each other along the components
  of their graph, and the standing ones void invitations and admissions. The object of the
  class is the record \<open>cuts\<close>; \<open>sparedBy\<close> is computed each time, the code remembers it.
\<close>

section \<open>What a cutter takes\<close>

definition MEMBERSHIP :: string where "MEMBERSHIP = ''membership''"

definition cut_permissions :: "permission list" where
  "cut_permissions = [BAN_MEMBERS, CREATE_INVITES, MANAGE_MEMBERS, MANAGE_ROLES]"

fun cut_needs :: "action \<Rightarrow> string option" where
  "cut_needs MEMBER_BANNED = Some (permission_value BAN_MEMBERS)"
| "cut_needs MEMBER_KICKED = Some (permission_value MANAGE_MEMBERS)"
| "cut_needs MEMBER_LEFT = Some MEMBERSHIP"
| "cut_needs MEMBER_ROLES_UPDATED = Some (permission_value MANAGE_ROLES)"
| "cut_needs ROLE_DELETED = Some (permission_value MANAGE_ROLES)"
| "cut_needs ROLE_UPDATED = Some (permission_value MANAGE_ROLES)"
| "cut_needs _ = None"

definition keyOf :: "string \<Rightarrow> identity_id \<Rightarrow> string" where
  "keyOf authority i = authority @ '' '' @ i"

definition isCutting :: "operation \<Rightarrow> bool" where
  "isCutting op \<longleftrightarrow> cut_needs (op_action op) \<noteq> None"

definition needOf :: "operation \<Rightarrow> string option" where
  "needOf op =
     (if isCutting op then cut_needs (op_action op)
      else if op_action op = INVITATION_CREATED then Some (permission_value CREATE_INVITES)
      else if isAdmission op then Some (permission_value MANAGE_MEMBERS) else None)"

definition takenBetween :: "community \<Rightarrow> community \<Rightarrow> string list" where
  "takenBetween before after =
     fold (\<lambda>member taken.
       let taken1 = (if \<not> isMember (c_membership after) member
                     then set_add (keyOf MEMBERSHIP member) taken else taken)
       in fold (\<lambda>p taken.
            if holds before member p \<and> \<not> holds after member p
            then set_add (keyOf (permission_value p) member) taken else taken)
            cut_permissions taken1)
       (members (c_membership before)) []"

definition takenBy :: "lib \<Rightarrow> community option \<Rightarrow> operation \<Rightarrow> community_error + string list" where
  "takenBy L pst op =
     (case pst of
        None \<Rightarrow> Inr []
      | Some before \<Rightarrow>
          if \<not> isCutting op then Inr []
          else bindR (fromPrimitives L (toPrimitives before)) (\<lambda>copy.
                 case apply_operation L copy op None of
                   Inl _ \<Rightarrow> Inr []
                 | Inr after \<Rightarrow> Inr (takenBetween before after)))"

definition takesInvitesOf :: "string list \<Rightarrow> identity_id \<Rightarrow> bool" where
  "takesInvitesOf taken issuer \<longleftrightarrow>
     keyOf (permission_value CREATE_INVITES) issuer \<in> set taken \<or> keyOf MEMBERSHIP issuer \<in> set taken"

section \<open>The cuts of a set\<close>

record cuts =
  cuts_ancestry :: ancestry
  cuts_authored :: "(string, operation list) jsmap"
  cuts_taken :: "(string, string list) jsmap"
  cuts_cutsOf :: "(string, operation list) jsmap"
  cuts_cyclic :: "string list"
  cuts_standing :: "string list"

definition get_list :: "(string, 'a list) jsmap \<Rightarrow> string \<Rightarrow> 'a list" where
  "get_list m k = (case map_of m k of None \<Rightarrow> [] | Some xs \<Rightarrow> xs)"

definition push_under :: "string \<Rightarrow> 'a \<Rightarrow> (string, 'a list) jsmap \<Rightarrow> (string, 'a list) jsmap" where
  "push_under k x m = AList.update k (get_list m k @ [x]) m"

text \<open>\<open>key.slice(key.indexOf(' ') + 1)\<close>\<close>

definition identity_of_key :: "string \<Rightarrow> string" where
  "identity_of_key key =
     (let rest = dropWhile (\<lambda>ch. ch \<noteq> CHR '' '') key in if rest = [] then key else tl rest)"

definition authoredOf :: "operation list \<Rightarrow> (string, operation list) jsmap" where
  "authoredOf ordered = fold (\<lambda>op m. push_under (op_author op) op m) ordered []"

definition cut_matters :: "cuts \<Rightarrow> operation \<Rightarrow> bool" where
  "cut_matters C op =
     (if \<not> isCutting op then False
      else if op_action op = ROLE_UPDATED \<or> op_action op = ROLE_DELETED then True
      else
        let target = (if op_action op = MEMBER_LEFT then Some (JString (op_author op))
                      else map_of (op_args op) ''identityId'');
            hash = op_hash op
        in (case target of
              Some (JString i) \<Rightarrow>
                list_ex (\<lambda>other.
                  needOf other \<noteq> None \<and>
                  (areConcurrent (cuts_ancestry C) hash (op_hash other) \<or>
                   (op_action other = INVITATION_CREATED \<and>
                    \<not> isAncestor (cuts_ancestry C) hash (op_hash other))))
                  (get_list (cuts_authored C) i)
            | _ \<Rightarrow> False))"

definition takes :: "cuts \<Rightarrow> operation \<Rightarrow> string \<Rightarrow> identity_id \<Rightarrow> bool" where
  "takes C cutter authority i \<longleftrightarrow>
     (case map_of (cuts_taken C) (op_hash cutter) of None \<Rightarrow> False | Some taken \<Rightarrow> keyOf authority i \<in> set taken)"

definition sparedBy :: "cuts \<Rightarrow> operation \<Rightarrow> string list" where
  "sparedBy C cutter =
     anc_closureOf (cuts_ancestry C)
       (filter (\<lambda>signed. signed \<noteq> op_hash cutter \<and> \<not> isAncestor (cuts_ancestry C) (op_hash cutter) signed)
         (map op_hash (get_list (cuts_authored C) (op_author cutter))))"

definition reaches :: "cuts \<Rightarrow> operation \<Rightarrow> operation \<Rightarrow> bool" where
  "reaches C cutter op \<longleftrightarrow>
     areConcurrent (cuts_ancestry C) (op_hash cutter) (op_hash op) \<and>
     (op_hash cutter \<notin> set (cuts_cyclic C) \<or> op_hash op \<notin> set (sparedBy C cutter))"

definition isReachedBy :: "cuts \<Rightarrow> operation \<Rightarrow> string \<Rightarrow> bool" where
  "isReachedBy C op need \<longleftrightarrow>
     list_ex (\<lambda>cutter. op_hash cutter \<in> set (cuts_standing C) \<and> takes C cutter need (op_author op) \<and> reaches C cutter op)
       (get_list (cuts_cutsOf C) (op_author op))"

definition predecessorsOf :: "cuts \<Rightarrow> operation \<Rightarrow> operation list" where
  "predecessorsOf C cutter =
     filter (\<lambda>other. other \<noteq> cutter \<and> takes C other (the (needOf cutter)) (op_author cutter) \<and>
               areConcurrent (cuts_ancestry C) (op_hash other) (op_hash cutter))
       (get_list (cuts_cutsOf C) (op_author cutter))"

definition decideComponent :: "string list \<Rightarrow> (string, operation) jsmap \<Rightarrow> (string, operation list) jsmap \<Rightarrow> cuts \<Rightarrow> cuts" where
  "decideComponent component byHash predecessors C =
     (let C1 = (if length component > 1
                then C\<lparr>cuts_cyclic := fold set_add component (cuts_cyclic C)\<rparr> else C)
      in fold (\<lambda>hash C.
           let cutter = the (map_of byHash hash);
               voided = list_ex (\<lambda>other. op_hash other \<notin> set component \<and>
                          op_hash other \<in> set (cuts_standing C) \<and> reaches C other cutter)
                          (get_list predecessors hash)
           in if \<not> voided then C\<lparr>cuts_standing := set_add hash (cuts_standing C)\<rparr> else C)
           component C1)"

definition successors_of :: "(string, operation list) jsmap \<Rightarrow> graph" where
  "successors_of predecessors =
     fold (\<lambda>(hash, incoming) successors.
       fold (\<lambda>other successors. push_under (op_hash other) hash successors) incoming successors)
       predecessors []"

definition decide :: "operation list \<Rightarrow> cuts \<Rightarrow> cuts" where
  "decide ops C =
     (let byHash = jsmap_of (map (\<lambda>cutter. (op_hash cutter, cutter)) ops);
          predecessors = jsmap_of (map (\<lambda>cutter. (op_hash cutter, predecessorsOf C cutter)) ops)
      in fold (\<lambda>component C. decideComponent component byHash predecessors C)
           (componentsOf (map fst byHash) (successors_of predecessors)) C)"

text \<open>The second loop of the constructor: what each cut takes, and from whom.\<close>

fun collect_cuts :: "(operation \<Rightarrow> 'e + string list) \<Rightarrow> operation list \<Rightarrow> cuts \<Rightarrow> 'e + cuts" where
  "collect_cuts takenOf [] C = Inr C"
| "collect_cuts takenOf (op # ops) C =
     (if \<not> cut_matters C op then collect_cuts takenOf ops C
      else bindR (takenOf op) (\<lambda>taken.
        if taken = [] then collect_cuts takenOf ops C
        else collect_cuts takenOf ops
          (C\<lparr>cuts_taken := AList.update (op_hash op) taken (cuts_taken C),
             cuts_cutsOf := fold (\<lambda>member m. push_under member op m)
               (new_Set (map identity_of_key taken)) (cuts_cutsOf C)\<rparr>)))"

definition new_AuthorityCuts :: "operation list \<Rightarrow> ancestry \<Rightarrow> (operation \<Rightarrow> 'e + string list) \<Rightarrow> 'e + cuts" where
  "new_AuthorityCuts ordered A takenOf =
     bindR (collect_cuts takenOf ordered
              \<lparr>cuts_ancestry = A, cuts_authored = authoredOf ordered, cuts_taken = [],
               cuts_cutsOf = [], cuts_cyclic = [], cuts_standing = []\<rparr>) (\<lambda>C.
       Inr (decide (filter (\<lambda>op. map_of (cuts_taken C) (op_hash op) \<noteq> None) ordered) C))"

definition cuts_isVoid :: "cuts \<Rightarrow> operation \<Rightarrow> bool" where
  "cuts_isVoid C op =
     (case (if isCutting op then None else needOf op) of
        None \<Rightarrow> False | Some need \<Rightarrow> isReachedBy C op need)"

definition cutsIssuerOf :: "cuts \<Rightarrow> invitation \<Rightarrow> bool" where
  "cutsIssuerOf C iv =
     (let issuer = inv_issuer (inv_attributes iv) in
      list_ex (\<lambda>cutter. op_hash cutter \<in> set (cuts_standing C) \<and>
          takesInvitesOf (the (map_of (cuts_taken C) (op_hash cutter))) issuer \<and>
          \<not> isAncestor (cuts_ancestry C) (op_hash cutter) (inv_id (inv_attributes iv)))
        (get_list (cuts_cutsOf C) issuer))"

section \<open>Lemmas\<close>

text \<open>\<open>collect_cuts\<close> asks only about operations of the set.\<close>

lemma collect_cuts_cong [fundef_cong]:
  assumes "ops = ops'" and "C = C'" and "\<And>op. op \<in> set ops' \<Longrightarrow> f op = g op"
  shows "collect_cuts f ops C = collect_cuts g ops' C'"
proof -
  have "collect_cuts f ops C = collect_cuts g ops C" if "\<forall>op \<in> set ops. f op = g op" for C
    using that by (induction ops arbitrary: C) (auto cong: if_cong)
  then show ?thesis using assms by simp
qed

lemma new_AuthorityCuts_cong [fundef_cong]:
  assumes "xs = ys" and "A = B" and "\<And>op. op \<in> set ys \<Longrightarrow> f op = g op"
  shows "new_AuthorityCuts xs A f = new_AuthorityCuts ys B g"
  unfolding new_AuthorityCuts_def using assms by (intro bindR_cong collect_cuts_cong) auto

lemma new_AuthorityCuts_total:
  assumes "\<And>op. op \<in> set ordered \<Longrightarrow> isCutting op \<Longrightarrow> isOK (takenOf op)"
  shows "\<exists>C. new_AuthorityCuts ordered A takenOf = Inr C"
proof -
  have "\<exists>C'. collect_cuts takenOf ops C = Inr C'" if "set ops \<subseteq> set ordered" for ops C
    using that
  proof (induction ops arbitrary: C)
    case (Cons op ops)
    show ?case
    proof (cases "cut_matters C op")
      case True
      then have "isCutting op" by (simp add: cut_matters_def split: if_splits)
      then obtain t where "takenOf op = Inr t" using assms [of op] Cons.prems by (auto simp: isOK_iff)
      then show ?thesis using Cons by simp
    qed (use Cons in simp)
  qed simp
  from this [of ordered] show ?thesis by (auto simp: new_AuthorityCuts_def)
qed

lemma takenBetween_keys:
  "set (takenBetween before after) =
     {keyOf MEMBERSHIP m |m. m \<in> set (members (c_membership before)) \<and> m \<notin> set (members (c_membership after))} \<union>
     {keyOf (permission_value p) m |p m. m \<in> set (members (c_membership before)) \<and> p \<in> set cut_permissions \<and>
        holds before m p \<and> \<not> holds after m p}"
proof -
  have inner: "set (fold (\<lambda>p taken. if holds before m p \<and> \<not> holds after m p
      then set_add (keyOf (permission_value p) m) taken else taken) ps acc) =
    set acc \<union> {keyOf (permission_value p) m |p. p \<in> set ps \<and> holds before m p \<and> \<not> holds after m p}" for ps m acc
    by (induction ps arbitrary: acc) auto
  have "set (fold (\<lambda>member taken.
       let taken1 = (if \<not> isMember (c_membership after) member
                     then set_add (keyOf MEMBERSHIP member) taken else taken)
       in fold (\<lambda>p taken.
            if holds before member p \<and> \<not> holds after member p
            then set_add (keyOf (permission_value p) member) taken else taken)
            cut_permissions taken1) ms acc) =
     set acc \<union> {keyOf MEMBERSHIP m |m. m \<in> set ms \<and> m \<notin> set (members (c_membership after))} \<union>
     {keyOf (permission_value p) m |p m. m \<in> set ms \<and> p \<in> set cut_permissions \<and>
        holds before m p \<and> \<not> holds after m p}" for ms acc
    by (induction ms arbitrary: acc) (auto simp: Let_def inner)
  then show ?thesis by (simp add: takenBetween_def)
qed

text \<open>The owner holds every authority by ownership, so no cut takes a permission from it.\<close>

lemma holds_owner [simp]: "holds c (c_owner c) p"
  by (simp add: holds_def)

end
