(* ===== verification/CommunityValues.thy ===== *)
theory CommunityValues
  imports CommunityApplier
begin

text \<open>
  Every value a community holds came out of a value object's constructor (\<open>values_ok\<close>), and
  every operation keeps it so. Hence writing a community to its primitives and reading it back
  gives the same community, without the events it recorded: the copy
  \<open>Community.fromPrimitives(community.toPrimitives())\<close> that
  \<open>src/contexts/communities/domain/operations/\<close> takes before each change never throws.
\<close>

section \<open>The values of a community\<close>

definition role_values :: "lib \<Rightarrow> role \<Rightarrow> bool" where
  "role_values L r \<longleftrightarrow>
     new_CommunityRoleId L (role_getId r) = Inr (role_getId r) \<and>
     new_CommunityRoleName L (role_name r) = Inr (role_name r)"

definition assignment_values :: "lib \<Rightarrow> assignment \<Rightarrow> bool" where
  "assignment_values L a \<longleftrightarrow>
     new_IdentityId L (assigned_identity a) = Inr (assigned_identity a) \<and>
     (\<forall>r \<in> set (assigned_roles a). new_CommunityRoleId L r = Inr r)"

definition channel_values :: "lib \<Rightarrow> channel \<Rightarrow> bool" where
  "channel_values L c \<longleftrightarrow>
     new_CommunityChannelId L (channel_getId c) = Inr (channel_getId c) \<and>
     new_CommunityChannelName L (channel_name c) = Inr (channel_name c) \<and>
     (\<forall>r \<in> set (channel_visibleRoleIds c). new_CommunityRoleId L r = Inr r) \<and>
     new_Timestamp L (channel_createdAt c) = Inr (channel_createdAt c)"

definition optional_values :: "(string \<Rightarrow> community_error + string) \<Rightarrow> string option \<Rightarrow> bool" where
  "optional_values build v \<longleftrightarrow> (\<forall>s. v = Some s \<longrightarrow> build s = Inr s)"

definition profile_values :: "lib \<Rightarrow> profile \<Rightarrow> bool" where
  "profile_values L p \<longleftrightarrow>
     new_CommunityName L (profile_name p) = Inr (profile_name p) \<and>
     new_CommunityDescription L (profile_description p) = Inr (profile_description p) \<and>
     optional_values (new_CommunityAvatar L) (profile_avatar p) \<and>
     optional_values (new_CommunityBanner L) (profile_banner p)"

definition membership_values :: "lib \<Rightarrow> membership \<Rightarrow> bool" where
  "membership_values L m \<longleftrightarrow>
     (\<forall>i \<in> set (members m). new_IdentityId L i = Inr i) \<and>
     (\<forall>i \<in> set (bannedMembers m). new_IdentityId L i = Inr i) \<and>
     (\<forall>r \<in> set (roles_list (member_roles m)). role_values L r) \<and>
     (\<forall>a \<in> set (roles_assignments (member_roles m)). assignment_values L a)"

definition channels_values :: "lib \<Rightarrow> channels \<Rightarrow> bool" where
  "channels_values L chs \<longleftrightarrow>
     (\<forall>c \<in> set (textChannels chs). channel_values L c) \<and>
     (\<forall>c \<in> set (voiceChannels chs). channel_values L c)"

definition values_ok :: "lib \<Rightarrow> community \<Rightarrow> bool" where
  "values_ok L c \<longleftrightarrow>
     new_CommunityId L (c_id c) = Inr (c_id c) \<and> new_NetworkId L (c_network c) = Inr (c_network c) \<and>
     new_IdentityId L (c_owner c) = Inr (c_owner c) \<and> profile_values L (c_profile c) \<and>
     membership_values L (c_membership c) \<and> channels_values L (c_channels c) \<and>
     new_Timestamp L (settings_createdAt (c_settings c)) = Inr (settings_createdAt (c_settings c))"

text \<open>What the copy through the primitives keeps: an empty avatar or banner reads as none.\<close>

definition drop_empty :: "string option \<Rightarrow> string option" where
  "drop_empty v = (if v = Some [] then None else v)"

definition copy_of :: "community \<Rightarrow> community" where
  "copy_of c = c\<lparr>c_events := [], c_profile := (c_profile c)
     \<lparr>profile_avatar := drop_empty (profile_avatar (c_profile c)),
      profile_banner := drop_empty (profile_banner (c_profile c))\<rparr>\<rparr>"

section \<open>The round trip\<close>

lemma mapR_map_id:
  assumes "\<And>x. x \<in> set xs \<Longrightarrow> f (g x) = Inr x"
  shows "mapR f (map g xs) = Inr xs"
  using assms by (induction xs) auto

lemma mapR_id: "(\<And>x. x \<in> set xs \<Longrightarrow> f x = Inr x) \<Longrightarrow> mapR f xs = Inr xs"
  using mapR_map_id [of xs f "\<lambda>x. x"] by simp

lemma role_roundtrip: "role_values L r \<Longrightarrow> role_fromPrimitives L (role_toPrimitives r) = Inr r"
  by (simp add: role_values_def role_fromPrimitives_def role_toPrimitives_def)

lemma assignment_roundtrip:
  "assignment_values L a \<Longrightarrow> assignment_fromPrimitives L (assignment_toPrimitives a) = Inr a"
  by (simp add: assignment_values_def assignment_fromPrimitives_def assignment_toPrimitives_def mapR_id)

lemma channel_roundtrip:
  "channel_values L c \<Longrightarrow> channel_fromPrimitives L (textChannel_toPrimitives c) = Inr c"
  "channel_values L c \<Longrightarrow> channel_fromPrimitives L (voiceChannel_toPrimitives c) = Inr c"
  by (simp_all add: channel_values_def channel_fromPrimitives_def textChannel_toPrimitives_def
      voiceChannel_toPrimitives_def mapR_id)

lemma optional_text_drop: "optional_values build v \<Longrightarrow> optional_text build v = Inr (drop_empty v)"
  by (auto simp: optional_text_def drop_empty_def optional_values_def split: option.split)

lemma community_roundtrip:
  assumes "values_ok L c"
  shows "fromPrimitives L (toPrimitives c) = Inr (copy_of c)"
proof -
  have r: "roles_fromPrimitives L (Some (map role_toPrimitives (roles_list (member_roles (c_membership c)))))
      (Some (map assignment_toPrimitives (roles_assignments (member_roles (c_membership c)))))
    = Inr (member_roles (c_membership c))"
    using assms by (simp add: roles_fromPrimitives_def values_ok_def membership_values_def mapR_map_id
        role_roundtrip assignment_roundtrip)
  show ?thesis
    using assms r
    by (simp add: fromPrimitives_def toPrimitives_def values_ok_def profile_values_def membership_values_def
        channels_values_def mapR_id mapR_map_id channel_roundtrip optional_text_drop settings_fromPrimitives_def
        copy_of_def)
qed

section \<open>Every operation keeps the values\<close>

lemma values_record [simp]:
  "values_ok L (recordEvent c e) = values_ok L c" "values_ok L (recordUpdated c) = values_ok L c"
  by (simp_all add: values_ok_def)

lemma values_membership:
  "values_ok L c \<Longrightarrow> membership_values L m \<Longrightarrow> values_ok L (c\<lparr>c_membership := m\<rparr>)"
  by (simp add: values_ok_def)

lemma values_channels:
  "values_ok L c \<Longrightarrow> channels_values L chs \<Longrightarrow> values_ok L (c\<lparr>c_channels := chs\<rparr>)"
  by (simp add: values_ok_def)

lemma values_parts:
  "values_ok L c \<Longrightarrow> membership_values L (c_membership c)"
  "values_ok L c \<Longrightarrow> channels_values L (c_channels c)"
  by (simp_all add: values_ok_def)

text \<open>What only drops members, bans, roles and assignments keeps the values.\<close>

lemma membership_values_mono:
  assumes "membership_values L m" and "set (members m') \<subseteq> set (members m)"
    and "set (bannedMembers m') \<subseteq> set (bannedMembers m)"
    and "set (roles_list (member_roles m')) \<subseteq> set (roles_list (member_roles m))"
    and "set (roles_assignments (member_roles m')) \<subseteq> set (roles_assignments (member_roles m))"
  shows "membership_values L m'"
  unfolding membership_values_def
proof (intro conjI ballI)
  show "new_IdentityId L i = Inr i" if "i \<in> set (members m')" for i
    using assms(1,2) that by (auto simp only: membership_values_def)
  show "new_IdentityId L i = Inr i" if "i \<in> set (bannedMembers m')" for i
    using assms(1,3) that by (auto simp only: membership_values_def)
  show "role_values L r" if "r \<in> set (roles_list (member_roles m'))" for r
    using assms(1,4) that by (auto simp only: membership_values_def)
  show "assignment_values L a" if "a \<in> set (roles_assignments (member_roles m'))" for a
    using assms(1,5) that by (auto simp only: membership_values_def)
qed

lemma roles_removeMember_subset:
  "set (roles_assignments (roles_removeMember rs i)) \<subseteq> set (roles_assignments rs)"
  "roles_list (roles_removeMember rs i) = roles_list rs"
  by (simp_all add: removeMember_conv set_remove_first_subset)

lemma membership_values_remove:
  assumes "membership_values L m"
  shows "membership_values L (membership_remove m i)"
  by (rule membership_values_mono [OF assms])
    (simp_all add: membership_remove_def splice1_subset roles_removeMember_subset)

lemma membership_values_members:
  "membership_values L m \<Longrightarrow> set ms = insert i (set (members m)) \<Longrightarrow> new_IdentityId L i = Inr i \<Longrightarrow>
     membership_values L (m\<lparr>members := ms\<rparr>)"
  "membership_values L m \<Longrightarrow> set bs = insert i (set (bannedMembers m)) \<Longrightarrow> new_IdentityId L i = Inr i \<Longrightarrow>
     membership_values L (m\<lparr>bannedMembers := bs\<rparr>)"
  by (simp_all add: membership_values_def)

lemma membership_values_ban:
  assumes "membership_values L m" and "new_IdentityId L i = Inr i"
  shows "membership_values L (membership_ban m i)"
proof -
  have "membership_values L (m\<lparr>bannedMembers := bannedMembers m @ [i]\<rparr>)"
    by (rule membership_values_members(2) [OF assms(1) _ assms(2)]) simp
  then show ?thesis using assms(1) by (simp add: membership_ban_def Let_def membership_values_remove)
qed

lemma membership_values_unban:
  assumes "membership_values L m"
  shows "membership_values L (membership_unban m i)"
  by (rule membership_values_mono [OF assms]) (simp_all add: unban_conv set_remove1_subset)

lemma membership_values_add:
  "membership_values L m \<Longrightarrow> new_IdentityId L i = Inr i \<Longrightarrow> membership_values L (membership_add m i)"
  unfolding membership_add_def by (rule membership_values_members(1)) simp_all

lemma update_first_all:
  assumes "\<And>x. x \<in> set xs \<Longrightarrow> Q x" and "\<And>x. Q x \<Longrightarrow> Q (f x)" and "x \<in> set (update_first p f xs)"
  shows "Q x"
  using assms(1,3)
proof (induction xs)
  case (Cons y ys)
  then show ?case using assms(2) [of y] by (cases "p y") auto
qed simp

lemma assignments_values:
  "membership_values L m \<Longrightarrow> (\<And>a. a \<in> set (roles_assignments rs) \<Longrightarrow> assignment_values L a) \<Longrightarrow>
     (\<And>r. r \<in> set (roles_list rs) \<Longrightarrow> role_values L r) \<Longrightarrow> membership_values L (m\<lparr>member_roles := rs\<rparr>)"
  by (simp add: membership_values_def)

lemma membership_roles_values:
  "membership_values L m \<Longrightarrow> r \<in> set (roles_list (member_roles m)) \<Longrightarrow> role_values L r"
  "membership_values L m \<Longrightarrow> a \<in> set (roles_assignments (member_roles m)) \<Longrightarrow> assignment_values L a"
  by (simp_all add: membership_values_def)

lemma membership_values_assign:
  assumes m: "membership_values L m" and i: "new_IdentityId L i = Inr i"
    and r: "\<forall>r \<in> set rids. new_CommunityRoleId L r = Inr r"
    and asg: "membership_assignRoles m i rids = Inr m'"
  shows "membership_values L m'"
proof -
  from asg obtain rs where rs: "roles_assign (member_roles m) i rids = Inr rs" and m': "m' = m\<lparr>member_roles := rs\<rparr>"
    by (auto simp: membership_assignRoles_def)
  let ?rids = "filter (\<lambda>rid. rid \<noteq> role_everyone) rids"
  have new: "assignment_values L a" if "assignment_values L b" "a = b\<lparr>assigned_roles := ?rids\<rparr>" for a b
    using that r by (simp add: assignment_values_def)
  have "assignment_values L a" if a: "a \<in> set (roles_assignments rs)" for a
    using rs
  proof (cases rule: roles_assign_cases)
    case extended
    then show ?thesis using a membership_roles_values(2) [OF m] i r by (auto simp: assignment_values_def)
  next
    case replaced
    have "a \<in> set (update_first (\<lambda>a. assigned_identity a = i) (\<lambda>a. a\<lparr>assigned_roles := ?rids\<rparr>) (roles_assignments (member_roles m)))"
      using a replaced(1) by simp
    then show ?thesis
      by (rule update_first_all [where Q = "assignment_values L", rotated 2]) (use membership_roles_values(2) [OF m] new in blast)+
  qed
  moreover have "roles_list rs = roles_list (member_roles m)" using rs by (cases rule: roles_assign_cases) simp_all
  ultimately show ?thesis unfolding m' using membership_roles_values(1) [OF m]
    by (intro assignments_values [OF m]) simp_all
qed

lemma membership_values_addRole:
  assumes m: "membership_values L m" and "new_CommunityRoleId L rid = Inr rid" and "new_CommunityRoleName L name = Inr name"
  shows "membership_values L (membership_addRole m name ps rid)"
  unfolding membership_addRole_def
  by (rule assignments_values [OF m])
    (use assms membership_roles_values [OF m] in \<open>auto simp: roles_add_def role_create_def role_values_def\<close>)

lemma membership_values_updateRole:
  assumes m: "membership_values L m" and n: "new_CommunityRoleName L name = Inr name"
    and up: "membership_updateRole m rid name ps = Inr m'"
  shows "membership_values L m'"
proof -
  let ?f = "\<lambda>r. r\<lparr>role_name := name, role_permissions := ps\<rparr>"
  let ?rs = "update_first (\<lambda>r. role_getId r = rid) ?f (roles_list (member_roles m))"
  have m': "m' = m\<lparr>member_roles := (member_roles m)\<lparr>roles_list := ?rs\<rparr>\<rparr>"
    using up by (auto simp: membership_updateRole_def roles_update_def)
  have "role_values L r" if "r \<in> set ?rs" for r
    by (rule update_first_all [where Q = "role_values L" and f = ?f, OF _ _ that])
      (use membership_roles_values(1) [OF m] n in \<open>auto simp: role_values_def\<close>)
  then show ?thesis unfolding m' using membership_roles_values(2) [OF m]
    by (intro assignments_values [OF m]) simp_all
qed

lemma membership_values_deleteRole:
  assumes m: "membership_values L m" and up: "membership_deleteRole m rid = Inr m'"
  shows "membership_values L m'"
proof -
  from up obtain rs where rs: "roles_remove (member_roles m) rid = Inr rs" and m': "m' = m\<lparr>member_roles := rs\<rparr>"
    by (auto simp: membership_deleteRole_def)
  have "set (roles_list rs) \<subseteq> set (roles_list (member_roles m))"
    using roles_remove_conv [OF rs] by (auto intro: subsetD [OF set_remove_first_subset])
  moreover have "assignment_values L a" if "a \<in> set (roles_assignments rs)" for a
    using roles_remove_conv [OF rs] that membership_roles_values(2) [OF m] by (auto simp: assignment_values_def)
  ultimately show ?thesis unfolding m' using membership_roles_values(1) [OF m]
    by (intro assignments_values [OF m]) auto
qed

lemma channel_values_create:
  "new_CommunityRoleId L role_everyone = Inr role_everyone \<Longrightarrow> new_CommunityChannelId L cid = Inr cid \<Longrightarrow>
     new_CommunityChannelName L name = Inr name \<Longrightarrow> new_Timestamp L t = Inr t \<Longrightarrow>
     channel_values L (channel_create name cid t)"
  by (simp add: channel_values_def channel_create_def visibleForEveryone_def)

lemma channels_values_change:
  assumes v: "channels_values L chs" and ch: "changeExisting chs cid f = Inr chs'"
    and f: "\<And>c. channel_values L c \<Longrightarrow> channel_values L (f c)"
  shows "channels_values L chs'"
proof -
  let ?u = "update_first (\<lambda>c. channel_getId c = cid) f"
  have u: "channel_values L c" if "\<forall>c \<in> set cs. channel_values L c" "c \<in> set (?u cs)" for c cs
    by (rule update_first_all [where Q = "channel_values L", OF _ f that(2)]) (use that(1) in blast)
  have "chs' = chs\<lparr>textChannels := ?u (textChannels chs)\<rparr> \<or> chs' = chs\<lparr>voiceChannels := ?u (voiceChannels chs)\<rparr>"
    using ch by (auto simp: changeExisting_def)
  moreover have "\<forall>c \<in> set (?u (textChannels chs)). channel_values L c" "\<forall>c \<in> set (?u (voiceChannels chs)). channel_values L c"
    using v unfolding channels_values_def by (blast intro: u)+
  ultimately show ?thesis using v by (elim disjE) (simp_all add: channels_values_def)
qed

lemma timestamp_ok: "new_Timestamp L n = Inr t \<Longrightarrow> new_Timestamp L t = Inr t"
  by (simp add: new_Timestamp_def split: if_splits)

lemma everyone_ok: "lib_ok L \<Longrightarrow> new_CommunityRoleId L role_everyone = Inr role_everyone"
  by (simp add: lib_ok_def new_CommunityRoleId_def role_everyone_def)

lemma channels_values_ops:
  "lib_ok L \<Longrightarrow> channels_values L chs \<Longrightarrow> new_CommunityChannelId L cid = Inr cid \<Longrightarrow> new_CommunityChannelName L name = Inr name \<Longrightarrow>
     new_Timestamp L t = Inr t \<Longrightarrow> channels_values L (addText chs name cid t)"
  "lib_ok L \<Longrightarrow> channels_values L chs \<Longrightarrow> new_CommunityChannelId L cid = Inr cid \<Longrightarrow> new_CommunityChannelName L name = Inr name \<Longrightarrow>
     new_Timestamp L t = Inr t \<Longrightarrow> channels_values L (addVoice chs name cid t)"
  "channels_values L chs \<Longrightarrow> new_CommunityChannelName L name = Inr name \<Longrightarrow> channels_rename chs cid name = Inr chs' \<Longrightarrow>
     channels_values L chs'"
  "lib_ok L \<Longrightarrow> channels_values L chs \<Longrightarrow> \<forall>r \<in> set rids. new_CommunityRoleId L r = Inr r \<Longrightarrow>
     channels_updatePermissions chs cid rids = Inr chs' \<Longrightarrow> channels_values L chs'"
  "channels_values L chs \<Longrightarrow> channels_remove chs cid = Inr (chs', ty) \<Longrightarrow> channels_values L chs'"
proof goal_cases
  case 1
  then show ?case using channel_values_create everyone_ok by (simp add: channels_values_def addText_def)
next
  case 2
  then show ?case using channel_values_create everyone_ok by (simp add: channels_values_def addVoice_def)
next
  case 3
  show ?case by (rule channels_values_change [OF 3(1) 3(3) [unfolded channels_rename_def]])
    (use 3(2) in \<open>auto simp: channel_values_def channel_rename_def\<close>)
next
  case 4
  show ?case by (rule channels_values_change [OF 4(2) 4(4) [unfolded channels_updatePermissions_def]])
    (use 4(3) everyone_ok [OF 4(1)] in \<open>auto simp: channel_values_def channel_updatePermissions_def updateVisibleRoleIds_def\<close>)
next
  case 5
  have "chs' = chs\<lparr>textChannels := splice1 (findIndex (\<lambda>c. channel_getId c = cid) (textChannels chs)) (textChannels chs)\<rparr> \<or>
      chs' = chs\<lparr>voiceChannels := splice1 (findIndex (\<lambda>c. channel_getId c = cid) (voiceChannels chs)) (voiceChannels chs)\<rparr>"
    using 5(2) by (auto simp: channels_remove_def Let_def split: if_splits)
  then have "set (textChannels chs') \<subseteq> set (textChannels chs)" "set (voiceChannels chs') \<subseteq> set (voiceChannels chs)"
    by (elim disjE; simp add: splice1_subset)+
  then show ?case using 5(1) by (auto simp only: channels_values_def)
qed

lemma mapR_values:
  assumes "mapR f xs = Inr ys" and "\<And>x y. f x = Inr y \<Longrightarrow> f y = Inr y" and "y \<in> set ys"
  shows "f y = Inr y"
proof -
  have "list_all2 (\<lambda>x y. f x = Inr y) xs ys" using assms(1) by (simp add: mapR_Inr_iff)
  then show ?thesis using assms(2,3) by (induction rule: list_all2_induct) auto
qed

lemma values_channel_ops:
  assumes ok: "lib_ok L" and v: "values_ok L c"
  shows "new_CommunityChannelId L cid = Inr cid \<Longrightarrow> new_CommunityChannelName L name = Inr name \<Longrightarrow>
      new_Timestamp L t = Inr t \<Longrightarrow> addTextChannel c a name cid t = Inr c' \<Longrightarrow> values_ok L c'"
    and "new_CommunityChannelId L cid = Inr cid \<Longrightarrow> new_CommunityChannelName L name = Inr name \<Longrightarrow>
      new_Timestamp L t = Inr t \<Longrightarrow> addVoiceChannel c a name cid t = Inr c' \<Longrightarrow> values_ok L c'"
    and "new_CommunityChannelName L name = Inr name \<Longrightarrow> renameChannel c a cid name = Inr c' \<Longrightarrow> values_ok L c'"
    and "deleteChannel c a cid = Inr (c', ty) \<Longrightarrow> values_ok L c'"
    and "\<forall>r \<in> set rids. new_CommunityRoleId L r = Inr r \<Longrightarrow> updateChannelPermissions c a cid rids = Inr c' \<Longrightarrow> values_ok L c'"
proof -
  note chs = values_channels [OF v] and part = values_parts(2) [OF v]
  show "new_CommunityChannelId L cid = Inr cid \<Longrightarrow> new_CommunityChannelName L name = Inr name \<Longrightarrow>
      new_Timestamp L t = Inr t \<Longrightarrow> addTextChannel c a name cid t = Inr c' \<Longrightarrow> values_ok L c'"
    using chs channels_values_ops(1) [OF ok part] by (auto simp: addTextChannel_def Let_def)
  show "new_CommunityChannelId L cid = Inr cid \<Longrightarrow> new_CommunityChannelName L name = Inr name \<Longrightarrow>
      new_Timestamp L t = Inr t \<Longrightarrow> addVoiceChannel c a name cid t = Inr c' \<Longrightarrow> values_ok L c'"
    using chs channels_values_ops(2) [OF ok part] by (auto simp: addVoiceChannel_def Let_def)
  show "new_CommunityChannelName L name = Inr name \<Longrightarrow> renameChannel c a cid name = Inr c' \<Longrightarrow> values_ok L c'"
    using chs channels_values_ops(3) [OF part] by (auto simp: renameChannel_def Let_def)
  show "deleteChannel c a cid = Inr (c', ty) \<Longrightarrow> values_ok L c'"
    using chs channels_values_ops(5) [OF part] by (auto simp: deleteChannel_def Let_def)
  show "\<forall>r \<in> set rids. new_CommunityRoleId L r = Inr r \<Longrightarrow> updateChannelPermissions c a cid rids = Inr c' \<Longrightarrow> values_ok L c'"
    using chs channels_values_ops(4) [OF ok part] by (auto simp: updateChannelPermissions_def)
qed

lemma values_member_ops:
  assumes v: "values_ok L c"
  shows "new_IdentityId L i = Inr i \<Longrightarrow> joinAs c a i meth = Inr c' \<Longrightarrow> values_ok L c'"
    and "leave c i = Inr c' \<Longrightarrow> values_ok L c'"
    and "kickMember c a i = Inr c' \<Longrightarrow> values_ok L c'"
    and "new_IdentityId L i = Inr i \<Longrightarrow> banMember c a i = Inr c' \<Longrightarrow> values_ok L c'"
    and "unbanMember c a i = Inr c' \<Longrightarrow> values_ok L c'"
    and "new_IdentityId L i = Inr i \<Longrightarrow> \<forall>r \<in> set rids. new_CommunityRoleId L r = Inr r \<Longrightarrow>
      assignRoles c a i rids = Inr c' \<Longrightarrow> values_ok L c'"
proof -
  note parts = values_membership [OF v] values_parts(1) [OF v]
  show "new_IdentityId L i = Inr i \<Longrightarrow> joinAs c a i meth = Inr c' \<Longrightarrow> values_ok L c'"
    using parts v membership_values_add by (auto dest!: joinAs_join simp: join_def Let_def split: if_splits)
  show "leave c i = Inr c' \<Longrightarrow> values_ok L c'"
    using parts membership_values_remove by (auto simp: leave_def Let_def)
  show "kickMember c a i = Inr c' \<Longrightarrow> values_ok L c'"
    using parts membership_values_remove by (auto simp: kickMember_def Let_def)
  show "new_IdentityId L i = Inr i \<Longrightarrow> banMember c a i = Inr c' \<Longrightarrow> values_ok L c'"
    using parts membership_values_ban by (auto simp: banMember_def Let_def)
  show "unbanMember c a i = Inr c' \<Longrightarrow> values_ok L c'"
    using parts membership_values_unban by (auto simp: unbanMember_def)
  show "new_IdentityId L i = Inr i \<Longrightarrow> \<forall>r \<in> set rids. new_CommunityRoleId L r = Inr r \<Longrightarrow>
      assignRoles c a i rids = Inr c' \<Longrightarrow> values_ok L c'"
    using parts membership_values_assign by (auto simp: assignRoles_def)
qed

lemma values_role_ops:
  assumes v: "values_ok L c"
  shows "new_CommunityRoleId L rid = Inr rid \<Longrightarrow> new_CommunityRoleName L name = Inr name \<Longrightarrow>
      addRole c a name ps rid = Inr c' \<Longrightarrow> values_ok L c'"
    and "new_CommunityRoleName L name = Inr name \<Longrightarrow> updateRole c a rid name ps = Inr c' \<Longrightarrow> values_ok L c'"
    and "deleteRole c a rid = Inr c' \<Longrightarrow> values_ok L c'"
proof -
  note parts = values_membership [OF v] values_parts(1) [OF v]
  show "new_CommunityRoleId L rid = Inr rid \<Longrightarrow> new_CommunityRoleName L name = Inr name \<Longrightarrow>
      addRole c a name ps rid = Inr c' \<Longrightarrow> values_ok L c'"
    using parts membership_values_addRole by (auto simp: addRole_def)
  show "new_CommunityRoleName L name = Inr name \<Longrightarrow> updateRole c a rid name ps = Inr c' \<Longrightarrow> values_ok L c'"
    using parts membership_values_updateRole by (auto simp: updateRole_def)
  show "deleteRole c a rid = Inr c' \<Longrightarrow> values_ok L c'"
    using parts membership_values_deleteRole by (auto simp: deleteRole_def)
qed

lemma values_updateProfile:
  "values_ok L c \<Longrightarrow> new_CommunityName L n = Inr n \<Longrightarrow> new_CommunityDescription L d = Inr d \<Longrightarrow>
     optional_values (new_CommunityAvatar L) av \<Longrightarrow> optional_values (new_CommunityBanner L) bn \<Longrightarrow>
     updateProfile c a n d av bn disc auto = Inr c' \<Longrightarrow> values_ok L c'"
  by (auto simp: updateProfile_def values_ok_def profile_values_def Let_def updateDiscoverable_def
      updateAutoJoinEnabled_def split: option.splits)

lemma optional_value_ok:
  assumes "optional_value build v = Inr w" and "\<And>s t. build s = Inr t \<Longrightarrow> build t = Inr t"
  shows "optional_values build w"
  using assms by (auto simp: optional_value_def optional_values_def split: option.splits)

lemma canonical_identity_ok: "lib_ok L \<Longrightarrow> canonical_identity L s = Inr i \<Longrightarrow> new_IdentityId L i = Inr i"
  by (auto simp: canonical_identity_def intro: lib_ok_values(1))

lemma op_member_ok: "lib_ok L \<Longrightarrow> op_member L op = Inr i \<Longrightarrow> new_IdentityId L i = Inr i"
  by (auto simp: op_member_def intro: canonical_identity_ok)

lemma role_ids_ok:
  "lib_ok L \<Longrightarrow> mapR (new_CommunityRoleId L) xs = Inr rids \<Longrightarrow> \<forall>r \<in> set rids. new_CommunityRoleId L r = Inr r"
  using mapR_values [of "new_CommunityRoleId L" xs rids] lib_ok_values(4) by blast

lemma handler_values:
  assumes ok: "lib_ok L" and v: "values_ok L c" and h: "handler L a = Some h" and ap: "h c op args = Inr c'"
  shows "values_ok L c'"
proof (cases a)
  case CHANNEL_CREATED
  then have "apply_createChannel L c op = Inr c'" using h ap by auto
  then obtain s cid s' name t where n: "new_CommunityChannelId L s = Inr cid" "new_CommunityChannelName L s' = Inr name"
    and t: "new_Timestamp L (op_createdAt op) = Inr t"
    and ch: "addTextChannel c (op_author op) name cid t = Inr c' \<or> addVoiceChannel c (op_author op) name cid t = Inr c'"
    by (auto simp: apply_createChannel_def split: if_splits)
  from ch show ?thesis
    using values_channel_ops(1,2) [OF ok v lib_ok_values(5) [OF ok n(1)] lib_ok_values(9) [OF ok n(2)] timestamp_ok [OF t]] by blast
next
  case CHANNEL_DELETED
  then show ?thesis using h ap ok v by (auto simp: apply_deleteChannel_def intro: values_channel_ops(4))
next
  case CHANNEL_PERMISSIONS_UPDATED
  then have "apply_updateChannelPermissions L c op args = Inr c'" using h ap by auto
  then obtain xs rids cid where r: "mapR (new_CommunityRoleId L) xs = Inr rids"
    and up: "updateChannelPermissions c (op_author op) cid rids = Inr c'"
    by (auto simp: apply_updateChannelPermissions_def)
  from values_channel_ops(5) [OF ok v role_ids_ok [OF ok r] up] show ?thesis .
next
  case CHANNEL_RENAMED
  then have "apply_renameChannel L c op = Inr c'" using h ap by auto
  then obtain s name cid where n: "new_CommunityChannelName L s = Inr name"
    and up: "renameChannel c (op_author op) cid name = Inr c'" by (auto simp: apply_renameChannel_def)
  from values_channel_ops(3) [OF ok v lib_ok_values(9) [OF ok n] up] show ?thesis .
next
  case COMMUNITY_UPDATED
  then have "apply_updateProfile L c op args = Inr c'" using h ap by auto
  then obtain s name s' desc u av w bn disc auto where
    n: "new_CommunityName L s = Inr name" "new_CommunityDescription L s' = Inr desc"
    and b: "optional_value (new_CommunityAvatar L) u = Inr av" "optional_value (new_CommunityBanner L) w = Inr bn"
    and up: "updateProfile c (op_author op) name desc av bn disc auto = Inr c'"
    by (auto simp: apply_updateProfile_def)
  show ?thesis
    using values_updateProfile [OF v lib_ok_values(7) [OF ok n(1)] lib_ok_values(8) [OF ok n(2)]
        optional_value_ok [OF b(1) lib_ok_values(10) [OF ok]] optional_value_ok [OF b(2) lib_ok_values(11) [OF ok]] up] .
next
  case MEMBER_JOINED
  then have "apply_join L c op = Inr c'" using h ap by auto
  then obtain s i meth where i: "canonical_identity L s = Inr i" and up: "joinAs c (op_author op) i meth = Inr c'"
    by (auto simp: apply_join_def)
  from values_member_ops(1) [OF v canonical_identity_ok [OF ok i] up] show ?thesis .
next
  case MEMBER_LEFT
  then have "leave c (op_author op) = Inr c'" using h ap by (auto simp: apply_leave_def)
  from values_member_ops(2) [OF v this] show ?thesis .
next
  case MEMBER_ROLES_UPDATED
  then have "apply_assignRoles L c op args = Inr c'" using h ap by auto
  then obtain s i xs rids where i: "canonical_identity L s = Inr i" and r: "mapR (new_CommunityRoleId L) xs = Inr rids"
    and up: "assignRoles c (op_author op) i rids = Inr c'" by (auto simp: apply_assignRoles_def)
  from values_member_ops(6) [OF v canonical_identity_ok [OF ok i] role_ids_ok [OF ok r] up] show ?thesis .
next
  case ROLE_CREATED
  then have "apply_createRole L c op = Inr c'" using h ap by auto
  then obtain s rid s' name ps where n: "new_CommunityRoleId L s = Inr rid" "new_CommunityRoleName L s' = Inr name"
    and up: "addRole c (op_author op) name ps rid = Inr c'" by (auto simp: apply_createRole_def)
  from values_role_ops(1) [OF v lib_ok_values(4) [OF ok n(1)] lib_ok_values(6) [OF ok n(2)] up] show ?thesis .
next
  case ROLE_UPDATED
  then have "apply_updateRole L c op args = Inr c'" using h ap by auto
  then obtain s' name rid ps where n: "new_CommunityRoleName L s' = Inr name"
    and up: "updateRole c (op_author op) rid name ps = Inr c'" by (auto simp: apply_updateRole_def)
  from values_role_ops(2) [OF v lib_ok_values(6) [OF ok n] up] show ?thesis .
next
  case ROLE_DELETED
  then obtain rid where "deleteRole c (op_author op) rid = Inr c'" using h ap by (auto simp: apply_deleteRole_def)
  from values_role_ops(3) [OF v this] show ?thesis .
next
  case MEMBER_BANNED
  then obtain i where i: "op_member L op = Inr i" and up: "banMember c (op_author op) i = Inr c'" using h ap by auto
  from values_member_ops(4) [OF v op_member_ok [OF ok i] up] show ?thesis .
next
  case MEMBER_KICKED
  then obtain i where "kickMember c (op_author op) i = Inr c'" using h ap by auto
  from values_member_ops(3) [OF v this] show ?thesis .
next
  case MEMBER_UNBANNED
  then obtain i where "unbanMember c (op_author op) i = Inr c'" using h ap by auto
  from values_member_ops(5) [OF v this] show ?thesis .
qed (use h ap v in auto)

lemma apply_operation_values:
  assumes "lib_ok L" and "values_ok L c" and "apply_operation L c op base = Inr c'"
  shows "values_ok L c'"
  using assms by (auto simp: apply_operation_def split: option.splits intro: handler_values)

text \<open>What the builder of an operation guarantees of its identifiers.\<close>

definition op_values :: "lib \<Rightarrow> operation \<Rightarrow> bool" where
  "op_values L op \<longleftrightarrow>
     new_IdentityId L (op_author op) = Inr (op_author op) \<and>
     new_CommunityId L (op_communityId op) = Inr (op_communityId op) \<and>
     new_NetworkId L (op_networkId op) = Inr (op_networkId op)"

lemma default_roles_values: "lib_ok L \<Longrightarrow> role_values L role_of_everyone"
  using everyone_ok [of L]
  by (simp add: role_values_def role_of_everyone_def new_CommunityRoleName_def lib_ok_def)

lemma apply_create_values:
  assumes ok: "lib_ok L" and op: "op_values L op" and c: "apply_create L op = Inr c"
  shows "values_ok L c"
proof -
  from c obtain s name s' desc v a w b d vis auto t where
    n: "new_CommunityName L s = Inr name" "new_CommunityDescription L s' = Inr desc"
    and o': "optional_value (new_CommunityAvatar L) v = Inr a" "optional_value (new_CommunityBanner L) w = Inr b"
    and t: "new_Timestamp L (op_createdAt op) = Inr t"
    and cc: "c = community_create (op_author op) (op_networkId op)
      \<lparr>profile_name = name, profile_description = desc, profile_avatar = a, profile_banner = b\<rparr>
      (settings_create d vis auto t) (op_communityId op)"
    by (auto simp: apply_create_def)
  have "profile_values L \<lparr>profile_name = name, profile_description = desc, profile_avatar = a, profile_banner = b\<rparr>"
    using n o' lib_ok_values(7,8) [OF ok] optional_value_ok [OF o'(1)] optional_value_ok [OF o'(2)]
      lib_ok_values(10,11) [OF ok] by (auto simp: profile_values_def)
  then show ?thesis using op default_roles_values [OF ok] timestamp_ok [OF t]
    by (simp add: cc settings_create_def community_create_def Let_def values_ok_def op_values_def membership_values_def
        channels_values_def roles_default_def)
qed

lemma values_copy [simp]: "values_ok L c \<Longrightarrow> values_ok L (copy_of c)"
  by (auto simp: copy_of_def values_ok_def profile_values_def optional_values_def drop_empty_def)

text \<open>The copy is the same community for every check and every change of its members.\<close>

lemma copy_of_simps [simp]:
  "c_id (copy_of c) = c_id c" "c_network (copy_of c) = c_network c" "c_owner (copy_of c) = c_owner c"
  "c_membership (copy_of c) = c_membership c" "c_channels (copy_of c) = c_channels c"
  "c_settings (copy_of c) = c_settings c" "c_events (copy_of c) = []"
  by (simp_all add: copy_of_def)

lemma copy_inv [simp]: "community_inv (copy_of c) = community_inv c"
  by (simp add: community_inv_def)

lemma copy_copy [simp]: "copy_of (copy_of c) = copy_of c"
  by (simp add: copy_of_def drop_empty_def)

end
