(* ===== verification/OperationBuilder.thy ===== *)
theory OperationBuilder
  imports CommunityValues
begin

text \<open>
  What an operation that was built satisfies:
  \<open>CommunityOperation.fromPrimitives\<close> and the private constructor of
  \<open>src/contexts/communities/domain/operations/CommunityOperation.ts\<close>. These are the facts the
  fold and the ledger rely on: distinct parents in ascending order, an id that commits to the
  content, a genesis exactly when there is no parent, values its constructors keep.
\<close>

text \<open>A genesis has no parents and every other operation has some: its builder refuses anything else.\<close>

definition genesis_shape :: "operation \<Rightarrow> bool" where
  "genesis_shape op \<longleftrightarrow> isGenesis op = (op_parents op = [])"

definition built_operation :: "lib \<Rightarrow> operation \<Rightarrow> bool" where
  "built_operation L op \<longleftrightarrow>
     op_values L op \<and> genesis_shape op \<and>
     sorted_wrt (<) (op_parents op) \<and> length (op_parents op) \<le> MAX_PARENTS \<and>
     (\<forall>p \<in> set (op_parents op). isDigest p) \<and>
     digestOf L (contentOf (op_primitives op)) = Inr (op_hash op) \<and>
     op_id op = recordIdOf (op_p_communityId (op_primitives op)) (op_hash op) \<and>
     0 \<le> op_createdAt op \<and> op_createdAt op < 2 ^ 53 \<and>
     json_bytes (JObject (op_args op)) \<le> MAX_ARGUMENT_BYTES \<and>
     depthOf (JObject (op_args op)) \<le> MAX_ARGUMENT_DEPTH"

lemma ascending_sorted: "ascending xs = sorted_wrt (<) xs"
proof (induction xs rule: ascending.induct)
  case (3 x y zs)
  then show ?case by (auto dest: less_trans)
qed simp_all

lemma ascending_distinct: "sorted_wrt (<) (xs :: string list) \<Longrightarrow> distinct xs"
  by (induction xs) auto

lemma parents_digests: "mapR parent_of_json xs = Inr ps \<Longrightarrow> length ps = length xs \<and> (\<forall>p \<in> set ps. isDigest p)"
proof (induction xs arbitrary: ps)
  case (Cons x xs)
  then show ?case by (auto simp: parent_of_json_def split: json.splits if_splits)
qed simp

lemma op_parentsOf_Inr:
  "op_parentsOf v = Inr ps \<Longrightarrow> sorted_wrt (<) ps \<and> length ps \<le> MAX_PARENTS \<and> (\<forall>p \<in> set ps. isDigest p)"
  by (auto simp: op_parentsOf_def ascending_sorted split: option.splits json.splits if_splits dest: parents_digests)

lemma op_argsOf_Inr:
  "op_argsOf v = Inr args \<Longrightarrow>
     json_bytes (JObject args) \<le> MAX_ARGUMENT_BYTES \<and> depthOf (JObject args) \<le> MAX_ARGUMENT_DEPTH"
  by (auto simp del: json_bytes.simps depthOf.simps simp: op_argsOf_def assertArguments_def split: option.splits json.splits)

lemma new_operation_Inr:
  assumes "new_operation L p a author cid network signature = Inr op"
  shows "op = \<lparr>op_primitives = p, op_action = a, op_author = author, op_communityId = cid,
      op_networkId = network, op_signature = signature, op_hash = op_hash op\<rparr> \<and>
    digestOf L (contentOf p) = Inr (op_hash op) \<and> op_p_id p = recordIdOf (op_p_communityId p) (op_hash op) \<and>
    action_isGenesis a = (op_p_parents p = [])"
  using assms by (auto simp: new_operation_def split: if_splits)

lemma asInvalid_Inr [simp]: "asInvalid r = Inr x \<longleftrightarrow> r = Inr x"
  by (cases r) (simp_all add: asInvalid_def)

lemma safe_integer_less: "safe_integer n \<Longrightarrow> n < 2 ^ 53"
  by (simp add: safe_integer_def)

lemma scope_case:
  "(case (x, y) of (Some (JString scope), Some (JInt createdAt)) \<Rightarrow> f scope createdAt | _ \<Rightarrow> Inl e) = Inr r
     \<Longrightarrow> \<exists>scope createdAt. f scope createdAt = Inr r"
  by (auto split: option.splits json.splits)

lemma operation_fromPrimitives_parts:
  assumes "operation_fromPrimitives L v = Inr op"
  shows "\<exists>act args author cid oid signature network parents createdAt a i c n s av pv.
    op_argsOf av = Inr args \<and> op_parentsOf pv = Inr parents \<and> safe_integer createdAt \<and> 0 \<le> createdAt \<and>
    new_IdentityId L author = Inr i \<and> new_CommunityId L cid = Inr c \<and> new_NetworkId L network = Inr n \<and>
    new_operation L \<lparr>op_p_action = act, op_p_args = args, op_p_author = author, op_p_communityId = cid,
       op_p_createdAt = createdAt, op_p_id = oid, op_p_signature = signature,
       op_p_networkId = network, op_p_parents = parents\<rparr> a i c n s = Inr op"
  using assms unfolding operation_fromPrimitives_def bindR_eq_Inr
proof (elim exE conjE, goal_cases)
  case (1 rec act args author cid oid signature network parents)
  from scope_case [OF 1(10)] obtain scope createdAt where
    c: "(if scope \<noteq> ''community_operation'' \<or> \<not> safe_integer createdAt \<or> createdAt < 0
        then Inl InvalidCommunityOperationError
        else asInvalid
          (bindR (new_CommunityOperationAction act) (\<lambda>a.
           bindR (new_IdentityId L author) (\<lambda>i.
           bindR (new_CommunityId L cid) (\<lambda>c.
           bindR (new_NetworkId L network) (\<lambda>n.
           bindR (value_object (lib_signature L signature)) (\<lambda>s.
             new_operation L
               \<lparr>op_p_action = act, op_p_args = args, op_p_author = author, op_p_communityId = cid,
                op_p_createdAt = createdAt, op_p_id = oid, op_p_signature = signature,
                op_p_networkId = network, op_p_parents = parents\<rparr> a i c n s)))))))
      = Inr op" by blast
  then have d: "safe_integer createdAt" "0 \<le> createdAt" by (auto split: if_splits)
  from c obtain a i c n s where "new_IdentityId L author = Inr i" "new_CommunityId L cid = Inr c"
    "new_NetworkId L network = Inr n"
    "new_operation L \<lparr>op_p_action = act, op_p_args = args, op_p_author = author, op_p_communityId = cid,
       op_p_createdAt = createdAt, op_p_id = oid, op_p_signature = signature,
       op_p_networkId = network, op_p_parents = parents\<rparr> a i c n s = Inr op"
    by (auto split: if_splits)
  with 1(3,9) d show ?case by blast
qed

lemma operation_built:
  assumes ok: "lib_ok L" and "operation_fromPrimitives L v = Inr op"
  shows "built_operation L op"
proof -
  from operation_fromPrimitives_parts [OF assms(2)]
  obtain act args author cid oid signature network parents createdAt a i c n s av pv where
    h: "op_argsOf av = Inr args" "op_parentsOf pv = Inr parents" "safe_integer createdAt" "0 \<le> createdAt"
    "new_IdentityId L author = Inr i" "new_CommunityId L cid = Inr c" "new_NetworkId L network = Inr n"
    and n: "new_operation L \<lparr>op_p_action = act, op_p_args = args, op_p_author = author, op_p_communityId = cid,
       op_p_createdAt = createdAt, op_p_id = oid, op_p_signature = signature,
       op_p_networkId = network, op_p_parents = parents\<rparr> a i c n s = Inr op"
    by blast
  from new_operation_Inr [OF n] obtain h' where o': "op = \<lparr>op_primitives = \<lparr>op_p_action = act, op_p_args = args,
       op_p_author = author, op_p_communityId = cid,
       op_p_createdAt = createdAt, op_p_id = oid, op_p_signature = signature,
       op_p_networkId = network, op_p_parents = parents\<rparr>, op_action = a, op_author = i, op_communityId = c,
      op_networkId = n, op_signature = s, op_hash = h'\<rparr>"
    "digestOf L (contentOf (op_primitives op)) = Inr h'" "oid = recordIdOf cid h'"
    "action_isGenesis a = (parents = [])" by (auto simp: contentOf_def)
  have "op_values L op" using h(5-7) lib_ok_values [OF ok] by (simp add: op_values_def o'(1))
  then show ?thesis
    using op_parentsOf_Inr [OF h(2)] op_argsOf_Inr [OF h(1)] safe_integer_less [OF h(3)] h(4) o'(2-4)
    by (simp add: built_operation_def genesis_shape_def isGenesis_def op_parents_def op_args_def op_createdAt_def
        op_id_def o'(1) del: json_bytes.simps depthOf.simps)
qed

lemma built_distinct: "built_operation L op \<Longrightarrow> op_values L op \<and> distinct (op_parents op)"
  by (auto simp: built_operation_def intro: ascending_distinct)

text \<open>The operations of a set, each one built from some record.\<close>

definition operations_built :: "lib \<Rightarrow> operation list \<Rightarrow> bool" where
  "operations_built L ops \<longleftrightarrow> (\<forall>op \<in> set ops. \<exists>v. operation_fromPrimitives L v = Inr op)"

lemma operations_built_all: "lib_ok L \<Longrightarrow> operations_built L ops \<Longrightarrow> op \<in> set ops \<Longrightarrow> built_operation L op"
  by (auto simp: operations_built_def intro: operation_built)

end
