(* ===== verification/StateFold.thy ===== *)
theory StateFold
  imports AuthorityCuts OperationBuilder
begin

text \<open>
  The state of a community as a function of its operations:
  \<open>src/contexts/communities/domain/operations/CommunityStateFold.ts\<close> (\<open>quotaOf\<close>, \<open>advance\<close>,
  \<open>pastOf\<close>, \<open>baseOf\<close>, \<open>isVoid\<close>, \<open>next\<close>, \<open>foldOf\<close>, \<open>fold\<close>) and \<open>CommunityState.ts\<close>. The code
  remembers the states of causal pasts in \<open>pasts\<close>; here each is computed where it is asked
  for. A computation that may not return or may throw is \<open>'a throws\<close>: \<open>Inl None\<close> when it does
  not return, \<open>Inl (Some e)\<close> when it throws \<open>e\<close>.
\<close>

section \<open>The code\<close>

type_synonym 'a throws = "community_error option + 'a"

definition throws_of :: "community_error + 'a \<Rightarrow> 'a throws" where
  "throws_of r = (case r of Inl e \<Rightarrow> Inl (Some e) | Inr x \<Rightarrow> Inr x)"

lemma throws_of_Inr [simp]: "throws_of r = Inr x \<longleftrightarrow> r = Inr x"
  by (cases r) (auto simp: throws_of_def)

lemma throws_of_simps [simp]: "throws_of (Inl e) = Inl (Some e)" "throws_of (Inr x) = Inr x"
  by (simp_all add: throws_of_def)

record community_state =
  st_community :: "community option"
  st_deleted :: bool
  st_frontier :: "string list"
  st_invitations :: invitations
  st_skipped :: "string list"

text \<open>\<open>quotaOf\<close>: the counts of the closure and the founder, and one call of it.\<close>

definition founderOf :: "operation list \<Rightarrow> identity_id option" where
  "founderOf ordered = (case find isGenesis ordered of None \<Rightarrow> None | Some g \<Rightarrow> Some (op_author g))"

definition signedBy :: "(string, nat) jsmap \<Rightarrow> identity_id \<Rightarrow> nat" where
  "signedBy signed i = (case map_of signed i of None \<Rightarrow> 0 | Some n \<Rightarrow> n)"

definition withinQuota :: "identity_id option \<Rightarrow> (string, nat) jsmap \<Rightarrow> operation \<Rightarrow> (string, nat) jsmap \<times> bool" where
  "withinQuota founder signed op =
     (let author = op_author op; n = signedBy signed author in
      (AList.update author (n + 1) signed, founder = Some author \<or> \<not> isAuthorQuotaReached n))"

definition advance :: "string list \<Rightarrow> operation \<Rightarrow> string list \<times> bool" where
  "advance heads op =
     (let parents = op_parents op;
          concurrent = (length parents \<noteq> length heads \<or> list_ex (\<lambda>p. p \<notin> set heads) parents)
      in (set_add (op_hash op) (fold set_delete parents heads), concurrent))"

definition fold_isVoid :: "operation \<Rightarrow> cuts \<Rightarrow> (string, operation) jsmap \<Rightarrow> bool" where
  "fold_isVoid op C byHash =
     (if cuts_isVoid C op then True
      else (case (if isAdmission op
                  then (case map_of (op_args op) ''invitationId'' of
                          Some (JString s) \<Rightarrow> map_of byHash s | _ \<Rightarrow> None)
                  else None) of
              None \<Rightarrow> False | Some iv \<Rightarrow> cuts_isVoid C iv))"

definition fold_next :: "lib \<Rightarrow> community option \<Rightarrow> operation \<Rightarrow> community option \<Rightarrow> community_error + community" where
  "fold_next L community op base =
     (if isGenesis op
      then bindR (ensure (community = None) InvalidCommunityOperationError) (\<lambda>_. apply_create L op)
      else (case community of
              None \<Rightarrow> Inl InvalidCommunityOperationError
            | Some c \<Rightarrow>
                bindR (ensure (op_communityId op = c_id c) InvalidCommunityOperationError) (\<lambda>_.
                bindR (fromPrimitives L (toPrimitives c)) (\<lambda>candidate.
                  apply_operation L candidate op base))))"

definition pullDomainEvents :: "community \<Rightarrow> community" where
  "pullDomainEvents c = c\<lparr>c_events := []\<rparr>"

definition fold_baseOf :: "lib \<Rightarrow> (operation \<Rightarrow> community_state throws) \<Rightarrow> operation \<Rightarrow> bool \<Rightarrow> community option throws" where
  "fold_baseOf L pastOf op concurrent =
     (if concurrent \<and> rebases L op
      then bindR (pastOf op) (\<lambda>pst. Inr (st_community pst)) else Inr None)"

text \<open>The variables of the loop of \<open>foldOf\<close>.\<close>

record fold_state =
  f_heads :: "string list"
  f_signed :: "(string, nat) jsmap"
  f_community :: "community option"
  f_deleted :: bool
  f_invitations :: invitations
  f_skipped :: "string list"

definition fold_init :: fold_state where
  "fold_init = \<lparr>f_heads = [], f_signed = [], f_community = None, f_deleted = False,
                f_invitations = EMPTY, f_skipped = []\<rparr>"

text \<open>What is inside \<open>try\<close>: \<open>Inr None\<close> when an error was caught.\<close>

definition fold_try :: "lib \<Rightarrow> (operation \<Rightarrow> community_state throws) \<Rightarrow> community option \<Rightarrow> operation \<Rightarrow> bool
    \<Rightarrow> community option throws" where
  "fold_try L pastOf community op concurrent =
     (case bindR (fold_baseOf L pastOf op concurrent) (\<lambda>base. throws_of (fold_next L community op base)) of
        Inr c \<Rightarrow> Inr (Some (pullDomainEvents c))
      | Inl (Some e) \<Rightarrow> Inr None
      | Inl None \<Rightarrow> Inl None)"

definition fold_step :: "lib \<Rightarrow> identity_id option \<Rightarrow> cuts \<Rightarrow> (string, operation) jsmap
    \<Rightarrow> (operation \<Rightarrow> community_state throws) \<Rightarrow> operation \<Rightarrow> fold_state \<Rightarrow> fold_state throws" where
  "fold_step L founder C byHash pastOf op s =
     (case (advance (f_heads s) op, withinQuota founder (f_signed s) op) of
        ((heads, concurrent), (signed, within)) \<Rightarrow>
          bindR (if within \<and> \<not> f_deleted s \<and> \<not> fold_isVoid op C byHash
                 then fold_try L pastOf (f_community s) op concurrent else Inr None) (\<lambda>result.
          let applied = (result \<noteq> None);
              s1 = s\<lparr>f_heads := heads, f_signed := signed,
                     f_community := (if applied then result else f_community s),
                     f_deleted := (case result of None \<Rightarrow> f_deleted s
                                     | Some c \<Rightarrow> \<not> hasMembers (c_membership c)),
                     f_skipped := (if applied then f_skipped s else f_skipped s @ [op_hash op])\<rparr>
          in bindR (throws_of (invitations_after L (f_invitations s) op applied)) (\<lambda>invs.
               Inr (s1\<lparr>f_invitations := invs\<rparr>))))"

fun fold_loop :: "lib \<Rightarrow> identity_id option \<Rightarrow> cuts \<Rightarrow> (string, operation) jsmap
    \<Rightarrow> (operation \<Rightarrow> community_state throws) \<Rightarrow> operation list \<Rightarrow> fold_state \<Rightarrow> fold_state throws" where
  "fold_loop L founder C byHash pastOf [] s = Inr s"
| "fold_loop L founder C byHash pastOf (op # ops) s =
     bindR (fold_step L founder C byHash pastOf op s) (fold_loop L founder C byHash pastOf ops)"

lemma fold_step_cong:
  "pastOf op = pastOf' op \<Longrightarrow> fold_step L founder C byHash pastOf op s = fold_step L founder C byHash pastOf' op s"
proof -
  assume "pastOf op = pastOf' op"
  then have "fold_try L pastOf c op b = fold_try L pastOf' c op b" for c b
    by (simp add: fold_try_def fold_baseOf_def)
  then show ?thesis by (simp only: fold_step_def)
qed

lemma fold_loop_cong [fundef_cong]:
  assumes "L = L'" and "founder = founder'" and "C = C'" and "byHash = byHash'" and "ops = ops'" and "s = s'"
    and "\<And>op. op \<in> set ops' \<Longrightarrow> pastOf op = pastOf' op"
  shows "fold_loop L founder C byHash pastOf ops s = fold_loop L' founder' C' byHash' pastOf' ops' s'"
proof -
  have "fold_loop L founder C byHash pastOf ops s = fold_loop L founder C byHash pastOf' ops s"
    if "\<forall>op \<in> set ops. pastOf op = pastOf' op" for s
    using that
  proof (induction ops arbitrary: s)
    case (Cons op ops)
    then have "fold_step L founder C byHash pastOf op s = fold_step L founder C byHash pastOf' op s" for s
      by (intro fold_step_cong) simp
    with Cons show ?case by (auto intro!: bindR_cong)
  qed simp
  then show ?thesis using assms by simp
qed

function foldOf :: "lib \<Rightarrow> operation list \<Rightarrow> community_state throws" where
  "foldOf L ops =
     (case orderOf ops of
        None \<Rightarrow> Inl None
      | Some ordered \<Rightarrow>
          let byHash = jsmap_of (map (\<lambda>op. (op_hash op, op)) ordered) in
          bindR (new_AuthorityCuts ordered (new_Ancestry ordered) (\<lambda>op.
                   bindR (case closureOf ordered (op_parents op) of
                            Inl e \<Rightarrow> Inl (Some e) | Inr closure \<Rightarrow> foldOf L closure) (\<lambda>pst.
                     throws_of (takenBy L (st_community pst) op)))) (\<lambda>C.
          bindR (fold_loop L (founderOf ordered) C byHash (\<lambda>op.
                   case closureOf ordered (op_parents op) of
                     Inl e \<Rightarrow> Inl (Some e) | Inr closure \<Rightarrow> foldOf L closure)
                   ordered fold_init) (\<lambda>s.
            Inr \<lparr>st_community = f_community s, st_deleted = f_deleted s,
                 st_frontier = frontierOf ordered,
                 st_invitations = cutWhere (f_invitations s) (cutsIssuerOf C),
                 st_skipped = f_skipped s\<rparr>)))"
  by pat_completeness auto

termination
  by (relation "measure (\<lambda>(L, ops). card (op_hash ` set ops))") (auto intro: closure_smaller)

declare foldOf.simps [simp del]

definition fold_operations :: "lib \<Rightarrow> operation list \<Rightarrow> community_state throws" where
  "fold_operations L ops = foldOf L ops"

text \<open>\<open>pastOf\<close>: the state folded from the causal past of an operation.\<close>

definition fold_pastOf :: "lib \<Rightarrow> operation list \<Rightarrow> operation \<Rightarrow> community_state throws" where
  "fold_pastOf L ordered op =
     (case closureOf ordered (op_parents op) of
        Inl e \<Rightarrow> Inl (Some e) | Inr closure \<Rightarrow> foldOf L closure)"

lemma foldOf_unfold:
  "foldOf L ops =
     (case orderOf ops of
        None \<Rightarrow> Inl None
      | Some ordered \<Rightarrow>
          bindR (new_AuthorityCuts ordered (new_Ancestry ordered) (\<lambda>op.
                   bindR (fold_pastOf L ordered op) (\<lambda>pst. throws_of (takenBy L (st_community pst) op)))) (\<lambda>C.
          bindR (fold_loop L (founderOf ordered) C (knownOf ordered) (fold_pastOf L ordered) ordered fold_init) (\<lambda>s.
            Inr \<lparr>st_community = f_community s, st_deleted = f_deleted s,
                 st_frontier = frontierOf ordered,
                 st_invitations = cutWhere (f_invitations s) (cutsIssuerOf C),
                 st_skipped = f_skipped s\<rparr>)))"
  by (simp only: foldOf.simps [of L ops] fold_pastOf_def [abs_def] knownOf_def Let_def)

section \<open>The fold converges\<close>

text \<open>The state depends on the operations known under each digest, not on how they arrived.\<close>

lemma foldOf_cong:
  assumes "map_of (knownOf ops) = map_of (knownOf ops')" and "distinct_parents ops" and "distinct_parents ops'"
  shows "foldOf L ops = foldOf L ops'"
  unfolding foldOf_unfold [of L ops] foldOf_unfold [of L ops'] orderOf_cong [OF assms] ..

lemma foldOf_converges:
  assumes "inj_on op_hash (set ops)" and "set ops = set ops'" and "distinct_parents ops"
  shows "foldOf L ops = foldOf L ops'"
  using assms by (intro foldOf_cong known_cong) (simp_all add: distinct_parents_def)

text \<open>
  What justifies remembering the states of causal pasts by their set of parents: two lists
  that hold the same operations of the past give the same state.
\<close>

lemma past_cong:
  assumes i: "inj_on op_hash (set xs)" "inj_on op_hash (set ys)"
    and cl: "closureOf xs ps = Inr cl" and sub: "set cl \<subseteq> set ys" and ps: "set ps = set qs"
  shows "past ys qs = past xs ps"
proof
  have px: "parents_in ys h = parents_in xs h" if "h \<in> past xs ps" for h
  proof -
    from that obtain op where op: "op \<in> set cl" "op_hash op = h" using closureOf_spec(3) [OF cl] by auto
    then have "map_of (knownOf xs) h = Some op" "map_of (knownOf ys) h = Some op"
      using closureOf_spec(2) [OF cl] known_iff [OF i(2)] sub by auto
    then show ?thesis by (simp add: parents_in_def)
  qed
  show "past ys qs \<subseteq> past xs ps"
  proof (rule past_subset)
    show "set qs \<subseteq> past xs ps" using past_parents [of ps xs] ps by simp
    show "parents_in ys h \<subseteq> past xs ps" if "h \<in> past xs ps" for h
      using px [OF that] past_closed [OF that] by simp
  qed
  have "past xs ps \<subseteq> past ys qs \<inter> past xs ps"
  proof (rule past_subset)
    show "set ps \<subseteq> past ys qs \<inter> past xs ps" using past_parents [of qs ys] past_parents [of ps xs] ps by simp
    fix h assume h: "h \<in> past ys qs \<inter> past xs ps"
    then have "h \<in> past xs ps" "h \<in> past ys qs" by simp_all
    then show "parents_in xs h \<subseteq> past ys qs \<inter> past xs ps"
      using px past_closed [of h ys qs] past_closed [of h xs ps] by simp
  qed
  then show "past xs ps \<subseteq> past ys qs" by simp
qed

lemma past_state_shared:
  assumes i: "inj_on op_hash (set xs)" "inj_on op_hash (set ys)"
    and d: "distinct_parents xs" "distinct_parents ys"
    and cl: "closureOf xs ps = Inr cl" "closureOf ys qs = Inr cl'" and sub: "set cl \<subseteq> set ys" and ps: "set ps = set qs"
  shows "foldOf L cl = foldOf L cl'"
proof (rule foldOf_cong)
  have p: "past ys qs = past xs ps" by (rule past_cong [OF i cl(1) sub ps])
  have "map_of (knownOf xs) h = map_of (knownOf ys) h" if "h \<in> past xs ps" for h
  proof -
    from that obtain op where op: "op \<in> set cl" "op_hash op = h" using closureOf_spec(3) [OF cl(1)] by auto
    then have "map_of (knownOf xs) h = Some op" "map_of (knownOf ys) h = Some op"
      using closureOf_spec(2) [OF cl(1)] known_iff [OF i(2)] sub by auto
    then show ?thesis by simp
  qed
  then show "map_of (knownOf cl) = map_of (knownOf cl')"
    by (intro ext) (simp add: closure_known [OF cl(1) i(1)] closure_known [OF cl(2) i(2)] p)
  have "set cl \<subseteq> set xs" "set cl' \<subseteq> set ys"
    using closureOf_spec(2) [OF cl(1)] closureOf_spec(2) [OF cl(2)] known_iff [OF i(1)] known_iff [OF i(2)] by blast+
  then show "distinct_parents cl" "distinct_parents cl'" using d by (auto simp: distinct_parents_def)
qed

section \<open>The fold never throws and keeps the invariants\<close>

definition community_ok :: "lib \<Rightarrow> community \<Rightarrow> bool" where
  "community_ok L c \<longleftrightarrow> values_ok L c \<and> c_events c = [] \<and> (community_inv c \<or> \<not> hasMembers (c_membership c))"

definition state_ok :: "lib \<Rightarrow> community_state \<Rightarrow> bool" where
  "state_ok L st \<longleftrightarrow>
     (\<forall>c. st_community st = Some c \<longrightarrow> community_ok L c) \<and>
     st_deleted st = (\<exists>c. st_community st = Some c \<and> \<not> hasMembers (c_membership c)) \<and>
     invitations_inv (st_invitations st)"

definition loop_ok :: "lib \<Rightarrow> fold_state \<Rightarrow> bool" where
  "loop_ok L s \<longleftrightarrow>
     (\<forall>c. f_community s = Some c \<longrightarrow> community_ok L c) \<and>
     f_deleted s = (\<exists>c. f_community s = Some c \<and> \<not> hasMembers (c_membership c)) \<and>
     invitations_inv (f_invitations s)"

lemma fold_next_cases:
  assumes "fold_next L community op base = Inr c"
  obtains (created) "community = None" "isGenesis op" "apply_create L op = Inr c"
    | (applied) c0 c1 where "community = Some c0" "\<not> isGenesis op" "op_communityId op = c_id c0"
        "fromPrimitives L (toPrimitives c0) = Inr c1" "apply_operation L c1 op base = Inr c"
  using assms by (auto simp: fold_next_def split: if_splits option.splits)

lemma fold_next_ok:
  assumes ok: "lib_ok L" and op: "op_values L op"
    and c0: "\<And>c. community = Some c \<Longrightarrow> community_ok L c \<and> hasMembers (c_membership c)"
    and n: "fold_next L community op base = Inr c"
  shows "values_ok L c \<and> (community_inv c \<or> \<not> hasMembers (c_membership c))"
  using n
proof (cases rule: fold_next_cases)
  case created
  then show ?thesis using apply_create_values [OF ok op] apply_create_inv by blast
next
  case (applied c0 c1)
  then have v: "values_ok L c0" "community_inv c0" using c0 by (auto simp: community_ok_def)
  then have c1: "c1 = copy_of c0" using applied community_roundtrip by simp
  have "acts (op_author op) (op_action op) c1 c" using applied(5) by (rule apply_operation_acts)
  then have "community_inv c \<or> \<not> hasMembers (c_membership c)" by (rule acts_inv) (simp add: c1 v)
  moreover have "values_ok L c" using applied(5) by (rule apply_operation_values [OF ok, rotated]) (simp add: c1 v)
  ultimately show ?thesis by blast
qed

lemma fold_next_invitation:
  "fold_next L community op base = Inr c \<Longrightarrow> op_action op = INVITATION_CREATED \<Longrightarrow>
     isOK (invitation_fromOperation L op)"
  by (erule fold_next_cases)
    (auto simp: isGenesis_def action_isGenesis_def apply_create_def apply_operation_def isOK_iff)

lemma fold_try_total:
  assumes "\<exists>st. pastOf op = Inr st"
  shows "\<exists>r. fold_try L pastOf community op concurrent = Inr r"
proof -
  from assms obtain st where "pastOf op = Inr st" ..
  then have "\<exists>b. fold_baseOf L pastOf op concurrent = Inr b" by (simp add: fold_baseOf_def)
  then obtain b where "fold_baseOf L pastOf op concurrent = Inr b" ..
  then show ?thesis
    by (cases "fold_next L community op b") (simp_all add: fold_try_def)
qed

lemma fold_try_Some:
  assumes "fold_try L pastOf community op concurrent = Inr (Some c)"
  obtains base c' where "fold_next L community op base = Inr c'" "c = pullDomainEvents c'"
  using assms
  by (auto simp: fold_try_def bindR_def throws_of_def split: sum.splits option.splits)

lemma pull_ok [simp]:
  "values_ok L (pullDomainEvents c) = values_ok L c" "community_inv (pullDomainEvents c) = community_inv c"
  "c_membership (pullDomainEvents c) = c_membership c" "c_events (pullDomainEvents c) = []"
  "c_owner (pullDomainEvents c) = c_owner c" "c_id (pullDomainEvents c) = c_id c"
  "c_network (pullDomainEvents c) = c_network c"
  by (simp_all add: pullDomainEvents_def values_ok_def community_inv_def)

text \<open>One step: either the operation is skipped, or it is applied to the community so far.\<close>

lemma fold_step_cases:
  assumes "fold_step L founder C byHash pastOf op s = Inr s'"
  obtains (skipped) invs where "s' = s\<lparr>f_heads := fst (advance (f_heads s) op),
      f_signed := fst (withinQuota founder (f_signed s) op), f_skipped := f_skipped s @ [op_hash op],
      f_invitations := invs\<rparr>" "invitations_after L (f_invitations s) op False = Inr invs"
    | (applied) base c invs where "fold_next L (f_community s) op base = Inr c"
      "s' = s\<lparr>f_heads := fst (advance (f_heads s) op), f_signed := fst (withinQuota founder (f_signed s) op),
         f_community := Some (pullDomainEvents c), f_deleted := (\<not> hasMembers (c_membership c)),
         f_invitations := invs\<rparr>" "invitations_after L (f_invitations s) op True = Inr invs"
      "\<not> f_deleted s" "snd (withinQuota founder (f_signed s) op)" "\<not> fold_isVoid op C byHash"
proof -
  obtain heads conc where a: "advance (f_heads s) op = (heads, conc)" by fastforce
  obtain signed within where w: "withinQuota founder (f_signed s) op = (signed, within)" by fastforce
  let ?test = "within \<and> \<not> f_deleted s \<and> \<not> fold_isVoid op C byHash"
  from assms obtain r where r: "(if ?test then fold_try L pastOf (f_community s) op conc else Inr None) = Inr r"
    by (auto simp: fold_step_def a w)
  show thesis
  proof (cases r)
    case None
    with assms r obtain invs where "invitations_after L (f_invitations s) op False = Inr invs"
      "s' = s\<lparr>f_heads := heads, f_signed := signed, f_skipped := f_skipped s @ [op_hash op], f_invitations := invs\<rparr>"
      by (auto simp: fold_step_def a w Let_def)
    then show thesis using skipped a w by simp
  next
    case (Some c)
    with r have t: ?test "fold_try L pastOf (f_community s) op conc = Inr (Some c)" by (auto split: if_splits)
    from t(2) obtain base c' where n: "fold_next L (f_community s) op base = Inr c'" "c = pullDomainEvents c'"
      by (rule fold_try_Some)
    from assms r Some obtain invs where "invitations_after L (f_invitations s) op True = Inr invs"
      "s' = s\<lparr>f_heads := heads, f_signed := signed, f_community := Some c,
         f_deleted := (\<not> hasMembers (c_membership c)), f_invitations := invs\<rparr>"
      by (auto simp: fold_step_def a w Let_def)
    then show thesis using applied [OF n(1), of invs] n(2) t(1) a w by simp
  qed
qed

lemma fold_step_total:
  assumes "\<exists>st. pastOf op = Inr st"
  shows "\<exists>s'. fold_step L founder C byHash pastOf op s = Inr s'"
proof -
  obtain heads conc where a: "advance (f_heads s) op = (heads, conc)" by fastforce
  obtain signed within where w: "withinQuota founder (f_signed s) op = (signed, within)" by fastforce
  let ?test = "within \<and> \<not> f_deleted s \<and> \<not> fold_isVoid op C byHash"
  obtain r where r: "(if ?test then fold_try L pastOf (f_community s) op conc else Inr None) = Inr r"
    using fold_try_total [where pastOf = pastOf and op = op, OF assms, of L "f_community s" conc] by (cases ?test) auto
  have "\<exists>invs. invitations_after L (f_invitations s) op (r \<noteq> None) = Inr invs"
  proof (rule invitations_after_total)
    assume "r \<noteq> None" and c: "op_action op = INVITATION_CREATED"
    then obtain c where "fold_try L pastOf (f_community s) op conc = Inr (Some c)" using r by (auto split: if_splits)
    then obtain base c' where "fold_next L (f_community s) op base = Inr c'" by (rule fold_try_Some)
    then show "isOK (invitation_fromOperation L op)" using c by (rule fold_next_invitation)
  qed
  then obtain invs where "invitations_after L (f_invitations s) op (r \<noteq> None) = Inr invs" ..
  then show ?thesis unfolding fold_step_def a w prod.case r bindR_simps Let_def by simp
qed

lemma fold_step_ok:
  assumes ok: "lib_ok L" and op: "op_values L op" and s: "loop_ok L s"
    and st: "fold_step L founder C byHash pastOf op s = Inr s'"
  shows "loop_ok L s'"
  using st
proof (cases rule: fold_step_cases)
  case (skipped invs)
  then show ?thesis using s invitations_inv_after by (auto simp: loop_ok_def)
next
  case (applied base c invs)
  have "values_ok L c \<and> (community_inv c \<or> \<not> hasMembers (c_membership c))"
    using fold_next_ok [OF ok op _ applied(1)] s applied(4) by (auto simp: loop_ok_def)
  moreover have "invitations_inv invs" using applied(3) s invitations_inv_after by (auto simp: loop_ok_def)
  ultimately show ?thesis by (simp add: loop_ok_def applied(2) community_ok_def)
qed

lemma fold_loop_ok:
  assumes ok: "lib_ok L" and "\<And>op. op \<in> set ops \<Longrightarrow> op_values L op \<and> (\<exists>st. pastOf op = Inr st)" and "loop_ok L s"
  shows "\<exists>s'. fold_loop L founder C byHash pastOf ops s = Inr s' \<and> loop_ok L s'"
  using assms(2,3)
proof (induction ops arbitrary: s)
  case (Cons op ops)
  from Cons.prems obtain s1 where s1: "fold_step L founder C byHash pastOf op s = Inr s1"
    using fold_step_total by fastforce
  have "op_values L op" using Cons.prems(1) by simp
  from fold_step_ok [OF ok this Cons.prems(2) s1] have "loop_ok L s1" .
  then show ?case using Cons.IH [of s1] Cons.prems(1) s1 by simp
qed simp

lemma loop_ok_init: "loop_ok L fold_init"
  by (simp add: loop_ok_def fold_init_def invitations_inv_EMPTY)

lemma takenBy_total:
  assumes "\<And>c. pst = Some c \<Longrightarrow> values_ok L c"
  shows "\<exists>t. takenBy L pst op = Inr t"
proof (cases pst)
  case (Some c)
  have "fromPrimitives L (toPrimitives c) = Inr (copy_of c)" using assms Some by (intro community_roundtrip) simp
  then show ?thesis by (auto simp: takenBy_def Some split: sum.split)
qed (simp add: takenBy_def)

definition operations_ok :: "lib \<Rightarrow> operation list \<Rightarrow> bool" where
  "operations_ok L ops \<longleftrightarrow> (\<forall>op \<in> set ops. op_values L op \<and> distinct (op_parents op))"

lemma operations_built_ok: "lib_ok L \<Longrightarrow> operations_built L ops \<Longrightarrow> operations_ok L ops"
  unfolding operations_ok_def by (intro ballI built_distinct operations_built_all)

lemma operations_ok_subset: "operations_ok L ops \<Longrightarrow> set xs \<subseteq> set ops \<Longrightarrow> operations_ok L xs"
  by (auto simp: operations_ok_def)

lemma operations_ok_distinct: "operations_ok L ops \<Longrightarrow> distinct_parents ops"
  by (auto simp: operations_ok_def distinct_parents_def)

lemma foldOf_total:
  assumes ok: "lib_ok L" and ops: "operations_ok L ops"
  shows "\<exists>st. foldOf L ops = Inr st \<and> state_ok L st"
  using ops
proof (induction "card (op_hash ` set ops)" arbitrary: ops rule: less_induct)
  case less
  note d = operations_ok_distinct [OF less.prems]
  from orderOf_canonical [OF d] obtain ordered where o': "orderOf ops = Some ordered" by blast
  have c: "causal ordered" by (rule orderOf_causal [OF d o'])
  have sub: "set ordered \<subseteq> set ops" by (rule orderOf_subset [OF d o'])
  have pst: "\<exists>st. fold_pastOf L ordered op = Inr st \<and> state_ok L st" if op: "op \<in> set ordered" for op
  proof -
    from closure_of_parents [OF c op] obtain cl where cl: "closureOf ordered (op_parents op) = Inr cl"
      "set cl \<subseteq> set ordered" by blast
    have "operations_ok L cl" using less.prems cl(2) sub by (blast intro: operations_ok_subset)
    from less.hyps [OF closure_smaller [OF o' op cl(1)] this] show ?thesis by (simp add: fold_pastOf_def cl(1))
  qed
  have "\<exists>C. new_AuthorityCuts ordered (new_Ancestry ordered)
      (\<lambda>op. bindR (fold_pastOf L ordered op) (\<lambda>pst. throws_of (takenBy L (st_community pst) op))) = Inr C"
  proof (rule new_AuthorityCuts_total)
    fix op assume "op \<in> set ordered"
    then obtain st where st: "fold_pastOf L ordered op = Inr st" "state_ok L st" using pst by blast
    then have "\<exists>t. takenBy L (st_community st) op = Inr t"
      by (intro takenBy_total) (auto simp: state_ok_def community_ok_def)
    then show "isOK (bindR (fold_pastOf L ordered op) (\<lambda>pst. throws_of (takenBy L (st_community pst) op)))"
      using st(1) by (auto simp: isOK_iff)
  qed
  then obtain C where C: "new_AuthorityCuts ordered (new_Ancestry ordered)
      (\<lambda>op. bindR (fold_pastOf L ordered op) (\<lambda>pst. throws_of (takenBy L (st_community pst) op))) = Inr C" ..
  have "\<exists>s'. fold_loop L (founderOf ordered) C (knownOf ordered) (fold_pastOf L ordered) ordered fold_init = Inr s' \<and> loop_ok L s'"
  proof (rule fold_loop_ok [OF ok _ loop_ok_init])
    fix op assume op: "op \<in> set ordered"
    then have "op_values L op" using less.prems sub by (auto simp: operations_ok_def)
    then show "op_values L op \<and> (\<exists>st. fold_pastOf L ordered op = Inr st)" using pst [OF op] by blast
  qed
  then obtain s' where s': "fold_loop L (founderOf ordered) C (knownOf ordered) (fold_pastOf L ordered) ordered fold_init = Inr s'"
    "loop_ok L s'" by blast
  show ?case unfolding foldOf_unfold [of L ops] o' option.case C bindR_simps s'(1)
    using s'(2) by (auto simp: state_ok_def loop_ok_def invitations_inv_cutWhere)
qed

end
