(* ===== verification/FoldSafety.thy ===== *)
theory FoldSafety
  imports StateFold
begin

text \<open>
  What the state folded by \<open>src/contexts/communities/domain/operations/CommunityStateFold.ts\<close>
  can hold: the community evolves from its genesis only by steps the aggregate permits to the
  author of a stored operation (\<open>evolves\<close>), nothing is applied once the last member left, and
  an author other than the founder has a bounded number of operations applied. Whoever is a member
  founded the community or was let in by an admission that names it, and stayed (\<open>remains\<close>).
\<close>

section \<open>The history of the folded community\<close>

text \<open>
  The communities the operations \<open>S\<close> can lead to: created by a genesis of \<open>S\<close>, then changed by
  applying an operation of \<open>S\<close>, which is the aggregate method that the operation calls for its
  author, while it has members.
\<close>

inductive evolves :: "lib \<Rightarrow> operation set \<Rightarrow> community \<Rightarrow> bool" for L S where
  evolves_create: "g \<in> S \<Longrightarrow> isGenesis g \<Longrightarrow> apply_create L g = Inr c \<Longrightarrow> evolves L S (pullDomainEvents c)"
| evolves_apply: "evolves L S c \<Longrightarrow> hasMembers (c_membership c) \<Longrightarrow> op \<in> S \<Longrightarrow> \<not> isGenesis op \<Longrightarrow>
     op_communityId op = c_id c \<Longrightarrow> apply_operation L (copy_of c) op base = Inr c' \<Longrightarrow>
     acts (op_author op) (op_action op) (copy_of c) c' \<Longrightarrow> evolves L S (pullDomainEvents c')"

definition loop_history :: "lib \<Rightarrow> operation set \<Rightarrow> fold_state \<Rightarrow> bool" where
  "loop_history L S s \<longleftrightarrow>
     (\<forall>c. f_community s = Some c \<longrightarrow> evolves L S c \<and> values_ok L c) \<and>
     f_deleted s = (\<exists>c. f_community s = Some c \<and> \<not> hasMembers (c_membership c))"

lemma fold_step_history:
  assumes ok: "lib_ok L" and op: "op \<in> S" "op_values L op" and s: "loop_history L S s" "loop_ok L s"
    and st: "fold_step L founder C byHash pastOf op s = Inr s'"
  shows "loop_history L S s'"
  using st
proof (cases rule: fold_step_cases)
  case (skipped invs)
  then show ?thesis using s(1) by (simp add: loop_history_def)
next
  case (applied base c invs)
  have l: "loop_ok L s'" using fold_step_ok [OF ok op(2) s(2) st] .
  from applied(1) have "evolves L S (pullDomainEvents c)"
  proof (cases rule: fold_next_cases)
    case created
    then show ?thesis using op(1) by (intro evolves_create)
  next
    case (applied c0 c1)
    have c0: "evolves L S c0" "values_ok L c0" "hasMembers (c_membership c0)"
      using s(1) applied(1) \<open>\<not> f_deleted s\<close> by (auto simp: loop_history_def)
    then have "c1 = copy_of c0" using applied(4) community_roundtrip by simp
    then have a: "apply_operation L (copy_of c0) op base = Inr c" using applied(5) by simp
    show ?thesis using c0 op(1) applied(2,3) by (intro evolves_apply [OF _ _ _ _ _ a apply_operation_acts [OF a]])
  qed
  then show ?thesis using l by (simp add: loop_history_def loop_ok_def applied(2) community_ok_def)
qed

lemma fold_loop_history:
  assumes ok: "lib_ok L" and "\<And>op. op \<in> set ops \<Longrightarrow> op \<in> S \<and> op_values L op" and "loop_history L S s" "loop_ok L s"
    and "fold_loop L founder C byHash pastOf ops s = Inr s'"
  shows "loop_history L S s'"
  using assms(2-5)
proof (induction ops arbitrary: s)
  case (Cons op ops)
  from Cons.prems(4) obtain s1 where s1: "fold_step L founder C byHash pastOf op s = Inr s1"
    "fold_loop L founder C byHash pastOf ops s1 = Inr s'" by auto
  have op: "op \<in> S" "op_values L op" using Cons.prems(1) by auto
  show ?case
    using Cons.IH [OF _ fold_step_history [OF ok op Cons.prems(2,3) s1(1)] fold_step_ok [OF ok op(2) Cons.prems(3) s1(1)] s1(2)]
      Cons.prems(1) by simp
qed simp

text \<open>What a fold is made of, once it returned.\<close>

lemma foldOf_loop:
  assumes "foldOf L ops = Inr st"
  shows "\<exists>ordered C s. orderOf ops = Some ordered \<and>
    fold_loop L (founderOf ordered) C (knownOf ordered) (fold_pastOf L ordered) ordered fold_init = Inr s \<and>
    st_community st = f_community s \<and> st_deleted st = f_deleted s \<and> st_frontier st = frontierOf ordered \<and>
    st_skipped st = f_skipped s \<and> st_invitations st = cutWhere (f_invitations s) (cutsIssuerOf C)"
proof -
  from assms obtain ordered where o': "orderOf ops = Some ordered"
    by (auto simp: foldOf_unfold [of L ops] split: option.splits)
  with assms obtain C s where
    "fold_loop L (founderOf ordered) C (knownOf ordered) (fold_pastOf L ordered) ordered fold_init = Inr s"
    "st = \<lparr>st_community = f_community s, st_deleted = f_deleted s, st_frontier = frontierOf ordered,
       st_invitations = cutWhere (f_invitations s) (cutsIssuerOf C), st_skipped = f_skipped s\<rparr>"
    by (auto simp: foldOf_unfold [of L ops])
  with o' show ?thesis by (intro exI [of _ ordered] exI [of _ C] exI [of _ s]) simp
qed

lemma foldOf_history:
  assumes ok: "lib_ok L" and ops: "operations_ok L ops" and st: "foldOf L ops = Inr st" and c: "st_community st = Some c"
  shows "evolves L (set ops) c"
proof -
  from foldOf_loop [OF st] obtain ordered C s where o': "orderOf ops = Some ordered"
    and l: "fold_loop L (founderOf ordered) C (knownOf ordered) (fold_pastOf L ordered) ordered fold_init = Inr s"
    and st': "st_community st = f_community s" by blast
  have sub: "set ordered \<subseteq> set ops" by (rule orderOf_subset [OF operations_ok_distinct [OF ops] o'])
  have "loop_history L (set ops) s"
    by (rule fold_loop_history [OF ok _ _ loop_ok_init l])
      (use ops sub in \<open>auto simp: operations_ok_def loop_history_def fold_init_def\<close>)
  then show ?thesis using c st' by (simp add: loop_history_def)
qed

lemma evolves_ok:
  assumes "evolves L S c"
  shows "(community_inv c \<or> \<not> hasMembers (c_membership c)) \<and>
    (\<exists>g \<in> S. isGenesis g \<and> c_owner c = op_author g \<and> c_id c = op_communityId g \<and> c_network c = op_networkId g)"
  using assms
proof induction
  case (evolves_create g c)
  then show ?case using apply_create_inv apply_create_fields by fastforce
next
  case (evolves_apply c op base c')
  then have "community_inv (copy_of c)" by simp
  with evolves_apply acts_inv acts_frame [of "op_author op" "op_action op" "copy_of c" c'] show ?case by fastforce
qed

text \<open>
  An identity that stays a member: from \<open>d\<close> on, every community up to \<open>c\<close> holds it, each reached
  from the one before by applying an operation of \<open>S\<close>.
\<close>

inductive remains :: "lib \<Rightarrow> operation set \<Rightarrow> identity_id \<Rightarrow> community \<Rightarrow> community \<Rightarrow> bool" for L S m where
  remains_here: "m \<in> set (members (c_membership d)) \<Longrightarrow> remains L S m d d"
| remains_apply: "remains L S m d c \<Longrightarrow> op \<in> S \<Longrightarrow> apply_operation L (copy_of c) op base = Inr c' \<Longrightarrow>
     m \<in> set (members (c_membership c')) \<Longrightarrow> remains L S m d (pullDomainEvents c')"

lemma remains_member: "remains L S m d c \<Longrightarrow> m \<in> set (members (c_membership c))"
  by (induction rule: remains.induct) simp_all

text \<open>The identity an applied admission names is the one it adds.\<close>

lemma apply_join_names:
  assumes "apply_operation L c op base = Inr c'" and "op_action op = MEMBER_JOINED"
  obtains s i meth where "map_of (op_args op) ''identityId'' = Some (JString s)" "new_IdentityId L s = Inr i"
    "isCanonicalKey L i" "joinAs c (op_author op) i meth = Inr c'"
proof -
  from assms have "apply_join L c op = Inr c'" by (auto simp: apply_operation_def split: option.splits)
  then obtain reader s i meth where r: "argument_reader (op_args op) (join_arguments meth) [] = Inr reader"
    and s: "read_string reader ''identityId'' = Inr s" and i: "canonical_identity L s = Inr i"
    and j: "joinAs c (op_author op) i meth = Inr c'"
    by (auto simp: apply_join_def simp del: join_arguments.simps split: if_splits)
  from r have "reader = op_args op" by (auto simp: argument_reader_def split: if_splits)
  then have "map_of (op_args op) ''identityId'' = Some (JString s)"
    using s by (auto simp: read_string_def split: option.splits json.splits)
  moreover have "new_IdentityId L s = Inr i" "isCanonicalKey L i" using i by (auto simp: canonical_identity_def)
  ultimately show thesis using j that by blast
qed

text \<open>Whoever is a member signed the genesis, or was let in by a permitted admission that names it, and stayed.\<close>

lemma evolves_member:
  assumes "evolves L S c" and "m \<in> set (members (c_membership c))"
  shows "(\<exists>g \<in> S. \<exists>d. isGenesis g \<and> op_author g = m \<and> apply_create L g = Inr d \<and> remains L S m (pullDomainEvents d) c) \<or>
    (\<exists>op \<in> S. \<exists>s. op_action op = MEMBER_JOINED \<and> map_of (op_args op) ''identityId'' = Some (JString s) \<and>
      new_IdentityId L s = Inr m \<and> isCanonicalKey L m \<and>
      (\<exists>d base d'. evolves L S d \<and> apply_operation L (copy_of d) op base = Inr d' \<and>
        m \<notin> set (members (c_membership d)) \<and> remains L S m (pullDomainEvents d') c \<and>
        m \<notin> set (bannedMembers (c_membership d)) \<and>
        (holds d (op_author op) MANAGE_MEMBERS \<or> holds d (op_author op) APPROVE_MEMBERS \<or>
         (op_author op = m \<and> autoJoinEnabled (c_settings d)))))"
  using assms
proof induction
  case (evolves_create g c)
  then have "op_author g = m" using apply_create_fields [of L g c] by simp
  moreover have "remains L S m (pullDomainEvents c) (pullDomainEvents c)" by (rule remains_here) (rule evolves_create.prems)
  ultimately show ?case using evolves_create.hyps by blast
next
  case (evolves_apply c op base c')
  note st = \<open>op \<in> S\<close> \<open>apply_operation L (copy_of c) op base = Inr c'\<close>
  have m: "m \<in> set (members (c_membership c'))" using evolves_apply.prems by simp
  show ?case
  proof (cases "m \<in> set (members (c_membership c))")
    case True
    have ext: "remains L S m d (pullDomainEvents c')" if "remains L S m d c" for d
      using that st m by (rule remains_apply)
    from evolves_apply.IH [OF True] ext show ?thesis by meson
  next
    case False
    then have e: "op_action op = MEMBER_JOINED \<and> m \<notin> set (bannedMembers (c_membership (copy_of c))) \<and>
        (holds (copy_of c) (op_author op) MANAGE_MEMBERS \<or> holds (copy_of c) (op_author op) APPROVE_MEMBERS \<or>
         (op_author op = m \<and> autoJoinEnabled (c_settings (copy_of c))))"
      using evolves_apply by (intro acts_enters) auto
    with st(2) obtain s i meth where i: "map_of (op_args op) ''identityId'' = Some (JString s)"
      "new_IdentityId L s = Inr i" "isCanonicalKey L i" "joinAs (copy_of c) (op_author op) i meth = Inr c'"
      by (auto elim: apply_join_names)
    have "i = m" using members_after_join [OF joinAs_join [OF i(4)]] m False by auto
    moreover have "remains L S m (pullDomainEvents c') (pullDomainEvents c')" using m by (intro remains_here) simp
    moreover have "m \<notin> set (bannedMembers (c_membership c)) \<and> (holds c (op_author op) MANAGE_MEMBERS \<or>
        holds c (op_author op) APPROVE_MEMBERS \<or> (op_author op = m \<and> autoJoinEnabled (c_settings c)))"
      using e by (simp add: holds_def)
    ultimately have "\<exists>d base d'. evolves L S d \<and> apply_operation L (copy_of d) op base = Inr d' \<and>
        m \<notin> set (members (c_membership d)) \<and> remains L S m (pullDomainEvents d') (pullDomainEvents c') \<and>
        m \<notin> set (bannedMembers (c_membership d)) \<and>
        (holds d (op_author op) MANAGE_MEMBERS \<or> holds d (op_author op) APPROVE_MEMBERS \<or>
         (op_author op = m \<and> autoJoinEnabled (c_settings d)))"
      using \<open>evolves L S c\<close> st(2) False by blast
    then show ?thesis using e i(1-3) st(1) \<open>i = m\<close> by blast
  qed
qed

section \<open>Nothing after the last member left\<close>

lemma fold_loop_deleted:
  assumes "fold_loop L founder C byHash pastOf ops s = Inr s'" and "f_deleted s"
  shows "f_community s' = f_community s \<and> f_deleted s' \<and> f_skipped s' = f_skipped s @ map op_hash ops"
  using assms
proof (induction ops arbitrary: s)
  case (Cons op ops)
  then obtain s1 where s1: "fold_step L founder C byHash pastOf op s = Inr s1"
    "fold_loop L founder C byHash pastOf ops s1 = Inr s'" by auto
  from s1(1) have "f_community s1 = f_community s \<and> f_deleted s1 \<and> f_skipped s1 = f_skipped s @ [op_hash op]"
    by (cases rule: fold_step_cases) (use Cons.prems(2) in auto)
  then show ?case using Cons.IH [OF s1(2)] by simp
qed simp

section \<open>Skipped operations\<close>

text \<open>The digests of the applied operations, in the order they were applied.\<close>

definition applied_of :: "operation list \<Rightarrow> string list \<Rightarrow> operation list" where
  "applied_of ordered skipped = filter (\<lambda>op. op_hash op \<notin> set skipped) ordered"

lemma fold_step_skipped:
  assumes "fold_step L founder C byHash pastOf op s = Inr s'"
  shows "f_skipped s' = f_skipped s \<or> f_skipped s' = f_skipped s @ [op_hash op] \<and> f_community s' = f_community s"
  using assms by (cases rule: fold_step_cases) auto

lemma fold_loop_skipped:
  assumes "fold_loop L founder C byHash pastOf ops s = Inr s'"
  shows "\<exists>zs. f_skipped s' = f_skipped s @ zs \<and> set zs \<subseteq> op_hash ` set ops"
  using assms
proof (induction ops arbitrary: s)
  case (Cons op ops)
  then obtain s1 where s1: "fold_step L founder C byHash pastOf op s = Inr s1"
    "fold_loop L founder C byHash pastOf ops s1 = Inr s'" by auto
  from Cons.IH [OF s1(2)] obtain zs where "f_skipped s' = f_skipped s1 @ zs" "set zs \<subseteq> op_hash ` set ops" by blast
  moreover from fold_step_skipped [OF s1(1)]
  have "\<exists>ys. f_skipped s1 = f_skipped s @ ys \<and> set ys \<subseteq> {op_hash op}" by auto
  ultimately show ?case by fastforce
qed simp

section \<open>The quota of an author\<close>

lemma withinQuota_fst: "signedBy (fst (withinQuota founder signed op)) i =
    signedBy signed i + (if op_author op = i then 1 else 0)"
  by (simp add: withinQuota_def signedBy_def Let_def update_conv')

lemma fold_loop_quota:
  assumes "fold_loop L founder C byHash pastOf ops s = Inr s'" and i: "founder \<noteq> Some i"
    and "distinct (map op_hash ops)" and "set (f_skipped s) \<inter> op_hash ` set ops = {}"
  shows "length (filter (\<lambda>op. op_author op = i \<and> op_hash op \<notin> set (f_skipped s')) ops)
    \<le> MAX_OPERATIONS_PER_AUTHOR - signedBy (f_signed s) i"
  using assms(1,3,4)
proof (induction ops arbitrary: s)
  case (Cons op ops)
  then obtain s1 where s1: "fold_step L founder C byHash pastOf op s = Inr s1"
    "fold_loop L founder C byHash pastOf ops s1 = Inr s'" by auto
  have sg: "signedBy (f_signed s1) i = signedBy (f_signed s) i + (if op_author op = i then 1 else 0)"
    using s1(1) by (cases rule: fold_step_cases) (auto simp: withinQuota_fst)
  have new: "op_hash op \<notin> op_hash ` set ops" using Cons.prems(2) by simp
  have sk: "set (f_skipped s1) \<inter> op_hash ` set ops = {}"
  proof -
    have gen: "A \<subseteq> insert x B \<Longrightarrow> B \<inter> T = {} \<Longrightarrow> x \<notin> T \<Longrightarrow> A \<inter> T = {}" for A B T :: "string set" and x by blast
    have "set (f_skipped s1) \<subseteq> insert (op_hash op) (set (f_skipped s))"
      using fold_step_skipped [OF s1(1)] by auto
    from gen [OF this _ new] show ?thesis using Cons.prems(3) by simp
  qed
  have ih: "length (filter (\<lambda>op. op_author op = i \<and> op_hash op \<notin> set (f_skipped s')) ops)
      \<le> MAX_OPERATIONS_PER_AUTHOR - signedBy (f_signed s1) i"
    by (rule Cons.IH [OF s1(2) _ sk]) (use Cons.prems(2) in simp)
  show ?case
  proof (cases "op_author op = i \<and> op_hash op \<notin> set (f_skipped s')")
    case True
    obtain zs where "f_skipped s' = f_skipped s1 @ zs" using fold_loop_skipped [OF s1(2)] by blast
    then have n: "op_hash op \<notin> set (f_skipped s1)" using True by simp
    from s1(1) have "snd (withinQuota founder (f_signed s) op)"
      by (cases rule: fold_step_cases) (use n in auto)
    then have "signedBy (f_signed s) i < MAX_OPERATIONS_PER_AUTHOR"
      using True i by (auto simp: withinQuota_def isAuthorQuotaReached_def Let_def)
    then show ?thesis using ih sg True by simp
  next
    case False
    then show ?thesis using ih sg by (auto split: if_splits)
  qed
qed simp

lemma foldOf_quota:
  assumes st: "foldOf L ops = Inr st" and o': "orderOf ops = Some ordered" and d: "distinct_parents ops"
    and i: "founderOf ordered \<noteq> Some i"
  shows "length (filter (\<lambda>op. op_author op = i) (applied_of ordered (st_skipped st))) \<le> MAX_OPERATIONS_PER_AUTHOR"
proof -
  from foldOf_loop [OF st] o' obtain C s where
    l: "fold_loop L (founderOf ordered) C (knownOf ordered) (fold_pastOf L ordered) ordered fold_init = Inr s"
    and st': "st_skipped st = f_skipped s" by auto
  have "distinct (map op_hash ordered)" using orderOf_causal [OF d o'] by (simp add: causal_def)
  from fold_loop_quota [OF l i this]
  show ?thesis by (simp add: applied_of_def st' fold_init_def signedBy_def conj_commute)
qed

end
