(* ===== verification/Ledger.thy ===== *)
theory Ledger
  imports FoldSafety
begin

text \<open>
  Admission of operations:
  \<open>src/contexts/communities/domain/operations/CommunityOperationLedger.ts\<close>. A candidate is
  applied to the state of its causal past and stored only when it is permitted there; the
  states after the latest operations are remembered. The lemmas show that the stored set is
  always closed under parents, that a refused candidate changes nothing, and what a stored
  operation was permitted by.
\<close>

section \<open>The code\<close>

definition MAX_REMEMBERED_STATES :: nat where "MAX_REMEMBERED_STATES = 64"

record community_past =
  past_community :: community_primitives
  past_invitations :: invitations

record ledger =
  led_operations :: "(string, operation) jsmap"
  led_signed :: "(string, nat) jsmap"
  led_states :: "(string, community_past) jsmap"

definition new_ledger :: ledger where
  "new_ledger = \<lparr>led_operations = [], led_signed = [], led_states = []\<rparr>"

definition assertIssues :: "lib \<Rightarrow> operation \<Rightarrow> invitations \<Rightarrow> community_error + unit" where
  "assertIssues L candidate invs =
     bindR (invitation_fromOperation L candidate) (\<lambda>iv.
       ensure (findByKey invs (inv_key (inv_attributes iv)) = None) InvalidCommunityOperationError)"

definition string_argument :: "operation \<Rightarrow> string \<Rightarrow> community_error + string" where
  "string_argument op k =
     (case map_of (op_args op) k of Some (JString s) \<Rightarrow> Inr s | _ \<Rightarrow> Inl TypeError)"

definition ledger_assertAdmits :: "lib \<Rightarrow> operation \<Rightarrow> community \<Rightarrow> invitation option \<Rightarrow> community_error + unit" where
  "ledger_assertAdmits L candidate pst invitation =
     (case invitation of
        None \<Rightarrow> Inl CommunityInvitationNotFoundError
      | Some iv \<Rightarrow>
          bindR (ensure (isOpenAt iv (op_createdAt candidate)) CommunityInvitationUnusableError) (\<lambda>_.
          bindR (string_argument candidate ''identityId'') (\<lambda>i.
          bindR (new_IdentityId L i) (\<lambda>joiner.
          bindR (string_argument candidate ''possession'') (\<lambda>possession.
          bindR (string_argument candidate ''consent'') (\<lambda>consent.
            assertAdmits L iv pst joiner possession consent))))))"

definition assertRevokes :: "operation \<Rightarrow> community \<Rightarrow> invitation option \<Rightarrow> community_error + unit" where
  "assertRevokes candidate pst invitation =
     (let author = op_author candidate in
      case invitation of
        None \<Rightarrow> Inl CommunityInvitationNotFoundError
      | Some iv \<Rightarrow>
          ensure (\<not> status_revoked (inv_status iv) \<and>
            ((inv_issuer (inv_attributes iv) = author \<and> isMember (c_membership pst) author) \<or>
             holds pst author MANAGE_MEMBERS)) InvalidCommunityOperationError)"

definition assertInvitationRules :: "lib \<Rightarrow> operation \<Rightarrow> community \<Rightarrow> invitations \<Rightarrow> community_error + unit" where
  "assertInvitationRules L candidate pst invs =
     (let invitation = invitationOf invs candidate in
      if op_action candidate = INVITATION_CREATED then assertIssues L candidate invs
      else if op_action candidate = INVITATION_REVOKED then assertRevokes candidate pst invitation
      else if isAdmission candidate then ledger_assertAdmits L candidate pst invitation
      else Inr ())"

definition led_known :: "ledger \<Rightarrow> operation list" where
  "led_known led = map snd (led_operations led)"

definition assertWithinQuota :: "ledger \<Rightarrow> operation \<Rightarrow> community_error + unit" where
  "assertWithinQuota led candidate =
     (if \<not> isAuthorQuotaReached (signedBy (led_signed led) (op_author candidate)) then Inr ()
      else bindR (closureOf (led_known led) (op_parents candidate)) (\<lambda>closure.
             assertAuthorQuota closure candidate))"

definition led_pastOf :: "lib \<Rightarrow> ledger \<Rightarrow> string list \<Rightarrow> community_past throws" where
  "led_pastOf L led parents =
     (case (if length parents = 1 then map_of (led_states led) (hd parents) else None) of
        Some remembered \<Rightarrow> Inr remembered
      | None \<Rightarrow>
          bindR (throws_of (closureOf (led_known led) parents)) (\<lambda>closure.
          bindR (fold_operations L closure) (\<lambda>pst.
            case st_community pst of
              None \<Rightarrow> Inl (Some InvalidCommunityOperationError)
            | Some c \<Rightarrow>
                if st_deleted pst then Inl (Some InvalidCommunityOperationError)
                else Inr \<lparr>past_community = toPrimitives c, past_invitations = st_invitations pst\<rparr>)))"

definition applyToPast :: "lib \<Rightarrow> ledger \<Rightarrow> operation \<Rightarrow> (community \<times> invitations) throws" where
  "applyToPast L led candidate =
     bindR (led_pastOf L led (op_parents candidate)) (\<lambda>pst.
     throws_of
       (bindR (fromPrimitives L (past_community pst)) (\<lambda>before.
        bindR (fromPrimitives L (past_community pst)) (\<lambda>copy.
        bindR (ensure (op_communityId candidate = c_id copy) InvalidCommunityOperationError) (\<lambda>_.
        bindR (apply_operation L copy candidate None) (\<lambda>community.
        bindR (assertInvitationRules L candidate before (past_invitations pst)) (\<lambda>_.
        bindR (invitations_after L (past_invitations pst) candidate True) (\<lambda>invs.
          let taken = takenBetween before community in
          Inr (community,
               if taken = [] then invs
               else cutWhere invs (\<lambda>iv. takesInvitesOf taken (inv_issuer (inv_attributes iv))))))))))))"

definition remember :: "string \<Rightarrow> community \<Rightarrow> invitations \<Rightarrow> ledger \<Rightarrow> ledger" where
  "remember hash community invs led =
     (if \<not> hasMembers (c_membership community) then led
      else
        let states = AList.update hash
              \<lparr>past_community = toPrimitives community, past_invitations = invs\<rparr> (led_states led)
        in led\<lparr>led_states := (if length states > MAX_REMEMBERED_STATES then tl states else states)\<rparr>)"

definition led_has :: "ledger \<Rightarrow> operation \<Rightarrow> bool" where
  "led_has led op \<longleftrightarrow> map_of (led_operations led) (op_hash op) \<noteq> None"

text \<open>What \<open>admit\<close> stores before it remembers the state.\<close>

definition filed :: "ledger \<Rightarrow> operation \<Rightarrow> ledger" where
  "filed led candidate =
     (let author = op_author candidate in
      led\<lparr>led_operations := AList.update (op_hash candidate) candidate (led_operations led),
          led_signed := AList.update author (signedBy (led_signed led) author + 1) (led_signed led)\<rparr>)"

definition admit :: "lib \<Rightarrow> ledger \<Rightarrow> operation \<Rightarrow> ledger throws" where
  "admit L led candidate =
     (if led_has led candidate then Inr led
      else
        bindR (if \<not> isGenesis candidate
               then throws_of
                 (bindR (ensure (list_all (\<lambda>p. map_of (led_operations led) p \<noteq> None) (op_parents candidate))
                          CommunityOperationParentsMissingError) (\<lambda>_. assertWithinQuota led candidate))
               else Inr ()) (\<lambda>_.
        bindR (if isGenesis candidate
               then throws_of (bindR (apply_create L candidate) (\<lambda>c. Inr (c, EMPTY)))
               else applyToPast L led candidate) (\<lambda>(community, invs).
          Inr (remember (op_hash candidate) community invs (filed led candidate)))))"

section \<open>The invariant of the ledger\<close>

text \<open>
  Each operation is filed under its digest and after its parents; the counts per author are
  those of the stored operations; a bounded number of states is remembered, all of stored
  operations.
\<close>

definition ledger_inv :: "ledger \<Rightarrow> bool" where
  "ledger_inv led \<longleftrightarrow>
     (\<forall>(h, op) \<in> set (led_operations led). op_hash op = h) \<and>
     causal (led_known led) \<and>
     (\<forall>i. signedBy (led_signed led) i = length (filter (\<lambda>op. op_author op = i) (led_known led))) \<and>
     distinct (map fst (led_states led)) \<and>
     length (led_states led) \<le> MAX_REMEMBERED_STATES \<and>
     fst ` set (led_states led) \<subseteq> fst ` set (led_operations led)"

lemma ledger_inv_new [inv_intros]: "ledger_inv new_ledger"
  by (simp add: ledger_inv_def new_ledger_def led_known_def causal_def signedBy_def)

lemma led_keys: "ledger_inv led \<Longrightarrow> fst ` set (led_operations led) = op_hash ` set (led_known led)"
proof -
  assume inv: "ledger_inv led"
  have "map fst (led_operations led) = map op_hash (led_known led)"
    unfolding led_known_def map_map using inv by (intro map_cong) (auto simp: ledger_inv_def)
  then show ?thesis by (metis list.set_map)
qed

lemma causal_snoc:
  assumes "causal xs" and "op_hash op \<notin> op_hash ` set xs" and "set (op_parents op) \<subseteq> op_hash ` set xs"
  shows "causal (xs @ [op])"
  unfolding causal_def
proof (intro conjI allI impI)
  show "distinct (map op_hash (xs @ [op]))" using assms(1,2) by (simp add: causal_def)
  fix us x vs assume e: "xs @ [op] = us @ x # vs"
  show "set (op_parents x) \<subseteq> op_hash ` set us"
  proof (cases vs rule: rev_cases)
    case Nil
    then show ?thesis using e assms(3) by simp
  next
    case (snoc ws w)
    then have "xs = us @ x # ws" using e by simp
    then show ?thesis using assms(1) by (simp only: causal_def)
  qed
qed

lemma remember_simps [simp]:
  "led_operations (remember h c invs led) = led_operations led"
  "led_signed (remember h c invs led) = led_signed led"
  by (simp_all add: remember_def Let_def)

lemma remember_states:
  assumes "length (led_states led) \<le> MAX_REMEMBERED_STATES" and "distinct (map fst (led_states led))"
  shows "length (led_states (remember h c invs led)) \<le> MAX_REMEMBERED_STATES \<and>
    distinct (map fst (led_states (remember h c invs led))) \<and>
    fst ` set (led_states (remember h c invs led)) \<subseteq> insert h (fst ` set (led_states led))"
proof -
  let ?u = "AList.update h \<lparr>past_community = toPrimitives c, past_invitations = invs\<rparr> (led_states led)"
  have len: "length (AList.update k v m) \<le> Suc (length m)" for k :: string and v :: community_past and m
    by (induction m) auto
  have d: "distinct (map fst ?u)" using assms(2) by (rule distinct_update)
  have "set (tl ?u) \<subseteq> set ?u" by (cases ?u) auto
  then have "fst ` set (tl ?u) \<subseteq> fst ` set ?u" by (rule image_mono)
  moreover have "distinct (map fst (tl ?u))" using d by (simp add: map_tl distinct_tl)
  moreover have "length ?u \<le> Suc MAX_REMEMBERED_STATES" using len [of h _ "led_states led"] assms(1) by (meson le_trans Suc_le_mono)
  ultimately show ?thesis using assms d by (auto simp: remember_def Let_def)
qed

text \<open>What an admission that stores something consists of.\<close>

lemma admit_cases:
  assumes "admit L led candidate = Inr led'"
  obtains (known) "led_has led candidate" "led' = led"
    | (stored) community invs where "\<not> led_has led candidate"
      "led' = remember (op_hash candidate) community invs
         (filed led candidate)"
      "isGenesis candidate \<Longrightarrow> apply_create L candidate = Inr community"
      "\<not> isGenesis candidate \<Longrightarrow> applyToPast L led candidate = Inr (community, invs)"
      "\<not> isGenesis candidate \<Longrightarrow> set (op_parents candidate) \<subseteq> fst ` set (led_operations led)"
      "\<not> isGenesis candidate \<Longrightarrow> assertWithinQuota led candidate = Inr ()"
      "isGenesis candidate \<Longrightarrow> invs = EMPTY"
proof (cases "led_has led candidate")
  case True
  have "admit L led candidate = Inr led" using True by (simp add: admit_def)
  then show thesis using assms by (intro known [OF True]) simp
next
  case False
  show thesis
  proof (cases "isGenesis candidate")
    case True
    from assms False True obtain community where "apply_create L candidate = Inr community"
      "led' = remember (op_hash candidate) community EMPTY (filed led candidate)"
      by (simp add: admit_def) blast
    then show thesis using False True stored [of community EMPTY] by simp
  next
    case g: False
    from assms False g obtain community invs where
      c: "list_all (\<lambda>p. map_of (led_operations led) p \<noteq> None) (op_parents candidate)"
      "assertWithinQuota led candidate = Inr ()" "applyToPast L led candidate = Inr (community, invs)"
      "led' = remember (op_hash candidate) community invs (filed led candidate)"
      by (simp add: admit_def split_beta del: not_None_eq) blast
    then have "set (op_parents candidate) \<subseteq> fst ` set (led_operations led)"
      by (auto simp: list_all_iff keys_iff simp del: not_None_eq)
    then show thesis using c(2-4) False g stored [of community invs] by simp
  qed
qed

lemma ledger_inv_admit [inv_intros]:
  assumes inv: "ledger_inv led" and g: "genesis_shape candidate" and ad: "admit L led candidate = Inr led'"
  shows "ledger_inv led'"
  using ad
proof (cases rule: admit_cases)
  case known
  then show ?thesis using inv by simp
next
  case (stored community invs)
  have new: "op_hash candidate \<notin> fst ` set (led_operations led)"
    using stored(1) by (simp add: led_has_def map_of_eq_None_iff)
  have ops: "led_operations led' = led_operations led @ [(op_hash candidate, candidate)]"
    by (simp add: stored(2) filed_def Let_def update_new [OF new])
  then have known: "led_known led' = led_known led @ [candidate]" by (simp add: led_known_def)
  have "set (op_parents candidate) \<subseteq> op_hash ` set (led_known led)"
    using stored(5) g led_keys [OF inv] by (cases "isGenesis candidate") (auto simp: genesis_shape_def)
  then have c: "causal (led_known led')" unfolding known
    using inv new led_keys [OF inv] by (intro causal_snoc) (auto simp: ledger_inv_def)
  have sig: "led_signed led' = AList.update (op_author candidate)
      (signedBy (led_signed led) (op_author candidate) + 1) (led_signed led)"
    by (simp add: stored(2) filed_def Let_def)
  have counts: "signedBy (led_signed led) i = length (filter (\<lambda>op. op_author op = i) (led_known led))" for i
    using inv by (simp add: ledger_inv_def)
  have s: "signedBy (led_signed led') i = length (filter (\<lambda>op. op_author op = i) (led_known led'))" for i
    using counts [of i] unfolding sig known by (cases "i = op_author candidate") (simp_all add: signedBy_def update_conv')
  have st: "length (led_states led') \<le> MAX_REMEMBERED_STATES \<and> distinct (map fst (led_states led')) \<and>
      fst ` set (led_states led') \<subseteq> insert (op_hash candidate) (fst ` set (led_states led))"
    using remember_states [of "filed led candidate" "op_hash candidate" community invs] inv
    by (simp add: stored(2) filed_def Let_def ledger_inv_def)
  have "fst ` set (led_states led') \<subseteq> fst ` set (led_operations led')"
  proof (rule subset_trans)
    show "fst ` set (led_states led') \<subseteq> insert (op_hash candidate) (fst ` set (led_states led))" using st by simp
    show "insert (op_hash candidate) (fst ` set (led_states led)) \<subseteq> fst ` set (led_operations led')"
      using inv by (auto simp: ops ledger_inv_def)
  qed
  then show ?thesis using c s st inv ops by (auto simp: ledger_inv_def)
qed

lemma admit_finds:
  assumes "admit L led candidate = Inr led'"
  shows "map_of (led_operations led') h =
    (if h = op_hash candidate \<and> \<not> led_has led candidate then Some candidate else map_of (led_operations led) h)"
  using assms by (cases rule: admit_cases) (simp_all add: filed_def Let_def update_conv')

lemma admit_keeps:
  assumes "admit L led candidate = Inr led'" and "map_of (led_operations led) h = Some op"
  shows "map_of (led_operations led') h = Some op"
  using assms(2) admit_finds [OF assms(1), of h] by (auto simp: led_has_def)

lemma admit_stores: "admit L led candidate = Inr led' \<Longrightarrow> led_has led' candidate"
  using admit_finds [of L led candidate led' "op_hash candidate"] by (auto simp: led_has_def)

lemma admit_idempotent: "admit L led candidate = Inr led' \<Longrightarrow> admit L led' candidate = Inr led'"
  by (drule admit_stores) (simp add: admit_def)

text \<open>A stored operation was permitted to its author by the state of its causal past.\<close>

lemma applyToPast_cases:
  assumes "applyToPast L led candidate = Inr (community, invs)"
  obtains pst before invs' where "led_pastOf L led (op_parents candidate) = Inr pst"
    "fromPrimitives L (past_community pst) = Inr before" "op_communityId candidate = c_id before"
    "apply_operation L before candidate None = Inr community"
    "assertInvitationRules L candidate before (past_invitations pst) = Inr ()"
    "invitations_after L (past_invitations pst) candidate True = Inr invs'"
    "invs = (if takenBetween before community = [] then invs'
       else cutWhere invs' (\<lambda>iv. takesInvitesOf (takenBetween before community) (inv_issuer (inv_attributes iv))))"
  using assms that by (auto simp: applyToPast_def Let_def)

lemma applyToPast_permits:
  assumes "applyToPast L led candidate = Inr (community, invs)"
  shows "\<exists>before. acts (op_author candidate) (op_action candidate) before community \<and>
    op_communityId candidate = c_id before \<and> op_networkId candidate = c_network before"
  using assms
proof (cases rule: applyToPast_cases)
  case (1 pst before invs')
  then show ?thesis using apply_operation_acts [OF 1(4)] apply_operation_scope [OF 1(4)] by auto
qed

text \<open>
  A stored admission spends an invitation of its causal past: read from its own arguments, open at
  its time, live in the community of that past, and carrying the joiner afterwards.
\<close>

lemma admission_rules:
  assumes "assertInvitationRules L candidate before invs = Inr ()" and "isAdmission candidate"
  obtains iv s joiner possession consent where "invitationOf invs candidate = Some iv"
    "map_of (op_args candidate) ''identityId'' = Some (JString s)" "new_IdentityId L s = Inr joiner"
    "map_of (op_args candidate) ''possession'' = Some (JString possession)"
    "map_of (op_args candidate) ''consent'' = Some (JString consent)"
    "isOpenAt iv (op_createdAt candidate)" "isLiveIn iv before" "\<not> hasJoined iv joiner"
    "\<And>i. inv_invitee (inv_attributes iv) = Some i \<Longrightarrow> i = joiner"
    "lib_possession L (fieldsFor iv joiner) possession (inv_key (inv_attributes iv))"
    "lib_consent L (fieldsFor iv joiner) consent"
proof -
  have "op_action candidate = MEMBER_JOINED" using assms(2) by (simp add: isAdmission_def)
  with assms obtain iv where iv: "invitationOf invs candidate = Some iv"
    and l: "ledger_assertAdmits L candidate before (Some iv) = Inr ()"
    by (cases "invitationOf invs candidate") (auto simp: assertInvitationRules_def ledger_assertAdmits_def Let_def)
  from l obtain s joiner possession consent where o1: "isOpenAt iv (op_createdAt candidate)"
    and args: "string_argument candidate ''identityId'' = Inr s" "new_IdentityId L s = Inr joiner"
      "string_argument candidate ''possession'' = Inr possession" "string_argument candidate ''consent'' = Inr consent"
    and ad: "assertAdmits L iv before joiner possession consent = Inr ()"
    by (auto simp: ledger_assertAdmits_def)
  have arg: "map_of (op_args candidate) k = Some (JString v)" if "string_argument candidate k = Inr v" for k v
    using that by (auto simp: string_argument_def split: option.splits json.splits)
  have p: "lib_possession L (fieldsFor iv joiner) possession (inv_key (inv_attributes iv))"
    "lib_consent L (fieldsFor iv joiner) consent" using ad by (auto simp: assertAdmits_def)
  show thesis
    using assertAdmits_live [OF ad] by (intro that [OF iv arg [OF args(1)] args(2) arg [OF args(3)] arg [OF args(4)] o1 _ _ _ p]) auto
qed

lemma admission_spends_use:
  assumes "invitations_after L invs candidate True = Inr invs'" and "isAdmission candidate"
    and "invitationOf invs candidate = Some iv" and "map_of (op_args candidate) ''identityId'' = Some (JString s)"
    and "isLiveIn iv before"
  shows "map_of (byId invs') (inv_id (inv_attributes iv)) = Some (withJoiner iv s)"
    and "int (length (status_joinerIds (inv_status (withJoiner iv s)))) \<le> inv_maxUses (inv_attributes iv)"
proof -
  have "op_action candidate = MEMBER_JOINED" using assms(2) by (simp add: isAdmission_def)
  then have "invs' = invitations_with invs (withJoiner iv s)" using assms by (simp add: invitations_after_def)
  then show "map_of (byId invs') (inv_id (inv_attributes iv)) = Some (withJoiner iv s)"
    by (simp add: invitations_with_def Let_def update_conv')
  show "int (length (status_joinerIds (inv_status (withJoiner iv s)))) \<le> inv_maxUses (inv_attributes iv)"
    using assms(5) by (simp add: isLiveIn_def withJoiner_def)
qed

lemma cutWhere_lookup: "map_of (byId (cutWhere invs P)) i = map_option (\<lambda>iv. if P iv then inv_cut iv else iv) (map_of (byId invs) i)"
proof -
  have "map_of (map (\<lambda>(k, v). (k, f v)) kvs) i = map_option f (map_of kvs i)"
    for f :: "invitation \<Rightarrow> invitation" and kvs :: "(string \<times> invitation) list"
    by (induction kvs) (auto simp del: map_of_eq_None_iff)
  then show ?thesis by (simp add: cutWhere_def)
qed

lemma applyToPast_admission:
  assumes "applyToPast L led candidate = Inr (community, invs)" and adm: "isAdmission candidate"
  shows "\<exists>pst before iv s joiner possession consent used.
    led_pastOf L led (op_parents candidate) = Inr pst \<and> fromPrimitives L (past_community pst) = Inr before \<and>
    invitationOf (past_invitations pst) candidate = Some iv \<and>
    map_of (op_args candidate) ''identityId'' = Some (JString s) \<and> new_IdentityId L s = Inr joiner \<and>
    map_of (op_args candidate) ''possession'' = Some (JString possession) \<and>
    map_of (op_args candidate) ''consent'' = Some (JString consent) \<and>
    isOpenAt iv (op_createdAt candidate) \<and> \<not> status_revoked (inv_status iv) \<and> \<not> status_cut (inv_status iv) \<and>
    int (length (status_joinerIds (inv_status iv))) < inv_maxUses (inv_attributes iv) \<and>
    holds before (inv_issuer (inv_attributes iv)) CREATE_INVITES \<and>
    \<not> hasJoined iv joiner \<and>
    (\<forall>i. inv_invitee (inv_attributes iv) = Some i \<longrightarrow> i = joiner) \<and>
    lib_possession L (fieldsFor iv joiner) possession (inv_key (inv_attributes iv)) \<and>
    lib_consent L (fieldsFor iv joiner) consent \<and>
    joiner \<in> set (members (c_membership community)) \<and>
    map_of (byId invs) (inv_id (inv_attributes iv)) = Some used \<and>
    s \<in> set (status_joinerIds (inv_status used)) \<and>
    int (length (status_joinerIds (inv_status used))) \<le> inv_maxUses (inv_attributes iv)"
  using assms(1)
proof (cases rule: applyToPast_cases)
  case (1 pst before invs')
  from admission_rules [OF 1(5) adm] obtain iv s joiner possession consent where
    a: "invitationOf (past_invitations pst) candidate = Some iv"
      "map_of (op_args candidate) ''identityId'' = Some (JString s)" "new_IdentityId L s = Inr joiner"
      "map_of (op_args candidate) ''possession'' = Some (JString possession)"
      "map_of (op_args candidate) ''consent'' = Some (JString consent)"
      "isOpenAt iv (op_createdAt candidate)" "isLiveIn iv before" "\<not> hasJoined iv joiner"
      "\<And>i. inv_invitee (inv_attributes iv) = Some i \<Longrightarrow> i = joiner"
      "lib_possession L (fieldsFor iv joiner) possession (inv_key (inv_attributes iv))"
      "lib_consent L (fieldsFor iv joiner) consent" by metis
  note spent = admission_spends_use [OF 1(6) adm a(1,2,7)]
  have "op_action candidate = MEMBER_JOINED" using adm by (simp add: isAdmission_def)
  with 1(4) obtain s' i meth where "map_of (op_args candidate) ''identityId'' = Some (JString s')" "new_IdentityId L s' = Inr i"
    "joinAs before (op_author candidate) i meth = Inr community" by (auto elim: apply_join_names)
  then have m: "joiner \<in> set (members (c_membership community))"
    using members_after_join [OF joinAs_join] a(2,3) by auto
  have cut: "status_joinerIds (inv_status (inv_cut v)) = status_joinerIds (inv_status v)" for v by (simp add: inv_cut_def)
  obtain used where u: "map_of (byId invs) (inv_id (inv_attributes iv)) = Some used"
    "status_joinerIds (inv_status used) = status_joinerIds (inv_status (withJoiner iv s))"
  proof (cases "takenBetween before community = []")
    case True
    then show thesis using that [of "withJoiner iv s"] spent(1) 1(7) by simp
  next
    case False
    then show thesis using that spent(1) 1(7) cut by (simp add: cutWhere_lookup)
  qed
  moreover have "s \<in> set (status_joinerIds (inv_status (withJoiner iv s)))" by (simp add: withJoiner_def)
  ultimately have used: "s \<in> set (status_joinerIds (inv_status used))"
    "int (length (status_joinerIds (inv_status used))) \<le> inv_maxUses (inv_attributes iv)"
    using spent(2) by simp_all
  note live = a(7) [unfolded isLiveIn_def, THEN conjunct1]
    a(7) [unfolded isLiveIn_def, THEN conjunct2, THEN conjunct1]
    a(7) [unfolded isLiveIn_def, THEN conjunct2, THEN conjunct2, THEN conjunct1]
    a(7) [unfolded isLiveIn_def, THEN conjunct2, THEN conjunct2, THEN conjunct2]
  show ?thesis
    by (intro exI conjI allI impI, rule 1(1), rule 1(2)) ((rule a(1-6) live a(8) a(9-11) m u(1) used | assumption)+)
qed

lemma admit_admission:
  assumes "admit L led candidate = Inr led'" and "\<not> led_has led candidate" and "isAdmission candidate"
  shows "\<exists>community invs. led' = remember (op_hash candidate) community invs (filed led candidate) \<and>
   (\<exists>pst before iv s joiner possession consent used.
    led_pastOf L led (op_parents candidate) = Inr pst \<and> fromPrimitives L (past_community pst) = Inr before \<and>
    invitationOf (past_invitations pst) candidate = Some iv \<and>
    map_of (op_args candidate) ''identityId'' = Some (JString s) \<and> new_IdentityId L s = Inr joiner \<and>
    map_of (op_args candidate) ''possession'' = Some (JString possession) \<and>
    map_of (op_args candidate) ''consent'' = Some (JString consent) \<and>
    isOpenAt iv (op_createdAt candidate) \<and>
    \<not> status_revoked (inv_status iv) \<and> \<not> status_cut (inv_status iv) \<and>
    int (length (status_joinerIds (inv_status iv))) < inv_maxUses (inv_attributes iv) \<and>
    holds before (inv_issuer (inv_attributes iv)) CREATE_INVITES \<and>
    \<not> hasJoined iv joiner \<and> (\<forall>i. inv_invitee (inv_attributes iv) = Some i \<longrightarrow> i = joiner) \<and>
    lib_possession L (fieldsFor iv joiner) possession (inv_key (inv_attributes iv)) \<and>
    lib_consent L (fieldsFor iv joiner) consent \<and>
    joiner \<in> set (members (c_membership community)) \<and>
    map_of (byId invs) (inv_id (inv_attributes iv)) = Some used \<and>
    s \<in> set (status_joinerIds (inv_status used)) \<and>
    int (length (status_joinerIds (inv_status used))) \<le> inv_maxUses (inv_attributes iv))"
  using assms(1)
proof (cases rule: admit_cases)
  case known
  then show ?thesis using assms(2) by blast
next
  case (stored community invs)
  have "\<not> isGenesis candidate" using assms(3) by (auto simp: isAdmission_def isGenesis_def action_isGenesis_def)
  from applyToPast_admission [OF stored(4) [OF this] assms(3)] show ?thesis
    by (intro exI [of _ community] exI [of _ invs] conjI [OF stored(2)])
qed

section \<open>Reachable ledgers\<close>

text \<open>
  A ledger grows by admitting operations that passed the builder; a refused candidate throws and
  leaves it as it was.
\<close>

inductive admitted :: "lib \<Rightarrow> ledger \<Rightarrow> bool" for L where
  admitted_new: "admitted L new_ledger"
| admitted_step: "admitted L led \<Longrightarrow> operation_fromPrimitives L v = Inr op \<Longrightarrow> admit L led op = Inr led' \<Longrightarrow>
     admitted L led'"

lemma admit_known:
  assumes "ledger_inv led" and "admit L led candidate = Inr led'"
  shows "set (led_known led') = (if led_has led candidate then set (led_known led) else insert candidate (set (led_known led)))"
  using assms(2)
proof (cases rule: admit_cases)
  case known
  then show ?thesis by simp
next
  case (stored community invs)
  have "op_hash candidate \<notin> fst ` set (led_operations led)"
    using stored(1) by (simp add: led_has_def map_of_eq_None_iff)
  then have "led_operations led' = led_operations led @ [(op_hash candidate, candidate)]"
    by (simp add: stored(2) filed_def Let_def update_new)
  then show ?thesis using stored(1) by (auto simp: led_known_def)
qed

lemma admitted_built:
  assumes "lib_ok L" and "admitted L led"
  shows "ledger_inv led \<and> operations_built L (led_known led)"
  using assms(2)
proof induction
  case admitted_new
  then show ?case by (intro conjI ledger_inv_new) (simp add: operations_built_def led_known_def new_ledger_def)
next
  case (admitted_step led v op led')
  have "genesis_shape op" using operation_built [OF assms(1) admitted_step.hyps(2)] by (simp add: built_operation_def)
  then have "ledger_inv led'" using ledger_inv_admit admitted_step by blast
  moreover have "operations_built L (led_known led')"
    using admit_known [OF conjunct1 [OF admitted_step.IH] admitted_step.hyps(3)] admitted_step.IH admitted_step.hyps(2)
    by (auto simp: operations_built_def)
  ultimately show ?case ..
qed

lemma causal_ordered:
  assumes "causal ops" and "distinct_parents ops"
  shows "\<exists>xs. orderOf ops = Some xs \<and> set xs = set ops"
proof -
  obtain xs where xs: "orderOf ops = Some xs" using orderOf_canonical [OF assms(2)] by blast
  have "op \<in> set xs \<longleftrightarrow> op \<in> set ops" for op
    using orderOf_members [OF assms(2) xs, of op] causal_known [OF assms(1)] causal_rooted [OF assms(1)]
      rooted_known by blast
  then show ?thesis using xs by blast
qed

end
