(* ===== verification/CutsSafety.thy ===== *)
theory CutsSafety
  imports AuthorityCuts
begin

text \<open>
  What the authority cuts of
  \<open>src/contexts/communities/domain/operations/CommunityAuthorityCuts.ts\<close> can void: only an
  invitation or an admission that is concurrent with an operation of the set that took from its
  author the authority it needed, and never another cut.
\<close>

section \<open>Every cut is an operation of the set\<close>

definition traced :: "(operation \<Rightarrow> 'e + string list) \<Rightarrow> operation list \<Rightarrow> cuts \<Rightarrow> bool" where
  "traced takenOf ordered C \<longleftrightarrow>
     (\<forall>h t. map_of (cuts_taken C) h = Some t \<longrightarrow>
        (\<exists>op \<in> set ordered. op_hash op = h \<and> isCutting op \<and> takenOf op = Inr t))"

lemma cut_matters_cutting: "cut_matters C op \<Longrightarrow> isCutting op"
  by (simp add: cut_matters_def split: if_splits)

lemma collect_cuts_traced:
  assumes "collect_cuts takenOf ops C = Inr C'" and "set ops \<subseteq> set ordered" and "traced takenOf ordered C"
  shows "traced takenOf ordered C' \<and> cuts_ancestry C' = cuts_ancestry C"
  using assms
proof (induction ops arbitrary: C)
  case (Cons op ops)
  show ?case
  proof (cases "cut_matters C op")
    case False
    then show ?thesis using Cons by simp
  next
    case True
    with Cons.prems(1) obtain taken where t: "takenOf op = Inr taken" by auto
    show ?thesis
    proof (cases "taken = []")
      case True
      then show ?thesis using Cons t \<open>cut_matters C op\<close> by simp
    next
      case False
      let ?C = "C\<lparr>cuts_taken := AList.update (op_hash op) taken (cuts_taken C),
             cuts_cutsOf := fold (\<lambda>member m. push_under member op m)
               (new_Set (map identity_of_key taken)) (cuts_cutsOf C)\<rparr>"
      have "collect_cuts takenOf ops ?C = Inr C'" using Cons.prems(1) \<open>cut_matters C op\<close> t False by simp
      moreover have "traced takenOf ordered ?C"
        using Cons.prems(2,3) t cut_matters_cutting [OF \<open>cut_matters C op\<close>]
        by (auto simp: traced_def update_conv')
      ultimately show ?thesis using Cons.IH [of ?C] Cons.prems(2) by simp
    qed
  qed
qed simp

section \<open>Deciding changes only which cuts stand\<close>

lemma fold_keeps:
  assumes "\<And>x C. g (f x C) = g C"
  shows "g (fold f xs C) = g C"
  using assms by (induction xs arbitrary: C) auto

lemma decideComponent_frame:
  "cuts_taken (decideComponent component byHash preds C) = cuts_taken C"
  "cuts_ancestry (decideComponent component byHash preds C) = cuts_ancestry C"
  "cuts_cutsOf (decideComponent component byHash preds C) = cuts_cutsOf C"
  "cuts_authored (decideComponent component byHash preds C) = cuts_authored C"
  unfolding decideComponent_def Let_def
  by (subst fold_keeps; simp)+

lemma decide_frame:
  "cuts_taken (decide ops C) = cuts_taken C" "cuts_ancestry (decide ops C) = cuts_ancestry C"
  "cuts_cutsOf (decide ops C) = cuts_cutsOf C" "cuts_authored (decide ops C) = cuts_authored C"
  unfolding decide_def Let_def by (subst fold_keeps; simp add: decideComponent_frame)+

lemma new_AuthorityCuts_traced:
  assumes "new_AuthorityCuts ordered A takenOf = Inr C"
  shows "traced takenOf ordered C \<and> cuts_ancestry C = A"
proof -
  let ?C0 = "\<lparr>cuts_ancestry = A, cuts_authored = authoredOf ordered, cuts_taken = [],
               cuts_cutsOf = [], cuts_cyclic = [], cuts_standing = []\<rparr>"
  from assms obtain C1 where c: "collect_cuts takenOf ordered ?C0 = Inr C1"
    "C = decide (filter (\<lambda>op. map_of (cuts_taken C1) (op_hash op) \<noteq> None) ordered) C1"
    by (auto simp: new_AuthorityCuts_def)
  have "traced takenOf ordered ?C0" by (simp add: traced_def)
  from collect_cuts_traced [OF c(1) subset_refl this] show ?thesis
    by (simp add: c(2) traced_def decide_frame)
qed

section \<open>What is void\<close>

lemma void_has_cutter:
  assumes C: "new_AuthorityCuts ordered A takenOf = Inr C" and v: "cuts_isVoid C op"
  shows "\<not> isCutting op \<and> (op_action op = INVITATION_CREATED \<or> isAdmission op) \<and>
    (\<exists>need cutter taken. needOf op = Some need \<and> cutter \<in> set ordered \<and> isCutting cutter \<and>
       op_hash cutter \<in> set (cuts_standing C) \<and> areConcurrent A (op_hash cutter) (op_hash op) \<and>
       takenOf cutter = Inr taken \<and> keyOf need (op_author op) \<in> set taken)"
proof -
  from v obtain need where need: "\<not> isCutting op" "needOf op = Some need" "isReachedBy C op need"
    by (auto simp: cuts_isVoid_def split: option.splits if_splits)
  from need(3) obtain cutter where c: "op_hash cutter \<in> set (cuts_standing C)" "takes C cutter need (op_author op)"
    "reaches C cutter op" by (auto simp: isReachedBy_def list_ex_iff)
  from new_AuthorityCuts_traced [OF C] have t: "traced takenOf ordered C" "cuts_ancestry C = A" by auto
  from c(2) obtain taken where "map_of (cuts_taken C) (op_hash cutter) = Some taken"
    "keyOf need (op_author op) \<in> set taken" by (auto simp: takes_def split: option.splits)
  with t(1) obtain k where "k \<in> set ordered" "op_hash k = op_hash cutter" "isCutting k" "takenOf k = Inr taken"
    unfolding traced_def by blast
  moreover have "areConcurrent A (op_hash cutter) (op_hash op)" using c(3) t(2) by (simp add: reaches_def)
  moreover have "op_action op = INVITATION_CREATED \<or> isAdmission op"
    using need(1,2) by (auto simp: needOf_def split: if_splits)
  ultimately show ?thesis using need c(1) \<open>keyOf need (op_author op) \<in> set taken\<close> by metis
qed

text \<open>The owner loses no permission, so no invitation or admission of the owner is void unless it left.\<close>

lemma no_blank_append: "CHR '' '' \<notin> set a \<Longrightarrow> CHR '' '' \<notin> set b \<Longrightarrow> keyOf a i = keyOf b j \<longleftrightarrow> a = b \<and> i = j"
proof -
  have split: "takeWhile (\<lambda>c. c \<noteq> CHR '' '') (keyOf x k) = x" if "CHR '' '' \<notin> set x" for x k
    using that by (auto simp: keyOf_def takeWhile_append intro: takeWhile_eq_all_conv [THEN iffD2])
  show "CHR '' '' \<notin> set a \<Longrightarrow> CHR '' '' \<notin> set b \<Longrightarrow> keyOf a i = keyOf b j \<longleftrightarrow> a = b \<and> i = j"
    using split [of a i] split [of b j] by (auto simp: keyOf_def)
qed

lemma permission_no_blank: "CHR '' '' \<notin> set (permission_value p)"
  by (cases p) (simp_all add: permission_value.simps)

lemma taken_permission:
  "keyOf (permission_value p) m \<in> set (takenBetween before after) \<longleftrightarrow>
     m \<in> set (members (c_membership before)) \<and> p \<in> set cut_permissions \<and> holds before m p \<and> \<not> holds after m p"
proof -
  have inj: "keyOf (permission_value p) m = keyOf (permission_value q) k \<longleftrightarrow> p = q \<and> m = k" for q k
    using no_blank_append [OF permission_no_blank permission_no_blank, of p m q k]
    by (cases p; cases q) auto
  have "keyOf (permission_value p) m \<noteq> keyOf MEMBERSHIP k" for k
    using no_blank_append [OF permission_no_blank, of "MEMBERSHIP" p m k] by (cases p) (auto simp: MEMBERSHIP_def)
  then show ?thesis unfolding takenBetween_keys by (auto simp: inj)
qed

lemma taken_membership:
  "keyOf MEMBERSHIP m \<in> set (takenBetween before after) \<longleftrightarrow>
     m \<in> set (members (c_membership before)) \<and> m \<notin> set (members (c_membership after))"
proof -
  have b: "CHR '' '' \<notin> set MEMBERSHIP" by (simp add: MEMBERSHIP_def)
  have inj: "keyOf MEMBERSHIP m = keyOf MEMBERSHIP k \<longleftrightarrow> m = k" for k by (simp add: no_blank_append [OF b b])
  have "keyOf MEMBERSHIP m \<noteq> keyOf (permission_value p) k" for p k
    using no_blank_append [OF b permission_no_blank, of m p k] by (cases p) (auto simp: MEMBERSHIP_def)
  then show ?thesis unfolding takenBetween_keys by (auto simp: inj)
qed

end
