(* ===== verification/ComponentSearch.thy ===== *)
theory ComponentSearch
  imports CutComponents
begin

text \<open>
  Correctness of the search for strongly connected components in
  \<open>src/contexts/communities/domain/operations/CommunityCutComponents.ts\<close>: the components
  partition what the nodes reach, each is a maximal set of nodes that reach each other, and they
  come sources first. The state of the algorithm is related to an invariant over its index
  function \<open>ix\<close>, its low links \<open>lo\<close>, the stack, the frames of the walk and the finished
  components.
\<close>

section \<open>The invariant\<close>

definition reach :: "('v \<Rightarrow> 'v list) \<Rightarrow> 'v \<Rightarrow> 'v \<Rightarrow> bool" where
  "reach es = (\<lambda>a b. b \<in> set (es a))\<^sup>*\<^sup>*"

lemma reach_refl [simp, intro]: "reach es v v"
  by (simp add: reach_def)

lemma reach_trans: "reach es a b \<Longrightarrow> reach es b c \<Longrightarrow> reach es a c"
  by (simp add: reach_def)

lemma reach_edge: "b \<in> set (es a) \<Longrightarrow> reach es a b"
  by (simp add: reach_def r_into_rtranclp)

text \<open>The edges of a node that were followed so far.\<close>

definition explored :: "('v \<Rightarrow> 'v list) \<Rightarrow> ('v \<times> nat) list \<Rightarrow> 'v \<Rightarrow> 'v set" where
  "explored es work x =
     (case map_of work x of Some n \<Rightarrow> set (take n (es x)) | None \<Rightarrow> set (es x))"

lemma explored_edges: "explored es work x \<subseteq> set (es x)"
  by (auto simp: explored_def dest: in_set_takeD split: option.splits)

text \<open>The node \<open>x\<close> of the stack lies in the segment of the frame \<open>w\<close>: the last frame at or below it.\<close>

definition in_segment :: "('v \<Rightarrow> nat) \<Rightarrow> 'v set \<Rightarrow> 'v \<Rightarrow> 'v \<Rightarrow> bool" where
  "in_segment ix W w x \<longleftrightarrow> ix w \<le> ix x \<and> (\<forall>w' \<in> W. ix w' \<le> ix x \<longrightarrow> ix w' \<le> ix w)"

text \<open>Every finished component is strongly connected and its edges stay in it or in earlier ones.\<close>

definition finished_ok :: "('v \<Rightarrow> 'v list) \<Rightarrow> 'v list list \<Rightarrow> bool" where
  "finished_ok es comps \<longleftrightarrow>
     distinct (concat comps) \<and> (\<forall>c \<in> set comps. c \<noteq> [] \<and> (\<forall>x \<in> set c. \<forall>y \<in> set c. reach es x y)) \<and>
     (\<forall>us c vs. comps = us @ c # vs \<longrightarrow> (\<forall>x \<in> set c. set (es x) \<subseteq> set c \<union> set (concat us)))"

definition search_ok :: "('v \<Rightarrow> 'v list) \<Rightarrow> 'v set \<Rightarrow> nat \<Rightarrow> ('v \<Rightarrow> nat) \<Rightarrow> ('v \<Rightarrow> nat) \<Rightarrow> 'v list
    \<Rightarrow> ('v \<times> nat) list \<Rightarrow> 'v list list \<Rightarrow> bool" where
  "search_ok es V N ix lo stack work comps \<longleftrightarrow>
     V = set stack \<union> set (concat comps) \<and> set stack \<inter> set (concat comps) = {} \<and>
     sorted_wrt (\<lambda>a b. ix a > ix b) stack \<and> (\<forall>v \<in> V. ix v < N) \<and>
     set (map fst work) \<subseteq> set stack \<and> sorted_wrt (\<lambda>a b. ix a > ix b) (map fst work) \<and>
     (\<forall>v \<in> set stack. lo v \<le> ix v \<and> (\<exists>u \<in> set stack. ix u = lo v \<and> reach es v u)) \<and>
     (\<forall>x \<in> set stack. \<exists>w \<in> set (map fst work). ix w \<le> ix x \<and> reach es x w) \<and>
     (\<forall>w \<in> set (map fst work). \<forall>x \<in> set stack. ix w \<le> ix x \<longrightarrow> reach es w x) \<and>
     (\<forall>x \<in> V. explored es work x \<subseteq> V) \<and>
     (\<forall>w \<in> set (map fst work). \<forall>x \<in> set stack. in_segment ix (set (map fst work)) w x \<longrightarrow>
        (\<forall>y \<in> explored es work x \<inter> set stack. lo w \<le> ix y)) \<and>
     finished_ok es comps"

lemma search_okD:
  assumes "search_ok es V N ix lo stack work comps"
  shows "V = set stack \<union> set (concat comps)" "set stack \<inter> set (concat comps) = {}"
    "sorted_wrt (\<lambda>a b. ix a > ix b) stack" "\<And>v. v \<in> V \<Longrightarrow> ix v < N"
    "set (map fst work) \<subseteq> set stack" "sorted_wrt (\<lambda>a b. ix a > ix b) (map fst work)"
    "\<And>v. v \<in> set stack \<Longrightarrow> lo v \<le> ix v" "\<And>v. v \<in> set stack \<Longrightarrow> \<exists>u \<in> set stack. ix u = lo v \<and> reach es v u"
    "\<And>x. x \<in> set stack \<Longrightarrow> \<exists>w \<in> set (map fst work). ix w \<le> ix x \<and> reach es x w"
    "\<And>w x. w \<in> set (map fst work) \<Longrightarrow> x \<in> set stack \<Longrightarrow> ix w \<le> ix x \<Longrightarrow> reach es w x"
    "\<And>x. x \<in> V \<Longrightarrow> explored es work x \<subseteq> V"
    "\<And>w x y. w \<in> set (map fst work) \<Longrightarrow> x \<in> set stack \<Longrightarrow> in_segment ix (set (map fst work)) w x \<Longrightarrow>
       y \<in> explored es work x \<Longrightarrow> y \<in> set stack \<Longrightarrow> lo w \<le> ix y"
    "finished_ok es comps"
  using assms unfolding search_ok_def by blast+

lemma search_ok_start: "search_ok es {} 0 ix lo [] [] []"
  by (simp add: search_ok_def finished_ok_def)

lemma decreasing_distinct: "sorted_wrt (\<lambda>a b. (ix a :: nat) > ix b) xs \<Longrightarrow> distinct xs"
  by (induction xs) auto

lemma decreasing_inj: "sorted_wrt (\<lambda>a b. (ix a :: nat) > ix b) xs \<Longrightarrow> inj_on ix (set xs)"
proof (induction xs)
  case (Cons x xs)
  then have "ix x \<notin> ix ` (set xs - {x})" by auto
  then show ?case using Cons by simp
qed simp

lemma decreasing_hd: "sorted_wrt (\<lambda>a b. (ix a :: nat) > ix b) (x # xs) \<Longrightarrow> y \<in> set (x # xs) \<Longrightarrow> ix y \<le> ix x"
  by auto

text \<open>The walk leaves nothing on the stack.\<close>

lemma search_ok_done: "search_ok es V N ix lo stack [] comps \<Longrightarrow> stack = []"
proof (cases stack)
  case (Cons x xs)
  assume "search_ok es V N ix lo stack [] comps"
  from search_okD(9) [OF this, of x] show ?thesis by (simp add: Cons)
qed simp

section \<open>Visiting a node\<close>

lemma sorted_cong:
  assumes "\<And>x. x \<in> set xs \<Longrightarrow> f x = g x" and "sorted_wrt (\<lambda>a b. (f a :: nat) > f b) xs"
  shows "sorted_wrt (\<lambda>a b. g a > g b) xs"
  using assms by (induction xs) auto

lemma search_ok_visit:
  assumes ok: "search_ok es V N ix lo stack work comps" and new: "to \<notin> V"
    and work: "work = [] \<or> (\<exists>node n rest. work = (node, n) # rest \<and> n < length (es node) \<and> to = es node ! n \<and>
       work' = (node, Suc n) # rest)" "work = [] \<Longrightarrow> work' = []"
  shows "search_ok es (insert to V) (Suc N) (ix(to := N)) (lo(to := N)) (to # stack) ((to, 0) # work') comps"
proof -
  note d = search_okD [OF ok]
  let ?ix = "ix(to := N)" and ?lo = "lo(to := N)" and ?W = "set (map fst work)"
  have frames: "map fst work' = map fst work" using work by auto
  have ns: "to \<notin> set stack" "to \<notin> set (concat comps)" using new d(1) by auto
  have ixs: "?ix v = ix v" if "v \<in> set stack" for v using that ns by auto
  have lt: "ix v < N" if "v \<in> set stack" for v using that d(1,4) by auto
  have W: "?W \<subseteq> set stack" by (rule d(5))
  have ixW: "?ix w = ix w" "w \<noteq> to" if "w \<in> ?W" for w using that W ns by auto
  have top: "reach es w to" if w: "w \<in> ?W" for w
  proof -
    from w work(1) obtain node n rest where h: "work = (node, n) # rest" "n < length (es node)" "to = es node ! n" by auto
    have "node \<in> set stack" "ix w \<le> ix node" using d(5) w decreasing_hd [of ix node "map fst rest" w] d(6) by (auto simp: h)
    then have "reach es w node" using d(10) [OF w] by blast
    moreover have "reach es node to" using h by (intro reach_edge) simp
    ultimately show ?thesis by (rule reach_trans)
  qed
  have ex: "explored es ((to, 0) # work') x \<subseteq> explored es work x \<union> {to}" if "x \<noteq> to" for x
  proof (cases "work = []")
    case True
    then show ?thesis using work(2) that by (auto simp: explored_def)
  next
    case False
    then obtain node n rest where h: "work = (node, n) # rest" "n < length (es node)" "to = es node ! n"
      "work' = (node, Suc n) # rest" using work(1) by auto
    show ?thesis using that h(2) by (auto simp: explored_def h take_Suc_conv_app_nth)
  qed
  have exto: "explored es ((to, 0) # work') to = {}" by (simp add: explored_def)
  show ?thesis unfolding search_ok_def
  proof (intro conjI ballI impI)
    show "insert to V = set (to # stack) \<union> set (concat comps)" using d(1) by auto
    show "set (to # stack) \<inter> set (concat comps) = {}" using d(2) ns by auto
    have "sorted_wrt (\<lambda>a b. ?ix b < ?ix a) stack" by (rule sorted_cong [OF _ d(3)]) (rule ixs [symmetric])
    moreover have "?ix b < ?ix to" if "b \<in> set stack" for b using that ixs lt by simp
    ultimately show "sorted_wrt (\<lambda>a b. ?ix b < ?ix a) (to # stack)" by (simp del: fun_upd_apply)
    show "?ix v < Suc N" if "v \<in> insert to V" for v using that d(4) by (auto simp: less_SucI)
    show "set (map fst ((to, 0) # work')) \<subseteq> set (to # stack)" using d(5) frames by auto
    have "sorted_wrt (\<lambda>a b. ?ix b < ?ix a) (map fst work)"
      by (rule sorted_cong [OF _ d(6)]) (simp only: ixW(1))
    moreover have "?ix b < ?ix to" if "b \<in> ?W" for b using that ixW lt W by auto
    ultimately show "sorted_wrt (\<lambda>a b. ?ix b < ?ix a) (map fst ((to, 0) # work'))"
      using frames by (simp del: fun_upd_apply)
    show "?lo v \<le> ?ix v" if "v \<in> set (to # stack)" for v using that d(7) by auto
    show "\<exists>u \<in> set (to # stack). ?ix u = ?lo v \<and> reach es v u" if "v \<in> set (to # stack)" for v
    proof (cases "v = to")
      case False
      with that have v: "v \<in> set stack" by simp
      from d(8) [OF v] obtain u where "u \<in> set stack" "ix u = lo v" "reach es v u" by blast
      then show ?thesis using False ixs by auto
    qed auto
    show "\<exists>w \<in> set (map fst ((to, 0) # work')). ?ix w \<le> ?ix x \<and> reach es x w" if "x \<in> set (to # stack)" for x
    proof (cases "x = to")
      case False
      with that have xs: "x \<in> set stack" by simp
      from d(9) [OF xs] obtain w where "w \<in> ?W" "ix w \<le> ix x" "reach es x w" by blast
      then show ?thesis using False that ixW ixs frames by auto
    qed auto
    show "reach es w x" if w: "w \<in> set (map fst ((to, 0) # work'))" and x: "x \<in> set (to # stack)"
      and le: "?ix w \<le> ?ix x" for w x
    proof (cases "w = to")
      case True
      then have "x = to" using x le lt by (auto split: if_splits dest: leD)
      then show ?thesis using True by simp
    next
      case False
      then have w': "w \<in> ?W" using w frames by auto
      show ?thesis
      proof (cases "x = to")
        case True
        then show ?thesis using top [OF w'] by simp
      next
        case xt: False
        then show ?thesis using d(10) [OF w', of x] x le False by auto
      qed
    qed
    show "explored es ((to, 0) # work') x \<subseteq> insert to V" if "x \<in> insert to V" for x
      using that ex [of x] exto d(11) [of x] by (cases "x = to") auto
    show "?lo w \<le> ?ix y" if w: "w \<in> set (map fst ((to, 0) # work'))" and x: "x \<in> set (to # stack)"
      and seg: "in_segment ?ix (set (map fst ((to, 0) # work'))) w x"
      and y: "y \<in> explored es ((to, 0) # work') x \<inter> set (to # stack)" for w x y
    proof -
      have xt: "x \<noteq> to" using y exto by auto
      then have xs: "x \<in> set stack" using x by auto
      have wt: "w \<noteq> to" using seg lt [OF xs] xt by (auto simp: in_segment_def)
      then have w': "w \<in> ?W" using w frames by auto
      show ?thesis
      proof (cases "y = to")
        case True
        have "w \<in> set stack" using w' W by auto
        then have "lo w \<le> ix w" "ix w < N" using d(7) lt by auto
        then show ?thesis using True wt by simp
      next
        case False
        have "in_segment ix ?W w x"
          using seg wt xt ixW ixs xs frames unfolding in_segment_def by (auto dest: spec)
        moreover have "y \<in> explored es work x" "y \<in> set stack" using y ex [OF xt] False by auto
        ultimately show ?thesis using d(12) [OF w' xs] False wt by auto
      qed
    qed
    show "finished_ok es comps" by (rule d(13))
  qed
qed

section \<open>Following an edge to a visited node\<close>

text \<open>A low link may be lowered to the index of anything on the stack that the node reaches.\<close>

lemma search_ok_lower:
  assumes ok: "search_ok es V N ix lo stack work comps" and p: "p \<in> set stack"
    and low: "u \<in> set stack" "ix u = n" "reach es p u"
  shows "search_ok es V N ix (lo(p := min (lo p) n)) stack work comps"
proof -
  note d = search_okD [OF ok]
  let ?lo = "lo(p := min (lo p) n)"
  have le: "?lo v \<le> lo v" for v by simp
  show ?thesis unfolding search_ok_def
  proof (intro conjI ballI impI)
    show "?lo v \<le> ix v" if "v \<in> set stack" for v using le [of v] d(7) [OF that] by (rule le_trans)
    show "\<exists>u \<in> set stack. ix u = ?lo v \<and> reach es v u" if "v \<in> set stack" for v
    proof (cases "v = p \<and> n < lo p")
      case True
      then show ?thesis using low by auto
    next
      case False
      then have "?lo v = lo v" by auto
      then show ?thesis using d(8) [OF that] by simp
    qed
    show "?lo w \<le> ix y" if "w \<in> set (map fst work)" "x \<in> set stack" "in_segment ix (set (map fst work)) w x"
      "y \<in> explored es work x \<inter> set stack" for w x y
      using le [of w] d(12) [OF that(1-3), of y] that(4) by (meson IntD1 IntD2 le_trans)
  qed (use d in blast)+
qed

lemma search_ok_step:
  assumes ok: "search_ok es V N ix lo stack ((node, n) # rest) comps" and n: "n < length (es node)"
    and to: "to = es node ! n" "to \<in> V" and low: "to \<in> set stack \<Longrightarrow> lo node \<le> ix to"
  shows "search_ok es V N ix lo stack ((node, Suc n) # rest) comps"
proof -
  note d = search_okD [OF ok]
  let ?work = "(node, n) # rest" and ?work' = "(node, Suc n) # rest"
  have frames: "map fst ?work' = map fst ?work" by simp
  have ex: "explored es ?work' x = explored es ?work x \<union> (if x = node then {to} else {})" for x
    using n to(1) by (auto simp: explored_def take_Suc_conv_app_nth)
  have inj: "inj_on ix (set stack)" by (rule decreasing_inj [OF d(3)])
  show ?thesis unfolding search_ok_def frames
  proof (intro conjI ballI impI)
    show "explored es ?work' x \<subseteq> V" if "x \<in> V" for x
      using d(11) [OF that] to(2) by (auto simp: ex)
    show "lo w \<le> ix y" if w: "w \<in> set (map fst ?work)" and x: "x \<in> set stack"
      and seg: "in_segment ix (set (map fst ?work)) w x" and y: "y \<in> explored es ?work' x \<inter> set stack" for w x y
    proof (cases "y \<in> explored es ?work x")
      case True
      then show ?thesis using d(12) [OF w x seg] y by simp
    next
      case False
      then have h: "x = node" "y = to" using y by (auto simp: ex split: if_splits)
      then have "ix w = ix node" using seg w by (auto simp: in_segment_def)
      moreover have "w \<in> set stack" "node \<in> set stack" using w d(5) by auto
      ultimately have "w = node" using inj by (auto dest: inj_onD)
      then show ?thesis using low h y by simp
    qed
  qed (use d in blast)+
qed

section \<open>Leaving a frame\<close>

text \<open>The nodes above the last frame are explored, and so is the node of the frame.\<close>

lemma top_is_highest:
  assumes ok: "search_ok es V N ix lo stack ((node, n) # rest) comps" and w: "w \<in> set (map fst rest)"
  shows "ix w < ix node"
  using search_okD(6) [OF ok] w by auto

lemma low_reaches_lower_frame:
  assumes ok: "search_ok es V N ix lo stack ((node, n) # rest) comps" and low: "lo node < ix node"
    and x: "x \<in> set stack" "ix node \<le> ix x" and "reach es x node"
  shows "\<exists>w \<in> set (map fst rest). ix w \<le> ix x \<and> reach es x w"
proof -
  note d = search_okD [OF ok]
  have "node \<in> set stack" using d(5) by simp
  from d(8) [OF this] obtain u where u: "u \<in> set stack" "ix u = lo node" "reach es node u" by auto
  from d(9) [OF u(1)] obtain w where w: "w \<in> set (map fst ((node, n) # rest))" "ix w \<le> ix u" "reach es u w" by auto
  then have "w \<in> set (map fst rest)" using low u(2) by auto
  moreover have "reach es x w" using assms(5) u(3) w(3) by (blast intro: reach_trans)
  moreover have "ix w \<le> ix x" using w(2) u(2) low x(2) by simp
  ultimately show ?thesis by blast
qed

lemma search_ok_leave:
  assumes ok: "search_ok es V N ix lo stack ((node, n) # rest) comps" and n: "\<not> n < length (es node)"
    and low: "lo node < ix node" and par: "\<And>w. w \<in> set (map fst rest) \<Longrightarrow> (\<forall>w' \<in> set (map fst rest). ix w' \<le> ix w) \<Longrightarrow> lo w \<le> lo node"
  shows "search_ok es V N ix lo stack rest comps"
proof -
  note d = search_okD [OF ok]
  let ?work = "(node, n) # rest" and ?W = "set (map fst rest)"
  have node: "node \<in> set stack" using d(5) by simp
  have fresh: "node \<notin> ?W" using top_is_highest [OF ok, of node] by auto
  have ex: "explored es rest x = explored es ?work x" for x
  proof (cases "x = node")
    case True
    then have "map_of rest x = None" using fresh by (simp add: map_of_eq_None_iff)
    then show ?thesis using True n by (simp add: explored_def)
  qed (simp add: explored_def)
  show ?thesis unfolding search_ok_def ex
  proof (intro conjI ballI impI)
    show "\<exists>w \<in> ?W. ix w \<le> ix x \<and> reach es x w" if x: "x \<in> set stack" for x
    proof -
      from d(9) [OF x] obtain w where w: "w \<in> set (map fst ?work)" "ix w \<le> ix x" "reach es x w" by auto
      show ?thesis
      proof (cases "w = node")
        case True
        then show ?thesis using low_reaches_lower_frame [OF ok low x] w by simp
      qed (use w in auto)
    qed
    show "lo w \<le> ix y" if w: "w \<in> ?W" and x: "x \<in> set stack" and seg: "in_segment ix ?W w x"
      and y: "y \<in> explored es ?work x \<inter> set stack" for w x y
    proof (cases "ix node \<le> ix x")
      case False
      then have "in_segment ix (set (map fst ?work)) w x" using seg by (auto simp: in_segment_def)
      then show ?thesis using d(12) [of w x y] w x y by simp
    next
      case True
      have "in_segment ix (set (map fst ?work)) node x"
        using True top_is_highest [OF ok] by (auto simp: in_segment_def intro: less_imp_le)
      then have "lo node \<le> ix y" using d(12) [of node x y] x y by simp
      moreover have "\<forall>w' \<in> ?W. ix w' \<le> ix w"
        using seg True top_is_highest [OF ok] by (fastforce simp: in_segment_def)
      then have "lo w \<le> lo node" using par w by blast
      ultimately show ?thesis by simp
    qed
  qed (use d in auto)
qed

text \<open>The frame of a root: what lies above it on the stack is its component.\<close>

lemma segment_edges:
  assumes ok: "search_ok es V N ix lo stack ((node, n) # rest) comps" and n: "\<not> n < length (es node)"
    and low: "lo node = ix node" and x: "x \<in> set stack" "ix node \<le> ix x" and y: "y \<in> set (es x)"
  shows "(y \<in> set stack \<and> ix node \<le> ix y) \<or> y \<in> set (concat comps)"
proof -
  note d = search_okD [OF ok]
  have "x \<notin> set (map fst rest)" using top_is_highest [OF ok, of x] x(2) by auto
  then have "map_of rest x = None" by (simp add: map_of_eq_None_iff)
  then have ex: "explored es ((node, n) # rest) x = set (es x)" using n by (auto simp: explored_def)
  have xV: "x \<in> V" using d(1) x(1) by auto
  have "y \<in> V" using d(11) [OF xV] y ex by auto
  then have "y \<in> set stack \<or> y \<in> set (concat comps)" using d(1) by auto
  moreover have "in_segment ix (set (map fst ((node, n) # rest))) node x"
    using x(2) top_is_highest [OF ok] by (auto simp: in_segment_def intro: less_imp_le)
  then have "lo node \<le> ix y" if "y \<in> set stack" using d(12) [of node x y] x(1) y ex that by simp
  ultimately show ?thesis using low by auto
qed

lemma segment_connected:
  assumes ok: "search_ok es V N ix lo stack ((node, n) # rest) comps"
    and x: "x \<in> set stack" "ix node \<le> ix x" and y: "y \<in> set stack" "ix node \<le> ix y"
  shows "reach es x y"
proof -
  note d = search_okD [OF ok]
  have up: "reach es node z" if "z \<in> set stack" "ix node \<le> ix z" for z
    using d(10) [of node z] that by simp
  from d(9) [OF x(1)] obtain w where w: "w \<in> set (map fst ((node, n) # rest))" "reach es x w" by auto
  have "ix w \<le> ix node" using w(1) top_is_highest [OF ok, of w] by (cases "w = node") (simp_all add: less_imp_le)
  then have "reach es w node" using d(10) [OF w(1), of node] d(5) by simp
  then show ?thesis using w(2) up [OF y] by (blast intro: reach_trans)
qed

lemma finished_ok_snoc:
  assumes "finished_ok es comps" and "distinct c" "c \<noteq> []" "set c \<inter> set (concat comps) = {}"
    and "\<And>x y. x \<in> set c \<Longrightarrow> y \<in> set c \<Longrightarrow> reach es x y"
    and "\<And>x. x \<in> set c \<Longrightarrow> set (es x) \<subseteq> set c \<union> set (concat comps)"
  shows "finished_ok es (comps @ [c])"
  unfolding finished_ok_def
proof (intro conjI allI impI)
  show "distinct (concat (comps @ [c]))" using assms(1,2,4) by (auto simp: finished_ok_def)
  show "\<forall>c' \<in> set (comps @ [c]). c' \<noteq> [] \<and> (\<forall>x \<in> set c'. \<forall>y \<in> set c'. reach es x y)"
    using assms(1,3,5) by (auto simp: finished_ok_def)
  show "\<forall>x \<in> set d. set (es x) \<subseteq> set d \<union> set (concat us)" if h: "comps @ [c] = us @ d # vs" for us d vs
  proof (cases vs rule: rev_cases)
    case Nil
    then show ?thesis using h assms(6) by auto
  next
    case (snoc vs' e)
    then have "comps = us @ d # vs'" using h by (metis append_Cons append_assoc butlast_snoc)
    then show ?thesis using assms(1) by (auto simp: finished_ok_def)
  qed
qed

lemma search_ok_pop:
  assumes ok: "search_ok es V N ix lo stack ((node, n) # rest) comps" and n: "\<not> n < length (es node)"
    and low: "lo node = ix node" and stack: "stack = pre @ node # post" and c: "c = pre @ [node]"
  shows "search_ok es V N ix lo post rest (comps @ [c])"
proof -
  note d = search_okD [OF ok]
  let ?work = "(node, n) # rest" and ?W = "set (map fst rest)"
  have mem: "x \<in> set c \<longleftrightarrow> x \<in> set stack \<and> ix node \<le> ix x" for x
    using d(3) by (auto simp: stack c sorted_wrt_append)
  have mem': "x \<in> set post \<longleftrightarrow> x \<in> set stack \<and> ix x < ix node" for x
    using d(3) by (auto simp: stack sorted_wrt_append)
  have fresh: "node \<notin> ?W" using top_is_highest [OF ok, of node] by auto
  have ex: "explored es rest x = explored es ?work x" for x
  proof (cases "x = node")
    case True
    then have "map_of rest x = None" using fresh by (simp add: map_of_eq_None_iff)
    then show ?thesis using True n by (simp add: explored_def)
  qed (simp add: explored_def)
  have dist: "distinct stack" by (rule decreasing_distinct [OF d(3)])
  show ?thesis unfolding search_ok_def ex
  proof (intro conjI ballI impI)
    show "V = set post \<union> set (concat (comps @ [c]))" using d(1) by (auto simp: stack c)
    show "set post \<inter> set (concat (comps @ [c])) = {}" using d(2) dist by (auto simp: stack c)
    show "sorted_wrt (\<lambda>a b. ix b < ix a) post" using d(3) by (simp add: stack sorted_wrt_append)
    show "set (map fst rest) \<subseteq> set post" using d(5) top_is_highest [OF ok] mem' by auto
    show "\<exists>u \<in> set post. ix u = lo v \<and> reach es v u" if v: "v \<in> set post" for v
    proof -
      have "v \<in> set stack" "lo v < ix node" using v mem' d(7) [of v] by auto
      then show ?thesis using d(8) [of v] mem' by metis
    qed
    show "\<exists>w \<in> ?W. ix w \<le> ix x \<and> reach es x w" if x: "x \<in> set post" for x
    proof -
      have "x \<in> set stack" "ix x < ix node" using x mem' by auto
      then show ?thesis using d(9) [of x] by auto
    qed
    show "lo w \<le> ix y" if w: "w \<in> ?W" and x: "x \<in> set post" and seg: "in_segment ix ?W w x"
      and y: "y \<in> explored es ?work x \<inter> set post" for w x y
    proof -
      have xs: "x \<in> set stack" "ix x < ix node" using x mem' by auto
      then have "in_segment ix (set (map fst ?work)) w x" using seg by (auto simp: in_segment_def)
      then show ?thesis using d(12) [of w x y] w xs(1) y mem' by simp
    qed
    show "finished_ok es (comps @ [c])"
    proof (rule finished_ok_snoc [OF d(13)])
      show "distinct c" "c \<noteq> []" "set c \<inter> set (concat comps) = {}"
        using dist d(2) by (auto simp: stack c)
      show "reach es x y" if "x \<in> set c" "y \<in> set c" for x y
        using segment_connected [OF ok, of x y] that mem by simp
      show "set (es x) \<subseteq> set c \<union> set (concat comps)" if "x \<in> set c" for x
        using segment_edges [OF ok n low, of x] that mem by auto
    qed
  qed (use d stack in auto)
qed

section \<open>The object of the search\<close>

abbreviation index_of :: "tarjan \<Rightarrow> string \<Rightarrow> nat" where
  "index_of t \<equiv> \<lambda>v. the (map_of (t_index t) v)"

abbreviation low_of :: "tarjan \<Rightarrow> string \<Rightarrow> nat" where
  "low_of t \<equiv> \<lambda>v. the (map_of (t_low t) v)"

definition indexed :: "tarjan \<Rightarrow> string set" where
  "indexed t = fst ` set (t_index t)"

definition tarjan_ok :: "graph \<Rightarrow> string set \<Rightarrow> tarjan \<Rightarrow> bool" where
  "tarjan_ok g R t \<longleftrightarrow>
     search_ok (edgesOf g) (indexed t) (length (t_index t)) (index_of t) (low_of t) (t_stack t) (t_work t)
       (t_components t) \<and> fst ` set (t_low t) = indexed t \<and> set (t_onStack t) = set (t_stack t) \<and>
     (\<forall>v \<in> indexed t. \<exists>r \<in> R. reach (edgesOf g) r v)"

lemma tarjan_okD:
  assumes "tarjan_ok g R t"
  shows "search_ok (edgesOf g) (indexed t) (length (t_index t)) (index_of t) (low_of t) (t_stack t) (t_work t)
      (t_components t)" "fst ` set (t_low t) = indexed t" "set (t_onStack t) = set (t_stack t)"
    "v \<in> indexed t \<Longrightarrow> \<exists>r \<in> R. reach (edgesOf g) r v"
  using assms by (auto simp: tarjan_ok_def)

lemma length_update_new: "k \<notin> fst ` set al \<Longrightarrow> length (AList.update k v al) = Suc (length al)"
  by (induction al) auto

lemma the_update: "(\<lambda>v. the (map_of (AList.update k x al) v)) = (\<lambda>v. the (map_of al v))(k := x)"
  by (auto simp: update_conv)

lemma not_indexed: "map_of (t_index t) v = None \<longleftrightarrow> v \<notin> indexed t"
  by (simp add: indexed_def map_of_eq_None_iff)

lemma new_ok: "tarjan_ok g R new_CutComponents"
  using search_ok_start [of "edgesOf g"] by (simp add: tarjan_ok_def new_CutComponents_def indexed_def)

lemma visit_indexed [simp]: "indexed (visit v t) = insert v (indexed t)"
  by (simp add: visit_def indexed_def dom_update Let_def)

lemma visit_ok:
  assumes ok: "tarjan_ok g R t" and new: "v \<notin> indexed t" and r: "\<exists>r \<in> R. reach (edgesOf g) r v"
    and work: "t_work t = [] \<or> (\<exists>node n rest. t_work t = (node, n) # rest \<and> n < length (edgesOf g node) \<and>
      v = edgesOf g node ! n \<and> work' = (node, Suc n) # rest)" "t_work t = [] \<Longrightarrow> work' = []"
  shows "tarjan_ok g R (visit v (t\<lparr>t_work := work'\<rparr>))"
proof -
  have n: "v \<notin> fst ` set (t_index t)" using new by (simp add: indexed_def)
  have "search_ok (edgesOf g) (insert v (indexed t)) (Suc (length (t_index t))) ((index_of t)(v := length (t_index t)))
      ((low_of t)(v := length (t_index t))) (v # t_stack t) ((v, 0) # work') (t_components t)"
    by (rule search_ok_visit [OF tarjan_okD(1) [OF ok] new work])
  then show ?thesis
    using tarjan_okD(2-3) [OF ok] tarjan_okD(4) [OF ok] r n
    by (simp add: tarjan_ok_def visit_def Let_def the_update length_update_new indexed_def dom_update)
qed

lemma lower_ok:
  assumes "search_ok (edgesOf g) (indexed t) (length (t_index t)) (index_of t) ((low_of t)(p := min (low_of t p) x))
      (t_stack t) (t_work t) (t_components t)"
    and "p \<in> indexed t" "tarjan_ok g R t"
  shows "tarjan_ok g R (lower p x t)"
  using assms by (auto simp: tarjan_ok_def lower_def the_update indexed_def dom_update)

lemma follow_ok:
  assumes ok: "tarjan_ok g R t" and work: "t_work t = (node, n) # rest" and f: "follow g node n t = Some t'"
  shows "tarjan_ok g R t'"
proof -
  note d = search_okD [OF tarjan_okD(1) [OF ok]]
  let ?es = "edgesOf g" and ?t1 = "t\<lparr>t_work := (node, n + 1) # rest\<rparr>"
  let ?to = "?es node ! n"
  have n: "n < length (?es node)" using f by (auto simp: follow_def Let_def split: if_splits)
  have node: "node \<in> set (t_stack t)" using d(5) work by simp
  have edge: "reach ?es node ?to" using n by (intro reach_edge) simp
  have ok1: "search_ok ?es (indexed t) (length (t_index t)) (index_of t) (low_of t) (t_stack t) ((node, n) # rest)
      (t_components t)" using tarjan_okD(1) [OF ok] by (simp add: work)
  have inx: "indexed ?t1 = indexed t" by (simp add: indexed_def)
  consider "?to \<notin> indexed t" | "?to \<in> indexed t" "?to \<notin> set (t_stack t)" | "?to \<in> set (t_stack t)" "?to \<in> indexed t"
    using d(1) by auto
  then show ?thesis
  proof cases
    case 1
    have "node \<in> indexed t" using node d(1) by auto
    then obtain r where "r \<in> R" "reach ?es r ?to" using tarjan_okD(4) [OF ok] edge by (blast intro: reach_trans)
    then have "tarjan_ok g R (visit ?to ?t1)" using 1 n work by (intro visit_ok [OF ok]) auto
    then show ?thesis using f n 1 by (simp add: follow_def Let_def work not_indexed)
  next
    case 2
    have "search_ok ?es (indexed t) (length (t_index t)) (index_of t) (low_of t) (t_stack t) ((node, Suc n) # rest)
        (t_components t)" by (rule search_ok_step [OF ok1 n refl 2(1)]) (use 2 in simp)
    then have "tarjan_ok g R ?t1" using ok inx by (simp add: tarjan_ok_def)
    then show ?thesis using f n 2 tarjan_okD(3) [OF ok] by (simp add: follow_def Let_def work not_indexed)
  next
    case 3
    let ?low = "(low_of t)(node := min (low_of t node) (index_of t ?to))"
    have l: "search_ok ?es (indexed t) (length (t_index t)) (index_of t) ?low (t_stack t) ((node, n) # rest)
        (t_components t)" by (rule search_ok_lower [OF ok1 node 3(1) refl edge])
    have "search_ok ?es (indexed t) (length (t_index t)) (index_of t) ?low (t_stack t) ((node, Suc n) # rest)
        (t_components t)" by (rule search_ok_step [OF l n refl 3(2)]) simp
    then have "tarjan_ok g R (lower node (index_of t ?to) ?t1)"
      using tarjan_okD(2-4) [OF ok] node d(1)
      by (auto simp: tarjan_ok_def lower_def the_update indexed_def dom_update)
    then show ?thesis using f n 3 tarjan_okD(3) [OF ok] by (simp add: follow_def Let_def work not_indexed)
  qed
qed

lemma pop_component_split:
  "node \<notin> set pre \<Longrightarrow> pop_component node (pre @ node # post) on acc =
     (post, fold set_delete (pre @ [node]) on, acc @ pre @ [node])"
  by (induction pre arbitrary: on acc) (auto simp: Let_def)

lemma set_fold_delete: "set (fold set_delete xs on) = set on - set xs"
  by (induction xs arbitrary: on) auto

lemma map_of_indexed: "fst ` set m = indexed t \<Longrightarrow> v \<in> indexed t \<Longrightarrow> map_of m v = Some (the (map_of m v))"
  by (metis map_of_eq_None_iff option.collapse)

text \<open>The frame is left after the low link of its parent was lowered to its own.\<close>

lemma finish_lowered:
  assumes ok: "tarjan_ok g R t" and work: "t_work t = (node, n) # rest" and n: "\<not> n < length (edgesOf g node)"
    and par: "\<And>p m rest'. rest = (p, m) # rest' \<Longrightarrow> low_of t p \<le> low_of t node"
  shows "tarjan_ok g R (if map_of (t_low t) node \<noteq> map_of (t_index t) node then t\<lparr>t_work := rest\<rparr>
         else (case pop_component node (t_stack t) (t_onStack t) [] of
                 (stack, onStack, component) \<Rightarrow>
                   t\<lparr>t_work := rest, t_stack := stack, t_onStack := onStack,
                     t_components := t_components t @ [component]\<rparr>))" (is "tarjan_ok g R ?t'")
proof -
  let ?es = "edgesOf g"
  have ok1: "search_ok ?es (indexed t) (length (t_index t)) (index_of t) (low_of t) (t_stack t) ((node, n) # rest)
      (t_components t)" using tarjan_okD(1) [OF ok] by (simp add: work)
  note d = search_okD [OF ok1]
  have node: "node \<in> set (t_stack t)" using d(5) by simp
  then have "node \<in> indexed t" using d(1) by auto
  then have eq: "map_of (t_low t) node = map_of (t_index t) node \<longleftrightarrow> low_of t node = index_of t node"
    using map_of_indexed [OF tarjan_okD(2) [OF ok], of node] map_of_indexed [of "t_index t" t node]
    by (metis indexed_def option.sel)
  show ?thesis
  proof (cases "low_of t node = index_of t node")
    case False
    have "search_ok ?es (indexed t) (length (t_index t)) (index_of t) (low_of t) (t_stack t) rest (t_components t)"
    proof (rule search_ok_leave [OF ok1 n])
      show "low_of t node < index_of t node" using d(7) [OF node] False by simp
      show "low_of t w \<le> low_of t node" if w: "w \<in> set (map fst rest)"
        and top: "\<forall>w' \<in> set (map fst rest). index_of t w' \<le> index_of t w" for w
      proof -
        from w obtain p m rest' where r: "rest = (p, m) # rest'" by (cases rest) auto
        have "sorted_wrt (\<lambda>a b. index_of t a > index_of t b) (p # map fst rest')" using d(6) by (simp add: r)
        then have "w = p" using w top by (fastforce simp: r)
        then show ?thesis using par [OF r] by simp
      qed
    qed
    then have "tarjan_ok g R (t\<lparr>t_work := rest\<rparr>)"
      using tarjan_okD(2-4) [OF ok] by (simp add: tarjan_ok_def indexed_def)
    then show ?thesis using False eq by simp
  next
    case True
    from node obtain pre post where st: "t_stack t = pre @ node # post" "node \<notin> set pre"
      by (meson split_list_first)
    have dist: "distinct (t_stack t)" by (rule decreasing_distinct [OF d(3)])
    have "search_ok ?es (indexed t) (length (t_index t)) (index_of t) (low_of t) post rest (t_components t @ [pre @ [node]])"
      by (rule search_ok_pop [OF ok1 n True st(1) refl])
    then have "tarjan_ok g R (t\<lparr>t_work := rest, t_stack := post, t_onStack := fold set_delete (pre @ [node]) (t_onStack t),
        t_components := t_components t @ [pre @ [node]]\<rparr>)"
      using tarjan_okD(2-4) [OF ok] dist
      by (auto simp: tarjan_ok_def indexed_def set_fold_delete st simp del: fold_append)
    then show ?thesis using True eq st by (simp add: pop_component_split)
  qed
qed

lemma finish_ok:
  assumes ok: "tarjan_ok g R t" and work: "t_work t = (node, n) # rest" and n: "\<not> n < length (edgesOf g node)"
  shows "tarjan_ok g R (finish node t)"
proof (cases rest)
  case Nil
  then show ?thesis using finish_lowered [OF assms] by (simp add: finish_def Let_def work split: if_splits)
next
  case (Cons f rest')
  obtain p m where f: "f = (p, m)" by (cases f)
  note d = search_okD [OF tarjan_okD(1) [OF ok]]
  have p: "p \<in> set (t_stack t)" "node \<in> set (t_stack t)" "p \<in> indexed t" using d(1,5) by (auto simp: work Cons f)
  have "index_of t p < index_of t node" using d(6) by (simp add: work Cons f)
  then have ne: "p \<noteq> node" "index_of t p \<le> index_of t node" by auto
  from d(8) [OF p(2)] obtain u where u: "u \<in> set (t_stack t)" "index_of t u = low_of t node" "reach (edgesOf g) node u" by blast
  have "reach (edgesOf g) p u" using d(10) [of p node] u(3) p ne(2) by (auto simp: work Cons f intro: reach_trans)
  then have ok2: "tarjan_ok g R (lower p (low_of t node) t)"
    using search_ok_lower [OF tarjan_okD(1) [OF ok] p(1) u(1,2)] p(3) ok by (intro lower_ok) auto
  have low: "map_of (t_low (lower p x t)) node = map_of (t_low t) node" for x
    using ne by (simp add: lower_def update_conv)
  have comm: "t\<lparr>t_work := r, t_low := l\<rparr> = t\<lparr>t_low := l, t_work := r\<rparr>" for r l by simp
  have "low_of (lower p (low_of t node) t) p \<le> low_of (lower p (low_of t node) t) node"
    using ne by (simp add: lower_def update_conv)
  then show ?thesis
    using finish_lowered [OF ok2, of node n "f # rest'"] n
    by (simp add: finish_def Let_def work Cons f lower_def comm split: if_splits)
qed

section \<open>The whole search\<close>

lemma walk_step_ok: "tarjan_ok g R t \<Longrightarrow> tarjan_ok g R (walk_step g t)"
  by (auto simp: walk_step_def follow_def Let_def intro: follow_ok finish_ok split: list.splits option.splits if_splits)

lemma walk_ok: "tarjan_ok g R t \<Longrightarrow> tarjan_ok g R (walk g t) \<and> t_work (walk g t) = []"
proof (induction g t rule: walk.induct)
  case (1 g t)
  show ?case
  proof (cases "t_work t = []")
    case True
    then show ?thesis using 1(2) by (simp add: walk.simps [of g t])
  next
    case False
    then show ?thesis using 1(1) [OF False walk_step_ok [OF 1(2)]] by (simp add: walk.simps [of g t])
  qed
qed

lemma walk_step_grows: "indexed t \<subseteq> indexed (walk_step g t)"
  by (auto simp: walk_step_def follow_def Let_def indexed_def visit_def dom_update split: list.splits option.splits if_splits)

lemma walk_grows: "indexed t \<subseteq> indexed (walk g t)"
proof (induction g t rule: walk.induct)
  case (1 g t)
  then show ?case using walk_step_grows [of t g] by (cases "t_work t = []") (auto simp: walk.simps [of g t])
qed

definition searched :: "graph \<Rightarrow> string set \<Rightarrow> tarjan \<Rightarrow> bool" where
  "searched g R t \<longleftrightarrow> tarjan_ok g R t \<and> t_work t = []"

lemma walkFrom_searched:
  assumes s: "searched g R t" and r: "r \<in> R" "r \<notin> indexed t"
  shows "searched g R (walkFrom g r t)" and "insert r (indexed t) \<subseteq> indexed (walkFrom g r t)"
proof -
  have "t\<lparr>t_work := []\<rparr> = t" using s by (simp add: searched_def)
  moreover have "tarjan_ok g R (visit r (t\<lparr>t_work := []\<rparr>))"
    using s r by (intro visit_ok) (auto simp: searched_def intro: bexI [of _ r])
  ultimately have "tarjan_ok g R (visit r t)" by simp
  then show "searched g R (walkFrom g r t)" using walk_ok by (simp add: walkFrom_def searched_def)
  show "insert r (indexed t) \<subseteq> indexed (walkFrom g r t)"
    using walk_grows [of "visit r t" g] by (simp add: walkFrom_def)
qed

lemma search_all:
  assumes "set nodes \<subseteq> R" and "searched g R t"
  shows "searched g R (fold (\<lambda>root t. if map_of (t_index t) root = None then walkFrom g root t else t) nodes t) \<and>
    set nodes \<union> indexed t \<subseteq> indexed (fold (\<lambda>root t. if map_of (t_index t) root = None then walkFrom g root t else t) nodes t)"
  using assms
proof (induction nodes arbitrary: t)
  case (Cons r nodes)
  let ?t = "if map_of (t_index t) r = None then walkFrom g r t else t"
  have "searched g R ?t \<and> insert r (indexed t) \<subseteq> indexed ?t"
    using walkFrom_searched [OF Cons.prems(2), of r] Cons.prems not_indexed [of t r] by auto
  then show ?case using Cons.IH [of ?t] Cons.prems(1) by auto
qed simp

text \<open>What a finished search says of its components.\<close>

lemma finished_reach:
  assumes "finished_ok es (us @ c # vs)" and "reach es x y" and "x \<in> set c \<union> set (concat us)"
  shows "y \<in> set c \<union> set (concat us)"
  using assms(2,3) unfolding reach_def
proof (induction rule: rtranclp_induct)
  case (step y z)
  then have y: "y \<in> set c \<union> set (concat us)" by simp
  have ok: "set (es x) \<subseteq> set d \<union> set (concat us')" if "us @ c # vs = us' @ d # vs'" "x \<in> set d" for us' d vs' x
    using assms(1) that unfolding finished_ok_def by blast
  show ?case
  proof (cases "y \<in> set c")
    case True
    then show ?thesis using ok [OF refl True] step.hyps(2) by auto
  next
    case False
    then obtain d where "d \<in> set us" "y \<in> set d" using y by auto
    then obtain us' vs' where "us = us' @ d # vs'" by (meson split_list)
    then have "set (es y) \<subseteq> set d \<union> set (concat us')" "set d \<union> set (concat us') \<subseteq> set (concat us)"
      using ok [of us' d "vs' @ c # vs" y] \<open>y \<in> set d\<close> by auto
    then show ?thesis using step.hyps(2) by blast
  qed
qed simp

lemma finished_component:
  assumes ok: "finished_ok es comps" and c: "c \<in> set comps" and x: "x \<in> set c"
  shows "set c = {y. reach es x y \<and> reach es y x}"
proof (intro set_eqI iffI)
  fix y assume "y \<in> set c"
  then show "y \<in> {y. reach es x y \<and> reach es y x}" using ok c x by (auto simp: finished_ok_def)
next
  fix y assume y: "y \<in> {y. reach es x y \<and> reach es y x}"
  obtain us vs where s: "comps = us @ c # vs" using c by (meson split_list)
  show "y \<in> set c"
  proof (rule ccontr)
    assume "y \<notin> set c"
    moreover have "y \<in> set c \<union> set (concat us)" using finished_reach [of es us c vs x y] ok s y x by auto
    ultimately obtain d where d: "d \<in> set us" "y \<in> set d" by auto
    then obtain us' vs' where s': "us = us' @ d # vs'" by (meson split_list)
    then have "x \<in> set d \<union> set (concat us')"
      using finished_reach [of es us' d "vs' @ c # vs" y x] ok s y d by auto
    then show False using ok x by (auto simp: finished_ok_def s s')
  qed
qed

lemma componentsOf_searched:
  assumes "t = fold (\<lambda>root t. if map_of (t_index t) root = None then walkFrom g root t else t) nodes new_CutComponents"
  shows "finished_ok (edgesOf g) (t_components t)"
    and "set (concat (t_components t)) = {v. \<exists>r \<in> set nodes. reach (edgesOf g) r v}"
proof -
  have "searched g (set nodes) new_CutComponents"
    using new_ok by (simp add: searched_def new_CutComponents_def)
  then have s: "searched g (set nodes) t" and sub: "set nodes \<subseteq> indexed t"
    using search_all [of nodes "set nodes" g new_CutComponents] assms by auto
  have ok: "search_ok (edgesOf g) (indexed t) (length (t_index t)) (index_of t) (low_of t) (t_stack t) [] (t_components t)"
    using s tarjan_okD(1) [of g "set nodes" t] by (simp add: searched_def)
  note d = search_okD [OF ok]
  show "finished_ok (edgesOf g) (t_components t)" by (rule d(13))
  have V: "indexed t = set (concat (t_components t))" using d(1) search_ok_done [OF ok] by simp
  have closed: "set (edgesOf g x) \<subseteq> indexed t" if "x \<in> indexed t" for x
    using d(11) [OF that] by (simp add: explored_def)
  have "v \<in> indexed t" if "reach (edgesOf g) r v" "r \<in> indexed t" for r v
    using that unfolding reach_def by (induction rule: rtranclp_induct) (use closed in auto)
  then show "set (concat (t_components t)) = {v. \<exists>r \<in> set nodes. reach (edgesOf g) r v}"
    using s sub tarjan_okD(4) [of g "set nodes" t] unfolding V [symmetric] searched_def by blast
qed

lemma components_sources_first:
  assumes "componentsOf nodes g = us @ c # vs" and "x \<in> set c" and "reach (edgesOf g) x y"
  shows "y \<in> set c \<union> set (concat vs)"
proof -
  let ?t = "fold (\<lambda>root t. if map_of (t_index t) root = None then walkFrom g root t else t) nodes new_CutComponents"
  have "rev (t_components ?t) = us @ c # vs" using assms(1) by (simp add: componentsOf_def Let_def)
  then have "t_components ?t = rev (us @ c # vs)" by (rule iffD1 [OF rev_swap])
  then have "finished_ok (edgesOf g) (rev vs @ c # rev us)" using componentsOf_searched(1) [OF refl, of g nodes] by simp
  from finished_reach [OF this assms(3)] assms(2) show ?thesis by simp
qed

lemma components_facts:
  shows "set (concat (componentsOf nodes g)) = {v. \<exists>r \<in> set nodes. reach (edgesOf g) r v}"
    and "distinct (concat (componentsOf nodes g))"
    and "c \<in> set (componentsOf nodes g) \<Longrightarrow> x \<in> set c \<Longrightarrow> set c = {y. reach (edgesOf g) x y \<and> reach (edgesOf g) y x}"
proof -
  let ?t = "fold (\<lambda>root t. if map_of (t_index t) root = None then walkFrom g root t else t) nodes new_CutComponents"
  note f = componentsOf_searched [OF refl, where g = g and nodes = nodes]
  have c: "componentsOf nodes g = rev (t_components ?t)" by (simp add: componentsOf_def Let_def)
  show "set (concat (componentsOf nodes g)) = {v. \<exists>r \<in> set nodes. reach (edgesOf g) r v}"
    unfolding c using f(2) by simp
  have "distinct (concat (t_components ?t))" using f(1) unfolding finished_ok_def by blast
  then show "distinct (concat (componentsOf nodes g))" unfolding c
    by (simp add: distinct_concat_iff removeAll_filter_not_eq rev_filter [symmetric])
  show "set c = {y. reach (edgesOf g) x y \<and> reach (edgesOf g) y x}" if "c \<in> set (componentsOf nodes g)" "x \<in> set c"
    using finished_component [OF f(1)] that unfolding c by simp
qed

end
