(* ===== verification/FoldConcurrency.thy ===== *)
theory FoldConcurrency
  imports FoldSafety
begin

text \<open>
  The flag \<open>concurrent\<close> of \<open>advance\<close> in
  \<open>src/contexts/communities/domain/operations/CommunityStateFold.ts\<close>: the heads are the
  operations so far that no other operation names as a parent, and an operation that is not
  flagged was built on everything applied before it, so it is never rebased.
\<close>

definition heads_after :: "operation list \<Rightarrow> string list" where
  "heads_after us = fold (\<lambda>op heads. fst (advance heads op)) us []"

lemma heads_after_snoc: "heads_after (us @ [op]) = fst (advance (heads_after us) op)"
  by (simp add: heads_after_def)

lemma set_deletes [simp]: "set (fold set_delete ps hs) = set hs - set ps"
  by (induction ps arbitrary: hs) auto

lemma distinct_deletes: "distinct hs \<Longrightarrow> distinct (fold set_delete ps hs)"
  by (induction ps arbitrary: hs) auto

lemma heads_after_spec:
  "causal us \<Longrightarrow> distinct (heads_after us) \<and>
     set (heads_after us) = {h \<in> op_hash ` set us. \<forall>op \<in> set us. h \<notin> set (op_parents op)}"
proof (induction us rule: rev_induct)
  case Nil
  then show ?case by (simp add: heads_after_def)
next
  case (snoc op us)
  have c: "causal us" using snoc.prems by (rule causal_prefix)
  have ih: "distinct (heads_after us)"
    "set (heads_after us) = {h \<in> op_hash ` set us. \<forall>op \<in> set us. h \<notin> set (op_parents op)}"
    using snoc.IH [OF c] by auto
  have new: "op_hash op \<notin> op_hash ` set us" using snoc.prems by (auto simp: causal_def)
  have ps: "set (op_parents op) \<subseteq> op_hash ` set us" using snoc.prems by (auto simp: causal_def)
  have unref: "op_hash op \<notin> set (op_parents x)" if "x \<in> set (us @ [op])" for x
  proof (cases "x \<in> set us")
    case True
    then show ?thesis using causal_closed [OF c] new by blast
  next
    case False
    then show ?thesis using that ps new by auto
  qed
  have e: "heads_after (us @ [op]) = set_add (op_hash op) (fold set_delete (op_parents op) (heads_after us))"
    by (simp add: heads_after_snoc advance_def Let_def)
  show ?case
  proof
    show "distinct (heads_after (us @ [op]))" unfolding e using distinct_deletes [OF ih(1)] by simp
    show "set (heads_after (us @ [op])) =
        {h \<in> op_hash ` set (us @ [op]). \<forall>x \<in> set (us @ [op]). h \<notin> set (op_parents x)}"
      unfolding e using unref by (auto simp: ih(2))
  qed
qed

text \<open>At the end the heads are the frontier.\<close>

lemma heads_are_frontier: "causal xs \<Longrightarrow> set (heads_after xs) = set (frontierOf xs)"
  using heads_after_spec [of xs] frontierOf_spec [of xs] by simp

text \<open>Everything is at or before some head.\<close>

lemma past_mono: "set ps \<subseteq> past ops qs \<Longrightarrow> past ops ps \<subseteq> past ops qs"
  by (rule past_subset) (auto dest: past_closed)

lemma past_prefix:
  assumes c: "causal (us @ vs)" and "set ps \<subseteq> op_hash ` set us"
  shows "past (us @ vs) ps = past us ps"
proof -
  have eq: "parents_in (us @ vs) h = parents_in us h" if "h \<in> op_hash ` set us" for h
    using that causal_parents_in [OF c] causal_parents_in [OF causal_prefix [OF c]] by auto
  have sub: "past us ps \<subseteq> op_hash ` set us"
    by (rule past_subset [OF assms(2)]) (rule parents_in_causal [OF causal_prefix [OF c]])
  have sub': "past (us @ vs) ps \<subseteq> op_hash ` set us"
    by (rule past_subset [OF assms(2)]) (use parents_in_causal [OF causal_prefix [OF c]] in \<open>simp only: eq\<close>)
  show ?thesis
  proof
    show "past (us @ vs) ps \<subseteq> past us ps"
    proof (rule past_subset [OF past_parents])
      fix h assume h: "h \<in> past us ps"
      then have "h \<in> op_hash ` set us" using sub by (rule subsetD [rotated])
      then show "parents_in (us @ vs) h \<subseteq> past us ps" using past_closed [OF h] by (simp only: eq)
    qed
    show "past us ps \<subseteq> past (us @ vs) ps"
    proof (rule past_subset [OF past_parents])
      fix h assume h: "h \<in> past (us @ vs) ps"
      then have "h \<in> op_hash ` set us" using sub' by (rule subsetD [rotated])
      then show "parents_in us h \<subseteq> past (us @ vs) ps" using past_closed [OF h] by (simp only: eq [symmetric])
    qed
  qed
qed

lemma heads_cover: "causal us \<Longrightarrow> op_hash ` set us \<subseteq> past us (heads_after us)"
proof (induction us rule: rev_induct)
  case (snoc op us)
  have c: "causal us" using snoc.prems by (rule causal_prefix)
  have heads: "set (heads_after (us @ [op])) = insert (op_hash op) (set (heads_after us) - set (op_parents op))"
    by (simp add: heads_after_snoc advance_def Let_def)
  let ?P = "past (us @ [op]) (heads_after (us @ [op]))"
  have new: "op_hash op \<in> ?P" using past_parents heads by blast
  have "parents_in (us @ [op]) (op_hash op) = set (op_parents op)"
    using causal_parents_in [OF snoc.prems, of op] by simp
  then have "set (op_parents op) \<subseteq> ?P" using past_closed [OF new] by simp
  then have "set (heads_after us) \<subseteq> ?P" using past_parents [of "heads_after (us @ [op])" "us @ [op]"] heads by blast
  then have "past (us @ [op]) (heads_after us) \<subseteq> ?P" by (rule past_mono)
  moreover have "past (us @ [op]) (heads_after us) = past us (heads_after us)"
    by (rule past_prefix [OF snoc.prems]) (use heads_after_spec [OF c] in blast)
  ultimately show ?case using snoc.IH [OF c] new by auto
qed (simp add: heads_after_def)

lemma advance_not_concurrent:
  assumes c: "causal (us @ op # vs)" and d: "distinct (op_parents op)"
    and n: "\<not> snd (advance (heads_after us) op)"
  shows "past (us @ op # vs) (op_parents op) = op_hash ` set us"
proof
  have cu: "causal us" using c by (rule causal_prefix)
  have len: "length (op_parents op) = length (heads_after us)" and sub: "set (op_parents op) \<subseteq> set (heads_after us)"
    using n by (auto simp: advance_def Let_def list_ex_iff)
  have "distinct (heads_after us)" using heads_after_spec [OF cu] by blast
  then have "card (set (op_parents op)) = card (set (heads_after us))"
    using len d by (simp only: distinct_card)
  then have "set (op_parents op) = set (heads_after us)" using sub by (intro card_subset_eq) simp_all
  then have e: "past us (op_parents op) = past us (heads_after us)" by (simp add: past_def)
  have "set (op_parents op) \<subseteq> op_hash ` set us" using c by (auto simp: causal_def)
  then have "past (us @ op # vs) (op_parents op) = past us (op_parents op)"
    using past_prefix [of us "op # vs" "op_parents op"] c by simp
  then show "op_hash ` set us \<subseteq> past (us @ op # vs) (op_parents op)" using heads_cover [OF cu] e by simp
  show "past (us @ op # vs) (op_parents op) \<subseteq> op_hash ` set us" by (rule causal_past_before [OF c refl])
qed

text \<open>The loop of the fold keeps these heads.\<close>

lemma fold_loop_heads:
  "fold_loop L founder C byHash pastOf ops s = Inr s' \<Longrightarrow>
     f_heads s' = fold (\<lambda>op heads. fst (advance heads op)) ops (f_heads s)"
proof (induction ops arbitrary: s)
  case (Cons op ops)
  then obtain s1 where s1: "fold_step L founder C byHash pastOf op s = Inr s1"
    "fold_loop L founder C byHash pastOf ops s1 = Inr s'" by auto
  have "f_heads s1 = fst (advance (f_heads s) op)"
    using s1(1) by (cases rule: fold_step_cases) simp_all
  then show ?case using Cons.IH [OF s1(2)] by simp
qed simp

section \<open>What has an unknown past\<close>

lemma foldOf_ordered:
  assumes d: "distinct_parents ops" and r: "orderOf ops = Some xs"
  shows "foldOf L ops = foldOf L xs"
  unfolding foldOf_unfold [of L ops] foldOf_unfold [of L xs] r orderOf_idem [OF assms] ..

lemma foldOf_dangling:
  assumes d: "distinct_parents ops" "distinct_parents ops'"
    and r: "\<And>h. rooted ops h = rooted ops' h"
    and k: "\<And>h. rooted ops h \<Longrightarrow> map_of (knownOf ops) h = map_of (knownOf ops') h"
  shows "foldOf L ops = foldOf L ops'"
proof -
  have "orderOf ops = orderOf ops'" by (rule orderOf_cong_rooted [OF _ _ d]) (rule r, erule k)
  then show ?thesis unfolding foldOf_unfold [of L ops] foldOf_unfold [of L ops'] by (rule arg_cong)
qed

end
