(* ===== verification/CutsExtension.thy ===== *)
theory CutsExtension
  imports CutsSafety ComponentSearch FoldConcurrency
begin

text \<open>
  What one more operation does to the authority cuts of
  \<open>src/contexts/communities/domain/operations/CommunityAuthorityCuts.ts\<close> when it comes after all
  others: the cuts among the others are decided as before, the new operation is void by none of
  them, and when it is a cut it stands. The ledger relies on this when it judges an operation at
  its causal past instead of folding the history again.
\<close>

section \<open>An operation after all others\<close>

definition extends :: "operation list \<Rightarrow> operation \<Rightarrow> bool" where
  "extends xs op \<longleftrightarrow> causal (xs @ [op]) \<and> (\<forall>x \<in> set xs. precedes (xs @ [op]) (op_hash x) (op_hash op))"

lemma extendsD:
  assumes "extends xs op"
  shows "causal (xs @ [op])" "causal xs" "x \<in> set xs \<Longrightarrow> precedes (xs @ [op]) (op_hash x) (op_hash op)"
    "op_hash op \<notin> op_hash ` set xs"
  using assms causal_prefix [of xs "[op]"] by (auto simp: extends_def causal_def)

lemma precedes_prefix:
  assumes e: "extends xs op" and b: "b \<in> op_hash ` set xs"
  shows "precedes (xs @ [op]) a b \<longleftrightarrow> precedes xs a b"
proof -
  note c = extendsD(1,2) [OF e]
  from b obtain x where x: "x \<in> set xs" "op_hash x = b" by auto
  have p: "parents_in (xs @ [op]) b = set (op_parents x)" "parents_in xs b = set (op_parents x)"
    using causal_parents_in [OF c(1), of x] causal_parents_in [OF c(2), of x] x by auto
  have "set (op_parents x) \<subseteq> op_hash ` set xs" using parents_in_causal [OF c(2), of b] p by simp
  then have "past (xs @ [op]) (op_parents x) = past xs (op_parents x)" by (rule past_prefix [OF c(1)])
  then show ?thesis using past_precedes precedes_past p by metis
qed

lemma precedes_new: "extends xs op \<Longrightarrow> \<not> precedes (xs @ [op]) (op_hash op) b"
proof
  assume e: "extends xs op" and p: "precedes (xs @ [op]) (op_hash op) b"
  note c = extendsD(1) [OF e]
  have "b \<in> op_hash ` set (xs @ [op])" using precedes_keys [OF c p] by simp
  then show False
    using precedes_irrefl [OF c, of "op_hash op"] p precedes_trans [OF p] extendsD(3) [OF e] by auto
qed

lemma ancestry_extended:
  assumes e: "extends xs op"
  shows "b \<in> op_hash ` set xs \<Longrightarrow> isAncestor (new_Ancestry (xs @ [op])) a b = isAncestor (new_Ancestry xs) a b"
    and "a \<in> op_hash ` set xs \<Longrightarrow> isAncestor (new_Ancestry (xs @ [op])) a (op_hash op)"
    and "\<not> isAncestor (new_Ancestry (xs @ [op])) (op_hash op) b"
    and "a \<in> op_hash ` set xs \<Longrightarrow> b \<in> op_hash ` set xs \<Longrightarrow>
      areConcurrent (new_Ancestry (xs @ [op])) a b = areConcurrent (new_Ancestry xs) a b"
    and "a \<in> op_hash ` set (xs @ [op]) \<Longrightarrow> \<not> areConcurrent (new_Ancestry (xs @ [op])) a (op_hash op)"
    and "a \<in> op_hash ` set (xs @ [op]) \<Longrightarrow> \<not> areConcurrent (new_Ancestry (xs @ [op])) (op_hash op) a"
  using precedes_prefix [OF e] precedes_new [OF e] extendsD(3) [OF e] extendsD(1,2) [OF e]
  by (auto simp: isAncestor_iff areConcurrent_iff)

lemma get_push [simp]: "get_list (push_under k x m) j = get_list m j @ (if j = k then [x] else [])"
  by (simp add: push_under_def get_list_def update_conv')

lemma authoredOf_list: "get_list (authoredOf xs) i = filter (\<lambda>x. op_author x = i) xs"
proof -
  have "get_list (fold (\<lambda>op m. push_under (op_author op) op m) xs m) i = get_list m i @ filter (\<lambda>x. op_author x = i) xs" for m
    by (induction xs arbitrary: m) auto
  then show ?thesis by (simp add: authoredOf_def get_list_def)
qed

section \<open>Collecting\<close>

text \<open>The cuts \<open>C\<close> of \<open>xs\<close> seen in the larger set.\<close>

definition widened :: "operation list \<Rightarrow> operation \<Rightarrow> cuts \<Rightarrow> cuts" where
  "widened xs op C = C\<lparr>cuts_ancestry := new_Ancestry (xs @ [op]), cuts_authored := authoredOf (xs @ [op])\<rparr>"

definition seen :: "operation list \<Rightarrow> cuts \<Rightarrow> bool" where
  "seen xs C \<longleftrightarrow> cuts_ancestry C = new_Ancestry xs \<and> cuts_authored C = authoredOf xs"

lemma widened_simps [simp]:
  "cuts_ancestry (widened xs op C) = new_Ancestry (xs @ [op])" "cuts_authored (widened xs op C) = authoredOf (xs @ [op])"
  "cuts_taken (widened xs op C) = cuts_taken C" "cuts_cutsOf (widened xs op C) = cuts_cutsOf C"
  "cuts_cyclic (widened xs op C) = cuts_cyclic C" "cuts_standing (widened xs op C) = cuts_standing C"
  by (simp_all add: widened_def)

lemma seen_authored:
  assumes "seen xs C"
  shows "get_list (cuts_authored (widened xs op C)) i = get_list (cuts_authored C) i @ (if op_author op = i then [op] else [])"
  using assms by (simp add: authoredOf_list seen_def)

lemma cut_matters_widened:
  assumes e: "extends xs op" and s: "seen xs C" and k: "k \<in> set xs"
  shows "cut_matters (widened xs op C) k = cut_matters C k"
proof -
  have t: "list_ex (\<lambda>other. needOf other \<noteq> None \<and>
      (areConcurrent (cuts_ancestry (widened xs op C)) (op_hash k) (op_hash other) \<or>
       op_action other = INVITATION_CREATED \<and> \<not> isAncestor (cuts_ancestry (widened xs op C)) (op_hash k) (op_hash other)))
      (get_list (cuts_authored (widened xs op C)) i) =
    list_ex (\<lambda>other. needOf other \<noteq> None \<and>
      (areConcurrent (cuts_ancestry C) (op_hash k) (op_hash other) \<or>
       op_action other = INVITATION_CREATED \<and> \<not> isAncestor (cuts_ancestry C) (op_hash k) (op_hash other)))
      (get_list (cuts_authored C) i)" for i
    unfolding seen_authored [OF s] using s k ancestry_extended [OF e]
    by (auto simp: list_ex_iff seen_def authoredOf_list)
  show ?thesis unfolding cut_matters_def Let_def t ..
qed

lemma collect_widened:
  assumes e: "extends xs op" and ops: "set ops \<subseteq> set xs" and f: "\<And>x. x \<in> set xs \<Longrightarrow> f' x = f x"
    and s: "seen xs C" and c: "collect_cuts f ops C = Inr C1"
  shows "collect_cuts f' ops (widened xs op C) = Inr (widened xs op C1) \<and> seen xs C1"
  using ops s c
proof (induction ops arbitrary: C)
  case (Cons k ops)
  have k: "k \<in> set xs" "f' k = f k" using Cons.prems(1) f by auto
  note m = cut_matters_widened [OF e Cons.prems(2) k(1)]
  have upd: "widened xs op C\<lparr>cuts_taken := t, cuts_cutsOf := u\<rparr> = widened xs op (C\<lparr>cuts_taken := t, cuts_cutsOf := u\<rparr>)"
    for C t u by (simp add: widened_def)
  show ?case
  proof (cases "cut_matters C k")
    case False
    then show ?thesis using Cons m by simp
  next
    case True
    with Cons.prems(3) obtain t where t: "f k = Inr t" by auto
    show ?thesis
    proof (cases "t = []")
      case True
      then show ?thesis using Cons m t k \<open>cut_matters C k\<close> by simp
    next
      case False
      let ?C = "C\<lparr>cuts_taken := AList.update (op_hash k) t (cuts_taken C),
             cuts_cutsOf := fold (\<lambda>member m. push_under member k m)
               (new_Set (map identity_of_key t)) (cuts_cutsOf C)\<rparr>"
      have "collect_cuts f ops ?C = Inr C1" using Cons.prems(3) \<open>cut_matters C k\<close> t False by simp
      moreover have "seen xs ?C" using Cons.prems(2) by (simp add: seen_def)
      ultimately show ?thesis using Cons.IH [of ?C] Cons.prems(1) m t k True False by (simp add: upd)
    qed
  qed
qed simp

lemma collect_append: "collect_cuts f (xs @ ys) C = bindR (collect_cuts f xs C) (collect_cuts f ys)"
proof (induction xs arbitrary: C)
  case (Cons x xs)
  show ?case by (cases "f x") (simp_all add: Cons)
qed simp

text \<open>Everything listed under a member is a recorded cut.\<close>

definition listed :: "operation list \<Rightarrow> cuts \<Rightarrow> bool" where
  "listed xs C \<longleftrightarrow> (\<forall>m. \<forall>k \<in> set (get_list (cuts_cutsOf C) m). k \<in> set xs \<and> map_of (cuts_taken C) (op_hash k) \<noteq> None)"

lemma get_push_fold:
  "distinct ms \<Longrightarrow> get_list (fold (\<lambda>member m. push_under member k m) ms m0) j = get_list m0 j @ (if j \<in> set ms then [k] else [])"
  by (induction ms arbitrary: m0) auto

lemma distinct_new_Set [simp]: "distinct (new_Set xs)"
proof -
  have "distinct (fold set_add xs ys)" if "distinct ys" for ys :: "'a list" using that by (induction xs arbitrary: ys) auto
  then show ?thesis by (simp add: new_Set_def)
qed

lemma collect_listed:
  assumes "collect_cuts f ops C = Inr C1" and "set ops \<subseteq> set xs" and "listed xs C"
  shows "listed xs C1"
  using assms
proof (induction ops arbitrary: C)
  case (Cons k ops)
  show ?case
  proof (cases "cut_matters C k")
    case True
    with Cons.prems(1) obtain t where t: "f k = Inr t" by auto
    show ?thesis
    proof (cases "t = []")
      case False
      let ?C = "C\<lparr>cuts_taken := AList.update (op_hash k) t (cuts_taken C),
             cuts_cutsOf := fold (\<lambda>member m. push_under member k m)
               (new_Set (map identity_of_key t)) (cuts_cutsOf C)\<rparr>"
      have "collect_cuts f ops ?C = Inr C1" using Cons.prems(1) True t False by simp
      moreover have "listed xs ?C" using Cons.prems(2,3)
        by (auto simp: listed_def get_push_fold update_conv' split: if_splits)
      ultimately show ?thesis using Cons.IH [of ?C] Cons.prems(2) by simp
    qed (use Cons True t in simp)
  qed (use Cons in simp)
qed simp

section \<open>Deciding\<close>

lemma jsmap_of_distinct: "distinct (map fst kvs) \<Longrightarrow> jsmap_of kvs = kvs"
proof -
  have "distinct (map fst (m @ kvs)) \<Longrightarrow> fold (\<lambda>(k, v). AList.update k v) kvs m = m @ kvs" for m
  proof (induction kvs arbitrary: m)
    case (Cons kv kvs)
    obtain k v where kv: "kv = (k, v)" by (cases kv)
    have "AList.update k v m = m @ [(k, v)]" using Cons.prems by (intro update_new) (auto simp: kv)
    then show ?case using Cons by (simp add: kv)
  qed simp
  from this [of "[]"] show "distinct (map fst kvs) \<Longrightarrow> jsmap_of kvs = kvs" by (simp add: jsmap_of_def)
qed

lemma successors_edges:
  "set (edgesOf (successors_of preds) a) = {k. \<exists>incoming. (k, incoming) \<in> set preds \<and> a \<in> op_hash ` set incoming}"
proof -
  have e: "edgesOf m h = get_list m h" for m h by (simp add: edgesOf_def get_list_def)
  have inner: "set (get_list (fold (\<lambda>other. push_under (op_hash other) k) incoming m) a) =
      set (get_list m a) \<union> (if a \<in> op_hash ` set incoming then {k} else {})" for incoming k and m :: graph
    by (induction incoming arbitrary: m) auto
  have "set (get_list (fold (\<lambda>(hash, incoming). fold (\<lambda>other. push_under (op_hash other) hash) incoming) preds m) a) =
      set (get_list m a) \<union> {k. \<exists>incoming. (k, incoming) \<in> set preds \<and> a \<in> op_hash ` set incoming}" for m :: graph
  proof (induction preds arbitrary: m)
    case (Cons p preds)
    obtain k incoming where p: "p = (k, incoming)" by (cases p)
    show ?case by (simp add: p Cons.IH inner) blast
  qed simp
  from this [of "[]"] show ?thesis by (simp add: e successors_of_def get_list_def [of "[]"])
qed

text \<open>A node without edges that nothing reaches is a component of its own, and comes first.\<close>

lemma walk_alone:
  assumes "edgesOf g h = []" and "t_work t = []" and "t_stack t = []" and "map_of (t_index t) h = None"
  shows "t_components (walkFrom g h t) = t_components t @ [[h]]"
proof -
  let ?t = "visit h t"
  have i: "map_of (t_index ?t) h = map_of (t_low ?t) h"
    using assms(4) by (simp add: visit_def Let_def update_conv' map_of_eq_None_iff length_update_new)
  have w: "t_work ?t = [(h, 0)]" using assms by (simp add: visit_def Let_def)
  have "walk_step g ?t = finish h ?t" by (simp add: walk_step_def w follow_def assms(1))
  moreover have "t_work (finish h ?t) = []" by (simp add: w)
  ultimately have "walkFrom g h t = finish h ?t"
    by (simp add: walkFrom_def walk.simps [of g ?t] walk.simps [of g "finish h ?t"] w)
  then show ?thesis using i by (simp add: finish_def w Let_def) (simp add: visit_def Let_def assms)
qed

lemma componentsOf_alone:
  assumes e: "edgesOf g h = []" and h: "h \<notin> set nodes" and t: "\<And>a. h \<notin> set (edgesOf g a)"
  shows "componentsOf (nodes @ [h]) g = [h] # componentsOf nodes g"
proof -
  let ?f = "\<lambda>root t. if map_of (t_index t) root = None then walkFrom g root t else t"
  let ?t = "fold ?f nodes new_CutComponents"
  have "searched g (set nodes) new_CutComponents"
    using new_ok by (simp add: searched_def new_CutComponents_def)
  then have s: "searched g (set nodes) ?t" using search_all [of nodes "set nodes" g new_CutComponents] by simp
  have r: "reach (edgesOf g) a h \<Longrightarrow> a = h" for a
    unfolding reach_def by (erule rtranclp.cases) (use t in auto)
  have "h \<notin> indexed ?t" using tarjan_okD(4) [of g "set nodes" ?t h] s r h by (auto simp: searched_def)
  then have n: "map_of (t_index ?t) h = None" by (simp add: not_indexed)
  have w: "t_work ?t = []" "tarjan_ok g (set nodes) ?t" using s unfolding searched_def by blast+
  have "t_stack ?t = []" by (rule search_ok_done) (use tarjan_okD(1) [OF w(2)] w(1) in \<open>simp only:\<close>)
  then have c: "t_components (walkFrom g h ?t) = t_components ?t @ [[h]]" by (rule walk_alone [OF e w(1) _ n])
  have "componentsOf (nodes @ [h]) g = rev (t_components (?f h ?t))" by (simp only: componentsOf_def Let_def fold_append fold.simps o_apply id_apply)
  also have "?f h ?t = walkFrom g h ?t" using n by (simp only: if_True simp_thms)
  finally show ?thesis by (simp only: c componentsOf_def Let_def rev_append rev.simps append.simps)
qed

text \<open>The cuts \<open>C'\<close> of \<open>xs @ [op]\<close> agree with the cuts \<open>C\<close> of \<open>xs\<close> on the operations of \<open>xs\<close>.\<close>

definition agree :: "operation list \<Rightarrow> operation \<Rightarrow> cuts \<Rightarrow> cuts \<Rightarrow> bool" where
  "agree xs op C C' \<longleftrightarrow> seen xs C \<and> seen (xs @ [op]) C' \<and> listed xs C \<and>
     cuts_cyclic C' = cuts_cyclic C \<and>
     (\<forall>k \<in> set xs. op_hash k \<in> set (cuts_standing C') \<longleftrightarrow> op_hash k \<in> set (cuts_standing C)) \<and>
     (\<forall>k \<in> set xs. map_of (cuts_taken C') (op_hash k) = map_of (cuts_taken C) (op_hash k)) \<and>
     (\<forall>m. \<exists>ys. set ys \<subseteq> {op} \<and> get_list (cuts_cutsOf C') m = get_list (cuts_cutsOf C) m @ ys)"

lemma agree_cutsOf:
  assumes "agree xs op C C'"
  obtains ys where "set ys \<subseteq> {op}" "get_list (cuts_cutsOf C') m = get_list (cuts_cutsOf C) m @ ys"
  using assms unfolding agree_def by blast

lemma fold_related:
  assumes "\<And>x a b. x \<in> set xs \<Longrightarrow> R a b \<Longrightarrow> R (f x a) (g x b)" and "R a b"
  shows "R (fold f xs a) (fold g xs b)"
  using assms by (induction xs arbitrary: a b) simp_all

lemma agree_spared:
  assumes e: "extends xs op" and a: "agree xs op C C'" and k: "k \<in> set xs" and y: "y \<in> op_hash ` set xs"
  shows "y \<in> set (sparedBy C' k) \<longleftrightarrow> y \<in> set (sparedBy C k)"
proof -
  let ?S = "{op_hash x |x. x \<in> set xs \<and> op_author x = op_author k \<and> op_hash x \<noteq> op_hash k \<and> \<not> precedes xs (op_hash k) (op_hash x)}"
  note c = extendsD(1,2) [OF e]
  have "set (sparedBy C k) = {h. \<exists>b \<in> ?S. precedes xs h b}"
    using a by (auto simp: agree_def seen_def sparedBy_def anc_closureOf_set authoredOf_list isAncestor_iff [OF c(2)])
  moreover have "set (sparedBy C' k) = {h. \<exists>b \<in> ?S. precedes (xs @ [op]) h b}"
    using a extendsD(3) [OF e k] precedes_prefix [OF e]
    by (auto simp: agree_def seen_def sparedBy_def anc_closureOf_set authoredOf_list isAncestor_iff [OF c(1)])
  moreover have "precedes (xs @ [op]) h b = precedes xs h b" if "b \<in> ?S" for h b
    using that by (intro precedes_prefix [OF e]) auto
  ultimately show ?thesis by auto
qed

lemma agree_reaches:
  assumes e: "extends xs op" and a: "agree xs op C C'" and "k \<in> set xs" "x \<in> set xs"
  shows "reaches C' k x = reaches C k x"
  using a ancestry_extended(4) [OF e, of "op_hash k" "op_hash x"] agree_spared [OF e a] assms(3,4)
  by (auto simp: reaches_def agree_def seen_def)

lemma agree_takes: "agree xs op C C' \<Longrightarrow> k \<in> set xs \<Longrightarrow> takes C' k need i = takes C k need i"
  by (simp add: agree_def takes_def)

lemma agree_predecessors:
  assumes e: "extends xs op" and a: "agree xs op C C'" and k: "k \<in> set xs"
  shows "predecessorsOf C' k = predecessorsOf C k"
proof -
  obtain ys where ys: "set ys \<subseteq> {op}" "get_list (cuts_cutsOf C') (op_author k) = get_list (cuts_cutsOf C) (op_author k) @ ys"
    by (rule agree_cutsOf [OF a])
  have l: "x \<in> set xs" if "x \<in> set (get_list (cuts_cutsOf C) (op_author k))" for x
    using a that by (auto simp: agree_def listed_def)
  have anc: "cuts_ancestry C' = new_Ancestry (xs @ [op])" "cuts_ancestry C = new_Ancestry xs"
    using a by (auto simp: agree_def seen_def)
  have "areConcurrent (cuts_ancestry C') (op_hash x) (op_hash k) = areConcurrent (cuts_ancestry C) (op_hash x) (op_hash k)"
    if "x \<in> set xs" for x using ancestry_extended(4) [OF e] that k by (simp add: anc)
  moreover have "\<not> areConcurrent (cuts_ancestry C') (op_hash x) (op_hash k)" if "x \<in> set ys" for x
    using ancestry_extended(6) [OF e, of "op_hash k"] that ys(1) k by (auto simp: anc)
  ultimately show ?thesis using l agree_takes [OF a]
    by (auto simp: predecessorsOf_def ys(2) intro!: filter_cong)
qed

lemma predecessorsOf_new:
  assumes e: "extends xs op" and a: "agree xs op C C'"
  shows "predecessorsOf C' op = []"
proof -
  have "x \<in> set (xs @ [op])" if "x \<in> set (get_list (cuts_cutsOf C') (op_author op))" for x
  proof -
    obtain ys where "set ys \<subseteq> {op}" "get_list (cuts_cutsOf C') (op_author op) = get_list (cuts_cutsOf C) (op_author op) @ ys"
      by (rule agree_cutsOf [OF a])
    then show ?thesis using that a by (auto simp: agree_def listed_def)
  qed
  moreover have "cuts_ancestry C' = new_Ancestry (xs @ [op])" using a by (auto simp: agree_def seen_def)
  ultimately show ?thesis using ancestry_extended(5) [OF e] by (fastforce simp: predecessorsOf_def filter_empty_conv)
qed

text \<open>One component: its cuts are decided alike.\<close>

lemma agree_stand:
  assumes "agree xs op C C'" and "k \<in> set xs" and "inj_on op_hash (set xs)"
  shows "agree xs op (C\<lparr>cuts_standing := set_add (op_hash k) (cuts_standing C)\<rparr>)
    (C'\<lparr>cuts_standing := set_add (op_hash k) (cuts_standing C')\<rparr>)"
  using assms by (simp add: agree_def seen_def listed_def)

lemma agree_component:
  assumes e: "extends xs op" and a: "agree xs op C C'"
    and lk: "\<And>h. h \<in> set component \<Longrightarrow> \<exists>k \<in> set xs. op_hash k = h \<and> map_of byHash h = Some k \<and> map_of byHash' h = Some k"
    and prd: "\<And>h. h \<in> set component \<Longrightarrow> get_list preds' h = get_list preds h \<and> set (get_list preds h) \<subseteq> set xs"
  shows "agree xs op (decideComponent component byHash preds C) (decideComponent component byHash' preds' C')"
proof -
  let ?g = "\<lambda>lk prd hash C. let cutter = the (map_of lk hash);
               voided = list_ex (\<lambda>other. op_hash other \<notin> set component \<and>
                          op_hash other \<in> set (cuts_standing C) \<and> reaches C other cutter) (get_list prd hash)
           in if \<not> voided then C\<lparr>cuts_standing := set_add hash (cuts_standing C)\<rparr> else C"
  have inj: "inj_on op_hash (set xs)" using causal_inj extendsD(2) [OF e] by blast
  have step: "agree xs op (?g byHash preds h C) (?g byHash' preds' h C')" if h: "h \<in> set component" and a: "agree xs op C C'" for h C C'
  proof -
    from lk [OF h] obtain k where k: "k \<in> set xs" "op_hash k = h" "map_of byHash h = Some k" "map_of byHash' h = Some k" by auto
    have "list_ex (\<lambda>other. op_hash other \<notin> set component \<and> op_hash other \<in> set (cuts_standing C') \<and> reaches C' other k) (get_list preds h) =
        list_ex (\<lambda>other. op_hash other \<notin> set component \<and> op_hash other \<in> set (cuts_standing C) \<and> reaches C other k) (get_list preds h)"
      using prd [OF h] a agree_reaches [OF e a _ k(1)] by (auto simp: list_ex_iff agree_def)
    then show ?thesis using prd [OF h] k agree_stand [OF a k(1) inj] a by (simp add: Let_def)
  qed
  have "agree xs op (fold (?g byHash preds) component C) (fold (?g byHash' preds') component C')"
    if "agree xs op C C'" for C C'
    using step that by (rule fold_related)
  moreover have "agree xs op (if length component > 1 then C\<lparr>cuts_cyclic := fold set_add component (cuts_cyclic C)\<rparr> else C)
      (if length component > 1 then C'\<lparr>cuts_cyclic := fold set_add component (cuts_cyclic C')\<rparr> else C')"
    using a by (auto simp: agree_def seen_def listed_def)
  ultimately show ?thesis unfolding decideComponent_def Let_def by blast
qed

text \<open>The whole decision, without the new operation and with it.\<close>

definition cut_lookup :: "operation list \<Rightarrow> (string, operation) jsmap" where
  "cut_lookup ops = jsmap_of (map (\<lambda>k. (op_hash k, k)) ops)"

definition cut_incoming :: "cuts \<Rightarrow> operation list \<Rightarrow> (string, operation list) jsmap" where
  "cut_incoming C ops = jsmap_of (map (\<lambda>k. (op_hash k, predecessorsOf C k)) ops)"

lemma decide_lookup:
  "decide ops C = fold (\<lambda>component. decideComponent component (cut_lookup ops) (cut_incoming C ops))
     (componentsOf (map fst (cut_lookup ops)) (successors_of (cut_incoming C ops))) C"
  by (simp add: decide_def cut_lookup_def cut_incoming_def Let_def)

lemma cut_tables:
  assumes "distinct (map op_hash ops)"
  shows "cut_lookup ops = map (\<lambda>k. (op_hash k, k)) ops"
    and "cut_incoming C ops = map (\<lambda>k. (op_hash k, predecessorsOf C k)) ops"
  using assms by (simp_all add: cut_lookup_def cut_incoming_def jsmap_of_distinct comp_def)

lemma cut_table_get:
  assumes d: "distinct (map op_hash ops)" and k: "k \<in> set ops"
  shows "map_of (cut_lookup ops) (op_hash k) = Some k" "get_list (cut_incoming C ops) (op_hash k) = predecessorsOf C k"
proof -
  have m: "map_of (map (\<lambda>k. (op_hash k, f k)) ops) (op_hash k) = Some (f k)" for f :: "operation \<Rightarrow> 'b"
    using d k by (intro map_of_is_SomeI) (auto simp: comp_def)
  show "map_of (cut_lookup ops) (op_hash k) = Some k" "get_list (cut_incoming C ops) (op_hash k) = predecessorsOf C k"
    unfolding cut_tables [OF d] by (simp_all add: get_list_def m)
qed

lemma cut_components:
  assumes d: "distinct (map op_hash ops)"
    and c: "c \<in> set (componentsOf (map fst (cut_lookup ops)) (successors_of (cut_incoming C ops)))" and h: "h \<in> set c"
  shows "\<exists>k \<in> set ops. op_hash k = h"
proof -
  let ?g = "successors_of (cut_incoming C ops)"
  have "h \<in> set (concat (componentsOf (map fst (cut_lookup ops)) ?g))" using c h by auto
  then obtain r where r: "r \<in> set (map fst (cut_lookup ops))" "reach (edgesOf ?g) r h" unfolding components_facts(1) by blast
  from r(2) have "h = r \<or> (\<exists>a. h \<in> set (edgesOf ?g a))" unfolding reach_def by (cases rule: rtranclp.cases) auto
  then show ?thesis using r(1) by (auto simp: successors_edges cut_tables [OF d])
qed

lemma decide_agree:
  assumes e: "extends xs op" and a: "agree xs op C C'" and P: "set ops \<subseteq> set xs" "distinct (map op_hash ops)"
    and a': "agree xs op D D'" and inc: "\<And>k. k \<in> set ops \<Longrightarrow> map_of byHash' (op_hash k) = Some k \<and> get_list preds' (op_hash k) = predecessorsOf C k"
  shows "agree xs op
    (fold (\<lambda>component. decideComponent component (cut_lookup ops) (cut_incoming C ops))
       (componentsOf (map fst (cut_lookup ops)) (successors_of (cut_incoming C ops))) D)
    (fold (\<lambda>component. decideComponent component byHash' preds')
       (componentsOf (map fst (cut_lookup ops)) (successors_of (cut_incoming C ops))) D')"
proof (rule fold_related [where R = "agree xs op", OF _ a'])
  fix c A A' assume c: "c \<in> set (componentsOf (map fst (cut_lookup ops)) (successors_of (cut_incoming C ops)))"
    and A: "agree xs op A A'"
  have sub: "set (predecessorsOf C k) \<subseteq> set xs" for k
    using a by (auto simp: predecessorsOf_def agree_def listed_def)
  show "agree xs op (decideComponent c (cut_lookup ops) (cut_incoming C ops) A) (decideComponent c byHash' preds' A')"
  proof (rule agree_component [OF e A])
    fix h assume "h \<in> set c"
    then obtain k where k: "k \<in> set ops" "op_hash k = h" using cut_components [OF P(2) c] by blast
    note t = cut_table_get [OF P(2) k(1)] inc [OF k(1)]
    show "\<exists>k \<in> set xs. op_hash k = h \<and> map_of (cut_lookup ops) h = Some k \<and> map_of byHash' h = Some k"
      using t k P(1) by blast
    show "get_list preds' h = get_list (cut_incoming C ops) h \<and> set (get_list (cut_incoming C ops) h) \<subseteq> set xs"
      using t k(2) sub [of k] by simp
  qed
qed

lemma fold_increasing:
  assumes "\<And>x a. set (s a) \<subseteq> set (s (f x a))"
  shows "set (s a) \<subseteq> set (s (fold f xs a))"
proof (induction xs arbitrary: a)
  case (Cons x xs)
  show ?case using assms [of a x] Cons.IH [of "f x a"] by simp
qed simp

lemma decideComponent_grows: "set (cuts_standing C) \<subseteq> set (cuts_standing (decideComponent c b p C))"
proof -
  let ?C1 = "if length c > 1 then C\<lparr>cuts_cyclic := fold set_add c (cuts_cyclic C)\<rparr> else C"
  have "set (cuts_standing C) = set (cuts_standing ?C1)" by simp
  also have "\<dots> \<subseteq> set (cuts_standing (decideComponent c b p C))"
    unfolding decideComponent_def Let_def by (rule fold_increasing) auto
  finally show ?thesis .
qed

lemma decide_without:
  assumes e: "extends xs op" and a: "agree xs op C C'" and P: "set ops \<subseteq> set xs" "distinct (map op_hash ops)"
  shows "agree xs op (decide ops C) (decide ops C')"
proof -
  have i: "cut_incoming C' ops = cut_incoming C ops"
    using agree_predecessors [OF e a] P unfolding cut_tables [OF P(2)] by auto
  show ?thesis unfolding decide_lookup i
    by (rule decide_agree [OF e a P a]) (use cut_table_get [OF P(2)] in simp)
qed

lemma decide_with:
  assumes e: "extends xs op" and a: "agree xs op C C'" and P: "set ops \<subseteq> set xs" "distinct (map op_hash ops)"
  shows "agree xs op (decide ops C) (decide (ops @ [op]) C')" and "op_hash op \<in> set (cuts_standing (decide (ops @ [op]) C'))"
proof -
  have new: "op_hash op \<notin> op_hash ` set ops" using extendsD(4) [OF e] P(1) by auto
  then have d: "distinct (map op_hash (ops @ [op]))" using P(2) by auto
  have pr: "predecessorsOf C' k = predecessorsOf C k" if "k \<in> set ops" for k
    using agree_predecessors [OF e a] P(1) that by blast
  have inc: "cut_incoming C' (ops @ [op]) = cut_incoming C ops @ [(op_hash op, [])]"
    unfolding cut_tables [OF d] cut_tables [OF P(2)] using pr predecessorsOf_new [OF e a] by simp
  have lk: "cut_lookup (ops @ [op]) = cut_lookup ops @ [(op_hash op, op)]"
    unfolding cut_tables [OF d] cut_tables [OF P(2)] by simp
  let ?g = "successors_of (cut_incoming C ops)"
  have g: "successors_of (cut_incoming C ops @ [(op_hash op, [])]) = ?g" by (simp add: successors_of_def)
  have sub: "set (predecessorsOf C k) \<subseteq> set xs" for k using a by (auto simp: predecessorsOf_def agree_def listed_def)
  have alone: "componentsOf (map fst (cut_lookup ops) @ [op_hash op]) ?g = [op_hash op] # componentsOf (map fst (cut_lookup ops)) ?g"
  proof (rule componentsOf_alone)
    have "op_hash op \<notin> op_hash ` set incoming" if "(k, incoming) \<in> set (cut_incoming C ops)" for k incoming
      using that sub extendsD(4) [OF e] unfolding cut_tables [OF P(2)] by auto
    then have "set (edgesOf ?g (op_hash op)) = {}" unfolding successors_edges by blast
    then show "edgesOf ?g (op_hash op) = []" by simp
    show "op_hash op \<notin> set (map fst (cut_lookup ops))" using new unfolding cut_tables [OF P(2)] by auto
    show "op_hash op \<notin> set (edgesOf ?g a)" for a
      using new unfolding successors_edges cut_tables [OF P(2)] by auto
  qed
  let ?b = "cut_lookup ops @ [(op_hash op, op)]" and ?p = "cut_incoming C ops @ [(op_hash op, [])]"
  let ?C = "decideComponent [op_hash op] ?b ?p C'"
  have all: "decide (ops @ [op]) C' = fold (\<lambda>component. decideComponent component ?b ?p) (componentsOf (map fst (cut_lookup ops)) ?g) ?C"
    unfolding decide_lookup inc lk g by (simp add: alone)
  have one: "?C = C'\<lparr>cuts_standing := set_add (op_hash op) (cuts_standing C')\<rparr>"
  proof -
    have "map_of (cut_incoming C ops) (op_hash op) = None"
      using new unfolding cut_tables [OF P(2)] by (simp add: map_of_eq_None_iff image_image)
    then have "get_list ?p (op_hash op) = []" by (simp add: get_list_def map_add_def)
    then show ?thesis by (simp add: decideComponent_def)
  qed
  have ne: "op_hash k \<noteq> op_hash op" if "k \<in> set xs" for k using extendsD(4) [OF e] that by (metis image_eqI)
  then have c: "agree xs op C ?C" using a by (simp add: one agree_def seen_def)
  show "agree xs op (decide ops C) (decide (ops @ [op]) C')"
    unfolding all decide_lookup [of ops]
  proof (rule decide_agree [OF e a P c])
    fix k assume k: "k \<in> set ops"
    note t = cut_table_get [OF P(2) k]
    have "op_hash k \<noteq> op_hash op" using ne P(1) k by blast
    then have "map_of ?p (op_hash k) = map_of (cut_incoming C ops) (op_hash k)"
      by (auto simp: map_add_def split: option.split)
    then show "map_of ?b (op_hash k) = Some k \<and> get_list ?p (op_hash k) = predecessorsOf C k"
      using t by (simp add: get_list_def map_add_def \<open>op_hash k \<noteq> op_hash op\<close>)
  qed
  have "set (cuts_standing ?C) \<subseteq> set (cuts_standing (decide (ops @ [op]) C'))"
    unfolding all by (rule fold_increasing) (rule decideComponent_grows)
  then show "op_hash op \<in> set (cuts_standing (decide (ops @ [op]) C'))" by (auto simp: one)
qed

section \<open>The cuts of the larger set\<close>

lemma identity_of_keyOf: "CHR '' '' \<notin> set a \<Longrightarrow> identity_of_key (keyOf a i) = i"
proof -
  assume "CHR '' '' \<notin> set a"
  then have "dropWhile (\<lambda>ch. ch \<noteq> CHR '' '') (a @ CHR '' '' # i) = CHR '' '' # i" by (induction a) auto
  then show ?thesis by (simp add: identity_of_key_def keyOf_def Let_def)
qed

lemma takesInvites_member: "takesInvitesOf t i \<Longrightarrow> i \<in> identity_of_key ` set t"
  using identity_of_keyOf [OF permission_no_blank, of CREATE_INVITES i] identity_of_keyOf [of MEMBERSHIP i]
  by (auto simp: takesInvitesOf_def MEMBERSHIP_def image_iff) (metis (full_types) MEMBERSHIP_def)+

definition recorded :: "operation list \<Rightarrow> operation \<Rightarrow> cuts \<Rightarrow> string list option \<Rightarrow> bool" where
  "recorded xs op C' t \<longleftrightarrow> map_of (cuts_taken C') (op_hash op) = t \<and>
     (t = None \<or> op_hash op \<in> set (cuts_standing C')) \<and>
     (\<forall>m. op \<in> set (get_list (cuts_cutsOf C') m) \<longleftrightarrow> (\<exists>ks. t = Some ks \<and> m \<in> identity_of_key ` set ks))"

text \<open>What \<open>takenOf\<close> says of the new operation, when it matters.\<close>

definition newly_taken :: "(operation \<Rightarrow> 'e + string list) \<Rightarrow> operation list \<Rightarrow> operation \<Rightarrow> cuts \<Rightarrow> string list option" where
  "newly_taken f xs op C =
     (if cut_matters (widened xs op C) op then (case f op of Inr t \<Rightarrow> if t = [] then None else Some t | Inl _ \<Rightarrow> None) else None)"

lemma new_cuts_agree:
  assumes e: "extends xs op" and C: "new_AuthorityCuts xs (new_Ancestry xs) f = Inr C"
    and C': "new_AuthorityCuts (xs @ [op]) (new_Ancestry (xs @ [op])) f' = Inr C'"
    and f: "\<And>x. x \<in> set xs \<Longrightarrow> f' x = f x"
  shows "agree xs op C C' \<and> recorded xs op C' (newly_taken f' xs op C)"
proof -
  let ?C0 = "\<lparr>cuts_ancestry = new_Ancestry xs, cuts_authored = authoredOf xs, cuts_taken = [],
               cuts_cutsOf = [], cuts_cyclic = [], cuts_standing = []\<rparr>"
  from C obtain C1 where c1: "collect_cuts f xs ?C0 = Inr C1"
    and C1: "C = decide (filter (\<lambda>x. map_of (cuts_taken C1) (op_hash x) \<noteq> None) xs) C1"
    by (auto simp: new_AuthorityCuts_def)
  have s0: "seen xs ?C0" by (simp add: seen_def)
  from collect_widened [OF e subset_refl f s0 c1] have w: "collect_cuts f' xs (widened xs op ?C0) = Inr (widened xs op C1)"
    and s1: "seen xs C1" by auto
  have l1: "listed xs C1" by (rule collect_listed [OF c1 subset_refl]) (simp add: listed_def get_list_def)
  have t1: "traced f xs C1" using collect_cuts_traced [OF c1 subset_refl] by (simp add: traced_def)
  have fresh: "map_of (cuts_taken C1) (op_hash op) = None"
  proof (rule ccontr)
    assume "map_of (cuts_taken C1) (op_hash op) \<noteq> None"
    then obtain x where "x \<in> set xs" "op_hash x = op_hash op" using t1 by (auto simp: traced_def)
    then show False using extendsD(4) [OF e] by (metis image_eqI)
  qed
  have notin: "op \<notin> set xs" using extendsD(4) [OF e] by auto
  let ?P = "filter (\<lambda>x. map_of (cuts_taken C1) (op_hash x) \<noteq> None) xs"
  have dx: "distinct (map op_hash xs)" using extendsD(2) [OF e] by (simp add: causal_def)
  have P: "set ?P \<subseteq> set xs" "distinct (map op_hash ?P)" using dx by (auto simp: distinct_map_filter)
  have start: "cuts_cyclic C1 = [] \<and> cuts_standing C1 = []"
  proof -
    have "collect_cuts f ops D = Inr D' \<Longrightarrow> cuts_cyclic D' = cuts_cyclic D \<and> cuts_standing D' = cuts_standing D" for ops D D'
    proof (induction ops arbitrary: D)
      case (Cons k ops)
      then show ?case by (auto split: if_splits)
    qed simp
    from this [OF c1] show ?thesis by simp
  qed
  have mt: "cut_matters (widened xs op C) op = cut_matters (widened xs op C1) op"
    by (simp only: cut_matters_def widened_simps)
  have w0: "widened xs op ?C0 = \<lparr>cuts_ancestry = new_Ancestry (xs @ [op]), cuts_authored = authoredOf (xs @ [op]),
      cuts_taken = [], cuts_cutsOf = [], cuts_cyclic = [], cuts_standing = []\<rparr>" by (simp add: widened_def)
  show ?thesis
  proof (cases "newly_taken f' xs op C")
    case None
    have same: "collect_cuts f' (xs @ [op]) (widened xs op ?C0) = Inr (widened xs op C1)"
    proof -
      from C' have "isOK (collect_cuts f' (xs @ [op]) (widened xs op ?C0))"
        by (auto simp: new_AuthorityCuts_def w0 isOK_iff)
      then show ?thesis using None w mt
        by (auto simp: newly_taken_def collect_append isOK_iff split: if_splits sum.splits)
    qed
    then have C'd: "C' = decide ?P (widened xs op C1)"
      using C' fresh by (simp add: new_AuthorityCuts_def w0)
    have a: "agree xs op C1 (widened xs op C1)"
      using s1 l1 by (simp add: agree_def seen_def exI [of _ "[]"])
    have "agree xs op C C'" unfolding C'd C1 by (rule decide_without [OF e a P])
    moreover have "recorded xs op C' None" using l1 notin fresh by (auto simp: recorded_def C'd decide_frame listed_def)
    ultimately show ?thesis using None by simp
  next
    case (Some t)
    then have m: "cut_matters (widened xs op C1) op" "f' op = Inr t" "t \<noteq> []"
      using mt by (auto simp: newly_taken_def split: if_splits sum.splits)
    let ?C2 = "widened xs op C1\<lparr>cuts_taken := AList.update (op_hash op) t (cuts_taken C1),
             cuts_cutsOf := fold (\<lambda>member m. push_under member op m)
               (new_Set (map identity_of_key t)) (cuts_cutsOf C1)\<rparr>"
    have c2: "collect_cuts f' (xs @ [op]) (widened xs op ?C0) = Inr ?C2"
      using w m by (simp add: collect_append)
    have "x \<in> set xs \<Longrightarrow> op_hash x \<noteq> op_hash op" for x using extendsD(4) [OF e] by (metis image_eqI)
    then have "filter (\<lambda>x. map_of (cuts_taken ?C2) (op_hash x) \<noteq> None) (xs @ [op]) = ?P @ [op]"
      by (auto simp: update_conv' intro!: filter_cong)
    moreover have "decide (filter (\<lambda>x. map_of (cuts_taken ?C2) (op_hash x) \<noteq> None) (xs @ [op])) ?C2 = C'"
      using C' unfolding new_AuthorityCuts_def w0 [symmetric] c2 by (simp only: bindR_simps sum.inject)
    ultimately have C'd: "C' = decide (?P @ [op]) ?C2" by simp
    have a: "agree xs op C1 ?C2"
      using s1 l1 \<open>\<And>x. x \<in> set xs \<Longrightarrow> op_hash x \<noteq> op_hash op\<close>
      by (auto simp: agree_def seen_def update_conv' get_push_fold exI [of _ "[]"])
    have "agree xs op C C'" unfolding C'd C1 by (rule decide_with(1) [OF e a P])
    moreover have "recorded xs op C' (Some t)"
      using decide_with(2) [OF e a P] l1 notin
      by (auto simp: recorded_def C'd decide_frame listed_def update_conv' get_push_fold)
    ultimately show ?thesis using Some by simp
  qed
qed

text \<open>
  The operations of \<open>xs\<close> are void as before, the new one is not; the issuers of invitations of
  \<open>xs\<close> are cut as before or by the new operation.
\<close>

lemma extended_isVoid:
  assumes e: "extends xs op" and a: "agree xs op C C'" and x: "x \<in> set xs"
  shows "cuts_isVoid C' x = cuts_isVoid C x"
proof -
  obtain ys where ys: "set ys \<subseteq> {op}" "get_list (cuts_cutsOf C') (op_author x) = get_list (cuts_cutsOf C) (op_author x) @ ys"
    by (rule agree_cutsOf [OF a])
  have l: "k \<in> set xs" if "k \<in> set (get_list (cuts_cutsOf C) (op_author x))" for k
    using a that by (auto simp: agree_def listed_def)
  have "\<not> reaches C' op x" using ancestry_extended(6) [OF e, of "op_hash x"] a x by (auto simp: reaches_def agree_def seen_def)
  moreover have "(op_hash k \<in> set (cuts_standing C') \<and> takes C' k need i \<and> reaches C' k x) =
      (op_hash k \<in> set (cuts_standing C) \<and> takes C k need i \<and> reaches C k x)" if "k \<in> set xs" for k need i
    using that agree_takes [OF a] agree_reaches [OF e a _ x] a by (simp add: agree_def)
  ultimately have "isReachedBy C' x need = isReachedBy C x need" for need
    using l ys(1) unfolding isReachedBy_def list_ex_iff ys(2) set_append by blast
  then show ?thesis by (simp only: cuts_isVoid_def)
qed

lemma extended_not_void:
  assumes e: "extends xs op" and a: "agree xs op C C'"
  shows "\<not> cuts_isVoid C' op"
proof -
  have "k \<in> set (xs @ [op])" if "k \<in> set (get_list (cuts_cutsOf C') m)" for k m
  proof -
    obtain ys where "set ys \<subseteq> {op}" "get_list (cuts_cutsOf C') m = get_list (cuts_cutsOf C) m @ ys"
      by (rule agree_cutsOf [OF a])
    then show ?thesis using that a by (auto simp: agree_def listed_def)
  qed
  then have "\<not> isReachedBy C' op need" for need
    using ancestry_extended(5) [OF e] a by (fastforce simp: isReachedBy_def list_ex_iff reaches_def agree_def seen_def)
  then show ?thesis by (simp add: cuts_isVoid_def split: option.split)
qed

lemma extended_cutsIssuer:
  assumes e: "extends xs op" and a: "agree xs op C C'" and r: "recorded xs op C' t"
    and iv: "inv_id (inv_attributes iv) \<in> op_hash ` set xs"
  shows "cutsIssuerOf C' iv \<longleftrightarrow> cutsIssuerOf C iv \<or> (\<exists>ks. t = Some ks \<and> takesInvitesOf ks (inv_issuer (inv_attributes iv)))"
proof -
  let ?i = "inv_issuer (inv_attributes iv)"
  obtain ys where ys: "set ys \<subseteq> {op}" "get_list (cuts_cutsOf C') ?i = get_list (cuts_cutsOf C) ?i @ ys"
    by (rule agree_cutsOf [OF a])
  have l: "k \<in> set xs" if "k \<in> set (get_list (cuts_cutsOf C) ?i)" for k
    using a that by (auto simp: agree_def listed_def)
  have anc: "cuts_ancestry C = new_Ancestry xs" "cuts_ancestry C' = new_Ancestry (xs @ [op])"
    using a by (auto simp: agree_def seen_def)
  let ?q = "\<lambda>C k. op_hash k \<in> set (cuts_standing C) \<and> takesInvitesOf (the (map_of (cuts_taken C) (op_hash k))) ?i \<and>
      \<not> isAncestor (cuts_ancestry C) (op_hash k) (inv_id (inv_attributes iv))"
  have old: "?q C' k = ?q C k" if "k \<in> set xs" for k
    using that a ancestry_extended(1) [OF e iv] by (auto simp: anc agree_def)
  have notin: "op \<notin> set xs" using extendsD(4) [OF e] by auto
  have mem: "op \<in> set (get_list (cuts_cutsOf C') ?i) \<longleftrightarrow> (\<exists>ks. t = Some ks \<and> ?i \<in> identity_of_key ` set ks)"
    using r by (simp add: recorded_def)
  have new: "op \<in> set (get_list (cuts_cutsOf C') ?i) \<and> ?q C' op \<longleftrightarrow> (\<exists>ks. t = Some ks \<and> takesInvitesOf ks ?i)"
    using mem r takesInvites_member ancestry_extended(3) [OF e] by (auto simp: recorded_def anc)
  have "cutsIssuerOf C' iv \<longleftrightarrow> (\<exists>k \<in> set (get_list (cuts_cutsOf C) ?i) \<union> set ys. ?q C' k)"
    by (simp add: cutsIssuerOf_def Let_def list_ex_iff ys(2))
  also have "\<dots> \<longleftrightarrow> (\<exists>k \<in> set (get_list (cuts_cutsOf C) ?i). ?q C k) \<or> (op \<in> set ys \<and> ?q C' op)"
    using old l ys(1) by blast
  also have "op \<in> set ys \<longleftrightarrow> op \<in> set (get_list (cuts_cutsOf C') ?i)" using ys(2) l notin by auto
  finally show ?thesis by (simp only: new) (simp add: cutsIssuerOf_def Let_def list_ex_iff)
qed

lemma extended_own_invitation:
  assumes e: "extends xs op" and a: "agree xs op C C'" and r: "recorded xs op C' None"
    and iv: "inv_id (inv_attributes iv) = op_hash op"
  shows "\<not> cutsIssuerOf C' iv"
proof -
  let ?i = "inv_issuer (inv_attributes iv)"
  obtain ys where ys: "set ys \<subseteq> {op}" "get_list (cuts_cutsOf C') ?i = get_list (cuts_cutsOf C) ?i @ ys"
    by (rule agree_cutsOf [OF a])
  have "op \<notin> set (get_list (cuts_cutsOf C') ?i)" using r by (simp add: recorded_def)
  then have "k \<in> set xs" if "k \<in> set (get_list (cuts_cutsOf C') ?i)" for k
    using that ys a by (auto simp: agree_def listed_def)
  then show ?thesis
    using ancestry_extended(2) [OF e] a by (auto simp: cutsIssuerOf_def Let_def list_ex_iff iv agree_def seen_def)
qed

end
