(* ===== verification/RebaseIdentity.thy ===== *)
theory RebaseIdentity
  imports CommunityValues
begin

text \<open>
  An operation rebased onto a state where nothing it carries changed is applied as it was
  signed: \<open>argumentsOf\<close> of
  \<open>src/contexts/communities/domain/operations/CommunityOperationRebase.ts\<close> only rewrites what
  somebody else changed, so the handlers of \<open>CommunityOperationApplier.ts\<close> read the same values.
\<close>

section \<open>What the readers read\<close>

lemma read_string_Inr: "read_string args k = Inr s \<longleftrightarrow> map_of args k = Some (JString s)"
  by (auto simp: read_string_def split: option.splits json.splits)

lemma read_boolean_Inr: "read_boolean args k = Inr b \<longleftrightarrow> map_of args k = Some (JBool b)"
  by (auto simp: read_boolean_def split: option.splits json.splits)

lemma read_optional_Inr:
  "read_optionalString args k = Inr v \<longleftrightarrow> map_of args k = map_option JString v"
  "read_optionalBoolean args k = Inr w \<longleftrightarrow> map_of args k = map_option JBool w"
  by (cases v; auto simp: read_optionalString_def read_string_def split: option.splits json.splits)
    (cases w; auto simp: read_optionalBoolean_def read_boolean_def split: option.splits json.splits)

lemma json_strings: "mapR json_string xs = Inr ys \<longleftrightarrow> xs = map JString ys"
proof (induction xs arbitrary: ys)
  case (Cons x xs)
  then show ?case by (cases ys; cases x) (auto simp: json_string_def)
qed auto

lemma read_stringArray_Inr: "read_stringArray args k = Inr ys \<longleftrightarrow> map_of args k = Some (JArray (map JString ys))"
  by (auto simp: read_stringArray_def json_strings split: option.splits json.splits)

lemmas read_Inr = read_string_Inr read_boolean_Inr read_optional_Inr read_stringArray_Inr

lemma argument_reader_Inr: "argument_reader args required optional = Inr r \<longleftrightarrow>
    r = args \<and> (\<forall>k \<in> set required. map_of args k \<noteq> None) \<and> fst ` set args \<subseteq> set required \<union> set optional"
  by (auto simp: argument_reader_def list_ex_iff)

text \<open>Two argument objects with the same entries are read the same.\<close>

lemma reader_cong:
  assumes "\<And>k. map_of args k = map_of args' k"
  shows "read_string args k = read_string args' k" "read_boolean args k = read_boolean args' k"
    "read_optionalString args k = read_optionalString args' k"
    "read_optionalBoolean args k = read_optionalBoolean args' k"
    "read_stringArray args k = read_stringArray args' k"
  by (simp_all only: read_string_def read_boolean_def read_optionalString_def read_optionalBoolean_def
      read_stringArray_def assms)

lemma argument_reader_cong:
  assumes "\<And>k. map_of args k = map_of args' k"
  shows "argument_reader args required optional = Inr args \<longleftrightarrow> argument_reader args' required optional = Inr args'"
proof -
  have "fst ` set args = fst ` set args'" using assms by (metis dom_map_of_conv_image_fst ext)
  then show ?thesis unfolding argument_reader_Inr by (simp add: assms)
qed

lemma argument_reader_bind:
  assumes "argument_reader args required optional = Inr args"
  shows "bindR (argument_reader args required optional) f = f args"
  using assms by simp

lemma argument_reader_value: "argument_reader args required optional = Inr r \<Longrightarrow> r = args"
  by (simp add: argument_reader_Inr)

section \<open>The handlers read the same\<close>

text \<open>What is rebased without any change: the intended value, without its undefined entries.\<close>

definition as_signed :: "snapshot \<Rightarrow> (string \<times> json) list" where
  "as_signed s = map (\<lambda>kv. (fst kv, snapshot_json (snd kv))) (filter (\<lambda>kv. snd kv \<noteq> SUndefined) s)"

lemma signed_entry:
  "distinct (map fst s) \<Longrightarrow> map_of (as_signed s) k =
     (case map_of s k of None \<Rightarrow> None | Some v \<Rightarrow> if v = SUndefined then None else Some (snapshot_json v))"
proof (induction s)
  case (Cons kv s)
  have "fst ` set (as_signed s) \<subseteq> fst ` set s" by (force simp: as_signed_def)
  then have "fst kv \<notin> fst ` set (as_signed s)" using Cons.prems by auto
  then have none: "map_of (as_signed s) (fst kv) = None" by (simp add: map_of_eq_None_iff)
  show ?case
  proof (cases "k = fst kv")
    case True
    then show ?thesis using none by (cases kv) (simp add: as_signed_def)
  next
    case False
    then show ?thesis using Cons by (cases kv) (simp add: as_signed_def)
  qed
qed (simp add: as_signed_def)

lemma optional_entry:
  "(if snapshot_optional SString v = SUndefined then None else Some (snapshot_json (snapshot_optional SString v)))
     = map_option JString v"
  "(if snapshot_optional SBool w = SUndefined then None else Some (snapshot_json (snapshot_optional SBool w)))
     = map_option JBool w"
  by (auto simp: snapshot_optional_def split: option.splits)

lemma argumentsOf_unchanged:
  assumes "rebase_targets L (op_action op) = Some f" and "f (op_args op) = Inr t"
    and "target_of t b = target_of t c"
  shows "argumentsOf L op b c = Inr (op_args op) \<or> argumentsOf L op b c = Inr (as_signed (intended t))"
  using assms by (cases "target_of t c") (auto simp: argumentsOf_def as_signed_def Let_def)

lemma signed_profile:
  assumes "rebase_profile args = Inr t"
  shows "map_of (as_signed (intended t)) k = map_of args k"
proof -
  from assms obtain auto disc avatar banner description name where
    r: "argument_reader args [''description'', ''name'']
      [''autoJoinEnabled'', ''avatar'', ''banner'', ''discoverable''] = Inr args"
      "map_of args ''autoJoinEnabled'' = map_option JBool auto" "map_of args ''discoverable'' = map_option JBool disc"
      "map_of args ''avatar'' = map_option JString avatar" "map_of args ''banner'' = map_option JString banner"
      "map_of args ''description'' = Some (JString description)" "map_of args ''name'' = Some (JString name)"
    and t: "intended t = [(''autoJoinEnabled'', snapshot_optional SBool auto),
        (''avatar'', snapshot_optional SString avatar), (''banner'', snapshot_optional SString banner),
        (''description'', SString description), (''discoverable'', snapshot_optional SBool disc), (''name'', SString name)]"
    by (auto simp: rebase_profile_def read_Inr argument_reader_Inr)
  have d: "distinct (map fst (intended t))" by (simp add: t)
  show ?thesis
  proof (cases "k \<in> {''description'', ''name'', ''autoJoinEnabled'', ''avatar'', ''banner'', ''discoverable''}")
    case True
    then show ?thesis unfolding signed_entry [OF d] unfolding t
      by (elim insertE emptyE) (simp_all add: optional_entry r(2-))
  next
    case False
    then have "k \<notin> fst ` set args" using r(1) by (auto simp: argument_reader_Inr)
    then have "map_of args k = None" by (simp add: map_of_eq_None_iff)
    then show ?thesis using False unfolding signed_entry [OF d] unfolding t by simp
  qed
qed

lemma outside_reader:
  "argument_reader args required [] = Inr r \<Longrightarrow> k \<notin> set required \<Longrightarrow> map_of args k = None"
  by (auto simp: argument_reader_Inr map_of_eq_None_iff)

lemma signed_memberRoles:
  assumes "rebase_memberRoles L args = Inr t"
  shows "map_of (as_signed (intended t)) k = map_of args k"
  using assms outside_reader [of args "[''identityId'', ''roleIds'']" args k]
  by (auto simp: rebase_memberRoles_def read_Inr argument_reader_Inr as_signed_def)

lemma signed_channelPermissions:
  assumes "rebase_channelPermissions L args = Inr t"
  shows "map_of (as_signed (intended t)) k = map_of args k"
  using assms outside_reader [of args "[''channelId'', ''visibleRoleIds'']" args k]
  by (auto simp: rebase_channelPermissions_def read_Inr argument_reader_Inr as_signed_def)

lemma signed_role:
  assumes "rebase_role L args = Inr t"
  shows "map_of (as_signed (intended t)) k = map_of args k"
  using assms outside_reader [of args "[''name'', ''permissions'', ''roleId'']" args k]
  by (auto simp: rebase_role_def read_Inr argument_reader_Inr as_signed_def)

lemma signed_args:
  assumes "rebase_targets L a = Some f" and "f args = Inr t"
  shows "map_of (as_signed (intended t)) k = map_of args k"
  using assms
  by (cases a) (auto simp: signed_profile signed_memberRoles signed_channelPermissions signed_role)

text \<open>The handlers that rebase look at their arguments through the reader alone.\<close>

lemma handlers_cong:
  assumes m: "\<And>k. map_of args' k = map_of args k"
  shows "apply_updateProfile L c op args = Inr c' \<Longrightarrow> apply_updateProfile L c op args' = Inr c'"
    and "apply_assignRoles L c op args = Inr c' \<Longrightarrow> apply_assignRoles L c op args' = Inr c'"
    and "apply_updateChannelPermissions L c op args = Inr c' \<Longrightarrow> apply_updateChannelPermissions L c op args' = Inr c'"
    and "apply_updateRole L c op args = Inr c' \<Longrightarrow> apply_updateRole L c op args' = Inr c'"
proof -
  have r: "argument_reader args req opt = Inr r \<Longrightarrow> r = args \<and> argument_reader args' req opt = Inr args'" for req opt r
    using argument_reader_cong [of args' args, OF m] argument_reader_value by blast
  note c = reader_cong [of args' args, OF m]
  show "apply_updateProfile L c op args = Inr c' \<Longrightarrow> apply_updateProfile L c op args' = Inr c'"
    unfolding apply_updateProfile_def by (auto dest!: r simp: c)
  show "apply_assignRoles L c op args = Inr c' \<Longrightarrow> apply_assignRoles L c op args' = Inr c'"
    unfolding apply_assignRoles_def by (auto dest!: r simp: c)
  show "apply_updateChannelPermissions L c op args = Inr c' \<Longrightarrow> apply_updateChannelPermissions L c op args' = Inr c'"
    unfolding apply_updateChannelPermissions_def by (auto dest!: r simp: c)
  show "apply_updateRole L c op args = Inr c' \<Longrightarrow> apply_updateRole L c op args' = Inr c'"
    unfolding apply_updateRole_def by (auto dest!: r simp: c)
qed

text \<open>What a rebased handler accepts has a target.\<close>

lemma target_total:
  assumes "handler L (op_action op) = Some h" and "h c op (op_args op) = Inr c'"
    and "rebase_targets L (op_action op) = Some f"
  shows "\<exists>t. f (op_args op) = Inr t"
  using assms
  by (cases "op_action op")
    (auto simp: apply_updateProfile_def apply_assignRoles_def apply_updateChannelPermissions_def apply_updateRole_def
      rebase_profile_def rebase_memberRoles_def rebase_channelPermissions_def rebase_role_def canonical_identity_def)

definition unchanged_since :: "lib \<Rightarrow> operation \<Rightarrow> community \<Rightarrow> community \<Rightarrow> bool" where
  "unchanged_since L op b c \<longleftrightarrow>
     (\<forall>f t. rebase_targets L (op_action op) = Some f \<longrightarrow> f (op_args op) = Inr t \<longrightarrow> target_of t b = target_of t c)"

lemma rebase_unchanged:
  assumes ap: "apply_operation L c op None = Inr c'" and un: "unchanged_since L op b c"
  shows "apply_operation L c op (Some b) = Inr c'"
proof -
  from ap obtain h where h: "handler L (op_action op) = Some h" "h c op (op_args op) = Inr c'"
    and g: "\<not> isGenesis op" "isCanonicalKey L (op_author op)" "op_communityId op = c_id c" "op_networkId op = c_network c"
    by (auto simp: apply_operation_def split: option.splits)
  have "\<exists>args. argumentsOf L op b c = Inr args \<and> h c op args = Inr c'"
  proof (cases "rebase_targets L (op_action op)")
    case None
    then show ?thesis using h(2) by (simp add: argumentsOf_def)
  next
    case (Some f)
    obtain t where t: "f (op_args op) = Inr t" using target_total [OF h Some] by blast
    have e: "target_of t b = target_of t c" using un Some t by (auto simp: unchanged_since_def)
    have "h c op (as_signed (intended t)) = Inr c'"
      using h Some handlers_cong [OF signed_args [OF Some t], of L c op c']
      by (cases "op_action op") auto
    then show ?thesis using argumentsOf_unchanged [OF Some t e] h(2) by blast
  qed
  then show ?thesis using h(1) g by (auto simp: apply_operation_def)
qed

section \<open>Rebasing on the copy\<close>

text \<open>
  The community an operation is applied to is a copy that reads an empty avatar or banner as
  none. Rebasing a profile from the community on its copy can only drop such an empty image, so
  what results has the same copy.
\<close>

definition profile_snapshot :: "bool option \<Rightarrow> string option \<Rightarrow> string option \<Rightarrow> string \<Rightarrow> bool option \<Rightarrow> string \<Rightarrow> snapshot" where
  "profile_snapshot auto avatar banner description disc name =
     [(''autoJoinEnabled'', snapshot_optional SBool auto), (''avatar'', snapshot_optional SString avatar),
      (''banner'', snapshot_optional SString banner), (''description'', SString description),
      (''discoverable'', snapshot_optional SBool disc), (''name'', SString name)]"

lemma updateProfile_signed:
  "apply_updateProfile L c op (as_signed (profile_snapshot auto avatar banner description disc name)) =
     bindR (new_CommunityName L name) (\<lambda>name. bindR (new_CommunityDescription L description) (\<lambda>description.
     bindR (optional_value (new_CommunityAvatar L) avatar) (\<lambda>a. bindR (optional_value (new_CommunityBanner L) banner) (\<lambda>b.
       updateProfile c (op_author op) name description a b disc auto))))"
proof -
  let ?s = "profile_snapshot auto avatar banner description disc name"
  let ?a = "as_signed ?s"
  have d: "distinct (map fst ?s)" by (simp add: profile_snapshot_def)
  have m: "map_of ?a ''autoJoinEnabled'' = map_option JBool auto" "map_of ?a ''discoverable'' = map_option JBool disc"
    "map_of ?a ''avatar'' = map_option JString avatar" "map_of ?a ''banner'' = map_option JString banner"
    "map_of ?a ''description'' = Some (JString description)" "map_of ?a ''name'' = Some (JString name)"
    unfolding signed_entry [OF d] by (simp_all add: profile_snapshot_def optional_entry)
  have "fst ` set ?a \<subseteq> fst ` set ?s" by (force simp: as_signed_def)
  then have k: "fst ` set ?a \<subseteq> {''autoJoinEnabled'', ''avatar'', ''banner'', ''description'', ''discoverable'', ''name''}"
    by (simp add: profile_snapshot_def)
  have r: "argument_reader ?a [''description'', ''name''] [''autoJoinEnabled'', ''avatar'', ''banner'', ''discoverable''] = Inr ?a"
    using k m(5,6) by (auto simp: argument_reader_Inr)
  have s: "read_string ?a ''description'' = Inr description" "read_string ?a ''name'' = Inr name"
    "read_optionalString ?a ''avatar'' = Inr avatar" "read_optionalString ?a ''banner'' = Inr banner"
    "read_optionalBoolean ?a ''autoJoinEnabled'' = Inr auto" "read_optionalBoolean ?a ''discoverable'' = Inr disc"
    using m by (simp_all add: read_Inr)
  show ?thesis unfolding apply_updateProfile_def r bindR_simps s ..
qed

lemma merge_optional:
  "mergeValue (snapshot_optional SString x) (snapshot_optional SString y) (snapshot_optional SString z) =
     snapshot_optional SString (if x = y then z else x)"
  by (auto simp: snapshot_optional_def split: option.split)

lemma rebase_profile_copy:
  assumes "rebase_profile args = Inr t"
  obtains auto avatar banner description disc name where
    "intended t = profile_snapshot auto avatar banner description disc name"
    "filter (\<lambda>kv. snd kv \<noteq> SUndefined) (map (\<lambda>kv. (fst kv, mergeValue (snd kv)
       (snapshot_get (the (target_of t c)) (fst kv)) (snapshot_get (the (target_of t (copy_of c))) (fst kv)))) (intended t)) =
     filter (\<lambda>kv. snd kv \<noteq> SUndefined) (profile_snapshot auto
       (if avatar = profile_avatar (c_profile c) then drop_empty avatar else avatar)
       (if banner = profile_banner (c_profile c) then drop_empty banner else banner) description disc name)"
    "target_of t c \<noteq> None" "target_of t (copy_of c) \<noteq> None" "openWhenEmpty t = []"
proof -
  from assms obtain auto disc avatar banner description name where t:
    "t = \<lparr>intended = profile_snapshot auto avatar banner description disc name,
      target_of = (\<lambda>c. let p = toPrimitives c in Some
              [(''autoJoinEnabled'', if auto = None then SUndefined
                                     else snapshot_optional SBool (p_autoJoinEnabled p)),
               (''avatar'', snapshot_optional SString (p_avatar p)),
               (''banner'', snapshot_optional SString (p_banner p)),
               (''description'', SString (p_description p)),
               (''discoverable'', if disc = None then SUndefined
                                  else snapshot_optional SBool (p_discoverable p)),
               (''name'', SString (p_name p))]),
      openWhenEmpty = []\<rparr>"
    by (auto simp: rebase_profile_def profile_snapshot_def)
  have p: "p_avatar (toPrimitives c) = profile_avatar (c_profile c)" "p_banner (toPrimitives c) = profile_banner (c_profile c)"
    "p_avatar (toPrimitives (copy_of c)) = drop_empty (profile_avatar (c_profile c))"
    "p_banner (toPrimitives (copy_of c)) = drop_empty (profile_banner (c_profile c))"
    "p_description (toPrimitives (copy_of c)) = p_description (toPrimitives c)" "p_name (toPrimitives (copy_of c)) = p_name (toPrimitives c)"
    "p_autoJoinEnabled (toPrimitives (copy_of c)) = p_autoJoinEnabled (toPrimitives c)"
    "p_discoverable (toPrimitives (copy_of c)) = p_discoverable (toPrimitives c)"
    by (simp_all add: toPrimitives_def copy_of_def)
  let ?B = "snapshot_get (the (target_of t c))" and ?N = "snapshot_get (the (target_of t (copy_of c)))"
  have g: "?B ''avatar'' = snapshot_optional SString (profile_avatar (c_profile c))"
    "?B ''banner'' = snapshot_optional SString (profile_banner (c_profile c))"
    "?N ''avatar'' = snapshot_optional SString (drop_empty (profile_avatar (c_profile c)))"
    "?N ''banner'' = snapshot_optional SString (drop_empty (profile_banner (c_profile c)))"
    "?N ''autoJoinEnabled'' = ?B ''autoJoinEnabled''" "?N ''discoverable'' = ?B ''discoverable''"
    "?N ''description'' = ?B ''description''" "?N ''name'' = ?B ''name''"
    by (simp_all add: t snapshot_get_def p Let_def)
  have sub: "(if x = y then drop_empty y else x) = (if x = y then drop_empty x else x)" for x y by simp
  have i: "intended t = profile_snapshot auto avatar banner description disc name" "target_of t c \<noteq> None"
    "target_of t (copy_of c) \<noteq> None" "openWhenEmpty t = []" by (simp_all add: t Let_def)
  have m: "map (\<lambda>kv. (fst kv, mergeValue (snd kv) (?B (fst kv)) (?N (fst kv)))) (profile_snapshot auto avatar banner description disc name) =
    profile_snapshot auto (if avatar = profile_avatar (c_profile c) then drop_empty avatar else avatar)
       (if banner = profile_banner (c_profile c) then drop_empty banner else banner) description disc name"
    unfolding profile_snapshot_def list.map fst_conv snd_conv g mergeValue_same_base merge_optional sub ..
  show thesis by (rule that [OF i(1) _ i(2-4)]) (simp only: i(1) m)
qed

lemma updateProfile_copy:
  assumes "updateProfile c i name d a b disc auto = Inr c'" and "drop_empty a' = drop_empty a" "drop_empty b' = drop_empty b"
  shows "\<exists>c''. updateProfile c i name d a' b' disc auto = Inr c'' \<and> copy_of c'' = copy_of c'"
  using assms by (auto simp: updateProfile_def copy_of_def recordUpdated_def Let_def)

lemma optional_dropped:
  assumes "optional_value f v = Inr w"
  shows "\<exists>w'. optional_value f (drop_empty v) = Inr w' \<and> (w' = w \<or> v = Some [])"
  using assms by (auto simp: optional_value_def drop_empty_def split: option.splits)

lemma apply_rebased_copy:
  assumes v: "values_ok L c" and ap: "apply_operation L (copy_of c) op None = Inr c'"
  shows "\<exists>c''. apply_operation L (copy_of c) op (Some c) = Inr c'' \<and> copy_of c'' = copy_of c'"
proof (cases "op_action op = COMMUNITY_UPDATED")
  case False
  have "unchanged_since L op c (copy_of c)"
    unfolding unchanged_since_def
    by (cases "op_action op")
      (use False in \<open>auto simp: rebase_memberRoles_def rebase_channelPermissions_def rebase_role_def toPrimitives_def\<close>)
  then show ?thesis using rebase_unchanged [OF ap] by blast
next
  case True
  let ?c = "copy_of c"
  from ap True have up: "apply_updateProfile L ?c op (op_args op) = Inr c'"
    and g: "\<not> isGenesis op" "isCanonicalKey L (op_author op)" "op_communityId op = c_id c" "op_networkId op = c_network c"
    by (auto simp: apply_operation_def)
  obtain t where t: "rebase_profile (op_args op) = Inr t"
    using target_total [of L op "apply_updateProfile L" ?c c'] up True by auto
  from rebase_profile_copy [OF t, of c] obtain auto avatar banner description disc name where
    i: "intended t = profile_snapshot auto avatar banner description disc name"
    and f: "filter (\<lambda>kv. snd kv \<noteq> SUndefined) (map (\<lambda>kv. (fst kv, mergeValue (snd kv)
       (snapshot_get (the (target_of t c)) (fst kv)) (snapshot_get (the (target_of t ?c)) (fst kv)))) (intended t)) =
     filter (\<lambda>kv. snd kv \<noteq> SUndefined) (profile_snapshot auto
       (if avatar = profile_avatar (c_profile c) then drop_empty avatar else avatar)
       (if banner = profile_banner (c_profile c) then drop_empty banner else banner) description disc name)"
    and n: "target_of t c \<noteq> None" "target_of t ?c \<noteq> None" "openWhenEmpty t = []" by blast
  let ?a = "if avatar = profile_avatar (c_profile c) then drop_empty avatar else avatar"
  let ?b = "if banner = profile_banner (c_profile c) then drop_empty banner else banner"
  have args: "argumentsOf L op c ?c = Inr (as_signed (profile_snapshot auto ?a ?b description disc name))"
  proof -
    from n obtain x y where xy: "target_of t c = Some x" "target_of t ?c = Some y" by auto
    then show ?thesis using f n(3) by (simp add: argumentsOf_def True t as_signed_def Let_def)
  qed
  have "apply_updateProfile L ?c op (as_signed (profile_snapshot auto avatar banner description disc name)) = Inr c'"
    using handlers_cong(1) [OF signed_profile [OF t] up] unfolding i .
  then obtain nm d a b where r: "new_CommunityName L name = Inr nm" "new_CommunityDescription L description = Inr d"
    "optional_value (new_CommunityAvatar L) avatar = Inr a" "optional_value (new_CommunityBanner L) banner = Inr b"
    "updateProfile ?c (op_author op) nm d a b disc auto = Inr c'" by (auto simp: updateProfile_signed)
  have empty: "w = Some []" if "optional_value f v = Inr w" "v = x" "optional_values f x" "v = Some []" for f v w x
    using that by (auto simp: optional_value_def optional_values_def)
  have pv: "optional_values (new_CommunityAvatar L) (profile_avatar (c_profile c))"
    "optional_values (new_CommunityBanner L) (profile_banner (c_profile c))"
    using v by (simp_all add: values_ok_def profile_values_def)
  obtain a' where a': "optional_value (new_CommunityAvatar L) ?a = Inr a'" "drop_empty a' = drop_empty a"
    using optional_dropped [OF r(3)] r(3) empty [OF r(3) _ pv(1)] 
    by (cases "avatar = profile_avatar (c_profile c)") (auto simp: drop_empty_def optional_value_def)
  obtain b' where b': "optional_value (new_CommunityBanner L) ?b = Inr b'" "drop_empty b' = drop_empty b"
    using optional_dropped [OF r(4)] r(4) empty [OF r(4) _ pv(2)]
    by (cases "banner = profile_banner (c_profile c)") (auto simp: drop_empty_def optional_value_def)
  obtain c'' where c'': "updateProfile ?c (op_author op) nm d a' b' disc auto = Inr c''" "copy_of c'' = copy_of c'"
    using updateProfile_copy [OF r(5) a'(2) b'(2)] by blast
  have "apply_updateProfile L ?c op (as_signed (profile_snapshot auto ?a ?b description disc name)) = Inr c''"
    unfolding updateProfile_signed r(1,2) a'(1) b'(1) bindR_simps by (rule c''(1))
  then show ?thesis using c''(2) g args by (simp add: apply_operation_def True)
qed

end
