(* ===== verification/LedgerRefinement.thy ===== *)
theory LedgerRefinement
  imports Ledger CutsExtension RebaseIdentity
begin

text \<open>
  Why \<open>src/contexts/communities/domain/operations/CommunityOperationLedger.ts\<close> may remember the
  state after an operation instead of folding its history again: the state it computes from the
  remembered one is the fold of the causal past of the operation, the operation included.
\<close>

section \<open>Folding one more operation\<close>

lemma canonical_extend:
  assumes "canonical K P E us" and "set us = K - E" and "E \<subseteq> K" and "\<And>k. k \<in> E \<Longrightarrow> P k \<subseteq> E"
    and "h \<notin> K" and "\<And>k. k \<in> K \<Longrightarrow> P' k = P k" and "P' h \<subseteq> K"
    and last: "\<And>E'. E' \<subseteq> K \<Longrightarrow> (\<forall>k \<in> E'. P k \<subseteq> E') \<Longrightarrow> P' h \<subseteq> E' \<Longrightarrow> E' = K"
  shows "canonical (insert h K) P' E (us @ [h])"
  using assms(1-4)
proof (induction us arbitrary: E)
  case Nil
  then have "E = K" by auto
  then show ?case using assms(5,7) by auto
next
  case (Cons x us)
  have x: "x \<in> K - E" "P x \<subseteq> E" "canonical K P (insert x E) us" using Cons.prems(1) by simp_all
  have "x \<notin> set us" using canonical_subset [OF Cons.prems(1)] by simp
  then have "set us = K - insert x E" using Cons.prems(2) by auto
  then have "canonical (insert h K) P' (insert x E) (us @ [h])"
    using Cons.IH [OF x(3)] Cons.prems(3,4) x by auto
  moreover have "x \<le> k" if "k \<in> insert h K - E" "P' k \<subseteq> E" for k
  proof (cases "k = h")
    case True
    then have "E = K" using last [OF Cons.prems(3)] Cons.prems(4) that by blast
    then show ?thesis using x by simp
  next
    case False
    then show ?thesis using that Cons.prems(1) assms(6) [of k] by simp
  qed
  ultimately show ?case using x assms(6) [of x] by simp
qed

lemma orderOf_extend:
  assumes e: "extends xs op" and d: "distinct_parents (xs @ [op])" and r: "orderOf xs = Some xs"
  shows "orderOf (xs @ [op]) = Some (xs @ [op])"
proof -
  note c = extendsD(1,2) [OF e]
  have d1: "distinct_parents xs" using d by (simp add: distinct_parents_def)
  let ?K = "op_hash ` set xs" and ?P = "parents_in xs" and ?P' = "parents_in (xs @ [op])"
  have K: "{h. rooted ys h} = op_hash ` set ys" if "causal ys" for ys
    using causal_rooted [OF that] rooted_known by blast
  have "canonical ?K ?P {} (map op_hash xs)" using orderOf_canonical [OF d1] r K [OF c(2)] by simp
  then have "canonical (insert (op_hash op) ?K) ?P' {} (map op_hash xs @ [op_hash op])"
  proof (rule canonical_extend)
    show "op_hash op \<notin> ?K" by (rule extendsD(4) [OF e])
    show "?P' k = ?P k" if "k \<in> ?K" for k
      using that causal_parents_in [OF c(1)] causal_parents_in [OF c(2)] by auto
    have ph: "?P' (op_hash op) = set (op_parents op)" using causal_parents_in [OF c(1), of op] by simp
    show "?P' (op_hash op) \<subseteq> ?K" unfolding ph using causal_split [OF c(1), of xs op "[]"] by simp
    show "E' = ?K" if E': "E' \<subseteq> ?K" "\<forall>k \<in> E'. ?P k \<subseteq> E'" "?P' (op_hash op) \<subseteq> E'" for E'
    proof
      have "past (xs @ [op]) (op_parents op) \<subseteq> E'"
      proof (rule past_subset)
        show "set (op_parents op) \<subseteq> E'" using E'(3) ph by simp
        show "?P' h \<subseteq> E'" if "h \<in> E'" for h
          using that E'(1,2) \<open>\<And>k. k \<in> ?K \<Longrightarrow> ?P' k = ?P k\<close> by blast
      qed
      moreover have "op_hash x \<in> past (xs @ [op]) (op_parents op)" if "x \<in> set xs" for x
        using precedes_past [OF extendsD(3) [OF e that], of "op_parents op"] ph by simp
      ultimately show "?K \<subseteq> E'" by auto
    qed (rule E'(1))
  qed auto
  moreover obtain zs where z: "orderOf (xs @ [op]) = Some zs"
    "canonical (op_hash ` set (xs @ [op])) ?P' {} (map op_hash zs)"
    "\<forall>z \<in> set zs. map_of (knownOf (xs @ [op])) (op_hash z) = Some z"
    using orderOf_canonical [OF d] K [OF c(1)] by auto
  ultimately have m: "map op_hash zs = map op_hash (xs @ [op])"
    using canonical_unique [of "op_hash ` set (xs @ [op])" ?P' "{}" "map op_hash zs" "map op_hash (xs @ [op])"] by simp
  have "inj_on op_hash (set zs \<union> set (xs @ [op]))"
    using z(3) causal_known [OF c(1)] causal_inj [OF c(1)] by (intro inj_on_subset [OF causal_inj [OF c(1)]]) auto
  then show ?thesis using z(1) map_inj_on [OF m] by simp
qed

lemma pastOf_extend:
  assumes e: "extends xs op" and d: "distinct_parents (xs @ [op])"
  shows "x \<in> set xs \<Longrightarrow> fold_pastOf L (xs @ [op]) x = fold_pastOf L xs x"
    and "fold_pastOf L (xs @ [op]) op = foldOf L xs"
proof -
  note c = extendsD(1,2) [OF e]
  have d1: "distinct_parents xs" using d by (simp add: distinct_parents_def)
  note i = causal_inj [OF c(1)] causal_inj [OF c(2)]
  show "fold_pastOf L (xs @ [op]) x = fold_pastOf L xs x" if x: "x \<in> set xs"
  proof -
    obtain cl where cl: "closureOf xs (op_parents x) = Inr cl" "set cl \<subseteq> set xs"
      using closure_of_parents [OF c(2) x] by blast
    obtain cl' where cl': "closureOf (xs @ [op]) (op_parents x) = Inr cl'"
      using closure_of_parents [OF c(1), of x] x by auto
    have "foldOf L cl = foldOf L cl'"
      by (rule past_state_shared [OF i(2) i(1) d1 d cl(1) cl']) (use cl(2) in auto)
    then show ?thesis by (simp add: fold_pastOf_def cl(1) cl')
  qed
  obtain cl where cl: "closureOf (xs @ [op]) (op_parents op) = Inr cl" "set cl \<subseteq> set (xs @ [op]) - {op}"
    "op_hash ` set cl = past (xs @ [op]) (op_parents op)"
    using closure_of_parents [OF c(1), of op] by auto
  have ph: "parents_in (xs @ [op]) (op_hash op) = set (op_parents op)" using causal_parents_in [OF c(1), of op] by simp
  have "set cl = set xs"
  proof
    show "set cl \<subseteq> set xs" using cl(2) by auto
    show "set xs \<subseteq> set cl"
    proof
      fix x assume x: "x \<in> set xs"
      have "op_hash x \<in> op_hash ` set cl"
        unfolding cl(3) using precedes_past [OF extendsD(3) [OF e x], of "op_parents op"] ph by simp
      then show "x \<in> set cl" using cl(2) x i(1) by (auto dest: inj_onD)
    qed
  qed
  then have "foldOf L cl = foldOf L xs"
    using i(2) d1 by (intro foldOf_converges) (simp_all add: distinct_parents_def)
  then show "fold_pastOf L (xs @ [op]) op = foldOf L xs" by (simp add: fold_pastOf_def cl(1))
qed

lemma known_extend:
  assumes e: "extends xs op"
  shows "map_of (knownOf (xs @ [op])) s = (if s = op_hash op then Some op else map_of (knownOf xs) s)"
    and "map_of (knownOf xs) (op_hash op) = None"
proof -
  have "distinct (map op_hash (xs @ [op]))" using extendsD(1) [OF e] by (simp add: causal_def)
  then have k: "knownOf (xs @ [op]) = map (\<lambda>x. (op_hash x, x)) xs @ [(op_hash op, op)]" "knownOf xs = map (\<lambda>x. (op_hash x, x)) xs"
    by (simp_all add: knownOf_def jsmap_of_distinct comp_def)
  show n: "map_of (knownOf xs) (op_hash op) = None"
    using extendsD(4) [OF e] by (simp add: k map_of_eq_None_iff image_image)
  show "map_of (knownOf (xs @ [op])) s = (if s = op_hash op then Some op else map_of (knownOf xs) s)"
    using n by (auto simp: k map_add_def split: option.split)
qed

lemma fold_isVoid_iff:
  "fold_isVoid op C byHash \<longleftrightarrow> cuts_isVoid C op \<or> (isAdmission op \<and> (\<exists>s iv.
     map_of (op_args op) ''invitationId'' = Some (JString s) \<and> map_of byHash s = Some iv \<and> cuts_isVoid C iv))"
  by (auto simp: fold_isVoid_def split: option.split json.split)

lemma isVoid_lookup:
  assumes e: "extends xs op" and a: "agree xs op C C'"
  shows "map_of (knownOf (xs @ [op])) s = Some iv \<and> cuts_isVoid C' iv \<longleftrightarrow>
    map_of (knownOf xs) s = Some iv \<and> cuts_isVoid C iv"
proof (cases "s = op_hash op")
  case True
  then show ?thesis using known_extend [OF e] extended_not_void [OF e a] by auto
next
  case False
  then show ?thesis
    using known_extend(1) [OF e, of s] extended_isVoid [OF e a, of iv] causal_known [OF extendsD(2) [OF e], of s iv] by auto
qed

lemma isVoid_extend:
  "extends xs op \<Longrightarrow> agree xs op C C' \<Longrightarrow> x \<in> set xs \<Longrightarrow>
     fold_isVoid x C' (knownOf (xs @ [op])) = fold_isVoid x C (knownOf xs)"
  by (simp only: fold_isVoid_iff isVoid_lookup extended_isVoid)

lemma isVoid_new:
  assumes e: "extends xs op" and a: "agree xs op C C'"
    and iv: "\<And>s x. map_of (op_args op) ''invitationId'' = Some (JString s) \<Longrightarrow> isAdmission op \<Longrightarrow>
      map_of (knownOf xs) s = Some x \<Longrightarrow> \<not> cuts_isVoid C x"
  shows "\<not> fold_isVoid op C' (knownOf (xs @ [op]))"
  unfolding fold_isVoid_iff isVoid_lookup [OF e a] using extended_not_void [OF e a] iv by blast

lemma founder_extend: "\<not> isGenesis op \<Longrightarrow> founderOf (xs @ [op]) = founderOf xs"
proof -
  assume "\<not> isGenesis op"
  then have "find isGenesis (xs @ [op]) = find isGenesis xs" by (induction xs) auto
  then show ?thesis by (simp add: founderOf_def)
qed

lemma fold_loop_append:
  "fold_loop L f C b p (xs @ ys) s = bindR (fold_loop L f C b p xs s) (fold_loop L f C b p ys)"
proof (induction xs arbitrary: s)
  case (Cons x xs)
  show ?case by (cases "fold_step L f C b p x s") (simp_all add: Cons)
qed simp

lemma fold_loop_agree:
  assumes "\<And>x s. x \<in> set ys \<Longrightarrow> fold_step L f C b p x s = fold_step L f C' b' p' x s"
  shows "fold_loop L f C b p ys s = fold_loop L f C' b' p' ys s"
  using assms
proof (induction ys arbitrary: s)
  case (Cons y ys)
  have "fold_step L f C b p y s = fold_step L f C' b' p' y s" by (rule Cons.prems) simp
  moreover have "fold_loop L f C b p ys = fold_loop L f C' b' p' ys" using Cons by (intro ext) simp
  ultimately show ?case by simp
qed simp

lemma fold_step_agree:
  assumes "fold_isVoid x C' b' = fold_isVoid x C b" and "p' x = p x"
  shows "fold_step L f C' b' p' x s = fold_step L f C b p x s"
proof -
  have "fold_try L p' c x conc = fold_try L p c x conc" for c conc
    using assms(2) by (simp add: fold_try_def fold_baseOf_def)
  then show ?thesis using assms(1) by (simp only: fold_step_def)
qed

section \<open>What an operation takes\<close>

text \<open>
  An identity argument is spelled as the identity it names. The code compares the argument of a
  cut with authors as it stands, and everything else with the identity it names.
\<close>

definition spelled :: "lib \<Rightarrow> operation \<Rightarrow> bool" where
  "spelled L op \<longleftrightarrow> (\<forall>s i. map_of (op_args op) ''identityId'' = Some (JString s) \<longrightarrow> new_IdentityId L s = Inr i \<longrightarrow> i = s)"

lemma op_member_spelled:
  assumes "spelled L op" and "op_member L op = Inr m"
  shows "map_of (op_args op) ''identityId'' = Some (JString m)"
  using assms by (auto simp: op_member_def spelled_def canonical_identity_def read_Inr argument_reader_Inr)

lemma memberHas_other:
  assumes "\<And>rid. findRole rs' rid = findRole rs rid" and "roleIdsFor rs' i = roleIdsFor rs i"
  shows "roles_memberHasPermission rs' i p = roles_memberHasPermission rs i p"
  using assms by (simp add: roles_memberHasPermission_def)

lemma find_update_first_other:
  "(\<And>x. p x \<Longrightarrow> \<not> q x) \<Longrightarrow> (\<And>x. q (f x) = q x) \<Longrightarrow> find q (update_first p f xs) = find q xs"
  by (induction xs) auto

lemma holds_removed:
  "j \<noteq> i \<Longrightarrow> roles_memberHasPermission (roles_removeMember rs i) j p = roles_memberHasPermission rs j p"
  by (rule memberHas_other) (simp_all add: removeMember_conv findRole_def roleIdsFor_def find_remove_first_other)

lemma holds_assigned:
  assumes "roles_assign rs i rids = Inr rs'" and "j \<noteq> i"
  shows "roles_memberHasPermission rs' j p = roles_memberHasPermission rs j p"
  using assms(1)
proof (cases rule: roles_assign_cases)
  case extended
  have "find (\<lambda>a. assigned_identity a = j) (xs @ [\<lparr>assigned_identity = i, assigned_roles = r\<rparr>]) =
      find (\<lambda>a. assigned_identity a = j) xs" for xs r using assms(2) by (induction xs) auto
  then show ?thesis by (intro memberHas_other) (simp_all add: extended findRole_def roleIdsFor_def)
next
  case replaced
  then show ?thesis using assms(2)
    by (intro memberHas_other) (simp_all add: findRole_def roleIdsFor_def find_update_first_other)
qed

lemma holds_added:
  "roles_memberHasPermission rs j p \<Longrightarrow> roles_memberHasPermission (roles_add rs name ps rid) j p"
proof -
  have "findRole (roles_add rs name ps rid) x = (case findRole rs x of Some r \<Rightarrow> Some r
      | None \<Rightarrow> if x = rid then Some (role_create name ps rid) else None)" for x
  proof -
    have "find q (xs @ [y]) = (case find q xs of Some r \<Rightarrow> Some r | None \<Rightarrow> if q y then Some y else None)" for q xs and y :: role
      by (induction xs) auto
    then show ?thesis by (auto simp: findRole_def roles_add_def role_create_def split: option.split)
  qed
  then have "findRole (roles_add rs name ps rid) x = Some r" if "findRole rs x = Some r" for x r by (simp add: that)
  moreover have "roleIdsFor (roles_add rs name ps rid) j = roleIdsFor rs j" by (simp add: roleIdsFor_def roles_add_def)
  ultimately show "roles_memberHasPermission rs j p \<Longrightarrow> roles_memberHasPermission (roles_add rs name ps rid) j p"
    by (fastforce simp: roles_memberHasPermission_def list_ex_iff split: option.splits)
qed

text \<open>Who loses a permission or its membership by a step of the aggregate.\<close>

definition loses :: "community \<Rightarrow> community \<Rightarrow> identity_id \<Rightarrow> bool" where
  "loses c c' i \<longleftrightarrow> i \<in> set (members (c_membership c)) \<and>
     (i \<notin> set (members (c_membership c')) \<or> (\<exists>p. holds c i p \<and> \<not> holds c' i p))"

lemma kick_loses: "kickMember c a m = Inr c' \<Longrightarrow> loses c c' i \<Longrightarrow> i = m"
  by (rule ccontr)
    (auto simp: kickMember_def loses_def holds_def hasPermission_def members_remove holds_removed in_set_remove1 Let_def)

lemma ban_loses: "banMember c a m = Inr c' \<Longrightarrow> loses c c' i \<Longrightarrow> i = m"
  by (rule ccontr)
    (auto simp: banMember_def loses_def holds_def hasPermission_def members_ban member_roles_ban holds_removed
      in_set_remove1 Let_def split: if_splits)

lemma leave_loses: "leave c m = Inr c' \<Longrightarrow> loses c c' i \<Longrightarrow> i = m"
  by (rule ccontr)
    (auto simp: leave_def loses_def holds_def hasPermission_def members_remove holds_removed in_set_remove1 Let_def)

lemma assign_loses: "assignRoles c a m rids = Inr c' \<Longrightarrow> loses c c' i \<Longrightarrow> i = m"
  by (rule ccontr)
    (auto simp: assignRoles_def membership_assignRoles_def loses_def holds_def hasPermission_def holds_assigned Let_def)

lemma add_loses: "\<not> loses c (c\<lparr>c_membership := membership_addRole (c_membership c) name ps rid\<rparr>) i"
  by (auto simp: loses_def holds_def hasPermission_def membership_addRole_def holds_added)

lemma unchanged_loses: "c_membership c' = c_membership c \<Longrightarrow> c_owner c' = c_owner c \<Longrightarrow> \<not> loses c c' i"
  by (auto simp: loses_def holds_def hasPermission_def)

lemma join_loses: "joinAs c a m meth = Inr c' \<Longrightarrow> \<not> loses c c' i"
proof
  assume "joinAs c a m meth = Inr c'" and l: "loses c c' i"
  then have j: "join c m = Inr c'" by (simp add: joinAs_join)
  then have "member_roles (c_membership c') = member_roles (c_membership c)" "c_owner c' = c_owner c"
    by (auto simp: join_def Let_def membership_add_def split: if_splits)
  then show False using l members_after_join [OF j] by (auto simp: loses_def holds_def hasPermission_def)
qed

text \<open>Only a cut takes something, and unless it changes a role only from the member it names.\<close>

lemma acts_loses:
  assumes "acts a x c c'" and "loses c c' i"
  shows "cut_needs x \<noteq> None \<and> (x = ROLE_UPDATED \<or> x = ROLE_DELETED \<or> (x = MEMBER_LEFT \<and> i = a) \<or>
    (x \<in> {MEMBER_KICKED, MEMBER_BANNED, MEMBER_ROLES_UPDATED}))"
  using assms
proof (cases rule: acts.cases)
  case (acts_leave)
  then show ?thesis using leave_loses assms(2) by simp
next
  case (acts_join m meth)
  then show ?thesis using join_loses assms(2) by blast
next
  case (acts_addRole name ps rid)
  then have "c' = recordUpdated (c\<lparr>c_membership := membership_addRole (c_membership c) name ps rid\<rparr>)"
    by (auto simp: addRole_def Let_def)
  then have "loses c (c\<lparr>c_membership := membership_addRole (c_membership c) name ps rid\<rparr>) i"
    using assms(2) by (auto simp: loses_def holds_def)
  then show ?thesis using add_loses by blast
next
  case (acts_unban m)
  then have "members (c_membership c') = members (c_membership c)" "member_roles (c_membership c') = member_roles (c_membership c)"
    "c_owner c' = c_owner c" by (auto simp: unbanMember_def unban_conv Let_def)
  then show ?thesis using assms(2) by (auto simp: loses_def holds_def hasPermission_def)
qed (use assms(2) unchanged_loses [of c' c i] in \<open>auto simp: addTextChannel_def addVoiceChannel_def deleteChannel_def
    updateChannelPermissions_def renameChannel_def updateProfile_def Let_def split: if_splits\<close>)

definition cut_target :: "operation \<Rightarrow> json option" where
  "cut_target op = (if op_action op = MEMBER_LEFT then Some (JString (op_author op)) else map_of (op_args op) ''identityId'')"

lemma apply_loses:
  assumes sp: "spelled L op" and ap: "apply_operation L c op None = Inr c'" and l: "loses c c' i"
  shows "isCutting op \<and> (op_action op = ROLE_UPDATED \<or> op_action op = ROLE_DELETED \<or> cut_target op = Some (JString i))"
proof -
  have a: "cut_needs (op_action op) \<noteq> None \<and> (op_action op = ROLE_UPDATED \<or> op_action op = ROLE_DELETED \<or>
      (op_action op = MEMBER_LEFT \<and> i = op_author op) \<or>
      (op_action op \<in> {MEMBER_KICKED, MEMBER_BANNED, MEMBER_ROLES_UPDATED}))"
    by (rule acts_loses [OF apply_operation_acts [OF ap] l])
  have t: "map_of (op_args op) ''identityId'' = Some (JString i)"
    if "op_action op \<in> {MEMBER_KICKED, MEMBER_BANNED, MEMBER_ROLES_UPDATED}"
    using that
  proof (elim insertE emptyE)
    assume x: "op_action op = MEMBER_KICKED"
    then obtain m where "op_member L op = Inr m" "kickMember c (op_author op) m = Inr c'" using ap by (auto simp: apply_operation_def)
    then show ?thesis using op_member_spelled [OF sp] kick_loses l by blast
  next
    assume x: "op_action op = MEMBER_BANNED"
    then obtain m where "op_member L op = Inr m" "banMember c (op_author op) m = Inr c'" using ap by (auto simp: apply_operation_def)
    then show ?thesis using op_member_spelled [OF sp] ban_loses l by blast
  next
    assume x: "op_action op = MEMBER_ROLES_UPDATED"
    then have "apply_assignRoles L c op (op_args op) = Inr c'" using ap by (auto simp: apply_operation_def)
    then obtain s m rids where "map_of (op_args op) ''identityId'' = Some (JString s)" "new_IdentityId L s = Inr m"
      "assignRoles c (op_author op) m rids = Inr c'"
      by (auto simp: apply_assignRoles_def canonical_identity_def read_Inr argument_reader_Inr)
    then show ?thesis using sp assign_loses l by (metis spelled_def)
  qed
  then show ?thesis using a by (auto simp: isCutting_def cut_target_def)
qed

lemma taken_loses: "takesInvitesOf (takenBetween c c') i \<Longrightarrow> loses c c' i"
  using taken_permission [of CREATE_INVITES i c c'] taken_membership [of i c c']
  unfolding takesInvitesOf_def loses_def by blast

lemma cut_matters_target:
  assumes e: "extends xs op" and s: "seen xs C" and k: "k \<in> set xs" "op_action k = INVITATION_CREATED"
    and cut: "isCutting op" "op_action op = ROLE_UPDATED \<or> op_action op = ROLE_DELETED \<or> cut_target op = Some (JString (op_author k))"
  shows "cut_matters (widened xs op C) op"
proof -
  have "k \<in> set (get_list (cuts_authored (widened xs op C)) (op_author k))"
    using k(1) s by (simp add: seen_authored seen_def authoredOf_list)
  moreover have "needOf k \<noteq> None" using k(2) by (simp add: needOf_def isCutting_def)
  moreover have "\<not> isAncestor (cuts_ancestry (widened xs op C)) (op_hash op) (op_hash k)"
    using ancestry_extended(3) [OF e] by simp
  ultimately have "list_ex (\<lambda>other. needOf other \<noteq> None \<and>
      (areConcurrent (cuts_ancestry (widened xs op C)) (op_hash op) (op_hash other) \<or>
       (op_action other = INVITATION_CREATED \<and> \<not> isAncestor (cuts_ancestry (widened xs op C)) (op_hash op) (op_hash other))))
      (get_list (cuts_authored (widened xs op C)) (op_author k))" using k(2) unfolding list_ex_iff by blast
  then show ?thesis using cut unfolding cut_matters_def Let_def cut_target_def by (auto split: if_splits)
qed

section \<open>The invitations\<close>

lemma set_update_subset: "set (AList.update k v m) \<subseteq> insert (k, v) (set m)"
  by (induction m) auto

text \<open>Every invitation of a fold is one an operation of the set issued and no cut voids.\<close>

definition issued :: "operation list \<Rightarrow> cuts \<Rightarrow> invitations \<Rightarrow> bool" where
  "issued xs C invs \<longleftrightarrow> (\<forall>(k, iv) \<in> set (byId invs). inv_id (inv_attributes iv) = k \<and>
     (\<exists>x \<in> set xs. op_hash x = k \<and> op_action x = INVITATION_CREATED \<and> inv_issuer (inv_attributes iv) = op_author x \<and>
        \<not> cuts_isVoid C x))"

lemma issued_with:
  assumes "issued xs C invs" and "x \<in> set xs" "op_hash x = inv_id (inv_attributes iv)" "op_action x = INVITATION_CREATED"
    "inv_issuer (inv_attributes iv) = op_author x" "\<not> cuts_isVoid C x"
  shows "issued xs C (invitations_with invs iv)"
  unfolding issued_def
proof (rule ballI)
  fix e assume "e \<in> set (byId (invitations_with invs iv))"
  then have "e = (inv_id (inv_attributes iv), iv) \<or> e \<in> set (byId invs)"
    using set_update_subset by (fastforce simp: invitations_with_def Let_def)
  then show "case e of (k, iv) \<Rightarrow> inv_id (inv_attributes iv) = k \<and> (\<exists>x \<in> set xs. op_hash x = k \<and>
      op_action x = INVITATION_CREATED \<and> inv_issuer (inv_attributes iv) = op_author x \<and> \<not> cuts_isVoid C x)"
    using assms by (auto simp: issued_def)
qed

lemma issued_lookup:
  assumes "issued xs C invs" and "map_of (byId invs) k = Some iv"
  obtains x where "x \<in> set xs" "op_hash x = k" "inv_id (inv_attributes iv) = k" "op_action x = INVITATION_CREATED"
    "inv_issuer (inv_attributes iv) = op_author x" "\<not> cuts_isVoid C x"
  using assms by (auto simp: issued_def dest!: map_of_SomeD)

lemma issued_after:
  assumes i: "issued xs C invs" and op: "op \<in> set xs" and aft: "invitations_after L invs op applied = Inr invs'"
    and v: "applied \<Longrightarrow> \<not> cuts_isVoid C op"
  shows "issued xs C invs'"
proof -
  have upd: "issued xs C (invitations_with invs iv')"
    if "map_of (byId invs) k = Some iv" "inv_attributes iv' = inv_attributes iv" for k iv iv'
  proof -
    from i that(1) obtain x where "x \<in> set xs" "op_hash x = k" "inv_id (inv_attributes iv) = k" "op_action x = INVITATION_CREATED"
      "inv_issuer (inv_attributes iv) = op_author x" "\<not> cuts_isVoid C x" by (rule issued_lookup)
    then show ?thesis using that(2) by (intro issued_with [OF i]) auto
  qed
  show ?thesis
  proof (cases "applied \<and> op_action op = INVITATION_CREATED")
    case True
    then obtain iv where iv: "invitation_fromOperation L op = Inr iv" "invs' = invitations_with invs iv"
      using aft by (auto simp: invitations_after_def)
    show ?thesis unfolding iv(2)
      by (rule issued_with [OF i op]) (use True v invitation_fromOperation_attributes [OF iv(1)] in auto)
  next
    case False
    have m: "invitationOf invs op = Some iv \<Longrightarrow> \<exists>k. map_of (byId invs) k = Some iv" for iv
      by (auto simp: invitationOf_def split: option.splits json.splits)
    show ?thesis using aft False i upd m
      by (auto simp: invitations_after_def split: option.splits if_splits json.splits)
  qed
qed

lemma fold_loop_issued:
  assumes "fold_loop L f C b p ys s = Inr s'" and "set ys \<subseteq> set xs" and "issued xs C (f_invitations s)"
  shows "issued xs C (f_invitations s')"
  using assms
proof (induction ys arbitrary: s)
  case (Cons y ys)
  then obtain s1 where s1: "fold_step L f C b p y s = Inr s1" "fold_loop L f C b p ys s1 = Inr s'" by auto
  have "issued xs C (f_invitations s1)"
    using s1(1)
  proof (cases rule: fold_step_cases)
    case (skipped invs)
    then show ?thesis using issued_after [OF Cons.prems(3) _ skipped(2)] Cons.prems(2) by simp
  next
    case (applied base c invs)
    then show ?thesis using issued_after [OF Cons.prems(3) _ applied(3)] Cons.prems(2) by (simp add: fold_isVoid_iff)
  qed
  then show ?case using Cons.IH [OF s1(2)] Cons.prems(2) by simp
qed simp

text \<open>Cutting what only the terms of an invitation decide commutes with what happens to it.\<close>

definition on_terms :: "(invitation \<Rightarrow> bool) \<Rightarrow> bool" where
  "on_terms p \<longleftrightarrow> (\<forall>iv iv'. inv_attributes iv = inv_attributes iv' \<longrightarrow> p iv = p iv')"

lemma on_termsD: "on_terms p \<Longrightarrow> inv_attributes iv' = inv_attributes iv \<Longrightarrow> p iv' = p iv"
  unfolding on_terms_def by blast

lemma cutsIssuer_on_terms: "on_terms (cutsIssuerOf C)"
  by (simp add: on_terms_def cutsIssuerOf_def)

lemma update_map_keyed: "AList.update k (g v) (map (\<lambda>(i, v). (i, g v)) m) = map (\<lambda>(i, v). (i, g v)) (AList.update k v m)"
  by (induction m) auto

lemma cutWhere_byId: "byId (cutWhere invs p) = map (\<lambda>(i, iv). (i, if p iv then inv_cut iv else iv)) (byId invs)"
  by (simp add: cutWhere_def)

lemma map_of_keyed: "map_of (map (\<lambda>(i, v). (i, g v)) m) k = map_option g (map_of m k)"
  by (induction m) auto

lemma cutWhere_with:
  "cutWhere (invitations_with invs iv) p = invitations_with (cutWhere invs p) (if p iv then inv_cut iv else iv)"
proof -
  let ?g = "\<lambda>iv. if p iv then inv_cut iv else iv"
  have "inv_attributes (?g iv) = inv_attributes iv" by simp
  then show ?thesis
    by (auto simp: invitations_with_def Let_def cutWhere_def update_map_keyed [where g = ?g, symmetric])
qed

lemma cut_commutes: "inv_cut (inv_revoke iv) = inv_revoke (inv_cut iv)" "inv_cut (withJoiner iv j) = withJoiner (inv_cut iv) j"
  by (simp_all add: inv_cut_def inv_revoke_def withJoiner_def)

lemma cutWhere_after:
  assumes p: "on_terms p" and new: "\<And>iv. op_action op = INVITATION_CREATED \<Longrightarrow> invitation_fromOperation L op = Inr iv \<Longrightarrow> \<not> p iv"
    and aft: "invitations_after L (cutWhere invs p) op applied = Inr invs'"
  shows "\<exists>G. invitations_after L invs op applied = Inr G \<and> invs' = cutWhere G p"
proof (cases "applied \<and> op_action op = INVITATION_CREATED")
  case True
  then obtain iv where iv: "invitation_fromOperation L op = Inr iv" "invs' = invitations_with (cutWhere invs p) iv"
    using aft by (auto simp: invitations_after_def)
  then show ?thesis using True new [OF _ iv(1)] by (simp add: invitations_after_def cutWhere_with)
next
  case False
  have of: "invitationOf (cutWhere invs p) op = map_option (\<lambda>iv. if p iv then inv_cut iv else iv) (invitationOf invs op)"
    unfolding invitationOf_def cutWhere_byId map_of_keyed [where g = "\<lambda>iv. if p iv then inv_cut iv else iv"]
    by (simp split: option.split json.split)
  have w: "cutWhere (invitations_with invs (h iv)) p = invitations_with (cutWhere invs p) (h (if p iv then inv_cut iv else iv))"
    if "inv_attributes (h iv) = inv_attributes iv" "inv_cut (h iv) = h (inv_cut iv)" for h iv
    unfolding cutWhere_with on_termsD [OF p that(1)] using that(2) by simp
  show ?thesis
  proof (cases "invitationOf invs op")
    case None
    then show ?thesis using aft False of by (auto simp: invitations_after_def)
  next
    case (Some iv)
    let ?iv = "if p iv then inv_cut iv else iv"
    have s: "invitationOf (cutWhere invs p) op = Some ?iv" using of Some by simp
    show ?thesis using aft False unfolding invitations_after_def s Some option.case
      by (auto simp: w [of inv_revoke] w [of "\<lambda>iv. withJoiner iv j" for j] cut_commutes
          split: option.splits json.splits if_splits)
  qed
qed

lemma cutWhere_both:
  assumes "on_terms q"
  shows "cutWhere (cutWhere invs p) q = cutWhere invs (\<lambda>iv. p iv \<or> q iv)"
proof -
  have "q (inv_cut iv) = q iv" for iv by (rule on_termsD [OF assms]) simp
  moreover have "inv_cut (inv_cut iv) = inv_cut iv" for iv by (simp add: inv_cut_def)
  ultimately have "map (\<lambda>(i, iv). (i, if q iv then inv_cut iv else iv)) (map (\<lambda>(i, iv). (i, if p iv then inv_cut iv else iv)) (byId invs)) =
      map (\<lambda>(i, iv). (i, if p iv \<or> q iv then inv_cut iv else iv)) (byId invs)" by auto
  then have "byId (cutWhere (cutWhere invs p) q) = byId (cutWhere invs (\<lambda>iv. p iv \<or> q iv))" unfolding cutWhere_byId .
  moreover have "idsByKey (cutWhere i r) = idsByKey i" for i r by (simp add: cutWhere_def)
  ultimately show ?thesis by (intro invitations.equality) simp_all
qed

lemma cutWhere_cong: "(\<And>k iv. (k, iv) \<in> set (byId invs) \<Longrightarrow> p iv = q iv) \<Longrightarrow> cutWhere invs p = cutWhere invs q"
proof -
  assume "\<And>k iv. (k, iv) \<in> set (byId invs) \<Longrightarrow> p iv = q iv"
  then have "map (\<lambda>(i, iv). (i, if p iv then inv_cut iv else iv)) (byId invs) =
      map (\<lambda>(i, iv). (i, if q iv then inv_cut iv else iv)) (byId invs)" by (intro map_cong) auto
  then show ?thesis by (simp only: cutWhere_def)
qed

lemma cutWhere_none: "cutWhere invs (\<lambda>iv. False) = invs"
  by (simp add: cutWhere_def case_prod_beta)

section \<open>The state after an operation that comes last\<close>

lemma fold_loop_signed:
  "fold_loop L f C b p ys s = Inr s' \<Longrightarrow>
     signedBy (f_signed s') i = signedBy (f_signed s) i + length (filter (\<lambda>x. op_author x = i) ys)"
proof (induction ys arbitrary: s)
  case (Cons y ys)
  then obtain s1 where s1: "fold_step L f C b p y s = Inr s1" "fold_loop L f C b p ys s1 = Inr s'" by auto
  have "signedBy (f_signed s1) i = signedBy (f_signed s) i + (if op_author y = i then 1 else 0)"
    using s1(1) by (cases rule: fold_step_cases) (auto simp: withinQuota_fst)
  then show ?case using Cons.IH [OF s1(2)] by simp
qed simp

lemma takenBetween_copy [simp]: "takenBetween (copy_of c) c' = takenBetween c c'"
  by (simp add: takenBetween_def holds_def)

text \<open>The two folds, step by step.\<close>

lemma foldOf_parts:
  assumes "foldOf L xs = Inr st" and "orderOf xs = Some xs"
  obtains C s where
    "new_AuthorityCuts xs (new_Ancestry xs) (\<lambda>op. bindR (fold_pastOf L xs op) (\<lambda>pst. throws_of (takenBy L (st_community pst) op))) = Inr C"
    "fold_loop L (founderOf xs) C (knownOf xs) (fold_pastOf L xs) xs fold_init = Inr s"
    "st = \<lparr>st_community = f_community s, st_deleted = f_deleted s, st_frontier = frontierOf xs,
       st_invitations = cutWhere (f_invitations s) (cutsIssuerOf C), st_skipped = f_skipped s\<rparr>"
  using assms that by (auto simp: foldOf_unfold [of L xs])

lemma fold_prefix:
  assumes e: "extends xs op" and d: "distinct_parents (xs @ [op])" and ng: "\<not> isGenesis op"
    and a: "agree xs op C C'"
  shows "fold_loop L (founderOf (xs @ [op])) C' (knownOf (xs @ [op])) (fold_pastOf L (xs @ [op])) xs s =
    fold_loop L (founderOf xs) C (knownOf xs) (fold_pastOf L xs) xs s"
  unfolding founder_extend [OF ng]
  by (intro fold_loop_agree fold_step_agree isVoid_extend [OF e a] pastOf_extend(1) [OF e d])

text \<open>What the last operation does to the state, when nothing stops it.\<close>

lemma fold_step_last:
  assumes v: "values_ok L c" and c: "f_community s = Some c" and nd: "\<not> f_deleted s"
    and q: "snd (withinQuota founder (f_signed s) op)" and nv: "\<not> fold_isVoid op C b"
    and p: "p op = Inr st" "st_community st = Some c" and ng: "\<not> isGenesis op" and cid: "op_communityId op = c_id c"
    and ap: "apply_operation L (copy_of c) op None = Inr c'" and aft: "invitations_after L (f_invitations s) op True = Inr G"
  shows "\<exists>s' c''. fold_step L founder C b p op s = Inr s' \<and> f_community s' = Some c'' \<and> copy_of c'' = copy_of c' \<and>
    f_deleted s' = (\<not> hasMembers (c_membership c')) \<and> f_invitations s' = G"
proof -
  obtain heads conc where h: "advance (f_heads s) op = (heads, conc)" by fastforce
  obtain signed within where w: "withinQuota founder (f_signed s) op = (signed, within)" by fastforce
  obtain base where base: "fold_baseOf L p op conc = Inr base" "base = None \<or> base = Some c"
    by (cases "conc \<and> rebases L op") (auto simp: fold_baseOf_def p)
  have "\<exists>c''. apply_operation L (copy_of c) op base = Inr c'' \<and> copy_of c'' = copy_of c'"
    using base(2) ap apply_rebased_copy [OF v ap] by auto
  then obtain c'' where c'': "apply_operation L (copy_of c) op base = Inr c''" "copy_of c'' = copy_of c'" by blast
  have "fold_next L (Some c) op base = Inr c''"
    by (simp add: fold_next_def ng cid community_roundtrip [OF v] c''(1))
  then have t: "fold_try L p (f_community s) op conc = Inr (Some (pullDomainEvents c''))"
    by (simp add: fold_try_def base(1) c)
  have m: "c_membership c'' = c_membership c'" using c''(2) by (metis copy_of_simps(4))
  have "copy_of (pullDomainEvents c'') = copy_of c'" using c''(2) by (simp add: copy_of_def pullDomainEvents_def)
  moreover have "within" using q w by simp
  ultimately show ?thesis using nd nv
    by (simp add: fold_step_def h w t aft Let_def m)
qed

text \<open>What the new operation takes matters to every invitation it takes the issuer of.\<close>

lemma newly_taken_invites:
  assumes e: "extends xs op" and a: "agree xs op C C'" and sp: "spelled L op"
    and f: "f op = throws_of (takenBy L (Some c) op)" and v: "values_ok L c"
    and ap: "apply_operation L (copy_of c) op None = Inr c'" and k: "k \<in> set xs" "op_action k = INVITATION_CREATED"
  shows "(\<exists>ks. newly_taken f xs op C = Some ks \<and> takesInvitesOf ks (op_author k)) \<longleftrightarrow>
    takesInvitesOf (takenBetween (copy_of c) c') (op_author k)"
proof -
  have tb: "takenBy L (Some c) op = Inr (if isCutting op then takenBetween c c' else [])"
    by (simp add: takenBy_def community_roundtrip [OF v] ap)
  have empty: "\<not> takesInvitesOf [] i" for i by (simp add: takesInvitesOf_def)
  have s: "seen xs C" using a by (simp add: agree_def)
  show ?thesis
  proof
    assume "\<exists>ks. newly_taken f xs op C = Some ks \<and> takesInvitesOf ks (op_author k)"
    then show "takesInvitesOf (takenBetween (copy_of c) c') (op_author k)"
      using empty by (auto simp: newly_taken_def f tb split: if_splits)
  next
    assume t: "takesInvitesOf (takenBetween (copy_of c) c') (op_author k)"
    have l: "isCutting op \<and> (op_action op = ROLE_UPDATED \<or> op_action op = ROLE_DELETED \<or> cut_target op = Some (JString (op_author k)))"
      by (rule apply_loses [OF sp ap taken_loses [OF t]])
    then have "cut_matters (widened xs op C) op" by (intro cut_matters_target [OF e s k]) simp_all
    then show "\<exists>ks. newly_taken f xs op C = Some ks \<and> takesInvitesOf ks (op_author k)"
      using t empty l by (auto simp: newly_taken_def f tb)
  qed
qed

definition cut_by :: "community \<Rightarrow> community \<Rightarrow> invitations \<Rightarrow> invitations" where
  "cut_by c c' invs = cutWhere invs (\<lambda>iv. takesInvitesOf (takenBetween c c') (inv_issuer (inv_attributes iv)))"

lemma invitations_extend:
  assumes e: "extends xs op" and a: "agree xs op C C'" and rec: "recorded xs op C' (newly_taken f xs op C)" and sp: "spelled L op"
    and f: "f op = throws_of (takenBy L (Some c) op)" and v: "values_ok L c"
    and ap: "apply_operation L (copy_of c) op None = Inr c'"
    and F: "issued xs C F" and aft: "invitations_after L (cutWhere F (cutsIssuerOf C)) op True = Inr invs"
  shows "\<exists>G. invitations_after L F op True = Inr G \<and> cutWhere G (cutsIssuerOf C') = cut_by (copy_of c) c' invs"
proof -
  let ?H = "op_hash ` set xs"
  let ?p = "\<lambda>iv. inv_id (inv_attributes iv) \<in> ?H \<and> cutsIssuerOf C iv"
  let ?q = "\<lambda>iv. takesInvitesOf (takenBetween (copy_of c) c') (inv_issuer (inv_attributes iv))"
  have op: "op_hash op \<notin> ?H" by (rule extendsD(4) [OF e])
  have "cutWhere F (cutsIssuerOf C) = cutWhere F ?p"
  proof (rule cutWhere_cong)
    fix k iv assume "(k, iv) \<in> set (byId F)"
    then obtain x where "x \<in> set xs" "op_hash x = inv_id (inv_attributes iv)" using F by (auto simp: issued_def)
    then have "inv_id (inv_attributes iv) \<in> ?H" by (metis image_eqI)
    then show "cutsIssuerOf C iv = ?p iv" by simp
  qed
  moreover have "on_terms ?p" using cutsIssuer_on_terms [of C] unfolding on_terms_def by metis
  ultimately obtain G where G: "invitations_after L F op True = Inr G" "invs = cutWhere G ?p"
    using cutWhere_after [of ?p op L F True invs] aft op invitation_fromOperation_attributes by auto
  have noCut: "\<not> isCutting op" if "op_action op = INVITATION_CREATED" using that by (simp add: isCutting_def)
  have part: "cutsIssuerOf C' iv = (?p iv \<or> ?q iv)" if iv: "(k, iv) \<in> set (byId G)" for k iv
  proof -
    have "issued (xs @ [op]) C' G"
    proof (rule issued_after [OF _ _ G(1)])
      show "issued (xs @ [op]) C' F" using F extended_isVoid [OF e a] by (fastforce simp: issued_def)
    qed (use extended_not_void [OF e a] in auto)
    note this [unfolded issued_def, THEN bspec, OF iv]
    then obtain x where x: "x \<in> set (xs @ [op])" "op_hash x = inv_id (inv_attributes iv)" "op_action x = INVITATION_CREATED"
      "inv_issuer (inv_attributes iv) = op_author x" by auto
    show ?thesis
    proof (cases "x = op")
      case True
      have none: "newly_taken f xs op C = None"
        using noCut x(3) True by (auto simp: newly_taken_def cut_matters_def)
      have "\<not> ?q iv" using apply_loses [OF sp ap] taken_loses noCut x(3) True by blast
      then show ?thesis
        using extended_own_invitation [OF e a, of iv] rec none x(2) True op by auto
    next
      case False
      then have xs: "x \<in> set xs" using x(1) by simp
      then have i: "inv_id (inv_attributes iv) \<in> ?H" using x(2) by (metis image_eqI)
      show ?thesis
        unfolding extended_cutsIssuer [OF e a rec i] x(4) newly_taken_invites [where f = f, OF e a sp f v ap xs x(3)] using i by simp
    qed
  qed
  have q: "on_terms ?q" by (simp add: on_terms_def)
  have "cut_by (copy_of c) c' invs = cutWhere G (\<lambda>iv. ?p iv \<or> ?q iv)"
    unfolding cut_by_def G(2) by (rule cutWhere_both [OF q])
  also have "\<dots> = cutWhere G (cutsIssuerOf C')" by (rule cutWhere_cong) (simp add: part)
  finally show ?thesis using G(1) by simp
qed

lemma fold_extend:
  assumes ok: "lib_ok L" and ops: "operations_ok L (xs @ [op])" and e: "extends xs op" and r: "orderOf xs = Some xs"
    and st: "foldOf L xs = Inr st" "st_community st = Some c" "\<not> st_deleted st"
    and sp: "spelled L op" and ng: "\<not> isGenesis op" and cid: "op_communityId op = c_id c"
    and ap: "apply_operation L (copy_of c) op None = Inr c'"
    and q: "founderOf xs = Some (op_author op) \<or> \<not> isAuthorQuotaReached (length (filter (\<lambda>x. op_author x = op_author op) xs))"
    and inv: "isAdmission op \<Longrightarrow> invitationOf (st_invitations st) op \<noteq> None"
    and aft: "invitations_after L (st_invitations st) op True = Inr invs"
  shows "\<exists>st' c''. foldOf L (xs @ [op]) = Inr st' \<and> st_community st' = Some c'' \<and> copy_of c'' = copy_of c' \<and>
    st_deleted st' = (\<not> hasMembers (c_membership c')) \<and> st_invitations st' = cut_by (copy_of c) c' invs"
proof -
  note d = operations_ok_distinct [OF ops]
  have okx: "operations_ok L xs" using ops by (simp add: operations_ok_def)
  obtain st0 where "foldOf L xs = Inr st0" "state_ok L st0" using foldOf_total [OF ok okx] by blast
  then have v: "values_ok L c" using st by (auto simp: state_ok_def community_ok_def)
  obtain st' where st': "foldOf L (xs @ [op]) = Inr st'" using foldOf_total [OF ok ops] by blast
  note r' = orderOf_extend [OF e d r]
  let ?f = "\<lambda>xs op. bindR (fold_pastOf L xs op) (\<lambda>pst. throws_of (takenBy L (st_community pst) op))"
  obtain C s where C: "new_AuthorityCuts xs (new_Ancestry xs) (?f xs) = Inr C"
    and s: "fold_loop L (founderOf xs) C (knownOf xs) (fold_pastOf L xs) xs fold_init = Inr s"
    and std: "st = \<lparr>st_community = f_community s, st_deleted = f_deleted s, st_frontier = frontierOf xs,
       st_invitations = cutWhere (f_invitations s) (cutsIssuerOf C), st_skipped = f_skipped s\<rparr>"
    by (rule foldOf_parts [OF st(1) r])
  obtain C' s' where C': "new_AuthorityCuts (xs @ [op]) (new_Ancestry (xs @ [op])) (?f (xs @ [op])) = Inr C'"
    and s': "fold_loop L (founderOf (xs @ [op])) C' (knownOf (xs @ [op])) (fold_pastOf L (xs @ [op])) (xs @ [op]) fold_init = Inr s'"
    and std': "st' = \<lparr>st_community = f_community s', st_deleted = f_deleted s', st_frontier = frontierOf (xs @ [op]),
       st_invitations = cutWhere (f_invitations s') (cutsIssuerOf C'), st_skipped = f_skipped s'\<rparr>"
    by (rule foldOf_parts [OF st' r'])
  have past: "fold_pastOf L (xs @ [op]) op = Inr st" using pastOf_extend(2) [OF e d] st(1) by simp
  have "agree xs op C C' \<and> recorded xs op C' (newly_taken (?f (xs @ [op])) xs op C)"
    by (rule new_cuts_agree [OF e C C']) (simp add: pastOf_extend(1) [OF e d])
  then have a: "agree xs op C C'" and rec: "recorded xs op C' (newly_taken (?f (xs @ [op])) xs op C)" by blast+
  have F: "issued xs C (f_invitations s)"
    by (rule fold_loop_issued [OF s subset_refl]) (simp add: issued_def fold_init_def EMPTY_def)
  have ft: "?f (xs @ [op]) op = throws_of (takenBy L (Some c) op)" using past st(2) by simp
  have aft': "invitations_after L (cutWhere (f_invitations s) (cutsIssuerOf C)) op True = Inr invs" using aft std by simp
  from invitations_extend [where f = "?f (xs @ [op])", OF e a rec sp ft v ap F aft'] obtain G where
    G: "invitations_after L (f_invitations s) op True = Inr G" "cutWhere G (cutsIssuerOf C') = cut_by (copy_of c) c' invs" by blast
  have last: "fold_step L (founderOf (xs @ [op])) C' (knownOf (xs @ [op])) (fold_pastOf L (xs @ [op])) op s = Inr s'"
    using s' unfolding fold_loop_append fold_prefix [OF e d ng a] s by simp
  have within: "snd (withinQuota (founderOf (xs @ [op])) (f_signed s) op)"
    using q fold_loop_signed [OF s, of "op_author op"]
    by (auto simp: withinQuota_def founder_extend [OF ng] Let_def fold_init_def signedBy_def)
  have nv: "\<not> fold_isVoid op C' (knownOf (xs @ [op]))"
  proof (rule isVoid_new [OF e a])
    fix i x assume i: "map_of (op_args op) ''invitationId'' = Some (JString i)" "isAdmission op" "map_of (knownOf xs) i = Some x"
    have "map_of (byId (st_invitations st)) i \<noteq> None" using inv [OF i(2)] i(1) by (simp add: invitationOf_def)
    then obtain iv where "map_of (byId (f_invitations s)) i = Some iv"
      unfolding std community_state.simps cutWhere_byId map_of_keyed [where g = "\<lambda>iv. if cutsIssuerOf C iv then inv_cut iv else iv"] by auto
    then obtain y where y: "y \<in> set xs" "op_hash y = i" "\<not> cuts_isVoid C y" by (rule issued_lookup [OF F])
    have "x \<in> set xs" "op_hash x = i" using causal_known [OF extendsD(2) [OF e]] i(3) by auto
    then have "x = y" using y causal_inj [OF extendsD(2) [OF e]] by (auto dest: inj_onD)
    then show "\<not> cuts_isVoid C x" using y by simp
  qed
  have fc: "f_community s = Some c" "\<not> f_deleted s" using st(2,3) by (simp_all add: std)
  from fold_step_last [where p = "fold_pastOf L (xs @ [op])", OF v fc within nv past st(2) ng cid ap G(1)] last obtain c'' where
    "f_community s' = Some c''" "copy_of c'' = copy_of c'" "f_deleted s' = (\<not> hasMembers (c_membership c'))" "f_invitations s' = G"
    by auto
  then show ?thesis using st' G(2) by (simp add: std')
qed

section \<open>What the ledger remembers\<close>

lemma fold_genesis:
  assumes ok: "lib_ok L" and ops: "operations_ok L [op]" and g: "isGenesis op" "op_parents op = []" and c: "apply_create L op = Inr c"
  shows "\<exists>st c'. foldOf L [op] = Inr st \<and> st_community st = Some c' \<and> copy_of c' = copy_of c \<and>
    st_deleted st = (\<not> hasMembers (c_membership c)) \<and> st_invitations st = EMPTY"
proof -
  have "causal ([] @ [op])" by (rule causal_snoc) (simp_all add: causal_def g(2))
  then have e: "extends [] op" by (simp add: extends_def)
  have d: "distinct_parents ([] @ [op])" using operations_ok_distinct [OF ops] by simp
  have r0: "orderOf [] = Some []" by (code_simp)
  have r: "orderOf [op] = Some [op]" using orderOf_extend [OF e d r0] by simp
  obtain st where st: "foldOf L [op] = Inr st" using foldOf_total [OF ok ops] by blast
  obtain C s where C: "new_AuthorityCuts [op] (new_Ancestry [op]) (\<lambda>x. bindR (fold_pastOf L [op] x) (\<lambda>pst. throws_of (takenBy L (st_community pst) x))) = Inr C"
    and s: "fold_loop L (founderOf [op]) C (knownOf [op]) (fold_pastOf L [op]) [op] fold_init = Inr s"
    and std: "st = \<lparr>st_community = f_community s, st_deleted = f_deleted s, st_frontier = frontierOf [op],
       st_invitations = cutWhere (f_invitations s) (cutsIssuerOf C), st_skipped = f_skipped s\<rparr>"
    by (rule foldOf_parts [OF st r])
  have a: "op_action op = COMMUNITY_CREATED" using g(1) by (simp add: isGenesis_def action_isGenesis_def)
  have nm: "\<not> cut_matters D op" for D using a by (simp add: cut_matters_def isCutting_def)
  have nv: "\<not> fold_isVoid op D b" for D b
    using a by (simp add: fold_isVoid_iff cuts_isVoid_def needOf_def isCutting_def isAdmission_def)
  have w: "snd (withinQuota (founderOf [op]) n op)" for n using g(1) by (simp add: withinQuota_def founderOf_def Let_def)
  have "\<not> rebases L op" using a by (simp add: rebases_def)
  then have t: "fold_try L p None op conc = Inr (Some (pullDomainEvents c))" for p conc
    using g(1) c by (simp add: fold_try_def fold_baseOf_def fold_next_def)
  have i: "invitations_after L EMPTY op True = Inr EMPTY"
    using a by (simp add: invitations_after_def invitationOf_def EMPTY_def split: option.split json.split)
  obtain heads conc where h: "advance [] op = (heads, conc)" by fastforce
  obtain signed where sg: "withinQuota (founderOf [op]) [] op = (signed, True)" using w [of "[]"] by (cases "withinQuota (founderOf [op]) [] op") simp
  have "f_community s = Some (pullDomainEvents c) \<and> f_deleted s = (\<not> hasMembers (c_membership c)) \<and> f_invitations s = EMPTY"
    using s nv by (auto simp: fold_step_def fold_init_def h sg t i Let_def)
  moreover have "cutWhere EMPTY p = EMPTY" for p by (simp add: cutWhere_def EMPTY_def)
  moreover have "copy_of (pullDomainEvents c) = copy_of c" by (simp add: copy_of_def pullDomainEvents_def)
  ultimately show ?thesis using st by (simp add: std)
qed

definition remembers :: "lib \<Rightarrow> ledger \<Rightarrow> bool" where
  "remembers L led \<longleftrightarrow> (\<forall>h P. map_of (led_states led) h = Some P \<longrightarrow>
     (\<exists>cl st c. closureOf (led_known led) [h] = Inr cl \<and> foldOf L cl = Inr st \<and> st_community st = Some c \<and>
        \<not> st_deleted st \<and> past_invitations P = st_invitations st \<and> fromPrimitives L (past_community P) = Inr (copy_of c)))"

text \<open>The operations of one community: its geneses have one author.\<close>

definition one_founder :: "operation list \<Rightarrow> bool" where
  "one_founder ops \<longleftrightarrow> (\<forall>g \<in> set ops. \<forall>g' \<in> set ops. isGenesis g \<longrightarrow> isGenesis g' \<longrightarrow> op_author g = op_author g')"

lemma distinct_single: "set xs = {x} \<Longrightarrow> distinct xs \<Longrightarrow> xs = [x]"
proof (cases xs)
  case (Cons y ys)
  moreover assume "set xs = {x}" "distinct xs"
  ultimately show ?thesis by (cases ys) auto
qed simp

lemma past_single:
  assumes "set ps = parents_in zs h"
  shows "past zs [h] = insert h (past zs ps)"
proof
  have "h' = h \<or> h' \<in> past zs ps" if "(causes zs)\<^sup>*\<^sup>* h' h" for h'
    using that by (cases rule: rtranclp.cases) (auto simp: past_def causes_def assms)
  then show "past zs [h] \<subseteq> insert h (past zs ps)" by (auto simp: past_def)
  have "past zs ps \<subseteq> past zs [h]" using past_closed [of h zs "[h]"] past_parents [of "[h]" zs] assms by (intro past_mono) auto
  then show "insert h (past zs ps) \<subseteq> past zs [h]" using past_parents [of "[h]" zs] by auto
qed

lemma one_founder_subset: "one_founder ys \<Longrightarrow> set xs \<subseteq> set ys \<Longrightarrow> one_founder xs"
  unfolding one_founder_def by blast

lemma closure_extends:
  assumes c: "causal (ops @ [op])" and d: "distinct_parents (ops @ [op])" and cl: "closureOf ops (op_parents op) = Inr cl"
    and r: "orderOf cl = Some xs"
  shows "extends xs op \<and> set xs = set cl \<and> orderOf xs = Some xs \<and>
    (\<exists>cl'. closureOf (ops @ [op]) [op_hash op] = Inr cl' \<and> set cl' = set (xs @ [op]))"
proof -
  note co = causal_prefix [OF c]
  have sub: "set cl \<subseteq> set ops" using closureOf_spec(2) [OF cl] causal_known [OF co] by blast
  have dcl: "distinct_parents cl" "distinct_parents ops" using d sub by (auto simp: distinct_parents_def)
  have ocl: "inj_on op_hash (set cl)" using causal_inj [OF co] sub by (rule inj_on_subset)
  have xs: "set xs \<subseteq> set cl" "causal xs" "orderOf xs = Some xs"
    using orderOf_subset [OF dcl(1) r] orderOf_causal [OF dcl(1) r] orderOf_idem [OF dcl(1) r] by auto
  have hp: "set (op_parents op) \<subseteq> op_hash ` set ops" using causal_split [OF c, of ops op "[]"] by simp
  have pc: "past ops (op_parents op) = op_hash ` set cl" by (rule closureOf_spec(3) [OF cl])
  have mem: "x \<in> set cl \<longleftrightarrow> x \<in> set ops \<and> op_hash x \<in> past ops (op_parents op)" for x
    using closureOf_spec(2) [OF cl, of x] causal_known [OF co, of "op_hash x" x] by auto
  have rooted: "rooted cl (op_hash x)" if x: "x \<in> set cl" for x
  proof -
    have "x \<in> set ops" using x mem by blast
    obtain us vs where s: "ops = us @ x # vs" using \<open>x \<in> set ops\<close> by (meson split_list)
    then show ?thesis using x
    proof (induction "length us" arbitrary: x us vs rule: less_induct)
      case less
      have "rooted cl p" if p: "p \<in> set (op_parents x)" for p
      proof -
        have "p \<in> op_hash ` set us" using causal_split [OF co less.prems(1)] p by blast
        then obtain y where y: "y \<in> set us" "op_hash y = p" by auto
        then obtain us1 us2 where us: "us = us1 @ y # us2" by (meson split_list)
        have "p \<in> past ops (op_parents op)"
        proof -
          have "op_hash x \<in> past ops (op_parents op)" using less.prems(2) mem by blast
          moreover have "parents_in ops (op_hash x) = set (op_parents x)" using causal_parents_in [OF co, of x] less.prems(2) mem by blast
          ultimately show ?thesis using past_closed p by blast
        qed
        then have "y \<in> set cl" using mem y us less.prems(1) by auto
        then show ?thesis using less.hyps [of us1 y "us2 @ x # vs"] us less.prems(1) y(2) by simp
      qed
      moreover have "map_of (knownOf cl) (op_hash x) = Some x" using known_iff [OF ocl] less.prems(2) by blast
      ultimately show ?case using rootedI by blast
    qed
  qed
  have all: "set xs = set cl"
  proof
    show "set cl \<subseteq> set xs" using rooted orderOf_members [OF dcl(1) r] known_iff [OF ocl] by auto
  qed (rule xs(1))
  have notin: "op_hash op \<notin> op_hash ` set xs"
    using c sub all by (auto simp: causal_def)
  have "set (op_parents op) \<subseteq> op_hash ` set xs" unfolding all using past_parents [of "op_parents op" ops] pc by simp
  then have cx: "causal (xs @ [op])" using xs(2) notin by (intro causal_snoc)
  have ix: "inj_on op_hash (set (xs @ [op]))" by (rule causal_inj [OF cx])
  have p: "past (xs @ [op]) (op_parents op) = past ops (op_parents op)"
    by (rule past_cong [OF causal_inj [OF co] ix cl _ refl]) (use all in auto)
  have ph: "parents_in (xs @ [op]) (op_hash op) = set (op_parents op)" "parents_in (ops @ [op]) (op_hash op) = set (op_parents op)"
    using causal_parents_in [OF cx, of op] causal_parents_in [OF c, of op] by simp_all
  have "precedes (xs @ [op]) (op_hash x) (op_hash op)" if "x \<in> set xs" for x
    by (rule past_precedes [of _ _ "op_parents op"]) (use that all pc p ph in auto)
  then have e: "extends xs op" using cx by (simp add: extends_def)
  obtain cl' where cl': "closureOf (ops @ [op]) [op_hash op] = Inr cl'"
    using closureOf_total [OF c, of "[op_hash op]"] by auto
  have "past (ops @ [op]) [op_hash op] = insert (op_hash op) (past ops (op_parents op))"
    using past_single [of "op_parents op" "ops @ [op]" "op_hash op"] ph(2) past_prefix [OF c hp] by simp
  then have "z \<in> set cl' \<longleftrightarrow> z \<in> set (ops @ [op]) \<and> (op_hash z = op_hash op \<or> op_hash z \<in> past ops (op_parents op))" for z
    using closureOf_spec(2) [OF cl', of z] causal_known [OF c, of "op_hash z" z] by auto
  moreover have "op_hash z \<noteq> op_hash op" if "z \<in> set ops" for z
  proof -
    have "op_hash op \<notin> op_hash ` set ops" using c by (simp add: causal_def)
    then show ?thesis using that by (metis image_eqI)
  qed
  moreover have "op_hash op \<notin> past ops (op_parents op)" using pc notin all by simp
  ultimately have "set cl' = set (xs @ [op])" using mem all by auto
  then show ?thesis using e all xs(3) cl' by blast
qed

text \<open>The past the ledger works with, remembered or folded.\<close>

definition folded_past :: "lib \<Rightarrow> ledger \<Rightarrow> string list \<Rightarrow> community_past \<Rightarrow> operation list \<Rightarrow> community_state \<Rightarrow> community \<Rightarrow> bool" where
  "folded_past L led parents P cl st c \<longleftrightarrow>
     closureOf (led_known led) parents = Inr cl \<and> foldOf L cl = Inr st \<and> st_community st = Some c \<and>
     \<not> st_deleted st \<and> past_invitations P = st_invitations st \<and> fromPrimitives L (past_community P) = Inr (copy_of c)"

lemma operations_values:
  assumes ok: "lib_ok L" and ops: "operations_ok L cl" and st: "foldOf L cl = Inr st" "st_community st = Some c"
  shows "values_ok L c"
  using foldOf_total [OF ok ops] st by (auto simp: state_ok_def community_ok_def)

lemma led_pastOf_folded:
  assumes ok: "lib_ok L" and ops: "operations_ok L (led_known led)" and inv: "ledger_inv led" and r: "remembers L led"
    and P: "led_pastOf L led parents = Inr P"
  shows "\<exists>cl st c. folded_past L led parents P cl st c"
proof (cases "if length parents = 1 then map_of (led_states led) (hd parents) else None")
  case None
  with P obtain cl st c where h: "closureOf (led_known led) parents = Inr cl" "foldOf L cl = Inr st" "st_community st = Some c"
    "\<not> st_deleted st" "P = \<lparr>past_community = toPrimitives c, past_invitations = st_invitations st\<rparr>"
    by (auto simp: led_pastOf_def fold_operations_def split: option.splits if_splits)
  have c: "causal (led_known led)" using inv by (simp add: ledger_inv_def)
  have "set cl \<subseteq> set (led_known led)" using closureOf_spec(2) [OF h(1)] causal_known [OF c] by blast
  then have "values_ok L c" using operations_values [OF ok operations_ok_subset [OF ops] h(2,3)] by blast
  then have "fromPrimitives L (toPrimitives c) = Inr (copy_of c)" by (rule community_roundtrip)
  then show ?thesis using h by (auto simp: folded_past_def)
next
  case (Some Q)
  then have "length parents = 1" "map_of (led_states led) (hd parents) = Some Q" by (auto split: if_splits)
  moreover then obtain p where "parents = [p]" by (cases parents) auto
  moreover have "P = Q" using P Some by (simp add: led_pastOf_def)
  ultimately show ?thesis using r by (auto simp: remembers_def folded_past_def)
qed

lemma applyToPast_folded:
  assumes ok: "lib_ok L" and ops: "operations_ok L (led_known led @ [op])" and c: "causal (led_known led @ [op])"
    and inv: "ledger_inv led" and r: "remembers L led" and sp: "spelled L op" and of: "one_founder (led_known led)"
    and ng: "\<not> isGenesis op" and q: "assertWithinQuota led op = Inr ()" and ap: "applyToPast L led op = Inr (community, invs)"
  shows "\<exists>cl st c. closureOf (led_known led @ [op]) [op_hash op] = Inr cl \<and> foldOf L cl = Inr st \<and> st_community st = Some c \<and>
    copy_of c = copy_of community \<and> st_deleted st = (\<not> hasMembers (c_membership community)) \<and> st_invitations st = invs \<and>
    values_ok L community"
proof -
  let ?K = "led_known led"
  have opsK: "operations_ok L ?K" using ops by (simp add: operations_ok_def)
  from ap obtain P before invs' where a: "led_pastOf L led (op_parents op) = Inr P"
    "fromPrimitives L (past_community P) = Inr before" "op_communityId op = c_id before"
    "apply_operation L before op None = Inr community" "assertInvitationRules L op before (past_invitations P) = Inr ()"
    "invitations_after L (past_invitations P) op True = Inr invs'"
    "invs = (if takenBetween before community = [] then invs'
       else cutWhere invs' (\<lambda>iv. takesInvitesOf (takenBetween before community) (inv_issuer (inv_attributes iv))))"
    by (rule applyToPast_cases)
  obtain cl st c where f: "closureOf ?K (op_parents op) = Inr cl" "foldOf L cl = Inr st" "st_community st = Some c"
    "\<not> st_deleted st" "past_invitations P = st_invitations st" "before = copy_of c"
    using led_pastOf_folded [OF ok opsK inv r a(1)] a(2) by (auto simp: folded_past_def)
  have dK: "distinct_parents (?K @ [op])" by (rule operations_ok_distinct [OF ops])
  have sub: "set cl \<subseteq> set ?K" using closureOf_spec(2) [OF f(1)] causal_known [OF causal_prefix [OF c]] by blast
  have okcl: "operations_ok L cl" by (rule operations_ok_subset [OF opsK sub])
  obtain xs where xs: "orderOf cl = Some xs" using orderOf_canonical [OF operations_ok_distinct [OF okcl]] by blast
  from closure_extends [OF c dK f(1) xs] obtain cl' where e: "extends xs op" and set_xs: "set xs = set cl"
    and rx: "orderOf xs = Some xs" and cl': "closureOf (?K @ [op]) [op_hash op] = Inr cl'" "set cl' = set (xs @ [op])" by blast
  have okx: "operations_ok L (xs @ [op])" using okcl ops set_xs by (simp add: operations_ok_def)
  have fx: "foldOf L xs = Inr st" using foldOf_ordered [OF operations_ok_distinct [OF okcl] xs] f(2) by simp
  have v: "values_ok L c" by (rule operations_values [OF ok okcl f(2,3)])
  have len: "length (filter Q xs) = length (filter Q cl)" for Q
  proof -
    have "distinct xs" "distinct cl"
      using extendsD(2) [OF e] closureOf_spec(1) [OF f(1)] by (auto simp: causal_def distinct_map)
    then have "distinct (filter Q xs)" "distinct (filter Q cl)" by simp_all
    then show ?thesis using set_xs by (simp flip: distinct_card)
  qed
  have quota: "founderOf xs = Some (op_author op) \<or> \<not> isAuthorQuotaReached (length (filter (\<lambda>x. op_author x = op_author op) xs))"
  proof (cases "isAuthorQuotaReached (signedBy (led_signed led) (op_author op))")
    case True
    then have "assertAuthorQuota cl op = Inr ()" using q by (simp add: assertWithinQuota_def f(1))
    then consider g where "find isGenesis cl = Some g" "op_author g = op_author op"
      | "\<not> isAuthorQuotaReached (length (filter (\<lambda>x. op_author x = op_author op) cl))"
      by (auto simp: assertAuthorQuota_def Let_def split: option.splits if_splits)
    then show ?thesis
    proof cases
      case 1
      then have g: "g \<in> set cl" "isGenesis g" by (auto simp: find_Some_iff)
      then obtain g' where g': "find isGenesis xs = Some g'" using set_xs by (cases "find isGenesis xs") (auto simp: find_None_iff)
      then have "g' \<in> set xs" "isGenesis g'" by (auto simp: find_Some_iff)
      then have "op_author g' = op_author g" using of g sub set_xs unfolding one_founder_def by blast
      then show ?thesis using 1 by (simp add: founderOf_def g')
    next
      case 2
      then show ?thesis by (simp add: len)
    qed
  next
    case False
    have "length (filter (\<lambda>x. op_author x = op_author op) xs) \<le> length (filter (\<lambda>x. op_author x = op_author op) ?K)"
    proof -
      have "distinct ?K" "distinct xs" using causal_prefix [OF c] extendsD(2) [OF e] by (auto simp: causal_def distinct_map)
      then show ?thesis using sub set_xs by (simp flip: distinct_card) (auto intro!: card_mono)
    qed
    moreover have "signedBy (led_signed led) (op_author op) = length (filter (\<lambda>x. op_author x = op_author op) ?K)"
      using inv by (simp add: ledger_inv_def)
    ultimately show ?thesis using False by (simp add: isAuthorQuotaReached_def)
  qed
  have adm: "invitationOf (st_invitations st) op \<noteq> None" if "isAdmission op"
    using a(5) that f(5) by (auto simp: assertInvitationRules_def Let_def ledger_assertAdmits_def isAdmission_def split: if_splits option.splits)
  have h: "op_communityId op = c_id c" "apply_operation L (copy_of c) op None = Inr community"
    "invitations_after L (st_invitations st) op True = Inr invs'" using a(3,4,6) f(5,6) by simp_all
  have "\<exists>st' c''. foldOf L (xs @ [op]) = Inr st' \<and> st_community st' = Some c'' \<and> copy_of c'' = copy_of community \<and>
    st_deleted st' = (\<not> hasMembers (c_membership community)) \<and> st_invitations st' = cut_by (copy_of c) community invs'"
    by (rule fold_extend [OF ok okx e rx fx f(3,4) sp ng h(1,2) quota adm h(3)])
  then obtain st' c'' where
    n: "foldOf L (xs @ [op]) = Inr st'" "st_community st' = Some c''" "copy_of c'' = copy_of community"
    "st_deleted st' = (\<not> hasMembers (c_membership community))" "st_invitations st' = cut_by before community invs'"
    using f(6) by auto
  have "foldOf L cl' = foldOf L (xs @ [op])"
  proof (rule foldOf_converges)
    show "set cl' = set (xs @ [op])" by (rule cl'(2))
    show "inj_on op_hash (set cl')" unfolding cl'(2) by (rule causal_inj [OF extendsD(1) [OF e]])
    show "distinct_parents cl'" using operations_ok_distinct [OF okx] by (simp add: distinct_parents_def cl'(2))
  qed
  moreover have "cut_by before community invs' = invs"
    using cutWhere_none [of invs'] by (simp add: a(7) cut_by_def takesInvitesOf_def)
  moreover have "values_ok L community"
    using apply_operation_values [OF ok _ a(4)] f(6) v ops by (simp add: operations_ok_def)
  ultimately show ?thesis using n cl'(1) by auto
qed

lemma applyToPast_forget:
  assumes "\<And>P. led_pastOf L led (op_parents op) = Inr P \<Longrightarrow> \<exists>Q. led_pastOf L led' (op_parents op) = Inr Q \<and>
      past_invitations Q = past_invitations P \<and> fromPrimitives L (past_community Q) = fromPrimitives L (past_community P)"
    and "\<And>e. led_pastOf L led (op_parents op) = Inl e \<Longrightarrow> led_pastOf L led' (op_parents op) = Inl e"
  shows "applyToPast L led' op = applyToPast L led op"
proof (cases "led_pastOf L led (op_parents op)")
  case (Inl e)
  then show ?thesis using assms(2) [OF Inl] by (simp add: applyToPast_def)
next
  case (Inr P)
  from assms(1) [OF Inr] obtain Q where "led_pastOf L led' (op_parents op) = Inr Q"
    "past_invitations Q = past_invitations P" "fromPrimitives L (past_community Q) = fromPrimitives L (past_community P)" by blast
  then show ?thesis using Inr by (simp add: applyToPast_def)
qed

definition forget :: "ledger \<Rightarrow> ledger" where
  "forget led = led\<lparr>led_states := []\<rparr>"

lemma forget_simps [simp]:
  "led_operations (forget led) = led_operations led" "led_signed (forget led) = led_signed led" "led_states (forget led) = []"
  "led_known (forget led) = led_known led" "led_has (forget led) op = led_has led op"
  "assertWithinQuota (forget led) op = assertWithinQuota led op"
  by (simp_all add: forget_def led_known_def led_has_def assertWithinQuota_def)

lemma pastOf_forget:
  assumes ok: "lib_ok L" and ops: "operations_ok L (led_known led)" and inv: "ledger_inv led" and r: "remembers L led"
  shows "led_pastOf L led parents = Inr P \<Longrightarrow> \<exists>Q. led_pastOf L (forget led) parents = Inr Q \<and>
      past_invitations Q = past_invitations P \<and> fromPrimitives L (past_community Q) = fromPrimitives L (past_community P)"
    and "led_pastOf L led parents = Inl e \<Longrightarrow> led_pastOf L (forget led) parents = Inl e"
proof -
  have none: "(if length parents = 1 then map_of (led_states (forget led)) (hd parents) else None) = None" by simp
  show "\<exists>Q. led_pastOf L (forget led) parents = Inr Q \<and> past_invitations Q = past_invitations P \<and>
      fromPrimitives L (past_community Q) = fromPrimitives L (past_community P)" if P: "led_pastOf L led parents = Inr P"
  proof -
    from led_pastOf_folded [OF ok ops inv r P] obtain cl st c where f: "folded_past L led parents P cl st c" by blast
    have c: "causal (led_known led)" using inv by (simp add: ledger_inv_def)
    have "set cl \<subseteq> set (led_known led)"
      using f closureOf_spec(2) [of "led_known led" parents cl] causal_known [OF c] unfolding folded_past_def by blast
    then have "values_ok L c" using f operations_values [OF ok operations_ok_subset [OF ops]] unfolding folded_past_def by blast
    then have "fromPrimitives L (toPrimitives c) = Inr (copy_of c)" by (rule community_roundtrip)
    then show ?thesis using f unfolding folded_past_def
      by (intro exI [of _ "\<lparr>past_community = toPrimitives c, past_invitations = st_invitations st\<rparr>"])
        (simp add: led_pastOf_def fold_operations_def)
  qed
  show "led_pastOf L (forget led) parents = Inl e" if P: "led_pastOf L led parents = Inl e"
  proof -
    have "(if length parents = 1 then map_of (led_states led) (hd parents) else None) = None"
      using P by (cases "if length parents = 1 then map_of (led_states led) (hd parents) else None") (auto simp: led_pastOf_def)
    then show ?thesis using P unfolding led_pastOf_def by simp
  qed
qed

lemma closure_later:
  assumes c: "causal (ops @ [op])" and d: "distinct_parents (ops @ [op])" and cl: "closureOf ops ps = Inr cl"
  shows "\<exists>cl'. closureOf (ops @ [op]) ps = Inr cl' \<and> foldOf L cl' = foldOf L cl"
proof -
  note co = causal_prefix [OF c]
  have sub: "set cl \<subseteq> set ops" using closureOf_spec(2) [OF cl] causal_known [OF co] by blast
  have "set ps \<subseteq> past ops ps" by (rule past_parents)
  also have "\<dots> = op_hash ` set cl" by (rule closureOf_spec(3) [OF cl])
  finally have "set ps \<subseteq> op_hash ` set (ops @ [op])" using sub by auto
  then obtain cl' where cl': "closureOf (ops @ [op]) ps = Inr cl'" using closureOf_total [OF c] by blast
  have "foldOf L cl = foldOf L cl'"
    by (rule past_state_shared [OF causal_inj [OF co] causal_inj [OF c] _ d cl cl'])
      (use d sub in \<open>auto simp: distinct_parents_def\<close>)
  then show ?thesis using cl' by auto
qed

lemma remember_lookup:
  assumes "map_of (led_states (remember h0 c invs led)) h = Some P" and d: "distinct (map fst (led_states led))"
    and new: "h0 \<notin> fst ` set (led_states led)"
  shows "(h = h0 \<and> P = \<lparr>past_community = toPrimitives c, past_invitations = invs\<rparr> \<and> hasMembers (c_membership c)) \<or>
    (h \<noteq> h0 \<and> map_of (led_states led) h = Some P)"
proof (cases "hasMembers (c_membership c)")
  case False
  then have "map_of (led_states led) h = Some P" using assms(1) by (simp add: remember_def)
  then show ?thesis using new by (metis map_of_eq_None_iff option.distinct(1))
next
  case True
  let ?u = "AList.update h0 \<lparr>past_community = toPrimitives c, past_invitations = invs\<rparr> (led_states led)"
  have du: "distinct (map fst ?u)" using d by (rule distinct_update)
  have "map_of (tl ?u) h = Some P \<Longrightarrow> map_of ?u h = Some P"
    using du by (cases ?u) (auto dest: map_of_SomeD, metis image_eqI fst_conv)
  then have "map_of ?u h = Some P" using assms(1) True by (auto simp: remember_def Let_def split: if_splits)
  then show ?thesis using True by (auto simp: update_conv' split: if_splits)
qed

lemma remembers_step:
  assumes ok: "lib_ok L" and ops: "operations_ok L (led_known led')" and inv: "ledger_inv led" "ledger_inv led'"
    and g: "genesis_shape op" and r: "remembers L led" and sp: "spelled L op" and of: "one_founder (led_known led')" and ad: "admit L led op = Inr led'"
  shows "remembers L led'"
  using ad
proof (cases rule: admit_cases)
  case known
  then show ?thesis using r by simp
next
  case (stored community invs)
  have "op_hash op \<notin> fst ` set (led_operations led)"
    using stored(1) by (simp add: led_has_def map_of_eq_None_iff)
  then have K: "led_known led' = led_known led @ [op]" by (simp add: stored(2) filed_def Let_def led_known_def update_new)
  have c: "causal (led_known led @ [op])" using inv(2) K by (simp add: ledger_inv_def)
  have ops': "operations_ok L (led_known led @ [op])" using ops K by simp
  note d = operations_ok_distinct [OF ops']
  have "op_hash op \<notin> fst ` set (led_states led)" using \<open>op_hash op \<notin> fst ` set (led_operations led)\<close> inv(1) by (auto simp: ledger_inv_def)
  then have look: "(h = op_hash op \<and> P = \<lparr>past_community = toPrimitives community, past_invitations = invs\<rparr> \<and>
      hasMembers (c_membership community)) \<or> (h \<noteq> op_hash op \<and> map_of (led_states led) h = Some P)"
    if "map_of (led_states led') h = Some P" for h P
    using remember_lookup [of "op_hash op" community invs "filed led op" h P] that inv(1)
    by (simp add: stored(2) filed_def Let_def ledger_inv_def)
  show ?thesis unfolding remembers_def
  proof (intro allI impI)
    fix h P assume P: "map_of (led_states led') h = Some P"
    show "\<exists>cl st c. closureOf (led_known led') [h] = Inr cl \<and> foldOf L cl = Inr st \<and> st_community st = Some c \<and>
        \<not> st_deleted st \<and> past_invitations P = st_invitations st \<and> fromPrimitives L (past_community P) = Inr (copy_of c)"
    proof (cases "h = op_hash op")
      case False
      then have "map_of (led_states led) h = Some P" using look [OF P] by simp
      then obtain cl st c where f: "closureOf (led_known led) [h] = Inr cl" "foldOf L cl = Inr st" "st_community st = Some c"
        "\<not> st_deleted st" "past_invitations P = st_invitations st" "fromPrimitives L (past_community P) = Inr (copy_of c)"
        using r unfolding remembers_def by blast
      show ?thesis using closure_later [OF c d f(1), of L] f(2-) K by metis
    next
      case True
      then have P': "P = \<lparr>past_community = toPrimitives community, past_invitations = invs\<rparr>" "hasMembers (c_membership community)"
        using look [OF P] by simp_all
      have "\<exists>cl st c. closureOf (led_known led @ [op]) [op_hash op] = Inr cl \<and> foldOf L cl = Inr st \<and> st_community st = Some c \<and>
          copy_of c = copy_of community \<and> st_deleted st = (\<not> hasMembers (c_membership community)) \<and> st_invitations st = invs \<and>
          values_ok L community"
      proof (cases "isGenesis op")
        case False
        have of': "one_founder (led_known led)" by (rule one_founder_subset [OF of]) (auto simp: K)
        show ?thesis
          by (rule applyToPast_folded [OF ok ops' c inv(1) r sp of' False stored(6) [OF False] stored(4) [OF False]])
      next
        case True
        have parents: "op_parents op = []" using g True by (simp add: genesis_shape_def)
        obtain cl where cl: "closureOf (led_known led @ [op]) [op_hash op] = Inr cl"
          using closureOf_total [OF c, of "[op_hash op]"] by auto
        have ph: "parents_in (led_known led @ [op]) (op_hash op) = {}" using causal_parents_in [OF c, of op] parents by simp
        have "past (led_known led @ [op]) [] = {}" by (simp add: past_def)
        then have "past (led_known led @ [op]) [op_hash op] = {op_hash op}" using past_single [of "[]"] ph by simp
        then have m: "z \<in> set cl \<longleftrightarrow> z \<in> set (led_known led @ [op]) \<and> op_hash z = op_hash op" for z
          using closureOf_spec(2) [OF cl, of z] causal_known [OF c, of "op_hash z" z] by simp
        have "z = op" if "z \<in> set (led_known led @ [op])" "op_hash z = op_hash op" for z
          by (rule inj_onD [OF causal_inj [OF c] that(2,1)]) simp
        then have "set cl = {op}" using m by auto
        moreover have "distinct cl" using closureOf_spec(1) [OF cl] by (simp add: distinct_map)
        ultimately have cl1: "cl = [op]" by (rule distinct_single)
        have v: "values_ok L community" using apply_create_values [OF ok _ stored(3) [OF True]] ops' by (simp add: operations_ok_def)
        have "operations_ok L [op]" using ops' by (simp add: operations_ok_def)
        from fold_genesis [OF ok this True parents stored(3) [OF True]] cl cl1 v stored(7) [OF True] show ?thesis by auto
      qed
      then obtain cl st c where f: "closureOf (led_known led @ [op]) [op_hash op] = Inr cl" "foldOf L cl = Inr st"
        "st_community st = Some c" "copy_of c = copy_of community" "st_deleted st = (\<not> hasMembers (c_membership community))"
        "st_invitations st = invs" "values_ok L community" by blast
      then show ?thesis using P' True community_roundtrip [OF f(7)] by (simp add: K)
    qed
  qed
qed

text \<open>Admitting operations keeps what the ledger remembers equal to the fold.\<close>

lemma admitted_remembers:
  assumes ok: "lib_ok L" and "admitted L led" and "\<forall>op \<in> set (led_known led). spelled L op" and "one_founder (led_known led)"
  shows "remembers L led"
  using assms(2-)
proof induction
  case admitted_new
  show ?case by (simp add: remembers_def new_ledger_def)
next
  case (admitted_step led v op led')
  from admitted_built [OF ok admitted_step.hyps(1)] have inv: "ledger_inv led" by simp
  have inv': "ledger_inv led' \<and> operations_built L (led_known led')"
    by (rule admitted_built [OF ok]) (rule admitted.admitted_step [OF admitted_step.hyps(1-3)])
  then have ops: "operations_ok L (led_known led')" using operations_built_ok [OF ok] by blast
  have K: "set (led_known led') = (if led_has led op then set (led_known led) else insert op (set (led_known led)))"
    by (rule admit_known [OF inv admitted_step.hyps(3)])
  then have sub: "set (led_known led) \<subseteq> set (led_known led')" by auto
  have r: "remembers L led"
    by (rule admitted_step.IH) (use admitted_step.prems(1) sub one_founder_subset [OF admitted_step.prems(2) sub] in auto)
  show ?case
  proof (cases "led_has led op")
    case True
    then have "led' = led" using admitted_step.hyps(3) by (simp add: admit_def)
    then show ?thesis using r by simp
  next
    case False
    then have "spelled L op" using K admitted_step.prems(1) by simp
    moreover have "genesis_shape op" using operation_built [OF ok admitted_step.hyps(2)] by (simp add: built_operation_def)
    ultimately show ?thesis using remembers_step [OF ok ops inv _ _ r _ admitted_step.prems(2) admitted_step.hyps(3)] inv' by blast
  qed
qed

lemma admit_forget:
  assumes ok: "lib_ok L" and ops: "operations_ok L (led_known led)" and inv: "ledger_inv led" and r: "remembers L led"
  shows "(\<exists>e. admit L led op = Inl e \<and> admit L (forget led) op = Inl e) \<or>
    (\<exists>a b. admit L led op = Inr a \<and> admit L (forget led) op = Inr b \<and>
       led_operations a = led_operations b \<and> led_signed a = led_signed b)"
proof -
  have same: "applyToPast L (forget led) op = applyToPast L led op"
    by (rule applyToPast_forget) (use pastOf_forget [OF ok ops inv r] in blast)+
  have filed: "led_operations (filed (forget led) op) = led_operations (filed led op)"
    "led_signed (filed (forget led) op) = led_signed (filed led op)" by (simp_all add: filed_def Let_def)
  show ?thesis
  proof (cases "admit L led op")
    case (Inl e)
    then have "admit L (forget led) op = Inl e"
      unfolding admit_def forget_simps same by (auto simp: bindR_def split: if_splits sum.splits)
    then show ?thesis using Inl by simp
  next
    case (Inr a)
    then have "\<exists>b. admit L (forget led) op = Inr b \<and> led_operations a = led_operations b \<and> led_signed a = led_signed b"
      unfolding admit_def forget_simps same by (auto simp: bindR_def filed split: if_splits sum.splits prod.splits)
    then show ?thesis using Inr by blast
  qed
qed

end
