(* ===== verification/Samples.thy ===== *)
theory Samples
  imports Ledger FoldConcurrency RebaseIdentity
begin

text \<open>
  A small community history on which the properties are applied: a founder \<open>ana\<close>, a member
  \<open>bo\<close> that joins automatically, and what they do concurrently. The parameter for the packages
  is instantiated by functions that accept every value; the digest of a record is read off its
  creation time, so every operation of the history passes the builder.
\<close>

definition sample_digest :: "json \<Rightarrow> string option" where
  "sample_digest v =
     (case v of
        JObject kvs \<Rightarrow>
          (case map_of kvs ''createdAt'' of
             Some (JInt t) \<Rightarrow> Some (replicate 43 (char_of (nat t))) | _ \<Rightarrow> None)
      | _ \<Rightarrow> None)"

definition sample_lib :: lib where
  "sample_lib =
     \<lparr>lib_text = (\<lambda>m s. Some s), lib_identity = Some, lib_canonical = (\<lambda>s. True), lib_network = Some,
      lib_signature = Some, lib_timestamp = (\<lambda>t. True), lib_verify = (\<lambda>k m s. True), lib_digest = sample_digest,
      lib_commit_community = (\<lambda>n i s. ''flock''), lib_commit_channel = (\<lambda>c i t. ''channel''),
      lib_commit_role = (\<lambda>c i t. ''role''), lib_commit_request = (\<lambda>a b c d t. d),
      lib_invitation_key = Some, lib_possession = (\<lambda>f p k. True), lib_consent = (\<lambda>f s. True),
      lib_uuid = Some, lib_commit_call = (\<lambda>i n. n), lib_canonicalize = (\<lambda>v. Some ''text''),
      lib_public_key = Some, lib_pem = (\<lambda>i. ''pem'' @ i), lib_commitment = (\<lambda>s. s), lib_unique = remdups\<rparr>"

lemma sample_lib_ok: "lib_ok sample_lib"
  by (simp add: lib_ok_def sample_lib_def)

definition sample_hash :: "char \<Rightarrow> string" where
  "sample_hash ch = replicate 43 ch"

definition sample_record :: "char \<Rightarrow> action \<Rightarrow> string \<Rightarrow> (string \<times> json) list \<Rightarrow> char list \<Rightarrow> json" where
  "sample_record ch a i args ps = JObject
     [(''action'', JString (action_value a)), (''args'', JObject args), (''authorIdentityId'', JString i),
      (''communityId'', JString ''flock''), (''createdAt'', JInt (int (of_char ch))),
      (''id'', JString (recordIdOf ''flock'' (sample_hash ch))), (''identitySignature'', JString ''s''),
      (''networkId'', JString ''net''), (''parents'', JArray (map (JString \<circ> sample_hash) ps)),
      (''scopeType'', JString ''community_operation'')]"

definition sample_op :: "char \<Rightarrow> action \<Rightarrow> string \<Rightarrow> (string \<times> json) list \<Rightarrow> char list \<Rightarrow> operation" where
  "sample_op ch a i args ps =
     \<lparr>op_primitives = \<lparr>op_p_action = action_value a, op_p_args = args, op_p_author = i, op_p_communityId = ''flock'',
        op_p_createdAt = int (of_char ch), op_p_id = recordIdOf ''flock'' (sample_hash ch), op_p_signature = ''s'',
        op_p_networkId = ''net'', op_p_parents = map sample_hash ps\<rparr>,
      op_action = a, op_author = i, op_communityId = ''flock'', op_networkId = ''net'', op_signature = ''s'',
      op_hash = sample_hash ch\<rparr>"

definition genesis_args :: "(string \<times> json) list" where
  "genesis_args =
     [(''autoJoinEnabled'', JBool True), (''description'', JString ''d''), (''discoverable'', JBool True),
      (''name'', JString ''Flock''), (''nonce'', JString ''0''), (''visibility'', JString ''public'')]"

definition join_args :: "(string \<times> json) list" where
  "join_args = [(''identityId'', JString ''bo''), (''method'', JString ''automatic'')]"

definition role_args :: "(string \<times> json) list" where
  "role_args =
     [(''name'', JString ''mods''), (''permissions'', JArray [JString ''manage_members'']),
      (''roleId'', JString ''role'')]"

definition kick_args :: "(string \<times> json) list" where
  "kick_args = [(''identityId'', JString ''bo'')]"

definition sample_genesis :: operation where
  "sample_genesis = sample_op (CHR ''G'') COMMUNITY_CREATED ''ana'' genesis_args []"

definition sample_join :: operation where
  "sample_join = sample_op (CHR ''J'') MEMBER_JOINED ''bo'' join_args [CHR ''G'']"

definition sample_role :: operation where
  "sample_role = sample_op (CHR ''R'') ROLE_CREATED ''ana'' role_args [CHR ''G'']"

definition sample_kick :: operation where
  "sample_kick = sample_op (CHR ''K'') MEMBER_KICKED ''ana'' kick_args [CHR ''J'']"

text \<open>Signed by somebody who is not in the community.\<close>

definition sample_forged :: operation where
  "sample_forged = sample_op (CHR ''F'') ROLE_CREATED ''eve'' role_args [CHR ''G'']"

definition sample_history :: "operation list" where
  "sample_history = [sample_kick, sample_join, sample_genesis, sample_role]"

definition sample_shuffled :: "operation list" where
  "sample_shuffled = [sample_role, sample_genesis, sample_kick, sample_join]"

lemmas sample_defs = sample_op_def sample_genesis_def sample_join_def sample_role_def sample_kick_def
  sample_forged_def

lemma sample_genesis_built: "operation_fromPrimitives sample_lib
    (sample_record (CHR ''G'') COMMUNITY_CREATED ''ana'' genesis_args []) = Inr sample_genesis"
  by code_simp

lemma sample_join_built: "operation_fromPrimitives sample_lib
    (sample_record (CHR ''J'') MEMBER_JOINED ''bo'' join_args [CHR ''G'']) = Inr sample_join"
  by code_simp

lemma sample_role_built: "operation_fromPrimitives sample_lib
    (sample_record (CHR ''R'') ROLE_CREATED ''ana'' role_args [CHR ''G'']) = Inr sample_role"
  by code_simp

lemma sample_kick_built: "operation_fromPrimitives sample_lib
    (sample_record (CHR ''K'') MEMBER_KICKED ''ana'' kick_args [CHR ''J'']) = Inr sample_kick"
  by code_simp

lemma sample_forged_built: "operation_fromPrimitives sample_lib
    (sample_record (CHR ''F'') ROLE_CREATED ''eve'' role_args [CHR ''G'']) = Inr sample_forged"
  by code_simp

lemma sample_built: "operations_built sample_lib (sample_forged # sample_history)"
  using sample_genesis_built sample_join_built sample_role_built sample_kick_built sample_forged_built
  by (auto simp: operations_built_def sample_history_def)

lemma sample_history_built: "operations_built sample_lib sample_history"
  using sample_built by (simp add: operations_built_def)

lemma sample_inj: "inj_on op_hash (set sample_history)"
  by (simp add: sample_history_def sample_defs sample_hash_def inj_on_def)

lemma sample_same: "set sample_history = set sample_shuffled"
  by (auto simp: sample_history_def sample_shuffled_def)

section \<open>A ledger\<close>

definition sample_ledger1 :: ledger where
  "sample_ledger1 = (case admit sample_lib new_ledger sample_genesis of Inr led \<Rightarrow> led)"

definition sample_ledger2 :: ledger where
  "sample_ledger2 = (case admit sample_lib sample_ledger1 sample_join of Inr led \<Rightarrow> led)"

lemma sample_ledger1: "admit sample_lib new_ledger sample_genesis = Inr sample_ledger1"
  by code_simp

lemma sample_ledger2: "admit sample_lib sample_ledger1 sample_join = Inr sample_ledger2"
  by code_simp

lemma sample_admitted: "admitted sample_lib sample_ledger2"
  by (rule admitted_step [OF admitted_step [OF admitted_new sample_genesis_built sample_ledger1]
      sample_join_built sample_ledger2])

end
