(* ===== verification/LedgerMemory.thy ===== *)
theory LedgerMemory
  imports LedgerRefinement Samples
begin

text \<open>
  The memory of \<open>src/contexts/communities/domain/operations/CommunityOperationLedger.ts\<close>: that it
  changes nothing a ledger admits when identity arguments are spelled as the identities they name,
  and a history on which it does when they are not.
\<close>

section \<open>The ledger with and without its memory\<close>

text \<open>
  C33: the states a ledger remembers change nothing it admits: it answers every candidate as the
  ledger that folds the causal past again each time, with the same error or storing the same
  operations, provided the identity arguments of its operations are spelled as the identities
  they name and its geneses have one author.
\<close>

theorem memory_changes_nothing:
  assumes "lib_ok L" and "admitted L led" and "\<forall>op \<in> set (led_known led). spelled L op"
    and "one_founder (led_known led)"
  shows "(\<exists>e. admit L led candidate = Inl e \<and> admit L (forget led) candidate = Inl e) \<or>
    (\<exists>a b. admit L led candidate = Inr a \<and> admit L (forget led) candidate = Inr b \<and>
       led_operations a = led_operations b \<and> led_signed a = led_signed b)"
proof -
  have b: "ledger_inv led" "operations_built L (led_known led)" using admitted_built [OF assms(1,2)] by auto
  show ?thesis
    by (rule admit_forget [OF assms(1) operations_built_ok [OF assms(1) b(2)] b(1) admitted_remembers [OF assms]])
qed

theorem memory_changes_nothing_witness:
  "\<exists>a b. admit sample_lib sample_ledger2 sample_kick = Inr a \<and> admit sample_lib (forget sample_ledger2) sample_kick = Inr b \<and>
     led_operations a = led_operations b \<and> length (led_operations a) = 3"
proof -
  have k: "led_known sample_ledger2 = [sample_genesis, sample_join]" by code_simp
  have "\<forall>op \<in> set (led_known sample_ledger2). spelled sample_lib op"
    by (auto simp: spelled_def new_IdentityId_def sample_lib_def)
  moreover have "one_founder (led_known sample_ledger2)"
    unfolding k by (simp add: one_founder_def sample_defs isGenesis_def action_isGenesis_def)
  ultimately have m: "(\<exists>e. admit sample_lib sample_ledger2 sample_kick = Inl e \<and> admit sample_lib (forget sample_ledger2) sample_kick = Inl e) \<or>
    (\<exists>a b. admit sample_lib sample_ledger2 sample_kick = Inr a \<and> admit sample_lib (forget sample_ledger2) sample_kick = Inr b \<and>
       led_operations a = led_operations b \<and> led_signed a = led_signed b)"
    by (rule memory_changes_nothing [OF sample_lib_ok sample_admitted])
  have "(case admit sample_lib sample_ledger2 sample_kick of Inl e \<Rightarrow> False | Inr a \<Rightarrow> length (led_operations a) = 3)" by code_simp
  then show ?thesis using m by (cases "admit sample_lib sample_ledger2 sample_kick") auto
qed

section \<open>Respelled identities\<close>

text \<open>
  \<open>new IdentityId(value)\<close> strips the blanks of its argument, so one identity has many spellings
  as an argument. A package that does so, and is otherwise the one of the samples.
\<close>

definition stripping_lib :: lib where
  "stripping_lib = sample_lib\<lparr>lib_identity := \<lambda>s. Some (filter (\<lambda>ch. ch \<noteq> CHR '' '') s)\<rparr>"

lemma stripping_lib_ok: "lib_ok stripping_lib"
  by (simp add: stripping_lib_def sample_lib_def lib_ok_def)

text \<open>
  \<open>ana\<close> lets everyone invite, \<open>bo\<close> joins and invites, \<open>ana\<close> kicks \<open>bo\<close> in another spelling and
  \<open>bo\<close> joins again, then \<open>cy\<close> is admitted with the invitation of \<open>bo\<close>.
\<close>

definition respelled_history :: "operation list" where
  "respelled_history =
     [sample_genesis,
      sample_op (CHR ''R'') ROLE_UPDATED ''ana''
        [(''name'', JString ''everyone''), (''permissions'', JArray [JString ''create_invites'']), (''roleId'', JString ''everyone'')] [CHR ''G''],
      sample_op (CHR ''S'') MEMBER_JOINED ''bo'' join_args [CHR ''R''],
      sample_op (CHR ''U'') INVITATION_CREATED ''bo''
        [(''expiresAt'', JInt 1000), (''invitationKey'', JString ''key''), (''maxUses'', JInt 2)] [CHR ''S''],
      sample_op (CHR ''V'') MEMBER_KICKED ''ana'' [(''identityId'', JString '' bo'')] [CHR ''U''],
      sample_op (CHR ''W'') MEMBER_JOINED ''bo'' join_args [CHR ''V'']]"

definition respelled_admission :: operation where
  "respelled_admission = sample_op (CHR ''X'') MEMBER_JOINED ''ana''
     [(''consent'', JString ''c''), (''identityId'', JString ''cy''), (''invitationId'', JString (sample_hash (CHR ''U''))),
      (''method'', JString ''invitation''), (''possession'', JString ''p'')] [CHR ''W'']"

definition admit_all :: "lib \<Rightarrow> operation list \<Rightarrow> ledger throws" where
  "admit_all L ops = fold (\<lambda>op r. bindR r (\<lambda>led. admit L led op)) ops (Inr new_ledger)"

definition respelled_ledger :: ledger where
  "respelled_ledger = (case admit_all stripping_lib respelled_history of Inr led \<Rightarrow> led)"

definition respelled_bare :: ledger where
  "respelled_bare =
     \<lparr>led_operations = map (\<lambda>op. (op_hash op, op)) respelled_history, led_signed = [(''ana'', 3), (''bo'', 3)], led_states = []\<rparr>"

text \<open>
  The remembered state has the invitation cut, the folded one does not: the ledger refuses the
  admission, and the same ledger without its memory stores it.
\<close>

lemma respelled_forget: "forget respelled_ledger = respelled_bare"
  by code_simp

lemma respelled_admitted: "admit_all stripping_lib respelled_history = Inr respelled_ledger"
proof -
  have "isOK (admit_all stripping_lib respelled_history)" by code_simp
  then show ?thesis by (auto simp: isOK_iff respelled_ledger_def)
qed

lemma respelled_refused:
  "bindR (admit_all stripping_lib respelled_history) (\<lambda>led. admit stripping_lib led respelled_admission) =
     Inl (Some CommunityInvitationUnusableError)"
  by code_simp

text \<open>The folded past, as the ledger would remember it.\<close>

definition folded_bare :: "community_state \<Rightarrow> ledger" where
  "folded_bare st = respelled_bare\<lparr>led_states := [(sample_hash (CHR ''W''),
     \<lparr>past_community = toPrimitives (the (st_community st)), past_invitations = st_invitations st\<rparr>)]\<rparr>"

lemma folded_bare_stored:
  "(case foldOf stripping_lib respelled_history of Inl e \<Rightarrow> False
    | Inr st \<Rightarrow> st_community st \<noteq> None \<and> \<not> st_deleted st \<and> isOK (admit stripping_lib (folded_bare st) respelled_admission))"
  by code_simp

lemma respelled_closure: "closureOf (led_known respelled_bare) [sample_hash (CHR ''W'')] = Inr (rev respelled_history)"
  by code_simp

lemma respelled_stored: "isOK (admit stripping_lib respelled_bare respelled_admission)"
proof -
  obtain st where st: "foldOf stripping_lib respelled_history = Inr st" "st_community st \<noteq> None" "\<not> st_deleted st"
    "isOK (admit stripping_lib (folded_bare st) respelled_admission)"
    using folded_bare_stored by (auto split: sum.splits)
  have hashes: "map op_hash respelled_history = map sample_hash [CHR ''G'', CHR ''R'', CHR ''S'', CHR ''U'', CHR ''V'', CHR ''W'']"
    by (simp add: respelled_history_def sample_defs)
  have "distinct (map op_hash respelled_history)" unfolding hashes by (simp add: sample_hash_def)
  then have "inj_on op_hash (set (rev respelled_history))" by (simp add: distinct_map)
  moreover have "distinct_parents (rev respelled_history)"
    by (auto simp: distinct_parents_def respelled_history_def sample_defs op_parents_def)
  ultimately have "foldOf stripping_lib (rev respelled_history) = Inr st"
    using foldOf_converges [of "rev respelled_history" respelled_history stripping_lib] st(1) by simp
  then have "led_pastOf stripping_lib respelled_bare [sample_hash (CHR ''W'')] =
      Inr \<lparr>past_community = toPrimitives (the (st_community st)), past_invitations = st_invitations st\<rparr>"
    using st(2,3) respelled_closure by (auto simp: led_pastOf_def fold_operations_def respelled_bare_def led_known_def)
  moreover have "led_pastOf stripping_lib (folded_bare st) [sample_hash (CHR ''W'')] =
      Inr \<lparr>past_community = toPrimitives (the (st_community st)), past_invitations = st_invitations st\<rparr>"
    by (simp add: led_pastOf_def folded_bare_def)
  moreover have p: "op_parents respelled_admission = [sample_hash (CHR ''W'')]"
    by (simp add: respelled_admission_def sample_defs op_parents_def)
  ultimately have "applyToPast stripping_lib respelled_bare respelled_admission = applyToPast stripping_lib (folded_bare st) respelled_admission"
    by (intro applyToPast_forget) simp_all
  moreover have "led_has (folded_bare st) op = led_has respelled_bare op" "led_operations (folded_bare st) = led_operations respelled_bare"
    "assertWithinQuota (folded_bare st) op = assertWithinQuota respelled_bare op" for op
    by (simp_all add: folded_bare_def led_has_def assertWithinQuota_def led_known_def)
  ultimately show ?thesis using st(4) by (auto simp: admit_def isOK_def bindR_def split: if_splits sum.splits)
qed

lemma respelled_cut_diverges:
  "admit_all stripping_lib respelled_history = Inr respelled_ledger \<and>
   admit stripping_lib respelled_ledger respelled_admission = Inl (Some CommunityInvitationUnusableError) \<and>
   isOK (admit stripping_lib (forget respelled_ledger) respelled_admission)"
  using respelled_refused respelled_stored by (simp add: respelled_admitted respelled_forget)

text \<open>A respelled joiner is not found among those who joined.\<close>

lemma respelled_joiner_is_forgotten:
  "\<exists>iv. new_IdentityId stripping_lib '' cy'' = Inr ''cy'' \<and> \<not> hasJoined (withJoiner iv '' cy'') ''cy''"
  by (rule exI [of _ "undefined\<lparr>inv_status := \<lparr>status_cut = False, status_joinerIds = [], status_revoked = False\<rparr>\<rparr>"])
    (simp add: new_IdentityId_def stripping_lib_def hasJoined_def withJoiner_def)

end
