(* ===== verification/PublicMutations.thy ===== *)
theory PublicMutations
  imports Values "HOL-Library.Product_Lexorder"
begin

text \<open>
  The signed proof that a replicated public record carries and the rule by which one record
  replaces another (\<open>PublicMutationProof.ts\<close>, \<open>PublicMutationFrontier.ts\<close>,
  \<open>PublicMutationRecord.ts\<close> under \<open>src/contexts/public-mutations/domain\<close>): the strict decoder
  and its round trip, the clock-free order of two mutations of one record, and the locale
  \<open>register\<close> of what a place that keeps the stronger record holds in the end.
\<close>

section \<open>The proof\<close>

datatype mutation_error =
    InvalidPublicMutationError
  | PublicMutationPendingError
  | StalePublicMutationError int string

datatype mutation_kind = PUT | DELETE

fun mutation_kind_value :: "mutation_kind \<Rightarrow> string" where
  "mutation_kind_value PUT = ''put''"
| "mutation_kind_value DELETE = ''delete''"

record mutation_author =
  ma_authorizationRevision :: int
  ma_deviceCredential :: string
  ma_identityId :: string

record mutation_proof =
  pf_author :: mutation_author
  pf_frontier :: "string list option"
  pf_kind :: mutation_kind
  pf_operationId :: string
  pf_payloadDigest :: string
  pf_predecessor :: "string option"
  pf_recordId :: string
  pf_sequence :: int
  pf_store :: string
  pf_signature :: string

definition MAX_TEXT :: nat where "MAX_TEXT = 1024"
definition MAX_HEADS :: nat where "MAX_HEADS = 64"

text \<open>\<open>exact\<close>: an object with these fields and no others.\<close>

definition pf_exact :: "json option \<Rightarrow> string list \<Rightarrow> mutation_error + (string \<times> json) list" where
  "pf_exact v expected =
     (case v of
        Some (JObject record) \<Rightarrow>
          if length record \<noteq> length expected \<or> list_ex (\<lambda>f. map_of record f = None) expected
          then Inl InvalidPublicMutationError else Inr record
      | _ \<Rightarrow> Inl InvalidPublicMutationError)"

definition pf_text :: "json option \<Rightarrow> mutation_error + string" where
  "pf_text v =
     (case v of
        Some (JString s) \<Rightarrow>
          if js_length s = 0 \<or> js_length s > MAX_TEXT then Inl InvalidPublicMutationError else Inr s
      | _ \<Rightarrow> Inl InvalidPublicMutationError)"

definition pf_counter :: "json option \<Rightarrow> mutation_error + int" where
  "pf_counter v =
     (case v of
        Some (JInt n) \<Rightarrow> if \<not> safe_integer n \<or> n < 0 then Inl InvalidPublicMutationError else Inr n
      | _ \<Rightarrow> Inl InvalidPublicMutationError)"

definition pf_pattern :: "json option \<Rightarrow> (string \<Rightarrow> bool) \<Rightarrow> mutation_error + string" where
  "pf_pattern v matches =
     (case v of
        Some (JString s) \<Rightarrow> if \<not> matches s then Inl InvalidPublicMutationError else Inr s
      | _ \<Rightarrow> Inl InvalidPublicMutationError)"

text \<open>\<open>/^[A-Za-z0-9_-]{22,64}$/\<close>\<close>

definition isOperationId :: "string \<Rightarrow> bool" where
  "isOperationId s \<longleftrightarrow> 22 \<le> length s \<and> length s \<le> 64 \<and> list_all digest_char s"

definition pf_authorOf :: "json option \<Rightarrow> mutation_error + mutation_author" where
  "pf_authorOf v =
     bindR (pf_exact v [''authorizationRevision'', ''identityId'', ''deviceCredential'']) (\<lambda>author.
     bindR (pf_counter (map_of author ''authorizationRevision'')) (\<lambda>revision.
     bindR (pf_text (map_of author ''deviceCredential'')) (\<lambda>credential.
     bindR (pf_text (map_of author ''identityId'')) (\<lambda>identity.
       Inr \<lparr>ma_authorizationRevision = revision, ma_deviceCredential = credential, ma_identityId = identity\<rparr>))))"

definition pf_kindOf :: "json option \<Rightarrow> mutation_error + mutation_kind" where
  "pf_kindOf v =
     (if v = Some (JString ''put'') then Inr PUT
      else if v = Some (JString ''delete'') then Inr DELETE else Inl InvalidPublicMutationError)"

section \<open>The frontier\<close>

fun strings_of :: "json list \<Rightarrow> string list option" where
  "strings_of [] = Some []"
| "strings_of (v # vs) =
     (case v of JString s \<Rightarrow> (case strings_of vs of Some ss \<Rightarrow> Some (s # ss) | None \<Rightarrow> None) | _ \<Rightarrow> None)"

text \<open>\<open>PublicMutationFrontier.isValid\<close>, with the heads it then is known to hold.\<close>

definition valid_frontier :: "json \<Rightarrow> string list option" where
  "valid_frontier v =
     (case v of
        JArray xs \<Rightarrow>
          if length xs \<ge> 1 \<and> length xs \<le> MAX_HEADS
          then (case strings_of xs of
                  Some heads \<Rightarrow> if list_all isDigest heads \<and> ascending heads then Some heads else None
                | None \<Rightarrow> None)
          else None
      | _ \<Rightarrow> None)"

definition pf_frontierOf :: "json \<Rightarrow> mutation_error + string list option" where
  "pf_frontierOf v =
     (case v of
        JObject record \<Rightarrow>
          (case map_of record ''frontier'' of
             None \<Rightarrow> Inr None
           | Some f \<Rightarrow> (case valid_frontier f of
                          None \<Rightarrow> Inl InvalidPublicMutationError | Some heads \<Rightarrow> Inr (Some heads)))
      | _ \<Rightarrow> Inr None)"

definition frontierFields :: "string list option \<Rightarrow> string list" where
  "frontierFields f = (case f of None \<Rightarrow> [] | Some _ \<Rightarrow> [''frontier''])"

text \<open>\<open>PublicMutationFrontier.keyOf\<close>\<close>

fun comma_joined :: "string list \<Rightarrow> string" where
  "comma_joined [] = ''''"
| "comma_joined [x] = x"
| "comma_joined (x # xs) = x @ '','' @ comma_joined xs"

definition frontier_keyOf :: "string \<Rightarrow> string list \<Rightarrow> string" where
  "frontier_keyOf scopeId frontier = scopeId @ ''@'' @ comma_joined frontier"

section \<open>The decoder\<close>

definition proof_fields :: "string list" where
  "proof_fields = [''version'', ''operationId'', ''kind'', ''store'', ''recordId'', ''predecessor'',
     ''sequence'', ''payloadDigest'', ''author'', ''signature'']"

definition pf_predecessorOf :: "json option \<Rightarrow> mutation_error + string option" where
  "pf_predecessorOf v =
     (if v = Some JNull then Inr None else bindR (pf_pattern v isDigest) (\<lambda>d. Inr (Some d)))"

definition proof_fromPrimitives :: "lib \<Rightarrow> json \<Rightarrow> mutation_error + mutation_proof" where
  "proof_fromPrimitives L v =
     bindR (pf_frontierOf v) (\<lambda>frontier.
     bindR (pf_exact (Some v) (frontierFields frontier @ proof_fields)) (\<lambda>p.
     bindR (ensure (map_of p ''version'' = Some (JInt 2)) InvalidPublicMutationError) (\<lambda>_.
     bindR (pf_counter (map_of p ''sequence'')) (\<lambda>sequence.
     bindR (pf_predecessorOf (map_of p ''predecessor'')) (\<lambda>predecessor.
     bindR (ensure ((predecessor = None) = (sequence = 0)) InvalidPublicMutationError) (\<lambda>_.
     bindR (pf_authorOf (map_of p ''author'')) (\<lambda>author.
     bindR (pf_kindOf (map_of p ''kind'')) (\<lambda>kind.
     bindR (pf_pattern (map_of p ''operationId'') isOperationId) (\<lambda>operationId.
     bindR (pf_pattern (map_of p ''payloadDigest'') isDigest) (\<lambda>payloadDigest.
     bindR (pf_text (map_of p ''recordId'')) (\<lambda>recordId.
     bindR (pf_text (map_of p ''store'')) (\<lambda>store.
     bindR (pf_text (map_of p ''signature'')) (\<lambda>text.
     bindR (case lib_signature L text of None \<Rightarrow> Inl InvalidPublicMutationError | Some s \<Rightarrow> Inr s) (\<lambda>signature.
       Inr \<lparr>pf_author = author, pf_frontier = frontier, pf_kind = kind, pf_operationId = operationId,
            pf_payloadDigest = payloadDigest, pf_predecessor = predecessor, pf_recordId = recordId,
            pf_sequence = sequence, pf_store = store, pf_signature = signature\<rparr>))))))))))))))"

definition author_json :: "mutation_author \<Rightarrow> json" where
  "author_json a = JObject
     [(''authorizationRevision'', JInt (ma_authorizationRevision a)),
      (''deviceCredential'', JString (ma_deviceCredential a)), (''identityId'', JString (ma_identityId a))]"

definition body_entries :: "mutation_proof \<Rightarrow> (string \<times> json) list" where
  "body_entries p =
     [(''author'', author_json (pf_author p))]
     @ (case pf_frontier p of None \<Rightarrow> [] | Some f \<Rightarrow> [(''frontier'', JArray (map JString f))])
     @ [(''kind'', JString (mutation_kind_value (pf_kind p))), (''operationId'', JString (pf_operationId p)),
        (''payloadDigest'', JString (pf_payloadDigest p)),
        (''predecessor'', case pf_predecessor p of None \<Rightarrow> JNull | Some d \<Rightarrow> JString d),
        (''recordId'', JString (pf_recordId p)), (''sequence'', JInt (pf_sequence p)),
        (''store'', JString (pf_store p)), (''version'', JInt 2)]"

definition proof_toPrimitives :: "mutation_proof \<Rightarrow> json" where
  "proof_toPrimitives p = JObject (body_entries p @ [(''signature'', JString (pf_signature p))])"

definition signingContent :: "lib \<Rightarrow> mutation_proof \<Rightarrow> mutation_error + string" where
  "signingContent L p =
     (case lib_canonicalize L (JObject (body_entries p)) of
        None \<Rightarrow> Inl InvalidPublicMutationError
      | Some text \<Rightarrow> Inr (''pigeon:public-mutation:v2'' @ [CHR 0x0A] @ text))"

definition isDeletion :: "mutation_proof \<Rightarrow> bool" where
  "isDeletion p \<longleftrightarrow> pf_kind p = DELETE"

definition mutation_digestOf :: "lib \<Rightarrow> json \<Rightarrow> mutation_error + string" where
  "mutation_digestOf L v = (case lib_digest L v of None \<Rightarrow> Inl InvalidPublicMutationError | Some d \<Rightarrow> Inr d)"

definition proof_digest :: "lib \<Rightarrow> mutation_proof \<Rightarrow> mutation_error + string" where
  "proof_digest L p = mutation_digestOf L (proof_toPrimitives p)"

text \<open>Higher sequence first, then the lower digest; the digests are computed on equal sequences only.\<close>

definition winsOver :: "lib \<Rightarrow> mutation_proof \<Rightarrow> mutation_proof \<Rightarrow> mutation_error + bool" where
  "winsOver L p q =
     (if pf_sequence p \<noteq> pf_sequence q then Inr (pf_sequence p > pf_sequence q)
      else bindR (proof_digest L p) (\<lambda>d. bindR (proof_digest L q) (\<lambda>d'. Inr (d < d'))))"

section \<open>Records that carry a proof\<close>

type_synonym public_record = "(string \<times> json) list"

definition payloadOf :: "public_record \<Rightarrow> public_record" where
  "payloadOf r = filter (\<lambda>kv. fst kv \<noteq> ''proof'') r"

definition proofOf :: "lib \<Rightarrow> public_record \<Rightarrow> mutation_proof option" where
  "proofOf L r =
     (case map_of r ''proof'' of
        None \<Rightarrow> None
      | Some v \<Rightarrow> (case proof_fromPrimitives L v of Inl _ \<Rightarrow> None | Inr p \<Rightarrow> Some p))"

definition withProof :: "public_record \<Rightarrow> mutation_proof \<Rightarrow> public_record" where
  "withProof payload p = AList.update ''proof'' (proof_toPrimitives p) payload"

definition record_replaces :: "lib \<Rightarrow> public_record \<Rightarrow> public_record \<Rightarrow> mutation_error + bool option" where
  "record_replaces L current candidate =
     (case (proofOf L current, proofOf L candidate) of
        (None, None) \<Rightarrow> Inr None
      | (None, Some _) \<Rightarrow> Inr (Some True)
      | (Some _, None) \<Rightarrow> Inr (Some False)
      | (Some p, Some q) \<Rightarrow> bindR (winsOver L p q) (\<lambda>w. Inr (Some (\<not> w))))"

fun strongest :: "lib \<Rightarrow> mutation_proof option \<Rightarrow> mutation_proof list \<Rightarrow> mutation_error + mutation_proof option" where
  "strongest L best [] = Inr best"
| "strongest L best (p # ps) =
     (case best of
        None \<Rightarrow> strongest L (Some p) ps
      | Some b \<Rightarrow> bindR (winsOver L p b) (\<lambda>w. strongest L (Some (if w then p else b)) ps))"

definition assertNotStale :: "lib \<Rightarrow> public_record list \<Rightarrow> public_record \<Rightarrow> mutation_error + unit" where
  "assertNotStale L stored candidate =
     bindR (strongest L None (List.map_filter (proofOf L) stored)) (\<lambda>best.
       case (best, proofOf L candidate) of
         (Some b, Some p) \<Rightarrow>
           bindR (winsOver L b p) (\<lambda>w.
             if w then bindR (proof_digest L b) (\<lambda>d. Inl (StalePublicMutationError (pf_sequence b) d))
             else Inr ())
       | _ \<Rightarrow> Inr ())"

section \<open>Decoding and encoding\<close>

text \<open>What the decoder guarantees of a proof it returns.\<close>

definition proof_ok :: "lib \<Rightarrow> mutation_proof \<Rightarrow> bool" where
  "proof_ok L p \<longleftrightarrow>
     pf_text (Some (JString (pf_recordId p))) = Inr (pf_recordId p) \<and>
     pf_text (Some (JString (pf_store p))) = Inr (pf_store p) \<and>
     pf_authorOf (Some (author_json (pf_author p))) = Inr (pf_author p) \<and>
     (\<forall>f. pf_frontier p = Some f \<longrightarrow> valid_frontier (JArray (map JString f)) = Some f) \<and>
     isOperationId (pf_operationId p) \<and> isDigest (pf_payloadDigest p) \<and>
     (\<forall>d. pf_predecessor p = Some d \<longrightarrow> isDigest d) \<and>
     (pf_predecessor p = None) = (pf_sequence p = 0) \<and>
     safe_integer (pf_sequence p) \<and> 0 \<le> pf_sequence p"

lemma pf_text_Inr: "pf_text v = Inr s \<longleftrightarrow> v = Some (JString s) \<and> 0 < js_length s \<and> js_length s \<le> MAX_TEXT"
  by (auto simp: pf_text_def split: option.splits json.splits)

lemma pf_counter_Inr: "pf_counter v = Inr n \<longleftrightarrow> v = Some (JInt n) \<and> safe_integer n \<and> 0 \<le> n"
  by (auto simp: pf_counter_def split: option.splits json.splits)

lemma pf_pattern_Inr: "pf_pattern v m = Inr s \<longleftrightarrow> v = Some (JString s) \<and> m s"
  by (auto simp: pf_pattern_def split: option.splits json.splits)

lemma pf_predecessorOf_Inr:
  "pf_predecessorOf v = Inr d \<longleftrightarrow>
     (case d of None \<Rightarrow> v = Some JNull | Some s \<Rightarrow> v = Some (JString s) \<and> isDigest s)"
  by (auto simp: pf_predecessorOf_def pf_pattern_Inr split: option.splits)

lemma pf_kindOf_Inr: "pf_kindOf v = Inr k \<longleftrightarrow> v = Some (JString (mutation_kind_value k))"
  by (cases k) (auto simp: pf_kindOf_def)

lemma pf_exact_Inr:
  "pf_exact v fs = Inr r \<longleftrightarrow> v = Some (JObject r) \<and> length r = length fs \<and> (\<forall>f \<in> set fs. map_of r f \<noteq> None)"
  by (auto simp: pf_exact_def list_ex_iff split: option.splits json.splits)

lemmas pf_readers = pf_text_Inr pf_counter_Inr pf_pattern_Inr pf_predecessorOf_Inr pf_kindOf_Inr pf_exact_Inr

lemma pf_authorOf_json:
  assumes "pf_authorOf v = Inr a"
  shows "pf_authorOf (Some (author_json a)) = Inr a"
  using assms by (auto simp: pf_authorOf_def author_json_def pf_readers)

lemma strings_of_map: "strings_of (map JString ss) = Some ss"
  by (induction ss) simp_all

lemma strings_of_Some: "strings_of xs = Some ss \<longleftrightarrow> xs = map JString ss"
proof
  show "strings_of xs = Some ss \<Longrightarrow> xs = map JString ss"
    by (induction xs arbitrary: ss) (auto split: json.splits option.splits)
qed (simp add: strings_of_map)

lemma valid_frontier_json: "valid_frontier v = Some f \<Longrightarrow> v = JArray (map JString f)"
  by (auto simp: valid_frontier_def strings_of_Some split: json.splits option.splits if_splits)

lemma pf_frontierOf_Inr:
  assumes "pf_frontierOf (JObject r) = Inr f"
  shows "map_of r ''frontier'' = map_option (\<lambda>f. JArray (map JString f)) f"
    and "f = Some heads \<Longrightarrow> valid_frontier (JArray (map JString heads)) = Some heads"
proof -
  have "map_of r ''frontier'' = map_option (\<lambda>f. JArray (map JString f)) f \<and>
      (f = Some heads \<longrightarrow> valid_frontier (JArray (map JString heads)) = Some heads)"
  proof (cases "map_of r ''frontier''")
    case (Some v)
    with assms obtain hs where "valid_frontier v = Some hs" "f = Some hs"
      by (auto simp: pf_frontierOf_def split: option.splits)
    with Some valid_frontier_json [of v hs] show ?thesis by auto
  qed (use assms in \<open>auto simp: pf_frontierOf_def\<close>)
  then show "map_of r ''frontier'' = map_option (\<lambda>f. JArray (map JString f)) f"
    "f = Some heads \<Longrightarrow> valid_frontier (JArray (map JString heads)) = Some heads" by blast+
qed

lemma decoded:
  assumes "proof_fromPrimitives L v = Inr p"
  obtains r sg where "v = JObject r"
    and "length r = length (frontierFields (pf_frontier p) @ proof_fields)"
    and "\<And>k. k \<in> fst ` set (body_entries p) \<Longrightarrow> k \<noteq> ''author'' \<Longrightarrow> map_of r k = map_of (body_entries p) k"
    and "pf_authorOf (map_of r ''author'') = Inr (pf_author p)"
    and "map_of r ''signature'' = Some (JString sg)" and "lib_signature L sg = Some (pf_signature p)"
    and "0 < js_length sg" and "js_length sg \<le> MAX_TEXT"
    and "proof_ok L p"
proof -
  from assms obtain r where v: "v = JObject r" by (auto simp: proof_fromPrimitives_def pf_readers)
  from assms v obtain sg where
    f: "pf_frontierOf (JObject r) = Inr (pf_frontier p)"
    and n: "length r = length (frontierFields (pf_frontier p) @ proof_fields)"
    and ver: "map_of r ''version'' = Some (JInt 2)"
    and sequence: "pf_counter (map_of r ''sequence'') = Inr (pf_sequence p)"
    and pre: "pf_predecessorOf (map_of r ''predecessor'') = Inr (pf_predecessor p)"
    and first: "(pf_predecessor p = None) = (pf_sequence p = 0)"
    and author: "pf_authorOf (map_of r ''author'') = Inr (pf_author p)"
    and kind: "pf_kindOf (map_of r ''kind'') = Inr (pf_kind p)"
    and opid: "pf_pattern (map_of r ''operationId'') isOperationId = Inr (pf_operationId p)"
    and payload: "pf_pattern (map_of r ''payloadDigest'') isDigest = Inr (pf_payloadDigest p)"
    and recordId: "pf_text (map_of r ''recordId'') = Inr (pf_recordId p)"
    and store: "pf_text (map_of r ''store'') = Inr (pf_store p)"
    and sg: "pf_text (map_of r ''signature'') = Inr sg"
    and sig: "lib_signature L sg = Some (pf_signature p)"
    by (auto simp: proof_fromPrimitives_def pf_exact_Inr split: option.splits)
  have ok: "proof_ok L p"
    using f sequence pre first pf_authorOf_json [OF author] opid payload recordId store pf_frontierOf_Inr(2) [OF f]
    by (auto simp: proof_ok_def pf_readers split: option.splits)
  have "map_of r k = map_of (body_entries p) k"
    if "k \<in> fst ` set (body_entries p)" "k \<noteq> ''author''" for k
    using that ver sequence pre kind opid payload recordId store pf_frontierOf_Inr(1) [OF f]
    by (auto simp: body_entries_def pf_readers split: option.splits if_splits)
  then show ?thesis using that v n author sg sig ok by (simp add: pf_text_Inr)
qed

lemma encoded:
  assumes ok: "proof_ok L p" and sig: "lib_signature L (pf_signature p) = Some (pf_signature p)"
    "0 < js_length (pf_signature p)" "js_length (pf_signature p) \<le> MAX_TEXT"
  shows "proof_fromPrimitives L (proof_toPrimitives p) = Inr p"
proof -
  let ?r = "body_entries p @ [(''signature'', JString (pf_signature p))]"
  have frontier: "pf_frontierOf (JObject ?r) = Inr (pf_frontier p)"
    using ok by (auto simp: pf_frontierOf_def body_entries_def proof_ok_def split: option.splits)
  have exact: "pf_exact (Some (JObject ?r)) (frontierFields (pf_frontier p) @ proof_fields) = Inr ?r"
    by (auto simp: pf_exact_Inr body_entries_def frontierFields_def proof_fields_def split: option.splits)
  have "map_of ?r ''version'' = Some (JInt 2)" "map_of ?r ''sequence'' = Some (JInt (pf_sequence p))"
      "map_of ?r ''predecessor'' = Some (case pf_predecessor p of None \<Rightarrow> JNull | Some d \<Rightarrow> JString d)"
      "map_of ?r ''author'' = Some (author_json (pf_author p))"
      "map_of ?r ''kind'' = Some (JString (mutation_kind_value (pf_kind p)))"
      "map_of ?r ''operationId'' = Some (JString (pf_operationId p))"
      "map_of ?r ''payloadDigest'' = Some (JString (pf_payloadDigest p))"
      "map_of ?r ''recordId'' = Some (JString (pf_recordId p))" "map_of ?r ''store'' = Some (JString (pf_store p))"
      "map_of ?r ''signature'' = Some (JString (pf_signature p))"
    by (auto simp: body_entries_def split: option.splits)
  note entries = this
  have "pf_counter (map_of ?r ''sequence'') = Inr (pf_sequence p)"
      "pf_predecessorOf (map_of ?r ''predecessor'') = Inr (pf_predecessor p)"
      "pf_authorOf (map_of ?r ''author'') = Inr (pf_author p)" "pf_kindOf (map_of ?r ''kind'') = Inr (pf_kind p)"
      "pf_pattern (map_of ?r ''operationId'') isOperationId = Inr (pf_operationId p)"
      "pf_pattern (map_of ?r ''payloadDigest'') isDigest = Inr (pf_payloadDigest p)"
      "pf_text (map_of ?r ''recordId'') = Inr (pf_recordId p)" "pf_text (map_of ?r ''store'') = Inr (pf_store p)"
      "pf_text (map_of ?r ''signature'') = Inr (pf_signature p)"
    using ok sig unfolding entries proof_ok_def
    by (auto simp: pf_counter_Inr pf_predecessorOf_Inr pf_kindOf_Inr pf_pattern_Inr pf_text_Inr split: option.splits)
  then show ?thesis
    using ok sig(1) entries(1) frontier exact by (simp add: proof_fromPrimitives_def proof_toPrimitives_def proof_ok_def)
qed

section \<open>A place that keeps the stronger record\<close>

text \<open>
  \<open>rank\<close> orders the records of one place, the strongest first; \<open>place\<close> is what the place holds
  once a record has arrived. What it holds in the end is the strongest record that arrived,
  whatever the order and the repetitions.
\<close>

fun foldR :: "('r option \<Rightarrow> 'r \<Rightarrow> 'e + 'r) \<Rightarrow> 'r option \<Rightarrow> 'r list \<Rightarrow> 'e + 'r option" where
  "foldR place c [] = Inr c"
| "foldR place c (r # rs) = bindR (place c r) (\<lambda>m. foldR place (Some m) rs)"

locale register =
  fixes valid :: "'r \<Rightarrow> bool"
    and rank :: "'r \<Rightarrow> 'k::linorder"
    and place :: "'r option \<Rightarrow> 'r \<Rightarrow> 'e + 'r"
  assumes place_first: "place None r = Inr r"
    and place_valid: "valid c \<Longrightarrow> valid r \<Longrightarrow> place (Some c) r = Inr (if rank c < rank r then c else r)"
begin

lemma placed_from:
  assumes "\<forall>r \<in> set (c # rs). valid r"
  shows "\<exists>m \<in> set (c # rs). foldR place (Some c) rs = Inr (Some m) \<and> (\<forall>r \<in> set (c # rs). rank m \<le> rank r)"
  using assms
proof (induction rs arbitrary: c)
  case (Cons r rs)
  let ?m = "if rank c < rank r then c else r"
  have v: "valid c" "valid r" "\<forall>x \<in> set (?m # rs). valid x" using Cons.prems by auto
  from Cons.IH [OF v(3)] obtain m where m: "m \<in> set (?m # rs)" "foldR place (Some ?m) rs = Inr (Some m)"
      "\<forall>x \<in> set (?m # rs). rank m \<le> rank x" by blast
  have "rank ?m \<le> rank c" "rank ?m \<le> rank r" by auto
  with m(3) have "\<forall>x \<in> set (c # r # rs). rank m \<le> rank x" by force
  moreover have "m \<in> set (c # r # rs)" using m(1) by (auto split: if_splits)
  moreover have "foldR place (Some c) (r # rs) = Inr (Some m)" using m(2) place_valid [OF v(1,2)] by simp
  ultimately show ?case by blast
qed auto

lemma placed:
  assumes "\<forall>r \<in> set rs. valid r" and "rs \<noteq> []"
  obtains m where "m \<in> set rs" "foldR place None rs = Inr (Some m)" "\<And>r. r \<in> set rs \<Longrightarrow> rank m \<le> rank r"
proof (cases rs)
  case (Cons r rs')
  with placed_from [of r rs'] assms(1) that show ?thesis by (auto simp: place_first)
qed (use assms(2) in simp)

lemma placed_total: "\<forall>r \<in> set rs. valid r \<Longrightarrow> \<exists>m. foldR place None rs = Inr m"
  by (cases "rs = []") (auto elim: placed)

lemma placed_same:
  assumes "\<forall>r \<in> set rs. valid r" and "set rs = set rs'" and "inj_on rank (set rs)"
  shows "foldR place None rs = foldR place None rs'"
proof (cases "rs = []")
  case False
  then have "rs' \<noteq> []" using assms(2) by auto
  obtain m where m: "m \<in> set rs" "foldR place None rs = Inr (Some m)" "\<And>r. r \<in> set rs \<Longrightarrow> rank m \<le> rank r"
    using placed [OF assms(1) False] by blast
  obtain m' where m': "m' \<in> set rs'" "foldR place None rs' = Inr (Some m')" "\<And>r. r \<in> set rs' \<Longrightarrow> rank m' \<le> rank r"
    using placed [of rs'] assms \<open>rs' \<noteq> []\<close> by blast
  have "rank m = rank m'" using m(1,3) m'(1,3) assms(2) by (intro order_antisym) auto
  then have "m = m'" using assms(2,3) m(1) m'(1) by (auto dest: inj_onD)
  then show ?thesis using m(2) m'(2) by simp
qed (use assms(2) in simp)

end

text \<open>The order of the records that carry a proof with a digest.\<close>

definition mutation_rank :: "lib \<Rightarrow> public_record \<Rightarrow> int \<times> string" where
  "mutation_rank L r =
     (case proofOf L r of
        None \<Rightarrow> (0, [])
      | Some p \<Rightarrow> (- pf_sequence p, case proof_digest L p of Inl _ \<Rightarrow> [] | Inr d \<Rightarrow> d))"

definition carries_proof :: "lib \<Rightarrow> public_record \<Rightarrow> bool" where
  "carries_proof L r \<longleftrightarrow>
     (case proofOf L r of None \<Rightarrow> False | Some p \<Rightarrow> isOK (proof_digest L p))"

lemma carries_proofE:
  assumes "carries_proof L r"
  obtains p d where "proofOf L r = Some p" "proof_digest L p = Inr d"
  using assms by (auto simp: carries_proof_def isOK_iff split: option.splits)

lemma winsOver_rank:
  assumes "proofOf L r = Some p" and "proof_digest L p = Inr d" and "proofOf L r' = Some q" and "proof_digest L q = Inr d'"
  shows "winsOver L p q = Inr (mutation_rank L r < mutation_rank L r')"
  using assms by (auto simp: winsOver_def mutation_rank_def)

lemma record_replaces_rank:
  assumes "carries_proof L c" and "carries_proof L r"
  shows "record_replaces L c r = Inr (Some (\<not> mutation_rank L c < mutation_rank L r))"
  using assms by (elim carries_proofE) (simp add: record_replaces_def winsOver_rank)

end
