(* ===== verification/MutationGate.thy ===== *)
theory MutationGate
  imports PublicMutations
begin

text \<open>
  The admission of a replicated public record (\<open>PublicMutationRecordShape.ts\<close>,
  \<open>PublicMutationVerifier.ts\<close>, \<open>PublicMutationPolicy.ts\<close> and
  \<open>infrastructure/PublicMutationGate.ts\<close> under \<open>src/contexts/public-mutations\<close>): the closed set
  of fields, what the proof must be bound to, and the verdict. A policy of a collection is a
  record of its operations; the authorization of devices is a parameter, the abstract port of
  the code.
\<close>

section \<open>The shape of a record\<close>

record record_shape =
  sh_strings :: "string list"
  sh_integers :: "string list"
  sh_scopeType :: string
  sh_booleans :: "string list"
  sh_objects :: "string list"
  sh_arrays :: "string list"
  sh_putStrings :: "string list"
  sh_optionalIntegers :: "string list"
  sh_optionalObjects :: "string list"
  sh_optionalStrings :: "string list"

definition new_shape :: "string list \<Rightarrow> string list \<Rightarrow> string \<Rightarrow> record_shape" where
  "new_shape strings integers scope =
     \<lparr>sh_strings = strings, sh_integers = integers, sh_scopeType = scope, sh_booleans = [], sh_objects = [],
      sh_arrays = [], sh_putStrings = [], sh_optionalIntegers = [], sh_optionalObjects = [], sh_optionalStrings = []\<rparr>"

definition optionalFields :: "record_shape \<Rightarrow> string list" where
  "optionalFields sh = sh_optionalIntegers sh @ sh_optionalObjects sh @ sh_optionalStrings sh"

definition requiredFields :: "record_shape \<Rightarrow> string list \<Rightarrow> string list" where
  "requiredFields sh extra =
     sh_strings sh @ sh_integers sh @ sh_putStrings sh @ sh_booleans sh @ sh_objects sh @ sh_arrays sh
     @ ''scopeType'' # extra"

definition hasKeysOf :: "record_shape \<Rightarrow> public_record \<Rightarrow> string list \<Rightarrow> bool" where
  "hasKeysOf sh r extra \<longleftrightarrow>
     list_all (\<lambda>f. map_of r f \<noteq> None) (requiredFields sh extra) \<and>
     list_all (\<lambda>kv. fst kv \<in> set (requiredFields sh extra @ optionalFields sh)) r"

fun is_string :: "json option \<Rightarrow> bool" where
  "is_string (Some (JString s)) = True"
| "is_string _ = False"

fun is_boolean :: "json option \<Rightarrow> bool" where
  "is_boolean (Some (JBool b)) = True"
| "is_boolean _ = False"

fun is_array :: "json option \<Rightarrow> bool" where
  "is_array (Some (JArray xs)) = True"
| "is_array _ = False"

fun is_object :: "json option \<Rightarrow> bool" where
  "is_object (Some (JObject kvs)) = True"
| "is_object _ = False"

text \<open>\<open>Number.isSafeInteger\<close>\<close>

fun is_safe_integer :: "json option \<Rightarrow> bool" where
  "is_safe_integer (Some (JInt n)) = safe_integer n"
| "is_safe_integer _ = False"

definition absent_or_null :: "json option \<Rightarrow> bool" where
  "absent_or_null v \<longleftrightarrow> v = None \<or> v = Some JNull"

definition hasValidScalars :: "record_shape \<Rightarrow> public_record \<Rightarrow> bool" where
  "hasValidScalars sh r \<longleftrightarrow>
     list_all (\<lambda>f. map_of r f = None \<or> is_string (map_of r f)) (sh_optionalStrings sh) \<and>
     list_all (\<lambda>f. is_string (map_of r f)) (sh_strings sh @ sh_putStrings sh) \<and>
     list_all (\<lambda>f. is_safe_integer (map_of r f)) (sh_integers sh) \<and>
     list_all (\<lambda>f. is_boolean (map_of r f)) (sh_booleans sh)"

definition hasValidStructures :: "record_shape \<Rightarrow> public_record \<Rightarrow> bool" where
  "hasValidStructures sh r \<longleftrightarrow>
     list_all (\<lambda>f. is_object (map_of r f)) (sh_objects sh) \<and>
     list_all (\<lambda>f. is_array (map_of r f)) (sh_arrays sh) \<and>
     list_all (\<lambda>f. absent_or_null (map_of r f) \<or> is_object (map_of r f)) (sh_optionalObjects sh) \<and>
     list_all (\<lambda>f. absent_or_null (map_of r f) \<or> is_safe_integer (map_of r f)) (sh_optionalIntegers sh)"

definition hasValidValues :: "record_shape \<Rightarrow> public_record \<Rightarrow> bool" where
  "hasValidValues sh r \<longleftrightarrow>
     map_of r ''scopeType'' = Some (JString (sh_scopeType sh)) \<and> hasValidScalars sh r \<and> hasValidStructures sh r"

definition assertShape :: "record_shape \<Rightarrow> public_record \<Rightarrow> mutation_error + unit" where
  "assertShape sh r =
     (let tombstone = (map_of r ''removed'' = Some (JBool True));
          shape = (if tombstone then new_shape (sh_strings sh) [] (sh_scopeType sh) else sh) in
      bindR (ensure (hasKeysOf shape r (if tombstone then [''removed''] else [])) InvalidPublicMutationError) (\<lambda>_.
        ensure (hasValidValues shape r) InvalidPublicMutationError))"

section \<open>Verification\<close>

record expectation =
  ex_store :: string
  ex_recordId :: string
  ex_authorIdentityId :: "string option"

text \<open>
  What judging a record may fail with: a domain error about the record, a record that waits on
  replicated state, a node that is not ready, any other failure.
\<close>

datatype judge_error = Refused | Pending | NotReady | NodeFailure

type_synonym authorization = "mutation_author \<Rightarrow> judge_error + bool"

definition assertBoundTo :: "lib \<Rightarrow> mutation_proof \<Rightarrow> expectation \<Rightarrow> public_record \<Rightarrow> mutation_error + unit" where
  "assertBoundTo L p e payload =
     (let sameScope = (pf_store p = ex_store e \<and> pf_recordId p = ex_recordId e);
          sameAuthor = (case ex_authorIdentityId e of None \<Rightarrow> True | Some i \<Rightarrow> ma_identityId (pf_author p) = i) in
      if \<not> sameScope \<or> \<not> sameAuthor then Inl InvalidPublicMutationError
      else bindR (mutation_digestOf L (JObject payload)) (\<lambda>d.
             ensure (pf_payloadDigest p = d) InvalidPublicMutationError))"

definition isSignedByDevice :: "lib \<Rightarrow> mutation_proof \<Rightarrow> bool" where
  "isSignedByDevice L p \<longleftrightarrow>
     (case lib_identity L (ma_deviceCredential (pf_author p)) of
        None \<Rightarrow> False
      | Some key \<Rightarrow>
          (case signingContent L p of Inl _ \<Rightarrow> False | Inr content \<Rightarrow> lib_verify L key content (pf_signature p)))"

definition assertIntrinsic :: "lib \<Rightarrow> mutation_proof \<Rightarrow> expectation \<Rightarrow> public_record \<Rightarrow> mutation_error + unit" where
  "assertIntrinsic L p e payload =
     bindR (assertBoundTo L p e payload) (\<lambda>_. ensure (isSignedByDevice L p) InvalidPublicMutationError)"

definition assertAuthorized :: "authorization \<Rightarrow> mutation_proof \<Rightarrow> judge_error + unit" where
  "assertAuthorized A p = bindR (A (pf_author p)) (\<lambda>yes. ensure yes Refused)"

section \<open>The gate\<close>

text \<open>\<open>pol_assertPermitted\<close> is judged against what the node holds at that moment.\<close>

record policy =
  pol_collection :: string
  pol_scopeType :: string
  pol_requiresFrontier :: bool
  pol_expectationOf :: "public_record \<Rightarrow> mutation_error + expectation"
  pol_assertPermitted :: "public_record \<Rightarrow> string \<Rightarrow> bool \<Rightarrow> string list \<Rightarrow> judge_error + unit"

datatype verdict = VerdictAccepted | VerdictPending | VerdictRefused

definition isRefusal :: "judge_error \<Rightarrow> bool" where
  "isRefusal e \<longleftrightarrow> e = Refused"

definition intrinsicProof :: "lib \<Rightarrow> policy \<Rightarrow> public_record \<Rightarrow> mutation_proof option" where
  "intrinsicProof L pol r =
     (let payload = payloadOf r in
      case proofOf L r of
        None \<Rightarrow> None
      | Some p \<Rightarrow>
          if isDeletion p \<noteq> (map_of payload ''removed'' = Some (JBool True)) then None
          else if pol_requiresFrontier pol \<noteq> (pf_frontier p \<noteq> None) then None
          else (case bindR (pol_expectationOf pol payload) (\<lambda>e. assertIntrinsic L p e payload) of
                  Inl _ \<Rightarrow> None | Inr _ \<Rightarrow> Some p))"

definition governs :: "policy list \<Rightarrow> string \<Rightarrow> bool" where
  "governs pols collection \<longleftrightarrow> collection \<in> set (map pol_collection pols)"

text \<open>
  The map of policies by collection and scope type: of two with the same key the last one.
  A scope type that is no text names no policy of the code.
\<close>

definition policyFor :: "policy list \<Rightarrow> string \<Rightarrow> json option \<Rightarrow> policy option" where
  "policyFor pols collection scope =
     find (\<lambda>pol. pol_collection pol = collection \<and> scope = Some (JString (pol_scopeType pol))) (rev pols)"

definition verdictOf :: "lib \<Rightarrow> authorization \<Rightarrow> policy list \<Rightarrow> string \<Rightarrow> public_record \<Rightarrow> verdict" where
  "verdictOf L A pols collection r =
     (if \<not> governs pols collection then VerdictAccepted
      else case policyFor pols collection (map_of r ''scopeType'') of
        None \<Rightarrow> VerdictRefused
      | Some pol \<Rightarrow>
          (case intrinsicProof L pol r of
             None \<Rightarrow> VerdictRefused
           | Some p \<Rightarrow>
               (case bindR (assertAuthorized A p) (\<lambda>_.
                       pol_assertPermitted pol (payloadOf r) (ma_identityId (pf_author p)) (isDeletion p)
                         (case pf_frontier p of None \<Rightarrow> [] | Some f \<Rightarrow> f)) of
                  Inr _ \<Rightarrow> VerdictAccepted
                | Inl e \<Rightarrow> if isRefusal e then VerdictRefused else VerdictPending)))"

section \<open>What an accepted record is\<close>

lemma intrinsicProof_Some:
  assumes "intrinsicProof L pol r = Some p"
  obtains e where "proofOf L r = Some p" "pol_expectationOf pol (payloadOf r) = Inr e"
    "pf_store p = ex_store e" "pf_recordId p = ex_recordId e"
    "\<And>i. ex_authorIdentityId e = Some i \<Longrightarrow> ma_identityId (pf_author p) = i"
    "lib_digest L (JObject (payloadOf r)) = Some (pf_payloadDigest p)" "isSignedByDevice L p"
    "isDeletion p = (map_of (payloadOf r) ''removed'' = Some (JBool True))"
proof -
  from assms have pr: "proofOf L r = Some p"
    by (auto simp: intrinsicProof_def Let_def split: option.splits sum.splits if_splits)
  with assms obtain e where e: "pol_expectationOf pol (payloadOf r) = Inr e" "assertIntrinsic L p e (payloadOf r) = Inr ()"
    and d: "isDeletion p = (map_of (payloadOf r) ''removed'' = Some (JBool True))"
    by (auto simp: intrinsicProof_def Let_def split: option.splits sum.splits if_splits)
  from e(2) have "pf_store p = ex_store e \<and> pf_recordId p = ex_recordId e"
    and "\<forall>i. ex_authorIdentityId e = Some i \<longrightarrow> ma_identityId (pf_author p) = i"
    and "lib_digest L (JObject (payloadOf r)) = Some (pf_payloadDigest p)" and "isSignedByDevice L p"
    by (auto simp: assertIntrinsic_def assertBoundTo_def mutation_digestOf_def Let_def
        split: if_splits option.splits)
  then show ?thesis using that [OF pr e(1)] d by simp
qed

lemma policyFor_Some:
  assumes "policyFor pols collection scope = Some pol"
  shows "pol \<in> set pols" "pol_collection pol = collection" "scope = Some (JString (pol_scopeType pol))"
  using find_Some_iff' [OF assms [unfolded policyFor_def]] by simp_all

lemma verdictOf_accepted:
  assumes "governs pols collection" and "verdictOf L A pols collection r = VerdictAccepted"
  obtains pol p where "policyFor pols collection (map_of r ''scopeType'') = Some pol" "intrinsicProof L pol r = Some p"
    "A (pf_author p) = Inr True"
    "pol_assertPermitted pol (payloadOf r) (ma_identityId (pf_author p)) (isDeletion p)
       (case pf_frontier p of None \<Rightarrow> [] | Some f \<Rightarrow> f) = Inr ()"
  using assms
  by (auto simp: verdictOf_def assertAuthorized_def bindR_eq_Inl split: option.splits sum.splits if_splits)

end
