(* ===== verification/Calls.thy ===== *)
theory Calls
  imports Values
begin

text \<open>
  A call and its participants (\<open>Call.ts\<close>, \<open>CallParticipant.ts\<close>, \<open>CallLifecycle.ts\<close>,
  \<open>CallScope.ts\<close>, \<open>CallOrigin.ts\<close> under \<open>src/contexts/calls/domain\<close>): every method that changes
  a call, the events it records, the primitives it is read from and written to, the step
  relation of a call and what each reachable call satisfies. The array of participants holds
  objects that are changed in place: \<open>update_first\<close> is the change of the one \<open>find\<close> returns.
\<close>

section \<open>Values\<close>

datatype call_error =
    CallValueError
  | CallParticipantNotFoundError
  | CallSignalMismatchError
  | InactiveCallError
  | InvalidCallScopeError
  | InvalidCallSignalError
  | InvalidCallSessionEpochError
  | InvalidCallNonceError
  | InvalidCallSignalDeliveryAttemptError
  | CallSignalRecipientMismatchError
  | InvalidCallParticipantMediaConnectionError

definition call_value :: "'a option \<Rightarrow> call_error + 'a" where
  "call_value r = (case r of None \<Rightarrow> Inl CallValueError | Some v \<Rightarrow> Inr v)"

definition call_timestamp :: "lib \<Rightarrow> int \<Rightarrow> call_error + timestamp" where
  "call_timestamp L t = (if lib_timestamp L t then Inr t else Inl CallValueError)"

datatype call_status = CALL_ACTIVE | CALL_ENDED | CALL_MISSED

fun call_status_value :: "call_status \<Rightarrow> string" where
  "call_status_value CALL_ACTIVE = ''active''"
| "call_status_value CALL_ENDED = ''ended''"
| "call_status_value CALL_MISSED = ''missed''"

definition new_CallStatus :: "lib \<Rightarrow> string \<Rightarrow> call_error + call_status" where
  "new_CallStatus L s =
     bindR (call_value (lib_text L (Some 16) s)) (\<lambda>s.
      case find (\<lambda>x. call_status_value x = s) [CALL_ACTIVE, CALL_ENDED, CALL_MISSED] of
        None \<Rightarrow> Inl InactiveCallError | Some x \<Rightarrow> Inr x)"

datatype participant_status = DECLINED_PARTICIPANT | JOINED | LEFT | MISSED | RINGING

fun participant_status_value :: "participant_status \<Rightarrow> string" where
  "participant_status_value DECLINED_PARTICIPANT = ''declined''"
| "participant_status_value JOINED = ''joined''"
| "participant_status_value LEFT = ''left''"
| "participant_status_value MISSED = ''missed''"
| "participant_status_value RINGING = ''ringing''"

definition new_CallParticipantStatus :: "lib \<Rightarrow> string \<Rightarrow> call_error + participant_status" where
  "new_CallParticipantStatus L s =
     bindR (call_value (lib_text L (Some 16) s)) (\<lambda>s.
      case find (\<lambda>x. participant_status_value x = s) [DECLINED_PARTICIPANT, JOINED, LEFT, MISSED, RINGING] of
        None \<Rightarrow> Inl InactiveCallError | Some x \<Rightarrow> Inr x)"

definition status_isActiveReceiver :: "participant_status \<Rightarrow> bool" where
  "status_isActiveReceiver s \<longleftrightarrow> s = JOINED \<or> s = RINGING"

datatype scope_type = COMMUNITY_CHANNEL | CONVERSATION | GROUP_CAPABILITY

fun scope_type_value :: "scope_type \<Rightarrow> string" where
  "scope_type_value COMMUNITY_CHANNEL = ''community_channel''"
| "scope_type_value CONVERSATION = ''conversation''"
| "scope_type_value GROUP_CAPABILITY = ''group_capability''"

definition new_CallScopeType :: "lib \<Rightarrow> string \<Rightarrow> call_error + scope_type" where
  "new_CallScopeType L s =
     bindR (call_value (lib_text L (Some 32) s)) (\<lambda>s.
      case find (\<lambda>x. scope_type_value x = s) [COMMUNITY_CHANNEL, CONVERSATION, GROUP_CAPABILITY] of
        None \<Rightarrow> Inl InvalidCallScopeError | Some x \<Rightarrow> Inr x)"

record call_scope =
  sc_type :: scope_type
  sc_conversationId :: "string option"
  sc_communityId :: "string option"
  sc_channelId :: "string option"
  sc_capabilityHash :: "string option"

definition isConversation :: "call_scope \<Rightarrow> bool" where
  "isConversation sc \<longleftrightarrow> sc_type sc = CONVERSATION"

definition isLeaseRostered :: "call_scope \<Rightarrow> bool" where
  "isLeaseRostered sc \<longleftrightarrow> \<not> isConversation sc"

section \<open>Participants\<close>

record participant =
  pt_identityId :: identity_id
  pt_status :: participant_status
  pt_joinedAt :: "timestamp option"
  pt_leftAt :: "timestamp option"
  pt_declinedAt :: "timestamp option"
  pt_missedAt :: "timestamp option"

definition participant_joined :: "identity_id \<Rightarrow> timestamp \<Rightarrow> participant" where
  "participant_joined i t = \<lparr>pt_identityId = i, pt_status = JOINED, pt_joinedAt = Some t,
     pt_leftAt = None, pt_declinedAt = None, pt_missedAt = None\<rparr>"

definition participant_ringing :: "identity_id \<Rightarrow> participant" where
  "participant_ringing i = \<lparr>pt_identityId = i, pt_status = RINGING, pt_joinedAt = None,
     pt_leftAt = None, pt_declinedAt = None, pt_missedAt = None\<rparr>"

definition participant_decline :: "timestamp \<Rightarrow> participant \<Rightarrow> participant" where
  "participant_decline t p = p\<lparr>pt_status := DECLINED_PARTICIPANT, pt_declinedAt := Some t\<rparr>"

definition participant_join :: "timestamp \<Rightarrow> participant \<Rightarrow> participant" where
  "participant_join t p = p\<lparr>pt_status := JOINED, pt_joinedAt := Some t, pt_leftAt := None,
     pt_declinedAt := None, pt_missedAt := None\<rparr>"

definition participant_leave :: "timestamp \<Rightarrow> participant \<Rightarrow> participant" where
  "participant_leave t p = p\<lparr>pt_status := LEFT, pt_leftAt := Some t\<rparr>"

definition participant_miss :: "timestamp \<Rightarrow> participant \<Rightarrow> participant" where
  "participant_miss t p = p\<lparr>pt_status := MISSED, pt_missedAt := Some t\<rparr>"

lemmas participant_defs = participant_joined_def participant_ringing_def participant_decline_def
  participant_join_def participant_leave_def participant_miss_def

section \<open>The life of a call\<close>

record lifecycle =
  lc_status :: call_status
  lc_createdAt :: timestamp
  lc_endedAt :: "timestamp option"
  lc_endedByIdentityId :: "string option"
  lc_supersededByCallId :: "string option"

definition lifecycle_active :: "timestamp \<Rightarrow> lifecycle" where
  "lifecycle_active t = \<lparr>lc_status = CALL_ACTIVE, lc_createdAt = t, lc_endedAt = None,
     lc_endedByIdentityId = None, lc_supersededByCallId = None\<rparr>"

definition lifecycle_end :: "string \<Rightarrow> timestamp \<Rightarrow> lifecycle \<Rightarrow> lifecycle" where
  "lifecycle_end i t l = l\<lparr>lc_status := CALL_ENDED, lc_endedAt := Some t, lc_endedByIdentityId := Some i\<rparr>"

definition lifecycle_expire :: "timestamp \<Rightarrow> lifecycle \<Rightarrow> lifecycle" where
  "lifecycle_expire t l = l\<lparr>lc_status := CALL_ENDED, lc_endedAt := Some t\<rparr>"

definition lifecycle_miss :: "timestamp \<Rightarrow> lifecycle \<Rightarrow> lifecycle" where
  "lifecycle_miss t l = l\<lparr>lc_status := CALL_MISSED, lc_endedAt := Some t\<rparr>"

lemmas lifecycle_defs = lifecycle_active_def lifecycle_end_def lifecycle_expire_def lifecycle_miss_def

section \<open>The aggregate\<close>

text \<open>
  The attributes every event of a call carries, and what each event adds. An event is recorded
  with the state the call has at that moment.
\<close>

record event_base =
  eb_callId :: string
  eb_createdAt :: timestamp
  eb_creatorIdentityId :: identity_id
  eb_endedAt :: "timestamp option"
  eb_endedByIdentityId :: "string option"
  eb_networkId :: network_id
  eb_participantIds :: "identity_id list"
  eb_participants :: "participant list"
  eb_scope :: call_scope
  eb_status :: call_status
  eb_sessionEpoch :: "int option"

datatype call_event =
    CallStartedEvent event_base identity_id
  | CallParticipantJoinedEvent event_base identity_id
  | CallParticipantLeftEvent event_base identity_id
  | CallParticipantDeclinedEvent event_base identity_id
  | CallParticipantMissedEvent event_base identity_id
  | CallMissedEvent event_base "identity_id list"
  | CallEndedEvent event_base "identity_id option"

record call =
  cl_id :: string
  cl_creator :: identity_id
  cl_nonce :: string
  cl_networkId :: network_id
  cl_scope :: call_scope
  cl_participants :: "participant list"
  cl_lifecycle :: lifecycle
  cl_sessionEpoch :: "int option"
  cl_events :: "call_event list"

definition ONE_TO_ONE_PARTICIPANTS :: nat where
  "ONE_TO_ONE_PARTICIPANTS = 2"

definition baseEventAttributes :: "call \<Rightarrow> event_base" where
  "baseEventAttributes c =
     \<lparr>eb_callId = cl_id c, eb_createdAt = lc_createdAt (cl_lifecycle c), eb_creatorIdentityId = cl_creator c,
      eb_endedAt = lc_endedAt (cl_lifecycle c), eb_endedByIdentityId = lc_endedByIdentityId (cl_lifecycle c),
      eb_networkId = cl_networkId c,
      eb_participantIds = (if isLeaseRostered (cl_scope c) then [] else map pt_identityId (cl_participants c)),
      eb_participants = (if isLeaseRostered (cl_scope c) then [] else cl_participants c),
      eb_scope = cl_scope c, eb_status = lc_status (cl_lifecycle c), eb_sessionEpoch = cl_sessionEpoch c\<rparr>"

definition call_record :: "call_event \<Rightarrow> call \<Rightarrow> call" where
  "call_record e c = c\<lparr>cl_events := cl_events c @ [e]\<rparr>"

definition call_fromStart :: "lib \<Rightarrow> identity_id \<Rightarrow> string \<Rightarrow> call_error + string" where
  "call_fromStart L creator nonce = call_value (lib_uuid L (lib_commit_call L creator nonce))"

definition call_begin :: "lib \<Rightarrow> identity_id \<Rightarrow> network_id \<Rightarrow> call_scope \<Rightarrow> identity_id list \<Rightarrow> string
    \<Rightarrow> timestamp \<Rightarrow> int option \<Rightarrow> call_error + call" where
  "call_begin L creator network scope participantIds nonce startedAt sessionEpoch =
     bindR (call_fromStart L creator nonce) (\<lambda>cid.
       let c = \<lparr>cl_id = cid, cl_creator = creator, cl_nonce = nonce, cl_networkId = network, cl_scope = scope,
                cl_participants = participant_joined creator startedAt
                   # map participant_ringing (filter (\<lambda>p. p \<noteq> creator) participantIds),
                cl_lifecycle = lifecycle_active startedAt, cl_sessionEpoch = sessionEpoch, cl_events = []\<rparr>
       in Inr (call_record (CallStartedEvent (baseEventAttributes c) creator) c))"

definition call_isActive :: "call \<Rightarrow> bool" where
  "call_isActive c \<longleftrightarrow> lc_status (cl_lifecycle c) = CALL_ACTIVE"

definition assertActive :: "call \<Rightarrow> call_error + unit" where
  "assertActive c = ensure (call_isActive c) InactiveCallError"

definition findParticipant :: "call \<Rightarrow> identity_id \<Rightarrow> participant option" where
  "findParticipant c i = find (\<lambda>p. pt_identityId p = i) (cl_participants c)"

text \<open>The change of the participant that \<open>findParticipant\<close> returns.\<close>

definition changeParticipant :: "identity_id \<Rightarrow> (participant \<Rightarrow> participant) \<Rightarrow> call \<Rightarrow> call" where
  "changeParticipant i f c = c\<lparr>cl_participants := update_first (\<lambda>p. pt_identityId p = i) f (cl_participants c)\<rparr>"

definition hasActiveReceiver :: "call \<Rightarrow> bool" where
  "hasActiveReceiver c \<longleftrightarrow>
     list_ex (\<lambda>p. pt_identityId p \<noteq> cl_creator c \<and> status_isActiveReceiver (pt_status p)) (cl_participants c)"

definition endIfNoReceiversRemain :: "timestamp \<Rightarrow> call \<Rightarrow> call" where
  "endIfNoReceiversRemain t c =
     (if list_ex (\<lambda>p. pt_identityId p \<noteq> cl_creator c \<and> status_isActiveReceiver (pt_status p)) (cl_participants c)
      then c
      else let c' = c\<lparr>cl_lifecycle := lifecycle_miss t (cl_lifecycle c)\<rparr>
           in call_record (CallMissedEvent (baseEventAttributes c') []) c')"

definition call_join :: "identity_id \<Rightarrow> timestamp \<Rightarrow> call \<Rightarrow> call_error + call" where
  "call_join i t c =
     bindR (assertActive c) (\<lambda>_.
     bindR (ensure (findParticipant c i \<noteq> None) CallParticipantNotFoundError) (\<lambda>_.
       let c' = changeParticipant i (participant_join t) c
       in Inr (call_record (CallParticipantJoinedEvent (baseEventAttributes c') i) c')))"

definition call_joinOrAdd :: "identity_id \<Rightarrow> timestamp \<Rightarrow> call \<Rightarrow> call_error + call" where
  "call_joinOrAdd i t c =
     bindR (assertActive c) (\<lambda>_.
       case findParticipant c i of
         Some p \<Rightarrow>
           if pt_status p = JOINED then Inr c
           else let c' = changeParticipant i (participant_join t) c
                in Inr (call_record (CallParticipantJoinedEvent (baseEventAttributes c') i) c')
       | None \<Rightarrow>
           let c' = c\<lparr>cl_participants := cl_participants c @ [participant_joined i t]\<rparr>
           in Inr (call_record (CallParticipantJoinedEvent (baseEventAttributes c') i) c'))"

definition call_leave :: "identity_id \<Rightarrow> timestamp \<Rightarrow> call \<Rightarrow> call_error + call" where
  "call_leave i t c =
     bindR (assertActive c) (\<lambda>_.
       case findParticipant c i of
         None \<Rightarrow> Inl CallParticipantNotFoundError
       | Some p \<Rightarrow>
           if pt_status p = RINGING then
             let c1 = changeParticipant i (participant_decline t) c;
                 c2 = call_record (CallParticipantDeclinedEvent (baseEventAttributes c1) i) c1
             in Inr (endIfNoReceiversRemain t c2)
           else
             let c1 = changeParticipant i (participant_leave t) c;
                 c2 = (if isConversation (cl_scope c1)
                          \<and> (length (cl_participants c1) \<le> ONE_TO_ONE_PARTICIPANTS
                             \<or> \<not> list_ex (\<lambda>q. pt_status q = JOINED) (cl_participants c1))
                       then c1\<lparr>cl_lifecycle := lifecycle_end i t (cl_lifecycle c1)\<rparr> else c1);
                 c3 = call_record (CallParticipantLeftEvent (baseEventAttributes c2) i) c2
             in Inr (if call_isActive c3 then c3
                     else call_record (CallEndedEvent (baseEventAttributes c3) None) c3))"

definition call_end :: "identity_id \<Rightarrow> timestamp \<Rightarrow> call \<Rightarrow> call_error + call" where
  "call_end i t c =
     bindR (assertActive c) (\<lambda>_.
     bindR (ensure (if isLeaseRostered (cl_scope c) then cl_creator c = i
                    else case findParticipant c i of Some p \<Rightarrow> pt_status p = JOINED | None \<Rightarrow> False)
              CallParticipantNotFoundError) (\<lambda>_.
       let c' = c\<lparr>cl_lifecycle := lifecycle_end i t (cl_lifecycle c)\<rparr>
       in Inr (call_record (CallEndedEvent (baseEventAttributes c') (Some i)) c')))"

definition call_endFromRecord :: "identity_id \<Rightarrow> timestamp \<Rightarrow> call \<Rightarrow> call" where
  "call_endFromRecord i t c =
     (if \<not> call_isActive c then c else c\<lparr>cl_lifecycle := lifecycle_end i t (cl_lifecycle c)\<rparr>)"

definition call_expire :: "timestamp \<Rightarrow> call \<Rightarrow> call" where
  "call_expire t c =
     (if \<not> call_isActive c then c else c\<lparr>cl_lifecycle := lifecycle_expire t (cl_lifecycle c)\<rparr>)"

text \<open>One round of the loop of \<open>markTimedOut\<close>: the participant is missed, then the event recorded.\<close>

definition miss_one :: "timestamp \<Rightarrow> nat \<Rightarrow> call \<Rightarrow> call" where
  "miss_one t n c =
     (let c' = c\<lparr>cl_participants := (cl_participants c)[n := participant_miss t (cl_participants c ! n)]\<rparr>
      in call_record (CallParticipantMissedEvent (baseEventAttributes c') (pt_identityId (cl_participants c' ! n))) c')"

definition ringing_positions :: "call \<Rightarrow> nat list" where
  "ringing_positions c =
     filter (\<lambda>n. pt_status (cl_participants c ! n) = RINGING) [0..<length (cl_participants c)]"

definition markTimedOut :: "timestamp \<Rightarrow> call \<Rightarrow> call_error + (call \<times> identity_id list)" where
  "markTimedOut t c =
     bindR (assertActive c) (\<lambda>_.
       let missed = ringing_positions c;
           missedIds = map (\<lambda>n. pt_identityId (cl_participants c ! n)) missed;
           c1 = fold (miss_one t) missed c
       in Inr (if length missed > 0 \<and> \<not> hasActiveReceiver c1
               then let c2 = c1\<lparr>cl_lifecycle := lifecycle_miss t (cl_lifecycle c1)\<rparr>
                    in (call_record (CallMissedEvent (baseEventAttributes c2) missedIds) c2, missedIds)
               else (c1, missedIds)))"

definition restoreLeaseRosteredParticipants :: "identity_id list \<Rightarrow> timestamp \<Rightarrow> call \<Rightarrow> call" where
  "restoreLeaseRosteredParticipants ids now c =
     (if \<not> isLeaseRostered (cl_scope c) then c
      else c\<lparr>cl_participants := map (\<lambda>i. participant_joined i now) ids\<rparr>)"

section \<open>Queries\<close>

definition getActiveParticipants :: "call \<Rightarrow> participant list" where
  "getActiveParticipants c =
     (if call_isActive c then filter (\<lambda>p. status_isActiveReceiver (pt_status p)) (cl_participants c) else [])"

definition getJoinedParticipantIds :: "call \<Rightarrow> identity_id list" where
  "getJoinedParticipantIds c = map pt_identityId (filter (\<lambda>p. pt_status p = JOINED) (cl_participants c))"

definition hasJoinedParticipant :: "call \<Rightarrow> identity_id \<Rightarrow> bool" where
  "hasJoinedParticipant c i \<longleftrightarrow>
     (case findParticipant c i of Some p \<Rightarrow> pt_status p = JOINED | None \<Rightarrow> False)"

definition assertParticipantCanHeartbeat :: "call \<Rightarrow> identity_id \<Rightarrow> call_error + unit" where
  "assertParticipantCanHeartbeat c i =
     bindR (assertActive c) (\<lambda>_. ensure (hasJoinedParticipant c i) CallParticipantNotFoundError)"

definition shouldRecordMissedCall :: "call \<Rightarrow> bool" where
  "shouldRecordMissedCall c \<longleftrightarrow> isConversation (cl_scope c)"

section \<open>Primitives\<close>

text \<open>
  A timestamp of a participant or the end of a call is read with a truth test, so \<open>0\<close> is read
  as absent. The optional properties of a scope are read so too: the empty text is absent.
\<close>

record participant_primitives =
  pp_identityId :: string
  pp_declinedAt :: "int option"
  pp_joinedAt :: "int option"
  pp_leftAt :: "int option"
  pp_missedAt :: "int option"
  pp_status :: string

record scope_primitives =
  sp_capabilityHash :: "string option"
  sp_channelId :: "string option"
  sp_communityId :: "string option"
  sp_conversationId :: "string option"
  sp_type :: string

record call_primitives =
  clp_createdAt :: int
  clp_creatorIdentityId :: string
  clp_endedAt :: "int option"
  clp_endedByIdentityId :: "string option"
  clp_id :: string
  clp_networkId :: string
  clp_nonce :: string
  clp_participantIds :: "string list"
  clp_participants :: "participant_primitives list"
  clp_scope :: scope_primitives
  clp_status :: string
  clp_sessionEpoch :: "int option"
  clp_supersededByCallId :: "string option"

definition participant_toPrimitives :: "participant \<Rightarrow> participant_primitives" where
  "participant_toPrimitives p =
     \<lparr>pp_identityId = pt_identityId p, pp_declinedAt = pt_declinedAt p, pp_joinedAt = pt_joinedAt p,
      pp_leftAt = pt_leftAt p, pp_missedAt = pt_missedAt p, pp_status = participant_status_value (pt_status p)\<rparr>"

text \<open>\<open>value ? new Timestamp(value) : undefined\<close>.\<close>

definition optional_timestamp :: "lib \<Rightarrow> int option \<Rightarrow> call_error + timestamp option" where
  "optional_timestamp L v =
     (case v of None \<Rightarrow> Inr None
      | Some t \<Rightarrow> if t = 0 then Inr None else bindR (call_timestamp L t) (\<lambda>t. Inr (Some t)))"

text \<open>\<open>value ? make(value) : undefined\<close> on a text.\<close>

definition optional_scope_value :: "(string \<Rightarrow> call_error + string) \<Rightarrow> string option \<Rightarrow> call_error + string option" where
  "optional_scope_value f v =
     (case v of None \<Rightarrow> Inr None
      | Some s \<Rightarrow> if s = [] then Inr None else bindR (f s) (\<lambda>s. Inr (Some s)))"

definition participant_fromPrimitives :: "lib \<Rightarrow> participant_primitives \<Rightarrow> call_error + participant" where
  "participant_fromPrimitives L p =
     bindR (call_value (lib_identity L (pp_identityId p))) (\<lambda>i.
     bindR (new_CallParticipantStatus L (pp_status p)) (\<lambda>s.
     bindR (optional_timestamp L (pp_joinedAt p)) (\<lambda>joined.
     bindR (optional_timestamp L (pp_leftAt p)) (\<lambda>left.
     bindR (optional_timestamp L (pp_declinedAt p)) (\<lambda>declined.
     bindR (optional_timestamp L (pp_missedAt p)) (\<lambda>missed.
       Inr \<lparr>pt_identityId = i, pt_status = s, pt_joinedAt = joined, pt_leftAt = left,
            pt_declinedAt = declined, pt_missedAt = missed\<rparr>))))))"

definition scope_toPrimitives :: "call_scope \<Rightarrow> scope_primitives" where
  "scope_toPrimitives sc =
     \<lparr>sp_capabilityHash = sc_capabilityHash sc, sp_channelId = sc_channelId sc,
      sp_communityId = sc_communityId sc, sp_conversationId = sc_conversationId sc,
      sp_type = scope_type_value (sc_type sc)\<rparr>"

definition new_CallCapabilityHash :: "lib \<Rightarrow> string \<Rightarrow> call_error + string" where
  "new_CallCapabilityHash L s =
     bindR (call_value (lib_text L (Some 64) s)) (\<lambda>v.
     bindR (ensure (length v = 64 \<and> list_all (\<lambda>ch. ch \<in> set ''0123456789abcdef'') v) InvalidCallScopeError) (\<lambda>_.
       Inr v))"

definition scope_fromPrimitives :: "lib \<Rightarrow> scope_primitives \<Rightarrow> call_error + call_scope" where
  "scope_fromPrimitives L p =
     bindR (new_CallScopeType L (sp_type p)) (\<lambda>ty.
     bindR (optional_scope_value (call_value \<circ> lib_text L None) (sp_conversationId p)) (\<lambda>conversation.
     bindR (optional_scope_value (call_value \<circ> lib_text L None) (sp_communityId p)) (\<lambda>community.
     bindR (optional_scope_value (call_value \<circ> lib_text L None) (sp_channelId p)) (\<lambda>channel.
     bindR (optional_scope_value (new_CallCapabilityHash L) (sp_capabilityHash p)) (\<lambda>capability.
       Inr \<lparr>sc_type = ty, sc_conversationId = conversation, sc_communityId = community,
            sc_channelId = channel, sc_capabilityHash = capability\<rparr>)))))"

definition call_toPrimitives :: "call \<Rightarrow> call_primitives" where
  "call_toPrimitives c =
     (let ps = map participant_toPrimitives (cl_participants c) in
      \<lparr>clp_createdAt = lc_createdAt (cl_lifecycle c), clp_creatorIdentityId = cl_creator c,
       clp_endedAt = lc_endedAt (cl_lifecycle c), clp_endedByIdentityId = lc_endedByIdentityId (cl_lifecycle c),
       clp_id = cl_id c, clp_networkId = cl_networkId c, clp_nonce = cl_nonce c,
       clp_participantIds = map pp_identityId ps, clp_participants = ps,
       clp_scope = scope_toPrimitives (cl_scope c), clp_status = call_status_value (lc_status (cl_lifecycle c)),
       clp_sessionEpoch = cl_sessionEpoch c, clp_supersededByCallId = lc_supersededByCallId (cl_lifecycle c)\<rparr>)"

definition new_CallNonce :: "lib \<Rightarrow> string \<Rightarrow> call_error + string" where
  "new_CallNonce L s =
     bindR (call_value (lib_text L None s)) (\<lambda>v.
     bindR (ensure (16 \<le> length s \<and> length s \<le> 128 \<and>
        list_all (\<lambda>ch. ch \<in> set ''ABCDEFGHIJKLMNOPQRSTUVWXYZabcdefghijklmnopqrstuvwxyz0123456789_-'') s)
        InvalidCallNonceError) (\<lambda>_. Inr v))"

definition new_CallSessionEpoch :: "int \<Rightarrow> call_error + int" where
  "new_CallSessionEpoch n = (if safe_integer n \<and> n > 0 then Inr n else Inl InvalidCallSessionEpochError)"

definition optional_epoch :: "int option \<Rightarrow> call_error + int option" where
  "optional_epoch v =
     (case v of None \<Rightarrow> Inr None | Some n \<Rightarrow> bindR (new_CallSessionEpoch n) (\<lambda>n. Inr (Some n)))"

definition call_fromPrimitives :: "lib \<Rightarrow> call_primitives \<Rightarrow> call_error + call" where
  "call_fromPrimitives L p =
     bindR (call_value (lib_uuid L (clp_id p))) (\<lambda>cid.
     bindR (call_value (lib_identity L (clp_creatorIdentityId p))) (\<lambda>creator.
     bindR (new_CallNonce L (clp_nonce p)) (\<lambda>nonce.
     bindR (call_value (lib_network L (clp_networkId p))) (\<lambda>network.
     bindR (scope_fromPrimitives L (clp_scope p)) (\<lambda>scope.
     bindR (mapR (participant_fromPrimitives L) (clp_participants p)) (\<lambda>participants.
     bindR (new_CallStatus L (clp_status p)) (\<lambda>status.
     bindR (call_timestamp L (clp_createdAt p)) (\<lambda>createdAt.
     bindR (optional_timestamp L (clp_endedAt p)) (\<lambda>endedAt.
     bindR (case clp_supersededByCallId p of None \<Rightarrow> Inr None
            | Some v \<Rightarrow> bindR (call_value (lib_uuid L v)) (\<lambda>v. Inr (Some v))) (\<lambda>superseded.
     bindR (optional_epoch (clp_sessionEpoch p)) (\<lambda>epoch.
       Inr \<lparr>cl_id = cid, cl_creator = creator, cl_nonce = nonce, cl_networkId = network, cl_scope = scope,
            cl_participants = participants,
            cl_lifecycle = \<lparr>lc_status = status, lc_createdAt = createdAt, lc_endedAt = endedAt,
              lc_endedByIdentityId = clp_endedByIdentityId p, lc_supersededByCallId = superseded\<rparr>,
            cl_sessionEpoch = epoch, cl_events = []\<rparr>)))))))))))"

section \<open>The steps of a call\<close>

text \<open>
  The identities restored from leases are distinct: \<open>OrbitDBCallRepository.ts\<close>, the only caller, passes
  the values of a map.
\<close>

inductive call_step :: "call \<Rightarrow> call \<Rightarrow> bool" where
  step_join: "call_join i t c = Inr c' \<Longrightarrow> call_step c c'"
| step_joinOrAdd: "call_joinOrAdd i t c = Inr c' \<Longrightarrow> call_step c c'"
| step_leave: "call_leave i t c = Inr c' \<Longrightarrow> call_step c c'"
| step_end: "call_end i t c = Inr c' \<Longrightarrow> call_step c c'"
| step_endFromRecord: "call_step c (call_endFromRecord i t c)"
| step_expire: "call_step c (call_expire t c)"
| step_timedOut: "markTimedOut t c = Inr (c', ids) \<Longrightarrow> call_step c c'"
| step_restore: "distinct js \<Longrightarrow> call_step c (restoreLeaseRosteredParticipants js t c)"

inductive_cases call_stepE: "call_step c c'"

definition call_starts :: "lib \<Rightarrow> call \<Rightarrow> bool" where
  "call_starts L c \<longleftrightarrow>
     (\<exists>creator network scope ids nonce t epoch.
        distinct ids \<and> call_begin L creator network scope ids nonce t epoch = Inr c)"

text \<open>
  What a reachable call satisfies: a participant is there once, with the times of its status; the
  creator of a conversation call stays listed; a call has an end exactly when it is over, and
  recorded at most one event that says so; an active conversation call has somebody in it.
\<close>

definition participant_ok :: "participant \<Rightarrow> bool" where
  "participant_ok p \<longleftrightarrow>
     (case pt_status p of
        RINGING \<Rightarrow> pt_joinedAt p = None \<and> pt_leftAt p = None \<and> pt_declinedAt p = None \<and> pt_missedAt p = None
      | JOINED \<Rightarrow> pt_joinedAt p \<noteq> None \<and> pt_leftAt p = None \<and> pt_declinedAt p = None \<and> pt_missedAt p = None
      | LEFT \<Rightarrow> pt_leftAt p \<noteq> None
      | DECLINED_PARTICIPANT \<Rightarrow> pt_declinedAt p \<noteq> None \<and> pt_joinedAt p = None
      | MISSED \<Rightarrow> pt_missedAt p \<noteq> None \<and> pt_joinedAt p = None)"

definition isEnding :: "call_event \<Rightarrow> bool" where
  "isEnding e = (case e of CallEndedEvent b i \<Rightarrow> True | CallMissedEvent b ids \<Rightarrow> True | _ \<Rightarrow> False)"

definition call_ok :: "call \<Rightarrow> bool" where
  "call_ok c \<longleftrightarrow>
     distinct (map pt_identityId (cl_participants c)) \<and>
     list_all participant_ok (cl_participants c) \<and>
     (isConversation (cl_scope c) \<longrightarrow> cl_creator c \<in> pt_identityId ` set (cl_participants c)) \<and>
     (call_isActive c \<longleftrightarrow> lc_endedAt (cl_lifecycle c) = None) \<and>
     length (filter isEnding (cl_events c)) \<le> (if call_isActive c then 0 else 1) \<and>
     (isConversation (cl_scope c) \<and> call_isActive c \<longrightarrow>
        (\<exists>p \<in> set (cl_participants c). pt_status p = JOINED))"

section \<open>Every step keeps the invariant\<close>

lemma call_record_simps [simp]:
  "cl_id (call_record e c) = cl_id c" "cl_creator (call_record e c) = cl_creator c"
  "cl_nonce (call_record e c) = cl_nonce c" "cl_networkId (call_record e c) = cl_networkId c"
  "cl_scope (call_record e c) = cl_scope c" "cl_participants (call_record e c) = cl_participants c"
  "cl_lifecycle (call_record e c) = cl_lifecycle c" "cl_sessionEpoch (call_record e c) = cl_sessionEpoch c"
  "cl_events (call_record e c) = cl_events c @ [e]" "call_isActive (call_record e c) = call_isActive c"
  by (simp_all add: call_record_def call_isActive_def)

lemma changeParticipant_simps [simp]:
  "cl_id (changeParticipant i f c) = cl_id c" "cl_creator (changeParticipant i f c) = cl_creator c"
  "cl_nonce (changeParticipant i f c) = cl_nonce c" "cl_networkId (changeParticipant i f c) = cl_networkId c"
  "cl_scope (changeParticipant i f c) = cl_scope c" "cl_lifecycle (changeParticipant i f c) = cl_lifecycle c"
  "cl_sessionEpoch (changeParticipant i f c) = cl_sessionEpoch c"
  "cl_events (changeParticipant i f c) = cl_events c"
  "cl_participants (changeParticipant i f c) = update_first (\<lambda>p. pt_identityId p = i) f (cl_participants c)"
  "call_isActive (changeParticipant i f c) = call_isActive c"
  by (simp_all add: changeParticipant_def call_isActive_def)

lemma participant_ids [simp]:
  "pt_identityId (participant_join t p) = pt_identityId p" "pt_identityId (participant_leave t p) = pt_identityId p"
  "pt_identityId (participant_decline t p) = pt_identityId p" "pt_identityId (participant_miss t p) = pt_identityId p"
  "pt_identityId (participant_joined i t) = i" "pt_identityId (participant_ringing i) = i"
  by (simp_all add: participant_defs)

lemma participant_status [simp]:
  "pt_status (participant_join t p) = JOINED" "pt_status (participant_leave t p) = LEFT"
  "pt_status (participant_decline t p) = DECLINED_PARTICIPANT" "pt_status (participant_miss t p) = MISSED"
  "pt_status (participant_joined i t) = JOINED" "pt_status (participant_ringing i) = RINGING"
  by (simp_all add: participant_defs)

lemma participant_ok_intros [inv_intros]:
  "participant_ok (participant_joined i t)" "participant_ok (participant_ringing i)"
  "participant_ok (participant_join t p)" "participant_ok (participant_leave t p)"
  "participant_ok p \<Longrightarrow> pt_status p = RINGING \<Longrightarrow> participant_ok (participant_decline t p)"
  "participant_ok p \<Longrightarrow> pt_status p = RINGING \<Longrightarrow> participant_ok (participant_miss t p)"
  by (simp_all add: participant_ok_def participant_defs)

lemma set_update_first_found:
  assumes "find P xs = Some x"
  shows "set (update_first P f xs) \<subseteq> insert (f x) (set xs)" and "f x \<in> set (update_first P f xs)"
    and "y \<in> set xs \<Longrightarrow> y \<noteq> x \<Longrightarrow> y \<in> set (update_first P f xs)"
  using assms by (induction xs) (auto split: if_splits)

lemma changed_ids [simp]:
  "map pt_identityId (update_first (\<lambda>p. pt_identityId p = i) (participant_join t) ps) = map pt_identityId ps"
  "map pt_identityId (update_first (\<lambda>p. pt_identityId p = i) (participant_leave t) ps) = map pt_identityId ps"
  "map pt_identityId (update_first (\<lambda>p. pt_identityId p = i) (participant_decline t) ps) = map pt_identityId ps"
  by (rule map_update_first, simp)+

lemma changed_ok:
  assumes "findParticipant c i = Some p" and "participant_ok (f p)" and "list_all participant_ok (cl_participants c)"
  shows "list_all participant_ok (update_first (\<lambda>p. pt_identityId p = i) f (cl_participants c))"
  using set_update_first_found(1) [OF assms(1) [unfolded findParticipant_def], of f] assms(2,3)
  unfolding list_all_iff by blast

lemma found_ok: "findParticipant c i = Some p \<Longrightarrow> call_ok c \<Longrightarrow> participant_ok p \<and> p \<in> set (cl_participants c)"
  unfolding findParticipant_def call_ok_def list_all_iff by (blast dest: find_Some_iff')

lemma changed_joined:
  assumes "findParticipant c i = Some p"
  shows "\<exists>q \<in> set (update_first (\<lambda>p. pt_identityId p = i) (participant_join t) (cl_participants c)). pt_status q = JOINED"
  using set_update_first_found(2) [OF assms [unfolded findParticipant_def]] participant_status(1) by blast

text \<open>The participants kept, changed at one place or not, and the call goes on or not.\<close>

lemma call_okI:
  assumes "call_ok c" and "cl_scope c' = cl_scope c" and "cl_creator c' = cl_creator c"
    and "map pt_identityId (cl_participants c') = map pt_identityId (cl_participants c)"
    and "list_all participant_ok (cl_participants c')"
    and "call_isActive c' \<longleftrightarrow> lc_endedAt (cl_lifecycle c') = None"
    and "length (filter isEnding (cl_events c')) \<le> (if call_isActive c' then 0 else 1)"
    and "isConversation (cl_scope c) \<Longrightarrow> call_isActive c' \<Longrightarrow> \<exists>p \<in> set (cl_participants c'). pt_status p = JOINED"
  shows "call_ok c'"
proof -
  have "pt_identityId ` set (cl_participants c') = pt_identityId ` set (cl_participants c)"
    using assms(4) by (metis list.set_map)
  then show ?thesis using assms unfolding call_ok_def by (simp only: simp_thms) blast
qed

lemma call_join_ok:
  assumes "call_ok c" and "call_join i t c = Inr c'"
  shows "call_ok c'"
proof -
  from assms(2) obtain p where p: "findParticipant c i = Some p" and a: "call_isActive c"
    and c': "c' = call_record (CallParticipantJoinedEvent (baseEventAttributes (changeParticipant i (participant_join t) c)) i)
                    (changeParticipant i (participant_join t) c)"
    by (auto simp: call_join_def assertActive_def Let_def)
  have ok: "list_all participant_ok (cl_participants c)" using assms(1) by (simp add: call_ok_def)
  show ?thesis
  proof (rule call_okI [OF assms(1)])
    show "list_all participant_ok (cl_participants c')"
      unfolding c' using changed_ok [OF p participant_ok_intros(3) ok] by simp
    show "\<exists>p \<in> set (cl_participants c'). pt_status p = JOINED"
      unfolding c' using changed_joined [OF p] by simp
  qed (use assms(1) a in \<open>simp_all add: c' call_ok_def isEnding_def\<close>)
qed

lemma call_joinOrAdd_ok:
  assumes "call_ok c" and "call_joinOrAdd i t c = Inr c'"
  shows "call_ok c'"
proof (cases "findParticipant c i")
  case None
  have a: "call_isActive c" using assms(2) by (auto simp: call_joinOrAdd_def assertActive_def)
  from None have new: "i \<notin> pt_identityId ` set (cl_participants c)"
    unfolding findParticipant_def by (auto simp: find_None_iff')
  let ?c = "c\<lparr>cl_participants := cl_participants c @ [participant_joined i t]\<rparr>"
  have act: "call_isActive ?c = call_isActive c" by (simp add: call_isActive_def)
  have c': "c' = call_record (CallParticipantJoinedEvent (baseEventAttributes ?c) i) ?c"
    using assms(2) None by (auto simp: call_joinOrAdd_def Let_def)
  then show ?thesis using assms(1) new a participant_ok_intros(1)
    by (simp add: call_ok_def act isEnding_def)
next
  case (Some p)
  show ?thesis
  proof (cases "pt_status p = JOINED")
    case True
    then show ?thesis using assms Some by (auto simp: call_joinOrAdd_def)
  next
    case False
    then have "call_join i t c = Inr c'" using assms(2) Some by (auto simp: call_joinOrAdd_def call_join_def)
    then show ?thesis by (rule call_join_ok [OF assms(1)])
  qed
qed

lemma lifecycle_update_simps [simp]:
  "cl_participants (cl_lifecycle_update f c) = cl_participants c" "cl_scope (cl_lifecycle_update f c) = cl_scope c"
  "cl_creator (cl_lifecycle_update f c) = cl_creator c" "cl_events (cl_lifecycle_update f c) = cl_events c"
  by simp_all

lemma ended_simps [simp]:
  "\<not> call_isActive (c\<lparr>cl_lifecycle := lifecycle_end i t l\<rparr>)" "\<not> call_isActive (c\<lparr>cl_lifecycle := lifecycle_expire t l\<rparr>)"
  "\<not> call_isActive (c\<lparr>cl_lifecycle := lifecycle_miss t l\<rparr>)"
  "lc_endedAt (lifecycle_end i t l) = Some t" "lc_endedAt (lifecycle_expire t l) = Some t"
  "lc_endedAt (lifecycle_miss t l) = Some t"
  by (simp_all add: call_isActive_def lifecycle_defs)

lemma endIfNoReceiversRemain_ok:
  assumes "call_ok c" and "call_isActive c"
  shows "call_ok (endIfNoReceiversRemain t c)"
proof -
  have "call_ok c'" if c': "c' = call_record (CallMissedEvent (baseEventAttributes d) []) d"
    and d: "d = c\<lparr>cl_lifecycle := lifecycle_miss t (cl_lifecycle c)\<rparr>" for c' d
    by (rule call_okI [OF assms(1)]) (use assms in \<open>simp_all add: c' d call_ok_def isEnding_def\<close>)
  then show ?thesis using assms by (simp add: endIfNoReceiversRemain_def Let_def)
qed

lemma call_declined_ok:
  assumes ok: "call_ok c" and a: "call_isActive c" and p: "findParticipant c i = Some p" and r: "pt_status p = RINGING"
  shows "call_ok (call_record (CallParticipantDeclinedEvent b i) (changeParticipant i (participant_decline t) c))"
    (is "call_ok ?c")
proof (rule call_okI [OF ok])
  have "participant_ok (participant_decline t p)" using found_ok [OF p ok] r by (blast intro: inv_intros)
  then show "list_all participant_ok (cl_participants ?c)"
    using changed_ok [OF p] ok by (simp add: call_ok_def)
  assume "isConversation (cl_scope c)"
  with ok a obtain q where q: "q \<in> set (cl_participants c)" "pt_status q = JOINED" by (auto simp: call_ok_def)
  then have "q \<noteq> p" using r by auto
  with set_update_first_found(3) [OF p [unfolded findParticipant_def] q(1)] q(2)
  show "\<exists>q \<in> set (cl_participants ?c). pt_status q = JOINED" by auto
qed (use ok a in \<open>simp_all add: call_ok_def isEnding_def\<close>)

lemma call_left_ok:
  assumes ok: "call_ok c" and a: "call_isActive c" and p: "findParticipant c i = Some p"
    and c1: "c1 = changeParticipant i (participant_leave t) c"
    and c2: "c2 = (if isConversation (cl_scope c1)
                     \<and> (length (cl_participants c1) \<le> ONE_TO_ONE_PARTICIPANTS
                        \<or> \<not> list_ex (\<lambda>q. pt_status q = JOINED) (cl_participants c1))
                   then c1\<lparr>cl_lifecycle := lifecycle_end i t (cl_lifecycle c1)\<rparr> else c1)"
    and c': "c' = (if call_isActive c2 then call_record (CallParticipantLeftEvent b i) c2
                   else call_record (CallEndedEvent b' None) (call_record (CallParticipantLeftEvent b i) c2))"
  shows "call_ok c'"
proof (rule call_okI [OF ok])
  show "list_all participant_ok (cl_participants c')"
    using changed_ok [OF p participant_ok_intros(4)] ok by (simp add: c' c2 c1 call_ok_def)
  assume "isConversation (cl_scope c)" and "call_isActive c'"
  then show "\<exists>q \<in> set (cl_participants c'). pt_status q = JOINED"
    by (auto simp: c' c2 c1 list_ex_iff split: if_splits)
qed (use ok a in \<open>simp_all add: c' c2 c1 call_ok_def isEnding_def\<close>)

lemma call_leave_ok:
  assumes ok: "call_ok c" and l: "call_leave i t c = Inr c'"
  shows "call_ok c'"
proof -
  from l obtain p where p: "findParticipant c i = Some p" and a: "call_isActive c"
    by (auto simp: call_leave_def assertActive_def split: option.splits)
  show ?thesis
  proof (cases "pt_status p = RINGING")
    case True
    then show ?thesis
      using l a p endIfNoReceiversRemain_ok [OF call_declined_ok [OF ok a p True]]
      by (auto simp: call_leave_def assertActive_def Let_def)
  next
    case False
    then show ?thesis using l a p
      by (auto simp: call_leave_def assertActive_def Let_def split del: if_split
            intro!: call_left_ok [OF ok a p refl refl] cong: if_cong)
  qed
qed

lemma call_over_ok:
  assumes "call_ok c" and "call_isActive c"
  shows "call_ok (c\<lparr>cl_lifecycle := lifecycle_end i t (cl_lifecycle c)\<rparr>)"
    and "call_ok (c\<lparr>cl_lifecycle := lifecycle_expire t (cl_lifecycle c)\<rparr>)"
  by (rule call_okI [OF assms(1)]; use assms in \<open>simp add: call_ok_def\<close>)+

lemma call_end_ok:
  assumes "call_ok c" and "call_end i t c = Inr c'"
  shows "call_ok c'"
proof -
  let ?d = "c\<lparr>cl_lifecycle := lifecycle_end i t (cl_lifecycle c)\<rparr>"
  from assms(2) have a: "call_isActive c" and c': "c' = call_record (CallEndedEvent (baseEventAttributes ?d) (Some i)) ?d"
    by (auto simp: call_end_def assertActive_def Let_def)
  show ?thesis
    by (rule call_okI [OF assms(1)]) (use assms(1) a in \<open>simp_all add: c' call_ok_def isEnding_def\<close>)
qed

text \<open>The loop of \<open>markTimedOut\<close>: every ringing participant is missed, and nobody else changes.\<close>

definition missed_if_ringing :: "timestamp \<Rightarrow> participant \<Rightarrow> participant" where
  "missed_if_ringing t p = (if pt_status p = RINGING then participant_miss t p else p)"

lemma miss_one_simps [simp]:
  "cl_scope (miss_one t n c) = cl_scope c" "cl_creator (miss_one t n c) = cl_creator c"
  "cl_lifecycle (miss_one t n c) = cl_lifecycle c"
  "filter isEnding (cl_events (miss_one t n c)) = filter isEnding (cl_events c)"
  "cl_participants (miss_one t n c) = (cl_participants c)[n := participant_miss t (cl_participants c ! n)]"
  by (simp_all add: miss_one_def Let_def isEnding_def)

lemma fold_miss_one:
  assumes "distinct ns" and "\<forall>n \<in> set ns. n < length (cl_participants c)"
  shows "cl_scope (fold (miss_one t) ns c) = cl_scope c \<and> cl_creator (fold (miss_one t) ns c) = cl_creator c \<and>
    cl_lifecycle (fold (miss_one t) ns c) = cl_lifecycle c \<and>
    filter isEnding (cl_events (fold (miss_one t) ns c)) = filter isEnding (cl_events c) \<and>
    length (cl_participants (fold (miss_one t) ns c)) = length (cl_participants c) \<and>
    (\<forall>k < length (cl_participants c). cl_participants (fold (miss_one t) ns c) ! k =
       (if k \<in> set ns then participant_miss t (cl_participants c ! k) else cl_participants c ! k))"
  using assms
proof (induction ns arbitrary: c)
  case (Cons n ns)
  have d: "distinct ns" "\<forall>m \<in> set ns. m < length (cl_participants (miss_one t n c))" "n \<notin> set ns"
    using Cons.prems by auto
  show ?case using Cons.IH [OF d(1,2)] Cons.prems d(3) by (auto simp: nth_list_update)
qed simp

lemma missed_participants:
  "cl_participants (fold (miss_one t) (ringing_positions c) c) = map (missed_if_ringing t) (cl_participants c)"
proof -
  have "distinct (ringing_positions c)" "\<forall>n \<in> set (ringing_positions c). n < length (cl_participants c)"
    by (simp_all add: ringing_positions_def)
  from fold_miss_one [OF this, of t] show ?thesis
    by (intro nth_equalityI) (auto simp: missed_if_ringing_def ringing_positions_def)
qed

lemma missed_frame [simp]:
  "cl_scope (fold (miss_one t) ns c) = cl_scope c" "cl_creator (fold (miss_one t) ns c) = cl_creator c"
  "cl_lifecycle (fold (miss_one t) ns c) = cl_lifecycle c"
  "filter isEnding (cl_events (fold (miss_one t) ns c)) = filter isEnding (cl_events c)"
  by (induction ns arbitrary: c) simp_all

lemma missed_ids: "map pt_identityId (map (missed_if_ringing t) ps) = map pt_identityId ps"
  by (simp add: missed_if_ringing_def)

lemma markTimedOut_ok:
  assumes ok: "call_ok c" and m: "markTimedOut t c = Inr (c', ids)"
  shows "call_ok c'"
proof -
  define d where "d = fold (miss_one t) (ringing_positions c) c"
  have a: "call_isActive c" using m by (auto simp: markTimedOut_def assertActive_def)
  have parts: "cl_participants d = map (missed_if_ringing t) (cl_participants c)"
    unfolding d_def by (rule missed_participants)
  have frame: "cl_scope d = cl_scope c" "cl_creator d = cl_creator c" "cl_lifecycle d = cl_lifecycle c"
      "filter isEnding (cl_events d) = filter isEnding (cl_events c)" and ad: "call_isActive d"
    using a unfolding d_def call_isActive_def by simp_all
  have good: "list_all participant_ok (cl_participants d)"
    unfolding parts using ok by (auto simp: call_ok_def list_all_iff missed_if_ringing_def intro: inv_intros)
  have joined: "\<exists>p \<in> set (cl_participants d). pt_status p = JOINED" if "isConversation (cl_scope c)"
  proof -
    obtain p where "p \<in> set (cl_participants c)" "pt_status p = JOINED" using ok a \<open>isConversation (cl_scope c)\<close>
      by (auto simp: call_ok_def)
    then have "missed_if_ringing t p \<in> set (cl_participants d)" "pt_status (missed_if_ringing t p) = JOINED"
      unfolding parts by (simp_all add: missed_if_ringing_def)
    then show ?thesis by blast
  qed
  let ?e = "d\<lparr>cl_lifecycle := lifecycle_miss t (cl_lifecycle d)\<rparr>"
  from m a have "c' = d \<or> (\<exists>ids. c' = call_record (CallMissedEvent (baseEventAttributes ?e) ids) ?e)"
    by (auto simp: markTimedOut_def assertActive_def Let_def d_def split: if_splits)
  then show ?thesis
  proof
    assume "c' = d"
    then show ?thesis
      using ok a ad good joined
      by (intro call_okI [OF ok]) (simp_all add: frame parts missed_if_ringing_def call_ok_def)
  next
    assume "\<exists>ids. c' = call_record (CallMissedEvent (baseEventAttributes ?e) ids) ?e"
    then obtain js where c': "c' = call_record (CallMissedEvent (baseEventAttributes ?e) js) ?e" by blast
    show ?thesis
      by (rule call_okI [OF ok])
        (use ok a good in \<open>simp_all add: c' frame parts missed_if_ringing_def call_ok_def isEnding_def\<close>)
  qed
qed

lemma restore_ok:
  assumes "call_ok c" and "distinct js"
  shows "call_ok (restoreLeaseRosteredParticipants js t c)"
  using assms
  by (auto simp: restoreLeaseRosteredParticipants_def call_ok_def isLeaseRostered_def call_isActive_def
      list_all_iff o_def intro: inv_intros)

lemma call_begin_ok:
  assumes "distinct ids" and "call_begin L creator network scope ids nonce t epoch = Inr c"
  shows "call_ok c"
  using assms
  by (auto simp: call_begin_def Let_def call_ok_def call_isActive_def lifecycle_defs isEnding_def
      list_all_iff o_def intro: inv_intros)

lemma call_step_ok:
  assumes "call_ok c" and "call_step c c'"
  shows "call_ok c'"
  using assms(2)
proof (cases rule: call_step.cases)
  case (step_endFromRecord i t)
  then show ?thesis using assms(1) call_over_ok [OF assms(1)] by (simp add: call_endFromRecord_def)
next
  case (step_expire t)
  then show ?thesis using assms(1) call_over_ok [OF assms(1)] by (simp add: call_expire_def)
qed (blast intro: call_join_ok call_joinOrAdd_ok call_leave_ok call_end_ok markTimedOut_ok restore_ok assms(1))+

interpretation call_machine: machine "call_starts L" call_step call_ok for L
  by unfold_locales (auto simp: call_starts_def intro: call_begin_ok call_step_ok)

section \<open>A call that is over stays over\<close>

lemma call_over_refuses:
  assumes "\<not> call_isActive c"
  shows "call_join i t c = Inl InactiveCallError" "call_joinOrAdd i t c = Inl InactiveCallError"
    "call_leave i t c = Inl InactiveCallError" "call_end i t c = Inl InactiveCallError"
    "markTimedOut t c = Inl InactiveCallError" "call_endFromRecord i t c = c" "call_expire t c = c"
  using assms
  by (simp_all add: call_join_def call_joinOrAdd_def call_leave_def call_end_def markTimedOut_def
      assertActive_def call_endFromRecord_def call_expire_def)

lemma call_over_step:
  assumes "call_step c c'" and "\<not> call_isActive c"
  shows "cl_lifecycle c' = cl_lifecycle c \<and> cl_events c' = cl_events c"
  using assms(1)
  by (cases rule: call_step.cases)
    (simp_all add: call_over_refuses [OF assms(2)] restoreLeaseRosteredParticipants_def)

end
