(* ===== verification/CallPolicies.thy ===== *)
theory CallPolicies
  imports MutationGate Calls Community
begin

text \<open>
  What the node requires of the three signed records of a call (\<open>CallStartMutationPolicy.ts\<close>,
  \<open>CallParticipantMutationPolicy.ts\<close>, \<open>CallEndMutationPolicy.ts\<close>, \<open>CallRecordClock.ts\<close> under
  \<open>src/contexts/calls/infrastructure/orbitdb/policies\<close>, and \<open>CallRecordIds.ts\<close>). What the node
  holds when it judges a record is \<open>call_world\<close>: its clock, the admitted and the not yet
  admitted documents of the collection, and what its repositories answer.
\<close>

record call_world =
  w_now :: int
  w_documents :: "public_record list"
  w_unadmitted :: "public_record list"
  w_conversation :: "string \<Rightarrow> judge_error + (identity_id list \<times> network_id) option"
  w_community :: "string \<Rightarrow> judge_error + community option"
  w_networks :: "identity_id \<Rightarrow> judge_error + network_id list option"

section \<open>The ids and the clock\<close>

definition start_id :: "string \<Rightarrow> string" where
  "start_id callId = ''call:'' @ callId"

definition participant_id :: "string \<Rightarrow> string \<Rightarrow> string" where
  "participant_id callId identityId = ''call-participant:'' @ callId @ '':'' @ identityId"

definition end_id :: "string \<Rightarrow> string" where
  "end_id callId = ''call-end:'' @ callId"

definition MAX_FUTURE_MS :: int where "MAX_FUTURE_MS = 10 * 60000"

definition assertNotInFuture :: "call_world \<Rightarrow> json option \<Rightarrow> mutation_error + unit" where
  "assertNotInFuture w v =
     (case v of
        Some (JInt n) \<Rightarrow> ensure (safe_integer n \<and> 0 \<le> n \<and> n \<le> w_now w + MAX_FUTURE_MS) InvalidPublicMutationError
      | _ \<Rightarrow> Inl InvalidPublicMutationError)"

definition text_of :: "public_record \<Rightarrow> string \<Rightarrow> mutation_error + string" where
  "text_of r f = (case map_of r f of Some (JString s) \<Rightarrow> Inr s | _ \<Rightarrow> Inl InvalidPublicMutationError)"

text \<open>A constructor of a value object inside \<open>try ... catch\<close> that answers the invalid mutation.\<close>

definition or_invalid :: "'a option \<Rightarrow> mutation_error + 'a" where
  "or_invalid v = (case v of None \<Rightarrow> Inl InvalidPublicMutationError | Some x \<Rightarrow> Inr x)"

definition or_invalid_call :: "call_error + 'a \<Rightarrow> mutation_error + 'a" where
  "or_invalid_call v = (case v of Inl _ \<Rightarrow> Inl InvalidPublicMutationError | Inr x \<Rightarrow> Inr x)"

section \<open>The start of a call\<close>

definition start_shape :: record_shape where
  "start_shape = (new_shape [''callId'', ''creatorIdentityId'', ''id'', ''networkId'', ''nonce''] [''startedAt''] ''call_start'')
     \<lparr>sh_arrays := [''participantIds''], sh_objects := [''scope''], sh_optionalIntegers := [''sessionEpoch'']\<rparr>"

definition scopeOf :: "public_record \<Rightarrow> (string \<times> json) list" where
  "scopeOf r = (case map_of r ''scope'' of Some (JObject kvs) \<Rightarrow> kvs | _ \<Rightarrow> [])"

definition participantIdsOf :: "public_record \<Rightarrow> json list" where
  "participantIdsOf r = (case map_of r ''participantIds'' of Some (JArray xs) \<Rightarrow> xs | _ \<Rightarrow> [])"

definition scope_keys :: "json option \<Rightarrow> string list option" where
  "scope_keys ty =
     (if ty = Some (JString ''community_channel'') then Some [''channelId'', ''communityId'', ''type'']
      else if ty = Some (JString ''conversation'') then Some [''conversationId'', ''type'']
      else if ty = Some (JString ''group_capability'') then Some [''capabilityHash'', ''type''] else None)"

definition hex_hash :: "json option \<Rightarrow> bool" where
  "hex_hash v = (case v of Some (JString s) \<Rightarrow> length s = 64 \<and> list_all (\<lambda>ch. ch \<in> set ''0123456789abcdef'') s | _ \<Rightarrow> False)"

definition assertScopeShape :: "lib \<Rightarrow> public_record \<Rightarrow> mutation_error + unit" where
  "assertScopeShape L r =
     (let sc = scopeOf r; keys = sort (map fst sc); ty = map_of sc ''type'' in
      bindR (ensure (case scope_keys ty of None \<Rightarrow> False | Some expected \<Rightarrow>
               comma_joined keys = comma_joined expected \<and> list_all (\<lambda>k. is_string (map_of sc k)) keys \<and>
               (ty = Some (JString ''group_capability'') \<longrightarrow> hex_hash (map_of sc ''capabilityHash'')))
             InvalidPublicMutationError) (\<lambda>_.
      if ty = Some (JString ''conversation'')
      then bindR (text_of sc ''conversationId'') (\<lambda>s. bindR (or_invalid (lib_text L None s)) (\<lambda>_. Inr ()))
      else if ty = Some (JString ''community_channel'')
      then bindR (text_of sc ''communityId'') (\<lambda>s. bindR (or_invalid (lib_text L None s)) (\<lambda>_.
           bindR (text_of sc ''channelId'') (\<lambda>s. bindR (or_invalid (lib_text L None s)) (\<lambda>_. Inr ()))))
      else Inr ()))"

definition assertConversationFields :: "lib \<Rightarrow> public_record \<Rightarrow> mutation_error + unit" where
  "assertConversationFields L r =
     (let participants = participantIdsOf r in
      bindR (ensure (map_of r ''sessionEpoch'' = None \<and> participants \<noteq> [] \<and>
                     list_all (\<lambda>p. is_string (Some p)) participants) InvalidPublicMutationError) (\<lambda>_.
        eachR (\<lambda>p. case p of JString s \<Rightarrow> bindR (or_invalid (lib_identity L s)) (\<lambda>_. Inr ())
                    | _ \<Rightarrow> Inl InvalidPublicMutationError) participants))"

definition assertLeaseRosteredFields :: "public_record \<Rightarrow> mutation_error + unit" where
  "assertLeaseRosteredFields r =
     ensure (participantIdsOf r = [] \<and>
       (if map_of (scopeOf r) ''type'' = Some (JString ''group_capability'') then map_of r ''sessionEpoch'' = None
        else case map_of r ''sessionEpoch'' of Some (JInt n) \<Rightarrow> safe_integer n \<and> 1 \<le> n | _ \<Rightarrow> False))
       InvalidPublicMutationError"

definition start_expectationOf :: "lib \<Rightarrow> call_world \<Rightarrow> public_record \<Rightarrow> mutation_error + expectation" where
  "start_expectationOf L w r =
     bindR (assertShape start_shape r) (\<lambda>_.
     bindR (ensure (map_of r ''removed'' = None) InvalidPublicMutationError) (\<lambda>_.
     bindR (text_of r ''creatorIdentityId'') (\<lambda>raw.
     bindR (or_invalid (lib_identity L raw)) (\<lambda>creator.
     bindR (text_of r ''nonce'') (\<lambda>text.
     bindR (or_invalid_call (new_CallNonce L text)) (\<lambda>nonce.
     bindR (or_invalid_call (call_fromStart L creator nonce)) (\<lambda>callId.
     bindR (ensure (map_of r ''callId'' = Some (JString callId) \<and> map_of r ''id'' = Some (JString (start_id callId)))
            InvalidPublicMutationError) (\<lambda>_.
     bindR (assertScopeShape L r) (\<lambda>_.
     bindR (if map_of (scopeOf r) ''type'' = Some (JString ''conversation'') then assertConversationFields L r
            else assertLeaseRosteredFields r) (\<lambda>_.
     bindR (assertNotInFuture w (map_of r ''startedAt'')) (\<lambda>_.
       Inr \<lparr>ex_store = ''calls'', ex_recordId = start_id callId, ex_authorIdentityId = Some creator\<rparr>)))))))))))"

text \<open>The texts of an array of JSON values; the policy has seen that each is one.\<close>

definition texts :: "json list \<Rightarrow> string list" where
  "texts xs = List.map_filter (\<lambda>v. case v of JString s \<Rightarrow> Some s | _ \<Rightarrow> None) xs"

definition lookup :: "judge_error + 'a option \<Rightarrow> judge_error + 'a" where
  "lookup v = bindR v (\<lambda>found. case found of None \<Rightarrow> Inl Pending | Some x \<Rightarrow> Inr x)"

definition text_or_empty :: "(string \<times> json) list \<Rightarrow> string \<Rightarrow> string" where
  "text_or_empty r f = (case map_of r f of Some (JString s) \<Rightarrow> s | _ \<Rightarrow> [])"

definition assertConversation :: "call_world \<Rightarrow> public_record \<Rightarrow> string \<Rightarrow> judge_error + unit" where
  "assertConversation w r author =
     bindR (lookup (w_conversation w (text_or_empty (scopeOf r) ''conversationId''))) (\<lambda>(participants, network).
       let admitted = sort participants; claimed = sort (texts (participantIdsOf r)) in
       ensure (author \<in> set admitted \<and> map_of r ''networkId'' = Some (JString network) \<and>
               length admitted = 2 \<and> length admitted = length claimed \<and> admitted = claimed) Refused)"

definition assertNetworkIdentity :: "lib \<Rightarrow> call_world \<Rightarrow> public_record \<Rightarrow> string \<Rightarrow> judge_error + unit" where
  "assertNetworkIdentity L w r identity =
     (case lib_identity L identity of
        None \<Rightarrow> Inl Refused
      | Some i \<Rightarrow>
          bindR (lookup (w_networks w i)) (\<lambda>networks.
            ensure (list_ex (\<lambda>n. map_of r ''networkId'' = Some (JString n)) networks) Refused))"

definition assertVoiceAccess :: "lib \<Rightarrow> community \<Rightarrow> string \<Rightarrow> string \<Rightarrow> judge_error + unit" where
  "assertVoiceAccess L c identity channel =
     (case bindR (new_IdentityId L identity) (\<lambda>i. bindR (new_CommunityChannelId L channel) (\<lambda>ch.
             assertCanConnectVoice c i ch)) of
        Inl _ \<Rightarrow> Inl Refused | Inr _ \<Rightarrow> Inr ())"

definition epoch_of :: "public_record \<Rightarrow> int" where
  "epoch_of r = (case map_of r ''sessionEpoch'' of Some (JInt n) \<Rightarrow> if safe_integer n then n else 0 | _ \<Rightarrow> 0)"

definition knownMax :: "call_world \<Rightarrow> public_record \<Rightarrow> int" where
  "knownMax w r =
     fold (\<lambda>start m. max m (epoch_of start))
       (filter (\<lambda>d. map_of d ''scopeType'' = Some (JString ''call_start'') \<and> map_of d ''id'' \<noteq> map_of r ''id'' \<and>
                    map_of (scopeOf d) ''communityId'' = map_of (scopeOf r) ''communityId'' \<and>
                    map_of (scopeOf d) ''channelId'' = map_of (scopeOf r) ''channelId'') (w_unadmitted w)) 0"

definition assertCommunity :: "lib \<Rightarrow> call_world \<Rightarrow> public_record \<Rightarrow> string \<Rightarrow> judge_error + unit" where
  "assertCommunity L w r author =
     bindR (lookup (w_community w (text_or_empty (scopeOf r) ''communityId''))) (\<lambda>c.
     bindR (ensure (map_of r ''networkId'' = Some (JString (c_network c))) Refused) (\<lambda>_.
     bindR (assertVoiceAccess L c author (text_or_empty (scopeOf r) ''channelId'')) (\<lambda>_.
       ensure (epoch_of r \<le> knownMax w r + 1) Refused)))"

definition start_assertPermitted ::
    "lib \<Rightarrow> call_world \<Rightarrow> public_record \<Rightarrow> string \<Rightarrow> bool \<Rightarrow> string list \<Rightarrow> judge_error + unit" where
  "start_assertPermitted L w r author deletion frontier =
     (if deletion \<or> map_of r ''creatorIdentityId'' \<noteq> Some (JString author) then Inl Refused
      else let ty = map_of (scopeOf r) ''type'' in
        if ty = Some (JString ''conversation'') then assertConversation w r author
        else if ty = Some (JString ''group_capability'') then assertNetworkIdentity L w r author
        else assertCommunity L w r author)"

definition start_policy :: "lib \<Rightarrow> call_world \<Rightarrow> policy" where
  "start_policy L w =
     \<lparr>pol_collection = ''calls'', pol_scopeType = ''call_start'', pol_requiresFrontier = False,
      pol_expectationOf = start_expectationOf L w, pol_assertPermitted = start_assertPermitted L w\<rparr>"

section \<open>The state of a participant\<close>

definition participant_shape :: record_shape where
  "participant_shape = new_shape [''callId'', ''id'', ''identityId'', ''state''] [''at''] ''call_participant''"

definition participant_states :: "string list" where
  "participant_states = [''joined'', ''left'', ''declined'']"

definition participant_expectationOf :: "lib \<Rightarrow> call_world \<Rightarrow> public_record \<Rightarrow> mutation_error + expectation" where
  "participant_expectationOf L w r =
     bindR (assertShape participant_shape r) (\<lambda>_.
     bindR (text_of r ''callId'') (\<lambda>callId.
     bindR (text_of r ''identityId'') (\<lambda>identity.
     bindR (text_of r ''state'') (\<lambda>state.
     bindR (ensure (map_of r ''removed'' = None \<and> state \<in> set participant_states \<and>
                    map_of r ''id'' = Some (JString (participant_id callId identity))) InvalidPublicMutationError) (\<lambda>_.
     bindR (or_invalid (lib_identity L identity)) (\<lambda>_.
     bindR (assertNotInFuture w (map_of r ''at'')) (\<lambda>_.
       Inr \<lparr>ex_store = ''calls'', ex_recordId = participant_id callId identity, ex_authorIdentityId = Some identity\<rparr>)))))))"

definition find_start :: "call_world \<Rightarrow> public_record \<Rightarrow> judge_error + public_record" where
  "find_start w r =
     (case find (\<lambda>d. map_of d ''scopeType'' = Some (JString ''call_start'') \<and>
                     map_of d ''id'' = Some (JString (start_id (text_or_empty r ''callId'')))) (w_documents w) of
        None \<Rightarrow> Inl Pending | Some start \<Rightarrow> Inr start)"

definition assertCommunityAccess :: "lib \<Rightarrow> call_world \<Rightarrow> public_record \<Rightarrow> string \<Rightarrow> judge_error + unit" where
  "assertCommunityAccess L w start identity =
     bindR (lookup (w_community w (text_or_empty (scopeOf start) ''communityId''))) (\<lambda>c.
       assertVoiceAccess L c identity (text_or_empty (scopeOf start) ''channelId''))"

definition participant_assertPermitted ::
    "lib \<Rightarrow> call_world \<Rightarrow> public_record \<Rightarrow> string \<Rightarrow> bool \<Rightarrow> string list \<Rightarrow> judge_error + unit" where
  "participant_assertPermitted L w r author deletion frontier =
     (if deletion \<or> map_of r ''identityId'' \<noteq> Some (JString author) then Inl Refused
      else bindR (find_start w r) (\<lambda>start.
        let ty = map_of (scopeOf start) ''type'' in
        if ty = Some (JString ''conversation'')
        then ensure (JString author \<in> set (participantIdsOf start)) Refused
        else if ty = Some (JString ''group_capability'') then assertNetworkIdentity L w start author
        else assertCommunityAccess L w start author))"

definition participant_policy :: "lib \<Rightarrow> call_world \<Rightarrow> policy" where
  "participant_policy L w =
     \<lparr>pol_collection = ''calls'', pol_scopeType = ''call_participant'', pol_requiresFrontier = False,
      pol_expectationOf = participant_expectationOf L w, pol_assertPermitted = participant_assertPermitted L w\<rparr>"

section \<open>The end of a call\<close>

definition end_shape :: record_shape where
  "end_shape = new_shape [''callId'', ''endedByIdentityId'', ''id''] [''at''] ''call_end''"

definition end_expectationOf :: "lib \<Rightarrow> call_world \<Rightarrow> public_record \<Rightarrow> mutation_error + expectation" where
  "end_expectationOf L w r =
     bindR (assertShape end_shape r) (\<lambda>_.
     bindR (text_of r ''callId'') (\<lambda>callId.
     bindR (text_of r ''endedByIdentityId'') (\<lambda>identity.
     bindR (ensure (map_of r ''removed'' = None \<and> map_of r ''id'' = Some (JString (end_id callId)))
            InvalidPublicMutationError) (\<lambda>_.
     bindR (or_invalid (lib_identity L identity)) (\<lambda>_.
     bindR (assertNotInFuture w (map_of r ''at'')) (\<lambda>_.
       Inr \<lparr>ex_store = ''calls'', ex_recordId = end_id callId, ex_authorIdentityId = Some identity\<rparr>))))))"

definition end_assertPermitted ::
    "call_world \<Rightarrow> public_record \<Rightarrow> string \<Rightarrow> bool \<Rightarrow> string list \<Rightarrow> judge_error + unit" where
  "end_assertPermitted w r author deletion frontier =
     (if deletion \<or> map_of r ''endedByIdentityId'' \<noteq> Some (JString author) then Inl Refused
      else bindR (find_start w r) (\<lambda>start.
        ensure (map_of start ''creatorIdentityId'' = Some (JString author) \<or>
                (map_of (scopeOf start) ''type'' = Some (JString ''conversation'') \<and>
                 JString author \<in> set (participantIdsOf start))) Refused))"

definition end_policy :: "lib \<Rightarrow> call_world \<Rightarrow> policy" where
  "end_policy L w =
     \<lparr>pol_collection = ''calls'', pol_scopeType = ''call_end'', pol_requiresFrontier = False,
      pol_expectationOf = end_expectationOf L w, pol_assertPermitted = end_assertPermitted w\<rparr>"

definition call_policies :: "lib \<Rightarrow> call_world \<Rightarrow> policy list" where
  "call_policies L w = [start_policy L w, participant_policy L w, end_policy L w]"

section \<open>What an accepted record of a call is\<close>

text \<open>The identity a record speaks for and the id it must have, by its scope type.\<close>

definition speaker_field :: "string \<Rightarrow> string" where
  "speaker_field ty =
     (if ty = ''call_start'' then ''creatorIdentityId''
      else if ty = ''call_participant'' then ''identityId'' else ''endedByIdentityId'')"

definition derived_id :: "string \<Rightarrow> string \<Rightarrow> string \<Rightarrow> string" where
  "derived_id ty callId speaker =
     (if ty = ''call_start'' then start_id callId
      else if ty = ''call_participant'' then participant_id callId speaker else end_id callId)"

text \<open>The record as the projection reads it: its type, the call, the speaker and its id.\<close>

definition call_record_of :: "public_record \<Rightarrow> string \<Rightarrow> string \<Rightarrow> string \<Rightarrow> bool" where
  "call_record_of r ty callId speaker \<longleftrightarrow>
     ty \<in> {''call_start'', ''call_participant'', ''call_end''} \<and>
     map_of r ''scopeType'' = Some (JString ty) \<and> map_of r ''callId'' = Some (JString callId) \<and>
     map_of r (speaker_field ty) = Some (JString speaker) \<and> map_of r ''id'' = Some (JString (derived_id ty callId speaker))"

lemma text_of_Inr [simp]: "text_of r f = Inr s \<longleftrightarrow> map_of r f = Some (JString s)"
  by (auto simp: text_of_def split: option.splits json.splits)

lemma or_invalid_Inr [simp]: "or_invalid v = Inr x \<longleftrightarrow> v = Some x"
  by (simp add: or_invalid_def split: option.splits)

lemma or_invalid_call_Inr [simp]: "or_invalid_call v = Inr x \<longleftrightarrow> v = Inr x"
  by (simp add: or_invalid_call_def split: sum.splits)

lemma map_of_payload [simp]: "f \<noteq> ''proof'' \<Longrightarrow> map_of (payloadOf r) f = map_of r f"
  unfolding payloadOf_def by (induction r) auto

lemma assertShape_type:
  assumes "assertShape sh r = Inr u"
  shows "map_of r ''scopeType'' = Some (JString (sh_scopeType sh))"
  using assms by (auto simp: assertShape_def Let_def hasValidValues_def new_shape_def split: if_splits)

lemma call_policy_cases:
  assumes "policyFor (call_policies L w) ''calls'' scope = Some pol"
  obtains (starts) "pol = start_policy L w" "scope = Some (JString ''call_start'')"
  | (takes_part) "pol = participant_policy L w" "scope = Some (JString ''call_participant'')"
  | (over) "pol = end_policy L w" "scope = Some (JString ''call_end'')"
  using policyFor_Some [OF assms]
  by (auto simp: call_policies_def start_policy_def participant_policy_def end_policy_def)

lemma governs_calls: "governs (call_policies L w) ''calls''"
  by (simp add: governs_def call_policies_def start_policy_def)

lemma intrinsic_start:
  assumes "intrinsicProof L (start_policy L w) r = Some p"
  shows "\<exists>callId. call_record_of r ''call_start'' callId (ma_identityId (pf_author p)) \<or>
           map_of r ''creatorIdentityId'' \<noteq> Some (JString (ma_identityId (pf_author p)))"
  using assms
proof (cases rule: intrinsicProof_Some)
  case (1 e)
  from 1(2) have shape: "assertShape start_shape (payloadOf r) = Inr ()"
    and id: "\<exists>callId. map_of r ''callId'' = Some (JString callId) \<and> map_of r ''id'' = Some (JString (start_id callId))"
    by (auto simp: start_policy_def start_expectationOf_def)
  have "map_of r ''scopeType'' = Some (JString ''call_start'')"
    using assertShape_type [OF shape] by (simp add: start_shape_def new_shape_def)
  with id show ?thesis by (auto simp: call_record_of_def speaker_field_def derived_id_def)
qed

lemma intrinsic_participant:
  assumes "intrinsicProof L (participant_policy L w) r = Some p"
  shows "\<exists>callId. call_record_of r ''call_participant'' callId (ma_identityId (pf_author p))"
  using assms
proof (cases rule: intrinsicProof_Some)
  case (1 e)
  from 1(2) obtain callId identity where shape: "assertShape participant_shape (payloadOf r) = Inr ()"
    and f: "map_of r ''callId'' = Some (JString callId)" "map_of r ''identityId'' = Some (JString identity)"
      "map_of r ''id'' = Some (JString (participant_id callId identity))" "ex_authorIdentityId e = Some identity"
    by (auto simp: participant_policy_def participant_expectationOf_def)
  have "map_of r ''scopeType'' = Some (JString ''call_participant'')"
    using assertShape_type [OF shape] by (simp add: participant_shape_def new_shape_def)
  with f 1(5) [OF f(4)] show ?thesis by (auto simp: call_record_of_def speaker_field_def derived_id_def)
qed

lemma intrinsic_end:
  assumes "intrinsicProof L (end_policy L w) r = Some p"
  shows "\<exists>callId. call_record_of r ''call_end'' callId (ma_identityId (pf_author p))"
  using assms
proof (cases rule: intrinsicProof_Some)
  case (1 e)
  from 1(2) obtain callId identity where shape: "assertShape end_shape (payloadOf r) = Inr ()"
    and f: "map_of r ''callId'' = Some (JString callId)" "map_of r ''endedByIdentityId'' = Some (JString identity)"
      "map_of r ''id'' = Some (JString (end_id callId))" "ex_authorIdentityId e = Some identity"
    by (auto simp: end_policy_def end_expectationOf_def)
  have "map_of r ''scopeType'' = Some (JString ''call_end'')"
    using assertShape_type [OF shape] by (simp add: end_shape_def new_shape_def)
  with f 1(5) [OF f(4)] show ?thesis by (auto simp: call_record_of_def speaker_field_def derived_id_def)
qed

lemma accepted_call_record:
  assumes "verdictOf L A (call_policies L w) ''calls'' r = VerdictAccepted"
  obtains p ty callId where "proofOf L r = Some p" "call_record_of r ty callId (ma_identityId (pf_author p))"
    "pf_recordId p = derived_id ty callId (ma_identityId (pf_author p))"
    "isSignedByDevice L p" "A (pf_author p) = Inr True" "\<not> isDeletion p"
    "lib_digest L (JObject (payloadOf r)) = Some (pf_payloadDigest p)"
  using governs_calls assms
proof (cases rule: verdictOf_accepted)
  case (1 pol p)
  from intrinsicProof_Some [OF 1(2)] obtain e where e: "proofOf L r = Some p" "pol_expectationOf pol (payloadOf r) = Inr e"
    "pf_recordId p = ex_recordId e" "isSignedByDevice L p" "lib_digest L (JObject (payloadOf r)) = Some (pf_payloadDigest p)"
    by metis
  from 1(1) show ?thesis
  proof (cases rule: call_policy_cases)
    case starts
    from 1(4) starts(1) have "\<not> isDeletion p"
      and "map_of r ''creatorIdentityId'' = Some (JString (ma_identityId (pf_author p)))"
      by (auto simp: start_policy_def start_assertPermitted_def split: if_splits)
    with intrinsic_start [of L w r p] 1(2) starts(1) obtain callId
      where c: "call_record_of r ''call_start'' callId (ma_identityId (pf_author p))" "\<not> isDeletion p" by auto
    from e(2) starts(1) c(1) have "ex_recordId e = start_id callId"
      by (auto simp: start_policy_def start_expectationOf_def call_record_of_def)
    then show ?thesis using that [OF e(1) c(1) _ e(4) 1(3) c(2) e(5)] e(3) by (simp add: derived_id_def)
  next
    case takes_part
    with intrinsic_participant [of L w r p] 1(2) obtain callId
      where c: "call_record_of r ''call_participant'' callId (ma_identityId (pf_author p))" by auto
    from 1(4) takes_part(1) have d: "\<not> isDeletion p"
      by (auto simp: participant_policy_def participant_assertPermitted_def split: if_splits)
    from e(2) takes_part(1) c have "ex_recordId e = participant_id callId (ma_identityId (pf_author p))"
      by (auto simp: participant_policy_def participant_expectationOf_def call_record_of_def speaker_field_def)
    then show ?thesis using that [OF e(1) c _ e(4) 1(3) d e(5)] e(3) by (simp add: derived_id_def)
  next
    case over
    with intrinsic_end [of L w r p] 1(2) obtain callId
      where c: "call_record_of r ''call_end'' callId (ma_identityId (pf_author p))" by auto
    from 1(4) over(1) have d: "\<not> isDeletion p"
      by (auto simp: end_policy_def end_assertPermitted_def split: if_splits)
    from e(2) over(1) c have "ex_recordId e = end_id callId"
      by (auto simp: end_policy_def end_expectationOf_def call_record_of_def)
    then show ?thesis using that [OF e(1) c _ e(4) 1(3) d e(5)] e(3) by (simp add: derived_id_def)
  qed
qed

end
