(* ===== verification/CallFold.thy ===== *)
theory CallFold
  imports CallPolicies
begin

text \<open>
  The signed records of a call and the state they fold to (\<open>CallRecords.ts\<close>, \<open>FoldedCall.ts\<close>,
  \<open>OrbitDBCallFold.ts\<close> and the methods \<open>keep\<close> and \<open>store\<close> of \<open>OrbitDBCallProjection.ts\<close> under
  \<open>src/contexts/calls/infrastructure/orbitdb\<close>). A record is the JSON object that was admitted;
  a field that is not of the type the policy demands is read as a failure of the constructor
  that gets it. Whatever the order in which the records arrive, the fold is the same.
\<close>

record call_records =
  cr_start :: "public_record option"
  cr_end :: "public_record option"
  cr_participants :: "(json option, public_record) jsmap"

definition no_records :: call_records where
  "no_records = \<lparr>cr_start = None, cr_end = None, cr_participants = []\<rparr>"

section \<open>Keeping the records\<close>

definition keep :: "lib \<Rightarrow> public_record option \<Rightarrow> public_record \<Rightarrow> mutation_error + public_record" where
  "keep L current candidate =
     (case current of
        None \<Rightarrow> Inr candidate
      | Some c \<Rightarrow> bindR (record_replaces L c candidate) (\<lambda>v. Inr (if v \<noteq> Some False then candidate else c)))"

interpretation call_register: register "carries_proof L" "mutation_rank L" "keep L" for L
  by unfold_locales (auto simp: keep_def record_replaces_rank)

definition isRecord :: "public_record \<Rightarrow> bool" where
  "isRecord r \<longleftrightarrow>
     map_of r ''scopeType'' \<in> set (map (Some \<circ> JString) [''call_start'', ''call_participant'', ''call_end'']) \<and>
     is_string (map_of r ''id'') \<and> is_string (map_of r ''callId'')"

definition callIdOf :: "public_record \<Rightarrow> string" where
  "callIdOf r = text_or_empty r ''callId''"

text \<open>The change of the records of one call by a record of it.\<close>

definition store_in :: "lib \<Rightarrow> public_record \<Rightarrow> call_records \<Rightarrow> mutation_error + call_records" where
  "store_in L r rs =
     (if map_of r ''scopeType'' = Some (JString ''call_start'')
      then bindR (keep L (cr_start rs) r) (\<lambda>k. Inr (rs\<lparr>cr_start := Some k\<rparr>))
      else if map_of r ''scopeType'' = Some (JString ''call_end'')
      then bindR (keep L (cr_end rs) r) (\<lambda>k. Inr (rs\<lparr>cr_end := Some k\<rparr>))
      else let i = map_of r ''identityId'' in
        bindR (keep L (map_of (cr_participants rs) i) r) (\<lambda>k.
          Inr (rs\<lparr>cr_participants := AList.update i k (cr_participants rs)\<rparr>)))"

definition store :: "lib \<Rightarrow> string \<Rightarrow> public_record \<Rightarrow> (string, call_records) jsmap
    \<Rightarrow> mutation_error + (string, call_records) jsmap" where
  "store L callId r m =
     bindR (store_in L r (case map_of m callId of None \<Rightarrow> no_records | Some rs \<Rightarrow> rs)) (\<lambda>rs.
       Inr (AList.update callId rs m))"

section \<open>The fold of a call\<close>

definition call_text :: "public_record \<Rightarrow> string \<Rightarrow> call_error + string" where
  "call_text r f = (case map_of r f of Some (JString s) \<Rightarrow> Inr s | _ \<Rightarrow> Inl CallValueError)"

definition call_int :: "public_record \<Rightarrow> string \<Rightarrow> call_error + int" where
  "call_int r f = (case map_of r f of Some (JInt n) \<Rightarrow> Inr n | _ \<Rightarrow> Inl CallValueError)"

definition scope_text :: "(string \<times> json) list \<Rightarrow> string \<Rightarrow> call_error + string option" where
  "scope_text r f =
     (case map_of r f of None \<Rightarrow> Inr None | Some (JString s) \<Rightarrow> Inr (Some s) | _ \<Rightarrow> Inl CallValueError)"

definition scope_of_record :: "public_record \<Rightarrow> call_error + scope_primitives" where
  "scope_of_record r =
     (let sc = scopeOf r in
      bindR (call_text sc ''type'') (\<lambda>ty.
      bindR (scope_text sc ''conversationId'') (\<lambda>conversation.
      bindR (scope_text sc ''communityId'') (\<lambda>community.
      bindR (scope_text sc ''channelId'') (\<lambda>channel.
      bindR (scope_text sc ''capabilityHash'') (\<lambda>capability.
        Inr \<lparr>sp_capabilityHash = capability, sp_channelId = channel, sp_communityId = community,
             sp_conversationId = conversation, sp_type = ty\<rparr>))))))"

definition identity_of_json :: "lib \<Rightarrow> json \<Rightarrow> call_error + identity_id" where
  "identity_of_json L v = (case v of JString s \<Rightarrow> call_value (lib_identity L s) | _ \<Rightarrow> Inl CallValueError)"

definition epochOf :: "public_record \<Rightarrow> call_error + int option" where
  "epochOf r =
     (case map_of r ''sessionEpoch'' of
        None \<Rightarrow> Inr None
      | Some (JInt n) \<Rightarrow> bindR (new_CallSessionEpoch n) (\<lambda>n. Inr (Some n))
      | _ \<Rightarrow> Inl InvalidCallSessionEpochError)"

text \<open>The place of an event: its claimed time, then its id.\<close>

definition event_key :: "public_record \<Rightarrow> int \<times> string" where
  "event_key r = ((case map_of r ''at'' of Some (JInt n) \<Rightarrow> n | _ \<Rightarrow> 0), text_or_empty r ''id'')"

text \<open>
  What an event makes of a call. An event that throws changes nothing, but for the join that a
  left record implies: it stays when the leave after it throws.
\<close>

definition applyEvent :: "lib \<Rightarrow> public_record \<Rightarrow> call \<Rightarrow> call" where
  "applyEvent L r c =
     (case bindR (call_int r ''at'') (call_timestamp L) of
        Inl _ \<Rightarrow> c
      | Inr t \<Rightarrow>
          if map_of r ''scopeType'' = Some (JString ''call_end'')
          then (case bindR (call_text r ''endedByIdentityId'') (\<lambda>s. call_value (lib_identity L s)) of
                  Inl _ \<Rightarrow> c | Inr i \<Rightarrow> call_endFromRecord i t c)
          else (case bindR (call_text r ''identityId'') (\<lambda>s. call_value (lib_identity L s)) of
                  Inl _ \<Rightarrow> c
                | Inr i \<Rightarrow>
                    if map_of r ''state'' = Some (JString ''joined'')
                    then (case call_join i t c of Inl _ \<Rightarrow> c | Inr c' \<Rightarrow> c')
                    else let c1 = (if map_of r ''state'' = Some (JString ''left'')
                                   then (case call_join i t c of Inl _ \<Rightarrow> c | Inr c' \<Rightarrow> c') else c)
                         in (case call_leave i t c1 of Inl _ \<Rightarrow> c1 | Inr c' \<Rightarrow> c')))"

definition call_events_of :: "call_scope \<Rightarrow> call_records \<Rightarrow> public_record list" where
  "call_events_of sc rs =
     sort_key event_key
       ((if isConversation sc then map snd (cr_participants rs) else [])
        @ (case cr_end rs of None \<Rightarrow> [] | Some e \<Rightarrow> [e]))"

definition apply_records :: "lib \<Rightarrow> call_records \<Rightarrow> call \<Rightarrow> call" where
  "apply_records L rs c = fold (applyEvent L) (call_events_of (cl_scope c) rs) c"

record folded_call =
  fc_digest :: string
  fc_primitives :: call_primitives

definition begin_of :: "lib \<Rightarrow> public_record \<Rightarrow> call_error + call" where
  "begin_of L start =
     bindR (scope_of_record start) (\<lambda>sp.
     bindR (scope_fromPrimitives L sp) (\<lambda>scope.
     bindR (bindR (call_text start ''creatorIdentityId'') (\<lambda>s. call_value (lib_identity L s))) (\<lambda>creator.
     bindR (bindR (call_text start ''networkId'') (\<lambda>s. call_value (lib_network L s))) (\<lambda>network.
     bindR (mapR (identity_of_json L) (participantIdsOf start)) (\<lambda>participants.
     bindR (bindR (call_text start ''nonce'') (new_CallNonce L)) (\<lambda>nonce.
     bindR (bindR (call_int start ''startedAt'') (call_timestamp L)) (\<lambda>startedAt.
     bindR (epochOf start) (\<lambda>epoch.
       call_begin L creator network scope participants nonce startedAt epoch))))))))"

definition call_fold :: "lib \<Rightarrow> call_records \<Rightarrow> int option \<Rightarrow> folded_call option" where
  "call_fold L rs timedOutAt =
     (case cr_start rs of
        None \<Rightarrow> None
      | Some start \<Rightarrow>
          (case bindR (begin_of L start) (\<lambda>begun.
                  let applied = apply_records L rs begun in
                  bindR (case timedOutAt of
                           None \<Rightarrow> Inr applied
                         | Some t \<Rightarrow>
                             if call_isActive applied
                             then bindR (call_timestamp L t) (\<lambda>t. bindR (markTimedOut t applied) (\<lambda>r. Inr (fst r)))
                             else Inr applied) (\<lambda>c.
                  let p = call_toPrimitives c in
                  Inr \<lparr>fc_digest = (case proofOf L start of None \<Rightarrow> [] | Some p \<Rightarrow> pf_payloadDigest p),
                       fc_primitives = (if isLeaseRostered (cl_scope begun)
                                        then p\<lparr>clp_participantIds := [], clp_participants := []\<rparr> else p)\<rparr>)) of
             Inl _ \<Rightarrow> None | Inr f \<Rightarrow> Some f))"

section \<open>Where a record is kept\<close>

datatype call_slot = StartSlot | EndSlot | ParticipantSlot "json option"

definition slot_of :: "public_record \<Rightarrow> call_slot" where
  "slot_of r =
     (if map_of r ''scopeType'' = Some (JString ''call_start'') then StartSlot
      else if map_of r ''scopeType'' = Some (JString ''call_end'') then EndSlot
      else ParticipantSlot (map_of r ''identityId''))"

fun kept_in :: "call_records \<Rightarrow> call_slot \<Rightarrow> public_record option" where
  "kept_in rs StartSlot = cr_start rs"
| "kept_in rs EndSlot = cr_end rs"
| "kept_in rs (ParticipantSlot i) = map_of (cr_participants rs) i"

definition records_of :: "(string, call_records) jsmap \<Rightarrow> string \<Rightarrow> call_records" where
  "records_of m callId = (case map_of m callId of None \<Rightarrow> no_records | Some rs \<Rightarrow> rs)"

definition held :: "(string, call_records) jsmap \<Rightarrow> string \<times> call_slot \<Rightarrow> public_record option" where
  "held m p = kept_in (records_of m (fst p)) (snd p)"

definition place_of :: "public_record \<Rightarrow> string \<times> call_slot" where
  "place_of r = (callIdOf r, slot_of r)"

lemma kept_no_records [simp]: "kept_in no_records s = None"
  by (cases s) (simp_all add: no_records_def)

lemma store_in_kept:
  assumes "store_in L r rs = Inr rs'"
  shows "\<exists>k. keep L (kept_in rs (slot_of r)) r = Inr k \<and>
    (\<forall>s. kept_in rs' s = (if s = slot_of r then Some k else kept_in rs s)) \<and>
    (distinct (map fst (cr_participants rs)) \<longrightarrow> distinct (map fst (cr_participants rs')))"
proof -
  have all: "(\<forall>s. P s) \<longleftrightarrow> P StartSlot \<and> P EndSlot \<and> (\<forall>i. P (ParticipantSlot i))" for P
    by (metis call_slot.exhaust)
  show ?thesis using assms
    by (auto simp: store_in_def slot_of_def Let_def all update_conv' split: if_splits intro: distinct_update)
qed

lemma store_in_total: "keep L (kept_in rs (slot_of r)) r = Inr k \<Longrightarrow> \<exists>rs'. store_in L r rs = Inr rs'"
  by (auto simp: store_in_def slot_of_def Let_def split: if_splits)

lemma store_held:
  assumes "store L (callIdOf r) r m = Inr m'"
  shows "\<exists>k. keep L (held m (place_of r)) r = Inr k \<and>
    (\<forall>p. held m' p = (if p = place_of r then Some k else held m p))"
proof -
  from assms obtain rs' where rs': "store_in L r (records_of m (callIdOf r)) = Inr rs'"
    and m': "m' = AList.update (callIdOf r) rs' m" by (auto simp: store_def records_of_def)
  from store_in_kept [OF rs'] show ?thesis
    by (auto simp: held_def place_of_def m' records_of_def update_conv')
qed

lemma store_total:
  assumes "keep L (held m (place_of r)) r = Inr k"
  shows "\<exists>m'. store L (callIdOf r) r m = Inr m'"
  using store_in_total [of L "records_of m (callIdOf r)" r k] assms
  by (auto simp: store_def held_def place_of_def records_of_def)

fun store_all :: "lib \<Rightarrow> public_record list \<Rightarrow> (string, call_records) jsmap \<Rightarrow> mutation_error + (string, call_records) jsmap" where
  "store_all L [] m = Inr m"
| "store_all L (r # rs) m = bindR (store L (callIdOf r) r m) (store_all L rs)"

lemma store_all_held:
  assumes "store_all L rs m = Inr m'"
  shows "foldR (keep L) (held m p) (filter (\<lambda>r. place_of r = p) rs) = Inr (held m' p)"
  using assms
proof (induction rs arbitrary: m)
  case (Cons r rs)
  from Cons.prems obtain m1 where m1: "store L (callIdOf r) r m = Inr m1" "store_all L rs m1 = Inr m'" by auto
  from store_held [OF m1(1)] obtain k where "keep L (held m (place_of r)) r = Inr k"
    "held m1 p = (if p = place_of r then Some k else held m p)" by blast
  with Cons.IH [OF m1(2)] show ?case by auto
qed simp

lemma held_empty [simp]: "held [] p = None"
  by (simp add: held_def records_of_def)

lemma held_member:
  assumes "store_all L rs [] = Inr m" and "held m p = Some r" and "\<forall>r \<in> set rs. carries_proof L r"
  shows "r \<in> set rs \<and> place_of r = p"
proof -
  let ?rs = "filter (\<lambda>r. place_of r = p) rs"
  have f: "foldR (keep L) None ?rs = Inr (Some r)" using store_all_held [OF assms(1), of p] assms(2) by simp
  then have "?rs \<noteq> []" by auto
  with call_register.placed [of ?rs L] assms(3) f show ?thesis by force
qed

lemma store_all_total:
  assumes "\<forall>r \<in> set rs. carries_proof L r" and "\<forall>p r. held m p = Some r \<longrightarrow> carries_proof L r"
  shows "\<exists>m'. store_all L rs m = Inr m' \<and> (\<forall>p r. held m' p = Some r \<longrightarrow> carries_proof L r)"
  using assms
proof (induction rs arbitrary: m)
  case (Cons r rs)
  have "\<exists>k. keep L (held m (place_of r)) r = Inr k \<and> carries_proof L k"
  proof (cases "held m (place_of r)")
    case (Some c)
    then have "carries_proof L c" using Cons.prems(2) by blast
    with Some Cons.prems(1) call_register.place_valid [of L c r] show ?thesis by simp
  qed (use Cons.prems(1) call_register.place_first [of L r] in simp)
  then obtain k where k: "keep L (held m (place_of r)) r = Inr k" "carries_proof L k" by blast
  then obtain m1 where m1: "store L (callIdOf r) r m = Inr m1" using store_total by blast
  then have "\<forall>p r. held m1 p = Some r \<longrightarrow> carries_proof L r"
    using store_held [OF m1] k Cons.prems(2) by auto
  with Cons.IH [of m1] Cons.prems(1) m1 show ?case by simp
qed simp

lemma store_all_distinct:
  assumes "store_all L rs m = Inr m'" and "\<forall>c. distinct (map fst (cr_participants (records_of m c)))"
  shows "distinct (map fst (cr_participants (records_of m' c)))"
  using assms
proof (induction rs arbitrary: m)
  case (Cons r rs)
  from Cons.prems(1) obtain rs1 where rs1: "store_in L r (records_of m (callIdOf r)) = Inr rs1"
    and s: "store_all L rs (AList.update (callIdOf r) rs1 m) = Inr m'"
    by (auto simp: store_def records_of_def)
  have "\<forall>c. distinct (map fst (cr_participants (records_of (AList.update (callIdOf r) rs1 m) c)))"
    using store_in_kept [OF rs1] Cons.prems(2) by (auto simp: records_of_def update_conv' split: option.splits)
  then show ?case by (rule Cons.IH [OF s])
qed simp

section \<open>The fold does not depend on the order of arrival\<close>

lemma map_of_same_set:
  assumes "distinct (map fst xs)" and "distinct (map fst ys)" and "map_of xs = map_of ys"
  shows "mset xs = mset ys"
proof -
  have "set xs = set ys" using assms by (metis map_of_inject_set)
  moreover have "distinct xs" "distinct ys" using assms(1,2) by (simp_all add: distinct_map)
  ultimately show ?thesis by (simp add: set_eq_iff_mset_eq_distinct)
qed

definition event_records :: "call_records \<Rightarrow> public_record set" where
  "event_records rs = snd ` set (cr_participants rs) \<union> set_option (cr_end rs)"

lemma call_events_same:
  assumes "distinct (map fst (cr_participants rs))" and "distinct (map fst (cr_participants rs'))"
    and "map_of (cr_participants rs) = map_of (cr_participants rs')" and "cr_end rs = cr_end rs'"
    and "inj_on event_key (event_records rs)"
  shows "call_events_of sc rs = call_events_of sc rs'"
proof -
  let ?xs = "(if isConversation sc then map snd (cr_participants rs) else []) @ (case cr_end rs of None \<Rightarrow> [] | Some e \<Rightarrow> [e])"
  let ?ys = "(if isConversation sc then map snd (cr_participants rs') else []) @ (case cr_end rs' of None \<Rightarrow> [] | Some e \<Rightarrow> [e])"
  have "mset (cr_participants rs) = mset (cr_participants rs')" using map_of_same_set assms(1-3) by blast
  then have m: "mset ?xs = mset ?ys" using assms(4) by (simp add: mset_map)
  have "inj_on event_key (set ?xs)"
    by (rule inj_on_subset [OF assms(5)]) (auto simp: event_records_def split: option.splits)
  then have "sort_key event_key ?xs = sort_key event_key ?ys"
    using m by (intro sort_key_inj_key_eq) (simp_all add: )
  then show ?thesis by (simp add: call_events_of_def)
qed

lemma call_fold_same:
  assumes "cr_start rs = cr_start rs'" and "\<And>sc. call_events_of sc rs = call_events_of sc rs'"
  shows "call_fold L rs t = call_fold L rs' t"
proof -
  have "apply_records L rs = apply_records L rs'" by (rule ext) (simp add: apply_records_def assms(2))
  then show ?thesis by (simp only: call_fold_def assms(1))
qed

text \<open>The ids the policies demand tell the events of one call apart.\<close>

lemma event_ids_distinct:
  assumes "call_record_of r ty callId i" and "call_record_of r' ty' callId i'"
    and "ty \<noteq> ''call_start''" and "ty' \<noteq> ''call_start''" and "text_or_empty r ''id'' = text_or_empty r' ''id''"
  shows "ty = ty' \<and> (ty = ''call_participant'' \<longrightarrow> i = i')"
proof -
  have ids: "derived_id ty callId i = derived_id ty' callId i'"
    using assms(1,2,5) by (simp add: call_record_of_def text_or_empty_def)
  have "ty \<in> {''call_participant'', ''call_end''}" "ty' \<in> {''call_participant'', ''call_end''}"
    using assms(1-4) unfolding call_record_of_def by blast+
  then show ?thesis using ids by (auto simp: derived_id_def participant_id_def end_id_def)
qed

definition call_admitted :: "lib \<Rightarrow> public_record \<Rightarrow> bool" where
  "call_admitted L r \<longleftrightarrow> carries_proof L r \<and> (\<exists>ty callId i. call_record_of r ty callId i)"

lemma call_record_place:
  assumes "call_record_of r ty callId i"
  shows "callIdOf r = callId"
    and "slot_of r = (if ty = ''call_start'' then StartSlot else if ty = ''call_end'' then EndSlot
           else ParticipantSlot (Some (JString i)))"
  using assms by (auto simp: call_record_of_def callIdOf_def slot_of_def text_or_empty_def speaker_field_def)

lemma participants_entry:
  assumes "distinct (map fst (cr_participants (records_of m callId)))" and "(i, r) \<in> set (cr_participants (records_of m callId))"
  shows "held m (callId, ParticipantSlot i) = Some r"
  using assms by (simp add: held_def)

lemma stored_events_inj:
  assumes rs: "\<forall>r \<in> set rs. call_admitted L r" and m: "store_all L rs [] = Inr m"
  shows "inj_on event_key (event_records (records_of m callId))"
proof (rule inj_onI)
  have c: "\<forall>r \<in> set rs. carries_proof L r" using rs by (simp add: call_admitted_def)
  have d: "distinct (map fst (cr_participants (records_of m callId)))"
    by (rule store_all_distinct [OF m]) (simp add: records_of_def no_records_def)
  have p: "\<exists>ty i. call_record_of r ty callId i \<and> ty \<noteq> ''call_start'' \<and> held m (place_of r) = Some r"
    if "r \<in> event_records (records_of m callId)" for r
  proof -
    from that obtain s where s: "held m (callId, s) = Some r" "s \<noteq> StartSlot"
    proof -
      from \<open>r \<in> event_records (records_of m callId)\<close> consider
        (participant) i where "(i, r) \<in> set (cr_participants (records_of m callId))"
      | (over) "cr_end (records_of m callId) = Some r" unfolding event_records_def by force
      then show ?thesis
      proof cases
        case participant
        then show ?thesis using that [of "ParticipantSlot i"] participants_entry [OF d] by simp
      next
        case over
        then show ?thesis using that [of EndSlot] by (simp add: held_def)
      qed
    qed
    from held_member [OF m s(1) c] have r: "r \<in> set rs" "place_of r = (callId, s)" by auto
    from rs r(1) obtain ty c' i where t: "call_record_of r ty c' i" by (auto simp: call_admitted_def)
    with call_record_place [OF t] r(2) s show ?thesis by (force simp: place_of_def)
  qed
  fix x y
  assume x: "x \<in> event_records (records_of m callId)" and y: "y \<in> event_records (records_of m callId)"
    and k: "event_key x = event_key y"
  from p [OF x] obtain ty i where tx: "call_record_of x ty callId i" "ty \<noteq> ''call_start''" "held m (place_of x) = Some x" by blast
  from p [OF y] obtain ty' i' where t: "call_record_of y ty' callId i'" "ty' \<noteq> ''call_start''" "held m (place_of y) = Some y" by blast
  from k have "text_or_empty x ''id'' = text_or_empty y ''id''" by (simp add: event_key_def)
  from event_ids_distinct [OF tx(1) t(1) tx(2) t(2) this]
  have e: "ty' = ty" "ty = ''call_participant'' \<Longrightarrow> i' = i" by simp_all
  have "ty = ''call_participant'' \<or> ty = ''call_end''" using tx(1,2) by (auto simp only: call_record_of_def)
  then have "place_of x = place_of y"
    by (elim disjE) (simp_all add: place_of_def call_record_place [OF tx(1)] call_record_place [OF t(1)] e)
  then have "Some x = Some y" using tx(3) t(3) by metis
  then show "x = y" by simp
qed

lemma stored_records_same:
  assumes rs: "\<forall>r \<in> set rs. carries_proof L r" and same: "set rs = set rs'"
    and inj: "\<And>p. inj_on (mutation_rank L) {r \<in> set rs. place_of r = p}"
    and m: "store_all L rs [] = Inr m" and m': "store_all L rs' [] = Inr m'"
  shows "held m p = held m' p"
proof -
  let ?f = "filter (\<lambda>r. place_of r = p)"
  have "foldR (keep L) None (?f rs) = foldR (keep L) None (?f rs')"
    using rs same inj [of p] by (intro call_register.placed_same) auto
  then show ?thesis using store_all_held [OF m, of p] store_all_held [OF m', of p] by simp
qed

lemma stored_fold_same:
  assumes rs: "\<forall>r \<in> set rs. call_admitted L r" and same: "set rs = set rs'"
    and inj: "\<And>p. inj_on (mutation_rank L) {r \<in> set rs. place_of r = p}"
    and m: "store_all L rs [] = Inr m" and m': "store_all L rs' [] = Inr m'"
  shows "call_fold L (records_of m callId) t = call_fold L (records_of m' callId) t"
proof (rule call_fold_same)
  have c: "\<forall>r \<in> set rs. carries_proof L r" using rs by (simp add: call_admitted_def)
  have h: "kept_in (records_of m callId) s = kept_in (records_of m' callId) s" for s
    using stored_records_same [OF c same inj m m', of "(callId, s)"] by (simp add: held_def)
  show "cr_start (records_of m callId) = cr_start (records_of m' callId)" using h [of StartSlot] by simp
  show "call_events_of sc (records_of m callId) = call_events_of sc (records_of m' callId)" for sc
  proof (rule call_events_same)
    show "distinct (map fst (cr_participants (records_of m callId)))" "distinct (map fst (cr_participants (records_of m' callId)))"
      by (rule store_all_distinct [OF m] store_all_distinct [OF m'], simp add: records_of_def no_records_def)+
    show "map_of (cr_participants (records_of m callId)) = map_of (cr_participants (records_of m' callId))"
      using h [of "ParticipantSlot _"] by auto
    show "cr_end (records_of m callId) = cr_end (records_of m' callId)" using h [of EndSlot] by simp
    show "inj_on event_key (event_records (records_of m callId))" by (rule stored_events_inj [OF rs m])
  qed
qed

end
