(* ===== verification/CallProjection.thy ===== *)
theory CallProjection
  imports CallFold
begin

text \<open>
  The projection a node keeps of all calls (\<open>OrbitDBCallProjection.ts\<close> under
  \<open>src/contexts/calls/infrastructure/orbitdb\<close>): the folded call of every call id, the lookup
  indexes beside it, and which of the calls of one creator or of one community channel is live.
  The clock and the longest duration of a call are parameters of the queries. Waking those who
  wait for a call and publishing a snapshot are not part of the state.
\<close>

section \<open>The state\<close>

datatype index = ByParticipant | ByConversation | ByCommunity | ByGroupCapability | ByCommunityChannel | ByCreatorScope

type_synonym call_index = "(string, string list) jsmap"

record projection =
  pj_folded :: "(string, folded_call) jsmap"
  pj_records :: "(string, call_records) jsmap"
  pj_timedOut :: "(string, int) jsmap"
  pj_index :: "index \<Rightarrow> call_index"

definition new_projection :: projection where
  "new_projection = \<lparr>pj_folded = [], pj_records = [], pj_timedOut = [], pj_index = (\<lambda>_. [])\<rparr>"

text \<open>\<open>if (!key) return\<close>: no key and the empty text are the same.\<close>

definition addToIndex :: "string option \<Rightarrow> string \<Rightarrow> call_index \<Rightarrow> call_index" where
  "addToIndex key callId ix =
     (case key of
        None \<Rightarrow> ix
      | Some k \<Rightarrow> if k = [] then ix
                  else AList.update k (set_add callId (case map_of ix k of None \<Rightarrow> [] | Some ids \<Rightarrow> ids)) ix)"

definition removeFromIndex :: "string option \<Rightarrow> string \<Rightarrow> call_index \<Rightarrow> call_index" where
  "removeFromIndex key callId ix =
     (case key of
        None \<Rightarrow> ix
      | Some k \<Rightarrow> if k = [] then ix
                  else case map_of ix k of
                         None \<Rightarrow> ix
                       | Some ids \<Rightarrow>
                           let ids' = set_delete callId ids in
                           if ids' = [] then AList.delete k ix else AList.update k ids' ix)"

text \<open>\<open>left && right ? ... : undefined\<close> on texts: the empty text counts as absent.\<close>

definition communityChannelKey :: "call_primitives \<Rightarrow> string option" where
  "communityChannelKey p =
     (case (sp_communityId (clp_scope p), sp_channelId (clp_scope p)) of
        (Some community, Some channel) \<Rightarrow>
          if community = [] \<or> channel = [] then None else Some (community @ '':'' @ channel)
      | _ \<Rightarrow> None)"

text \<open>An absent value in a template literal.\<close>

definition interpolated :: "string option \<Rightarrow> string" where
  "interpolated v = (case v of None \<Rightarrow> ''undefined'' | Some s \<Rightarrow> s)"

definition creatorScopeKey :: "call_primitives \<Rightarrow> string" where
  "creatorScopeKey p =
     (let sc = clp_scope p in
      clp_creatorIdentityId p @ '':'' @
        (case sp_conversationId sc of Some s \<Rightarrow> s
         | None \<Rightarrow> (case sp_capabilityHash sc of Some s \<Rightarrow> s
                   | None \<Rightarrow> interpolated (sp_communityId sc) @ '':'' @ interpolated (sp_channelId sc))))"

definition index_keys :: "call_primitives \<Rightarrow> (index \<times> string option) list" where
  "index_keys p =
     map (\<lambda>i. (ByParticipant, Some i)) (clp_participantIds p)
     @ [(ByConversation, sp_conversationId (clp_scope p)), (ByCommunity, sp_communityId (clp_scope p)),
        (ByGroupCapability, sp_capabilityHash (clp_scope p)), (ByCommunityChannel, communityChannelKey p),
        (ByCreatorScope, Some (creatorScopeKey p))]"

definition index_step :: "(string option \<Rightarrow> string \<Rightarrow> call_index \<Rightarrow> call_index) \<Rightarrow> string
    \<Rightarrow> index \<times> string option \<Rightarrow> (index \<Rightarrow> call_index) \<Rightarrow> index \<Rightarrow> call_index" where
  "index_step act callId ik ixs = ixs(fst ik := act (snd ik) callId (ixs (fst ik)))"

definition applyIndexes :: "call_primitives \<Rightarrow> (string option \<Rightarrow> string \<Rightarrow> call_index \<Rightarrow> call_index)
    \<Rightarrow> (index \<Rightarrow> call_index) \<Rightarrow> index \<Rightarrow> call_index" where
  "applyIndexes p act ixs = fold (index_step act (clp_id p)) (index_keys p) ixs"

definition refold :: "lib \<Rightarrow> string \<Rightarrow> projection \<Rightarrow> projection" where
  "refold L callId P =
     (let previous = map_of (pj_folded P) callId;
          next_fold = call_fold L (records_of (pj_records P) callId) (map_of (pj_timedOut P) callId) in
      if previous = next_fold then P
      else
        let ixs = (case previous of None \<Rightarrow> pj_index P | Some f \<Rightarrow> applyIndexes (fc_primitives f) removeFromIndex (pj_index P)) in
        case next_fold of
          Some f \<Rightarrow> P\<lparr>pj_folded := AList.update callId f (pj_folded P),
                       pj_index := applyIndexes (fc_primitives f) addToIndex ixs\<rparr>
        | None \<Rightarrow> P\<lparr>pj_folded := AList.delete callId (pj_folded P), pj_index := ixs\<rparr>)"

definition project :: "lib \<Rightarrow> public_record \<Rightarrow> projection \<Rightarrow> mutation_error + projection" where
  "project L r P =
     (if \<not> isRecord r then Inr P
      else bindR (store L (callIdOf r) r (pj_records P)) (\<lambda>records.
             Inr (refold L (callIdOf r) (P\<lparr>pj_records := records\<rparr>))))"

definition projection_markTimedOut :: "lib \<Rightarrow> string \<Rightarrow> int \<Rightarrow> projection \<Rightarrow> projection" where
  "projection_markTimedOut L callId t P =
     (if map_of (pj_records P) callId = None then P
      else refold L callId (P\<lparr>pj_timedOut := AList.update callId t (pj_timedOut P)\<rparr>))"

section \<open>The queries\<close>

definition callsIn :: "projection \<Rightarrow> index \<Rightarrow> string \<Rightarrow> string list" where
  "callsIn P i k = (case map_of (pj_index P i) k of None \<Rightarrow> [] | Some ids \<Rightarrow> ids)"

definition withinDuration :: "int \<Rightarrow> int \<Rightarrow> folded_call \<Rightarrow> call_primitives" where
  "withinDuration maxDuration now f =
     (let p = fc_primitives f; expiresAt = clp_createdAt p + maxDuration in
      if clp_status p = ''active'' \<and> expiresAt \<le> now then p\<lparr>clp_endedAt := Some expiresAt, clp_status := ''ended''\<rparr> else p)"

definition isLive :: "int \<Rightarrow> int \<Rightarrow> folded_call \<Rightarrow> bool" where
  "isLive maxDuration now f \<longleftrightarrow> clp_status (withinDuration maxDuration now f) = ''active''"

definition liveCalls :: "int \<Rightarrow> int \<Rightarrow> projection \<Rightarrow> string list \<Rightarrow> folded_call list" where
  "liveCalls maxDuration now P ids =
     filter (isLive maxDuration now) (List.map_filter (map_of (pj_folded P)) ids)"

definition startedAfter :: "folded_call \<Rightarrow> folded_call \<Rightarrow> bool" where
  "startedAfter f g \<longleftrightarrow>
     clp_createdAt (fc_primitives f) > clp_createdAt (fc_primitives g) \<or>
     (clp_createdAt (fc_primitives f) = clp_createdAt (fc_primitives g) \<and> clp_id (fc_primitives f) > clp_id (fc_primitives g))"

definition isLatestOfCreator :: "int \<Rightarrow> int \<Rightarrow> projection \<Rightarrow> folded_call \<Rightarrow> bool" where
  "isLatestOfCreator maxDuration now P f \<longleftrightarrow>
     \<not> list_ex (\<lambda>g. startedAfter g f)
         (liveCalls maxDuration now P (callsIn P ByCreatorScope (creatorScopeKey (fc_primitives f))))"

definition better_start :: "folded_call option \<Rightarrow> folded_call \<Rightarrow> folded_call option" where
  "better_start winner candidate =
     (case winner of
        None \<Rightarrow> Some candidate
      | Some w \<Rightarrow> if fc_digest candidate < fc_digest w then Some candidate else Some w)"

definition channelWinner :: "int \<Rightarrow> int \<Rightarrow> projection \<Rightarrow> string \<Rightarrow> folded_call option" where
  "channelWinner maxDuration now P channelKey =
     foldl better_start None
       (filter (isLatestOfCreator maxDuration now P)
         (liveCalls maxDuration now P (callsIn P ByCommunityChannel channelKey)))"

text \<open>\<open>None\<close> when the call is not superseded, else the id of the call that won over it, if any.\<close>

definition supersession :: "int \<Rightarrow> int \<Rightarrow> projection \<Rightarrow> folded_call \<Rightarrow> string option option" where
  "supersession maxDuration now P f =
     (let winner = (case communityChannelKey (fc_primitives f) of
                      None \<Rightarrow> None
                    | Some k \<Rightarrow> if k = [] then None else channelWinner maxDuration now P k) in
      if isLatestOfCreator maxDuration now P f \<and> (winner = None \<or> winner = Some f) then None
      else Some (map_option (\<lambda>w. clp_id (fc_primitives w)) winner))"

definition resolve :: "int \<Rightarrow> int \<Rightarrow> projection \<Rightarrow> string \<Rightarrow> call_primitives option" where
  "resolve maxDuration now P callId =
     (case map_of (pj_folded P) callId of
        None \<Rightarrow> None
      | Some f \<Rightarrow>
          let p = withinDuration maxDuration now f in
          case (if clp_status p = ''active'' then supersession maxDuration now P f else None) of
            None \<Rightarrow> Some p
          | Some winnerId \<Rightarrow>
              let ended = p\<lparr>clp_endedAt := Some (max (clp_createdAt p) now), clp_status := ''ended''\<rparr> in
              Some (case winnerId of None \<Rightarrow> ended | Some w \<Rightarrow>
                      if w = [] then ended else ended\<lparr>clp_supersededByCallId := Some w\<rparr>))"

definition resolveAll :: "int \<Rightarrow> int \<Rightarrow> projection \<Rightarrow> string list \<Rightarrow> call_primitives list" where
  "resolveAll maxDuration now P ids = List.map_filter (resolve maxDuration now P) ids"

definition findByConversationId :: "int \<Rightarrow> int \<Rightarrow> projection \<Rightarrow> string \<Rightarrow> call_primitives list" where
  "findByConversationId maxDuration now P conversationId =
     sort_key clp_createdAt (resolveAll maxDuration now P (callsIn P ByConversation conversationId))"

definition findByCommunityChannel :: "int \<Rightarrow> int \<Rightarrow> projection \<Rightarrow> string \<Rightarrow> string \<Rightarrow> call_primitives list" where
  "findByCommunityChannel maxDuration now P communityId channelId =
     sort_key clp_createdAt
       (resolveAll maxDuration now P (callsIn P ByCommunityChannel (communityId @ '':'' @ channelId)))"

definition findActiveByCommunityChannel :: "int \<Rightarrow> int \<Rightarrow> projection \<Rightarrow> string \<Rightarrow> string \<Rightarrow> call_primitives option" where
  "findActiveByCommunityChannel maxDuration now P communityId channelId =
     find (\<lambda>p. clp_status p = ''active'') (findByCommunityChannel maxDuration now P communityId channelId)"

definition findActiveByCommunity :: "int \<Rightarrow> int \<Rightarrow> projection \<Rightarrow> string \<Rightarrow> call_primitives list" where
  "findActiveByCommunity maxDuration now P communityId =
     sort_key clp_createdAt
       (filter (\<lambda>p. clp_status p = ''active'' \<and> sp_type (clp_scope p) = ''community_channel'')
         (resolveAll maxDuration now P (callsIn P ByCommunity communityId)))"

definition findByParticipant :: "int \<Rightarrow> int \<Rightarrow> projection \<Rightarrow> string \<Rightarrow> call_primitives list" where
  "findByParticipant maxDuration now P i = resolveAll maxDuration now P (callsIn P ByParticipant i)"

definition findActiveByParticipant :: "int \<Rightarrow> int \<Rightarrow> projection \<Rightarrow> string \<Rightarrow> call_primitives list" where
  "findActiveByParticipant maxDuration now P i =
     filter (\<lambda>p. clp_status p = ''active'' \<and>
               list_ex (\<lambda>q. pp_identityId q = i \<and> pp_status q \<in> set [''joined'', ''ringing'']) (clp_participants p))
       (resolveAll maxDuration now P (callsIn P ByParticipant i))"

definition findActiveLeaseRosteredCalls :: "int \<Rightarrow> int \<Rightarrow> projection \<Rightarrow> call_primitives list" where
  "findActiveLeaseRosteredCalls maxDuration now P =
     filter (\<lambda>p. clp_status p = ''active'')
       (resolveAll maxDuration now P
         (concat (map snd (pj_index P ByCommunity)) @ concat (map snd (pj_index P ByGroupCapability))))"

definition findTimedOutRingingCalls :: "int \<Rightarrow> int \<Rightarrow> projection \<Rightarrow> int \<Rightarrow> call_primitives list" where
  "findTimedOutRingingCalls maxDuration now P threshold =
     filter (\<lambda>p. clp_status p = ''active'' \<and> clp_createdAt p \<le> threshold \<and>
               list_ex (\<lambda>q. pp_status q = ''ringing'') (clp_participants p))
       (resolveAll maxDuration now P (map fst (pj_folded P)))"

section \<open>What an index holds\<close>

definition index_entries :: "call_index \<Rightarrow> string \<Rightarrow> string set" where
  "index_entries ix k = set (case map_of ix k of None \<Rightarrow> [] | Some ids \<Rightarrow> ids)"

lemma entries_add:
  "index_entries (addToIndex key callId ix) k =
     index_entries ix k \<union> (if key = Some k \<and> k \<noteq> [] then {callId} else {})"
  by (auto simp: addToIndex_def index_entries_def update_conv' split: option.splits)

lemma entries_remove:
  "index_entries (removeFromIndex key callId ix) k =
     index_entries ix k - (if key = Some k \<and> k \<noteq> [] then {callId} else {})"
proof (cases key)
  case (Some k')
  show ?thesis
  proof (cases "map_of ix k'")
    case (Some ids)
    have "set_delete callId ids = [] \<Longrightarrow> set ids \<subseteq> {callId}" by (auto simp: set_delete_def filter_empty_conv)
    with Some \<open>key = Some k'\<close> show ?thesis
      by (auto simp: removeFromIndex_def index_entries_def Let_def update_conv' delete_conv' split: option.splits)
  qed (use \<open>key = Some k'\<close> in \<open>auto simp: removeFromIndex_def index_entries_def\<close>)
qed (simp add: removeFromIndex_def)

lemma entries_fold_add:
  "index_entries (fold (index_step addToIndex c) keys ixs i) k =
     index_entries (ixs i) k \<union> (if (i, Some k) \<in> set keys \<and> k \<noteq> [] then {c} else {})"
proof (induction keys arbitrary: ixs)
  case (Cons ik keys)
  obtain j key where ik: "ik = (j, key)" by (cases ik)
  show ?case by (simp only: fold.simps o_apply Cons.IH) (auto simp: ik index_step_def entries_add)
qed simp

lemma entries_fold_remove:
  "index_entries (fold (index_step removeFromIndex c) keys ixs i) k =
     index_entries (ixs i) k - (if (i, Some k) \<in> set keys \<and> k \<noteq> [] then {c} else {})"
proof (induction keys arbitrary: ixs)
  case (Cons ik keys)
  obtain j key where ik: "ik = (j, key)" by (cases ik)
  show ?case by (simp only: fold.simps o_apply Cons.IH) (auto simp: ik index_step_def entries_remove)
qed simp

text \<open>What the call with an id contributes to an index.\<close>

definition indexes :: "string \<Rightarrow> folded_call option \<Rightarrow> index \<Rightarrow> string \<Rightarrow> bool" where
  "indexes callId f i k \<longleftrightarrow>
     k \<noteq> [] \<and> (case f of None \<Rightarrow> False | Some f \<Rightarrow> (i, Some k) \<in> set (index_keys (fc_primitives f)))"

definition index_ok :: "projection \<Rightarrow> bool" where
  "index_ok P \<longleftrightarrow>
     (\<forall>i k callId. callId \<in> index_entries (pj_index P i) k \<longleftrightarrow> indexes callId (map_of (pj_folded P) callId) i k)"

definition folded_ok :: "lib \<Rightarrow> projection \<Rightarrow> bool" where
  "folded_ok L P \<longleftrightarrow>
     (\<forall>callId. map_of (pj_folded P) callId =
        call_fold L (records_of (pj_records P) callId) (map_of (pj_timedOut P) callId))"

definition ids_ok :: "lib \<Rightarrow> (string, call_records) jsmap \<Rightarrow> bool" where
  "ids_ok L records \<longleftrightarrow>
     (\<forall>callId t f. call_fold L (records_of records callId) t = Some f \<longrightarrow> clp_id (fc_primitives f) = callId)"

lemma refold_simps [simp]:
  "pj_records (refold L callId P) = pj_records P" "pj_timedOut (refold L callId P) = pj_timedOut P"
  by (simp_all add: refold_def Let_def split: option.splits)

lemma refold_folded:
  "map_of (pj_folded (refold L callId P)) =
     (map_of (pj_folded P))(callId := call_fold L (records_of (pj_records P) callId) (map_of (pj_timedOut P) callId))"
  by (auto simp: refold_def Let_def update_conv' delete_conv' fun_upd_idem split: option.splits)

lemma refold_index_ok:
  assumes ix: "index_ok P" and ids: "ids_ok L (pj_records P)"
    and previous: "\<And>f. map_of (pj_folded P) callId = Some f \<Longrightarrow> clp_id (fc_primitives f) = callId"
  shows "index_ok (refold L callId P)"
proof -
  let ?prev = "map_of (pj_folded P) callId"
  let ?next = "call_fold L (records_of (pj_records P) callId) (map_of (pj_timedOut P) callId)"
  define ixs where "ixs = (case ?prev of None \<Rightarrow> pj_index P
                            | Some f \<Rightarrow> applyIndexes (fc_primitives f) removeFromIndex (pj_index P))"
  have old: "c \<in> index_entries (pj_index P i) k \<longleftrightarrow> indexes c (map_of (pj_folded P) c) i k" for c i k
    using ix by (simp add: index_ok_def)
  have removed: "c \<in> index_entries (ixs i) k \<longleftrightarrow> c \<noteq> callId \<and> indexes c (map_of (pj_folded P) c) i k" for c i k
  proof (cases ?prev)
    case None
    then show ?thesis using old [of c i k] by (auto simp: ixs_def indexes_def)
  next
    case (Some f)
    then show ?thesis using old [of c i k] previous [OF Some]
      by (auto simp: ixs_def applyIndexes_def entries_fold_remove indexes_def)
  qed
  show ?thesis
  proof (cases "?prev = ?next")
    case True
    then show ?thesis using ix by (simp add: refold_def Let_def)
  next
    case False
    have new: "index_entries (pj_index (refold L callId P) i) k =
        index_entries (ixs i) k \<union> (if indexes callId ?next i k then {callId} else {})" for i k
    proof (cases ?next)
      case None
      then show ?thesis using False by (simp add: refold_def Let_def ixs_def indexes_def)
    next
      case (Some f)
      then have "clp_id (fc_primitives f) = callId" using ids by (simp add: ids_ok_def)
      then show ?thesis using False Some
        by (simp add: refold_def Let_def ixs_def [symmetric] applyIndexes_def entries_fold_add indexes_def)
    qed
    show ?thesis unfolding index_ok_def refold_folded by (auto simp: new removed)
  qed
qed

lemma refold_folded_ok:
  assumes "\<And>c. c \<noteq> callId \<Longrightarrow> map_of (pj_folded P) c = call_fold L (records_of (pj_records P) c) (map_of (pj_timedOut P) c)"
  shows "folded_ok L (refold L callId P)"
  using assms by (simp add: folded_ok_def refold_folded)

section \<open>The id of a folded call\<close>

lemma call_join_id: "call_join i t c = Inr c' \<Longrightarrow> cl_id c' = cl_id c \<and> cl_scope c' = cl_scope c"
  by (auto simp: call_join_def Let_def)

lemma call_leave_id: "call_leave i t c = Inr c' \<Longrightarrow> cl_id c' = cl_id c \<and> cl_scope c' = cl_scope c"
  by (auto simp: call_leave_def endIfNoReceiversRemain_def Let_def split: option.splits if_splits)

lemma applyEvent_id [simp]: "cl_id (applyEvent L r c) = cl_id c \<and> cl_scope (applyEvent L r c) = cl_scope c"
  by (auto simp: applyEvent_def call_endFromRecord_def Let_def split: sum.splits dest!: call_join_id call_leave_id)

lemma apply_records_id: "cl_id (apply_records L rs c) = cl_id c"
proof -
  have "cl_id (fold (applyEvent L) es d) = cl_id d" for es d
    by (induction es arbitrary: d) simp_all
  then show ?thesis by (simp add: apply_records_def)
qed

lemma miss_one_id [simp]: "cl_id (fold (miss_one t) ns c) = cl_id c"
  by (induction ns arbitrary: c) (simp_all add: miss_one_def Let_def)

lemma markTimedOut_id: "markTimedOut t c = Inr r \<Longrightarrow> cl_id (fst r) = cl_id c"
  by (auto simp: markTimedOut_def Let_def split: if_splits)

lemma call_fold_id:
  assumes "call_fold L rs t = Some f"
  obtains start c where "cr_start rs = Some start" "begin_of L start = Inr c" "clp_id (fc_primitives f) = cl_id c"
  using assms
  by (auto simp: call_fold_def Let_def call_toPrimitives_def apply_records_id
      split: option.splits sum.splits if_splits dest!: markTimedOut_id)

definition starts_bound :: "lib \<Rightarrow> (string, call_records) jsmap \<Rightarrow> bool" where
  "starts_bound L m \<longleftrightarrow>
     (\<forall>callId r c. held m (callId, StartSlot) = Some r \<longrightarrow> begin_of L r = Inr c \<longrightarrow> cl_id c = callId)"

lemma starts_bound_ids: "starts_bound L m \<Longrightarrow> ids_ok L m"
  unfolding ids_ok_def starts_bound_def held_def by (auto elim!: call_fold_id)

text \<open>A record the gate accepts, whose proof has a digest.\<close>

definition call_accepted :: "lib \<Rightarrow> public_record \<Rightarrow> bool" where
  "call_accepted L r \<longleftrightarrow>
     carries_proof L r \<and> (\<exists>A w. verdictOf L A (call_policies L w) ''calls'' r = VerdictAccepted)"

lemma call_accepted_admitted: "call_accepted L r \<Longrightarrow> call_admitted L r"
  unfolding call_accepted_def call_admitted_def by (blast elim: accepted_call_record)

lemma call_record_isRecord: "call_record_of r ty callId i \<Longrightarrow> isRecord r"
  by (auto simp: call_record_of_def isRecord_def)

lemma begin_of_start:
  assumes "start_expectationOf L w (payloadOf r) = Inr e" and "begin_of L r = Inr c"
  shows "cl_id c = callIdOf r"
proof -
  from assms(1) obtain raw creator tx nonce callId where
    "map_of r ''creatorIdentityId'' = Some (JString raw)" "lib_identity L raw = Some creator"
    "map_of r ''nonce'' = Some (JString tx)" "new_CallNonce L tx = Inr nonce"
    "call_fromStart L creator nonce = Inr callId" "map_of r ''callId'' = Some (JString callId)"
    by (auto simp: start_expectationOf_def)
  with assms(2) show ?thesis
    by (auto simp: begin_of_def call_begin_def Let_def call_text_def call_value_def callIdOf_def text_or_empty_def)
qed

lemma accepted_start_bound:
  assumes "call_accepted L r" and "slot_of r = StartSlot" and "begin_of L r = Inr c"
  shows "cl_id c = callIdOf r"
proof -
  from assms(1) obtain A w where v: "verdictOf L A (call_policies L w) ''calls'' r = VerdictAccepted"
    by (auto simp: call_accepted_def)
  from verdictOf_accepted [OF governs_calls v] obtain pol p
    where pol: "policyFor (call_policies L w) ''calls'' (map_of r ''scopeType'') = Some pol" "intrinsicProof L pol r = Some p"
    by blast
  have "map_of r ''scopeType'' = Some (JString ''call_start'')" using assms(2) by (simp add: slot_of_def split: if_splits)
  with pol(1) have "policyFor (call_policies L w) ''calls'' (Some (JString ''call_start'')) = Some pol" by simp
  then have "pol = start_policy L w" by (cases rule: call_policy_cases) simp_all
  with intrinsicProof_Some [OF pol(2)] obtain e where "start_expectationOf L w (payloadOf r) = Inr e"
    by (auto simp: start_policy_def)
  then show ?thesis using begin_of_start assms(3) by blast
qed

lemma keep_either: "keep L c r = Inr k \<Longrightarrow> k = r \<or> c = Some k"
  by (auto simp: keep_def split: option.splits if_splits)

lemma store_starts_bound:
  assumes "store L (callIdOf r) r m = Inr m'" and "starts_bound L m" and "call_accepted L r"
  shows "starts_bound L m'"
proof -
  from store_held [OF assms(1)] obtain k where k: "keep L (held m (place_of r)) r = Inr k"
    "\<forall>p. held m' p = (if p = place_of r then Some k else held m p)" by blast
  have "cl_id c = callId" if h: "held m' (callId, StartSlot) = Some s" and b: "begin_of L s = Inr c" for callId s c
  proof (cases "(callId, StartSlot) = place_of r \<and> s = r")
    case True
    then show ?thesis using accepted_start_bound [OF assms(3)] b by (simp add: place_of_def)
  next
    case False
    then have "held m (callId, StartSlot) = Some s" using h k keep_either [OF k(1)] by (auto split: if_splits)
    then show ?thesis using assms(2) b by (simp add: starts_bound_def)
  qed
  then show ?thesis by (simp add: starts_bound_def)
qed

section \<open>What a node does\<close>

datatype node_event = Arrives public_record | TimesOut string int

fun node_step :: "lib \<Rightarrow> node_event \<Rightarrow> projection \<Rightarrow> mutation_error + projection" where
  "node_step L (Arrives r) P = project L r P"
| "node_step L (TimesOut callId t) P = Inr (projection_markTimedOut L callId t P)"

fun event_accepted :: "lib \<Rightarrow> node_event \<Rightarrow> bool" where
  "event_accepted L (Arrives r) = call_accepted L r"
| "event_accepted L (TimesOut callId t) = True"

definition node_moves :: "lib \<Rightarrow> projection \<Rightarrow> projection \<Rightarrow> bool" where
  "node_moves L P P' \<longleftrightarrow> (\<exists>ev. event_accepted L ev \<and> node_step L ev P = Inr P')"

definition projection_good :: "lib \<Rightarrow> projection \<Rightarrow> bool" where
  "projection_good L P \<longleftrightarrow> index_ok P \<and> folded_ok L P \<and> starts_bound L (pj_records P)"

lemma refold_good:
  assumes "index_ok P" and "starts_bound L (pj_records P)"
    and "\<And>f. map_of (pj_folded P) callId = Some f \<Longrightarrow> clp_id (fc_primitives f) = callId"
    and "\<And>c. c \<noteq> callId \<Longrightarrow> map_of (pj_folded P) c = call_fold L (records_of (pj_records P) c) (map_of (pj_timedOut P) c)"
  shows "projection_good L (refold L callId P)"
  using refold_index_ok [OF assms(1) starts_bound_ids [OF assms(2)] assms(3)] refold_folded_ok [OF assms(4)] assms(2)
  by (simp add: projection_good_def)

lemma node_step_good:
  assumes good: "projection_good L P" and ev: "event_accepted L ev" and st: "node_step L ev P = Inr P'"
  shows "projection_good L P'"
proof -
  have ix: "index_ok P" and f: "folded_ok L P" and b: "starts_bound L (pj_records P)"
    using good by (simp_all add: projection_good_def)
  have ids: "map_of (pj_folded P) c = Some g \<Longrightarrow> clp_id (fc_primitives g) = c" for c g
    using f starts_bound_ids [OF b] by (metis folded_ok_def ids_ok_def)
  show ?thesis
  proof (cases ev)
    case (Arrives r)
    show ?thesis
    proof (cases "isRecord r")
      case True
      with st Arrives obtain m where m: "store L (callIdOf r) r (pj_records P) = Inr m"
        and P': "P' = refold L (callIdOf r) (P\<lparr>pj_records := m\<rparr>)" by (auto simp: project_def)
      have "records_of m c = records_of (pj_records P) c" if "c \<noteq> callIdOf r" for c
        using m that by (auto simp: store_def records_of_def update_conv')
      then show ?thesis unfolding P'
        using ix f store_starts_bound [OF m b] ev Arrives ids
        by (intro refold_good) (simp_all add: index_ok_def folded_ok_def)
    qed (use st Arrives good in \<open>simp add: project_def\<close>)
  next
    case (TimesOut callId t)
    show ?thesis
    proof (cases "map_of (pj_records P) callId = None")
      case False
      then have P': "P' = refold L callId (P\<lparr>pj_timedOut := AList.update callId t (pj_timedOut P)\<rparr>)"
        using st TimesOut by (auto simp: projection_markTimedOut_def)
      show ?thesis unfolding P' using ix f b ids
        by (intro refold_good) (simp_all add: index_ok_def folded_ok_def update_conv')
    qed (use st TimesOut good in \<open>simp add: projection_markTimedOut_def\<close>)
  qed
qed

lemma new_projection_good: "projection_good L new_projection"
  by (simp add: projection_good_def new_projection_def index_ok_def index_entries_def indexes_def folded_ok_def
      starts_bound_def records_of_def call_fold_def no_records_def)

interpretation projection_machine: machine "\<lambda>P. P = new_projection" "node_moves L" "projection_good L" for L
  by unfold_locales (auto simp: node_moves_def new_projection_good intro: node_step_good)

section \<open>The lookups answer from the folded calls\<close>

lemma set_map_filter: "set (List.map_filter g xs) = {y. \<exists>x \<in> set xs. g x = Some y}"
  by (induction xs) (auto simp: List.map_filter_simps split: option.splits)

lemma set_callsIn: "set (callsIn P i k) = index_entries (pj_index P i) k"
  by (simp add: callsIn_def index_entries_def)

text \<open>The live calls that have a key in an index.\<close>

definition live_with :: "int \<Rightarrow> int \<Rightarrow> projection \<Rightarrow> index \<Rightarrow> string \<Rightarrow> folded_call set" where
  "live_with maxDuration now P i k =
     {f. \<exists>callId. map_of (pj_folded P) callId = Some f \<and> isLive maxDuration now f \<and> k \<noteq> [] \<and>
           (i, Some k) \<in> set (index_keys (fc_primitives f))}"

lemma set_liveCalls:
  assumes "index_ok P"
  shows "set (liveCalls md now P (callsIn P i k)) = live_with md now P i k"
  using assms unfolding liveCalls_def live_with_def index_ok_def
  by (auto simp: set_map_filter set_callsIn indexes_def split: option.splits)

lemma resolve_cases:
  assumes "resolve md now P callId = Some p"
  obtains f where "map_of (pj_folded P) callId = Some f" "index_keys p = index_keys (fc_primitives f)"
    "communityChannelKey p = communityChannelKey (fc_primitives f)" "clp_scope p = clp_scope (fc_primitives f)"
    "clp_status p = ''active'' \<Longrightarrow> isLive md now f \<and> supersession md now P f = None \<and> p = fc_primitives f"
  using assms
  by (auto simp: resolve_def Let_def isLive_def withinDuration_def index_keys_def communityChannelKey_def creatorScopeKey_def
      split: option.splits if_splits)

lemma resolve_Some: "(\<exists>p. resolve md now P callId = Some p) \<longleftrightarrow> (\<exists>f. map_of (pj_folded P) callId = Some f)"
  by (auto simp: resolve_def Let_def split: option.splits)

lemma resolve_active:
  assumes "map_of (pj_folded P) callId = Some f" and "isLive md now f" and "supersession md now P f = None"
  shows "resolve md now P callId = Some (fc_primitives f) \<and> clp_status (fc_primitives f) = ''active''"
  using assms by (auto simp: resolve_def Let_def isLive_def withinDuration_def split: if_splits)

lemma resolved_by_index:
  assumes ix: "index_ok P" and k: "k \<noteq> []"
  shows "set (resolveAll md now P (callsIn P i k)) =
           {p. \<exists>callId. resolve md now P callId = Some p \<and> (i, Some k) \<in> set (index_keys p)}"
proof -
  have "callId \<in> set (callsIn P i k) \<longleftrightarrow> (i, Some k) \<in> set (index_keys p)"
    if r: "resolve md now P callId = Some p" for callId p
  proof -
    obtain f where f: "map_of (pj_folded P) callId = Some f" "index_keys p = index_keys (fc_primitives f)"
      using resolve_cases [OF r] by metis
    have "callId \<in> index_entries (pj_index P i) k \<longleftrightarrow> indexes callId (map_of (pj_folded P) callId) i k"
      using ix by (simp add: index_ok_def)
    then show ?thesis using f k by (simp add: set_callsIn indexes_def)
  qed
  then show ?thesis by (auto simp: resolveAll_def set_map_filter)
qed

section \<open>One live call in a community channel\<close>

lemma foldl_better_start:
  "foldl better_start (Some w) fs \<noteq> None \<and>
   (\<forall>v. foldl better_start (Some w) fs = Some v \<longrightarrow>
      v \<in> insert w (set fs) \<and> fc_digest v \<le> fc_digest w \<and> (\<forall>f \<in> set fs. fc_digest v \<le> fc_digest f))"
proof (induction fs arbitrary: w)
  case (Cons f fs)
  show ?case
  proof (cases "fc_digest f < fc_digest w")
    case True
    then show ?thesis using Cons.IH [of f] by (auto simp: better_start_def)
  next
    case False
    then show ?thesis using Cons.IH [of w] by (fastforce simp: better_start_def)
  qed
qed simp

lemma winner_least:
  assumes "foldl better_start None fs = Some w"
  shows "w \<in> set fs" and "f \<in> set fs \<Longrightarrow> fc_digest w \<le> fc_digest f"
  using assms foldl_better_start [of "hd fs" "tl fs"]
  by (cases fs; auto simp: better_start_def)+

lemma winner_exists: "fs \<noteq> [] \<Longrightarrow> \<exists>w. foldl better_start None fs = Some w"
  using foldl_better_start [of "hd fs" "tl fs"] by (cases fs) (auto simp: better_start_def)

lemma channel_key: "communityChannelKey p = Some k \<Longrightarrow> k \<noteq> []"
  by (auto simp: communityChannelKey_def split: option.splits if_splits)

lemma keys_channel [simp]: "(ByCommunityChannel, Some k) \<in> set (index_keys p) \<longleftrightarrow> communityChannelKey p = Some k"
  by (auto simp: index_keys_def)

lemma keys_creator [simp]: "(ByCreatorScope, Some k) \<in> set (index_keys p) \<longleftrightarrow> k = creatorScopeKey p"
  by (auto simp: index_keys_def)

lemma active_is_winner:
  assumes ix: "index_ok P" and r: "resolve md now P a = Some p" and act: "clp_status p = ''active''"
    and key: "communityChannelKey p = Some k"
  obtains f where "map_of (pj_folded P) a = Some f" "channelWinner md now P k = Some f"
  using r
proof (cases rule: resolve_cases)
  case (1 f)
  from 1(5) [OF act] have f: "isLive md now f" "supersession md now P f = None" by auto
  have k: "communityChannelKey (fc_primitives f) = Some k" "k \<noteq> []" using key 1(3) channel_key by auto
  have latest: "isLatestOfCreator md now P f" and w: "channelWinner md now P k = None \<or> channelWinner md now P k = Some f"
    using f(2) k by (auto simp: supersession_def Let_def split: if_splits)
  have "f \<in> set (liveCalls md now P (callsIn P ByCommunityChannel k))"
    using 1(1) f(1) k by (auto simp: set_liveCalls [OF ix] live_with_def)
  with latest have "filter (isLatestOfCreator md now P) (liveCalls md now P (callsIn P ByCommunityChannel k)) \<noteq> []"
    by (auto simp: filter_empty_conv)
  then have "channelWinner md now P k \<noteq> None" using winner_exists by (auto simp: channelWinner_def)
  with w that 1(1) show ?thesis by auto
qed

lemma at_most_one_active:
  assumes "projection_good L P"
    and "resolve md now P a = Some p" and "clp_status p = ''active''" and "communityChannelKey p = Some k"
    and "resolve md now P b = Some q" and "clp_status q = ''active''" and "communityChannelKey q = Some k"
  shows "a = b"
proof -
  have ix: "index_ok P" and g: "folded_ok L P" "starts_bound L (pj_records P)"
    using assms(1) by (simp_all add: projection_good_def)
  from active_is_winner [OF ix assms(2-4)] obtain f where f: "map_of (pj_folded P) a = Some f" "channelWinner md now P k = Some f" .
  from active_is_winner [OF ix assms(5-7)] obtain f' where f': "map_of (pj_folded P) b = Some f'" "channelWinner md now P k = Some f'" .
  have "clp_id (fc_primitives f) = a" "clp_id (fc_primitives f') = b"
    using f(1) f'(1) g starts_bound_ids by (metis folded_ok_def ids_ok_def)+
  then show ?thesis using f(2) f'(2) by simp
qed

definition start_order :: "folded_call \<Rightarrow> int \<times> string" where
  "start_order f = (clp_createdAt (fc_primitives f), clp_id (fc_primitives f))"

lemma startedAfter_order: "startedAfter f g \<longleftrightarrow> start_order g < start_order f"
  by (auto simp: startedAfter_def start_order_def)

lemma finite_live: "finite (live_with md now P i k)"
proof (rule finite_subset)
  show "live_with md now P i k \<subseteq> snd ` set (pj_folded P)"
    by (force simp: live_with_def dest: map_of_SomeD)
qed simp

lemma live_channel_has_winner:
  assumes ix: "index_ok P" and live: "map_of (pj_folded P) a = Some f" "isLive md now f"
    and key: "communityChannelKey (fc_primitives f) = Some k"
    and scopes: "\<And>b c g h. map_of (pj_folded P) b = Some g \<Longrightarrow> map_of (pj_folded P) c = Some h \<Longrightarrow>
        creatorScopeKey (fc_primitives g) = creatorScopeKey (fc_primitives h) \<Longrightarrow>
        communityChannelKey (fc_primitives g) = communityChannelKey (fc_primitives h)"
  shows "\<exists>b p. resolve md now P b = Some p \<and> clp_status p = ''active'' \<and> communityChannelKey p = Some k"
proof -
  let ?S = "live_with md now P ByCommunityChannel k"
  have k: "k \<noteq> []" using channel_key key by blast
  then have "f \<in> ?S" using live key by (auto simp: live_with_def)
  then have S: "finite (start_order ` ?S)" "start_order ` ?S \<noteq> {}" using finite_live by auto
  obtain g where g: "g \<in> ?S" "start_order g = Max (start_order ` ?S)" using Max_in [OF S] by auto
  then have most: "start_order h \<le> start_order g" if "h \<in> ?S" for h using Max_ge [OF S(1)] that by simp
  have latest: "isLatestOfCreator md now P g"
  proof -
    have "\<not> startedAfter h g" if h: "h \<in> live_with md now P ByCreatorScope (creatorScopeKey (fc_primitives g))" for h
    proof -
      from h obtain b where "map_of (pj_folded P) b = Some h" "creatorScopeKey (fc_primitives h) = creatorScopeKey (fc_primitives g)"
        unfolding live_with_def by auto
      moreover from g(1) obtain c where "map_of (pj_folded P) c = Some g" "communityChannelKey (fc_primitives g) = Some k"
        unfolding live_with_def by auto
      ultimately have "communityChannelKey (fc_primitives h) = Some k" using scopes by metis
      with h k have "h \<in> ?S" by (auto simp: live_with_def)
      then have "start_order h \<le> start_order g" by (rule most)
      then show ?thesis by (simp only: startedAfter_order not_less)
    qed
    then show ?thesis by (simp add: isLatestOfCreator_def list_ex_iff set_liveCalls [OF ix])
  qed
  let ?fs = "filter (isLatestOfCreator md now P) (liveCalls md now P (callsIn P ByCommunityChannel k))"
  have "g \<in> set ?fs" using g(1) latest by (simp add: set_liveCalls [OF ix])
  then have "?fs \<noteq> []" by force
  then obtain w where w: "channelWinner md now P k = Some w" using winner_exists by (auto simp: channelWinner_def)
  then have wS: "w \<in> ?S" "isLatestOfCreator md now P w"
    using winner_least(1) [of ?fs w] by (auto simp: channelWinner_def set_liveCalls [OF ix])
  from wS(1) obtain b where b: "map_of (pj_folded P) b = Some w" "isLive md now w" "communityChannelKey (fc_primitives w) = Some k"
    by (auto simp: live_with_def)
  have "supersession md now P w = None" using wS(2) w b(3) k by (simp add: supersession_def Let_def)
  from resolve_active [OF b(1,2) this] b(3) show ?thesis by blast
qed

section \<open>Nodes that admitted the same records agree\<close>

fun arrivals :: "node_event list \<Rightarrow> public_record list" where
  "arrivals [] = []"
| "arrivals (Arrives r # evs) = r # arrivals evs"
| "arrivals (TimesOut callId t # evs) = arrivals evs"

fun node_run :: "lib \<Rightarrow> node_event list \<Rightarrow> projection \<Rightarrow> mutation_error + projection" where
  "node_run L [] P = Inr P"
| "node_run L (ev # evs) P = bindR (node_step L ev P) (node_run L evs)"

lemma node_run_moves:
  assumes "node_run L evs P = Inr P'" and "\<forall>ev \<in> set evs. event_accepted L ev"
  shows "rtranclp (node_moves L) P P'"
  using assms
proof (induction evs arbitrary: P)
  case (Cons ev evs)
  then obtain Q where "node_step L ev P = Inr Q" "node_run L evs Q = Inr P'" by auto
  with Cons show ?case by (auto simp: node_moves_def intro: converse_rtranclp_into_rtranclp)
qed simp

lemma accepted_isRecord: "call_accepted L r \<Longrightarrow> isRecord r"
  using call_accepted_admitted by (auto simp: call_admitted_def intro: call_record_isRecord)

lemma timedOut_records [simp]: "pj_records (projection_markTimedOut L callId t P) = pj_records P"
  by (simp add: projection_markTimedOut_def)

lemma node_run_records:
  assumes "node_run L evs P = Inr P'" and "\<forall>ev \<in> set evs. event_accepted L ev"
  shows "store_all L (arrivals evs) (pj_records P) = Inr (pj_records P')"
  using assms
proof (induction evs arbitrary: P)
  case (Cons ev evs)
  then obtain Q where Q: "node_step L ev P = Inr Q" "node_run L evs Q = Inr P'" by auto
  show ?case
  proof (cases ev)
    case (Arrives r)
    then have "isRecord r" using Cons.prems(2) accepted_isRecord by auto
    with Q(1) Arrives have "store L (callIdOf r) r (pj_records P) = Inr (pj_records Q)" by (auto simp: project_def)
    with Cons.IH [OF Q(2)] Cons.prems(2) Arrives show ?thesis by simp
  next
    case (TimesOut callId t)
    with Cons.IH [OF Q(2)] Q(1) Cons.prems(2) show ?thesis by auto
  qed
qed simp

lemma arrivals_accepted: "\<forall>ev \<in> set evs. event_accepted L ev \<Longrightarrow> \<forall>r \<in> set (arrivals evs). call_accepted L r"
  by (induction evs rule: arrivals.induct) auto

lemma winner_same:
  assumes "set fs = set gs" and "inj_on fc_digest (set fs)"
  shows "foldl better_start None fs = foldl better_start None gs"
proof (cases "fs = []")
  case False
  then have "gs \<noteq> []" using assms(1) by auto
  obtain v where v: "foldl better_start None fs = Some v" using winner_exists [OF False] by blast
  obtain w where w: "foldl better_start None gs = Some w" using winner_exists [OF \<open>gs \<noteq> []\<close>] by blast
  have "fc_digest v = fc_digest w"
    using winner_least [OF v] winner_least [OF w] assms(1) by (intro order_antisym) auto
  then have "v = w" using assms winner_least(1) [OF v] winner_least(1) [OF w] by (auto dest: inj_onD)
  then show ?thesis using v w by simp
qed (use assms(1) in simp)

lemma resolve_same:
  assumes ix: "index_ok P" "index_ok P'" and same: "map_of (pj_folded P) = map_of (pj_folded P')"
    and inj: "inj_on fc_digest (ran (map_of (pj_folded P)))"
  shows "resolve md now P callId = resolve md now P' callId"
proof -
  have live: "set (liveCalls md now P (callsIn P i k)) = set (liveCalls md now P' (callsIn P' i k))" for i k
    unfolding set_liveCalls [OF ix(1)] set_liveCalls [OF ix(2)] by (simp add: live_with_def same)
  then have latest: "isLatestOfCreator md now P f = isLatestOfCreator md now P' f" for f
    by (simp add: isLatestOfCreator_def list_ex_iff)
  have "channelWinner md now P k = channelWinner md now P' k" for k
    unfolding channelWinner_def
  proof (rule winner_same)
    show "set (filter (isLatestOfCreator md now P) (liveCalls md now P (callsIn P ByCommunityChannel k))) =
        set (filter (isLatestOfCreator md now P') (liveCalls md now P' (callsIn P' ByCommunityChannel k)))"
      using live latest by auto
    show "inj_on fc_digest (set (filter (isLatestOfCreator md now P) (liveCalls md now P (callsIn P ByCommunityChannel k))))"
      by (rule inj_on_subset [OF inj]) (auto simp: set_liveCalls [OF ix(1)] live_with_def ran_def)
  qed
  then have "supersession md now P = supersession md now P'"
    by (intro ext) (auto simp: supersession_def Let_def latest split: option.splits)
  then show ?thesis by (simp only: resolve_def same)
qed

lemma run_good:
  assumes "node_run L evs new_projection = Inr P" and "\<forall>ev \<in> set evs. event_accepted L ev"
  shows "projection_good L P"
  by (rule projection_machine.reachable_good [OF refl node_run_moves [OF assms]])

lemma run_folded_same:
  assumes acc: "\<forall>ev \<in> set evs. event_accepted L ev" "\<forall>ev \<in> set evs'. event_accepted L ev"
    and run: "node_run L evs new_projection = Inr P" "node_run L evs' new_projection = Inr P'"
    and same: "set (arrivals evs) = set (arrivals evs')" "map_of (pj_timedOut P) = map_of (pj_timedOut P')"
    and inj: "\<And>p. inj_on (mutation_rank L) {r \<in> set (arrivals evs). place_of r = p}"
  shows "map_of (pj_folded P) = map_of (pj_folded P')"
proof
  fix callId
  have m: "store_all L (arrivals evs) [] = Inr (pj_records P)" "store_all L (arrivals evs') [] = Inr (pj_records P')"
    using node_run_records [OF run(1) acc(1)] node_run_records [OF run(2) acc(2)] by (simp_all add: new_projection_def)
  have "\<forall>r \<in> set (arrivals evs). call_admitted L r" using arrivals_accepted [OF acc(1)] call_accepted_admitted by blast
  from stored_fold_same [OF this same(1) inj m]
  have "call_fold L (records_of (pj_records P) callId) t = call_fold L (records_of (pj_records P') callId) t" for t .
  then show "map_of (pj_folded P) callId = map_of (pj_folded P') callId"
    using run_good [OF run(1) acc(1)] run_good [OF run(2) acc(2)] same(2)
    by (simp add: projection_good_def folded_ok_def)
qed

lemma node_run_total:
  assumes "\<forall>ev \<in> set evs. event_accepted L ev" and "\<forall>p r. held (pj_records P) p = Some r \<longrightarrow> carries_proof L r"
  shows "\<exists>P'. node_run L evs P = Inr P'"
  using assms
proof (induction evs arbitrary: P)
  case (Cons ev evs)
  have "\<exists>Q. node_step L ev P = Inr Q \<and> (\<forall>p r. held (pj_records Q) p = Some r \<longrightarrow> carries_proof L r)"
  proof (cases ev)
    case (Arrives r)
    then have r: "call_accepted L r" using Cons.prems(1) by simp
    then have "\<forall>s \<in> set [r]. carries_proof L s" by (simp add: call_accepted_def)
    from store_all_total [OF this Cons.prems(2)] obtain m where
      "store L (callIdOf r) r (pj_records P) = Inr m" "\<forall>p r. held m p = Some r \<longrightarrow> carries_proof L r" by auto
    then show ?thesis using accepted_isRecord [OF r] Arrives by (simp add: project_def)
  qed (use Cons.prems(2) in simp)
  then show ?case using Cons by auto
qed simp

lemma nodes_run: "\<forall>ev \<in> set evs. event_accepted L ev \<Longrightarrow> \<exists>P. node_run L evs new_projection = Inr P"
  by (rule node_run_total) (simp_all add: new_projection_def)

lemma node_run_timedOut: "node_run L (map Arrives rs) P = Inr P' \<Longrightarrow> pj_timedOut P' = pj_timedOut P"
proof (induction rs arbitrary: P)
  case (Cons r rs)
  then obtain Q where Q: "project L r P = Inr Q" "node_run L (map Arrives rs) Q = Inr P'" by auto
  then have "pj_timedOut Q = pj_timedOut P" by (auto simp: project_def split: if_splits)
  then show ?case using Cons.IH [OF Q(2)] by simp
qed simp

end
