(* ===== verification/CallSamples.thy ===== *)
theory CallSamples
  imports CallProjection Samples
begin

text \<open>
  Calls on which their properties are applied: two members of a community each start a call in
  one of its voice channels. The parameter for the packages is that of the sample community, but
  the digest is read off the times of a record of a call, and off the payload of a proof.
\<close>

definition call_digest :: "json \<Rightarrow> string option" where
  "call_digest v =
     (case v of
        JObject kvs \<Rightarrow>
          (case (map_of kvs ''startedAt'', map_of kvs ''at'', map_of kvs ''payloadDigest'') of
             (Some (JInt t), _, _) \<Rightarrow> Some (replicate 43 (char_of (nat t)))
           | (_, Some (JInt t), _) \<Rightarrow> Some (replicate 43 (char_of (nat t)))
           | (_, _, Some (JString d)) \<Rightarrow> Some d
           | _ \<Rightarrow> None)
      | _ \<Rightarrow> None)"

definition call_lib :: lib where
  "call_lib = sample_lib\<lparr>lib_digest := call_digest\<rparr>"

text \<open>A public community of \<open>ana\<close> and \<open>bo\<close> with one voice channel.\<close>

definition sample_flock :: community where
  "sample_flock =
     (let c = community_create ''ana'' ''net''
                \<lparr>profile_name = ''Flock'', profile_description = ''d'', profile_avatar = None, profile_banner = None\<rparr>
                (settings_create True PUBLIC True 1) ''flock'' in
      c\<lparr>c_membership := (c_membership c)\<lparr>members := [''ana'', ''bo'']\<rparr>,
        c_channels := \<lparr>textChannels = [], voiceChannels = [channel_create ''Voice'' ''voice'' 1]\<rparr>\<rparr>)"

definition sample_world :: call_world where
  "sample_world =
     \<lparr>w_now = 1000, w_documents = [], w_unadmitted = [], w_conversation = (\<lambda>_. Inr None),
      w_community = (\<lambda>_. Inr (Some sample_flock)), w_networks = (\<lambda>_. Inr None)\<rparr>"

definition sample_scope :: json where
  "sample_scope = JObject [(''channelId'', JString ''voice''), (''communityId'', JString ''flock''), (''type'', JString ''community_channel'')]"

definition start_payload :: "string \<Rightarrow> string \<Rightarrow> char \<Rightarrow> public_record" where
  "start_payload i nonce ch =
     [(''callId'', JString nonce), (''creatorIdentityId'', JString i), (''id'', JString (start_id nonce)),
      (''networkId'', JString ''net''), (''nonce'', JString nonce), (''startedAt'', JInt (int (of_char ch))),
      (''scopeType'', JString ''call_start''), (''participantIds'', JArray []), (''scope'', sample_scope),
      (''sessionEpoch'', JInt 1)]"

definition start_proof :: "string \<Rightarrow> string \<Rightarrow> char \<Rightarrow> mutation_proof" where
  "start_proof i nonce ch =
     \<lparr>pf_author = \<lparr>ma_authorizationRevision = 1, ma_deviceCredential = ''d'', ma_identityId = i\<rparr>, pf_frontier = None,
      pf_kind = PUT, pf_operationId = replicate 22 ch, pf_payloadDigest = replicate 43 ch, pf_predecessor = None,
      pf_recordId = start_id nonce, pf_sequence = 0, pf_store = ''calls'', pf_signature = ''s''\<rparr>"

definition start_record :: "string \<Rightarrow> string \<Rightarrow> char \<Rightarrow> public_record" where
  "start_record i nonce ch = withProof (start_payload i nonce ch) (start_proof i nonce ch)"

definition anas_call :: string where "anas_call = replicate 16 (CHR ''A'')"
definition bos_call :: string where "bos_call = replicate 16 (CHR ''B'')"

lemma anas_call_accepted:
  "verdictOf call_lib (\<lambda>_. Inr True) (call_policies call_lib sample_world) ''calls''
     (start_record ''ana'' anas_call (CHR ''A'')) = VerdictAccepted"
  by code_simp

lemma bos_call_accepted:
  "verdictOf call_lib (\<lambda>_. Inr True) (call_policies call_lib sample_world) ''calls''
     (start_record ''bo'' bos_call (CHR ''B'')) = VerdictAccepted"
  by code_simp

section \<open>A node that has them\<close>

definition anas_start :: public_record where "anas_start = start_record ''ana'' anas_call (CHR ''A'')"
definition bos_start :: public_record where "bos_start = start_record ''bo'' bos_call (CHR ''B'')"

definition sample_projection :: "public_record list \<Rightarrow> projection" where
  "sample_projection rs = (case node_run call_lib (map Arrives rs) new_projection of Inr P \<Rightarrow> P)"

definition anas_first :: projection where "anas_first = sample_projection [anas_start, bos_start]"
definition bos_first :: projection where "bos_first = sample_projection [bos_start, anas_start, bos_start]"

lemma start_accepted: "call_accepted call_lib anas_start" "call_accepted call_lib bos_start"
proof -
  have "carries_proof call_lib anas_start" "carries_proof call_lib bos_start" by code_simp+
  then show "call_accepted call_lib anas_start" "call_accepted call_lib bos_start"
    using anas_call_accepted bos_call_accepted unfolding call_accepted_def anas_start_def bos_start_def by blast+
qed

lemma sample_run:
  assumes "\<forall>r \<in> set rs. call_accepted call_lib r"
  shows "node_run call_lib (map Arrives rs) new_projection = Inr (sample_projection rs)"
proof -
  have "\<forall>ev \<in> set (map Arrives rs). event_accepted call_lib ev" using assms by simp
  from nodes_run [OF this] obtain P where "node_run call_lib (map Arrives rs) new_projection = Inr P" by blast
  then show ?thesis by (simp only: sample_projection_def sum.case)
qed

lemma anas_first_run: "node_run call_lib (map Arrives [anas_start, bos_start]) new_projection = Inr anas_first"
  unfolding anas_first_def by (rule sample_run) (simp add: start_accepted)

lemma bos_first_run:
  "node_run call_lib (map Arrives [bos_start, anas_start, bos_start]) new_projection = Inr bos_first"
  unfolding bos_first_def by (rule sample_run) (simp add: start_accepted)

lemma anas_first_reached: "rtranclp (node_moves call_lib) new_projection anas_first"
  using node_run_moves [OF anas_first_run] start_accepted by simp

end
