(* ===== verification/CallSignals.thy ===== *)
theory CallSignals
  imports Calls MutationGate Samples
begin

text \<open>
  The delivery of the signals of a call (\<open>CallSignal.ts\<close>, \<open>CallSignalDelivery.ts\<close>,
  \<open>CallSignalDeliverySchedule.ts\<close>, \<open>CallSignalDeliveryRoute.ts\<close>,
  \<open>CallSignalDeliveryAttempt.ts\<close>, \<open>InMemoryCallSignalDeliveryRepository.ts\<close>, the use cases that
  register, acknowledge, retry and expire under \<open>src/contexts/calls\<close>, and the rounds of
  \<open>CallSignalDeliveryMaintenanceRuntime.ts\<close>). The sum of a timestamp and a retry delay is a
  timestamp. What a delivery must be for its maintenance to end, and that it does.
\<close>

section \<open>Signals\<close>

definition LIFETIME_MS :: int where "LIFETIME_MS = 20000"
definition MAX_SEALED_ENTRIES :: nat where "MAX_SEALED_ENTRIES = 128"
definition MAX_ENVELOPE_LENGTH :: nat where "MAX_ENVELOPE_LENGTH = 32768"
definition MAX_CREDENTIAL_LENGTH :: nat where "MAX_CREDENTIAL_LENGTH = 128"
definition MAX_SIGNATURE_LENGTH :: nat where "MAX_SIGNATURE_LENGTH = 256"
definition CALL_SIGNAL_MAX_CLOCK_SKEW_MS :: int where "CALL_SIGNAL_MAX_CLOCK_SKEW_MS = 5000"

datatype signal_type = ANSWER | ICE_CANDIDATE | OFFER

fun signal_type_value :: "signal_type \<Rightarrow> string" where
  "signal_type_value ANSWER = ''answer''"
| "signal_type_value ICE_CANDIDATE = ''ice_candidate''"
| "signal_type_value OFFER = ''offer''"

definition new_CallSignalType :: "lib \<Rightarrow> string \<Rightarrow> call_error + signal_type" where
  "new_CallSignalType L s =
     bindR (call_value (lib_text L (Some 32) s)) (\<lambda>s.
      case find (\<lambda>x. signal_type_value x = s) [ANSWER, ICE_CANDIDATE, OFFER] of
        None \<Rightarrow> Inl InvalidCallSignalError | Some x \<Rightarrow> Inr x)"

record sealed_entry =
  se_envelope :: string
  se_recipientDeviceCredential :: string

record signal_attributes =
  sa_callId :: string
  sa_createdAt :: int
  sa_expiresAt :: int
  sa_networkId :: string
  sa_recipientIdentityId :: string
  sa_scopeType :: string
  sa_sealedEntries :: json
  sa_senderDeviceCredential :: string
  sa_senderIdentityId :: string
  sa_signalId :: string
  sa_signalType :: string
  sa_signature :: string

record call_signal =
  sg_callId :: string
  sg_createdAt :: timestamp
  sg_expiresAt :: timestamp
  sg_networkId :: network_id
  sg_recipientIdentityId :: identity_id
  sg_scopeType :: scope_type
  sg_sealedEntries :: "sealed_entry list"
  sg_senderDeviceCredential :: string
  sg_senderIdentityId :: identity_id
  sg_signalId :: string
  sg_signalType :: signal_type
  sg_signature :: string

definition isBoundedString :: "json option \<Rightarrow> nat \<Rightarrow> bool" where
  "isBoundedString v m \<longleftrightarrow> (case v of Some (JString s) \<Rightarrow> 0 < js_length s \<and> js_length s \<le> m | _ \<Rightarrow> False)"

definition sealed_entry_of :: "json \<Rightarrow> sealed_entry option" where
  "sealed_entry_of v =
     (case v of
        JObject kvs \<Rightarrow>
          if length kvs = 2 \<and> isBoundedString (map_of kvs ''envelope'') MAX_ENVELOPE_LENGTH
             \<and> isBoundedString (map_of kvs ''recipientDeviceCredential'') MAX_CREDENTIAL_LENGTH
          then (case (map_of kvs ''envelope'', map_of kvs ''recipientDeviceCredential'') of
                  (Some (JString e), Some (JString c)) \<Rightarrow> Some \<lparr>se_envelope = e, se_recipientDeviceCredential = c\<rparr>
                | _ \<Rightarrow> None)
          else None
      | _ \<Rightarrow> None)"

text \<open>\<open>areSealedEntries\<close>, with the entries it then is known to hold.\<close>

definition sealed_entries_of :: "json \<Rightarrow> sealed_entry list option" where
  "sealed_entries_of v =
     (case v of
        JArray xs \<Rightarrow>
          if xs \<noteq> [] \<and> length xs \<le> MAX_SEALED_ENTRIES \<and> list_all (\<lambda>x. sealed_entry_of x \<noteq> None) xs
          then let es = List.map_filter sealed_entry_of xs in
               if distinct (map se_recipientDeviceCredential es) then Some es else None
          else None
      | _ \<Rightarrow> None)"

definition signal_fromPrimitives :: "lib \<Rightarrow> signal_attributes \<Rightarrow> call_error + call_signal" where
  "signal_fromPrimitives L a =
     (case
        bindR (ensure (safe_integer (sa_createdAt a) \<and> sa_expiresAt a = sa_createdAt a + LIFETIME_MS) InvalidCallSignalError) (\<lambda>_.
        bindR (ensure (isBoundedString (Some (JString (sa_signature a))) MAX_SIGNATURE_LENGTH \<and>
               isBoundedString (Some (JString (sa_senderDeviceCredential a))) MAX_CREDENTIAL_LENGTH) InvalidCallSignalError) (\<lambda>_.
        bindR (call_value (sealed_entries_of (sa_sealedEntries a))) (\<lambda>entries.
        bindR (call_value (lib_uuid L (sa_callId a))) (\<lambda>cid.
        bindR (call_timestamp L (sa_createdAt a)) (\<lambda>createdAt.
        bindR (call_timestamp L (sa_expiresAt a)) (\<lambda>expiresAt.
        bindR (call_value (lib_network L (sa_networkId a))) (\<lambda>network.
        bindR (call_value (lib_identity L (sa_recipientIdentityId a))) (\<lambda>recipient.
        bindR (new_CallScopeType L (sa_scopeType a)) (\<lambda>scope.
        bindR (ensure (scope \<noteq> GROUP_CAPABILITY) InvalidCallSignalError) (\<lambda>_.
        bindR (call_value (lib_identity L (sa_senderIdentityId a))) (\<lambda>sender.
        bindR (call_value (lib_uuid L (sa_signalId a))) (\<lambda>signalId.
        bindR (new_CallSignalType L (sa_signalType a)) (\<lambda>ty.
          Inr \<lparr>sg_callId = cid, sg_createdAt = createdAt, sg_expiresAt = expiresAt, sg_networkId = network,
               sg_recipientIdentityId = recipient, sg_scopeType = scope, sg_sealedEntries = entries,
               sg_senderDeviceCredential = sa_senderDeviceCredential a, sg_senderIdentityId = sender,
               sg_signalId = signalId, sg_signalType = ty, sg_signature = sa_signature a\<rparr>)))))))))))))
      of Inl _ \<Rightarrow> Inl InvalidCallSignalError | Inr s \<Rightarrow> Inr s)"

definition entry_json :: "sealed_entry \<Rightarrow> json" where
  "entry_json e = JObject
     [(''envelope'', JString (se_envelope e)), (''recipientDeviceCredential'', JString (se_recipientDeviceCredential e))]"

definition signal_toPrimitives :: "call_signal \<Rightarrow> signal_attributes" where
  "signal_toPrimitives s =
     \<lparr>sa_callId = sg_callId s, sa_createdAt = sg_createdAt s, sa_expiresAt = sg_expiresAt s,
      sa_networkId = sg_networkId s, sa_recipientIdentityId = sg_recipientIdentityId s,
      sa_scopeType = scope_type_value (sg_scopeType s), sa_sealedEntries = JArray (map entry_json (sg_sealedEntries s)),
      sa_senderDeviceCredential = sg_senderDeviceCredential s, sa_senderIdentityId = sg_senderIdentityId s,
      sa_signalId = sg_signalId s, sa_signalType = signal_type_value (sg_signalType s), sa_signature = sg_signature s\<rparr>"

definition assertFreshAt :: "call_signal \<Rightarrow> timestamp \<Rightarrow> call_error + unit" where
  "assertFreshAt s at =
     (let createdAt = sg_expiresAt s - LIFETIME_MS in
      ensure (sg_expiresAt s > at \<and> createdAt \<le> at + CALL_SIGNAL_MAX_CLOCK_SKEW_MS) InvalidCallSignalError)"

definition assertSentWithinLifetimeAt :: "call_signal \<Rightarrow> timestamp \<Rightarrow> timestamp \<Rightarrow> call_error + unit" where
  "assertSentWithinLifetimeAt s sentAt at =
     (let createdAt = sg_expiresAt s - LIFETIME_MS;
          latest = min (sg_expiresAt s) (at + CALL_SIGNAL_MAX_CLOCK_SKEW_MS) in
      ensure (sentAt \<ge> createdAt - CALL_SIGNAL_MAX_CLOCK_SKEW_MS \<and> sentAt \<le> latest) InvalidCallSignalError)"

section \<open>The schedule of a delivery\<close>

definition RETRY_DELAYS_MS :: "int list" where
  "RETRY_DELAYS_MS = [1000, 2000, 4000, 8000]"

definition new_attempt :: "int \<Rightarrow> call_error + int" where
  "new_attempt n =
     bindR (ensure (n > 0 \<and> n \<le> int (length RETRY_DELAYS_MS) + 1) InvalidCallSignalDeliveryAttemptError) (\<lambda>_. Inr n)"

definition attempt_canRetry :: "int \<Rightarrow> bool" where
  "attempt_canRetry n \<longleftrightarrow> n \<le> int (length RETRY_DELAYS_MS)"

text \<open>\<open>RETRY_DELAYS_MS[n - 1] ?? 0\<close>\<close>

definition getRetryDelayMs :: "int \<Rightarrow> int" where
  "getRetryDelayMs n =
     (if 1 \<le> n \<and> n \<le> int (length RETRY_DELAYS_MS) then RETRY_DELAYS_MS ! nat (n - 1) else 0)"

record schedule =
  sd_attempt :: int
  sd_sentAt :: timestamp
  sd_expiresAt :: timestamp
  sd_nextRetryAt :: timestamp
  sd_acknowledgedAt :: "timestamp option"

definition schedule_first :: "timestamp \<Rightarrow> timestamp \<Rightarrow> schedule" where
  "schedule_first sentAt expiresAt =
     \<lparr>sd_attempt = 1, sd_sentAt = sentAt, sd_expiresAt = expiresAt, sd_nextRetryAt = sentAt + getRetryDelayMs 1,
      sd_acknowledgedAt = None\<rparr>"

definition schedule_hasExpiredAt :: "schedule \<Rightarrow> timestamp \<Rightarrow> bool" where
  "schedule_hasExpiredAt s now \<longleftrightarrow> now \<ge> sd_expiresAt s"

definition schedule_isAcknowledged :: "schedule \<Rightarrow> bool" where
  "schedule_isAcknowledged s \<longleftrightarrow> sd_acknowledgedAt s \<noteq> None"

definition schedule_acknowledge :: "timestamp \<Rightarrow> schedule \<Rightarrow> schedule option" where
  "schedule_acknowledge t s =
     (if schedule_isAcknowledged s \<or> schedule_hasExpiredAt s t then None else Some (s\<lparr>sd_acknowledgedAt := Some t\<rparr>))"

definition schedule_isRetryableAt :: "schedule \<Rightarrow> timestamp \<Rightarrow> bool" where
  "schedule_isRetryableAt s now \<longleftrightarrow>
     \<not> schedule_isAcknowledged s \<and> \<not> schedule_hasExpiredAt s now \<and> attempt_canRetry (sd_attempt s) \<and>
     now \<ge> sd_nextRetryAt s"

definition schedule_getNextMaintenanceAt :: "schedule \<Rightarrow> timestamp option" where
  "schedule_getNextMaintenanceAt s =
     (if schedule_isAcknowledged s then None
      else if \<not> attempt_canRetry (sd_attempt s) then Some (sd_expiresAt s)
      else if sd_nextRetryAt s < sd_expiresAt s then Some (sd_nextRetryAt s) else Some (sd_expiresAt s))"

definition schedule_getExpirationAt :: "schedule \<Rightarrow> timestamp option" where
  "schedule_getExpirationAt s = (if schedule_isAcknowledged s then None else Some (sd_expiresAt s))"

text \<open>\<open>None\<close> when it answers \<open>false\<close>; the attempt after it is one the constructor accepts.\<close>

definition schedule_retry :: "timestamp \<Rightarrow> schedule \<Rightarrow> call_error + schedule option" where
  "schedule_retry now s =
     (if \<not> schedule_isRetryableAt s now then Inr None
      else bindR (new_attempt (sd_attempt s + 1)) (\<lambda>n.
             Inr (Some (s\<lparr>sd_attempt := n, sd_sentAt := now, sd_nextRetryAt := now + getRetryDelayMs n\<rparr>))))"

definition schedule_supersedes :: "schedule \<Rightarrow> schedule \<Rightarrow> bool" where
  "schedule_supersedes s other \<longleftrightarrow>
     (if schedule_isAcknowledged other then schedule_isAcknowledged s
      else if schedule_isAcknowledged s then True
      else sd_attempt s > sd_attempt other \<and> sd_sentAt s \<ge> sd_sentAt other \<and> sd_nextRetryAt s \<ge> sd_nextRetryAt other)"

section \<open>Deliveries\<close>

record delivery_route =
  rt_callId :: string
  rt_ownerNodeId :: string
  rt_networkId :: network_id
  rt_participantIds :: "identity_id list"

datatype delivery_event =
    CallSignalSentEvent delivery_route call_signal int timestamp
  | CallSignalAcknowledgedEvent delivery_route call_signal timestamp

record delivery =
  dl_route :: delivery_route
  dl_signal :: call_signal
  dl_schedule :: schedule
  dl_events :: "delivery_event list"

text \<open>The signal's call, network and expiry are written over those of the route and the schedule.\<close>

record delivery_primitives =
  dp_signal :: signal_attributes
  dp_ownerNodeId :: string
  dp_participantIds :: "string list"
  dp_acknowledgedAt :: "int option"
  dp_attempt :: int
  dp_nextRetryAt :: int
  dp_sentAt :: int

definition recordSent :: "delivery \<Rightarrow> delivery" where
  "recordSent d =
     d\<lparr>dl_events := dl_events d @
        [CallSignalSentEvent (dl_route d) (dl_signal d) (sd_attempt (dl_schedule d)) (sd_sentAt (dl_schedule d))]\<rparr>"

definition recordAcknowledged :: "timestamp \<Rightarrow> delivery \<Rightarrow> delivery" where
  "recordAcknowledged t d =
     d\<lparr>dl_events := dl_events d @ [CallSignalAcknowledgedEvent (dl_route d) (dl_signal d) t]\<rparr>"

definition delivery_send :: "delivery_route \<Rightarrow> call_signal \<Rightarrow> timestamp \<Rightarrow> delivery" where
  "delivery_send route signal sentAt =
     recordSent \<lparr>dl_route = route, dl_signal = signal, dl_schedule = schedule_first sentAt (sg_expiresAt signal),
                 dl_events = []\<rparr>"

definition delivery_fromPrimitives :: "lib \<Rightarrow> delivery_primitives \<Rightarrow> call_error + delivery" where
  "delivery_fromPrimitives L p =
     bindR (call_value (lib_uuid L (sa_callId (dp_signal p)))) (\<lambda>cid.
     bindR (call_value (lib_uuid L (dp_ownerNodeId p))) (\<lambda>owner.
     bindR (call_value (lib_network L (sa_networkId (dp_signal p)))) (\<lambda>network.
     bindR (mapR (\<lambda>i. call_value (lib_identity L i)) (dp_participantIds p)) (\<lambda>participants.
     bindR (signal_fromPrimitives L (dp_signal p)) (\<lambda>signal.
     bindR (new_attempt (dp_attempt p)) (\<lambda>attempt.
     bindR (call_timestamp L (dp_sentAt p)) (\<lambda>sentAt.
     bindR (call_timestamp L (sa_expiresAt (dp_signal p))) (\<lambda>expiresAt.
     bindR (call_timestamp L (dp_nextRetryAt p)) (\<lambda>nextRetryAt.
     bindR (optional_timestamp L (dp_acknowledgedAt p)) (\<lambda>acknowledgedAt.
       Inr \<lparr>dl_route = \<lparr>rt_callId = cid, rt_ownerNodeId = owner, rt_networkId = network, rt_participantIds = participants\<rparr>,
            dl_signal = signal,
            dl_schedule = \<lparr>sd_attempt = attempt, sd_sentAt = sentAt, sd_expiresAt = expiresAt,
              sd_nextRetryAt = nextRetryAt, sd_acknowledgedAt = acknowledgedAt\<rparr>,
            dl_events = []\<rparr>))))))))))"

definition delivery_toPrimitives :: "delivery \<Rightarrow> delivery_primitives" where
  "delivery_toPrimitives d =
     \<lparr>dp_signal = signal_toPrimitives (dl_signal d), dp_ownerNodeId = rt_ownerNodeId (dl_route d),
      dp_participantIds = rt_participantIds (dl_route d), dp_acknowledgedAt = sd_acknowledgedAt (dl_schedule d),
      dp_attempt = sd_attempt (dl_schedule d), dp_nextRetryAt = sd_nextRetryAt (dl_schedule d),
      dp_sentAt = sd_sentAt (dl_schedule d)\<rparr>"

definition assertRecipient :: "delivery \<Rightarrow> identity_id \<Rightarrow> call_error + unit" where
  "assertRecipient d i = ensure (sg_recipientIdentityId (dl_signal d) = i) CallSignalRecipientMismatchError"

text \<open>\<open>None\<close> when it answers \<open>false\<close>.\<close>

definition delivery_acknowledge :: "identity_id \<Rightarrow> timestamp \<Rightarrow> delivery \<Rightarrow> call_error + delivery option" where
  "delivery_acknowledge i t d =
     bindR (assertRecipient d i) (\<lambda>_.
       if schedule_isAcknowledged (dl_schedule d) then Inr (Some (recordAcknowledged t d))
       else case schedule_acknowledge t (dl_schedule d) of
         None \<Rightarrow> Inr None
       | Some s \<Rightarrow> Inr (Some (recordAcknowledged t (d\<lparr>dl_schedule := s\<rparr>))))"

definition delivery_confirmAcknowledgement :: "identity_id \<Rightarrow> timestamp \<Rightarrow> delivery \<Rightarrow> call_error + delivery option" where
  "delivery_confirmAcknowledgement i t d =
     bindR (assertRecipient d i) (\<lambda>_.
       Inr (map_option (\<lambda>s. d\<lparr>dl_schedule := s\<rparr>) (schedule_acknowledge t (dl_schedule d))))"

definition isOwnedBy :: "delivery \<Rightarrow> string \<Rightarrow> bool" where
  "isOwnedBy d node \<longleftrightarrow> rt_ownerNodeId (dl_route d) = node"

definition delivery_getNextMaintenanceAt :: "string \<Rightarrow> delivery \<Rightarrow> timestamp option" where
  "delivery_getNextMaintenanceAt owner d =
     (if isOwnedBy d owner then schedule_getNextMaintenanceAt (dl_schedule d) else schedule_getExpirationAt (dl_schedule d))"

definition delivery_retry :: "timestamp \<Rightarrow> delivery \<Rightarrow> call_error + delivery option" where
  "delivery_retry now d =
     bindR (schedule_retry now (dl_schedule d)) (\<lambda>r.
       Inr (map_option (\<lambda>s. recordSent (d\<lparr>dl_schedule := s\<rparr>)) r))"

text \<open>The primitives of two routes or signals are the same exactly when their values are.\<close>

definition delivery_supersedes :: "delivery \<Rightarrow> delivery \<Rightarrow> bool" where
  "delivery_supersedes d other \<longleftrightarrow>
     dl_route d = dl_route other \<and> signal_toPrimitives (dl_signal d) = signal_toPrimitives (dl_signal other) \<and>
     schedule_supersedes (dl_schedule d) (dl_schedule other)"

text \<open>\<open>Call.assertCanCarrySignal\<close> and \<open>Call.sendSignal\<close>.\<close>

definition assertCanCarrySignal :: "call \<Rightarrow> call_signal \<Rightarrow> call_error + unit" where
  "assertCanCarrySignal c s =
     ensure (sg_callId s = cl_id c \<and> sg_networkId s = cl_networkId c \<and> sg_scopeType s = sc_type (cl_scope c))
       CallSignalMismatchError"

definition sendSignal :: "call \<Rightarrow> call_signal \<Rightarrow> string \<Rightarrow> timestamp \<Rightarrow> call_error + delivery" where
  "sendSignal c s owner sentAt =
     bindR (assertActive c) (\<lambda>_.
     bindR (assertCanCarrySignal c s) (\<lambda>_.
     bindR (ensure (case findParticipant c (sg_senderIdentityId s) of Some p \<Rightarrow> pt_status p = JOINED | None \<Rightarrow> False)
              CallParticipantNotFoundError) (\<lambda>_.
     bindR (ensure (case findParticipant c (sg_recipientIdentityId s) of
                      Some p \<Rightarrow> status_isActiveReceiver (pt_status p) | None \<Rightarrow> False)
              CallParticipantNotFoundError) (\<lambda>_.
       Inr (delivery_send \<lparr>rt_callId = cl_id c, rt_ownerNodeId = owner, rt_networkId = cl_networkId c,
              rt_participantIds = map pt_identityId (cl_participants c)\<rparr> s sentAt)))))"

section \<open>The repository of a node\<close>

type_synonym deliveries = "(string, delivery_primitives) jsmap"

definition findCurrent :: "lib \<Rightarrow> string \<Rightarrow> deliveries \<Rightarrow> call_error + delivery option" where
  "findCurrent L signalId m =
     (case map_of m signalId of None \<Rightarrow> Inr None | Some p \<Rightarrow> bindR (delivery_fromPrimitives L p) (\<lambda>d. Inr (Some d)))"

definition hydrated :: "lib \<Rightarrow> deliveries \<Rightarrow> call_error + delivery list" where
  "hydrated L m = mapR (delivery_fromPrimitives L) (map snd m)"

definition findRetryableOwnedBy :: "lib \<Rightarrow> string \<Rightarrow> timestamp \<Rightarrow> deliveries \<Rightarrow> call_error + delivery list" where
  "findRetryableOwnedBy L owner now m =
     bindR (hydrated L m) (\<lambda>ds.
       Inr (filter (\<lambda>d. isOwnedBy d owner \<and> schedule_isRetryableAt (dl_schedule d) now) ds))"

fun purgeExpired :: "lib \<Rightarrow> timestamp \<Rightarrow> deliveries \<Rightarrow> call_error + deliveries" where
  "purgeExpired L now [] = Inr []"
| "purgeExpired L now (kp # m) =
     bindR (delivery_fromPrimitives L (snd kp)) (\<lambda>d.
     bindR (purgeExpired L now m) (\<lambda>m'.
       Inr (if schedule_hasExpiredAt (dl_schedule d) now then m' else kp # m')))"

definition earlier :: "timestamp \<Rightarrow> timestamp option \<Rightarrow> timestamp option" where
  "earlier t earliest = (case earliest of None \<Rightarrow> Some t | Some e \<Rightarrow> if t < e then Some t else Some e)"

definition findNextMaintenanceAt :: "lib \<Rightarrow> string \<Rightarrow> deliveries \<Rightarrow> call_error + timestamp option" where
  "findNextMaintenanceAt L owner m =
     bindR (hydrated L m) (\<lambda>ds. Inr (fold earlier (List.map_filter (delivery_getNextMaintenanceAt owner) ds) None))"

definition delivery_save :: "lib \<Rightarrow> delivery \<Rightarrow> deliveries \<Rightarrow> call_error + deliveries" where
  "delivery_save L d m =
     (let signalId = sg_signalId (dl_signal d) in
      bindR (findCurrent L signalId m) (\<lambda>current.
        Inr (case current of
               None \<Rightarrow> AList.update signalId (delivery_toPrimitives d) m
             | Some c \<Rightarrow> if \<not> delivery_supersedes d c then m
                         else AList.update signalId (delivery_toPrimitives d) m)))"

section \<open>The use cases\<close>

definition register_delivery :: "lib \<Rightarrow> string \<Rightarrow> delivery \<Rightarrow> deliveries \<Rightarrow> call_error + deliveries" where
  "register_delivery L node d m = (if isOwnedBy d node then Inr m else delivery_save L d m)"

definition save_if :: "lib \<Rightarrow> (delivery \<Rightarrow> call_error + delivery option) \<Rightarrow> string \<Rightarrow> deliveries \<Rightarrow> call_error + deliveries" where
  "save_if L act signalId m =
     bindR (findCurrent L signalId m) (\<lambda>current.
       case current of
         None \<Rightarrow> Inr m
       | Some d \<Rightarrow> bindR (act d) (\<lambda>r. case r of None \<Rightarrow> Inr m | Some d' \<Rightarrow> delivery_save L d' m))"

definition acknowledge_signal :: "lib \<Rightarrow> string \<Rightarrow> identity_id \<Rightarrow> timestamp \<Rightarrow> deliveries \<Rightarrow> call_error + deliveries" where
  "acknowledge_signal L signalId i now m = save_if L (delivery_acknowledge i now) signalId m"

definition register_acknowledgement :: "lib \<Rightarrow> string \<Rightarrow> identity_id \<Rightarrow> timestamp \<Rightarrow> deliveries \<Rightarrow> call_error + deliveries" where
  "register_acknowledgement L signalId i t m = save_if L (delivery_confirmAcknowledgement i t) signalId m"

fun retry_each :: "lib \<Rightarrow> timestamp \<Rightarrow> delivery list \<Rightarrow> deliveries \<Rightarrow> call_error + deliveries" where
  "retry_each L now [] m = Inr m"
| "retry_each L now (d # ds) m =
     bindR (delivery_retry now d) (\<lambda>r.
       case r of
         None \<Rightarrow> retry_each L now ds m
       | Some d' \<Rightarrow> bindR (delivery_save L d' m) (retry_each L now ds))"

definition retry_deliveries :: "lib \<Rightarrow> string \<Rightarrow> timestamp \<Rightarrow> deliveries \<Rightarrow> call_error + deliveries" where
  "retry_deliveries L owner now m =
     bindR (findRetryableOwnedBy L owner now m) (\<lambda>ds. retry_each L now ds m)"

text \<open>One round of the runtime: retry, then expire.\<close>

definition maintain :: "lib \<Rightarrow> string \<Rightarrow> timestamp \<Rightarrow> deliveries \<Rightarrow> call_error + deliveries" where
  "maintain L owner now m = bindR (retry_deliveries L owner now m) (purgeExpired L now)"

section \<open>What the repository holds\<close>

definition schedule_ok :: "schedule \<Rightarrow> bool" where
  "schedule_ok s \<longleftrightarrow>
     1 \<le> sd_attempt s \<and> sd_attempt s \<le> 5 \<and> sd_nextRetryAt s = sd_sentAt s + getRetryDelayMs (sd_attempt s)"

text \<open>What is stored under an id is what a delivery of that id is written to, and is read back as it.\<close>

definition stored_as :: "lib \<Rightarrow> string \<times> delivery_primitives \<Rightarrow> delivery \<Rightarrow> bool" where
  "stored_as L kp d \<longleftrightarrow>
     delivery_fromPrimitives L (snd kp) = Inr d \<and> delivery_toPrimitives d = snd kp \<and>
     fst kp = sg_signalId (dl_signal d) \<and> schedule_ok (dl_schedule d)"

definition deliveries_ok :: "lib \<Rightarrow> deliveries \<Rightarrow> bool" where
  "deliveries_ok L m \<longleftrightarrow> distinct (map fst m) \<and> (\<forall>kp \<in> set m. \<exists>d. stored_as L kp d)"

text \<open>A time, and the times a retry at it may wait for, are timestamps.\<close>

definition clock_ok :: "lib \<Rightarrow> timestamp \<Rightarrow> bool" where
  "clock_ok L now \<longleftrightarrow> lib_timestamp L now \<and> (\<forall>n. lib_timestamp L (now + getRetryDelayMs n))"

lemma delay_bounds: "0 \<le> getRetryDelayMs n"
  by (cases "n = 1"; cases "n = 2"; cases "n = 3"; cases "n = 4") (auto simp: getRetryDelayMs_def RETRY_DELAYS_MS_def)

lemma attempt_canRetry_iff: "attempt_canRetry n \<longleftrightarrow> n \<le> 4"
  by (simp add: attempt_canRetry_def RETRY_DELAYS_MS_def)

lemma new_attempt_Inr: "new_attempt n = Inr k \<longleftrightarrow> k = n \<and> 1 \<le> n \<and> n \<le> 5"
  by (auto simp: new_attempt_def RETRY_DELAYS_MS_def)

definition retried_schedule :: "timestamp \<Rightarrow> schedule \<Rightarrow> schedule" where
  "retried_schedule now s =
     s\<lparr>sd_attempt := sd_attempt s + 1, sd_sentAt := now, sd_nextRetryAt := now + getRetryDelayMs (sd_attempt s + 1)\<rparr>"

lemma schedule_retry_ok:
  assumes "schedule_ok s" and "schedule_isRetryableAt s now"
  shows "schedule_retry now s = Inr (Some (retried_schedule now s))" and "schedule_ok (retried_schedule now s)"
    and "schedule_supersedes (retried_schedule now s) s"
proof -
  have a: "1 \<le> sd_attempt s" "sd_attempt s \<le> 4" "sd_nextRetryAt s \<le> now" "\<not> schedule_isAcknowledged s"
    using assms by (auto simp: schedule_ok_def schedule_isRetryableAt_def attempt_canRetry_iff)
  then have "new_attempt (sd_attempt s + 1) = Inr (sd_attempt s + 1)" by (simp add: new_attempt_Inr)
  then show "schedule_retry now s = Inr (Some (retried_schedule now s))"
    using assms(2) by (simp add: schedule_retry_def retried_schedule_def)
  show "schedule_ok (retried_schedule now s)" using a by (simp add: schedule_ok_def retried_schedule_def)
  have "sd_sentAt s \<le> sd_nextRetryAt s" using assms(1) delay_bounds [of "sd_attempt s"] by (simp add: schedule_ok_def)
  then show "schedule_supersedes (retried_schedule now s) s"
    using a delay_bounds [of "sd_attempt s + 1"]
    by (simp add: schedule_supersedes_def retried_schedule_def schedule_isAcknowledged_def)
qed

definition retried :: "timestamp \<Rightarrow> delivery \<Rightarrow> delivery" where
  "retried now d = d\<lparr>dl_schedule := retried_schedule now (dl_schedule d)\<rparr>"

lemma retried_simps [simp]:
  "dl_route (retried now d) = dl_route d" "dl_signal (retried now d) = dl_signal d"
  "dl_schedule (retried now d) = retried_schedule now (dl_schedule d)" "dl_events (retried now d) = dl_events d"
  by (simp_all add: retried_def)

lemma recordSent_simps [simp]:
  "dl_route (recordSent d) = dl_route d" "dl_signal (recordSent d) = dl_signal d"
  "dl_schedule (recordSent d) = dl_schedule d" "delivery_toPrimitives (recordSent d) = delivery_toPrimitives d"
  by (simp_all add: recordSent_def delivery_toPrimitives_def)

lemma retried_primitives:
  "delivery_toPrimitives (retried now d) = (delivery_toPrimitives d)
     \<lparr>dp_attempt := sd_attempt (dl_schedule d) + 1, dp_sentAt := now,
      dp_nextRetryAt := now + getRetryDelayMs (sd_attempt (dl_schedule d) + 1)\<rparr>"
  by (simp add: delivery_toPrimitives_def retried_schedule_def)

lemma hydrate_change:
  assumes "delivery_fromPrimitives L p = Inr d" and "1 \<le> n" and "n \<le> 5" and "lib_timestamp L t" and "lib_timestamp L u"
  shows "delivery_fromPrimitives L (p\<lparr>dp_attempt := n, dp_sentAt := t, dp_nextRetryAt := u\<rparr>) =
    Inr (d\<lparr>dl_schedule := (dl_schedule d)\<lparr>sd_attempt := n, sd_sentAt := t, sd_nextRetryAt := u\<rparr>\<rparr>)"
proof -
  have "new_attempt n = Inr n" using assms(2,3) by (simp add: new_attempt_Inr)
  then show ?thesis using assms(1,4,5) by (auto simp: delivery_fromPrimitives_def call_timestamp_def split: if_splits)
qed

lemma stored_retried:
  assumes "stored_as L kp d" and "schedule_isRetryableAt (dl_schedule d) now" and "clock_ok L now"
  shows "stored_as L (fst kp, delivery_toPrimitives (retried now d)) (retried now d)"
proof -
  have s: "schedule_ok (dl_schedule d)" "delivery_fromPrimitives L (snd kp) = Inr d" "delivery_toPrimitives d = snd kp"
    using assms(1) by (simp_all add: stored_as_def)
  have a: "1 \<le> sd_attempt (dl_schedule d) + 1" "sd_attempt (dl_schedule d) + 1 \<le> 5"
    using s(1) assms(2) by (auto simp: schedule_ok_def schedule_isRetryableAt_def attempt_canRetry_iff)
  have "delivery_fromPrimitives L (delivery_toPrimitives (retried now d)) = Inr (retried now d)"
    unfolding retried_primitives s(3)
    using hydrate_change [OF s(2) a, where t = now and u = "now + getRetryDelayMs (sd_attempt (dl_schedule d) + 1)"] assms(3)
    by (simp add: retried_def retried_schedule_def clock_ok_def)
  then show ?thesis using assms(1) schedule_retry_ok(2) [OF s(1) assms(2)] by (simp add: stored_as_def)
qed

lemma stored_unique: "stored_as L kp d \<Longrightarrow> stored_as L kp d' \<Longrightarrow> d = d'"
  by (simp add: stored_as_def)

lemma hydrated_ok:
  assumes "\<forall>kp \<in> set m. \<exists>d. stored_as L kp d"
  shows "\<exists>ds. hydrated L m = Inr ds \<and> list_all2 (stored_as L) m ds"
  using assms
proof (induction m)
  case (Cons kp m)
  then obtain d ds where "stored_as L kp d" "hydrated L m = Inr ds" "list_all2 (stored_as L) m ds" by auto
  moreover from this(1) have "delivery_fromPrimitives L (snd kp) = Inr d" by (simp add: stored_as_def)
  ultimately show ?case by (auto simp: hydrated_def)
qed (simp add: hydrated_def)

section \<open>A round of maintenance\<close>

definition due :: "string \<Rightarrow> timestamp \<Rightarrow> delivery \<Rightarrow> bool" where
  "due owner now d \<longleftrightarrow> isOwnedBy d owner \<and> schedule_isRetryableAt (dl_schedule d) now"

lemma retry_each_spec:
  assumes ok: "distinct (map fst m)" and ds: "\<forall>d \<in> set ds. \<exists>p. (sg_signalId (dl_signal d), p) \<in> set m \<and>
      stored_as L (sg_signalId (dl_signal d), p) d \<and> schedule_isRetryableAt (dl_schedule d) now"
    and dist: "distinct (map (\<lambda>d. sg_signalId (dl_signal d)) ds)"
  shows "\<exists>m'. retry_each L now ds m = Inr m' \<and> map fst m' = map fst m \<and>
    (\<forall>k. map_of m' k = (case find (\<lambda>d. sg_signalId (dl_signal d) = k) ds of
       None \<Rightarrow> map_of m k | Some d \<Rightarrow> Some (delivery_toPrimitives (retried now d))))"
  using assms
proof (induction ds arbitrary: m)
  case (Cons d ds)
  let ?id = "sg_signalId (dl_signal d)"
  from Cons.prems(2) obtain p where p: "(?id, p) \<in> set m" "stored_as L (?id, p) d" "schedule_isRetryableAt (dl_schedule d) now"
    by auto
  have s: "schedule_ok (dl_schedule d)" "delivery_fromPrimitives L p = Inr d" using p(2) by (simp_all add: stored_as_def)
  have lookup: "map_of m ?id = Some p" using p(1) Cons.prems(1) by simp
  have r: "delivery_retry now d = Inr (Some (recordSent (retried now d)))"
    using schedule_retry_ok(1) [OF s(1) p(3)] by (simp add: delivery_retry_def retried_def)
  let ?m = "AList.update ?id (delivery_toPrimitives (retried now d)) m"
  have "delivery_supersedes (recordSent (retried now d)) d"
    using schedule_retry_ok(3) [OF s(1) p(3)] by (simp add: delivery_supersedes_def)
  then have save: "delivery_save L (recordSent (retried now d)) m = Inr ?m"
    by (simp add: delivery_save_def findCurrent_def lookup s(2) Let_def)
  have keys: "map fst ?m = map fst m" using p(1) by (force simp: update_keys)
  have look: "map_of ?m k = (if k = ?id then Some (delivery_toPrimitives (retried now d)) else map_of m k)" for k
    by (simp add: update_conv')
  have dm: "distinct (map fst ?m)" using keys Cons.prems(1) by simp
  have "\<forall>e \<in> set ds. \<exists>p. (sg_signalId (dl_signal e), p) \<in> set ?m \<and>
      stored_as L (sg_signalId (dl_signal e), p) e \<and> schedule_isRetryableAt (dl_schedule e) now"
  proof
    fix e assume e: "e \<in> set ds"
    then obtain q where q: "(sg_signalId (dl_signal e), q) \<in> set m" "stored_as L (sg_signalId (dl_signal e), q) e"
      "schedule_isRetryableAt (dl_schedule e) now" using Cons.prems(2) by auto
    have "sg_signalId (dl_signal e) \<noteq> ?id" using e Cons.prems(3) by (auto simp: image_iff)
    then have "map_of ?m (sg_signalId (dl_signal e)) = Some q" using look q(1) Cons.prems(1) by simp
    then show "\<exists>p. (sg_signalId (dl_signal e), p) \<in> set ?m \<and>
        stored_as L (sg_signalId (dl_signal e), p) e \<and> schedule_isRetryableAt (dl_schedule e) now"
      using q(2,3) map_of_SomeD by fast
  qed
  from Cons.IH [OF dm this] Cons.prems(3) obtain m' where m': "retry_each L now ds ?m = Inr m'" "map fst m' = map fst ?m"
    "\<forall>k. map_of m' k = (case find (\<lambda>d. sg_signalId (dl_signal d) = k) ds of
       None \<Rightarrow> map_of ?m k | Some d \<Rightarrow> Some (delivery_toPrimitives (retried now d)))" by auto
  have "find (\<lambda>e. sg_signalId (dl_signal e) = ?id) ds = None"
    using Cons.prems(3) by (auto simp: find_None_iff image_iff)
  then have "\<forall>k. map_of m' k = (case find (\<lambda>d. sg_signalId (dl_signal d) = k) (d # ds) of
       None \<Rightarrow> map_of m k | Some d \<Rightarrow> Some (delivery_toPrimitives (retried now d)))"
    using m'(3) look by (auto split: option.splits)
  moreover have "retry_each L now (d # ds) m = Inr m'" by (simp add: r save m'(1))
  moreover have "map fst m' = map fst m" using m'(2) keys by simp
  ultimately show ?case by blast
qed simp

lemma list_of_lookup:
  assumes "distinct (map fst m)"
  shows "m = map (\<lambda>k. (k, the (map_of m k))) (map fst m)"
proof -
  have "map (\<lambda>k. (k, the (map_of m k))) (map fst m) = m"
    unfolding map_map by (rule map_idI) (use assms in auto)
  then show ?thesis by simp
qed

lemma same_lookup:
  assumes "map fst m' = map fst m" and "distinct (map fst m)" and "\<And>k. k \<in> set (map fst m) \<Longrightarrow> map_of m' k = map_of m k"
  shows "m' = m"
proof -
  have "m' = map (\<lambda>k. (k, the (map_of m' k))) (map fst m)" using list_of_lookup [of m'] assms(1,2) by simp
  also have "\<dots> = map (\<lambda>k. (k, the (map_of m k))) (map fst m)" using assms(3) by (intro map_cong) auto
  also have "\<dots> = m" using list_of_lookup [OF assms(2)] by simp
  finally show ?thesis .
qed

text \<open>What the retry of a round makes of a stored delivery, and what the round leaves of it.\<close>

definition after_retry :: "string \<Rightarrow> timestamp \<Rightarrow> delivery \<Rightarrow> delivery" where
  "after_retry owner now d = (if due owner now d then retried now d else d)"

definition stored_after_retry :: "lib \<Rightarrow> string \<Rightarrow> timestamp \<Rightarrow> string \<times> delivery_primitives \<Rightarrow> string \<times> delivery_primitives" where
  "stored_after_retry L owner now kp =
     (fst kp, delivery_toPrimitives (after_retry owner now (projr (delivery_fromPrimitives L (snd kp)))))"

lemma stored_after_retry:
  assumes "stored_as L kp d" and "clock_ok L now"
  shows "stored_as L (stored_after_retry L owner now kp) (after_retry owner now d)"
  using assms stored_retried [OF assms(1) _ assms(2)]
  by (auto simp: stored_after_retry_def after_retry_def due_def stored_as_def)

lemma find_in_map:
  assumes "find q xs = Some x"
  shows "x \<in> set xs \<and> q x"
  using find_Some_iff' [OF assms] .

lemma retry_deliveries_spec:
  assumes ok: "deliveries_ok L m"
  shows "retry_deliveries L owner now m = Inr (map (stored_after_retry L owner now) m)"
proof -
  have d: "distinct (map fst m)" and st: "\<forall>kp \<in> set m. \<exists>d. stored_as L kp d"
    using ok by (simp_all add: deliveries_ok_def)
  obtain ds where ds: "hydrated L m = Inr ds" "list_all2 (stored_as L) m ds" using hydrated_ok [OF st] by blast
  let ?due = "filter (due owner now) ds"
  let ?id = "\<lambda>d. sg_signalId (dl_signal d)"
  have ids: "map ?id ds = map fst m"
    using ds(2) by (induction rule: list_all2_induct) (simp_all add: stored_as_def)
  have mem: "\<exists>kp \<in> set m. stored_as L kp e" if "e \<in> set ds" for e
    using ds(2) that by (induction rule: list_all2_induct) auto
  have mem': "\<exists>e \<in> set ds. stored_as L kp e" if "kp \<in> set m" for kp
    using ds(2) that by (induction rule: list_all2_induct) auto
  have due_ok: "\<forall>e \<in> set ?due. \<exists>p. (?id e, p) \<in> set m \<and> stored_as L (?id e, p) e \<and> schedule_isRetryableAt (dl_schedule e) now"
  proof
    fix e assume e: "e \<in> set ?due"
    then have "e \<in> set ds" by simp
    from mem [OF this] obtain kp where kp: "kp \<in> set m" "stored_as L kp e" by blast
    from kp(2) have "fst kp = ?id e" unfolding stored_as_def by blast
    then have "kp = (?id e, snd kp)" by (metis prod.collapse)
    with kp e show "\<exists>p. (?id e, p) \<in> set m \<and> stored_as L (?id e, p) e \<and> schedule_isRetryableAt (dl_schedule e) now"
      using due_def by (metis (no_types, lifting) mem_Collect_eq set_filter)
  qed
  have dist: "distinct (map ?id ?due)" using ids d by (metis distinct_map_filter)
  obtain m' where m': "retry_each L now ?due m = Inr m'" "map fst m' = map fst m"
    "\<forall>k. map_of m' k = (case find (\<lambda>e. ?id e = k) ?due of None \<Rightarrow> map_of m k
        | Some e \<Rightarrow> Some (delivery_toPrimitives (retried now e)))"
    using retry_each_spec [OF d due_ok dist] by blast
  have "m' = map (stored_after_retry L owner now) m"
  proof (rule same_lookup)
    show "map fst m' = map fst (map (stored_after_retry L owner now) m)"
      using m'(2) by (simp add: stored_after_retry_def o_def)
    show dm: "distinct (map fst (map (stored_after_retry L owner now) m))" using d by (simp add: stored_after_retry_def o_def)
    fix k assume "k \<in> set (map fst (map (stored_after_retry L owner now) m))"
    then obtain p where p: "(k, p) \<in> set m" by (auto simp: stored_after_retry_def)
    then obtain e where e: "e \<in> set ds" "stored_as L (k, p) e" using mem' by blast
    have k: "?id e = k" "delivery_fromPrimitives L p = Inr e" "delivery_toPrimitives e = p" using e(2) by (simp_all add: stored_as_def)
    have "(k, delivery_toPrimitives (after_retry owner now e)) \<in> set (map (stored_after_retry L owner now) m)"
      using p k(2) by (force simp: stored_after_retry_def)
    then have right: "map_of (map (stored_after_retry L owner now) m) k = Some (delivery_toPrimitives (after_retry owner now e))"
      using dm by simp
    show "map_of m' k = map_of (map (stored_after_retry L owner now) m) k"
    proof (cases "find (\<lambda>e. ?id e = k) ?due")
      case None
      then have "\<not> due owner now e" using e(1) k(1) by (auto simp: find_None_iff)
      then show ?thesis using right m'(3) None p d k(3) by (simp add: after_retry_def)
    next
      case (Some e')
      have e': "e' \<in> set ds" "due owner now e'" "?id e' = k" using find_in_map [OF Some] by auto
      have "e' = e"
        using e'(1,3) e(1) k(1) ids d by (metis distinct_map inj_onD)
      then show ?thesis using right m'(3) Some e'(2) by (simp add: after_retry_def)
    qed
  qed
  then show ?thesis using m'(1) ds(1)
    by (simp add: retry_deliveries_def findRetryableOwnedBy_def due_def [abs_def])
qed

lemma purgeExpired_spec:
  assumes "\<forall>kp \<in> set m. \<exists>d. stored_as L kp d"
  shows "purgeExpired L now m =
    Inr (filter (\<lambda>kp. \<not> schedule_hasExpiredAt (dl_schedule (projr (delivery_fromPrimitives L (snd kp)))) now) m)"
  using assms
proof (induction m)
  case (Cons kp m)
  then obtain d where "delivery_fromPrimitives L (snd kp) = Inr d" by (auto simp: stored_as_def)
  with Cons show ?case by simp
qed simp

lemma maintain_spec:
  assumes ok: "deliveries_ok L m" and clock: "clock_ok L now"
  obtains m' where "maintain L owner now m = Inr m'" "deliveries_ok L m'"
    "m' = filter (\<lambda>kp. \<not> schedule_hasExpiredAt (dl_schedule (projr (delivery_fromPrimitives L (snd kp)))) now)
           (map (stored_after_retry L owner now) m)"
proof -
  let ?m = "map (stored_after_retry L owner now) m"
  have st: "\<forall>kp \<in> set ?m. \<exists>d. stored_as L kp d"
  proof
    fix kp assume "kp \<in> set ?m"
    then obtain kq where kq: "kq \<in> set m" "kp = stored_after_retry L owner now kq" by auto
    then obtain d where "stored_as L kq d" using ok by (auto simp: deliveries_ok_def)
    from stored_after_retry [OF this clock] show "\<exists>d. stored_as L kp d" unfolding kq(2) by blast
  qed
  have d: "distinct (map fst ?m)" using ok by (simp add: deliveries_ok_def stored_after_retry_def o_def)
  let ?f = "filter (\<lambda>kp. \<not> schedule_hasExpiredAt (dl_schedule (projr (delivery_fromPrimitives L (snd kp)))) now) ?m"
  have "maintain L owner now m = Inr ?f"
    by (simp add: maintain_def retry_deliveries_spec [OF ok] purgeExpired_spec [OF st])
  moreover have "deliveries_ok L ?f" using st d by (auto simp: deliveries_ok_def distinct_map_filter)
  ultimately show ?thesis using that by blast
qed

section \<open>The runtime settles\<close>

text \<open>
  The rounds of the runtime: each is at the time its timer was set for, or later, when the clock
  reads \<open>now\<close>. A round that answers an error ends this run; in the code the next one follows.
\<close>

fun runtime :: "lib \<Rightarrow> string \<Rightarrow> timestamp list \<Rightarrow> deliveries \<Rightarrow> call_error + deliveries" where
  "runtime L owner [] m = Inr m"
| "runtime L owner (now # nows) m =
     bindR (findNextMaintenanceAt L owner m) (\<lambda>next.
       case next of
         None \<Rightarrow> Inr m
       | Some t \<Rightarrow> bindR (maintain L owner (max t now) m) (runtime L owner nows))"

definition delivery_in :: "lib \<Rightarrow> string \<times> delivery_primitives \<Rightarrow> delivery" where
  "delivery_in L kp = projr (delivery_fromPrimitives L (snd kp))"

definition settled :: "lib \<Rightarrow> string \<times> delivery_primitives \<Rightarrow> bool" where
  "settled L kp \<longleftrightarrow> schedule_isAcknowledged (dl_schedule (delivery_in L kp))"

text \<open>The attempts that are left to a delivery, its expiration counted as one.\<close>

definition attempts_left :: "lib \<Rightarrow> string \<times> delivery_primitives \<Rightarrow> nat" where
  "attempts_left L kp = (if settled L kp then 0 else nat (6 - sd_attempt (dl_schedule (delivery_in L kp))))"

definition work_left :: "lib \<Rightarrow> deliveries \<Rightarrow> nat" where
  "work_left L m = sum_list (map (attempts_left L) m)"

lemma delivery_in_stored: "stored_as L kp d \<Longrightarrow> delivery_in L kp = d"
  by (simp add: stored_as_def delivery_in_def)

lemma earlier_some: "fold earlier ts e = Some t \<Longrightarrow> t \<in> set ts \<or> e = Some t"
  by (induction ts arbitrary: e) (force simp: earlier_def split: option.splits if_splits)+

lemma earlier_none: "fold earlier ts e = None \<longleftrightarrow> ts = [] \<and> e = None"
  by (induction ts arbitrary: e) (auto simp: earlier_def split: option.splits if_splits)

lemma next_maintenance:
  assumes ok: "deliveries_ok L m"
  obtains (quiet) "findNextMaintenanceAt L owner m = Inr None" and "\<forall>kp \<in> set m. settled L kp"
    | (awaits) t kp d where "findNextMaintenanceAt L owner m = Inr (Some t)" and "kp \<in> set m" and "stored_as L kp d"
        and "delivery_getNextMaintenanceAt owner d = Some t"
proof -
  obtain ds where ds: "hydrated L m = Inr ds" "list_all2 (stored_as L) m ds"
    using hydrated_ok ok by (metis deliveries_ok_def)
  have mem: "\<exists>kp \<in> set m. stored_as L kp e" if "e \<in> set ds" for e
    using ds(2) that by (induction rule: list_all2_induct) auto
  have mem': "\<exists>e \<in> set ds. stored_as L kp e" if "kp \<in> set m" for kp
    using ds(2) that by (induction rule: list_all2_induct) auto
  let ?ts = "List.map_filter (delivery_getNextMaintenanceAt owner) ds"
  have look: "findNextMaintenanceAt L owner m = Inr (fold earlier ?ts None)" by (simp add: findNextMaintenanceAt_def ds(1))
  show ?thesis
  proof (cases "fold earlier ?ts None")
    case None
    then have none: "delivery_getNextMaintenanceAt owner e = None" if "e \<in> set ds" for e
      using that by (auto simp: earlier_none map_filter_def filter_empty_conv)
    have "settled L kp" if kp: "kp \<in> set m" for kp
    proof -
      obtain e where e: "e \<in> set ds" "stored_as L kp e" using mem' kp by blast
      show ?thesis using none [OF e(1)] unfolding settled_def delivery_in_stored [OF e(2)]
        by (auto simp: delivery_getNextMaintenanceAt_def schedule_getNextMaintenanceAt_def schedule_getExpirationAt_def
            split: if_splits)
    qed
    then show ?thesis using quiet look None by simp
  next
    case (Some t)
    then obtain e where e: "e \<in> set ds" "delivery_getNextMaintenanceAt owner e = Some t"
      using earlier_some [OF Some] by (auto simp: map_filter_def)
    obtain kp where "kp \<in> set m" "stored_as L kp e" using mem e(1) by blast
    then show ?thesis using awaits look Some e(2) by simp
  qed
qed

text \<open>A round never adds to the work, and takes from it what the timer was set for.\<close>

lemma stored_attempt: "stored_as L kp d \<Longrightarrow> attempts_left L kp = (if schedule_isAcknowledged (dl_schedule d) then 0 else nat (6 - sd_attempt (dl_schedule d)))"
  using delivery_in_stored [of L kp d] by (simp add: attempts_left_def settled_def)

lemma round_keeps_work:
  assumes "stored_as L kp d" and "clock_ok L now"
  shows "attempts_left L (stored_after_retry L owner now kp) \<le> attempts_left L kp"
  unfolding stored_attempt [OF assms(1)] stored_attempt [OF stored_after_retry [OF assms]]
  by (auto simp: after_retry_def due_def schedule_isRetryableAt_def retried_schedule_def schedule_isAcknowledged_def)

lemma round_takes_work:
  assumes st: "stored_as L kp d" and clock: "clock_ok L now" and t: "delivery_getNextMaintenanceAt owner d = Some t"
    and now: "t \<le> now" and left: "\<not> schedule_hasExpiredAt (dl_schedule (after_retry owner now d)) now"
  shows "attempts_left L (stored_after_retry L owner now kp) < attempts_left L kp"
proof -
  have b: "sd_attempt (dl_schedule d) \<le> 5" using st by (simp add: stored_as_def schedule_ok_def)
  have "now < sd_expiresAt (dl_schedule d)"
    using left by (simp add: after_retry_def schedule_hasExpiredAt_def retried_schedule_def split: if_splits)
  then have "due owner now d"
    using t now by (auto simp: due_def delivery_getNextMaintenanceAt_def schedule_getNextMaintenanceAt_def
        schedule_getExpirationAt_def schedule_isRetryableAt_def schedule_hasExpiredAt_def split: if_splits)
  then show ?thesis
    unfolding stored_attempt [OF st] stored_attempt [OF stored_after_retry [OF st clock]]
    using b by (auto simp: after_retry_def due_def schedule_isRetryableAt_def retried_schedule_def schedule_isAcknowledged_def)
qed

lemma work_filter:
  fixes w v :: "'a \<Rightarrow> nat"
  assumes "\<And>x. x \<in> set xs \<Longrightarrow> v x \<le> w x"
  shows "sum_list (map v (filter q xs)) \<le> sum_list (map w xs)"
  using assms by (induction xs) (auto intro: add_mono trans_le_add2)

lemma work_filter_less:
  fixes w v :: "'a \<Rightarrow> nat"
  assumes "\<And>x. x \<in> set xs \<Longrightarrow> v x \<le> w x" and "y \<in> set xs" and "0 < w y" and "q y \<Longrightarrow> v y < w y"
  shows "sum_list (map v (filter q xs)) < sum_list (map w xs)"
  using assms
proof (induction xs)
  case (Cons x xs)
  have tail: "sum_list (map v (filter q xs)) \<le> sum_list (map w xs)" using Cons.prems(1) by (intro work_filter) simp
  show ?case
  proof (cases "x = y")
    case True
    then show ?thesis using Cons.prems(3,4) tail by auto
  next
    case False
    then have "sum_list (map v (filter q xs)) < sum_list (map w xs)" using Cons by simp
    then show ?thesis using Cons.prems(1) [of x] by simp
  qed
qed simp

text \<open>Every delivery expires by \<open>T\<close>, and the times up to then, with a retry after them, are timestamps.\<close>

definition ends_by :: "lib \<Rightarrow> timestamp \<Rightarrow> deliveries \<Rightarrow> bool" where
  "ends_by L T m \<longleftrightarrow>
     deliveries_ok L m \<and> (\<forall>kp \<in> set m. sd_expiresAt (dl_schedule (delivery_in L kp)) \<le> T) \<and>
     (\<forall>t. 0 \<le> t \<and> t \<le> T + 8000 \<longrightarrow> lib_timestamp L t)"

definition maintenance :: "lib \<Rightarrow> string \<Rightarrow> timestamp \<Rightarrow> deliveries \<Rightarrow> deliveries \<Rightarrow> bool" where
  "maintenance L owner T m m' \<longleftrightarrow>
     (\<exists>t now. findNextMaintenanceAt L owner m = Inr (Some t) \<and> 0 \<le> now \<and> now \<le> T \<and>
        maintain L owner (max t now) m = Inr m')"

lemma delay_at_most: "getRetryDelayMs n \<le> 8000"
  by (cases "n = 1"; cases "n = 2"; cases "n = 3"; cases "n = 4") (auto simp: getRetryDelayMs_def RETRY_DELAYS_MS_def)

lemma ends_by_clock: "ends_by L T m \<Longrightarrow> 0 \<le> now \<Longrightarrow> now \<le> T \<Longrightarrow> clock_ok L now"
  unfolding clock_ok_def
proof
  assume g: "ends_by L T m" "0 \<le> now" "now \<le> T"
  show "lib_timestamp L now" using g by (simp add: ends_by_def)
  show "\<forall>n. lib_timestamp L (now + getRetryDelayMs n)"
  proof
    fix n
    have "0 \<le> now + getRetryDelayMs n" "now + getRetryDelayMs n \<le> T + 8000"
      using g delay_at_most [of n] delay_bounds [of n] by simp_all
    then show "lib_timestamp L (now + getRetryDelayMs n)" using g(1) unfolding ends_by_def by blast
  qed
qed

lemma next_by_expiry: "delivery_getNextMaintenanceAt owner d = Some t \<Longrightarrow> t \<le> sd_expiresAt (dl_schedule d)"
  by (auto simp: delivery_getNextMaintenanceAt_def schedule_getNextMaintenanceAt_def schedule_getExpirationAt_def
      split: if_splits)

lemma awaited_work:
  assumes "stored_as L kp d" and "delivery_getNextMaintenanceAt owner d = Some t"
  shows "0 < attempts_left L kp"
  using assms unfolding stored_attempt [OF assms(1)]
  by (auto simp: stored_as_def schedule_ok_def delivery_getNextMaintenanceAt_def schedule_getNextMaintenanceAt_def
      schedule_getExpirationAt_def split: if_splits)

lemma after_retry_kept:
  "sd_expiresAt (dl_schedule (after_retry owner now d)) = sd_expiresAt (dl_schedule d)"
  "schedule_isAcknowledged (dl_schedule (after_retry owner now d)) = schedule_isAcknowledged (dl_schedule d)"
  by (simp_all add: after_retry_def retried_schedule_def schedule_isAcknowledged_def)

text \<open>A settled delivery is only dropped or left as it is.\<close>

lemma round_settled:
  assumes st: "stored_as L kp d" and clock: "clock_ok L now" and s: "settled L (stored_after_retry L owner now kp)"
  shows "stored_after_retry L owner now kp = kp"
proof -
  have "schedule_isAcknowledged (dl_schedule d)"
    using s after_retry_kept(2) unfolding settled_def delivery_in_stored [OF stored_after_retry [OF st clock]] by blast
  then have "\<not> due owner now d" by (simp add: due_def schedule_isRetryableAt_def)
  then show ?thesis using st by (simp add: stored_after_retry_def after_retry_def stored_as_def prod_eq_iff)
qed

lemma round_progress:
  assumes good: "ends_by L T m" and nxt: "findNextMaintenanceAt L owner m = Inr (Some t)" and now: "0 \<le> now" "now \<le> T"
  obtains m' where "maintain L owner (max t now) m = Inr m'" "ends_by L T m'" "work_left L m' < work_left L m"
    "{kp \<in> set m'. settled L kp} \<subseteq> set m"
proof -
  let ?now = "max t now"
  have ok: "deliveries_ok L m" using good by (simp add: ends_by_def)
  then obtain kp d where kp: "kp \<in> set m" "stored_as L kp d" "delivery_getNextMaintenanceAt owner d = Some t"
    using nxt by (cases rule: next_maintenance [OF ok, of owner]) auto
  have "t \<le> T" using good kp(1) next_by_expiry [OF kp(3)] delivery_in_stored [OF kp(2)] by (force simp: ends_by_def)
  then have clock: "clock_ok L ?now" using ends_by_clock [OF good] now by simp
  let ?live = "\<lambda>kp. \<not> schedule_hasExpiredAt (dl_schedule (delivery_in L kp)) ?now"
  let ?f = "stored_after_retry L owner ?now"
  from maintain_spec [OF ok clock] obtain m' where m': "maintain L owner ?now m = Inr m'" "deliveries_ok L m'"
    "m' = filter ?live (map ?f m)" unfolding delivery_in_def by metis
  have st: "\<exists>e. stored_as L kq e" if "kq \<in> set m" for kq using ok that by (auto simp: deliveries_ok_def)
  have ends: "sd_expiresAt (dl_schedule (delivery_in L (?f kq))) \<le> T" if k: "kq \<in> set m" for kq
  proof -
    obtain e where e: "stored_as L kq e" using st [OF k] by blast
    have "sd_expiresAt (dl_schedule e) \<le> T" using good k delivery_in_stored [OF e] by (auto simp: ends_by_def)
    then show ?thesis using delivery_in_stored [OF stored_after_retry [OF e clock]] after_retry_kept(1) by simp
  qed
  have e': "ends_by L T m'" using good ends m'(2) unfolding ends_by_def m'(3) by auto
  have le: "attempts_left L (?f kq) \<le> attempts_left L kq" if "kq \<in> set m" for kq
    using st [OF that] round_keeps_work [OF _ clock] by blast
  have lt: "attempts_left L (?f kp) < attempts_left L kp" if "?live (?f kp)"
    using round_takes_work [OF kp(2) clock kp(3)] that delivery_in_stored [OF stored_after_retry [OF kp(2) clock]] by simp
  have "work_left L m' = sum_list (map (\<lambda>kq. attempts_left L (?f kq)) (filter (\<lambda>kq. ?live (?f kq)) m))"
    by (simp add: m'(3) work_left_def filter_map o_def)
  then have w: "work_left L m' < work_left L m"
    using work_filter_less [of m "\<lambda>kq. attempts_left L (?f kq)" "attempts_left L" kp "\<lambda>kq. ?live (?f kq)"]
      le kp(1) awaited_work [OF kp(2,3)] lt by (simp add: work_left_def)
  have "{kp \<in> set m'. settled L kp} \<subseteq> set m"
  proof clarify
    fix k p assume kq: "(k, p) \<in> set m'" "settled L (k, p)"
    then obtain kq where "kq \<in> set m" "?f kq = (k, p)" unfolding m'(3) by auto
    then show "(k, p) \<in> set m" using st round_settled [OF _ clock] kq(2) by metis
  qed
  then show ?thesis using that m'(1) e' w by blast
qed

lemma maintenance_step: "ends_by L T m \<Longrightarrow> maintenance L owner T m m' \<Longrightarrow> ends_by L T m' \<and> work_left L m' < work_left L m"
  by (auto simp: maintenance_def elim: round_progress)

interpretation rounds: bounded_machine "ends_by L T" "maintenance L owner T" "ends_by L T" "work_left L"
  by unfold_locales (blast dest: maintenance_step)+

text \<open>
  C40: The maintenance of the signal deliveries of a node settles. When every stored delivery
  expires by a time \<open>T\<close>, however late the timers fire before it, as many rounds as attempts are
  left come to a repository for which no timer is set any more; no round fails, and what is then
  stored was acknowledged before, as it was stored.
\<close>

theorem signal_maintenance_settles:
  assumes "ends_by L T m" and "\<forall>now \<in> set nows. 0 \<le> now \<and> now \<le> T" and "work_left L m \<le> length nows"
  shows "\<exists>m'. runtime L owner nows m = Inr m' \<and> findNextMaintenanceAt L owner m' = Inr None \<and>
    (\<forall>kp \<in> set m'. settled L kp \<and> kp \<in> set m)"
  using assms
proof (induction nows arbitrary: m)
  case Nil
  have ok: "deliveries_ok L m" using Nil.prems(1) by (simp add: ends_by_def)
  then show ?case
  proof (cases rule: next_maintenance [OF ok, of owner])
    case (2 t kp d)
    then show ?thesis using awaited_work [of L kp d owner t] Nil.prems(3) by (auto simp: work_left_def)
  qed auto
next
  case (Cons now nows)
  have ok: "deliveries_ok L m" using Cons.prems(1) by (simp add: ends_by_def)
  then show ?case
  proof (cases rule: next_maintenance [OF ok, of owner])
    case (2 t kp d)
    obtain m1 where m1: "maintain L owner (max t now) m = Inr m1" "ends_by L T m1" "work_left L m1 < work_left L m"
      "{kp \<in> set m1. settled L kp} \<subseteq> set m" using round_progress [OF Cons.prems(1) 2(1), of now] Cons.prems(2) by auto
    obtain m' where "runtime L owner nows m1 = Inr m'" "findNextMaintenanceAt L owner m' = Inr None"
      "\<forall>kp \<in> set m'. settled L kp \<and> kp \<in> set m1"
      using Cons.IH [OF m1(2)] Cons.prems(2,3) m1(3) by auto
    then show ?thesis using 2(1) m1(1,4) by auto
  qed auto
qed

definition sample_signal :: call_signal where
  "sample_signal =
     \<lparr>sg_callId = ''call'', sg_createdAt = 100000, sg_expiresAt = 120000, sg_networkId = ''net'',
      sg_recipientIdentityId = ''bo'', sg_scopeType = COMMUNITY_CHANNEL,
      sg_sealedEntries = [\<lparr>se_envelope = ''e'', se_recipientDeviceCredential = ''c''\<rparr>],
      sg_senderDeviceCredential = ''d'', sg_senderIdentityId = ''ana'', sg_signalId = ''sig'', sg_signalType = OFFER,
      sg_signature = ''s''\<rparr>"

definition sample_delivery :: delivery where
  "sample_delivery = delivery_send
     \<lparr>rt_callId = ''call'', rt_ownerNodeId = ''node'', rt_networkId = ''net'', rt_participantIds = [''ana'', ''bo'']\<rparr>
     sample_signal 100000"

definition sample_deliveries :: deliveries where
  "sample_deliveries = [(''sig'', delivery_toPrimitives sample_delivery)]"

lemma sample_signal_read: "signal_fromPrimitives sample_lib (signal_toPrimitives sample_signal) = Inr sample_signal"
  by (simp add: signal_fromPrimitives_def signal_toPrimitives_def sample_signal_def sample_lib_def safe_integer_def
      LIFETIME_MS_def isBoundedString_def MAX_SIGNATURE_LENGTH_def MAX_CREDENTIAL_LENGTH_def MAX_ENVELOPE_LENGTH_def
      MAX_SEALED_ENTRIES_def sealed_entries_of_def sealed_entry_of_def entry_json_def js_length_def call_timestamp_def
      new_CallScopeType_def new_CallSignalType_def map_filter_def call_value_def)

lemma sample_delivery_read:
  "delivery_fromPrimitives sample_lib (delivery_toPrimitives sample_delivery) = Inr (sample_delivery\<lparr>dl_events := []\<rparr>)"
  using sample_signal_read
  by (simp add: delivery_fromPrimitives_def delivery_toPrimitives_def sample_delivery_def delivery_send_def recordSent_def
      schedule_first_def optional_timestamp_def call_timestamp_def call_value_def sample_lib_def new_attempt_def
      RETRY_DELAYS_MS_def signal_toPrimitives_def sample_signal_def)

lemma sample_schedule:
  "delivery_in sample_lib (''sig'', delivery_toPrimitives sample_delivery) = sample_delivery\<lparr>dl_events := []\<rparr>"
  "dl_schedule sample_delivery = \<lparr>sd_attempt = 1, sd_sentAt = 100000, sd_expiresAt = 120000, sd_nextRetryAt = 101000,
     sd_acknowledgedAt = None\<rparr>"
  subgoal by (simp add: delivery_in_def sample_delivery_read)
  subgoal by (simp add: sample_delivery_def delivery_send_def schedule_first_def getRetryDelayMs_def RETRY_DELAYS_MS_def
        sample_signal_def)
  done

lemma sample_ends_by: "ends_by sample_lib 120000 sample_deliveries"
proof -
  have "stored_as sample_lib (''sig'', delivery_toPrimitives sample_delivery) (sample_delivery\<lparr>dl_events := []\<rparr>)"
    using sample_schedule(2)
    by (simp add: stored_as_def sample_delivery_read schedule_ok_def getRetryDelayMs_def RETRY_DELAYS_MS_def)
      (simp add: delivery_toPrimitives_def sample_delivery_def delivery_send_def recordSent_def sample_signal_def)
  then show ?thesis using sample_schedule
    by (auto simp: ends_by_def deliveries_ok_def sample_deliveries_def sample_lib_def)
qed

lemma signal_maintenance_settles_witness:
  "\<exists>m'. runtime sample_lib ''node'' [100000, 101001, 103500, 109000, 119000] sample_deliveries = Inr m' \<and>
     findNextMaintenanceAt sample_lib ''node'' m' = Inr None \<and>
     (\<forall>kp \<in> set m'. settled sample_lib kp \<and> kp \<in> set sample_deliveries)"
proof -
  have "work_left sample_lib sample_deliveries \<le> length [100000, 101001, 103500, 109000, 119000 :: int]" 
    using sample_schedule by (simp add: work_left_def attempts_left_def sample_deliveries_def settled_def schedule_isAcknowledged_def)
  then show ?thesis by (intro signal_maintenance_settles [OF sample_ends_by]) auto
qed

end
