(* ===== verification/CallGuarantees.thy ===== *)
theory CallGuarantees
  imports CallSamples CallSignals
begin

text \<open>
  What the calls of a node keep to, over the aggregate, the gate, the projection and the proof of
  a mutation; the settling of the signal deliveries stands with them in \<open>CallSignals\<close>.
\<close>

text \<open>
  C34: A call stays consistent, and a call that is over stays over. From the call that
  \<open>Call.start\<close> makes for distinct participants, through any sequence of joins, leaves, ends,
  expirations, timeouts and restored rosters: a participant is listed once with the times of its
  status, the creator of a conversation stays listed, a call has an end exactly when it is over
  and has recorded at most one event that says so, an active conversation has somebody in it; and
  once the call is over, neither its life nor its events change again.
\<close>

theorem call_stays_consistent:
  assumes "call_starts L c" and "rtranclp call_step c c'" and "rtranclp call_step c' c''"
  shows "call_ok c'' \<and>
    (call_isActive c' \<or> (cl_lifecycle c'' = cl_lifecycle c' \<and> cl_events c'' = cl_events c'))"
proof (intro conjI)
  show "call_ok c''" using call_machine.reachable_good [OF assms(1) rtranclp_trans [OF assms(2,3)]] .
  show "call_isActive c' \<or> (cl_lifecycle c'' = cl_lifecycle c' \<and> cl_events c'' = cl_events c')"
    using assms(3)
    by (induction rule: rtranclp_induct) (auto simp: call_isActive_def dest: call_over_step)
qed

definition ringing_call :: call where
  "ringing_call = projr (call_begin call_lib ''ana'' ''net''
     \<lparr>sc_type = CONVERSATION, sc_conversationId = Some ''c'', sc_communityId = None, sc_channelId = None, sc_capabilityHash = None\<rparr>
     [''ana'', ''bo''] anas_call 1 None)"

definition declined_call :: call where
  "declined_call = projr (call_leave ''bo'' 2 ringing_call)"

lemma ringing_call_starts: "call_starts call_lib ringing_call"
proof -
  have "isOK (call_begin call_lib ''ana'' ''net''
     \<lparr>sc_type = CONVERSATION, sc_conversationId = Some ''c'', sc_communityId = None, sc_channelId = None, sc_capabilityHash = None\<rparr>
     [''ana'', ''bo''] anas_call 1 None)" by code_simp
  then have "call_begin call_lib ''ana'' ''net''
     \<lparr>sc_type = CONVERSATION, sc_conversationId = Some ''c'', sc_communityId = None, sc_channelId = None, sc_capabilityHash = None\<rparr>
     [''ana'', ''bo''] anas_call 1 None = Inr ringing_call" by (auto simp: isOK_iff ringing_call_def)
  moreover have "distinct [''ana'', ''bo'']" by simp
  ultimately show ?thesis unfolding call_starts_def by blast
qed

lemma call_stays_consistent_witness:
  "call_ok (call_expire 3 declined_call) \<and> cl_lifecycle (call_expire 3 declined_call) = cl_lifecycle declined_call"
proof -
  have "isOK (call_leave ''bo'' 2 ringing_call)" by code_simp
  then have "call_leave ''bo'' 2 ringing_call = Inr declined_call" by (auto simp: isOK_iff declined_call_def)
  then have "rtranclp call_step ringing_call declined_call" by (blast intro: step_leave)
  moreover have "rtranclp call_step declined_call (call_expire 3 declined_call)" by (blast intro: step_expire)
  moreover have "\<not> call_isActive declined_call" by code_simp
  ultimately show ?thesis using call_stays_consistent [OF ringing_call_starts] by blast
qed

text \<open>
  C35: A record of a call that the gate of a node accepts speaks for its author. Whatever the
  node holds and however devices are authorized, the record carries a proof that is signed by an
  authorized device of the identity that starts, takes part in or ends the call, is no deletion,
  is bound to the digest of what the record says, and names the record by the id that its type,
  its call and that identity derive.
\<close>

theorem accepted_call_record_speaks:
  assumes "verdictOf L A (call_policies L w) ''calls'' r = VerdictAccepted"
  shows "\<exists>p ty callId. proofOf L r = Some p \<and> isSignedByDevice L p \<and> A (pf_author p) = Inr True \<and>
    \<not> isDeletion p \<and> lib_digest L (JObject (payloadOf r)) = Some (pf_payloadDigest p) \<and>
    call_record_of r ty callId (ma_identityId (pf_author p)) \<and>
    pf_recordId p = derived_id ty callId (ma_identityId (pf_author p))"
  using assms by (elim accepted_call_record) blast

lemma accepted_call_record_speaks_witness:
  "\<exists>p ty callId. proofOf call_lib anas_start = Some p \<and> isSignedByDevice call_lib p \<and>
    \<not> isDeletion p \<and> lib_digest call_lib (JObject (payloadOf anas_start)) = Some (pf_payloadDigest p) \<and>
    call_record_of anas_start ty callId (ma_identityId (pf_author p)) \<and>
    pf_recordId p = derived_id ty callId (ma_identityId (pf_author p))"
  using accepted_call_record_speaks [OF anas_call_accepted] unfolding anas_start_def by blast

text \<open>
  C36: Writing and reading the proof of a public mutation round trip. A proof that the strict
  decoder returned is written to JSON that the decoder reads back as the same proof, if its
  signature is a text of the length the decoder takes; and what was read agrees with what is
  written in every field but the author, compared as it is decoded, and the signature.
\<close>

theorem mutation_proof_round_trip:
  assumes "lib_ok L" and "proof_fromPrimitives L v = Inr p"
    and "0 < js_length (pf_signature p)" and "js_length (pf_signature p) \<le> MAX_TEXT"
  shows "proof_fromPrimitives L (proof_toPrimitives p) = Inr p \<and>
    (\<exists>r. v = JObject r \<and> pf_authorOf (map_of r ''author'') = Inr (pf_author p) \<and>
       (\<forall>k \<in> fst ` set (body_entries p) - {''author''}. map_of r k = map_of (body_entries p) k))"
proof -
  from decoded [OF assms(2)] obtain r sg where r: "v = JObject r"
    "\<And>k. k \<in> fst ` set (body_entries p) \<Longrightarrow> k \<noteq> ''author'' \<Longrightarrow> map_of r k = map_of (body_entries p) k"
    "pf_authorOf (map_of r ''author'') = Inr (pf_author p)" "lib_signature L sg = Some (pf_signature p)" "proof_ok L p"
    by metis
  have "lib_signature L (pf_signature p) = Some (pf_signature p)" using assms(1) r(4) by (auto simp: lib_ok_def)
  then show ?thesis using encoded [OF r(5) _ assms(3,4)] r(1-3) by blast
qed

lemma mutation_proof_round_trip_witness:
  "proof_fromPrimitives call_lib (proof_toPrimitives (start_proof ''ana'' anas_call (CHR ''A''))) =
     Inr (start_proof ''ana'' anas_call (CHR ''A'')) \<and>
   (\<exists>r. proof_toPrimitives (start_proof ''ana'' anas_call (CHR ''A'')) = JObject r \<and>
     pf_authorOf (map_of r ''author'') = Inr (pf_author (start_proof ''ana'' anas_call (CHR ''A''))))"
proof -
  have "lib_ok call_lib" using sample_lib_ok by (simp add: lib_ok_def call_lib_def)
  moreover have "proof_fromPrimitives call_lib (proof_toPrimitives (start_proof ''ana'' anas_call (CHR ''A''))) =
     Inr (start_proof ''ana'' anas_call (CHR ''A''))" by code_simp
  moreover have "0 < js_length (pf_signature (start_proof ''ana'' anas_call (CHR ''A'')))"
    "js_length (pf_signature (start_proof ''ana'' anas_call (CHR ''A''))) \<le> MAX_TEXT" by code_simp+
  ultimately show ?thesis using mutation_proof_round_trip by blast
qed

text \<open>What the node that got \<open>ana\<close>'s start first has folded, read off one evaluation.\<close>

definition fold_summary :: "projection \<Rightarrow> (string \<times> string \<times> string option \<times> string \<times> bool) list" where
  "fold_summary P = map (\<lambda>(callId, f). (callId, fc_digest f, communityChannelKey (fc_primitives f),
     creatorScopeKey (fc_primitives f), isLive 1000 100 f)) (pj_folded P)"
lemma anas_first_summary:
  "fold_summary anas_first =
     [(anas_call, replicate 43 (CHR ''A''), Some ''flock:voice'', ''ana:flock:voice'', True),
      (bos_call, replicate 43 (CHR ''B''), Some ''flock:voice'', ''bo:flock:voice'', True)]"
  by code_simp

lemma anas_first_folded:
  assumes "map_of (pj_folded anas_first) callId = Some f"
  shows "callId = anas_call \<and> fc_digest f = replicate 43 (CHR ''A'') \<or> callId = bos_call \<and> fc_digest f = replicate 43 (CHR ''B'')"
    and "communityChannelKey (fc_primitives f) = Some ''flock:voice''"
    and "isLive 1000 100 f"
proof -
  have "(callId, f) \<in> set (pj_folded anas_first)" using assms by (rule map_of_SomeD)
  then have "(callId, fc_digest f, communityChannelKey (fc_primitives f), creatorScopeKey (fc_primitives f),
      isLive 1000 100 f) \<in> set (fold_summary anas_first)"
    unfolding fold_summary_def by force
  then show "callId = anas_call \<and> fc_digest f = replicate 43 (CHR ''A'') \<or> callId = bos_call \<and> fc_digest f = replicate 43 (CHR ''B'')"
    "communityChannelKey (fc_primitives f) = Some ''flock:voice''" "isLive 1000 100 f"
    unfolding anas_first_summary by auto
qed

lemma anas_call_folded: "\<exists>f. map_of (pj_folded anas_first) anas_call = Some f"
proof -
  have "anas_call \<in> fst ` set (fold_summary anas_first)" by (simp add: anas_first_summary)
  then have "anas_call \<in> fst ` set (pj_folded anas_first)" by (force simp: fold_summary_def)
  then show ?thesis by (metis map_of_eq_None_iff not_None_eq)
qed

text \<open>
  C37: Nodes that admitted the same records of calls answer the same. Two runs of a node, each
  over accepted records and timeouts in any order and with any repetitions, that admitted the
  same records and hold the same timeouts, resolve every call id to the same call at every time;
  provided two different proofs of one place never rank the same, and two different folded calls
  have different start digests.
\<close>

theorem nodes_agree_on_calls:
  assumes "\<forall>ev \<in> set evs. event_accepted L ev" and "\<forall>ev \<in> set evs'. event_accepted L ev"
    and "node_run L evs new_projection = Inr P" and "node_run L evs' new_projection = Inr P'"
    and "set (arrivals evs) = set (arrivals evs')" and "map_of (pj_timedOut P) = map_of (pj_timedOut P')"
    and "\<forall>p. inj_on (mutation_rank L) {r \<in> set (arrivals evs). place_of r = p}"
    and "inj_on fc_digest (ran (map_of (pj_folded P)))"
  shows "resolve md now P callId = resolve md now P' callId"
proof (rule resolve_same)
  show "index_ok P" "index_ok P'"
    using run_good [OF assms(3,1)] run_good [OF assms(4,2)] by (simp_all add: projection_good_def)
  show "map_of (pj_folded P) = map_of (pj_folded P')"
    using run_folded_same [OF assms(1-6)] assms(7) by blast
qed (rule assms(8))

lemma nodes_agree_on_calls_witness:
  "resolve 1000 100 anas_first bos_call = resolve 1000 100 bos_first bos_call"
proof (rule nodes_agree_on_calls [OF _ _ anas_first_run bos_first_run])
  have "mutation_rank call_lib anas_start \<noteq> mutation_rank call_lib bos_start" by code_simp
  then show "\<forall>p. inj_on (mutation_rank call_lib) {r \<in> set (arrivals (map Arrives [anas_start, bos_start])). place_of r = p}"
    by (auto simp: inj_on_def)
  have "callId = callId'" if "map_of (pj_folded anas_first) callId = Some f" "map_of (pj_folded anas_first) callId' = Some g"
      "fc_digest f = fc_digest g" for callId callId' f g
    using anas_first_folded(1) [OF that(1)] anas_first_folded(1) [OF that(2)] that(3) by auto
  then show "inj_on fc_digest (ran (map_of (pj_folded anas_first)))"
    unfolding inj_on_def ran_def by fastforce
  have "map_of (pj_timedOut anas_first) = (\<lambda>_. None)" "map_of (pj_timedOut bos_first) = (\<lambda>_. None)"
    using node_run_timedOut [OF anas_first_run] node_run_timedOut [OF bos_first_run]
    by (auto simp: new_projection_def)
  then show "map_of (pj_timedOut anas_first) = map_of (pj_timedOut bos_first)" by simp
qed (use start_accepted in auto)

text \<open>
  C38: The lookups of a node answer what a scan of its calls would. In every projection a node
  can reach by accepted records and timeouts, the calls found by a participant, by a conversation
  and by a community channel are exactly the resolved calls that have that participant, that
  conversation and that channel: no index entry is stale and none is missing.
\<close>

theorem lookups_are_scans:
  assumes "rtranclp (node_moves L) new_projection P" and "k \<noteq> []"
  shows "set (findByParticipant md now P k) = {p. (\<exists>callId. resolve md now P callId = Some p) \<and> k \<in> set (clp_participantIds p)} \<and>
    set (findByConversationId md now P k) =
      {p. (\<exists>callId. resolve md now P callId = Some p) \<and> sp_conversationId (clp_scope p) = Some k} \<and>
    set (findByCommunityChannel md now P k channel) =
      {p. (\<exists>callId. resolve md now P callId = Some p) \<and> communityChannelKey p = Some (k @ '':'' @ channel)}"
proof -
  have "index_ok P" using projection_machine.reachable_good [OF refl assms(1)] by (simp add: projection_good_def)
  note ix = resolved_by_index [OF this, of _ md now]
  have "(ByParticipant, Some k) \<in> set (index_keys p) \<longleftrightarrow> k \<in> set (clp_participantIds p)"
    "(ByConversation, Some k) \<in> set (index_keys p) \<longleftrightarrow> sp_conversationId (clp_scope p) = Some k" for p
    by (auto simp: index_keys_def)
  then show ?thesis using assms(2)
    by (simp add: findByParticipant_def findByConversationId_def findByCommunityChannel_def ix)
qed

lemma lookups_are_scans_witness:
  "set (findByCommunityChannel 1000 100 anas_first ''flock'' ''voice'') =
      {p. (\<exists>callId. resolve 1000 100 anas_first callId = Some p) \<and> communityChannelKey p = Some (''flock'' @ '':'' @ ''voice'')}"
  using lookups_are_scans [OF anas_first_reached, of "''flock''"] by simp

text \<open>
  C39: A community channel has one live call. In every projection a node can reach, if some call
  of a channel has neither ended nor run out of time, then exactly one call id resolves to an
  active call of that channel, whatever calls were started in it concurrently; provided the key
  of a creator and a scope tells the channels apart.
\<close>

theorem one_live_call_per_channel:
  assumes "rtranclp (node_moves L) new_projection P"
    and "map_of (pj_folded P) a = Some f" and "isLive md now f" and "communityChannelKey (fc_primitives f) = Some k"
    and "\<forall>b c g h. map_of (pj_folded P) b = Some g \<longrightarrow> map_of (pj_folded P) c = Some h \<longrightarrow>
      creatorScopeKey (fc_primitives g) = creatorScopeKey (fc_primitives h) \<longrightarrow>
      communityChannelKey (fc_primitives g) = communityChannelKey (fc_primitives h)"
  shows "\<exists>!callId. \<exists>p. resolve md now P callId = Some p \<and> clp_status p = ''active'' \<and> communityChannelKey p = Some k"
proof -
  have good: "projection_good L P" using projection_machine.reachable_good [OF refl assms(1)] .
  then have "index_ok P" by (simp add: projection_good_def)
  then obtain b p where b: "resolve md now P b = Some p" "clp_status p = ''active''" "communityChannelKey p = Some k"
    using live_channel_has_winner [OF _ assms(2-4)] assms(5) by blast
  show ?thesis
  proof (rule ex1I [of _ b])
    show "\<exists>p. resolve md now P b = Some p \<and> clp_status p = ''active'' \<and> communityChannelKey p = Some k" using b by blast
    fix c assume "\<exists>p. resolve md now P c = Some p \<and> clp_status p = ''active'' \<and> communityChannelKey p = Some k"
    then obtain q where q: "resolve md now P c = Some q" "clp_status q = ''active''" "communityChannelKey q = Some k" by blast
    show "c = b" by (rule at_most_one_active [OF good q b])
  qed
qed

lemma one_live_call_per_channel_witness:
  "\<exists>!callId. \<exists>p. resolve 1000 100 anas_first callId = Some p \<and> clp_status p = ''active'' \<and>
     communityChannelKey p = Some ''flock:voice''"
proof -
  obtain f where f: "map_of (pj_folded anas_first) anas_call = Some f" using anas_call_folded by blast
  show ?thesis
    by (rule one_live_call_per_channel [OF anas_first_reached f])
      (use anas_first_folded(2,3) f in \<open>metis+\<close>)
qed

end
