(* ===== verification/DeviceTransitions.thy ===== *)
theory DeviceTransitions
  imports Values
begin

text \<open>
  The signed transitions of the devices of an identity (\<open>DeviceAuthorizationTransition.ts\<close>, its
  state and primitives, and the value objects of \<open>src/contexts/identity-devices/domain\<close>): what
  the constructors accept, the bytes that are signed, and the record a transition is read from.
  A credential is the text of its public key.
\<close>

datatype device_error =
    InvalidDeviceAuthorizationTransitionError
  | DeviceValueError

abbreviation "InvalidTransition \<equiv> InvalidDeviceAuthorizationTransitionError"

type_synonym credential = string
type_synonym revision = int

definition device_value :: "'a option \<Rightarrow> device_error + 'a" where
  "device_value r = (case r of None \<Rightarrow> Inl DeviceValueError | Some v \<Rightarrow> Inr v)"

lemma device_value_simps [simp]:
  "device_value r = Inr v \<longleftrightarrow> r = Some v" "device_value (Some v) = Inr v" "device_value None = Inl DeviceValueError"
  by (simp_all add: device_value_def split: option.splits)

section \<open>Value objects\<close>

definition MAX_DEVICE_CREDENTIALS :: nat where "MAX_DEVICE_CREDENTIALS = 128"
definition MAX_COMPROMISED_CREDENTIALS :: nat where "MAX_COMPROMISED_CREDENTIALS = 32"

definition new_DeviceCredential :: "lib \<Rightarrow> string \<Rightarrow> device_error + credential" where
  "new_DeviceCredential L s = device_value (lib_public_key L s)"

definition credential_fromIdentityId :: "lib \<Rightarrow> identity_id \<Rightarrow> device_error + credential" where
  "credential_fromIdentityId L i = new_DeviceCredential L (lib_pem L i)"

definition credential_fromWire :: "lib \<Rightarrow> string \<Rightarrow> device_error + credential" where
  "credential_fromWire L s = bindR (device_value (lib_identity L s)) (credential_fromIdentityId L)"

definition new_Revision :: "int \<Rightarrow> device_error + revision" where
  "new_Revision n = bindR (ensure (safe_integer n \<and> 0 \<le> n) InvalidTransition) (\<lambda>_. Inr n)"

definition revision_next :: "revision \<Rightarrow> device_error + revision" where
  "revision_next r = new_Revision (r + 1)"

definition immediatelyFollows :: "revision \<Rightarrow> revision \<Rightarrow> device_error + bool" where
  "immediatelyFollows r previous = bindR (revision_next previous) (\<lambda>n. Inr (r = n))"

definition epoch_genesis :: string where "epoch_genesis = ''genesis''"

definition new_Epoch :: "lib \<Rightarrow> string \<Rightarrow> device_error + string" where
  "new_Epoch L s =
     bindR (device_value (lib_text L None s)) (\<lambda>v.
       if v \<noteq> epoch_genesis then bindR (device_value (lib_uuid L v)) (\<lambda>_. Inr v) else Inr v)"

text \<open>The operation id is a value already.\<close>

definition epoch_fromRecovery :: "lib \<Rightarrow> string \<Rightarrow> device_error + string" where
  "epoch_fromRecovery L operationId = new_Epoch L operationId"

datatype device_operation = ENROLL | RECOVER | REVOKE

fun device_operation_value :: "device_operation \<Rightarrow> string" where
  "device_operation_value ENROLL = ''enroll''"
| "device_operation_value RECOVER = ''recover''"
| "device_operation_value REVOKE = ''revoke''"

definition new_DeviceOperation :: "string \<Rightarrow> device_error + device_operation" where
  "new_DeviceOperation s = device_value (find (\<lambda>x. device_operation_value x = s) [ENROLL, RECOVER, REVOKE])"

record pairing =
  pr_id :: string
  pr_expiration :: timestamp
  pr_authorizedAt :: timestamp

definition pairing_isExpiredAt :: "timestamp \<Rightarrow> timestamp \<Rightarrow> bool" where
  "pairing_isExpiredAt expiration t \<longleftrightarrow> expiration < t"

definition new_Pairing :: "string \<Rightarrow> timestamp \<Rightarrow> timestamp \<Rightarrow> device_error + pairing" where
  "new_Pairing i expiration authorizedAt =
     bindR (ensure (\<not> pairing_isExpiredAt expiration authorizedAt) InvalidTransition) (\<lambda>_.
       Inr \<lparr>pr_id = i, pr_expiration = expiration, pr_authorizedAt = authorizedAt\<rparr>)"

section \<open>A transition\<close>

record compromised =
  cc_credential :: credential
  cc_since :: revision

record transition =
  tr_author :: "credential option"
  tr_compromisedCredentials :: "compromised list option"
  tr_compromisedSince :: "revision option"
  tr_epoch :: string
  tr_identityId :: identity_id
  tr_operation :: device_operation
  tr_operationId :: string
  tr_pairing :: "pairing option"
  tr_previousRevision :: revision
  tr_proofOfPossession :: "string option"
  tr_signature :: "string option"
  tr_target :: credential

abbreviation "isEnrollment t \<equiv> tr_operation t = ENROLL"
abbreviation "isRevocation t \<equiv> tr_operation t = REVOKE"
abbreviation "isRecovery t \<equiv> tr_operation t = RECOVER"

definition hasValidCompromiseRevision :: "transition \<Rightarrow> bool" where
  "hasValidCompromiseRevision t \<longleftrightarrow>
     (case tr_compromisedSince t of None \<Rightarrow> True | Some r \<Rightarrow> \<not> r > tr_previousRevision t)"

definition hasValidRevocationShape :: "transition \<Rightarrow> bool" where
  "hasValidRevocationShape t \<longleftrightarrow> tr_author t \<noteq> None \<and> tr_pairing t = None \<and> hasValidCompromiseRevision t"

definition hasValidOperationShape :: "transition \<Rightarrow> bool" where
  "hasValidOperationShape t \<longleftrightarrow>
     (if isEnrollment t then tr_author t \<noteq> None \<and> tr_pairing t \<noteq> None \<and> tr_compromisedSince t = None
      else if isRevocation t then hasValidRevocationShape t
      else tr_compromisedSince t = None \<and> isRecovery t \<and> tr_author t = None \<and> tr_pairing t = None)"

definition hasValidCompromisedCredentials :: "transition \<Rightarrow> bool" where
  "hasValidCompromisedCredentials t \<longleftrightarrow>
     (case tr_compromisedCredentials t of
        None \<Rightarrow> True
      | Some es \<Rightarrow>
          isRecovery t \<and> length es > 0 \<and> length es \<le> MAX_COMPROMISED_CREDENTIALS \<and>
          list_all (\<lambda>n. \<not> cc_since (es ! n) > tr_previousRevision t \<and>
             (n = 0 \<or> cc_credential (es ! (n - 1)) < cc_credential (es ! n))) [0..<length es])"

definition new_transition :: "transition \<Rightarrow> device_error + transition" where
  "new_transition t =
     bindR (ensure (hasValidOperationShape t \<and> hasValidCompromisedCredentials t) InvalidTransition) (\<lambda>_. Inr t)"

definition hasValidProofShape :: "transition \<Rightarrow> bool" where
  "hasValidProofShape t \<longleftrightarrow>
     (if isRevocation t then tr_proofOfPossession t = None else tr_proofOfPossession t \<noteq> None)"

definition tr_getRevision :: "transition \<Rightarrow> device_error + revision" where
  "tr_getRevision t = revision_next (tr_previousRevision t)"

definition getCompromisedCredentials :: "transition \<Rightarrow> compromised list" where
  "getCompromisedCredentials t = (case tr_compromisedCredentials t of None \<Rightarrow> [] | Some es \<Rightarrow> es)"

definition required :: "'a option \<Rightarrow> device_error + 'a" where
  "required v = (case v of None \<Rightarrow> Inl InvalidTransition | Some x \<Rightarrow> Inr x)"

lemma required_simps [simp]:
  "required v = Inr x \<longleftrightarrow> v = Some x" "required (Some x) = Inr x" "required None = Inl InvalidTransition"
  by (simp_all add: required_def split: option.splits)

section \<open>Making a transition\<close>

definition unsigned_transition :: "device_operation \<Rightarrow> identity_id \<Rightarrow> string \<Rightarrow> revision \<Rightarrow> credential \<Rightarrow> string \<Rightarrow> transition" where
  "unsigned_transition op i operationId previous target epoch =
     \<lparr>tr_author = None, tr_compromisedCredentials = None, tr_compromisedSince = None, tr_epoch = epoch,
      tr_identityId = i, tr_operation = op, tr_operationId = operationId, tr_pairing = None,
      tr_previousRevision = previous, tr_proofOfPossession = None, tr_signature = None, tr_target = target\<rparr>"

definition enrollment :: "identity_id \<Rightarrow> string \<Rightarrow> revision \<Rightarrow> credential \<Rightarrow> credential \<Rightarrow> pairing \<Rightarrow> string
    \<Rightarrow> device_error + transition" where
  "enrollment i operationId previous author target p epoch =
     new_transition ((unsigned_transition ENROLL i operationId previous target epoch)
       \<lparr>tr_author := Some author, tr_pairing := Some p\<rparr>)"

definition revocation :: "identity_id \<Rightarrow> string \<Rightarrow> revision \<Rightarrow> credential \<Rightarrow> credential \<Rightarrow> string \<Rightarrow> revision option
    \<Rightarrow> device_error + transition" where
  "revocation i operationId previous author target epoch since =
     new_transition ((unsigned_transition REVOKE i operationId previous target epoch)
       \<lparr>tr_author := Some author, tr_compromisedSince := since\<rparr>)"

definition recovery :: "identity_id \<Rightarrow> string \<Rightarrow> revision \<Rightarrow> credential \<Rightarrow> string \<Rightarrow> compromised list option
    \<Rightarrow> device_error + transition" where
  "recovery i operationId previous target epoch es =
     new_transition ((unsigned_transition RECOVER i operationId previous target epoch)
       \<lparr>tr_compromisedCredentials := es\<rparr>)"

definition transition_authorize :: "string \<Rightarrow> transition \<Rightarrow> device_error + transition" where
  "transition_authorize signature t = new_transition (t\<lparr>tr_signature := Some signature\<rparr>)"

definition provePossession :: "string \<Rightarrow> transition \<Rightarrow> device_error + transition" where
  "provePossession p t =
     bindR (ensure (\<not> isRevocation t) InvalidTransition) (\<lambda>_. new_transition (t\<lparr>tr_proofOfPossession := Some p\<rparr>))"

definition authorizeRecovery :: "string \<Rightarrow> transition \<Rightarrow> device_error + transition" where
  "authorizeRecovery signature t =
     bindR (ensure (isRecovery t) InvalidTransition) (\<lambda>_. transition_authorize signature t)"

definition withTargetCredential :: "credential \<Rightarrow> transition \<Rightarrow> device_error + transition" where
  "withTargetCredential c t = new_transition (t\<lparr>tr_target := c\<rparr>)"

section \<open>Comparing transitions\<close>

definition hasSameEffectAs :: "transition \<Rightarrow> transition \<Rightarrow> bool" where
  "hasSameEffectAs t u \<longleftrightarrow>
     tr_operation t = tr_operation u \<and> tr_previousRevision t = tr_previousRevision u \<and>
     tr_target t = tr_target u \<and> tr_compromisedSince t = tr_compromisedSince u"

definition transition_replays :: "transition \<Rightarrow> transition \<Rightarrow> bool" where
  "transition_replays t u \<longleftrightarrow>
     tr_operationId t = tr_operationId u \<or>
     (case (tr_pairing t, tr_pairing u) of (Some p, Some q) \<Rightarrow> pr_id p = pr_id q | _ \<Rightarrow> False)"

section \<open>What is signed\<close>

definition MAX_PAYLOAD_LENGTH :: nat where "MAX_PAYLOAD_LENGTH = 4096"

text \<open>An object literal whose absent properties \<open>JSON.stringify\<close> leaves out.\<close>

definition present :: "(string \<times> json option) list \<Rightarrow> json" where
  "present kvs = JObject (List.map_filter (\<lambda>kv. map_option (\<lambda>v. (fst kv, v)) (snd kv)) kvs)"

definition compromised_json :: "compromised \<Rightarrow> json" where
  "compromised_json e =
     JObject [(''compromisedSince'', JInt (cc_since e)), (''credential'', JString (cc_credential e))]"

definition signed_preimage :: "lib \<Rightarrow> transition \<Rightarrow> device_error + json" where
  "signed_preimage L t =
     bindR (tr_getRevision t) (\<lambda>revision. Inr (present
       [(''authorCredential'', map_option JString (tr_author t)),
        (''authorizedAt'', map_option (\<lambda>p. JInt (pr_authorizedAt p)) (tr_pairing t)),
        (''compromisedCredentials'', map_option (\<lambda>es. JArray (map compromised_json es)) (tr_compromisedCredentials t)),
        (''compromisedSince'', map_option JInt (tr_compromisedSince t)),
        (''epoch'', Some (JString (tr_epoch t))), (''identityId'', Some (JString (tr_identityId t))),
        (''operation'', Some (JString (device_operation_value (tr_operation t)))),
        (''operationId'', Some (JString (tr_operationId t))),
        (''pairingExpiration'', map_option (\<lambda>p. JInt (pr_expiration p)) (tr_pairing t)),
        (''pairingId'', map_option (\<lambda>p. JString (pr_id p)) (tr_pairing t)),
        (''previousRevision'', Some (JInt (tr_previousRevision t))), (''revision'', Some (JInt revision)),
        (''targetCredential'', Some (JString (tr_target t))),
        (''targetCredentialCommitment'', Some (JString (lib_commitment L (tr_target t))))]))"

definition new_DevicePayload :: "lib \<Rightarrow> string \<Rightarrow> device_error + string" where
  "new_DevicePayload L s = device_value (lib_text L (Some MAX_PAYLOAD_LENGTH) s)"

definition getSigningPayload :: "lib \<Rightarrow> transition \<Rightarrow> device_error + string" where
  "getSigningPayload L t =
     bindR (signed_preimage L t) (\<lambda>preimage. new_DevicePayload L (json_text (present
       [(''domain'', Some (JString ''pigeon:device-authorization:transition:v3'')),
        (''proofOfPossession'', map_option JString (tr_proofOfPossession t)), (''transition'', Some preimage)])))"

definition getProofOfPossessionPayload :: "lib \<Rightarrow> transition \<Rightarrow> device_error + string" where
  "getProofOfPossessionPayload L t =
     bindR (signed_preimage L t) (\<lambda>preimage. new_DevicePayload L (json_text (present
       [(''domain'', Some (JString ''pigeon:device-authorization:proof-of-possession:v2'')),
        (''transition'', Some preimage)])))"

section \<open>The record of a transition\<close>

record transition_primitives =
  tp_authorizedAt :: "int option"
  tp_authorCredential :: "string option"
  tp_compromisedCredentials :: "(int \<times> string) list option"
  tp_compromisedSince :: "int option"
  tp_epoch :: string
  tp_identityId :: string
  tp_operation :: string
  tp_operationId :: string
  tp_pairingExpiration :: "int option"
  tp_pairingId :: "string option"
  tp_previousRevision :: int
  tp_proofOfPossession :: "string option"
  tp_revision :: int
  tp_signature :: string
  tp_targetCredential :: string
  tp_targetCredentialCommitment :: string

definition device_timestamp :: "lib \<Rightarrow> int \<Rightarrow> device_error + timestamp" where
  "device_timestamp L t = (if lib_timestamp L t then Inr t else Inl DeviceValueError)"

text \<open>\<open>text ? make(text) : undefined\<close>: the empty text counts as absent.\<close>

definition if_text :: "string option \<Rightarrow> (string \<Rightarrow> device_error + 'a) \<Rightarrow> device_error + 'a option" where
  "if_text v make_it =
     (case v of None \<Rightarrow> Inr None | Some s \<Rightarrow> if s = [] then Inr None else bindR (make_it s) (\<lambda>x. Inr (Some x)))"

definition revisionOrUndefined :: "int option \<Rightarrow> device_error + revision option" where
  "revisionOrUndefined v = (case v of None \<Rightarrow> Inr None | Some n \<Rightarrow> bindR (new_Revision n) (\<lambda>r. Inr (Some r)))"

definition compromisedCredentialsOrUndefined :: "lib \<Rightarrow> (int \<times> string) list option \<Rightarrow> device_error + compromised list option" where
  "compromisedCredentialsOrUndefined L v =
     (case v of
        None \<Rightarrow> Inr None
      | Some es \<Rightarrow> bindR (mapR (\<lambda>e. bindR (new_Revision (fst e)) (\<lambda>r. bindR (new_DeviceCredential L (snd e)) (\<lambda>c.
                     Inr \<lparr>cc_credential = c, cc_since = r\<rparr>))) es) (\<lambda>cs. Inr (Some cs)))"

definition pairing_of_primitives :: "lib \<Rightarrow> transition_primitives \<Rightarrow> device_error + pairing option" where
  "pairing_of_primitives L p =
     (case (tp_pairingId p, tp_pairingExpiration p, tp_authorizedAt p) of
        (Some i, Some expiration, Some authorizedAt) \<Rightarrow>
          if i = [] then Inr None
          else bindR (device_value (lib_uuid L i)) (\<lambda>i.
               bindR (device_timestamp L expiration) (\<lambda>expiration.
               bindR (device_timestamp L authorizedAt) (\<lambda>authorizedAt.
               bindR (new_Pairing i expiration authorizedAt) (\<lambda>pairing. Inr (Some pairing)))))
      | _ \<Rightarrow> Inr None)"

definition transition_fromPrimitives :: "lib \<Rightarrow> transition_primitives \<Rightarrow> device_error + transition" where
  "transition_fromPrimitives L p =
     bindR (new_DeviceOperation (tp_operation p)) (\<lambda>operation.
     bindR (if_text (tp_authorCredential p) (new_DeviceCredential L)) (\<lambda>author.
     bindR (compromisedCredentialsOrUndefined L (tp_compromisedCredentials p)) (\<lambda>es.
     bindR (revisionOrUndefined (tp_compromisedSince p)) (\<lambda>since.
     bindR (new_Epoch L (tp_epoch p)) (\<lambda>epoch.
     bindR (device_value (lib_identity L (tp_identityId p))) (\<lambda>identity.
     bindR (device_value (lib_uuid L (tp_operationId p))) (\<lambda>operationId.
     bindR (pairing_of_primitives L p) (\<lambda>pairing.
     bindR (new_Revision (tp_previousRevision p)) (\<lambda>previous.
     bindR (if_text (tp_proofOfPossession p) (device_value \<circ> lib_signature L)) (\<lambda>proof.
     bindR (device_value (lib_signature L (tp_signature p))) (\<lambda>signature.
     bindR (new_DeviceCredential L (tp_targetCredential p)) (\<lambda>target.
     bindR (new_transition \<lparr>tr_author = author, tr_compromisedCredentials = es, tr_compromisedSince = since,
              tr_epoch = epoch, tr_identityId = identity, tr_operation = operation, tr_operationId = operationId,
              tr_pairing = pairing, tr_previousRevision = previous, tr_proofOfPossession = proof,
              tr_signature = Some signature, tr_target = target\<rparr>) (\<lambda>t.
     bindR (tr_getRevision t) (\<lambda>revision.
     bindR (ensure (revision = tp_revision p \<and> lib_commitment L (tr_target t) = tp_targetCredentialCommitment p \<and>
              hasValidProofShape t) InvalidTransition) (\<lambda>_. Inr t)))))))))))))))"

definition transition_toPrimitives :: "lib \<Rightarrow> transition \<Rightarrow> device_error + transition_primitives" where
  "transition_toPrimitives L t =
     bindR (tr_getRevision t) (\<lambda>revision.
     bindR (required (tr_signature t)) (\<lambda>signature.
       Inr \<lparr>tp_authorizedAt = map_option pr_authorizedAt (tr_pairing t), tp_authorCredential = tr_author t,
            tp_compromisedCredentials = map_option (map (\<lambda>e. (cc_since e, cc_credential e))) (tr_compromisedCredentials t),
            tp_compromisedSince = tr_compromisedSince t, tp_epoch = tr_epoch t, tp_identityId = tr_identityId t,
            tp_operation = device_operation_value (tr_operation t), tp_operationId = tr_operationId t,
            tp_pairingExpiration = map_option pr_expiration (tr_pairing t),
            tp_pairingId = map_option pr_id (tr_pairing t), tp_previousRevision = tr_previousRevision t,
            tp_proofOfPossession = tr_proofOfPossession t, tp_revision = revision, tp_signature = signature,
            tp_targetCredential = tr_target t, tp_targetCredentialCommitment = lib_commitment L (tr_target t)\<rparr>))"

end
