(* ===== verification/DeviceAuthorizations.thy ===== *)
theory DeviceAuthorizations
  imports DeviceTransitions
begin

text \<open>
  The devices of an identity (\<open>DeviceAuthorization.ts\<close>), the caps on compromised credentials
  (\<open>DeviceCompromiseCaps.ts\<close>) and the timeline of the states an identity went through
  (\<open>DeviceAuthorizationTimeline.ts\<close>). The invariant of an authorization, and what the caps and the
  timeline say of a credential at a revision.
\<close>

section \<open>The aggregate\<close>

record device_event_attributes =
  de_epoch :: string
  de_identityId :: identity_id
  de_revision :: revision

datatype device_event =
    DeviceCredentialWasEnrolledEvent device_event_attributes
  | DeviceCredentialWasRevokedEvent device_event_attributes
  | DeviceCredentialWasCompromisedEvent device_event_attributes revision
  | DeviceAuthorizationWasRecoveredEvent device_event_attributes

record device_authorization =
  da_identityId :: identity_id
  da_networkIds :: "network_id list"
  da_recoveryAuthority :: credential
  da_revision :: revision
  da_epoch :: string
  da_credentials :: "credential list"
  da_events :: "device_event list"

definition isIndependentFrom :: "credential \<Rightarrow> credential list \<Rightarrow> bool" where
  "isIndependentFrom authority keys \<longleftrightarrow> list_all (\<lambda>key. authority \<noteq> key) keys"

text \<open>The arrays are \<open>UniqueObjectArray\<close> already.\<close>

definition new_DeviceAuthorization :: "lib \<Rightarrow> identity_id \<Rightarrow> network_id list \<Rightarrow> credential \<Rightarrow> revision \<Rightarrow> string
    \<Rightarrow> credential list \<Rightarrow> device_error + device_authorization" where
  "new_DeviceAuthorization L identity networks authority revision epoch credentials =
     bindR (ensure (length networks > 0) InvalidTransition) (\<lambda>_.
     bindR (ensure (length credentials \<le> MAX_DEVICE_CREDENTIALS) InvalidTransition) (\<lambda>_.
     bindR (credential_fromIdentityId L identity) (\<lambda>own.
     bindR (ensure (isIndependentFrom authority (own # credentials)) InvalidTransition) (\<lambda>_.
       Inr \<lparr>da_identityId = identity, da_networkIds = networks, da_recoveryAuthority = authority,
            da_revision = revision, da_epoch = epoch, da_credentials = credentials, da_events = []\<rparr>))))"

definition device_eventAttributes :: "device_authorization \<Rightarrow> device_event_attributes" where
  "device_eventAttributes a =
     \<lparr>de_epoch = da_epoch a, de_identityId = da_identityId a, de_revision = da_revision a\<rparr>"

definition device_record :: "(device_event_attributes \<Rightarrow> device_event) \<Rightarrow> device_authorization \<Rightarrow> device_authorization" where
  "device_record make_event a = a\<lparr>da_events := da_events a @ [make_event (device_eventAttributes a)]\<rparr>"

definition device_genesis :: "lib \<Rightarrow> identity_id \<Rightarrow> network_id list \<Rightarrow> credential \<Rightarrow> credential
    \<Rightarrow> device_error + device_authorization" where
  "device_genesis L identity networks credential authority =
     new_DeviceAuthorization L identity (lib_unique L networks) authority 0 epoch_genesis (lib_unique L [credential])"

definition isAuthorized :: "device_authorization \<Rightarrow> credential \<Rightarrow> bool" where
  "isAuthorized a c \<longleftrightarrow> list_ex (\<lambda>authorized. authorized = c) (da_credentials a)"

text \<open>The next authorization of an identity: all but the revision, the epoch and the credentials stay.\<close>

definition next_authorization :: "lib \<Rightarrow> device_authorization \<Rightarrow> revision \<Rightarrow> string \<Rightarrow> credential list
    \<Rightarrow> device_error + device_authorization" where
  "next_authorization L a revision epoch credentials =
     new_DeviceAuthorization L (da_identityId a) (da_networkIds a) (da_recoveryAuthority a) revision epoch
       (lib_unique L credentials)"

definition device_enroll :: "lib \<Rightarrow> credential \<Rightarrow> device_authorization \<Rightarrow> device_error + device_authorization" where
  "device_enroll L c a =
     bindR (ensure (\<not> isAuthorized a c) InvalidTransition) (\<lambda>_.
     bindR (revision_next (da_revision a)) (\<lambda>revision.
     bindR (next_authorization L a revision (da_epoch a) (da_credentials a @ [c])) (\<lambda>n.
       Inr (device_record DeviceCredentialWasEnrolledEvent n))))"

definition new_credentials :: "lib \<Rightarrow> credential list \<Rightarrow> device_authorization \<Rightarrow> credential list" where
  "new_credentials L cs a =
     take (MAX_DEVICE_CREDENTIALS - length (da_credentials a))
       (sort (filter (\<lambda>c. \<not> isAuthorized a c) (lib_unique L cs)))"

definition enrollConcurrently :: "lib \<Rightarrow> credential list \<Rightarrow> device_authorization \<Rightarrow> device_error + device_authorization" where
  "enrollConcurrently L cs a =
     bindR (ensure (length (new_credentials L cs a) > 0) InvalidTransition) (\<lambda>_.
     bindR (revision_next (da_revision a)) (\<lambda>revision.
     bindR (next_authorization L a revision (da_epoch a) (da_credentials a @ new_credentials L cs a)) (\<lambda>n.
       Inr (device_record DeviceCredentialWasEnrolledEvent n))))"

definition device_revoke :: "lib \<Rightarrow> credential \<Rightarrow> revision option \<Rightarrow> device_authorization \<Rightarrow> device_error + device_authorization" where
  "device_revoke L c since a =
     bindR (ensure (isAuthorized a c \<and> length (da_credentials a) > 1) InvalidTransition) (\<lambda>_.
     bindR (revision_next (da_revision a)) (\<lambda>revision.
     bindR (next_authorization L a revision (da_epoch a) (filter (\<lambda>x. x \<noteq> c) (da_credentials a))) (\<lambda>n.
       let m = device_record DeviceCredentialWasRevokedEvent n in
       Inr (case since of None \<Rightarrow> m
            | Some r \<Rightarrow> device_record (\<lambda>e. DeviceCredentialWasCompromisedEvent e r) m))))"

text \<open>When every device is revoked at once, the first by code units stays.\<close>

definition survivors :: "credential list \<Rightarrow> device_authorization \<Rightarrow> credential list" where
  "survivors revoked a =
     (let remaining = filter (\<lambda>x. list_all (\<lambda>r. x \<noteq> r) revoked) (da_credentials a) in
      if length remaining > 0 then remaining else [hd (sort (da_credentials a))])"

definition revokeConcurrently :: "lib \<Rightarrow> credential list \<Rightarrow> device_authorization \<Rightarrow> device_error + device_authorization" where
  "revokeConcurrently L cs a =
     (let revoked = filter (isAuthorized a) cs in
      bindR (ensure (length revoked > 0) InvalidTransition) (\<lambda>_.
      bindR (revision_next (da_revision a)) (\<lambda>revision.
      bindR (next_authorization L a revision (da_epoch a) (survivors revoked a)) (\<lambda>n.
        Inr (device_record DeviceCredentialWasRevokedEvent n)))))"

definition device_recover :: "lib \<Rightarrow> credential \<Rightarrow> string \<Rightarrow> device_authorization \<Rightarrow> device_error + device_authorization" where
  "device_recover L c epoch a =
     bindR (revision_next (da_revision a)) (\<lambda>revision.
     bindR (next_authorization L a revision epoch [c]) (\<lambda>n.
       Inr (device_record DeviceAuthorizationWasRecoveredEvent n)))"

definition recoverAt :: "lib \<Rightarrow> revision \<Rightarrow> credential \<Rightarrow> string \<Rightarrow> device_authorization \<Rightarrow> device_error + device_authorization" where
  "recoverAt L revision c epoch a =
     bindR (ensure (revision > da_revision a) InvalidTransition) (\<lambda>_.
     bindR (next_authorization L a revision epoch [c]) (\<lambda>n.
       Inr (device_record DeviceAuthorizationWasRecoveredEvent n)))"

definition requireRecoveryAt :: "lib \<Rightarrow> revision \<Rightarrow> device_authorization \<Rightarrow> device_error + device_authorization" where
  "requireRecoveryAt L revision a =
     bindR (ensure (revision > da_revision a) InvalidTransition) (\<lambda>_.
       next_authorization L a revision (da_epoch a) [])"

section \<open>Caps on compromised credentials\<close>

type_synonym caps = "compromised list"

definition carriedBy :: "transition \<Rightarrow> caps" where
  "carriedBy t = getCompromisedCredentials t"

definition cap_of :: "caps \<Rightarrow> credential \<Rightarrow> compromised option" where
  "cap_of caps c = find (\<lambda>e. cc_credential e = c) caps"

text \<open>The caps are objects: the one found is replaced, wherever it stands.\<close>

definition tighten :: "compromised \<Rightarrow> caps \<Rightarrow> caps" where
  "tighten e caps =
     (case cap_of caps (cc_credential e) of
        None \<Rightarrow> caps @ [e]
      | Some old \<Rightarrow> if \<not> cc_since old > cc_since e then caps
                    else update_first (\<lambda>x. cc_credential x = cc_credential e) (\<lambda>_. e) caps)"

definition withCompromise :: "transition \<Rightarrow> caps \<Rightarrow> caps" where
  "withCompromise t caps =
     (let carried = fold tighten (getCompromisedCredentials t) caps in
      case tr_compromisedSince t of
        Some r \<Rightarrow> if isRevocation t then tighten \<lparr>cc_credential = tr_target t, cc_since = r\<rparr> carried else carried
      | None \<Rightarrow> carried)"

definition isCompromisedAt :: "caps \<Rightarrow> credential \<Rightarrow> revision \<Rightarrow> bool" where
  "isCompromisedAt caps c r \<longleftrightarrow> (case cap_of caps c of None \<Rightarrow> False | Some e \<Rightarrow> r \<ge> cc_since e)"

definition isNotLoosenedBy :: "caps \<Rightarrow> caps \<Rightarrow> bool" where
  "isNotLoosenedBy caps nxt \<longleftrightarrow> list_all (\<lambda>e. isCompromisedAt nxt (cc_credential e) (cc_since e)) caps"

definition isCarriedBy :: "caps \<Rightarrow> transition \<Rightarrow> bool" where
  "isCarriedBy caps t \<longleftrightarrow>
     (let carried = getCompromisedCredentials t in
      length carried = length caps \<and>
      list_all (\<lambda>e. list_ex (\<lambda>x. cc_credential x = cc_credential e \<and> cc_since x = cc_since e) caps) carried)"

section \<open>The timeline\<close>

record timeline =
  tl_states :: "device_authorization list"
  tl_caps :: caps

definition new_timeline :: "device_authorization list \<Rightarrow> caps \<Rightarrow> timeline" where
  "new_timeline states caps = \<lparr>tl_states = sort_key da_revision states, tl_caps = caps\<rparr>"

definition hasReached :: "timeline \<Rightarrow> revision \<Rightarrow> bool" where
  "hasReached line r \<longleftrightarrow> (tl_states line \<noteq> [] \<and> \<not> r > da_revision (last (tl_states line)))"

definition findLast :: "('a \<Rightarrow> bool) \<Rightarrow> 'a list \<Rightarrow> 'a option" where
  "findLast p xs = find p (rev xs)"

definition isAuthorizedAt :: "timeline \<Rightarrow> credential \<Rightarrow> revision \<Rightarrow> bool" where
  "isAuthorizedAt line c r \<longleftrightarrow>
     (if \<not> hasReached line r then False
      else if isCompromisedAt (tl_caps line) c r then False
      else case findLast (\<lambda>a. \<not> da_revision a > r) (tl_states line) of
             None \<Rightarrow> False | Some a \<Rightarrow> isAuthorized a c)"

section \<open>The invariant of an authorization\<close>

definition authorization_ok :: "lib \<Rightarrow> device_authorization \<Rightarrow> bool" where
  "authorization_ok L a \<longleftrightarrow>
     da_networkIds a \<noteq> [] \<and> distinct (da_credentials a) \<and> length (da_credentials a) \<le> MAX_DEVICE_CREDENTIALS \<and>
     da_recoveryAuthority a \<notin> set (da_credentials a) \<and>
     (\<exists>own. credential_fromIdentityId L (da_identityId a) = Inr own \<and> da_recoveryAuthority a \<noteq> own) \<and>
     safe_integer (da_revision a) \<and> 0 \<le> da_revision a"

text \<open>What every change of an authorization keeps.\<close>

definition same_owner :: "device_authorization \<Rightarrow> device_authorization \<Rightarrow> bool" where
  "same_owner a b \<longleftrightarrow>
     da_identityId a = da_identityId b \<and> da_networkIds a = da_networkIds b \<and>
     da_recoveryAuthority a = da_recoveryAuthority b"

lemma isAuthorized_iff [simp]: "isAuthorized a c \<longleftrightarrow> c \<in> set (da_credentials a)"
  by (auto simp: isAuthorized_def list_ex_iff)

lemma revision_next_Inr [simp]: "revision_next r = Inr n \<longleftrightarrow> n = r + 1 \<and> safe_integer n \<and> 0 \<le> n"
  by (auto simp: revision_next_def new_Revision_def)

lemma device_record_simps [simp]:
  "da_identityId (device_record f a) = da_identityId a" "da_networkIds (device_record f a) = da_networkIds a"
  "da_recoveryAuthority (device_record f a) = da_recoveryAuthority a" "da_revision (device_record f a) = da_revision a"
  "da_epoch (device_record f a) = da_epoch a" "da_credentials (device_record f a) = da_credentials a"
  by (simp_all add: device_record_def)

lemma authorization_ok_record [simp]: "authorization_ok L (device_record f a) = authorization_ok L a"
  by (simp add: authorization_ok_def)

lemma same_owner_record [simp]: "same_owner a (device_record f b) = same_owner a b"
  by (simp add: same_owner_def)

lemma same_owner_refl [simp]: "same_owner a a"
  by (simp add: same_owner_def)

lemma same_owner_trans: "same_owner a b \<Longrightarrow> same_owner b c \<Longrightarrow> same_owner a c"
  by (simp add: same_owner_def)

lemma unique_array [simp]:
  "lib_ok L \<Longrightarrow> distinct (lib_unique L xs)" "lib_ok L \<Longrightarrow> set (lib_unique L xs) = set xs"
  "lib_ok L \<Longrightarrow> distinct xs \<Longrightarrow> lib_unique L xs = xs"
  by (simp_all add: lib_ok_def)

text \<open>When the constructor accepts the next state, and what it is.\<close>

lemma next_authorization_Inr:
  assumes L: "lib_ok L" and ok: "authorization_ok L a"
  shows "next_authorization L a r e cs = Inr b \<longleftrightarrow>
    length (lib_unique L cs) \<le> MAX_DEVICE_CREDENTIALS \<and> da_recoveryAuthority a \<notin> set cs \<and>
    b = \<lparr>da_identityId = da_identityId a, da_networkIds = da_networkIds a, da_recoveryAuthority = da_recoveryAuthority a,
         da_revision = r, da_epoch = e, da_credentials = lib_unique L cs, da_events = []\<rparr>"
  using ok L by (auto simp: next_authorization_def new_DeviceAuthorization_def authorization_ok_def isIndependentFrom_def
      list_all_iff)

lemma next_authorization_ok:
  assumes "lib_ok L" and "authorization_ok L a" and "next_authorization L a r e cs = Inr b" and "safe_integer r" and "0 \<le> r"
  shows "authorization_ok L b" and "same_owner a b" and "set (da_credentials b) = set cs" and "da_revision b = r"
    and "da_epoch b = e"
  using assms by (auto simp: next_authorization_Inr authorization_ok_def same_owner_def)

section \<open>What each change does\<close>

lemma device_enroll_Inr:
  assumes "lib_ok L" and ok: "authorization_ok L a" and "device_enroll L c a = Inr b"
  shows "authorization_ok L b" and "same_owner a b" and "da_revision b = da_revision a + 1" and "da_epoch b = da_epoch a"
    and "set (da_credentials b) = insert c (set (da_credentials a))" and "c \<notin> set (da_credentials a)"
    and "c \<noteq> da_recoveryAuthority a" and "length (da_credentials a) < MAX_DEVICE_CREDENTIALS"
    and "safe_integer (da_revision a + 1)"
proof -
  from assms(3) obtain n where n: "c \<notin> set (da_credentials a)" "safe_integer (da_revision a + 1)" "0 \<le> da_revision a + 1"
    "next_authorization L a (da_revision a + 1) (da_epoch a) (da_credentials a @ [c]) = Inr n"
    "b = device_record DeviceCredentialWasEnrolledEvent n" by (auto simp: device_enroll_def)
  note next_ok = next_authorization_ok [OF assms(1) ok n(4,2,3)]
  show "authorization_ok L b" "same_owner a b" "da_revision b = da_revision a + 1" "da_epoch b = da_epoch a"
    "set (da_credentials b) = insert c (set (da_credentials a))" using next_ok by (simp_all add: n(5))
  show "c \<notin> set (da_credentials a)" "safe_integer (da_revision a + 1)" using n(1,2) by simp_all
  have "distinct (da_credentials a @ [c])" using ok n(1) by (simp add: authorization_ok_def)
  then show "length (da_credentials a) < MAX_DEVICE_CREDENTIALS" "c \<noteq> da_recoveryAuthority a"
    using n(4) assms(1) by (auto simp: next_authorization_Inr [OF assms(1) ok])
qed

lemma device_revoke_Inr:
  assumes "lib_ok L" and ok: "authorization_ok L a" and "device_revoke L c since a = Inr b"
  shows "authorization_ok L b" and "same_owner a b" and "da_revision b = da_revision a + 1" and "da_epoch b = da_epoch a"
    and "set (da_credentials b) = set (da_credentials a) - {c}" and "c \<in> set (da_credentials a)"
    and "1 < length (da_credentials a)" and "safe_integer (da_revision a + 1)"
proof -
  from assms(3) obtain n where n: "c \<in> set (da_credentials a)" "1 < length (da_credentials a)"
    "safe_integer (da_revision a + 1)" "0 \<le> da_revision a + 1"
    "next_authorization L a (da_revision a + 1) (da_epoch a) (filter (\<lambda>x. x \<noteq> c) (da_credentials a)) = Inr n"
    "b = (case since of None \<Rightarrow> device_record DeviceCredentialWasRevokedEvent n
          | Some r \<Rightarrow> device_record (\<lambda>e. DeviceCredentialWasCompromisedEvent e r) (device_record DeviceCredentialWasRevokedEvent n))"
    by (auto simp: device_revoke_def Let_def)
  note next_ok = next_authorization_ok [OF assms(1) ok n(5,3,4)]
  have b: "authorization_ok L b = authorization_ok L n" "same_owner a b = same_owner a n" "da_revision b = da_revision n"
    "da_epoch b = da_epoch n" "da_credentials b = da_credentials n"
    by (simp_all add: n(6) split: option.splits)
  show "authorization_ok L b" "same_owner a b" "da_revision b = da_revision a + 1" "da_epoch b = da_epoch a"
    "set (da_credentials b) = set (da_credentials a) - {c}" using next_ok unfolding b by auto
  show "c \<in> set (da_credentials a)" "1 < length (da_credentials a)" "safe_integer (da_revision a + 1)" using n(1-3) by simp_all
qed

lemma recovered_Inr:
  assumes "lib_ok L" and ok: "authorization_ok L a" and r: "safe_integer r" "0 \<le> r"
    and "bindR (next_authorization L a r epoch [c]) (\<lambda>n. Inr (device_record DeviceAuthorizationWasRecoveredEvent n)) = Inr b"
  shows "authorization_ok L b \<and> same_owner a b \<and> da_revision b = r \<and> da_epoch b = epoch \<and> set (da_credentials b) = {c}"
proof -
  from assms(5) obtain n where n: "next_authorization L a r epoch [c] = Inr n"
    "b = device_record DeviceAuthorizationWasRecoveredEvent n" by auto
  from next_authorization_ok [OF assms(1) ok n(1) r] show ?thesis by (simp add: n(2))
qed

lemma device_recover_Inr:
  assumes "lib_ok L" and ok: "authorization_ok L a" and "device_recover L c epoch a = Inr b"
  shows "authorization_ok L b \<and> same_owner a b \<and> da_revision b = da_revision a + 1 \<and> da_epoch b = epoch \<and>
    set (da_credentials b) = {c} \<and> safe_integer (da_revision a + 1)"
proof -
  from assms(3) have s: "safe_integer (da_revision a + 1)" "0 \<le> da_revision a + 1"
    and "bindR (next_authorization L a (da_revision a + 1) epoch [c])
        (\<lambda>n. Inr (device_record DeviceAuthorizationWasRecoveredEvent n)) = Inr b"
    by (auto simp: device_recover_def)
  from recovered_Inr [OF assms(1) ok this] s(1) show ?thesis by simp
qed

lemma recoverAt_Inr:
  assumes "lib_ok L" and "authorization_ok L a" and "recoverAt L r c epoch a = Inr b" and "safe_integer r" and "0 \<le> r"
  shows "authorization_ok L b \<and> same_owner a b \<and> da_revision b = r \<and> da_epoch b = epoch \<and> set (da_credentials b) = {c} \<and>
    da_revision a < r"
  using assms(3) recovered_Inr [OF assms(1,2,4,5)] by (auto simp: recoverAt_def)

text \<open>Changes made at once return when each of them alone does.\<close>

lemma new_credentials_spec:
  assumes "lib_ok L"
  shows "distinct (new_credentials L cs a)" and "set (new_credentials L cs a) \<subseteq> set cs - set (da_credentials a)"
    and "length (new_credentials L cs a) \<le> MAX_DEVICE_CREDENTIALS - length (da_credentials a)"
  using assms by (auto simp: new_credentials_def dest: in_set_takeD)

lemma enrollConcurrently_Inr:
  assumes L: "lib_ok L" and ok: "authorization_ok L a" and cs: "cs \<noteq> []"
    and each: "\<forall>c \<in> set cs. \<exists>b. device_enroll L c a = Inr b"
  obtains b where "enrollConcurrently L cs a = Inr b" "authorization_ok L b" "same_owner a b"
    "da_revision b = da_revision a + 1" "da_epoch b = da_epoch a"
    "set (da_credentials a) \<subseteq> set (da_credentials b)" "set (da_credentials b) \<subseteq> set (da_credentials a) \<union> set cs"
proof -
  obtain c where c: "c \<in> set cs" using cs by (cases cs) auto
  then obtain b where b: "device_enroll L c a = Inr b" using each by blast
  note one = device_enroll_Inr [OF L ok b]
  let ?new = "new_credentials L cs a"
  note new = new_credentials_spec [OF L, of cs a]
  have "filter (\<lambda>c. \<not> isAuthorized a c) (lib_unique L cs) \<noteq> []"
    using c one(6) L by (auto simp: filter_empty_conv)
  then have pos: "length ?new > 0" using one(8) by (auto simp: new_credentials_def)
  have "da_recoveryAuthority a \<notin> set cs"
    using each device_enroll_Inr(7) [OF L ok] by blast
  then have fresh: "da_recoveryAuthority a \<notin> set (da_credentials a @ ?new)"
    using new(2) ok by (auto simp: authorization_ok_def)
  have d: "distinct (da_credentials a @ ?new)" using new(1,2) ok by (auto simp: authorization_ok_def)
  have len: "length (lib_unique L (da_credentials a @ ?new)) \<le> MAX_DEVICE_CREDENTIALS"
    unfolding unique_array(3) [OF L d] using new(3) one(8) by simp
  obtain n where n: "next_authorization L a (da_revision a + 1) (da_epoch a) (da_credentials a @ ?new) = Inr n"
    using next_authorization_Inr [OF L ok] len fresh by blast
  have r: "safe_integer (da_revision a + 1)" "0 \<le> da_revision a + 1" using one(9) ok by (simp_all add: authorization_ok_def)
  have "revision_next (da_revision a) = Inr (da_revision a + 1)" using r by simp
  then have "enrollConcurrently L cs a = Inr (device_record DeviceCredentialWasEnrolledEvent n)"
    using pos n by (simp add: enrollConcurrently_def)
  then show ?thesis using that next_authorization_ok [OF L ok n r] new(2) by auto
qed

lemma survivors_spec:
  assumes "da_credentials a \<noteq> []"
  shows "set (survivors revoked a) \<subseteq> set (da_credentials a)" and "survivors revoked a \<noteq> []"
proof -
  have "sort (da_credentials a) \<noteq> []" using assms by (metis length_0_conv length_sort)
  then have "hd (sort (da_credentials a)) \<in> set (da_credentials a)" using hd_in_set set_sort by metis
  then show "set (survivors revoked a) \<subseteq> set (da_credentials a)" "survivors revoked a \<noteq> []"
    by (auto simp: survivors_def Let_def)
qed

lemma revokeConcurrently_Inr:
  assumes L: "lib_ok L" and ok: "authorization_ok L a" and cs: "cs \<noteq> []"
    and each: "\<forall>c \<in> set cs. \<exists>since b. device_revoke L c since a = Inr b"
  obtains b where "revokeConcurrently L cs a = Inr b" "authorization_ok L b" "same_owner a b"
    "da_revision b = da_revision a + 1" "da_epoch b = da_epoch a"
    "set (da_credentials b) = set (survivors cs a)" "set (da_credentials b) \<subseteq> set (da_credentials a)"
proof -
  obtain c where c: "c \<in> set cs" using cs by (cases cs) auto
  then obtain since b where b: "device_revoke L c since a = Inr b" using each by blast
  note one = device_revoke_Inr [OF L ok b]
  have "\<forall>c \<in> set cs. c \<in> set (da_credentials a)" using each device_revoke_Inr(6) [OF L ok] by blast
  then have all: "filter (isAuthorized a) cs = cs" by (simp add: filter_id_conv)
  have ne: "da_credentials a \<noteq> []" using one(6) by auto
  note sv = survivors_spec [OF ne, of cs]
  have len: "length (lib_unique L (survivors cs a)) \<le> MAX_DEVICE_CREDENTIALS"
  proof -
    have "length (lib_unique L (survivors cs a)) = card (set (survivors cs a))"
      using L distinct_card [of "lib_unique L (survivors cs a)"] by simp
    also have "\<dots> \<le> card (set (da_credentials a))" using sv(1) by (intro card_mono) auto
    also have "\<dots> \<le> length (da_credentials a)" by (rule card_length)
    finally show ?thesis using ok by (simp add: authorization_ok_def)
  qed
  have fresh: "da_recoveryAuthority a \<notin> set (survivors cs a)" using sv(1) ok by (auto simp: authorization_ok_def)
  obtain n where n: "next_authorization L a (da_revision a + 1) (da_epoch a) (survivors cs a) = Inr n"
    using next_authorization_Inr [OF L ok] len fresh by blast
  have r: "safe_integer (da_revision a + 1)" "0 \<le> da_revision a + 1" using one(8) ok by (simp_all add: authorization_ok_def)
  have "revision_next (da_revision a) = Inr (da_revision a + 1)" using r by simp
  then have "revokeConcurrently L cs a = Inr (device_record DeviceCredentialWasRevokedEvent n)"
    using cs n all by (simp add: revokeConcurrently_def Let_def)
  then show ?thesis using that next_authorization_ok [OF L ok n r] sv(1) by auto
qed

section \<open>What the caps refuse\<close>

lemma find_update_first_same:
  assumes "find p xs = Some x" and "\<And>y. p y \<Longrightarrow> p (f y)"
  shows "find p (update_first p f xs) = Some (f x)"
  using assms by (induction xs) (auto split: if_splits)

lemma find_updated_elsewhere:
  assumes "\<And>y. p y \<Longrightarrow> \<not> q y \<and> \<not> q (f y)"
  shows "find q (update_first p f xs) = find q xs"
  using assms by (induction xs) auto

lemma find_append: "find p (xs @ ys) = (case find p xs of None \<Rightarrow> find p ys | Some x \<Rightarrow> Some x)"
  by (induction xs) auto

lemma cap_of_credential: "cap_of caps c = Some e \<Longrightarrow> e \<in> set caps \<and> cc_credential e = c"
  unfolding cap_of_def by (drule find_Some_iff') simp

lemma cap_of_tighten_same:
  "cap_of (tighten e caps) (cc_credential e) =
     (case cap_of caps (cc_credential e) of None \<Rightarrow> Some e | Some old \<Rightarrow> Some (if cc_since old > cc_since e then e else old))"
proof (cases "cap_of caps (cc_credential e)")
  case None
  then show ?thesis by (simp add: tighten_def cap_of_def find_append)
next
  case (Some old)
  have "cap_of (update_first (\<lambda>x. cc_credential x = cc_credential e) (\<lambda>_. e) caps) (cc_credential e) = Some e"
    unfolding cap_of_def by (rule find_update_first_same [OF Some [unfolded cap_of_def]]) simp
  then show ?thesis using Some by (simp add: tighten_def)
qed

lemma cap_of_tighten_other:
  assumes "c \<noteq> cc_credential e"
  shows "cap_of (tighten e caps) c = cap_of caps c"
proof (cases "cap_of caps (cc_credential e)")
  case None
  then show ?thesis using assms by (simp add: tighten_def cap_of_def find_append split: option.splits)
next
  case (Some old)
  have "cap_of (update_first (\<lambda>x. cc_credential x = cc_credential e) (\<lambda>_. e) caps) c = cap_of caps c"
    unfolding cap_of_def using assms by (intro find_updated_elsewhere) auto
  then show ?thesis using Some by (simp add: tighten_def)
qed

lemma isCompromisedAt_tighten [simp]:
  "isCompromisedAt (tighten e caps) c r \<longleftrightarrow> isCompromisedAt caps c r \<or> (c = cc_credential e \<and> cc_since e \<le> r)"
proof (cases "c = cc_credential e")
  case True
  then show ?thesis by (auto simp: isCompromisedAt_def cap_of_tighten_same split: option.splits)
next
  case False
  then show ?thesis by (simp add: isCompromisedAt_def cap_of_tighten_other)
qed

text \<open>The caps a transition names.\<close>

definition compromises :: "transition \<Rightarrow> credential \<Rightarrow> revision \<Rightarrow> bool" where
  "compromises t c r \<longleftrightarrow>
     (\<exists>e \<in> set (getCompromisedCredentials t). cc_credential e = c \<and> cc_since e \<le> r) \<or>
     (isRevocation t \<and> tr_target t = c \<and> (\<exists>since. tr_compromisedSince t = Some since \<and> since \<le> r))"

lemma isCompromisedAt_fold:
  "isCompromisedAt (fold tighten es caps) c r \<longleftrightarrow>
     isCompromisedAt caps c r \<or> (\<exists>e \<in> set es. cc_credential e = c \<and> cc_since e \<le> r)"
  by (induction es arbitrary: caps) auto

lemma isCompromisedAt_withCompromise [simp]:
  "isCompromisedAt (withCompromise t caps) c r \<longleftrightarrow> isCompromisedAt caps c r \<or> compromises t c r"
  by (auto simp: withCompromise_def Let_def isCompromisedAt_fold compromises_def split: option.splits)

lemma isCompromisedAt_all:
  "isCompromisedAt (fold withCompromise ts caps) c r \<longleftrightarrow> isCompromisedAt caps c r \<or> (\<exists>t \<in> set ts. compromises t c r)"
  by (induction ts arbitrary: caps) auto

lemma isCompromisedAt_later: "isCompromisedAt caps c r \<Longrightarrow> r \<le> r' \<Longrightarrow> isCompromisedAt caps c r'"
  by (auto simp: isCompromisedAt_def split: option.splits)

lemma not_loosened:
  assumes "isNotLoosenedBy caps nxt" and "isCompromisedAt caps c r"
  shows "isCompromisedAt nxt c r"
proof -
  from assms(2) obtain e where e: "cap_of caps c = Some e" "cc_since e \<le> r"
    by (auto simp: isCompromisedAt_def split: option.splits)
  from cap_of_credential [OF e(1)] have "isCompromisedAt nxt c (cc_since e)" using assms(1) by (auto simp: isNotLoosenedBy_def list_all_iff)
  then show ?thesis using e(2) isCompromisedAt_later by blast
qed

end
