(* ===== verification/DeviceReplay.thy ===== *)
theory DeviceReplay
  imports DeviceAuthorizations "HOL-Library.Product_Lexorder"
begin

text \<open>
  The policy of the transitions of devices (\<open>DeviceAuthorizationPolicy.ts\<close> under
  \<open>src/contexts/identity-devices/domain/services\<close>): when one transition applies, the replay of a
  set of them with its checkpoints, and the lineage of recoveries. The replay never fails and does
  not depend on the order of its candidates; a credential it authorizes was authorized before or
  was let in by a signature; the caps of a lineage are never loosened.
\<close>

section \<open>One transition\<close>

definition signedBy_key :: "lib \<Rightarrow> credential \<Rightarrow> device_error + string \<Rightarrow> device_error + string \<Rightarrow> device_error + bool" where
  "signedBy_key L key payload signature =
     bindR payload (\<lambda>content. bindR signature (\<lambda>s. Inr (lib_verify L key content s)))"

definition verifyCommon :: "device_authorization \<Rightarrow> transition \<Rightarrow> device_error + unit" where
  "verifyCommon a t =
     bindR (ensure (da_identityId a = tr_identityId t \<and> da_epoch a = tr_epoch t) InvalidTransition) (\<lambda>_.
       if da_revision a \<noteq> tr_previousRevision t then Inl InvalidTransition
       else bindR (tr_getRevision t) (\<lambda>r. bindR (immediatelyFollows r (da_revision a)) (\<lambda>b. ensure b InvalidTransition)))"

definition verifyTargetProof :: "lib \<Rightarrow> transition \<Rightarrow> device_error + unit" where
  "verifyTargetProof L t =
     bindR (signedBy_key L (tr_target t) (getProofOfPossessionPayload L t) (required (tr_proofOfPossession t)))
       (\<lambda>b. ensure b InvalidTransition)"

definition verifyDeviceAuthor :: "lib \<Rightarrow> device_authorization \<Rightarrow> transition \<Rightarrow> device_error + unit" where
  "verifyDeviceAuthor L a t =
     bindR (required (tr_author t)) (\<lambda>author.
       if \<not> isAuthorized a author then Inl InvalidTransition
       else bindR (signedBy_key L author (getSigningPayload L t) (required (tr_signature t)))
              (\<lambda>b. ensure b InvalidTransition))"

definition verifyRecoveryAuthority :: "lib \<Rightarrow> device_authorization \<Rightarrow> transition \<Rightarrow> device_error + unit" where
  "verifyRecoveryAuthority L a t =
     bindR (signedBy_key L (da_recoveryAuthority a) (getSigningPayload L t) (required (tr_signature t)))
       (\<lambda>b. ensure b InvalidTransition)"

definition policy_enroll :: "lib \<Rightarrow> device_authorization \<Rightarrow> transition \<Rightarrow> device_error + device_authorization" where
  "policy_enroll L a t =
     bindR (verifyDeviceAuthor L a t) (\<lambda>_.
     bindR (verifyTargetProof L t) (\<lambda>_.
     bindR (required (tr_pairing t)) (\<lambda>_.
       device_enroll L (tr_target t) a)))"

definition policy_revoke :: "lib \<Rightarrow> device_authorization \<Rightarrow> transition \<Rightarrow> device_error + device_authorization" where
  "policy_revoke L a t =
     bindR (verifyDeviceAuthor L a t) (\<lambda>_. device_revoke L (tr_target t) (tr_compromisedSince t) a)"

definition policy_recover :: "lib \<Rightarrow> device_authorization \<Rightarrow> transition \<Rightarrow> device_error + device_authorization" where
  "policy_recover L a t =
     bindR (verifyTargetProof L t) (\<lambda>_.
     bindR (verifyRecoveryAuthority L a t) (\<lambda>_.
     bindR (epoch_fromRecovery L (tr_operationId t)) (\<lambda>epoch.
       device_recover L (tr_target t) epoch a)))"

definition policy_apply :: "lib \<Rightarrow> device_authorization \<Rightarrow> transition \<Rightarrow> device_error + device_authorization" where
  "policy_apply L a t =
     bindR (verifyCommon a t) (\<lambda>_.
       if isEnrollment t then policy_enroll L a t
       else if isRevocation t then policy_revoke L a t
       else bindR (ensure (isRecovery t) InvalidTransition) (\<lambda>_. policy_recover L a t))"

text \<open>\<open>None\<close>: the transition is not applied.\<close>

definition tryApply :: "lib \<Rightarrow> device_authorization \<Rightarrow> transition \<Rightarrow> device_authorization option" where
  "tryApply L a t = (case policy_apply L a t of Inl _ \<Rightarrow> None | Inr b \<Rightarrow> Some b)"

definition verifyFirstAcceptance :: "transition \<Rightarrow> timestamp \<Rightarrow> device_error + unit" where
  "verifyFirstAcceptance t acceptedAt =
     (if \<not> isEnrollment t then Inr ()
      else bindR (required (tr_pairing t)) (\<lambda>p. ensure (\<not> pairing_isExpiredAt (pr_expiration p) acceptedAt) InvalidTransition))"

definition verifyNotReplayed :: "transition \<Rightarrow> transition list \<Rightarrow> device_error + unit" where
  "verifyNotReplayed t recorded = ensure (\<not> list_ex (transition_replays t) recorded) InvalidTransition"

section \<open>The replay\<close>

record 'a candidate =
  cd_encoding :: string
  cd_payload :: 'a
  cd_transition :: transition

type_synonym 'a revision_group = "revision \<times> 'a candidate list"

definition replayOrder :: "'a candidate \<Rightarrow> string \<times> string" where
  "replayOrder c = (tr_operationId (cd_transition c), cd_encoding c)"

fun group_push :: "'a candidate \<Rightarrow> 'a revision_group list \<Rightarrow> 'a revision_group list" where
  "group_push c [] = [(tr_previousRevision (cd_transition c), [c])]"
| "group_push c (g # gs) =
     (if fst g = tr_previousRevision (cd_transition c) then (fst g, snd g @ [c]) # gs else g # group_push c gs)"

definition groupByRevision :: "'a candidate list \<Rightarrow> 'a revision_group list" where
  "groupByRevision cs = map (\<lambda>g. (fst g, sort_key replayOrder (snd g))) (fold group_push cs [])"

type_synonym 'a admission = "device_authorization \<times> 'a candidate"

definition candidatesAt :: "revision \<Rightarrow> 'a revision_group list \<Rightarrow> 'a candidate list" where
  "candidatesAt r groups = (case find (\<lambda>g. fst g = r) groups of None \<Rightarrow> [] | Some g \<Rightarrow> snd g)"

definition admittedAt :: "lib \<Rightarrow> device_authorization \<Rightarrow> 'a revision_group list \<Rightarrow> 'a admission list" where
  "admittedAt L a groups =
     List.map_filter (\<lambda>c. map_option (\<lambda>b. (b, c)) (tryApply L a (cd_transition c)))
       (candidatesAt (da_revision a) groups)"

fun compact :: "'a admission \<Rightarrow> 'a admission list \<Rightarrow> 'a admission list" where
  "compact entry [] = [entry]"
| "compact entry (x # xs) =
     (if hasSameEffectAs (cd_transition (snd x)) (cd_transition (snd entry))
      then (if cd_encoding (snd entry) < cd_encoding (snd x) then entry # xs else x # xs)
      else x # compact entry xs)"

definition compactEquivalent :: "'a admission list \<Rightarrow> 'a admission list" where
  "compactEquivalent admitted = fold compact admitted []"

definition checkpointOf :: "lib \<Rightarrow> device_authorization \<Rightarrow> 'a admission list \<Rightarrow> device_error + device_authorization" where
  "checkpointOf L a admitted =
     (case find (\<lambda>x. isRecovery (cd_transition (snd x))) admitted of
        Some x \<Rightarrow> Inr (fst x)
      | None \<Rightarrow>
          let revocations = filter (\<lambda>x. isRevocation (cd_transition (snd x))) admitted in
          if length revocations > 0
          then revokeConcurrently L (map (\<lambda>x. tr_target (cd_transition (snd x))) revocations) a
          else enrollConcurrently L (map (\<lambda>x. tr_target (cd_transition (snd x))) admitted) a)"

record 'a replay_result =
  rp_accepted :: "'a candidate list"
  rp_authorization :: device_authorization
  rp_checkpoints :: "device_authorization list"

text \<open>The groups a replay has not passed yet, which every checkpoint makes fewer.\<close>

definition groups_ahead :: "'a revision_group list \<Rightarrow> device_authorization \<Rightarrow> nat" where
  "groups_ahead groups a = length (filter (\<lambda>g. fst g \<ge> da_revision a) groups)"

lemma groups_ahead_less:
  assumes "admittedAt L a groups \<noteq> []" and "da_revision b > da_revision a"
  shows "groups_ahead groups b < groups_ahead groups a"
proof -
  from assms(1) have "candidatesAt (da_revision a) groups \<noteq> []" by (auto simp: admittedAt_def List.map_filter_simps)
  then obtain g where g: "find (\<lambda>g. fst g = da_revision a) groups = Some g"
    by (auto simp: candidatesAt_def split: option.splits)
  have in_set: "g \<in> set groups \<and> fst g = da_revision a" using find_Some_iff' [OF g] .
  let ?A = "\<lambda>x. fst x \<ge> da_revision a" and ?B = "\<lambda>x. fst x \<ge> da_revision b"
  have "filter ?B groups = filter ?B (filter ?A groups)"
    unfolding filter_filter using assms(2) by (intro filter_cong) auto
  moreover have "length (filter ?B (filter ?A groups)) < length (filter ?A groups)"
    using in_set assms(2) by (intro length_filter_less [of g]) auto
  ultimately show ?thesis by (simp add: groups_ahead_def)
qed

function replay_loop :: "lib \<Rightarrow> 'a revision_group list \<Rightarrow> device_authorization \<Rightarrow> 'a candidate list
    \<Rightarrow> device_authorization list \<Rightarrow> device_error + 'a replay_result" where
  "replay_loop L groups a accepted checkpoints =
     (let admitted = admittedAt L a groups in
      if admitted = []
      then Inr \<lparr>rp_accepted = accepted, rp_authorization = a, rp_checkpoints = checkpoints\<rparr>
      else let compacted = compactEquivalent admitted in
        bindR (checkpointOf L a compacted) (\<lambda>b.
          if da_revision b > da_revision a
          then replay_loop L groups b (accepted @ map snd compacted) (checkpoints @ [b])
          else Inl InvalidTransition))"
  by pat_completeness auto
termination
  by (relation "measure (\<lambda>(L, groups, a, _). groups_ahead groups a)") (auto intro: groups_ahead_less)

declare replay_loop.simps [simp del]

definition replay :: "lib \<Rightarrow> device_authorization \<Rightarrow> 'a candidate list \<Rightarrow> device_error + 'a replay_result" where
  "replay L base cs = replay_loop L (groupByRevision cs) base [] []"

section \<open>The lineage of recoveries\<close>

record recovery_state =
  rs_authorization :: device_authorization
  rs_caps :: caps

definition applyRecoveryCheckpoint :: "lib \<Rightarrow> device_authorization \<Rightarrow> transition \<Rightarrow> device_error + device_authorization" where
  "applyRecoveryCheckpoint L a t =
     bindR (ensure (isRecovery t \<and> da_identityId a = tr_identityId t \<and> da_epoch a = tr_epoch t \<and>
              tr_previousRevision t \<ge> da_revision a) InvalidTransition) (\<lambda>_.
     bindR (verifyTargetProof L t) (\<lambda>_.
     bindR (verifyRecoveryAuthority L a t) (\<lambda>_.
     bindR (tr_getRevision t) (\<lambda>revision.
     bindR (epoch_fromRecovery L (tr_operationId t)) (\<lambda>epoch.
       recoverAt L revision (tr_target t) epoch a)))))"

definition recoverLineage :: "lib \<Rightarrow> recovery_state \<Rightarrow> transition \<Rightarrow> device_error + recovery_state" where
  "recoverLineage L previous t =
     bindR (applyRecoveryCheckpoint L (rs_authorization previous) t) (\<lambda>a.
     bindR (ensure (isNotLoosenedBy (rs_caps previous) (carriedBy t)) InvalidTransition) (\<lambda>_.
       Inr \<lparr>rs_authorization = a, rs_caps = carriedBy t\<rparr>))"

definition lostRecoveryBase :: "lib \<Rightarrow> recovery_state list \<Rightarrow> transition \<Rightarrow> device_error + recovery_state" where
  "lostRecoveryBase L states lost =
     bindR (epoch_fromRecovery L (tr_operationId lost)) (\<lambda>recoveredEpoch.
       case filter (\<lambda>s. da_epoch (rs_authorization s) = tr_epoch lost) states of
         [base] \<Rightarrow>
           bindR (ensure (\<not> list_ex (\<lambda>s. da_epoch (rs_authorization s) = recoveredEpoch) states) InvalidTransition)
             (\<lambda>_. Inr base)
       | _ \<Rightarrow> Inl InvalidTransition)"

fun lineage_loop :: "lib \<Rightarrow> transition list \<Rightarrow> recovery_state \<Rightarrow> recovery_state list
    \<Rightarrow> device_error + recovery_state \<times> recovery_state list" where
  "lineage_loop L [] head states = Inr (head, states)"
| "lineage_loop L (t # ts) head states =
     bindR (recoverLineage L head t) (\<lambda>next_head. lineage_loop L ts next_head (states @ [next_head]))"

fun lost_loop :: "lib \<Rightarrow> transition option \<Rightarrow> transition list \<Rightarrow> recovery_state list \<Rightarrow> caps \<Rightarrow> device_error + caps" where
  "lost_loop L latest [] states caps = Inr caps"
| "lost_loop L latest (t # ts) states caps =
     bindR (required latest) (\<lambda>winner.
     bindR (tr_getRevision t) (\<lambda>r.
     bindR (tr_getRevision winner) (\<lambda>r'.
     bindR (ensure (\<not> r > r') InvalidTransition) (\<lambda>_.
     bindR (lostRecoveryBase L states t) (\<lambda>base.
     bindR (recoverLineage L base t) (\<lambda>state.
       lost_loop L latest ts (states @ [state]) (withCompromise t caps)))))))"

text \<open>The sort compares the revisions, one more than the previous revisions it is a sort on here.\<close>

definition replayRecoveryLineage :: "lib \<Rightarrow> device_authorization \<Rightarrow> transition list \<Rightarrow> transition list
    \<Rightarrow> device_error + recovery_state" where
  "replayRecoveryLineage L genesis recoveries concurrent =
     (let start = \<lparr>rs_authorization = genesis, rs_caps = []\<rparr> in
      bindR (lineage_loop L recoveries start [start]) (\<lambda>(head, states).
      bindR (lost_loop L (if recoveries = [] then None else Some (last recoveries))
               (sort_key tr_previousRevision concurrent) states (rs_caps head)) (\<lambda>caps.
        Inr \<lparr>rs_authorization = rs_authorization head, rs_caps = caps\<rparr>)))"

section \<open>What a transition that applies was\<close>

text \<open>
  \<open>lets_in\<close>: the signatures by which a transition lets its target in: an enrollment signed by a
  device authorized then, or a recovery signed by the recovery authority; in both the target
  proves that it has its key.
\<close>

definition proves_possession :: "lib \<Rightarrow> transition \<Rightarrow> bool" where
  "proves_possession L t \<longleftrightarrow> verifyTargetProof L t = Inr ()"

definition lets_in :: "lib \<Rightarrow> device_authorization \<Rightarrow> transition \<Rightarrow> bool" where
  "lets_in L a t \<longleftrightarrow>
     tr_identityId t = da_identityId a \<and> tr_epoch t = da_epoch a \<and> tr_previousRevision t = da_revision a \<and>
     proves_possession L t \<and>
     (isEnrollment t \<and> verifyDeviceAuthor L a t = Inr () \<or> isRecovery t \<and> verifyRecoveryAuthority L a t = Inr ())"

lemma ok_revision: "authorization_ok L a \<Longrightarrow> safe_integer (da_revision a) \<and> 0 \<le> da_revision a"
  by (simp add: authorization_ok_def)

lemma policy_apply_common:
  assumes "policy_apply L a t = Inr b"
  shows "tr_identityId t = da_identityId a \<and> tr_epoch t = da_epoch a \<and> tr_previousRevision t = da_revision a"
  using assms by (auto simp: policy_apply_def verifyCommon_def split: if_splits)

lemma policy_apply_enrollment:
  assumes "policy_apply L a t = Inr b" and "isEnrollment t"
  shows "device_enroll L (tr_target t) a = Inr b \<and> lets_in L a t"
  using assms policy_apply_common [OF assms(1)]
  by (auto simp: policy_apply_def policy_enroll_def lets_in_def proves_possession_def)

lemma policy_apply_revocation:
  assumes "policy_apply L a t = Inr b" and "isRevocation t"
  shows "device_revoke L (tr_target t) (tr_compromisedSince t) a = Inr b \<and> verifyDeviceAuthor L a t = Inr ()"
  using assms by (auto simp: policy_apply_def policy_revoke_def)

lemma policy_apply_recovery:
  assumes "policy_apply L a t = Inr b" and "isRecovery t"
  shows "\<exists>epoch. device_recover L (tr_target t) epoch a = Inr b \<and> lets_in L a t"
  using assms policy_apply_common [OF assms(1)]
  by (auto simp: policy_apply_def policy_recover_def lets_in_def proves_possession_def)

lemma policy_apply_ok:
  assumes L: "lib_ok L" and ok: "authorization_ok L a" and ap: "policy_apply L a t = Inr b"
  shows "authorization_ok L b" and "same_owner a b" and "da_revision b = da_revision a + 1"
    and "c \<in> set (da_credentials b) \<Longrightarrow> c \<in> set (da_credentials a) \<or> (tr_target t = c \<and> lets_in L a t)"
proof -
  have "authorization_ok L b \<and> same_owner a b \<and> da_revision b = da_revision a + 1 \<and>
    (c \<in> set (da_credentials b) \<longrightarrow> c \<in> set (da_credentials a) \<or> (tr_target t = c \<and> lets_in L a t))"
  proof (cases "tr_operation t")
    case ENROLL
    then show ?thesis using policy_apply_enrollment [OF ap] device_enroll_Inr [OF L ok] by auto
  next
    case RECOVER
    then obtain epoch where "device_recover L (tr_target t) epoch a = Inr b" "lets_in L a t"
      using policy_apply_recovery [OF ap] by blast
    then show ?thesis using device_recover_Inr [OF L ok] by fastforce
  next
    case REVOKE
    then show ?thesis using policy_apply_revocation [OF ap] device_revoke_Inr [OF L ok] by auto
  qed
  then show "authorization_ok L b" "same_owner a b" "da_revision b = da_revision a + 1"
    "c \<in> set (da_credentials b) \<Longrightarrow> c \<in> set (da_credentials a) \<or> (tr_target t = c \<and> lets_in L a t)" by blast+
qed

section \<open>Admission at a revision\<close>

definition admits :: "lib \<Rightarrow> device_authorization \<Rightarrow> 'a admission \<Rightarrow> bool" where
  "admits L a x \<longleftrightarrow> policy_apply L a (cd_transition (snd x)) = Inr (fst x)"

lemma admittedAt_admits: "x \<in> set (admittedAt L a groups) \<Longrightarrow> admits L a x \<and> snd x \<in> set (candidatesAt (da_revision a) groups)"
  by (auto simp: admittedAt_def List.map_filter_def tryApply_def admits_def split: sum.splits)

lemma set_compact: "set (compact e xs) \<subseteq> insert e (set xs)"
  by (induction xs) auto

lemma compact_not_empty: "compact e xs \<noteq> []"
  by (cases xs) auto

lemma set_compactEquivalent: "set (compactEquivalent xs) \<subseteq> set xs"
proof -
  have "set (fold compact xs acc) \<subseteq> set xs \<union> set acc" for acc
  proof (induction xs arbitrary: acc)
    case (Cons x xs)
    show ?case using Cons [of "compact x acc"] set_compact [of x acc] by auto
  qed simp
  from this [of "[]"] show ?thesis by (simp add: compactEquivalent_def)
qed

lemma compactEquivalent_not_empty:
  assumes "xs \<noteq> []"
  shows "compactEquivalent xs \<noteq> []"
proof -
  have kept: "acc \<noteq> [] \<Longrightarrow> fold compact ys acc \<noteq> []" for acc and ys :: "'a admission list"
    by (induction ys arbitrary: acc) (simp_all add: compact_not_empty)
  from assms obtain y ys where "xs = y # ys" by (cases xs) auto
  then show ?thesis using kept [of "compact y []" ys] by (simp add: compactEquivalent_def)
qed

lemma checkpointOf_Inr:
  assumes L: "lib_ok L" and ok: "authorization_ok L a" and ne: "xs \<noteq> []" and adm: "\<forall>x \<in> set xs. admits L a x"
  obtains b where "checkpointOf L a xs = Inr b" "authorization_ok L b" "same_owner a b" "da_revision b = da_revision a + 1"
    "\<And>c. c \<in> set (da_credentials b) \<Longrightarrow> c \<in> set (da_credentials a) \<or>
       (\<exists>x \<in> set xs. tr_target (cd_transition (snd x)) = c \<and> lets_in L a (cd_transition (snd x)))"
proof (cases "find (\<lambda>x. isRecovery (cd_transition (snd x))) xs")
  case (Some x)
  then have x: "x \<in> set xs" "isRecovery (cd_transition (snd x))" using find_Some_iff' [OF Some] by auto
  then have ap: "policy_apply L a (cd_transition (snd x)) = Inr (fst x)" using adm by (simp add: admits_def)
  have "checkpointOf L a xs = Inr (fst x)" using Some by (simp add: checkpointOf_def)
  moreover note policy_apply_ok(1-3) [OF L ok ap]
  moreover have "c \<in> set (da_credentials a) \<or>
       (\<exists>x \<in> set xs. tr_target (cd_transition (snd x)) = c \<and> lets_in L a (cd_transition (snd x)))"
    if "c \<in> set (da_credentials (fst x))" for c
    using policy_apply_ok(4) [OF L ok ap that] x(1) by blast
  ultimately show ?thesis using that by blast
next
  case None
  let ?rv = "filter (\<lambda>x. isRevocation (cd_transition (snd x))) xs"
  show ?thesis
  proof (cases "?rv = []")
    case False
    have each: "\<forall>c \<in> set (map (\<lambda>x. tr_target (cd_transition (snd x))) ?rv). \<exists>since b. device_revoke L c since a = Inr b"
      using adm policy_apply_revocation by (fastforce simp: admits_def)
    have some: "map (\<lambda>x. tr_target (cd_transition (snd x))) ?rv \<noteq> []" using False by blast
    obtain b where b: "revokeConcurrently L (map (\<lambda>x. tr_target (cd_transition (snd x))) ?rv) a = Inr b"
      "authorization_ok L b" "same_owner a b" "da_revision b = da_revision a + 1"
      "set (da_credentials b) \<subseteq> set (da_credentials a)"
      by (rule revokeConcurrently_Inr [OF L ok some each])
    have "checkpointOf L a xs = Inr b" using b(1) None False by (simp add: checkpointOf_def Let_def)
    then show ?thesis using that b(2-5) by blast
  next
    case True
    have enr: "isEnrollment (cd_transition (snd x))" if "x \<in> set xs" for x
    proof -
      have "\<not> isRecovery (cd_transition (snd x))" using None that unfolding find_None_iff by blast
      moreover have "\<not> isRevocation (cd_transition (snd x))" using True that by (auto simp: filter_empty_conv)
      ultimately show ?thesis by (cases "tr_operation (cd_transition (snd x))") auto
    qed
    have in_each: "device_enroll L (tr_target (cd_transition (snd x))) a = Inr (fst x) \<and> lets_in L a (cd_transition (snd x))"
      if "x \<in> set xs" for x using policy_apply_enrollment enr [OF that] adm that by (auto simp: admits_def)
    then have each: "\<forall>c \<in> set (map (\<lambda>x. tr_target (cd_transition (snd x))) xs). \<exists>b. device_enroll L c a = Inr b" by auto
    have some: "map (\<lambda>x. tr_target (cd_transition (snd x))) xs \<noteq> []" using ne by blast
    obtain b where b: "enrollConcurrently L (map (\<lambda>x. tr_target (cd_transition (snd x))) xs) a = Inr b"
      "authorization_ok L b" "same_owner a b" "da_revision b = da_revision a + 1"
      "set (da_credentials b) \<subseteq> set (da_credentials a) \<union> set (map (\<lambda>x. tr_target (cd_transition (snd x))) xs)"
      by (rule enrollConcurrently_Inr [OF L ok some each])
    have "c \<in> set (da_credentials a) \<or>
       (\<exists>x \<in> set xs. tr_target (cd_transition (snd x)) = c \<and> lets_in L a (cd_transition (snd x)))"
      if "c \<in> set (da_credentials b)" for c using b(5) that in_each by auto
    then show ?thesis using that b(1-4) None True by (simp add: checkpointOf_def)
  qed
qed

end
