(* ===== verification/DeviceConvergence.thy ===== *)
theory DeviceConvergence
  imports DeviceReplay
begin

text \<open>
  What a replay of transitions of devices guarantees: it never fails, every checkpoint is a
  well-formed authorization one revision after the one before, a credential it holds was in the
  base or was let in by signatures at an earlier state, the result does not depend on the order of
  the candidates, and replaying the accepted candidates gives the same states.
\<close>

section \<open>The run of a replay\<close>

text \<open>The states a replay goes through and the candidates it accepts, as a relation.\<close>

abbreviation compactedAt :: "lib \<Rightarrow> device_authorization \<Rightarrow> 'a revision_group list \<Rightarrow> 'a admission list" where
  "compactedAt L a groups \<equiv> compactEquivalent (admittedAt L a groups)"

inductive replay_run :: "lib \<Rightarrow> 'a revision_group list \<Rightarrow> device_authorization \<Rightarrow> 'a candidate list
    \<Rightarrow> device_authorization list \<Rightarrow> bool" for L :: lib and groups :: "'a revision_group list" where
  run_end: "admittedAt L a groups = [] \<Longrightarrow> replay_run L groups a [] []"
| run_step: "admittedAt L a groups \<noteq> [] \<Longrightarrow> checkpointOf L a (compactedAt L a groups) = Inr b \<Longrightarrow>
     replay_run L groups b cs bs \<Longrightarrow> replay_run L groups a (map snd (compactedAt L a groups) @ cs) (b # bs)"

lemma compactedAt_admits: "x \<in> set (compactedAt L a groups) \<Longrightarrow> admits L a x \<and> snd x \<in> set (candidatesAt (da_revision a) groups)"
  using set_compactEquivalent admittedAt_admits by blast

lemma checkpoint_step:
  assumes L: "lib_ok L" and ok: "authorization_ok L a" and "admittedAt L a groups \<noteq> []"
  shows "\<exists>b. checkpointOf L a (compactedAt L a groups) = Inr b \<and> authorization_ok L b \<and> same_owner a b \<and>
    da_revision b = da_revision a + 1 \<and>
    (\<forall>c \<in> set (da_credentials b). c \<in> set (da_credentials a) \<or>
       (\<exists>x \<in> set (compactedAt L a groups). tr_target (cd_transition (snd x)) = c \<and> lets_in L a (cd_transition (snd x))))"
proof -
  have ne: "compactedAt L a groups \<noteq> []" using assms(3) by (rule compactEquivalent_not_empty)
  have adm: "\<forall>x \<in> set (compactedAt L a groups). admits L a x" using compactedAt_admits by blast
  show ?thesis
  proof (rule checkpointOf_Inr [OF L ok ne adm], goal_cases)
    case (1 b)
    then show ?case by (intro exI [of _ b]) simp
  qed
qed

lemma replay_loop_runs:
  assumes "lib_ok L" and "authorization_ok L a"
  shows "\<exists>cs bs. replay_run L groups a cs bs \<and> replay_loop L groups a acc cks =
    Inr \<lparr>rp_accepted = acc @ cs, rp_authorization = last (a # bs), rp_checkpoints = cks @ bs\<rparr>"
  using assms
proof (induction L groups a acc cks rule: replay_loop.induct)
  case (1 L groups a acc cks)
  show ?case
  proof (cases "admittedAt L a groups = []")
    case True
    then have "replay_run L groups a [] []" by (rule run_end)
    then show ?thesis using True by (subst replay_loop.simps) force
  next
    case False
    obtain b where b: "checkpointOf L a (compactedAt L a groups) = Inr b" "authorization_ok L b"
      "da_revision b = da_revision a + 1" using checkpoint_step [OF 1(2,3) False] by blast
    let ?acc = "acc @ map snd (compactedAt L a groups)" and ?cks = "cks @ [b]"
    have later: "da_revision b > da_revision a" using b(3) by simp
    obtain cs bs where run: "replay_run L groups b cs bs" and loop: "replay_loop L groups b ?acc ?cks =
        Inr \<lparr>rp_accepted = ?acc @ cs, rp_authorization = last (b # bs), rp_checkpoints = ?cks @ bs\<rparr>"
      using 1(1) [OF refl False refl b(1) later 1(2) b(2)] by blast
    have "replay_loop L groups a acc cks = replay_loop L groups b ?acc ?cks"
      using False b(1) later by (subst replay_loop.simps) (simp add: Let_def)
    moreover have "last (a # b # bs) = last (b # bs)" by simp
    ultimately have "replay_loop L groups a acc cks = Inr \<lparr>rp_accepted = acc @ (map snd (compactedAt L a groups) @ cs),
        rp_authorization = last (a # b # bs), rp_checkpoints = cks @ (b # bs)\<rparr>" using loop by simp
    then show ?thesis using run_step [OF False b(1) run] by blast
  qed
qed

lemma replay_runs:
  assumes "lib_ok L" and "authorization_ok L base"
  obtains cs bs where "replay_run L (groupByRevision xs) base cs bs"
    "replay L base xs = Inr \<lparr>rp_accepted = cs, rp_authorization = last (base # bs), rp_checkpoints = bs\<rparr>"
  using replay_loop_runs [OF assms, of "groupByRevision xs" "[]" "[]"] by (auto simp: replay_def)

section \<open>What every run keeps\<close>

text \<open>Each state of a run is one revision after the one before it.\<close>

fun consecutive :: "device_authorization list \<Rightarrow> bool" where
  "consecutive (a # b # bs) \<longleftrightarrow> da_revision b = da_revision a + 1 \<and> same_owner a b \<and> consecutive (b # bs)"
| "consecutive _ \<longleftrightarrow> True"

lemma run_states:
  assumes "replay_run L groups a cs bs" and "lib_ok L" and "authorization_ok L a"
  shows "consecutive (a # bs) \<and> (\<forall>b \<in> set bs. authorization_ok L b \<and> same_owner a b)"
  using assms
proof (induction rule: replay_run.induct)
  case (run_step a b cs bs)
  have b: "authorization_ok L b" "same_owner a b" "da_revision b = da_revision a + 1"
    using checkpoint_step [OF run_step.prems run_step.hyps(1)] run_step.hyps(2) by simp_all
  then show ?case using run_step.IH [OF run_step.prems(1) b(1)] same_owner_trans [OF b(2)] by auto
qed simp

lemma consecutive_later: "consecutive (a # bs) \<Longrightarrow> b \<in> set bs \<Longrightarrow> da_revision a < da_revision b"
  by (induction bs arbitrary: a) fastforce+

text \<open>Every new credential was let in at a state before the one that holds it.\<close>

lemma run_lets_in:
  assumes "replay_run L groups a cs bs" and "lib_ok L" and "authorization_ok L a"
    and "b \<in> set bs" and "c \<in> set (da_credentials b)"
  shows "c \<in> set (da_credentials a) \<or>
    (\<exists>x \<in> set cs. \<exists>s \<in> set (a # bs). tr_target (cd_transition x) = c \<and> lets_in L s (cd_transition x) \<and>
       da_revision s < da_revision b)"
  using assms
proof (induction rule: replay_run.induct)
  case (run_step a b' cs bs)
  have b': "authorization_ok L b'" and first: "c \<in> set (da_credentials b') \<Longrightarrow> c \<in> set (da_credentials a) \<or>
       (\<exists>x \<in> set (compactedAt L a groups). tr_target (cd_transition (snd x)) = c \<and> lets_in L a (cd_transition (snd x)))"
    using checkpoint_step [OF run_step.prems(1,2) run_step.hyps(1)] run_step.hyps(2) by simp_all
  have "replay_run L groups a (map snd (compactedAt L a groups) @ cs) (b' # bs)" using run_step.hyps by (rule replay_run.run_step)
  from run_states [OF this run_step.prems(1,2)] have less: "da_revision a < da_revision b"
    using consecutive_later run_step.prems(3) by blast
  have "c \<in> set (da_credentials b') \<or>
    (\<exists>x \<in> set cs. \<exists>s \<in> set (b' # bs). tr_target (cd_transition x) = c \<and> lets_in L s (cd_transition x) \<and>
       da_revision s < da_revision b)"
  proof (cases "b = b'")
    case True
    then show ?thesis using run_step.prems(4) by simp
  next
    case False
    then show ?thesis using run_step.IH [OF run_step.prems(1) b' _ run_step.prems(4)] run_step.prems(3) by simp
  qed
  then show ?case
  proof
    assume "c \<in> set (da_credentials b')"
    then show ?case using first less by force
  qed force
qed simp

lemma run_credentials:
  assumes "replay_run L groups a cs bs" and "lib_ok L" and "authorization_ok L a"
    and "b \<in> set bs" and "c \<in> set (da_credentials b)"
  shows "c \<in> set (da_credentials a) \<or>
    (\<exists>x \<in> set cs. \<exists>s \<in> set (a # bs). tr_target (cd_transition x) = c \<and> lets_in L s (cd_transition x))"
  using run_lets_in [OF assms] by blast

lemma run_accepts_candidates:
  assumes "replay_run L groups a cs bs" and "c \<in> set cs"
  shows "\<exists>r. c \<in> set (candidatesAt r groups)"
  using assms
proof (induction rule: replay_run.induct)
  case (run_step a b cs bs)
  then show ?case using compactedAt_admits by fastforce
qed simp

section \<open>The order of the candidates\<close>

lemma candidatesAt_push:
  "candidatesAt r (group_push c gs) =
     candidatesAt r gs @ (if tr_previousRevision (cd_transition c) = r then [c] else [])"
  by (induction gs) (auto simp: candidatesAt_def)

lemma candidatesAt_groups:
  "candidatesAt r (groupByRevision cs) = sort_key replayOrder (filter (\<lambda>c. tr_previousRevision (cd_transition c) = r) cs)"
proof -
  have pushed: "candidatesAt r (fold group_push cs gs) =
      candidatesAt r gs @ filter (\<lambda>c. tr_previousRevision (cd_transition c) = r) cs" for gs :: "'a revision_group list"
    by (induction cs arbitrary: gs) (simp_all add: candidatesAt_push)
  have sorted: "candidatesAt r (map (\<lambda>g. (fst g, sort_key replayOrder (snd g))) gs) = sort_key replayOrder (candidatesAt r gs)"
    for gs :: "'a revision_group list"
    by (induction gs) (auto simp: candidatesAt_def)
  show ?thesis unfolding groupByRevision_def sorted pushed by (simp add: candidatesAt_def)
qed

lemma replay_loop_groups:
  assumes "\<And>r. candidatesAt r groups = candidatesAt r groups'"
  shows "replay_loop L groups a acc cks = replay_loop L groups' a acc cks"
  using assms
proof (induction L groups a acc cks rule: replay_loop.induct)
  case (1 L groups a acc cks)
  have same: "admittedAt L a groups = admittedAt L a groups'" using 1(2) by (simp add: admittedAt_def)
  show ?case
  proof (cases "admittedAt L a groups = []")
    case True
    then show ?thesis using same by (subst (1 2) replay_loop.simps) simp
  next
    case False
    show ?thesis
    proof (cases "checkpointOf L a (compactedAt L a groups)")
      case (Inl e)
      then show ?thesis using same by (subst (1 2) replay_loop.simps) (simp add: Let_def)
    next
      case (Inr b)
      have "da_revision b > da_revision a \<Longrightarrow>
          replay_loop L groups b (acc @ map snd (compactedAt L a groups)) (cks @ [b]) =
          replay_loop L groups' b (acc @ map snd (compactedAt L a groups)) (cks @ [b])"
        using 1(1) [OF refl False refl Inr _ 1(2)] by simp
      then show ?thesis using same Inr by (subst (1 2) replay_loop.simps) (simp add: Let_def)
    qed
  qed
qed

lemma replay_of_same_candidates:
  assumes "mset cs = mset ds" and "inj_on replayOrder (set cs)"
  shows "replay L base cs = replay L base ds"
proof -
  have "candidatesAt r (groupByRevision cs) = candidatesAt r (groupByRevision ds)" for r
  proof -
    let ?p = "\<lambda>c. tr_previousRevision (cd_transition c) = r"
    have m: "mset (filter ?p cs) = mset (sort_key replayOrder (filter ?p ds))" by (simp add: mset_filter assms(1))
    have inj: "inj_on replayOrder (set (filter ?p cs))" using assms(2) by (rule inj_on_subset) auto
    show ?thesis unfolding candidatesAt_groups by (rule sort_key_inj_key_eq [OF m inj]) simp
  qed
  then show ?thesis unfolding replay_def by (rule replay_loop_groups)
qed


section \<open>A replay of what was accepted\<close>

definition effect_of :: "transition \<Rightarrow> device_operation \<times> revision \<times> credential \<times> revision option" where
  "effect_of t = (tr_operation t, tr_previousRevision t, tr_target t, tr_compromisedSince t)"

abbreviation effects :: "'a admission list \<Rightarrow> (device_operation \<times> revision \<times> credential \<times> revision option) list" where
  "effects xs \<equiv> map (\<lambda>x. effect_of (cd_transition (snd x))) xs"

lemma hasSameEffectAs_iff: "hasSameEffectAs t u \<longleftrightarrow> effect_of t = effect_of u"
  by (auto simp: hasSameEffectAs_def effect_of_def)

lemma effects_compact:
  "effects (compact e xs) =
     effects xs @ (if effect_of (cd_transition (snd e)) \<in> set (effects xs) then [] else [effect_of (cd_transition (snd e))])"
  by (induction xs) (auto simp: hasSameEffectAs_iff)

lemma distinct_effects: "distinct (effects (compactEquivalent xs))"
proof -
  have "distinct (effects acc) \<Longrightarrow> distinct (effects (fold compact xs acc))" for acc
    by (induction xs arbitrary: acc) (simp_all add: effects_compact)
  then show ?thesis by (simp add: compactEquivalent_def)
qed

lemma compact_distinct:
  assumes "distinct (effects xs)"
  shows "compactEquivalent xs = xs"
proof -
  have new: "effect_of (cd_transition (snd e)) \<notin> set (effects acc) \<Longrightarrow> compact e acc = acc @ [e]"
    for e :: "'a admission" and acc
    by (induction acc) (auto simp: hasSameEffectAs_iff)
  have "distinct (effects (acc @ xs)) \<Longrightarrow> fold compact xs acc = acc @ xs" for acc
  proof (induction xs arbitrary: acc)
    case (Cons x xs)
    have "compact x acc = acc @ [x]" using Cons.prems by (intro new) auto
    then show ?case using Cons.IH [of "acc @ [x]"] Cons.prems by simp
  qed simp
  from this [of "[]"] assms show ?thesis by (simp add: compactEquivalent_def)
qed

lemma survivors_set: "set cs = set ds \<Longrightarrow> survivors cs a = survivors ds a"
  by (simp add: survivors_def list_all_iff)

lemma new_credentials_set:
  assumes "lib_ok L" and "set cs = set ds"
  shows "new_credentials L cs a = new_credentials L ds a"
proof -
  have "sort (filter (\<lambda>c. \<not> isAuthorized a c) (lib_unique L cs)) = sort (filter (\<lambda>c. \<not> isAuthorized a c) (lib_unique L ds))"
    using assms by (intro sorted_distinct_set_unique) simp_all
  then show ?thesis by (simp add: new_credentials_def)
qed

lemma revokeConcurrently_set:
  assumes "set cs = set ds"
  shows "revokeConcurrently L cs a = revokeConcurrently L ds a"
proof -
  have same: "set (filter (isAuthorized a) cs) = set (filter (isAuthorized a) ds)" using assms by auto
  then have "length (filter (isAuthorized a) cs) > 0 \<longleftrightarrow> length (filter (isAuthorized a) ds) > 0"
    by (metis length_greater_0_conv set_empty)
  then show ?thesis using survivors_set [OF same] by (simp add: revokeConcurrently_def Let_def)
qed

lemma checkpointOf_permuted:
  assumes "lib_ok L" and "set xs = set ys" and "\<forall>x \<in> set xs. \<not> isRecovery (cd_transition (snd x))"
  shows "checkpointOf L a xs = checkpointOf L a ys"
proof -
  let ?target = "\<lambda>x. tr_target (cd_transition (snd x))" and ?rv = "filter (\<lambda>x. isRevocation (cd_transition (snd x)))"
  have none: "find (\<lambda>x. isRecovery (cd_transition (snd x))) xs = None" "find (\<lambda>x. isRecovery (cd_transition (snd x))) ys = None"
    using assms(2,3) unfolding find_None_iff by blast+
  have rv: "set (?rv xs) = set (?rv ys)" using assms(2) by simp
  then have "length (?rv xs) > 0 \<longleftrightarrow> length (?rv ys) > 0" by (metis length_greater_0_conv set_empty)
  moreover have "revokeConcurrently L (map ?target (?rv xs)) a = revokeConcurrently L (map ?target (?rv ys)) a"
    by (rule revokeConcurrently_set) (simp only: set_map rv)
  moreover have "new_credentials L (map ?target xs) a = new_credentials L (map ?target ys) a"
    using assms(1,2) by (intro new_credentials_set) simp_all
  ultimately show ?thesis using none by (simp add: checkpointOf_def Let_def enrollConcurrently_def)
qed

lemma admits_previous: "admits L a x \<Longrightarrow> tr_previousRevision (cd_transition (snd x)) = da_revision a"
  using policy_apply_common by (auto simp: admits_def)

lemma run_accepts_later:
  assumes "replay_run L groups a cs bs" and "lib_ok L" and "authorization_ok L a" and "c \<in> set cs"
  shows "da_revision a \<le> tr_previousRevision (cd_transition c)"
  using assms
proof (induction rule: replay_run.induct)
  case (run_step a b cs bs)
  have b: "authorization_ok L b" "da_revision b = da_revision a + 1"
    using checkpoint_step [OF run_step.prems(1,2) run_step.hyps(1)] run_step.hyps(2) by simp_all
  from run_step.prems(3) consider x where "x \<in> set (compactedAt L a groups)" "c = snd x" | "c \<in> set cs" by auto
  then show ?case
  proof cases
    case 1
    then show ?thesis using compactedAt_admits [of x L a groups] admits_previous [of L a x] by simp
  next
    case 2
    then show ?thesis using run_step.IH [OF run_step.prems(1) b(1)] b(2) by simp
  qed
qed simp


lemma mset_map_filter: "mset xs = mset ys \<Longrightarrow> mset (List.map_filter f xs) = mset (List.map_filter f ys)"
  by (simp add: List.map_filter_def mset_filter)

lemma readmitted:
  assumes "candidatesAt (da_revision a) groups' = sort_key replayOrder (map snd (compactedAt L a groups))"
  shows "mset (admittedAt L a groups') = mset (compactedAt L a groups)"
proof -
  let ?f = "\<lambda>c. map_option (\<lambda>b. (b, c)) (tryApply L a (cd_transition c))"
  have each: "\<forall>x \<in> set xs. admits L a x \<Longrightarrow> List.map_filter ?f (map snd xs) = xs" for xs :: "'a admission list"
    by (induction xs) (auto simp: List.map_filter_simps admits_def tryApply_def)
  have "mset (admittedAt L a groups') = mset (List.map_filter ?f (map snd (compactedAt L a groups)))"
    unfolding admittedAt_def assms by (rule mset_map_filter) simp
  moreover have "List.map_filter ?f (map snd (compactedAt L a groups)) = compactedAt L a groups"
    using compactedAt_admits by (intro each) blast
  ultimately show ?thesis by simp
qed

lemma recompacted:
  assumes "mset (admittedAt L a groups') = mset (compactedAt L a groups)"
  shows "compactedAt L a groups' = admittedAt L a groups'"
proof (rule compact_distinct)
  have "mset (effects (admittedAt L a groups')) = mset (effects (compactedAt L a groups))"
    using assms by simp
  then show "distinct (effects (admittedAt L a groups'))"
    using distinct_effects mset_eq_imp_distinct_iff by blast
qed

lemma rerun:
  assumes "replay_run L groups a cs bs" and "lib_ok L" and "authorization_ok L a"
    and "\<forall>c \<in> set cs. \<not> isRecovery (cd_transition c)"
    and "\<And>r. r \<ge> da_revision a \<Longrightarrow>
      candidatesAt r groups' = sort_key replayOrder (filter (\<lambda>c. tr_previousRevision (cd_transition c) = r) cs)"
  shows "\<exists>cs'. replay_run L groups' a cs' bs \<and> mset cs' = mset cs"
  using assms
proof (induction rule: replay_run.induct)
  case (run_end a)
  then have "admittedAt L a groups' = []" by (simp add: admittedAt_def List.map_filter_simps)
  then show ?case using replay_run.run_end by fastforce
next
  case (run_step a b cs bs)
  let ?X = "compactedAt L a groups" and ?Y = "admittedAt L a groups'" and ?prev = "\<lambda>c. tr_previousRevision (cd_transition c)"
  have b: "authorization_ok L b" "da_revision b = da_revision a + 1"
    using checkpoint_step [OF run_step.prems(1,2) run_step.hyps(1)] run_step.hyps(2) by simp_all
  have here: "?prev (snd x) = da_revision a" if "x \<in> set ?X" for x
    using compactedAt_admits [OF that] admits_previous by blast
  have later: "da_revision a < ?prev c" if "c \<in> set cs" for c
    using run_accepts_later [OF run_step.hyps(3) run_step.prems(1) b(1) that] b(2) by simp
  have X: "filter (\<lambda>c. ?prev c = da_revision a) (map snd ?X @ cs) = map snd ?X"
  proof -
    have "filter (\<lambda>c. ?prev c = da_revision a) (map snd ?X) = map snd ?X"
      using here by (auto simp: filter_id_conv)
    moreover have "filter (\<lambda>c. ?prev c = da_revision a) cs = []" using later by (fastforce simp: filter_empty_conv)
    ultimately show ?thesis by simp
  qed
  have Y: "mset ?Y = mset ?X"
    by (rule readmitted) (use run_step.prems(4) [of "da_revision a"] X in simp)
  note comp = recompacted [OF Y]
  have ne: "?Y \<noteq> []" using Y compactEquivalent_not_empty [OF run_step.hyps(1)] by auto
  have XY: "set ?Y = set ?X" using Y by (rule mset_eq_setD)
  have "checkpointOf L a ?Y = checkpointOf L a ?X"
    using run_step.prems(1,3) XY by (intro checkpointOf_permuted) auto
  then have cp: "checkpointOf L a (compactedAt L a groups') = Inr b" using comp run_step.hyps(2) by simp
  have rest: "candidatesAt r groups' = sort_key replayOrder (filter (\<lambda>c. ?prev c = r) cs)" if "r \<ge> da_revision b" for r
  proof -
    have "filter (\<lambda>c. ?prev c = r) (map snd ?X @ cs) = filter (\<lambda>c. ?prev c = r) cs"
      using here that b(2) by (auto simp: filter_empty_conv)
    then show ?thesis using run_step.prems(4) [of r] that b(2) by simp
  qed
  obtain cs' where cs': "replay_run L groups' b cs' bs" "mset cs' = mset cs"
    using run_step.IH [OF run_step.prems(1) b(1) _ rest] run_step.prems(3) by auto
  have "replay_run L groups' a (map snd (compactedAt L a groups') @ cs') (b # bs)"
    using ne cp cs'(1) by (rule replay_run.run_step)
  moreover have "mset (map snd (compactedAt L a groups') @ cs') = mset (map snd ?X @ cs)"
    unfolding comp using Y cs'(2) by simp
  ultimately show ?case by blast
qed

lemma run_unique:
  assumes "replay_run L groups a cs bs" and "replay_run L groups a cs' bs'"
  shows "cs = cs' \<and> bs = bs'"
  using assms
proof (induction arbitrary: cs' bs' rule: replay_run.induct)
  case (run_end a)
  from run_end(2) show ?case by cases (simp_all add: run_end(1))
next
  case (run_step a b cs bs)
  from run_step.prems show ?case
  proof cases
    case run_end
    then show ?thesis using run_step.hyps(1) by simp
  next
    case (run_step b' cs'' bs'')
    then show ?thesis using run_step.hyps(2) \<open>\<And>cs' bs'. replay_run L groups b cs' bs' \<Longrightarrow> cs = cs' \<and> bs = bs'\<close> by auto
  qed
qed

lemma replay_again:
  assumes L: "lib_ok L" and ok: "authorization_ok L base" and first: "replay L base xs = Inr res"
    and plain: "\<forall>c \<in> set (rp_accepted res). \<not> isRecovery (cd_transition c)"
  obtains res' where "replay L base (rp_accepted res) = Inr res'" "rp_authorization res' = rp_authorization res"
    "rp_checkpoints res' = rp_checkpoints res" "mset (rp_accepted res') = mset (rp_accepted res)"
proof -
  obtain cs bs where run: "replay_run L (groupByRevision xs) base cs bs"
    "replay L base xs = Inr \<lparr>rp_accepted = cs, rp_authorization = last (base # bs), rp_checkpoints = bs\<rparr>"
    by (rule replay_runs [OF L ok])
  then have res: "res = \<lparr>rp_accepted = cs, rp_authorization = last (base # bs), rp_checkpoints = bs\<rparr>" using first by simp
  have "\<exists>cs'. replay_run L (groupByRevision cs) base cs' bs \<and> mset cs' = mset cs"
    using plain res by (intro rerun [OF run(1) L ok] candidatesAt_groups) simp_all
  then obtain cs' where cs': "replay_run L (groupByRevision cs) base cs' bs" "mset cs' = mset cs" by blast
  obtain ds es where again: "replay_run L (groupByRevision cs) base ds es"
    "replay L base cs = Inr \<lparr>rp_accepted = ds, rp_authorization = last (base # es), rp_checkpoints = es\<rparr>"
    by (rule replay_runs [OF L ok])
  have "ds = cs' \<and> es = bs" using run_unique [OF again(1) cs'(1)] .
  then show ?thesis using that again(2) res cs'(2) by simp
qed

end
