(* ===== verification/JsonText.thy ===== *)
theory JsonText
  imports Prelude
begin

text \<open>
  \<open>JSON.stringify\<close> is injective on the values it is used on here (those without fractional
  numbers): a text that starts with two of them was made from the same value. The canonical
  encodings that replicas compare and sort by identify what they encode.
\<close>

fun plain_json :: "json \<Rightarrow> bool" where
  "plain_json (JNumber _) = False"
| "plain_json (JArray xs) = list_all plain_json xs"
| "plain_json (JObject kvs) = list_all (\<lambda>kv. plain_json (snd kv)) kvs"
| "plain_json _ = True"

section \<open>Integers\<close>

definition is_digit :: "char \<Rightarrow> bool" where
  "is_digit ch \<longleftrightarrow> 48 \<le> (of_char ch :: nat) \<and> (of_char ch :: nat) \<le> 57"

definition number_of_digits :: "string \<Rightarrow> nat" where
  "number_of_digits ds = fold (\<lambda>ch v. v * 10 + (of_char ch - 48)) ds 0"

lemma of_digit_char [simp]: "n < 10 \<Longrightarrow> of_char (digit_char n) = 48 + n"
  by (simp add: digit_char_def)

lemma decimal_reads: "number_of_digits (decimal n) = n \<and> decimal n \<noteq> [] \<and> list_all is_digit (decimal n)"
proof (induction n rule: decimal.induct)
  case (1 n)
  show ?case
  proof (cases "n < 10")
    case True
    then show ?thesis by (simp add: decimal.simps [of n] number_of_digits_def is_digit_def)
  next
    case False
    then show ?thesis using 1 by (simp add: decimal.simps [of n] number_of_digits_def is_digit_def)
  qed
qed

text \<open>A text in which a number has ended.\<close>

definition ended :: "string \<Rightarrow> bool" where
  "ended r \<longleftrightarrow> (case r of [] \<Rightarrow> True | ch # _ \<Rightarrow> \<not> is_digit ch)"

lemma takeWhile_decimal: "ended r \<Longrightarrow> takeWhile is_digit (decimal n @ r) = decimal n"
  using decimal_reads [of n] by (cases r) (auto simp: ended_def takeWhile_append list_all_iff)

lemma decimal_separates:
  assumes "decimal n @ r = decimal m @ s" and "ended r" and "ended s"
  shows "n = m \<and> r = s"
proof -
  have "decimal n = decimal m" using takeWhile_decimal [OF assms(2), of n] takeWhile_decimal [OF assms(3), of m] assms(1) by simp
  then show ?thesis using assms(1) decimal_reads by (metis append_same_eq same_append_eq)
qed

lemma decimal_starts: "\<exists>ch rest. decimal n = ch # rest \<and> is_digit ch"
  using decimal_reads [of n] by (cases "decimal n") auto

lemma decimal_hd: "decimal n @ s = a # r \<Longrightarrow> is_digit a" "a # r = decimal n @ s \<Longrightarrow> is_digit a"
  using decimal_starts [of n] by auto

lemma not_digit [simp]: "\<not> is_digit CHR ''-''" "\<not> is_digit CHR '',''" "\<not> is_digit CHR '']''" "\<not> is_digit CHR ''}''"
  "\<not> is_digit CHR 0x22" "\<not> is_digit CHR ''n''" "\<not> is_digit CHR ''t''" "\<not> is_digit CHR ''f''" "\<not> is_digit CHR ''[''"
  "\<not> is_digit CHR ''{''" "\<not> is_digit CHR '':''"
  by (simp_all add: is_digit_def)

lemma json_int_separates:
  assumes eq: "json_int n @ r = json_int m @ s" and "ended r" and "ended s"
  shows "n = m \<and> r = s"
proof -
  obtain c cs where c: "decimal (nat n) = c # cs" "is_digit c" using decimal_starts by blast
  obtain d ds where d: "decimal (nat m) = d # ds" "is_digit d" using decimal_starts by blast
  have sign: "n < 0 \<longleftrightarrow> m < 0" using eq c d by (auto simp: json_int_def split: if_splits)
  show ?thesis
  proof (cases "n < 0")
    case True
    then have "nat (- n) = nat (- m) \<and> r = s" using eq sign decimal_separates [of "nat (- n)" r "nat (- m)" s] assms(2,3)
      by (simp add: json_int_def)
    then show ?thesis using True sign by linarith
  next
    case False
    then have "nat n = nat m \<and> r = s" using eq sign decimal_separates [of "nat n" r "nat m" s] assms(2,3)
      by (simp add: json_int_def)
    then show ?thesis using False sign by linarith
  qed
qed

section \<open>Texts\<close>

definition hex_value :: "char \<Rightarrow> nat" where
  "hex_value ch = (let n = of_char ch in if n < 58 then n - 48 else n - 87)"

lemma hex_value_char [simp]: "n < 16 \<Longrightarrow> hex_value (hex_char n) = n"
  by (simp add: hex_value_def hex_char_def Let_def)

text \<open>One character of a quoted text, and the rest.\<close>

fun read_char :: "string \<Rightarrow> char \<times> string" where
  "read_char (a # b # rest) =
     (if a \<noteq> CHR 0x5C then (a, b # rest)
      else if b = CHR ''b'' then (char_of (8::nat), rest) else if b = CHR ''t'' then (char_of (9::nat), rest)
      else if b = CHR ''n'' then (char_of (10::nat), rest) else if b = CHR ''f'' then (char_of (12::nat), rest)
      else if b = CHR ''r'' then (char_of (13::nat), rest)
      else if b = CHR ''u'' then (char_of (hex_value (rest ! 2) * 16 + hex_value (rest ! 3)), drop 4 rest)
      else (b, rest))"
| "read_char [a] = (a, [])"
| "read_char [] = (CHR ''x'', [])"

lemma read_plain: "a \<noteq> CHR 0x5C \<Longrightarrow> read_char (a # rest) = (a, rest)"
  by (cases rest) simp_all

lemma read_json_escape: "read_char (json_escape ch @ rest) = (ch, rest)"
proof -
  define n where "n = (of_char ch :: nat)"
  have ch: "ch = char_of n" unfolding n_def by simp
  have n: "n < 256" unfolding n_def by (metis of_char_mod_256 mod_less_divisor zero_less_numeral)
  have named: "char_of (34 :: nat) = CHR 0x22" "char_of (92 :: nat) = CHR 0x5C" by code_simp+
  consider "n = 34" | "n = 92" | "n = 8" | "n = 9" | "n = 10" | "n = 12" | "n = 13"
    | "n < 32" "n \<notin> {8, 9, 10, 12, 13}" | "n \<ge> 32" "n \<noteq> 34" "n \<noteq> 92" by fastforce
  then show ?thesis
  proof cases
    case 8
    then have "json_escape ch = [CHR 0x5C, CHR ''u'', CHR ''0'', CHR ''0'', hex_char (n div 16), hex_char (n mod 16)]"
      by (simp add: json_escape_def n_def [symmetric])
    moreover have "hex_value (hex_char (n div 16)) * 16 + hex_value (hex_char (n mod 16)) = n" using 8(1) by simp
    ultimately show ?thesis using ch by simp
  next
    case 9
    then have "json_escape ch = [ch]" by (simp add: json_escape_def n_def [symmetric])
    moreover have "ch \<noteq> CHR 0x5C" using 9(3) by (auto simp: n_def)
    ultimately show ?thesis using read_plain by simp
  qed (simp_all add: json_escape_def n_def [symmetric], simp_all add: ch named)
qed

lemma json_escape_hd: "\<exists>a rest. json_escape ch = a # rest \<and> a \<noteq> CHR 0x22"
proof (cases "(of_char ch :: nat) = 34")
  case True
  then show ?thesis by (simp add: json_escape_def)
next
  case False
  then have "ch \<noteq> CHR 0x22" by auto
  then show ?thesis by (simp add: json_escape_def Let_def)
qed

lemma quoted_separates:
  "concat (map json_escape xs) @ CHR 0x22 # r = concat (map json_escape ys) @ CHR 0x22 # s \<Longrightarrow> xs = ys \<and> r = s"
proof (induction xs arbitrary: ys)
  case Nil
  show ?case
  proof (cases ys)
    case (Cons y zs)
    then show ?thesis using Nil json_escape_hd [of y] by auto
  qed (use Nil in simp)
next
  case (Cons x xs)
  show ?case
  proof (cases ys)
    case Nil
    then show ?thesis using Cons.prems json_escape_hd [of x] by auto
  next
    case (Cons y zs)
    let ?X = "concat (map json_escape xs) @ CHR 0x22 # r" and ?Y = "concat (map json_escape zs) @ CHR 0x22 # s"
    have "json_escape x @ ?X = json_escape y @ ?Y" using Cons.prems Cons by simp
    then have "read_char (json_escape x @ ?X) = read_char (json_escape y @ ?Y)" by simp
    then have "x = y \<and> ?X = ?Y" unfolding read_json_escape by simp
    then show ?thesis using Cons.IH [of zs] Cons by simp
  qed
qed

lemma json_quote_separates: "json_quote x @ r = json_quote y @ s \<Longrightarrow> x = y \<and> r = s"
  using quoted_separates [of x r y s] unfolding json_quote_def by simp

section \<open>Values\<close>

definition separates :: "('a \<Rightarrow> string) \<Rightarrow> ('a \<Rightarrow> bool) \<Rightarrow> 'a \<Rightarrow> bool" where
  "separates f p x \<longleftrightarrow> (\<forall>y r s. p y \<longrightarrow> f x @ r = f y @ s \<longrightarrow> ended r \<longrightarrow> ended s \<longrightarrow> x = y \<and> r = s)"

lemma commas_Cons [simp]: "commas (x # xs) = CHR '','' # x @ commas xs"
  by (simp add: commas_def)

lemma commas_Nil [simp]: "commas [] = []"
  by (simp add: commas_def)

lemma ended_commas: "\<not> is_digit e \<Longrightarrow> ended (commas xs @ e # r)"
  by (cases xs) (simp_all add: ended_def)

lemma commas_separates:
  assumes "\<forall>x \<in> set xs. separates f p x" and "list_all p ys" and "e \<noteq> CHR '',''" and "\<not> is_digit e"
    and "commas (map f xs) @ e # r = commas (map f ys) @ e # s"
  shows "xs = ys \<and> r = s"
  using assms
proof (induction xs arbitrary: ys)
  case Nil
  then show ?case by (cases ys) auto
next
  case (Cons x xs)
  show ?case
  proof (cases ys)
    case Nil
    then show ?thesis using Cons.prems by auto
  next
    case (Cons y zs)
    have "f x @ commas (map f xs) @ e # r = f y @ commas (map f zs) @ e # s" using Cons.prems(5) Cons by simp
    moreover have "separates f p x" "p y" using Cons.prems(1,2) Cons by simp_all
    ultimately have "x = y \<and> commas (map f xs) @ e # r = commas (map f zs) @ e # s"
      using ended_commas [OF Cons.prems(4)] unfolding separates_def by blast
    moreover have "\<forall>x \<in> set xs. separates f p x" "list_all p zs" using Cons.prems(1,2) Cons by simp_all
    ultimately have "x = y \<and> xs = zs \<and> r = s" using Cons.IH [of zs] Cons.prems(3,4) by blast
    then show ?thesis using Cons by blast
  qed
qed

text \<open>The items of an array or of an object, which do not start with the bracket that closes it.\<close>

lemma items_separate:
  assumes "\<forall>x \<in> set xs. separates f p x" and "list_all p ys" and "e \<noteq> CHR '',''" and "\<not> is_digit e"
    and starts: "\<And>x. \<exists>a rest. p x \<longrightarrow> f x = a # rest \<and> a \<noteq> e" and xs: "list_all p xs"
    and eq: "tl (commas (map f xs)) @ e # r = tl (commas (map f ys)) @ e # s"
  shows "xs = ys \<and> r = s"
proof (cases "xs = [] \<or> ys = []")
  case True
  show ?thesis
  proof (cases xs)
    case Nil
    show ?thesis
    proof (cases ys)
      case (Cons y zs)
      then show ?thesis using eq Nil starts [of y] assms(2) by auto
    qed (use eq Nil in simp)
  next
    case (Cons x zs)
    then show ?thesis using eq True starts [of x] xs by auto
  qed
next
  case False
  then have "commas (map f xs) @ e # r = commas (map f ys) @ e # s" using eq by (cases xs; cases ys) simp_all
  then show ?thesis by (rule commas_separates [OF assms(1-4)])
qed

lemma json_text_starts: "\<exists>a rest. plain_json x \<longrightarrow> json_text x = a # rest \<and> a \<notin> {CHR '']'', CHR ''}'', CHR '',''}"
proof (cases x)
  case (JInt n)
  then show ?thesis using decimal_starts [of "nat n"] by (cases "n < 0") (auto simp: json_int_def)
qed (auto simp: json_quote_def)

text \<open>What separates every value from what follows it.\<close>

abbreviation property_text :: "string \<times> json \<Rightarrow> string" where
  "property_text \<equiv> \<lambda>kv. json_quote (fst kv) @ '':'' @ json_text (snd kv)"

lemma property_separates:
  assumes "separates json_text plain_json (snd kv)"
  shows "separates property_text (\<lambda>kv. plain_json (snd kv)) kv"
  unfolding separates_def
proof (intro allI impI)
  fix y :: "string \<times> json" and r s
  assume p: "plain_json (snd y)" and eq: "property_text kv @ r = property_text y @ s" and ends: "ended r" "ended s"
  have "fst kv = fst y \<and> CHR '':'' # json_text (snd kv) @ r = CHR '':'' # json_text (snd y) @ s"
    by (rule json_quote_separates) (use eq in simp)
  then show "kv = y \<and> r = s" using assms p ends unfolding separates_def by (auto simp: prod_eq_iff)
qed

text \<open>The first character tells which kind of value follows.\<close>

fun json_kind :: "json \<Rightarrow> nat" where
  "json_kind JNull = 0"
| "json_kind (JBool _) = 1"
| "json_kind (JInt _) = 2"
| "json_kind (JNumber _) = 2"
| "json_kind (JString _) = 3"
| "json_kind (JArray _) = 4"
| "json_kind (JObject _) = 5"

definition char_kind :: "char \<Rightarrow> nat" where
  "char_kind a =
     (if a = CHR ''n'' then 0 else if a = CHR ''t'' \<or> a = CHR ''f'' then 1 else if a = CHR 0x22 then 3
      else if a = CHR ''['' then 4 else if a = CHR ''{'' then 5 else 2)"

lemma json_int_kind: "\<exists>a rest. json_int n = a # rest \<and> char_kind a = 2"
proof -
  obtain c cs where c: "decimal (nat n) = c # cs" "is_digit c" using decimal_starts by blast
  have "char_kind c = 2" using c(2) by (auto simp: char_kind_def)
  then show ?thesis using c(1) by (simp add: json_int_def char_kind_def)
qed

lemma json_text_kind: "plain_json x \<Longrightarrow> \<exists>a rest. json_text x = a # rest \<and> char_kind a = json_kind x"
  by (cases x) (use json_int_kind in \<open>auto simp: json_quote_def char_kind_def\<close>)

lemma same_kind:
  assumes "plain_json x" and "plain_json y" and "json_text x @ r = json_text y @ s"
  shows "json_kind y = json_kind x"
  using json_text_kind [OF assms(1)] json_text_kind [OF assms(2)] assms(3) by auto

lemma json_of_kind:
  "plain_json y \<Longrightarrow> json_kind y = 0 \<Longrightarrow> y = JNull" "plain_json y \<Longrightarrow> json_kind y = 1 \<Longrightarrow> \<exists>b. y = JBool b"
  "plain_json y \<Longrightarrow> json_kind y = 2 \<Longrightarrow> \<exists>n. y = JInt n" "plain_json y \<Longrightarrow> json_kind y = 3 \<Longrightarrow> \<exists>t. y = JString t"
  "plain_json y \<Longrightarrow> json_kind y = 4 \<Longrightarrow> \<exists>xs. y = JArray xs" "plain_json y \<Longrightarrow> json_kind y = 5 \<Longrightarrow> \<exists>kvs. y = JObject kvs"
  by (cases y; simp)+

lemma json_text_separates:
  assumes "plain_json x"
  shows "separates json_text plain_json x"
  using assms
proof (induction x rule: json.induct)
  case (JInt n)
  have "JInt n = y \<and> r = s" if p: "plain_json y" and eq: "json_text (JInt n) @ r = json_text y @ s" and ends: "ended r" "ended s" for y r s
  proof -
    obtain m where "y = JInt m" using json_of_kind(3) [OF p] same_kind [OF JInt p eq] by auto
    then show ?thesis using eq json_int_separates [OF _ ends, of n m] by simp
  qed
  then show ?case unfolding separates_def by blast
next
  case (JString t)
  have "JString t = y \<and> r = s" if p: "plain_json y" and eq: "json_text (JString t) @ r = json_text y @ s" for y r s
  proof -
    obtain u where "y = JString u" using json_of_kind(4) [OF p] same_kind [OF JString p eq] by auto
    then show ?thesis using eq json_quote_separates [of t r u s] by simp
  qed
  then show ?case unfolding separates_def by blast
next
  case (JArray xs)
  then have each: "\<forall>x \<in> set xs. separates json_text plain_json x" by (simp add: list_all_iff)
  have "JArray xs = y \<and> r = s" if p: "plain_json y" and eq: "json_text (JArray xs) @ r = json_text y @ s" for y r s
  proof -
    obtain ys where y: "y = JArray ys" using json_of_kind(5) [OF p] same_kind [OF JArray.prems p eq] by auto
    have "xs = ys \<and> r = s"
    proof (rule items_separate [OF each])
      show "tl (commas (map json_text xs)) @ CHR '']'' # r = tl (commas (map json_text ys)) @ CHR '']'' # s"
        using eq y by simp
      show "\<exists>a rest. plain_json x \<longrightarrow> json_text x = a # rest \<and> a \<noteq> CHR '']''" for x
        using json_text_starts [of x] by auto
    qed (use p y JArray.prems in simp_all)
    then show ?thesis using y by simp
  qed
  then show ?case unfolding separates_def by blast
next
  case (JObject kvs)
  have each: "\<forall>kv \<in> set kvs. separates property_text (\<lambda>kv. plain_json (snd kv)) kv"
  proof
    fix kv assume kv: "kv \<in> set kvs"
    then have "plain_json (snd kv)" using JObject.prems by (simp add: list_all_iff)
    then have "separates json_text plain_json (snd kv)" using JObject.IH [OF kv, of "snd kv"] by (cases kv) simp
    then show "separates property_text (\<lambda>kv. plain_json (snd kv)) kv" by (rule property_separates)
  qed
  have "JObject kvs = y \<and> r = s" if p: "plain_json y" and eq: "json_text (JObject kvs) @ r = json_text y @ s" for y r s
  proof -
    obtain ys where y: "y = JObject ys" using json_of_kind(6) [OF p] same_kind [OF JObject.prems p eq] by auto
    have "kvs = ys \<and> r = s"
    proof (rule items_separate [OF each])
      show "tl (commas (map property_text kvs)) @ CHR ''}'' # r = tl (commas (map property_text ys)) @ CHR ''}'' # s"
        using eq y by simp
    qed (use p y JObject.prems in \<open>simp_all add: json_quote_def\<close>)
    then show ?thesis using y by simp
  qed
  then show ?case unfolding separates_def by blast
next
  case JNull
  have "JNull = y \<and> r = s" if p: "plain_json y" and eq: "json_text JNull @ r = json_text y @ s" for y r s
    using json_of_kind(1) [OF p] same_kind [OF JNull p eq] eq by auto
  then show ?case unfolding separates_def by blast
next
  case (JBool b)
  have "JBool b = y \<and> r = s" if p: "plain_json y" and eq: "json_text (JBool b) @ r = json_text y @ s" for y r s
    using json_of_kind(2) [OF p] same_kind [OF JBool p eq] eq by (auto split: if_splits)
  then show ?case unfolding separates_def by blast
qed simp

lemma json_text_injective:
  assumes "plain_json x" and "plain_json y" and "json_text x = json_text y"
  shows "x = y"
proof -
  have "ended []" by (simp add: ended_def)
  then show ?thesis using json_text_separates [OF assms(1)] assms(2,3) unfolding separates_def by blast
qed

end
