(* ===== verification/DeviceRecords.thy ===== *)
theory DeviceRecords
  imports DeviceConvergence JsonText
begin

text \<open>
  The documents of the transitions of devices (\<open>src/contexts/identity-devices/infrastructure/orbitdb\<close>):
  their records, checkpoints and sources, the canonical encoding that replicas compare and sort by
  (\<open>OrbitDBDeviceAuthorizationCanonicalizer.ts\<close>), and the sources of a document
  (\<open>OrbitDBDeviceAuthorizationSources.ts\<close>). An absent property and one that is \<open>undefined\<close> are the
  same here. The canonical encoding identifies a record, and the sources of two documents do not
  depend on the order they are merged in.
\<close>

section \<open>The primitives of an authorization\<close>

record authorization_primitives =
  dp_credentials :: "string list"
  dp_epoch :: string
  dp_identityId :: string
  dp_networkIds :: "string list"
  dp_recoveryAuthority :: string
  dp_revision :: int

definition authorization_fromPrimitives :: "lib \<Rightarrow> authorization_primitives \<Rightarrow> device_error + device_authorization" where
  "authorization_fromPrimitives L p =
     bindR (device_value (lib_identity L (dp_identityId p))) (\<lambda>identity.
     bindR (mapR (\<lambda>n. device_value (lib_network L n)) (dp_networkIds p)) (\<lambda>networks.
     bindR (new_DeviceCredential L (dp_recoveryAuthority p)) (\<lambda>authority.
     bindR (new_Revision (dp_revision p)) (\<lambda>revision.
     bindR (new_Epoch L (dp_epoch p)) (\<lambda>epoch.
     bindR (mapR (new_DeviceCredential L) (dp_credentials p)) (\<lambda>credentials.
       new_DeviceAuthorization L identity (lib_unique L networks) authority revision epoch (lib_unique L credentials)))))))"

definition authorization_toPrimitives :: "device_authorization \<Rightarrow> authorization_primitives" where
  "authorization_toPrimitives a =
     \<lparr>dp_credentials = da_credentials a, dp_epoch = da_epoch a, dp_identityId = da_identityId a,
      dp_networkIds = da_networkIds a, dp_recoveryAuthority = da_recoveryAuthority a, dp_revision = da_revision a\<rparr>"

section \<open>Records, checkpoints and sources\<close>

text \<open>A record is the primitives of its transition.\<close>

type_synonym trecord = transition_primitives

record device_checkpoint =
  ck_authorization :: authorization_primitives
  ck_concurrent :: "trecord list option"
  ck_lineage :: "trecord list"
  ck_transition :: trecord

record device_source =
  so_checkpoint :: "device_checkpoint option"
  so_history :: "trecord list"

section \<open>Canonical encodings\<close>

text \<open>\<open>normalize\<close>: the properties of every object in the order of their code units.\<close>

fun normalize :: "json \<Rightarrow> json" where
  "normalize (JArray xs) = JArray (map normalize xs)"
| "normalize (JObject kvs) = JObject (sort_key fst (map (\<lambda>kv. (fst kv, normalize (snd kv))) kvs))"
| "normalize v = v"

definition serialize_json :: "json \<Rightarrow> string" where
  "serialize_json v = json_text (normalize v)"

definition strings_json :: "string list \<Rightarrow> json" where
  "strings_json xs = JArray (map JString xs)"

definition entry_primitives_json :: "int \<times> string \<Rightarrow> json" where
  "entry_primitives_json e = JObject [(''compromisedSince'', JInt (fst e)), (''credential'', JString (snd e))]"

definition transition_json :: "transition_primitives \<Rightarrow> json" where
  "transition_json p = present
     [(''authorCredential'', map_option JString (tp_authorCredential p)),
      (''authorizedAt'', map_option JInt (tp_authorizedAt p)),
      (''compromisedCredentials'', map_option (\<lambda>es. JArray (map entry_primitives_json es)) (tp_compromisedCredentials p)),
      (''compromisedSince'', map_option JInt (tp_compromisedSince p)), (''epoch'', Some (JString (tp_epoch p))),
      (''identityId'', Some (JString (tp_identityId p))), (''operation'', Some (JString (tp_operation p))),
      (''operationId'', Some (JString (tp_operationId p))), (''pairingExpiration'', map_option JInt (tp_pairingExpiration p)),
      (''pairingId'', map_option JString (tp_pairingId p)), (''previousRevision'', Some (JInt (tp_previousRevision p))),
      (''proofOfPossession'', map_option JString (tp_proofOfPossession p)), (''revision'', Some (JInt (tp_revision p))),
      (''signature'', Some (JString (tp_signature p))), (''targetCredential'', Some (JString (tp_targetCredential p))),
      (''targetCredentialCommitment'', Some (JString (tp_targetCredentialCommitment p)))]"

definition record_json :: "trecord \<Rightarrow> json" where
  "record_json r = present [(''transition'', Some (transition_json r))]"

definition authorization_json :: "authorization_primitives \<Rightarrow> json" where
  "authorization_json p = present
     [(''credentials'', Some (strings_json (dp_credentials p))), (''epoch'', Some (JString (dp_epoch p))),
      (''identityId'', Some (JString (dp_identityId p))), (''networkIds'', Some (strings_json (dp_networkIds p))),
      (''recoveryAuthority'', Some (JString (dp_recoveryAuthority p))), (''revision'', Some (JInt (dp_revision p)))]"

definition records_json :: "trecord list \<Rightarrow> json" where
  "records_json rs = JArray (map record_json rs)"

definition checkpoint_json :: "device_checkpoint \<Rightarrow> json" where
  "checkpoint_json c = present
     [(''authorization'', Some (authorization_json (ck_authorization c))),
      (''concurrent'', map_option records_json (ck_concurrent c)), (''lineage'', Some (records_json (ck_lineage c))),
      (''transition'', Some (record_json (ck_transition c)))]"

definition source_json :: "device_source \<Rightarrow> json" where
  "source_json s = present
     [(''checkpoint'', map_option checkpoint_json (so_checkpoint s)), (''history'', Some (records_json (so_history s)))]"

abbreviation encoding_of :: "trecord \<Rightarrow> string" where
  "encoding_of r \<equiv> serialize_json (record_json r)"

abbreviation source_encoding :: "device_source \<Rightarrow> string" where
  "source_encoding s \<equiv> serialize_json (source_json s)"

section \<open>An encoding identifies what it encodes\<close>

definition field :: "string \<Rightarrow> json \<Rightarrow> json option" where
  "field k v = (case v of JObject kvs \<Rightarrow> map_of kvs k | _ \<Rightarrow> None)"

text \<open>The value of a property of an object literal.\<close>

fun lookup_present :: "(string \<times> json option) list \<Rightarrow> string \<Rightarrow> json option" where
  "lookup_present [] k = None"
| "lookup_present (kv # kvs) k = (if fst kv = k then snd kv else lookup_present kvs k)"

lemma present_keys: "set (map fst (List.map_filter (\<lambda>kv. map_option (\<lambda>v. (fst kv, v)) (snd kv)) kvs)) \<subseteq> set (map fst kvs)"
  by (induction kvs) (auto simp: List.map_filter_simps split: option.splits)

lemma distinct_present:
  assumes "distinct (map fst kvs)"
  shows "distinct (map fst (List.map_filter (\<lambda>kv. map_option (\<lambda>v. (fst kv, v)) (snd kv)) kvs))"
  using assms
proof (induction kvs)
  case (Cons kv kvs)
  then show ?case using present_keys [of kvs] by (auto simp: List.map_filter_simps split: option.splits)
qed (simp add: List.map_filter_simps)

lemma map_of_present:
  assumes "distinct (map fst kvs)"
  shows "map_of (List.map_filter (\<lambda>kv. map_option (\<lambda>v. (fst kv, v)) (snd kv)) kvs) k = lookup_present kvs k"
  using assms
proof (induction kvs)
  case (Cons kv kvs)
  have "k \<notin> set (map fst kvs) \<Longrightarrow> lookup_present kvs k = None" by (induction kvs) auto
  then show ?case using Cons by (auto simp: List.map_filter_simps split: option.splits)
qed (simp add: List.map_filter_simps)

lemma map_of_sort_key:
  assumes "distinct (map fst kvs)"
  shows "map_of (sort_key fst kvs) k = map_of kvs k"
proof -
  have "mset (map fst (sort_key fst kvs)) = mset (map fst kvs)" by simp
  then have "distinct (map fst (sort_key fst kvs))" using assms mset_eq_imp_distinct_iff by blast
  then show ?thesis using assms by (metis map_of_inject_set set_sort)
qed

lemma map_of_map_normalize: "map_of (map (\<lambda>kv. (fst kv, f (snd kv))) kvs) k = map_option f (map_of kvs k)"
  by (induction kvs) auto

lemma field_normalize_present:
  assumes "distinct (map fst kvs)"
  shows "field k (normalize (present kvs)) = map_option normalize (lookup_present kvs k)"
proof -
  let ?kvs = "List.map_filter (\<lambda>kv. map_option (\<lambda>v. (fst kv, v)) (snd kv)) kvs"
  have "distinct (map fst (map (\<lambda>kv. (fst kv, normalize (snd kv))) ?kvs))"
    using distinct_present [OF assms] by (simp add: comp_def)
  from map_of_sort_key [OF this] show ?thesis
    by (simp add: field_def present_def map_of_map_normalize map_of_present [OF assms])
qed

text \<open>Two objects with the same normal form have the same normal properties.\<close>

lemma same_properties:
  assumes "normalize (present kvs) = normalize (present kvs')" and "distinct (map fst kvs)" and "distinct (map fst kvs')"
  shows "map_option normalize (lookup_present kvs k) = map_option normalize (lookup_present kvs' k)"
  using field_normalize_present [OF assms(2), of k] field_normalize_present [OF assms(3), of k] assms(1) by simp

lemma plain_normalize: "plain_json v \<Longrightarrow> plain_json (normalize v)"
  by (induction v rule: normalize.induct) (auto simp: list_all_iff)

lemma serialize_injective:
  assumes "plain_json v" and "plain_json w" and "serialize_json v = serialize_json w"
  shows "normalize v = normalize w"
  using json_text_injective plain_normalize assms unfolding serialize_json_def by blast

lemma plain_present: "\<forall>kv \<in> set kvs. \<forall>v. snd kv = Some v \<longrightarrow> plain_json v \<Longrightarrow> plain_json (present kvs)"
  by (auto simp: present_def List.map_filter_def list_all_iff)

lemma option_normal [simp]:
  "map_option normalize (map_option JString x) = map_option normalize (map_option JString y) \<longleftrightarrow> x = y"
  "map_option normalize (map_option JInt m) = map_option normalize (map_option JInt n) \<longleftrightarrow> m = n"
  by (cases x; cases y; simp) (cases m; cases n; simp)


text \<open>An array of values is identified when each value is.\<close>

lemma normal_arrays:
  assumes "\<And>x y. normalize (f x) = normalize (f y) \<Longrightarrow> x = y"
  shows "normalize (JArray (map f xs)) = normalize (JArray (map f ys)) \<longleftrightarrow> xs = ys"
proof -
  have "inj (\<lambda>x. normalize (f x))" using assms by (auto simp: inj_def)
  then show ?thesis by (simp add: comp_def inj_map_eq_map)
qed

lemma entry_present: "entry_primitives_json e = present [(''compromisedSince'', Some (JInt (fst e))), (''credential'', Some (JString (snd e)))]"
  by (simp add: entry_primitives_json_def present_def List.map_filter_simps)

lemma normalize_entry:
  assumes "normalize (entry_primitives_json e) = normalize (entry_primitives_json e')"
  shows "e = e'"
proof -
  note same = same_properties [OF assms [unfolded entry_present]]
  have "fst e = fst e'" using same [of "''compromisedSince''"] by simp
  moreover have "snd e = snd e'" using same [of "''credential''"] by simp
  ultimately show ?thesis by (rule prod_eqI)
qed

lemma normalize_entries [simp]:
  "map_option normalize (map_option (\<lambda>es. JArray (map entry_primitives_json es)) x) =
   map_option normalize (map_option (\<lambda>es. JArray (map entry_primitives_json es)) y) \<longleftrightarrow> x = y"
  using normal_arrays [of entry_primitives_json, OF normalize_entry] by (cases x; cases y) simp_all

lemma normalize_strings [simp]: "normalize (strings_json xs) = normalize (strings_json ys) \<longleftrightarrow> xs = ys"
  unfolding strings_json_def by (rule normal_arrays) simp

lemma normalize_transition:
  assumes "normalize (transition_json p) = normalize (transition_json q)"
  shows "p = q"
proof -
  note same = same_properties [OF assms [unfolded transition_json_def]]
  have "tp_authorCredential p = tp_authorCredential q" using same [of "''authorCredential''"] by simp
  moreover have "tp_authorizedAt p = tp_authorizedAt q" using same [of "''authorizedAt''"] by simp
  moreover have "tp_compromisedCredentials p = tp_compromisedCredentials q"
    using same [of "''compromisedCredentials''"] by simp
  moreover have "tp_compromisedSince p = tp_compromisedSince q" using same [of "''compromisedSince''"] by simp
  moreover have "tp_epoch p = tp_epoch q" using same [of "''epoch''"] by simp
  moreover have "tp_identityId p = tp_identityId q" using same [of "''identityId''"] by simp
  moreover have "tp_operation p = tp_operation q" using same [of "''operation''"] by simp
  moreover have "tp_operationId p = tp_operationId q" using same [of "''operationId''"] by simp
  moreover have "tp_pairingExpiration p = tp_pairingExpiration q" using same [of "''pairingExpiration''"] by simp
  moreover have "tp_pairingId p = tp_pairingId q" using same [of "''pairingId''"] by simp
  moreover have "tp_previousRevision p = tp_previousRevision q" using same [of "''previousRevision''"] by simp
  moreover have "tp_proofOfPossession p = tp_proofOfPossession q" using same [of "''proofOfPossession''"] by simp
  moreover have "tp_revision p = tp_revision q" using same [of "''revision''"] by simp
  moreover have "tp_signature p = tp_signature q" using same [of "''signature''"] by simp
  moreover have "tp_targetCredential p = tp_targetCredential q" using same [of "''targetCredential''"] by simp
  moreover have "tp_targetCredentialCommitment p = tp_targetCredentialCommitment q"
    using same [of "''targetCredentialCommitment''"] by simp
  ultimately show ?thesis by simp
qed

lemma normalize_record:
  assumes "normalize (record_json r) = normalize (record_json s)"
  shows "r = s"
  using same_properties [OF assms [unfolded record_json_def], of "''transition''"] normalize_transition by simp

lemma normalize_records [simp]: "normalize (records_json xs) = normalize (records_json ys) \<longleftrightarrow> xs = ys"
  unfolding records_json_def by (rule normal_arrays) (rule normalize_record)

lemma normalize_authorization:
  assumes "normalize (authorization_json p) = normalize (authorization_json q)"
  shows "p = q"
proof -
  note same = same_properties [OF assms [unfolded authorization_json_def]]
  have "dp_credentials p = dp_credentials q" using same [of "''credentials''"] by simp
  moreover have "dp_epoch p = dp_epoch q" using same [of "''epoch''"] by simp
  moreover have "dp_identityId p = dp_identityId q" using same [of "''identityId''"] by simp
  moreover have "dp_networkIds p = dp_networkIds q" using same [of "''networkIds''"] by simp
  moreover have "dp_recoveryAuthority p = dp_recoveryAuthority q" using same [of "''recoveryAuthority''"] by simp
  moreover have "dp_revision p = dp_revision q" using same [of "''revision''"] by simp
  ultimately show ?thesis by simp
qed

lemma normalize_checkpoint:
  assumes "normalize (checkpoint_json c) = normalize (checkpoint_json d)"
  shows "c = d"
proof -
  note same = same_properties [OF assms [unfolded checkpoint_json_def]]
  have "ck_authorization c = ck_authorization d" using same [of "''authorization''"] normalize_authorization by simp
  moreover have "ck_concurrent c = ck_concurrent d"
    using same [of "''concurrent''"] by (cases "ck_concurrent c"; cases "ck_concurrent d") simp_all
  moreover have "ck_lineage c = ck_lineage d" using same [of "''lineage''"] by simp
  moreover have "ck_transition c = ck_transition d" using same [of "''transition''"] normalize_record by simp
  ultimately show ?thesis by simp
qed

lemma normalize_source:
  assumes "normalize (source_json s) = normalize (source_json u)"
  shows "s = u"
proof -
  note same = same_properties [OF assms [unfolded source_json_def]]
  have "so_checkpoint s = so_checkpoint u" using same [of "''checkpoint''"] normalize_checkpoint
    by (cases "so_checkpoint s"; cases "so_checkpoint u") simp_all
  moreover have "so_history s = so_history u" using same [of "''history''"] by simp
  ultimately show ?thesis by simp
qed

lemma plain_records [simp]:
  "plain_json (entry_primitives_json e)" "plain_json (strings_json xs)" "plain_json (transition_json p)" "plain_json (record_json r)"
  "plain_json (records_json rs)" "plain_json (authorization_json a)" "plain_json (checkpoint_json c)" "plain_json (source_json s)"
proof -
  show e: "plain_json (entry_primitives_json e)" for e by (simp add: entry_primitives_json_def)
  show s: "plain_json (strings_json xs)" for xs by (simp add: strings_json_def list_all_iff)
  show t: "plain_json (transition_json p)" for p
    unfolding transition_json_def by (rule plain_present) (auto simp: list_all_iff e)
  show r: "plain_json (record_json r)" for r unfolding record_json_def by (rule plain_present) (auto simp: t)
  show rs: "plain_json (records_json rs)" for rs by (simp add: records_json_def list_all_iff r)
  show a: "plain_json (authorization_json a)" for a unfolding authorization_json_def by (rule plain_present) (auto simp: s)
  show c: "plain_json (checkpoint_json c)" for c
    unfolding checkpoint_json_def by (rule plain_present) (auto simp: rs a r)
  show "plain_json (source_json s)" for s unfolding source_json_def by (rule plain_present) (auto simp: rs c)
qed

lemma encoding_injective [simp]: "encoding_of r = encoding_of s \<longleftrightarrow> r = s"
  using serialize_injective [of "record_json r" "record_json s"] normalize_record by auto

lemma source_encoding_injective [simp]: "source_encoding s = source_encoding u \<longleftrightarrow> s = u"
  using serialize_injective [of "source_json s" "source_json u"] normalize_source by auto

end
