(* ===== verification/DeviceSources.thy ===== *)
theory DeviceSources
  imports DeviceRecords
begin

text \<open>
  The sources of a document of device transitions (\<open>OrbitDBDeviceAuthorizationSources.ts\<close>) and what
  is replayed of them (\<open>OrbitDBDeviceAuthorizationReplayer.ts\<close>): the unique records, the preferred
  checkpoint with the recoveries that lost to it and still hold, the canonical sources. None of
  them depends on the order in which the sources are given.
\<close>

section \<open>Documents\<close>

datatype device_document = DeviceDocument
  (dd_authorization: authorization_primitives)
  (dd_checkpoint: "device_checkpoint option")
  (dd_genesis: authorization_primitives)
  (dd_history: "trecord list")
  (dd_id: string)
  (dd_identityId: string)
  (dd_sources: "device_source list option")
  (dd_overflow: "device_overflow option")
and device_overflow = DeviceOverflow
  (of_frontier: device_document)
  (of_sources: "device_source list")

section \<open>Transitions of records\<close>

text \<open>\<open>None\<close>: a record that is not the canonical form of its transition.\<close>

definition transitionFromRecord :: "lib \<Rightarrow> trecord \<Rightarrow> device_error + transition option" where
  "transitionFromRecord L r =
     bindR (transition_fromPrimitives L r) (\<lambda>t.
     bindR (transition_toPrimitives L t) (\<lambda>p.
       Inr (if serialize_json (transition_json p) = serialize_json (transition_json r) then Some t else None)))"

definition parsedTransitionOf :: "lib \<Rightarrow> trecord \<Rightarrow> transition option" where
  "parsedTransitionOf L r = (case transitionFromRecord L r of Inl _ \<Rightarrow> None | Inr t \<Rightarrow> t)"

definition candidateOf :: "trecord \<Rightarrow> transition \<Rightarrow> trecord candidate" where
  "candidateOf r t = \<lparr>cd_encoding = encoding_of r, cd_payload = r, cd_transition = t\<rparr>"

text \<open>\<open>outcomeOf\<close> of every record; how many were rejected is only logged.\<close>

definition candidatesOf :: "lib \<Rightarrow> trecord list \<Rightarrow> trecord candidate list" where
  "candidatesOf L history = List.map_filter (\<lambda>r. map_option (candidateOf r) (parsedTransitionOf L r)) history"

definition requireTransitionFromRecord :: "lib \<Rightarrow> trecord \<Rightarrow> device_error + transition" where
  "requireTransitionFromRecord L r = bindR (transitionFromRecord L r) required"

section \<open>Sources\<close>

definition sourceExtends :: "device_source \<Rightarrow> device_source \<Rightarrow> bool" where
  "sourceExtends candidate prefix \<longleftrightarrow>
     (if length (so_history candidate) \<le> length (so_history prefix) \<or> so_checkpoint candidate \<noteq> so_checkpoint prefix
      then False
      else list_all (\<lambda>n. so_history prefix ! n = so_history candidate ! n) [0..<length (so_history prefix)])"

definition uniqueTransitionRecords :: "trecord list list \<Rightarrow> trecord list" where
  "uniqueTransitionRecords histories =
     sort_key (\<lambda>r. (tp_operationId r, encoding_of r))
       (map snd (jsmap_of (map (\<lambda>r. (encoding_of r, r)) (concat histories))))"

definition documentSources :: "device_document \<Rightarrow> device_source list" where
  "documentSources d =
     (case dd_overflow d of
        Some overflow \<Rightarrow> of_sources overflow
      | None \<Rightarrow>
          (case dd_sources d of
             Some sources \<Rightarrow> sources
           | None \<Rightarrow> [\<lparr>so_checkpoint = dd_checkpoint d, so_history = dd_history d\<rparr>]))"

definition effectiveHistory :: "device_document \<Rightarrow> trecord list" where
  "effectiveHistory d = uniqueTransitionRecords (map so_history (documentSources d))"

definition canonicalSources :: "device_source list \<Rightarrow> device_source list" where
  "canonicalSources sources =
     (let candidates = map snd (jsmap_of (map (\<lambda>s. (source_encoding s, s)) sources)) in
      sort_key source_encoding
        (filter (\<lambda>c. \<not> list_ex (\<lambda>other. other \<noteq> c \<and> sourceExtends other c) candidates) candidates))"

definition mergeSourceEvidence :: "device_document \<Rightarrow> device_source list" where
  "mergeSourceEvidence d =
     documentSources d @
     (case dd_overflow d of None \<Rightarrow> [] | Some overflow \<Rightarrow> documentSources (of_frontier overflow))"

section \<open>The preferred checkpoint\<close>

record 'a source_candidate =
  sc_encoding :: string
  sc_payload :: 'a
  sc_revision :: revision

text \<open>The highest revision first.\<close>

definition precedenceOrder :: "'a source_candidate \<Rightarrow> int \<times> string" where
  "precedenceOrder c = (- sc_revision c, sc_encoding c)"

definition preferCheckpoint :: "'a source_candidate list \<Rightarrow> 'a option" where
  "preferCheckpoint cs = (case sort_key precedenceOrder cs of [] \<Rightarrow> None | c # _ \<Rightarrow> Some (sc_payload c))"

definition preferFrontier :: "'a source_candidate list \<Rightarrow> device_error + 'a" where
  "preferFrontier cs = required (preferCheckpoint cs)"

text \<open>
  The walk over the lost recoveries that are held: those a held one recovered from are added while
  it runs. A set keeps each entry once; the entries of \<open>lost\<close> have encodings of their own.
\<close>

fun held_from :: "lib \<Rightarrow> transition \<Rightarrow> 'a candidate list \<Rightarrow> 'a candidate list \<Rightarrow> 'a candidate list
    \<Rightarrow> device_error + 'a candidate list" where
  "held_from L recovered [] held found = Inr found"
| "held_from L recovered (c # cs) held found =
     bindR (epoch_fromRecovery L (tr_operationId (cd_transition c))) (\<lambda>epoch.
       held_from L recovered cs held
         (if tr_epoch recovered = epoch \<and> c \<notin> set held \<union> set found then found @ [c] else found))"

lemma held_from_new:
  assumes "held_from L t cs held found = Inr new"
  shows "set found \<subseteq> set new" and "set new \<subseteq> set found \<union> (set cs - set held)"
proof -
  have "set found \<subseteq> set new \<and> set new \<subseteq> set found \<union> (set cs - set held)"
    using assms by (induction cs arbitrary: found) (fastforce split: if_splits)+
  then show "set found \<subseteq> set new" "set new \<subseteq> set found \<union> (set cs - set held)" by blast+
qed

lemma held_loop_decreases:
  assumes "held_from L t lost held [] = Inr new"
  shows "card (set lost - (set held \<union> set new)) < card (set lost - set held) \<or>
    card (set lost - (set held \<union> set new)) = card (set lost - set held) \<and> new = []"
proof (cases "new = []")
  case False
  then obtain c where "c \<in> set new" by (cases new) auto
  then have "c \<in> set lost - set held" "c \<notin> set lost - (set held \<union> set new)" using held_from_new(2) [OF assms] by auto
  then have "set lost - (set held \<union> set new) \<subset> set lost - set held" by blast
  then show ?thesis by (simp add: psubset_card_mono)
qed simp

function held_loop :: "lib \<Rightarrow> 'a candidate list \<Rightarrow> 'a candidate list \<Rightarrow> 'a candidate list
    \<Rightarrow> device_error + 'a candidate list" where
  "held_loop L lost held [] = Inr held"
| "held_loop L lost held (c # rest) =
     bindR (held_from L (cd_transition c) lost held []) (\<lambda>new. held_loop L lost (held @ new) (rest @ new))"
  by pat_completeness auto
termination
proof (relation "measures [\<lambda>(L, lost, held, rest). card (set lost - set held), \<lambda>(L, lost, held, rest). length rest]",
    goal_cases)
  case (2 L lost held c rest new)
  then show ?case using held_loop_decreases [OF 2] by auto
qed simp

definition heldLostRecoveries :: "lib \<Rightarrow> transition \<Rightarrow> 'a candidate list \<Rightarrow> device_error + 'a list" where
  "heldLostRecoveries L winner lost =
     (let held = filter (\<lambda>c. \<not> isNotLoosenedBy (carriedBy (cd_transition c)) (carriedBy winner)) lost in
      bindR (held_loop L lost held held) (\<lambda>held. Inr (map cd_payload (filter (\<lambda>c. c \<in> set held) lost))))"

text \<open>The candidate of a checkpoint is its recovery without the recoveries that lost to it.\<close>

definition checkpointCandidate :: "device_checkpoint \<Rightarrow> device_error + device_checkpoint source_candidate" where
  "checkpointCandidate c =
     (let recovery = c\<lparr>ck_concurrent := None\<rparr> in
      bindR (new_Revision (dp_revision (ck_authorization c))) (\<lambda>r.
        Inr \<lparr>sc_encoding = serialize_json (checkpoint_json recovery), sc_payload = recovery, sc_revision = r\<rparr>))"

definition recordedRecoveries :: "device_checkpoint list \<Rightarrow> trecord list" where
  "recordedRecoveries checkpoints =
     uniqueTransitionRecords (map (\<lambda>c. ck_lineage c @ [ck_transition c] @
       (case ck_concurrent c of None \<Rightarrow> [] | Some rs \<Rightarrow> rs)) checkpoints)"

definition offLineage :: "device_checkpoint \<Rightarrow> trecord list \<Rightarrow> trecord list" where
  "offLineage preferred records =
     (let preferredPath = map encoding_of (ck_lineage preferred @ [ck_transition preferred]) in
      filter (\<lambda>r. encoding_of r \<notin> set preferredPath) records)"

definition preferredSourceCheckpoint :: "lib \<Rightarrow> device_source list \<Rightarrow> device_error + device_checkpoint option" where
  "preferredSourceCheckpoint L sources =
     (let checkpoints = List.map_filter so_checkpoint sources in
      bindR (mapR checkpointCandidate checkpoints) (\<lambda>candidates.
      case preferCheckpoint candidates of
        None \<Rightarrow> Inr None
      | Some preferred \<Rightarrow>
          bindR (transition_fromPrimitives L (ck_transition preferred)) (\<lambda>winner.
          bindR (mapR (\<lambda>r. bindR (transition_fromPrimitives L r) (\<lambda>t. Inr (candidateOf r t)))
                  (offLineage preferred (recordedRecoveries checkpoints))) (\<lambda>lost.
          bindR (heldLostRecoveries L winner lost) (\<lambda>concurrent.
            Inr (Some (if length concurrent > 0 then preferred\<lparr>ck_concurrent := Some concurrent\<rparr> else preferred)))))))"

definition effectiveCheckpoint :: "lib \<Rightarrow> device_document \<Rightarrow> device_error + device_checkpoint option" where
  "effectiveCheckpoint L d = preferredSourceCheckpoint L (documentSources d)"


section \<open>Sources do not depend on their order\<close>

lemma unique_values:
  assumes "inj f"
  shows "distinct (map snd (jsmap_of (map (\<lambda>x. (f x, x)) xs)))"
    and "set (map snd (jsmap_of (map (\<lambda>x. (f x, x)) xs))) = set xs"
proof -
  let ?m = "jsmap_of (map (\<lambda>x. (f x, x)) xs)"
  have key: "kv \<in> set ?m \<Longrightarrow> fst kv = f (snd kv) \<and> snd kv \<in> set xs" for kv
    using set_jsmap_of_subset [of "map (\<lambda>x. (f x, x)) xs"] by auto
  have "inj_on snd (set ?m)" using key by (auto simp: inj_on_def prod_eq_iff)
  moreover have "distinct ?m" using distinct_keys_jsmap_of [of "map (\<lambda>x. (f x, x)) xs"] by (simp add: distinct_map)
  ultimately show "distinct (map snd ?m)" by (simp add: distinct_map)
  have "fst ` set ?m = f ` set xs" by (simp add: image_image)
  then have "f ` snd ` set ?m = f ` set xs" using key by (metis (no_types, lifting) image_cong image_image)
  then show "set (map snd ?m) = set xs" using inj_image_eq_iff [OF assms] by simp
qed

lemma inj_encoding: "inj encoding_of"
  by (rule injI) simp

lemma inj_source_encoding: "inj source_encoding"
  by (rule injI) simp

text \<open>Sorted by a key that identifies them, two lists without repetitions with the same members are equal.\<close>

lemma sort_key_of_set:
  assumes "distinct xs" and "distinct ys" and "set xs = set ys" and "inj_on f (set xs)"
  shows "sort_key f xs = sort_key f ys"
proof -
  have "mset xs = mset ys" using assms(1-3) by (simp add: set_eq_iff_mset_eq_distinct)
  then have "mset xs = mset (sort_key f ys)" by simp
  then show ?thesis by (rule sort_key_inj_key_eq [OF _ assms(4)]) simp
qed

lemma uniqueTransitionRecords_set [simp]: "set (uniqueTransitionRecords histories) = set (concat histories)"
  unfolding uniqueTransitionRecords_def set_sort unique_values(2) [OF inj_encoding] by simp

lemma uniqueTransitionRecords_distinct [simp]: "distinct (uniqueTransitionRecords histories)"
  unfolding uniqueTransitionRecords_def distinct_sort by (rule unique_values(1) [OF inj_encoding])

lemma uniqueTransitionRecords_cong:
  assumes "set (concat histories) = set (concat histories')"
  shows "uniqueTransitionRecords histories = uniqueTransitionRecords histories'"
  unfolding uniqueTransitionRecords_def
proof (rule sort_key_of_set)
  show "set (map snd (jsmap_of (map (\<lambda>r. (encoding_of r, r)) (concat histories)))) =
      set (map snd (jsmap_of (map (\<lambda>r. (encoding_of r, r)) (concat histories'))))"
    unfolding unique_values(2) [OF inj_encoding] by (rule assms)
qed (rule unique_values(1) [OF inj_encoding], rule unique_values(1) [OF inj_encoding], rule inj_onI, simp)

lemma canonicalSources_set:
  "set (canonicalSources sources) = {s \<in> set sources. \<not> (\<exists>other \<in> set sources. other \<noteq> s \<and> sourceExtends other s)}"
  unfolding canonicalSources_def Let_def set_sort set_filter unique_values(2) [OF inj_source_encoding] list_ex_iff by blast

lemma canonicalSources_distinct [simp]: "distinct (canonicalSources sources)"
  unfolding canonicalSources_def Let_def distinct_sort by (intro distinct_filter unique_values(1) inj_source_encoding)

lemma canonicalSources_sorted: "sorted (map source_encoding (canonicalSources sources))"
  by (simp add: canonicalSources_def Let_def)

lemma canonicalSources_cong:
  assumes "set sources = set sources'"
  shows "canonicalSources sources = canonicalSources sources'"
proof -
  have "sort_key source_encoding (canonicalSources sources) = sort_key source_encoding (canonicalSources sources')"
    using assms by (intro sort_key_of_set) (simp_all add: canonicalSources_set inj_on_def)
  then show ?thesis by (simp add: sort_key_id_if_sorted canonicalSources_sorted)
qed

text \<open>Canonical sources are canonical.\<close>

lemma canonicalSources_again: "canonicalSources (canonicalSources sources) = canonicalSources sources"
proof -
  have "set (canonicalSources (canonicalSources sources)) = set (canonicalSources sources)"
    unfolding canonicalSources_set [of "canonicalSources sources"] using canonicalSources_set [of sources] by auto
  then have "sort_key source_encoding (canonicalSources (canonicalSources sources)) =
      sort_key source_encoding (canonicalSources sources)"
    by (intro sort_key_of_set) (simp_all add: inj_on_def)
  then show ?thesis by (simp add: sort_key_id_if_sorted canonicalSources_sorted)
qed

lemma mapR_either:
  assumes "\<And>x. x \<in> set xs \<Longrightarrow> f x = Inl e \<or> f x = Inr (g x)"
  shows "mapR f xs = (if \<exists>x \<in> set xs. f x = Inl e then Inl e else Inr (map g xs))"
  using assms by (induction xs) fastforce+

lemma preferCheckpoint_cong:
  assumes "set cs = set ds" and "\<And>c d. c \<in> set cs \<Longrightarrow> d \<in> set cs \<Longrightarrow> precedenceOrder c = precedenceOrder d \<Longrightarrow> c = d"
  shows "preferCheckpoint cs = preferCheckpoint ds"
proof (cases "cs = []")
  case True
  then show ?thesis using assms(1) by simp
next
  case False
  have least: "hd (sort_key precedenceOrder xs) \<in> set xs \<and>
      (\<forall>x \<in> set xs. precedenceOrder (hd (sort_key precedenceOrder xs)) \<le> precedenceOrder x)"
    if ne: "xs \<noteq> []" for xs :: "'a source_candidate list"
  proof -
    obtain y ys where y: "sort_key precedenceOrder xs = y # ys"
      using ne by (metis length_0_conv length_sort list.exhaust)
    have "sorted (map precedenceOrder (y # ys))" using sorted_sort_key [of precedenceOrder xs] y by simp
    then show ?thesis using y set_sort [of precedenceOrder xs] by auto
  qed
  have "ds \<noteq> []" using False assms(1) by auto
  note at_ds = least [OF this] and at_cs = least [OF False]
  have "precedenceOrder (hd (sort_key precedenceOrder cs)) = precedenceOrder (hd (sort_key precedenceOrder ds))"
    using at_cs at_ds unfolding assms(1) by (intro antisym) blast+
  then have "hd (sort_key precedenceOrder cs) = hd (sort_key precedenceOrder ds)"
    using at_cs at_ds assms by blast
  moreover have "sort_key precedenceOrder xs = hd (sort_key precedenceOrder xs) # tl (sort_key precedenceOrder xs)"
    if "xs \<noteq> []" for xs :: "'a source_candidate list"
    using that by (metis length_0_conv length_sort list.collapse)
  ultimately show ?thesis using False \<open>ds \<noteq> []\<close> unfolding preferCheckpoint_def by (metis list.simps(5))
qed


lemma checkpointCandidate_same:
  assumes "checkpointCandidate c = Inr x" and "checkpointCandidate d = Inr y" and "precedenceOrder x = precedenceOrder y"
  shows "x = y"
proof -
  have "serialize_json (checkpoint_json (c\<lparr>ck_concurrent := None\<rparr>)) = serialize_json (checkpoint_json (d\<lparr>ck_concurrent := None\<rparr>))"
    using assms by (auto simp: checkpointCandidate_def Let_def precedenceOrder_def)
  then have same: "c\<lparr>ck_concurrent := None\<rparr> = d\<lparr>ck_concurrent := None\<rparr>"
    by (intro normalize_checkpoint serialize_injective) simp_all
  moreover from this have "ck_authorization c = ck_authorization d" by (metis device_checkpoint.select_convs(1) device_checkpoint.surjective device_checkpoint.update_convs(2))
  ultimately show ?thesis using assms(1,2) by (auto simp: checkpointCandidate_def Let_def)
qed

lemma checkpointCandidate_either:
  "checkpointCandidate c = Inl InvalidTransition \<or> checkpointCandidate c = Inr (projr (checkpointCandidate c))"
  by (auto simp: checkpointCandidate_def Let_def new_Revision_def ensure_def)

lemma preferredSourceCheckpoint_cong:
  assumes "set sources = set sources'"
  shows "preferredSourceCheckpoint L sources = preferredSourceCheckpoint L sources'"
proof -
  let ?cs = "List.map_filter so_checkpoint sources" and ?ds = "List.map_filter so_checkpoint sources'"
  let ?bad = "\<lambda>c. checkpointCandidate c = Inl InvalidTransition"
  have same: "set ?cs = set ?ds" using assms by (auto simp: List.map_filter_def)
  have recorded: "recordedRecoveries ?cs = recordedRecoveries ?ds"
    unfolding recordedRecoveries_def using same by (intro uniqueTransitionRecords_cong) simp
  have maps: "mapR checkpointCandidate xs = (if \<exists>c \<in> set xs. ?bad c then Inl InvalidTransition
      else Inr (map (projr \<circ> checkpointCandidate) xs))" for xs
    by (rule mapR_either) (unfold o_apply, rule checkpointCandidate_either)
  show ?thesis
  proof (cases "\<exists>c \<in> set ?cs. ?bad c")
    case True
    then show ?thesis unfolding preferredSourceCheckpoint_def Let_def maps same by simp
  next
    case False
    have ok: "checkpointCandidate c = Inr (projr (checkpointCandidate c))" if "c \<in> set ?cs" for c
      using False that checkpointCandidate_either by blast
    have "preferCheckpoint (map (projr \<circ> checkpointCandidate) ?cs) = preferCheckpoint (map (projr \<circ> checkpointCandidate) ?ds)"
    proof (rule preferCheckpoint_cong)
      show "set (map (projr \<circ> checkpointCandidate) ?cs) = set (map (projr \<circ> checkpointCandidate) ?ds)"
        using same by simp
      fix x y
      assume "x \<in> set (map (projr \<circ> checkpointCandidate) ?cs)" "y \<in> set (map (projr \<circ> checkpointCandidate) ?cs)"
        "precedenceOrder x = precedenceOrder y"
      then show "x = y" using ok checkpointCandidate_same by fastforce
    qed
    then show ?thesis using False unfolding preferredSourceCheckpoint_def Let_def maps recorded same by simp
  qed
qed

end
