(* ===== verification/DeviceReplayer.thy ===== *)
theory DeviceReplayer
  imports DeviceSources
begin

text \<open>
  What is replayed of the sources of a document (\<open>OrbitDBDeviceAuthorizationReplayer.ts\<close>): the state
  of a checkpoint, the rebuilt history, the timeline with its caps, the log that is disclosed page
  by page (\<open>DeviceAuthorizationTransitionLog.ts\<close>, \<open>DeviceAuthorizationTransitionDisclosure.ts\<close>). A
  replay never fails, and the replay of sources does not depend on their order.
\<close>

section \<open>Checkpoints\<close>

definition checkpointState :: "lib \<Rightarrow> device_authorization \<Rightarrow> device_checkpoint \<Rightarrow> device_error + recovery_state" where
  "checkpointState L genesis c =
     bindR (mapR (requireTransitionFromRecord L) (ck_lineage c @ [ck_transition c])) (\<lambda>recoveries.
     bindR (mapR (requireTransitionFromRecord L) (case ck_concurrent c of None \<Rightarrow> [] | Some rs \<Rightarrow> rs)) (\<lambda>concurrent.
     bindR (replayRecoveryLineage L genesis recoveries concurrent) (\<lambda>state.
     bindR (ensure (ck_authorization c = authorization_toPrimitives (rs_authorization state)) InvalidTransition) (\<lambda>_.
       Inr state))))"

definition authorizationFromCheckpoint :: "lib \<Rightarrow> device_authorization \<Rightarrow> device_checkpoint
    \<Rightarrow> device_error + device_authorization" where
  "authorizationFromCheckpoint L genesis c =
     bindR (checkpointState L genesis c) (\<lambda>state. Inr (rs_authorization state))"

text \<open>The genesis, or the authorization of the checkpoint.\<close>

definition baseOf :: "lib \<Rightarrow> device_authorization \<Rightarrow> device_checkpoint option \<Rightarrow> device_error + device_authorization" where
  "baseOf L genesis checkpoint =
     (case checkpoint of None \<Rightarrow> Inr genesis | Some c \<Rightarrow> authorizationFromCheckpoint L genesis c)"

section \<open>Replays\<close>

definition replayFrom :: "lib \<Rightarrow> device_authorization \<Rightarrow> device_checkpoint option \<Rightarrow> trecord list
    \<Rightarrow> device_error + recovery_state \<times> trecord replay_result" where
  "replayFrom L genesis checkpoint history =
     bindR (case checkpoint of
              Some c \<Rightarrow> checkpointState L genesis c
            | None \<Rightarrow> Inr \<lparr>rs_authorization = genesis, rs_caps = []\<rparr>) (\<lambda>base.
     bindR (replay L (rs_authorization base) (candidatesOf L history)) (\<lambda>r. Inr (base, r)))"

definition statesOf :: "lib \<Rightarrow> device_authorization \<Rightarrow> device_checkpoint option \<Rightarrow> trecord list
    \<Rightarrow> device_error + caps \<times> device_authorization list" where
  "statesOf L genesis checkpoint history =
     bindR (replayFrom L genesis checkpoint history) (\<lambda>(base, r).
       Inr (fold withCompromise (map cd_transition (rp_accepted r)) (rs_caps base), rs_authorization base # rp_checkpoints r))"

record device_replay =
  dr_authorization :: device_authorization
  dr_history :: "trecord list"

definition rebuild :: "lib \<Rightarrow> device_authorization \<Rightarrow> trecord list \<Rightarrow> device_error + device_replay" where
  "rebuild L base history =
     bindR (replay L base (candidatesOf L history)) (\<lambda>r.
       Inr \<lparr>dr_authorization = rp_authorization r, dr_history = map cd_payload (rp_accepted r)\<rparr>)"

definition sourceReplay :: "lib \<Rightarrow> device_authorization \<Rightarrow> device_source \<Rightarrow> device_error + device_replay" where
  "sourceReplay L genesis s =
     bindR (baseOf L genesis (so_checkpoint s)) (\<lambda>base. rebuild L base (so_history s))"

text \<open>The records of all sources that the checkpoint does not cover.\<close>

definition historyAbove :: "device_checkpoint option \<Rightarrow> device_source list \<Rightarrow> trecord list" where
  "historyAbove checkpoint sources =
     (let checkpointRevision = (case checkpoint of None \<Rightarrow> 0 | Some c \<Rightarrow> dp_revision (ck_authorization c)) in
      filter (\<lambda>r. tp_previousRevision r \<ge> checkpointRevision) (uniqueTransitionRecords (map so_history sources)))"

definition replaySources :: "lib \<Rightarrow> device_authorization \<Rightarrow> device_source list
    \<Rightarrow> device_error + device_checkpoint option \<times> device_replay" where
  "replaySources L genesis sources =
     bindR (preferredSourceCheckpoint L sources) (\<lambda>checkpoint.
     bindR (baseOf L genesis checkpoint) (\<lambda>base.
     bindR (rebuild L base (historyAbove checkpoint sources)) (\<lambda>r. Inr (checkpoint, r))))"

definition compromiseCapsOfSources :: "lib \<Rightarrow> device_authorization \<Rightarrow> device_source list \<Rightarrow> device_error + caps" where
  "compromiseCapsOfSources L genesis sources =
     bindR (preferredSourceCheckpoint L sources) (\<lambda>checkpoint.
     bindR (statesOf L genesis checkpoint (historyAbove checkpoint sources)) (\<lambda>s. Inr (fst s)))"

text \<open>With a checkpoint every source is rebuilt on it, and one of another checkpoint is emptied.\<close>

definition sourcesAtPreferredCheckpoint :: "lib \<Rightarrow> device_authorization \<Rightarrow> device_source list
    \<Rightarrow> device_error + device_source list" where
  "sourcesAtPreferredCheckpoint L genesis sources =
     bindR (preferredSourceCheckpoint L sources) (\<lambda>checkpoint.
     case checkpoint of
       None \<Rightarrow> Inr (canonicalSources sources)
     | Some c \<Rightarrow>
         bindR (authorizationFromCheckpoint L genesis c) (\<lambda>a.
         bindR (mapR (\<lambda>s.
             bindR (if map_option ck_transition (so_checkpoint s) = Some (ck_transition c)
                    then bindR (rebuild L a (so_history s)) (\<lambda>r. Inr (dr_history r)) else Inr []) (\<lambda>history.
               Inr \<lparr>so_checkpoint = Some c, so_history = history\<rparr>)) sources) (\<lambda>at.
           Inr (canonicalSources at))))"

definition compromiseCapsOf :: "lib \<Rightarrow> device_authorization \<Rightarrow> device_document \<Rightarrow> device_error + caps" where
  "compromiseCapsOf L genesis d =
     (case dd_overflow d of
        Some _ \<Rightarrow> compromiseCapsOfSources L genesis (documentSources d)
      | None \<Rightarrow> bindR (statesOf L genesis (dd_checkpoint d) (dd_history d)) (\<lambda>s. Inr (fst s)))"

definition timelineOf :: "lib \<Rightarrow> device_authorization \<Rightarrow> device_document \<Rightarrow> device_error + timeline" where
  "timelineOf L genesis d =
     (case dd_overflow d of
        Some _ \<Rightarrow>
          bindR (authorization_fromPrimitives L (dd_authorization d)) (\<lambda>suspended.
          bindR (compromiseCapsOf L genesis d) (\<lambda>caps. Inr (new_timeline [suspended] caps)))
      | None \<Rightarrow>
          bindR (statesOf L genesis (dd_checkpoint d) (dd_history d)) (\<lambda>(caps, states).
            Inr (new_timeline states caps)))"

text \<open>Every transition a document records.\<close>

definition recordedTransitions :: "lib \<Rightarrow> device_document \<Rightarrow> device_error + transition list" where
  "recordedTransitions L d =
     bindR (effectiveCheckpoint L d) (\<lambda>checkpoint.
       mapR (requireTransitionFromRecord L)
         (effectiveHistory d @ (case checkpoint of None \<Rightarrow> [] | Some c \<Rightarrow> [ck_transition c])))"

section \<open>The log and its pages\<close>

record transition_log =
  tg_recoveries :: "transition list"
  tg_concurrentRecoveries :: "transition list"
  tg_transitions :: "transition list"
  tg_states :: "device_authorization list"

definition new_TransitionLog :: "transition list \<Rightarrow> transition list \<Rightarrow> transition list \<Rightarrow> device_authorization list
    \<Rightarrow> device_error + transition_log" where
  "new_TransitionLog recoveries concurrent transitions states =
     bindR (ensure (length states > 0) InvalidTransition) (\<lambda>_.
       Inr \<lparr>tg_recoveries = recoveries, tg_concurrentRecoveries = concurrent, tg_transitions = transitions,
            tg_states = states\<rparr>)"

definition transitionLogOf :: "lib \<Rightarrow> device_authorization \<Rightarrow> device_document \<Rightarrow> device_error + transition_log" where
  "transitionLogOf L genesis d =
     (let served = (case dd_overflow d of None \<Rightarrow> d | Some overflow \<Rightarrow> of_frontier overflow);
          checkpoint = dd_checkpoint served in
      bindR (replayFrom L genesis checkpoint (dd_history served)) (\<lambda>(base, r).
      bindR (mapR (requireTransitionFromRecord L)
               (case checkpoint of None \<Rightarrow> [] | Some c \<Rightarrow> ck_lineage c @ [ck_transition c])) (\<lambda>recoveries.
      bindR (mapR (requireTransitionFromRecord L)
               (case checkpoint of None \<Rightarrow> [] | Some c \<Rightarrow> (case ck_concurrent c of None \<Rightarrow> [] | Some rs \<Rightarrow> rs))) (\<lambda>concurrent.
        new_TransitionLog recoveries concurrent (map cd_transition (rp_accepted r))
          (rs_authorization base # rp_checkpoints r)))))"

record disclosure =
  ds_identityId :: identity_id
  ds_recoveries :: "transition list"
  ds_concurrentRecoveries :: "transition list"
  ds_transitions :: "transition list"
  ds_nextCursor :: "revision option"

definition disclose :: "transition_log \<Rightarrow> disclosure" where
  "disclose log =
     \<lparr>ds_identityId = da_identityId (hd (tg_states log)), ds_recoveries = tg_recoveries log,
      ds_concurrentRecoveries = tg_concurrentRecoveries log, ds_transitions = tg_transitions log, ds_nextCursor = None\<rparr>"

text \<open>
  The revision a transition leads to. A transition of a log has one: it was read from a record,
  whose revision is checked.
\<close>

abbreviation landsAt :: "transition \<Rightarrow> revision" where
  "landsAt t \<equiv> tr_previousRevision t + 1"

text \<open>The loop over the revisions in ascending order: whole revisions while they fit, the first always.\<close>

fun page_loop :: "(revision \<Rightarrow> nat) \<Rightarrow> nat \<Rightarrow> revision list \<Rightarrow> nat \<Rightarrow> revision option \<Rightarrow> revision option" where
  "page_loop countAt limit [] served lastRevision = lastRevision"
| "page_loop countAt limit (r # rs) served lastRevision =
     (if lastRevision \<noteq> None \<and> served + countAt r > limit then lastRevision
      else page_loop countAt limit rs (served + countAt r) (Some r))"

definition page :: "revision \<Rightarrow> nat \<Rightarrow> disclosure \<Rightarrow> disclosure" where
  "page cursor limit d =
     (let above = (\<lambda>ts. sort_key landsAt (filter (\<lambda>t. landsAt t > cursor) ts));
          recoveries = above (ds_recoveries d);
          concurrent = above (ds_concurrentRecoveries d);
          transitions = above (ds_transitions d);
          all = recoveries @ concurrent @ transitions;
          revisions = sort (remdups (map landsAt all));
          countAt = (\<lambda>r. length (filter (\<lambda>t. landsAt t = r) all));
          lastRevision = page_loop countAt limit revisions 0 None;
          included = (\<lambda>t. case lastRevision of None \<Rightarrow> False | Some r \<Rightarrow> landsAt t \<le> r);
          hasMore = (case lastRevision of None \<Rightarrow> False | Some r \<Rightarrow> last revisions > r) in
      \<lparr>ds_identityId = ds_identityId d, ds_recoveries = filter included recoveries,
       ds_concurrentRecoveries = filter included concurrent, ds_transitions = filter included transitions,
       ds_nextCursor = (if hasMore then lastRevision else None)\<rparr>)"

end
