(* ===== verification/DeviceDocuments.thy ===== *)
theory DeviceDocuments
  imports DeviceReplayer
begin

text \<open>
  The documents of device transitions under \<open>src/contexts/identity-devices/infrastructure/orbitdb\<close>:
  their bounds (\<open>...DocumentShape.ts\<close>), how they are made (\<open>...DocumentFactory.ts\<close>), when one is
  valid (\<open>...DocumentValidator.ts\<close>), how two are merged (\<open>...DocumentMerger.ts\<close>) and what a
  transition makes of one (\<open>...TransitionProjector.ts\<close>, \<open>...Repository.ts\<close>). A document has the
  types its interface declares, so only the checks that values of those types can fail are here.
\<close>

section \<open>Bounds\<close>

definition MAX_CONCURRENT_TRANSITIONS :: nat where "MAX_CONCURRENT_TRANSITIONS = 128"
definition MAX_TRANSITION_RECORDS :: nat where "MAX_TRANSITION_RECORDS = 256"
definition MAX_TRANSITION_HISTORY_BYTES :: nat where "MAX_TRANSITION_HISTORY_BYTES = 1048576"
definition MAX_TRANSITION_RECORD_BYTES :: nat where "MAX_TRANSITION_RECORD_BYTES = 16384"
definition MAX_OVERFLOW_SOURCE_RECORDS :: nat where "MAX_OVERFLOW_SOURCE_RECORDS = 512"
definition MAX_OVERFLOW_SOURCE_BYTES :: nat where "MAX_OVERFLOW_SOURCE_BYTES = 2200000"
definition MAX_DOCUMENT_ADMISSION_BYTES :: nat where "MAX_DOCUMENT_ADMISSION_BYTES = 6000000"
definition MAX_DOCUMENT_ADMISSION_NODES :: nat where "MAX_DOCUMENT_ADMISSION_NODES = 100000"
definition MAX_DOCUMENT_ADMISSION_DEPTH :: nat where "MAX_DOCUMENT_ADMISSION_DEPTH = 64"

text \<open>\<open>Buffer.byteLength(JSON.stringify(value), 'utf8')\<close>, whatever the order of the properties.\<close>

definition bytesOf :: "json \<Rightarrow> nat" where
  "bytesOf v = length (json_text v)"

definition isBoundedTransitionRecord :: "trecord \<Rightarrow> bool" where
  "isBoundedTransitionRecord r \<longleftrightarrow> bytesOf (record_json r) \<le> MAX_TRANSITION_RECORD_BYTES"

definition previousRevisionOf :: "trecord \<Rightarrow> revision option" where
  "previousRevisionOf r =
     (let p = tp_previousRevision r in if safe_integer p \<and> p \<ge> 0 then Some p else None)"

definition hasBoundedRecords :: "trecord list \<Rightarrow> nat \<Rightarrow> bool" where
  "hasBoundedRecords records limit \<longleftrightarrow> length records \<le> limit \<and> list_all isBoundedTransitionRecord records"

definition hasConcurrentShape :: "trecord list option \<Rightarrow> bool" where
  "hasConcurrentShape concurrent \<longleftrightarrow>
     (case concurrent of None \<Rightarrow> True
      | Some rs \<Rightarrow> length rs > 0 \<and> hasBoundedRecords rs MAX_CONCURRENT_TRANSITIONS)"

definition hasCheckpointShape :: "device_checkpoint option \<Rightarrow> bool" where
  "hasCheckpointShape checkpoint \<longleftrightarrow>
     (case checkpoint of None \<Rightarrow> True
      | Some c \<Rightarrow> hasConcurrentShape (ck_concurrent c) \<and> hasBoundedRecords (ck_lineage c) 1024 \<and>
          isBoundedTransitionRecord (ck_transition c))"

definition hasSourceShape :: "device_source \<Rightarrow> bool" where
  "hasSourceShape s \<longleftrightarrow> hasCheckpointShape (so_checkpoint s)"

fun history_loop :: "trecord list \<Rightarrow> nat \<Rightarrow> (revision, nat) jsmap \<Rightarrow> bool" where
  "history_loop [] historyBytes recordsByRevision = True"
| "history_loop (r # rs) historyBytes recordsByRevision =
     (if \<not> isBoundedTransitionRecord r then False
      else let historyBytes = historyBytes + bytesOf (record_json r) in
        if historyBytes > MAX_TRANSITION_HISTORY_BYTES then False
        else case previousRevisionOf r of
          None \<Rightarrow> False
        | Some p \<Rightarrow>
            let many = (case map_of recordsByRevision p of None \<Rightarrow> 0 | Some n \<Rightarrow> n) + 1 in
            if many > MAX_CONCURRENT_TRANSITIONS then False
            else history_loop rs historyBytes (AList.update p many recordsByRevision))"

definition hasBoundedHistoryShape :: "trecord list \<Rightarrow> bool" where
  "hasBoundedHistoryShape history \<longleftrightarrow>
     (if length history > MAX_TRANSITION_RECORDS then False else history_loop history 0 [])"

definition recordCount :: "device_source list \<Rightarrow> nat" where
  "recordCount sources = fold (\<lambda>s n. n + length (so_history s)) sources 0"

definition hasBoundedSourcesShape :: "device_source list \<Rightarrow> bool" where
  "hasBoundedSourcesShape sources \<longleftrightarrow>
     length sources > 0 \<and> recordCount sources \<le> MAX_TRANSITION_RECORDS \<and>
     bytesOf (JArray (map source_json sources)) \<le> MAX_TRANSITION_HISTORY_BYTES"

definition hasBoundedOverflowSourcesShape :: "device_source list \<Rightarrow> bool" where
  "hasBoundedOverflowSourcesShape sources \<longleftrightarrow>
     recordCount sources \<le> MAX_OVERFLOW_SOURCE_RECORDS \<and>
     bytesOf (JArray (map source_json sources)) \<le> MAX_OVERFLOW_SOURCE_BYTES"

definition hasBoundedProjection :: "device_replay \<Rightarrow> device_source list \<Rightarrow> bool" where
  "hasBoundedProjection r sources \<longleftrightarrow> hasBoundedSourcesShape sources \<and> hasBoundedHistoryShape (dr_history r)"

section \<open>Admission of a value\<close>

definition admitDocumentNode :: "json \<Rightarrow> (nat \<times> json list) option" where
  "admitDocumentNode v =
     (case v of
        JString s \<Rightarrow> Some (length s, [])
      | JArray xs \<Rightarrow> if length xs \<le> 1024 then Some (0, xs) else None
      | JObject kvs \<Rightarrow>
          if length kvs \<le> 32 then Some (fold (\<lambda>kv n. n + length (fst kv)) kvs 0, map snd kvs) else None
      | _ \<Rightarrow> Some (8, []))"

definition exceedsAdmissionTraversal :: "nat \<Rightarrow> nat \<Rightarrow> bool" where
  "exceedsAdmissionTraversal nodes depth \<longleftrightarrow>
     nodes > MAX_DOCUMENT_ADMISSION_NODES \<or> depth > MAX_DOCUMENT_ADMISSION_DEPTH"

fun nodes_of :: "json \<Rightarrow> nat" where
  "nodes_of (JArray xs) = 1 + sum_list (map nodes_of xs)"
| "nodes_of (JObject kvs) = 1 + sum_list (map (\<lambda>kv. nodes_of (snd kv)) kvs)"
| "nodes_of _ = 1"

lemma nodes_of_children: "admitDocumentNode v = Some (b, children) \<Longrightarrow> sum_list (map nodes_of children) < nodes_of v"
  by (cases v) (auto simp: admitDocumentNode_def comp_def split: if_splits)

text \<open>The stack of values to visit, its top first.\<close>

function admission_loop :: "(nat \<times> json) list \<Rightarrow> nat \<Rightarrow> nat \<Rightarrow> bool" where
  "admission_loop [] bytes nodes = True"
| "admission_loop ((depth, v) # stack) bytes nodes =
     (if exceedsAdmissionTraversal (nodes + 1) depth then False
      else case admitDocumentNode v of
        None \<Rightarrow> False
      | Some (b, children) \<Rightarrow>
          if bytes + b > MAX_DOCUMENT_ADMISSION_BYTES then False
          else admission_loop (rev (map (\<lambda>c. (depth + 1, c)) children) @ stack) (bytes + b) (nodes + 1))"
  by pat_completeness auto
termination
proof (relation "measure (\<lambda>(stack, _). sum_list (map (\<lambda>dv. nodes_of (snd dv)) stack))", goal_cases)
  case (2 depth v stack bytes nodes p b children)
  then show ?case using nodes_of_children [of v b children] by (simp add: rev_map [symmetric] comp_def sum_list_rev)
qed simp

definition hasDocumentAdmissionShape :: "json \<Rightarrow> bool" where
  "hasDocumentAdmissionShape v = admission_loop [(0, v)] 0 0"

primrec document_json :: "device_document \<Rightarrow> json" and overflow_json :: "device_overflow \<Rightarrow> json" where
  "document_json (DeviceDocument authorization checkpoint genesis history i identityId sources overflow) = present
     [(''authorization'', Some (authorization_json authorization)), (''checkpoint'', map_option checkpoint_json checkpoint),
      (''genesis'', Some (authorization_json genesis)), (''history'', Some (records_json history)),
      (''id'', Some (JString i)), (''identityId'', Some (JString identityId)),
      (''kind'', Some (JString ''device_authorization'')), (''overflow'', map_option overflow_json overflow),
      (''sources'', map_option (\<lambda>ss. JArray (map source_json ss)) sources)]"
| "overflow_json (DeviceOverflow frontier sources) =
     present [(''frontier'', Some (document_json frontier)), (''sources'', Some (JArray (map source_json sources)))]"

section \<open>Overflow\<close>

record 'a overflow_bound =
  ob_fitsProjection :: "'a list \<Rightarrow> device_error + bool"
  ob_fitsReplayedHistory :: "'a list \<Rightarrow> device_error + bool"
  ob_fitsSources :: "'a list \<Rightarrow> bool"

definition fitsOverflowMeasure :: "'a overflow_bound \<Rightarrow> bool \<Rightarrow> 'a list \<Rightarrow> device_error + bool" where
  "fitsOverflowMeasure bound completeHistoryFits sources =
     (if completeHistoryFits then Inr (ob_fitsSources bound sources) else ob_fitsProjection bound sources)"

text \<open>The prefixes of \<open>sources\<close>, the first \<open>n\<close> and longer ones.\<close>

fun witness_loop :: "'a overflow_bound \<Rightarrow> bool \<Rightarrow> 'a list \<Rightarrow> nat list \<Rightarrow> device_error + 'a list" where
  "witness_loop bound fits sources [] = Inl InvalidTransition"
| "witness_loop bound fits sources (n # ns) =
     bindR (fitsOverflowMeasure bound fits (take n sources)) (\<lambda>b.
       if \<not> b then Inr (take n sources) else witness_loop bound fits sources ns)"

definition minimalOverflowWitness :: "'a list \<Rightarrow> 'a overflow_bound \<Rightarrow> device_error + 'a list" where
  "minimalOverflowWitness sources bound =
     bindR (ob_fitsReplayedHistory bound sources) (\<lambda>fits.
       witness_loop bound fits sources [1..<length sources + 1])"

definition isMinimalOverflowWitness :: "'a list \<Rightarrow> 'a overflow_bound \<Rightarrow> device_error + bool" where
  "isMinimalOverflowWitness sources bound =
     (if length sources = 0 then Inr False
      else bindR (ob_fitsReplayedHistory bound sources) (\<lambda>fits.
        if fits \<and> ob_fitsSources bound sources then Inr False
        else fitsOverflowMeasure bound fits (butlast sources)))"

definition suspendAtOverflow :: "lib \<Rightarrow> device_authorization \<Rightarrow> revision \<Rightarrow> device_error + device_authorization" where
  "suspendAtOverflow L replayed frontierRevision =
     (let latestRevision = (if da_revision replayed > frontierRevision then da_revision replayed else frontierRevision) in
      bindR (revision_next latestRevision) (\<lambda>r. requireRecoveryAt L r replayed))"

section \<open>Making documents\<close>

definition documentId :: "identity_id \<Rightarrow> string" where
  "documentId i = ''device-authorization:'' @ i"

definition documentFromReplay :: "device_authorization \<Rightarrow> device_replay \<Rightarrow> device_source list
    \<Rightarrow> device_checkpoint option \<Rightarrow> device_error + device_document" where
  "documentFromReplay genesis r sources checkpoint =
     bindR (ensure (hasBoundedHistoryShape (dr_history r) \<and> hasBoundedSourcesShape sources) InvalidTransition) (\<lambda>_.
       Inr (DeviceDocument (authorization_toPrimitives (dr_authorization r)) checkpoint (authorization_toPrimitives genesis)
              (dr_history r) (documentId (da_identityId (dr_authorization r))) (da_identityId (dr_authorization r))
              (Some sources) None))"

definition toDocument :: "lib \<Rightarrow> device_authorization \<Rightarrow> trecord list \<Rightarrow> device_checkpoint option
    \<Rightarrow> device_source list option \<Rightarrow> device_error + device_document" where
  "toDocument L genesis history checkpoint sources =
     bindR (ensure (hasBoundedHistoryShape history) InvalidTransition) (\<lambda>_.
     bindR (baseOf L genesis checkpoint) (\<lambda>base.
     bindR (rebuild L base history) (\<lambda>r.
     bindR (sourcesAtPreferredCheckpoint L genesis (canonicalSources
              (case sources of Some ss \<Rightarrow> ss
               | None \<Rightarrow> [\<lparr>so_checkpoint = checkpoint, so_history = dr_history r\<rparr>]))) (\<lambda>canonical.
     bindR (replaySources L genesis canonical) (\<lambda>(checkpoint, projection).
       documentFromReplay genesis projection canonical checkpoint)))))"

definition overflowBound :: "lib \<Rightarrow> device_authorization \<Rightarrow> device_source overflow_bound" where
  "overflowBound L genesis =
     \<lparr>ob_fitsProjection = (\<lambda>sources. bindR (replaySources L genesis sources) (\<lambda>(_, r). Inr (hasBoundedProjection r sources))),
      ob_fitsReplayedHistory = (\<lambda>sources. bindR (replaySources L genesis sources) (\<lambda>(_, r).
        Inr (hasBoundedHistoryShape (dr_history r)))),
      ob_fitsSources = hasBoundedSourcesShape\<rparr>"

definition frontierFromSources :: "lib \<Rightarrow> device_authorization \<Rightarrow> device_source list \<Rightarrow> device_error + device_document" where
  "frontierFromSources L genesis sources =
     bindR (mapR (\<lambda>s. bindR (sourceReplay L genesis s) (\<lambda>r.
              Inr \<lparr>sc_encoding = source_encoding s, sc_payload = s, sc_revision = da_revision (dr_authorization r)\<rparr>))
            sources) (\<lambda>candidates.
     bindR (preferFrontier candidates) (\<lambda>frontier.
       toDocument L genesis (so_history frontier) (so_checkpoint frontier) (Some [frontier])))"

definition overflowDocument :: "lib \<Rightarrow> device_authorization \<Rightarrow> device_source list \<Rightarrow> device_document
    \<Rightarrow> device_error + device_document" where
  "overflowDocument L genesis sources frontier =
     bindR (minimalOverflowWitness sources (overflowBound L genesis)) (\<lambda>witness.
     bindR (replaySources L genesis witness) (\<lambda>(_, r).
     bindR (new_Revision (dp_revision (dd_authorization frontier))) (\<lambda>frontierRevision.
     bindR (suspendAtOverflow L (dr_authorization r) frontierRevision) (\<lambda>suspended.
       Inr (DeviceDocument (authorization_toPrimitives suspended) None (authorization_toPrimitives genesis) []
              (documentId (da_identityId genesis)) (da_identityId genesis) (Some [])
              (Some (DeviceOverflow frontier witness)))))))"

end
