(* ===== verification/DeviceMerge.thy ===== *)
theory DeviceMerge
  imports DeviceDocuments
begin

text \<open>
  When a document of device transitions is valid (\<open>...DocumentValidator.ts\<close>), how two of them are
  merged (\<open>...DocumentMerger.ts\<close>, \<open>...GenesisMatcher.ts\<close>) and what a transition makes of one
  (\<open>...TransitionProjector.ts\<close>, \<open>...Repository.ts\<close>). The cache of the validator, keyed by a digest
  of the whole value, only saves work and is left out. The trusted genesis of an identity comes
  from the verified chain of the identity and is an argument.
\<close>

section \<open>The same genesis\<close>

definition sameAuthorizationGenesis :: "authorization_primitives \<Rightarrow> authorization_primitives \<Rightarrow> bool" where
  "sameAuthorizationGenesis left right \<longleftrightarrow>
     dp_identityId left = dp_identityId right \<and> dp_epoch left = dp_epoch right \<and>
     dp_recoveryAuthority left = dp_recoveryAuthority right \<and> dp_revision left = dp_revision right \<and>
     dp_credentials left = dp_credentials right"

definition sameGenesis :: "device_document \<Rightarrow> device_document \<Rightarrow> bool" where
  "sameGenesis left right \<longleftrightarrow> sameAuthorizationGenesis (dd_genesis left) (dd_genesis right)"

definition hasTrustedGenesis :: "device_document \<Rightarrow> device_authorization \<Rightarrow> bool" where
  "hasTrustedGenesis d genesis \<longleftrightarrow> sameAuthorizationGenesis (dd_genesis d) (authorization_toPrimitives genesis)"

section \<open>Validity\<close>

text \<open>\<open>a && b\<close> where \<open>b\<close> may throw.\<close>

definition andThen :: "bool \<Rightarrow> (unit \<Rightarrow> 'e + bool) \<Rightarrow> 'e + bool" where
  "andThen a b = (if a then b () else Inr False)"

definition hasValidGenesis :: "device_document \<Rightarrow> device_authorization \<Rightarrow> bool" where
  "hasValidGenesis d genesis \<longleftrightarrow>
     dd_id d = documentId (da_identityId genesis) \<and> dd_identityId d = da_identityId genesis \<and>
     da_revision genesis = 0 \<and> length (da_credentials genesis) = 1"

definition matchesReplay :: "device_document \<Rightarrow> device_replay \<Rightarrow> bool" where
  "matchesReplay d r \<longleftrightarrow>
     dd_authorization d = authorization_toPrimitives (dr_authorization r) \<and> dd_history d = dr_history r"

definition isValidSource :: "lib \<Rightarrow> device_authorization \<Rightarrow> device_source \<Rightarrow> device_error + bool" where
  "isValidSource L genesis s =
     andThen (hasBoundedHistoryShape (so_history s)) (\<lambda>_.
       bindR (sourceReplay L genesis s) (\<lambda>r. Inr (dr_history r = so_history s)))"

text \<open>\<open>sources.every(...)\<close>\<close>

fun everySource :: "(device_source \<Rightarrow> device_error + bool) \<Rightarrow> device_source list \<Rightarrow> device_error + bool" where
  "everySource f [] = Inr True"
| "everySource f (s # ss) = bindR (f s) (\<lambda>b. if b then everySource f ss else Inr False)"

definition areValidSources :: "lib \<Rightarrow> device_authorization \<Rightarrow> device_source list \<Rightarrow> device_error + bool" where
  "areValidSources L genesis sources =
     everySource (\<lambda>s. andThen (hasSourceShape s) (\<lambda>_. isValidSource L genesis s)) sources"

definition hasValidSources :: "lib \<Rightarrow> device_document \<Rightarrow> device_authorization \<Rightarrow> device_error + bool" where
  "hasValidSources L d genesis =
     (let sources = documentSources d in
      andThen (hasBoundedSourcesShape sources \<and> sources = canonicalSources sources) (\<lambda>_.
      bindR (areValidSources L genesis sources) (\<lambda>valid.
      andThen valid (\<lambda>_.
      bindR (sourcesAtPreferredCheckpoint L genesis sources) (\<lambda>normalized.
      bindR (replaySources L genesis normalized) (\<lambda>(checkpoint, r).
        Inr (sources = normalized \<and> dd_checkpoint d = checkpoint \<and> matchesReplay d r)))))))"

definition hasEmptyOverflowProjection :: "device_document \<Rightarrow> bool" where
  "hasEmptyOverflowProjection d \<longleftrightarrow>
     dd_checkpoint d = None \<and> length (dd_history d) = 0 \<and>
     (case dd_sources d of None \<Rightarrow> 0 | Some ss \<Rightarrow> length ss) = 0"

text \<open>\<open>check\<close> is \<open>isDocument\<close> on the frontier, which has no overflow itself.\<close>

definition hasDominantOverflowFrontier :: "lib \<Rightarrow> (device_document \<Rightarrow> bool) \<Rightarrow> device_document \<Rightarrow> device_authorization
    \<Rightarrow> device_overflow \<Rightarrow> device_error + bool" where
  "hasDominantOverflowFrontier L check d genesis overflow =
     (let frontier = of_frontier overflow in
      if dd_overflow frontier \<noteq> None \<or> \<not> check frontier \<or> length (documentSources frontier) \<noteq> 1 \<or> \<not> sameGenesis d frontier
      then Inr False
      else bindR (sourcesAtPreferredCheckpoint L genesis
                   (canonicalSources (of_sources overflow @ documentSources frontier))) (\<lambda>sources.
           bindR (frontierFromSources L genesis sources) (\<lambda>expected. Inr (frontier = expected))))"

definition isMinimalOverflowSources :: "lib \<Rightarrow> device_authorization \<Rightarrow> device_source list \<Rightarrow> device_error + bool" where
  "isMinimalOverflowSources L genesis sources =
     andThen (hasBoundedOverflowSourcesShape sources \<and> sources = canonicalSources sources) (\<lambda>_.
     bindR (sourcesAtPreferredCheckpoint L genesis sources) (\<lambda>normalized.
     andThen (sources = normalized) (\<lambda>_.
     bindR (areValidSources L genesis sources) (\<lambda>valid.
     andThen valid (\<lambda>_. isMinimalOverflowWitness sources (overflowBound L genesis))))))"

definition hasValidOverflowEvidence :: "lib \<Rightarrow> (device_document \<Rightarrow> bool) \<Rightarrow> device_document \<Rightarrow> device_overflow
    \<Rightarrow> device_error + bool" where
  "hasValidOverflowEvidence L check d overflow =
     andThen (hasEmptyOverflowProjection d) (\<lambda>_.
     bindR (authorization_fromPrimitives L (dd_genesis d)) (\<lambda>genesis.
     bindR (hasDominantOverflowFrontier L check d genesis overflow) (\<lambda>dominant.
     andThen dominant (\<lambda>_. isMinimalOverflowSources L genesis (of_sources overflow)))))"

definition isOverflowDocument :: "lib \<Rightarrow> (device_document \<Rightarrow> bool) \<Rightarrow> device_document \<Rightarrow> device_overflow
    \<Rightarrow> device_error + bool" where
  "isOverflowDocument L check d overflow =
     bindR (hasValidOverflowEvidence L check d overflow) (\<lambda>valid.
     andThen valid (\<lambda>_.
     bindR (authorization_fromPrimitives L (dd_genesis d)) (\<lambda>genesis.
     bindR (replaySources L genesis (of_sources overflow)) (\<lambda>(_, r).
     bindR (new_Revision (dp_revision (dd_authorization (of_frontier overflow)))) (\<lambda>frontierRevision.
     bindR (suspendAtOverflow L (dr_authorization r) frontierRevision) (\<lambda>suspended.
       Inr (hasValidGenesis d genesis \<and> dd_genesis d = authorization_toPrimitives genesis \<and>
            dd_authorization d = authorization_toPrimitives suspended)))))))"

definition hasDocumentShape :: "device_document \<Rightarrow> bool" where
  "hasDocumentShape d \<longleftrightarrow> hasCheckpointShape (dd_checkpoint d) \<and> (dd_overflow d = None \<or> dd_checkpoint d = None)"

definition validateDocument :: "lib \<Rightarrow> (device_document \<Rightarrow> bool) \<Rightarrow> device_document \<Rightarrow> device_error + bool" where
  "validateDocument L check d =
     andThen (hasDocumentShape d) (\<lambda>_.
       case dd_overflow d of
         Some overflow \<Rightarrow> isOverflowDocument L check d overflow
       | None \<Rightarrow>
           andThen (hasBoundedHistoryShape (dd_history d)) (\<lambda>_.
           bindR (authorization_fromPrimitives L (dd_genesis d)) (\<lambda>genesis.
           andThen (hasValidGenesis d genesis \<and> dd_genesis d = authorization_toPrimitives genesis) (\<lambda>_.
             hasValidSources L d genesis))))"

text \<open>An error makes a document invalid.\<close>

definition isDocumentWith :: "lib \<Rightarrow> (device_document \<Rightarrow> bool) \<Rightarrow> device_document \<Rightarrow> bool" where
  "isDocumentWith L check d \<longleftrightarrow>
     hasDocumentAdmissionShape (document_json d) \<and> bytesOf (document_json d) \<le> MAX_DOCUMENT_ADMISSION_BYTES \<and>
     (case validateDocument L check d of Inl _ \<Rightarrow> False | Inr b \<Rightarrow> b)"

definition isDocument :: "lib \<Rightarrow> device_document \<Rightarrow> bool" where
  "isDocument L = isDocumentWith L (isDocumentWith L (\<lambda>_. False))"

section \<open>Merging documents\<close>

definition conflictsWithTrustedGenesis :: "(identity_id \<Rightarrow> device_authorization option) \<Rightarrow> device_document \<Rightarrow> bool" where
  "conflictsWithTrustedGenesis trusted d \<longleftrightarrow>
     (case trusted (dd_identityId d) of None \<Rightarrow> True
      | Some genesis \<Rightarrow> \<not> sameAuthorizationGenesis (dd_genesis d) (authorization_toPrimitives genesis))"

definition trustedDocument :: "lib \<Rightarrow> (identity_id \<Rightarrow> device_authorization option) \<Rightarrow> device_document option
    \<Rightarrow> device_document option" where
  "trustedDocument L trusted v =
     (case v of None \<Rightarrow> None
      | Some d \<Rightarrow>
          if \<not> isDocument L d then None
          else if conflictsWithTrustedGenesis trusted d then None else Some d)"

record merged_replay =
  mr_checkpoint :: "device_checkpoint option"
  mr_genesis :: device_authorization
  mr_replay :: device_replay
  mr_sources :: "device_source list"

definition mergedReplay :: "lib \<Rightarrow> device_document \<Rightarrow> device_document \<Rightarrow> device_error + merged_replay" where
  "mergedReplay L left right =
     bindR (authorization_fromPrimitives L (dd_genesis left)) (\<lambda>genesis.
     bindR (sourcesAtPreferredCheckpoint L genesis
              (canonicalSources (mergeSourceEvidence left @ mergeSourceEvidence right))) (\<lambda>sources.
     bindR (replaySources L genesis sources) (\<lambda>(checkpoint, r).
       Inr \<lparr>mr_checkpoint = checkpoint, mr_genesis = genesis, mr_replay = r, mr_sources = sources\<rparr>)))"

definition recoverySupersedesOverflow :: "device_document \<Rightarrow> device_document \<Rightarrow> device_error + bool" where
  "recoverySupersedesOverflow candidate overflow =
     (case dd_checkpoint candidate of None \<Rightarrow> Inr False
      | Some c \<Rightarrow>
          bindR (new_Revision (dp_revision (ck_authorization c))) (\<lambda>checkpointRevision.
          bindR (new_Revision (dp_revision (dd_authorization overflow))) (\<lambda>overflowRevision.
            Inr (checkpointRevision > overflowRevision \<or> checkpointRevision = overflowRevision))))"

definition supersedingRecovery :: "device_document \<Rightarrow> device_document \<Rightarrow> device_error + device_document option" where
  "supersedingRecovery left right =
     bindR (if dd_overflow left \<noteq> None \<and> dd_overflow right = None then recoverySupersedesOverflow right left
            else Inr False) (\<lambda>rightWins.
     if rightWins then Inr (Some right)
     else bindR (if dd_overflow right \<noteq> None \<and> dd_overflow left = None then recoverySupersedesOverflow left right
                 else Inr False) (\<lambda>leftWins.
          Inr (if leftWins then Some left else None)))"

definition overflowOf :: "lib \<Rightarrow> merged_replay \<Rightarrow> device_error + device_document" where
  "overflowOf L m =
     bindR (frontierFromSources L (mr_genesis m) (mr_sources m)) (\<lambda>frontier.
       overflowDocument L (mr_genesis m) (mr_sources m) frontier)"

definition mergeOverflow :: "lib \<Rightarrow> device_document \<Rightarrow> device_document \<Rightarrow> device_error + device_document option" where
  "mergeOverflow L left right =
     (if dd_overflow left = None \<and> dd_overflow right = None then Inr None
      else bindR (supersedingRecovery left right) (\<lambda>recovery.
        case recovery of
          Some d \<Rightarrow> Inr (Some d)
        | None \<Rightarrow>
            bindR (mergedReplay L left right) (\<lambda>m. bindR (overflowOf L m) (\<lambda>d. Inr (Some d)))))"

definition mergeRecords :: "lib \<Rightarrow> (identity_id \<Rightarrow> device_authorization option) \<Rightarrow> device_document option
    \<Rightarrow> device_document \<Rightarrow> device_error + device_document option" where
  "mergeRecords L trusted current candidate =
     (case trustedDocument L trusted (Some candidate) of
        None \<Rightarrow> Inr current
      | Some acceptedCandidate \<Rightarrow>
          (case trustedDocument L trusted current of
             None \<Rightarrow> Inr (Some acceptedCandidate)
           | Some acceptedCurrent \<Rightarrow>
               if \<not> sameGenesis acceptedCurrent acceptedCandidate then Inr (Some acceptedCurrent)
               else bindR (mergeOverflow L acceptedCurrent acceptedCandidate) (\<lambda>overflow.
                 case overflow of
                   Some d \<Rightarrow> Inr (Some d)
                 | None \<Rightarrow>
                     bindR (mergedReplay L acceptedCurrent acceptedCandidate) (\<lambda>m.
                     bindR (if hasBoundedProjection (mr_replay m) (mr_sources m)
                            then documentFromReplay (mr_genesis m) (mr_replay m) (mr_sources m) (mr_checkpoint m)
                            else overflowOf L m) (\<lambda>d. Inr (Some d))))))"

section \<open>Applying a transition\<close>

definition applyOverflowRecovery :: "lib \<Rightarrow> device_authorization \<Rightarrow> transition \<Rightarrow> device_error + device_authorization" where
  "applyOverflowRecovery L suspended t =
     bindR (if isRecovery t \<and> da_epoch suspended = tr_epoch t \<and> da_revision suspended = tr_previousRevision t
            then bindR (tr_getRevision t) (\<lambda>r. immediatelyFollows r (da_revision suspended)) else Inr False) (\<lambda>b.
     bindR (ensure b InvalidTransition) (\<lambda>_. applyRecoveryCheckpoint L suspended t))"

definition carriesCompromisedCredentials :: "lib \<Rightarrow> device_document \<Rightarrow> device_authorization \<Rightarrow> transition
    \<Rightarrow> device_error + bool" where
  "carriesCompromisedCredentials L stored genesis t =
     bindR (compromiseCapsOf L genesis stored) (\<lambda>caps. Inr (isCarriedBy caps t))"

definition authorizationAfter :: "lib \<Rightarrow> device_document \<Rightarrow> device_authorization \<Rightarrow> transition
    \<Rightarrow> device_error + device_authorization" where
  "authorizationAfter L stored genesis t =
     bindR (if isRecovery t then carriesCompromisedCredentials L stored genesis t else Inr True) (\<lambda>carries.
     bindR (ensure carries InvalidTransition) (\<lambda>_.
       case dd_overflow stored of
         Some _ \<Rightarrow>
           bindR (authorization_fromPrimitives L (dd_authorization stored)) (\<lambda>suspended.
             applyOverflowRecovery L suspended t)
       | None \<Rightarrow>
           bindR (baseOf L genesis (dd_checkpoint stored)) (\<lambda>base.
           bindR (rebuild L base (dd_history stored)) (\<lambda>r. policy_apply L (dr_authorization r) t))))"

definition documentAfterTransition :: "lib \<Rightarrow> device_document \<Rightarrow> device_authorization \<Rightarrow> device_authorization
    \<Rightarrow> transition \<Rightarrow> device_error + device_document" where
  "documentAfterTransition L stored genesis authorization t =
     bindR (transition_toPrimitives L t) (\<lambda>transitionRecord.
     if isRecovery t
     then bindR (effectiveCheckpoint L stored) (\<lambda>checkpoint.
       toDocument L genesis [] (Some
         \<lparr>ck_authorization = authorization_toPrimitives authorization, ck_concurrent = None,
          ck_lineage = (case checkpoint of None \<Rightarrow> [] | Some c \<Rightarrow> ck_lineage c @ [ck_transition c]),
          ck_transition = transitionRecord\<rparr>) None)
     else
       let source = \<lparr>so_checkpoint = dd_checkpoint stored, so_history = dd_history stored @ [transitionRecord]\<rparr> in
       bindR (sourcesAtPreferredCheckpoint L genesis (canonicalSources (documentSources stored @ [source]))) (\<lambda>sources.
       bindR (replaySources L genesis sources) (\<lambda>(checkpoint, r).
       if hasBoundedProjection r sources then documentFromReplay genesis r sources checkpoint
       else bindR (toDocument L genesis (so_history source) (so_checkpoint source) None) (\<lambda>frontier.
              overflowDocument L genesis sources frontier))))"

text \<open>
  \<open>compareAndApply\<close> up to the save: the stored document is the one read when it is valid and has
  the trusted genesis, and one without history otherwise.
\<close>

definition storedDocument :: "lib \<Rightarrow> device_authorization \<Rightarrow> device_document option \<Rightarrow> device_error + device_document" where
  "storedDocument L trustedGenesis candidate =
     (case candidate of
        Some d \<Rightarrow> if isDocument L d \<and> hasTrustedGenesis d trustedGenesis then Inr d
                  else toDocument L trustedGenesis [] None None
      | None \<Rightarrow> toDocument L trustedGenesis [] None None)"

definition compareAndApply :: "lib \<Rightarrow> device_authorization option \<Rightarrow> device_document option \<Rightarrow> timestamp \<Rightarrow> transition
    \<Rightarrow> device_error + device_authorization \<times> device_document" where
  "compareAndApply L trustedGenesis candidate now t =
     bindR (required trustedGenesis) (\<lambda>trusted.
     bindR (storedDocument L trusted candidate) (\<lambda>stored.
     bindR (recordedTransitions L stored) (\<lambda>recorded.
     bindR (verifyNotReplayed t recorded) (\<lambda>_.
     bindR (verifyFirstAcceptance t now) (\<lambda>_.
     bindR (authorization_fromPrimitives L (dd_genesis stored)) (\<lambda>genesis.
     bindR (authorizationAfter L stored genesis t) (\<lambda>authorization.
     bindR (documentAfterTransition L stored genesis authorization t) (\<lambda>d.
       Inr (authorization, d)))))))))"

end
