(* ===== verification/DeviceLineage.thy ===== *)
theory DeviceLineage
  imports DeviceMerge
begin

text \<open>
  What the lineage of recoveries, the replay of sources and the merge of documents keep: the owner
  and the well-formedness of the authorization, and every cap that a recovery carried. A merge
  does not depend on which document came first, and a document merged with itself is unchanged.
\<close>

section \<open>The lineage of recoveries\<close>

lemma applyRecoveryCheckpoint_ok:
  assumes L: "lib_ok L" and ok: "authorization_ok L a" and ap: "applyRecoveryCheckpoint L a t = Inr b"
  shows "authorization_ok L b" and "same_owner a b" and "da_revision a < da_revision b"
    and "da_revision b = tr_previousRevision t + 1" and "set (da_credentials b) = {tr_target t}"
    and "verifyRecoveryAuthority L a t = Inr ()" and "proves_possession L t"
proof -
  obtain r epoch where r: "tr_getRevision t = Inr r" "recoverAt L r (tr_target t) epoch a = Inr b"
    and signed: "verifyTargetProof L t = Inr ()" "verifyRecoveryAuthority L a t = Inr ()"
    using ap by (auto simp: applyRecoveryCheckpoint_def)
  have "safe_integer r" "0 \<le> r" "r = tr_previousRevision t + 1" using r(1) unfolding tr_getRevision_def revision_next_Inr by blast+
  from recoverAt_Inr [OF L ok r(2) this(1,2)] this(3) signed
  show "authorization_ok L b" "same_owner a b" "da_revision a < da_revision b"
    "da_revision b = tr_previousRevision t + 1" "set (da_credentials b) = {tr_target t}"
    "verifyRecoveryAuthority L a t = Inr ()" "proves_possession L t"
    by (simp_all add: proves_possession_def)
qed

lemma recoverLineage_ok:
  assumes L: "lib_ok L" and ok: "authorization_ok L (rs_authorization s)" and rec: "recoverLineage L s t = Inr u"
  shows "authorization_ok L (rs_authorization u)" and "same_owner (rs_authorization s) (rs_authorization u)"
    and "rs_caps u = carriedBy t" and "isCompromisedAt (rs_caps s) c r \<Longrightarrow> isCompromisedAt (rs_caps u) c r"
    and "set (da_credentials (rs_authorization u)) = {tr_target t}"
    and "da_revision (rs_authorization s) < da_revision (rs_authorization u)"
proof -
  from rec have ap: "applyRecoveryCheckpoint L (rs_authorization s) t = Inr (rs_authorization u)"
    and caps: "rs_caps u = carriedBy t" and kept: "isNotLoosenedBy (rs_caps s) (carriedBy t)"
    by (auto simp: recoverLineage_def)
  from applyRecoveryCheckpoint_ok [OF L ok ap] show "authorization_ok L (rs_authorization u)"
    "same_owner (rs_authorization s) (rs_authorization u)" "set (da_credentials (rs_authorization u)) = {tr_target t}"
    "da_revision (rs_authorization s) < da_revision (rs_authorization u)" by simp_all
  show "rs_caps u = carriedBy t" by (rule caps)
  show "isCompromisedAt (rs_caps s) c r \<Longrightarrow> isCompromisedAt (rs_caps u) c r"
    using not_loosened [OF kept] caps by simp
qed

text \<open>What holds of every state of a lineage.\<close>

definition lineage_state :: "lib \<Rightarrow> device_authorization \<Rightarrow> recovery_state \<Rightarrow> bool" where
  "lineage_state L genesis s \<longleftrightarrow> authorization_ok L (rs_authorization s) \<and> same_owner genesis (rs_authorization s)"

lemma recoverLineage_state:
  assumes "lib_ok L" and "lineage_state L genesis s" and "recoverLineage L s t = Inr u"
  shows "lineage_state L genesis u"
  using recoverLineage_ok(1,2) [OF assms(1) _ assms(3)] assms(2) same_owner_trans by (auto simp: lineage_state_def)

lemma lineage_loop_states:
  assumes "lib_ok L" and "lineage_state L genesis head" and "\<forall>s \<in> set states. lineage_state L genesis s"
    and "lineage_loop L ts head states = Inr (h, all)"
  shows "lineage_state L genesis h \<and> (\<forall>s \<in> set all. lineage_state L genesis s)"
  using assms
proof (induction ts arbitrary: head states)
  case (Cons t ts)
  from Cons.prems(4) obtain u where u: "recoverLineage L head t = Inr u" "lineage_loop L ts u (states @ [u]) = Inr (h, all)" by auto
  have "lineage_state L genesis u" using recoverLineage_state Cons.prems(1,2) u(1) .
  then show ?case using Cons.prems(3) by (intro Cons.IH [OF Cons.prems(1) _ _ u(2)]) auto
qed simp

lemma lineage_loop_append:
  assumes "lineage_loop L (ts @ [t]) head states = Inr (h, all)"
  shows "\<exists>u all'. lineage_loop L ts head states = Inr (u, all') \<and> recoverLineage L u t = Inr h"
  using assms by (induction ts arbitrary: head states) auto

lemma lineage_loop_caps:
  assumes "lib_ok L" and "lineage_state L genesis head" and "lineage_loop L ts head states = Inr (h, all)"
    and "isCompromisedAt (rs_caps head) c r \<or> (\<exists>t \<in> set ts. isCompromisedAt (carriedBy t) c r)"
  shows "isCompromisedAt (rs_caps h) c r"
  using assms
proof (induction ts arbitrary: head states)
  case (Cons t ts)
  from Cons.prems(3) obtain u where u: "recoverLineage L head t = Inr u" "lineage_loop L ts u (states @ [u]) = Inr (h, all)" by auto
  have ok: "authorization_ok L (rs_authorization head)" using Cons.prems(2) by (simp add: lineage_state_def)
  have state: "lineage_state L genesis u" using recoverLineage_state Cons.prems(1,2) u(1) .
  have "isCompromisedAt (rs_caps u) c r \<or> (\<exists>t \<in> set ts. isCompromisedAt (carriedBy t) c r)"
    using Cons.prems(4) recoverLineage_ok(3,4) [OF Cons.prems(1) ok u(1)] by force
  then show ?case by (rule Cons.IH [OF Cons.prems(1) state u(2)])
qed simp

lemma lineage_loop_last:
  assumes "lib_ok L" and "lineage_state L genesis head" and "lineage_loop L ts head states = Inr (h, all)" and "ts \<noteq> []"
  shows "set (da_credentials (rs_authorization h)) = {tr_target (last ts)}"
  using assms
proof (induction ts arbitrary: head states)
  case (Cons t ts)
  from Cons.prems(3) obtain u where u: "recoverLineage L head t = Inr u" "lineage_loop L ts u (states @ [u]) = Inr (h, all)" by auto
  have ok: "authorization_ok L (rs_authorization head)" using Cons.prems(2) by (simp add: lineage_state_def)
  have state: "lineage_state L genesis u" using recoverLineage_state Cons.prems(1,2) u(1) .
  show ?case
  proof (cases "ts = []")
    case True
    then show ?thesis using u(2) recoverLineage_ok(5) [OF Cons.prems(1) ok u(1)] by simp
  next
    case False
    then show ?thesis using Cons.IH [OF Cons.prems(1) state u(2)] by simp
  qed
qed simp

lemma lost_loop_caps:
  assumes "lost_loop L latest ts states caps = Inr all"
  shows "isCompromisedAt all c r \<longleftrightarrow> isCompromisedAt caps c r \<or> (\<exists>t \<in> set ts. compromises t c r)"
  using assms
proof (induction ts arbitrary: states caps)
  case (Cons t ts)
  from Cons.prems obtain states' where "lost_loop L latest ts states' (withCompromise t caps) = Inr all" by auto
  from Cons.IH [OF this] show ?case by auto
qed simp

text \<open>The caps of a recovery are those it names.\<close>

lemma compromises_carried:
  assumes "isRecovery t"
  shows "compromises t c r \<longleftrightarrow> (\<exists>e \<in> set (carriedBy t). cc_credential e = c \<and> cc_since e \<le> r)"
  using assms by (simp add: compromises_def carriedBy_def)

lemma isCompromised_listed: "isCompromisedAt caps c r \<Longrightarrow> \<exists>e \<in> set caps. cc_credential e = c \<and> cc_since e \<le> r"
  by (auto simp: isCompromisedAt_def split: option.splits dest: cap_of_credential)

lemma replayRecoveryLineage_ok:
  assumes L: "lib_ok L" and ok: "authorization_ok L genesis"
    and run: "replayRecoveryLineage L genesis recoveries concurrent = Inr s"
  shows "authorization_ok L (rs_authorization s)" and "same_owner genesis (rs_authorization s)"
    and "t \<in> set recoveries \<Longrightarrow> isCompromisedAt (carriedBy t) c r \<Longrightarrow> isCompromisedAt (rs_caps s) c r"
    and "t \<in> set concurrent \<Longrightarrow> compromises t c r \<Longrightarrow> isCompromisedAt (rs_caps s) c r"
    and "recoveries \<noteq> [] \<Longrightarrow> set (da_credentials (rs_authorization s)) = {tr_target (last recoveries)}"
proof -
  let ?start = "\<lparr>rs_authorization = genesis, rs_caps = []\<rparr>"
  obtain head states caps where h: "lineage_loop L recoveries ?start [?start] = Inr (head, states)"
    and l: "lost_loop L (if recoveries = [] then None else Some (last recoveries))
      (sort_key tr_previousRevision concurrent) states (rs_caps head) = Inr caps"
    and s: "s = \<lparr>rs_authorization = rs_authorization head, rs_caps = caps\<rparr>"
    using run by (auto simp: replayRecoveryLineage_def Let_def split: prod.splits)
  have start: "lineage_state L genesis ?start" using ok by (simp add: lineage_state_def)
  have all: "\<forall>s \<in> set [?start]. lineage_state L genesis s" using start by simp
  show "authorization_ok L (rs_authorization s)" "same_owner genesis (rs_authorization s)"
    using lineage_loop_states [OF L start all h] by (simp_all add: s lineage_state_def)
  show "recoveries \<noteq> [] \<Longrightarrow> set (da_credentials (rs_authorization s)) = {tr_target (last recoveries)}"
    using lineage_loop_last [OF L start h] by (simp add: s)
  show "isCompromisedAt (rs_caps s) c r" if "t \<in> set recoveries" "isCompromisedAt (carriedBy t) c r"
    using that lineage_loop_caps [OF L start h, of c r] lost_loop_caps [OF l, of c r] by (auto simp: s)
  show "isCompromisedAt (rs_caps s) c r" if "t \<in> set concurrent" "compromises t c r"
    using that lost_loop_caps [OF l, of c r] by (auto simp: s)
qed


section \<open>Replays of sources\<close>

lemma authorization_fromPrimitives_ok:
  assumes "lib_ok L" and "authorization_fromPrimitives L p = Inr a"
  shows "authorization_ok L a"
  using assms by (auto simp: authorization_fromPrimitives_def new_DeviceAuthorization_def new_Revision_def authorization_ok_def
      isIndependentFrom_def list_all_iff)

lemma rebuild_returns:
  assumes "lib_ok L" and "authorization_ok L base"
  obtains r where "rebuild L base history = Inr r" "authorization_ok L (dr_authorization r)"
    "same_owner base (dr_authorization r)" "set (dr_history r) \<subseteq> set history"
proof -
  obtain cs bs where run: "replay_run L (groupByRevision (candidatesOf L history)) base cs bs"
    "replay L base (candidatesOf L history) = Inr \<lparr>rp_accepted = cs, rp_authorization = last (base # bs), rp_checkpoints = bs\<rparr>"
    by (rule replay_runs [OF assms])
  have ok: "\<forall>b \<in> set (base # bs). authorization_ok L b \<and> same_owner base b"
    using run_states [OF run(1) assms] assms(2) by simp
  have head: "last (base # bs) \<in> set (base # bs)" by (rule last_in_set) simp
  have "cd_payload c \<in> set history" if c: "c \<in> set cs" for c
  proof -
    obtain q where "c \<in> set (candidatesAt q (groupByRevision (candidatesOf L history)))"
      using run_accepts_candidates [OF run(1) c] by blast
    then have "c \<in> set (candidatesOf L history)" by (auto simp: candidatesAt_groups)
    then show ?thesis by (auto simp: candidatesOf_def List.map_filter_def candidateOf_def)
  qed
  then have "set (map cd_payload cs) \<subseteq> set history" by auto
  then show ?thesis using that run(2) ok head by (simp add: rebuild_def)
qed

lemma checkpointState_ok:
  assumes "lib_ok L" and "authorization_ok L genesis" and "checkpointState L genesis c = Inr s"
  shows "authorization_ok L (rs_authorization s)" and "same_owner genesis (rs_authorization s)"
  using assms(3) replayRecoveryLineage_ok(1,2) [OF assms(1,2)] by (auto simp: checkpointState_def)

lemma baseOf_ok:
  assumes "lib_ok L" and "authorization_ok L genesis" and "baseOf L genesis checkpoint = Inr a"
  shows "authorization_ok L a" and "same_owner genesis a"
  using assms(2,3) checkpointState_ok [OF assms(1,2)]
  by (auto simp: baseOf_def authorizationFromCheckpoint_def split: option.splits)

lemma replaySources_ok:
  assumes "lib_ok L" and "authorization_ok L genesis" and "replaySources L genesis sources = Inr (checkpoint, r)"
  shows "authorization_ok L (dr_authorization r)" and "same_owner genesis (dr_authorization r)"
proof -
  obtain base where base: "baseOf L genesis checkpoint = Inr base"
    and r: "rebuild L base (historyAbove checkpoint sources) = Inr r"
    using assms(3) by (auto simp: replaySources_def)
  note ok = baseOf_ok [OF assms(1,2) base]
  obtain r' where r': "rebuild L base (historyAbove checkpoint sources) = Inr r'" "authorization_ok L (dr_authorization r')"
    "same_owner base (dr_authorization r')" by (rule rebuild_returns [OF assms(1) ok(1)])
  then have "r' = r" using r by simp
  then show "authorization_ok L (dr_authorization r)" "same_owner genesis (dr_authorization r)"
    using r' same_owner_trans [OF ok(2)] by simp_all
qed

section \<open>Merges\<close>

lemma sourcesAtPreferredCheckpoint_canonical:
  assumes "set xs = set ys"
  shows "sourcesAtPreferredCheckpoint L genesis (canonicalSources xs) = sourcesAtPreferredCheckpoint L genesis (canonicalSources ys)"
  using canonicalSources_cong [OF assms] by simp

lemma mergedReplay_commutes:
  assumes "dd_genesis left = dd_genesis right"
  shows "mergedReplay L left right = mergedReplay L right left"
proof -
  have "canonicalSources (mergeSourceEvidence left @ mergeSourceEvidence right) =
      canonicalSources (mergeSourceEvidence right @ mergeSourceEvidence left)"
    by (rule canonicalSources_cong) auto
  then show ?thesis by (simp add: mergedReplay_def assms)
qed

lemma supersedingRecovery_commutes: "supersedingRecovery left right = supersedingRecovery right left"
proof (cases "dd_overflow left = None \<longleftrightarrow> dd_overflow right = None")
  case True
  then show ?thesis by (auto simp: supersedingRecovery_def)
next
  case False
  then consider "dd_overflow left = None" "dd_overflow right \<noteq> None" | "dd_overflow left \<noteq> None" "dd_overflow right = None" by auto
  then show ?thesis
  proof cases
    case 1
    then show ?thesis by (cases "recoverySupersedesOverflow left right") (simp_all add: supersedingRecovery_def)
  next
    case 2
    then show ?thesis by (cases "recoverySupersedesOverflow right left") (simp_all add: supersedingRecovery_def)
  qed
qed

lemma mergeOverflow_commutes:
  assumes "dd_genesis left = dd_genesis right"
  shows "mergeOverflow L left right = mergeOverflow L right left"
  unfolding mergeOverflow_def supersedingRecovery_commutes [of left right] mergedReplay_commutes [OF assms]
  by (simp add: conj_commute)

lemma trustedDocument_same: "trustedDocument L trusted (Some d) = Some e \<Longrightarrow> e = d"
  by (simp add: trustedDocument_def split: if_splits)

lemma sameGenesis_simps: "dd_genesis left = dd_genesis right \<Longrightarrow> sameGenesis left right"
  by (simp add: sameGenesis_def sameAuthorizationGenesis_def)

lemma mergeRecords_trusted:
  assumes "trustedDocument L trusted (Some left) = Some left" and "trustedDocument L trusted (Some right) = Some right"
    and "dd_genesis left = dd_genesis right"
  shows "mergeRecords L trusted (Some left) right =
    bindR (mergeOverflow L left right) (\<lambda>overflow.
      case overflow of
        Some d \<Rightarrow> Inr (Some d)
      | None \<Rightarrow>
          bindR (mergedReplay L left right) (\<lambda>m.
          bindR (if hasBoundedProjection (mr_replay m) (mr_sources m)
                 then documentFromReplay (mr_genesis m) (mr_replay m) (mr_sources m) (mr_checkpoint m)
                 else overflowOf L m) (\<lambda>d. Inr (Some d))))"
  using assms sameGenesis_simps [OF assms(3)] by (simp add: mergeRecords_def)

lemma mergeRecords_commutes:
  assumes "trustedDocument L trusted (Some left) \<noteq> None" and "trustedDocument L trusted (Some right) \<noteq> None"
    and "dd_genesis left = dd_genesis right"
  shows "mergeRecords L trusted (Some left) right = mergeRecords L trusted (Some right) left"
proof -
  have t: "trustedDocument L trusted (Some left) = Some left" "trustedDocument L trusted (Some right) = Some right"
    using assms(1,2) trustedDocument_same by blast+
  show ?thesis
    unfolding mergeRecords_trusted [OF t assms(3)] mergeRecords_trusted [OF t(2,1) assms(3) [symmetric]]
      mergeOverflow_commutes [OF assms(3)] mergedReplay_commutes [OF assms(3)] ..
qed

text \<open>What a valid document without an overflow is.\<close>

lemma andThen_Inr [simp]: "andThen a b = Inr True \<longleftrightarrow> a \<and> b () = Inr True"
  by (simp add: andThen_def)

lemma isDocument_plain:
  assumes "isDocument L d" and "dd_overflow d = None"
  obtains genesis r where "authorization_fromPrimitives L (dd_genesis d) = Inr genesis"
    "hasValidGenesis d genesis" "dd_genesis d = authorization_toPrimitives genesis"
    "hasBoundedHistoryShape (dd_history d)" "hasBoundedSourcesShape (documentSources d)"
    "canonicalSources (documentSources d) = documentSources d"
    "sourcesAtPreferredCheckpoint L genesis (documentSources d) = Inr (documentSources d)"
    "replaySources L genesis (documentSources d) = Inr (dd_checkpoint d, r)" "matchesReplay d r"
    "areValidSources L genesis (documentSources d) = Inr True"
proof -
  have "validateDocument L (isDocumentWith L (\<lambda>_. False)) d = Inr True"
    using assms(1) by (auto simp: isDocument_def isDocumentWith_def split: sum.splits)
  then obtain genesis where g: "authorization_fromPrimitives L (dd_genesis d) = Inr genesis" "hasValidGenesis d genesis"
      "dd_genesis d = authorization_toPrimitives genesis" "hasBoundedHistoryShape (dd_history d)"
    and valid: "hasValidSources L d genesis = Inr True"
    using assms(2) by (auto simp: validateDocument_def)
  from valid obtain normalized checkpoint r where s: "hasBoundedSourcesShape (documentSources d)"
    "documentSources d = canonicalSources (documentSources d)" "areValidSources L genesis (documentSources d) = Inr True"
    "sourcesAtPreferredCheckpoint L genesis (documentSources d) = Inr normalized"
    "replaySources L genesis normalized = Inr (checkpoint, r)" "documentSources d = normalized"
    "dd_checkpoint d = checkpoint" "matchesReplay d r"
    by (auto simp: hasValidSources_def Let_def)
  show ?thesis
    by (rule that [OF g(1-4) s(1) s(2) [symmetric] _ _ s(8,3)]) (use s in auto)
qed

lemma mergeRecords_idempotent:
  assumes L: "lib_ok L" and t: "trustedDocument L trusted (Some d) \<noteq> None" and plain: "dd_overflow d = None"
    and src: "dd_sources d = Some sources"
  shows "mergeRecords L trusted (Some d) d = Inr (Some d)"
proof -
  have "isDocument L d" using t by (simp add: trustedDocument_def split: if_splits)
  obtain genesis r where v: "authorization_fromPrimitives L (dd_genesis d) = Inr genesis"
    "hasValidGenesis d genesis" "dd_genesis d = authorization_toPrimitives genesis"
    "hasBoundedHistoryShape (dd_history d)" "hasBoundedSourcesShape (documentSources d)"
    "canonicalSources (documentSources d) = documentSources d"
    "sourcesAtPreferredCheckpoint L genesis (documentSources d) = Inr (documentSources d)"
    "replaySources L genesis (documentSources d) = Inr (dd_checkpoint d, r)" "matchesReplay d r"
    by (rule isDocument_plain [OF \<open>isDocument L d\<close> plain])
  have ss: "documentSources d = sources" "mergeSourceEvidence d = sources"
    using plain src by (simp_all add: documentSources_def mergeSourceEvidence_def)
  have "canonicalSources (sources @ sources) = canonicalSources sources" by (rule canonicalSources_cong) simp
  then have merged: "mergedReplay L d d =
      Inr \<lparr>mr_checkpoint = dd_checkpoint d, mr_genesis = genesis, mr_replay = r, mr_sources = sources\<rparr>"
    using v(1,6-8) ss by (simp add: mergedReplay_def)
  have owner: "da_identityId (dr_authorization r) = da_identityId genesis"
    using replaySources_ok(2) [OF L authorization_fromPrimitives_ok [OF L v(1)] v(8)] by (simp add: same_owner_def)
  have "documentFromReplay genesis r sources (dd_checkpoint d) = Inr d"
    using v(2-5,9) ss plain src owner
    by (cases d) (simp add: documentFromReplay_def matchesReplay_def hasValidGenesis_def)
  moreover have "hasBoundedProjection r sources"
    using v(4,5,9) ss by (simp add: hasBoundedProjection_def matchesReplay_def)
  moreover have td: "trustedDocument L trusted (Some d) = Some d" using t trustedDocument_same by blast
  ultimately show ?thesis
    using merged plain by (simp add: mergeRecords_trusted [OF td td refl] mergeOverflow_def)
qed

end
