(* ===== verification/AuthorPort.thy ===== *)
theory AuthorPort
  imports MutationGate
begin

text \<open>
  The port through which the gate of public records asks whether a device speaks for its identity
  (\<open>PublicMutationAuthorAuthorization.ts\<close>, an abstract class): its one law is that an author it
  authorizes speaks, whatever that means to its implementation, and every record that the gate
  accepts is then signed by such an author.
\<close>

locale author_port =
  fixes authorizes :: authorization
    and speaks :: "mutation_author \<Rightarrow> bool"
  assumes authorized_speaks: "authorizes a = Inr True \<Longrightarrow> speaks a"
begin

lemma accepted_record_speaks:
  assumes "governs pols collection" and "verdictOf L authorizes pols collection r = VerdictAccepted"
  shows "\<exists>p. proofOf L r = Some p \<and> isSignedByDevice L p \<and>
    lib_digest L (JObject (payloadOf r)) = Some (pf_payloadDigest p) \<and> speaks (pf_author p)"
  using assms
proof (cases rule: verdictOf_accepted)
  case (1 pol p)
  then show ?thesis using authorized_speaks by (auto elim: intrinsicProof_Some)
qed

end

end
