(* ===== verification/DeviceGate.thy ===== *)
theory DeviceGate
  imports DeviceLineage AuthorPort
begin

text \<open>
  Whether a device speaks for its identity (\<open>DeviceAuthorizationPublicMutationAuthorization.ts\<close>,
  \<open>ShortLivedLookup.ts\<close> under \<open>src/contexts/public-mutations/infrastructure\<close>): the device is looked
  up in the timeline of the identity at the revision its proof names. A device that a timeline
  authorizes is one of the genesis, or the target of a transition the document records, signed by a
  device of an earlier state of the replay or by the recovery authority. It is an instance of the port of \<open>AuthorPort\<close>.
\<close>

section \<open>The timeline of an identity\<close>

text \<open>
  The document a node has of an identity: none when no genesis is known, the valid head, or one
  without history. The genesis and the head are what the node has at that moment.
\<close>

definition resolveDocument :: "lib \<Rightarrow> (identity_id \<Rightarrow> device_authorization option) \<Rightarrow> (identity_id \<Rightarrow> device_document option)
    \<Rightarrow> identity_id \<Rightarrow> device_error + device_document option" where
  "resolveDocument L trusted head i =
     (case trusted i of
        None \<Rightarrow> Inr None
      | Some genesis \<Rightarrow> bindR (storedDocument L genesis (head i)) (\<lambda>d. Inr (Some d)))"

definition requireTimeline :: "lib \<Rightarrow> device_document \<Rightarrow> device_error + timeline" where
  "requireTimeline L d = bindR (authorization_fromPrimitives L (dd_genesis d)) (\<lambda>genesis. timelineOf L genesis d)"

definition lookUpTimeline :: "lib \<Rightarrow> (identity_id \<Rightarrow> device_authorization option) \<Rightarrow> (identity_id \<Rightarrow> device_document option)
    \<Rightarrow> identity_id \<Rightarrow> device_error + timeline" where
  "lookUpTimeline L trusted head i =
     bindR (resolveDocument L trusted head i) (\<lambda>d.
       case d of None \<Rightarrow> Inr (new_timeline [] []) | Some d \<Rightarrow> requireTimeline L d)"

text \<open>Every error of the devices is an error of the domain, so a refusal of the record.\<close>

definition refusing :: "device_error + 'a \<Rightarrow> judge_error + 'a" where
  "refusing r = (case r of Inl _ \<Rightarrow> Inl Refused | Inr v \<Rightarrow> Inr v)"

text \<open>
  The text of the identity, as the proof spells it, is the key of the lookup; what is looked up is the
  timeline of the identity it names.
\<close>

definition device_isAuthorized :: "lib \<Rightarrow> (string \<Rightarrow> identity_id \<Rightarrow> device_error + timeline) \<Rightarrow> authorization" where
  "device_isAuthorized L timelines author =
     bindR (refusing (device_value (lib_identity L (ma_identityId author)))) (\<lambda>identityId.
     bindR (refusing (new_Revision (ma_authorizationRevision author))) (\<lambda>revision.
     bindR (refusing (timelines (ma_identityId author) identityId)) (\<lambda>line.
     if \<not> hasReached line revision then Inl Pending
     else bindR (refusing (credential_fromWire L (ma_deviceCredential author))) (\<lambda>credential.
            Inr (isAuthorizedAt line credential revision)))))"

section \<open>Lookups that live for a second\<close>

definition TTL_MS :: int where "TTL_MS = 1000"

record 'v short_lived_lookup =
  lk_entries :: "(string, int \<times> 'v) jsmap"
  lk_sweptAt :: int

definition sweepExpired :: "int \<Rightarrow> 'v short_lived_lookup \<Rightarrow> 'v short_lived_lookup" where
  "sweepExpired now s =
     (if now - lk_sweptAt s < TTL_MS then s
      else \<lparr>lk_entries = filter (\<lambda>e. \<not> fst (snd e) \<le> now) (lk_entries s), lk_sweptAt = now\<rparr>)"

text \<open>A value that could not be loaded is not kept.\<close>

definition lookup_get :: "string \<Rightarrow> ('e + 'v) \<Rightarrow> int \<Rightarrow> 'v short_lived_lookup \<Rightarrow> ('e + 'v) \<times> 'v short_lived_lookup" where
  "lookup_get key loaded now s =
     (case map_of (lk_entries s) key of
        Some e \<Rightarrow>
          if fst e > now then (Inr (snd e), s)
          else (let t = sweepExpired now s in
            case loaded of
              Inr v \<Rightarrow> (loaded, t\<lparr>lk_entries := AList.update key (now + TTL_MS, v) (lk_entries t)\<rparr>)
            | Inl _ \<Rightarrow> (loaded, t\<lparr>lk_entries := AList.delete key (lk_entries t)\<rparr>))
      | None \<Rightarrow>
          (let t = sweepExpired now s in
            case loaded of
              Inr v \<Rightarrow> (loaded, t\<lparr>lk_entries := AList.update key (now + TTL_MS, v) (lk_entries t)\<rparr>)
            | Inl _ \<Rightarrow> (loaded, t)))"

text \<open>
  What a lookup remembers at \<open>now\<close> was loaded by then, a second before it expires: \<open>loads key t v\<close>
  says that \<open>v\<close> was loaded for the key at \<open>t\<close>. The clock of the node does not go back.
\<close>

definition lookup_ok :: "(string \<Rightarrow> int \<Rightarrow> 'v \<Rightarrow> bool) \<Rightarrow> int \<Rightarrow> 'v short_lived_lookup \<Rightarrow> bool" where
  "lookup_ok loads now s \<longleftrightarrow>
     distinct (map fst (lk_entries s)) \<and>
     (\<forall>key e. map_of (lk_entries s) key = Some e \<longrightarrow> fst e - TTL_MS \<le> now \<and> loads key (fst e - TTL_MS) (snd e))"

lemma lookup_ok_later: "lookup_ok loads now s \<Longrightarrow> now \<le> later \<Longrightarrow> lookup_ok loads later s"
  by (fastforce simp: lookup_ok_def)

lemma lookup_get_ok:
  assumes ok: "lookup_ok loads now s" and load: "\<And>v. loaded = Inr v \<Longrightarrow> loads key now v"
  shows "lookup_ok loads now (snd (lookup_get key loaded now s))"
    and "fst (lookup_get key loaded now s) = Inr v \<Longrightarrow> \<exists>t. now - TTL_MS < t \<and> t \<le> now \<and> loads key t v"
proof -
  have d: "distinct (map fst (filter p (lk_entries s)))" for p
    using ok by (simp add: lookup_ok_def distinct_map_filter)
  have kept: "map_of (filter p (lk_entries s)) k = Some e \<Longrightarrow> map_of (lk_entries s) k = Some e" for p k e
    using ok d [of p] by (auto simp: lookup_ok_def dest: map_of_SomeD)
  have swept: "lookup_ok loads now (sweepExpired now s)"
    using ok d kept by (auto simp: lookup_ok_def sweepExpired_def)
  have updated: "lookup_ok loads now ((sweepExpired now s)\<lparr>lk_entries := AList.update key (now + TTL_MS, w)
      (lk_entries (sweepExpired now s))\<rparr>)" if "loaded = Inr w" for w
    using swept load [OF that] by (auto simp: lookup_ok_def distinct_update update_conv')
  have deleted: "lookup_ok loads now ((sweepExpired now s)\<lparr>lk_entries := AList.delete key
      (lk_entries (sweepExpired now s))\<rparr>)"
    using swept by (auto simp: lookup_ok_def distinct_delete delete_conv' split: if_splits)
  show "lookup_ok loads now (snd (lookup_get key loaded now s))"
    using ok swept updated deleted by (auto simp: lookup_get_def Let_def split: option.splits sum.splits)
  show "\<exists>t. now - TTL_MS < t \<and> t \<le> now \<and> loads key t v" if "fst (lookup_get key loaded now s) = Inr v"
  proof -
    from that consider (old) e where "map_of (lk_entries s) key = Some e" "fst e > now" "v = snd e" | (new) "loaded = Inr v"
      by (auto simp: lookup_get_def Let_def split: option.splits sum.splits if_splits)
    then show ?thesis
    proof cases
      case old
      then have "fst e - TTL_MS \<le> now \<and> loads key (fst e - TTL_MS) v" using ok unfolding lookup_ok_def by blast
      moreover have "now - TTL_MS < fst e - TTL_MS" using old(2) by simp
      ultimately show ?thesis by blast
    next
      case new
      then show ?thesis using load by (intro exI [of _ now]) (simp add: TTL_MS_def)
    qed
  qed
qed

section \<open>Where an authorized device comes from\<close>

text \<open>
  The signatures of a transition, written out: its target proves that it has its key, and a key
  signed it.
\<close>

definition proves_key :: "lib \<Rightarrow> transition \<Rightarrow> bool" where
  "proves_key L t \<longleftrightarrow>
     (\<exists>signature payload. tr_proofOfPossession t = Some signature \<and> getProofOfPossessionPayload L t = Inr payload \<and>
        lib_verify L (tr_target t) payload signature)"

definition signed_with :: "lib \<Rightarrow> credential \<Rightarrow> transition \<Rightarrow> bool" where
  "signed_with L key t \<longleftrightarrow>
     (\<exists>signature payload. tr_signature t = Some signature \<and> getSigningPayload L t = Inr payload \<and>
        lib_verify L key payload signature)"

text \<open>
  How a device came to the states of a document that were reached before \<open>a\<close>: it is one of the genesis;
  or the recovery of the checkpoint, signed by the recovery authority, names it; or a transition the
  document records names it, an enrollment signed by a device of a state of the replay at the
  revision it follows, or a recovery signed by the recovery authority.
\<close>

definition let_in_before :: "lib \<Rightarrow> device_authorization \<Rightarrow> device_document \<Rightarrow> device_authorization list
    \<Rightarrow> device_authorization \<Rightarrow> credential \<Rightarrow> bool" where
  "let_in_before L genesis d states a c \<longleftrightarrow>
     c \<in> set (da_credentials genesis) \<or>
     (\<exists>k t. dd_checkpoint d = Some k \<and> requireTransitionFromRecord L (ck_transition k) = Inr t \<and> isRecovery t \<and>
        tr_identityId t = da_identityId genesis \<and> tr_target t = c \<and> proves_key L t \<and>
        signed_with L (da_recoveryAuthority genesis) t) \<or>
     (\<exists>r \<in> set (dd_history d). \<exists>t. \<exists>s \<in> set states. parsedTransitionOf L r = Some t \<and>
        tr_identityId t = da_identityId genesis \<and> tr_target t = c \<and> proves_key L t \<and>
        tr_previousRevision t = da_revision s \<and> da_revision s < da_revision a \<and>
        (isEnrollment t \<and> (\<exists>author \<in> set (da_credentials s). tr_author t = Some author \<and> signed_with L author t) \<or>
         isRecovery t \<and> signed_with L (da_recoveryAuthority genesis) t))"

lemma verified_signatures:
  "verifyTargetProof L t = Inr () \<Longrightarrow> proves_key L t"
  "verifyRecoveryAuthority L a t = Inr () \<Longrightarrow> signed_with L (da_recoveryAuthority a) t"
  "verifyDeviceAuthor L a t = Inr () \<Longrightarrow> \<exists>author \<in> set (da_credentials a). tr_author t = Some author \<and> signed_with L author t"
  by (auto simp: verifyTargetProof_def verifyRecoveryAuthority_def verifyDeviceAuthor_def proves_key_def signed_with_def
      signedBy_key_def split: if_splits)

lemma recovered_by_checkpoint:
  assumes L: "lib_ok L" and ok: "authorization_ok L genesis" and ck: "checkpointState L genesis k = Inr s"
    and c: "c \<in> set (da_credentials (rs_authorization s))"
  shows "\<exists>t. requireTransitionFromRecord L (ck_transition k) = Inr t \<and> isRecovery t \<and>
    tr_identityId t = da_identityId genesis \<and> tr_target t = c \<and> proves_key L t \<and>
    signed_with L (da_recoveryAuthority genesis) t"
proof -
  let ?start = "\<lparr>rs_authorization = genesis, rs_caps = []\<rparr>"
  obtain recoveries concurrent where rec: "mapR (requireTransitionFromRecord L) (ck_lineage k @ [ck_transition k]) = Inr recoveries"
    and run: "replayRecoveryLineage L genesis recoveries concurrent = Inr s"
    using ck by (auto simp: checkpointState_def)
  obtain ts t where ts: "recoveries = ts @ [t]" "requireTransitionFromRecord L (ck_transition k) = Inr t"
    using rec by (auto simp: mapR_Inr_iff list_all2_append1 list_all2_Cons1)
  obtain head states where h: "lineage_loop L (ts @ [t]) ?start [?start] = Inr (head, states)"
    and s: "rs_authorization s = rs_authorization head"
    using run by (auto simp: ts(1) replayRecoveryLineage_def Let_def split: prod.splits)
  have start: "lineage_state L genesis ?start" using ok by (simp add: lineage_state_def)
  obtain u all where u: "lineage_loop L ts ?start [?start] = Inr (u, all)" "recoverLineage L u t = Inr head"
    using lineage_loop_append [OF h] by blast
  have a: "authorization_ok L (rs_authorization u)" "same_owner genesis (rs_authorization u)"
    using lineage_loop_states [OF L start _ u(1)] start by (simp_all add: lineage_state_def)
  have ap: "applyRecoveryCheckpoint L (rs_authorization u) t = Inr (rs_authorization head)"
    using u(2) by (auto simp: recoverLineage_def)
  have "isRecovery t" "tr_identityId t = da_identityId (rs_authorization u)"
    using ap by (auto simp: applyRecoveryCheckpoint_def)
  moreover note signed = applyRecoveryCheckpoint_ok(5-7) [OF L a(1) ap]
  moreover have "tr_target t = c" using signed(1) c s by simp
  ultimately show ?thesis using ts(2) a(2) verified_signatures(1) [of L t] verified_signatures(2) [of L "rs_authorization u" t]
    by (simp add: proves_possession_def same_owner_def)
qed

lemma accepted_record:
  assumes "replay_run L (groupByRevision (candidatesOf L history)) a cs bs" and "x \<in> set cs"
  shows "\<exists>r \<in> set history. parsedTransitionOf L r = Some (cd_transition x)"
proof -
  from run_accepts_candidates [OF assms] obtain n where "x \<in> set (candidatesAt n (groupByRevision (candidatesOf L history)))" by blast
  then have "x \<in> set (candidatesOf L history)" by (simp add: candidatesAt_groups)
  then show ?thesis by (auto simp: candidatesOf_def candidateOf_def List.map_filter_def)
qed

lemma replayFrom_states:
  assumes L: "lib_ok L" and ok: "authorization_ok L genesis"
    and rp: "replayFrom L genesis (dd_checkpoint d) (dd_history d) = Inr (base, r)"
    and b: "b \<in> set (rs_authorization base # rp_checkpoints r)" and c: "c \<in> set (da_credentials b)"
  shows "let_in_before L genesis d (rs_authorization base # rp_checkpoints r) b c"
proof -
  let ?base = "rs_authorization base"
  have base: "(case dd_checkpoint d of Some k \<Rightarrow> checkpointState L genesis k
      | None \<Rightarrow> Inr \<lparr>rs_authorization = genesis, rs_caps = []\<rparr>) = Inr base"
    and r: "replay L ?base (candidatesOf L (dd_history d)) = Inr r"
    using rp by (auto simp: replayFrom_def)
  have bok: "authorization_ok L ?base" "same_owner genesis ?base"
    using base ok checkpointState_ok [OF L ok] by (auto split: option.splits)
  have first: "let_in_before L genesis d states a c" if "c \<in> set (da_credentials ?base)" for states a
    using base that recovered_by_checkpoint [OF L ok _ that] by (auto simp: let_in_before_def split: option.splits)
  obtain cs bs where run: "replay_run L (groupByRevision (candidatesOf L (dd_history d))) ?base cs bs"
    "replay L ?base (candidatesOf L (dd_history d)) =
       Inr \<lparr>rp_accepted = cs, rp_authorization = last (?base # bs), rp_checkpoints = bs\<rparr>"
    by (rule replay_runs [OF L bok(1)])
  then have bs: "rp_checkpoints r = bs" using r by auto
  have owner: "same_owner genesis s" if "s \<in> set (?base # bs)" for s
    using that run_states [OF run(1) L bok(1)] bok(2) same_owner_trans by auto
  show ?thesis
  proof (cases "c \<in> set (da_credentials ?base)")
    case False
    then have "b \<in> set bs" using b c unfolding bs by auto
    from run_lets_in [OF run(1) L bok(1) this c] False
    obtain x s where x: "x \<in> set cs" "s \<in> set (?base # bs)" "tr_target (cd_transition x) = c"
      "lets_in L s (cd_transition x)" "da_revision s < da_revision b" by blast
    obtain rec where rec: "rec \<in> set (dd_history d)" "parsedTransitionOf L rec = Some (cd_transition x)"
      using accepted_record [OF run(1) x(1)] by blast
    have o': "da_identityId s = da_identityId genesis" "da_recoveryAuthority s = da_recoveryAuthority genesis"
      using owner [OF x(2)] by (simp_all add: same_owner_def)
    note signed = x(4) [unfolded lets_in_def proves_possession_def]
    have "proves_key L (cd_transition x)" "tr_identityId (cd_transition x) = da_identityId genesis"
      "tr_previousRevision (cd_transition x) = da_revision s"
      using signed verified_signatures(1) o' by auto
    moreover have "isEnrollment (cd_transition x) \<and> (\<exists>author \<in> set (da_credentials s). tr_author (cd_transition x) = Some author \<and>
        signed_with L author (cd_transition x)) \<or>
      isRecovery (cd_transition x) \<and> signed_with L (da_recoveryAuthority genesis) (cd_transition x)"
      using signed verified_signatures(2,3) [of L s "cd_transition x"] o' by auto
    ultimately show ?thesis unfolding let_in_before_def bs using rec x(2,3,5) by blast
  qed (rule first)
qed

section \<open>What a timeline says\<close>

lemma findLast_Some: "findLast p xs = Some x \<Longrightarrow> x \<in> set xs \<and> p x"
  unfolding findLast_def by (drule find_Some_iff') simp

lemma findLast_snoc: "findLast p (xs @ [x]) = (if p x then Some x else findLast p xs)"
  by (simp add: findLast_def)

lemma findLast_sorted:
  assumes "findLast p xs = Some x" and "sorted (map f xs)" and "y \<in> set xs" and "p y"
  shows "f y \<le> (f x :: int)"
  using assms
proof (induction xs rule: rev_induct)
  case (snoc z zs)
  then show ?case by (cases "p z") (auto simp: findLast_snoc sorted_append)
qed simp

lemma isAuthorizedAt_state:
  assumes "isAuthorizedAt (new_timeline states caps) c r"
  shows "\<exists>a \<in> set states. c \<in> set (da_credentials a) \<and> da_revision a \<le> r \<and>
      (\<forall>b \<in> set states. da_revision b \<le> r \<longrightarrow> da_revision b \<le> da_revision a)"
    and "\<not> isCompromisedAt caps c r" and "\<exists>a \<in> set states. r \<le> da_revision a"
proof -
  let ?line = "new_timeline states caps"
  from assms have reached: "hasReached ?line r" and free: "\<not> isCompromisedAt caps c r"
    by (auto simp: isAuthorizedAt_def new_timeline_def split: if_splits)
  from assms obtain a where a: "findLast (\<lambda>a. \<not> da_revision a > r) (tl_states ?line) = Some a" "isAuthorized a c"
    by (auto simp: isAuthorizedAt_def split: if_splits option.splits)
  have "\<forall>b \<in> set states. da_revision b \<le> r \<longrightarrow> da_revision b \<le> da_revision a"
    using findLast_sorted [OF a(1), of da_revision] by (auto simp: new_timeline_def)
  with findLast_Some [OF a(1)] a(2) show "\<exists>a \<in> set states. c \<in> set (da_credentials a) \<and> da_revision a \<le> r \<and>
      (\<forall>b \<in> set states. da_revision b \<le> r \<longrightarrow> da_revision b \<le> da_revision a)"
    by (auto simp: new_timeline_def)
  show "\<not> isCompromisedAt caps c r" by (rule free)
  have "last (tl_states ?line) \<in> set (tl_states ?line)" using reached by (auto simp: hasReached_def)
  then have "last (tl_states ?line) \<in> set states" by (simp add: new_timeline_def)
  moreover have "r \<le> da_revision (last (tl_states ?line))" using reached by (auto simp: hasReached_def)
  ultimately show "\<exists>a \<in> set states. r \<le> da_revision a" by blast
qed

text \<open>A suspended authorization has no devices.\<close>

lemma suspended_is_empty:
  assumes "lib_ok L" and "authorization_ok L a" and "suspendAtOverflow L a r = Inr b"
  shows "da_credentials b = []"
proof -
  from assms(3) obtain r' where "requireRecoveryAt L r' a = Inr b" by (auto simp: suspendAtOverflow_def Let_def)
  then have "next_authorization L a r' (da_epoch a) [] = Inr b" by (auto simp: requireRecoveryAt_def)
  then have "da_credentials b = lib_unique L []" by (simp add: next_authorization_Inr [OF assms(1,2)])
  then show ?thesis using assms(1) by simp
qed

lemma overflow_document_is_suspended:
  assumes L: "lib_ok L" and "isDocument L d" and "dd_overflow d = Some overflow"
  shows "dp_credentials (dd_authorization d) = []"
proof -
  have "validateDocument L (isDocumentWith L (\<lambda>_. False)) d = Inr True"
    using assms(2) by (auto simp: isDocument_def isDocumentWith_def split: sum.splits)
  then have "isOverflowDocument L (isDocumentWith L (\<lambda>_. False)) d overflow = Inr True"
    using assms(3) by (simp add: validateDocument_def)
  then obtain genesis checkpoint r frontierRevision suspended where
    "authorization_fromPrimitives L (dd_genesis d) = Inr genesis"
    "replaySources L genesis (of_sources overflow) = Inr (checkpoint, r)"
    "suspendAtOverflow L (dr_authorization r) frontierRevision = Inr suspended"
    "dd_authorization d = authorization_toPrimitives suspended"
    by (auto simp: isOverflowDocument_def)
  moreover from this have "da_credentials suspended = []"
    using replaySources_ok(1) [OF L] authorization_fromPrimitives_ok [OF L] suspended_is_empty [OF L] by blast
  ultimately show ?thesis by (simp add: authorization_toPrimitives_def)
qed

lemma timelineOf_authorizes:
  assumes L: "lib_ok L" and g: "authorization_fromPrimitives L (dd_genesis d) = Inr genesis"
    and valid: "dd_overflow d = None \<or> isDocument L d"
    and line: "timelineOf L genesis d = Inr line" and auth: "isAuthorizedAt line c r"
  shows "dd_overflow d = None"
    and "\<exists>caps states. statesOf L genesis (dd_checkpoint d) (dd_history d) = Inr (caps, states) \<and>
      \<not> isCompromisedAt caps c r \<and> (\<exists>a \<in> set states. c \<in> set (da_credentials a) \<and> da_revision a \<le> r \<and>
        (\<forall>b \<in> set states. da_revision b \<le> r \<longrightarrow> da_revision b \<le> da_revision a) \<and>
        let_in_before L genesis d states a c) \<and>
      (\<exists>a \<in> set states. r \<le> da_revision a)"
proof -
  note ok = authorization_fromPrimitives_ok [OF L g]
  show none: "dd_overflow d = None"
  proof (rule ccontr)
    assume "dd_overflow d \<noteq> None"
    then obtain overflow where o: "dd_overflow d = Some overflow" by blast
    then have "isDocument L d" using valid by simp
    from overflow_document_is_suspended [OF L this o] have empty: "dp_credentials (dd_authorization d) = []" .
    from line o obtain suspended caps where s: "authorization_fromPrimitives L (dd_authorization d) = Inr suspended"
      "line = new_timeline [suspended] caps" by (auto simp: timelineOf_def)
    have "da_credentials suspended = []"
      using s(1) empty L by (auto simp: authorization_fromPrimitives_def new_DeviceAuthorization_def)
    then show False using isAuthorizedAt_state(1) [OF auth [unfolded s(2)]] by simp
  qed
  from line none obtain caps states where st: "statesOf L genesis (dd_checkpoint d) (dd_history d) = Inr (caps, states)"
    "line = new_timeline states caps" by (auto simp: timelineOf_def)
  note at = isAuthorizedAt_state [OF auth [unfolded st(2)]]
  from st(1) obtain base res where res: "replayFrom L genesis (dd_checkpoint d) (dd_history d) = Inr (base, res)"
    "states = rs_authorization base # rp_checkpoints res" by (auto simp: statesOf_def split: prod.splits)
  from at(1) obtain a where a: "a \<in> set states" "c \<in> set (da_credentials a)" "da_revision a \<le> r"
    "\<forall>b \<in> set states. da_revision b \<le> r \<longrightarrow> da_revision b \<le> da_revision a" by blast
  have "let_in_before L genesis d states a c" using replayFrom_states [OF L ok res(1)] a(1,2) unfolding res(2) by blast
  with st(1) a at(2,3) show "\<exists>caps states. statesOf L genesis (dd_checkpoint d) (dd_history d) = Inr (caps, states) \<and>
      \<not> isCompromisedAt caps c r \<and> (\<exists>a \<in> set states. c \<in> set (da_credentials a) \<and> da_revision a \<le> r \<and>
        (\<forall>b \<in> set states. da_revision b \<le> r \<longrightarrow> da_revision b \<le> da_revision a) \<and>
        let_in_before L genesis d states a c) \<and>
      (\<exists>a \<in> set states. r \<le> da_revision a)" by blast
qed

lemma documentFromReplay_plain: "documentFromReplay genesis r sources checkpoint = Inr d \<Longrightarrow> dd_overflow d = None"
  by (auto simp: documentFromReplay_def)

lemma toDocument_plain: "toDocument L genesis history checkpoint sources = Inr d \<Longrightarrow> dd_overflow d = None"
  by (auto simp: toDocument_def dest: documentFromReplay_plain)

lemma storedDocument_valid: "storedDocument L trusted candidate = Inr d \<Longrightarrow> dd_overflow d = None \<or> isDocument L d"
  by (auto simp: storedDocument_def dest: toDocument_plain split: option.splits if_splits)

lemma lookUpTimeline_authorizes:
  assumes L: "lib_ok L" and line: "lookUpTimeline L trusted head i = Inr line" and auth: "isAuthorizedAt line c r"
  shows "\<exists>d genesis caps states. resolveDocument L trusted head i = Inr (Some d) \<and>
    authorization_fromPrimitives L (dd_genesis d) = Inr genesis \<and>
    statesOf L genesis (dd_checkpoint d) (dd_history d) = Inr (caps, states) \<and>
    \<not> isCompromisedAt caps c r \<and> (\<exists>a \<in> set states. c \<in> set (da_credentials a) \<and> da_revision a \<le> r \<and>
        (\<forall>b \<in> set states. da_revision b \<le> r \<longrightarrow> da_revision b \<le> da_revision a) \<and>
        let_in_before L genesis d states a c) \<and>
    (\<exists>a \<in> set states. r \<le> da_revision a)"
proof -
  have "\<exists>d. resolveDocument L trusted head i = Inr (Some d)"
  proof (rule ccontr)
    assume "\<not> ?thesis"
    then have "line = new_timeline [] []" using line by (auto simp: lookUpTimeline_def split: option.splits)
    then show False using isAuthorizedAt_state(1) [of "[]" "[]" c r] auth by simp
  qed
  then obtain d where d: "resolveDocument L trusted head i = Inr (Some d)" by blast
  then have valid: "dd_overflow d = None \<or> isDocument L d"
    using storedDocument_valid by (auto simp: resolveDocument_def split: option.splits)
  from line d have "requireTimeline L d = Inr line" by (simp add: lookUpTimeline_def)
  then obtain genesis where g: "authorization_fromPrimitives L (dd_genesis d) = Inr genesis" "timelineOf L genesis d = Inr line"
    by (auto simp: requireTimeline_def)
  from timelineOf_authorizes [OF L g(1) valid g(2) auth] d g(1) show ?thesis by blast
qed

section \<open>The port of the gate\<close>

text \<open>
  The timelines of a node at \<open>now\<close>, whose lookups remember \<open>s\<close>; the genesis it trusts and the document
  it holds of an identity change with time.
\<close>

definition recentTimeline :: "lib \<Rightarrow> (int \<Rightarrow> identity_id \<Rightarrow> device_authorization option) \<Rightarrow>
    (int \<Rightarrow> identity_id \<Rightarrow> device_document option) \<Rightarrow> int \<Rightarrow> timeline short_lived_lookup \<Rightarrow>
    string \<Rightarrow> identity_id \<Rightarrow> device_error + timeline" where
  "recentTimeline L trusted head now s key i = fst (lookup_get key (lookUpTimeline L (trusted now) (head now) i) now s)"

definition timeline_loaded :: "lib \<Rightarrow> (int \<Rightarrow> identity_id \<Rightarrow> device_authorization option) \<Rightarrow>
    (int \<Rightarrow> identity_id \<Rightarrow> device_document option) \<Rightarrow> string \<Rightarrow> int \<Rightarrow> timeline \<Rightarrow> bool" where
  "timeline_loaded L trusted head key t line \<longleftrightarrow>
     (\<exists>i. lib_identity L key = Some i \<and> lookUpTimeline L (trusted t) (head t) i = Inr line)"

text \<open>Every lookup keeps that, starting from none.\<close>

lemma no_lookups: "lookup_ok loads now \<lparr>lk_entries = [], lk_sweptAt = 0\<rparr>"
  by (simp add: lookup_ok_def)

lemma timeline_lookups:
  assumes "lookup_ok (timeline_loaded L trusted head) now s" and "lib_identity L key = Some i"
  shows "lookup_ok (timeline_loaded L trusted head) now
      (snd (lookup_get key (lookUpTimeline L (trusted now) (head now) i) now s))"
    and "recentTimeline L trusted head now s key i = Inr line \<Longrightarrow>
      \<exists>t. now - TTL_MS < t \<and> t \<le> now \<and> lookUpTimeline L (trusted t) (head t) i = Inr line"
proof -
  have load: "\<And>v. lookUpTimeline L (trusted now) (head now) i = Inr v \<Longrightarrow> timeline_loaded L trusted head key now v"
    using assms(2) by (auto simp: timeline_loaded_def)
  note ok = lookup_get_ok [OF assms(1) load]
  show "lookup_ok (timeline_loaded L trusted head) now (snd (lookup_get key (lookUpTimeline L (trusted now) (head now) i) now s))"
    by (rule ok)
  assume "recentTimeline L trusted head now s key i = Inr line"
  then obtain t where "now - TTL_MS < t" "t \<le> now" "timeline_loaded L trusted head key t line"
    using ok(2) by (auto simp: recentTimeline_def)
  then show "\<exists>t. now - TTL_MS < t \<and> t \<le> now \<and> lookUpTimeline L (trusted t) (head t) i = Inr line"
    using assms(2) unfolding timeline_loaded_def by (metis option.inject)
qed

text \<open>
  What it means that an author spoke for its identity: a document that the node held in the last
  second authorized its device, which was let in and was not compromised, at the revision it names.
\<close>

definition spoke_for :: "lib \<Rightarrow> (int \<Rightarrow> identity_id \<Rightarrow> device_authorization option) \<Rightarrow>
    (int \<Rightarrow> identity_id \<Rightarrow> device_document option) \<Rightarrow> int \<Rightarrow> mutation_author \<Rightarrow> bool" where
  "spoke_for L trusted head now author \<longleftrightarrow>
     (\<exists>t i c d genesis caps states. now - TTL_MS < t \<and> t \<le> now \<and> lib_identity L (ma_identityId author) = Some i \<and>
        credential_fromWire L (ma_deviceCredential author) = Inr c \<and>
        resolveDocument L (trusted t) (head t) i = Inr (Some d) \<and>
        authorization_fromPrimitives L (dd_genesis d) = Inr genesis \<and>
        statesOf L genesis (dd_checkpoint d) (dd_history d) = Inr (caps, states) \<and>
        \<not> isCompromisedAt caps c (ma_authorizationRevision author) \<and>
        (\<exists>a \<in> set states. c \<in> set (da_credentials a) \<and> da_revision a \<le> ma_authorizationRevision author \<and>
          (\<forall>b \<in> set states. da_revision b \<le> ma_authorizationRevision author \<longrightarrow> da_revision b \<le> da_revision a) \<and>
          let_in_before L genesis d states a c) \<and>
        (\<exists>a \<in> set states. ma_authorizationRevision author \<le> da_revision a))"

lemma device_isAuthorized_yes:
  assumes "device_isAuthorized L timelines author = Inr True"
  obtains i line c where "lib_identity L (ma_identityId author) = Some i" "timelines (ma_identityId author) i = Inr line"
    "credential_fromWire L (ma_deviceCredential author) = Inr c" "isAuthorizedAt line c (ma_authorizationRevision author)"
  using assms
  by (auto simp: device_isAuthorized_def refusing_def new_Revision_def device_value_def split: sum.splits option.splits if_splits)

lemma authorized_author_spoke:
  assumes "device_isAuthorized L (recentTimeline L trusted head now s) author = Inr True"
    and L: "lib_ok L" and s: "lookup_ok (timeline_loaded L trusted head) now s"
  shows "spoke_for L trusted head now author"
proof -
  obtain i line c where i: "lib_identity L (ma_identityId author) = Some i"
    and line: "recentTimeline L trusted head now s (ma_identityId author) i = Inr line"
    and c: "credential_fromWire L (ma_deviceCredential author) = Inr c"
    and auth: "isAuthorizedAt line c (ma_authorizationRevision author)"
    by (rule device_isAuthorized_yes [OF assms(1)])
  obtain t where t: "now - TTL_MS < t \<and> t \<le> now" "lookUpTimeline L (trusted t) (head t) i = Inr line"
    using timeline_lookups(2) [OF s i line] by blast
  from lookUpTimeline_authorizes [OF L t(2) auth] t(1) i c show ?thesis unfolding spoke_for_def by blast
qed

interpretation device_port: author_port "device_isAuthorized L (recentTimeline L trusted head now s)"
    "\<lambda>a. lib_ok L \<longrightarrow> lookup_ok (timeline_loaded L trusted head) now s \<longrightarrow> spoke_for L trusted head now a"
  for L trusted head now s
  by unfold_locales (blast intro: authorized_author_spoke)

end
