(* ===== verification/DevicePages.thy ===== *)
theory DevicePages
  imports DeviceDocuments
begin

text \<open>
  Reading the log of an identity page by page: every page ends at a whole revision, and the pages
  a reader gets by following the cursor hold every entry of the log above the first cursor once.
  The witness of an overflow is the shortest prefix of the sources that does not fit.
\<close>

section \<open>One page\<close>

definition entriesOf :: "disclosure \<Rightarrow> transition list" where
  "entriesOf d = ds_recoveries d @ ds_concurrentRecoveries d @ ds_transitions d"

lemma page_loop_Some:
  assumes "page_loop countAt limit rs served old = Some r"
  shows "old = Some r \<or> r \<in> set rs"
  using assms by (induction rs arbitrary: served old) (fastforce split: if_splits)+

lemma page_loop_None: "page_loop countAt limit rs served old = None \<longleftrightarrow> old = None \<and> rs = []"
  by (induction rs arbitrary: served old) auto

text \<open>The last revision a page serves: none when nothing is above the cursor.\<close>

definition revisionsAbove :: "revision \<Rightarrow> disclosure \<Rightarrow> revision list" where
  "revisionsAbove cursor d = sort (remdups (map landsAt (filter (\<lambda>t. landsAt t > cursor) (entriesOf d))))"

lemma set_revisionsAbove: "set (revisionsAbove cursor d) = landsAt ` {t \<in> set (entriesOf d). landsAt t > cursor}"
  by (auto simp: revisionsAbove_def)

definition upTo :: "revision option \<Rightarrow> transition \<Rightarrow> bool" where
  "upTo r t \<longleftrightarrow> (case r of None \<Rightarrow> False | Some q \<Rightarrow> landsAt t \<le> q)"

lemma sort_remdups_set: "set (xs :: int list) = set ys \<Longrightarrow> sort (remdups xs) = sort (remdups ys)"
  by (rule sorted_distinct_set_unique) simp_all

lemma page_parts:
  obtains r where "ds_recoveries (page cursor limit d) = filter (upTo r) (sort_key landsAt (filter (\<lambda>t. landsAt t > cursor) (ds_recoveries d)))"
    "ds_concurrentRecoveries (page cursor limit d) =
       filter (upTo r) (sort_key landsAt (filter (\<lambda>t. landsAt t > cursor) (ds_concurrentRecoveries d)))"
    "ds_transitions (page cursor limit d) = filter (upTo r) (sort_key landsAt (filter (\<lambda>t. landsAt t > cursor) (ds_transitions d)))"
    "r = None \<longleftrightarrow> revisionsAbove cursor d = []" "\<And>q. r = Some q \<Longrightarrow> q \<in> set (revisionsAbove cursor d)"
    "ds_nextCursor (page cursor limit d) = (case r of None \<Rightarrow> None | Some q \<Rightarrow> if last (revisionsAbove cursor d) > q then Some q else None)"
proof -
  let ?above = "\<lambda>ts. sort_key landsAt (filter (\<lambda>t. landsAt t > cursor) ts)"
  let ?all = "?above (ds_recoveries d) @ ?above (ds_concurrentRecoveries d) @ ?above (ds_transitions d)"
  let ?countAt = "\<lambda>r. length (filter (\<lambda>t. landsAt t = r) ?all)"
  have revisions: "sort (remdups (map landsAt ?all)) = revisionsAbove cursor d"
    unfolding revisionsAbove_def by (rule sort_remdups_set) (auto simp: entriesOf_def)
  define r where "r = page_loop ?countAt limit (revisionsAbove cursor d) 0 None"
  have "page cursor limit d = \<lparr>ds_identityId = ds_identityId d, ds_recoveries = filter (upTo r) (?above (ds_recoveries d)),
      ds_concurrentRecoveries = filter (upTo r) (?above (ds_concurrentRecoveries d)),
      ds_transitions = filter (upTo r) (?above (ds_transitions d)),
      ds_nextCursor = (if (case r of None \<Rightarrow> False | Some q \<Rightarrow> last (revisionsAbove cursor d) > q) then r else None)\<rparr>"
    unfolding page_def Let_def revisions r_def upTo_def ..
  moreover have "r = None \<longleftrightarrow> revisionsAbove cursor d = []" unfolding r_def page_loop_None by simp
  moreover have "q \<in> set (revisionsAbove cursor d)" if "r = Some q" for q
    using page_loop_Some [OF that [unfolded r_def]] by simp
  ultimately show ?thesis using that [of r] by (cases r) simp_all
qed

lemma last_revision:
  assumes "t \<in> set (entriesOf d)" and "landsAt t > cursor"
  shows "landsAt t \<le> last (revisionsAbove cursor d)"
proof -
  have "landsAt t \<in> set (revisionsAbove cursor d)" using assms by (auto simp: set_revisionsAbove)
  moreover have "sorted (revisionsAbove cursor d)" by (simp add: revisionsAbove_def)
  ultimately show ?thesis by (metis last_in_set last_conv_nth in_set_conv_nth sorted_iff_nth_mono One_nat_def Suc_pred
        length_pos_if_in_set less_Suc_eq_le diff_less zero_less_one list.size(3) less_numeral_extra(3))
qed

text \<open>
  The entries of one kind above the cursor are those of the page and those above the next cursor.
\<close>

lemma page_splits:
  assumes kind: "set ts \<subseteq> set (entriesOf d)"
    and part: "served = filter (upTo r) (sort_key landsAt (filter (\<lambda>t. landsAt t > cursor) ts))"
    and none: "r = None \<longleftrightarrow> revisionsAbove cursor d = []" and some: "\<And>q. r = Some q \<Longrightarrow> q \<in> set (revisionsAbove cursor d)"
    and cursor': "next_cursor = (case r of None \<Rightarrow> None | Some q \<Rightarrow> if last (revisionsAbove cursor d) > q then Some q else None)"
  shows "mset (filter (\<lambda>t. landsAt t > cursor) ts) =
    mset served + (case next_cursor of None \<Rightarrow> {#} | Some q \<Rightarrow> mset (filter (\<lambda>t. landsAt t > q) ts))"
proof (cases r)
  case None
  then have "set (revisionsAbove cursor d) = {}" using none by simp
  then have "filter (\<lambda>t. landsAt t > cursor) ts = []" using kind unfolding set_revisionsAbove by (auto simp: filter_empty_conv)
  then show ?thesis using None part cursor' by simp
next
  case (Some q)
  have q: "q > cursor" using some [OF Some] by (auto simp: set_revisionsAbove)
  have served: "mset served = filter_mset (\<lambda>t. landsAt t \<le> q) (mset (filter (\<lambda>t. landsAt t > cursor) ts))"
    unfolding part Some by (simp add: upTo_def mset_filter)
  show ?thesis
  proof (cases "last (revisionsAbove cursor d) > q")
    case True
    have "filter_mset (\<lambda>t. \<not> landsAt t \<le> q) (mset (filter (\<lambda>t. landsAt t > cursor) ts)) = mset (filter (\<lambda>t. landsAt t > q) ts)"
      using q by (simp add: mset_filter filter_filter_mset) (intro filter_mset_cong, auto)
    then show ?thesis using multiset_partition [of "mset (filter (\<lambda>t. landsAt t > cursor) ts)" "\<lambda>t. landsAt t \<le> q"] served True
      by (simp add: cursor' Some)
  next
    case False
    have "\<forall>t \<in> set (filter (\<lambda>t. landsAt t > cursor) ts). landsAt t \<le> q"
      using last_revision kind False by fastforce
    then have "filter (\<lambda>t. landsAt t \<le> q) (filter (\<lambda>t. landsAt t > cursor) ts) = filter (\<lambda>t. landsAt t > cursor) ts"
      by (subst filter_id_conv)
    then have "mset served = mset (filter (\<lambda>t. landsAt t > cursor) ts)" unfolding served by (metis mset_filter)
    then show ?thesis using False by (simp add: cursor' Some)
  qed
qed

lemma next_cursor_advances:
  assumes "ds_nextCursor (page cursor limit d) = Some q"
  shows "q > cursor" and "\<exists>t \<in> set (entriesOf d). landsAt t = q"
proof -
  have "q \<in> set (revisionsAbove cursor d)"
    by (rule page_parts [of cursor limit d]) (use assms in \<open>auto split: option.splits if_splits\<close>)
  then show "q > cursor" "\<exists>t \<in> set (entriesOf d). landsAt t = q" by (auto simp: set_revisionsAbove)
qed

section \<open>All pages\<close>

text \<open>A reader that follows the cursor to the end, and what it gets of one kind of entries.\<close>

function read_pages :: "(disclosure \<Rightarrow> transition list) \<Rightarrow> nat \<Rightarrow> disclosure \<Rightarrow> revision \<Rightarrow> transition list" where
  "read_pages kind limit d cursor =
     (let p = page cursor limit d in
      kind p @ (case ds_nextCursor p of None \<Rightarrow> [] | Some r \<Rightarrow> read_pages kind limit d r))"
  by pat_completeness auto
termination
proof (relation "measure (\<lambda>(kind, limit, d, cursor). length (filter (\<lambda>t. landsAt t > cursor) (entriesOf d)))", goal_cases)
  case (2 kind limit d cursor p r)
  then have r: "ds_nextCursor (page cursor limit d) = Some r" by simp
  from next_cursor_advances [OF r] obtain t where t: "r > cursor" "t \<in> set (entriesOf d)" "landsAt t = r" by blast
  have "filter (\<lambda>t. landsAt t > r) (entriesOf d) = filter (\<lambda>t. landsAt t > r) (filter (\<lambda>t. landsAt t > cursor) (entriesOf d))"
    unfolding filter_filter using t(1) by (intro filter_cong) auto
  moreover have "length (filter (\<lambda>t. landsAt t > r) (filter (\<lambda>t. landsAt t > cursor) (entriesOf d))) <
      length (filter (\<lambda>t. landsAt t > cursor) (entriesOf d))"
    using t by (intro length_filter_less [of t]) auto
  ultimately show ?case by simp
qed simp

declare read_pages.simps [simp del]

lemma read_pages_all:
  assumes "kind \<in> {ds_recoveries, ds_concurrentRecoveries, ds_transitions}"
  shows "mset (read_pages kind limit d cursor) = mset (filter (\<lambda>t. landsAt t > cursor) (kind d))"
  using assms
proof (induction kind limit d cursor rule: read_pages.induct)
  case (1 kind limit d cursor)
  let ?p = "page cursor limit d"
  have sub: "set (kind d) \<subseteq> set (entriesOf d)" using 1(2) by (auto simp: entriesOf_def)
  have "mset (filter (\<lambda>t. landsAt t > cursor) (kind d)) =
      mset (kind ?p) + (case ds_nextCursor ?p of None \<Rightarrow> {#} | Some q \<Rightarrow> mset (filter (\<lambda>t. landsAt t > q) (kind d)))"
  proof (rule page_parts [of cursor limit d], goal_cases)
    case (1 r)
    have part: "kind ?p = filter (upTo r) (sort_key landsAt (filter (\<lambda>t. landsAt t > cursor) (kind d)))"
      using \<open>kind \<in> _\<close> 1(1-3) by auto
    show ?case by (rule page_splits [OF sub part 1(4-6)])
  qed
  moreover have "mset (read_pages kind limit d r) = mset (filter (\<lambda>t. landsAt t > r) (kind d))" if "ds_nextCursor ?p = Some r" for r
    using 1(1) [OF refl that 1(2)] .
  ultimately show ?case by (subst read_pages.simps) (cases "ds_nextCursor ?p", simp_all add: Let_def)
qed

section \<open>The witness of an overflow\<close>

lemma witness_loop_Inr:
  assumes "witness_loop bound fits sources ns = Inr w"
  shows "\<exists>i < length ns. w = take (ns ! i) sources \<and> fitsOverflowMeasure bound fits w = Inr False \<and>
    (\<forall>j < i. fitsOverflowMeasure bound fits (take (ns ! j) sources) = Inr True)"
  using assms
proof (induction ns)
  case (Cons n ns)
  then obtain b where b: "fitsOverflowMeasure bound fits (take n sources) = Inr b" by auto
  show ?case
  proof (cases b)
    case True
    then obtain i where i: "i < length ns" "w = take (ns ! i) sources" "fitsOverflowMeasure bound fits w = Inr False"
      "\<forall>j < i. fitsOverflowMeasure bound fits (take (ns ! j) sources) = Inr True"
      using Cons b by auto
    have "fitsOverflowMeasure bound fits (take ((n # ns) ! j) sources) = Inr True" if "j < Suc i" for j
      using that i(4) b True by (cases j) simp_all
    then show ?thesis using i(1-3) by (intro exI [of _ "Suc i"]) simp
  next
    case False
    then show ?thesis using Cons.prems b by (intro exI [of _ 0]) simp
  qed
qed simp

lemma minimalOverflowWitness_Inr:
  assumes "minimalOverflowWitness sources bound = Inr w"
  obtains n fits where "0 < n" "n \<le> length sources" "w = take n sources" "ob_fitsReplayedHistory bound sources = Inr fits"
    "fitsOverflowMeasure bound fits w = Inr False"
    "\<And>m. 0 < m \<Longrightarrow> m < n \<Longrightarrow> fitsOverflowMeasure bound fits (take m sources) = Inr True"
proof -
  from assms obtain fits where f: "ob_fitsReplayedHistory bound sources = Inr fits"
    "witness_loop bound fits sources [1..<length sources + 1] = Inr w" by (auto simp: minimalOverflowWitness_def)
  from witness_loop_Inr [OF f(2)] obtain i where i: "i < length [1..<length sources + 1]"
    "w = take ([1..<length sources + 1] ! i) sources" "fitsOverflowMeasure bound fits w = Inr False"
    "\<forall>j < i. fitsOverflowMeasure bound fits (take ([1..<length sources + 1] ! j) sources) = Inr True" by blast
  have nth: "[1..<length sources + 1] ! j = Suc j" if "j \<le> i" for j
  proof -
    have "1 + j < length sources + 1" using that i(1) unfolding length_upt by linarith
    from nth_upt [OF this] show ?thesis by (simp only: plus_1_eq_Suc)
  qed
  have len: "Suc i \<le> length sources" using i(1) unfolding length_upt by linarith
  have w: "w = take (Suc i) sources" using i(2) unfolding nth [OF order_refl] .
  show ?thesis
  proof (rule that [OF _ len w f(1) i(3)])
    show "fitsOverflowMeasure bound fits (take m sources) = Inr True" if "0 < m" "m < Suc i" for m
    proof -
      have m: "m - 1 < i" "m - 1 \<le> i" "Suc (m - 1) = m" using that by auto
      show ?thesis using i(4) [rule_format, OF m(1)] unfolding nth [OF m(2)] m(3) .
    qed
  qed simp
qed

end
