(* ===== verification/DeviceSamples.thy ===== *)
theory DeviceSamples
  imports DeviceGate DevicePages CallSamples
begin

text \<open>
  An identity with devices on which the properties are applied: \<open>ana\<close> with the device of her
  genesis, and what two of her devices do at once.
\<close>

definition anas_genesis :: device_authorization where
  "anas_genesis =
     \<lparr>da_identityId = ''ana'', da_networkIds = [''net''], da_recoveryAuthority = ''rec'', da_revision = 0,
      da_epoch = ''genesis'', da_credentials = [''pemd''], da_events = []\<rparr>"

definition sample_transition :: "string \<Rightarrow> string option \<Rightarrow> string \<Rightarrow> int \<Rightarrow> string \<Rightarrow> trecord" where
  "sample_transition op author i previous target =
     \<lparr>tp_authorizedAt = (if op = ''enroll'' then Some 1 else None), tp_authorCredential = author, tp_compromisedCredentials = None,
      tp_compromisedSince = None, tp_epoch = ''genesis'', tp_identityId = ''ana'', tp_operation = op,
      tp_operationId = i, tp_pairingExpiration = (if op = ''enroll'' then Some 2 else None),
      tp_pairingId = (if op = ''enroll'' then Some i else None),
      tp_previousRevision = previous, tp_proofOfPossession = (if op = ''revoke'' then None else Some ''s''),
      tp_revision = previous + 1, tp_signature = ''s'', tp_targetCredential = target, tp_targetCredentialCommitment = target\<rparr>"

definition enrolls_b :: trecord where "enrolls_b = sample_transition ''enroll'' (Some ''pemd'') ''0'' 0 ''pemb''"
definition b_enrolls_x :: trecord where "b_enrolls_x = sample_transition ''enroll'' (Some ''pemd'') ''1'' 1 ''x''"
definition d_enrolls_y :: trecord where "d_enrolls_y = sample_transition ''enroll'' (Some ''pemb'') ''2'' 1 ''y''"
definition d_enrolls_x :: trecord where "d_enrolls_x = sample_transition ''enroll'' (Some ''pemb'') ''3'' 1 ''x''"

text \<open>The transition that a sample record is of.\<close>

definition sample_parsed :: "trecord \<Rightarrow> transition" where
  "sample_parsed r =
     \<lparr>tr_author = tp_authorCredential r, tr_compromisedCredentials = None, tr_compromisedSince = None,
      tr_epoch = ''genesis'', tr_identityId = ''ana'', tr_operation = ENROLL, tr_operationId = tp_operationId r,
      tr_pairing = Some \<lparr>pr_id = tp_operationId r, pr_expiration = 2, pr_authorizedAt = 1\<rparr>,
      tr_previousRevision = tp_previousRevision r, tr_proofOfPossession = Some ''s'', tr_signature = Some ''s'',
      tr_target = tp_targetCredential r\<rparr>"

lemmas sample_record_defs = enrolls_b_def b_enrolls_x_def d_enrolls_y_def d_enrolls_x_def sample_transition_def

lemma transitionFromRecord_canonical:
  assumes "transition_fromPrimitives L r = Inr t" and "transition_toPrimitives L t = Inr r"
  shows "parsedTransitionOf L r = Some t"
  using assms by (simp add: parsedTransitionOf_def transitionFromRecord_def)

lemma call_lib_fields [simp]:
  "lib_text call_lib m s = Some s" "lib_identity call_lib s = Some s" "lib_uuid call_lib s = Some s"
  "lib_public_key call_lib s = Some s" "lib_signature call_lib s = Some s" "lib_timestamp call_lib t = True"
  "lib_commitment call_lib s = s" "lib_verify call_lib k w g = True" "lib_pem call_lib s = ''pem'' @ s"
  "lib_network call_lib s = Some s" "lib_unique call_lib = remdups"
  by (simp_all add: call_lib_def sample_lib_def)

lemma sample_parses:
  assumes "r \<in> {enrolls_b, b_enrolls_x, d_enrolls_y, d_enrolls_x}"
  shows "parsedTransitionOf call_lib r = Some (sample_parsed r)"
proof (rule transitionFromRecord_canonical)
  show "transition_fromPrimitives call_lib r = Inr (sample_parsed r)"
    using assms by (elim insertE emptyE) (simp_all add: sample_record_defs sample_parsed_def transition_fromPrimitives_def
      new_DeviceOperation_def if_text_def new_DeviceCredential_def compromisedCredentialsOrUndefined_def revisionOrUndefined_def
      new_Epoch_def epoch_genesis_def pairing_of_primitives_def device_timestamp_def new_Pairing_def pairing_isExpiredAt_def
      new_Revision_def safe_integer_def new_transition_def hasValidOperationShape_def hasValidCompromisedCredentials_def
      tr_getRevision_def revision_next_def hasValidProofShape_def)
  show "transition_toPrimitives call_lib (sample_parsed r) = Inr r"
    using assms by (elim insertE emptyE) (simp_all add: sample_record_defs sample_parsed_def transition_toPrimitives_def
      tr_getRevision_def revision_next_def new_Revision_def safe_integer_def)
qed


abbreviation sample_candidate :: "trecord \<Rightarrow> trecord candidate" where
  "sample_candidate r \<equiv> candidateOf r (sample_parsed r)"

lemma sample_candidates:
  assumes "set rs \<subseteq> {enrolls_b, b_enrolls_x, d_enrolls_y, d_enrolls_x}"
  shows "candidatesOf call_lib rs = map sample_candidate rs"
  using assms by (induction rs) (simp_all add: candidatesOf_def List.map_filter_simps sample_parses)

section \<open>What three of them at one revision come to\<close>

definition after_b :: device_authorization where
  "after_b = anas_genesis\<lparr>da_revision := 1, da_credentials := [''pemd'', ''pemb''],
     da_events := [DeviceCredentialWasEnrolledEvent \<lparr>de_epoch = ''genesis'', de_identityId = ''ana'', de_revision = 1\<rparr>]\<rparr>"

definition after_xy :: device_authorization where
  "after_xy = anas_genesis\<lparr>da_revision := 2, da_credentials := [''pemd'', ''pemb'', ''x'', ''y''],
     da_events := [DeviceCredentialWasEnrolledEvent \<lparr>de_epoch = ''genesis'', de_identityId = ''ana'', de_revision = 2\<rparr>]\<rparr>"

lemma sample_applies:
  assumes "tp_authorCredential r = Some c" and "c \<in> set (da_credentials a)" and "da_identityId a = ''ana''"
    and "da_epoch a = ''genesis''" and "da_revision a = tp_previousRevision r" and "0 \<le> da_revision a" and "da_revision a < 5"
  shows "policy_apply call_lib a (sample_parsed r) = device_enroll call_lib (tp_targetCredential r) a"
  using assms by (simp add: policy_apply_def verifyCommon_def policy_enroll_def verifyDeviceAuthor_def verifyTargetProof_def
      signedBy_key_def sample_parsed_def tr_getRevision_def revision_next_def new_Revision_def safe_integer_def immediatelyFollows_def
      getSigningPayload_def getProofOfPossessionPayload_def signed_preimage_def new_DevicePayload_def del: json_text.simps)

lemmas sample_states = after_b_def after_xy_def anas_genesis_def

lemmas enroll_defs = device_enroll_def enrollConcurrently_def new_credentials_def next_authorization_def new_DeviceAuthorization_def
  credential_fromIdentityId_def new_DeviceCredential_def isIndependentFrom_def device_record_def device_eventAttributes_def
  MAX_DEVICE_CREDENTIALS_def revision_next_def new_Revision_def safe_integer_def isAuthorized_def

lemma sample_enrolls:
  "enrollConcurrently call_lib [''pemb''] anas_genesis = Inr after_b"
  "enrollConcurrently call_lib [''x'', ''y''] after_b = Inr after_xy"
  "enrollConcurrently call_lib [''y'', ''x''] after_b = Inr after_xy"
  by (simp_all add: enroll_defs sample_states)

lemma sample_try:
  "tryApply call_lib anas_genesis (sample_parsed enrolls_b) = Some after_b"
  "\<exists>x. tryApply call_lib after_b (sample_parsed b_enrolls_x) = Some x \<and> tryApply call_lib after_b (sample_parsed d_enrolls_x) = Some x"
  "\<exists>y. tryApply call_lib after_b (sample_parsed d_enrolls_y) = Some y"
proof -
  have "device_enroll call_lib ''pemb'' anas_genesis = Inr after_b" by (simp add: enroll_defs sample_states)
  then show "tryApply call_lib anas_genesis (sample_parsed enrolls_b) = Some after_b"
    by (simp add: tryApply_def sample_applies sample_record_defs anas_genesis_def)
  have x: "\<exists>b. device_enroll call_lib ''x'' after_b = Inr b" by (simp add: enroll_defs sample_states)
  then show "\<exists>x. tryApply call_lib after_b (sample_parsed b_enrolls_x) = Some x \<and> tryApply call_lib after_b (sample_parsed d_enrolls_x) = Some x"
    by (auto simp: tryApply_def sample_applies sample_record_defs sample_states)
  have y: "\<exists>b. device_enroll call_lib ''y'' after_b = Inr b" by (simp add: enroll_defs sample_states)
  then show "\<exists>y. tryApply call_lib after_b (sample_parsed d_enrolls_y) = Some y"
    by (auto simp: tryApply_def sample_applies sample_record_defs sample_states)
qed


lemma sample_encodings: "encoding_of d_enrolls_x < encoding_of b_enrolls_x"
  by code_simp


lemma sample_hasSameEffect:
  "hasSameEffectAs (sample_parsed b_enrolls_x) (sample_parsed d_enrolls_x)"
  "\<not> hasSameEffectAs (sample_parsed b_enrolls_x) (sample_parsed d_enrolls_y)"
  "\<not> hasSameEffectAs (sample_parsed d_enrolls_y) (sample_parsed d_enrolls_x)"
  "\<not> hasSameEffectAs (sample_parsed d_enrolls_x) (sample_parsed d_enrolls_y)"
  by (simp_all add: hasSameEffectAs_def sample_parsed_def sample_record_defs)

lemma candidateOf_fields [simp]:
  "cd_transition (candidateOf r t) = t" "cd_payload (candidateOf r t) = r" "cd_encoding (candidateOf r t) = encoding_of r"
  by (simp_all add: candidateOf_def)

lemma sample_checkpoint:
  "checkpointOf call_lib anas_genesis [(z, sample_candidate enrolls_b)] = Inr after_b"
  "checkpointOf call_lib after_b [(x, sample_candidate d_enrolls_x), (y, sample_candidate d_enrolls_y)] = Inr after_xy"
  "checkpointOf call_lib after_b [(y, sample_candidate d_enrolls_y), (x, sample_candidate d_enrolls_x)] = Inr after_xy"
  using sample_enrolls by (simp_all add: checkpointOf_def sample_parsed_def sample_record_defs)

definition device_history :: "trecord list" where
  "device_history = [enrolls_b, b_enrolls_x, d_enrolls_y, d_enrolls_x]"

definition sample_accepted :: "trecord list" where
  "sample_accepted = [enrolls_b, d_enrolls_x, d_enrolls_y]"

definition sample_reordered :: "trecord list" where
  "sample_reordered = [enrolls_b, d_enrolls_y, d_enrolls_x]"

lemma sample_keys:
  "replayOrder (sample_candidate enrolls_b) = (''0'', encoding_of enrolls_b)"
  "replayOrder (sample_candidate b_enrolls_x) = (''1'', encoding_of b_enrolls_x)"
  "replayOrder (sample_candidate d_enrolls_y) = (''2'', encoding_of d_enrolls_y)"
  "replayOrder (sample_candidate d_enrolls_x) = (''3'', encoding_of d_enrolls_x)"
  by (simp_all add: replayOrder_def sample_parsed_def sample_record_defs)

lemma sample_previous:
  "tr_previousRevision (sample_parsed enrolls_b) = 0" "tr_previousRevision (sample_parsed b_enrolls_x) = 1"
  "tr_previousRevision (sample_parsed d_enrolls_y) = 1" "tr_previousRevision (sample_parsed d_enrolls_x) = 1"
  by (simp_all add: sample_parsed_def sample_record_defs)

lemma sample_groups:
  "candidatesAt 0 (groupByRevision (map sample_candidate device_history)) = [sample_candidate enrolls_b]"
  "candidatesAt 1 (groupByRevision (map sample_candidate device_history)) =
     [sample_candidate b_enrolls_x, sample_candidate d_enrolls_y, sample_candidate d_enrolls_x]"
  "candidatesAt 2 (groupByRevision (map sample_candidate device_history)) = []"
  "candidatesAt 0 (groupByRevision (map sample_candidate sample_accepted)) = [sample_candidate enrolls_b]"
  "candidatesAt 1 (groupByRevision (map sample_candidate sample_accepted)) = [sample_candidate d_enrolls_y, sample_candidate d_enrolls_x]"
  "candidatesAt 2 (groupByRevision (map sample_candidate sample_accepted)) = []"
  by (simp_all add: candidatesAt_groups device_history_def sample_accepted_def sample_previous sample_keys less_eq_prod_def)

lemma sample_revisions: "da_revision anas_genesis = 0" "da_revision after_b = 1" "da_revision after_xy = 2"
  by (simp_all add: sample_states)

lemma sample_runs:
  "replay_run call_lib (groupByRevision (map sample_candidate device_history)) anas_genesis
     (map sample_candidate sample_accepted) [after_b, after_xy]"
  "replay_run call_lib (groupByRevision (map sample_candidate sample_accepted)) anas_genesis
     (map sample_candidate sample_reordered) [after_b, after_xy]"
proof -
  obtain x y where x: "tryApply call_lib after_b (sample_parsed b_enrolls_x) = Some x"
    "tryApply call_lib after_b (sample_parsed d_enrolls_x) = Some x" and y: "tryApply call_lib after_b (sample_parsed d_enrolls_y) = Some y"
    using sample_try(2,3) by blast
  let ?G = "groupByRevision (map sample_candidate device_history)" and ?H = "groupByRevision (map sample_candidate sample_accepted)"
  have first: "admittedAt call_lib anas_genesis ?G = [(after_b, sample_candidate enrolls_b)]"
    "admittedAt call_lib anas_genesis ?H = [(after_b, sample_candidate enrolls_b)]"
    by (simp_all add: admittedAt_def sample_revisions sample_groups List.map_filter_simps sample_try(1))
  have second: "admittedAt call_lib after_b ?G =
      [(x, sample_candidate b_enrolls_x), (y, sample_candidate d_enrolls_y), (x, sample_candidate d_enrolls_x)]"
    "admittedAt call_lib after_b ?H = [(y, sample_candidate d_enrolls_y), (x, sample_candidate d_enrolls_x)]"
    by (simp_all add: admittedAt_def sample_revisions sample_groups List.map_filter_simps x y)
  have none: "admittedAt call_lib after_xy ?G = []" "admittedAt call_lib after_xy ?H = []"
    by (simp_all add: admittedAt_def sample_revisions sample_groups List.map_filter_simps)
  have c1: "compactedAt call_lib anas_genesis ?G = [(after_b, sample_candidate enrolls_b)]"
    "compactedAt call_lib anas_genesis ?H = [(after_b, sample_candidate enrolls_b)]"
    by (simp_all add: first compactEquivalent_def)
  have c2: "compactedAt call_lib after_b ?G = [(x, sample_candidate d_enrolls_x), (y, sample_candidate d_enrolls_y)]"
    "compactedAt call_lib after_b ?H = [(y, sample_candidate d_enrolls_y), (x, sample_candidate d_enrolls_x)]"
    by (simp_all add: second compactEquivalent_def sample_hasSameEffect sample_encodings)
  note step = replay_run.run_step
  have G2: "replay_run call_lib ?G after_b (map snd (compactedAt call_lib after_b ?G) @ []) [after_xy]"
    by (rule step [OF _ _ run_end]) (simp only: second list.distinct not_False_eq_True, simp only: c2 sample_checkpoint, rule none)
  have H2: "replay_run call_lib ?H after_b (map snd (compactedAt call_lib after_b ?H) @ []) [after_xy]"
    by (rule step [OF _ _ run_end]) (simp only: second list.distinct not_False_eq_True, simp only: c2 sample_checkpoint, rule none)
  have "replay_run call_lib ?G anas_genesis (map snd (compactedAt call_lib anas_genesis ?G) @
      map snd (compactedAt call_lib after_b ?G) @ []) [after_b, after_xy]"
    by (rule step [OF _ _ G2]) (simp only: first list.distinct not_False_eq_True, simp only: c1 sample_checkpoint)
  then show "replay_run call_lib ?G anas_genesis (map sample_candidate sample_accepted) [after_b, after_xy]"
    by (simp add: c1 c2 sample_accepted_def)
  have "replay_run call_lib ?H anas_genesis (map snd (compactedAt call_lib anas_genesis ?H) @
      map snd (compactedAt call_lib after_b ?H) @ []) [after_b, after_xy]"
    by (rule step [OF _ _ H2]) (simp only: first list.distinct not_False_eq_True, simp only: c1 sample_checkpoint)
  then show "replay_run call_lib ?H anas_genesis (map sample_candidate sample_reordered) [after_b, after_xy]"
    by (simp add: c1 c2 sample_reordered_def)
qed

lemma call_lib_ok: "lib_ok call_lib"
  by (simp add: lib_ok_def call_lib_def sample_lib_def)

lemma anas_genesis_ok: "authorization_ok call_lib anas_genesis"
  by (simp add: authorization_ok_def anas_genesis_def MAX_DEVICE_CREDENTIALS_def safe_integer_def credential_fromIdentityId_def
      new_DeviceCredential_def)

lemma replay_of_run:
  assumes "lib_ok L" and "authorization_ok L a" and "replay_run L (groupByRevision xs) a cs bs"
  shows "replay L a xs = Inr \<lparr>rp_accepted = cs, rp_authorization = last (a # bs), rp_checkpoints = bs\<rparr>"
proof -
  obtain cs' bs' where r: "replay_run L (groupByRevision xs) a cs' bs'"
    "replay L a xs = Inr \<lparr>rp_accepted = cs', rp_authorization = last (a # bs'), rp_checkpoints = bs'\<rparr>"
    by (rule replay_runs [OF assms(1,2)])
  then show ?thesis using run_unique [OF assms(3) r(1)] by simp
qed

lemma sample_replays:
  "replay call_lib anas_genesis (map sample_candidate device_history) =
     Inr \<lparr>rp_accepted = map sample_candidate sample_accepted, rp_authorization = after_xy, rp_checkpoints = [after_b, after_xy]\<rparr>"
  "replay call_lib anas_genesis (map sample_candidate sample_accepted) =
     Inr \<lparr>rp_accepted = map sample_candidate sample_reordered, rp_authorization = after_xy, rp_checkpoints = [after_b, after_xy]\<rparr>"
  using replay_of_run [OF call_lib_ok anas_genesis_ok sample_runs(1)] replay_of_run [OF call_lib_ok anas_genesis_ok sample_runs(2)]
  by simp_all


section \<open>A device that was compromised\<close>

text \<open>The device \<open>pemb\<close> is revoked as compromised from the revision it was enrolled at.\<close>

definition revokes_b :: trecord where
  "revokes_b = (sample_transition ''revoke'' (Some ''pemd'') ''4'' 1 ''pemb'')\<lparr>tp_compromisedSince := Some 1\<rparr>"

definition parsed_revocation :: transition where
  "parsed_revocation =
     \<lparr>tr_author = Some ''pemd'', tr_compromisedCredentials = None, tr_compromisedSince = Some 1, tr_epoch = ''genesis'',
      tr_identityId = ''ana'', tr_operation = REVOKE, tr_operationId = ''4'', tr_pairing = None, tr_previousRevision = 1,
      tr_proofOfPossession = None, tr_signature = Some ''s'', tr_target = ''pemb''\<rparr>"

lemma revocation_parses: "parsedTransitionOf call_lib revokes_b = Some parsed_revocation"
proof (rule transitionFromRecord_canonical)
  show "transition_fromPrimitives call_lib revokes_b = Inr parsed_revocation"
    by (simp add: revokes_b_def sample_transition_def parsed_revocation_def transition_fromPrimitives_def
      new_DeviceOperation_def if_text_def new_DeviceCredential_def compromisedCredentialsOrUndefined_def revisionOrUndefined_def
      new_Epoch_def epoch_genesis_def pairing_of_primitives_def new_Revision_def safe_integer_def new_transition_def
      hasValidOperationShape_def hasValidRevocationShape_def hasValidCompromiseRevision_def hasValidCompromisedCredentials_def
      tr_getRevision_def revision_next_def hasValidProofShape_def)
  show "transition_toPrimitives call_lib parsed_revocation = Inr revokes_b"
    by (simp add: revokes_b_def sample_transition_def parsed_revocation_def transition_toPrimitives_def
      tr_getRevision_def revision_next_def new_Revision_def safe_integer_def)
qed

definition after_revocation :: device_authorization where
  "after_revocation = anas_genesis\<lparr>da_revision := 2,
     da_events := [DeviceCredentialWasRevokedEvent \<lparr>de_epoch = ''genesis'', de_identityId = ''ana'', de_revision = 2\<rparr>]\<rparr>"

definition revocation_history :: "trecord list" where
  "revocation_history = [enrolls_b, revokes_b]"

abbreviation revocation_candidates :: "trecord candidate list" where
  "revocation_candidates \<equiv> [sample_candidate enrolls_b, candidateOf revokes_b parsed_revocation]"

lemma revocation_candidatesOf: "candidatesOf call_lib revocation_history = revocation_candidates"
  by (simp add: candidatesOf_def revocation_history_def List.map_filter_simps sample_parses revocation_parses)

lemma revocation_try: "\<exists>x. tryApply call_lib after_b parsed_revocation = Some x"
proof -
  have "\<exists>x. device_revoke call_lib ''pemb'' (Some 1) after_b = Inr x"
    by (simp add: enroll_defs sample_states device_revoke_def Let_def)
  moreover have "policy_apply call_lib after_b parsed_revocation = device_revoke call_lib ''pemb'' (Some 1) after_b"
    by (simp add: policy_apply_def verifyCommon_def policy_revoke_def verifyDeviceAuthor_def signedBy_key_def parsed_revocation_def
        tr_getRevision_def revision_next_def new_Revision_def safe_integer_def immediatelyFollows_def sample_states
        getSigningPayload_def signed_preimage_def new_DevicePayload_def del: json_text.simps)
  ultimately show ?thesis by (auto simp: tryApply_def)
qed

lemma revocation_checkpoint: "checkpointOf call_lib after_b [(x, candidateOf revokes_b parsed_revocation)] = Inr after_revocation"
  by (simp add: checkpointOf_def parsed_revocation_def revokeConcurrently_def survivors_def enroll_defs sample_states
      after_revocation_def Let_def)

lemma revocation_replay:
  "replay call_lib anas_genesis revocation_candidates =
     Inr \<lparr>rp_accepted = revocation_candidates, rp_authorization = after_revocation, rp_checkpoints = [after_b, after_revocation]\<rparr>"
proof -
  obtain x where x: "tryApply call_lib after_b parsed_revocation = Some x" using revocation_try by blast
  let ?G = "groupByRevision revocation_candidates"
  have prev: "tr_previousRevision parsed_revocation = 1" by (simp add: parsed_revocation_def)
  have groups: "candidatesAt 0 ?G = [sample_candidate enrolls_b]" "candidatesAt 1 ?G = [candidateOf revokes_b parsed_revocation]"
    "candidatesAt 2 ?G = []" by (simp_all add: candidatesAt_groups sample_previous prev)
  have first: "admittedAt call_lib anas_genesis ?G = [(after_b, sample_candidate enrolls_b)]"
    by (simp add: admittedAt_def sample_revisions groups List.map_filter_simps sample_try(1))
  have second: "admittedAt call_lib after_b ?G = [(x, candidateOf revokes_b parsed_revocation)]"
    by (simp add: admittedAt_def sample_revisions groups List.map_filter_simps x)
  have "da_revision after_revocation = 2" by (simp add: after_revocation_def)
  then have none: "admittedAt call_lib after_revocation ?G = []"
    by (simp add: admittedAt_def groups List.map_filter_simps)
  have c: "compactedAt call_lib anas_genesis ?G = [(after_b, sample_candidate enrolls_b)]"
    "compactedAt call_lib after_b ?G = [(x, candidateOf revokes_b parsed_revocation)]"
    by (simp_all add: first second compactEquivalent_def)
  note step = replay_run.run_step
  have later: "replay_run call_lib ?G after_b (map snd (compactedAt call_lib after_b ?G) @ []) [after_revocation]"
    by (rule step [OF _ _ run_end]) (simp only: second list.distinct not_False_eq_True, simp only: c revocation_checkpoint, rule none)
  have "replay_run call_lib ?G anas_genesis (map snd (compactedAt call_lib anas_genesis ?G) @
      map snd (compactedAt call_lib after_b ?G) @ []) [after_b, after_revocation]"
    by (rule step [OF _ _ later]) (simp only: first list.distinct not_False_eq_True, simp only: c sample_checkpoint)
  then have run: "replay_run call_lib ?G anas_genesis revocation_candidates [after_b, after_revocation]" by (simp add: c)
  then show ?thesis using replay_of_run [OF call_lib_ok anas_genesis_ok run] by simp
qed

section \<open>Documents\<close>

definition anas_document :: device_document where
  "anas_document = DeviceDocument (authorization_toPrimitives anas_genesis) None (authorization_toPrimitives anas_genesis) []
     (documentId ''ana'') ''ana'' (Some [\<lparr>so_checkpoint = None, so_history = []\<rparr>]) None"

lemma anas_genesis_reads: "authorization_fromPrimitives call_lib (authorization_toPrimitives anas_genesis) = Inr anas_genesis"
  by (simp add: authorization_fromPrimitives_def authorization_toPrimitives_def anas_genesis_def new_Epoch_def epoch_genesis_def
      enroll_defs)

lemma replay_nothing: "rebuild L a [] = Inr \<lparr>dr_authorization = a, dr_history = []\<rparr>"
  by (simp add: rebuild_def replay_def candidatesOf_def List.map_filter_simps groupByRevision_def replay_loop.simps
      admittedAt_def candidatesAt_def)

lemma empty_sources:
  "canonicalSources [\<lparr>so_checkpoint = None, so_history = []\<rparr>] = [\<lparr>so_checkpoint = None, so_history = []\<rparr>]"
  "preferredSourceCheckpoint L [\<lparr>so_checkpoint = None, so_history = []\<rparr>] = Inr None"
  "uniqueTransitionRecords [[]] = []"
  by (simp_all add: canonicalSources_def jsmap_of_def Let_def preferredSourceCheckpoint_def List.map_filter_simps
      preferCheckpoint_def uniqueTransitionRecords_def)

lemma empty_replays:
  "sourcesAtPreferredCheckpoint L g [\<lparr>so_checkpoint = None, so_history = []\<rparr>] = Inr [\<lparr>so_checkpoint = None, so_history = []\<rparr>]"
  "replaySources L g [\<lparr>so_checkpoint = None, so_history = []\<rparr>] = Inr (None, \<lparr>dr_authorization = g, dr_history = []\<rparr>)"
  by (simp_all add: sourcesAtPreferredCheckpoint_def empty_sources replaySources_def baseOf_def historyAbove_def replay_nothing)

lemma empty_bounds:
  "hasBoundedHistoryShape []" "hasBoundedSourcesShape [\<lparr>so_checkpoint = None, so_history = []\<rparr>]"
  by (simp_all add: hasBoundedHistoryShape_def hasBoundedSourcesShape_def recordCount_def bytesOf_def source_json_def records_json_def
      present_def List.map_filter_simps json_quote_def json_escape_def MAX_TRANSITION_HISTORY_BYTES_def)

lemma anas_document_made: "toDocument call_lib anas_genesis [] None None = Inr anas_document"
  by (simp add: toDocument_def empty_bounds baseOf_def replay_nothing empty_sources(1) empty_replays documentFromReplay_def
      anas_document_def anas_genesis_def)

definition anas_genesis_only :: "identity_id \<Rightarrow> device_authorization option" where
  "anas_genesis_only i = (if i = ''ana'' then Some anas_genesis else None)"

lemma anas_states: "statesOf L anas_genesis None [] = Inr ([], [anas_genesis])"
  by (simp add: statesOf_def replayFrom_def replay_def candidatesOf_def List.map_filter_simps groupByRevision_def replay_loop.simps
      admittedAt_def candidatesAt_def)

lemma anas_timeline: "lookUpTimeline call_lib anas_genesis_only (\<lambda>_. None) ''ana'' = Inr (new_timeline [anas_genesis] [])"
proof -
  have "resolveDocument call_lib anas_genesis_only (\<lambda>_. None) ''ana'' = Inr (Some anas_document)"
    by (simp add: resolveDocument_def anas_genesis_only_def storedDocument_def anas_document_made)
  moreover have "requireTimeline call_lib anas_document = Inr (new_timeline [anas_genesis] [])"
    by (simp add: requireTimeline_def anas_document_def anas_genesis_reads timelineOf_def anas_states)
  ultimately show ?thesis by (simp add: lookUpTimeline_def)
qed

end
