(* ===== verification/DevicePayloads.thy ===== *)
theory DevicePayloads
  imports DeviceTransitions
begin

text \<open>
  How long what is signed gets (\<open>getSigningPayload\<close> of \<open>DeviceAuthorizationTransition.ts\<close>, against
  the bound of \<open>DeviceAuthorizationPayload.ts\<close>): the text of a document is at least as long as
  the texts in it, so a recovery that carries as many compromised devices as it may cannot be signed.
\<close>

lemma commas_length: "js_length (tl (commas ts)) + 1 = sum_list (map js_length ts) + length ts" if "ts \<noteq> []"
proof -
  have all: "js_length (commas us) = sum_list (map js_length us) + length us" for us
    by (induction us) (simp_all add: commas_def js_length_def)
  have "commas ts = CHR '','' # tl (commas ts)" using that by (cases ts) (simp_all add: commas_def)
  then have "js_length (commas ts) = js_length [CHR '',''] + js_length (tl (commas ts))"
    by (metis append_Cons append_Nil js_length_append)
  then show ?thesis using all [of ts] by (simp add: js_length_def)
qed

lemma commas_covers: "sum_list (map js_length ts) \<le> js_length (tl (commas ts))"
proof (cases "ts = []")
  case False
  then have "0 < length ts" by simp
  then show ?thesis using commas_length [OF False] by linarith
qed simp

lemma array_length: "sum_list (map (js_length \<circ> json_text) xs) \<le> js_length (json_text (JArray xs))"
proof -
  have "js_length (tl (commas (map json_text xs))) \<le> js_length (json_text (JArray xs))"
    by (simp only: json_text.simps js_length_append)
  then show ?thesis using commas_covers [of "map json_text xs"] by (simp only: map_map)
qed

lemma property_length: "(k, v) \<in> set kvs \<Longrightarrow> js_length (json_text v) \<le> js_length (json_text (JObject kvs))"
proof -
  let ?t = "\<lambda>kv. json_quote (fst kv) @ '':'' @ json_text (snd kv)"
  assume "(k, v) \<in> set kvs"
  then have "js_length (?t (k, v)) \<in> set (map js_length (map ?t kvs))" by force
  then have "js_length (?t (k, v)) \<le> sum_list (map js_length (map ?t kvs))" by (rule member_le_sum_list) simp
  also have "\<dots> \<le> js_length (tl (commas (map ?t kvs)))" by (rule commas_covers)
  also have "\<dots> \<le> js_length (json_text (JObject kvs))" by (simp only: json_text.simps js_length_append)
  finally show ?thesis by (simp only: js_length_append snd_conv)
qed

lemma present_length: "(k, Some v) \<in> set kvs \<Longrightarrow> js_length (json_text v) \<le> js_length (json_text (present kvs))"
  unfolding present_def by (rule property_length [of k]) (force simp: List.map_filter_def)

lemma compromised_length: "js_length (cc_credential e) + 37 \<le> js_length (json_text (compromised_json e))"
proof -
  let ?ts = "[json_quote ''compromisedSince'' @ '':'' @ json_int (cc_since e), json_quote ''credential'' @ '':'' @ json_quote (cc_credential e)]"
  have "js_length (json_text (compromised_json e)) = js_length ''{'' + js_length (tl (commas ?ts)) + js_length ''}''"
    by (simp only: compromised_json_def json_text.simps js_length_append list.map fst_conv snd_conv)
  moreover have "js_length (tl (commas ?ts)) + 1 = sum_list (map js_length ?ts) + length ?ts" by (rule commas_length) simp
  moreover have "sum_list (map js_length ?ts) = js_length (json_quote ''compromisedSince'') + js_length '':'' +
      js_length (json_int (cc_since e)) + (js_length (json_quote ''credential'') + js_length '':'' + js_length (json_quote (cc_credential e)))"
    by (simp only: list.map sum_list.Cons sum_list.Nil js_length_append add.assoc add_0_right)
  moreover have "js_length (json_quote ''compromisedSince'') = 18" "js_length (json_quote ''credential'') = 12"
    "js_length ''{'' = 1" "js_length ''}'' = 1" "js_length '':'' = 1" by code_simp+
  moreover have "length ?ts = 2" by simp
  ultimately show ?thesis using js_length_quote [of "cc_credential e"] by linarith
qed

text \<open>The bound of \<open>StringValueObject\<close>, which refuses a text that is longer.\<close>

definition refuses_longer :: "lib \<Rightarrow> bool" where
  "refuses_longer L \<longleftrightarrow> (\<forall>m s. m < js_length s \<longrightarrow> lib_text L (Some m) s = None)"

theorem full_recovery_cannot_be_signed:
  assumes lib: "refuses_longer L" and es: "tr_compromisedCredentials t = Some es" "length es = MAX_COMPROMISED_CREDENTIALS"
    and long: "\<And>e. e \<in> set es \<Longrightarrow> 100 \<le> js_length (cc_credential e)"
  shows "\<exists>e. getSigningPayload L t = Inl e"
proof (cases "signed_preimage L t")
  case (Inr p)
  have each: "137 \<le> js_length (json_text (compromised_json e))" if "e \<in> set es" for e
    using compromised_length [of e] long [OF that] by linarith
  have "length es * 137 \<le> sum_list (map (js_length \<circ> json_text) (map compromised_json es))"
    using each by (induction es) (fastforce simp: comp_def)+
  also have "\<dots> \<le> js_length (json_text (JArray (map compromised_json es)))" by (rule array_length)
  also have "\<dots> \<le> js_length (json_text p)"
  proof -
    obtain kvs where "p = present kvs" "(''compromisedCredentials'', Some (JArray (map compromised_json es))) \<in> set kvs"
      using Inr es(1) by (auto simp: signed_preimage_def)
    then show ?thesis using present_length by blast
  qed
  finally have p: "MAX_PAYLOAD_LENGTH < js_length (json_text p)"
    by (simp add: es(2) MAX_COMPROMISED_CREDENTIALS_def MAX_PAYLOAD_LENGTH_def)
  have "js_length (json_text p) \<le> js_length (json_text (present
      [(''domain'', Some (JString d)), (''proofOfPossession'', x), (''transition'', Some p)]))" for d x
    by (rule present_length [of "''transition''"]) simp
  with p lib have "lib_text L (Some MAX_PAYLOAD_LENGTH) (json_text (present
      [(''domain'', Some (JString d)), (''proofOfPossession'', x), (''transition'', Some p)])) = None" for d x
    unfolding refuses_longer_def by (meson less_le_trans)
  then show ?thesis by (simp add: getSigningPayload_def Inr new_DevicePayload_def device_value_def)
qed (simp add: getSigningPayload_def)

lemma bounded_text_refuses:
  "refuses_longer (L\<lparr>lib_text := \<lambda>m s. case m of Some n \<Rightarrow> if n < js_length s then None else Some s | None \<Rightarrow> Some s\<rparr>)"
  by (simp add: refuses_longer_def)

end
