(* ===== verification/DeviceGuarantees.thy ===== *)
theory DeviceGuarantees
  imports DeviceSamples DevicePayloads
begin

text \<open>
  The properties of the devices of an identity: replays of their signed transitions, the merge of
  the documents that nodes exchange, the timeline that says who speaks for an identity, and the
  log that is disclosed. Each has a witness on the sample identity of \<open>DeviceSamples\<close>.
\<close>

section \<open>Compromised devices\<close>

lemma carried_compromised:
  assumes valid: "hasValidCompromisedCredentials t" and e: "e \<in> set (carriedBy t)" "cc_since e \<le> r"
  shows "isCompromisedAt (carriedBy t) (cc_credential e) r"
proof -
  let ?es = "carriedBy t"
  have step: "cc_credential (?es ! (n - 1)) < cc_credential (?es ! n)" if "n < length ?es" "n \<noteq> 0" for n
  proof (cases "tr_compromisedCredentials t")
    case None
    then show ?thesis using that by (simp add: carriedBy_def getCompromisedCredentials_def)
  next
    case (Some es)
    then have es: "?es = es" by (simp add: carriedBy_def getCompromisedCredentials_def)
    have "n \<in> set [0..<length es]" using that es by simp
    then have "n = 0 \<or> cc_credential (es ! (n - 1)) < cc_credential (es ! n)"
      using valid Some unfolding hasValidCompromisedCredentials_def list_all_iff by (simp only: option.case)
    then show ?thesis using that es by simp
  qed
  have less: "cc_credential (?es ! i) < cc_credential (?es ! j)" if "i < j" "j < length ?es" for i j
    using that
  proof (induction j)
    case (Suc j)
    have last: "cc_credential (?es ! j) < cc_credential (?es ! Suc j)" using step [of "Suc j"] Suc.prems by simp
    show ?case
    proof (cases "i = j")
      case False
      then have "cc_credential (?es ! i) < cc_credential (?es ! j)" using Suc by simp
      then show ?thesis using last by (rule less_trans)
    qed (use last in simp)
  qed simp
  obtain n where n: "n < length ?es" "?es ! n = e" using e(1) by (auto simp: in_set_conv_nth)
  have "cc_credential (?es ! m) \<noteq> cc_credential e" if "m < n" for m
    using less [OF that n(1)] n(2) by auto
  then have "cap_of ?es (cc_credential e) = Some e"
    unfolding cap_of_def find_Some_iff using n by (intro exI [of _ n]) simp
  then show ?thesis using e(2) by (simp add: isCompromisedAt_def)
qed

lemma required_transition_valid:
  assumes "requireTransitionFromRecord L rec = Inr t"
  shows "hasValidCompromisedCredentials t"
proof -
  have "transition_fromPrimitives L rec = Inr t"
    using assms by (auto simp: requireTransitionFromRecord_def transitionFromRecord_def split: if_splits)
  then show ?thesis by (auto simp: transition_fromPrimitives_def new_transition_def)
qed

lemma mapR_members: "mapR f xs = Inr ys \<Longrightarrow> y \<in> set ys \<Longrightarrow> \<exists>x \<in> set xs. f x = Inr y"
  by (induction xs arbitrary: ys) auto

lemma lineage_recovers: "lineage_loop L ts head states = Inr res \<Longrightarrow> t \<in> set ts \<Longrightarrow> isRecovery t"
proof (induction ts arbitrary: head states)
  case (Cons u us)
  from Cons.prems(1) obtain s where s: "recoverLineage L head u = Inr s" "lineage_loop L us s (states @ [s]) = Inr res" by auto
  from s(1) have "isRecovery u" by (auto simp: recoverLineage_def applyRecoveryCheckpoint_def)
  then show ?case using Cons.IH [OF s(2)] Cons.prems(2) by auto
qed simp

lemma checkpoint_caps:
  assumes L: "lib_ok L" and ok: "authorization_ok L genesis" and ck: "checkpointState L genesis k = Inr s"
    and rec: "mapR (requireTransitionFromRecord L) (ck_lineage k @ [ck_transition k]) = Inr recoveries"
    and conc: "mapR (requireTransitionFromRecord L) (case ck_concurrent k of None \<Rightarrow> [] | Some rs \<Rightarrow> rs) = Inr concurrent"
    and t: "t \<in> set recoveries \<union> set concurrent" and c: "compromises t c r"
  shows "isCompromisedAt (rs_caps s) c r"
proof -
  have run: "replayRecoveryLineage L genesis recoveries concurrent = Inr s"
    using ck rec conc by (auto simp: checkpointState_def)
  show ?thesis
  proof (cases "t \<in> set concurrent")
    case True
    then show ?thesis using replayRecoveryLineage_ok(4) [OF L ok run] c by blast
  next
    case False
    then have t': "t \<in> set recoveries" using t by blast
    have "isRecovery t"
      using run lineage_recovers [OF _ t'] by (auto simp: replayRecoveryLineage_def Let_def split: prod.splits)
    then obtain e where e: "e \<in> set (carriedBy t)" "cc_credential e = c" "cc_since e \<le> r"
      using c by (auto simp: compromises_carried)
    have "hasValidCompromisedCredentials t" using mapR_members [OF rec t'] required_transition_valid by blast
    from carried_compromised [OF this e(1,3)] e(2) have "isCompromisedAt (carriedBy t) c r" by simp
    then show ?thesis by (rule replayRecoveryLineage_ok(3) [OF L ok run t'])
  qed
qed

text \<open>Every transition of a document that is disclosed.\<close>

definition disclosed :: "disclosure \<Rightarrow> transition set" where
  "disclosed d = set (ds_recoveries d) \<union> set (ds_concurrentRecoveries d) \<union> set (ds_transitions d)"

text \<open>
  What the timeline of a document rests on: its checkpoint and history, or, once it has overflowed,
  the checkpoint preferred among its sources and the records of the sources above it.
\<close>

definition evidenceOf :: "lib \<Rightarrow> device_document \<Rightarrow> device_error + device_checkpoint option \<times> trecord list" where
  "evidenceOf L d =
     (case dd_overflow d of
        None \<Rightarrow> Inr (dd_checkpoint d, dd_history d)
      | Some _ \<Rightarrow>
          bindR (preferredSourceCheckpoint L (documentSources d)) (\<lambda>checkpoint.
            Inr (checkpoint, historyAbove checkpoint (documentSources d))))"

text \<open>The recoveries of that checkpoint, those that lost to it, and the transitions accepted above it.\<close>

definition standing :: "lib \<Rightarrow> device_authorization \<Rightarrow> device_document \<Rightarrow> transition set" where
  "standing L genesis d =
     {t. \<exists>checkpoint history base res. evidenceOf L d = Inr (checkpoint, history) \<and>
        replayFrom L genesis checkpoint history = Inr (base, res) \<and>
        (t \<in> cd_transition ` set (rp_accepted res) \<or>
         (\<exists>k recoveries concurrent. checkpoint = Some k \<and>
            mapR (requireTransitionFromRecord L) (ck_lineage k @ [ck_transition k]) = Inr recoveries \<and>
            mapR (requireTransitionFromRecord L) (case ck_concurrent k of None \<Rightarrow> [] | Some rs \<Rightarrow> rs) = Inr concurrent \<and>
            t \<in> set recoveries \<union> set concurrent))}"

lemma standing_compromise_holds:
  assumes L: "lib_ok L" and ok: "authorization_ok L genesis" and line: "timelineOf L genesis d = Inr line"
    and t: "t \<in> standing L genesis d" and c: "compromises t c r"
  shows "\<not> isAuthorizedAt line c r"
proof -
  from t obtain checkpoint history base res where ev: "evidenceOf L d = Inr (checkpoint, history)"
    and res: "replayFrom L genesis checkpoint history = Inr (base, res)"
    and from': "t \<in> cd_transition ` set (rp_accepted res) \<or>
      (\<exists>k recoveries concurrent. checkpoint = Some k \<and>
         mapR (requireTransitionFromRecord L) (ck_lineage k @ [ck_transition k]) = Inr recoveries \<and>
         mapR (requireTransitionFromRecord L) (case ck_concurrent k of None \<Rightarrow> [] | Some rs \<Rightarrow> rs) = Inr concurrent \<and>
         t \<in> set recoveries \<union> set concurrent)"
    unfolding standing_def by blast
  let ?caps = "fold withCompromise (map cd_transition (rp_accepted res)) (rs_caps base)"
  have "isCompromisedAt ?caps c r"
  proof (cases "t \<in> cd_transition ` set (rp_accepted res)")
    case True
    then show ?thesis using c unfolding isCompromisedAt_all by auto
  next
    case False
    then obtain k recoveries concurrent where k: "checkpoint = Some k"
      "mapR (requireTransitionFromRecord L) (ck_lineage k @ [ck_transition k]) = Inr recoveries"
      "mapR (requireTransitionFromRecord L) (case ck_concurrent k of None \<Rightarrow> [] | Some rs \<Rightarrow> rs) = Inr concurrent"
      "t \<in> set recoveries \<union> set concurrent" using from' by blast
    have "checkpointState L genesis k = Inr base" using res k(1) by (auto simp: replayFrom_def)
    from checkpoint_caps [OF L ok this k(2-4) c] show ?thesis unfolding isCompromisedAt_all by blast
  qed
  moreover obtain states where "line = new_timeline states ?caps"
    using line ev res
    by (auto simp: timelineOf_def evidenceOf_def statesOf_def compromiseCapsOf_def compromiseCapsOfSources_def
        split: option.splits)
  ultimately show ?thesis using isAuthorizedAt_state(2) by blast
qed

text \<open>The log that a document discloses stands as long as it has not overflowed; afterwards nobody is authorized.\<close>

lemma disclosed_standing:
  assumes plain: "dd_overflow d = None" and log: "transitionLogOf L genesis d = Inr log" and t: "t \<in> disclosed (disclose log)"
  shows "t \<in> standing L genesis d"
proof -
  from log plain obtain base res recoveries concurrent where
    res: "replayFrom L genesis (dd_checkpoint d) (dd_history d) = Inr (base, res)"
    and rec: "mapR (requireTransitionFromRecord L) (case dd_checkpoint d of None \<Rightarrow> [] | Some k \<Rightarrow> ck_lineage k @ [ck_transition k]) = Inr recoveries"
    and conc: "mapR (requireTransitionFromRecord L)
      (case dd_checkpoint d of None \<Rightarrow> [] | Some k \<Rightarrow> (case ck_concurrent k of None \<Rightarrow> [] | Some rs \<Rightarrow> rs)) = Inr concurrent"
    and parts: "tg_recoveries log = recoveries" "tg_concurrentRecoveries log = concurrent"
      "tg_transitions log = map cd_transition (rp_accepted res)"
    by (auto simp: transitionLogOf_def Let_def new_TransitionLog_def)
  have ev: "evidenceOf L d = Inr (dd_checkpoint d, dd_history d)" using plain by (simp add: evidenceOf_def)
  have t': "t \<in> cd_transition ` set (rp_accepted res) \<or> t \<in> set recoveries \<union> set concurrent"
    using t parts by (auto simp: disclosed_def disclose_def)
  show ?thesis
  proof (cases "dd_checkpoint d")
    case None
    then show ?thesis using ev res t' rec conc unfolding standing_def by auto
  next
    case (Some k)
    then show ?thesis using ev res t' rec conc unfolding standing_def by simp
  qed
qed

lemma disclosed_compromise_holds:
  assumes L: "lib_ok L" and g: "authorization_fromPrimitives L (dd_genesis d) = Inr genesis"
    and valid: "dd_overflow d = None \<or> isDocument L d" and line: "timelineOf L genesis d = Inr line"
    and log: "transitionLogOf L genesis d = Inr log" and t: "t \<in> disclosed (disclose log)" and c: "compromises t c r"
  shows "\<not> isAuthorizedAt line c r"
proof
  assume "isAuthorizedAt line c r"
  then have "dd_overflow d = None" using timelineOf_authorizes(1) [OF L g valid line] by blast
  from standing_compromise_holds [OF L authorization_fromPrimitives_ok [OF L g] line disclosed_standing [OF this log t] c]
  show False using \<open>isAuthorizedAt line c r\<close> by blast
qed

section \<open>Sources\<close>

lemma replaySources_set:
  assumes "set xs = set ys"
  shows "replaySources L genesis xs = replaySources L genesis ys"
    and "compromiseCapsOfSources L genesis xs = compromiseCapsOfSources L genesis ys"
proof -
  have "uniqueTransitionRecords (map so_history xs) = uniqueTransitionRecords (map so_history ys)"
    using assms by (intro uniqueTransitionRecords_cong) simp
  then have above: "historyAbove checkpoint xs = historyAbove checkpoint ys" for checkpoint by (simp add: historyAbove_def)
  show "replaySources L genesis xs = replaySources L genesis ys"
    by (simp add: replaySources_def preferredSourceCheckpoint_cong [OF assms] above)
  show "compromiseCapsOfSources L genesis xs = compromiseCapsOfSources L genesis ys"
    by (simp add: compromiseCapsOfSources_def preferredSourceCheckpoint_cong [OF assms] above)
qed

section \<open>The gate\<close>

lemma verdictOf_authorized:
  assumes "verdictOf L A pols collection r = VerdictAccepted" and "proofOf L r = Some p" and "A' (pf_author p) = Inr True"
  shows "verdictOf L A' pols collection r = VerdictAccepted"
proof (cases "governs pols collection")
  case True
  from verdictOf_accepted [OF True assms(1)] obtain pol q where q:
    "policyFor pols collection (map_of r ''scopeType'') = Some pol" "intrinsicProof L pol r = Some q"
    "pol_assertPermitted pol (payloadOf r) (ma_identityId (pf_author q)) (isDeletion q)
       (case pf_frontier q of None \<Rightarrow> [] | Some f \<Rightarrow> f) = Inr ()" by metis
  have "q = p" using intrinsicProof_Some [OF q(2)] assms(2) by auto
  then show ?thesis using True q assms(3) by (simp add: verdictOf_def assertAuthorized_def)
qed (simp add: verdictOf_def)

section \<open>Properties\<close>

text \<open>
  C10: A replay of transitions of devices returns. From a well-formed authorization it yields, for
  every set of candidates, well-formed authorizations of the same owner, each one revision after
  the one before, and ends in the last of them; what it accepts are candidates, and every device
  of every state was in the base or is the target of an accepted candidate that the signatures
  of one of those states let in.
\<close>

theorem replay_returns:
  assumes "lib_ok L" and "authorization_ok L base"
  shows "\<exists>res. replay L base cs = Inr res \<and> consecutive (base # rp_checkpoints res) \<and>
    rp_authorization res = last (base # rp_checkpoints res) \<and> set (rp_accepted res) \<subseteq> set cs \<and>
    (\<forall>b \<in> set (rp_checkpoints res). authorization_ok L b \<and> same_owner base b \<and>
       (\<forall>c \<in> set (da_credentials b). c \<in> set (da_credentials base) \<or>
          (\<exists>x \<in> set (rp_accepted res). \<exists>s \<in> set (base # rp_checkpoints res).
             tr_target (cd_transition x) = c \<and> lets_in L s (cd_transition x))))"
proof -
  obtain as bs where run: "replay_run L (groupByRevision cs) base as bs"
    "replay L base cs = Inr \<lparr>rp_accepted = as, rp_authorization = last (base # bs), rp_checkpoints = bs\<rparr>"
    by (rule replay_runs [OF assms])
  have "set as \<subseteq> set cs" using run_accepts_candidates [OF run(1)] by (auto simp: candidatesAt_groups)
  then show ?thesis using run(2) run_states [OF run(1) assms] run_credentials [OF run(1) assms] by auto
qed

lemma replay_returns_witness:
  "\<exists>res. replay call_lib anas_genesis (map sample_candidate device_history) = Inr res \<and>
    consecutive (anas_genesis # rp_checkpoints res) \<and> rp_authorization res = after_xy"
proof -
  from replay_returns [OF call_lib_ok anas_genesis_ok, of "map sample_candidate device_history"] obtain res
    where "replay call_lib anas_genesis (map sample_candidate device_history) = Inr res"
      "consecutive (anas_genesis # rp_checkpoints res)" by blast
  then show ?thesis using sample_replays(1) by auto
qed

text \<open>
  C16: Nodes that hold the same sources replay the same devices. The replay does not depend on the
  order of its candidates, when their order of replay tells them apart; the replay of sources, the
  checkpoint it starts from, the sources at that checkpoint and the caps on compromised devices do
  not depend on the order in which the sources were gathered, or on how often.
\<close>

theorem replays_converge:
  assumes "set xs = set ys" and "mset cs = mset ds" and "inj_on replayOrder (set cs)"
  shows "replay L base cs = replay L base ds \<and> replaySources L genesis xs = replaySources L genesis ys \<and>
    preferredSourceCheckpoint L xs = preferredSourceCheckpoint L ys \<and>
    sourcesAtPreferredCheckpoint L genesis (canonicalSources xs) = sourcesAtPreferredCheckpoint L genesis (canonicalSources ys) \<and>
    compromiseCapsOfSources L genesis xs = compromiseCapsOfSources L genesis ys"
  using replay_of_same_candidates [OF assms(2,3)] replaySources_set [OF assms(1)] preferredSourceCheckpoint_cong [OF assms(1)]
    sourcesAtPreferredCheckpoint_canonical [OF assms(1)] by blast

lemma replays_converge_witness:
  "replay call_lib anas_genesis (map sample_candidate [d_enrolls_y, enrolls_b]) =
     replay call_lib anas_genesis (map sample_candidate [enrolls_b, d_enrolls_y]) \<and>
   replaySources call_lib anas_genesis [\<lparr>so_checkpoint = None, so_history = [enrolls_b]\<rparr>, \<lparr>so_checkpoint = None, so_history = []\<rparr>] =
     replaySources call_lib anas_genesis [\<lparr>so_checkpoint = None, so_history = []\<rparr>, \<lparr>so_checkpoint = None, so_history = [enrolls_b]\<rparr>]"
proof -
  have "inj_on replayOrder (set (map sample_candidate [d_enrolls_y, enrolls_b]))" by (auto simp: sample_keys inj_on_def)
  from replays_converge [OF _ _ this,
    of "[\<lparr>so_checkpoint = None, so_history = [enrolls_b]\<rparr>, \<lparr>so_checkpoint = None, so_history = []\<rparr>]"
       "[\<lparr>so_checkpoint = None, so_history = []\<rparr>, \<lparr>so_checkpoint = None, so_history = [enrolls_b]\<rparr>]"
       "map sample_candidate [enrolls_b, d_enrolls_y]" call_lib anas_genesis anas_genesis]
  show ?thesis by (simp add: insert_commute add_mset_commute)
qed

text \<open>
  C19: Replaying what a replay accepted gives the same devices. If no recovery was accepted, a
  replay of the accepted candidates goes through the same states and accepts the same candidates,
  in an order from which further replays no longer differ.
\<close>

theorem replay_of_accepted:
  assumes "lib_ok L" and "authorization_ok L base" and "replay L base cs = Inr res"
    and "\<forall>c \<in> set (rp_accepted res). \<not> isRecovery (cd_transition c)" and "inj_on replayOrder (set (rp_accepted res))"
  shows "\<exists>again. replay L base (rp_accepted res) = Inr again \<and> rp_authorization again = rp_authorization res \<and>
    rp_checkpoints again = rp_checkpoints res \<and> mset (rp_accepted again) = mset (rp_accepted res) \<and>
    replay L base (rp_accepted again) = Inr again"
proof -
  obtain again where a: "replay L base (rp_accepted res) = Inr again" "rp_authorization again = rp_authorization res"
    "rp_checkpoints again = rp_checkpoints res" "mset (rp_accepted again) = mset (rp_accepted res)"
    by (rule replay_again [OF assms(1-4)])
  then have "replay L base (rp_accepted again) = Inr again"
    using replay_of_same_candidates [OF a(4) [symmetric] assms(5), of L base] by simp
  then show ?thesis using a by blast
qed

lemma replay_of_accepted_witness:
  "replay call_lib anas_genesis (map sample_candidate sample_accepted) =
     replay call_lib anas_genesis (map sample_candidate sample_reordered) \<and>
   (\<exists>again. replay call_lib anas_genesis (map sample_candidate sample_accepted) = Inr again \<and> rp_authorization again = after_xy)"
proof -
  let ?res = "\<lparr>rp_accepted = map sample_candidate sample_accepted, rp_authorization = after_xy, rp_checkpoints = [after_b, after_xy]\<rparr>"
  have plain: "\<forall>c \<in> set (rp_accepted ?res). \<not> isRecovery (cd_transition c)"
    by (simp add: sample_accepted_def sample_parsed_def)
  have inj: "inj_on replayOrder (set (rp_accepted ?res))" by (auto simp: sample_accepted_def sample_keys inj_on_def)
  from replay_of_accepted [OF call_lib_ok anas_genesis_ok sample_replays(1) plain inj] obtain again where
    "replay call_lib anas_genesis (map sample_candidate sample_accepted) = Inr again" "rp_authorization again = after_xy"
    "replay call_lib anas_genesis (rp_accepted again) = Inr again" by auto
  then show ?thesis using sample_replays(2) by auto
qed

text \<open>
  The order is not that of the accepted candidates: an enrollment that replaces an equivalent one
  takes its place, so the accepted history replays to another order, and a source that holds it
  is not valid.
\<close>

theorem accepted_history_is_reordered:
  "\<exists>r. rebuild call_lib anas_genesis device_history = Inr r \<and> dr_history r = sample_accepted \<and>
     dr_authorization r = after_xy \<and>
     (\<exists>again. rebuild call_lib anas_genesis (dr_history r) = Inr again \<and> dr_history again \<noteq> dr_history r) \<and>
     isValidSource call_lib anas_genesis \<lparr>so_checkpoint = None, so_history = dr_history r\<rparr> = Inr False"
proof -
  have sub: "set device_history \<subseteq> {enrolls_b, b_enrolls_x, d_enrolls_y, d_enrolls_x}"
    "set sample_accepted \<subseteq> {enrolls_b, b_enrolls_x, d_enrolls_y, d_enrolls_x}"
    by (auto simp: device_history_def sample_accepted_def)
  have payloads: "map (cd_payload \<circ> sample_candidate) rs = rs" for rs by (induction rs) simp_all
  have first: "rebuild call_lib anas_genesis device_history = Inr \<lparr>dr_authorization = after_xy, dr_history = sample_accepted\<rparr>"
    by (simp add: rebuild_def sample_candidates [OF sub(1)] sample_replays(1) payloads)
  have second: "rebuild call_lib anas_genesis sample_accepted = Inr \<lparr>dr_authorization = after_xy, dr_history = sample_reordered\<rparr>"
    by (simp add: rebuild_def sample_candidates [OF sub(2)] sample_replays(2) payloads)
  have "d_enrolls_x \<noteq> d_enrolls_y" by (simp add: sample_record_defs)
  then have "sample_reordered \<noteq> sample_accepted" by (simp add: sample_reordered_def sample_accepted_def)
  then have "isValidSource call_lib anas_genesis \<lparr>so_checkpoint = None, so_history = sample_accepted\<rparr> = Inr False"
    by (simp add: isValidSource_def andThen_def sourceReplay_def baseOf_def second)
  then show ?thesis using first second \<open>sample_reordered \<noteq> sample_accepted\<close> by auto
qed


text \<open>
  C20: Merging documents is symmetric and idempotent. Two valid documents of an identity with the
  trusted genesis, written the same, merge to the same document whichever a node held first,
  overflows, superseding recoveries and errors included; and a valid document with its sources
  that has not overflowed merges with itself to itself.
\<close>

theorem merge_is_symmetric:
  assumes "lib_ok L" and "trustedDocument L trusted (Some left) \<noteq> None" and "trustedDocument L trusted (Some right) \<noteq> None"
    and "dd_genesis left = dd_genesis right"
  shows "mergeRecords L trusted (Some left) right = mergeRecords L trusted (Some right) left \<and>
    (dd_overflow left = None \<and> dd_sources left \<noteq> None \<longrightarrow> mergeRecords L trusted (Some left) left = Inr (Some left))"
  using mergeRecords_commutes [OF assms(2-4)] mergeRecords_idempotent [OF assms(1,2)] by blast

lemma anas_document_bounded:
  "bytesOf (document_json anas_document) \<le> MAX_DOCUMENT_ADMISSION_BYTES" "hasDocumentAdmissionShape (document_json anas_document)"
  by (simp_all add: bytesOf_def anas_document_def authorization_toPrimitives_def anas_genesis_def authorization_json_def
      records_json_def source_json_def strings_json_def present_def List.map_filter_simps json_quote_def json_escape_def json_int_def
      decimal.simps digit_char_def documentId_def MAX_DOCUMENT_ADMISSION_BYTES_def hasDocumentAdmissionShape_def
      admitDocumentNode_def exceedsAdmissionTraversal_def MAX_DOCUMENT_ADMISSION_NODES_def MAX_DOCUMENT_ADMISSION_DEPTH_def)

lemma anas_document_valid: "isDocument call_lib anas_document"
proof -
  have sources: "documentSources anas_document = [\<lparr>so_checkpoint = None, so_history = []\<rparr>]"
    by (simp add: documentSources_def anas_document_def)
  have "isValidSource call_lib anas_genesis \<lparr>so_checkpoint = None, so_history = []\<rparr> = Inr True"
    by (simp add: isValidSource_def empty_bounds sourceReplay_def baseOf_def replay_nothing)
  then have "areValidSources call_lib anas_genesis [\<lparr>so_checkpoint = None, so_history = []\<rparr>] = Inr True"
    by (simp add: areValidSources_def hasSourceShape_def hasCheckpointShape_def andThen_def)
  then have "hasValidSources call_lib anas_document anas_genesis = Inr True"
    unfolding hasValidSources_def Let_def sources
    by (simp add: empty_bounds empty_sources(1) empty_replays andThen_def matchesReplay_def anas_document_def)
  moreover have "authorization_fromPrimitives call_lib (dd_genesis anas_document) = Inr anas_genesis"
    by (simp add: anas_document_def anas_genesis_reads)
  moreover have "hasValidGenesis anas_document anas_genesis" "dd_genesis anas_document = authorization_toPrimitives anas_genesis"
    "hasBoundedHistoryShape (dd_history anas_document)" "dd_overflow anas_document = None" "hasDocumentShape anas_document"
    by (simp_all add: hasValidGenesis_def anas_document_def anas_genesis_def empty_bounds hasDocumentShape_def hasCheckpointShape_def)
  ultimately have "validateDocument call_lib check anas_document = Inr True" for check
    by (simp add: validateDocument_def)
  then show ?thesis using anas_document_bounded by (simp add: isDocument_def isDocumentWith_def)
qed

lemma merge_is_symmetric_witness:
  "mergeRecords call_lib anas_genesis_only (Some anas_document) anas_document = Inr (Some anas_document)"
proof -
  have "trustedDocument call_lib anas_genesis_only (Some anas_document) \<noteq> None"
    using anas_document_valid by (simp add: trustedDocument_def conflictsWithTrustedGenesis_def anas_genesis_only_def
      sameAuthorizationGenesis_def anas_document_def)
  from merge_is_symmetric [OF call_lib_ok this this refl] show ?thesis by (simp add: anas_document_def)
qed

text \<open>
  C27: Who signs an accepted public record was a device of its identity. A record that the gate
  accepts, in any collection a policy governs, with the devices the node replays and lookups it
  remembers for a second, is signed by the device its proof names. The node held, at a time of the
  last second, a document of the identity whose replay has reached the revision the proof names;
  the device belongs to the last state of that replay at or before this revision, and it was not
  compromised then. The device came to this state in one of three ways: it is one of the genesis of
  the identity; the recovery of the document's checkpoint names it; or a transition that the
  document records names it, an enrollment or a recovery at an earlier state of the replay. The
  device proved that it has its key, and the transition is signed: an enrollment by a device of that
  earlier state, a recovery by the recovery authority of the genesis.

  The lookups were filled by then, and the clock of the node does not go back.
\<close>

theorem accepted_author_was_authorized:
  assumes "lib_ok L" and "lookup_ok (timeline_loaded L trusted head) now s" and "governs pols collection"
    and "verdictOf L (device_isAuthorized L (recentTimeline L trusted head now s)) pols collection r = VerdictAccepted"
  shows "\<exists>p t i c d genesis caps states. proofOf L r = Some p \<and> isSignedByDevice L p \<and>
    lib_digest L (JObject (payloadOf r)) = Some (pf_payloadDigest p) \<and>
    now - TTL_MS < t \<and> t \<le> now \<and> lib_identity L (ma_identityId (pf_author p)) = Some i \<and>
    credential_fromWire L (ma_deviceCredential (pf_author p)) = Inr c \<and>
    resolveDocument L (trusted t) (head t) i = Inr (Some d) \<and>
    authorization_fromPrimitives L (dd_genesis d) = Inr genesis \<and>
    statesOf L genesis (dd_checkpoint d) (dd_history d) = Inr (caps, states) \<and>
    \<not> isCompromisedAt caps c (ma_authorizationRevision (pf_author p)) \<and>
    (\<exists>a \<in> set states. c \<in> set (da_credentials a) \<and> da_revision a \<le> ma_authorizationRevision (pf_author p) \<and>
      (\<forall>b \<in> set states. da_revision b \<le> ma_authorizationRevision (pf_author p) \<longrightarrow> da_revision b \<le> da_revision a) \<and>
      (c \<in> set (da_credentials genesis) \<or>
       (\<exists>k u. dd_checkpoint d = Some k \<and> requireTransitionFromRecord L (ck_transition k) = Inr u \<and> isRecovery u \<and>
          tr_identityId u = da_identityId genesis \<and> tr_target u = c \<and> proves_key L u \<and>
          signed_with L (da_recoveryAuthority genesis) u) \<or>
       (\<exists>record \<in> set (dd_history d). \<exists>u. \<exists>b \<in> set states. parsedTransitionOf L record = Some u \<and>
          tr_identityId u = da_identityId genesis \<and> tr_target u = c \<and> proves_key L u \<and>
          tr_previousRevision u = da_revision b \<and> da_revision b < da_revision a \<and>
          (isEnrollment u \<and> (\<exists>author \<in> set (da_credentials b). tr_author u = Some author \<and> signed_with L author u) \<or>
           isRecovery u \<and> signed_with L (da_recoveryAuthority genesis) u)))) \<and>
    (\<exists>a \<in> set states. ma_authorizationRevision (pf_author p) \<le> da_revision a)"
  using device_port.accepted_record_speaks [OF assms(3,4)] assms(1,2) unfolding spoke_for_def let_in_before_def by blast

text \<open>A start that \<open>ana\<close> signs with the device of her genesis.\<close>

definition first_device :: mutation_author where
  "first_device = \<lparr>ma_authorizationRevision = 0, ma_deviceCredential = ''d'', ma_identityId = ''ana''\<rparr>"

definition first_device_start :: public_record where
  "first_device_start = withProof (start_payload ''ana'' anas_call (CHR ''A'')) (start_proof ''ana'' anas_call (CHR ''A'')\<lparr>pf_author := first_device\<rparr>)"

lemma first_device_start_accepted:
  "verdictOf call_lib (\<lambda>_. Inr True) (call_policies call_lib sample_world) ''calls'' first_device_start = VerdictAccepted"
  "map_option pf_author (proofOf call_lib first_device_start) = Some first_device"
  by code_simp+

abbreviation no_memory :: "timeline short_lived_lookup" where
  "no_memory \<equiv> \<lparr>lk_entries = [], lk_sweptAt = 0\<rparr>"

lemma first_device_authorized:
  "device_isAuthorized call_lib (recentTimeline call_lib (\<lambda>_. anas_genesis_only) (\<lambda>_ _. None) 5 no_memory) first_device = Inr True"
  by (simp add: device_isAuthorized_def recentTimeline_def lookup_get_def Let_def first_device_def refusing_def new_Revision_def safe_integer_def anas_timeline
      credential_fromWire_def credential_fromIdentityId_def new_DeviceCredential_def isAuthorizedAt_def hasReached_def
      new_timeline_def isCompromisedAt_def cap_of_def findLast_def anas_genesis_def)

lemma accepted_author_was_authorized_witness:
  "\<exists>p t i d genesis caps states. proofOf call_lib first_device_start = Some p \<and> isSignedByDevice call_lib p \<and>
    5 - TTL_MS < t \<and> t \<le> 5 \<and> resolveDocument call_lib anas_genesis_only (\<lambda>_. None) i = Inr (Some d) \<and>
    authorization_fromPrimitives call_lib (dd_genesis d) = Inr genesis \<and>
    statesOf call_lib genesis (dd_checkpoint d) (dd_history d) = Inr (caps, states) \<and>
    (\<exists>a \<in> set states. \<exists>c. c \<in> set (da_credentials a) \<and> \<not> isCompromisedAt caps c 0)"
proof -
  obtain p where p: "proofOf call_lib first_device_start = Some p" "pf_author p = first_device"
    using first_device_start_accepted(2) by auto
  have r: "ma_authorizationRevision first_device = 0" by (simp add: first_device_def)
  have "verdictOf call_lib (device_isAuthorized call_lib (recentTimeline call_lib (\<lambda>_. anas_genesis_only) (\<lambda>_ _. None) 5 no_memory))
      (call_policies call_lib sample_world) ''calls'' first_device_start = VerdictAccepted"
    by (rule verdictOf_authorized [OF first_device_start_accepted(1) p(1)]) (simp add: p(2) first_device_authorized)
  from accepted_author_was_authorized [OF call_lib_ok no_lookups governs_calls this]
  have "\<exists>q t i c d genesis caps states. proofOf call_lib first_device_start = Some q \<and> isSignedByDevice call_lib q \<and>
    5 - TTL_MS < t \<and> t \<le> 5 \<and> resolveDocument call_lib anas_genesis_only (\<lambda>_. None) i = Inr (Some d) \<and>
    authorization_fromPrimitives call_lib (dd_genesis d) = Inr genesis \<and>
    statesOf call_lib genesis (dd_checkpoint d) (dd_history d) = Inr (caps, states) \<and>
    \<not> isCompromisedAt caps c (ma_authorizationRevision (pf_author q)) \<and> (\<exists>a \<in> set states. c \<in> set (da_credentials a))"
    by (elim exE conjE bexE, intro exI conjI bexI) assumption+
  then show ?thesis using p r by auto blast
qed

text \<open>
  C29: A compromised device never speaks again. When a transition names a device as compromised from
  a revision on, the timeline of a document authorizes that device at no revision from there on,
  whatever the later states hold, in each of two cases. Either the timeline rests on the transition: it
  is a recovery of the document's checkpoint, one that lost to it, or a transition accepted above it,
  where for a document that has overflowed the checkpoint is the one preferred among its sources and
  the transitions are those of the sources above it. Or the document discloses the transition in its
  log, and it has not overflowed or it is a valid document; a valid document that has overflowed is
  suspended, so its timeline authorizes nobody until a recovery.
\<close>

theorem compromised_is_never_authorized:
  assumes "lib_ok L" and "authorization_fromPrimitives L (dd_genesis d) = Inr genesis"
    and "timelineOf L genesis d = Inr line" and "compromises t c q" and "q \<le> r"
    and "t \<in> standing L genesis d \<or>
      (\<exists>log. transitionLogOf L genesis d = Inr log \<and> t \<in> disclosed (disclose log) \<and> (dd_overflow d = None \<or> isDocument L d))"
  shows "\<not> isAuthorizedAt line c r"
proof -
  have "compromises t c r" using assms(4,5) unfolding compromises_def by fastforce
  then show ?thesis
    using assms(6) standing_compromise_holds [OF assms(1) authorization_fromPrimitives_ok [OF assms(1,2)] assms(3)]
      disclosed_compromise_holds [OF assms(1,2) _ assms(3)] by blast
qed

definition revocation_document :: device_document where
  "revocation_document = DeviceDocument (authorization_toPrimitives after_revocation) None (authorization_toPrimitives anas_genesis)
     revocation_history (documentId ''ana'') ''ana'' None None"

lemma compromised_is_never_authorized_witness:
  "\<exists>line. timelineOf call_lib anas_genesis revocation_document = Inr line \<and> \<not> isAuthorizedAt line ''pemb'' 1"
proof -
  let ?d = revocation_document
  have whole: "replayFrom call_lib anas_genesis None revocation_history =
      Inr (\<lparr>rs_authorization = anas_genesis, rs_caps = []\<rparr>, \<lparr>rp_accepted = revocation_candidates,
        rp_authorization = after_revocation, rp_checkpoints = [after_b, after_revocation]\<rparr>)"
    by (simp add: replayFrom_def revocation_candidatesOf revocation_replay)
  have d: "dd_overflow ?d = None" "dd_checkpoint ?d = None" "dd_history ?d = revocation_history"
    "authorization_fromPrimitives call_lib (dd_genesis ?d) = Inr anas_genesis"
    by (simp_all add: revocation_document_def anas_genesis_reads)
  obtain line where line: "timelineOf call_lib anas_genesis ?d = Inr line"
    by (simp add: timelineOf_def d statesOf_def whole)
  obtain log where log: "transitionLogOf call_lib anas_genesis ?d = Inr log" "parsed_revocation \<in> disclosed (disclose log)"
    by (simp add: transitionLogOf_def d whole Let_def new_TransitionLog_def disclosed_def disclose_def)
  have "compromises parsed_revocation ''pemb'' 1" by (simp add: compromises_def parsed_revocation_def)
  from compromised_is_never_authorized [OF call_lib_ok d(4) line this order_refl] log d(1) line show ?thesis by blast
qed

text \<open>
  C30: The pages of a log hold the log. A reader that follows the cursor from page to page comes to
  an end, whatever the limit, and gets each recovery, each recovery that lost and each transition
  above its first cursor exactly once.
\<close>

theorem pages_cover_the_log:
  assumes "kind \<in> {ds_recoveries, ds_concurrentRecoveries, ds_transitions}"
  shows "mset (read_pages kind limit (disclose log) cursor) = mset (filter (\<lambda>t. landsAt t > cursor) (kind (disclose log)))"
  using assms by (rule read_pages_all)

lemma pages_cover_the_log_witness:
  "mset (read_pages ds_transitions 1
     (disclose \<lparr>tg_recoveries = [], tg_concurrentRecoveries = [], tg_transitions = [parsed_revocation, sample_parsed enrolls_b],
        tg_states = [anas_genesis]\<rparr>) 0) = {#parsed_revocation, sample_parsed enrolls_b#}"
  by (subst pages_cover_the_log) (simp_all add: disclose_def parsed_revocation_def sample_parsed_def sample_record_defs)


section \<open>Applying a transition\<close>

lemma authorizationAfter_ok:
  assumes L: "lib_ok L" and ok: "authorization_ok L genesis" and after: "authorizationAfter L stored genesis t = Inr a"
  shows "authorization_ok L a" and "da_revision a = tr_previousRevision t + 1"
    and "isRecovery t \<Longrightarrow> \<exists>caps. compromiseCapsOf L genesis stored = Inr caps \<and> isCarriedBy caps t"
proof -
  have "authorization_ok L a \<and> da_revision a = tr_previousRevision t + 1"
  proof (cases "dd_overflow stored")
    case None
    then obtain base r where base: "baseOf L genesis (dd_checkpoint stored) = Inr base"
      and r: "rebuild L base (dd_history stored) = Inr r" and ap: "policy_apply L (dr_authorization r) t = Inr a"
      using after by (auto simp: authorizationAfter_def)
    have "authorization_ok L (dr_authorization r)"
      by (rule rebuild_returns [OF L baseOf_ok(1) [OF L ok base], of "dd_history stored"]) (use r in auto)
    from policy_apply_ok(1,3) [OF L this ap] policy_apply_common [OF ap] show ?thesis by simp
  next
    case (Some overflow)
    then obtain suspended where s: "authorization_fromPrimitives L (dd_authorization stored) = Inr suspended"
      and ap: "applyRecoveryCheckpoint L suspended t = Inr a"
      using after by (auto simp: authorizationAfter_def applyOverflowRecovery_def)
    from applyRecoveryCheckpoint_ok(1,4) [OF L authorization_fromPrimitives_ok [OF L s] ap] show ?thesis by simp
  qed
  then show "authorization_ok L a" "da_revision a = tr_previousRevision t + 1" by simp_all
  show "isRecovery t \<Longrightarrow> \<exists>caps. compromiseCapsOf L genesis stored = Inr caps \<and> isCarriedBy caps t"
    using after by (auto simp: authorizationAfter_def carriesCompromisedCredentials_def)
qed

text \<open>
  C31: A transition is applied once, in time, and to a well-formed end. When a node applies a
  transition to the document it has, no recorded transition has its operation or its pairing, the
  pairing of an enrollment has not expired, a recovery carries exactly the caps in effect, and the
  authorization that results is well formed and one revision after the one the transition names.
\<close>

theorem applied_transition_is_fresh:
  assumes "lib_ok L" and "compareAndApply L trustedGenesis candidate now t = Inr (a, d)"
  shows "\<exists>trusted stored genesis recorded. trustedGenesis = Some trusted \<and> storedDocument L trusted candidate = Inr stored \<and>
    authorization_fromPrimitives L (dd_genesis stored) = Inr genesis \<and> recordedTransitions L stored = Inr recorded \<and>
    (\<forall>u \<in> set recorded. tr_operationId u \<noteq> tr_operationId t \<and>
       (\<forall>p q. tr_pairing t = Some p \<and> tr_pairing u = Some q \<longrightarrow> pr_id p \<noteq> pr_id q)) \<and>
    (isEnrollment t \<longrightarrow> (\<exists>p. tr_pairing t = Some p \<and> now \<le> pr_expiration p)) \<and>
    (isRecovery t \<longrightarrow> (\<exists>caps. compromiseCapsOf L genesis stored = Inr caps \<and> isCarriedBy caps t)) \<and>
    authorization_ok L a \<and> da_revision a = tr_previousRevision t + 1"
proof -
  obtain trusted stored recorded genesis where c: "trustedGenesis = Some trusted" "storedDocument L trusted candidate = Inr stored"
    "recordedTransitions L stored = Inr recorded" "verifyNotReplayed t recorded = Inr ()" "verifyFirstAcceptance t now = Inr ()"
    "authorization_fromPrimitives L (dd_genesis stored) = Inr genesis" "authorizationAfter L stored genesis t = Inr a"
    using assms(2) by (auto simp: compareAndApply_def)
  have fresh: "\<forall>u \<in> set recorded. tr_operationId u \<noteq> tr_operationId t \<and>
       (\<forall>p q. tr_pairing t = Some p \<and> tr_pairing u = Some q \<longrightarrow> pr_id p \<noteq> pr_id q)"
    using c(4) by (auto simp: verifyNotReplayed_def list_ex_iff transition_replays_def)
  have "isEnrollment t \<longrightarrow> (\<exists>p. tr_pairing t = Some p \<and> now \<le> pr_expiration p)"
    using c(5) by (auto simp: verifyFirstAcceptance_def pairing_isExpiredAt_def)
  then show ?thesis
    using c fresh authorizationAfter_ok [OF assms(1) authorization_fromPrimitives_ok [OF assms(1) c(6)] c(7)] by blast
qed

abbreviation enrolled_source :: device_source where
  "enrolled_source \<equiv> \<lparr>so_checkpoint = None, so_history = [enrolls_b]\<rparr>"

lemma one_canonical_source:
  assumes "set (canonicalSources xs) = {s}"
  shows "canonicalSources xs = [s]"
proof -
  have "length (canonicalSources xs) = card {s}" using assms distinct_card [OF canonicalSources_distinct] by metis
  then show ?thesis using assms by (cases "canonicalSources xs") auto
qed

lemma enrolled_sources:
  "canonicalSources [\<lparr>so_checkpoint = None, so_history = []\<rparr>, enrolled_source] = [enrolled_source]"
  "canonicalSources [enrolled_source] = [enrolled_source]"
  by (rule one_canonical_source, auto simp: canonicalSources_set sourceExtends_def)+

lemma enrolled_bounds: "hasBoundedHistoryShape [enrolls_b]" "hasBoundedSourcesShape [enrolled_source]"
  by (simp_all add: hasBoundedHistoryShape_def hasBoundedSourcesShape_def recordCount_def bytesOf_def source_json_def records_json_def
      record_json_def transition_json_def sample_record_defs present_def List.map_filter_simps json_quote_def json_escape_def json_int_def
      decimal.simps digit_char_def MAX_TRANSITION_HISTORY_BYTES_def MAX_TRANSITION_RECORDS_def isBoundedTransitionRecord_def
      MAX_TRANSITION_RECORD_BYTES_def previousRevisionOf_def safe_integer_def MAX_CONCURRENT_TRANSITIONS_def)

lemma enrolled_rebuild: "rebuild call_lib anas_genesis [enrolls_b] = Inr \<lparr>dr_authorization = after_b, dr_history = [enrolls_b]\<rparr>"
proof -
  let ?G = "groupByRevision [sample_candidate enrolls_b]"
  have groups: "candidatesAt 0 ?G = [sample_candidate enrolls_b]" "candidatesAt 1 ?G = []"
    by (simp_all add: candidatesAt_groups sample_previous)
  have first: "admittedAt call_lib anas_genesis ?G = [(after_b, sample_candidate enrolls_b)]"
    by (simp add: admittedAt_def sample_revisions groups List.map_filter_simps sample_try(1))
  have none: "admittedAt call_lib after_b ?G = []" by (simp add: admittedAt_def sample_revisions groups List.map_filter_simps)
  have c: "compactedAt call_lib anas_genesis ?G = [(after_b, sample_candidate enrolls_b)]" by (simp add: first compactEquivalent_def)
  have "replay_run call_lib ?G anas_genesis (map snd (compactedAt call_lib anas_genesis ?G) @ []) [after_b]"
    by (rule replay_run.run_step [OF _ _ run_end]) (simp only: first list.distinct not_False_eq_True, simp only: c sample_checkpoint, rule none)
  then have "replay_run call_lib ?G anas_genesis [sample_candidate enrolls_b] [after_b]" by (simp add: c)
  from replay_of_run [OF call_lib_ok anas_genesis_ok this] show ?thesis
    by (simp add: rebuild_def candidatesOf_def List.map_filter_simps sample_parses)
qed

lemma enrollment_applies:
  "\<exists>a d. compareAndApply call_lib (Some anas_genesis) None 2 (sample_parsed enrolls_b) = Inr (a, d)"
proof -
  let ?t = "sample_parsed enrolls_b"
  have doc: "dd_overflow anas_document = None" "dd_checkpoint anas_document = None" "dd_history anas_document = []"
    "documentSources anas_document = [\<lparr>so_checkpoint = None, so_history = []\<rparr>]"
    "authorization_fromPrimitives call_lib (dd_genesis anas_document) = Inr anas_genesis"
    by (simp_all add: anas_document_def documentSources_def anas_genesis_reads)
  have recorded: "recordedTransitions call_lib anas_document = Inr []"
    by (simp add: recordedTransitions_def effectiveCheckpoint_def effectiveHistory_def doc empty_sources)
  have checks: "verifyNotReplayed ?t [] = Inr ()" "verifyFirstAcceptance ?t 2 = Inr ()" "\<not> isRecovery ?t"
    by (simp_all add: verifyNotReplayed_def verifyFirstAcceptance_def pairing_isExpiredAt_def sample_parsed_def)
  obtain a where ap: "policy_apply call_lib anas_genesis ?t = Inr a"
    using sample_try(1) by (auto simp: tryApply_def split: sum.splits)
  have after: "authorizationAfter call_lib anas_document anas_genesis ?t = Inr a"
    by (simp add: authorizationAfter_def checks doc baseOf_def replay_nothing ap)
  have prims: "transition_toPrimitives call_lib ?t = Inr enrolls_b"
    by (simp add: sample_record_defs sample_parsed_def transition_toPrimitives_def tr_getRevision_def revision_next_def
        new_Revision_def safe_integer_def)
  have "preferredSourceCheckpoint call_lib [enrolled_source] = Inr None"
    by (simp add: preferredSourceCheckpoint_def List.map_filter_simps Let_def preferCheckpoint_def)
  moreover have "tp_previousRevision enrolls_b = 0" by (simp add: sample_record_defs)
  moreover have "uniqueTransitionRecords [[enrolls_b]] = [enrolls_b]" by (simp add: uniqueTransitionRecords_def jsmap_of_def)
  ultimately have "sourcesAtPreferredCheckpoint call_lib anas_genesis [enrolled_source] = Inr [enrolled_source]"
    "replaySources call_lib anas_genesis [enrolled_source] = Inr (None, \<lparr>dr_authorization = after_b, dr_history = [enrolls_b]\<rparr>)"
    by (simp_all add: sourcesAtPreferredCheckpoint_def enrolled_sources replaySources_def baseOf_def historyAbove_def enrolled_rebuild)
  then have "\<exists>d. documentAfterTransition call_lib anas_document anas_genesis a ?t = Inr d"
    by (simp add: documentAfterTransition_def prims checks doc enrolled_sources hasBoundedProjection_def enrolled_bounds
        documentFromReplay_def)
  then show ?thesis
    by (auto simp: compareAndApply_def storedDocument_def anas_document_made recorded checks doc after)
qed

lemma applied_transition_is_fresh_witness:
  "\<exists>a d. compareAndApply call_lib (Some anas_genesis) None 2 (sample_parsed enrolls_b) = Inr (a, d) \<and>
    authorization_ok call_lib a \<and> da_revision a = 1"
proof -
  obtain a d where ad: "compareAndApply call_lib (Some anas_genesis) None 2 (sample_parsed enrolls_b) = Inr (a, d)"
    using enrollment_applies by blast
  from applied_transition_is_fresh [OF call_lib_ok ad] have "authorization_ok call_lib a \<and> da_revision a = 1"
    by (auto simp: sample_previous)
  then show ?thesis using ad by blast
qed

end
