(* ===== verification/ContentBudget.thy ===== *)
theory ContentBudget
  imports Values "HOL-Library.Product_Lexorder" "HOL-Library.Sublist"
begin

text \<open>
  Which registrations of contents a node holds (\<open>src/contexts/content-replication/domain\<close>): a
  registration, and \<open>ContentReplicationBudgetAllocator.ts\<close>, which shares the budget of a network
  among the owners, smallest holdings first. The sharing is fair: what an owner holds up to an
  equal part of the budget is always selected, whatever the others registered.
\<close>

section \<open>Registrations\<close>

datatype content_error = ContentValueError | InvalidContentReplicationSizeError | InvalidContentReplicationContextError

definition content_value :: "'a option \<Rightarrow> content_error + 'a" where
  "content_value r = (case r of None \<Rightarrow> Inl ContentValueError | Some v \<Rightarrow> Inr v)"

definition maxContentSizeBytes :: int where "maxContentSizeBytes = 50 * 1024 * 1024"

record replication =
  rn_cid :: string
  rn_networkId :: network_id
  rn_context :: string
  rn_sizeBytes :: int
  rn_owner :: identity_id

definition context_isKnown :: "string \<Rightarrow> bool" where
  "context_isKnown s \<longleftrightarrow> s = ''ipfs_public_upload''"

definition new_ReplicationContext :: "lib \<Rightarrow> string \<Rightarrow> content_error + string" where
  "new_ReplicationContext L s =
     bindR (content_value (lib_text L None s)) (\<lambda>v.
     bindR (ensure (context_isKnown v) InvalidContentReplicationContextError) (\<lambda>_. Inr v))"

definition new_ContentReplication :: "replication \<Rightarrow> content_error + replication" where
  "new_ContentReplication r =
     bindR (ensure (safe_integer (rn_sizeBytes r) \<and> rn_sizeBytes r \<ge> 1 \<and> rn_sizeBytes r \<le> maxContentSizeBytes)
              InvalidContentReplicationSizeError) (\<lambda>_. Inr r)"

text \<open>An id of contents is any text, and its primitives are the record itself.\<close>

definition replication_fromPrimitives :: "lib \<Rightarrow> replication \<Rightarrow> content_error + replication" where
  "replication_fromPrimitives L p =
     bindR (content_value (lib_network L (rn_networkId p))) (\<lambda>network.
     bindR (new_ReplicationContext L (rn_context p)) (\<lambda>ctx.
     bindR (content_value (lib_identity L (rn_owner p))) (\<lambda>owner.
       new_ContentReplication \<lparr>rn_cid = rn_cid p, rn_networkId = network, rn_context = ctx,
         rn_sizeBytes = rn_sizeBytes p, rn_owner = owner\<rparr>)))"

definition replication_idOf :: "network_id \<Rightarrow> string \<Rightarrow> string" where
  "replication_idOf network cid = ''content:'' @ network @ '':'' @ cid"

definition replication_id :: "replication \<Rightarrow> string" where
  "replication_id r = replication_idOf (rn_networkId r) (rn_cid r)"

section \<open>The allocator\<close>

text \<open>\<open>map.get(key)?.push(value)\<close>, or a new entry at the end.\<close>

fun group_under :: "'k \<Rightarrow> 'v \<Rightarrow> ('k, 'v list) jsmap \<Rightarrow> ('k, 'v list) jsmap" where
  "group_under k v [] = [(k, [v])]"
| "group_under k v (g # gs) = (if fst g = k then (k, snd g @ [v]) # gs else g # group_under k v gs)"

definition grouped_by :: "('v \<Rightarrow> 'k) \<Rightarrow> 'v list \<Rightarrow> ('k, 'v list) jsmap" where
  "grouped_by f vs = fold (\<lambda>v. group_under (f v) v) vs []"

definition by_size :: "replication \<Rightarrow> int \<times> string" where
  "by_size r = (rn_sizeBytes r, rn_cid r)"

definition byOwner :: "replication list \<Rightarrow> replication list list" where
  "byOwner rs = map (\<lambda>g. sort_key by_size (snd g)) (grouped_by rn_owner rs)"

record budget_claim =
  bc_ownerTotalBytes :: int
  bc_replication :: replication

definition claimOrder :: "budget_claim \<Rightarrow> int \<times> int \<times> string \<times> string" where
  "claimOrder c =
     (bc_ownerTotalBytes c, rn_sizeBytes (bc_replication c), rn_cid (bc_replication c), rn_owner (bc_replication c))"

fun claims_from :: "int \<Rightarrow> replication list \<Rightarrow> budget_claim list" where
  "claims_from acc [] = []"
| "claims_from acc (r # rs) =
     \<lparr>bc_ownerTotalBytes = acc + rn_sizeBytes r, bc_replication = r\<rparr> # claims_from (acc + rn_sizeBytes r) rs"

definition claimsOf :: "replication list \<Rightarrow> budget_claim list" where
  "claimsOf owned = claims_from 0 owned"

definition budget_claims :: "replication list \<Rightarrow> budget_claim list" where
  "budget_claims rs = sort_key claimOrder (concat (map claimsOf (byOwner rs)))"

fun serve :: "budget_claim list \<Rightarrow> identity_id list \<Rightarrow> int \<Rightarrow> replication list" where
  "serve [] exhausted remaining = []"
| "serve (c # cs) exhausted remaining =
     (let r = bc_replication c in
      if rn_owner r \<in> set exhausted then serve cs exhausted remaining
      else if rn_sizeBytes r > remaining then serve cs (set_add (rn_owner r) exhausted) remaining
      else r # serve cs exhausted (remaining - rn_sizeBytes r))"

definition select_within :: "replication list \<Rightarrow> int \<Rightarrow> replication list" where
  "select_within rs budget = serve (budget_claims rs) [] budget"

section \<open>The groups\<close>

lemma push_under_map:
  assumes "distinct ks"
  shows "group_under k v (map (\<lambda>j. (j, g j)) ks) =
    map (\<lambda>j. (j, if j = k then g j @ [v] else g j)) ks @ (if k \<in> set ks then [] else [(k, [v])])"
  using assms by (induction ks) (auto intro: map_cong)

text \<open>The keys in the order in which they were first met.\<close>

definition met :: "('v \<Rightarrow> 'k) \<Rightarrow> 'v list \<Rightarrow> 'k list" where
  "met f vs = fold (\<lambda>v. set_add (f v)) vs []"

lemma met_snoc [simp]: "met f (vs @ [v]) = set_add (f v) (met f vs)"
  by (simp add: met_def)

lemma met_facts: "distinct (met f vs)" "set (met f vs) = f ` set vs"
  by (induction vs rule: rev_induct) (auto simp: met_def)

lemma grouped_by_eq: "grouped_by f vs = map (\<lambda>k. (k, filter (\<lambda>v. f v = k) vs)) (met f vs)"
proof (induction vs rule: rev_induct)
  case (snoc v vs)
  have new: "filter (\<lambda>w. f w = f v) vs = []" if "f v \<notin> set (met f vs)"
    using that unfolding met_facts(2) by (metis (mono_tags, lifting) filter_False imageI)
  have "grouped_by f (vs @ [v]) = group_under (f v) v (map (\<lambda>k. (k, filter (\<lambda>v. f v = k) vs)) (met f vs))"
    using snoc by (simp add: grouped_by_def)
  also have "\<dots> = map (\<lambda>k. (k, filter (\<lambda>w. f w = k) (vs @ [v]))) (met f (vs @ [v]))"
    unfolding push_under_map [OF met_facts(1)] using new by (auto simp: set_add_def intro!: map_cong)
  finally show ?case .
qed (simp add: grouped_by_def met_def)

text \<open>What an owner registered, smallest first.\<close>

definition owned_by :: "identity_id \<Rightarrow> replication list \<Rightarrow> replication list" where
  "owned_by owner rs = sort_key by_size (filter (\<lambda>r. rn_owner r = owner) rs)"

abbreviation owners :: "replication list \<Rightarrow> identity_id list" where
  "owners rs \<equiv> met rn_owner rs"

lemma byOwner_eq: "byOwner rs = map (\<lambda>owner. owned_by owner rs) (owners rs)"
  by (simp add: byOwner_def grouped_by_eq owned_by_def comp_def)

section \<open>The claims\<close>

abbreviation sizes :: "replication list \<Rightarrow> int" where
  "sizes rs \<equiv> sum_list (map rn_sizeBytes rs)"

abbreviation claim_owner :: "budget_claim \<Rightarrow> identity_id" where
  "claim_owner c \<equiv> rn_owner (bc_replication c)"

lemma claims_from_replications: "map bc_replication (claims_from acc rs) = rs"
  by (induction rs arbitrary: acc) auto

lemma claims_from_total:
  "claims_from acc rs = pre @ c # post \<Longrightarrow>
    bc_ownerTotalBytes c = acc + sizes (map bc_replication (pre @ [c]))"
proof (induction rs arbitrary: acc pre)
  case (Cons r rs)
  then show ?case by (cases pre) (auto simp: add.assoc)
qed simp

lemma claims_from_sorted:
  assumes "\<forall>r \<in> set rs. rn_sizeBytes r > 0"
  shows "sorted_wrt (\<lambda>a b. claimOrder a < claimOrder b) (claims_from acc rs) \<and>
    (\<forall>c \<in> set (claims_from acc rs). acc < bc_ownerTotalBytes c)"
  using assms
proof (induction rs arbitrary: acc)
  case (Cons r rs)
  have ih: "sorted_wrt (\<lambda>a b. claimOrder a < claimOrder b) (claims_from (acc + rn_sizeBytes r) rs)"
    "\<forall>c \<in> set (claims_from (acc + rn_sizeBytes r) rs). acc + rn_sizeBytes r < bc_ownerTotalBytes c"
    using Cons.IH [of "acc + rn_sizeBytes r"] Cons.prems by auto
  then show ?case using Cons.prems by (fastforce simp: claimOrder_def less_prod_def)
qed simp

lemma filter_sort_key_same:
  assumes "sorted (map f (filter p xs))"
  shows "filter p (sort_key f xs) = filter p xs"
  using assms by (simp add: filter_sort sort_key_id_if_sorted)

lemma claims_owner: "c \<in> set (claimsOf (owned_by owner rs)) \<Longrightarrow> claim_owner c = owner"
proof -
  assume "c \<in> set (claimsOf (owned_by owner rs))"
  then have "bc_replication c \<in> set (map bc_replication (claims_from 0 (owned_by owner rs)))" by (simp add: claimsOf_def)
  then show ?thesis by (simp only: claims_from_replications) (simp add: owned_by_def)
qed

lemma budget_claims_of:
  assumes "\<forall>r \<in> set rs. rn_sizeBytes r > 0"
  shows "filter (\<lambda>c. claim_owner c = owner) (budget_claims rs) = claimsOf (owned_by owner rs)"
proof -
  let ?p = "\<lambda>c. claim_owner c = owner"
  have one: "filter ?p (claimsOf (owned_by o' rs)) = (if o' = owner then claimsOf (owned_by owner rs) else [])" for o'
    using claims_owner [of _ o' rs] by (auto simp: filter_id_conv filter_empty_conv)
  have all: "filter ?p (concat (map (\<lambda>o'. claimsOf (owned_by o' rs)) os)) =
      (if owner \<in> set os then claimsOf (owned_by owner rs) else [])" if "distinct os" for os
    using that by (induction os) (auto simp: one)
  have none: "claimsOf (owned_by owner rs) = []" if "owner \<notin> set (owners rs)"
  proof -
    have "filter (\<lambda>r. rn_owner r = owner) rs = []" using that by (auto simp: met_facts filter_empty_conv)
    then show ?thesis by (simp add: owned_by_def claimsOf_def)
  qed
  have whole: "filter ?p (concat (map claimsOf (byOwner rs))) = claimsOf (owned_by owner rs)"
    using all [OF met_facts(1) [of rn_owner rs]] none by (cases "owner \<in> set (owners rs)") (simp_all add: byOwner_eq comp_def)
  have "\<forall>r \<in> set (owned_by owner rs). rn_sizeBytes r > 0" using assms by (simp add: owned_by_def)
  then have "sorted_wrt (\<lambda>a b. claimOrder a < claimOrder b) (claimsOf (owned_by owner rs))"
    using claims_from_sorted by (simp add: claimsOf_def)
  then have "sorted (map claimOrder (claimsOf (owned_by owner rs)))"
    by (auto simp: sorted_map elim!: sorted_wrt_mono_rel [rotated])
  then show ?thesis unfolding budget_claims_def using whole by (simp add: filter_sort_key_same)
qed

lemma claim_registered:
  assumes "\<forall>r \<in> set rs. rn_sizeBytes r > 0" and "c \<in> set (budget_claims rs)"
  shows "bc_replication c \<in> set rs"
proof -
  have "c \<in> set (claimsOf (owned_by (claim_owner c) rs))"
    unfolding budget_claims_of [OF assms(1), symmetric] using assms(2) by simp
  then have "bc_replication c \<in> set (map bc_replication (claims_from 0 (owned_by (claim_owner c) rs)))" by (simp add: claimsOf_def)
  then show ?thesis by (simp only: claims_from_replications) (simp add: owned_by_def)
qed

section \<open>What is served\<close>

lemma serve_prefix:
  "prefix (filter (\<lambda>r. rn_owner r = owner) (serve cs exhausted remaining))
     (filter (\<lambda>r. rn_owner r = owner) (map bc_replication cs))"
proof (induction cs exhausted remaining rule: serve.induct)
  case (2 c cs exhausted remaining)
  have gone: "owner \<in> set ex \<Longrightarrow> filter (\<lambda>r. rn_owner r = owner) (serve ds ex rem) = []" for ds ex rem
    by (induction ds ex rem rule: serve.induct) (auto simp: Let_def)
  show ?case
    using 2 gone [of exhausted cs remaining] gone [of "set_add (claim_owner c) exhausted" cs remaining]
    by (auto simp: Let_def)
qed simp

lemma serve_within: "sizes (serve cs exhausted remaining) \<le> max 0 remaining"
  if "\<forall>c \<in> set cs. rn_sizeBytes (bc_replication c) > 0"
  using that by (induction cs exhausted remaining rule: serve.induct) (fastforce simp: Let_def)+

text \<open>Claims that fit together are all served.\<close>

lemma serve_all:
  assumes "sizes (map bc_replication pre) \<le> remaining"
    and "\<forall>c \<in> set pre. rn_sizeBytes (bc_replication c) > 0 \<and> claim_owner c \<notin> set exhausted"
  shows "serve (pre @ post) exhausted remaining =
    map bc_replication pre @ serve post exhausted (remaining - sizes (map bc_replication pre))"
  using assms
proof (induction pre arbitrary: remaining)
  case (Cons c pre)
  have "0 \<le> sizes (map bc_replication pre)" using Cons.prems(2) by (intro sum_list_nonneg) auto
  then show ?case using Cons by (simp add: Let_def diff_diff_eq)
qed simp

section \<open>The fair share\<close>

lemma sizes_by_owner:
  assumes "distinct os" and "\<forall>c \<in> set cs. claim_owner c \<in> set os"
  shows "sizes (map bc_replication cs) =
    (\<Sum>owner \<in> set os. sizes (map bc_replication (filter (\<lambda>c. claim_owner c = owner) cs)))"
  using assms(2)
proof (induction cs)
  case (Cons c cs)
  have "(\<Sum>owner \<in> set os. sizes (map bc_replication (filter (\<lambda>c. claim_owner c = owner) (c # cs)))) =
    (\<Sum>owner \<in> set os. (if owner = claim_owner c then rn_sizeBytes (bc_replication c) else 0) +
       sizes (map bc_replication (filter (\<lambda>c. claim_owner c = owner) cs)))"
    by (intro sum.cong) auto
  also have "\<dots> = rn_sizeBytes (bc_replication c) +
      (\<Sum>owner \<in> set os. sizes (map bc_replication (filter (\<lambda>c. claim_owner c = owner) cs)))"
    using Cons.prems by (simp add: sum.distrib)
  finally show ?case using Cons by simp
qed simp

lemma budget_claims_sorted: "sorted (map claimOrder (budget_claims rs))"
  by (simp add: budget_claims_def)

lemma budget_claims_owner: "c \<in> set (budget_claims rs) \<Longrightarrow> claim_owner c \<in> set (owners rs)"
  using claims_owner by (fastforce simp: budget_claims_def byOwner_eq)

lemma held_before:
  assumes pos: "\<forall>r \<in> set rs. rn_sizeBytes r > 0" and split: "budget_claims rs = pre @ c # post"
  shows "sizes (map bc_replication (pre @ [c])) \<le> int (length (owners rs)) * bc_ownerTotalBytes c"
proof -
  let ?own = "\<lambda>owner. filter (\<lambda>c. claim_owner c = owner) (pre @ [c])"
  have below: "d \<in> set (pre @ [c]) \<Longrightarrow> bc_ownerTotalBytes d \<le> bc_ownerTotalBytes c" for d
    using budget_claims_sorted [of rs] unfolding split
    by (auto simp: sorted_append claimOrder_def less_eq_prod_def)
  have c: "c \<in> set (claimsOf (owned_by (claim_owner c) rs))"
    unfolding budget_claims_of [OF pos, symmetric] by (simp add: split)
  have "\<forall>r \<in> set (owned_by (claim_owner c) rs). rn_sizeBytes r > 0" using pos by (simp add: owned_by_def)
  then have c0: "0 \<le> bc_ownerTotalBytes c" using claims_from_sorted c by (fastforce simp: claimsOf_def)
  have share: "sizes (map bc_replication (?own owner)) \<le> bc_ownerTotalBytes c" for owner
  proof (cases "?own owner = []")
    case False
    then obtain before d where d: "?own owner = before @ [d]" by (metis rev_exhaust)
    have "claimsOf (owned_by owner rs) = before @ d # filter (\<lambda>c. claim_owner c = owner) post"
      using d unfolding budget_claims_of [OF pos, symmetric] split by (cases "claim_owner c = owner") simp_all
    then have "bc_ownerTotalBytes d = sizes (map bc_replication (before @ [d]))"
      using claims_from_total by (fastforce simp: claimsOf_def)
    moreover have "d \<in> set (?own owner)" by (simp only: d) simp
    then have "bc_ownerTotalBytes d \<le> bc_ownerTotalBytes c" by (intro below) (auto split: if_splits)
    ultimately show ?thesis unfolding d by simp
  next
    case True
    then show ?thesis unfolding True using c0 by simp
  qed
  have "\<forall>d \<in> set (pre @ [c]). claim_owner d \<in> set (owners rs)"
    using budget_claims_owner [of _ rs] by (simp add: split)
  then have "sizes (map bc_replication (pre @ [c])) = (\<Sum>owner \<in> set (owners rs). sizes (map bc_replication (?own owner)))"
    by (rule sizes_by_owner [OF met_facts(1)])
  also have "\<dots> \<le> (\<Sum>owner \<in> set (owners rs). bc_ownerTotalBytes c)" by (rule sum_mono) (rule share)
  also have "\<dots> = int (length (owners rs)) * bc_ownerTotalBytes c" by (simp add: distinct_card met_facts(1))
  finally show ?thesis .
qed

lemma fair_share_served:
  assumes pos: "\<forall>r \<in> set rs. rn_sizeBytes r > 0" and c: "c \<in> set (budget_claims rs)"
    and share: "int (length (owners rs)) * bc_ownerTotalBytes c \<le> budget"
  shows "bc_replication c \<in> set (select_within rs budget)"
proof -
  obtain pre post where split: "budget_claims rs = pre @ c # post" using c by (auto simp: in_set_conv_decomp)
  have "\<forall>d \<in> set (pre @ [c]). bc_replication d \<in> set rs"
    using claim_registered [OF pos] by (simp add: split)
  then have "serve ((pre @ [c]) @ post) [] budget =
      map bc_replication (pre @ [c]) @ serve post [] (budget - sizes (map bc_replication (pre @ [c])))"
    using held_before [OF pos split] share pos by (intro serve_all) auto
  then show ?thesis by (simp add: select_within_def split)
qed

lemma claims_from_split:
  "rs = us @ r # vs \<Longrightarrow> \<exists>before after. claims_from acc rs =
     before @ \<lparr>bc_ownerTotalBytes = acc + sizes (us @ [r]), bc_replication = r\<rparr> # after"
proof (induction us arbitrary: rs acc)
  case Nil
  then show ?case by simp (metis append_Nil)
next
  case (Cons u us)
  from Cons.IH [OF refl, of "acc + rn_sizeBytes u"] obtain before after where
    "claims_from (acc + rn_sizeBytes u) (us @ r # vs) =
       before @ \<lparr>bc_ownerTotalBytes = acc + rn_sizeBytes u + sizes (us @ [r]), bc_replication = r\<rparr> # after" by blast
  then show ?case using Cons.prems
    by (intro exI [of _ "\<lparr>bc_ownerTotalBytes = acc + rn_sizeBytes u, bc_replication = u\<rparr> # before"] exI [of _ after]) (simp add: add.assoc)
qed

lemma owned_share_selected:
  assumes pos: "\<forall>r \<in> set rs. rn_sizeBytes r > 0" and split: "owned_by owner rs = us @ r # vs"
    and share: "int (length (owners rs)) * sizes (us @ [r]) \<le> budget"
  shows "r \<in> set (select_within rs budget)"
proof -
  let ?c = "\<lparr>bc_ownerTotalBytes = sizes (us @ [r]), bc_replication = r\<rparr>"
  have "?c \<in> set (claimsOf (owned_by owner rs))"
    using claims_from_split [OF split, of 0] by (auto simp: claimsOf_def)
  then have "?c \<in> set (budget_claims rs)"
    unfolding budget_claims_of [OF pos, symmetric] by simp
  from fair_share_served [OF pos this] share show ?thesis by simp
qed

section \<open>The order of the registrations\<close>

lemma owned_by_mset:
  assumes "mset rs = mset rs'" and "inj_on (\<lambda>r. (rn_owner r, by_size r)) (set rs)"
  shows "owned_by owner rs = owned_by owner rs'"
proof -
  have m: "mset (filter (\<lambda>r. rn_owner r = owner) rs) = mset (sort_key by_size (filter (\<lambda>r. rn_owner r = owner) rs'))"
    by (simp add: mset_filter assms(1))
  have inj: "inj_on by_size (set (filter (\<lambda>r. rn_owner r = owner) rs))"
    using assms(2) by (auto simp: inj_on_def)
  show ?thesis unfolding owned_by_def by (rule sort_key_inj_key_eq [OF m inj]) simp
qed

lemma mset_concat_map: "mset (concat (map f os)) = (\<Sum>x\<in>#mset os. mset (f x))"
  by (induction os) auto

lemma select_within_mset:
  assumes m: "mset rs = mset rs'" and inj: "inj_on (\<lambda>r. (rn_owner r, by_size r)) (set rs)"
    and pos: "\<forall>r \<in> set rs. rn_sizeBytes r > 0"
  shows "select_within rs budget = select_within rs' budget"
proof -
  note owned = owned_by_mset [OF m inj]
  have s: "set rs = set rs'" using m by (rule mset_eq_setD)
  then have "mset (owners rs) = mset (owners rs')" by (simp add: set_eq_iff_mset_eq_distinct [symmetric] met_facts)
  then have c: "mset (concat (map claimsOf (byOwner rs))) = mset (concat (map claimsOf (byOwner rs')))"
    by (simp add: byOwner_eq mset_concat_map owned flip: mset_map)
  have "inj_on claimOrder (set (budget_claims rs))"
  proof (rule inj_onI)
    fix a b assume ab: "a \<in> set (budget_claims rs)" "b \<in> set (budget_claims rs)" "claimOrder a = claimOrder b"
    note mem = claim_registered [OF pos]
    have "bc_replication a = bc_replication b"
      using ab(3) by (intro inj_onD [OF inj _ mem [OF ab(1)] mem [OF ab(2)]]) (simp add: claimOrder_def by_size_def)
    then show "a = b" using ab(3) by (simp add: claimOrder_def)
  qed
  then have "inj_on claimOrder (set (concat (map claimsOf (byOwner rs))))" by (simp add: budget_claims_def)
  then have "budget_claims rs = budget_claims rs'"
    unfolding budget_claims_def by (intro sort_key_inj_key_eq) (simp_all add: c)
  then show ?thesis by (simp add: select_within_def)
qed

end
