(* ===== verification/ContentPlacement.thy ===== *)
theory ContentPlacement
  imports ContentBudget
begin

text \<open>
  Where contents are held (\<open>ContentReplicationPolicy.ts\<close>, \<open>ContentReplicationStatusFinder.ts\<close>,
  \<open>ContentReplicationMaintainer.ts\<close>): how many nodes of a network hold a content, which, and what of
  it a node holds within its budget. The digest of \<open>createHash\<close> and what the repositories and the
  storage answer are arguments.
\<close>

section \<open>How many nodes\<close>

definition FULL_REPLICATION_NODE_LIMIT :: int where "FULL_REPLICATION_NODE_LIMIT = 5"
definition MIN_REPLICAS_WHEN_DISTRIBUTED :: int where "MIN_REPLICAS_WHEN_DISTRIBUTED = 5"

text \<open>
  \<open>Math.ceil(activeNodeCount * 0.4)\<close>, in whole numbers: a multiple of five is rounded to the exact product,
  and any other product is at least a fifth away from a whole number.
\<close>

definition replication_share :: "int \<Rightarrow> int" where
  "replication_share nodes = (2 * nodes + 4) div 5"

definition desiredReplicas :: "int \<Rightarrow> int" where
  "desiredReplicas nodes =
     (if nodes \<le> 0 then 1
      else if nodes \<le> FULL_REPLICATION_NODE_LIMIT then nodes
      else min nodes (max MIN_REPLICAS_WHEN_DISTRIBUTED (replication_share nodes)))"

section \<open>Which nodes\<close>

record node_peer =
  np_id :: string
  np_networks :: "network_id list"

definition nodes_in :: "(network_id, string list) jsmap \<Rightarrow> network_id \<Rightarrow> string list" where
  "nodes_in m network = (case map_of m network of None \<Rightarrow> [] | Some ids \<Rightarrow> ids)"

definition network_add :: "string \<Rightarrow> network_id \<Rightarrow> (network_id, string list) jsmap \<Rightarrow> (network_id, string list) jsmap" where
  "network_add nodeId network m =
     AList.update network (set_add nodeId (nodes_in m network)) m"

definition activeNodeIdsByNetwork :: "string \<Rightarrow> node_peer list \<Rightarrow> (network_id, string list) jsmap" where
  "activeNodeIdsByNetwork localNodeId peers =
     map (\<lambda>e. (fst e, sort (met id (localNodeId # snd e))))
       (fold (\<lambda>peer. fold (network_add (np_id peer)) (np_networks peer)) peers [])"

text \<open>
  The scores are digests in lower case hexadecimal, on which \<open>localeCompare\<close> is the order of the
  characters; the sort is stable and descending.
\<close>

definition score :: "(string \<Rightarrow> string) \<Rightarrow> string \<Rightarrow> string \<Rightarrow> network_id \<Rightarrow> string" where
  "score sha256 cid nodeId network = sha256 (network @ '':'' @ cid @ '':'' @ nodeId)"

definition sort_descending :: "('a \<Rightarrow> 'k::linorder) \<Rightarrow> 'a list \<Rightarrow> 'a list" where
  "sort_descending f xs = rev (sort_key f (rev xs))"

definition selectResponsibleNodeIds :: "(string \<Rightarrow> string) \<Rightarrow> replication \<Rightarrow> string list \<Rightarrow> string list" where
  "selectResponsibleNodeIds sha256 content nodeIds =
     sort (take (nat (desiredReplicas (int (length nodeIds))))
       (sort_descending (\<lambda>nodeId. score sha256 (rn_cid content) nodeId (rn_networkId content)) nodeIds))"

section \<open>What is held\<close>

record network_status =
  ns_activeNodeCount :: int
  ns_desiredReplicas :: int
  ns_localResponsible :: bool
  ns_networkId :: network_id
  ns_responsibleNodeIds :: "string list"
  ns_withinLocalBudget :: bool

record content_status =
  cs_cid :: string
  cs_context :: string
  cs_networks :: "network_status list"
  cs_sizeBytes :: int

definition buildContentStatus :: "replication \<Rightarrow> string list \<Rightarrow> string list \<Rightarrow> string \<Rightarrow> bool \<Rightarrow> content_status" where
  "buildContentStatus content activeNodeIds responsibleNodeIds localNodeId withinLocalBudget =
     \<lparr>cs_cid = rn_cid content, cs_context = rn_context content,
      cs_networks =
        [\<lparr>ns_activeNodeCount = int (length activeNodeIds),
          ns_desiredReplicas = desiredReplicas (int (length activeNodeIds)),
          ns_localResponsible = (localNodeId \<in> set responsibleNodeIds), ns_networkId = rn_networkId content,
          ns_responsibleNodeIds = responsibleNodeIds, ns_withinLocalBudget = withinLocalBudget\<rparr>],
      cs_sizeBytes = rn_sizeBytes content\<rparr>"

definition distinct_contents :: "replication list \<Rightarrow> replication list" where
  "distinct_contents contents = map snd (jsmap_of (map (\<lambda>r. (replication_id r, r)) contents))"

definition charge :: "replication \<Rightarrow> (string, replication) jsmap \<Rightarrow> (string, replication) jsmap" where
  "charge selected charged =
     (case map_of charged (replication_id selected) of
        None \<Rightarrow> AList.update (replication_id selected) selected charged
      | Some kept \<Rightarrow>
          if rn_sizeBytes kept < rn_sizeBytes selected
          then AList.update (replication_id selected) selected charged else charged)"

definition chargedWithinBudget :: "int \<Rightarrow> replication list \<Rightarrow> (string, replication) jsmap" where
  "chargedWithinBudget budget responsible =
     fold (\<lambda>group. fold charge (select_within (snd group) budget)) (grouped_by rn_networkId responsible) []"

record placement =
  pl_activeNodeIds :: "string list"
  pl_content :: replication
  pl_responsibleNodeIds :: "string list"

definition placementOf :: "(string \<Rightarrow> string) \<Rightarrow> string \<Rightarrow> node_peer list \<Rightarrow> replication \<Rightarrow> placement" where
  "placementOf sha256 localNodeId peers content =
     (let active = (case map_of (activeNodeIdsByNetwork localNodeId peers) (rn_networkId content) of
                      None \<Rightarrow> [localNodeId] | Some ids \<Rightarrow> ids) in
      \<lparr>pl_activeNodeIds = active, pl_content = content,
       pl_responsibleNodeIds = selectResponsibleNodeIds sha256 content active\<rparr>)"

text \<open>The registrations of contents this node is responsible for, of owners it does not block.\<close>

definition responsible_registrations :: "(string \<Rightarrow> string) \<Rightarrow> (identity_id \<Rightarrow> bool) \<Rightarrow> string \<Rightarrow> node_peer list \<Rightarrow>
    replication list \<Rightarrow> replication list" where
  "responsible_registrations sha256 isBlocked localNodeId peers registrations =
     (let placements = map (placementOf sha256 localNodeId peers) (distinct_contents registrations);
          ids = map (replication_id \<circ> pl_content)
                  (filter (\<lambda>p. localNodeId \<in> set (pl_responsibleNodeIds p)) placements) in
      filter (\<lambda>r. \<not> isBlocked (rn_owner r)) (filter (\<lambda>r. replication_id r \<in> set ids) registrations))"

definition find_status :: "(string \<Rightarrow> string) \<Rightarrow> (identity_id \<Rightarrow> bool) \<Rightarrow> int \<Rightarrow> string \<Rightarrow> node_peer list \<Rightarrow>
    replication list \<Rightarrow> content_status list" where
  "find_status sha256 isBlocked budget localNodeId peers registrations =
     (let charged = chargedWithinBudget budget
            (responsible_registrations sha256 isBlocked localNodeId peers registrations) in
      map (\<lambda>p. let kept = map_of charged (replication_id (pl_content p)) in
             buildContentStatus (case kept of None \<Rightarrow> pl_content p | Some r \<Rightarrow> r) (pl_activeNodeIds p)
               (pl_responsibleNodeIds p) localNodeId (kept \<noteq> None))
        (map (placementOf sha256 localNodeId peers) (distinct_contents registrations)))"

section \<open>Maintaining what is held\<close>

record maintenance_result =
  mn_deferredReplicas :: int
  mn_failedReplicas :: int
  mn_maintainedReplicas :: int

text \<open>
  \<open>fetches cid network bytes\<close>: whether the storage finds that many bytes of the content in the
  network and provides them there.
\<close>

definition maintainResponsibleReplica :: "lib \<Rightarrow> (string \<Rightarrow> network_id \<Rightarrow> int \<Rightarrow> bool) \<Rightarrow> content_status \<Rightarrow> network_status \<Rightarrow> bool" where
  "maintainResponsibleReplica L fetches content network =
     (case lib_network L (ns_networkId network) of
        None \<Rightarrow> False
      | Some networkId \<Rightarrow> fetches (cs_cid content) networkId (min (cs_sizeBytes content) maxContentSizeBytes))"

definition maintain_replica :: "lib \<Rightarrow> (string \<Rightarrow> network_id \<Rightarrow> int \<Rightarrow> bool) \<Rightarrow> content_status \<times> network_status
    \<Rightarrow> maintenance_result \<Rightarrow> maintenance_result" where
  "maintain_replica L fetches replica result =
     (if \<not> ns_withinLocalBudget (snd replica)
      then result\<lparr>mn_deferredReplicas := mn_deferredReplicas result + 1\<rparr>
      else if maintainResponsibleReplica L fetches (fst replica) (snd replica)
      then result\<lparr>mn_maintainedReplicas := mn_maintainedReplicas result + 1\<rparr>
      else result\<lparr>mn_failedReplicas := mn_failedReplicas result + 1\<rparr>)"

definition replicas_of :: "content_status list \<Rightarrow> (content_status \<times> network_status) list" where
  "replicas_of contents = concat (map (\<lambda>c. map (Pair c) (filter ns_localResponsible (cs_networks c))) contents)"

definition maintain_replicas :: "lib \<Rightarrow> (string \<Rightarrow> network_id \<Rightarrow> int \<Rightarrow> bool) \<Rightarrow> content_status list \<Rightarrow> maintenance_result" where
  "maintain_replicas L fetches contents =
     fold (maintain_replica L fetches) (replicas_of contents)
       \<lparr>mn_deferredReplicas = 0, mn_failedReplicas = 0, mn_maintainedReplicas = 0\<rparr>"

section \<open>Responsible nodes\<close>

lemma desired_bounds: "0 < n \<Longrightarrow> 1 \<le> desiredReplicas n \<and> desiredReplicas n \<le> n \<and> min n 5 \<le> desiredReplicas n"
  by (auto simp: desiredReplicas_def FULL_REPLICATION_NODE_LIMIT_def MIN_REPLICAS_WHEN_DISTRIBUTED_def)

lemma responsible_facts:
  assumes "distinct nodeIds" and "nodeIds \<noteq> []"
  shows "set (selectResponsibleNodeIds sha256 content nodeIds) \<subseteq> set nodeIds"
    and "distinct (selectResponsibleNodeIds sha256 content nodeIds)"
    and "int (length (selectResponsibleNodeIds sha256 content nodeIds)) = desiredReplicas (int (length nodeIds))"
proof -
  let ?s = "sort_descending (\<lambda>nodeId. score sha256 (rn_cid content) nodeId (rn_networkId content)) nodeIds"
  have s: "distinct ?s" "set ?s = set nodeIds" "length ?s = length nodeIds"
    using assms(1) by (simp_all add: sort_descending_def)
  then show "set (selectResponsibleNodeIds sha256 content nodeIds) \<subseteq> set nodeIds"
    "distinct (selectResponsibleNodeIds sha256 content nodeIds)"
    using set_take_subset [of _ ?s] by (auto simp: selectResponsibleNodeIds_def)
  have "0 < length nodeIds" using assms(2) by simp
  then show "int (length (selectResponsibleNodeIds sha256 content nodeIds)) = desiredReplicas (int (length nodeIds))"
    using desired_bounds [of "int (length nodeIds)"] s(3) by (simp add: selectResponsibleNodeIds_def min_def nat_le_iff) linarith
qed

lemma network_added: "set (nodes_in (network_add nodeId n m) network) = set (nodes_in m network) \<union> (if n = network then {nodeId} else {})"
  by (auto simp: network_add_def nodes_in_def update_conv')

text \<open>The nodes a node takes to be active in a network: itself, and its peers there.\<close>

definition active_in :: "string \<Rightarrow> node_peer list \<Rightarrow> network_id \<Rightarrow> string set" where
  "active_in localNodeId peers network = insert localNodeId (np_id ` {p \<in> set peers. network \<in> set (np_networks p)})"

lemma map_of_map': "map_of (map (\<lambda>e. (fst e, f (snd e))) m) k = map_option f (map_of m k)"
  by (induction m) auto

lemma placement_active:
  "pl_activeNodeIds (placementOf sha256 localNodeId peers content) =
     sorted_list_of_set (active_in localNodeId peers (rn_networkId content))"
proof -
  let ?n = "rn_networkId content"
  let ?ids = "\<lambda>m. nodes_in m ?n"
  let ?m = "fold (\<lambda>peer. fold (network_add (np_id peer)) (np_networks peer)) peers []"
  have one: "set (?ids (fold (network_add i) ns m)) = set (?ids m) \<union> (if ?n \<in> set ns then {i} else {})" for i ns m
    by (induction ns arbitrary: m) (auto simp: network_added)
  have all: "set (?ids (fold (\<lambda>peer. fold (network_add (np_id peer)) (np_networks peer)) ps m)) =
      set (?ids m) \<union> np_id ` {p \<in> set ps. ?n \<in> set (np_networks p)}" for ps m
    by (induction ps arbitrary: m) (auto simp: one)
  have list: "sort (met id (localNodeId # ids)) = sorted_list_of_set (insert localNodeId (set ids))" for ids
  proof -
    have "distinct (met id (localNodeId # ids))" "set (met id (localNodeId # ids)) = insert localNodeId (set ids)"
      using met_facts [of id "localNodeId # ids"] by simp_all
    then show ?thesis using sorted_list_of_set_sort_remdups [of "met id (localNodeId # ids)"] by (simp add: distinct_remdups_id)
  qed
  have "pl_activeNodeIds (placementOf sha256 localNodeId peers content) = sort (met id (localNodeId # ?ids ?m))"
    by (cases "map_of ?m ?n") (simp_all add: placementOf_def activeNodeIdsByNetwork_def nodes_in_def Let_def
      map_of_map' [of "\<lambda>ids. sort (fold set_add ids [localNodeId])"] met_def set_add_def)
  then show ?thesis unfolding list all by (simp add: active_in_def nodes_in_def)
qed

lemma finite_active: "finite (active_in localNodeId peers network)"
  by (simp add: active_in_def)

lemma placement_responsible:
  "pl_responsibleNodeIds (placementOf sha256 localNodeId peers content) =
     selectResponsibleNodeIds sha256 content (sorted_list_of_set (active_in localNodeId peers (rn_networkId content)))"
  using placement_active [of sha256 localNodeId peers content] by (simp add: placementOf_def Let_def)

section \<open>What is charged\<close>

lemma distinct_sublist_sum:
  assumes "distinct xs" and "set xs \<subseteq> set ys" and "\<forall>y \<in> set ys. 0 \<le> (f y :: int)"
  shows "sum_list (map f xs) \<le> sum_list (map f ys)"
proof -
  have "sum f (set zs) \<le> sum_list (map f zs)" if "\<forall>z \<in> set zs. 0 \<le> f z" for zs
    using that by (induction zs) (auto simp: sum.insert_if)
  then have "sum f (set ys) \<le> sum_list (map f ys)" using assms(3) by blast
  moreover have "sum f (set xs) \<le> sum f (set ys)" using assms(2,3) by (intro sum_mono2) auto
  ultimately show ?thesis using assms(1) by (simp add: sum_list_distinct_conv_sum_set)
qed

lemma charged_invariant:
  assumes "\<forall>e \<in> set m. fst e = replication_id (snd e) \<and> snd e \<in> R" and "set selected \<subseteq> R"
  shows "\<forall>e \<in> set (fold charge selected m). fst e = replication_id (snd e) \<and> snd e \<in> R"
  using assms
proof (induction selected arbitrary: m)
  case (Cons s selected)
  have up: "set (AList.update k v m) \<subseteq> insert (k, v) (set m)" for k v by (induction m) auto
  have "charge s m = m \<or> charge s m = AList.update (replication_id s) s m" by (simp add: charge_def split: option.split)
  then have "set (charge s m) \<subseteq> insert (replication_id s, s) (set m)" using up [of "replication_id s" s] by auto
  moreover have "s \<in> R" "set selected \<subseteq> R" using Cons.prems(2) by simp_all
  ultimately have "\<forall>e \<in> set (charge s m). fst e = replication_id (snd e) \<and> snd e \<in> R"
    using Cons.prems(1) by (metis fst_conv insertE snd_conv subsetD)
  from Cons.IH [OF this \<open>set selected \<subseteq> R\<close>] show ?case by simp
qed simp

lemma serve_members: "set (serve cs exhausted remaining) \<subseteq> bc_replication ` set cs"
  by (induction cs exhausted remaining rule: serve.induct) (auto simp: Let_def)

lemma select_within_members: "set (select_within rs budget) \<subseteq> set rs"
proof -
  have "bc_replication ` set (budget_claims rs) \<subseteq> set rs"
  proof clarsimp
    fix c assume "c \<in> set (budget_claims rs)"
    then obtain owner where "c \<in> set (claims_from 0 (owned_by owner rs))"
      by (auto simp: budget_claims_def byOwner_eq claimsOf_def)
    then have "bc_replication c \<in> set (map bc_replication (claims_from 0 (owned_by owner rs)))" by simp
    then show "bc_replication c \<in> set rs" by (simp only: claims_from_replications) (simp add: owned_by_def)
  qed
  then show ?thesis using serve_members unfolding select_within_def by blast
qed

lemma charged_from:
  assumes "map_of (chargedWithinBudget budget rs) i = Some r"
  shows "i = replication_id r" and "r \<in> set (select_within (filter (\<lambda>q. rn_networkId q = rn_networkId r) rs) budget)"
proof -
  let ?sel = "\<lambda>n. set (select_within (filter (\<lambda>q. rn_networkId q = n) rs) budget)"
  let ?R = "{q. q \<in> ?sel (rn_networkId q)}"
  have sel: "?sel n \<subseteq> ?R" for n using select_within_members [of "filter (\<lambda>q. rn_networkId q = n) rs" budget] by auto
  have "\<forall>e \<in> set (fold (\<lambda>g. fold charge (select_within (snd g) budget))
      (map (\<lambda>n. (n, filter (\<lambda>q. rn_networkId q = n) rs)) ns) m). fst e = replication_id (snd e) \<and> snd e \<in> ?R"
    if "\<forall>e \<in> set m. fst e = replication_id (snd e) \<and> snd e \<in> ?R" for ns m
    using that
  proof (induction ns arbitrary: m)
    case (Cons n ns)
    from Cons.IH [OF charged_invariant [OF Cons.prems sel]] show ?case by (simp only: list.map fold.simps o_apply snd_conv)
  qed simp
  from this [of "[]"] have "\<forall>e \<in> set (chargedWithinBudget budget rs). fst e = replication_id (snd e) \<and> snd e \<in> ?R"
    by (simp add: chargedWithinBudget_def grouped_by_eq)
  then show "i = replication_id r" "r \<in> ?sel (rn_networkId r)" using map_of_SomeD [OF assms] by auto
qed

section \<open>What a node maintains\<close>

lemma distinct_contents_facts:
  "distinct (map replication_id (distinct_contents rs))" "set (distinct_contents rs) \<subseteq> set rs"
proof -
  let ?m = "jsmap_of (map (\<lambda>r. (replication_id r, r)) rs)"
  have keys: "\<forall>e \<in> set ?m. fst e = replication_id (snd e) \<and> snd e \<in> set rs"
    using set_jsmap_of_subset [of "map (\<lambda>r. (replication_id r, r)) rs"] by auto
  then have "map replication_id (distinct_contents rs) = map fst ?m" by (simp add: distinct_contents_def)
  then show "distinct (map replication_id (distinct_contents rs))" by simp
  show "set (distinct_contents rs) \<subseteq> set rs" using keys by (auto simp: distinct_contents_def)
qed

text \<open>What a node maintains: the replicas it is responsible for that its budget covers.\<close>

definition maintained :: "content_status list \<Rightarrow> network_id \<Rightarrow> content_status list" where
  "maintained contents network =
     map fst (filter (\<lambda>e. ns_withinLocalBudget (snd e) \<and> ns_networkId (snd e) = network) (replicas_of contents))"

lemma maintained_charged:
  fixes sha256 isBlocked budget localNodeId peers registrations
  defines "charged \<equiv> chargedWithinBudget budget (responsible_registrations sha256 isBlocked localNodeId peers registrations)"
  shows "\<exists>kept. distinct kept \<and>
    set kept \<subseteq> set (select_within (filter (\<lambda>q. rn_networkId q = network)
      (responsible_registrations sha256 isBlocked localNodeId peers registrations)) budget) \<and>
    map cs_sizeBytes (maintained (find_status sha256 isBlocked budget localNodeId peers registrations) network) = map rn_sizeBytes kept"
proof -
  let ?rs = "responsible_registrations sha256 isBlocked localNodeId peers registrations"
  let ?place = "placementOf sha256 localNodeId peers"
  let ?status = "\<lambda>c. let kept = map_of charged (replication_id c) in
     buildContentStatus (case kept of None \<Rightarrow> c | Some r \<Rightarrow> r) (pl_activeNodeIds (?place c))
       (pl_responsibleNodeIds (?place c)) localNodeId (kept \<noteq> None)"
  let ?held = "\<lambda>c. case map_of charged (replication_id c) of
     Some r \<Rightarrow> if localNodeId \<in> set (pl_responsibleNodeIds (?place c)) \<and> rn_networkId r = network then Some r else None
   | None \<Rightarrow> None"
  have content: "pl_content (?place c) = c" for c by (simp add: placementOf_def Let_def)
  have status: "find_status sha256 isBlocked budget localNodeId peers registrations = map ?status (distinct_contents registrations)"
    by (simp add: find_status_def Let_def charged_def content comp_def cong: option.case_cong)
  have sizes: "map cs_sizeBytes (maintained (map ?status cs) network) = map rn_sizeBytes (List.map_filter ?held cs)" for cs
    by (induction cs) (auto simp: maintained_def replicas_of_def buildContentStatus_def List.map_filter_simps Let_def split: option.splits)
  have ids: "map replication_id (List.map_filter ?held cs) = map replication_id (filter (\<lambda>c. ?held c \<noteq> None) cs)" for cs
    using charged_from(1) [of budget ?rs] unfolding charged_def
    by (induction cs) (auto simp: List.map_filter_simps split: option.splits if_splits)
  have "distinct (map replication_id (List.map_filter ?held (distinct_contents registrations)))"
    unfolding ids using distinct_contents_facts(1) by (rule distinct_map_filter)
  then have "distinct (List.map_filter ?held (distinct_contents registrations))" by (simp add: distinct_map)
  moreover have "set (List.map_filter ?held cs) \<subseteq> set (select_within (filter (\<lambda>q. rn_networkId q = network) ?rs) budget)" for cs
    using charged_from(2) [of budget ?rs] unfolding charged_def
    by (auto simp: List.map_filter_def split: option.splits if_splits)
  ultimately show ?thesis unfolding status by (intro exI conjI) (assumption | rule sizes)+
qed

end
