(* ===== verification/ContentQuota.thy ===== *)
theory ContentQuota
  imports ContentPlacement MutationGate
begin

text \<open>
  What one identity may ask a network to hold (\<open>ContentReplicationMutationPolicy.ts\<close>): the policy
  of the records of registrations, with the digests of the proofs that it has verified, which it
  keeps between records, and the quota it counts over the genuine records of the owner.
\<close>

definition content_shape :: record_shape where
  "content_shape = (new_shape [''id'', ''cid'', ''networkId'', ''ownerIdentityId''] [''sizeBytes''] ''content_replication'')
     \<lparr>sh_putStrings := [''context'']\<rparr>"

definition text_field :: "public_record \<Rightarrow> string \<Rightarrow> string" where
  "text_field r k = (case map_of r k of Some (JString s) \<Rightarrow> s | _ \<Rightarrow> [])"

text \<open>The fields that the shape of a put has; the size is \<open>NaN\<close> in the code when it is no number.\<close>

definition sizeOf :: "public_record \<Rightarrow> int" where
  "sizeOf r = (case map_of r ''sizeBytes'' of Some (JInt n) \<Rightarrow> n | _ \<Rightarrow> 0)"

definition content_expectationOf :: "public_record \<Rightarrow> mutation_error + expectation" where
  "content_expectationOf r =
     bindR (assertShape content_shape r) (\<lambda>_.
     bindR (ensure (text_field r ''id'' = replication_idOf (text_field r ''networkId'') (text_field r ''cid''))
              InvalidPublicMutationError) (\<lambda>_.
       Inr \<lparr>ex_store = ''contentReplication'', ex_recordId = text_field r ''id'',
            ex_authorIdentityId = Some (text_field r ''ownerIdentityId'')\<rparr>))"

definition content_assertBounds :: "public_record \<Rightarrow> judge_error + unit" where
  "content_assertBounds r =
     ensure (is_safe_integer (map_of r ''sizeBytes'') \<and> sizeOf r \<ge> 1 \<and> sizeOf r \<le> maxContentSizeBytes \<and>
       context_isKnown (text_field r ''context'')) Refused"

text \<open>What the node holds: the networks of an identity it knows, and the documents of the collection.\<close>

record content_world =
  qw_networks :: "identity_id \<Rightarrow> network_id list option"
  qw_documents :: "judge_error + public_record list"

record content_limits =
  ql_quotaBytes :: int
  ql_maxRecords :: int

definition assertOwnNetwork :: "lib \<Rightarrow> content_world \<Rightarrow> public_record \<Rightarrow> judge_error + unit" where
  "assertOwnNetwork L w r =
     (case lib_identity L (text_field r ''ownerIdentityId'') of
        None \<Rightarrow> Inl Refused
      | Some i \<Rightarrow>
          (case qw_networks w i of
             None \<Rightarrow> Inl Refused
           | Some networks \<Rightarrow> ensure (text_field r ''networkId'' \<in> set networks) Refused))"

text \<open>
  Whether a record is genuine, and the digests that are verified afterwards. A proof whose digest
  was verified before is trusted without another look.
\<close>

definition isGenuine :: "lib \<Rightarrow> authorization \<Rightarrow> string list \<Rightarrow> public_record \<Rightarrow> bool \<times> string list" where
  "isGenuine L A verified r =
     (case proofOf L r of
        None \<Rightarrow> (False, verified)
      | Some p \<Rightarrow>
          if map_of r ''removed'' = Some (JBool True) then (False, verified)
          else (case content_expectationOf (payloadOf r) of
             Inl _ \<Rightarrow> (False, verified)
           | Inr e \<Rightarrow>
               (case proof_digest L p of
                  Inl _ \<Rightarrow> (False, verified)
                | Inr d \<Rightarrow>
                    if d \<in> set verified then (True, verified)
                    else (case assertIntrinsic L p e (payloadOf r) of
                       Inl _ \<Rightarrow> (False, verified)
                     | Inr _ \<Rightarrow>
                         (case assertAuthorized A p of
                            Inl _ \<Rightarrow> (False, verified)
                          | Inr _ \<Rightarrow> (True, set_add d verified))))))"

definition competing :: "public_record \<Rightarrow> public_record \<Rightarrow> bool" where
  "competing r document \<longleftrightarrow>
     map_of document ''ownerIdentityId'' = map_of r ''ownerIdentityId'' \<and>
     map_of document ''networkId'' = map_of r ''networkId'' \<and> map_of document ''id'' \<noteq> map_of r ''id''"

text \<open>The documents are judged at once, each against the digests verified before.\<close>

definition assertWithinBudget :: "lib \<Rightarrow> authorization \<Rightarrow> content_limits \<Rightarrow> content_world \<Rightarrow> string list \<Rightarrow> public_record
    \<Rightarrow> (judge_error + unit) \<times> string list" where
  "assertWithinBudget L A limits w verified r =
     (case qw_documents w of
        Inl e \<Rightarrow> (Inl e, verified)
      | Inr documents \<Rightarrow>
          let stored = filter (competing r) documents;
              genuine = filter (\<lambda>d. fst (isGenuine L A verified d)) stored;
              earlier = filter (\<lambda>d. text_field d ''id'' < text_field r ''id'') genuine;
              usedBytes = sum_list (map sizeOf earlier) in
          (ensure (int (length earlier) < ql_maxRecords limits \<and> usedBytes + sizeOf r \<le> ql_quotaBytes limits) Refused,
           fold (\<lambda>d. fold set_add (snd (isGenuine L A verified d))) stored verified))"

definition content_assertPermitted :: "lib \<Rightarrow> authorization \<Rightarrow> content_limits \<Rightarrow> content_world \<Rightarrow> string list \<Rightarrow> public_record
    \<Rightarrow> bool \<Rightarrow> (judge_error + unit) \<times> string list" where
  "content_assertPermitted L A limits w verified r deletion =
     (if deletion then (Inr (), verified)
      else (case bindR (content_assertBounds r) (\<lambda>_. assertOwnNetwork L w r) of
              Inl e \<Rightarrow> (Inl e, verified)
            | Inr _ \<Rightarrow> assertWithinBudget L A limits w verified r))"

definition content_policy :: "lib \<Rightarrow> authorization \<Rightarrow> content_limits \<Rightarrow> content_world \<Rightarrow> string list \<Rightarrow> policy" where
  "content_policy L A limits w verified =
     \<lparr>pol_collection = ''contentReplication'', pol_scopeType = ''content_replication'', pol_requiresFrontier = False,
      pol_expectationOf = content_expectationOf,
      pol_assertPermitted = (\<lambda>r author deletion heads. fst (content_assertPermitted L A limits w verified r deletion))\<rparr>"

section \<open>What an accepted registration is\<close>

lemma payload_field: "f \<noteq> ''proof'' \<Longrightarrow> map_of (payloadOf r) f = map_of r f"
  by (induction r) (auto simp: payloadOf_def)

lemma payload_text [simp]: "f \<noteq> ''proof'' \<Longrightarrow> text_field (payloadOf r) f = text_field r f"
  by (simp add: text_field_def payload_field)

lemma payload_size [simp]: "sizeOf (payloadOf r) = sizeOf r"
  by (simp add: sizeOf_def payload_field)

lemma payload_id: "text_field (payloadOf r) ''id'' = text_field r ''id''"
  by simp

abbreviation accepts :: "lib \<Rightarrow> authorization \<Rightarrow> content_limits \<Rightarrow> content_world \<Rightarrow> string list \<Rightarrow> public_record \<Rightarrow> bool" where
  "accepts L A limits w verified d \<equiv>
     verdictOf L A [content_policy L A limits w verified] ''contentReplication'' d = VerdictAccepted"

lemma content_shape_fields:
  assumes "assertShape content_shape r = Inr ()" and "f \<in> {''id'', ''cid'', ''networkId'', ''ownerIdentityId''}"
  shows "map_of r f = Some (JString (text_field r f))"
proof -
  have "is_string (map_of r f)"
    using assms by (auto simp: assertShape_def Let_def hasValidValues_def hasValidScalars_def content_shape_def new_shape_def split: if_splits)
  then show ?thesis by (cases "map_of r f" rule: is_string.cases) (auto simp: text_field_def)
qed

lemma accepted_registration:
  assumes acc: "accepts L A limits w verified d" and live: "map_of d ''removed'' \<noteq> Some (JBool True)"
    and digest: "\<And>p. proofOf L d = Some p \<Longrightarrow> \<exists>g. proof_digest L p = Inr g"
  shows "content_assertBounds d = Inr ()" and "fst (assertWithinBudget L A limits w verified (payloadOf d)) = Inr ()"
    and "fst (isGenuine L A v d)"
    and "f \<in> {''id'', ''cid'', ''networkId'', ''ownerIdentityId''} \<Longrightarrow> map_of d f = Some (JString (text_field d f))"
proof -
  have g: "governs [content_policy L A limits w verified] ''contentReplication''" by (simp add: governs_def content_policy_def)
  obtain pol p where pol: "policyFor [content_policy L A limits w verified] ''contentReplication'' (map_of d ''scopeType'') = Some pol"
    and proof': "intrinsicProof L pol d = Some p" and yes: "A (pf_author p) = Inr True"
    and permitted: "pol_assertPermitted pol (payloadOf d) (ma_identityId (pf_author p)) (isDeletion p)
       (case pf_frontier p of None \<Rightarrow> [] | Some f \<Rightarrow> f) = Inr ()"
    by (rule verdictOf_accepted [OF g acc])
  from pol have pol': "pol = content_policy L A limits w verified" by (simp add: policyFor_def split: if_splits)
  obtain e where e: "proofOf L d = Some p" "content_expectationOf (payloadOf d) = Inr e" "assertIntrinsic L p e (payloadOf d) = Inr ()"
    and put: "\<not> isDeletion p"
    using proof' live
    by (auto simp: pol' content_policy_def intrinsicProof_def Let_def payload_field split: option.splits sum.splits if_splits)
  have c: "fst (content_assertPermitted L A limits w verified (payloadOf d) False) = Inr ()"
    using permitted put by (simp add: pol' content_policy_def)
  then show "fst (assertWithinBudget L A limits w verified (payloadOf d)) = Inr ()"
    by (auto simp: content_assertPermitted_def split: sum.splits)
  have "content_assertBounds (payloadOf d) = Inr ()"
    using c by (auto simp: content_assertPermitted_def split: sum.splits)
  then show "content_assertBounds d = Inr ()" by (simp add: content_assertBounds_def payload_field)
  obtain dg where "proof_digest L p = Inr dg" using digest [OF e(1)] by blast
  then show "fst (isGenuine L A v d)"
    using e yes live unfolding isGenuine_def by (simp add: assertAuthorized_def)
  from e(2) have "assertShape content_shape (payloadOf d) = Inr ()" by (auto simp: content_expectationOf_def)
  note shape = content_shape_fields [OF this]
  show "map_of d f = Some (JString (text_field d f))" if f: "f \<in> {''id'', ''cid'', ''networkId'', ''ownerIdentityId''}"
  proof -
    have "f \<noteq> ''proof''" using f by (elim insertE) simp_all
    from shape [OF f, unfolded payload_field [OF this] payload_text [OF this]] show ?thesis .
  qed
qed

section \<open>The quota\<close>

lemma within_budget:
  assumes "fst (assertWithinBudget L A limits w verified r) = Inr ()" and "qw_documents w = Inr documents"
  shows "int (length (filter (\<lambda>d. text_field d ''id'' < text_field r ''id'')
      (filter (\<lambda>d. fst (isGenuine L A verified d)) (filter (competing r) documents)))) < ql_maxRecords limits"
    and "sum_list (map sizeOf (filter (\<lambda>d. text_field d ''id'' < text_field r ''id'')
      (filter (\<lambda>d. fst (isGenuine L A verified d)) (filter (competing r) documents)))) + sizeOf r \<le> ql_quotaBytes limits"
  using assms by (simp_all add: assertWithinBudget_def Let_def)

lemma quota_kept:
  assumes stored: "qw_documents w = Inr documents" "set docs \<subseteq> set documents" "docs \<noteq> []"
    and ids: "distinct (map (\<lambda>d. text_field d ''id'') docs)"
    and same: "\<And>d. d \<in> set docs \<Longrightarrow> text_field d ''ownerIdentityId'' = owner \<and> text_field d ''networkId'' = network"
    and acc: "\<And>d. d \<in> set docs \<Longrightarrow> accepts L A limits w (V d) d"
    and live: "\<And>d. d \<in> set docs \<Longrightarrow> map_of d ''removed'' \<noteq> Some (JBool True)"
    and digests: "\<And>d p. d \<in> set docs \<Longrightarrow> proofOf L d = Some p \<Longrightarrow> \<exists>g. proof_digest L p = Inr g"
  shows "int (length docs) \<le> ql_maxRecords limits"
    and "(\<And>d. d \<in> set documents \<Longrightarrow> 0 \<le> sizeOf d) \<Longrightarrow> sum_list (map sizeOf docs) \<le> ql_quotaBytes limits"
proof -
  let ?id = "\<lambda>d. text_field d ''id''"
  have budget: "fst (assertWithinBudget L A limits w (V e) (payloadOf e)) = Inr ()"
    and genuine: "fst (isGenuine L A v e)"
    and fields: "f \<in> {''id'', ''cid'', ''networkId'', ''ownerIdentityId''} \<Longrightarrow> map_of e f = Some (JString (text_field e f))"
    if e: "e \<in> set docs" for e v f
    using accepted_registration(2,3) [OF acc [OF e] live [OF e] digests [OF e]]
      accepted_registration(4) [OF acc [OF e] live [OF e] digests [OF e]] by blast+
  obtain d where d: "d \<in> set docs" "\<And>e. e \<in> set docs \<Longrightarrow> ?id e \<le> ?id d"
  proof -
    have "Max (?id ` set docs) \<in> ?id ` set docs" using stored(3) by (intro Max_in) auto
    then obtain d where d: "d \<in> set docs" "Max (?id ` set docs) = ?id d" by (elim imageE)
    have "?id e \<le> ?id d" if "e \<in> set docs" for e
      unfolding d(2) [symmetric] using that by (intro Max_ge) simp_all
    then show ?thesis using that d(1) by blast
  qed
  let ?rest = "remove1 d docs"
  let ?earlier = "filter (\<lambda>e. ?id e < ?id d) (filter (\<lambda>e. fst (isGenuine L A (V d) e)) (filter (competing (payloadOf d)) documents))"
  have distinct: "distinct docs" using ids by (simp add: distinct_map)
  have rest: "distinct ?rest" "set ?rest \<subseteq> set ?earlier"
  proof -
    show "distinct ?rest" using distinct by simp
    show "set ?rest \<subseteq> set ?earlier"
    proof
      fix e assume "e \<in> set ?rest"
      then have e: "e \<in> set docs" "e \<noteq> d" using distinct by auto
      have "?id e \<noteq> ?id d" using ids e d(1) by (auto simp: distinct_map inj_on_def)
      then have "?id e < ?id d" using d(2) [OF e(1)] by simp
      moreover have "competing (payloadOf d) e"
        using fields [OF e(1)] fields [OF d(1)] same [OF e(1)] same [OF d(1)] \<open>?id e \<noteq> ?id d\<close>
        by (simp add: competing_def payload_field)
      ultimately show "e \<in> set ?earlier" using e(1) stored(2) genuine [OF e(1)] by auto
    qed
  qed
  note within = within_budget [OF budget [OF d(1)] stored(1), unfolded payload_id payload_size]
  have len: "length docs = Suc (length ?rest)"
    using d(1) length_pos_if_in_set [OF d(1)] by (simp add: length_remove1)
  have "length ?rest \<le> length ?earlier"
    using rest distinct_card [OF rest(1)] card_mono [OF finite_set rest(2)] card_length [of ?earlier] by linarith
  then show "int (length docs) \<le> ql_maxRecords limits" using within(1) len by linarith
  assume "\<And>d. d \<in> set documents \<Longrightarrow> 0 \<le> sizeOf d"
  then have "sum_list (map sizeOf ?rest) \<le> sum_list (map sizeOf ?earlier)"
    by (intro distinct_sublist_sum rest) auto
  moreover have "sum_list (map sizeOf docs) = sizeOf d + sum_list (map sizeOf ?rest)"
    by (rule sum_list_map_remove1 [OF d(1)])
  ultimately show "sum_list (map sizeOf docs) \<le> ql_quotaBytes limits" using within(2) by linarith
qed

text \<open>
  A withdrawn registration: its record says that it is removed. It asks the network to hold nothing,
  so it is accepted whatever the quota is, and it is never counted against another registration.
\<close>

definition is_withdrawn :: "public_record \<Rightarrow> bool" where
  "is_withdrawn d \<longleftrightarrow> map_of d ''removed'' = Some (JBool True)"

definition live_documents :: "public_record list \<Rightarrow> public_record list" where
  "live_documents docs = filter (\<lambda>d. \<not> is_withdrawn d) docs"

lemma withdrawn_not_counted: "is_withdrawn d \<Longrightarrow> \<not> fst (isGenuine L A v d)"
  by (simp add: is_withdrawn_def isGenuine_def split: option.splits)

lemma live_quota_kept:
  assumes stored: "qw_documents w = Inr documents" "set docs \<subseteq> set documents"
    and ids: "distinct (map (\<lambda>d. text_field d ''id'') docs)"
    and same: "\<And>d. d \<in> set docs \<Longrightarrow> text_field d ''ownerIdentityId'' = owner \<and> text_field d ''networkId'' = network"
    and acc: "\<And>d. d \<in> set docs \<Longrightarrow> accepts L A limits w (V d) d"
    and digests: "\<And>d p. d \<in> set docs \<Longrightarrow> proofOf L d = Some p \<Longrightarrow> \<exists>g. proof_digest L p = Inr g"
  shows "int (length (live_documents docs)) \<le> max 0 (ql_maxRecords limits)"
    and "(\<And>d. d \<in> set documents \<Longrightarrow> 0 \<le> sizeOf d) \<Longrightarrow>
      sum_list (map sizeOf (live_documents docs)) \<le> max 0 (ql_quotaBytes limits)"
proof -
  let ?live = "live_documents docs"
  have sub: "d \<in> set docs" "map_of d ''removed'' \<noteq> Some (JBool True)" if "d \<in> set ?live" for d
    using that by (simp_all add: live_documents_def is_withdrawn_def)
  have d: "distinct (map (\<lambda>d. text_field d ''id'') ?live)"
    using ids by (simp add: live_documents_def distinct_map_filter)
  have s: "set ?live \<subseteq> set documents" using stored(2) by (auto simp: live_documents_def)
  note kept = quota_kept [OF stored(1) s _ d same [OF sub(1)] acc [OF sub(1)] sub(2) digests [OF sub(1)]]
  show "int (length ?live) \<le> max 0 (ql_maxRecords limits)"
    using kept(1) by (cases "?live = []") (simp_all add: le_max_iff_disj)
  show "sum_list (map sizeOf ?live) \<le> max 0 (ql_quotaBytes limits)" if "\<And>d. d \<in> set documents \<Longrightarrow> 0 \<le> sizeOf d"
    using kept(2) that by (cases "?live = []") (simp_all add: le_max_iff_disj)
qed

end
