(* ===== verification/ContentGuarantees.thy ===== *)
theory ContentGuarantees
  imports ContentQuota Samples
begin

text \<open>
  The properties of the replication of contents, and two registrations on which they are applied:
  the fair sharing of the budget of a node, what it maintains, and the quota of an owner; and the
  records on which the quota is not what the policy means it to be.
\<close>

section \<open>Sharing the budget\<close>

definition song :: "string \<Rightarrow> string \<Rightarrow> int \<Rightarrow> replication" where
  "song owner cid n =
     \<lparr>rn_cid = cid, rn_networkId = ''net'', rn_context = ''ipfs_public_upload'', rn_sizeBytes = n, rn_owner = owner\<rparr>"

text \<open>
  C7: The budget of a node is shared fairly. What is selected of the registrations of a network
  fits the budget; of every owner it is the smallest registrations; whatever of an owner fits an
  equal part of the budget is selected, however much the others registered; and neither the order
  of the registrations nor that of the owners matters.
\<close>

theorem budget_is_shared_fairly:
  assumes "\<forall>r \<in> set rs. new_ContentReplication r = Inr r"
  shows "sizes (select_within rs budget) \<le> max 0 budget \<and>
    (\<forall>owner. prefix (filter (\<lambda>r. rn_owner r = owner) (select_within rs budget))
       (sort_key by_size (filter (\<lambda>r. rn_owner r = owner) rs))) \<and>
    (\<forall>owner us r vs. sort_key by_size (filter (\<lambda>r. rn_owner r = owner) rs) = us @ r # vs \<and>
       int (card (rn_owner ` set rs)) * sizes (us @ [r]) \<le> budget \<longrightarrow> r \<in> set (select_within rs budget)) \<and>
    (\<forall>rs'. mset rs' = mset rs \<and> inj_on (\<lambda>r. (rn_owner r, by_size r)) (set rs) \<longrightarrow>
       select_within rs' budget = select_within rs budget)"
proof (intro conjI allI impI)
  have pos: "\<forall>r \<in> set rs. rn_sizeBytes r > 0" using assms by (auto simp: new_ContentReplication_def)
  have card: "length (owners rs) = card (rn_owner ` set rs)" using met_facts [of rn_owner rs] by (metis distinct_card)
  have claims: "\<forall>c \<in> set (budget_claims rs). rn_sizeBytes (bc_replication c) > 0"
    using claim_registered [OF pos] pos by blast
  show "sizes (select_within rs budget) \<le> max 0 budget"
    unfolding select_within_def by (rule serve_within [OF claims])
  fix owner
  have "map bc_replication (filter (\<lambda>c. claim_owner c = owner) (budget_claims rs)) = owned_by owner rs"
    by (simp only: budget_claims_of [OF pos] claimsOf_def claims_from_replications)
  then show "prefix (filter (\<lambda>r. rn_owner r = owner) (select_within rs budget)) (sort_key by_size (filter (\<lambda>r. rn_owner r = owner) rs))"
    using serve_prefix [of owner "budget_claims rs" "[]" budget] by (simp add: select_within_def owned_by_def filter_map comp_def)
  fix us r vs
  assume "sort_key by_size (filter (\<lambda>r. rn_owner r = owner) rs) = us @ r # vs \<and> int (card (rn_owner ` set rs)) * sizes (us @ [r]) \<le> budget"
  then show "r \<in> set (select_within rs budget)"
    using owned_share_selected [OF pos, of owner us r vs budget] by (simp add: owned_by_def card)
next
  fix rs' assume "mset rs' = mset rs \<and> inj_on (\<lambda>r. (rn_owner r, by_size r)) (set rs)"
  then show "select_within rs' budget = select_within rs budget"
  proof -
    have "\<forall>r \<in> set rs. rn_sizeBytes r > 0" using assms by (auto simp: new_ContentReplication_def)
    then show ?thesis using select_within_mset [of rs rs' budget] \<open>mset rs' = mset rs \<and> _\<close> by metis
  qed
qed

lemma budget_is_shared_fairly_witness:
  "song ''bo'' ''b'' 3 \<in> set (select_within [song ''ana'' ''a'' 50, song ''bo'' ''b'' 3] 10) \<and>
   sizes (select_within [song ''ana'' ''a'' 50, song ''bo'' ''b'' 3] 10) \<le> 10"
proof -
  let ?rs = "[song ''ana'' ''a'' 50, song ''bo'' ''b'' 3]"
  have ok: "\<forall>r \<in> set ?rs. new_ContentReplication r = Inr r"
    by (simp add: song_def new_ContentReplication_def safe_integer_def maxContentSizeBytes_def)
  note fair = budget_is_shared_fairly [OF ok, of 10]
  have "sort_key by_size (filter (\<lambda>r. rn_owner r = ''bo'') ?rs) = [] @ song ''bo'' ''b'' 3 # [] \<and>
      int (card (rn_owner ` set ?rs)) * sizes ([] @ [song ''bo'' ''b'' 3]) \<le> 10"
    by (simp add: song_def)
  with fair have "song ''bo'' ''b'' 3 \<in> set (select_within ?rs 10)" by blast
  with fair show ?thesis by simp
qed

text \<open>
  C9: The nodes of a network agree on who holds a content. The responsible nodes are as many as the
  policy asks for, distinct and active in the network of the content; and any two nodes that see
  the same nodes active choose the same ones.
\<close>

theorem replicas_agree:
  "int (length (pl_responsibleNodeIds (placementOf sha256 localNodeId peers content))) =
     desiredReplicas (int (card (active_in localNodeId peers (rn_networkId content)))) \<and>
   distinct (pl_responsibleNodeIds (placementOf sha256 localNodeId peers content)) \<and>
   set (pl_responsibleNodeIds (placementOf sha256 localNodeId peers content)) \<subseteq> active_in localNodeId peers (rn_networkId content) \<and>
   (\<forall>other peers'. active_in other peers' (rn_networkId content) = active_in localNodeId peers (rn_networkId content) \<longrightarrow>
      pl_responsibleNodeIds (placementOf sha256 other peers' content) = pl_responsibleNodeIds (placementOf sha256 localNodeId peers content))"
proof -
  let ?active = "sorted_list_of_set (active_in localNodeId peers (rn_networkId content))"
  have fin: "finite (active_in localNodeId peers (rn_networkId content))" by (rule finite_active)
  have "distinct ?active" by simp
  moreover have "?active \<noteq> []" using fin by (simp add: active_in_def)
  ultimately have facts: "set (selectResponsibleNodeIds sha256 content ?active) \<subseteq> set ?active"
    "distinct (selectResponsibleNodeIds sha256 content ?active)"
    "int (length (selectResponsibleNodeIds sha256 content ?active)) = desiredReplicas (int (length ?active))"
    using responsible_facts [of ?active sha256 content] by blast+
  then show ?thesis
    using fin by (simp add: placement_responsible)
qed

lemma replicas_agree_witness:
  "pl_responsibleNodeIds (placementOf id ''n2'' [\<lparr>np_id = ''n1'', np_networks = [''net'']\<rparr>] (song ''ana'' ''a'' 5)) =
   pl_responsibleNodeIds (placementOf id ''n1'' [\<lparr>np_id = ''n2'', np_networks = [''net'']\<rparr>] (song ''ana'' ''a'' 5))"
proof -
  have "active_in ''n2'' [\<lparr>np_id = ''n1'', np_networks = [''net'']\<rparr>] (rn_networkId (song ''ana'' ''a'' 5)) =
      active_in ''n1'' [\<lparr>np_id = ''n2'', np_networks = [''net'']\<rparr>] (rn_networkId (song ''ana'' ''a'' 5))"
    by (auto simp: active_in_def song_def)
  then show ?thesis using replicas_agree [of id "''n1''" "[\<lparr>np_id = ''n2'', np_networks = [''net'']\<rparr>]" "song ''ana'' ''a'' 5"] by blast
qed

text \<open>
  C11: What a node maintains fits its budget. Of the contents that a node is responsible for in a
  network and that its status says are within its budget, the sizes it is asked to fetch sum up to
  at most the budget, however many registrations it knows, whoever made them and however often.
\<close>

theorem maintained_contents_fit:
  assumes "\<forall>r \<in> set registrations. new_ContentReplication r = Inr r"
  shows "sum_list (map cs_sizeBytes
      (maintained (find_status sha256 isBlocked budget localNodeId peers registrations) network)) \<le> max 0 budget"
proof -
  let ?rs = "filter (\<lambda>q. rn_networkId q = network) (responsible_registrations sha256 isBlocked localNodeId peers registrations)"
  have ok: "\<forall>r \<in> set ?rs. rn_sizeBytes r > 0"
    using assms by (auto simp: responsible_registrations_def Let_def new_ContentReplication_def)
  obtain kept where kept: "distinct kept" "set kept \<subseteq> set (select_within ?rs budget)"
    "map cs_sizeBytes (maintained (find_status sha256 isBlocked budget localNodeId peers registrations) network) = map rn_sizeBytes kept"
    using maintained_charged by blast
  have "\<forall>r \<in> set (select_within ?rs budget). 0 \<le> rn_sizeBytes r"
    using select_within_members [of ?rs budget] ok by fastforce
  then have "sizes kept \<le> sizes (select_within ?rs budget)" by (rule distinct_sublist_sum [OF kept(1,2)])
  also have "\<dots> \<le> max 0 budget"
    unfolding select_within_def using claim_registered [OF ok] ok by (intro serve_within) blast
  finally show ?thesis by (simp only: kept(3))
qed

lemma maintained_contents_fit_witness:
  "sum_list (map cs_sizeBytes (maintained (find_status id (\<lambda>_. False) 60 ''n1'' []
      [song ''ana'' ''a'' 50, song ''bo'' ''a'' 7, song ''bo'' ''b'' 5]) ''net'')) \<le> 60"
proof -
  let ?rs = "[song ''ana'' ''a'' 50, song ''bo'' ''a'' 7, song ''bo'' ''b'' 5]"
  have "\<forall>r \<in> set ?rs. new_ContentReplication r = Inr r"
    by (simp add: song_def new_ContentReplication_def safe_integer_def maxContentSizeBytes_def)
  from maintained_contents_fit [OF this, of id "\<lambda>_. False" 60 "''n1''" "[]" "''net''"] show ?thesis by simp
qed

section \<open>The quota of an owner\<close>

text \<open>A digest that is read off the size of a payload, or off the payload digest of a proof.\<close>

definition content_digest :: "json \<Rightarrow> string option" where
  "content_digest v =
     (case v of
        JObject kvs \<Rightarrow>
          (case (map_of kvs ''sizeBytes'', map_of kvs ''payloadDigest'') of
             (Some (JInt n), _) \<Rightarrow> Some (replicate 43 (if n < 0 then CHR ''N'' else char_of (nat n)))
           | (_, Some (JString d)) \<Rightarrow> Some d
           | _ \<Rightarrow> Some (replicate 43 (CHR ''0'')))
      | _ \<Rightarrow> Some (replicate 43 (CHR ''0'')))"

definition content_lib :: lib where
  "content_lib = sample_lib\<lparr>lib_digest := content_digest\<rparr>"

definition registration_payload :: "string \<Rightarrow> string \<Rightarrow> int \<Rightarrow> public_record" where
  "registration_payload owner cid n =
     [(''id'', JString (replication_idOf ''net'' cid)), (''cid'', JString cid), (''networkId'', JString ''net''),
      (''ownerIdentityId'', JString owner), (''sizeBytes'', JInt n), (''scopeType'', JString ''content_replication''),
      (''context'', JString ''ipfs_public_upload'')]"

definition registration_proof :: "string \<Rightarrow> string \<Rightarrow> char \<Rightarrow> mutation_proof" where
  "registration_proof owner cid ch =
     \<lparr>pf_author = \<lparr>ma_authorizationRevision = 0, ma_deviceCredential = ''d'', ma_identityId = owner\<rparr>, pf_frontier = None,
      pf_kind = PUT, pf_operationId = replicate 22 ch, pf_payloadDigest = replicate 43 ch, pf_predecessor = None,
      pf_recordId = replication_idOf ''net'' cid, pf_sequence = 0, pf_store = ''contentReplication'', pf_signature = ''s''\<rparr>"

definition registration :: "string \<Rightarrow> string \<Rightarrow> int \<Rightarrow> public_record" where
  "registration owner cid n =
     withProof (registration_payload owner cid n) (registration_proof owner cid (if n < 0 then CHR ''N'' else char_of (nat n)))"

definition world_with :: "public_record list \<Rightarrow> content_world" where
  "world_with documents = \<lparr>qw_networks = (\<lambda>_. Some [''net'']), qw_documents = Inr documents\<rparr>"

definition small_limits :: content_limits where
  "small_limits = \<lparr>ql_quotaBytes = 140, ql_maxRecords = 3\<rparr>"

abbreviation judged :: "string list \<Rightarrow> public_record list \<Rightarrow> public_record \<Rightarrow> verdict" where
  "judged verified documents d \<equiv>
     verdictOf content_lib (\<lambda>_. Inr True) [content_policy content_lib (\<lambda>_. Inr True) small_limits (world_with documents) verified]
       ''contentReplication'' d"

text \<open>
  C22: The quota of an owner is kept by what its registrations ask the network to hold. Among the
  documents of one owner in one network that a node accepts, in whatever order they arrived and
  were judged, the ones that are not withdrawn are no more than its limit of records, and if no
  stored document states a negative size their sizes sum up to at most its quota (both read as 0
  when negative). A withdrawn registration (\<open>removed\<close> is true) holds nothing: it is accepted
  whatever the quota is, and it is never counted against another registration.

  The documents are all stored, each has its own id, and the digest of the proof of each can be
  computed; a document whose digest cannot be is not counted by the code either.
\<close>

theorem quota_is_kept:
  assumes "qw_documents w = Inr documents" and "set docs \<subseteq> set documents"
    and "distinct (map (\<lambda>d. text_field d ''id'') docs)"
    and "\<And>d. d \<in> set docs \<Longrightarrow> text_field d ''ownerIdentityId'' = owner \<and> text_field d ''networkId'' = network"
    and "\<And>d. d \<in> set docs \<Longrightarrow> verdictOf L A [content_policy L A limits w (V d)] ''contentReplication'' d = VerdictAccepted"
    and "\<And>d p. d \<in> set docs \<Longrightarrow> proofOf L d = Some p \<Longrightarrow> \<exists>g. proof_digest L p = Inr g"
  shows "int (length (live_documents docs)) \<le> max 0 (ql_maxRecords limits) \<and>
    ((\<forall>d \<in> set documents. 0 \<le> sizeOf d) \<longrightarrow>
       sum_list (map sizeOf (live_documents docs)) \<le> max 0 (ql_quotaBytes limits)) \<and>
    (\<forall>d v. is_withdrawn d \<longrightarrow> \<not> fst (isGenuine L A v d))"
proof (intro conjI impI allI)
  show "int (length (live_documents docs)) \<le> max 0 (ql_maxRecords limits)"
    by (rule live_quota_kept(1)) (fact assms)+
  show "sum_list (map sizeOf (live_documents docs)) \<le> max 0 (ql_quotaBytes limits)"
    if "\<forall>d \<in> set documents. 0 \<le> sizeOf d"
    by (rule live_quota_kept(2)) (fact assms bspec [OF that])+
  show "\<not> fst (isGenuine L A v d)" if "is_withdrawn d" for d v using that by (rule withdrawn_not_counted)
qed

text \<open>Two registrations and the withdrawal of a third, all accepted: the withdrawal takes no place.\<close>

definition withdrawal :: public_record where
  "withdrawal = withProof
     [(''removed'', JBool True), (''id'', JString (replication_idOf ''net'' ''c'')), (''cid'', JString ''c''),
      (''networkId'', JString ''net''), (''ownerIdentityId'', JString ''ana''), (''scopeType'', JString ''content_replication'')]
     ((registration_proof ''ana'' ''c'' (CHR ''0''))\<lparr>pf_kind := DELETE\<rparr>)"

definition quota_documents :: "public_record list" where
  "quota_documents = [registration ''ana'' ''a'' 65, withdrawal, registration ''ana'' ''b'' 66]"

lemma quota_documents_facts:
  "distinct (map (\<lambda>d. text_field d ''id'') quota_documents)"
  "\<forall>d \<in> set quota_documents. text_field d ''ownerIdentityId'' = ''ana'' \<and> text_field d ''networkId'' = ''net''"
  "\<forall>d \<in> set quota_documents. 0 \<le> sizeOf d"
  "map is_withdrawn quota_documents = [False, True, False]"
  by code_simp+

lemma quota_documents_judged:
  "judged [] quota_documents (registration ''ana'' ''a'' 65) = VerdictAccepted"
  "judged [] quota_documents withdrawal = VerdictAccepted"
  "judged [] quota_documents (registration ''ana'' ''b'' 66) = VerdictAccepted"
  by code_simp+

lemma quota_documents_accepted: "d \<in> set quota_documents \<Longrightarrow> judged [] quota_documents d = VerdictAccepted"
  using quota_documents_judged by (auto simp: quota_documents_def)

lemma quota_is_kept_witness:
  "length (live_documents quota_documents) = 2 \<and> int (length quota_documents) = ql_maxRecords small_limits \<and>
   sum_list (map sizeOf (live_documents quota_documents)) \<le> max 0 (ql_quotaBytes small_limits)"
proof -
  have digests: "\<exists>g. proof_digest content_lib p = Inr g" for p
    by (simp add: proof_digest_def mutation_digestOf_def content_lib_def content_digest_def split: json.split option.split)
  have stored: "qw_documents (world_with quota_documents) = Inr quota_documents" by (simp add: world_with_def)
  note facts = quota_documents_facts
  have "sum_list (map sizeOf (live_documents quota_documents)) \<le> max 0 (ql_quotaBytes small_limits)"
    by (rule quota_is_kept [OF stored subset_refl facts(1) _ quota_documents_accepted digests,
          THEN conjunct2, THEN conjunct1, THEN mp, OF _ _ facts(3)])
      (use facts(2) in blast)+
  moreover have "length (live_documents quota_documents) = 2 \<and> int (length quota_documents) = ql_maxRecords small_limits"
    by code_simp
  ultimately show ?thesis by blast
qed

section \<open>What evades the quota\<close>

text \<open>
  A record with a negative size is refused, but it is stored and genuine, and the others are
  judged by the sum of the sizes of what is genuine: after it the owner has any number of bytes.
\<close>

theorem negative_size_evades_quota:
  "judged [] [registration ''ana'' ''a'' (- 90), registration ''ana'' ''b'' 100, registration ''ana'' ''c'' 100]
     (registration ''ana'' ''a'' (- 90)) = VerdictRefused \<and>
   judged [] [registration ''ana'' ''a'' (- 90), registration ''ana'' ''b'' 100, registration ''ana'' ''c'' 100]
     (registration ''ana'' ''b'' 100) = VerdictAccepted \<and>
   judged [] [registration ''ana'' ''a'' (- 90), registration ''ana'' ''b'' 100, registration ''ana'' ''c'' 100]
     (registration ''ana'' ''c'' 100) = VerdictAccepted \<and>
   ql_quotaBytes small_limits < 100 + 100"
  by code_simp

text \<open>
  A proof that was verified for one record is trusted on any other: a document that anybody stores
  under the name of another owner, with a proof verified before, counts against that owner's quota,
  and only on the nodes that have verified the proof.
\<close>

definition forged_registration :: public_record where
  "forged_registration = withProof (registration_payload ''bo'' ''0'' 100) (registration_proof ''ana'' ''a'' (CHR ''A''))"

theorem verified_proof_is_trusted_anywhere:
  "isGenuine content_lib (\<lambda>_. Inr True) [] (registration ''ana'' ''a'' 65) = (True, [replicate 43 (CHR ''A'')]) \<and>
   fst (isGenuine content_lib (\<lambda>_. Inr True) [replicate 43 (CHR ''A'')] forged_registration) \<and>
   \<not> fst (isGenuine content_lib (\<lambda>_. Inr True) [] forged_registration) \<and>
   judged [] [forged_registration, registration ''bo'' ''b'' 66] (registration ''bo'' ''b'' 66) = VerdictAccepted \<and>
   judged [replicate 43 (CHR ''A'')] [forged_registration, registration ''bo'' ''b'' 66] (registration ''bo'' ''b'' 66) = VerdictRefused"
  by code_simp

end
