(* ===== verification/PrivateCheckpoint.thy ===== *)
theory PrivateCheckpoint
  imports Values
begin

text \<open>
  The checkpoints and the operations of a private scope (\<open>src/contexts/private-authorization/domain\<close>:
  \<open>PrivateAuthorizationCheckpoint.ts\<close>, \<open>PrivateControlOperation.ts\<close>), and the graph of the
  dependencies of pending operations, whose search for a cycle is right
  (\<open>PrivateOperationDependencyGraph.ts\<close>).
\<close>

datatype private_error =
    PrivateValueError
  | InvalidPrivateAuthorizationError
  | PrivateAcceptedCapacityExceededError
  | PrivatePendingCapacityExceededError
  | PrivateAuthorizationConflictError
  | PrivateStorageCapacityExceededError

abbreviation "InvalidPrivate \<equiv> InvalidPrivateAuthorizationError"

definition private_value :: "'a option \<Rightarrow> private_error + 'a" where
  "private_value r = (case r of None \<Rightarrow> Inl PrivateValueError | Some v \<Rightarrow> Inr v)"

section \<open>Checkpoints\<close>

record private_checkpoint =
  pc_admittedDeviceKeys :: "string list"
  pc_authorityKeys :: "string list"
  pc_controlCheckpointJson :: string
  pc_deviceIdentities :: "(string \<times> string) list"
  pc_freshnessAuthorityKey :: string
  pc_headHash :: string
  pc_parentHeadHash :: "string option"
  pc_revision :: int
  pc_revokedDeviceKeys :: "string list"
  pc_scopeId :: string

definition MAX_REVOKED_DEVICE_KEYS :: nat where "MAX_REVOKED_DEVICE_KEYS = 128"

text \<open>A device identity is the pair of its \<open>deviceKey\<close> and its \<open>identityId\<close>.\<close>

definition invalidDeviceIdentities :: "string list \<Rightarrow> string list \<Rightarrow> (string \<times> string) list \<Rightarrow> bool" where
  "invalidDeviceIdentities admittedKeys revokedKeys identities \<longleftrightarrow>
     (let mapped = map fst identities in
      card (set mapped) \<noteq> length mapped \<or>
      list_ex (\<lambda>key. key \<notin> set (admittedKeys @ revokedKeys)) mapped \<or>
      list_ex (\<lambda>key. key \<notin> set mapped) admittedKeys \<or>
      list_ex (\<lambda>i. fst i = [] \<or> snd i = []) identities)"

definition invalidRevision :: "int \<Rightarrow> string option \<Rightarrow> bool" where
  "invalidRevision revision parent \<longleftrightarrow>
     (if \<not> safe_integer revision \<or> revision < 0 then True
      else if revision = 0 then parent \<noteq> None else parent = None \<or> parent = Some [])"

definition invalidKeys :: "string list \<Rightarrow> string list \<Rightarrow> string list \<Rightarrow> string \<Rightarrow> bool" where
  "invalidKeys admittedKeys authorityKeys revokedKeys freshnessKey \<longleftrightarrow>
     (\<not> distinct admittedKeys \<or> \<not> distinct authorityKeys \<or> \<not> distinct revokedKeys) \<or>
     (list_ex (\<lambda>key. key \<notin> set admittedKeys) authorityKeys \<or> freshnessKey \<notin> set admittedKeys) \<or>
     list_ex (\<lambda>key. key \<in> set admittedKeys \<or> key = []) revokedKeys \<or>
     card (set revokedKeys) > MAX_REVOKED_DEVICE_KEYS \<or> [] \<in> set revokedKeys"

definition assertInternallyConsistent :: "private_checkpoint \<Rightarrow> private_error + unit" where
  "assertInternallyConsistent c =
     ensure (\<not> ((pc_scopeId c = [] \<or> pc_headHash c = [] \<or> pc_controlCheckpointJson c = [] \<or> pc_freshnessAuthorityKey c = []) \<or>
       invalidRevision (pc_revision c) (pc_parentHeadHash c) \<or>
       invalidKeys (pc_admittedDeviceKeys c) (pc_authorityKeys c) (pc_revokedDeviceKeys c) (pc_freshnessAuthorityKey c) \<or>
       invalidDeviceIdentities (pc_admittedDeviceKeys c) (pc_revokedDeviceKeys c) (pc_deviceIdentities c))) InvalidPrivate"

definition checkpoint_fromPrimitives :: "private_checkpoint \<Rightarrow> private_error + private_checkpoint" where
  "checkpoint_fromPrimitives c = bindR (assertInternallyConsistent c) (\<lambda>_. Inr c)"

definition checkpoint_genesis :: "private_checkpoint \<Rightarrow> private_error + private_checkpoint" where
  "checkpoint_genesis c =
     checkpoint_fromPrimitives (c\<lparr>pc_parentHeadHash := None, pc_revision := 0, pc_revokedDeviceKeys := []\<rparr>)"

definition authorizes :: "private_checkpoint \<Rightarrow> string \<Rightarrow> bool" where
  "authorizes c key \<longleftrightarrow> key \<in> set (pc_authorityKeys c)"

definition admits_key :: "private_checkpoint \<Rightarrow> string \<Rightarrow> bool" where
  "admits_key c key \<longleftrightarrow> key \<in> set (pc_admittedDeviceKeys c)"

definition recognizes :: "private_checkpoint \<Rightarrow> string \<Rightarrow> bool" where
  "recognizes c key \<longleftrightarrow> admits_key c key \<or> key \<in> set (pc_revokedDeviceKeys c)"

definition identityFor :: "lib \<Rightarrow> private_checkpoint \<Rightarrow> string \<Rightarrow> private_error + identity_id" where
  "identityFor L c key =
     (case find (\<lambda>i. fst i = key) (pc_deviceIdentities c) of
        None \<Rightarrow> Inl InvalidPrivate
      | Some device \<Rightarrow> private_value (lib_identity L (snd device)))"

definition deviceKeysFor :: "lib \<Rightarrow> private_checkpoint \<Rightarrow> identity_id \<Rightarrow> private_error + string list" where
  "deviceKeysFor L c i =
     mapR (\<lambda>device. private_value (lib_text L None (fst device))) (filter (\<lambda>device. snd device = i) (pc_deviceIdentities c))"

definition admitsIdentityDevice :: "lib \<Rightarrow> private_checkpoint \<Rightarrow> identity_id \<Rightarrow> string \<Rightarrow> private_error + bool" where
  "admitsIdentityDevice L c i key =
     (if \<not> admits_key c key then Inr False else bindR (identityFor L c key) (\<lambda>owner. Inr (owner = i)))"

text \<open>The keys that a new list of admitted keys leaves out, the last ones.\<close>

definition revocationHistoryAfter :: "lib \<Rightarrow> private_checkpoint \<Rightarrow> string list \<Rightarrow> private_error + string list" where
  "revocationHistoryAfter L c admitted =
     bindR (mapR (\<lambda>key. private_value (lib_text L None key)) (pc_revokedDeviceKeys c)) (\<lambda>revoked.
     bindR (mapR (\<lambda>key. private_value (lib_text L None key)) (pc_admittedDeviceKeys c)) (\<lambda>before.
       let gone = lib_unique L (lib_unique L (filter (\<lambda>key. key \<notin> set admitted) revoked) @ filter (\<lambda>key. key \<notin> set admitted) before)
       in Inr (drop (length gone - MAX_REVOKED_DEVICE_KEYS) gone)))"

section \<open>Operations\<close>

record control_operation =
  co_authorDeviceKey :: string
  co_authorIdentityId :: string
  co_authorizationRevision :: int
  co_byteSize :: int
  co_control :: "(string \<times> json) list option"
  co_digest :: string
  co_id :: string
  co_identityAuthorizationEpoch :: string
  co_identityAuthorizationRevision :: int
  co_kind :: string
  co_mutation :: "(string \<times> json) list"
  co_previousOperationIds :: "string list"
  co_proposalOperationId :: "string option"
  co_scopeId :: string

definition new_PrivateRevision :: "int \<Rightarrow> private_error + int" where
  "new_PrivateRevision n = bindR (ensure (safe_integer n \<and> n \<ge> 0) InvalidPrivate) (\<lambda>_. Inr n)"

definition isProposal :: "control_operation \<Rightarrow> bool" where
  "isProposal op \<longleftrightarrow> co_kind op = ''membership.propose''"

definition isAuthorizedBy :: "lib \<Rightarrow> control_operation \<Rightarrow> private_checkpoint \<Rightarrow> private_error + bool" where
  "isAuthorizedBy L op c =
     bindR (private_value (lib_text L None (co_scopeId op))) (\<lambda>s.
     bindR (private_value (lib_text L None (pc_scopeId c))) (\<lambda>s'.
     if s \<noteq> s' then Inr False
     else bindR (new_PrivateRevision (co_authorizationRevision op)) (\<lambda>r.
          bindR (new_PrivateRevision (pc_revision c)) (\<lambda>r'. Inr (r = r')))))"

definition isControlChildOf :: "lib \<Rightarrow> control_operation \<Rightarrow> private_checkpoint \<Rightarrow> private_error + bool" where
  "isControlChildOf L op c = (if isProposal op then Inr False else isAuthorizedBy L op c)"

definition hasSameIdentityAs :: "control_operation \<Rightarrow> control_operation \<Rightarrow> bool" where
  "hasSameIdentityAs op other \<longleftrightarrow> co_id op = co_id other \<and> co_scopeId op = co_scopeId other"

definition hasSameDigestAs :: "control_operation \<Rightarrow> control_operation \<Rightarrow> bool" where
  "hasSameDigestAs op other \<longleftrightarrow> co_digest op = co_digest other"

text \<open>\<open>value.control?.parentHeadHash === headHash\<close>\<close>

definition controls_parent :: "control_operation \<Rightarrow> string \<Rightarrow> bool" where
  "controls_parent op headHash \<longleftrightarrow>
     (case co_control op of None \<Rightarrow> False | Some control \<Rightarrow> map_of control ''parentHeadHash'' = Some (JString headHash))"

section \<open>The graph of dependencies\<close>

type_synonym dependency_graph = "(string, string list) jsmap"

text \<open>The empty id of a proposal counts as none.\<close>

definition proposal_dependency :: "control_operation \<Rightarrow> string list" where
  "proposal_dependency op = (case co_proposalOperationId op of None \<Rightarrow> [] | Some i \<Rightarrow> if i = [] then [] else [i])"

definition dependencies_of :: "control_operation \<Rightarrow> string list" where
  "dependencies_of op = fold set_add (co_previousOperationIds op @ proposal_dependency op) []"

fun graph_loop :: "control_operation list \<Rightarrow> dependency_graph \<Rightarrow> private_error + dependency_graph" where
  "graph_loop [] g = Inr g"
| "graph_loop (op # ops) g =
     bindR (ensure (map_of g (co_id op) = None) InvalidPrivate) (\<lambda>_. graph_loop ops (g @ [(co_id op, dependencies_of op)]))"

definition new_DependencyGraph :: "control_operation list \<Rightarrow> private_error + dependency_graph" where
  "new_DependencyGraph ops = graph_loop ops []"

text \<open>The dependencies of an operation that are themselves in the graph.\<close>

definition known_dependencies :: "dependency_graph \<Rightarrow> string \<Rightarrow> string list" where
  "known_dependencies g i =
     (case map_of g i of None \<Rightarrow> [] | Some ds \<Rightarrow> filter (\<lambda>d. map_of g d \<noteq> None) ds)"

text \<open>
  Visiting some operations, below those in \<open>visiting\<close>, after those in \<open>visited\<close>: the operations
  visited then, the latest last.
\<close>

function visit_each :: "dependency_graph \<Rightarrow> string list \<Rightarrow> string list \<Rightarrow> string list \<Rightarrow> private_error + string list" where
  "visit_each g [] visiting visited = Inr visited"
| "visit_each g (i # is) visiting visited =
     bindR
       (if i \<in> set visited then Inr visited
        else bindR (ensure (i \<notin> set visiting) InvalidPrivate) (\<lambda>_.
               bindR (visit_each g (known_dependencies g i) (i # visiting) visited) (\<lambda>v. Inr (set_add i v))))
       (\<lambda>v. visit_each g is visiting v)"
  by pat_completeness auto
termination
proof (relation "measures [\<lambda>(g, is, visiting, visited). card (fst ` set g - set visiting), \<lambda>(g, is, visiting, visited). length is]",
    goal_cases)
  case (2 g i "is" visiting visited)
  then show ?case
  proof (cases "i \<in> fst ` set g")
    case True
    then have "card (fst ` set g - insert i (set visiting)) < card (fst ` set g - set visiting)"
      using 2 by (intro card_Diff_insert_less) auto
    then show ?thesis by simp
  next
    case False
    then have "map_of g i = None" by (simp add: map_of_eq_None_iff)
    then have "known_dependencies g i = []" by (simp add: known_dependencies_def)
    moreover have "fst ` set g - insert i (set visiting) = fst ` set g - set visiting" using False by auto
    ultimately show ?thesis by simp
  qed
qed simp_all

definition assertAcyclic :: "dependency_graph \<Rightarrow> private_error + unit" where
  "assertAcyclic g = bindR (visit_each g (map fst g) [] []) (\<lambda>_. Inr ())"

section \<open>The search for a cycle is right\<close>

definition depends_on :: "dependency_graph \<Rightarrow> (string \<times> string) set" where
  "depends_on g = {(i, d). d \<in> set (known_dependencies g i)}"

text \<open>Every operation stands after those it depends on.\<close>

inductive in_order :: "dependency_graph \<Rightarrow> string list \<Rightarrow> bool" for g where
  order_nil: "in_order g []"
| order_snoc: "in_order g v \<Longrightarrow> set (known_dependencies g i) \<subseteq> set v \<Longrightarrow> i \<notin> set v \<Longrightarrow> in_order g (v @ [i])"

lemma in_order_closed: "in_order g v \<Longrightarrow> i \<in> set v \<Longrightarrow> set (known_dependencies g i) \<subseteq> set v"
  by (induction rule: in_order.induct) auto

lemma in_order_no_cycle: "in_order g v \<Longrightarrow> (i, i) \<in> (depends_on g)\<^sup>+ \<Longrightarrow> i \<notin> set v"
proof (induction arbitrary: i rule: in_order.induct)
  case (order_snoc v j)
  have stay: "d \<in> set v" if "(i, d) \<in> (depends_on g)\<^sup>+" "i \<in> set v" for i d
    using that in_order_closed [OF order_snoc.hyps(1)] by (induction rule: trancl_induct) (auto simp: depends_on_def)
  have "i \<notin> set v" using order_snoc.IH [OF order_snoc.prems] .
  moreover have "i \<noteq> j"
  proof
    assume "i = j"
    then obtain d where d: "(j, d) \<in> depends_on g" "(d, j) \<in> (depends_on g)\<^sup>*" using order_snoc.prems by (meson tranclD)
    then have "d \<in> set v" using order_snoc.hyps(2) by (auto simp: depends_on_def)
    then have "j \<in> set v" using d(2) stay by (auto dest: rtranclD)
    then show False using order_snoc.hyps(3) by simp
  qed
  ultimately show ?case by simp
qed simp

lemma visited_in_order:
  assumes "visit_each g is visiting visited = Inr v" and "in_order g visited"
  shows "in_order g v \<and> set visited \<union> set is \<subseteq> set v"
  using assms
proof (induction g "is" visiting visited arbitrary: v rule: visit_each.induct)
  case (2 g i "is" visiting visited)
  show ?case
  proof (cases "i \<in> set visited")
    case True
    then show ?thesis using 2 by auto
  next
    case False
    then obtain u where free: "ensure (i \<notin> set visiting) InvalidPrivate = Inr ()"
      and u: "visit_each g (known_dependencies g i) (i # visiting) visited = Inr u"
      and rest: "visit_each g is visiting (set_add i u) = Inr v" using "2.prems"(1) by auto
    have ord: "in_order g u" "set visited \<union> set (known_dependencies g i) \<subseteq> set u"
      using "2.IH"(1) [OF False free u "2.prems"(2)] by blast+
    have "in_order g (set_add i u)" using ord by (simp add: set_add_def order_snoc)
    moreover have now: "(if i \<in> set visited then Inr visited
        else bindR (ensure (i \<notin> set visiting) InvalidPrivate) (\<lambda>_.
               bindR (visit_each g (known_dependencies g i) (i # visiting) visited) (\<lambda>v. Inr (set_add i v)))) = Inr (set_add i u)"
      using False free u by simp
    ultimately have "in_order g v \<and> set (set_add i u) \<union> set is \<subseteq> set v" using "2.IH"(2) [OF now rest] by blast
    then show ?thesis using ord(2) by auto
  qed
qed simp

lemma cycle_found:
  assumes "visit_each g is visiting visited = Inl e"
    and "successively (\<lambda>a b. (b, a) \<in> depends_on g) visiting"
    and "\<forall>i \<in> set is. visiting \<noteq> [] \<longrightarrow> (hd visiting, i) \<in> depends_on g"
  shows "\<exists>i. (i, i) \<in> (depends_on g)\<^sup>+"
  using assms
proof (induction g "is" visiting visited rule: visit_each.induct)
  case (2 g i "is" visiting visited)
  let ?visit = "if i \<in> set visited then Inr visited
     else bindR (ensure (i \<notin> set visiting) InvalidPrivate) (\<lambda>_.
            bindR (visit_each g (known_dependencies g i) (i # visiting) visited) (\<lambda>v. Inr (set_add i v)))"
  show ?case
  proof (cases ?visit)
    case (Inr v)
    then have "visit_each g is visiting v = Inl e" using "2.prems"(1) by (simp del: bindR_eq_Inr)
    from "2.IH"(2) [OF Inr this "2.prems"(2)] "2.prems"(3) show ?thesis by simp
  next
    case (Inl e')
    then have new: "i \<notin> set visited" by (auto split: if_splits)
    show ?thesis
    proof (cases "i \<in> set visiting")
      case True
      then obtain us vs where split: "visiting = us @ i # vs" by (auto simp: in_set_conv_decomp)
      have reach: "(i, hd (ws @ [i])) \<in> (depends_on g)\<^sup>*" if "successively (\<lambda>a b. (b, a) \<in> depends_on g) (ws @ [i])" for ws
        using that
      proof (induction ws)
        case (Cons w ws)
        then have "(hd (ws @ [i]), w) \<in> depends_on g" by (cases ws) (simp_all add: successively_Cons)
        moreover have "(i, hd (ws @ [i])) \<in> (depends_on g)\<^sup>*" using Cons by (cases ws) (simp_all add: successively_Cons)
        ultimately show ?case by (simp add: rtrancl.rtrancl_into_rtrancl)
      qed simp
      have "successively (\<lambda>a b. (b, a) \<in> depends_on g) (us @ [i])"
        using "2.prems"(2) unfolding split by (simp add: successively_append_iff split: if_splits)
      from reach [OF this] have "(i, hd visiting) \<in> (depends_on g)\<^sup>*" unfolding split by (cases us) simp_all
      moreover have "(hd visiting, i) \<in> depends_on g" using "2.prems"(3) True by auto
      ultimately show ?thesis by (meson rtrancl_into_trancl1)
    next
      case False
      then have free: "ensure (i \<notin> set visiting) InvalidPrivate = Inr ()" by simp
      have inner: "visit_each g (known_dependencies g i) (i # visiting) visited = Inl e'"
        using Inl new free by (auto simp: bindR_eq_Inl)
      have "successively (\<lambda>a b. (b, a) \<in> depends_on g) (i # visiting)"
        using "2.prems"(2,3) by (cases visiting) simp_all
      then have "e = e' \<Longrightarrow> ?thesis"
        using "2.IH"(1) [OF new free] inner by (auto simp: depends_on_def)
      moreover have "e = e'" using "2.prems"(1) Inl by (simp add: bindR_eq_Inl)
      ultimately show ?thesis by blast
    qed
  qed
qed simp

lemma assertAcyclic_iff: "assertAcyclic g = Inr () \<longleftrightarrow> acyclic (depends_on g)"
proof
  assume "assertAcyclic g = Inr ()"
  then obtain v where "visit_each g (map fst g) [] [] = Inr v" by (auto simp: assertAcyclic_def)
  from visited_in_order [OF this order_nil] have v: "in_order g v" "fst ` set g \<subseteq> set v" by simp_all
  show "acyclic (depends_on g)"
  proof (rule acyclicI, rule allI)
    fix i
    show "(i, i) \<notin> (depends_on g)\<^sup>+"
    proof
      assume cycle: "(i, i) \<in> (depends_on g)\<^sup>+"
      then obtain d where "(i, d) \<in> depends_on g" by (meson tranclD)
      then have "map_of g i \<noteq> None" by (cases "map_of g i") (simp_all add: depends_on_def known_dependencies_def)
      then have "i \<in> fst ` set g" by (simp add: map_of_eq_None_iff)
      then show False using in_order_no_cycle [OF v(1) cycle] v(2) by blast
    qed
  qed
next
  assume acyclic: "acyclic (depends_on g)"
  show "assertAcyclic g = Inr ()"
  proof (cases "visit_each g (map fst g) [] []")
    case (Inl e)
    from cycle_found [OF this] acyclic show ?thesis by (auto simp: acyclic_def)
  qed (simp add: assertAcyclic_def)
qed

end
