(* ===== verification/PrivateScope.thy ===== *)
theory PrivateScope
  imports PrivateCheckpoint
begin

text \<open>
  The aggregate of a private scope (\<open>PrivateAuthorizationScope.ts\<close>): its checkpoint, the operations
  it has accepted, with what it retains of them, and those that wait. A method that throws may have
  changed the scope before: what it leaves is part of its result.
\<close>

section \<open>Methods that change the scope and may throw\<close>

definition thenS :: "('e + 'a) \<times> 's \<Rightarrow> ('a \<Rightarrow> 's \<Rightarrow> ('e + 'b) \<times> 's) \<Rightarrow> ('e + 'b) \<times> 's" where
  "thenS r f = (case fst r of Inl e \<Rightarrow> (Inl e, snd r) | Inr x \<Rightarrow> f x (snd r))"

lemma thenS_simps [simp]:
  "thenS (Inl e, s) f = (Inl e, s)"
  "thenS (Inr x, s) f = f x s"
  by (simp_all add: thenS_def)

lemma thenS_cases:
  assumes "thenS r f = (v, t)"
  obtains e where "r = (Inl e, t)" "v = Inl e" | x s where "r = (Inr x, s)" "f x s = (v, t)"
  using assms by (cases r; cases "fst r") auto

section \<open>The state\<close>

datatype scope_status = ScopeActive | ScopeFrozen

datatype scope_event = ScopeWasPinned string | ScopeWasFrozen string | ControlOperationWasAccepted string

record private_scope =
  ps_checkpoint :: private_checkpoint
  ps_genesisHash :: string
  ps_ownerDeviceKey :: string
  ps_status :: scope_status
  ps_accepted :: "control_operation list"
  ps_pending :: "control_operation list"
  ps_events :: "scope_event list"

definition MAX_ACCEPTED_BYTES :: int where "MAX_ACCEPTED_BYTES = 4 * 1024 * 1024"
definition MAX_DEPENDENCY_RETAINED_BYTES :: int where "MAX_DEPENDENCY_RETAINED_BYTES = 3 * 1024 * 1024"
definition MAX_DEPENDENCY_RETAINED_OPERATIONS :: nat where "MAX_DEPENDENCY_RETAINED_OPERATIONS = 96"
definition MAX_ACCEPTED_BYTES_PER_AUTHOR :: int where "MAX_ACCEPTED_BYTES_PER_AUTHOR = 512 * 1024"
definition MAX_ACCEPTED_OPERATIONS :: nat where "MAX_ACCEPTED_OPERATIONS = 128"
definition MAX_ACCEPTED_OPERATIONS_PER_AUTHOR :: nat where "MAX_ACCEPTED_OPERATIONS_PER_AUTHOR = 8"
definition MAX_NON_AUTHORITY_ACCEPTED_BYTES :: int where "MAX_NON_AUTHORITY_ACCEPTED_BYTES = 3 * 1024 * 1024"
definition MAX_NON_AUTHORITY_ACCEPTED_OPERATIONS :: nat where "MAX_NON_AUTHORITY_ACCEPTED_OPERATIONS = 96"
definition MAX_HISTORICAL_OPERATIONS :: nat where "MAX_HISTORICAL_OPERATIONS = 32"
definition MAX_PENDING_BYTES :: int where "MAX_PENDING_BYTES = 1024 * 1024"
definition MAX_PENDING_BYTES_PER_AUTHOR :: int where "MAX_PENDING_BYTES_PER_AUTHOR = 768 * 1024"
definition MAX_PENDING_OPERATIONS :: nat where "MAX_PENDING_OPERATIONS = 128"
definition MAX_PENDING_OPERATIONS_PER_AUTHOR :: nat where "MAX_PENDING_OPERATIONS_PER_AUTHOR = 96"

definition operationBytes :: "control_operation list \<Rightarrow> int" where
  "operationBytes ops = sum_list (map co_byteSize ops)"

definition authored_by :: "string \<Rightarrow> control_operation list \<Rightarrow> control_operation list" where
  "authored_by key ops = filter (\<lambda>op. co_authorDeviceKey op = key) ops"

text \<open>The set of the ids, as a list.\<close>

definition dependencyIds :: "control_operation list \<Rightarrow> string list" where
  "dependencyIds pending = concat (map (\<lambda>op. co_previousOperationIds op @ proposal_dependency op) pending)"

section \<open>What is retained\<close>

definition assertDependencyRetentionCapacity :: "control_operation list \<Rightarrow> string list \<Rightarrow> private_error + unit" where
  "assertDependencyRetentionCapacity accepted ids =
     (let retained = filter (\<lambda>op. co_id op \<in> set ids) accepted in
      ensure (length retained \<le> MAX_DEPENDENCY_RETAINED_OPERATIONS \<and>
        operationBytes retained \<le> MAX_DEPENDENCY_RETAINED_BYTES) PrivateAcceptedCapacityExceededError)"

text \<open>The latest operations first: the ids retained, their bytes, how many are historical.\<close>

fun retain_loop :: "control_operation list \<Rightarrow> string list \<Rightarrow> int \<Rightarrow> nat \<Rightarrow> string list" where
  "retain_loop [] ids bytes historical = ids"
| "retain_loop (op # ops) ids bytes historical =
     (if co_id op \<in> set ids then retain_loop ops ids bytes historical
      else if historical \<ge> MAX_HISTORICAL_OPERATIONS \<or> length ids \<ge> MAX_ACCEPTED_OPERATIONS \<or>
              bytes + co_byteSize op > MAX_ACCEPTED_BYTES
      then retain_loop ops ids bytes historical
      else retain_loop ops (set_add (co_id op) ids) (bytes + co_byteSize op) (historical + 1))"

definition retainedAccepted :: "control_operation list \<Rightarrow> control_operation list \<Rightarrow> private_checkpoint
    \<Rightarrow> private_error + control_operation list" where
  "retainedAccepted accepted pending checkpoint =
     (let ids = dependencyIds pending in
      bindR (assertDependencyRetentionCapacity accepted ids) (\<lambda>_.
      let requiredIds = fold set_add (map co_id (filter (\<lambda>op. co_authorizationRevision op = pc_revision checkpoint \<or>
                           co_id op \<in> set ids) accepted)) [];
          required = filter (\<lambda>op. co_id op \<in> set requiredIds) accepted in
      if length required > MAX_ACCEPTED_OPERATIONS \<or> operationBytes required > MAX_ACCEPTED_BYTES
      then Inl PrivateAcceptedCapacityExceededError
      else let retainedIds = retain_loop (rev accepted) requiredIds (operationBytes required) 0 in
           Inr (filter (\<lambda>op. co_id op \<in> set retainedIds) accepted)))"

definition isPermanentlyInvalidPending :: "control_operation \<Rightarrow> private_checkpoint \<Rightarrow> bool" where
  "isPermanentlyInvalidPending op c \<longleftrightarrow>
     co_authorizationRevision op < pc_revision c \<or>
     co_authorDeviceKey op \<notin> set (pc_admittedDeviceKeys c) \<or>
     co_authorDeviceKey op \<in> set (pc_revokedDeviceKeys c) \<or>
     (co_kind op = ''membership.propose'' \<and> co_authorizationRevision op = pc_revision c \<and>
      \<not> controls_parent op (pc_headHash c))"

definition compactAccepted :: "private_scope \<Rightarrow> (private_error + unit) \<times> private_scope" where
  "compactAccepted s =
     (case retainedAccepted (ps_accepted s)
             (filter (\<lambda>op. \<not> isPermanentlyInvalidPending op (ps_checkpoint s)) (ps_pending s)) (ps_checkpoint s) of
        Inl e \<Rightarrow> (Inl e, s)
      | Inr retained \<Rightarrow> (Inr (), s\<lparr>ps_accepted := retained\<rparr>))"

section \<open>Making a scope\<close>

definition new_scope :: "private_scope \<Rightarrow> private_error + private_scope" where
  "new_scope s =
     bindR (new_DependencyGraph (ps_pending s)) (\<lambda>g.
     bindR (assertAcyclic g) (\<lambda>_.
     (case compactAccepted s of (Inl e, _) \<Rightarrow> Inl e | (Inr _, t) \<Rightarrow> Inr t)))"

definition scope_pin :: "private_checkpoint \<Rightarrow> string \<Rightarrow> string \<Rightarrow> private_error + private_scope" where
  "scope_pin checkpoint genesisHash ownerDeviceKey =
     bindR (ensure (authorizes checkpoint ownerDeviceKey) InvalidPrivate) (\<lambda>_.
     bindR (new_scope \<lparr>ps_checkpoint = checkpoint, ps_genesisHash = genesisHash, ps_ownerDeviceKey = ownerDeviceKey,
              ps_status = ScopeActive, ps_accepted = [], ps_pending = [], ps_events = []\<rparr>) (\<lambda>s.
       Inr (s\<lparr>ps_events := ps_events s @ [ScopeWasPinned (pc_scopeId checkpoint)]\<rparr>)))"

text \<open>The primitives of a scope are the scope itself without its events; its operations are read as they are.\<close>

definition private_fromPrimitives :: "lib \<Rightarrow> private_scope \<Rightarrow> private_error + private_scope" where
  "private_fromPrimitives L p =
     bindR (checkpoint_fromPrimitives (ps_checkpoint p)) (\<lambda>checkpoint.
     bindR (private_value (lib_text L None (ps_ownerDeviceKey p))) (\<lambda>owner.
       new_scope (p\<lparr>ps_checkpoint := checkpoint, ps_ownerDeviceKey := owner, ps_events := []\<rparr>)))"

section \<open>Checks\<close>

definition assertAcceptedCapacity :: "control_operation \<Rightarrow> private_checkpoint \<Rightarrow> private_scope \<Rightarrow> private_error + unit" where
  "assertAcceptedCapacity op checkpoint s =
     (let pending = filter (\<lambda>c. co_id c \<noteq> co_id op \<and> \<not> isPermanentlyInvalidPending c checkpoint) (ps_pending s);
          current = filter (\<lambda>a. co_authorizationRevision a = pc_revision checkpoint) (ps_accepted s);
          byAuthor = authored_by (co_authorDeviceKey op) current;
          nonAuthority = filter (\<lambda>a. co_authorDeviceKey a \<notin> set (pc_authorityKeys checkpoint)) current in
      bindR (if co_authorizationRevision op \<noteq> pc_revision checkpoint then Inr ()
             else bindR (ensure (\<not> (length byAuthor \<ge> MAX_ACCEPTED_OPERATIONS_PER_AUTHOR \<or>
                            operationBytes byAuthor + co_byteSize op > MAX_ACCEPTED_BYTES_PER_AUTHOR))
                          PrivateAcceptedCapacityExceededError) (\<lambda>_.
                  if co_authorDeviceKey op \<in> set (pc_authorityKeys checkpoint) then Inr ()
                  else ensure (\<not> (length nonAuthority \<ge> MAX_NON_AUTHORITY_ACCEPTED_OPERATIONS \<or>
                         operationBytes nonAuthority + co_byteSize op > MAX_NON_AUTHORITY_ACCEPTED_BYTES))
                         PrivateAcceptedCapacityExceededError)) (\<lambda>_.
      bindR (retainedAccepted (ps_accepted s @ [op]) pending checkpoint) (\<lambda>_. Inr ())))"

definition assertOperation :: "control_operation \<Rightarrow> string \<Rightarrow> private_scope \<Rightarrow> private_error + unit" where
  "assertOperation op expectedKind s =
     (let c = ps_checkpoint s in
      ensure (co_id op \<noteq> [] \<and> co_digest op \<noteq> [] \<and> co_authorDeviceKey op \<noteq> [] \<and> co_scopeId op = pc_scopeId c \<and>
        co_kind op = expectedKind \<and> safe_integer (co_authorizationRevision op) \<and>
        co_authorizationRevision op \<ge> pc_revision c \<and> safe_integer (co_byteSize op) \<and> co_byteSize op \<ge> 0 \<and>
        co_authorDeviceKey op \<in> set (pc_admittedDeviceKeys c) \<and> co_authorDeviceKey op \<notin> set (pc_revokedDeviceKeys c) \<and>
        (expectedKind \<noteq> ''membership.propose'' \<or> co_authorizationRevision op > pc_revision c \<or>
         controls_parent op (pc_headHash c))) InvalidPrivate)"

definition assertSuccessor :: "private_checkpoint \<Rightarrow> private_scope \<Rightarrow> private_error + unit" where
  "assertSuccessor candidate s =
     (let current = ps_checkpoint s in
      ensure (pc_scopeId candidate = pc_scopeId current \<and> pc_revision candidate = pc_revision current + 1 \<and>
        pc_parentHeadHash candidate = Some (pc_headHash current)) InvalidPrivate)"

definition isPending :: "control_operation \<Rightarrow> private_scope \<Rightarrow> bool" where
  "isPending op s \<longleftrightarrow>
     co_authorizationRevision op > pc_revision (ps_checkpoint s) \<or>
     list_ex (\<lambda>i. i \<notin> set (map co_id (ps_accepted s))) (co_previousOperationIds op)"

definition prunePending :: "private_scope \<Rightarrow> private_scope" where
  "prunePending s =
     s\<lparr>ps_pending := filter (\<lambda>op. \<not> isPermanentlyInvalidPending op (ps_checkpoint s)) (ps_pending s)\<rparr>"

definition assertScopeActive :: "private_scope \<Rightarrow> private_error + unit" where
  "assertScopeActive s = ensure (ps_status s = ScopeActive) PrivateAuthorizationConflictError"

text \<open>Freezing always throws.\<close>

definition quarantine :: "private_scope \<Rightarrow> private_scope" where
  "quarantine s =
     (if ps_status s = ScopeFrozen then s
      else s\<lparr>ps_status := ScopeFrozen, ps_events := ps_events s @ [ScopeWasFrozen (pc_scopeId (ps_checkpoint s))]\<rparr>)"

definition freeze :: "private_scope \<Rightarrow> (private_error + 'a) \<times> private_scope" where
  "freeze s = (Inl PrivateAuthorizationConflictError, quarantine s)"

definition pinGenesis :: "private_checkpoint \<Rightarrow> string \<Rightarrow> private_scope \<Rightarrow> (private_error + unit) \<times> private_scope" where
  "pinGenesis checkpoint genesisHash s =
     (if ps_genesisHash s \<noteq> genesisHash \<or> ps_checkpoint s \<noteq> checkpoint then freeze s else (Inr (), s))"

section \<open>Waiting and accepting\<close>

definition enqueue :: "control_operation \<Rightarrow> private_scope \<Rightarrow> (private_error + unit) \<times> private_scope" where
  "enqueue op s =
     (case find (\<lambda>p. co_id p = co_id op) (ps_pending s) of
        Some duplicate \<Rightarrow> if co_digest duplicate \<noteq> co_digest op then freeze s else (Inr (), s)
      | None \<Rightarrow>
          let byAuthor = authored_by (co_authorDeviceKey op) (ps_pending s) in
          (case bindR (new_DependencyGraph (ps_pending s @ [op])) (\<lambda>g.
                bindR (assertAcyclic g) (\<lambda>_.
                bindR (assertDependencyRetentionCapacity (ps_accepted s) (dependencyIds (ps_pending s @ [op]))) (\<lambda>_.
                  ensure ((length (ps_pending s) < MAX_PENDING_OPERATIONS \<and>
                           operationBytes (ps_pending s) + co_byteSize op \<le> MAX_PENDING_BYTES) \<and>
                          (length byAuthor < MAX_PENDING_OPERATIONS_PER_AUTHOR \<and>
                           operationBytes byAuthor + co_byteSize op \<le> MAX_PENDING_BYTES_PER_AUTHOR))
                    PrivatePendingCapacityExceededError))) of
             Inl e \<Rightarrow> (Inl e, s)
           | Inr _ \<Rightarrow> (Inr (), s\<lparr>ps_pending := ps_pending s @ [op]\<rparr>)))"

definition acceptNow :: "control_operation \<Rightarrow> private_scope \<Rightarrow> private_scope" where
  "acceptNow op s =
     (let i = findIndex (\<lambda>p. co_id p = co_id op) (ps_pending s) in
      s\<lparr>ps_pending := (if i \<ge> 0 then splice1 i (ps_pending s) else ps_pending s), ps_accepted := ps_accepted s @ [op],
        ps_events := ps_events s @ [ControlOperationWasAccepted (pc_scopeId (ps_checkpoint s))]\<rparr>)"

datatype assessment = Duplicate | Waiting | Ready

text \<open>Which operation has the id already: \<open>None\<close>, an accepted one, or one that waits.\<close>

definition duplicateResult :: "lib \<Rightarrow> control_operation \<Rightarrow> private_scope \<Rightarrow> (private_error + assessment option) \<times> private_scope" where
  "duplicateResult L op s =
     (case find (\<lambda>o'. co_id o' = co_id op) (ps_accepted s @ ps_pending s) of
        None \<Rightarrow> (Inr None, s)
      | Some existing \<Rightarrow>
          let isAccepted = list_ex (\<lambda>o'. co_id o' = co_id op) (ps_accepted s) in
          thenS
            (if co_digest existing = co_digest op then (Inr (), s)
             else (case (if isAccepted then Inr True
                         else bindR (private_value (lib_text L None (co_authorDeviceKey op))) (\<lambda>key.
                                Inr (co_authorDeviceKey existing = key))) of
                     Inl e \<Rightarrow> (Inl e, s)
                   | Inr same \<Rightarrow> if same then freeze s else (Inl InvalidPrivate, s)))
            (\<lambda>_ t. (Inr (Some (if isAccepted then Duplicate else Waiting)), t)))"

definition assess :: "lib \<Rightarrow> control_operation \<Rightarrow> string \<Rightarrow> private_scope \<Rightarrow> (private_error + assessment) \<times> private_scope" where
  "assess L op expectedKind s =
     thenS (duplicateResult L op s) (\<lambda>duplicate s.
     if duplicate = Some Duplicate then (Inr Duplicate, s)
     else thenS (assertScopeActive s, s) (\<lambda>_ s.
     let s = prunePending s in
     thenS (assertOperation op expectedKind s, s) (\<lambda>_ s.
     if duplicate = Some Waiting \<and> isPending op s then (Inr Waiting, s)
     else let s = (if duplicate = Some Waiting
                   then s\<lparr>ps_pending := splice1 (findIndex (\<lambda>p. co_id p = co_id op) (ps_pending s)) (ps_pending s)\<rparr> else s) in
          if isPending op s then thenS (enqueue op s) (\<lambda>_ s. (Inr Waiting, s))
          else (Inr Ready, s))))"

datatype acceptance = Accepted | AlreadyKnown | StillPending

text \<open>What an assessment other than \<open>ready\<close> is the result of.\<close>

definition unready :: "assessment \<Rightarrow> acceptance" where
  "unready a = (if a = Duplicate then AlreadyKnown else StillPending)"

definition acceptProposal :: "lib \<Rightarrow> control_operation \<Rightarrow> private_scope \<Rightarrow> (private_error + acceptance) \<times> private_scope" where
  "acceptProposal L op s =
     thenS (assess L op ''membership.propose'' s) (\<lambda>a s.
     if a \<noteq> Ready then (Inr (unready a), s)
     else thenS (assertAcceptedCapacity op (ps_checkpoint s) s, s) (\<lambda>_ s.
          thenS (compactAccepted (acceptNow op s)) (\<lambda>_ s. (Inr Accepted, s))))"

text \<open>What a commit and a revocation share: the checks of capacity and the change of the checkpoint.\<close>

definition advance_to :: "control_operation \<Rightarrow> private_checkpoint \<Rightarrow> private_scope \<Rightarrow> (private_error + acceptance) \<times> private_scope" where
  "advance_to op candidate s =
     thenS (assertSuccessor candidate s, s) (\<lambda>_ s.
     thenS (assertAcceptedCapacity op candidate s, s) (\<lambda>_ s.
     thenS (compactAccepted (prunePending ((acceptNow op s)\<lparr>ps_checkpoint := candidate\<rparr>))) (\<lambda>_ s. (Inr Accepted, s))))"

text \<open>\<open>JSON.stringify(left) === JSON.stringify(right)\<close>\<close>

definition same_json :: "(string \<times> json) list \<Rightarrow> (string \<times> json) list \<Rightarrow> bool" where
  "same_json m m' \<longleftrightarrow> json_text (JObject m) = json_text (JObject m')"

definition commits_proposal :: "control_operation \<Rightarrow> private_scope \<Rightarrow> bool" where
  "commits_proposal op s \<longleftrightarrow>
     (case find (\<lambda>a. Some (co_id a) = co_proposalOperationId op) (ps_accepted s) of
        None \<Rightarrow> False
      | Some proposal \<Rightarrow>
          co_kind proposal = ''membership.propose'' \<and>
          (case co_proposalOperationId op of None \<Rightarrow> False | Some i \<Rightarrow> i \<noteq> [] \<and> i \<in> set (co_previousOperationIds op)) \<and>
          same_json (co_mutation proposal) (co_mutation op))"

definition commitTransition :: "lib \<Rightarrow> control_operation \<Rightarrow> private_checkpoint \<Rightarrow> private_scope \<Rightarrow> (private_error + acceptance) \<times> private_scope" where
  "commitTransition L op candidate s =
     thenS (assess L op ''membership.commit'' s) (\<lambda>a s.
     if a \<noteq> Ready then (Inr (unready a), s)
     else thenS (ensure (commits_proposal op s) InvalidPrivate, s) (\<lambda>_ s. advance_to op candidate s))"

definition revokes :: "control_operation \<Rightarrow> private_checkpoint \<Rightarrow> private_scope \<Rightarrow> bool" where
  "revokes op candidate s \<longleftrightarrow>
     map_of (co_mutation op) ''type'' = Some (JString ''device.revoke'') \<and>
     (case map_of (co_mutation op) ''deviceKey'' of
        Some (JString key) \<Rightarrow>
          key \<in> set (pc_admittedDeviceKeys (ps_checkpoint s)) \<and> key \<notin> set (pc_admittedDeviceKeys candidate) \<and>
          key \<in> set (pc_revokedDeviceKeys candidate)
      | _ \<Rightarrow> False)"

definition revokeDevice :: "lib \<Rightarrow> control_operation \<Rightarrow> private_checkpoint \<Rightarrow> private_scope \<Rightarrow> (private_error + acceptance) \<times> private_scope" where
  "revokeDevice L op candidate s =
     thenS (assess L op ''device.revoke'' s) (\<lambda>a s.
     if a \<noteq> Ready then (Inr (unready a), s)
     else thenS (ensure (revokes op candidate s) InvalidPrivate, s) (\<lambda>_ s. advance_to op candidate s))"

definition retryable :: "private_scope \<Rightarrow> control_operation list" where
  "retryable s =
     (let c = ps_checkpoint s in
      sort_key co_id (filter (\<lambda>op. co_authorizationRevision op = pc_revision c \<and>
        co_authorDeviceKey op \<in> set (pc_admittedDeviceKeys c) \<and> co_authorDeviceKey op \<notin> set (pc_revokedDeviceKeys c) \<and>
        list_all (\<lambda>i. i \<in> set (map co_id (ps_accepted s))) (co_previousOperationIds op)) (ps_pending s)))"

definition scope_isOwnedBy :: "private_scope \<Rightarrow> string \<Rightarrow> bool" where
  "scope_isOwnedBy s key \<longleftrightarrow> ps_ownerDeviceKey s = key"

end
