(* ===== verification/PrivateSteps.thy ===== *)
theory PrivateSteps
  imports PrivateBounds
begin

text \<open>
  What every method of a private scope keeps: the invariant \<open>scope_ok\<close> of its lists, and that an
  operation which was accepted is not accepted again.
\<close>

section \<open>The graph of the waiting operations\<close>

definition graph_of :: "control_operation list \<Rightarrow> dependency_graph" where
  "graph_of ops = map (\<lambda>op. (co_id op, dependencies_of op)) ops"

lemma graph_loop_iff:
  "graph_loop ops g = Inr g' \<longleftrightarrow> distinct (map co_id ops) \<and> (\<forall>op \<in> set ops. co_id op \<notin> fst ` set g) \<and> g' = g @ graph_of ops"
proof (induction ops arbitrary: g)
  case (Cons op ops)
  show ?case by (simp add: Cons.IH graph_of_def map_of_eq_None_iff ball_Un) (auto simp: image_iff)
qed (auto simp: graph_of_def)

lemma new_DependencyGraph_iff: "new_DependencyGraph ops = Inr g \<longleftrightarrow> distinct (map co_id ops) \<and> g = graph_of ops"
  by (auto simp: new_DependencyGraph_def graph_loop_iff)

lemma graph_of_ids [simp]: "fst ` set (graph_of ops) = co_id ` set ops"
  by (force simp: graph_of_def)

lemma graph_of_lookup:
  "distinct (map co_id ops) \<Longrightarrow> map_of (graph_of ops) i = Some ds \<longleftrightarrow> (\<exists>op \<in> set ops. co_id op = i \<and> dependencies_of op = ds)"
  by (subst map_of_eq_Some_iff) (auto simp: graph_of_def comp_def)

lemma depends_on_graph:
  assumes "distinct (map co_id ops)"
  shows "depends_on (graph_of ops) =
    {(co_id op, co_id d) | op d. op \<in> set ops \<and> d \<in> set ops \<and> co_id d \<in> set (dependencies_of op)}"
proof (intro equalityI subrelI)
  fix i j
  assume "(i, j) \<in> depends_on (graph_of ops)"
  then obtain ds where ds: "map_of (graph_of ops) i = Some ds" "j \<in> set ds" "map_of (graph_of ops) j \<noteq> None"
    by (cases "map_of (graph_of ops) i") (auto simp: depends_on_def known_dependencies_def)
  then obtain op where "op \<in> set ops" "co_id op = i" "dependencies_of op = ds" using graph_of_lookup [OF assms] by blast
  moreover obtain d where "d \<in> set ops" "co_id d = j"
  proof -
    obtain ds' where "map_of (graph_of ops) j = Some ds'" using ds(3) by blast
    then show ?thesis using graph_of_lookup [OF assms] that by blast
  qed
  ultimately show "(i, j) \<in> {(co_id op, co_id d) | op d. op \<in> set ops \<and> d \<in> set ops \<and> co_id d \<in> set (dependencies_of op)}"
    using ds(2) by blast
next
  fix i j
  assume "(i, j) \<in> {(co_id op, co_id d) | op d. op \<in> set ops \<and> d \<in> set ops \<and> co_id d \<in> set (dependencies_of op)}"
  then obtain op d where ops: "i = co_id op" "j = co_id d" "op \<in> set ops" "d \<in> set ops" "co_id d \<in> set (dependencies_of op)" by blast
  have "map_of (graph_of ops) (co_id op) = Some (dependencies_of op)" "map_of (graph_of ops) (co_id d) = Some (dependencies_of d)"
    using graph_of_lookup [OF assms] ops by blast+
  then show "(i, j) \<in> depends_on (graph_of ops)" using ops by (simp add: depends_on_def known_dependencies_def)
qed

section \<open>The invariant\<close>

definition pending_ok :: "control_operation list \<Rightarrow> bool" where
  "pending_ok ops \<longleftrightarrow>
     sized ops \<and> length ops \<le> MAX_PENDING_OPERATIONS \<and> operationBytes ops \<le> MAX_PENDING_BYTES \<and>
     (\<forall>key. length (authored_by key ops) \<le> MAX_PENDING_OPERATIONS_PER_AUTHOR \<and>
            operationBytes (authored_by key ops) \<le> MAX_PENDING_BYTES_PER_AUTHOR) \<and>
     acyclic (depends_on (graph_of ops))"

definition accepted_ok :: "control_operation list \<Rightarrow> bool" where
  "accepted_ok ops \<longleftrightarrow> sized ops \<and> length ops \<le> MAX_ACCEPTED_OPERATIONS \<and> operationBytes ops \<le> MAX_ACCEPTED_BYTES"

definition scope_ok :: "private_scope \<Rightarrow> bool" where
  "scope_ok s \<longleftrightarrow>
     pending_ok (ps_pending s) \<and> accepted_ok (ps_accepted s) \<and>
     co_id ` set (ps_pending s) \<inter> co_id ` set (ps_accepted s) = {}"

lemma pending_ok_subseq:
  assumes "pending_ok ys" and "subseq xs ys"
  shows "pending_ok xs"
proof -
  have ys: "sized ys" using assms(1) by (simp add: pending_ok_def)
  then have xs: "sized xs" using assms(2) by (rule sized_subseq)
  have nonneg: "\<forall>op \<in> set ys. 0 \<le> co_byteSize op" using ys by (simp add: sized_def)
  have "depends_on (graph_of xs) \<subseteq> depends_on (graph_of ys)"
    using xs ys subseq_member [OF assms(2)] by (force simp: sized_def depends_on_graph)
  then have "acyclic (depends_on (graph_of xs))" using assms(1) by (auto simp: pending_ok_def intro: acyclic_subset)
  moreover have "length (authored_by key xs) \<le> MAX_PENDING_OPERATIONS_PER_AUTHOR \<and>
      operationBytes (authored_by key xs) \<le> MAX_PENDING_BYTES_PER_AUTHOR" for key
  proof -
    note sub = authored_subseq [OF assms(2), of key]
    have "\<forall>op \<in> set (authored_by key ys). 0 \<le> co_byteSize op" using nonneg by (simp add: authored_by_def)
    then show ?thesis
      using list_emb_length [OF sub] bytes_subseq [OF sub] assms(1) unfolding pending_ok_def by (meson order_trans)
  qed
  moreover have "length xs \<le> MAX_PENDING_OPERATIONS \<and> operationBytes xs \<le> MAX_PENDING_BYTES"
    using list_emb_length [OF assms(2)] bytes_subseq [OF assms(2) nonneg] assms(1) unfolding pending_ok_def by linarith
  ultimately show ?thesis using xs by (simp add: pending_ok_def)
qed

lemma scope_ok_pending:
  assumes "scope_ok s" and "subseq p (ps_pending s)" and "ps_pending t = p" and "ps_accepted t = ps_accepted s"
  shows "scope_ok t"
  using assms pending_ok_subseq [of "ps_pending s" p] subseq_member [OF assms(2)] unfolding scope_ok_def by auto

section \<open>Assessing an operation\<close>

lemma enqueue_cases:
  assumes "enqueue op s = (r, t)"
  obtains "ps_pending t = ps_pending s" "ps_accepted t = ps_accepted s" "ps_checkpoint t = ps_checkpoint s"
      "ps_status t = ps_status s \<or> ps_status t = ScopeFrozen"
  | "t = s\<lparr>ps_pending := ps_pending s @ [op]\<rparr>" "distinct (map co_id (ps_pending s @ [op]))"
      "acyclic (depends_on (graph_of (ps_pending s @ [op])))"
      "length (ps_pending s) < MAX_PENDING_OPERATIONS" "operationBytes (ps_pending s) + co_byteSize op \<le> MAX_PENDING_BYTES"
      "length (authored_by (co_authorDeviceKey op) (ps_pending s)) < MAX_PENDING_OPERATIONS_PER_AUTHOR"
      "operationBytes (authored_by (co_authorDeviceKey op) (ps_pending s)) + co_byteSize op \<le> MAX_PENDING_BYTES_PER_AUTHOR"
proof (cases "find (\<lambda>p. co_id p = co_id op) (ps_pending s)")
  case (Some duplicate)
  then show ?thesis
    using assms that(1) by (auto simp: enqueue_def freeze_def quarantine_def split: if_splits)
next
  case None
  let ?m = "bindR (new_DependencyGraph (ps_pending s @ [op])) (\<lambda>g.
                bindR (assertAcyclic g) (\<lambda>_.
                bindR (assertDependencyRetentionCapacity (ps_accepted s) (dependencyIds (ps_pending s @ [op]))) (\<lambda>_.
                  ensure ((length (ps_pending s) < MAX_PENDING_OPERATIONS \<and>
                           operationBytes (ps_pending s) + co_byteSize op \<le> MAX_PENDING_BYTES) \<and>
                          (length (authored_by (co_authorDeviceKey op) (ps_pending s)) < MAX_PENDING_OPERATIONS_PER_AUTHOR \<and>
                           operationBytes (authored_by (co_authorDeviceKey op) (ps_pending s)) + co_byteSize op \<le> MAX_PENDING_BYTES_PER_AUTHOR))
                    PrivatePendingCapacityExceededError)))"
  have eq: "enqueue op s = (case ?m of Inl e \<Rightarrow> (Inl e, s) | Inr _ \<Rightarrow> (Inr (), s\<lparr>ps_pending := ps_pending s @ [op]\<rparr>))"
    by (simp only: enqueue_def None Let_def option.case)
  show ?thesis
  proof (cases ?m)
    case (Inl e)
    then show ?thesis using assms that(1) unfolding eq Inl by simp
  next
    case (Inr u)
    have "t = s\<lparr>ps_pending := ps_pending s @ [op]\<rparr>" using assms unfolding eq Inr by simp
    moreover have "distinct (map co_id (ps_pending s @ [op]))" "acyclic (depends_on (graph_of (ps_pending s @ [op])))"
      "length (ps_pending s) < MAX_PENDING_OPERATIONS \<and> operationBytes (ps_pending s) + co_byteSize op \<le> MAX_PENDING_BYTES"
      "length (authored_by (co_authorDeviceKey op) (ps_pending s)) < MAX_PENDING_OPERATIONS_PER_AUTHOR \<and>
       operationBytes (authored_by (co_authorDeviceKey op) (ps_pending s)) + co_byteSize op \<le> MAX_PENDING_BYTES_PER_AUTHOR"
      using Inr by (auto simp: new_DependencyGraph_iff assertAcyclic_iff)
    ultimately show ?thesis using that(2) by blast
  qed
qed

lemma enqueue_ok:
  assumes ok: "scope_ok s" and "enqueue op s = (r, t)" and "0 \<le> co_byteSize op" and "co_id op \<notin> co_id ` set (ps_accepted s)"
  shows "scope_ok t"
  using assms(2)
proof (cases rule: enqueue_cases)
  case 1
  then show ?thesis using ok by (simp add: scope_ok_def)
next
  case 2
  have p: "pending_ok (ps_pending s)" using ok by (simp add: scope_ok_def)
  have "authored_by key (ps_pending s @ [op]) = authored_by key (ps_pending s) @ (if co_authorDeviceKey op = key then [op] else [])" for key
    by (simp add: authored_by_def)
  then have "length (authored_by key (ps_pending s @ [op])) \<le> MAX_PENDING_OPERATIONS_PER_AUTHOR \<and>
      operationBytes (authored_by key (ps_pending s @ [op])) \<le> MAX_PENDING_BYTES_PER_AUTHOR" for key
    using p 2(6,7) by (auto simp: pending_ok_def)
  then have "pending_ok (ps_pending s @ [op])"
    using p 2(2-5) assms(3) by (auto simp: pending_ok_def sized_def)
  then show ?thesis using ok 2(1) assms(4) by (auto simp: scope_ok_def)
qed

text \<open>The scope after a method that may have changed what waits and whether it is frozen.\<close>

definition unmoved :: "private_scope \<Rightarrow> private_scope \<Rightarrow> bool" where
  "unmoved s t \<longleftrightarrow>
     scope_ok t \<and> ps_accepted t = ps_accepted s \<and> ps_checkpoint t = ps_checkpoint s \<and>
     (ps_status t = ps_status s \<or> ps_status t = ScopeFrozen)"

lemma unmoved_refl [simp]: "unmoved s s = scope_ok s"
  by (simp add: unmoved_def)

lemma unmoved_trans: "unmoved s t \<Longrightarrow> unmoved t u \<Longrightarrow> unmoved s u"
  by (auto simp: unmoved_def)

lemma unmoved_quarantine: "scope_ok s \<Longrightarrow> unmoved s (quarantine s)"
  by (simp add: unmoved_def quarantine_def scope_ok_def)

lemma unmoved_pending:
  "scope_ok s \<Longrightarrow> subseq p (ps_pending s) \<Longrightarrow> unmoved s (s\<lparr>ps_pending := p\<rparr>)"
  using scope_ok_pending [of s p "s\<lparr>ps_pending := p\<rparr>"] by (simp add: unmoved_def)

lemma unmoved_prune: "scope_ok s \<Longrightarrow> unmoved s (prunePending s)"
  by (simp add: prunePending_def unmoved_pending)

lemma duplicate_cases:
  assumes "duplicateResult L op s = (r, t)"
  obtains "r = Inr None" "t = s" "co_id op \<notin> co_id ` set (ps_accepted s)" "co_id op \<notin> co_id ` set (ps_pending s)"
  | "r = Inr (Some Duplicate)" "t = s" "co_id op \<in> co_id ` set (ps_accepted s)"
  | "r = Inr (Some Waiting)" "t = s" "co_id op \<notin> co_id ` set (ps_accepted s)"
  | e where "r = Inl e" "t = s \<or> t = quarantine s"
proof (cases "find (\<lambda>o'. co_id o' = co_id op) (ps_accepted s @ ps_pending s)")
  case None
  then have "co_id op \<notin> co_id ` set (ps_accepted s)" "co_id op \<notin> co_id ` set (ps_pending s)"
    by (auto simp: find_None_iff)
  then show ?thesis using assms that(1) None by (simp add: duplicateResult_def)
next
  case (Some existing)
  have accepted: "list_ex (\<lambda>o'. co_id o' = co_id op) (ps_accepted s) \<longleftrightarrow> co_id op \<in> co_id ` set (ps_accepted s)"
    unfolding list_ex_iff image_iff by metis
  show ?thesis
  proof (cases r)
    case (Inl e)
    then show ?thesis
      using assms that(4) Some by (auto simp: duplicateResult_def Let_def freeze_def split: if_splits sum.splits)
  next
    case (Inr d)
    then have "t = s" "d = Some (if co_id op \<in> co_id ` set (ps_accepted s) then Duplicate else Waiting)"
      using assms Some by (auto simp: duplicateResult_def Let_def freeze_def accepted split: if_splits sum.splits)
    then show ?thesis using Inr that(2,3) by (cases "co_id op \<in> co_id ` set (ps_accepted s)") auto
  qed
qed

lemma pending_removed:
  assumes "distinct (map co_id ps)"
  shows "co_id op \<notin> co_id ` set (splice1 (findIndex (\<lambda>p. co_id p = co_id op) ps) ps)"
proof (cases "co_id op \<in> co_id ` set ps")
  case True
  then obtain p where p: "p \<in> set ps" "co_id p = co_id op" by force
  then have "splice1 (findIndex (\<lambda>p. co_id p = co_id op) ps) ps = remove_first (\<lambda>p. co_id p = co_id op) ps"
    by (intro splice1_findIndex) auto
  moreover have "co_id op \<notin> co_id ` set (remove_first (\<lambda>p. co_id p = co_id op) ps)"
    using assms
  proof (induction ps)
    case (Cons q qs)
    then show ?case by (cases "co_id q = co_id op") simp_all
  qed simp
  ultimately show ?thesis by simp
next
  case False
  have "set (splice1 (findIndex (\<lambda>p. co_id p = co_id op) ps) ps) \<subseteq> set ps"
    using subseq_member [OF splice_subseq] by (rule subsetI)
  then show ?thesis using False by auto
qed

definition ready_for :: "control_operation \<Rightarrow> string \<Rightarrow> private_scope \<Rightarrow> bool" where
  "ready_for op kind t \<longleftrightarrow>
     ps_status t = ScopeActive \<and> assertOperation op kind t = Inr () \<and> \<not> isPending op t \<and>
     co_id op \<notin> co_id ` set (ps_accepted t) \<and> co_id op \<notin> co_id ` set (ps_pending t)"

lemma assertOperation_pending [simp]: "assertOperation op kind (s\<lparr>ps_pending := p\<rparr>) = assertOperation op kind s"
  by (simp add: assertOperation_def)

lemma isPending_pending [simp]: "isPending op (s\<lparr>ps_pending := p\<rparr>) = isPending op s"
  by (simp add: isPending_def)

lemma enqueue_unmoved:
  assumes "scope_ok s" and "enqueue op s = (r, t)" and "0 \<le> co_byteSize op" and "co_id op \<notin> co_id ` set (ps_accepted s)"
  shows "unmoved s t"
  using assms(2) enqueue_ok [OF assms] by (cases rule: enqueue_cases) (simp_all add: unmoved_def)

lemma queue_unmoved:
  assumes "scope_ok s" and "assertOperation op kind s = Inr ()" and "co_id op \<notin> co_id ` set (ps_accepted s)"
    and run: "(if isPending op s then thenS (enqueue op s) (\<lambda>_ s. (Inr Waiting, s)) else (Inr Ready, s)) = (r, t)"
  shows "unmoved s t \<and> (r = Inr Ready \<longrightarrow> t = s \<and> \<not> isPending op s)"
proof (cases "isPending op s")
  case True
  obtain e u where u: "enqueue op s = (e, u)" by force
  have "0 \<le> co_byteSize op" using assms(2) by (simp add: assertOperation_def Let_def)
  from enqueue_unmoved [OF assms(1) u this assms(3)] have "unmoved s u" .
  then show ?thesis using run True u by (cases e) auto
next
  case False
  then show ?thesis using run assms(1) by auto
qed

lemma assess_unmoved:
  assumes ok: "scope_ok s" and run: "assess L op kind s = (r, t)"
  shows "unmoved s t" and "r = Inr Ready \<Longrightarrow> ready_for op kind t"
proof -
  let ?w = "prunePending s"
  obtain d v where d: "duplicateResult L op s = (d, v)" by force
  have w: "unmoved s ?w" "scope_ok ?w" using unmoved_prune [OF ok] by (simp_all add: unmoved_def)
  have "unmoved s t \<and> (r = Inr Ready \<longrightarrow> ready_for op kind t)"
  proof (cases "d = Inr None \<or> d = Inr (Some Waiting)")
    case False
    from d show ?thesis
    proof (cases rule: duplicate_cases)
      case 2
      then have "r = Inr Duplicate" "t = s" using run d by (simp_all add: assess_def)
      then show ?thesis using ok by simp
    next
      case (4 e)
      then have "r = Inl e" "t = v" using run d by (simp_all add: assess_def)
      then show ?thesis using ok 4 unmoved_quarantine [OF ok] by auto
    qed (use False in simp_all)
  next
    case True
    then have v: "v = s" and new: "co_id op \<notin> co_id ` set (ps_accepted s)"
      and absent: "d = Inr None \<Longrightarrow> co_id op \<notin> co_id ` set (ps_pending s)"
      using duplicate_cases [OF d] by auto
    show ?thesis
    proof (cases "assertScopeActive s = Inr () \<and> assertOperation op kind ?w = Inr ()")
      case False
      then have "\<exists>e. (r, t) = (Inl e, s) \<or> (r, t) = (Inl e, ?w)"
        using run d v True
        by (cases "assertScopeActive s"; cases "assertOperation op kind ?w") (auto simp: assess_def Let_def)
      then show ?thesis using ok w by auto
    next
      case fine: True
      let ?u = "?w\<lparr>ps_pending := splice1 (findIndex (\<lambda>p. co_id p = co_id op) (ps_pending ?w)) (ps_pending ?w)\<rparr>"
      have active: "ps_status ?w = ScopeActive" using fine by (simp add: assertScopeActive_def prunePending_def)
      show ?thesis
      proof (cases "d = Inr None")
        case None: True
        have "(if isPending op ?w then thenS (enqueue op ?w) (\<lambda>_ s. (Inr Waiting, s)) else (Inr Ready, ?w)) = (r, t)"
          using run d v None fine by (simp add: assess_def Let_def)
        moreover have "assertOperation op kind ?w = Inr ()" "co_id op \<notin> co_id ` set (ps_accepted ?w)"
          using fine new by (simp_all add: prunePending_def)
        ultimately have "unmoved ?w t \<and> (r = Inr Ready \<longrightarrow> t = ?w \<and> \<not> isPending op ?w)"
          using queue_unmoved [OF w(2)] by blast
        moreover have "co_id op \<notin> co_id ` set (ps_pending ?w)" using absent [OF None] by (auto simp: prunePending_def)
        ultimately show ?thesis
          using unmoved_trans [OF w(1)] active fine new by (auto simp: ready_for_def prunePending_def)
      next
        case False
        then have waiting: "d = Inr (Some Waiting)" using True by simp
        show ?thesis
        proof (cases "isPending op ?w")
          case True
          then have "(r, t) = (Inr Waiting, ?w)" using run d v waiting fine by (simp add: assess_def Let_def)
          then show ?thesis using w by simp
        next
          case False
          have "distinct (map co_id (ps_pending ?w))" using w(2) by (simp add: scope_ok_def pending_ok_def sized_def)
          from pending_removed [OF this] have gone: "co_id op \<notin> co_id ` set (ps_pending ?u)" by simp
          have u: "unmoved ?w ?u" using unmoved_pending [OF w(2) splice_subseq] .
          have "(r, t) = (Inr Ready, ?u)" using run d v waiting fine False by (simp add: assess_def Let_def)
          then show ?thesis
            using unmoved_trans [OF w(1) u] active fine new gone False by (simp add: ready_for_def prunePending_def)
        qed
      qed
    qed
  qed
  then show "unmoved s t" and "r = Inr Ready \<Longrightarrow> ready_for op kind t" by blast+
qed

section \<open>Accepting an operation\<close>

text \<open>The operations that still wait under a checkpoint.\<close>

abbreviation live_pending :: "private_scope \<Rightarrow> private_checkpoint \<Rightarrow> control_operation list" where
  "live_pending s c \<equiv> filter (\<lambda>op. \<not> isPermanentlyInvalidPending op c) (ps_pending s)"

text \<open>What an acceptance makes of a scope in which an operation is ready.\<close>

definition accepted_to :: "control_operation \<Rightarrow> string \<Rightarrow> private_checkpoint \<Rightarrow> private_scope \<Rightarrow> private_scope \<Rightarrow> bool" where
  "accepted_to op kind c w t \<longleftrightarrow>
     ready_for op kind w \<and> scope_ok t \<and> ps_status t = ps_status w \<and> ps_checkpoint t = c \<and>
     subseq (ps_accepted t) (ps_accepted w @ [op]) \<and>
     (\<forall>a \<in> set (ps_accepted w @ [op]).
        co_authorizationRevision a = pc_revision c \<or> co_id a \<in> set (dependencyIds (live_pending t c)) \<longrightarrow> a \<in> set (ps_accepted t))"

lemma acceptNow_ready:
  assumes "co_id op \<notin> co_id ` set (ps_pending w)"
  shows "acceptNow op w = w\<lparr>ps_accepted := ps_accepted w @ [op],
    ps_events := ps_events w @ [ControlOperationWasAccepted (pc_scopeId (ps_checkpoint w))]\<rparr>"
proof -
  have "\<forall>p \<in> set (ps_pending w). co_id p \<noteq> co_id op" using assms by (metis image_eqI)
  then have none: "findIndex (\<lambda>p. co_id p = co_id op) (ps_pending w) = -1" by (simp only: findIndex_eq_minus1)
  show ?thesis unfolding acceptNow_def Let_def none by simp
qed

lemma capacity_retained:
  assumes "assertAcceptedCapacity op c w = Inr ()" and "co_id op \<notin> co_id ` set (ps_pending w)"
  obtains r where "retainedAccepted (ps_accepted w @ [op]) (live_pending w c) c = Inr r"
proof -
  have "filter (\<lambda>p. co_id p \<noteq> co_id op \<and> \<not> isPermanentlyInvalidPending p c) (ps_pending w) = live_pending w c"
    by (rule filter_cong) (use assms(2) in \<open>auto simp: image_iff\<close>)
  then have "\<exists>r. retainedAccepted (ps_accepted w @ [op]) (live_pending w c) c = Inr r"
    using assms(1) by (auto simp: assertAcceptedCapacity_def Let_def)
  then show ?thesis using that by blast
qed

lemma disjoint_grown: "B \<inter> A = {} \<Longrightarrow> P \<subseteq> B \<Longrightarrow> R \<subseteq> insert x A \<Longrightarrow> x \<notin> B \<Longrightarrow> P \<inter> R = {}"
  by blast

text \<open>Once the capacity was checked the compaction does not fail.\<close>

lemma compacted:
  assumes ok: "scope_ok w" and ready: "ready_for op kind w" and c: "assertAcceptedCapacity op c w = Inr ()"
    and u: "ps_accepted u = ps_accepted w @ [op]" "ps_checkpoint u = c" "ps_status u = ps_status w"
      "live_pending u c = live_pending w c" "subseq (ps_pending u) (ps_pending w)"
  obtains t where "compactAccepted u = (Inr (), t)" and "accepted_to op kind c w t"
proof -
  have new: "co_id op \<notin> co_id ` set (ps_accepted w)" "co_id op \<notin> co_id ` set (ps_pending w)" and size: "0 \<le> co_byteSize op"
    using ready by (auto simp: ready_for_def assertOperation_def Let_def)
  obtain r where r: "retainedAccepted (ps_accepted w @ [op]) (live_pending w c) c = Inr r"
    by (rule capacity_retained [OF c new(2)])
  let ?t = "u\<lparr>ps_accepted := r\<rparr>"
  have "sized (ps_accepted w @ [op])" using ok new(1) size by (auto simp: scope_ok_def accepted_ok_def sized_def)
  note bounds = retained_bounds [OF this r]
  have "accepted_ok r"
    using sized_subseq [OF \<open>sized (ps_accepted w @ [op])\<close> bounds(1)] bounds(2,3) by (simp add: accepted_ok_def)
  moreover have "co_id ` set (ps_pending u) \<inter> co_id ` set r = {}"
  proof -
    have "set r \<subseteq> set (ps_accepted w @ [op])" using subseq_member [OF bounds(1)] by (rule subsetI)
    from image_mono [OF this, of co_id] have r': "co_id ` set r \<subseteq> insert (co_id op) (co_id ` set (ps_accepted w))" by simp
    have "set (ps_pending u) \<subseteq> set (ps_pending w)" using subseq_member [OF u(5)] by (rule subsetI)
    note p' = image_mono [OF this, of co_id]
    have "co_id ` set (ps_pending w) \<inter> co_id ` set (ps_accepted w) = {}" using ok by (simp add: scope_ok_def)
    from disjoint_grown [OF this p' r' new(2)] show ?thesis .
  qed
  moreover have "pending_ok (ps_pending u)" using ok u(5) pending_ok_subseq by (auto simp: scope_ok_def)
  ultimately have "scope_ok ?t" by (simp add: scope_ok_def)
  moreover have "compactAccepted u = (Inr (), ?t)" by (simp add: compactAccepted_def u r)
  moreover have "a \<in> set r" if "a \<in> set (ps_accepted w @ [op])"
    "co_authorizationRevision a = pc_revision c \<or> co_id a \<in> set (dependencyIds (live_pending ?t c))" for a
    using bounds(4) that u(4) by simp
  ultimately show ?thesis using that ready u bounds(1) by (simp add: accepted_to_def)
qed

lemma proposal_cases:
  assumes ok: "scope_ok s" and run: "acceptProposal L op s = (r, t)"
  obtains "r \<noteq> Inr Accepted" "unmoved s t"
  | w where "r = Inr Accepted" "unmoved s w" "accepted_to op ''membership.propose'' (ps_checkpoint w) w t"
proof -
  obtain a w where a: "assess L op ''membership.propose'' s = (a, w)" by force
  note facts = assess_unmoved [OF ok a]
  have w: "scope_ok w" using facts(1) by (simp add: unmoved_def)
  show ?thesis
  proof (cases "a = Inr Ready")
    case False
    then have "r \<noteq> Inr Accepted \<and> t = w"
      using run a by (cases a) (auto simp: acceptProposal_def unready_def split: if_splits)
    then show ?thesis using that(1) facts(1) by simp
  next
    case True
    note ready = facts(2) [OF True]
    show ?thesis
    proof (cases "assertAcceptedCapacity op (ps_checkpoint w) w")
      case (Inl e)
      then have "r = Inl e \<and> t = w" using run a True by (simp add: acceptProposal_def)
      then show ?thesis using that(1) facts(1) by simp
    next
      case (Inr u)
      have new: "co_id op \<notin> co_id ` set (ps_pending w)" using ready by (simp add: ready_for_def)
      obtain v where v: "compactAccepted (acceptNow op w) = (Inr (), v)" "accepted_to op ''membership.propose'' (ps_checkpoint w) w v"
        by (rule compacted [OF w ready, of "ps_checkpoint w" "acceptNow op w"]) (use Inr in \<open>simp_all add: acceptNow_ready [OF new]\<close>)
      then have "r = Inr Accepted \<and> t = v" using run a True Inr by (simp add: acceptProposal_def)
      then show ?thesis using that(2) facts(1) v(2) by blast
    qed
  qed
qed

lemma advance_done:
  assumes w: "scope_ok w" and ready: "ready_for op kind w" and "assertSuccessor c w = Inr ()" "assertAcceptedCapacity op c w = Inr ()"
  obtains t where "advance_to op c w = (Inr Accepted, t)" and "accepted_to op kind c w t"
proof -
  have new: "co_id op \<notin> co_id ` set (ps_pending w)" using ready by (simp add: ready_for_def)
  let ?u = "prunePending ((acceptNow op w)\<lparr>ps_checkpoint := c\<rparr>)"
  obtain v where v: "compactAccepted ?u = (Inr (), v)" "accepted_to op kind c w v"
    by (rule compacted [OF w ready, of c ?u]) (use assms in \<open>simp_all add: acceptNow_ready [OF new] prunePending_def\<close>)
  then have "advance_to op c w = (Inr Accepted, v)" using assms by (simp add: advance_to_def)
  then show ?thesis using that v(2) by blast
qed

lemma advance_cases:
  assumes w: "scope_ok w" and ready: "ready_for op kind w" and run: "advance_to op c w = (r, t)"
  obtains "r \<noteq> Inr Accepted" "t = w"
  | "r = Inr Accepted" "assertSuccessor c w = Inr ()" "accepted_to op kind c w t"
proof (cases "assertSuccessor c w = Inr () \<and> assertAcceptedCapacity op c w = Inr ()")
  case False
  then have "r \<noteq> Inr Accepted \<and> t = w"
    using run by (cases "assertSuccessor c w"; cases "assertAcceptedCapacity op c w") (auto simp: advance_to_def)
  then show ?thesis using that(1) by blast
next
  case True
  then obtain v where "advance_to op c w = (Inr Accepted, v)" "accepted_to op kind c w v"
    using advance_done [OF w ready] by blast
  then show ?thesis using that(2) True run by simp
qed

lemma commit_cases:
  assumes ok: "scope_ok s" and run: "commitTransition L op c s = (r, t)"
  obtains "r \<noteq> Inr Accepted" "unmoved s t"
  | w where "r = Inr Accepted" "unmoved s w" "commits_proposal op w" "assertSuccessor c w = Inr ()"
      "accepted_to op ''membership.commit'' c w t"
proof -
  obtain a w where a: "assess L op ''membership.commit'' s = (a, w)" by force
  note facts = assess_unmoved [OF ok a]
  have w: "scope_ok w" using facts(1) by (simp add: unmoved_def)
  show ?thesis
  proof (cases "a = Inr Ready \<and> commits_proposal op w")
    case False
    then have "r \<noteq> Inr Accepted \<and> t = w"
      using run a by (cases a) (auto simp: commitTransition_def unready_def split: if_splits)
    then show ?thesis using that(1) facts(1) by simp
  next
    case True
    then have "advance_to op c w = (r, t)" using run a by (simp add: commitTransition_def)
    with w facts(2) show ?thesis
      by (rule advance_cases) (use True that facts(1) in auto)
  qed
qed

lemma revoke_cases:
  assumes ok: "scope_ok s" and run: "revokeDevice L op c s = (r, t)"
  obtains "r \<noteq> Inr Accepted" "unmoved s t"
  | w where "r = Inr Accepted" "unmoved s w" "revokes op c w" "assertSuccessor c w = Inr ()"
      "accepted_to op ''device.revoke'' c w t"
proof -
  obtain a w where a: "assess L op ''device.revoke'' s = (a, w)" by force
  note facts = assess_unmoved [OF ok a]
  have w: "scope_ok w" using facts(1) by (simp add: unmoved_def)
  show ?thesis
  proof (cases "a = Inr Ready \<and> revokes op c w")
    case False
    then have "r \<noteq> Inr Accepted \<and> t = w"
      using run a by (cases a) (auto simp: revokeDevice_def unready_def split: if_splits)
    then show ?thesis using that(1) facts(1) by simp
  next
    case True
    then have "advance_to op c w = (r, t)" using run a by (simp add: revokeDevice_def)
    with w facts(2) show ?thesis
      by (rule advance_cases) (use True that facts(1) in auto)
  qed
qed

end
