(* ===== verification/PrivateFreshness.thy ===== *)
theory PrivateFreshness
  imports PrivateCheckpoint JsonText
begin

text \<open>
  The challenges by which a node makes sure that who sends an operation knows the present checkpoint
  (\<open>InMemoryPrivateFreshnessGate.ts\<close>): what it issues, how it judges the proof that answers it, and
  that each challenge is answered at most once, in time, and that their number is bounded. The
  verification of a proof by the crypto package, the clock and the nonces are arguments; times are
  integers.
\<close>

section \<open>The gate\<close>

definition MAX_AGE_MILLISECONDS :: int where "MAX_AGE_MILLISECONDS = 10000"
definition MAX_CHALLENGES_PER_PRINCIPAL :: nat where "MAX_CHALLENGES_PER_PRINCIPAL = 64"
definition MAX_CHALLENGES_PER_SCOPE :: nat where "MAX_CHALLENGES_PER_SCOPE = 1024"

record challenge =
  ch_expectedHeadHash :: string
  ch_expectedRevision :: int
  ch_issuedAt :: int
  ch_nonce :: string
  ch_requestJson :: string

type_synonym principal_challenges = "(string, challenge) jsmap"
type_synonym scope_challenges = "(string, principal_challenges) jsmap"
type_synonym challenge_gate = "(string, scope_challenges) jsmap"

definition challenge_isExpired :: "int \<Rightarrow> challenge \<Rightarrow> bool" where
  "challenge_isExpired now ch \<longleftrightarrow> now - ch_issuedAt ch > MAX_AGE_MILLISECONDS"

definition removeExpiredChallenges :: "int \<Rightarrow> principal_challenges \<Rightarrow> principal_challenges" where
  "removeExpiredChallenges now cs = filter (\<lambda>e. \<not> challenge_isExpired now (snd e)) cs"

text \<open>Every entry of a map changed, those that became empty removed.\<close>

definition pruned :: "('a list \<Rightarrow> 'b list) \<Rightarrow> (string, 'a list) jsmap \<Rightarrow> (string, 'b list) jsmap" where
  "pruned f m = filter (\<lambda>e. snd e \<noteq> []) (map (\<lambda>e. (fst e, f (snd e))) m)"

definition removeExpired :: "int \<Rightarrow> challenge_gate \<Rightarrow> challenge_gate" where
  "removeExpired now G = pruned (pruned (removeExpiredChallenges now)) G"

definition scopeSize :: "scope_challenges \<Rightarrow> nat" where
  "scopeSize sc = sum_list (map (\<lambda>e. length (snd e)) sc)"

definition matchesCheckpoint :: "challenge \<Rightarrow> private_checkpoint \<Rightarrow> bool" where
  "matchesCheckpoint ch c \<longleftrightarrow> ch_expectedHeadHash ch = pc_headHash c \<and> ch_expectedRevision ch = pc_revision c"

definition assertAdmitted :: "private_checkpoint \<Rightarrow> control_operation \<Rightarrow> private_error + unit" where
  "assertAdmitted c op =
     ensure (co_scopeId op = pc_scopeId c \<and> co_authorDeviceKey op \<in> set (pc_admittedDeviceKeys c) \<and>
       co_authorDeviceKey op \<notin> set (pc_revokedDeviceKeys c)) InvalidPrivate"

definition entries_of :: "(string, 'a list) jsmap \<Rightarrow> string \<Rightarrow> 'a list" where
  "entries_of m k = (case map_of m k of None \<Rightarrow> [] | Some v \<Rightarrow> v)"

definition findChallenge :: "string \<Rightarrow> string \<Rightarrow> string \<Rightarrow> challenge_gate \<Rightarrow> challenge option" where
  "findChallenge scopeId author digest G = map_of (entries_of (entries_of G scopeId) author) digest"

text \<open>A store that became empty is removed from the one above.\<close>

definition put_or_remove :: "string \<Rightarrow> 'a list \<Rightarrow> (string, 'a list) jsmap \<Rightarrow> (string, 'a list) jsmap" where
  "put_or_remove k v m = (if v = [] then AList.delete k m else AList.update k v m)"

definition takeChallenge :: "string \<Rightarrow> string \<Rightarrow> string \<Rightarrow> challenge_gate \<Rightarrow> challenge option \<times> challenge_gate" where
  "takeChallenge scopeId author digest G =
     (findChallenge scopeId author digest G,
      case map_of G scopeId of
        None \<Rightarrow> G
      | Some sc \<Rightarrow> put_or_remove scopeId
          (case map_of sc author of
             None \<Rightarrow> sc
           | Some cs \<Rightarrow> put_or_remove author (AList.delete digest cs) sc) G)"

definition assertChallenge :: "challenge option \<Rightarrow> int \<Rightarrow> private_checkpoint \<Rightarrow> private_error + challenge" where
  "assertChallenge challenge now c =
     (case challenge of
        None \<Rightarrow> Inl InvalidPrivate
      | Some ch \<Rightarrow> bindR (ensure (\<not> challenge_isExpired now ch \<and> matchesCheckpoint ch c) InvalidPrivate) (\<lambda>_. Inr ch))"

text \<open>\<open>verifies proof signerKey request\<close>: what the verifier of proofs answers.\<close>

definition verifyNow :: "(string \<Rightarrow> string \<Rightarrow> string \<Rightarrow> bool) \<Rightarrow> int \<Rightarrow> private_checkpoint \<Rightarrow> control_operation \<Rightarrow> string
    \<Rightarrow> challenge_gate \<Rightarrow> (private_error + string) \<times> challenge_gate" where
  "verifyNow verifies now c op signedProofJson G =
     (case bindR (assertChallenge (findChallenge (pc_scopeId c) (co_authorDeviceKey op) (co_digest op) G) now c) (\<lambda>ch.
           bindR (assertAdmitted c op) (\<lambda>_.
           bindR (ensure (verifies signedProofJson (pc_freshnessAuthorityKey c) (ch_requestJson ch)) InvalidPrivate) (\<lambda>_.
             Inr ch))) of
        Inl e \<Rightarrow> (Inl e, G)
      | Inr ch \<Rightarrow>
          let (consumed, G') = takeChallenge (pc_scopeId c) (co_authorDeviceKey op) (co_digest op) G in
          (if consumed \<noteq> Some ch then Inl InvalidPrivate else Inr (ch_nonce ch), G'))"

definition assertCapacity :: "scope_challenges \<Rightarrow> principal_challenges \<Rightarrow> private_error + unit" where
  "assertCapacity sc cs =
     ensure (\<not> (length cs \<ge> MAX_CHALLENGES_PER_PRINCIPAL \<or> scopeSize sc \<ge> MAX_CHALLENGES_PER_SCOPE)) InvalidPrivate"

definition freshness_request :: "private_checkpoint \<Rightarrow> control_operation \<Rightarrow> string \<Rightarrow> string" where
  "freshness_request c op nonce =
     json_text (JObject [(''batchCommitment'', JString (co_digest op)), (''expectedHeadHash'', JString (pc_headHash c)),
       (''expectedRevision'', JInt (pc_revision c)), (''nonce'', JString nonce), (''scopeId'', JString (pc_scopeId c)),
       (''version'', JInt 1)])"

text \<open>Storing a new challenge, within the capacity.\<close>

definition issueNew :: "int \<Rightarrow> string \<Rightarrow> private_checkpoint \<Rightarrow> control_operation \<Rightarrow> challenge_gate
    \<Rightarrow> (private_error + string) \<times> challenge_gate" where
  "issueNew now nonce c op G =
     (let s = pc_scopeId c; a = co_authorDeviceKey op; sc = entries_of G s; cs = entries_of sc a;
          requestJson = freshness_request c op nonce in
      case assertCapacity sc cs of
        Inl e \<Rightarrow> (Inl e, G)
      | Inr _ \<Rightarrow>
          (Inr requestJson,
           AList.update s (AList.update a (AList.update (co_digest op)
             \<lparr>ch_expectedHeadHash = pc_headHash c, ch_expectedRevision = pc_revision c, ch_issuedAt = now,
              ch_nonce = nonce, ch_requestJson = requestJson\<rparr> cs) sc) G))"

text \<open>
  Issuing a challenge at a time, with the nonce that is drawn when a new one is needed. A challenge
  that was issued for another checkpoint is deleted before the capacity is checked.
\<close>

definition issue :: "int \<Rightarrow> string \<Rightarrow> private_checkpoint \<Rightarrow> control_operation \<Rightarrow> challenge_gate
    \<Rightarrow> (private_error + string) \<times> challenge_gate" where
  "issue now nonce c op G =
     (case assertAdmitted c op of
        Inl e \<Rightarrow> (Inl e, G)
      | Inr _ \<Rightarrow>
          let G = removeExpired now G; s = pc_scopeId c; a = co_authorDeviceKey op; d = co_digest op;
              existing = findChallenge s a d G in
          (case existing of
             Some ch \<Rightarrow> if matchesCheckpoint ch c then (Inr (ch_requestJson ch), G)
                        else issueNew now nonce c op
                          (AList.update s (AList.update a (AList.delete d (entries_of (entries_of G s) a)) (entries_of G s)) G)
           | None \<Rightarrow> issueNew now nonce c op G))"

section \<open>The stores as functions\<close>

lemma map_of_pruned:
  assumes "distinct (map fst m)"
  shows "map_of (pruned f m) k = (case map_of m k of None \<Rightarrow> None | Some v \<Rightarrow> if f v = [] then None else Some (f v))"
  using assms
proof (induction m)
  case (Cons e m)
  have "fst ` set (pruned f m) \<subseteq> fst ` set m" by (force simp: pruned_def)
  then have "map_of (pruned f m) (fst e) = None" using Cons.prems by (auto simp: map_of_eq_None_iff)
  then show ?case using Cons by (cases "k = fst e") (auto simp: pruned_def)
qed (simp add: pruned_def)

lemma keys_pruned: "distinct (map fst m) \<Longrightarrow> distinct (map fst (pruned f m))"
  unfolding pruned_def by (induction m) (auto simp: image_iff)

lemma entries_pruned: "distinct (map fst m) \<Longrightarrow> f [] = [] \<Longrightarrow> entries_of (pruned f m) k = f (entries_of m k)"
  by (simp add: entries_of_def map_of_pruned split: option.splits)

lemma entries_update: "entries_of (AList.update k v m) k' = (if k' = k then v else entries_of m k')"
  by (simp add: entries_of_def update_conv')

lemma entries_put: "entries_of (put_or_remove k v m) k' = (if k' = k then v else entries_of m k')"
  by (simp add: put_or_remove_def entries_of_def update_conv' delete_conv')

lemma keys_put: "distinct (map fst m) \<Longrightarrow> distinct (map fst (put_or_remove k v m))"
  by (simp add: put_or_remove_def AList.distinct_update AList.distinct_delete)

lemma map_of_filter_value:
  assumes "distinct (map fst m)"
  shows "map_of (filter (\<lambda>e. P (snd e)) m) k = (case map_of m k of None \<Rightarrow> None | Some v \<Rightarrow> if P v then Some v else None)"
  using assms
proof (induction m)
  case (Cons e m)
  have "map_of (filter (\<lambda>e. P (snd e)) m) (fst e) = None"
    using Cons.prems by (force simp: map_of_eq_None_iff)
  then show ?case using Cons by (cases "k = fst e") auto
qed simp

lemma length_update_le: "length (AList.update k v m) \<le> Suc (length m)"
  by (induction m) auto

section \<open>How many challenges there are\<close>

definition scope_good :: "scope_challenges \<Rightarrow> bool" where
  "scope_good sc \<longleftrightarrow>
     distinct (map fst sc) \<and> scopeSize sc \<le> MAX_CHALLENGES_PER_SCOPE \<and>
     (\<forall>a. distinct (map fst (entries_of sc a)) \<and> length (entries_of sc a) \<le> MAX_CHALLENGES_PER_PRINCIPAL)"

definition gate_good :: "challenge_gate \<Rightarrow> bool" where
  "gate_good G \<longleftrightarrow> distinct (map fst G) \<and> (\<forall>s. scope_good (entries_of G s))"

lemma scope_good_Nil [simp]: "scope_good []"
  by (simp add: scope_good_def scopeSize_def entries_of_def)

lemma scopeSize_update:
  "scopeSize (AList.update a cs sc) + length (entries_of sc a) = scopeSize sc + length cs"
proof (induction sc)
  case (Cons e sc)
  then show ?case by (cases e) (auto simp: scopeSize_def entries_of_def)
qed (simp add: scopeSize_def entries_of_def)

lemma scopeSize_delete: "scopeSize (AList.delete a sc) \<le> scopeSize sc"
  by (induction sc) (auto simp: scopeSize_def)

lemma scopeSize_pruned: "(\<And>cs. length (f cs) \<le> length cs) \<Longrightarrow> scopeSize (pruned f sc) \<le> scopeSize sc"
  by (induction sc) (auto simp: scopeSize_def pruned_def add_mono intro: le_trans add_increasing)

lemma removeExpiredChallenges_Nil: "removeExpiredChallenges now [] = []"
  by (simp add: removeExpiredChallenges_def)

lemma scope_good_expired:
  assumes "scope_good sc"
  shows "scope_good (pruned (removeExpiredChallenges now) sc)"
proof -
  have "distinct (map fst sc)" using assms by (simp add: scope_good_def)
  note e = entries_pruned [OF this, of "removeExpiredChallenges now"]
  have "distinct (map fst (removeExpiredChallenges now cs))" if "distinct (map fst cs)" for cs
    using that by (simp add: removeExpiredChallenges_def distinct_map_filter)
  moreover have "length (removeExpiredChallenges now cs) \<le> length cs" for cs by (simp add: removeExpiredChallenges_def)
  ultimately show ?thesis
    using assms scopeSize_pruned [of "removeExpiredChallenges now" sc] keys_pruned [of sc "removeExpiredChallenges now"]
    unfolding scope_good_def e [OF removeExpiredChallenges_Nil] by (meson order_trans)
qed

lemma gate_good_expired:
  assumes "gate_good G"
  shows "gate_good (removeExpired now G)"
proof -
  have keys: "distinct (map fst G)" using assms by (simp add: gate_good_def)
  then have "entries_of (removeExpired now G) s = pruned (removeExpiredChallenges now) (entries_of G s)" for s
    unfolding removeExpired_def by (rule entries_pruned) (simp add: pruned_def)
  then show ?thesis
    using assms keys_pruned [OF keys] scope_good_expired by (simp add: gate_good_def removeExpired_def)
qed

lemma gate_good_update: "gate_good G \<Longrightarrow> scope_good sc \<Longrightarrow> gate_good (AList.update s sc G)"
  by (simp add: gate_good_def entries_update AList.distinct_update)

lemma gate_good_put: "gate_good G \<Longrightarrow> scope_good sc \<Longrightarrow> gate_good (put_or_remove s sc G)"
  by (simp add: gate_good_def entries_put keys_put)

lemma scope_good_update:
  assumes "scope_good sc" and "distinct (map fst cs)" and "length cs \<le> MAX_CHALLENGES_PER_PRINCIPAL"
    and "scopeSize sc + length cs \<le> MAX_CHALLENGES_PER_SCOPE + length (entries_of sc a)"
  shows "scope_good (AList.update a cs sc)"
  using assms scopeSize_update [of a cs sc] by (simp add: scope_good_def entries_update AList.distinct_update)

section \<open>What issuing and verifying change\<close>

lemma find_expired:
  assumes "gate_good G"
  shows "findChallenge s a d (removeExpired now G) =
    (case findChallenge s a d G of None \<Rightarrow> None | Some ch \<Rightarrow> if challenge_isExpired now ch then None else Some ch)"
proof -
  have keys: "distinct (map fst G)" and sc: "scope_good (entries_of G s)" using assms by (simp_all add: gate_good_def)
  have "entries_of (removeExpired now G) s = pruned (removeExpiredChallenges now) (entries_of G s)"
    unfolding removeExpired_def using keys by (rule entries_pruned) (simp add: pruned_def)
  moreover have "entries_of (pruned (removeExpiredChallenges now) (entries_of G s)) a =
      removeExpiredChallenges now (entries_of (entries_of G s) a)"
    using sc by (intro entries_pruned) (simp_all add: scope_good_def removeExpiredChallenges_Nil)
  ultimately show ?thesis
    using sc map_of_filter_value [of "entries_of (entries_of G s) a" "\<lambda>ch. \<not> challenge_isExpired now ch" d]
    by (simp add: findChallenge_def removeExpiredChallenges_def scope_good_def split: option.splits)
qed

lemma find_update:
  "findChallenge s' a' d' (AList.update s (AList.update a cs (entries_of G s)) G) =
     (if s' = s \<and> a' = a then map_of cs d' else findChallenge s' a' d' G)"
  by (simp add: findChallenge_def entries_update)

lemma issueNew_facts:
  assumes good: "gate_good G" and run: "issueNew now nonce c op G = (r, G')"
  shows "gate_good G'"
    and "findChallenge s a d G' = Some ch \<Longrightarrow> findChallenge s a d G = Some ch \<or>
      r = Inr (ch_requestJson ch) \<and> s = pc_scopeId c \<and> a = co_authorDeviceKey op \<and> d = co_digest op \<and>
      ch = \<lparr>ch_expectedHeadHash = pc_headHash c, ch_expectedRevision = pc_revision c, ch_issuedAt = now,
              ch_nonce = nonce, ch_requestJson = freshness_request c op nonce\<rparr>"
proof -
  let ?sc = "entries_of G (pc_scopeId c)" and ?a = "co_authorDeviceKey op"
  let ?ch = "\<lparr>ch_expectedHeadHash = pc_headHash c, ch_expectedRevision = pc_revision c, ch_issuedAt = now,
              ch_nonce = nonce, ch_requestJson = freshness_request c op nonce\<rparr>"
  let ?cs = "AList.update (co_digest op) ?ch (entries_of ?sc ?a)"
  have sc: "scope_good ?sc" using good by (simp add: gate_good_def)
  have "gate_good G' \<and> (findChallenge s a d G' = Some ch \<longrightarrow> findChallenge s a d G = Some ch \<or>
      r = Inr (ch_requestJson ch) \<and> s = pc_scopeId c \<and> a = ?a \<and> d = co_digest op \<and> ch = ?ch)"
  proof (cases "assertCapacity ?sc (entries_of ?sc ?a)")
    case (Inl e)
    then show ?thesis using run good by (auto simp: issueNew_def Let_def)
  next
    case (Inr u)
    then have G': "G' = AList.update (pc_scopeId c) (AList.update ?a ?cs ?sc) G" and r: "r = Inr (freshness_request c op nonce)"
      and room: "length (entries_of ?sc ?a) < MAX_CHALLENGES_PER_PRINCIPAL" "scopeSize ?sc < MAX_CHALLENGES_PER_SCOPE"
      using run by (auto simp: issueNew_def Let_def assertCapacity_def)
    have "length ?cs \<le> Suc (length (entries_of ?sc ?a))" by (rule length_update_le)
    moreover have "distinct (map fst ?cs)" using sc by (simp add: scope_good_def AList.distinct_update)
    ultimately have "scope_good (AList.update ?a ?cs ?sc)"
      using sc room by (intro scope_good_update) linarith+
    then have "gate_good G'" unfolding G' using good by (intro gate_good_update)
    moreover have "findChallenge s a d G' = Some ch \<longrightarrow> findChallenge s a d G = Some ch \<or>
        (s = pc_scopeId c \<and> a = ?a \<and> d = co_digest op \<and> ch = ?ch)"
      unfolding G' find_update by (auto simp: update_conv' findChallenge_def split: if_splits)
    ultimately show ?thesis using r by auto
  qed
  then show "gate_good G'" and "findChallenge s a d G' = Some ch \<Longrightarrow> findChallenge s a d G = Some ch \<or>
      r = Inr (ch_requestJson ch) \<and> s = pc_scopeId c \<and> a = co_authorDeviceKey op \<and> d = co_digest op \<and> ch = ?ch" by blast+
qed

lemma issue_facts:
  assumes good: "gate_good G" and run: "issue now nonce c op G = (r, G')"
  shows "gate_good G'"
    and "findChallenge s a d G' = Some ch \<Longrightarrow> findChallenge s a d G = Some ch \<or>
      r = Inr (ch_requestJson ch) \<and> s = pc_scopeId c \<and> a = co_authorDeviceKey op \<and> d = co_digest op \<and>
      ch = \<lparr>ch_expectedHeadHash = pc_headHash c, ch_expectedRevision = pc_revision c, ch_issuedAt = now,
              ch_nonce = nonce, ch_requestJson = freshness_request c op nonce\<rparr>"
proof -
  let ?G = "removeExpired now G" and ?s = "pc_scopeId c" and ?a = "co_authorDeviceKey op" and ?d = "co_digest op"
  let ?cs = "AList.delete ?d (entries_of (entries_of ?G ?s) ?a)"
  let ?G2 = "AList.update ?s (AList.update ?a ?cs (entries_of ?G ?s)) ?G"
  let ?new = "\<lambda>ch. r = Inr (ch_requestJson ch) \<and> s = pc_scopeId c \<and> a = co_authorDeviceKey op \<and> d = co_digest op \<and>
      ch = \<lparr>ch_expectedHeadHash = pc_headHash c, ch_expectedRevision = pc_revision c, ch_issuedAt = now,
              ch_nonce = nonce, ch_requestJson = freshness_request c op nonce\<rparr>"
  have g: "gate_good ?G" using good by (rule gate_good_expired)
  have kept: "findChallenge s a d ?G = Some ch \<Longrightarrow> findChallenge s a d G = Some ch" for s a d ch
    using find_expired [OF good, of s a d now] by (auto split: option.splits if_splits)
  have g2: "gate_good ?G2"
  proof -
    have sc: "scope_good (entries_of ?G ?s)" using g by (simp add: gate_good_def)
    have "distinct (map fst ?cs)" using sc by (simp add: scope_good_def AList.distinct_delete)
    moreover have "length ?cs \<le> length (entries_of (entries_of ?G ?s) ?a)" by (rule length_delete_le)
    ultimately have "scope_good (AList.update ?a ?cs (entries_of ?G ?s))"
      using sc by (intro scope_good_update) (auto simp: scope_good_def intro: le_trans add_mono)
    then show ?thesis using g by (rule gate_good_update [rotated])
  qed
  have kept2: "findChallenge s a d ?G2 = Some ch \<Longrightarrow> findChallenge s a d ?G = Some ch" for s a d ch
    unfolding find_update by (auto simp: delete_conv' findChallenge_def split: if_splits)
  consider "G' = G" | "G' = ?G" | "issueNew now nonce c op ?G = (r, G')" | "issueNew now nonce c op ?G2 = (r, G')"
    using run by (auto simp: issue_def Let_def split: sum.splits option.splits if_splits)
  then have "gate_good G' \<and> (findChallenge s a d G' = Some ch \<longrightarrow> findChallenge s a d G = Some ch \<or> ?new ch)"
  proof cases
    case 1
    then show ?thesis using good by blast
  next
    case 2
    then show ?thesis using g kept by blast
  next
    case 3
    then show ?thesis using issueNew_facts [OF g 3] kept by blast
  next
    case 4
    then show ?thesis using issueNew_facts [OF g2 4] kept kept2 by blast
  qed
  then show "gate_good G'" and "findChallenge s a d G' = Some ch \<Longrightarrow> findChallenge s a d G = Some ch \<or> ?new ch" by blast+
qed

lemma scope_good_put:
  assumes "scope_good sc" and "distinct (map fst cs)" and "length cs \<le> length (entries_of sc a)"
  shows "scope_good (put_or_remove a cs sc)"
proof (cases "cs = []")
  case True
  then have "put_or_remove a cs sc = AList.delete a sc" by (simp add: put_or_remove_def)
  moreover have "scope_good (AList.delete a sc)"
    using assms(1) le_trans [OF scopeSize_delete] by (auto simp: scope_good_def AList.distinct_delete entries_of_def delete_conv')
  ultimately show ?thesis by simp
next
  case False
  have "length cs \<le> MAX_CHALLENGES_PER_PRINCIPAL" using assms(1,3) le_trans unfolding scope_good_def by blast
  then show ?thesis
    using False scope_good_update [OF assms(1,2), of a] assms(1,3) by (simp add: put_or_remove_def scope_good_def)
qed

lemma take_facts:
  assumes good: "gate_good G" and run: "takeChallenge s a d G = (x, G')"
  shows "gate_good G'" and "x = findChallenge s a d G"
    and "findChallenge s' a' d' G' = (if s' = s \<and> a' = a \<and> d' = d then None else findChallenge s' a' d' G)"
proof -
  show "x = findChallenge s a d G" using run by (simp add: takeChallenge_def)
  have "gate_good G' \<and> findChallenge s' a' d' G' = (if s' = s \<and> a' = a \<and> d' = d then None else findChallenge s' a' d' G)"
  proof (cases "map_of G s")
    case None
    then show ?thesis using run good by (auto simp: takeChallenge_def findChallenge_def entries_of_def)
  next
    case (Some sc)
    then have sc: "entries_of G s = sc" by (simp add: entries_of_def)
    have sgood: "scope_good sc" using good sc by (auto simp: gate_good_def)
    show ?thesis
    proof (cases "map_of sc a")
      case None
      then have G': "G' = put_or_remove s sc G" using run Some by (simp add: takeChallenge_def)
      show ?thesis
        using gate_good_put [OF good sgood] sc None by (simp add: G' findChallenge_def entries_put) (simp add: entries_of_def)
    next
      case cs: (Some cs)
      then have entries: "entries_of sc a = cs" by (simp add: entries_of_def)
      have G': "G' = put_or_remove s (put_or_remove a (AList.delete d cs) sc) G" using run Some cs by (simp add: takeChallenge_def)
      have "distinct (map fst cs)" using sgood entries by (auto simp: scope_good_def)
      then have "scope_good (put_or_remove a (AList.delete d cs) sc)"
        using sgood entries length_delete_le by (intro scope_good_put) (simp_all add: AList.distinct_delete)
      then show ?thesis
        using gate_good_put [OF good] sc entries by (simp add: G' findChallenge_def entries_put delete_conv')
    qed
  qed
  then show "gate_good G'"
    and "findChallenge s' a' d' G' = (if s' = s \<and> a' = a \<and> d' = d then None else findChallenge s' a' d' G)" by blast+
qed

lemma verify_facts:
  assumes good: "gate_good G" and run: "verifyNow verifies now c op proof G = (r, G')"
  shows "gate_good G'"
    and "findChallenge s a d G' = Some ch \<Longrightarrow> findChallenge s a d G = Some ch \<and>
      (r = Inr n \<longrightarrow> \<not> (s = pc_scopeId c \<and> a = co_authorDeviceKey op \<and> d = co_digest op))"
    and "r = Inr n \<Longrightarrow> \<exists>ch. findChallenge (pc_scopeId c) (co_authorDeviceKey op) (co_digest op) G = Some ch \<and>
      ch_nonce ch = n \<and> \<not> challenge_isExpired now ch \<and> matchesCheckpoint ch c \<and> assertAdmitted c op = Inr () \<and>
      verifies proof (pc_freshnessAuthorityKey c) (ch_requestJson ch)"
proof -
  let ?found = "findChallenge (pc_scopeId c) (co_authorDeviceKey op) (co_digest op) G"
  let ?check = "bindR (assertChallenge ?found now c) (\<lambda>ch. bindR (assertAdmitted c op) (\<lambda>_.
           bindR (ensure (verifies proof (pc_freshnessAuthorityKey c) (ch_requestJson ch)) InvalidPrivate) (\<lambda>_. Inr ch)))"
  have "gate_good G' \<and> (findChallenge s a d G' = Some ch \<longrightarrow> findChallenge s a d G = Some ch \<and>
      (r = Inr n \<longrightarrow> \<not> (s = pc_scopeId c \<and> a = co_authorDeviceKey op \<and> d = co_digest op))) \<and>
    (r = Inr n \<longrightarrow> (\<exists>ch. ?found = Some ch \<and> ch_nonce ch = n \<and> \<not> challenge_isExpired now ch \<and> matchesCheckpoint ch c \<and>
      assertAdmitted c op = Inr () \<and> verifies proof (pc_freshnessAuthorityKey c) (ch_requestJson ch)))"
  proof (cases ?check)
    case (Inl e)
    then have "r = Inl e \<and> G' = G" using run by (simp add: verifyNow_def)
    then show ?thesis using good by simp
  next
    case (Inr k)
    then have k: "?found = Some k" "\<not> challenge_isExpired now k" "matchesCheckpoint k c" "assertAdmitted c op = Inr ()"
      "verifies proof (pc_freshnessAuthorityKey c) (ch_requestJson k)"
      by (auto simp: assertChallenge_def split: option.splits)
    obtain x H where take: "takeChallenge (pc_scopeId c) (co_authorDeviceKey op) (co_digest op) G = (x, H)" by force
    note t = take_facts [OF good take]
    have "x = Some k" using t(2) k(1) by simp
    then have "r = Inr (ch_nonce k)" "G' = H" using run take unfolding verifyNow_def Inr by simp_all
    then show ?thesis using t(1,3) k by (auto split: if_splits)
  qed
  then show "gate_good G'"
    and "findChallenge s a d G' = Some ch \<Longrightarrow> findChallenge s a d G = Some ch \<and>
      (r = Inr n \<longrightarrow> \<not> (s = pc_scopeId c \<and> a = co_authorDeviceKey op \<and> d = co_digest op))"
    and "r = Inr n \<Longrightarrow> \<exists>ch. ?found = Some ch \<and>
      ch_nonce ch = n \<and> \<not> challenge_isExpired now ch \<and> matchesCheckpoint ch c \<and> assertAdmitted c op = Inr () \<and>
      verifies proof (pc_freshnessAuthorityKey c) (ch_requestJson ch)" by blast+
qed

section \<open>The life of a gate\<close>

text \<open>What a gate answered, the latest first: a request it issued, or a nonce whose proof it accepted.\<close>

datatype gate_event =
    Issued private_checkpoint control_operation int string
  | Verified private_checkpoint control_operation int string

inductive gate_life :: "(string \<Rightarrow> string \<Rightarrow> string \<Rightarrow> bool) \<Rightarrow> challenge_gate \<Rightarrow> gate_event list \<Rightarrow> bool" for verifies where
  life_start: "gate_life verifies [] []"
| life_issue: "gate_life verifies G trace \<Longrightarrow> issue now nonce c op G = (r, G') \<Longrightarrow>
    gate_life verifies G' ((case r of Inr q \<Rightarrow> [Issued c op now q] | Inl _ \<Rightarrow> []) @ trace)"
| life_verify: "gate_life verifies G trace \<Longrightarrow> verifyNow verifies now c op proof G = (r, G') \<Longrightarrow>
    gate_life verifies G' ((case r of Inr n \<Rightarrow> [Verified c op now n] | Inl _ \<Rightarrow> []) @ trace)"

abbreviation no_proof :: "gate_event list \<Rightarrow> string \<Rightarrow> string \<Rightarrow> string \<Rightarrow> bool" where
  "no_proof trace s a d \<equiv>
     \<not> (\<exists>c op t n. Verified c op t n \<in> set trace \<and> pc_scopeId c = s \<and> co_authorDeviceKey op = a \<and> co_digest op = d)"

text \<open>A challenge that is outstanding was issued, and nothing has answered it since.\<close>

definition outstanding :: "gate_event list \<Rightarrow> string \<Rightarrow> string \<Rightarrow> string \<Rightarrow> challenge \<Rightarrow> bool" where
  "outstanding trace s a d ch \<longleftrightarrow>
     (\<exists>later c op earlier. trace = later @ Issued c op (ch_issuedAt ch) (ch_requestJson ch) # earlier \<and>
        pc_scopeId c = s \<and> co_authorDeviceKey op = a \<and> co_digest op = d \<and> matchesCheckpoint ch c \<and>
        ch_requestJson ch = freshness_request c op (ch_nonce ch) \<and> no_proof later s a d)"

lemma outstanding_later:
  assumes "outstanding trace s a d ch" and "no_proof es s a d"
  shows "outstanding (es @ trace) s a d ch"
proof -
  from assms(1) obtain later c op earlier where "trace = later @ Issued c op (ch_issuedAt ch) (ch_requestJson ch) # earlier"
    and facts: "pc_scopeId c = s \<and> co_authorDeviceKey op = a \<and> co_digest op = d \<and> matchesCheckpoint ch c \<and>
        ch_requestJson ch = freshness_request c op (ch_nonce ch)" and none: "no_proof later s a d"
    unfolding outstanding_def by blast
  then have "es @ trace = (es @ later) @ Issued c op (ch_issuedAt ch) (ch_requestJson ch) # earlier" by simp
  moreover have "no_proof (es @ later) s a d" using none assms(2) unfolding set_append Un_iff by blast
  ultimately show ?thesis using facts unfolding outstanding_def by blast
qed

lemma outstanding_new:
  "pc_scopeId c = s \<Longrightarrow> co_authorDeviceKey op = a \<Longrightarrow> co_digest op = d \<Longrightarrow> matchesCheckpoint ch c \<Longrightarrow>
   ch_requestJson ch = freshness_request c op (ch_nonce ch) \<Longrightarrow>
   outstanding (Issued c op (ch_issuedAt ch) (ch_requestJson ch) # trace) s a d ch"
  unfolding outstanding_def by (rule exI [of _ "[]"]) simp

lemma gate_life_good:
  "gate_life verifies G trace \<Longrightarrow> gate_good G \<and> (\<forall>s a d ch. findChallenge s a d G = Some ch \<longrightarrow> outstanding trace s a d ch)"
proof (induction rule: gate_life.induct)
  case life_start
  then show ?case by (simp add: gate_good_def findChallenge_def entries_of_def)
next
  case (life_issue G trace now nonce c op r G')
  then have good: "gate_good G" and old: "findChallenge s a d G = Some ch \<Longrightarrow> outstanding trace s a d ch" for s a d ch by blast+
  note facts = issue_facts [OF good life_issue.hyps(2)]
  have "outstanding ((case r of Inr q \<Rightarrow> [Issued c op now q] | Inl _ \<Rightarrow> []) @ trace) s a d ch"
    if "findChallenge s a d G' = Some ch" for s a d ch
    using facts(2) [OF that]
  proof (elim disjE)
    assume "findChallenge s a d G = Some ch"
    from outstanding_later [OF old [OF this]] show ?thesis by (simp split: sum.split)
  next
    assume new: "r = Inr (ch_requestJson ch) \<and> s = pc_scopeId c \<and> a = co_authorDeviceKey op \<and> d = co_digest op \<and>
      ch = \<lparr>ch_expectedHeadHash = pc_headHash c, ch_expectedRevision = pc_revision c, ch_issuedAt = now,
              ch_nonce = nonce, ch_requestJson = freshness_request c op nonce\<rparr>"
    then have "outstanding (Issued c op (ch_issuedAt ch) (ch_requestJson ch) # trace) s a d ch"
      by (intro outstanding_new) (simp_all add: matchesCheckpoint_def)
    then show ?thesis using new by simp
  qed
  then show ?case using facts(1) by blast
next
  case (life_verify G trace now c op signedProof r G')
  then have good: "gate_good G" and old: "findChallenge s a d G = Some ch \<Longrightarrow> outstanding trace s a d ch" for s a d ch by blast+
  note facts = verify_facts [OF good life_verify.hyps(2)]
  have "outstanding ((case r of Inr n \<Rightarrow> [Verified c op now n] | Inl _ \<Rightarrow> []) @ trace) s a d ch"
    if found: "findChallenge s a d G' = Some ch" for s a d ch
  proof (cases r)
    case (Inl e)
    then show ?thesis using facts(2) [OF found, of undefined] old by simp
  next
    case (Inr n)
    then show ?thesis using facts(2) [OF found, of n] old outstanding_later [of trace s a d ch "[Verified c op now n]"] by auto
  qed
  then show ?case using facts(1) by blast
qed

lemma proof_answers_challenge:
  assumes "gate_life verifies G trace" and "verifyNow verifies now c op proof G = (Inr nonce, G')"
  shows "\<exists>later c0 op0 issued request earlier. trace = later @ Issued c0 op0 issued request # earlier \<and>
    pc_scopeId c0 = pc_scopeId c \<and> pc_headHash c0 = pc_headHash c \<and> pc_revision c0 = pc_revision c \<and>
    co_authorDeviceKey op0 = co_authorDeviceKey op \<and> co_digest op0 = co_digest op \<and>
    now - issued \<le> MAX_AGE_MILLISECONDS \<and> request = freshness_request c0 op0 nonce \<and>
    verifies proof (pc_freshnessAuthorityKey c) request \<and>
    no_proof later (pc_scopeId c) (co_authorDeviceKey op) (co_digest op) \<and> assertAdmitted c op = Inr ()"
proof -
  note life = gate_life_good [OF assms(1)]
  then have good: "gate_good G" by blast
  obtain ch where ch: "findChallenge (pc_scopeId c) (co_authorDeviceKey op) (co_digest op) G = Some ch" "ch_nonce ch = nonce"
    "\<not> challenge_isExpired now ch" "matchesCheckpoint ch c" "assertAdmitted c op = Inr ()"
    "verifies proof (pc_freshnessAuthorityKey c) (ch_requestJson ch)"
    using verify_facts(3) [OF good assms(2) refl] by blast
  from life ch(1) have "outstanding trace (pc_scopeId c) (co_authorDeviceKey op) (co_digest op) ch" by blast
  then obtain later c0 op0 earlier where "trace = later @ Issued c0 op0 (ch_issuedAt ch) (ch_requestJson ch) # earlier"
    "pc_scopeId c0 = pc_scopeId c" "co_authorDeviceKey op0 = co_authorDeviceKey op" "co_digest op0 = co_digest op"
    "matchesCheckpoint ch c0" "ch_requestJson ch = freshness_request c0 op0 nonce"
    "no_proof later (pc_scopeId c) (co_authorDeviceKey op) (co_digest op)"
    unfolding outstanding_def ch(2) by blast
  moreover have "now - ch_issuedAt ch \<le> MAX_AGE_MILLISECONDS" using ch(3) by (simp add: challenge_isExpired_def)
  moreover have "pc_headHash c0 = pc_headHash c" "pc_revision c0 = pc_revision c"
    using ch(4) calculation(5) by (auto simp: matchesCheckpoint_def)
  ultimately show ?thesis using ch(5,6) by blast
qed

lemma gate_bounds:
  assumes "gate_life verifies G trace"
  shows "length (entries_of (entries_of G s) a) \<le> MAX_CHALLENGES_PER_PRINCIPAL \<and> scopeSize (entries_of G s) \<le> MAX_CHALLENGES_PER_SCOPE"
  using gate_life_good [OF assms] by (simp add: gate_good_def scope_good_def)

end
