(* ===== verification/PrivateReservations.thy ===== *)
theory PrivateReservations
  imports PrivateCheckpoint
begin

text \<open>
  What a node reserves for private scopes: the storage of an owner
  (\<open>PrivateAuthorizationStorageReservation.ts\<close>, \<open>PrivateAuthorizationProvisioningQuota.ts\<close>), whose
  quota every sequence of reservations keeps, and the one child of a checkpoint
  (\<open>PrivateControlTransitionReservation.ts\<close>).
\<close>

section \<open>Storage\<close>

record storage_reservation =
  sr_ownerIdentityId :: identity_id
  sr_provisionedBytes :: int

definition new_StorageReservation :: "lib \<Rightarrow> storage_reservation \<Rightarrow> private_error + storage_reservation" where
  "new_StorageReservation L p =
     bindR (private_value (lib_identity L (sr_ownerIdentityId p))) (\<lambda>owner.
     bindR (ensure (sr_provisionedBytes p > 0) PrivateStorageCapacityExceededError) (\<lambda>_.
       Inr \<lparr>sr_ownerIdentityId = owner, sr_provisionedBytes = sr_provisionedBytes p\<rparr>))"

definition MAX_NODE_BYTES :: int where "MAX_NODE_BYTES = 256 * 1024 * 1024"
definition MAX_NODE_SCOPES :: int where "MAX_NODE_SCOPES = 64"
definition MAX_OWNER_BYTES :: int where "MAX_OWNER_BYTES = 32 * 1024 * 1024"
definition MAX_OWNER_SCOPES :: int where "MAX_OWNER_SCOPES = 16"

definition new_ProvisioningQuota :: "lib \<Rightarrow> storage_reservation list \<Rightarrow> private_error + storage_reservation list" where
  "new_ProvisioningQuota L reservations = mapR (new_StorageReservation L) reservations"

definition reserved_bytes :: "storage_reservation list \<Rightarrow> int" where
  "reserved_bytes rs = sum_list (map sr_provisionedBytes rs)"

definition belonging_to :: "identity_id \<Rightarrow> storage_reservation list \<Rightarrow> storage_reservation list" where
  "belonging_to owner rs = filter (\<lambda>r. sr_ownerIdentityId r = owner) rs"

text \<open>The reservations afterwards, the new one last.\<close>

definition reserve :: "lib \<Rightarrow> identity_id \<Rightarrow> int \<Rightarrow> storage_reservation list \<Rightarrow> private_error + storage_reservation list" where
  "reserve L owner provisionedBytes rs =
     (let owned = belonging_to owner rs in
      bindR (ensure (reserved_bytes rs + provisionedBytes \<le> MAX_NODE_BYTES \<and> int (length rs) + 1 \<le> MAX_NODE_SCOPES \<and>
               reserved_bytes owned + provisionedBytes \<le> MAX_OWNER_BYTES \<and> int (length owned) + 1 \<le> MAX_OWNER_SCOPES)
               PrivateStorageCapacityExceededError) (\<lambda>_.
      bindR (new_StorageReservation L \<lparr>sr_ownerIdentityId = owner, sr_provisionedBytes = provisionedBytes\<rparr>) (\<lambda>r.
        Inr (rs @ [r]))))"

definition within_quota :: "storage_reservation list \<Rightarrow> bool" where
  "within_quota rs \<longleftrightarrow>
     reserved_bytes rs \<le> MAX_NODE_BYTES \<and> int (length rs) \<le> MAX_NODE_SCOPES \<and>
     (\<forall>owner. reserved_bytes (belonging_to owner rs) \<le> MAX_OWNER_BYTES \<and> int (length (belonging_to owner rs)) \<le> MAX_OWNER_SCOPES)"

text \<open>The owner of a reservation is the value of an identity, which its own constructor keeps.\<close>

lemma reserve_within_quota:
  assumes "within_quota rs" and "reserve L owner n rs = Inr rs'" and "lib_identity L owner = Some owner"
  shows "within_quota rs'"
proof -
  have rs': "rs' = rs @ [\<lparr>sr_ownerIdentityId = owner, sr_provisionedBytes = n\<rparr>]"
    using assms(2,3) by (auto simp: reserve_def new_StorageReservation_def private_value_def Let_def)
  have "belonging_to i rs' = belonging_to i rs @ (if i = owner then [\<lparr>sr_ownerIdentityId = owner, sr_provisionedBytes = n\<rparr>] else [])" for i
    by (simp add: rs' belonging_to_def)
  then show ?thesis
    using assms(1,2) by (auto simp: within_quota_def reserve_def Let_def reserved_bytes_def rs')
qed

section \<open>The child of a checkpoint\<close>

record transition_reservation =
  tn_authorDeviceKey :: string
  tn_childHeadHash :: string
  tn_operationId :: string
  tn_parentCheckpoint :: private_checkpoint

definition reservation_fromPrimitives :: "transition_reservation \<Rightarrow> private_error + transition_reservation" where
  "reservation_fromPrimitives p =
     bindR (ensure (tn_authorDeviceKey p \<noteq> [] \<and> tn_childHeadHash p \<noteq> [] \<and> tn_operationId p \<noteq> []) InvalidPrivate) (\<lambda>_.
     bindR (checkpoint_fromPrimitives (tn_parentCheckpoint p)) (\<lambda>_. Inr p))"

text \<open>\<open>candidate.control?.resultingHeadHash\<close> when it is a string.\<close>

definition resultingHeadHash :: "control_operation \<Rightarrow> string option" where
  "resultingHeadHash op =
     (case co_control op of
        None \<Rightarrow> None
      | Some control \<Rightarrow> (case map_of control ''resultingHeadHash'' of Some (JString h) \<Rightarrow> Some h | _ \<Rightarrow> None))"

definition forOperation :: "lib \<Rightarrow> private_checkpoint \<Rightarrow> control_operation \<Rightarrow> private_error + transition_reservation" where
  "forOperation L parent op =
     bindR (isAuthorizedBy L op parent) (\<lambda>same.
     case (same, resultingHeadHash op) of
       (True, Some h) \<Rightarrow> reservation_fromPrimitives \<lparr>tn_authorDeviceKey = co_authorDeviceKey op, tn_childHeadHash = h,
                           tn_operationId = co_id op, tn_parentCheckpoint = parent\<rparr>
     | _ \<Rightarrow> Inl InvalidPrivate)"

datatype reservation_conflict = ConflictHead | ConflictNone | ConflictOperation

definition conflictWith :: "transition_reservation \<Rightarrow> transition_reservation \<Rightarrow> reservation_conflict" where
  "conflictWith r candidate =
     (if tn_childHeadHash r \<noteq> tn_childHeadHash candidate then ConflictHead
      else if tn_operationId r = tn_operationId candidate then ConflictNone else ConflictOperation)"

definition reservation_matches :: "transition_reservation \<Rightarrow> transition_reservation \<Rightarrow> bool" where
  "reservation_matches r candidate \<longleftrightarrow>
     conflictWith r candidate = ConflictNone \<and> tn_authorDeviceKey r = tn_authorDeviceKey candidate"

definition isCrossAuthorClaimForSameChild :: "transition_reservation \<Rightarrow> transition_reservation \<Rightarrow> bool" where
  "isCrossAuthorClaimForSameChild r candidate \<longleftrightarrow>
     tn_childHeadHash r = tn_childHeadHash candidate \<and> tn_authorDeviceKey r \<noteq> tn_authorDeviceKey candidate"

definition assertParent :: "string \<Rightarrow> string \<Rightarrow> transition_reservation \<Rightarrow> private_error + unit" where
  "assertParent scopeId parentHeadHash r =
     bindR (checkpoint_fromPrimitives (tn_parentCheckpoint r)) (\<lambda>parent.
       ensure (pc_scopeId parent = scopeId \<and> pc_headHash parent = parentHeadHash) InvalidPrivate)"

text \<open>
  A reservation of one child, read back, keeps what it reserves: of two operations on a checkpoint
  that reserve children which do not conflict, both have the same resulting head and id.
\<close>

lemma same_child:
  assumes "forOperation L c op = Inr r" and "forOperation L c op' = Inr r'" and "conflictWith r r' = ConflictNone"
  shows "co_id op = co_id op' \<and> resultingHeadHash op = resultingHeadHash op' \<and> resultingHeadHash op \<noteq> None"
  using assms
  by (auto simp: forOperation_def reservation_fromPrimitives_def conflictWith_def split: bool.splits option.splits if_splits)

end
