(* ===== verification/PrivateGuarantees.thy ===== *)
theory PrivateGuarantees
  imports PrivateSteps PrivateFreshness PrivateReservations Samples
begin

text \<open>
  The properties of a private scope, over every sequence of calls that a node makes of it, and a
  scope on which they are applied.
\<close>

section \<open>What a node does to a scope\<close>

text \<open>The stored scope as the repository reads it back: the pending operations in the order of their ids.\<close>

definition stored_scope :: "private_scope \<Rightarrow> private_scope" where
  "stored_scope s = s\<lparr>ps_pending := sort_key co_id (ps_pending s)\<rparr>"

inductive scope_step :: "lib \<Rightarrow> private_scope \<Rightarrow> private_scope \<Rightarrow> bool" for L where
  assesses: "assess L op kind s = (r, t) \<Longrightarrow> scope_step L s t"
| proposes: "acceptProposal L op s = (r, t) \<Longrightarrow> scope_step L s t"
| commits: "commitTransition L op c s = (r, t) \<Longrightarrow> scope_step L s t"
| revokes_device: "revokeDevice L op c s = (r, t) \<Longrightarrow> scope_step L s t"
| quarantines: "scope_step L s (quarantine s)"
| pins_genesis: "pinGenesis c g s = (r, t) \<Longrightarrow> scope_step L s t"
| restores: "private_fromPrimitives L s = Inr t \<Longrightarrow> scope_step L s t"
| reloads: "private_fromPrimitives L (stored_scope s) = Inr t \<Longrightarrow> scope_step L s t"

definition accepts_operation :: "lib \<Rightarrow> control_operation \<Rightarrow> private_scope \<Rightarrow> private_scope \<Rightarrow> bool" where
  "accepts_operation L op s t \<longleftrightarrow>
     acceptProposal L op s = (Inr Accepted, t) \<or> (\<exists>c. commitTransition L op c s = (Inr Accepted, t)) \<or>
     (\<exists>c. revokeDevice L op c s = (Inr Accepted, t))"

lemma accepts_step: "accepts_operation L op s t \<Longrightarrow> scope_step L s t"
  by (auto simp: accepts_operation_def intro: scope_step.intros)

text \<open>What remains of a scope, whatever was done to it.\<close>

definition carried :: "private_scope \<Rightarrow> private_scope \<Rightarrow> bool" where
  "carried s t \<longleftrightarrow>
     scope_ok t \<and> (ps_checkpoint t = ps_checkpoint s \<or> assertSuccessor (ps_checkpoint t) s = Inr ()) \<and>
     (\<forall>a \<in> set (ps_accepted s).
        co_authorizationRevision a = pc_revision (ps_checkpoint t) \<or>
        co_id a \<in> set (dependencyIds (live_pending t (ps_checkpoint t))) \<longrightarrow> a \<in> set (ps_accepted t)) \<and>
     (ps_status s = ScopeFrozen \<longrightarrow> ps_status t = ScopeFrozen)"

lemma unmoved_carried: "unmoved s t \<Longrightarrow> carried s t"
  by (auto simp: unmoved_def carried_def)

lemma assertSuccessor_checkpoint: "ps_checkpoint s = ps_checkpoint w \<Longrightarrow> assertSuccessor c s = assertSuccessor c w"
  by (simp add: assertSuccessor_def)

lemma accepted_carried:
  assumes "unmoved s w" and "accepted_to op kind c w t" and "c = ps_checkpoint w \<or> assertSuccessor c w = Inr ()"
  shows "carried s t"
  using assms assertSuccessor_checkpoint [of s w c] by (auto simp: unmoved_def accepted_to_def carried_def ready_for_def)

lemma restored:
  assumes ok: "scope_ok s" and run: "private_fromPrimitives L s = Inr t"
  shows "carried s t"
proof -
  obtain owner where new: "new_scope (s\<lparr>ps_ownerDeviceKey := owner, ps_events := []\<rparr>) = Inr t"
    using run by (auto simp: private_fromPrimitives_def checkpoint_fromPrimitives_def)
  let ?s = "s\<lparr>ps_ownerDeviceKey := owner, ps_events := []\<rparr>"
  obtain r where r: "retainedAccepted (ps_accepted s) (live_pending s (ps_checkpoint s)) (ps_checkpoint s) = Inr r"
    and t: "t = ?s\<lparr>ps_accepted := r\<rparr>"
    using new by (auto simp: new_scope_def compactAccepted_def split: sum.splits)
  have sized: "sized (ps_accepted s)" using ok by (simp add: scope_ok_def accepted_ok_def)
  note bounds = retained_bounds [OF this r]
  have "accepted_ok r" using sized_subseq [OF sized bounds(1)] bounds(2,3) by (simp add: accepted_ok_def)
  moreover have "set r \<subseteq> set (ps_accepted s)" using subseq_member [OF bounds(1)] by (rule subsetI)
  ultimately have "scope_ok t" using ok unfolding scope_ok_def t by auto
  then show ?thesis using bounds(4) by (simp add: carried_def t)
qed

lemma pending_ok_perm:
  assumes "pending_ok ys" and "mset xs = mset ys"
  shows "pending_ok xs"
proof -
  have bytes: "operationBytes as = operationBytes bs" if "mset as = mset bs" for as bs
    using arg_cong [OF that, of "\<lambda>M. sum_mset (image_mset co_byteSize M)"]
    by (simp add: operationBytes_def sum_mset_sum_list flip: mset_map)
  have own: "mset (authored_by key xs) = mset (authored_by key ys)" for key
    using assms(2) by (simp add: authored_by_def mset_filter)
  have ids: "distinct (map co_id xs) \<longleftrightarrow> distinct (map co_id ys)"
    using assms(2) by (intro mset_eq_imp_distinct_iff) simp
  have set: "set xs = set ys" using assms(2) by (rule mset_eq_setD)
  have sized: "sized ys" "sized xs" using assms(1) ids set by (auto simp: pending_ok_def sized_def)
  have "depends_on (graph_of xs) = depends_on (graph_of ys)"
    using sized depends_on_graph [of xs] depends_on_graph [of ys] set by (simp add: sized_def)
  then show ?thesis
    using assms(1) sized(2) bytes [OF assms(2)] bytes [OF own] mset_eq_length [OF assms(2)] mset_eq_length [OF own]
    by (simp add: pending_ok_def)
qed

lemma stored_scope_ok: "scope_ok s \<Longrightarrow> scope_ok (stored_scope s)"
  using pending_ok_perm [of "ps_pending s" "sort_key co_id (ps_pending s)"]
  by (simp add: scope_ok_def stored_scope_def)

lemma reloaded:
  assumes "scope_ok s" and "private_fromPrimitives L (stored_scope s) = Inr t"
  shows "carried s t"
proof -
  have same: "ps_checkpoint (stored_scope s) = ps_checkpoint s" "ps_accepted (stored_scope s) = ps_accepted s"
    "ps_status (stored_scope s) = ps_status s" by (simp_all add: stored_scope_def)
  show ?thesis
    using restored [OF stored_scope_ok [OF assms(1)] assms(2)] assertSuccessor_checkpoint [OF same(1), of "ps_checkpoint t"]
    by (simp add: carried_def same)
qed

lemma step_carried:
  assumes ok: "scope_ok s" and step: "scope_step L s t"
  shows "carried s t"
  using step
proof (cases rule: scope_step.cases)
  case (assesses op kind r)
  then show ?thesis using assess_unmoved(1) [OF ok] unmoved_carried by blast
next
  case (proposes op r)
  with ok show ?thesis by (cases rule: proposal_cases) (auto intro: unmoved_carried accepted_carried)
next
  case (commits op c r)
  with ok show ?thesis by (cases rule: commit_cases) (auto intro: unmoved_carried accepted_carried)
next
  case (revokes_device op c r)
  with ok show ?thesis by (cases rule: revoke_cases) (auto intro: unmoved_carried accepted_carried)
next
  case quarantines
  then show ?thesis using unmoved_quarantine [OF ok] unmoved_carried by simp
next
  case (pins_genesis c g r)
  then have "t = s \<or> t = quarantine s" by (auto simp: pinGenesis_def freeze_def split: if_splits)
  then show ?thesis using unmoved_quarantine [OF ok] ok unmoved_carried by auto
next
  case restores
  then show ?thesis using restored [OF ok] by simp
next
  case reloads
  then show ?thesis using reloaded [OF ok] by simp
qed

definition pinned :: "private_scope \<Rightarrow> bool" where
  "pinned s \<longleftrightarrow> (\<exists>c g owner. scope_pin c g owner = Inr s)"

lemma pinned_ok: "pinned s \<Longrightarrow> scope_ok s"
proof -
  assume "pinned s"
  then obtain c g owner u where new: "new_scope \<lparr>ps_checkpoint = c, ps_genesisHash = g, ps_ownerDeviceKey = owner,
      ps_status = ScopeActive, ps_accepted = [], ps_pending = [], ps_events = []\<rparr> = Inr u" and s: "ps_pending s = ps_pending u"
      "ps_accepted s = ps_accepted u"
    by (auto simp: pinned_def scope_pin_def)
  then obtain r where "retainedAccepted [] [] c = Inr r" "ps_pending u = []" "ps_accepted u = r"
    by (auto simp: new_scope_def compactAccepted_def split: sum.splits)
  moreover have "sized []" by (simp add: sized_def)
  ultimately have "ps_pending s = []" "ps_accepted s = []" using retained_bounds(1) [of "[]" "[]" c r] s by auto
  then show ?thesis
    by (simp add: scope_ok_def pending_ok_def accepted_ok_def sized_def authored_by_def graph_of_def depends_on_def
        known_dependencies_def acyclic_def MAX_PENDING_BYTES_def MAX_PENDING_BYTES_PER_AUTHOR_def MAX_ACCEPTED_BYTES_def)
qed

interpretation private_life: machine pinned "scope_step L" scope_ok for L
proof unfold_locales
  show "scope_ok s" if "pinned s" for s using that by (rule pinned_ok)
  show "scope_ok t" if "scope_ok s" "scope_step L s t" for s t
    using step_carried [OF that] by (simp add: carried_def)
qed

section \<open>What an acceptance is\<close>

lemma acceptance_cases:
  assumes ok: "scope_ok s" and acc: "accepts_operation L op s t"
  obtains kind w where "unmoved s w" "accepted_to op kind (ps_checkpoint t) w t"
    "kind = ''membership.propose'' \<and> ps_checkpoint t = ps_checkpoint w \<or>
     kind = ''membership.commit'' \<and> commits_proposal op w \<and> assertSuccessor (ps_checkpoint t) w = Inr () \<or>
     kind = ''device.revoke'' \<and> revokes op (ps_checkpoint t) w \<and> assertSuccessor (ps_checkpoint t) w = Inr ()"
proof -
  have target: "ps_checkpoint t = c" if "accepted_to op kind c w t" for kind c w using that by (simp add: accepted_to_def)
  from acc consider (p) "acceptProposal L op s = (Inr Accepted, t)"
    | (c) c where "commitTransition L op c s = (Inr Accepted, t)" | (r) c where "revokeDevice L op c s = (Inr Accepted, t)"
    by (auto simp: accepts_operation_def)
  then show ?thesis
  proof cases
    case p
    with ok show ?thesis by (cases rule: proposal_cases) (use that target in fastforce)+
  next
    case (c c)
    with ok show ?thesis by (cases rule: commit_cases) (use that target in fastforce)+
  next
    case (r c)
    with ok show ?thesis by (cases rule: revoke_cases) (use that target in fastforce)+
  qed
qed

lemma ready_facts:
  assumes "unmoved s w" and "ready_for op kind w"
  shows "ps_status s = ScopeActive" and "co_kind op = kind" and "co_scopeId op = pc_scopeId (ps_checkpoint s)"
    and "co_authorizationRevision op = pc_revision (ps_checkpoint s)"
    and "co_authorDeviceKey op \<in> set (pc_admittedDeviceKeys (ps_checkpoint s))"
    and "co_authorDeviceKey op \<notin> set (pc_revokedDeviceKeys (ps_checkpoint s))"
    and "set (co_previousOperationIds op) \<subseteq> co_id ` set (ps_accepted s)"
    and "co_id op \<notin> co_id ` set (ps_accepted s)"
  using assms by (auto simp: unmoved_def ready_for_def assertOperation_def isPending_def Let_def list_ex_iff)

section \<open>A scope\<close>

definition scope_genesis :: private_checkpoint where
  "scope_genesis =
     \<lparr>pc_admittedDeviceKeys = [''a'', ''b''], pc_authorityKeys = [''a''], pc_controlCheckpointJson = ''{}'',
      pc_deviceIdentities = [(''a'', ''ana''), (''b'', ''bo'')], pc_freshnessAuthorityKey = ''a'', pc_headHash = ''h0'',
      pc_parentHeadHash = None, pc_revision = 0, pc_revokedDeviceKeys = [], pc_scopeId = ''s''\<rparr>"

definition scope_next :: private_checkpoint where
  "scope_next = scope_genesis\<lparr>pc_admittedDeviceKeys := [''a'', ''b'', ''c''], pc_headHash := ''h1'',
     pc_deviceIdentities := [(''a'', ''ana''), (''b'', ''bo''), (''c'', ''cy'')],
     pc_parentHeadHash := Some ''h0'', pc_revision := 1\<rparr>"

definition admission_mutation :: "(string \<times> json) list" where
  "admission_mutation = [(''type'', JString ''device.admit''), (''deviceKey'', JString ''c'')]"

definition scope_proposal :: control_operation where
  "scope_proposal =
     \<lparr>co_authorDeviceKey = ''b'', co_authorIdentityId = ''bo'', co_authorizationRevision = 0, co_byteSize = 700,
      co_control = Some [(''parentHeadHash'', JString ''h0'')], co_digest = ''d1'', co_id = ''p'',
      co_identityAuthorizationEpoch = ''e'', co_identityAuthorizationRevision = 0, co_kind = ''membership.propose'',
      co_mutation = admission_mutation, co_previousOperationIds = [], co_proposalOperationId = None, co_scopeId = ''s''\<rparr>"

definition scope_commit :: control_operation where
  "scope_commit = scope_proposal\<lparr>co_authorDeviceKey := ''a'', co_authorIdentityId := ''ana'', co_control := None,
     co_digest := ''d2'', co_id := ''q'', co_kind := ''membership.commit'', co_previousOperationIds := [''p''],
     co_proposalOperationId := Some ''p''\<rparr>"

definition pinned_scope :: private_scope where
  "pinned_scope = (case scope_pin scope_genesis ''g'' ''a'' of Inr s \<Rightarrow> s | Inl e \<Rightarrow> undefined)"

definition proposed_scope :: private_scope where
  "proposed_scope = snd (acceptProposal sample_lib scope_proposal pinned_scope)"

definition committed_scope :: private_scope where
  "committed_scope = snd (commitTransition sample_lib scope_commit scope_next proposed_scope)"

lemma pinned_scope_pinned: "pinned pinned_scope"
proof -
  have "isOK (scope_pin scope_genesis ''g'' ''a'')" by code_simp
  then obtain s where "scope_pin scope_genesis ''g'' ''a'' = Inr s" by (auto simp: isOK_iff)
  then show ?thesis unfolding pinned_scope_def pinned_def by auto
qed

lemma proposal_accepted: "acceptProposal sample_lib scope_proposal pinned_scope = (Inr Accepted, proposed_scope)"
proof -
  have "fst (acceptProposal sample_lib scope_proposal pinned_scope) = Inr Accepted" by code_simp
  then show ?thesis by (simp add: proposed_scope_def prod_eq_iff)
qed

lemma proposed_life: "rtranclp (scope_step sample_lib) pinned_scope proposed_scope"
  using proposes [OF proposal_accepted] by (rule r_into_rtranclp)

lemma commit_accepted: "commitTransition sample_lib scope_commit scope_next proposed_scope = (Inr Accepted, committed_scope)"
proof -
  have ok: "scope_ok proposed_scope" by (rule private_life.reachable_good [OF pinned_scope_pinned proposed_life])
  have assessed: "assess sample_lib scope_commit ''membership.commit'' proposed_scope = (Inr Ready, proposed_scope)" by code_simp
  have "commits_proposal scope_commit proposed_scope" by code_simp
  then have run: "commitTransition sample_lib scope_commit scope_next proposed_scope = advance_to scope_commit scope_next proposed_scope"
    by (simp add: commitTransition_def assessed)
  have "isOK (assertSuccessor scope_next proposed_scope)" "isOK (assertAcceptedCapacity scope_commit scope_next proposed_scope)"
    by code_simp+
  then obtain t where "advance_to scope_commit scope_next proposed_scope = (Inr Accepted, t)"
    using advance_done [OF ok assess_unmoved(2) [OF ok assessed refl]] by (auto simp: isOK_iff)
  then show ?thesis by (simp add: committed_scope_def run)
qed

lemma committed_life: "rtranclp (scope_step sample_lib) pinned_scope committed_scope"
  using proposed_life commits [OF commit_accepted] by (rule rtranclp.rtrancl_into_rtrancl)

section \<open>Bounds\<close>

text \<open>
  C5: A private scope stays within its bounds. From a pinned scope, through any sequence of calls,
  whether they return or throw, restarts included (with the pending operations as the repository
  orders them), the accepted operations are distinct and within
  their limits of number and bytes, so are those that wait, in all and of each author, no operation
  both waits and was accepted, and those that wait do not depend on each other in a cycle.
\<close>

theorem scope_stays_within_bounds:
  assumes "scope_pin c genesisHash owner = Inr s" and "rtranclp (scope_step L) s t"
  shows "distinct (map co_id (ps_accepted t @ ps_pending t)) \<and>
    length (ps_accepted t) \<le> MAX_ACCEPTED_OPERATIONS \<and> operationBytes (ps_accepted t) \<le> MAX_ACCEPTED_BYTES \<and>
    length (ps_pending t) \<le> MAX_PENDING_OPERATIONS \<and> operationBytes (ps_pending t) \<le> MAX_PENDING_BYTES \<and>
    (\<forall>key. length (authored_by key (ps_pending t)) \<le> MAX_PENDING_OPERATIONS_PER_AUTHOR \<and>
           operationBytes (authored_by key (ps_pending t)) \<le> MAX_PENDING_BYTES_PER_AUTHOR) \<and>
    acyclic {(co_id op, co_id d) | op d. op \<in> set (ps_pending t) \<and> d \<in> set (ps_pending t) \<and> co_id d \<in> set (dependencies_of op)}"
proof -
  have "pinned s" using assms(1) by (auto simp: pinned_def)
  from private_life.reachable_good [OF this assms(2)] have ok: "scope_ok t" .
  then have ids: "distinct (map co_id (ps_pending t))" "distinct (map co_id (ps_accepted t))"
    by (simp_all add: scope_ok_def pending_ok_def accepted_ok_def sized_def)
  show ?thesis
    using ok ids depends_on_graph [OF ids(1)] by (auto simp: scope_ok_def pending_ok_def accepted_ok_def)
qed

lemma scope_stays_within_bounds_witness:
  "length (ps_accepted committed_scope) \<le> MAX_ACCEPTED_OPERATIONS \<and>
   commitTransition sample_lib scope_commit scope_next proposed_scope = (Inr Accepted, committed_scope)"
proof -
  obtain c g owner where "scope_pin c g owner = Inr pinned_scope" using pinned_scope_pinned by (auto simp: pinned_def)
  from scope_stays_within_bounds [OF this committed_life] commit_accepted show ?thesis by blast
qed

section \<open>Acceptance\<close>

text \<open>An operation that was accepted is still held, or is of a past revision.\<close>

definition taken :: "control_operation \<Rightarrow> private_scope \<Rightarrow> bool" where
  "taken op s \<longleftrightarrow>
     co_authorizationRevision op < pc_revision (ps_checkpoint s) \<or>
     co_authorizationRevision op = pc_revision (ps_checkpoint s) \<and>
       (\<exists>a \<in> set (ps_accepted s). co_id a = co_id op \<and> co_authorizationRevision a = co_authorizationRevision op)"

lemma taken_carried: "taken op s \<Longrightarrow> carried s t \<Longrightarrow> taken op t"
  by (auto simp: taken_def carried_def assertSuccessor_def Let_def)

lemma taken_not_accepted:
  assumes "scope_ok s" and "taken op s" and "co_id op' = co_id op" and "co_authorizationRevision op' = co_authorizationRevision op"
  shows "\<not> accepts_operation L op' s t"
proof
  assume "accepts_operation L op' s t"
  with assms(1) obtain kind w where "unmoved s w" "accepted_to op' kind (ps_checkpoint t) w t" by (rule acceptance_cases)
  then have "unmoved s w" "ready_for op' kind w" by (simp_all add: accepted_to_def)
  note facts = ready_facts [OF this]
  obtain a where "a \<in> set (ps_accepted s)" "co_id a = co_id op" using assms(2,4) facts(4) by (auto simp: taken_def)
  then show False using facts(8) assms(3) by (metis image_eqI)
qed

lemma accepted_taken:
  assumes ok: "scope_ok s" and acc: "accepts_operation L op s t"
  shows "taken op t"
proof -
  obtain kind w where w: "unmoved s w" "accepted_to op kind (ps_checkpoint t) w t"
    "ps_checkpoint t = ps_checkpoint w \<or> assertSuccessor (ps_checkpoint t) w = Inr ()"
    by (rule acceptance_cases [OF ok acc]) blast
  have "ready_for op kind w" using w(2) by (simp add: accepted_to_def)
  note facts = ready_facts [OF w(1) this]
  have "ps_checkpoint w = ps_checkpoint s" using w(1) by (simp add: unmoved_def)
  then show ?thesis
    using w(2,3) facts(4) by (auto simp: taken_def accepted_to_def assertSuccessor_def Let_def)
qed

text \<open>
  C25: An operation is accepted once. After a scope has accepted an operation, whatever happens to
  it, no operation with the same id and revision is accepted again, although the compaction may
  have dropped the first one meanwhile.
\<close>

theorem operation_is_accepted_once:
  assumes "scope_pin c genesisHash owner = Inr r" and "rtranclp (scope_step L) r s" and "accepts_operation L op s t"
    and "rtranclp (scope_step L) t u"
    and "co_id op' = co_id op" and "co_authorizationRevision op' = co_authorizationRevision op"
  shows "\<not> accepts_operation L op' u v"
proof -
  have "pinned r" using assms(1) by (auto simp: pinned_def)
  then have s: "scope_ok s" using private_life.reachable_good assms(2) by blast
  from private_life.step_good [OF this accepts_step [OF assms(3)]] have t: "scope_ok t" .
  have "scope_ok u \<and> (taken op t \<longrightarrow> taken op u)"
    using assms(4) t
  proof (induction rule: rtranclp_induct)
    case (step x y)
    then show ?case using taken_carried step_carried private_life.step_good by blast
  qed simp
  then show ?thesis using accepted_taken [OF s assms(3)] taken_not_accepted assms(5,6) by blast
qed

lemma operation_is_accepted_once_witness:
  "accepts_operation sample_lib scope_proposal pinned_scope proposed_scope \<and>
   (\<forall>v. \<not> accepts_operation sample_lib scope_proposal committed_scope v)"
proof -
  obtain c g owner where pin: "scope_pin c g owner = Inr pinned_scope" using pinned_scope_pinned by (auto simp: pinned_def)
  have acc: "accepts_operation sample_lib scope_proposal pinned_scope proposed_scope"
    using proposal_accepted by (simp add: accepts_operation_def)
  have "rtranclp (scope_step sample_lib) proposed_scope committed_scope"
    using commits [OF commit_accepted] by (rule r_into_rtranclp)
  from operation_is_accepted_once [OF pin rtranclp.rtrancl_refl acc this refl refl] acc show ?thesis by blast
qed

text \<open>
  C21: What a scope accepts was authorized. An operation is accepted only while the scope is active,
  at the revision of its checkpoint, from a device that the checkpoint admits and has not revoked,
  after all the operations it names. A proposal leaves the checkpoint; a commit puts an accepted
  proposal with the same mutation into effect, and a revocation takes an admitted device out, each
  by the next checkpoint of the chain. Nothing that is still needed is dropped for it, and a call
  that does not accept changes neither the accepted operations nor the checkpoint.
\<close>

theorem acceptance_is_authorized:
  assumes "scope_pin c genesisHash owner = Inr r" and "rtranclp (scope_step L) r s"
  shows "(accepts_operation L op s t \<longrightarrow>
      ps_status s = ScopeActive \<and> co_scopeId op = pc_scopeId (ps_checkpoint s) \<and>
      co_authorizationRevision op = pc_revision (ps_checkpoint s) \<and>
      co_authorDeviceKey op \<in> set (pc_admittedDeviceKeys (ps_checkpoint s)) \<and>
      co_authorDeviceKey op \<notin> set (pc_revokedDeviceKeys (ps_checkpoint s)) \<and>
      set (co_previousOperationIds op) \<subseteq> co_id ` set (ps_accepted s) \<and>
      (ps_checkpoint t = ps_checkpoint s \<and> co_kind op = ''membership.propose'' \<and> op \<in> set (ps_accepted t) \<or>
       assertSuccessor (ps_checkpoint t) s = Inr () \<and>
         (co_kind op = ''membership.commit'' \<and> commits_proposal op s \<or>
          co_kind op = ''device.revoke'' \<and> revokes op (ps_checkpoint t) s))) \<and>
    (\<forall>a \<in> set (ps_accepted s).
       scope_step L s t \<and> (co_authorizationRevision a = pc_revision (ps_checkpoint t) \<or>
         co_id a \<in> set (dependencyIds (live_pending t (ps_checkpoint t)))) \<longrightarrow> a \<in> set (ps_accepted t)) \<and>
    ((\<exists>x c'. x \<noteq> Inr Accepted \<and> (acceptProposal L op s = (x, t) \<or> commitTransition L op c' s = (x, t) \<or>
         revokeDevice L op c' s = (x, t))) \<longrightarrow> ps_accepted t = ps_accepted s \<and> ps_checkpoint t = ps_checkpoint s)"
proof -
  have "pinned r" using assms(1) by (auto simp: pinned_def)
  then have s: "scope_ok s" using private_life.reachable_good assms(2) by blast
  show ?thesis
  proof (intro conjI impI)
    assume "accepts_operation L op s t"
    with s obtain kind w where w: "unmoved s w" "accepted_to op kind (ps_checkpoint t) w t"
      and how: "kind = ''membership.propose'' \<and> ps_checkpoint t = ps_checkpoint w \<or>
       kind = ''membership.commit'' \<and> commits_proposal op w \<and> assertSuccessor (ps_checkpoint t) w = Inr () \<or>
       kind = ''device.revoke'' \<and> revokes op (ps_checkpoint t) w \<and> assertSuccessor (ps_checkpoint t) w = Inr ()"
      by (rule acceptance_cases)
    have "ready_for op kind w" using w(2) by (simp add: accepted_to_def)
    note facts = ready_facts [OF w(1) this]
    have same: "ps_checkpoint w = ps_checkpoint s" "ps_accepted w = ps_accepted s" using w(1) by (simp_all add: unmoved_def)
    then have "commits_proposal op w = commits_proposal op s" "revokes op (ps_checkpoint t) w = revokes op (ps_checkpoint t) s"
      "assertSuccessor (ps_checkpoint t) w = assertSuccessor (ps_checkpoint t) s"
      unfolding commits_proposal_def revokes_def assertSuccessor_def by (simp_all only: )
    moreover have "ps_checkpoint t = ps_checkpoint w \<Longrightarrow> op \<in> set (ps_accepted t)"
      using w(2) facts(4) same by (simp add: accepted_to_def)
    ultimately show "ps_checkpoint t = ps_checkpoint s \<and> co_kind op = ''membership.propose'' \<and> op \<in> set (ps_accepted t) \<or>
       assertSuccessor (ps_checkpoint t) s = Inr () \<and>
         (co_kind op = ''membership.commit'' \<and> commits_proposal op s \<or>
          co_kind op = ''device.revoke'' \<and> revokes op (ps_checkpoint t) s)"
      using how facts(2) same by auto
    show "ps_status s = ScopeActive" "co_scopeId op = pc_scopeId (ps_checkpoint s)"
      "co_authorizationRevision op = pc_revision (ps_checkpoint s)"
      "co_authorDeviceKey op \<in> set (pc_admittedDeviceKeys (ps_checkpoint s))"
      "co_authorDeviceKey op \<notin> set (pc_revokedDeviceKeys (ps_checkpoint s))"
      "set (co_previousOperationIds op) \<subseteq> co_id ` set (ps_accepted s)"
      using facts by blast+
  next
    show "\<forall>a \<in> set (ps_accepted s).
       scope_step L s t \<and> (co_authorizationRevision a = pc_revision (ps_checkpoint t) \<or>
         co_id a \<in> set (dependencyIds (live_pending t (ps_checkpoint t)))) \<longrightarrow> a \<in> set (ps_accepted t)"
      using step_carried [OF s] by (auto simp: carried_def)
  next
    assume "\<exists>x c'. x \<noteq> Inr Accepted \<and> (acceptProposal L op s = (x, t) \<or> commitTransition L op c' s = (x, t) \<or>
         revokeDevice L op c' s = (x, t))"
    then have "unmoved s t" by (auto elim: proposal_cases [OF s] commit_cases [OF s] revoke_cases [OF s])
    then show "ps_accepted t = ps_accepted s" "ps_checkpoint t = ps_checkpoint s" by (simp_all add: unmoved_def)
  qed
qed

lemma acceptance_is_authorized_witness:
  "commits_proposal scope_commit proposed_scope \<and>
   assertSuccessor (ps_checkpoint committed_scope) proposed_scope = Inr () \<and>
   co_authorDeviceKey scope_commit \<in> set (pc_admittedDeviceKeys (ps_checkpoint proposed_scope))"
proof -
  obtain c g owner where pin: "scope_pin c g owner = Inr pinned_scope" using pinned_scope_pinned by (auto simp: pinned_def)
  have "accepts_operation sample_lib scope_commit proposed_scope committed_scope"
    using commit_accepted by (auto simp: accepts_operation_def)
  moreover have "co_kind scope_commit = ''membership.commit''" by code_simp
  ultimately show ?thesis
    using acceptance_is_authorized [OF pin proposed_life, of scope_commit committed_scope] by auto
qed

text \<open>
  Two operations with one id freeze the scope: once an operation was accepted, another with its id
  and a different digest is refused, and after that nothing is accepted any more.
\<close>

lemma frozen_accepts_nothing:
  assumes "scope_ok s" and "ps_status s = ScopeFrozen" and "rtranclp (scope_step L) s t"
  shows "\<not> accepts_operation L op t u"
proof
  assume "accepts_operation L op t u"
  have "scope_ok t \<and> ps_status t = ScopeFrozen"
    using assms(3,1,2)
  proof (induction rule: rtranclp_induct)
    case (step x y)
    have "carried x y" using step_carried step.IH [OF step.prems] step.hyps(2) by blast
    then show ?case using step.IH [OF step.prems] by (simp add: carried_def)
  qed simp
  moreover obtain kind w where "unmoved t w" "ready_for op kind w"
    using acceptance_cases [OF _ \<open>accepts_operation L op t u\<close>] calculation unfolding accepted_to_def by blast
  ultimately show False using ready_facts(1) by fastforce
qed

lemma found_by_id:
  assumes "distinct (map co_id ops)" and "a \<in> set ops" and "co_id op = co_id a"
  shows "find (\<lambda>o'. co_id o' = co_id op) ops = Some a"
  using assms
proof (induction ops)
  case (Cons b ops)
  then show ?case by (cases "b = a") (auto simp: image_iff)
qed simp

theorem equivocation_freezes:
  assumes "scope_ok s" and "a \<in> set (ps_accepted s)" and "co_id op = co_id a" and "co_digest op \<noteq> co_digest a"
  shows "acceptProposal L op s = (Inl PrivateAuthorizationConflictError, quarantine s) \<and>
    (\<forall>t u op'. rtranclp (scope_step L) (quarantine s) t \<longrightarrow> \<not> accepts_operation L op' t u)"
proof -
  have "distinct (map co_id (ps_accepted s @ ps_pending s))"
    using assms(1) by (auto simp: scope_ok_def accepted_ok_def pending_ok_def sized_def)
  then have "find (\<lambda>o'. co_id o' = co_id op) (ps_accepted s @ ps_pending s) = Some a"
    by (rule found_by_id) (use assms(2,3) in simp_all)
  then have "assess L op ''membership.propose'' s = (Inl PrivateAuthorizationConflictError, quarantine s)"
    using assms by (auto simp: assess_def duplicateResult_def Let_def freeze_def list_ex_iff)
  then have "acceptProposal L op s = (Inl PrivateAuthorizationConflictError, quarantine s)" by (simp add: acceptProposal_def)
  moreover have "scope_ok (quarantine s)" "ps_status (quarantine s) = ScopeFrozen"
    using unmoved_quarantine [OF assms(1)] by (auto simp: unmoved_def quarantine_def)
  ultimately show ?thesis using frozen_accepts_nothing by blast
qed

section \<open>Freshness\<close>

text \<open>
  C15: A proof of freshness answers one challenge, once and in time. Whatever a gate issued and
  verified before, a proof that it accepts is a verified answer to a request that it issued to that
  device for that operation and the present checkpoint at most ten seconds ago, and that no proof
  answered since; it is not accepted again. The outstanding challenges of a device and of a scope
  are bounded.
\<close>

theorem fresh_proof_is_used_once:
  assumes "gate_life verifies G trace" and "verifyNow verifies now c op signedProof G = (Inr nonce, G')"
  shows "(\<exists>later c0 op0 issued request earlier. trace = later @ Issued c0 op0 issued request # earlier \<and>
      pc_scopeId c0 = pc_scopeId c \<and> pc_headHash c0 = pc_headHash c \<and> pc_revision c0 = pc_revision c \<and>
      co_authorDeviceKey op0 = co_authorDeviceKey op \<and> co_digest op0 = co_digest op \<and>
      now - issued \<le> 10000 \<and> request = freshness_request c0 op0 nonce \<and>
      verifies signedProof (pc_freshnessAuthorityKey c) request \<and>
      (\<forall>c1 op1 t n. Verified c1 op1 t n \<in> set later \<longrightarrow>
         \<not> (pc_scopeId c1 = pc_scopeId c \<and> co_authorDeviceKey op1 = co_authorDeviceKey op \<and> co_digest op1 = co_digest op))) \<and>
    co_authorDeviceKey op \<in> set (pc_admittedDeviceKeys c) \<and> co_authorDeviceKey op \<notin> set (pc_revokedDeviceKeys c) \<and>
    (\<forall>t p. \<not> isOK (fst (verifyNow verifies t c op p G'))) \<and>
    (\<forall>s a. length (entries_of (entries_of G s) a) \<le> MAX_CHALLENGES_PER_PRINCIPAL \<and>
       scopeSize (entries_of G s) \<le> MAX_CHALLENGES_PER_SCOPE)"
proof -
  obtain later c0 op0 issued request earlier where split: "trace = later @ Issued c0 op0 issued request # earlier"
    and facts: "pc_scopeId c0 = pc_scopeId c \<and> pc_headHash c0 = pc_headHash c \<and> pc_revision c0 = pc_revision c \<and>
      co_authorDeviceKey op0 = co_authorDeviceKey op \<and> co_digest op0 = co_digest op \<and>
      now - issued \<le> MAX_AGE_MILLISECONDS \<and> request = freshness_request c0 op0 nonce \<and>
      verifies signedProof (pc_freshnessAuthorityKey c) request \<and>
      no_proof later (pc_scopeId c) (co_authorDeviceKey op) (co_digest op)" and admitted: "assertAdmitted c op = Inr ()"
    using proof_answers_challenge [OF assms] by blast
  have none: "\<not> isOK (fst (verifyNow verifies t c op p G'))" for t p
  proof
    assume "isOK (fst (verifyNow verifies t c op p G'))"
    then obtain n H where again: "verifyNow verifies t c op p G' = (Inr n, H)" by (auto simp: isOK_iff prod_eq_iff)
    have good: "gate_good G" using gate_life_good [OF assms(1)] by blast
    obtain ch where "findChallenge (pc_scopeId c) (co_authorDeviceKey op) (co_digest op) G' = Some ch"
      using verify_facts(3) [OF verify_facts(1) [OF good assms(2)] again refl] by blast
    from verify_facts(2) [OF good assms(2) this, of nonce] show False by simp
  qed
  have "pc_scopeId c0 = pc_scopeId c \<and> pc_headHash c0 = pc_headHash c \<and> pc_revision c0 = pc_revision c \<and>
      co_authorDeviceKey op0 = co_authorDeviceKey op \<and> co_digest op0 = co_digest op \<and>
      now - issued \<le> 10000 \<and> request = freshness_request c0 op0 nonce \<and>
      verifies signedProof (pc_freshnessAuthorityKey c) request \<and>
      (\<forall>c1 op1 t n. Verified c1 op1 t n \<in> set later \<longrightarrow>
         \<not> (pc_scopeId c1 = pc_scopeId c \<and> co_authorDeviceKey op1 = co_authorDeviceKey op \<and> co_digest op1 = co_digest op))"
    using facts unfolding MAX_AGE_MILLISECONDS_def by blast
  with split have "\<exists>later c0 op0 issued request earlier. trace = later @ Issued c0 op0 issued request # earlier \<and>
      pc_scopeId c0 = pc_scopeId c \<and> pc_headHash c0 = pc_headHash c \<and> pc_revision c0 = pc_revision c \<and>
      co_authorDeviceKey op0 = co_authorDeviceKey op \<and> co_digest op0 = co_digest op \<and>
      now - issued \<le> 10000 \<and> request = freshness_request c0 op0 nonce \<and>
      verifies signedProof (pc_freshnessAuthorityKey c) request \<and>
      (\<forall>c1 op1 t n. Verified c1 op1 t n \<in> set later \<longrightarrow>
         \<not> (pc_scopeId c1 = pc_scopeId c \<and> co_authorDeviceKey op1 = co_authorDeviceKey op \<and> co_digest op1 = co_digest op))"
    by blast
  moreover have "co_authorDeviceKey op \<in> set (pc_admittedDeviceKeys c) \<and> co_authorDeviceKey op \<notin> set (pc_revokedDeviceKeys c)"
    using admitted by (simp add: assertAdmitted_def)
  ultimately show ?thesis using none gate_bounds [OF assms(1)] by blast
qed

definition sample_gate :: challenge_gate where
  "sample_gate = snd (issue 5 ''n'' scope_genesis scope_proposal [])"

abbreviation good_proof :: "string \<Rightarrow> string \<Rightarrow> string \<Rightarrow> bool" where
  "good_proof p signer request \<equiv> p = ''ok'' \<and> signer = ''a''"

lemma fresh_proof_is_used_once_witness:
  "(\<exists>q. gate_life good_proof sample_gate [Issued scope_genesis scope_proposal 5 q]) \<and>
   verifyNow good_proof 9 scope_genesis scope_proposal ''ok'' sample_gate = (Inr ''n'', []) \<and>
   \<not> isOK (fst (verifyNow good_proof 10 scope_genesis scope_proposal ''ok'' []))"
proof -
  have run: "verifyNow good_proof 9 scope_genesis scope_proposal ''ok'' sample_gate = (Inr ''n'', [])" by code_simp
  have "isOK (fst (issue 5 ''n'' scope_genesis scope_proposal []))" by code_simp
  then obtain q where q: "issue 5 ''n'' scope_genesis scope_proposal [] = (Inr q, sample_gate)"
    by (auto simp: isOK_iff sample_gate_def prod_eq_iff)
  from life_issue [OF life_start q] have life: "gate_life good_proof sample_gate [Issued scope_genesis scope_proposal 5 q]" by simp
  from fresh_proof_is_used_once [OF life run] life run show ?thesis by blast
qed

end
