(* ===== verification/Spec2Isabelle.thy ===== *)
theory Spec2Isabelle
  imports LedgerMemory CallGuarantees DeviceGuarantees ContentGuarantees PrivateGuarantees
begin

text \<open>
  A verification library for a node of the Pigeon swarm: its communities
  (\<open>src/contexts/communities/domain\<close>), its calls (\<open>src/contexts/calls\<close>), the signed public
  records that both the calls and other contexts replicate (\<open>src/contexts/public-mutations\<close>),
  the devices that speak for an identity (\<open>src/contexts/identity-devices\<close>), the contents that
  nodes hold for each other (\<open>src/contexts/content-replication\<close>), and the authorization of private
  scopes (\<open>src/contexts/private-authorization\<close>).

  A community is replicated without a server: every node holds a set of signed, content addressed
  operations, each naming the operations it builds on, and derives the state of the community by
  folding that set. The theories follow the code:

  \<^item> \<open>Prelude\<close>: errors as sums (\<open>bindR\<close>, \<open>mapR\<close>), JavaScript maps, sets and JSON values as lists.
  \<^item> \<open>Values\<close>: the value objects; the packages \<open>@haskou/value-objects\<close> and
    \<open>@haskou/pigeon-swarm-crypto\<close>, which are not in the repository, are the fields of the parameter
    \<open>lib\<close>, of which \<open>lib_ok\<close> assumes that the value of a value object is accepted and kept by its
    own constructor.
  \<^item> \<open>CommunityMembership\<close>, \<open>CommunityChannels\<close>, \<open>Community\<close>, \<open>CommunityActions\<close>: the aggregate
    (\<open>Community.ts\<close>, \<open>entities/\<close>, \<open>asserts/\<close>): state, access checks, every method that changes it,
    its invariant \<open>community_inv\<close> and the proof that each method keeps it.
  \<^item> \<open>CommunityOperation\<close>, \<open>OperationBuilder\<close>: the record of an operation, the builder that refuses
    every record that does not commit to its content, and what a built operation satisfies.
  \<^item> \<open>CommunityInvitations\<close>, \<open>CommunityRebase\<close>, \<open>RebaseIdentity\<close>: invitations and their status; the
    three way merge of what an operation carries.
  \<^item> \<open>CommunityApplier\<close>: one definition per handler; the relation \<open>acts\<close> of the steps the aggregate
    permits, who may take them and what they may change.
  \<^item> \<open>CommunityValues\<close>: the round trip through primitives that the code uses as a copy.
  \<^item> \<open>OperationGraph\<close>, \<open>OperationAncestry\<close>: order, closure, frontier and ancestry of the operations;
    the specification \<open>canonical\<close> (smallest digest first among those whose parents were emitted) in
    the locale \<open>digest_dag\<close>, interpreted on the operations whose past is known.
  \<^item> \<open>CutComponents\<close>, \<open>ComponentSearch\<close>, \<open>AuthorityCuts\<close>, \<open>CutsSafety\<close>: the strongly connected
    components of the cuts and the correctness of the search for them, which concurrent removals of authority stand,
    and what they void.
  \<^item> \<open>StateFold\<close>, \<open>FoldSafety\<close>, \<open>FoldConcurrency\<close>: the fold, that it returns a well formed state for
    every set of built operations, converges, and changes nothing without authority: the history of
    the folded community (\<open>evolves\<close>), and since which admission a member belongs to it (\<open>remains\<close>).
  \<^item> \<open>Ledger\<close>: admission of operations, judged at their causal past.
  \<^item> \<open>CutsExtension\<close>, \<open>LedgerRefinement\<close>, \<open>LedgerMemory\<close>: the states a ledger remembers are the folds
    they stand for, so a ledger with its memory admits what one without it admits; a history with a
    respelled identity argument on which the two differ.
  \<^item> \<open>Samples\<close>: a small history on which the properties are applied.

  A call is replicated by three kinds of signed records, its start, the state of a participant and
  its end. A node judges each record, keeps the strongest of every place, and folds what it keeps:

  \<^item> \<open>Calls\<close>: the aggregate \<open>Call.ts\<close> with its participants, life and scope, the relation
    \<open>call_step\<close> of its operations and the invariant \<open>call_ok\<close> they keep.
  \<^item> \<open>PublicMutations\<close>: the proof of a public record, its strict decoder, and the order by which
    one record replaces another; the locale \<open>register\<close> of a place that keeps the stronger record,
    interpreted on \<open>keep\<close> of the calls in \<open>CallFold\<close>.
  \<^item> \<open>MutationGate\<close>, \<open>CallPolicies\<close>: the verdict on a record, and what the three policies of calls
    require. What a policy looks up is the record \<open>call_world\<close>, arbitrary in every theorem; the
    authorization of devices, an abstract port in the code, is an argument.
  \<^item> \<open>CallFold\<close>, \<open>CallProjection\<close>: the fold of the records of a call, the projection of all calls
    with its lookup indexes, which call of a channel is live; runs of accepted records and timeouts.
  \<^item> \<open>CallSignals\<close>: the signals of a call, the schedule of their deliveries, the repository, the
    use cases and the rounds of the maintenance runtime.
  \<^item> \<open>CallSamples\<close>, \<open>CallGuarantees\<close>: two calls in one voice channel, and the properties of calls.

  An identity speaks through devices. Signed transitions enroll and revoke them, and a recovery,
  signed by the recovery key of the identity, starts over with one device. Every node replays the
  transitions it knows, whatever others it has not seen, and exchanges them in documents:

  \<^item> \<open>DeviceTransitions\<close>, \<open>DeviceAuthorizations\<close>: the value objects, the transition with what is signed
    of it and its record, the aggregate \<open>DeviceAuthorization.ts\<close> with its invariant
    \<open>authorization_ok\<close>, the caps on compromised devices, and the timeline that tells who was
    authorized at a revision.
  \<^item> \<open>DeviceReplay\<close>, \<open>DeviceConvergence\<close>: \<open>DeviceAuthorizationPolicy.ts\<close>: when a transition applies, the
    replay of candidates revision by revision, the lineage of recoveries; the relation \<open>replay_run\<close>
    of the steps of a replay, what its states hold, and that it does not depend on the order.
  \<^item> \<open>JsonText\<close>, \<open>DeviceRecords\<close>: \<open>JSON.stringify\<close> tells documents of plain values apart, so the text
    of the canonicalizer identifies a record.
  \<^item> \<open>DeviceSources\<close>, \<open>DeviceReplayer\<close>, \<open>DevicePages\<close>: the sources of a document, the checkpoint they
    agree on, what is replayed of them, and the log that is disclosed page by page.
  \<^item> \<open>DeviceDocuments\<close>, \<open>DeviceMerge\<close>, \<open>DeviceLineage\<close>: the bounds of a document, its making, when it is
    valid, how two are merged, what a transition makes of one, and the evidence of an overflow.
  \<^item> \<open>AuthorPort\<close>, \<open>DeviceGate\<close>: the port through which the gate of public records asks who may sign,
    a locale, and its interpretation on what the code does: it reads the timeline of an identity
    through lookups that live a second; how a device came to be authorized (\<open>let_in_before\<close>).
  \<^item> \<open>DevicePayloads\<close>: how long what a recovery signs gets.
  \<^item> \<open>DeviceSamples\<close>, \<open>DeviceGuarantees\<close>: an identity with devices, and the properties of devices.

  The genesis of an identity that a node trusts, found by its routing, and the document it holds are
  arguments. A property of a document that is \<open>undefined\<close> and one that is absent are the same.

  An identity asks its networks to hold a content by a signed registration. Every node judges it by
  the quota of its owner, places the content on some nodes of the network, and holds what it is
  responsible for as far as its budget goes:

  \<^item> \<open>ContentBudget\<close>: registrations, and the allocator that shares the budget of a network among the
    owners, with the proof that the sharing is fair.
  \<^item> \<open>ContentPlacement\<close>: how many nodes hold a content and which, the status of a node and the round
    that maintains what it holds. The digest, the peers and the storage are arguments.
  \<^item> \<open>ContentQuota\<close>: the policy of the records of registrations, an instance of the policies of
    \<open>MutationGate\<close>, with the digests of proofs it remembers as explicit state.
  \<^item> \<open>ContentGuarantees\<close>: the properties, and two ways in which the quota is evaded.

  A private scope (a conversation or a community whose content is encrypted) has a chain of
  checkpoints, which say the devices that are admitted. Signed operations propose changes, put
  proposals into effect and revoke devices; what arrives too early waits:

  \<^item> \<open>PrivateCheckpoint\<close>: checkpoints, operations, and the graph of dependencies, whose search for a
    cycle is proved to find one exactly when there is one.
  \<^item> \<open>PrivateScope\<close>: the aggregate \<open>PrivateAuthorizationScope.ts\<close>. Its methods may throw after they
    have changed it, so each returns the scope it leaves beside its result or error (\<open>thenS\<close>).
  \<^item> \<open>PrivateBounds\<close>, \<open>PrivateSteps\<close>: what the compaction retains, the invariant \<open>scope_ok\<close>, and what
    each method makes of a scope, on every branch.
  \<^item> \<open>PrivateFreshness\<close>: the challenges of \<open>InMemoryPrivateFreshnessGate.ts\<close>, with the trace of what
    the gate issued and verified.
  \<^item> \<open>PrivateReservations\<close>: the quota of provisioned storage and the reservation of a child.
  \<^item> \<open>PrivateGuarantees\<close>: the relation \<open>scope_step\<close> of what a node does to a scope, and the properties.

  The locale \<open>machine\<close> of \<open>Prelude\<close> (states, steps, an invariant) is interpreted on the steps of a
  call, on what a node does to its projection, and on the life of a private scope; \<open>bounded_machine\<close>, which adds a measure that every
  step lowers, on the rounds of the maintenance.

  Loops: all are total functions with a measure, except the order, a
  \<open>partial_function (option)\<close> that is proved to return (C6). A replay of devices goes through the
  groups of revisions it has not passed (\<open>groups_ahead\<close>), the search for recoveries that lost through
  the candidates not yet held, the admission of a document through its nodes. The fold recurs on the causal past of
  each operation, which has fewer digests. No fuel is used. The rounds of the maintenance runtime
  take a list of clock readings; C40 says how many rounds are enough.

  Strings are lists of 8-bit characters; object identity of operations is equality of the records,
  which the digest makes the same thing. The times of value objects are integers.

  Not modelled: the other contexts of the repository, and of the communities the use cases, the
  repositories and the HTTP and OrbitDB adapters, which load, call the code above and store; drafts,
  pins, threads, reactions and MLS records; the generation of random ids. Of the calls: participant
  leases and media connections, the use cases that start and join a call, the repository over
  OrbitDB, and those who wait for the projection to change. Of the devices: sealing records and sealed
  secrets, the routing that finds the trusted genesis, the lock of an identity, the cache of the
  validator and the registry that a document is saved to, and the events that are published. Of private
  authorization: the verification of signed frames and genesis, the acceptor that composes scope, gate
  and storage, and the local database but for the order in which it gives the pending operations
  back (\<open>stored_scope\<close>). Of the contents: storing and
  publishing them, the sniffing of types, the summary of the status. The memo of past states
  of the fold (\<open>pasts\<close>) is not a variable of the model: \<open>remembered_past_is_sound\<close> shows that sharing
  those states is sound.
\<close>

section \<open>The folded state\<close>

text \<open>
  C1: the fold of operations that passed the builder returns a state, whatever operations they
  are: it never throws and never loops. The state is well formed: its community keeps the
  invariant of the aggregate or lost its last member, in which case it is marked deleted.
\<close>

theorem fold_total:
  assumes "lib_ok L" and "operations_built L ops"
  shows "\<exists>st. fold_operations L ops = Inr st \<and> state_ok L st"
  unfolding fold_operations_def using foldOf_total [OF assms(1) operations_built_ok [OF assms]] .

theorem fold_total_witness:
  "lib_ok sample_lib \<and> operations_built sample_lib (sample_forged # sample_history) \<and>
   (\<exists>st. fold_operations sample_lib (sample_forged # sample_history) = Inr st \<and> state_ok sample_lib st)"
  using fold_total [OF sample_lib_ok sample_built] sample_lib_ok sample_built by simp

text \<open>
  C2: replicas converge: the folded state is a function of the set of operations, not of the
  order in which they arrived or of duplicates, provided that no digest is shared by two of them.
\<close>

theorem fold_converges:
  assumes "lib_ok L" and "operations_built L ops" and "inj_on op_hash (set ops)" and "set ops = set ops'"
  shows "fold_operations L ops = fold_operations L ops'"
  unfolding fold_operations_def
  by (rule foldOf_converges [OF assms(3,4) operations_ok_distinct [OF operations_built_ok [OF assms(1,2)]]])

theorem fold_converges_witness:
  "fold_operations sample_lib sample_history = fold_operations sample_lib sample_shuffled \<and>
   sample_history \<noteq> sample_shuffled"
  using fold_converges [OF sample_lib_ok sample_history_built sample_inj sample_same]
  by (simp add: sample_history_def sample_shuffled_def sample_defs)

text \<open>
  C3: everything in the folded community was put there with authority: it evolved from a
  genesis of the set only by steps that the aggregate permits to the author of an operation of
  the set, each taken while the community had members.
\<close>

theorem fold_authority:
  assumes "lib_ok L" and "operations_built L ops" and "fold_operations L ops = Inr st"
    and "st_community st = Some c"
  shows "evolves L (set ops) c"
  using foldOf_history [OF assms(1) operations_built_ok [OF assms(1,2)]] assms(3,4)
  by (simp add: fold_operations_def)

definition sample_state :: "community_state throws" where
  "sample_state = fold_operations sample_lib (sample_forged # sample_history)"

text \<open>The folded sample: \<open>bo\<close> was kicked, the role exists once, the forged operation was skipped.\<close>

lemma sample_state_folded:
  obtains st c where "fold_operations sample_lib (sample_forged # sample_history) = Inr st"
    "st_community st = Some c" "c_owner c = ''ana''" "members (c_membership c) = [''ana'']"
    "st_skipped st = [sample_hash (CHR ''F'')]" "\<not> st_deleted st"
proof -
  have "case sample_state of
      Inr st \<Rightarrow> (case st_community st of
          Some c \<Rightarrow> c_owner c = ''ana'' \<and> members (c_membership c) = [''ana''] \<and>
                    st_skipped st = [sample_hash (CHR ''F'')] \<and> \<not> st_deleted st
        | None \<Rightarrow> False)
    | Inl e \<Rightarrow> False"
    by code_simp
  then show thesis using that by (auto simp: sample_state_def split: sum.splits option.splits)
qed

theorem fold_authority_witness:
  "\<exists>st c. fold_operations sample_lib (sample_forged # sample_history) = Inr st \<and> st_community st = Some c \<and>
     members (c_membership c) = [''ana''] \<and> evolves sample_lib (set (sample_forged # sample_history)) c"
  using fold_authority [OF sample_lib_ok sample_built] sample_state_folded by metis

text \<open>
  C4: whoever is a member of the folded community created it with a genesis of the set, or was let
  in by an admission of the set that names it: the admission's argument \<open>identityId\<close> is the
  identity that became a member, by applying that admission at a community the set leads to whose
  members it was not among. There the author of the admission held the permission to manage or
  approve members, or was the identity itself where joining is automatic, and the identity was
  not banned. From that step on it stayed a member, up to the folded community.
\<close>

theorem fold_member_provenance:
  assumes "lib_ok L" and "operations_built L ops" and "fold_operations L ops = Inr st"
    and "st_community st = Some c" and "m \<in> set (members (c_membership c))"
  shows "(\<exists>g \<in> set ops. \<exists>d. isGenesis g \<and> op_author g = m \<and> apply_create L g = Inr d \<and>
      remains L (set ops) m (pullDomainEvents d) c) \<or>
    (\<exists>op \<in> set ops. \<exists>s. op_action op = MEMBER_JOINED \<and>
      map_of (op_args op) ''identityId'' = Some (JString s) \<and> new_IdentityId L s = Inr m \<and> isCanonicalKey L m \<and>
      (\<exists>d base d'. evolves L (set ops) d \<and> apply_operation L (copy_of d) op base = Inr d' \<and>
        m \<notin> set (members (c_membership d)) \<and> remains L (set ops) m (pullDomainEvents d') c \<and>
        m \<notin> set (bannedMembers (c_membership d)) \<and>
        (holds d (op_author op) MANAGE_MEMBERS \<or> holds d (op_author op) APPROVE_MEMBERS \<or>
         (op_author op = m \<and> autoJoinEnabled (c_settings d)))))"
  using evolves_member [OF foldOf_history [OF assms(1) operations_built_ok [OF assms(1,2)]]] assms(3-5)
  by (simp add: fold_operations_def)

text \<open>\<open>bo\<close> is a member of the community that \<open>ana\<close> founded: an admission names him, and he did not found it.\<close>

theorem fold_member_provenance_witness:
  "\<exists>st c op. fold_operations sample_lib [sample_join, sample_genesis] = Inr st \<and> st_community st = Some c \<and>
    ''bo'' \<in> set (members (c_membership c)) \<and> op \<in> {sample_join, sample_genesis} \<and>
    op_action op = MEMBER_JOINED \<and> map_of (op_args op) ''identityId'' = Some (JString ''bo'') \<and>
    (\<exists>d base d'. evolves sample_lib {sample_join, sample_genesis} d \<and>
      apply_operation sample_lib (copy_of d) op base = Inr d' \<and> ''bo'' \<notin> set (members (c_membership d)) \<and>
      remains sample_lib {sample_join, sample_genesis} ''bo'' (pullDomainEvents d') c)"
proof -
  let ?ops = "[sample_join, sample_genesis]"
  have b: "operations_built sample_lib ?ops"
    using sample_join_built sample_genesis_built by (auto simp: operations_built_def)
  have "case fold_operations sample_lib ?ops of
      Inr st \<Rightarrow> (case st_community st of Some c \<Rightarrow> ''bo'' \<in> set (members (c_membership c)) | None \<Rightarrow> False)
    | Inl e \<Rightarrow> False"
    by code_simp
  then obtain st c where st: "fold_operations sample_lib ?ops = Inr st" "st_community st = Some c"
    "''bo'' \<in> set (members (c_membership c))" by (auto split: sum.splits option.splits)
  have no: "\<not> (isGenesis g \<and> op_author g = ''bo'')" if "g \<in> set ?ops" for g
    using that by (auto simp: sample_defs isGenesis_def action_isGenesis_def)
  have name: "s = m" if "new_IdentityId sample_lib s = Inr m" for s m
    using that by (simp add: new_IdentityId_def value_object_def sample_lib_def split: option.splits)
  from fold_member_provenance [OF sample_lib_ok b st] no obtain op s d base d' where
    op: "op \<in> set ?ops" "op_action op = MEMBER_JOINED" "map_of (op_args op) ''identityId'' = Some (JString s)"
      "new_IdentityId sample_lib s = Inr ''bo''"
    and d: "evolves sample_lib (set ?ops) d" "apply_operation sample_lib (copy_of d) op base = Inr d'"
      "''bo'' \<notin> set (members (c_membership d))" "remains sample_lib (set ?ops) ''bo'' (pullDomainEvents d') c"
    by (elim disjE bexE exE conjE) (blast, rule that)
  have "s = ''bo''" by (rule name [OF op(4)])
  with op d st show ?thesis
    by (intro exI [of _ st] exI [of _ c] exI [of _ op] exI [of _ d] exI [of _ base] exI [of _ d'] conjI) simp_all
qed

text \<open>
  The owner, the id and the network of the folded community are those of a genesis of the
  set, and the aggregate keeps its invariant as long as it has members.
\<close>

theorem fold_founder:
  assumes "lib_ok L" and "operations_built L ops" and "fold_operations L ops = Inr st"
    and "st_community st = Some c"
  shows "(community_inv c \<or> \<not> hasMembers (c_membership c)) \<and>
    (\<exists>g \<in> set ops. isGenesis g \<and> c_owner c = op_author g \<and> c_id c = op_communityId g \<and> c_network c = op_networkId g)"
  using evolves_ok [OF foldOf_history [OF assms(1) operations_built_ok [OF assms(1,2)]]] assms(3,4)
  by (simp add: fold_operations_def)

theorem fold_founder_witness:
  "\<exists>st c. fold_operations sample_lib (sample_forged # sample_history) = Inr st \<and> st_community st = Some c \<and>
    community_inv c \<and>
    (\<exists>g \<in> set (sample_forged # sample_history). isGenesis g \<and> c_owner c = op_author g \<and>
       c_id c = op_communityId g \<and> c_network c = op_networkId g)"
proof (rule sample_state_folded)
  fix st c
  assume st: "fold_operations sample_lib (sample_forged # sample_history) = Inr st" "st_community st = Some c"
    and "members (c_membership c) = [''ana'']"
  then have "hasMembers (c_membership c)" by (simp add: hasMembers_def)
  then show ?thesis using fold_founder [OF sample_lib_ok sample_built st] st by blast
qed

section \<open>Order and ancestry\<close>

text \<open>
  C6: the order always exists; it holds exactly the operations all of whose ancestors are known,
  every operation after its parents, and at every position the smallest digest among those
  whose parents were already emitted.
\<close>

theorem order_is_canonical:
  assumes "distinct_parents ops"
  shows "\<exists>xs. orderOf ops = Some xs \<and> causal xs \<and>
    (\<forall>op. op \<in> set xs \<longleftrightarrow> rooted ops (op_hash op) \<and> map_of (knownOf ops) (op_hash op) = Some op) \<and>
    canonical {h. rooted ops h} (parents_in ops) {} (map op_hash xs)"
  using orderOf_canonical [OF assms] orderOf_causal [OF assms] orderOf_members [OF assms] by blast

theorem order_is_canonical_witness:
  "distinct_parents sample_history \<and>
   (\<exists>xs. orderOf sample_history = Some xs \<and> causal xs \<and>
    (\<forall>op. op \<in> set xs \<longleftrightarrow> rooted sample_history (op_hash op) \<and>
       map_of (knownOf sample_history) (op_hash op) = Some op) \<and>
    canonical {h. rooted sample_history h} (parents_in sample_history) {} (map op_hash xs))"
  using order_is_canonical [of sample_history]
    operations_ok_distinct [OF operations_built_ok [OF sample_lib_ok sample_history_built]] by blast

text \<open>
  An operation whose past is not fully known never matters: folding only the ordered
  operations gives the same state.
\<close>

theorem fold_ignores_dangling:
  assumes "distinct_parents ops" and "orderOf ops = Some xs"
  shows "fold_operations L ops = fold_operations L xs"
  unfolding fold_operations_def by (rule foldOf_ordered [OF assms])

theorem fold_ignores_dangling_witness:
  "orderOf [sample_genesis, sample_kick] = Some [sample_genesis] \<and>
   fold_operations sample_lib [sample_genesis, sample_kick] = fold_operations sample_lib [sample_genesis]"
proof -
  have "orderOf [sample_genesis, sample_kick] = Some [sample_genesis]" by code_simp
  then show ?thesis
    using fold_ignores_dangling [of "[sample_genesis, sample_kick]" "[sample_genesis]" sample_lib]
    by (simp add: distinct_parents_def sample_defs op_parents_def)
qed

text \<open>
  C8: \<open>isAncestor\<close>, the walk bounded by positions, decides the transitive closure of the parent
  relation, which is irreflexive; two operations are concurrent when neither precedes the other.
\<close>

theorem ancestry_is_closure:
  assumes "causal xs"
  shows "(isAncestor (new_Ancestry xs) a b \<longleftrightarrow> precedes xs a b) \<and> \<not> isAncestor (new_Ancestry xs) a a \<and>
    (areConcurrent (new_Ancestry xs) a b \<longleftrightarrow> a \<noteq> b \<and> \<not> precedes xs a b \<and> \<not> precedes xs b a)"
  using isAncestor_iff [OF assms] precedes_irrefl [OF assms] areConcurrent_iff [OF assms] by auto

lemma sample_causal: "causal [sample_genesis, sample_join, sample_kick, sample_role]"
proof -
  have "orderOf sample_history = Some [sample_genesis, sample_join, sample_kick, sample_role]" by code_simp
  then show ?thesis
    using orderOf_causal operations_ok_distinct [OF operations_built_ok [OF sample_lib_ok sample_history_built]] by blast
qed

theorem ancestry_is_closure_witness:
  "causal [sample_genesis, sample_join, sample_kick, sample_role] \<and>
   precedes [sample_genesis, sample_join, sample_kick, sample_role] (op_hash sample_genesis) (op_hash sample_kick)"
proof -
  have "isAncestor (new_Ancestry [sample_genesis, sample_join, sample_kick, sample_role])
      (op_hash sample_genesis) (op_hash sample_kick)" by code_simp
  then show ?thesis using ancestry_is_closure [OF sample_causal] sample_causal by blast
qed

text \<open>
  The closure of some known digests is exactly the operations in their causal past, each
  once; it throws only when an operation of that past is missing.
\<close>

theorem closure_is_past:
  assumes "causal xs" and "set parents \<subseteq> op_hash ` set xs"
  shows "\<exists>cl. closureOf xs parents = Inr cl \<and> distinct (map op_hash cl) \<and> set cl \<subseteq> set xs \<and>
    op_hash ` set cl = past xs parents"
proof -
  obtain cl where cl: "closureOf xs parents = Inr cl" using closureOf_total [OF assms] by blast
  moreover have "set cl \<subseteq> set xs" using closureOf_spec(2) [OF cl] causal_known [OF assms(1)] by blast
  ultimately show ?thesis using closureOf_spec(1,3) [OF cl] by blast
qed

theorem closure_is_past_witness:
  "\<exists>cl. closureOf [sample_genesis, sample_join, sample_kick, sample_role] [op_hash sample_join] = Inr cl \<and>
     distinct (map op_hash cl) \<and> set cl \<subseteq> {sample_genesis, sample_join, sample_kick, sample_role} \<and>
     op_hash ` set cl = past [sample_genesis, sample_join, sample_kick, sample_role] [op_hash sample_join]"
  using closure_is_past [OF sample_causal, of "[op_hash sample_join]"] by simp

text \<open>
  An operation that \<open>advance\<close> does not flag as concurrent was built on every operation
  before it, so it needs no rebase; the heads at the end are the frontier.
\<close>

theorem not_concurrent_is_latest:
  assumes "causal (us @ op # vs)" and "distinct (op_parents op)"
    and "\<not> snd (advance (heads_after us) op)"
  shows "past (us @ op # vs) (op_parents op) = op_hash ` set us \<and>
    set (heads_after (us @ op # vs)) = set (frontierOf (us @ op # vs))"
  using advance_not_concurrent [OF assms] heads_are_frontier [OF assms(1)] by simp_all

theorem not_concurrent_is_latest_witness:
  "past [sample_genesis, sample_join, sample_kick, sample_role] (op_parents sample_kick) =
     {op_hash sample_genesis, op_hash sample_join}"
proof -
  have "\<not> snd (advance (heads_after [sample_genesis, sample_join]) sample_kick)" by code_simp
  then show ?thesis
    using not_concurrent_is_latest [of "[sample_genesis, sample_join]" sample_kick "[sample_role]"] sample_causal
    by (simp add: sample_kick_def sample_op_def op_parents_def)
qed

text \<open>
  Remembering the states of causal pasts is sound: two sets that hold the same operations
  of a past give it the same state, whatever the order of the parents.
\<close>

theorem remembered_past_is_sound:
  assumes "inj_on op_hash (set xs)" "inj_on op_hash (set ys)" "distinct_parents xs" "distinct_parents ys"
    and "closureOf xs ps = Inr cl" "closureOf ys qs = Inr cl'" "set cl \<subseteq> set ys" "set ps = set qs"
  shows "foldOf L cl = foldOf L cl'"
  by (rule past_state_shared [OF assms])

theorem remembered_past_is_sound_witness:
  "\<exists>cl cl'. closureOf sample_history [op_hash sample_join, op_hash sample_role] = Inr cl \<and>
     closureOf sample_shuffled [op_hash sample_role, op_hash sample_join] = Inr cl' \<and>
     cl \<noteq> cl' \<and> foldOf sample_lib cl = foldOf sample_lib cl'"
proof -
  let ?cl = "[sample_role, sample_genesis, sample_join]" and ?cl' = "[sample_join, sample_genesis, sample_role]"
  have "closureOf sample_history [op_hash sample_join, op_hash sample_role] = Inr ?cl"
    "closureOf sample_shuffled [op_hash sample_role, op_hash sample_join] = Inr ?cl'" by code_simp+
  moreover have "distinct_parents sample_history" "distinct_parents sample_shuffled"
    using operations_ok_distinct [OF operations_built_ok [OF sample_lib_ok sample_history_built]] sample_same
    by (simp_all add: distinct_parents_def)
  ultimately have "foldOf sample_lib ?cl = foldOf sample_lib ?cl'"
    using sample_inj sample_same
    by (intro remembered_past_is_sound [of sample_history sample_shuffled
          "[op_hash sample_join, op_hash sample_role]" ?cl "[op_hash sample_role, op_hash sample_join]" ?cl'])
      (auto simp: sample_shuffled_def)
  moreover have "?cl \<noteq> ?cl'" by (simp add: sample_defs)
  ultimately show ?thesis
    using \<open>closureOf sample_history _ = _\<close> \<open>closureOf sample_shuffled _ = _\<close> by blast
qed

section \<open>The aggregate\<close>


definition sample_founded :: community where
  "sample_founded = (case apply_create sample_lib sample_genesis of Inr c \<Rightarrow> c)"

definition sample_joined :: community where
  "sample_joined = (case apply_operation sample_lib sample_founded sample_join None of Inr c \<Rightarrow> c)"

lemma sample_founded: "apply_create sample_lib sample_genesis = Inr sample_founded"
  by code_simp

lemma sample_joined: "apply_operation sample_lib sample_founded sample_join None = Inr sample_joined"
  by code_simp

lemma sample_members: "members (c_membership sample_founded) = [''ana'']" "c_owner sample_founded = ''ana''"
  "members (c_membership sample_joined) = [''ana'', ''bo'']" "c_owner sample_joined = ''ana''"
  by code_simp+




text \<open>
  C13: an operation that changes channels, roles, bans, other members or issues an invitation is
  applied only when its author holds the permission of that action; a change of the profile only
  for the owner; and only for the community and the network it names.
\<close>

theorem apply_needs_authority:
  assumes "apply_operation L c op base = Inr c'"
  shows "(\<forall>p. required_permission (op_action op) = Some p \<longrightarrow> holds c (op_author op) p) \<and>
    (op_action op = COMMUNITY_UPDATED \<longrightarrow> op_author op = c_owner c) \<and>
    op_communityId op = c_id c \<and> op_networkId op = c_network c \<and> \<not> isGenesis op"
  using acts_authority [OF apply_operation_acts [OF assms]] apply_operation_scope [OF assms]
    acts_profile_owner [of "op_author op" c c'] apply_operation_acts [OF assms] by auto

definition sample_kicked :: community where
  "sample_kicked = (case apply_operation sample_lib sample_joined sample_kick None of Inr c \<Rightarrow> c)"

lemma sample_kicked: "apply_operation sample_lib sample_joined sample_kick None = Inr sample_kicked"
  by code_simp

theorem apply_needs_authority_witness:
  "holds sample_joined (op_author sample_kick) MANAGE_MEMBERS \<and> op_author sample_kick = ''ana'' \<and>
   \<not> isOK (apply_operation sample_lib sample_joined sample_forged None)"
proof -
  have "op_action sample_kick = MEMBER_KICKED" "op_author sample_kick = ''ana''"
    by (simp_all add: sample_kick_def sample_op_def)
  moreover have "\<not> isOK (apply_operation sample_lib sample_joined sample_forged None)" by code_simp
  ultimately show ?thesis using apply_needs_authority [OF sample_kicked] by simp
qed



text \<open>
  Whoever stops being a member left, or was kicked or banned by a holder of that permission;
  nobody takes the owner out, and the owner leaves only as the last member.
\<close>

theorem owner_is_never_taken_out:
  assumes "acts i a c c'" and "m \<in> set (members (c_membership c))" and "m \<notin> set (members (c_membership c'))"
  shows "(a = MEMBER_LEFT \<and> i = m \<and> (m = c_owner c \<longrightarrow> length (members (c_membership c)) = 1)) \<or>
    (m \<noteq> c_owner c \<and> (a = MEMBER_KICKED \<and> holds c i MANAGE_MEMBERS \<or> a = MEMBER_BANNED \<and> holds c i BAN_MEMBERS))"
  by (rule acts_goes_out [OF assms])

lemma sample_kicked_acts: "acts ''ana'' MEMBER_KICKED sample_joined sample_kicked"
  using apply_operation_acts [OF sample_kicked] by (simp add: sample_kick_def sample_op_def)

theorem owner_is_never_taken_out_witness:
  "''bo'' \<in> set (members (c_membership sample_joined)) \<and> ''bo'' \<notin> set (members (c_membership sample_kicked)) \<and>
   ''bo'' \<noteq> c_owner sample_joined \<and> holds sample_joined ''ana'' MANAGE_MEMBERS"
proof -
  have "''bo'' \<notin> set (members (c_membership sample_kicked))" by code_simp
  then show ?thesis using owner_is_never_taken_out [OF sample_kicked_acts, of "''bo''"] sample_members by simp
qed

text \<open>
  An identity outside the community changes nothing by any operation, except that it joins
  where joining is automatic and it is not banned.
\<close>

theorem outsiders_change_nothing:
  assumes "apply_operation L c op base = Inr c'"
    and "op_author op \<noteq> c_owner c" and "op_author op \<notin> set (members (c_membership c))"
  shows "(op_action op = INVITATION_REVOKED \<and> c' = c) \<or>
    (op_action op = MEMBER_JOINED \<and> autoJoinEnabled (c_settings c) \<and>
     op_author op \<notin> set (bannedMembers (c_membership c)) \<and>
     members (c_membership c') = members (c_membership c) @ [op_author op])"
  by (rule acts_outsider [OF apply_operation_acts [OF assms(1)] assms(2,3)])

theorem outsiders_change_nothing_witness:
  "op_author sample_join \<notin> set (members (c_membership sample_founded)) \<and>
   autoJoinEnabled (c_settings sample_founded) \<and> members (c_membership sample_joined) = [''ana'', ''bo'']"
proof -
  have "op_action sample_join = MEMBER_JOINED" "op_author sample_join = ''bo''"
    by (simp_all add: sample_join_def sample_op_def)
  then show ?thesis using outsiders_change_nothing [OF sample_joined] sample_members by simp
qed

text \<open>
  C17: a community whose values were accepted by their constructors survives being written to
  primitives and read back: only the empty avatar and the empty banner, and the events, are dropped.
\<close>

theorem primitives_round_trip:
  assumes "values_ok L c"
  shows "fromPrimitives L (toPrimitives c) = Inr (copy_of c) \<and> values_ok L (copy_of c) \<and>
    (community_inv c \<longrightarrow> community_inv (copy_of c))"
  using community_roundtrip [OF assms] assms by simp

theorem primitives_round_trip_witness:
  "values_ok sample_lib sample_joined \<and>
   fromPrimitives sample_lib (toPrimitives sample_joined) = Inr (sample_joined\<lparr>c_events := []\<rparr>)"
proof -
  have "op_values sample_lib sample_genesis" "op_values sample_lib sample_join"
    by (simp_all add: op_values_def sample_defs sample_lib_def value_defs)
  then have "values_ok sample_lib sample_joined"
    using apply_create_values [OF sample_lib_ok _ sample_founded] apply_operation_values [OF sample_lib_ok _ sample_joined]
    by blast
  moreover have "copy_of sample_joined = sample_joined\<lparr>c_events := []\<rparr>" by code_simp
  ultimately show ?thesis using primitives_round_trip by metis
qed

section \<open>Operations and what they carry\<close>

text \<open>
  C18: an operation exists only when its record commits to its content: its parents are digests
  in strictly ascending order and at most \<open>MAX_PARENTS\<close>, it is a genesis exactly when it has no
  parents, its id is the digest of its content, its time is a safe integer and its arguments
  respect the limits of size and depth.
\<close>

theorem builder_guarantees:
  assumes "lib_ok L" and "operation_fromPrimitives L v = Inr op"
  shows "built_operation L op"
  by (rule operation_built [OF assms])

theorem builder_guarantees_witness:
  "built_operation sample_lib sample_kick \<and> \<not> genesis_shape (sample_kick\<lparr>op_action := COMMUNITY_CREATED\<rparr>)"
  using builder_guarantees [OF sample_lib_ok sample_kick_built]
  by (simp add: genesis_shape_def isGenesis_def action_isGenesis_def sample_kick_def sample_op_def op_parents_def)

text \<open>
  The three way merge of a set that an operation carries: what its author added is there,
  what its author removed is not, and what its author did not touch is as the current state has it.
\<close>

theorem merge_keeps_both_sides:
  "(e \<in> set (mergeSet want base cur)) =
     (if (e \<in> set want) = (e \<in> set base) then e \<in> set cur else e \<in> set want)"
  by (auto simp: set_mergeSet)

text \<open>
  An operation rebased onto a state in which nothing it carries changed since the state it
  was built on is applied exactly as it was signed.
\<close>

theorem rebase_without_changes:
  assumes "apply_operation L c op None = Inr c'" and "unchanged_since L op b c"
  shows "apply_operation L c op (Some b) = Inr c'"
  by (rule rebase_unchanged [OF assms])

definition sample_grant :: operation where
  "sample_grant = sample_op (CHR ''T'') MEMBER_ROLES_UPDATED ''ana''
     [(''identityId'', JString ''bo''), (''roleIds'', JArray [])] [CHR ''J'']"

theorem rebase_without_changes_witness:
  "\<exists>c'. apply_operation sample_lib sample_joined sample_grant None = Inr c' \<and>
     unchanged_since sample_lib sample_grant sample_joined sample_joined \<and>
     apply_operation sample_lib sample_joined sample_grant (Some sample_joined) = Inr c'"
proof -
  have "isOK (apply_operation sample_lib sample_joined sample_grant None)" by code_simp
  then obtain c' where "apply_operation sample_lib sample_joined sample_grant None = Inr c'" by (auto simp: isOK_iff)
  moreover have "unchanged_since sample_lib sample_grant sample_joined sample_joined" by (simp add: unchanged_since_def)
  ultimately show ?thesis using rebase_without_changes by blast
qed

section \<open>Limits of a history\<close>

text \<open>
  Of the operations of an author other than the founder, the fold applies at most
  \<open>MAX_OPERATIONS_PER_AUTHOR\<close>.
\<close>

theorem author_quota:
  assumes "distinct_parents ops" and "fold_operations L ops = Inr st" and "orderOf ops = Some ordered"
    and "founderOf ordered \<noteq> Some i"
  shows "length (filter (\<lambda>op. op_author op = i) (applied_of ordered (st_skipped st))) \<le> MAX_OPERATIONS_PER_AUTHOR"
  using foldOf_quota [OF _ assms(3,1,4)] assms(2) by (simp add: fold_operations_def)

theorem author_quota_witness:
  "\<exists>st. fold_operations sample_lib sample_history = Inr st \<and>
     length (filter (\<lambda>op. op_author op = ''bo'')
       (applied_of [sample_genesis, sample_join, sample_kick, sample_role] (st_skipped st))) \<le> 1000"
proof -
  have d: "distinct_parents sample_history"
    by (rule operations_ok_distinct [OF operations_built_ok [OF sample_lib_ok sample_history_built]])
  have "isOK (fold_operations sample_lib sample_history)" by code_simp
  then obtain st where st: "fold_operations sample_lib sample_history = Inr st" by (auto simp: isOK_iff)
  have "orderOf sample_history = Some [sample_genesis, sample_join, sample_kick, sample_role]" by code_simp
  moreover have "founderOf [sample_genesis, sample_join, sample_kick, sample_role] \<noteq> Some ''bo''" by code_simp
  ultimately show ?thesis using author_quota [OF d st] st by (auto simp: MAX_OPERATIONS_PER_AUTHOR_def)
qed

text \<open>
  Once the last member left nothing is applied any more: the community stays as it is, it
  stays deleted, and every later operation is skipped.
\<close>

theorem deleted_is_final:
  assumes "fold_loop L founder C byHash pastOf ops s = Inr s'" and "f_deleted s"
  shows "f_community s' = f_community s \<and> f_deleted s' \<and> f_skipped s' = f_skipped s @ map op_hash ops"
  by (rule fold_loop_deleted [OF assms])

theorem deleted_is_final_witness:
  "f_skipped (fold_init\<lparr>f_deleted := True, f_skipped := [op_hash sample_genesis]\<rparr>) = [op_hash sample_genesis] \<and>
   (\<exists>s'. fold_loop sample_lib None
      \<lparr>cuts_ancestry = new_Ancestry [], cuts_authored = [], cuts_taken = [], cuts_cutsOf = [], cuts_cyclic = [], cuts_standing = []\<rparr>
      [] (\<lambda>op. Inl None) [sample_join] (fold_init\<lparr>f_deleted := True, f_skipped := [op_hash sample_genesis]\<rparr>) = Inr s' \<and>
      f_skipped s' = [op_hash sample_genesis, op_hash sample_join])"
proof -
  let ?s = "fold_init\<lparr>f_deleted := True, f_skipped := [op_hash sample_genesis]\<rparr>"
  let ?C = "\<lparr>cuts_ancestry = new_Ancestry [], cuts_authored = [], cuts_taken = [], cuts_cutsOf = [], cuts_cyclic = [], cuts_standing = []\<rparr>"
  have "isOK (fold_loop sample_lib None ?C [] (\<lambda>op. Inl None) [sample_join] ?s)" by code_simp
  then obtain s' where "fold_loop sample_lib None ?C [] (\<lambda>op. Inl None) [sample_join] ?s = Inr s'" by (auto simp: isOK_iff)
  then show ?thesis using deleted_is_final [of sample_lib None ?C "[]" "\<lambda>op. Inl None" "[sample_join]" ?s s'] by simp
qed

section \<open>The ledger\<close>

text \<open>
  C23: whatever operations a ledger admits and refuses, its operations are filed under their
  digests, closed under parents and free of cycles, its counts are those of its operations, it
  remembers a bounded number of states, and its operations can all be ordered and folded.
\<close>

theorem ledger_is_consistent:
  assumes "lib_ok L" and "admitted L led"
  shows "ledger_inv led \<and>
    (\<exists>xs. orderOf (led_known led) = Some xs \<and> set xs = set (led_known led)) \<and>
    (\<exists>st. fold_operations L (led_known led) = Inr st \<and> state_ok L st)"
proof -
  have b: "ledger_inv led" "operations_built L (led_known led)" using admitted_built [OF assms] by auto
  have "distinct_parents (led_known led)" by (rule operations_ok_distinct [OF operations_built_ok [OF assms(1) b(2)]])
  moreover have "causal (led_known led)" using b(1) by (simp add: ledger_inv_def)
  ultimately have "\<exists>xs. orderOf (led_known led) = Some xs \<and> set xs = set (led_known led)" by (intro causal_ordered)
  moreover have "\<exists>st. foldOf L (led_known led) = Inr st \<and> state_ok L st"
    by (rule foldOf_total [OF assms(1) operations_built_ok [OF assms(1) b(2)]])
  ultimately show ?thesis using b(1) by (simp add: fold_operations_def)
qed

theorem ledger_is_consistent_witness:
  "led_known sample_ledger2 = [sample_genesis, sample_join] \<and> ledger_inv sample_ledger2 \<and>
   (\<exists>xs. orderOf (led_known sample_ledger2) = Some xs \<and> set xs = {sample_genesis, sample_join})"
proof -
  have "led_known sample_ledger2 = [sample_genesis, sample_join]" by code_simp
  then show ?thesis using ledger_is_consistent [OF sample_lib_ok sample_admitted] by auto
qed

text \<open>
  C24: what a ledger admits was permitted to its author by the state of its causal past, for the
  community and the network it names, and its parents had all arrived.
\<close>

theorem admission_is_permitted:
  assumes "admit L led candidate = Inr led'" and "\<not> led_has led candidate" and "\<not> isGenesis candidate"
  shows "\<exists>pst before community. led_pastOf L led (op_parents candidate) = Inr pst \<and>
    fromPrimitives L (past_community pst) = Inr before \<and>
    acts (op_author candidate) (op_action candidate) before community \<and>
    op_communityId candidate = c_id before \<and> op_networkId candidate = c_network before \<and>
    set (op_parents candidate) \<subseteq> fst ` set (led_operations led)"
  using assms(1)
proof (cases rule: admit_cases)
  case known
  then show ?thesis using assms(2) by simp
next
  case (stored community invs)
  from stored(4) [OF assms(3)] show ?thesis
  proof (cases rule: applyToPast_cases)
    case (1 pst before invs')
    then show ?thesis
      using apply_operation_acts [OF 1(4)] apply_operation_scope [OF 1(4)] stored(5) [OF assms(3)] by blast
  qed
qed

theorem admission_is_permitted_witness:
  "\<exists>pst before community. led_pastOf sample_lib sample_ledger1 (op_parents sample_join) = Inr pst \<and>
    fromPrimitives sample_lib (past_community pst) = Inr before \<and>
    acts ''bo'' MEMBER_JOINED before community \<and>
    op_communityId sample_join = c_id before \<and> op_networkId sample_join = c_network before \<and>
    set (op_parents sample_join) \<subseteq> fst ` set (led_operations sample_ledger1)"
proof -
  have "\<not> led_has sample_ledger1 sample_join" "\<not> isGenesis sample_join" by code_simp+
  from admission_is_permitted [OF sample_ledger2 this] show ?thesis
    by (simp add: sample_join_def sample_op_def)
qed

text \<open>
  An operation whose parents have not all arrived is refused with that error, and nothing
  is stored; one that is admitted is stored, what was stored stays, and admitting it again
  changes nothing.
\<close>

theorem admission_stores_once:
  "(\<not> led_has led candidate \<and> \<not> isGenesis candidate \<and> \<not> set (op_parents candidate) \<subseteq> fst ` set (led_operations led)
      \<longrightarrow> admit L led candidate = Inl (Some CommunityOperationParentsMissingError)) \<and>
   (\<forall>led'. admit L led candidate = Inr led' \<longrightarrow>
      led_has led' candidate \<and> admit L led' candidate = Inr led' \<and>
      (\<forall>h op. map_of (led_operations led) h = Some op \<longrightarrow> map_of (led_operations led') h = Some op))"
proof (intro conjI impI allI)
  assume a: "\<not> led_has led candidate \<and> \<not> isGenesis candidate \<and>
    \<not> set (op_parents candidate) \<subseteq> fst ` set (led_operations led)"
  then have "\<not> list_all (\<lambda>p. map_of (led_operations led) p \<noteq> None) (op_parents candidate)"
    by (simp only: list_all_iff keys_iff) blast
  then show "admit L led candidate = Inl (Some CommunityOperationParentsMissingError)"
    using a by (simp add: admit_def del: not_None_eq)
next
  fix led' assume ad: "admit L led candidate = Inr led'"
  show "led_has led' candidate" by (rule admit_stores [OF ad])
  show "admit L led' candidate = Inr led'" by (rule admit_idempotent [OF ad])
  fix h op assume "map_of (led_operations led) h = Some op"
  then show "map_of (led_operations led') h = Some op" by (rule admit_keeps [OF ad])
qed

theorem admission_stores_once_witness:
  "admit sample_lib sample_ledger1 sample_kick = Inl (Some CommunityOperationParentsMissingError) \<and>
   admit sample_lib sample_ledger2 sample_join = Inr sample_ledger2"
proof -
  have "\<not> led_has sample_ledger1 sample_kick \<and> \<not> isGenesis sample_kick" by code_simp
  moreover have "\<not> set (op_parents sample_kick) \<subseteq> fst ` set (led_operations sample_ledger1)" by code_simp
  ultimately show ?thesis
    using conjunct1 [OF admission_stores_once [of sample_ledger1 sample_kick sample_lib]]
      spec [OF conjunct2 [OF admission_stores_once [of sample_ledger1 sample_join sample_lib]], of sample_ledger2]
      sample_ledger2 by blast
qed

section \<open>Invitations, cuts and roles\<close>

text \<open>
  C26: an admission by invitation enters the ledger only with an invitation of its causal past. When
  the ledger admits an admission it did not hold, the state of the admission's parents has the
  invitation that the admission names by its argument \<open>invitationId\<close>. The invitation is open at the
  time of the admission, neither revoked nor cut nor used up, its issuer can still invite in the
  community of that state, and the identity that the admission names by its argument \<open>identityId\<close>
  is the one the invitation is for, when it is for one, and is not among its joiners. The arguments
  \<open>possession\<close> and \<open>consent\<close> are valid proofs for that identity. What the ledger then remembers for
  the admission has the identity as a member, and its text among the joiners of the invitation,
  which are still within its uses.
\<close>

theorem admission_uses_live_invitation:
  assumes "admit L led candidate = Inr led'" and "\<not> led_has led candidate" and "isAdmission candidate"
  shows "\<exists>community invs. led' = remember (op_hash candidate) community invs (filed led candidate) \<and>
   (\<exists>pst before iv s joiner possession consent used.
    led_pastOf L led (op_parents candidate) = Inr pst \<and> fromPrimitives L (past_community pst) = Inr before \<and>
    invitationOf (past_invitations pst) candidate = Some iv \<and>
    map_of (op_args candidate) ''identityId'' = Some (JString s) \<and> new_IdentityId L s = Inr joiner \<and>
    map_of (op_args candidate) ''possession'' = Some (JString possession) \<and>
    map_of (op_args candidate) ''consent'' = Some (JString consent) \<and>
    isOpenAt iv (op_createdAt candidate) \<and>
    \<not> status_revoked (inv_status iv) \<and> \<not> status_cut (inv_status iv) \<and>
    int (length (status_joinerIds (inv_status iv))) < inv_maxUses (inv_attributes iv) \<and>
    holds before (inv_issuer (inv_attributes iv)) CREATE_INVITES \<and>
    \<not> hasJoined iv joiner \<and> (\<forall>i. inv_invitee (inv_attributes iv) = Some i \<longrightarrow> i = joiner) \<and>
    lib_possession L (fieldsFor iv joiner) possession (inv_key (inv_attributes iv)) \<and>
    lib_consent L (fieldsFor iv joiner) consent \<and>
    joiner \<in> set (members (c_membership community)) \<and>
    map_of (byId invs) (inv_id (inv_attributes iv)) = Some used \<and>
    s \<in> set (status_joinerIds (inv_status used)) \<and>
    int (length (status_joinerIds (inv_status used))) \<le> inv_maxUses (inv_attributes iv))"
  using assms by (rule admit_admission)

definition sample_invite :: operation where
  "sample_invite = sample_op (CHR ''I'') INVITATION_CREATED ''ana''
     [(''expiresAt'', JInt 1000), (''invitationKey'', JString ''key''), (''maxUses'', JInt 1)] [CHR ''G'']"

definition sample_admission :: operation where
  "sample_admission = sample_op (CHR ''M'') MEMBER_JOINED ''ana''
     [(''consent'', JString ''c''), (''identityId'', JString ''cy''), (''invitationId'', JString (sample_hash (CHR ''I''))),
      (''method'', JString ''invitation''), (''possession'', JString ''p'')] [CHR ''I'']"

definition sample_invited_ledger :: ledger where
  "sample_invited_ledger = (case admit sample_lib sample_ledger1 sample_invite of Inr led \<Rightarrow> led)"

definition sample_admitted_ledger :: ledger where
  "sample_admitted_ledger = (case admit sample_lib sample_invited_ledger sample_admission of Inr led \<Rightarrow> led)"

lemma sample_admission_admitted: "admit sample_lib sample_invited_ledger sample_admission = Inr sample_admitted_ledger"
  by code_simp

theorem admission_uses_live_invitation_witness:
  "\<exists>pst before iv. led_pastOf sample_lib sample_invited_ledger [op_hash sample_invite] = Inr pst \<and>
     fromPrimitives sample_lib (past_community pst) = Inr before \<and>
     invitationOf (past_invitations pst) sample_admission = Some iv \<and>
     isLiveIn iv before \<and> \<not> hasJoined iv ''cy''"
proof -
  have "\<not> led_has sample_invited_ledger sample_admission" "isAdmission sample_admission" by code_simp+
  from admission_uses_live_invitation [OF sample_admission_admitted this]
  have "\<exists>pst before iv s joiner. led_pastOf sample_lib sample_invited_ledger (op_parents sample_admission) = Inr pst \<and>
     fromPrimitives sample_lib (past_community pst) = Inr before \<and>
     invitationOf (past_invitations pst) sample_admission = Some iv \<and> isLiveIn iv before \<and>
     map_of (op_args sample_admission) ''identityId'' = Some (JString s) \<and> new_IdentityId sample_lib s = Inr joiner \<and>
     \<not> hasJoined iv joiner"
    unfolding isLiveIn_def by meson
  moreover have "op_parents sample_admission = [op_hash sample_invite]"
    "map_of (op_args sample_admission) ''identityId'' = Some (JString ''cy'')" "new_IdentityId sample_lib ''cy'' = Inr ''cy''"
    by code_simp+
  ultimately show ?thesis by auto
qed

text \<open>
  What the cut of an operation takes is exactly the authority that members of the state
  before it lose by it: the membership of those who go out, and of each of the four permissions
  of the cuts, the holders that no longer hold it.
\<close>

theorem taken_is_what_was_lost:
  "(keyOf MEMBERSHIP m \<in> set (takenBetween before after) \<longleftrightarrow>
      m \<in> set (members (c_membership before)) \<and> m \<notin> set (members (c_membership after))) \<and>
   (keyOf (permission_value p) m \<in> set (takenBetween before after) \<longleftrightarrow>
      m \<in> set (members (c_membership before)) \<and> p \<in> set cut_permissions \<and> holds before m p \<and> \<not> holds after m p)"
  by (simp only: taken_membership taken_permission)

text \<open>
  C28: only an invitation or an admission is ever void, never a cut, and only because an
  operation of the set that stands and is concurrent with it took from its author the authority
  it needed.
\<close>

theorem void_needs_concurrent_cut:
  assumes "new_AuthorityCuts ordered A takenOf = Inr C" and "cuts_isVoid C op"
  shows "\<not> isCutting op \<and> (op_action op = INVITATION_CREATED \<or> isAdmission op) \<and>
    (\<exists>need cutter taken. needOf op = Some need \<and> cutter \<in> set ordered \<and> isCutting cutter \<and>
       op_hash cutter \<in> set (cuts_standing C) \<and> areConcurrent A (op_hash cutter) (op_hash op) \<and>
       takenOf cutter = Inr taken \<and> keyOf need (op_author op) \<in> set taken)"
  by (rule void_has_cutter [OF assms])

text \<open>A history in which \<open>bo\<close> may invite, is kicked, and invites concurrently.\<close>

definition sample_trusted :: community where
  "sample_trusted =
     (case bindR (addRole sample_joined ''ana'' ''inviters'' [CREATE_INVITES] ''role'')
             (\<lambda>c. assignRoles c ''ana'' ''bo'' [''role'']) of Inr c \<Rightarrow> c)"

definition sample_invite_by_member :: operation where
  "sample_invite_by_member = sample_op (CHR ''V'') INVITATION_CREATED ''bo''
     [(''expiresAt'', JInt 1000), (''invitationKey'', JString ''key''), (''maxUses'', JInt 1)] [CHR ''J'']"

definition sample_conflict :: "operation list" where
  "sample_conflict = [sample_genesis, sample_join, sample_kick, sample_invite_by_member]"

theorem void_needs_concurrent_cut_witness:
  "\<exists>C cutter taken.
     new_AuthorityCuts sample_conflict (new_Ancestry sample_conflict) (takenBy sample_lib (Some sample_trusted)) = Inr C \<and>
     cuts_isVoid C sample_invite_by_member \<and> cutter \<in> set sample_conflict \<and> isCutting cutter \<and>
     op_hash cutter \<in> set (cuts_standing C) \<and> takenBy sample_lib (Some sample_trusted) cutter = Inr taken"
proof -
  have "case new_AuthorityCuts sample_conflict (new_Ancestry sample_conflict) (takenBy sample_lib (Some sample_trusted)) of
      Inl e \<Rightarrow> False | Inr C \<Rightarrow> cuts_isVoid C sample_invite_by_member" by code_simp
  then obtain C where
    C: "new_AuthorityCuts sample_conflict (new_Ancestry sample_conflict) (takenBy sample_lib (Some sample_trusted)) = Inr C"
    and v: "cuts_isVoid C sample_invite_by_member" by (auto split: sum.splits)
  from void_needs_concurrent_cut [OF C v] show ?thesis using C v by blast
qed

text \<open>
  Deleting a role takes it from everyone: it is refused for the built-in role; otherwise no
  assignment names it any more, all other roles of every assignment stay, and nobody's
  membership or ban changes.
\<close>

theorem deleted_role_is_taken_from_everyone:
  assumes "deleteRole c actor rid = Inr c'"
  shows "holds c actor MANAGE_ROLES \<and>
    (\<exists>r. findRole (member_roles (c_membership c)) rid = Some r \<and> \<not> role_builtIn r) \<and>
    members (c_membership c') = members (c_membership c) \<and>
    bannedMembers (c_membership c') = bannedMembers (c_membership c) \<and>
    roles_assignments (member_roles (c_membership c')) =
      map (\<lambda>a. a\<lparr>assigned_roles := filter (\<lambda>x. x \<noteq> rid) (assigned_roles a)\<rparr>)
        (roles_assignments (member_roles (c_membership c))) \<and>
    (\<forall>a \<in> set (roles_assignments (member_roles (c_membership c'))). rid \<notin> set (assigned_roles a))"
proof -
  from assms obtain m where m: "membership_deleteRole (c_membership c) rid = Inr m"
    and h: "holds c actor MANAGE_ROLES" and c': "c' = recordUpdated (c\<lparr>c_membership := m\<rparr>)"
    by (auto simp: deleteRole_def)
  from m obtain rs where rs: "roles_remove (member_roles (c_membership c)) rid = Inr rs"
    and m': "m = (c_membership c)\<lparr>member_roles := rs\<rparr>" by (auto simp: membership_deleteRole_def)
  from roles_remove_conv [OF rs] obtain r where r: "findRole (member_roles (c_membership c)) rid = Some r" "\<not> role_builtIn r"
    and rs': "roles_assignments rs = map (\<lambda>a. a\<lparr>assigned_roles := filter (\<lambda>x. x \<noteq> rid) (assigned_roles a)\<rparr>)
      (roles_assignments (member_roles (c_membership c)))" by auto
  have "\<forall>a \<in> set (roles_assignments rs). rid \<notin> set (assigned_roles a)" by (auto simp: rs')
  then show ?thesis using h r rs' by (simp add: c' m')
qed

theorem deleted_role_is_taken_from_everyone_witness:
  "\<exists>c'. deleteRole sample_trusted ''ana'' ''role'' = Inr c' \<and>
     roles_assignments (member_roles (c_membership sample_trusted)) = [\<lparr>assigned_identity = ''bo'', assigned_roles = [''role'']\<rparr>] \<and>
     roles_assignments (member_roles (c_membership c')) = [\<lparr>assigned_identity = ''bo'', assigned_roles = []\<rparr>]"
proof -
  have "isOK (deleteRole sample_trusted ''ana'' ''role'')" by code_simp
  then obtain c' where c': "deleteRole sample_trusted ''ana'' ''role'' = Inr c'" by (auto simp: isOK_iff)
  have "roles_assignments (member_roles (c_membership sample_trusted)) = [\<lparr>assigned_identity = ''bo'', assigned_roles = [''role'']\<rparr>]"
    by code_simp
  then show ?thesis using c' deleted_role_is_taken_from_everyone [OF c'] by simp
qed

text \<open>
  The text channels listed for a member are exactly those it may view, as long as no id is
  used by two text channels.
\<close>

theorem listed_channels_are_viewable:
  assumes "visibleTextChannelIdsFor c i = Inr ids" and "distinct (map channel_getId (textChannels (c_channels c)))"
  shows "cid \<in> set ids \<longleftrightarrow> assertCanViewTextChannel c i cid = Inr ()"
proof -
  let ?P = "canAccessChannel (c_owner c) (c_membership c) i"
  from assms(1) have m: "i \<in> set (members (c_membership c))" and ids: "ids = visibleTextChannelIds (c_channels c) ?P"
    by (auto simp: visibleTextChannelIdsFor_def)
  have "cid \<in> set ids \<longleftrightarrow> (\<exists>ch \<in> set (textChannels (c_channels c)). channel_getId ch = cid \<and> ?P (channel_visibleRoleIds ch))"
    by (auto simp: ids visibleTextChannelIds_def)
  also have "\<dots> \<longleftrightarrow> (\<exists>rids. textChannelPermissions (c_channels c) cid = Inr rids \<and> ?P rids)"
    by (rule textChannels_viewable [OF assms(2)])
  also have "\<dots> \<longleftrightarrow> assertCanViewTextChannel c i cid = Inr ()"
    using m by (auto simp: assertCanViewTextChannel_def assertCanAccessChannel_def textChannelPermissions_def
        findText_def hasText_iff split: option.splits)
  finally show ?thesis .
qed

definition sample_chatting :: community where
  "sample_chatting = (case addTextChannel sample_joined ''ana'' ''general'' ''channel'' 7 of Inr c \<Rightarrow> c)"

theorem listed_channels_are_viewable_witness:
  "\<exists>ids. visibleTextChannelIdsFor sample_chatting ''bo'' = Inr ids \<and> ''channel'' \<in> set ids \<and>
     assertCanViewTextChannel sample_chatting ''bo'' ''channel'' = Inr ()"
proof -
  have "isOK (visibleTextChannelIdsFor sample_chatting ''bo'')" by code_simp
  then obtain ids where ids: "visibleTextChannelIdsFor sample_chatting ''bo'' = Inr ids" by (auto simp: isOK_iff)
  have d: "distinct (map channel_getId (textChannels (c_channels sample_chatting)))" by code_simp
  have "isOK (assertCanViewTextChannel sample_chatting ''bo'' ''channel'')" by code_simp
  then have "assertCanViewTextChannel sample_chatting ''bo'' ''channel'' = Inr ()" by (auto simp: isOK_iff)
  then show ?thesis using ids listed_channels_are_viewable [OF ids d, of "''channel''"] by blast
qed

text \<open>
  A membership request is resolved once: only a pending request is accepted or declined,
  by somebody who may, what results is not pending, and accepting it makes its requester a
  member unless it is banned.
\<close>

theorem request_is_resolved_once:
  "(\<forall>c' r'. acceptMembershipRequest c actor r t = Inr (c', r') \<longrightarrow>
      request_status r = PENDING \<and> request_status r' = ACCEPTED \<and> holds c actor APPROVE_MEMBERS \<and>
      request_identityId r \<in> set (members (c_membership c')) \<and>
      request_identityId r \<notin> set (bannedMembers (c_membership c)) \<and>
      acceptMembershipRequest c actor r' t = Inl CommunityRequestAlreadyResolvedError) \<and>
   (\<forall>r'. declineMembershipRequest c actor r t = Inr r' \<longrightarrow>
      request_status r = PENDING \<and> request_status r' = DECLINED \<and> holds c actor REJECT_MEMBERS \<and>
      declineMembershipRequest c actor r' t = Inl CommunityRequestAlreadyResolvedError)"
  by (auto simp: acceptMembershipRequest_def declineMembershipRequest_def request_accept_def request_decline_def
      recordRequest_def join_def membership_add_def Let_def assertCanApproveMembers_def assertCanRejectMembers_def
      holds_def assertHasPermission_def split: if_splits)

definition sample_request :: membership_request where
  "sample_request = request_create sample_lib ''flock'' ''cy'' 9 (Some ''ana'')"

theorem request_is_resolved_once_witness:
  "\<exists>c' r'. acceptMembershipRequest sample_founded ''ana'' sample_request 10 = Inr (c', r') \<and>
     ''cy'' \<in> set (members (c_membership c')) \<and>
     acceptMembershipRequest sample_founded ''ana'' r' 10 = Inl CommunityRequestAlreadyResolvedError"
proof -
  have "isOK (acceptMembershipRequest sample_founded ''ana'' sample_request 10)" by code_simp
  then obtain c' r' where a: "acceptMembershipRequest sample_founded ''ana'' sample_request 10 = Inr (c', r')"
    by (auto simp: isOK_iff)
  have "request_identityId sample_request = ''cy''" by code_simp
  with a conjunct1 [OF request_is_resolved_once [of sample_founded "''ana''" sample_request 10], THEN spec, THEN spec, THEN mp, OF a]
  show ?thesis by auto
qed

text \<open>
  C32: the search for components is right: the components cover what the nodes reach, each node
  is in one of them, each is the set of all nodes that reach it and are reached by it, and they
  come sources first: what a component reaches is in it or after it.
\<close>

theorem components_are_correct:
  "set (concat (componentsOf nodes g)) = {v. \<exists>r \<in> set nodes. reach (edgesOf g) r v} \<and>
   distinct (concat (componentsOf nodes g)) \<and>
   (\<forall>us c vs x. componentsOf nodes g = us @ c # vs \<longrightarrow> x \<in> set c \<longrightarrow>
      set c = {y. reach (edgesOf g) x y \<and> reach (edgesOf g) y x} \<and>
      {y. reach (edgesOf g) x y} \<subseteq> set c \<union> set (concat vs))"
proof (intro conjI allI impI)
  fix us c vs x
  assume c: "componentsOf nodes g = us @ c # vs" and x: "x \<in> set c"
  show "set c = {y. reach (edgesOf g) x y \<and> reach (edgesOf g) y x}"
    using components_facts(3) [of c nodes g x] c x by simp
  show "{y. reach (edgesOf g) x y} \<subseteq> set c \<union> set (concat vs)"
    using components_sources_first [OF c x] by blast
qed (rule components_facts)+

theorem components_are_correct_witness:
  "reach (edgesOf [(''a'', [''b'']), (''b'', [''c'']), (''c'', [''b''])]) ''b'' ''c'' \<and>
   reach (edgesOf [(''a'', [''b'']), (''b'', [''c'']), (''c'', [''b''])]) ''c'' ''b''"
proof -
  let ?g = "[(''a'', [''b'']), (''b'', [''c'']), (''c'', [''b''])] :: graph"
  let ?n = "[''a'', ''b'', ''c'']"
  have c: "componentsOf ?n ?g = [[''a'']] @ [''c'', ''b''] # []" by code_simp
  note h = components_are_correct [of ?n ?g, THEN conjunct2, THEN conjunct2, THEN spec, THEN spec, THEN spec, THEN spec,
      THEN mp, OF c, of "''b''", THEN mp, THEN conjunct1]
  have "set [''c'', ''b''] = {y. reach (edgesOf ?g) ''b'' y \<and> reach (edgesOf ?g) y ''b''}" by (rule h) simp
  moreover have "''c'' \<in> set [''c'', ''b'']" by simp
  ultimately have "''c'' \<in> {y. reach (edgesOf ?g) ''b'' y \<and> reach (edgesOf ?g) y ''b''}" by (simp only:)
  then show ?thesis by simp
qed

end
